(* ===== verification/Prelude.thy ===== *)
theory Prelude
  imports Main "HOL-Library.AList" "HOL-Library.Multiset" "HOL-Library.Product_Lexorder"
begin

text \<open>
  Shared vocabulary of the development: Python exceptions as values of a sum type, the two
  traversals every preparation routine is an instance of (a comprehension that may raise and
  a loop over a mutable state that may raise), insertion-ordered dictionaries as association
  lists, and the list lemmas about equally long rows, in-place updates and sums that the
  component theories use.  The interface of an injective integer encoding (edges,
  descriptors, directory slots) is the locale \<open>codec\<close>.
\<close>

section \<open>Exceptions as values\<close>

text \<open>
  The payload is the fixed leading part of the message the source formats; interpolated
  values are left out.  A run of a routine is \<open>Inl\<close> of the exception it raises or
  \<open>Inr\<close> of what it returns.
\<close>

datatype exn =
    ValueError string
  | TypeError string
  | KeyError
  | IndexError
  | AttributeError
  | OverflowError
  | AssertionError string
  | StopIteration
  | ZeroDivisionError
  | ParameterError string
  | KeyShareFormatError string
  | RequestValidationError string
  | ResponseValidationError string
  | CombineError string
  | DomainError string
  | ProjectionError string
  | StoreError string
  | OSError

type_synonym 'a res = "exn + 'a"

definition bindr :: "'a res \<Rightarrow> ('a \<Rightarrow> 'b res) \<Rightarrow> 'b res" where
  "bindr m f = (case m of Inl e \<Rightarrow> Inl e | Inr x \<Rightarrow> f x)"

definition is_ok :: "'a res \<Rightarrow> bool" where
  "is_ok m = (case m of Inl _ \<Rightarrow> False | Inr _ \<Rightarrow> True)"

definition raise_if :: "bool \<Rightarrow> exn \<Rightarrow> unit res" where
  "raise_if b e = (if b then Inl e else Inr ())"

named_theorems res_simps "rules that take a successful run apart"

lemma bindr_Inl [simp]: "bindr (Inl e) f = Inl e"
  by (simp add: bindr_def)

lemma bindr_Inr [simp]: "bindr (Inr x) f = f x"
  by (simp add: bindr_def)

lemma bindr_eq_Inr [res_simps]: "bindr m f = Inr y \<longleftrightarrow> (\<exists>x. m = Inr x \<and> f x = Inr y)"
  by (cases m) auto

lemma bindr_eq_Inl: "bindr m f = Inl e \<longleftrightarrow> m = Inl e \<or> (\<exists>x. m = Inr x \<and> f x = Inl e)"
  by (cases m) auto

lemma bindr_assoc: "bindr (bindr m f) g = bindr m (\<lambda>x. bindr (f x) g)"
  by (cases m) auto

lemma bindr_Inr_right [simp]: "bindr m Inr = m"
  by (cases m) auto

lemma bindr_cong [fundef_cong]:
  assumes "m = m'" and "\<And>x. m' = Inr x \<Longrightarrow> f x = f' x"
  shows "bindr m f = bindr m' f'"
  using assms by (cases m') auto

lemma is_ok_simps [simp]: "is_ok (Inr x)" "\<not> is_ok (Inl e)"
  by (simp_all add: is_ok_def)

lemma is_ok_iff: "is_ok m \<longleftrightarrow> (\<exists>x. m = Inr x)"
  by (cases m) auto

lemma raise_if_eq_Inr [res_simps]: "raise_if b e = Inr u \<longleftrightarrow> \<not> b"
  by (simp add: raise_if_def)

lemma raise_if_False [simp]: "raise_if False e = Inr ()"
  by (simp add: raise_if_def)

lemma raise_if_True [simp]: "raise_if True e = Inl e"
  by (simp add: raise_if_def)

lemma if_Inl_eq_Inr [res_simps]: "(if b then Inl e else m) = Inr y \<longleftrightarrow> \<not> b \<and> m = Inr y"
  by simp

section \<open>Traversals that may raise\<close>

text \<open>\<open>traverse\<close> is a list comprehension, \<open>foldM\<close> a loop that updates a state.\<close>

fun traverse :: "('a \<Rightarrow> 'b res) \<Rightarrow> 'a list \<Rightarrow> 'b list res" where
  "traverse f [] = Inr []"
| "traverse f (x # xs) = bindr (f x) (\<lambda>y. bindr (traverse f xs) (\<lambda>ys. Inr (y # ys)))"

fun foldM :: "('a \<Rightarrow> 's \<Rightarrow> 's res) \<Rightarrow> 'a list \<Rightarrow> 's \<Rightarrow> 's res" where
  "foldM f [] s = Inr s"
| "foldM f (x # xs) s = bindr (f x s) (foldM f xs)"

lemma traverse_cong [fundef_cong]:
  assumes "xs = ys" and "\<And>x. x \<in> set ys \<Longrightarrow> f x = g x"
  shows "traverse f xs = traverse g ys"
  unfolding assms(1) using assms(2) by (induction ys) auto

lemma foldM_append: "foldM f (xs @ ys) s = bindr (foldM f xs s) (foldM f ys)"
proof (induction xs arbitrary: s)
  case (Cons x xs)
  then show ?case by (cases "f x s") auto
qed simp

lemma traverse_append:
  "traverse f (xs @ ys) = bindr (traverse f xs) (\<lambda>as. bindr (traverse f ys) (\<lambda>bs. Inr (as @ bs)))"
proof (induction xs)
  case Nil
  then show ?case by (cases "traverse f ys") auto
next
  case (Cons x xs)
  then show ?case
    by (cases "f x"; cases "traverse f xs"; cases "traverse f ys") auto
qed

lemma traverse_eq_Inr: "traverse f xs = Inr ys \<longleftrightarrow> list_all2 (\<lambda>x y. f x = Inr y) xs ys"
  by (induction xs arbitrary: ys) (auto simp: res_simps list_all2_Cons1)

lemma traverse_Inr: "(\<And>x. x \<in> set xs \<Longrightarrow> f x = Inr (g x)) \<Longrightarrow> traverse f xs = Inr (map g xs)"
  by (induction xs) auto

lemma length_traverse: "traverse f xs = Inr ys \<Longrightarrow> length ys = length xs"
  by (auto simp: traverse_eq_Inr dest: list_all2_lengthD)

lemma traverse_nth: "traverse f xs = Inr ys \<Longrightarrow> i < length xs \<Longrightarrow> f (xs ! i) = Inr (ys ! i)"
  by (auto simp: traverse_eq_Inr dest: list_all2_nthD)

lemma traverse_set: "traverse f xs = Inr ys \<Longrightarrow> y \<in> set ys \<Longrightarrow> \<exists>x \<in> set xs. f x = Inr y"
  by (auto simp: traverse_eq_Inr list_all2_conv_all_nth in_set_conv_nth) (metis nth_mem)

text \<open>The loop invariant rule: \<open>P done state\<close> relates the consumed prefix to the state.\<close>

lemma foldM_invariant:
  assumes "foldM f xs s = Inr t" and "P [] s"
    and "\<And>ys x s s'. f x s = Inr s' \<Longrightarrow> P ys s \<Longrightarrow> x \<in> set xs \<Longrightarrow> P (ys @ [x]) s'"
  shows "P xs t"
proof -
  have "foldM f zs s = Inr t \<Longrightarrow> P ys s \<Longrightarrow> set zs \<subseteq> set xs \<Longrightarrow> P (ys @ zs) t" for ys zs s
  proof (induction zs arbitrary: ys s)
    case (Cons z zs)
    then obtain s' where "f z s = Inr s'" "foldM f zs s' = Inr t"
      by (auto simp: res_simps)
    with Cons.IH [of s' "ys @ [z]"] Cons.prems assms(3) [of z s s' ys] show ?case
      by simp
  qed simp
  from this [of xs s "[]"] assms(1,2) show ?thesis by simp
qed

lemma foldM_preserves:
  assumes "foldM f xs s = Inr t" and "P s"
    and "\<And>x s s'. f x s = Inr s' \<Longrightarrow> P s \<Longrightarrow> x \<in> set xs \<Longrightarrow> P s'"
  shows "P t"
  using foldM_invariant [of f xs s t "\<lambda>_. P"] assms by blast

lemma foldM_Inr: "(\<And>x s. x \<in> set xs \<Longrightarrow> f x s = Inr (g x s)) \<Longrightarrow> foldM f xs s = Inr (fold g xs s)"
  by (induction xs arbitrary: s) auto

section \<open>Insertion-ordered dictionaries\<close>

text \<open>
  A dictionary is an association list in insertion order; \<open>AList.update\<close> replaces a value in
  place or appends a new key, as Python's \<open>d[k] = v\<close> does.  \<open>push_at\<close> is
  \<open>d.setdefault(k, []).append(v)\<close> and \<open>count_at\<close> is \<open>counter[k] += 1\<close>.
\<close>

definition get_or :: "'v \<Rightarrow> ('k \<times> 'v) list \<Rightarrow> 'k \<Rightarrow> 'v" where
  "get_or d al k = (case map_of al k of None \<Rightarrow> d | Some v \<Rightarrow> v)"

definition push_at :: "'k \<Rightarrow> 'v \<Rightarrow> ('k \<times> 'v list) list \<Rightarrow> ('k \<times> 'v list) list" where
  "push_at k v al = AList.update k (get_or [] al k @ [v]) al"

definition count_at :: "'k \<Rightarrow> ('k \<times> nat) list \<Rightarrow> ('k \<times> nat) list" where
  "count_at k al = AList.update k (get_or 0 al k + 1) al"

lemma get_or_update [simp]:
  "get_or d (AList.update k v al) k' = (if k' = k then v else get_or d al k')"
  by (simp add: get_or_def update_conv')

lemma get_or_Nil [simp]: "get_or d [] k = d"
  by (simp add: get_or_def)

lemma get_or_push_at [simp]:
  "get_or [] (push_at k v al) k' = get_or [] al k' @ (if k' = k then [v] else [])"
  by (simp add: push_at_def)

lemma get_or_count_at [simp]:
  "get_or 0 (count_at k al) k' = get_or 0 al k' + (if k' = k then 1 else 0)"
  by (simp add: count_at_def)

lemma keys_push_at [simp]: "fst ` set (push_at k v al) = insert k (fst ` set al)"
  by (simp add: push_at_def dom_update)

lemma keys_count_at [simp]: "fst ` set (count_at k al) = insert k (fst ` set al)"
  by (simp add: count_at_def dom_update)

lemma distinct_push_at: "distinct (map fst al) \<Longrightarrow> distinct (map fst (push_at k v al))"
  by (simp add: push_at_def distinct_update)

lemma distinct_count_at: "distinct (map fst al) \<Longrightarrow> distinct (map fst (count_at k al))"
  by (simp add: count_at_def distinct_update)

lemma get_or_in: "(k, v) \<in> set al \<Longrightarrow> distinct (map fst al) \<Longrightarrow> get_or d al k = v"
  by (simp add: get_or_def)

lemma get_or_notin: "k \<notin> fst ` set al \<Longrightarrow> get_or d al k = d"
proof -
  assume "k \<notin> fst ` set al"
  then have "map_of al k = None" by (simp add: map_of_eq_None_iff)
  then show ?thesis by (simp add: get_or_def)
qed

text \<open>Grouping a list by key keeps, for each key, its values in order.\<close>

definition group_by :: "('a \<Rightarrow> 'k) \<Rightarrow> ('a \<Rightarrow> 'v) \<Rightarrow> 'a list \<Rightarrow> ('k \<times> 'v list) list" where
  "group_by key val xs = fold (\<lambda>x. push_at (key x) (val x)) xs []"

definition count_by :: "('a \<Rightarrow> 'k) \<Rightarrow> 'a list \<Rightarrow> ('k \<times> nat) list" where
  "count_by key xs = fold (\<lambda>x. count_at (key x)) xs []"

lemma get_or_fold_push:
  "get_or [] (fold (\<lambda>x. push_at (key x) (val x)) xs al) k
    = get_or [] al k @ map val (filter (\<lambda>x. key x = k) xs)"
  by (induction xs arbitrary: al) auto

lemma get_or_group_by [simp]:
  "get_or [] (group_by key val xs) k = map val (filter (\<lambda>x. key x = k) xs)"
  by (simp add: group_by_def get_or_fold_push)

lemma keys_fold_push:
  "fst ` set (fold (\<lambda>x. push_at (key x) (val x)) xs al) = fst ` set al \<union> key ` set xs"
  by (induction xs arbitrary: al) auto

lemma keys_group_by [simp]: "fst ` set (group_by key val xs) = key ` set xs"
  by (simp add: group_by_def keys_fold_push)

lemma distinct_group_by [simp]: "distinct (map fst (group_by key val xs))"
proof -
  have "distinct (map fst al) \<Longrightarrow> distinct (map fst (fold (\<lambda>x. push_at (key x) (val x)) xs al))"
    for al by (induction xs arbitrary: al) (auto simp: distinct_push_at)
  then show ?thesis by (simp add: group_by_def)
qed

lemma group_by_entry:
  assumes "(k, vs) \<in> set (group_by key val xs)"
  shows "vs = map val (filter (\<lambda>x. key x = k) xs)"
  using get_or_in [OF assms distinct_group_by, of "[]"] by simp

lemma group_by_nonempty:
  assumes "(k, vs) \<in> set (group_by key val xs)"
  shows "vs \<noteq> []"
proof -
  have "fst (k, vs) \<in> fst ` set (group_by key val xs)" using assms by (rule imageI)
  then have "k \<in> key ` set xs" by simp
  then obtain x where "x \<in> set xs" "key x = k" by auto
  with group_by_entry [OF assms] show ?thesis by (auto simp: filter_empty_conv)
qed

lemma get_or_fold_count:
  "get_or 0 (fold (\<lambda>x. count_at (key x)) xs al) k
    = get_or 0 al k + length (filter (\<lambda>x. key x = k) xs)"
  by (induction xs arbitrary: al) auto

lemma get_or_count_by [simp]:
  "get_or 0 (count_by key xs) k = length (filter (\<lambda>x. key x = k) xs)"
  by (simp add: count_by_def get_or_fold_count)

lemma keys_fold_count:
  "fst ` set (fold (\<lambda>x. count_at (key x)) xs al) = fst ` set al \<union> key ` set xs"
  by (induction xs arbitrary: al) auto

lemma keys_count_by [simp]: "fst ` set (count_by key xs) = key ` set xs"
  by (simp add: count_by_def keys_fold_count)

lemma distinct_count_by [simp]: "distinct (map fst (count_by key xs))"
proof -
  have "distinct (map fst al) \<Longrightarrow> distinct (map fst (fold (\<lambda>x. count_at (key x)) xs al))"
    for al by (induction xs arbitrary: al) (auto simp: distinct_count_at)
  then show ?thesis by (simp add: count_by_def)
qed

lemma count_by_entry:
  assumes "(k, n) \<in> set (count_by key xs)"
  shows "n = length (filter (\<lambda>x. key x = k) xs)"
  using get_or_in [OF assms distinct_count_by, of 0] by simp

section \<open>Rows of equal length\<close>

lemma length_concat_uniform:
  "(\<And>r. r \<in> set rows \<Longrightarrow> length r = w) \<Longrightarrow> length (concat rows) = length rows * w"
  by (induction rows) auto

lemma concat_uniform_nth:
  assumes "\<And>r. r \<in> set rows \<Longrightarrow> length r = w" and "i < length rows" and "j < w"
  shows "concat rows ! (i * w + j) = rows ! i ! j"
  using assms
proof (induction rows arbitrary: i)
  case (Cons r rows)
  show ?case
  proof (cases i)
    case 0
    with Cons.prems show ?thesis by (simp add: nth_append)
  next
    case (Suc k)
    with Cons.prems Cons.IH [of k] show ?thesis by (simp add: nth_append)
  qed
qed simp

lemma concat_uniform_slice:
  assumes "\<And>r. r \<in> set rows \<Longrightarrow> length r = w" and "i < length rows"
  shows "take w (drop (i * w) (concat rows)) = rows ! i"
  using assms
proof (induction rows arbitrary: i)
  case (Cons r rows)
  show ?case
  proof (cases i)
    case 0
    with Cons.prems show ?thesis by simp
  next
    case (Suc k)
    with Cons.prems Cons.IH [of k] show ?thesis by simp
  qed
qed simp

text \<open>Cutting a list into padded windows and gluing them back.\<close>

lemma concat_windows:
  fixes z :: 'a
  assumes "0 < w" and "length xs \<le> n * w"
  shows "concat (map (\<lambda>i. take w (drop (i * w) xs) @ replicate (w - length (take w (drop (i * w) xs))) z) [0..<n]) =
    xs @ replicate (n * w - length xs) z"
  using assms(2)
proof (induction n arbitrary: xs)
  case (Suc n)
  let ?page = "\<lambda>xs i. take w (drop (i * w) xs) @ replicate (w - length (take w (drop (i * w) xs))) z"
  have "map (?page xs) [0..<Suc n] = ?page xs 0 # map (\<lambda>i. ?page xs (Suc i)) [0..<n]"
    unfolding map_upt_Suc ..
  also have "map (\<lambda>i. ?page xs (Suc i)) [0..<n] = map (?page (drop w xs)) [0..<n]"
    by (simp add: add.commute)
  finally have "concat (map (?page xs) [0..<Suc n]) = ?page xs 0 @ concat (map (?page (drop w xs)) [0..<n])"
    by simp
  also have "\<dots> = ?page xs 0 @ drop w xs @ replicate (n * w - length (drop w xs)) z"
    using Suc.IH [of "drop w xs"] Suc.prems by (simp only: length_drop) (simp only: mult_Suc le_diff_conv add.commute)
  also have "\<dots> = xs @ replicate (Suc n * w - length xs) z"
  proof (cases "length xs \<le> w")
    case True
    then have "w - length xs + n * w = Suc n * w - length xs" by simp
    with True show ?thesis by (simp flip: replicate_add)
  qed (simp add: add.commute)
  finally show ?case .
qed simp

lemma row_index_less: "i < n \<Longrightarrow> j < w \<Longrightarrow> i * w + j < n * (w::nat)"
proof -
  assume "i < n" "j < w"
  then have "i * w + j < Suc i * w" by simp
  also have "\<dots> \<le> n * w" using \<open>i < n\<close> by (intro mult_le_mono1) simp
  finally show ?thesis .
qed

lemma row_index_inj:
  assumes "i * w + j = i' * w + j'" and "j < w" and "j' < (w::nat)"
  shows "i = i' \<and> j = j'"
proof -
  have "(i * w + j) div w = i" "(i' * w + j') div w = i'" using assms(2,3) by simp_all
  then show ?thesis using assms(1) by simp
qed

section \<open>In-place updates\<close>

definition apply_writes :: "(nat \<times> 'a) list \<Rightarrow> 'a list \<Rightarrow> 'a list" where
  "apply_writes ws xs = fold (\<lambda>(i, v) ys. ys[i := v]) ws xs"

lemma length_apply_writes [simp]: "length (apply_writes ws xs) = length xs"
  unfolding apply_writes_def by (induction ws arbitrary: xs) auto

lemma apply_writes_other:
  "i \<notin> fst ` set ws \<Longrightarrow> apply_writes ws xs ! i = xs ! i"
  unfolding apply_writes_def by (induction ws arbitrary: xs) auto

lemma apply_writes_Cons [simp]: "apply_writes ((i, v) # ws) xs = apply_writes ws (xs[i := v])"
  by (simp add: apply_writes_def)

lemma apply_writes_Nil [simp]: "apply_writes [] xs = xs"
  by (simp add: apply_writes_def)

lemma apply_writes_hit:
  assumes "(i, v) \<in> set ws" and "distinct (map fst ws)" and "i < length xs"
  shows "apply_writes ws xs ! i = v"
  using assms
proof (induction ws arbitrary: xs)
  case (Cons w ws)
  obtain j u where w: "w = (j, u)" by (cases w)
  show ?case
  proof (cases "(i, v) = w")
    case True
    with Cons.prems w have "i \<notin> fst ` set ws" by auto
    with True w Cons.prems(3) show ?thesis by (simp add: apply_writes_other)
  next
    case False
    with Cons.prems w have "(i, v) \<in> set ws" by auto
    with Cons.IH [of "xs[j := u]"] Cons.prems w show ?thesis by simp
  qed
qed simp

section \<open>Sums\<close>

lemma sum_list_zero: "(\<And>x. x \<in> set xs \<Longrightarrow> x = 0) \<Longrightarrow> sum_list xs = (0::int)"
  by (induction xs) auto

lemma sum_list_single:
  assumes "i < length xs" and "\<And>j. j < length xs \<Longrightarrow> j \<noteq> i \<Longrightarrow> xs ! j = (0::int)"
  shows "sum_list xs = xs ! i"
proof -
  have split: "xs = take i xs @ xs ! i # drop (Suc i) xs"
    using assms(1) by (simp add: id_take_nth_drop)
  have "sum_list (take i xs) = 0"
    using assms by (intro sum_list_zero) (auto simp: in_set_conv_nth)
  moreover have "sum_list (drop (Suc i) xs) = 0"
    using assms by (intro sum_list_zero) (auto simp: in_set_conv_nth)
  moreover have "sum_list xs = sum_list (take i xs) + (xs ! i + sum_list (drop (Suc i) xs))"
    by (subst split) (simp only: sum_list_append sum_list_simps)
  ultimately show ?thesis by simp
qed

section \<open>Encodings\<close>

text \<open>
  An encoder with a left inverse on the values it accepts.  Clients use it to read a whole
  table back and to know that distinct values stay distinct.
\<close>

locale codec =
  fixes enc :: "'a \<Rightarrow> 'b" and dec :: "'b \<Rightarrow> 'a" and ok :: "'a \<Rightarrow> bool"
  assumes dec_enc: "ok x \<Longrightarrow> dec (enc x) = x"
begin

lemma enc_inj_on: "inj_on enc {x. ok x}"
  by (rule inj_onI) (metis dec_enc mem_Collect_eq)

lemma dec_enc_list: "(\<And>x. x \<in> set xs \<Longrightarrow> ok x) \<Longrightarrow> map dec (map enc xs) = xs"
  by (induction xs) (auto simp: dec_enc)

lemma enc_eq_iff: "ok x \<Longrightarrow> ok y \<Longrightarrow> enc x = enc y \<longleftrightarrow> x = y"
  by (metis dec_enc)

end

end
