(* ===== verification/Py_Values.thy ===== *)
theory Py_Values
  imports Complex_Main Prelude "HOL-Library.Char_ord" "HOL-Library.List_Lexorder"
begin

text \<open>
  The Python built-ins the source relies on: values read from JSON, integer equality across
  \<open>bool\<close>, \<open>int\<close> and \<open>float\<close>, subscription of lists and dictionaries with the exceptions it
  raises, \<open>int.bit_length\<close>, and the system random number generator as an explicit stream of
  draws.  Strings are lists of characters and integers are unbounded.
\<close>

section \<open>JSON values\<close>

datatype jval =
    JNull
  | JBool bool
  | JInt int
  | JFloat rat
  | JStr string
  | JList "jval list"
  | JDict "(string \<times> jval) list"

text \<open>\<open>isinstance(v, int) and not isinstance(v, bool)\<close>, and the test that accepts \<open>bool\<close>.\<close>

fun strict_int :: "jval \<Rightarrow> int option" where
  "strict_int (JInt i) = Some i"
| "strict_int _ = None"

fun loose_int :: "jval \<Rightarrow> int option" where
  "loose_int (JInt i) = Some i"
| "loose_int (JBool b) = Some (if b then 1 else 0)"
| "loose_int _ = None"

text \<open>\<open>v == n\<close> for an integer \<open>n\<close>: \<open>True == 1\<close> and \<open>1.0 == 1\<close> hold.\<close>

fun eq_int :: "jval \<Rightarrow> int \<Rightarrow> bool" where
  "eq_int (JInt i) n = (i = n)"
| "eq_int (JBool b) n = ((if b then 1 else 0) = n)"
| "eq_int (JFloat r) n = (r = of_int n)"
| "eq_int _ n = False"

fun eq_str :: "jval \<Rightarrow> string \<Rightarrow> bool" where
  "eq_str (JStr s) t = (s = t)"
| "eq_str _ t = False"

fun hashable :: "jval \<Rightarrow> bool" where
  "hashable (JList _) = False"
| "hashable (JDict _) = False"
| "hashable _ = True"

text \<open>\<open>document.get(key)\<close> on a dictionary: a missing key reads as \<open>None\<close>.\<close>

definition jget :: "(string \<times> jval) list \<Rightarrow> string \<Rightarrow> jval" where
  "jget d k = get_or JNull d k"

text \<open>\<open>v[key]\<close> for a string key.\<close>

fun jitem :: "jval \<Rightarrow> string \<Rightarrow> jval res" where
  "jitem (JDict d) k = (case map_of d k of None \<Rightarrow> Inl KeyError | Some v \<Rightarrow> Inr v)"
| "jitem _ k = Inl (TypeError ''subscript'')"

text \<open>\<open>set(v) == {names}\<close>: the keys of a dictionary, the elements of a list, the characters of a string.\<close>

fun keys_are :: "string list \<Rightarrow> jval \<Rightarrow> bool res" where
  "keys_are names (JDict d) = Inr (set (map fst d) = set names)"
| "keys_are names (JList xs) =
     (if list_all hashable xs then Inr (set xs = JStr ` set names)
      else Inl (TypeError ''unhashable''))"
| "keys_are names (JStr s) = Inr ((\<lambda>c. [c]) ` set s = set names)"
| "keys_are names _ = Inl (TypeError ''not iterable'')"

fun is_dict :: "jval \<Rightarrow> bool" where
  "is_dict (JDict _) = True"
| "is_dict _ = False"

text \<open>A name looked up in a \<open>dict[str, int]\<close>.\<close>

definition vocab_get :: "(string \<times> int) list \<Rightarrow> jval \<Rightarrow> int res" where
  "vocab_get vocab v =
     (case v of
        JStr s \<Rightarrow> (case map_of vocab s of None \<Rightarrow> Inl KeyError | Some i \<Rightarrow> Inr i)
      | _ \<Rightarrow> (if hashable v then Inl KeyError else Inl (TypeError ''unhashable'')))"

text \<open>\<open>except (KeyError, TypeError) as exc: raise ValueError(...) from exc\<close>.\<close>

definition except_lookup :: "exn \<Rightarrow> 'a res \<Rightarrow> 'a res" where
  "except_lookup e m =
     (case m of
        Inl KeyError \<Rightarrow> Inl e
      | Inl (TypeError _) \<Rightarrow> Inl e
      | _ \<Rightarrow> m)"

lemma except_lookup_eq_Inr [res_simps]: "except_lookup e m = Inr x \<longleftrightarrow> m = Inr x"
  by (auto simp: except_lookup_def split: sum.splits exn.splits)

lemma except_lookup_Inr [simp]: "except_lookup e (Inr x) = Inr x"
  by (simp add: except_lookup_def)

lemma vocab_get_eq_Inr: "vocab_get vocab v = Inr i \<longleftrightarrow> (\<exists>s. v = JStr s \<and> map_of vocab s = Some i)"
  by (auto simp: vocab_get_def split: jval.splits option.splits if_splits)

lemma jitem_eq_Inr: "jitem v k = Inr x \<longleftrightarrow> (\<exists>d. v = JDict d \<and> map_of d k = Some x)"
  by (cases v) (auto split: option.splits)

section \<open>Lists by Python index\<close>

text \<open>The position a subscript names: counted from the end when negative, absent outside.\<close>

definition py_index :: "nat \<Rightarrow> int \<Rightarrow> nat option" where
  "py_index n i =
     (if 0 \<le> i then if i < int n then Some (nat i) else None
      else if - i \<le> int n then Some (nat (int n + i)) else None)"

definition list_get :: "'a list \<Rightarrow> int \<Rightarrow> 'a res" where
  "list_get xs i = (case py_index (length xs) i of None \<Rightarrow> Inl IndexError | Some k \<Rightarrow> Inr (xs ! k))"

definition list_put :: "'a list \<Rightarrow> int \<Rightarrow> 'a \<Rightarrow> 'a list res" where
  "list_put xs i v = (case py_index (length xs) i of None \<Rightarrow> Inl IndexError | Some k \<Rightarrow> Inr (xs[k := v]))"

lemma list_get_nth [simp]: "i < length xs \<Longrightarrow> list_get xs (int i) = Inr (xs ! i)"
  by (simp add: list_get_def py_index_def)

lemma list_get_in: "0 \<le> i \<Longrightarrow> i < int (length xs) \<Longrightarrow> list_get xs i = Inr (xs ! nat i)"
  by (simp add: list_get_def py_index_def)

lemma list_put_in: "0 \<le> i \<Longrightarrow> i < int (length xs) \<Longrightarrow> list_put xs i v = Inr (xs[nat i := v])"
  by (simp add: list_put_def py_index_def)

lemma length_list_put: "list_put xs i v = Inr ys \<Longrightarrow> length ys = length xs"
  by (auto simp: list_put_def split: option.splits)

text \<open>\<open>xs.index(x)\<close>: the first position, \<open>ValueError\<close> when absent.\<close>

fun index_from :: "nat \<Rightarrow> 'a list \<Rightarrow> 'a \<Rightarrow> nat option" where
  "index_from n [] y = None"
| "index_from n (x # xs) y = (if x = y then Some n else index_from (Suc n) xs y)"

definition list_index :: "'a list \<Rightarrow> 'a \<Rightarrow> nat res" where
  "list_index xs x =
     (case index_from 0 xs x of None \<Rightarrow> Inl (ValueError ''is not in list'') | Some i \<Rightarrow> Inr i)"

lemma index_from_Some: "index_from n xs y = Some i \<Longrightarrow> \<exists>m. m < length xs \<and> i = n + m \<and> xs ! m = y"
proof (induction xs arbitrary: n)
  case (Cons x xs)
  show ?case
  proof (cases "x = y")
    case True
    with Cons.prems show ?thesis by (intro exI [of _ 0]) simp
  next
    case False
    with Cons.prems have "index_from (Suc n) xs y = Some i" by simp
    from Cons.IH [OF this] obtain m where "m < length xs" "i = Suc n + m" "xs ! m = y" by blast
    then show ?thesis by (intro exI [of _ "Suc m"]) simp
  qed
qed simp

lemma index_from_None: "index_from n xs y = None \<longleftrightarrow> y \<notin> set xs"
  by (induction xs arbitrary: n) auto

lemma list_index_Inr: "list_index xs x = Inr i \<Longrightarrow> i < length xs \<and> xs ! i = x"
  using index_from_Some [of 0 xs x i] by (auto simp: list_index_def split: option.splits)

lemma list_index_ok: "x \<in> set xs \<Longrightarrow> \<exists>i. list_index xs x = Inr i"
  using index_from_None [of 0 xs x] by (auto simp: list_index_def split: option.splits)

lemma list_index_nth:
  assumes "distinct xs" and "i < length xs"
  shows "list_index xs (xs ! i) = Inr i"
proof -
  obtain j where j: "list_index xs (xs ! i) = Inr j"
    using list_index_ok [OF nth_mem [OF assms(2)]] by blast
  from list_index_Inr [OF j] have "j < length xs" "xs ! j = xs ! i" by blast+
  with assms have "j = i" using nth_eq_iff_index_eq by blast
  with j show ?thesis by simp
qed

section \<open>Bit lengths and ceilings\<close>

fun bit_len_nat :: "nat \<Rightarrow> nat" where
  "bit_len_nat n = (if n = 0 then 0 else Suc (bit_len_nat (n div 2)))"

declare bit_len_nat.simps [simp del]

definition bit_length :: "int \<Rightarrow> nat" where
  "bit_length i = bit_len_nat (nat \<bar>i\<bar>)"

lemma bit_len_nat_0 [simp]: "bit_len_nat 0 = 0"
  by (simp add: bit_len_nat.simps)

lemma bit_len_nat_pos: "0 < n \<Longrightarrow> bit_len_nat n = Suc (bit_len_nat (n div 2))"
  by (subst bit_len_nat.simps) simp

lemma less_two_power_bit_len: "n < 2 ^ bit_len_nat n"
proof (induction n rule: bit_len_nat.induct)
  case (1 n)
  show ?case
  proof (cases "n = 0")
    case False
    with 1 have "n div 2 < 2 ^ bit_len_nat (n div 2)" by simp
    with False show ?thesis by (simp add: bit_len_nat_pos)
  qed simp
qed

lemma two_power_bit_len_le: "0 < n \<Longrightarrow> 2 ^ (bit_len_nat n - 1) \<le> n"
proof (induction n rule: bit_len_nat.induct)
  case (1 n)
  show ?case
  proof (cases "n div 2 = 0")
    case True
    with 1 have "n = 1" by arith
    then show ?thesis by (simp add: bit_len_nat_pos)
  next
    case False
    with 1 have IH: "2 ^ (bit_len_nat (n div 2) - 1) \<le> n div 2" by simp
    have "bit_len_nat n - 1 = Suc (bit_len_nat (n div 2) - 1)"
      using False "1.prems" by (simp add: bit_len_nat_pos)
    with IH show ?thesis by simp
  qed
qed

lemma bit_length_less: "0 \<le> i \<Longrightarrow> i < 2 ^ bit_length i"
proof -
  assume "0 \<le> i"
  then have "int (nat i) < 2 ^ bit_length i"
    using less_two_power_bit_len [of "nat i"] by (simp add: bit_length_def nat_less_iff)
  then show ?thesis using \<open>0 \<le> i\<close> by simp
qed

lemma bit_len_nat_mono: "m \<le> n \<Longrightarrow> bit_len_nat m \<le> bit_len_nat n"
proof (induction n arbitrary: m rule: bit_len_nat.induct)
  case (1 n)
  show ?case
  proof (cases "m = 0")
    case False
    with 1 have "bit_len_nat (m div 2) \<le> bit_len_nat (n div 2)" by (simp add: div_le_mono)
    with False 1 show ?thesis by (simp add: bit_len_nat_pos)
  qed simp
qed

lemma bit_length_mono: "0 \<le> i \<Longrightarrow> i \<le> j \<Longrightarrow> bit_length i \<le> bit_length j"
  by (simp add: bit_length_def bit_len_nat_mono nat_mono)

text \<open>\<open>-(-a // b)\<close>.\<close>

definition ceil_div :: "nat \<Rightarrow> nat \<Rightarrow> nat" where
  "ceil_div a b = (a + b - 1) div b"

lemma ceil_div_spec:
  assumes "0 < b"
  shows "int (ceil_div a b) = - (- int a div int b)"
proof -
  let ?q = "int a div int b" and ?r = "int a mod int b"
  have a: "int a = int b * ?q + ?r" by simp
  have r: "0 \<le> ?r" "?r < int b" using assms by simp_all
  have "(int a + int b - 1) div int b = (if ?r = 0 then ?q else ?q + 1)"
  proof (cases "?r = 0")
    case True
    with a assms have "int a + int b - 1 = int b * ?q + (int b - 1)" by linarith
    with True assms show ?thesis by (simp add: int_div_pos_eq)
  next
    case False
    with a have "int a + int b - 1 = int b * (?q + 1) + (?r - 1)"
      by (simp add: algebra_simps)
    with False r show ?thesis by (simp add: int_div_pos_eq)
  qed
  moreover have "int (ceil_div a b) = (int a + int b - 1) div int b"
    using assms by (simp add: ceil_div_def zdiv_int of_nat_diff)
  ultimately show ?thesis using assms by (simp add: zdiv_zminus1_eq_if)
qed

section \<open>Random draws\<close>

text \<open>
  The generator is the stream of its future raw outputs; \<open>randbelow n\<close> and \<open>randrange n\<close>
  reduce the next one modulo \<open>n\<close>.  Every sequence of in-range results is produced by some
  stream, so a statement for all streams is one for all outcomes of the generator.
\<close>

type_synonym rng = "nat \<Rightarrow> nat"

definition randbelow :: "nat \<Rightarrow> rng \<Rightarrow> nat \<times> rng" where
  "randbelow n g = (g 0 mod n, \<lambda>i. g (Suc i))"

lemma randbelow_less: "0 < n \<Longrightarrow> fst (randbelow n g) < n"
  by (simp add: randbelow_def)

fun draws :: "nat \<Rightarrow> nat \<Rightarrow> rng \<Rightarrow> nat list \<times> rng" where
  "draws 0 n g = ([], g)"
| "draws (Suc k) n g =
     (let (x, g1) = randbelow n g; (xs, g2) = draws k n g1 in (x # xs, g2))"

lemma length_draws [simp]: "length (fst (draws k n g)) = k"
  by (induction k arbitrary: g) (auto simp: Let_def split: prod.split, metis fst_conv)

lemma draws_less: "0 < n \<Longrightarrow> x \<in> set (fst (draws k n g)) \<Longrightarrow> x < n"
proof (induction k arbitrary: g)
  case (Suc k)
  then show ?case
    by (auto simp: Let_def randbelow_def split: prod.splits) (metis fst_conv)
qed simp

lemma draws_stream: "draws n m g = (map (\<lambda>i. g i mod m) [0..<n], \<lambda>i. g (i + n))"
proof (induction n arbitrary: g)
  case (Suc n)
  have "map (\<lambda>i. g i mod m) [0..<Suc n] = g 0 mod m # map (\<lambda>i. g (Suc i) mod m) [0..<n]"
    by (simp add: map_upt_Suc del: upt_Suc)
  then show ?case by (simp add: randbelow_def Suc.IH)
qed simp

end
