(* ===== verification/Public_Config.thy ===== *)
theory Public_Config
  imports Py_Values
begin

text \<open>
  The public configuration (\<open>doram_t2_3pc/config.py\<close>): the record the three servers and the
  owners agree on, the validation every entry point runs, the derived sizes of the circuits,
  the dictionary that is hashed and the digest that binds prepared shares to it.

  The record starts after \<open>from_dict\<close> has coerced the JSON fields, so the \<open>isinstance\<close>
  guards of \<open>validate\<close> hold by typing.  SHA-256 over the serialised text is a parameter of
  \<open>digest\<close>; what is modelled of \<open>canonical_json\<close> is the sorting of dictionary keys.
\<close>

section \<open>Constants and the record\<close>

definition FIELD_PRIME :: int where
  "FIELD_PRIME = 2305843009213693951"

definition SCALABLE_FIELD_PRIME :: int where
  "SCALABLE_FIELD_PRIME = 170141183460469231731687303715884105727"

definition HE_SCALABLE_FIELD_PRIME :: int where
  "HE_SCALABLE_FIELD_PRIME = 170141183460469231731687303715885907969"

definition SCALABLE_FIELD_PRIMES :: "int list" where
  "SCALABLE_FIELD_PRIMES = [SCALABLE_FIELD_PRIME, HE_SCALABLE_FIELD_PRIME]"

definition SUPPORTED_FIELD_PRIMES :: "int list" where
  "SUPPORTED_FIELD_PRIMES = FIELD_PRIME # SCALABLE_FIELD_PRIMES"

lemmas field_primes =
  FIELD_PRIME_def SCALABLE_FIELD_PRIME_def HE_SCALABLE_FIELD_PRIME_def
  SCALABLE_FIELD_PRIMES_def SUPPORTED_FIELD_PRIMES_def

definition EDGE_FIELDS :: "string list" where
  "EDGE_FIELDS = [''target'', ''relation'', ''evidence'', ''score'', ''valid'']"

record public_config =
  owners :: "string list"
  entities :: "(string \<times> int) list"
  relations :: "(string \<times> int) list"
  fanout_per_owner :: int
  top_k :: int
  score_bits :: int
  evidence_bits :: int
  field_prime :: int
  relation_fanout_per_owner :: "int option"
  deduplicate_terminal_answers :: bool

section \<open>Derived sizes\<close>

definition entity_count :: "public_config \<Rightarrow> int" where
  "entity_count c = int (length (entities c)) + 1"

definition block_edges :: "public_config \<Rightarrow> int" where
  "block_edges c = int (length (owners c)) * fanout_per_owner c"

definition candidate_count :: "public_config \<Rightarrow> int" where
  "candidate_count c = block_edges c * block_edges c"

text \<open>\<open>x or y\<close> takes \<open>y\<close> when \<open>x\<close> is \<open>None\<close> or zero.\<close>

definition relation_frontier_per_owner :: "public_config \<Rightarrow> int" where
  "relation_frontier_per_owner c =
     (case relation_fanout_per_owner c of
        None \<Rightarrow> fanout_per_owner c
      | Some r \<Rightarrow> if r = 0 then fanout_per_owner c else r)"

definition frontier_edges :: "public_config \<Rightarrow> int" where
  "frontier_edges c = int (length (owners c)) * relation_frontier_per_owner c"

definition compacted_candidate_count :: "public_config \<Rightarrow> int" where
  "compacted_candidate_count c = frontier_edges c * block_edges c"

definition uses_frontier_compaction :: "public_config \<Rightarrow> bool" where
  "uses_frontier_compaction c = (frontier_edges c < block_edges c)"

definition owner_value_count :: "public_config \<Rightarrow> int" where
  "owner_value_count c = entity_count c * fanout_per_owner c * int (length EDGE_FIELDS)"

definition field_usable_bits :: "public_config \<Rightarrow> int" where
  "field_usable_bits c =
     (if field_prime c \<in> set SCALABLE_FIELD_PRIMES then 124
      else int (bit_length (field_prime c)) - 2)"

section \<open>Validation\<close>

definition active_candidate_count :: "public_config \<Rightarrow> int" where
  "active_candidate_count c =
     (if uses_frontier_compaction c then compacted_candidate_count c else candidate_count c)"

definition validate :: "public_config \<Rightarrow> unit res" where
  "validate c =
    (if length (owners c) < 1 \<or> length (remdups (owners c)) \<noteq> length (owners c) then
       Inl (ValueError ''owners must be a non-empty list of unique names'')
     else if (\<exists>x \<in> set (owners c). x = []) then
       Inl (ValueError ''owner names must be non-empty'')
     else if sort (map snd (entities c)) \<noteq> [1..int (length (entities c))] then
       Inl (ValueError ''entity slots must be unique and contiguous from 1'')
     else if relations c = [] \<or> sort (map snd (relations c)) \<noteq> [1..int (length (relations c))] then
       Inl (ValueError ''relation IDs must be unique and contiguous from 1'')
     else if fanout_per_owner c < 1 then
       Inl (ValueError ''fanout_per_owner must be positive'')
     else if (case relation_fanout_per_owner c of None \<Rightarrow> False
              | Some r \<Rightarrow> \<not> (1 \<le> r \<and> r \<le> fanout_per_owner c)) then
       Inl (ValueError ''relation_fanout_per_owner must be in'')
     else if top_k c < 1 \<or> top_k c > active_candidate_count c then
       Inl (ValueError ''top_k must be in'')
     else if \<not> (1 \<le> score_bits c \<and> score_bits c \<le> 30) then
       Inl (ValueError ''score_bits must be in'')
     else if \<not> (1 \<le> evidence_bits c \<and> evidence_bits c \<le> 59) then
       Inl (ValueError ''evidence_bits must be in'')
     else if field_prime c \<notin> set SUPPORTED_FIELD_PRIMES then
       Inl (ValueError ''field_prime must be one of the audited primes'')
     else Inr ())"

abbreviation valid_config :: "public_config \<Rightarrow> bool" where
  "valid_config c \<equiv> validate c = Inr ()"

definition reject_scan_only_options :: "public_config \<Rightarrow> unit res" where
  "reject_scan_only_options c =
     raise_if (relation_fanout_per_owner c \<noteq> None \<or> deduplicate_terminal_answers c)
       (ValueError ''backend does not implement scan-only option(s)'')"

section \<open>The hashed dictionary\<close>

definition public_dict :: "public_config \<Rightarrow> jval" where
  "public_dict c = JDict (
     [(''version'', JInt 1),
      (''field_prime'', JInt (field_prime c)),
      (''owners'', JList (map JStr (owners c))),
      (''entities'', JDict (map (\<lambda>(k, i). (k, JInt i)) (entities c))),
      (''relations'', JDict (map (\<lambda>(k, i). (k, JInt i)) (relations c))),
      (''fanout_per_owner'', JInt (fanout_per_owner c)),
      (''top_k'', JInt (top_k c)),
      (''score_bits'', JInt (score_bits c)),
      (''evidence_bits'', JInt (evidence_bits c))]
     @ (case relation_fanout_per_owner c of None \<Rightarrow> []
        | Some r \<Rightarrow> [(''relation_fanout_per_owner'', JInt r)])
     @ (if deduplicate_terminal_answers c
        then [(''deduplicate_terminal_answers'', JBool True)] else []))"

text \<open>\<open>json.dumps(..., sort_keys=True)\<close> before serialisation.\<close>

fun canonical_json :: "jval \<Rightarrow> jval" where
  "canonical_json (JList xs) = JList (map canonical_json xs)"
| "canonical_json (JDict d) = JDict (sort_key fst (map (\<lambda>(k, v). (k, canonical_json v)) d))"
| "canonical_json v = v"

definition digest :: "(jval \<Rightarrow> string) \<Rightarrow> public_config \<Rightarrow> string" where
  "digest sha256 c = sha256 (canonical_json (public_dict c))"


section \<open>What validation establishes\<close>

lemma map_snd_ids:
  assumes "sort (map snd xs) = [1..int (length xs)]"
  shows "distinct (map snd xs)" and "snd ` set xs = {1..int (length xs)}"
  using assms by (metis distinct_sort distinct_upto, metis set_map set_sort set_upto)

lemma length_remdups_eq: "length (remdups xs) = length xs \<longleftrightarrow> distinct xs"
  by (metis distinct_card length_remdups_card_conv card_distinct)

lemma validate_iff:
  "valid_config c \<longleftrightarrow>
     owners c \<noteq> [] \<and> distinct (owners c) \<and> [] \<notin> set (owners c)
   \<and> sort (map snd (entities c)) = [1..int (length (entities c))]
   \<and> relations c \<noteq> [] \<and> sort (map snd (relations c)) = [1..int (length (relations c))]
   \<and> 1 \<le> fanout_per_owner c
   \<and> (\<forall>r. relation_fanout_per_owner c = Some r \<longrightarrow> 1 \<le> r \<and> r \<le> fanout_per_owner c)
   \<and> 1 \<le> top_k c \<and> top_k c \<le> active_candidate_count c
   \<and> 1 \<le> score_bits c \<and> score_bits c \<le> 30
   \<and> 1 \<le> evidence_bits c \<and> evidence_bits c \<le> 59
   \<and> field_prime c \<in> set SUPPORTED_FIELD_PRIMES"
proof -
  have len: "length (owners c) < 1 \<longleftrightarrow> owners c = []" by (cases "owners c") auto
  have empty: "(\<exists>x \<in> set (owners c). x = []) \<longleftrightarrow> [] \<in> set (owners c)" by auto
  show ?thesis
    unfolding validate_def len empty length_remdups_eq
    by (cases "relation_fanout_per_owner c") (simp_all add: not_less not_le conj_ac del: One_nat_def; blast)+
qed

text \<open>One bundle of the facts the components use.\<close>

lemma valid_config_facts:
  assumes "valid_config c"
  shows valid_owners: "owners c \<noteq> []" "distinct (owners c)"
    and valid_fanout: "1 \<le> fanout_per_owner c"
    and valid_top_k: "1 \<le> top_k c" "top_k c \<le> active_candidate_count c"
    and valid_score_bits: "1 \<le> score_bits c" "score_bits c \<le> 30"
    and valid_evidence_bits: "1 \<le> evidence_bits c" "evidence_bits c \<le> 59"
    and valid_prime: "field_prime c \<in> set SUPPORTED_FIELD_PRIMES"
    and valid_relations: "relations c \<noteq> []"
  using assms by (simp_all add: validate_iff)

lemma valid_entity_ids:
  assumes "valid_config c"
  shows "distinct (map snd (entities c))" and "snd ` set (entities c) = {1..int (length (entities c))}"
  using assms map_snd_ids [of "entities c"] by (simp_all add: validate_iff)

lemma valid_relation_ids:
  assumes "valid_config c"
  shows "distinct (map snd (relations c))" and "snd ` set (relations c) = {1..int (length (relations c))}"
  using assms map_snd_ids [of "relations c"] by (simp_all add: validate_iff)

lemma entity_slot_bounds:
  assumes "valid_config c" and "map_of (entities c) name = Some i"
  shows "1 \<le> i" and "i < entity_count c"
proof -
  from assms(2) have "i \<in> snd ` set (entities c)" by (force dest: map_of_SomeD)
  with valid_entity_ids(2) [OF assms(1)] show "1 \<le> i" "i < entity_count c"
    by (auto simp: entity_count_def)
qed

lemma relation_id_bounds:
  assumes "valid_config c" and "map_of (relations c) name = Some i"
  shows "1 \<le> i" and "i \<le> int (length (relations c))"
proof -
  from assms(2) have "i \<in> snd ` set (relations c)" by (force dest: map_of_SomeD)
  with valid_relation_ids(2) [OF assms(1)] show "1 \<le> i" "i \<le> int (length (relations c))" by auto
qed

lemma valid_owner_count: "valid_config c \<Longrightarrow> 1 \<le> int (length (owners c))"
  using valid_owners(1) [of c] by (cases "owners c") auto

lemma block_edges_pos: "valid_config c \<Longrightarrow> 1 \<le> block_edges c"
  using mult_mono [of 1 "int (length (owners c))" 1 "fanout_per_owner c"]
    valid_owner_count valid_fanout unfolding block_edges_def by fastforce

lemma frontier_bounds:
  assumes "valid_config c"
  shows "1 \<le> relation_frontier_per_owner c" and "relation_frontier_per_owner c \<le> fanout_per_owner c"
  using assms by (auto simp: validate_iff relation_frontier_per_owner_def split: option.splits)

lemma frontier_edges_le:
  assumes "valid_config c"
  shows "1 \<le> frontier_edges c" and "frontier_edges c \<le> block_edges c"
proof -
  have n: "1 \<le> int (length (owners c))" using valid_owner_count [OF assms] .
  have "1 * 1 \<le> int (length (owners c)) * relation_frontier_per_owner c"
    using n frontier_bounds(1) [OF assms] by (intro mult_mono) auto
  then show "1 \<le> frontier_edges c" by (simp add: frontier_edges_def)
  show "frontier_edges c \<le> block_edges c"
    using n frontier_bounds(2) [OF assms] by (simp add: frontier_edges_def block_edges_def mult_left_mono)
qed

lemma supported_prime_cases:
  assumes "p \<in> set SUPPORTED_FIELD_PRIMES"
  obtains "p = FIELD_PRIME" | "p = SCALABLE_FIELD_PRIME" | "p = HE_SCALABLE_FIELD_PRIME"
  using assms by (auto simp: SUPPORTED_FIELD_PRIMES_def SCALABLE_FIELD_PRIMES_def)

lemma bit_len_nat_eqI:
  assumes "2 ^ (k - 1) \<le> n" and "n < 2 ^ k" and "0 < k"
  shows "bit_len_nat n = k"
proof (rule antisym)
  have "0 < n" using assms(1) by (metis less_le_trans zero_less_numeral zero_less_power)
  show "bit_len_nat n \<le> k"
  proof (rule ccontr)
    assume "\<not> bit_len_nat n \<le> k"
    then have "2 ^ k \<le> (2::nat) ^ (bit_len_nat n - 1)" by (intro power_increasing) auto
    with two_power_bit_len_le [OF \<open>0 < n\<close>] assms(2) show False by linarith
  qed
  show "k \<le> bit_len_nat n"
  proof (rule ccontr)
    assume "\<not> k \<le> bit_len_nat n"
    then have "2 ^ bit_len_nat n \<le> (2::nat) ^ (k - 1)" by (intro power_increasing) auto
    with less_two_power_bit_len [of n] assms(1) show False by linarith
  qed
qed

lemma bit_length_FIELD_PRIME: "bit_length FIELD_PRIME = 61"
  unfolding bit_length_def FIELD_PRIME_def by (rule bit_len_nat_eqI) simp_all

lemma field_usable_bits_cases:
  assumes "p = field_prime c" and "valid_config c"
  shows "field_usable_bits c = (if p = FIELD_PRIME then 59 else 124)"
proof -
  have "FIELD_PRIME \<notin> set SCALABLE_FIELD_PRIMES" by (simp add: field_primes)
  moreover have "field_prime c \<in> set SUPPORTED_FIELD_PRIMES" using assms(2) by (rule valid_prime)
  ultimately show ?thesis
    using assms(1) bit_length_FIELD_PRIME
    by (auto simp: field_usable_bits_def SUPPORTED_FIELD_PRIMES_def)
qed

lemma valid_vocabulary_bij:
  assumes "valid_config c"
  shows "bij_betw snd (set (entities c)) {1..entity_count c - 1}"
    and "bij_betw snd (set (relations c)) {1..int (length (relations c))}"
  using valid_entity_ids [OF assms] valid_relation_ids [OF assms]
  by (simp_all add: bij_betw_def distinct_map entity_count_def)

lemma active_le_candidates:
  assumes "valid_config c"
  shows "active_candidate_count c \<le> candidate_count c"
  using frontier_edges_le [OF assms] block_edges_pos [OF assms]
  by (simp add: active_candidate_count_def compacted_candidate_count_def candidate_count_def mult_right_mono)

text \<open>The packing envelope is below the field.\<close>

lemma usable_bits_below_prime:
  assumes "valid_config c"
  shows "2 ^ nat (field_usable_bits c) \<le> field_prime c"
proof -
  note cases = field_usable_bits_cases [OF refl assms]
  from valid_prime [OF assms] show ?thesis
    by (rule supported_prime_cases)
      (simp_all add: cases FIELD_PRIME_def SCALABLE_FIELD_PRIME_def HE_SCALABLE_FIELD_PRIME_def)
qed

lemma field_prime_pos: "valid_config c \<Longrightarrow> 0 < field_prime c"
  by (rule supported_prime_cases [OF valid_prime [of c]]) (simp_all add: field_primes)

section \<open>What the digest binds\<close>

lemma map_of_sort_key:
  assumes "distinct (map fst xs)"
  shows "map_of (sort_key fst xs) = map_of xs"
proof (rule map_of_inject_set [THEN iffD2])
  show "distinct (map fst (sort_key fst xs))"
    using assms by (simp add: distinct_map)
qed (use assms in simp_all)

lemma sort_key_fst_eq_iff:
  fixes xs ys :: "(string \<times> 'a) list"
  assumes "distinct (map fst xs)" and "distinct (map fst ys)"
  shows "sort_key fst xs = sort_key fst ys \<longleftrightarrow> map_of xs = map_of ys"
proof
  assume "sort_key fst xs = sort_key fst ys"
  then show "map_of xs = map_of ys" using assms map_of_sort_key by metis
next
  assume "map_of xs = map_of ys"
  then have "set xs = set ys" using map_of_inject_set [OF assms] by blast
  then have "mset xs = mset ys" using assms by (simp add: distinct_map set_eq_iff_mset_eq_distinct)
  moreover have "inj_on fst (set xs)" using assms by (simp add: distinct_map)
  ultimately show "sort_key fst xs = sort_key fst ys"
    by (intro sort_key_inj_key_eq) (simp_all)
qed

definition id_dict :: "(string \<times> int) list \<Rightarrow> jval" where
  "id_dict ids = JDict (map (\<lambda>(k, i). (k, JInt i)) ids)"

lemma canonical_id_dict:
  "canonical_json (id_dict ids) = JDict (sort_key fst (map (\<lambda>(k, i). (k, JInt i)) ids))"
  by (simp add: id_dict_def comp_def case_prod_unfold)

lemma map_option_JInt_eq: "map_option JInt x = map_option JInt y \<longleftrightarrow> x = y"
  by (cases x; cases y) auto

lemma canonical_id_dict_eq_iff:
  assumes "distinct (map fst xs)" and "distinct (map fst ys)"
  shows "canonical_json (id_dict xs) = canonical_json (id_dict ys) \<longleftrightarrow> map_of xs = map_of ys"
proof -
  have keys: "map fst (map (\<lambda>(k, i). (k, JInt i)) zs) = map fst zs" for zs :: "(string \<times> int) list"
    by (simp add: case_prod_unfold comp_def)
  have "map_of (map (\<lambda>(k, i). (k, JInt i)) zs) = map_option JInt \<circ> map_of zs"
    for zs :: "(string \<times> int) list"
    by (induction zs) (auto simp: fun_eq_iff)
  moreover have "map_option JInt \<circ> f = map_option JInt \<circ> g \<longleftrightarrow> f = g" for f g :: "string \<rightharpoonup> int"
    by (simp add: fun_eq_iff map_option_JInt_eq)
  ultimately show ?thesis
    unfolding canonical_id_dict jval.inject
    by (subst sort_key_fst_eq_iff) (simp_all only: keys assms)
qed

text \<open>The dictionary as a map of its fields.\<close>

definition dict_fields :: "public_config \<Rightarrow> (string \<times> jval) list" where
  "dict_fields c = (case public_dict c of JDict d \<Rightarrow> d | _ \<Rightarrow> [])"

lemma public_dict_fields: "public_dict c = JDict (dict_fields c)"
  by (simp add: dict_fields_def public_dict_def)

lemma distinct_dict_fields: "distinct (map fst (dict_fields c))"
  by (simp add: dict_fields_def public_dict_def split: option.split)

definition canonical_fields :: "public_config \<Rightarrow> (string \<times> jval) list" where
  "canonical_fields c = map (\<lambda>(k, v). (k, canonical_json v)) (dict_fields c)"

lemma canonical_public_dict: "canonical_json (public_dict c) = JDict (sort_key fst (canonical_fields c))"
  by (simp add: public_dict_fields canonical_fields_def)

lemma distinct_canonical_fields: "distinct (map fst (canonical_fields c))"
  using distinct_dict_fields [of c] by (simp add: canonical_fields_def comp_def case_prod_unfold)

lemma canonical_fields_eq:
  "canonical_fields c =
     [(''version'', JInt 1),
      (''field_prime'', JInt (field_prime c)),
      (''owners'', JList (map JStr (owners c))),
      (''entities'', canonical_json (id_dict (entities c))),
      (''relations'', canonical_json (id_dict (relations c))),
      (''fanout_per_owner'', JInt (fanout_per_owner c)),
      (''top_k'', JInt (top_k c)),
      (''score_bits'', JInt (score_bits c)),
      (''evidence_bits'', JInt (evidence_bits c))]
     @ (case relation_fanout_per_owner c of None \<Rightarrow> []
        | Some r \<Rightarrow> [(''relation_fanout_per_owner'', JInt r)])
     @ (if deduplicate_terminal_answers c
        then [(''deduplicate_terminal_answers'', JBool True)] else [])"
  by (simp add: canonical_fields_def dict_fields_def public_dict_def id_dict_def comp_def split: option.split)

lemma canonical_fields_lookup:
  "map_of (canonical_fields c) ''field_prime'' = Some (JInt (field_prime c))"
  "map_of (canonical_fields c) ''owners'' = Some (JList (map JStr (owners c)))"
  "map_of (canonical_fields c) ''entities'' = Some (canonical_json (id_dict (entities c)))"
  "map_of (canonical_fields c) ''relations'' = Some (canonical_json (id_dict (relations c)))"
  "map_of (canonical_fields c) ''fanout_per_owner'' = Some (JInt (fanout_per_owner c))"
  "map_of (canonical_fields c) ''top_k'' = Some (JInt (top_k c))"
  "map_of (canonical_fields c) ''score_bits'' = Some (JInt (score_bits c))"
  "map_of (canonical_fields c) ''evidence_bits'' = Some (JInt (evidence_bits c))"
  "map_of (canonical_fields c) ''relation_fanout_per_owner'' = map_option JInt (relation_fanout_per_owner c)"
  "map_of (canonical_fields c) ''deduplicate_terminal_answers'' =
     (if deduplicate_terminal_answers c then Some (JBool True) else None)"
  by (simp_all add: canonical_fields_eq map_add_def split: option.split)

definition same_config :: "public_config \<Rightarrow> public_config \<Rightarrow> bool" where
  "same_config c d =
     (c\<lparr>entities := entities d, relations := relations d\<rparr> = d
      \<and> map_of (entities c) = map_of (entities d) \<and> map_of (relations c) = map_of (relations d))"

lemma canonical_public_dict_eq_iff:
  assumes c: "distinct (map fst (entities c))" "distinct (map fst (relations c))"
    and d: "distinct (map fst (entities d))" "distinct (map fst (relations d))"
  shows "canonical_json (public_dict c) = canonical_json (public_dict d) \<longleftrightarrow> same_config c d"
proof
  assume "canonical_json (public_dict c) = canonical_json (public_dict d)"
  then have eq: "map_of (canonical_fields c) = map_of (canonical_fields d)"
    by (simp add: canonical_public_dict sort_key_fst_eq_iff distinct_canonical_fields)
  note look = canonical_fields_lookup [of c, unfolded eq, unfolded canonical_fields_lookup]
  have "map JStr xs = map JStr ys \<Longrightarrow> xs = ys" for xs ys
    by (simp add: inj_map_eq_map inj_def)
  then have "owners d = owners c" using look(2) by simp
  moreover have "deduplicate_terminal_answers d = deduplicate_terminal_answers c"
    using look(10) by (simp split: if_splits)
  moreover have "relation_fanout_per_owner d = relation_fanout_per_owner c"
    using look(9) by (simp add: map_option_JInt_eq)
  ultimately show "same_config c d"
    using look c d by (simp add: same_config_def canonical_id_dict_eq_iff)
next
  assume same: "same_config c d"
  then have "canonical_json (id_dict (entities c)) = canonical_json (id_dict (entities d))"
    "canonical_json (id_dict (relations c)) = canonical_json (id_dict (relations d))"
    using c d by (simp_all add: canonical_id_dict_eq_iff same_config_def)
  moreover obtain es rs where "d = c\<lparr>entities := es, relations := rs\<rparr>"
    using that [of "relations d" "entities d"] same by (simp add: same_config_def eq_commute)
  ultimately have "canonical_fields c = canonical_fields d"
    by (simp add: canonical_fields_eq)
  then show "canonical_json (public_dict c) = canonical_json (public_dict d)"
    by (simp add: canonical_public_dict)
qed

section \<open>A small configuration\<close>

text \<open>Two owners, three entities and two relations: the input of the concrete instances.\<close>

definition sample_config :: public_config where
  "sample_config = \<lparr>
     owners = [''alice'', ''bob''],
     entities = [(''a'', 1), (''b'', 2), (''c'', 3)],
     relations = [(''r'', 1), (''s'', 2)],
     fanout_per_owner = 2,
     top_k = 2,
     score_bits = 4,
     evidence_bits = 6,
     field_prime = SCALABLE_FIELD_PRIME,
     relation_fanout_per_owner = None,
     deduplicate_terminal_answers = False\<rparr>"

lemma sample_fields [simp]:
  "owners sample_config = [''alice'', ''bob'']"
  "entities sample_config = [(''a'', 1), (''b'', 2), (''c'', 3)]"
  "relations sample_config = [(''r'', 1), (''s'', 2)]"
  "fanout_per_owner sample_config = 2"
  "top_k sample_config = 2"
  "score_bits sample_config = 4"
  "evidence_bits sample_config = 6"
  "field_prime sample_config = SCALABLE_FIELD_PRIME"
  "relation_fanout_per_owner sample_config = None"
  "deduplicate_terminal_answers sample_config = False"
  by (simp_all add: sample_config_def)

lemma sample_sizes [simp]:
  "entity_count sample_config = 4" "block_edges sample_config = 4"
  "candidate_count sample_config = 16" "relation_frontier_per_owner sample_config = 2"
  "frontier_edges sample_config = 4" "\<not> uses_frontier_compaction sample_config"
  by (simp_all add: entity_count_def block_edges_def candidate_count_def uses_frontier_compaction_def
      relation_frontier_per_owner_def frontier_edges_def)

lemma sample_valid [simp]: "valid_config sample_config"
  by (simp add: validate_iff active_candidate_count_def upto.simps field_primes)

section \<open>Properties\<close>

text \<open>
  Two configurations hash the same canonical document exactly when they agree in every
  field, with the entity and relation vocabularies compared as dictionaries: the digest that
  binds prepared shares does not depend on the order in which a vocabulary was written, and
  nothing the circuits depend on is left out of it (the optional fields included).
\<close>

theorem digest_binds_config:
  assumes "distinct (map fst (entities c))" "distinct (map fst (relations c))"
    and "distinct (map fst (entities d))" "distinct (map fst (relations d))"
  shows "canonical_json (public_dict c) = canonical_json (public_dict d) \<longleftrightarrow> same_config c d"
  using canonical_public_dict_eq_iff [OF assms] .

theorem digest_binds_config_witness:
  "canonical_json (public_dict sample_config) = canonical_json (public_dict
      (sample_config\<lparr>entities := [(''c'', 3), (''a'', 1), (''b'', 2)]\<rparr>)) \<and>
   canonical_json (public_dict sample_config) \<noteq> canonical_json (public_dict
      (sample_config\<lparr>relation_fanout_per_owner := Some 1\<rparr>))"
  using digest_binds_config [of sample_config "sample_config\<lparr>entities := [(''c'', 3), (''a'', 1), (''b'', 2)]\<rparr>"]
    digest_binds_config [of sample_config "sample_config\<lparr>relation_fanout_per_owner := Some 1\<rparr>"]
  by (auto simp: same_config_def fun_eq_iff sample_config_def)

text \<open>
  C10: A configuration that passes validation assigns the entities the slots 1..n and the
  relations the identifiers 1..m bijectively (slot and identifier 0 stay reserved), the
  requested number of results is at most the number of candidates the active circuit
  inspects, frontier compaction never inspects more candidates than the full frontier, and
  the packing envelope of the chosen prime lies below the prime.
\<close>

theorem validate_sound:
  assumes "valid_config c"
  shows "bij_betw snd (set (entities c)) {1..entity_count c - 1}
    \<and> bij_betw snd (set (relations c)) {1..int (length (relations c))}
    \<and> 1 \<le> top_k c \<and> top_k c \<le> active_candidate_count c
    \<and> active_candidate_count c \<le> candidate_count c
    \<and> 2 ^ nat (field_usable_bits c) \<le> field_prime c"
  using assms valid_vocabulary_bij [OF assms] active_le_candidates [OF assms]
    usable_bits_below_prime [OF assms] valid_top_k [OF assms] by blast

theorem validate_sound_witness:
  "valid_config sample_config \<and> bij_betw snd (set (entities sample_config)) {1..3}
   \<and> active_candidate_count sample_config \<le> 16"
  using validate_sound [of sample_config] by simp

end
