(* ===== verification/Bit_Packing.thy ===== *)
theory Bit_Packing
  imports Py_Values
begin

unbundle bit_operations_syntax

text \<open>
  Little-endian packing of bounded fields into one integer by shift-and-or, and its inverse
  by mask-and-shift: the loop bodies that edges, page descriptors and directory slots share.
  The field list and the width list have the same length, as the zipped tuples of the source.
\<close>

section \<open>The loops\<close>

fun pack_fields :: "(int \<times> nat) list \<Rightarrow> int \<Rightarrow> nat \<Rightarrow> int res" where
  "pack_fields [] result shift = Inr result"
| "pack_fields ((value, width) # rest) result shift =
     (if \<not> (0 \<le> value \<and> value < push_bit width 1) then Inl (ValueError ''packed value does not fit'')
      else pack_fields rest (result OR push_bit shift value) (shift + width))"

fun unpack_fields :: "nat list \<Rightarrow> int \<Rightarrow> int list" where
  "unpack_fields [] value = []"
| "unpack_fields (width # rest) value =
     (value AND (push_bit width 1 - 1)) # unpack_fields rest (drop_bit width value)"

section \<open>As mixed-radix numbers\<close>

fun radix_value :: "(int \<times> nat) list \<Rightarrow> int" where
  "radix_value [] = 0"
| "radix_value ((v, w) # rest) = v + 2 ^ w * radix_value rest"

abbreviation fits :: "(int \<times> nat) list \<Rightarrow> bool" where
  "fits fields \<equiv> list_all (\<lambda>(v, w). 0 \<le> v \<and> v < 2 ^ w) fields"

lemma or_push_bit:
  assumes "0 \<le> a" and "a < 2 ^ n"
  shows "a OR push_bit n b = a + 2 ^ n * (b::int)"
proof -
  from assms have "take_bit n a = a" by (simp add: take_bit_int_eq_self)
  then have low: "\<not> bit a i" if "n \<le> i" for i
    using that by (metis bit_take_bit_iff not_le)
  have "a AND push_bit n b = 0"
    by (rule bit_eqI) (use low in \<open>auto simp: bit_and_iff bit_push_bit_iff\<close>)
  then have "a OR push_bit n b = a + push_bit n b" by (simp add: disjunctive_add_eq_or)
  then show ?thesis by (simp add: push_bit_eq_mult mult.commute)
qed

lemma radix_value_bounds:
  assumes "fits fields"
  shows "0 \<le> radix_value fields" and "radix_value fields < 2 ^ sum_list (map snd fields)"
  using assms
proof (induction fields rule: radix_value.induct)
  case (2 v w rest)
  {
    case 1
    with 2 show ?case by simp
  next
    case 2
    with "2.IH" have IH: "radix_value rest < 2 ^ sum_list (map snd rest)" by simp
    have "v + 2 ^ w * radix_value rest < 2 ^ w * (radix_value rest + 1)"
      using 2 by (simp add: algebra_simps)
    also have "\<dots> \<le> 2 ^ w * 2 ^ sum_list (map snd rest)"
      using IH by (intro mult_left_mono) auto
    finally show ?case by (simp add: power_add)
  }
qed simp_all

lemma pack_fields_Inr:
  assumes "fits fields" and "0 \<le> r" and "r < 2 ^ n"
  shows "pack_fields fields r n = Inr (r + 2 ^ n * radix_value fields)"
  using assms
proof (induction fields arbitrary: r n rule: radix_value.induct)
  case (2 v w rest)
  have "r + 2 ^ n * v < 2 ^ n * (v + 1)" using 2 by (simp add: algebra_simps)
  also have "\<dots> \<le> 2 ^ n * 2 ^ w" using 2 by (intro mult_left_mono) auto
  finally have "r + 2 ^ n * v < 2 ^ (n + w)" by (simp add: power_add)
  with 2 show ?case by (simp add: or_push_bit power_add algebra_simps)
qed simp

lemma pack_fields_ok: "pack_fields fields r n = Inr x \<Longrightarrow> fits fields"
  by (induction fields r n rule: pack_fields.induct) (auto simp: push_bit_eq_mult split: if_splits)

lemma pack_fields_iff:
  "pack_fields fields 0 0 = Inr x \<longleftrightarrow> fits fields \<and> x = radix_value fields"
  using pack_fields_ok [of fields 0 0 x] pack_fields_Inr [of fields 0 0] by auto

lemma and_mask_take: "a AND (2 ^ n - 1) = take_bit n (a::int)"
  by (simp add: take_bit_eq_mask mask_eq_exp_minus_1)

lemma unpack_radix_value:
  "fits fields \<Longrightarrow> unpack_fields (map snd fields) (radix_value fields) = map fst fields"
proof (induction fields rule: radix_value.induct)
  case (2 v w rest)
  then have "take_bit w (v + 2 ^ w * radix_value rest) = v"
    by (simp add: take_bit_eq_mod)
  moreover have "drop_bit w (v + 2 ^ w * radix_value rest) = radix_value rest"
    using 2 by (simp add: drop_bit_eq_div)
  ultimately show ?case using 2 by (simp add: and_mask_take)
qed simp

lemma fits_unpack: "fits (zip (unpack_fields ws x) ws)"
  by (induction ws arbitrary: x) (auto simp: and_mask_take)

lemma length_unpack [simp]: "length (unpack_fields ws x) = length ws"
  by (induction ws arbitrary: x) auto

lemma radix_value_unpack:
  assumes "0 \<le> x" and "x < 2 ^ sum_list ws"
  shows "radix_value (zip (unpack_fields ws x) ws) = x"
  using assms
proof (induction ws arbitrary: x)
  case (Cons w ws)
  have "x div 2 ^ w < 2 ^ sum_list ws"
  proof (rule ccontr)
    assume "\<not> x div 2 ^ w < 2 ^ sum_list ws"
    then have "2 ^ w * 2 ^ sum_list ws \<le> 2 ^ w * (x div 2 ^ w)" by (intro mult_left_mono) auto
    also have "\<dots> \<le> x" by (simp add: minus_mod_eq_mult_div [symmetric])
    finally show False using Cons.prems by (simp add: power_add)
  qed
  with Cons show ?case
    by (simp add: and_mask_take drop_bit_eq_div take_bit_eq_mod pos_imp_zdiv_nonneg_iff)
qed simp

lemma radix_value_pos:
  "fits fields \<Longrightarrow> (v, w) \<in> set fields \<Longrightarrow> 0 < v \<Longrightarrow> 0 < radix_value fields"
proof (induction fields rule: radix_value.induct)
  case (2 u w' rest)
  show ?case
  proof (cases "(v, w) = (u, w')")
    case True
    with 2 radix_value_bounds(1) [of rest] show ?thesis by (simp add: add_pos_nonneg)
  next
    case False
    with 2 have "0 < radix_value rest" by auto
    with 2 show ?thesis by (simp add: add_nonneg_pos)
  qed
qed simp

end
