(* ===== verification/Edge_Packing.thy ===== *)
theory Edge_Packing
  imports Public_Config Bit_Packing
begin

unbundle bit_operations_syntax

text \<open>
  One packed field element per edge (first half of \<open>doram_t2_3pc/packed.py\<close>): the widths the
  public configuration fixes, packing and unpacking, and the validation of a raw JSON edge.
  Packing is an encoding in the sense of the locale \<open>codec\<close>.
\<close>

section \<open>Widths\<close>

definition packing_widths :: "public_config \<Rightarrow> nat list" where
  "packing_widths c =
     [max 1 (bit_length (entity_count c - 1)),
      max 1 (bit_length (Max (set (map snd (relations c))))),
      nat (evidence_bits c),
      nat (score_bits c),
      1]"

definition packed_edge_bits :: "public_config \<Rightarrow> nat" where
  "packed_edge_bits c = sum_list (packing_widths c)"

definition require_packed_config :: "public_config \<Rightarrow> unit res" where
  "require_packed_config c =
     (if field_prime c \<notin> set SCALABLE_FIELD_PRIMES then
        Inl (ValueError ''packed private lookup requires an audited scalable field'')
      else if int (packed_edge_bits c) > field_usable_bits c then
        Inl (ValueError ''packed edge needs more than the usable bits'')
      else Inr ())"

abbreviation packable_config :: "public_config \<Rightarrow> bool" where
  "packable_config c \<equiv> require_packed_config c = Inr ()"

section \<open>Packing\<close>

text \<open>Target, relation, evidence, score and validity bit.\<close>

type_synonym edge_fields = "int \<times> int \<times> int \<times> int \<times> int"

definition edge_field_list :: "edge_fields \<Rightarrow> int list" where
  "edge_field_list = (\<lambda>(target, relation, evidence, score, valid).
     [target, relation, evidence, score, valid])"

definition pack_edge :: "public_config \<Rightarrow> edge_fields \<Rightarrow> int res" where
  "pack_edge c f =
     bindr (require_packed_config c) (\<lambda>_.
       pack_fields (zip (edge_field_list f) (packing_widths c)) 0 0)"

fun five_fields :: "int list \<Rightarrow> edge_fields" where
  "five_fields [target, relation, evidence, score, valid] = (target, relation, evidence, score, valid)"
| "five_fields _ = (0, 0, 0, 0, 0)"

definition unpack_edge :: "public_config \<Rightarrow> int \<Rightarrow> edge_fields res" where
  "unpack_edge c value =
     bindr (require_packed_config c) (\<lambda>_.
       if \<not> (0 \<le> value \<and> value < push_bit (packed_edge_bits c) 1) then
         Inl (ValueError ''non-canonical packed edge'')
       else Inr (five_fields (unpack_fields (packing_widths c) value)))"

section \<open>Raw edges\<close>

definition edge_keys :: "string list" where
  "edge_keys = [''source'', ''relation'', ''target'', ''evidence'', ''score'']"

text \<open>The \<open>try\<close> block that every reader of raw edges starts with.\<close>

definition edge_ids :: "public_config \<Rightarrow> jval \<Rightarrow> (int \<times> int \<times> int) res" where
  "edge_ids c e =
     except_lookup (ValueError ''edge uses an unknown ontology item'')
      (bindr (bindr (jitem e ''source'') (vocab_get (entities c))) (\<lambda>source.
       bindr (bindr (jitem e ''target'') (vocab_get (entities c))) (\<lambda>target.
       bindr (bindr (jitem e ''relation'') (vocab_get (relations c))) (\<lambda>relation.
         Inr (source, relation, target)))))"

text \<open>Source, relation, target, evidence, score.\<close>

type_synonym edge_row = "int \<times> int \<times> int \<times> int \<times> int"

definition row_fields :: "edge_row \<Rightarrow> edge_fields" where
  "row_fields = (\<lambda>(source, relation, target, evidence, score). (target, relation, evidence, score, 1))"

definition row_source :: "edge_row \<Rightarrow> int" where
  "row_source = (\<lambda>(source, relation, target, evidence, score). source)"

definition row_key :: "edge_row \<Rightarrow> int \<times> int" where
  "row_key = (\<lambda>(source, relation, target, evidence, score). (source, relation))"

definition validated_edge :: "public_config \<Rightarrow> jval \<Rightarrow> edge_row res" where
  "validated_edge c e =
     bindr (keys_are edge_keys e) (\<lambda>exact.
     if \<not> exact then Inl (ValueError ''edge must contain exactly source/relation/target/evidence/score'')
     else
     bindr (edge_ids c e) (\<lambda>(source, relation, target).
     bindr (jitem e ''evidence'') (\<lambda>raw_evidence.
     bindr (jitem e ''score'') (\<lambda>raw_score.
     case strict_int raw_evidence of
       None \<Rightarrow> Inl (ValueError ''edge has an invalid evidence handle'')
     | Some evidence \<Rightarrow>
         if evidence \<le> 0 then Inl (ValueError ''edge has an invalid evidence handle'')
         else (case strict_int raw_score of
           None \<Rightarrow> Inl (ValueError ''edge has an invalid score'')
         | Some score \<Rightarrow>
             if score < 0 then Inl (ValueError ''edge has an invalid score'')
             else bindr (pack_edge c (target, relation, evidence, score, 1)) (\<lambda>_.
               Inr (source, relation, target, evidence, score)))))))"

section \<open>Round trip and range\<close>

lemma length_packing_widths [simp]: "length (packing_widths c) = 5"
  by (simp add: packing_widths_def)

lemma length_edge_field_list [simp]: "length (edge_field_list f) = 5"
  by (simp add: edge_field_list_def split: prod.split)

lemma five_fields_list [simp]: "five_fields (edge_field_list f) = f"
  by (simp add: edge_field_list_def split: prod.split)

lemma list_five_fields: "length xs = 5 \<Longrightarrow> edge_field_list (five_fields xs) = xs"
  by (auto simp: eval_nat_numeral length_Suc_conv edge_field_list_def)

definition edge_fits :: "public_config \<Rightarrow> edge_fields \<Rightarrow> bool" where
  "edge_fits c f = fits (zip (edge_field_list f) (packing_widths c))"

definition packed_value :: "public_config \<Rightarrow> edge_fields \<Rightarrow> int" where
  "packed_value c f = radix_value (zip (edge_field_list f) (packing_widths c))"

lemma edge_fits_iff:
  "edge_fits c (t, r, e, s, v) \<longleftrightarrow>
     0 \<le> t \<and> t < 2 ^ (packing_widths c ! 0) \<and> 0 \<le> r \<and> r < 2 ^ (packing_widths c ! 1) \<and>
     0 \<le> e \<and> e < 2 ^ nat (evidence_bits c) \<and> 0 \<le> s \<and> s < 2 ^ nat (score_bits c) \<and> 0 \<le> v \<and> v < 2"
  by (auto simp: edge_fits_def edge_field_list_def packing_widths_def)

lemma pack_edge_iff:
  "pack_edge c f = Inr x \<longleftrightarrow> packable_config c \<and> edge_fits c f \<and> x = packed_value c f"
  by (auto simp: pack_edge_def res_simps pack_fields_iff edge_fits_def packed_value_def)

lemma unpack_edge_iff:
  "unpack_edge c x = Inr f \<longleftrightarrow>
     packable_config c \<and> 0 \<le> x \<and> x < 2 ^ packed_edge_bits c \<and>
     f = five_fields (unpack_fields (packing_widths c) x)"
  by (auto simp: unpack_edge_def res_simps)

lemma packed_value_bounds:
  assumes "edge_fits c f"
  shows "0 \<le> packed_value c f" and "packed_value c f < 2 ^ packed_edge_bits c"
  using radix_value_bounds [OF assms [unfolded edge_fits_def]]
  by (simp_all add: packed_value_def packed_edge_bits_def)

lemma unpack_packed_value:
  assumes "edge_fits c f"
  shows "five_fields (unpack_fields (packing_widths c) (packed_value c f)) = f"
  using unpack_radix_value [OF assms [unfolded edge_fits_def]] by (simp add: packed_value_def)

interpretation edge_codec: codec
  "packed_value c" "\<lambda>x. five_fields (unpack_fields (packing_widths c) x)" "edge_fits c" for c
  by unfold_locales (rule unpack_packed_value)

lemma edge_fits_unpack: "edge_fits c (five_fields (unpack_fields (packing_widths c) x))"
  by (simp add: edge_fits_def list_five_fields fits_unpack)

lemma packed_value_unpack:
  assumes "0 \<le> x" and "x < 2 ^ packed_edge_bits c"
  shows "packed_value c (five_fields (unpack_fields (packing_widths c) x)) = x"
  using assms by (simp add: packed_value_def list_five_fields packed_edge_bits_def radix_value_unpack)

lemma packed_value_pos:
  assumes "edge_fits c (t, r, e, s, 1)"
  shows "0 < packed_value c (t, r, e, s, 1)"
  unfolding packed_value_def
  by (rule radix_value_pos [OF assms [unfolded edge_fits_def], of 1 1])
    (simp_all add: edge_field_list_def packing_widths_def)

lemma packed_below_prime:
  assumes "valid_config c" and "packable_config c"
  shows "2 ^ packed_edge_bits c \<le> field_prime c"
proof -
  from assms(2) have "packed_edge_bits c \<le> nat (field_usable_bits c)"
    by (auto simp: require_packed_config_def split: if_splits)
  then have "(2::int) ^ packed_edge_bits c \<le> 2 ^ nat (field_usable_bits c)"
    by (rule power_increasing) simp
  with usable_bits_below_prime [OF assms(1)] show ?thesis by linarith
qed

text \<open>Identifiers from the vocabularies always fit their widths.\<close>

lemma entity_id_fits:
  assumes "valid_config c" and "map_of (entities c) name = Some i"
  shows "0 \<le> i" and "i < 2 ^ (packing_widths c ! 0)"
proof -
  note bounds = entity_slot_bounds [OF assms]
  then show "0 \<le> i" by simp
  have "entity_count c - 1 < 2 ^ bit_length (entity_count c - 1)"
    using bounds by (intro bit_length_less) simp
  also have "\<dots> \<le> 2 ^ (packing_widths c ! 0)"
    by (intro power_increasing) (simp_all add: packing_widths_def)
  finally show "i < 2 ^ (packing_widths c ! 0)" using bounds by linarith
qed

lemma relation_id_fits:
  assumes "valid_config c" and "map_of (relations c) name = Some i"
  shows "0 \<le> i" and "i < 2 ^ (packing_widths c ! 1)"
proof -
  let ?m = "Max (set (map snd (relations c)))"
  note bounds = relation_id_bounds [OF assms]
  then show "0 \<le> i" by simp
  have "i \<in> set (map snd (relations c))" using assms(2) by (force dest: map_of_SomeD)
  then have le: "i \<le> ?m" by (intro Max_ge) auto
  then have "?m < 2 ^ bit_length ?m" using bounds by (intro bit_length_less) simp
  also have "\<dots> \<le> 2 ^ (packing_widths c ! 1)"
    by (intro power_increasing) (simp_all add: packing_widths_def)
  finally show "i < 2 ^ (packing_widths c ! 1)" using le by linarith
qed

section \<open>What a validated edge is\<close>

lemma edge_ids_Inr:
  "edge_ids c e = Inr (s, r, t) \<longleftrightarrow>
     (\<exists>d sn rn tn. e = JDict d
        \<and> map_of d ''source'' = Some (JStr sn) \<and> map_of (entities c) sn = Some s
        \<and> map_of d ''target'' = Some (JStr tn) \<and> map_of (entities c) tn = Some t
        \<and> map_of d ''relation'' = Some (JStr rn) \<and> map_of (relations c) rn = Some r)"
  by (auto simp: edge_ids_def res_simps jitem_eq_Inr vocab_get_eq_Inr)

lemma edge_ids_bounds:
  assumes "valid_config c" and "edge_ids c e = Inr (s, r, t)"
  shows "1 \<le> s" "s < entity_count c" "1 \<le> t" "t < entity_count c"
    "1 \<le> r" "r \<le> int (length (relations c))"
    "0 \<le> t \<and> t < 2 ^ (packing_widths c ! 0)" "0 \<le> r \<and> r < 2 ^ (packing_widths c ! 1)"
  using assms entity_slot_bounds [OF assms(1)] relation_id_bounds [OF assms(1)]
    entity_id_fits [OF assms(1)] relation_id_fits [OF assms(1)]
  unfolding edge_ids_Inr by blast+

lemma strict_int_Some: "strict_int v = Some i \<longleftrightarrow> v = JInt i"
  by (cases v) auto

lemma validated_edge_Inr:
  "validated_edge c e = Inr (s, r, t, ev, sc) \<longleftrightarrow>
     packable_config c \<and> (\<exists>d. e = JDict d \<and> set (map fst d) = set edge_keys
       \<and> map_of d ''evidence'' = Some (JInt ev) \<and> map_of d ''score'' = Some (JInt sc))
     \<and> edge_ids c e = Inr (s, r, t) \<and> 0 < ev \<and> 0 \<le> sc \<and> edge_fits c (t, r, ev, sc, 1)"
  (is "?l \<longleftrightarrow> ?r")
proof
  assume ?l
  then show ?r
    by (auto simp: validated_edge_def res_simps jitem_eq_Inr strict_int_Some pack_edge_iff
        split: option.splits if_splits)
next
  assume r: ?r
  then have "pack_edge c (t, r, ev, sc, 1) = Inr (packed_value c (t, r, ev, sc, 1))"
    by (simp add: pack_edge_iff)
  with r show ?l by (auto simp: validated_edge_def)
qed

lemma validated_edge_bounds:
  assumes "valid_config c" and "validated_edge c e = Inr row"
  shows "1 \<le> row_source row" and "row_source row < entity_count c"
    and "edge_fits c (row_fields row)"
    and "pack_edge c (row_fields row) = Inr (packed_value c (row_fields row))"
proof -
  obtain s r t ev sc where row: "row = (s, r, t, ev, sc)" by (metis prod.exhaust)
  with assms edge_ids_bounds [OF assms(1), of e s r t]
  show "1 \<le> row_source row" "row_source row < entity_count c"
    "edge_fits c (row_fields row)"
    "pack_edge c (row_fields row) = Inr (packed_value c (row_fields row))"
    by (simp_all add: validated_edge_Inr row_source_def row_fields_def pack_edge_iff)
qed

section \<open>The sample configuration\<close>

lemma sample_widths [simp]: "packing_widths sample_config = [2, 2, 6, 4, 1]"
  by (simp add: packing_widths_def bit_length_def bit_len_nat.simps)

lemma sample_packable [simp]: "packable_config sample_config"
  by (simp add: require_packed_config_def packed_edge_bits_def field_usable_bits_def SCALABLE_FIELD_PRIMES_def)

section \<open>Properties\<close>

text \<open>
  C8: Packing round-trips.  Whatever \<open>pack_edge\<close> accepts, with the validity bit set or clear, is
  recovered by \<open>unpack_edge\<close>, the packed word is a canonical element of the configured prime
  field, and it is non-zero when the validity bit is set, so that a padding slot (zero) is
  never a real edge.
\<close>

theorem pack_edge_roundtrip:
  assumes "valid_config c" and "pack_edge c (t, r, e, s, v) = Inr x"
  shows "unpack_edge c x = Inr (t, r, e, s, v) \<and> 0 \<le> x \<and> x < field_prime c \<and> (v = 1 \<longrightarrow> 0 < x)"
proof -
  from assms(2) have pk: "packable_config c" and fit: "edge_fits c (t, r, e, s, v)"
    and x: "x = packed_value c (t, r, e, s, v)"
    by (simp_all add: pack_edge_iff)
  note bounds = packed_value_bounds [OF fit]
  have "unpack_edge c x = Inr (t, r, e, s, v)"
    using pk fit bounds by (simp add: unpack_edge_iff x edge_codec.dec_enc)
  moreover have "x < field_prime c"
    using bounds(2) packed_below_prime [OF assms(1) pk] by (simp add: x)
  moreover have "v = 1 \<longrightarrow> 0 < x" using packed_value_pos fit by (auto simp: x)
  ultimately show ?thesis using bounds(1) by (simp add: x)
qed

theorem pack_edge_roundtrip_witness:
  "(\<exists>x. pack_edge sample_config (2, 1, 9, 3, 1) = Inr x \<and> unpack_edge sample_config x = Inr (2, 1, 9, 3, 1) \<and> 0 < x) \<and>
   (\<exists>x. pack_edge sample_config (2, 1, 9, 3, 0) = Inr x \<and> unpack_edge sample_config x = Inr (2, 1, 9, 3, 0))"
proof -
  have packed: "\<exists>x. pack_edge sample_config (2, 1, 9, 3, 1) = Inr x" "\<exists>x. pack_edge sample_config (2, 1, 9, 3, 0) = Inr x"
    by (simp_all add: pack_edge_iff edge_fits_def packed_value_def edge_field_list_def)
  with pack_edge_roundtrip [OF sample_valid] show ?thesis by blast
qed

text \<open>
  Unpacking is exact.  A word \<open>unpack_edge\<close> accepts is the packing of the fields it
  returns, so no two canonical words decode to one edge and the circuit's bit decomposition
  loses nothing.
\<close>

theorem unpack_edge_exact:
  assumes "unpack_edge c x = Inr f"
  shows "pack_edge c f = Inr x"
  using assms by (auto simp: unpack_edge_iff pack_edge_iff edge_fits_unpack packed_value_unpack)

theorem unpack_edge_exact_witness:
  "\<exists>f. unpack_edge sample_config 19607 = Inr f \<and> pack_edge sample_config f = Inr 19607"
proof -
  obtain f where f: "unpack_edge sample_config 19607 = Inr f"
    by (simp add: unpack_edge_def packed_edge_bits_def)
  with unpack_edge_exact [OF f] show ?thesis by blast
qed

end
