(* ===== verification/Owner_Layout.thy ===== *)
theory Owner_Layout
  imports Edge_Packing
begin

text \<open>
  One owner's edges as a fixed-size table: \<open>packed_owner_vector\<close> and the capacity report of
  \<open>doram_t2_3pc/packed.py\<close> and \<open>owner_plain_vector\<close> of \<open>doram_t2_3pc/prepare.py\<close>.  Every
  table is an instance of one abstract layout: slot by slot the items of the rows of that
  source in file order, padded to the public fanout.
\<close>

section \<open>Buckets\<close>

text \<open>\<open>buckets[i].append(x)\<close>.\<close>

definition append_at :: "'a list list \<Rightarrow> int \<Rightarrow> 'a \<Rightarrow> 'a list list res" where
  "append_at buckets i x = bindr (list_get buckets i) (\<lambda>b. list_put buckets i (b @ [x]))"

text \<open>The closing loop: reject an overfull bucket, pad the others.\<close>

definition pad_buckets :: "int \<Rightarrow> 'a \<Rightarrow> 'a list list \<Rightarrow> 'a list list res" where
  "pad_buckets fanout zero buckets =
     traverse (\<lambda>b. if int (length b) > fanout then Inl (ValueError ''owner exceeds the public bound'')
                   else Inr (b @ replicate (nat (fanout - int (length b))) zero)) buckets"

section \<open>The operations\<close>

definition relation_overflow :: exn where
  "relation_overflow = ValueError ''owner exceeds public bound relation_fanout_per_owner''"

definition packed_step :: "public_config \<Rightarrow> jval \<Rightarrow> int list list \<times> ((int \<times> int) \<times> nat) list \<Rightarrow>
    (int list list \<times> ((int \<times> int) \<times> nat) list) res" where
  "packed_step c e = (\<lambda>(buckets, relation_counts).
     bindr (validated_edge c e) (\<lambda>(source, relation, target, evidence, score).
       let relation_counts = count_at (source, relation) relation_counts in
       if int (get_or 0 relation_counts (source, relation)) > relation_frontier_per_owner c
       then Inl relation_overflow
       else
         bindr (pack_edge c (target, relation, evidence, score, 1)) (\<lambda>word.
         bindr (append_at buckets source word) (\<lambda>buckets. Inr (buckets, relation_counts)))))"

definition packed_owner_vector :: "public_config \<Rightarrow> string \<Rightarrow> jval list \<Rightarrow> int list res" where
  "packed_owner_vector c owner edges =
     bindr (require_packed_config c) (\<lambda>_.
     if owner \<notin> set (owners c) then Inl (ValueError ''unknown owner'')
     else
       bindr (foldM (packed_step c) edges (replicate (nat (entity_count c)) [], [])) (\<lambda>(buckets, _).
       bindr (pad_buckets (fanout_per_owner c) 0 buckets) (\<lambda>rows. Inr (concat rows))))"

definition bounded_int :: "jval \<Rightarrow> int \<Rightarrow> int res" where
  "bounded_int v upper =
     (case strict_int v of
        None \<Rightarrow> Inl (ValueError ''must be an integer'')
      | Some i \<Rightarrow> if \<not> (0 \<le> i \<and> i < upper) then Inl (ValueError ''must be in range'') else Inr i)"

text \<open>The validation of \<open>owner_plain_vector\<close>, which does not pack.\<close>

definition plain_edge :: "public_config \<Rightarrow> jval \<Rightarrow> edge_row res" where
  "plain_edge c e =
     bindr (keys_are edge_keys e) (\<lambda>exact.
     if \<not> exact then Inl (ValueError ''edge must contain exactly source/relation/target/evidence/score'')
     else
     bindr (edge_ids c e) (\<lambda>(source, relation, target).
     bindr (bindr (jitem e ''evidence'') (\<lambda>v. bounded_int v (push_bit (nat (evidence_bits c)) 1))) (\<lambda>evidence.
     if evidence = 0 then Inl (ValueError ''evidence handle zero is reserved for padding'')
     else
     bindr (bindr (jitem e ''score'') (\<lambda>v. bounded_int v (push_bit (nat (score_bits c)) 1))) (\<lambda>score.
       Inr (source, relation, target, evidence, score)))))"

definition plain_step :: "public_config \<Rightarrow> jval \<Rightarrow> edge_fields list list \<Rightarrow> edge_fields list list res" where
  "plain_step c e buckets =
     bindr (plain_edge c e) (\<lambda>(source, relation, target, evidence, score).
       append_at buckets source (target, relation, evidence, score, 1))"

definition owner_plain_vector :: "public_config \<Rightarrow> string \<Rightarrow> jval list \<Rightarrow> int list res" where
  "owner_plain_vector c owner edges =
     (if owner \<notin> set (owners c) then Inl (ValueError ''unknown owner'')
      else
        bindr (foldM (plain_step c) edges (replicate (nat (entity_count c)) [])) (\<lambda>buckets.
        bindr (pad_buckets (fanout_per_owner c) (0, 0, 0, 0, 0) buckets) (\<lambda>rows.
          let flat = concat (map edge_field_list (concat rows)) in
          if int (length flat) \<noteq> owner_value_count c
          then Inl (AssertionError ''internal owner-vector length mismatch'')
          else Inr flat)))"

record capacity_report =
  edge_count :: nat
  nonempty_source_buckets :: nat
  nonempty_source_relation_buckets :: nat
  required_fanout_per_owner :: nat
  required_relation_fanout_per_owner :: nat
  configured_fanout_per_owner :: int
  configured_relation_fanout_per_owner :: int
  source_overflow_bucket_count :: nat
  source_relation_overflow_bucket_count :: nat
  supplied_input_fits_declared_capacity :: bool

definition count_step :: "public_config \<Rightarrow> jval \<Rightarrow> (int \<times> nat) list \<times> ((int \<times> int) \<times> nat) list \<Rightarrow>
    ((int \<times> nat) list \<times> ((int \<times> int) \<times> nat) list) res" where
  "count_step c e = (\<lambda>(source_counts, relation_counts).
     bindr (validated_edge c e) (\<lambda>(source, relation, _).
       Inr (count_at source source_counts, count_at (source, relation) relation_counts)))"

definition max_count :: "('k \<times> nat) list \<Rightarrow> nat" where
  "max_count counts = fold max (map snd counts) 0"

definition packed_owner_capacity_report :: "public_config \<Rightarrow> string \<Rightarrow> jval list \<Rightarrow> capacity_report res" where
  "packed_owner_capacity_report c owner edges =
     bindr (require_packed_config c) (\<lambda>_.
     if owner \<notin> set (owners c) then Inl (ValueError ''unknown owner'')
     else
     bindr (foldM (count_step c) edges ([], [])) (\<lambda>(source_counts, relation_counts).
       let required_total = max_count source_counts;
           required_relation = max_count relation_counts
       in Inr \<lparr>
         edge_count = length edges,
         nonempty_source_buckets = length source_counts,
         nonempty_source_relation_buckets = length relation_counts,
         required_fanout_per_owner = required_total,
         required_relation_fanout_per_owner = required_relation,
         configured_fanout_per_owner = fanout_per_owner c,
         configured_relation_fanout_per_owner = relation_frontier_per_owner c,
         source_overflow_bucket_count =
           length (filter (\<lambda>n. int n > fanout_per_owner c) (map snd source_counts)),
         source_relation_overflow_bucket_count =
           length (filter (\<lambda>n. int n > relation_frontier_per_owner c) (map snd relation_counts)),
         supplied_input_fits_declared_capacity =
           (int required_total \<le> fanout_per_owner c \<and>
            int required_relation \<le> relation_frontier_per_owner c)\<rparr>))"

section \<open>The abstract layout\<close>

definition rows_at :: "edge_row list \<Rightarrow> int \<Rightarrow> edge_row list" where
  "rows_at rows s = filter (\<lambda>row. row_source row = s) rows"

definition rows_with :: "edge_row list \<Rightarrow> int \<times> int \<Rightarrow> edge_row list" where
  "rows_with rows k = filter (\<lambda>row. row_key row = k) rows"

definition slot_items :: "nat \<Rightarrow> 'a \<Rightarrow> (edge_row \<Rightarrow> 'a) \<Rightarrow> edge_row list \<Rightarrow> nat \<Rightarrow> 'a list" where
  "slot_items fan zero item rows s =
     (let b = map item (rows_at rows (int s)) in b @ replicate (fan - length b) zero)"

definition owner_layout :: "nat \<Rightarrow> nat \<Rightarrow> 'a \<Rightarrow> (edge_row \<Rightarrow> 'a) \<Rightarrow> edge_row list \<Rightarrow> 'a list" where
  "owner_layout n fan zero item rows = concat (map (slot_items fan zero item rows) [0..<n])"

definition sources_fit :: "public_config \<Rightarrow> edge_row list \<Rightarrow> bool" where
  "sources_fit c rows =
     list_all (\<lambda>row. int (length (rows_at rows (row_source row))) \<le> fanout_per_owner c) rows"

definition relations_fit :: "public_config \<Rightarrow> edge_row list \<Rightarrow> bool" where
  "relations_fit c rows =
     list_all (\<lambda>row. int (length (rows_with rows (row_key row))) \<le> relation_frontier_per_owner c) rows"

section \<open>The bucket loops compute the layout\<close>

definition bucket_of :: "(edge_row \<Rightarrow> 'a) \<Rightarrow> edge_row \<Rightarrow> 'a list list \<Rightarrow> 'a list list" where
  "bucket_of item row buckets =
     (let i = nat (row_source row) in buckets[i := buckets ! i @ [item row]])"

lemma append_at_in:
  "0 \<le> i \<Longrightarrow> i < int (length buckets) \<Longrightarrow>
     append_at buckets i x = Inr (buckets[nat i := buckets ! nat i @ [x]])"
  by (simp add: append_at_def list_get_in list_put_in)

lemma length_bucket_of [simp]: "length (bucket_of item row buckets) = length buckets"
  by (simp add: bucket_of_def Let_def)

lemma fold_bucket_of:
  assumes "\<And>row. row \<in> set rows \<Longrightarrow> 0 \<le> row_source row"
  shows "fold (bucket_of item) rows buckets =
           map (\<lambda>s. buckets ! s @ map item (rows_at rows (int s))) [0..<length buckets]"
  using assms
proof (induction rows arbitrary: buckets)
  case Nil
  then show ?case by (simp add: rows_at_def map_nth)
next
  case (Cons row rows)
  have "nat (row_source row) = s \<longleftrightarrow> row_source row = int s" for s
    using Cons.prems [of row] by auto
  with Cons show ?case
    by (auto simp: rows_at_def bucket_of_def Let_def nth_list_update intro!: map_cong)
qed

lemma validated_rows_bounds:
  assumes "valid_config c" and "traverse (validated_edge c) edges = Inr rows" and "row \<in> set rows"
  shows "1 \<le> row_source row" and "row_source row < entity_count c" and "edge_fits c (row_fields row)"
  using traverse_set [OF assms(2,3)] validated_edge_bounds [OF assms(1)] by blast+

abbreviation packed_item :: "public_config \<Rightarrow> edge_row \<Rightarrow> int" where
  "packed_item c row \<equiv> packed_value c (row_fields row)"

lemma packed_step_Inr:
  assumes "valid_config c" and "validated_edge c e = Inr row" and "int (length buckets) = entity_count c"
  shows "packed_step c e (buckets, counts) =
    (if 1 + int (get_or 0 counts (row_key row)) > relation_frontier_per_owner c then Inl relation_overflow
     else Inr (bucket_of (packed_item c) row buckets, count_at (row_key row) counts))"
proof -
  obtain s r t ev sc where row: "row = (s, r, t, ev, sc)" by (metis prod.exhaust)
  note b = validated_edge_bounds [OF assms(1,2)]
  have "append_at buckets s (packed_item c row) = Inr (bucket_of (packed_item c) row buckets)"
    using b assms(3) by (simp add: append_at_in row row_source_def bucket_of_def Let_def)
  moreover have "pack_edge c (t, r, ev, sc, 1) = Inr (packed_item c row)"
    using b(4) by (simp add: row row_fields_def)
  ultimately show ?thesis
    using assms(2) by (simp add: packed_step_def row row_key_def Let_def)
qed

text \<open>The loop with a bound on each (source, relation) bucket, whichever row format it stores.\<close>

lemma bounded_loop:
  assumes step_ok: "\<And>e row buckets counts. dec e = Inr row \<Longrightarrow> int (length buckets) = n \<Longrightarrow>
      step e (buckets, counts) =
        (if 1 + int (get_or 0 counts (row_key row)) > limit then Inl overflow
         else Inr (bucket_of item row buckets, count_at (row_key row) counts))"
    and step_err: "\<And>e err s. dec e = Inl err \<Longrightarrow> \<not> is_ok (step e s)"
    and "int (length buckets) = n"
  shows "foldM step edges (buckets, counts) = Inr (buckets', counts') \<longleftrightarrow>
    (\<exists>rows. traverse dec edges = Inr rows
      \<and> list_all (\<lambda>row. int (get_or 0 counts (row_key row)) + int (length (rows_with rows (row_key row)))
                          \<le> limit) rows
      \<and> buckets' = fold (bucket_of item) rows buckets
      \<and> counts' = fold (\<lambda>row. count_at (row_key row)) rows counts)"
  using assms(3)
proof (induction edges arbitrary: buckets counts)
  case (Cons e edges)
  show ?case
  proof (cases "dec e")
    case (Inl err)
    with step_err [of e err "(buckets, counts)"] show ?thesis
      by (cases "step e (buckets, counts)") auto
  next
    case (Inr row)
    note step = step_ok [OF Inr Cons.prems, of counts]
    let ?count = "\<lambda>cs rows row'. int (get_or 0 cs (row_key row')) + int (length (rows_with rows (row_key row')))"
    have split: "?count (count_at (row_key row) counts) rows row' = ?count counts (row # rows) row'" for rows row'
      by (simp add: rows_with_def)
    have head: "1 + int (get_or 0 counts (row_key row)) \<le> ?count counts (row # rows) row" for rows
      by (simp add: rows_with_def)
    have head_eq: "?count counts (row # rows) row = 1 + int (get_or 0 counts (row_key row))
        \<or> (\<exists>row' \<in> set rows. row_key row' = row_key row)" for rows
      by (cases "rows_with rows (row_key row)") (auto simp: rows_with_def filter_eq_Cons_iff)
    have limit_iff: "list_all (\<lambda>row'. ?count counts (row # rows) row' \<le> L) (row # rows) \<longleftrightarrow>
        1 + int (get_or 0 counts (row_key row)) \<le> L
        \<and> list_all (\<lambda>row'. ?count (count_at (row_key row) counts) rows row' \<le> L) rows" for rows L
    proof -
      have "?count counts (row # rows) row \<le> L"
        if "1 + int (get_or 0 counts (row_key row)) \<le> L"
          "\<forall>row' \<in> set rows. ?count counts (row # rows) row' \<le> L"
        using head_eq [of rows] that by (metis (no_types, lifting))
      then show ?thesis
        unfolding split list_all_iff using head [of rows] by (auto intro: order_trans)
    qed
    have rows: "traverse dec (e # edges) = Inr rows \<longleftrightarrow>
        (\<exists>rest. rows = row # rest \<and> traverse dec edges = Inr rest)" for rows
      by (auto simp: Inr res_simps)
    have head_ok: "foldM step (e # edges) (buckets, counts) = Inr (buckets', counts') \<longleftrightarrow>
        1 + int (get_or 0 counts (row_key row)) \<le> limit \<and>
        foldM step edges (bucket_of item row buckets, count_at (row_key row) counts)
          = Inr (buckets', counts')"
      by (simp add: step not_le [symmetric])
    have IH: "foldM step edges (bucket_of item row buckets, count_at (row_key row) counts)
          = Inr (buckets', counts') \<longleftrightarrow>
        (\<exists>rest. traverse dec edges = Inr rest
          \<and> list_all (\<lambda>row'. ?count (count_at (row_key row) counts) rest row' \<le> limit) rest
          \<and> buckets' = fold (bucket_of item) (row # rest) buckets
          \<and> counts' = fold (\<lambda>row. count_at (row_key row)) (row # rest) counts)"
      using Cons.IH [of "bucket_of item row buckets" "count_at (row_key row) counts"] Cons.prems
      by simp
    show ?thesis
      unfolding head_ok IH rows using limit_iff by blast
  qed
qed auto

lemma packed_loop:
  assumes "valid_config c" and "int (length buckets) = entity_count c"
  shows "foldM (packed_step c) edges (buckets, counts) = Inr (buckets', counts') \<longleftrightarrow>
    (\<exists>rows. traverse (validated_edge c) edges = Inr rows
      \<and> list_all (\<lambda>row. int (get_or 0 counts (row_key row)) + int (length (rows_with rows (row_key row)))
                          \<le> relation_frontier_per_owner c) rows
      \<and> buckets' = fold (bucket_of (packed_item c)) rows buckets
      \<and> counts' = fold (\<lambda>row. count_at (row_key row)) rows counts)"
  by (rule bounded_loop [OF packed_step_Inr [OF assms(1)] _ assms(2)]) (auto simp: packed_step_def)

lemma pad_buckets_Inr:
  "pad_buckets fanout zero buckets = Inr rows \<longleftrightarrow>
     list_all (\<lambda>b. int (length b) \<le> fanout) buckets \<and>
     rows = map (\<lambda>b. b @ replicate (nat fanout - length b) zero) buckets"
proof (induction buckets arbitrary: rows)
  case (Cons b buckets)
  have "nat (fanout - int (length b)) = nat fanout - length b" by simp
  with Cons show ?case by (auto simp: pad_buckets_def res_simps)
qed (auto simp: pad_buckets_def)

lemma rows_at_fit:
  assumes "\<And>row. row \<in> set rows \<Longrightarrow> 0 \<le> row_source row \<and> row_source row < int n" and "0 \<le> fan"
  shows "(\<forall>s < n. int (length (rows_at rows (int s))) \<le> fan) \<longleftrightarrow>
         list_all (\<lambda>row. int (length (rows_at rows (row_source row))) \<le> fan) rows" (is "?l \<longleftrightarrow> ?r")
proof
  assume ?l
  show ?r
    unfolding list_all_iff
  proof
    fix row assume "row \<in> set rows"
    from assms(1) [OF this] have "nat (row_source row) < n" "int (nat (row_source row)) = row_source row"
      by auto
    with \<open>?l\<close> show "int (length (rows_at rows (row_source row))) \<le> fan" by metis
  qed
next
  assume ?r
  show ?l
  proof (intro allI impI)
    fix s assume "s < n"
    show "int (length (rows_at rows (int s))) \<le> fan"
    proof (cases "rows_at rows (int s)")
      case (Cons row tail)
      then have "row \<in> set (rows_at rows (int s))" by simp
      then have "row \<in> set rows" "row_source row = int s" by (auto simp: rows_at_def)
      with \<open>?r\<close> show ?thesis by (auto simp: list_all_iff)
    qed (use assms(2) in simp)
  qed
qed

lemma pad_layout:
  assumes "\<And>row. row \<in> set rows \<Longrightarrow> 0 \<le> row_source row \<and> row_source row < int n" and "0 \<le> fan"
  shows "pad_buckets fan zero (fold (bucket_of item) rows (replicate n [])) = Inr table \<longleftrightarrow>
      list_all (\<lambda>row. int (length (rows_at rows (row_source row))) \<le> fan) rows \<and>
      table = map (slot_items (nat fan) zero item rows) [0..<n]"
proof -
  have "fold (bucket_of item) rows (replicate n []) = map (\<lambda>s. map item (rows_at rows (int s))) [0..<n]"
    using assms(1) by (subst fold_bucket_of) (auto intro!: map_cong)
  moreover have "list_all (\<lambda>b. int (length b) \<le> fan) (map (\<lambda>s. map item (rows_at rows (int s))) [0..<n])
      \<longleftrightarrow> (\<forall>s < n. int (length (rows_at rows (int s))) \<le> fan)"
    by (auto simp: list_all_iff)
  moreover have "slot_items (nat fan) zero item rows =
      (\<lambda>s. map item (rows_at rows (int s)) @
            replicate (nat fan - length (rows_at rows (int s))) zero)"
    by (simp add: fun_eq_iff slot_items_def Let_def)
  ultimately show ?thesis
    using rows_at_fit [OF assms] by (simp add: pad_buckets_Inr comp_def)
qed

lemma pad_layout_valid:
  assumes "valid_config c" and "\<And>row. row \<in> set rows \<Longrightarrow> 1 \<le> row_source row \<and> row_source row < entity_count c"
  shows "pad_buckets (fanout_per_owner c) zero
      (fold (bucket_of item) rows (replicate (nat (entity_count c)) [])) = Inr table \<longleftrightarrow>
    sources_fit c rows \<and>
    table = map (slot_items (nat (fanout_per_owner c)) zero item rows) [0..<nat (entity_count c)]"
  unfolding sources_fit_def
  by (rule pad_layout) (use assms valid_fanout [OF assms(1)] in force)+

lemma entity_count_pos: "1 \<le> entity_count c"
  by (simp add: entity_count_def)

lemma packed_owner_vector_iff:
  assumes "valid_config c"
  shows "packed_owner_vector c owner edges = Inr v \<longleftrightarrow>
    packable_config c \<and> owner \<in> set (owners c) \<and>
    (\<exists>rows. traverse (validated_edge c) edges = Inr rows \<and> sources_fit c rows \<and> relations_fit c rows
      \<and> v = owner_layout (nat (entity_count c)) (nat (fanout_per_owner c)) 0 (packed_item c) rows)"
proof -
  let ?n = "nat (entity_count c)"
  have n: "int (length (replicate ?n ([] :: int list))) = entity_count c"
    using entity_count_pos [of c] by simp
  have loop: "foldM (packed_step c) edges (replicate ?n [], []) = Inr (buckets, counts) \<longleftrightarrow>
      (\<exists>rows. traverse (validated_edge c) edges = Inr rows \<and> relations_fit c rows
        \<and> buckets = fold (bucket_of (packed_item c)) rows (replicate ?n [])
        \<and> counts = fold (\<lambda>row. count_at (row_key row)) rows [])" for buckets counts
    by (simp only: packed_loop [OF assms n] relations_fit_def get_or_Nil) simp
  have pad: "pad_buckets (fanout_per_owner c) 0 (fold (bucket_of (packed_item c)) rows (replicate ?n [])) = Inr table
      \<longleftrightarrow> sources_fit c rows \<and>
        table = map (slot_items (nat (fanout_per_owner c)) 0 (packed_item c) rows) [0..<?n]"
    if "traverse (validated_edge c) edges = Inr rows" for rows table
    using validated_rows_bounds(1,2) [OF assms that] by (intro pad_layout_valid [OF assms]) blast
  show ?thesis
    unfolding packed_owner_vector_def owner_layout_def
    by (auto simp: res_simps loop pad split: prod.splits)
qed

lemma length_slot_items: "length (rows_at rows (int s)) \<le> fan \<Longrightarrow> length (slot_items fan zero item rows s) = fan"
  by (simp add: slot_items_def Let_def)

lemma sources_fit_slot:
  assumes "valid_config c" and "sources_fit c rows"
  shows "length (rows_at rows (int s)) \<le> nat (fanout_per_owner c)"
proof (cases "rows_at rows (int s)")
  case (Cons row tail)
  then have "row \<in> set (rows_at rows (int s))" by simp
  then have "row \<in> set rows" "row_source row = int s" by (auto simp: rows_at_def)
  with assms(2) show ?thesis by (auto simp: sources_fit_def list_all_iff)
qed simp

lemma length_owner_layout:
  assumes "valid_config c" and "sources_fit c rows"
  shows "length (owner_layout n (nat (fanout_per_owner c)) zero item rows) = n * nat (fanout_per_owner c)"
proof -
  have "length (concat (map (slot_items (nat (fanout_per_owner c)) zero item rows) [0..<n])) =
      length (map (slot_items (nat (fanout_per_owner c)) zero item rows) [0..<n]) * nat (fanout_per_owner c)"
    by (rule length_concat_uniform) (auto simp: length_slot_items sources_fit_slot [OF assms])
  then show ?thesis by (simp add: owner_layout_def)
qed

lemma owner_layout_slot:
  assumes "valid_config c" and "sources_fit c rows" and "s < n"
  shows "take (nat (fanout_per_owner c)) (drop (s * nat (fanout_per_owner c))
           (owner_layout n (nat (fanout_per_owner c)) zero item rows)) =
         slot_items (nat (fanout_per_owner c)) zero item rows s"
proof -
  let ?rows = "map (slot_items (nat (fanout_per_owner c)) zero item rows) [0..<n]"
  have "take (nat (fanout_per_owner c)) (drop (s * nat (fanout_per_owner c)) (concat ?rows)) = ?rows ! s"
    by (rule concat_uniform_slice) (use assms in \<open>auto simp: length_slot_items sources_fit_slot\<close>)
  with assms(3) show ?thesis by (simp add: owner_layout_def)
qed

section \<open>The capacity report\<close>

lemma count_loop:
  "foldM (count_step c) edges (sc, rc) = Inr (sc', rc') \<longleftrightarrow>
     (\<exists>rows. traverse (validated_edge c) edges = Inr rows
        \<and> sc' = fold (\<lambda>row. count_at (row_source row)) rows sc
        \<and> rc' = fold (\<lambda>row. count_at (row_key row)) rows rc)"
proof (induction edges arbitrary: sc rc)
  case (Cons e edges)
  show ?case
  proof (cases "validated_edge c e")
    case (Inr row)
    obtain s r t ev s' where row: "row = (s, r, t, ev, s')" by (metis prod.exhaust)
    have "count_step c e (sc, rc) = Inr (count_at (row_source row) sc, count_at (row_key row) rc)"
      using Inr by (simp add: count_step_def row row_source_def row_key_def)
    with Inr Cons.IH show ?thesis by (auto simp: res_simps)
  qed (simp add: count_step_def)
qed auto

lemma max_count_le:
  assumes "distinct (map fst counts)"
  shows "max_count counts \<le> m \<longleftrightarrow> (\<forall>k \<in> fst ` set counts. get_or 0 counts k \<le> m)"
proof -
  have "fold max ns a \<le> m \<longleftrightarrow> a \<le> m \<and> (\<forall>n \<in> set ns. n \<le> m)" for ns and a :: nat
    by (induction ns arbitrary: a) auto
  then have "max_count counts \<le> m \<longleftrightarrow> (\<forall>e \<in> set counts. snd e \<le> m)"
    by (simp add: max_count_def)
  also have "\<dots> \<longleftrightarrow> (\<forall>k \<in> fst ` set counts. get_or 0 counts k \<le> m)"
    using get_or_in [OF _ assms, of _ _ 0] by force
  finally show ?thesis .
qed

lemma max_count_by_le:
  "int (max_count (count_by key xs)) \<le> m \<longleftrightarrow>
     0 \<le> m \<and> (\<forall>x \<in> set xs. int (length (filter (\<lambda>y. key y = key x) xs)) \<le> m)"
proof (cases "0 \<le> m")
  case True
  then obtain n where m: "m = int n" using nonneg_int_cases by blast
  show ?thesis unfolding m using max_count_le [OF distinct_count_by, of key xs n] by simp
qed simp

lemma packed_owner_capacity_report_iff:
  "packed_owner_capacity_report c owner edges = Inr report \<longleftrightarrow>
    packable_config c \<and> owner \<in> set (owners c) \<and>
    (\<exists>rows. traverse (validated_edge c) edges = Inr rows \<and>
      (let sc = count_by row_source rows; rc = count_by row_key rows in
       report = \<lparr>edge_count = length edges,
         nonempty_source_buckets = length sc,
         nonempty_source_relation_buckets = length rc,
         required_fanout_per_owner = max_count sc,
         required_relation_fanout_per_owner = max_count rc,
         configured_fanout_per_owner = fanout_per_owner c,
         configured_relation_fanout_per_owner = relation_frontier_per_owner c,
         source_overflow_bucket_count =
           length (filter (\<lambda>n. int n > fanout_per_owner c) (map snd sc)),
         source_relation_overflow_bucket_count =
           length (filter (\<lambda>n. int n > relation_frontier_per_owner c) (map snd rc)),
         supplied_input_fits_declared_capacity =
           (int (max_count sc) \<le> fanout_per_owner c \<and>
            int (max_count rc) \<le> relation_frontier_per_owner c)\<rparr>))"
  unfolding packed_owner_capacity_report_def count_by_def Let_def
  by (auto simp: res_simps count_loop)

lemma sources_fit_iff:
  assumes "0 \<le> fanout_per_owner c"
  shows "int (max_count (count_by row_source rows)) \<le> fanout_per_owner c \<longleftrightarrow> sources_fit c rows"
  using assms by (simp add: max_count_by_le sources_fit_def rows_at_def list_all_iff)

lemma relations_fit_iff:
  assumes "0 \<le> relation_frontier_per_owner c"
  shows "int (max_count (count_by row_key rows)) \<le> relation_frontier_per_owner c \<longleftrightarrow> relations_fit c rows"
  using assms by (simp add: max_count_by_le relations_fit_def rows_with_def list_all_iff)

section \<open>The unpacked layout\<close>

lemma bounded_int_Inr: "bounded_int v n = Inr i \<longleftrightarrow> v = JInt i \<and> 0 \<le> i \<and> i < n"
  by (auto simp: bounded_int_def strict_int_Some split: option.splits)

lemma plain_edge_Inr:
  "plain_edge c e = Inr (s, r, t, ev, sc) \<longleftrightarrow>
     (\<exists>d. e = JDict d \<and> set (map fst d) = set edge_keys
       \<and> map_of d ''evidence'' = Some (JInt ev) \<and> map_of d ''score'' = Some (JInt sc))
     \<and> edge_ids c e = Inr (s, r, t) \<and> 0 < ev \<and> ev < 2 ^ nat (evidence_bits c)
     \<and> 0 \<le> sc \<and> sc < 2 ^ nat (score_bits c)" (is "?l \<longleftrightarrow> ?r")
proof
  assume ?l
  then show ?r
    by (auto simp: plain_edge_def res_simps jitem_eq_Inr bounded_int_Inr split: if_splits)
next
  assume r: ?r
  then have "bounded_int (JInt ev) (push_bit (nat (evidence_bits c)) 1) = Inr ev"
    "bounded_int (JInt sc) (push_bit (nat (score_bits c)) 1) = Inr sc"
    by (simp_all add: bounded_int_Inr)
  with r show ?l by (auto simp: plain_edge_def)
qed

text \<open>Under a valid configuration the two validations accept the same edges.\<close>

lemma validated_iff_plain:
  assumes "valid_config c" and "packable_config c"
  shows "validated_edge c e = Inr row \<longleftrightarrow> plain_edge c e = Inr row"
proof -
  obtain s r t ev sc where row: "row = (s, r, t, ev, sc)" by (metis prod.exhaust)
  have "edge_fits c (t, r, ev, sc, 1) \<longleftrightarrow>
      0 \<le> ev \<and> ev < 2 ^ nat (evidence_bits c) \<and> 0 \<le> sc \<and> sc < 2 ^ nat (score_bits c)"
    if "edge_ids c e = Inr (s, r, t)"
    using edge_ids_bounds(7,8) [OF assms(1) that] by (auto simp: edge_fits_iff)
  then show ?thesis
    using assms(2) by (auto simp: row validated_edge_Inr plain_edge_Inr)
qed

lemma traverse_validated_plain:
  assumes "valid_config c" and "packable_config c"
  shows "traverse (validated_edge c) edges = Inr rows \<longleftrightarrow> traverse (plain_edge c) edges = Inr rows"
  by (simp add: traverse_eq_Inr validated_iff_plain [OF assms])

lemma plain_edge_bounds:
  assumes "valid_config c" and "plain_edge c e = Inr row"
  shows "1 \<le> row_source row" and "row_source row < entity_count c"
proof -
  obtain s r t ev sc where row: "row = (s, r, t, ev, sc)" by (metis prod.exhaust)
  then have "edge_ids c e = Inr (s, r, t)" using assms(2) by (simp add: plain_edge_Inr)
  from edge_ids_bounds(1,2) [OF assms(1) this]
  show "1 \<le> row_source row" "row_source row < entity_count c" by (simp_all add: row row_source_def)
qed

lemma plain_loop:
  assumes "valid_config c" and "int (length buckets) = entity_count c"
  shows "foldM (plain_step c) edges buckets = Inr buckets' \<longleftrightarrow>
    (\<exists>rows. traverse (plain_edge c) edges = Inr rows \<and> buckets' = fold (bucket_of row_fields) rows buckets)"
  using assms(2)
proof (induction edges arbitrary: buckets)
  case (Cons e edges)
  show ?case
  proof (cases "plain_edge c e")
    case (Inr row)
    obtain s r t ev s' where row: "row = (s, r, t, ev, s')" by (metis prod.exhaust)
    have step: "plain_step c e buckets = Inr (bucket_of row_fields row buckets)"
      using Inr plain_edge_bounds [OF assms(1) Inr] Cons.prems
      by (simp add: plain_step_def row row_source_def row_fields_def append_at_in bucket_of_def Let_def)
    have "int (length (bucket_of row_fields row buckets)) = entity_count c"
      using Cons.prems by simp
    note IH = Cons.IH [OF this]
    have rows: "traverse (plain_edge c) (e # edges) = Inr rows \<longleftrightarrow>
        (\<exists>rest. rows = row # rest \<and> traverse (plain_edge c) edges = Inr rest)" for rows
      by (auto simp: Inr res_simps)
    show ?thesis
      unfolding foldM.simps step bindr_Inr IH rows by (metis fold_simps(2))
  qed (simp add: plain_step_def)
qed auto

lemma length_concat_five: "length (concat (map edge_field_list fs)) = 5 * length fs"
  by (induction fs) auto

lemma owner_plain_vector_iff:
  assumes "valid_config c"
  shows "owner_plain_vector c owner edges = Inr v \<longleftrightarrow>
    owner \<in> set (owners c) \<and>
    (\<exists>rows. traverse (plain_edge c) edges = Inr rows \<and> sources_fit c rows
      \<and> v = concat (map edge_field_list
              (owner_layout (nat (entity_count c)) (nat (fanout_per_owner c)) (0, 0, 0, 0, 0) row_fields rows)))"
proof -
  let ?n = "nat (entity_count c)" and ?f = "nat (fanout_per_owner c)"
  have n: "int (length (replicate ?n ([] :: edge_fields list))) = entity_count c"
    using entity_count_pos [of c] by simp
  have pad: "pad_buckets (fanout_per_owner c) z (fold (bucket_of row_fields) rows (replicate ?n [])) = Inr table
      \<longleftrightarrow> sources_fit c rows \<and> table = map (slot_items ?f z row_fields rows) [0..<?n]"
    if "traverse (plain_edge c) edges = Inr rows" for rows table z
    using traverse_set [OF that] plain_edge_bounds [OF assms] by (intro pad_layout_valid [OF assms]) blast
  have len: "int (length (concat (map edge_field_list
      (concat (map (slot_items ?f (0, 0, 0, 0, 0) row_fields rows) [0..<?n]))))) = owner_value_count c"
    if "sources_fit c rows" for rows
  proof -
    note len = length_owner_layout [OF assms that, of ?n "(0, 0, 0, 0, 0)" row_fields, unfolded owner_layout_def]
    show ?thesis
      using entity_count_pos [of c] valid_fanout [OF assms]
      unfolding length_concat_five len by (simp add: owner_value_count_def EDGE_FIELDS_def)
  qed
  let ?table = "\<lambda>rows. map (slot_items ?f (0, 0, 0, 0, 0) row_fields rows) [0..<?n]"
  have body: "bindr (pad_buckets (fanout_per_owner c) (0, 0, 0, 0, 0)
        (fold (bucket_of row_fields) rows (replicate ?n []))) (\<lambda>table.
          if int (length (concat (map edge_field_list (concat table)))) \<noteq> owner_value_count c
          then Inl (AssertionError ''internal owner-vector length mismatch'')
          else Inr (concat (map edge_field_list (concat table)))) = Inr v
      \<longleftrightarrow> sources_fit c rows \<and> v = concat (map edge_field_list (concat (?table rows)))"
    if "traverse (plain_edge c) edges = Inr rows" for rows
    unfolding bindr_eq_Inr pad [OF that] if_Inl_eq_Inr using len [of rows] by auto
  show ?thesis
    unfolding owner_plain_vector_def owner_layout_def Let_def if_Inl_eq_Inr bindr_eq_Inr [of "foldM _ _ _"]
      plain_loop [OF assms n]
    using body by blast
qed

section \<open>The sample graph\<close>

definition raw_edge :: "string \<Rightarrow> string \<Rightarrow> string \<Rightarrow> int \<Rightarrow> int \<Rightarrow> jval" where
  "raw_edge s r t ev sc = JDict [(''source'', JStr s), (''relation'', JStr r), (''target'', JStr t),
     (''evidence'', JInt ev), (''score'', JInt sc)]"

definition sample_edges :: "jval list" where
  "sample_edges = [raw_edge ''a'' ''r'' ''b'' 9 3, raw_edge ''b'' ''s'' ''c'' 7 2, raw_edge ''a'' ''r'' ''c'' 5 1]"

definition sample_rows :: "edge_row list" where
  "sample_rows = [(1, 1, 2, 9, 3), (2, 2, 3, 7, 2), (1, 1, 3, 5, 1)]"

lemma sample_ids:
  "edge_ids sample_config (raw_edge ''a'' ''r'' ''b'' 9 3) = Inr (1, 1, 2)"
  "edge_ids sample_config (raw_edge ''b'' ''s'' ''c'' 7 2) = Inr (2, 2, 3)"
  "edge_ids sample_config (raw_edge ''a'' ''r'' ''c'' 5 1) = Inr (1, 1, 3)"
  by (simp_all add: edge_ids_def raw_edge_def vocab_get_def)

lemma sample_traverse: "traverse (validated_edge sample_config) sample_edges = Inr sample_rows"
proof -
  have "validated_edge sample_config (raw_edge ''a'' ''r'' ''b'' 9 3) = Inr (1, 1, 2, 9, 3)"
    "validated_edge sample_config (raw_edge ''b'' ''s'' ''c'' 7 2) = Inr (2, 2, 3, 7, 2)"
    "validated_edge sample_config (raw_edge ''a'' ''r'' ''c'' 5 1) = Inr (1, 1, 3, 5, 1)"
    unfolding validated_edge_Inr sample_ids by (simp_all add: edge_fits_iff raw_edge_def edge_keys_def insert_commute)
  then show ?thesis by (simp add: sample_edges_def sample_rows_def)
qed

lemma sample_fit: "sources_fit sample_config sample_rows" "relations_fit sample_config sample_rows"
  by (simp_all add: sources_fit_def relations_fit_def sample_rows_def rows_at_def rows_with_def
      row_source_def row_key_def)

lemma sample_overfull: "\<not> sources_fit sample_config (sample_rows @ sample_rows)"
  by (simp add: sources_fit_def sample_rows_def rows_at_def row_source_def)

lemma sample_layout:
  "owner_layout (nat (entity_count sample_config)) (nat (fanout_per_owner sample_config)) 0
     (packed_item sample_config) sample_rows = [0, 0, 19606, 17495, 18555, 0, 0, 0]"
  by (simp add: owner_layout_def slot_items_def sample_rows_def rows_at_def row_source_def row_fields_def
      packed_value_def edge_field_list_def upt_rec numeral_2_eq_2)

section \<open>Properties\<close>

text \<open>
  C7: The packed owner table.  Under a valid configuration \<open>packed_owner_vector\<close> returns
  exactly when the configuration is packable, the owner is known, every raw edge validates,
  and no source or (source, relation) bucket exceeds its public bound; what it returns is the
  abstract layout: per entity slot the packed edges of that source in file order, zero-padded
  to the public fanout.
\<close>

theorem packed_owner_vector_exact:
  assumes "valid_config c"
  shows "packed_owner_vector c owner edges = Inr v \<longleftrightarrow>
    packable_config c \<and> owner \<in> set (owners c) \<and>
    (\<exists>rows. traverse (validated_edge c) edges = Inr rows \<and> sources_fit c rows \<and> relations_fit c rows
      \<and> v = owner_layout (nat (entity_count c)) (nat (fanout_per_owner c)) 0 (packed_item c) rows)"
  by (rule packed_owner_vector_iff [OF assms])

theorem packed_owner_vector_exact_witness:
  "packed_owner_vector sample_config ''alice'' sample_edges = Inr [0, 0, 19606, 17495, 18555, 0, 0, 0] \<and>
   \<not> is_ok (packed_owner_vector sample_config ''alice'' (sample_edges @ sample_edges))"
proof
  show "packed_owner_vector sample_config ''alice'' sample_edges = Inr [0, 0, 19606, 17495, 18555, 0, 0, 0]"
    unfolding packed_owner_vector_exact [OF sample_valid] using sample_traverse sample_fit sample_layout by auto
  have "traverse (validated_edge sample_config) (sample_edges @ sample_edges) = Inr (sample_rows @ sample_rows)"
    by (simp add: traverse_append sample_traverse)
  then show "\<not> is_ok (packed_owner_vector sample_config ''alice'' (sample_edges @ sample_edges))"
    unfolding is_ok_iff packed_owner_vector_exact [OF sample_valid] using sample_overfull by auto
qed

text \<open>
  The capacity report is honest.  When \<open>packed_owner_capacity_report\<close> returns a report
  for an owner's file, it says that the file fits the declared capacity exactly when
  \<open>packed_owner_vector\<close> accepts that file, and the required fanouts it reports are at most a
  bound exactly when every bucket of the file is.
\<close>

theorem capacity_report_decides:
  assumes "valid_config c" and "packed_owner_capacity_report c owner edges = Inr report"
  shows "(supplied_input_fits_declared_capacity report \<longleftrightarrow> is_ok (packed_owner_vector c owner edges)) \<and>
    (\<exists>rows. traverse (validated_edge c) edges = Inr rows \<and>
      (\<forall>m. required_fanout_per_owner report \<le> m \<longleftrightarrow>
           (\<forall>row \<in> set rows. length (rows_at rows (row_source row)) \<le> m)) \<and>
      (\<forall>m. required_relation_fanout_per_owner report \<le> m \<longleftrightarrow>
           (\<forall>row \<in> set rows. length (rows_with rows (row_key row)) \<le> m)))"
proof -
  obtain rows where pre: "packable_config c" "owner \<in> set (owners c)"
      and rows: "traverse (validated_edge c) edges = Inr rows"
      and fit: "supplied_input_fits_declared_capacity report \<longleftrightarrow>
        int (max_count (count_by row_source rows)) \<le> fanout_per_owner c \<and>
        int (max_count (count_by row_key rows)) \<le> relation_frontier_per_owner c"
      and req: "required_fanout_per_owner report = max_count (count_by row_source rows)"
        "required_relation_fanout_per_owner report = max_count (count_by row_key rows)"
    using assms(2) by (auto simp: packed_owner_capacity_report_iff Let_def)
  have "0 \<le> fanout_per_owner c" "0 \<le> relation_frontier_per_owner c"
    using valid_fanout [OF assms(1)] frontier_bounds(1) [OF assms(1)] by simp_all
  with fit have "supplied_input_fits_declared_capacity report \<longleftrightarrow> sources_fit c rows \<and> relations_fit c rows"
    by (simp add: sources_fit_iff relations_fit_iff)
  moreover have "is_ok (packed_owner_vector c owner edges) \<longleftrightarrow> sources_fit c rows \<and> relations_fit c rows"
    using pre rows by (auto simp: is_ok_iff packed_owner_vector_iff [OF assms(1)])
  moreover have "max_count (count_by row_source rows) \<le> m \<longleftrightarrow>
      (\<forall>row \<in> set rows. length (rows_at rows (row_source row)) \<le> m)" for m
    using max_count_by_le [of row_source rows "int m"] by (simp add: rows_at_def)
  moreover have "max_count (count_by row_key rows) \<le> m \<longleftrightarrow>
      (\<forall>row \<in> set rows. length (rows_with rows (row_key row)) \<le> m)" for m
    using max_count_by_le [of row_key rows "int m"] by (simp add: rows_with_def)
  ultimately show ?thesis using rows req by auto
qed

theorem capacity_report_decides_witness:
  "\<exists>report. packed_owner_capacity_report sample_config ''alice'' sample_edges = Inr report \<and>
     supplied_input_fits_declared_capacity report"
proof -
  obtain report where report: "packed_owner_capacity_report sample_config ''alice'' sample_edges = Inr report"
    by (auto simp: packed_owner_capacity_report_iff sample_traverse Let_def)
  have "is_ok (packed_owner_vector sample_config ''alice'' sample_edges)"
    unfolding is_ok_iff packed_owner_vector_iff [OF sample_valid] using sample_traverse sample_fit by auto
  with capacity_report_decides [OF sample_valid report] report show ?thesis by blast
qed

text \<open>
  C9: The packed and the five-column preparation of one owner agree: whenever
  \<open>packed_owner_vector\<close> accepts a file, every word unpacks and \<open>owner_plain_vector\<close> returns
  the concatenation of the unpacked records, padding included.
\<close>

theorem packed_matches_plain:
  assumes "valid_config c" and "packed_owner_vector c owner edges = Inr words"
  shows "\<exists>records. traverse (unpack_edge c) words = Inr records \<and>
    owner_plain_vector c owner edges = Inr (concat (map edge_field_list records))"
proof -
  let ?n = "nat (entity_count c)" and ?f = "nat (fanout_per_owner c)"
  obtain rows where pk: "packable_config c" and owner: "owner \<in> set (owners c)"
      and rows: "traverse (validated_edge c) edges = Inr rows" and fit: "sources_fit c rows"
      and words: "words = owner_layout ?n ?f 0 (packed_item c) rows"
    using assms(2) by (auto simp: packed_owner_vector_iff [OF assms(1)])
  let ?dec = "\<lambda>x. five_fields (unpack_fields (packing_widths c) x)"
  have zero: "?dec 0 = (0, 0, 0, 0, 0)" by (simp add: packing_widths_def)
  have fits: "edge_fits c (row_fields row)" if "row \<in> set rows" for row
    using validated_rows_bounds(3) [OF assms(1) rows that] .
  have unpack: "unpack_edge c w = Inr (?dec w)" if "w \<in> set words" for w
    using that pk fits
    by (auto simp: words owner_layout_def slot_items_def Let_def rows_at_def unpack_edge_iff packed_value_bounds)
  have item: "map ?dec (slot_items ?f 0 (packed_item c) rows s) =
      slot_items ?f (0, 0, 0, 0, 0) row_fields rows s" for s
    using fits by (auto simp: slot_items_def Let_def zero rows_at_def edge_codec.dec_enc)
  have "map ?dec words = owner_layout ?n ?f (0, 0, 0, 0, 0) row_fields rows"
    unfolding words owner_layout_def map_concat map_map comp_def item by simp
  moreover have "traverse (plain_edge c) edges = Inr rows"
    using rows traverse_validated_plain [OF assms(1) pk] by blast
  ultimately show ?thesis
    using traverse_Inr [of words "unpack_edge c" ?dec] unpack owner fit
    by (auto simp: owner_plain_vector_iff [OF assms(1)])
qed

theorem packed_matches_plain_witness:
  "is_ok (owner_plain_vector sample_config ''alice'' sample_edges)"
proof -
  have "packed_owner_vector sample_config ''alice'' sample_edges = Inr [0, 0, 19606, 17495, 18555, 0, 0, 0]"
    unfolding packed_owner_vector_iff [OF sample_valid] using sample_traverse sample_fit sample_layout by auto
  from packed_matches_plain [OF sample_valid this] show ?thesis by (auto simp: is_ok_iff)
qed

end
