(* ===== verification/Field_Sharing.thy ===== *)
theory Field_Sharing
  imports Public_Config
begin

text \<open>
  Three-server additive sharing over a prime field (\<open>doram_t2_3pc/sharing.py\<close>): dealing a
  value or a vector, reconstruction, and the two facts the system rests on, that all three
  shares determine the value and that any two of them are independent of it.  The contract
  the preparation routines use is the locale \<open>secret_sharing\<close>; the facts about vectors are
  proved there once.

  Shared values are integers by typing, so the \<open>isinstance\<close> guards are not branches here.
\<close>

section \<open>Dealing and reconstruction\<close>

definition SERVER_COUNT :: nat where
  "SERVER_COUNT = 3"

type_synonym triple = "int \<times> int \<times> int"
type_synonym shared_vector = "int list \<times> int list \<times> int list"

definition share :: "int \<Rightarrow> int \<Rightarrow> rng \<Rightarrow> (triple \<times> rng) res" where
  "share m v g =
     (if \<not> (0 \<le> v \<and> v < m) then Inl (ValueError ''value must be in'')
      else
        let (first, g1) = randbelow (nat m) g;
            (second, g2) = randbelow (nat m) g1;
            third = (v - int first - int second) mod m
        in Inr ((int first, int second, third), g2))"

text \<open>One pass over the values with a given dealer, the pieces appended server by server.\<close>

fun deal_vector :: "(int \<Rightarrow> rng \<Rightarrow> (triple \<times> rng) res) \<Rightarrow> int list \<Rightarrow> rng \<Rightarrow> (shared_vector \<times> rng) res" where
  "deal_vector deal [] g = Inr (([], [], []), g)"
| "deal_vector deal (v # vs) g =
     bindr (deal v g) (\<lambda>((a, b, c), g1).
     bindr (deal_vector deal vs g1) (\<lambda>((as, bs, cs), g2).
       Inr ((a # as, b # bs, c # cs), g2)))"

definition share_vector :: "int \<Rightarrow> int list \<Rightarrow> rng \<Rightarrow> (shared_vector \<times> rng) res" where
  "share_vector m = deal_vector (share m)"

definition reconstruct :: "int \<Rightarrow> int list \<Rightarrow> int res" where
  "reconstruct m pieces =
     (if length pieces \<noteq> SERVER_COUNT then Inl (ValueError ''expected exactly 3 shares'')
      else if (\<exists>x \<in> set pieces. \<not> (0 \<le> x \<and> x < m)) then
        Inl (ValueError ''shares must be canonical field elements'')
      else Inr (sum_list pieces mod m))"

text \<open>Position-wise reconstruction of a vector.\<close>

definition combine_vector :: "(int list \<Rightarrow> int res) \<Rightarrow> shared_vector \<Rightarrow> int list res" where
  "combine_vector combine = (\<lambda>(as, bs, cs). traverse (\<lambda>(a, b, c). combine [a, b, c]) (zip as (zip bs cs)))"

section \<open>The contract\<close>

locale secret_sharing =
  fixes deal :: "int \<Rightarrow> rng \<Rightarrow> (triple \<times> rng) res"
    and combine :: "int list \<Rightarrow> int res"
    and legal :: "int \<Rightarrow> bool"
  assumes deal_legal: "is_ok (deal v g) \<longleftrightarrow> legal v"
    and combine_deal: "deal v g = Inr ((a, b, c), g') \<Longrightarrow> combine [a, b, c] = Inr v"
begin

lemma deal_vector_ok: "is_ok (deal_vector deal vs g) \<longleftrightarrow> list_all legal vs"
proof (induction vs arbitrary: g)
  case (Cons v vs)
  show ?case
  proof (cases "deal v g")
    case (Inl e)
    with deal_legal [of v g] show ?thesis by simp
  next
    case (Inr r)
    obtain a b c g1 where r: "r = ((a, b, c), g1)" by (metis prod.exhaust)
    from Inr have "legal v" using deal_legal [of v g] by simp
    with Inr r Cons.IH [of g1] show ?thesis by (cases "deal_vector deal vs g1") auto
  qed
qed simp

lemma combine_deal_vector:
  "deal_vector deal vs g = Inr (sv, g') \<Longrightarrow> combine_vector combine sv = Inr vs"
proof (induction vs arbitrary: g sv)
  case (Cons v vs)
  then show ?case
    by (fastforce simp: res_simps combine_vector_def dest: combine_deal Cons.IH)
qed (simp add: combine_vector_def)

lemma deal_vector_lengths:
  "deal_vector deal vs g = Inr ((as, bs, cs), g') \<Longrightarrow>
     length as = length vs \<and> length bs = length vs \<and> length cs = length vs"
  by (induction vs arbitrary: g as bs cs) (fastforce simp: res_simps)+

end

lemma randbelow_simp: "randbelow n g = (g 0 mod n, \<lambda>i. g (Suc i))"
  by (simp add: randbelow_def)

lemma share_Inr:
  assumes "0 \<le> v" and "v < m"
  shows "share m v g =
    Inr ((int (g 0 mod nat m), int (g 1 mod nat m),
          (v - int (g 0 mod nat m) - int (g 1 mod nat m)) mod m), \<lambda>i. g (Suc (Suc i)))"
  using assms by (simp add: share_def randbelow_simp)

lemma share_canonical:
  assumes "share m v g = Inr ((a, b, c), g')"
  shows "0 \<le> v" "v < m" "0 \<le> a" "a < m" "0 \<le> b" "b < m" "0 \<le> c" "c < m" "(a + b + c) mod m = v"
proof -
  from assms show v: "0 \<le> v" "v < m" by (simp_all add: share_def split: if_splits)
  then have m: "0 < nat m" and eq: "a = int (g 0 mod nat m)" "b = int (g 1 mod nat m)"
      "c = (v - a - b) mod m"
    using assms by (auto simp: share_Inr)
  have less: "int (x mod nat m) < m" for x
    using mod_less_divisor [OF m, of x] by linarith
  show "0 \<le> a" "a < m" "0 \<le> b" "b < m" "0 \<le> c" "c < m"
    using eq less v by simp_all
  have "(a + b + c) mod m = (a + b + (v - a - b)) mod m"
    unfolding eq(3) by (simp add: mod_add_right_eq)
  then show "(a + b + c) mod m = v" using v by simp
qed

interpretation field: secret_sharing "share m" "reconstruct m" "\<lambda>v. 0 \<le> v \<and> v < m" for m
proof unfold_locales
  show "is_ok (share m v g) \<longleftrightarrow> 0 \<le> v \<and> v < m" for v g
    by (simp add: share_def randbelow_simp)
  show "share m v g = Inr ((a, b, c), g') \<Longrightarrow> reconstruct m [a, b, c] = Inr v" for v g a b c g'
    using share_canonical [of m v g a b c g']
    by (auto simp: reconstruct_def SERVER_COUNT_def add.assoc)
qed

section \<open>Linearity\<close>

text \<open>Servers add shares locally; the sums are shares of the sum.\<close>

definition add_shares :: "int \<Rightarrow> triple \<Rightarrow> triple \<Rightarrow> triple" where
  "add_shares m = (\<lambda>(a, b, c) (x, y, z). ((a + x) mod m, (b + y) mod m, (c + z) mod m))"

lemma reconstruct_add:
  assumes "reconstruct m [a, b, c] = Inr u" and "reconstruct m [x, y, z] = Inr v"
  shows "case add_shares m (a, b, c) (x, y, z) of (p, q, r) \<Rightarrow> reconstruct m [p, q, r] = Inr ((u + v) mod m)"
proof -
  from assms have m: "0 < m" and uv: "u = (a + b + c) mod m" "v = (x + y + z) mod m"
    by (auto simp: reconstruct_def SERVER_COUNT_def add.assoc split: if_splits)
  have three: "(p mod m + (q mod m + r mod m)) mod m = (p + (q + r)) mod m" for p q r
    by (metis mod_add_left_eq mod_add_right_eq)
  have "((a + x) mod m + ((b + y) mod m + (c + z) mod m)) mod m = ((a + b + c) + (x + y + z)) mod m"
    unfolding three by (simp add: algebra_simps)
  also have "\<dots> = (u + v) mod m" by (simp add: uv mod_simps)
  finally show ?thesis
    using m by (simp add: add_shares_def reconstruct_def SERVER_COUNT_def)
qed


section \<open>Any two servers learn nothing\<close>

text \<open>
  The generator as the list of values it hands out.  What servers \<open>i\<close> and \<open>j\<close> hold together
  is a list of pairs.
\<close>

definition stream :: "nat list \<Rightarrow> rng" where
  "stream ds = (\<lambda>k. if k < length ds then ds ! k else 0)"

definition server_vector :: "nat \<Rightarrow> shared_vector \<Rightarrow> int list" where
  "server_vector i = (\<lambda>(as, bs, cs). if i = 0 then as else if i = 1 then bs else cs)"

definition joint_view :: "nat \<Rightarrow> nat \<Rightarrow> (shared_vector \<times> rng) res \<Rightarrow> (int \<times> int) list" where
  "joint_view i j r =
     (case r of Inl _ \<Rightarrow> [] | Inr (sv, _) \<Rightarrow> zip (server_vector i sv) (server_vector j sv))"

definition draw_space :: "int \<Rightarrow> nat \<Rightarrow> nat list set" where
  "draw_space m n = {ds. set ds \<subseteq> {0..<nat m} \<and> length ds = n}"

definition view_space :: "int \<Rightarrow> nat \<Rightarrow> (int \<times> int) list set" where
  "view_space m n = {ws. set ws \<subseteq> {0..<m} \<times> {0..<m} \<and> length ws = n}"

lemma stream_shift: "(\<lambda>k. stream (x # ds) (Suc k)) = stream ds"
  by (auto simp: stream_def fun_eq_iff)

lemma stream_shift2: "(\<lambda>k. stream (x # y # ds) (Suc (Suc k))) = stream ds"
  by (auto simp: stream_def fun_eq_iff)

lemma stream_heads [simp]: "stream (x # ds) 0 = x" "stream (x # y # ds) (Suc 0) = y"
  by (auto simp: stream_def)

definition piece_pair :: "int \<Rightarrow> nat \<Rightarrow> nat \<Rightarrow> int \<Rightarrow> nat \<Rightarrow> nat \<Rightarrow> int \<times> int" where
  "piece_pair m i j v x y =
     (let third = (v - int x - int y) mod m;
          piece = (\<lambda>k. if k = 0 then int x else if k = 1 then int y else third)
      in (piece i, piece j))"

lemma joint_view_Nil: "joint_view i j (share_vector m [] g) = []"
  by (simp add: joint_view_def share_vector_def server_vector_def)

lemma share_vector_total:
  assumes "list_all (\<lambda>v. 0 \<le> v \<and> v < m) vs"
  obtains as bs cs g' where "share_vector m vs g = Inr ((as, bs, cs), g')"
proof -
  have "is_ok (share_vector m vs g)"
    unfolding share_vector_def by (simp add: field.deal_vector_ok assms)
  then obtain r where "share_vector m vs g = Inr r" by (auto simp: is_ok_iff)
  then show thesis using that by (metis prod.exhaust)
qed

lemma joint_view_Cons:
  assumes "0 \<le> v" "v < m" "x < nat m" "y < nat m" and "list_all (\<lambda>v. 0 \<le> v \<and> v < m) vs"
  shows "joint_view i j (share_vector m (v # vs) (stream (x # y # ds))) =
           piece_pair m i j v x y # joint_view i j (share_vector m vs (stream ds))"
proof -
  obtain as bs cs g' where rest: "share_vector m vs (stream ds) = Inr ((as, bs, cs), g')"
    using share_vector_total [OF assms(5)] .
  have "share m v (stream (x # y # ds)) =
      Inr ((int x, int y, (v - int x - int y) mod m), stream ds)"
    using assms by (simp add: share_Inr stream_shift2 del: One_nat_def) simp
  with rest show ?thesis
    by (simp add: share_vector_def joint_view_def server_vector_def piece_pair_def Let_def)
qed

lemma piece_pair_range:
  assumes "x < nat m" "y < nat m"
  shows "piece_pair m i j v x y \<in> {0..<m} \<times> {0..<m}"
proof -
  have "0 < m" using assms(1) by linarith
  with assms show ?thesis by (auto simp: piece_pair_def Let_def)
qed

lemma mod_sub_cancel:
  fixes m :: int
  assumes "0 \<le> x" "x < m" "0 \<le> y" "y < m" and "(u - x) mod m = (u - y) mod m"
  shows "x = y"
proof -
  from mod_diff_cong [OF refl [of "u mod m"] assms(5)] have "x mod m = y mod m" by simp
  with assms(1-4) show ?thesis by simp
qed

lemma piece_pair_inj:
  assumes ij: "i < SERVER_COUNT" "j < SERVER_COUNT" "i \<noteq> j"
    and xy: "x < nat m" "y < nat m" "x' < nat m" "y' < nat m"
    and eq: "piece_pair m i j v x y = piece_pair m i j v x' y'"
  shows "x = x' \<and> y = y'"
proof -
  have "i = 0 \<or> i = 1 \<or> i = 2" "j = 0 \<or> j = 1 \<or> j = 2"
    using ij by (auto simp: SERVER_COUNT_def)
  moreover have "b < nat m \<Longrightarrow> b' < nat m \<Longrightarrow>
      (v - int a - int b) mod m = (v - int a - int b') mod m \<Longrightarrow> b = b'" for a b b'
    using mod_sub_cancel [of "int b" m "int b'" "v - int a"] by auto
  moreover have "a < nat m \<Longrightarrow> a' < nat m \<Longrightarrow>
      (v - int a - int b) mod m = (v - int a' - int b) mod m \<Longrightarrow> a = a'" for a a' b
    using mod_sub_cancel [of "int a" m "int a'" "v - int b"] by (auto simp: algebra_simps)
  ultimately show ?thesis
    using ij(3) xy eq by (auto simp: piece_pair_def Let_def)
qed


lemma joint_view_in_space:
  assumes "list_all (\<lambda>v. 0 \<le> v \<and> v < m) vs" and "ds \<in> draw_space m (2 * length vs)"
  shows "joint_view i j (share_vector m vs (stream ds)) \<in> view_space m (length vs)"
  using assms
proof (induction vs arbitrary: ds)
  case (Cons v vs)
  then obtain x y ds' where ds: "ds = x # y # ds'" "x < nat m" "y < nat m"
      "ds' \<in> draw_space m (2 * length vs)"
    by (auto simp: draw_space_def length_Suc_conv)
  with Cons.prems Cons.IH [OF _ ds(4)] piece_pair_range [of x m y i j v] show ?case
    by (simp add: joint_view_Cons view_space_def)
qed (simp add: joint_view_Nil view_space_def)

lemma joint_view_inj:
  assumes ij: "i < SERVER_COUNT" "j < SERVER_COUNT" "i \<noteq> j"
    and "list_all (\<lambda>v. 0 \<le> v \<and> v < m) vs"
  shows "inj_on (\<lambda>ds. joint_view i j (share_vector m vs (stream ds))) (draw_space m (2 * length vs))"
  using assms(4)
proof (induction vs)
  case Nil
  then show ?case by (auto simp: inj_on_def draw_space_def)
next
  case (Cons v vs)
  show ?case
  proof (rule inj_onI)
    fix ds es
    assume "ds \<in> draw_space m (2 * length (v # vs))" "es \<in> draw_space m (2 * length (v # vs))"
      and eq: "joint_view i j (share_vector m (v # vs) (stream ds)) =
               joint_view i j (share_vector m (v # vs) (stream es))"
    then obtain x y ds' x' y' es' where
      ds: "ds = x # y # ds'" "x < nat m" "y < nat m" "ds' \<in> draw_space m (2 * length vs)" and
      es: "es = x' # y' # es'" "x' < nat m" "y' < nat m" "es' \<in> draw_space m (2 * length vs)"
      by (auto simp: draw_space_def length_Suc_conv)
    have v: "0 \<le> v" "v < m" and vs: "list_all (\<lambda>v. 0 \<le> v \<and> v < m) vs"
      using Cons.prems by simp_all
    from eq have "piece_pair m i j v x y = piece_pair m i j v x' y'"
      and tl: "joint_view i j (share_vector m vs (stream ds')) = joint_view i j (share_vector m vs (stream es'))"
      by (simp_all add: ds(1) es(1) joint_view_Cons [OF v ds(2,3) vs] joint_view_Cons [OF v es(2,3) vs])
    with piece_pair_inj [OF ij ds(2,3) es(2,3)] have "x = x'" "y = y'" by blast+
    moreover have "ds' = es'"
      using Cons.IH [OF vs] tl ds(4) es(4) by (simp add: inj_on_def)
    ultimately show "ds = es" by (simp add: ds(1) es(1))
  qed
qed

lemma card_draw_space: "card (draw_space m (2 * n)) = card (view_space m n)" "finite (view_space m n)"
proof -
  have "card (draw_space m (2 * n)) = nat m ^ (2 * n)"
    unfolding draw_space_def by (subst card_lists_length_eq) simp_all
  moreover have "card (view_space m n) = (nat m * nat m) ^ n"
    unfolding view_space_def by (subst card_lists_length_eq) (simp_all add: card_cartesian_product)
  ultimately show "card (draw_space m (2 * n)) = card (view_space m n)"
    by (simp add: power_mult power2_eq_square)
  show "finite (view_space m n)" unfolding view_space_def by (rule finite_lists_length_eq) simp
qed

section \<open>Properties\<close>

text \<open>
  C6: Perfect privacy against any two of the three servers.  For every vector of canonical
  values and every pair of distinct servers, the map from the 2n draws of the generator to the
  n pairs the two servers hold is a bijection onto all n-tuples of pairs of field elements.
  Uniform draws therefore give a uniform joint view that does not depend on the vector.
\<close>

theorem share_vector_two_private:
  assumes "i < SERVER_COUNT" "j < SERVER_COUNT" "i \<noteq> j"
    and "list_all (\<lambda>v. 0 \<le> v \<and> v < m) vs"
  shows "bij_betw (\<lambda>ds. joint_view i j (share_vector m vs (stream ds)))
           (draw_space m (2 * length vs)) (view_space m (length vs))"
proof -
  let ?f = "\<lambda>ds. joint_view i j (share_vector m vs (stream ds))"
  have inj: "inj_on ?f (draw_space m (2 * length vs))" using joint_view_inj assms by blast
  have "?f ` draw_space m (2 * length vs) \<subseteq> view_space m (length vs)"
    using joint_view_in_space [OF assms(4)] by blast
  then have "?f ` draw_space m (2 * length vs) = view_space m (length vs)"
    using card_draw_space [of m "length vs"] card_image [OF inj] by (intro card_subset_eq) simp_all
  with inj show ?thesis by (simp add: bij_betw_def)
qed

theorem share_vector_two_private_witness:
  "bij_betw (\<lambda>ds. joint_view 0 2 (share_vector 7 [3, 5] (stream ds)))
     (draw_space 7 (2 * length [3 :: int, 5])) (view_space 7 (length [3 :: int, 5]))"
  by (rule share_vector_two_private) (simp_all add: SERVER_COUNT_def)

end
