(* ===== verification/Server_Input.thy ===== *)
theory Server_Input
  imports Owner_Layout Field_Sharing
begin

text \<open>
  From an owner's table and a client's query to the private input of each computation server
  (second half of \<open>doram_t2_3pc/packed.py\<close>, \<open>prepare.py\<close>, \<open>scalable_prepare.py\<close>): the three
  shard documents, their validation by the receiving server, and the entity-major assembly.
  A document is the dictionary that is written as JSON; the file system is left out, so a
  routine that writes a file returns what it writes.
\<close>

type_synonym document = "(string \<times> jval) list"

section \<open>Owner shards\<close>

definition owner_document ::
  "(jval \<Rightarrow> string) \<Rightarrow> public_config \<Rightarrow> string \<Rightarrow> string \<Rightarrow> nat \<Rightarrow> shared_vector \<Rightarrow> nat \<Rightarrow> document" where
  "owner_document H c kind owner index vectors server =
     [(''version'', JInt 1),
      (''kind'', JStr kind),
      (''config_digest'', JStr (digest H c)),
      (''owner'', JStr owner),
      (''owner_index'', JInt (int index)),
      (''server'', JInt (int server)),
      (''values'', JList (map JInt (server_vector server vectors)))]"

definition owner_shards ::
  "(jval \<Rightarrow> string) \<Rightarrow> public_config \<Rightarrow> string \<Rightarrow> string \<Rightarrow> int list \<Rightarrow> rng \<Rightarrow> (document list \<times> rng) res" where
  "owner_shards H c kind owner values g =
     bindr (share_vector (field_prime c) values g) (\<lambda>(vectors, g').
     bindr (list_index (owners c) owner) (\<lambda>index.
       Inr (map (owner_document H c kind owner index vectors) [0..<SERVER_COUNT], g')))"

definition create_packed_owner_shards ::
  "(jval \<Rightarrow> string) \<Rightarrow> public_config \<Rightarrow> string \<Rightarrow> jval \<Rightarrow> rng \<Rightarrow> (document list \<times> rng) res" where
  "create_packed_owner_shards H c owner raw g =
     (case raw of
        JList edges \<Rightarrow> bindr (packed_owner_vector c owner edges) (\<lambda>values.
          owner_shards H c ''packed-owner-shard'' owner values g)
      | _ \<Rightarrow> Inl (ValueError ''owner edge file must be a JSON list''))"

definition create_owner_shards ::
  "(jval \<Rightarrow> string) \<Rightarrow> public_config \<Rightarrow> string \<Rightarrow> jval \<Rightarrow> rng \<Rightarrow> (document list \<times> rng) res" where
  "create_owner_shards H c owner raw g =
     (case raw of
        JList edges \<Rightarrow> bindr (owner_plain_vector c owner edges) (\<lambda>values.
          owner_shards H c ''owner-shard'' owner values g)
      | _ \<Rightarrow> Inl (ValueError ''owner edge file must be a JSON list''))"

section \<open>Query shards\<close>

definition query_keys :: "string list" where
  "query_keys = [''source'', ''relation_1'', ''relation_2'']"

definition query_ids :: "public_config \<Rightarrow> jval \<Rightarrow> (int \<times> int \<times> int) res" where
  "query_ids c q =
     (case q of
        JDict d \<Rightarrow>
          if set (map fst d) \<noteq> set query_keys
          then Inl (ValueError ''query must contain exactly source/relation_1/relation_2'')
          else except_lookup (ValueError ''query uses an unknown ontology item'')
            (bindr (bindr (jitem q ''source'') (vocab_get (entities c))) (\<lambda>source.
             bindr (bindr (jitem q ''relation_1'') (vocab_get (relations c))) (\<lambda>relation_1.
             bindr (bindr (jitem q ''relation_2'') (vocab_get (relations c))) (\<lambda>relation_2.
               Inr (source, relation_1, relation_2)))))
      | _ \<Rightarrow> Inl (ValueError ''query must contain exactly source/relation_1/relation_2''))"

definition query_triple :: "int \<times> int \<times> int \<Rightarrow> int list" where
  "query_triple = (\<lambda>(source, relation_1, relation_2). [source, relation_1, relation_2])"

definition query_document ::
  "(jval \<Rightarrow> string) \<Rightarrow> public_config \<Rightarrow> shared_vector \<Rightarrow> nat \<Rightarrow> document" where
  "query_document H c vectors server =
     [(''version'', JInt 1),
      (''kind'', JStr ''query-shard''),
      (''config_digest'', JStr (digest H c)),
      (''server'', JInt (int server)),
      (''values'', JList (map JInt (server_vector server vectors)))]"

definition create_query_shards ::
  "(jval \<Rightarrow> string) \<Rightarrow> public_config \<Rightarrow> jval \<Rightarrow> rng \<Rightarrow> (document list \<times> rng) res" where
  "create_query_shards H c query g =
     bindr (query_ids c query) (\<lambda>ids.
     bindr (share_vector (field_prime c) (query_triple ids) g) (\<lambda>(vectors, g').
       Inr (map (query_document H c vectors) [0..<SERVER_COUNT], g')))"

definition query_batch_document ::
  "(jval \<Rightarrow> string) \<Rightarrow> public_config \<Rightarrow> nat \<Rightarrow> shared_vector \<Rightarrow> nat \<Rightarrow> document" where
  "query_batch_document H c query_count vectors server =
     [(''version'', JInt 1),
      (''kind'', JStr ''packed-query-batch-shard''),
      (''config_digest'', JStr (digest H c)),
      (''query_count'', JInt (int query_count)),
      (''server'', JInt (int server)),
      (''values'', JList (map JInt (server_vector server vectors)))]"

definition create_packed_query_batch_shards ::
  "(jval \<Rightarrow> string) \<Rightarrow> public_config \<Rightarrow> jval \<Rightarrow> rng \<Rightarrow> (document list \<times> rng) res" where
  "create_packed_query_batch_shards H c raw g =
     (case raw of
        JList queries \<Rightarrow>
          if queries = [] then Inl (ValueError ''query batch must be a non-empty JSON list'')
          else
            bindr (traverse (query_ids c) queries) (\<lambda>ids.
            bindr (share_vector (field_prime c) (concat (map query_triple ids)) g) (\<lambda>(vectors, g').
              Inr (map (query_batch_document H c (length queries) vectors) [0..<SERVER_COUNT], g')))
      | _ \<Rightarrow> Inl (ValueError ''query batch must be a non-empty JSON list''))"

section \<open>Validation by the receiving server\<close>

definition field_values :: "int \<Rightarrow> jval list \<Rightarrow> int list option" where
  "field_values p xs =
     (if list_all (\<lambda>x. case strict_int x of None \<Rightarrow> False | Some i \<Rightarrow> 0 \<le> i \<and> i < p) xs
      then Some (map (\<lambda>x. case strict_int x of None \<Rightarrow> 0 | Some i \<Rightarrow> i) xs) else None)"

definition packed_query_batch_values ::
  "(jval \<Rightarrow> string) \<Rightarrow> public_config \<Rightarrow> int \<Rightarrow> document \<Rightarrow> int \<Rightarrow> int list res" where
  "packed_query_batch_values H c server doc query_count =
     (if \<not> (eq_int (jget doc ''version'') 1 \<and> eq_str (jget doc ''kind'') ''packed-query-batch-shard'' \<and>
            eq_str (jget doc ''config_digest'') (digest H c) \<and> eq_int (jget doc ''query_count'') query_count \<and>
            eq_int (jget doc ''server'') server)
      then Inl (ValueError ''packed query-batch shard metadata mismatch'')
      else (case jget doc ''values'' of
          JList xs \<Rightarrow>
            if int (length xs) \<noteq> query_count * 3
            then Inl (ValueError ''packed query-batch shard has the wrong value count'')
            else (case field_values (field_prime c) xs of
                None \<Rightarrow> Inl (ValueError ''non-canonical packed query share'')
              | Some values \<Rightarrow> Inr values)
        | _ \<Rightarrow> Inl (ValueError ''packed query-batch shard has the wrong value count'')))"

text \<open>The body of the loop over the received packed owner documents.\<close>

definition packed_document_step ::
  "(jval \<Rightarrow> string) \<Rightarrow> public_config \<Rightarrow> int \<Rightarrow> document \<Rightarrow> (int \<times> int list) list \<Rightarrow> (int \<times> int list) list res" where
  "packed_document_step H c server doc by_index =
     (if \<not> (eq_int (jget doc ''version'') 1 \<and> eq_str (jget doc ''kind'') ''packed-owner-shard'' \<and>
            eq_str (jget doc ''config_digest'') (digest H c) \<and> eq_int (jget doc ''server'') server)
      then Inl (ValueError ''packed owner shard metadata mismatch'')
      else (case (loose_int (jget doc ''owner_index''), jget doc ''values'') of
          (Some index, JList xs) \<Rightarrow>
            if \<not> (0 \<le> index \<and> index < int (length (owners c))) \<or>
               \<not> eq_str (jget doc ''owner'') (owners c ! nat index) \<or>
               index \<in> fst ` set by_index \<or>
               int (length xs) \<noteq> entity_count c * fanout_per_owner c
            then Inl (ValueError ''invalid packed owner shard'')
            else (case field_values (field_prime c) xs of
                None \<Rightarrow> Inl (ValueError ''non-canonical packed owner share'')
              | Some values \<Rightarrow> Inr (AList.update index values by_index))
        | _ \<Rightarrow> Inl (ValueError ''invalid packed owner shard'')))"

text \<open>Query values, then entity by entity, owner by owner, a slice of each table.\<close>

definition entity_major :: "nat \<Rightarrow> nat \<Rightarrow> 'a list \<Rightarrow> 'a list list \<Rightarrow> 'a list" where
  "entity_major entity_slots width query_values tables =
     query_values @ concat (map (\<lambda>entity.
       concat (map (\<lambda>table. take width (drop (entity * width) table)) tables)) [0..<entity_slots])"

definition owner_tables :: "public_config \<Rightarrow> (int \<times> int list) list \<Rightarrow> int list list" where
  "owner_tables c by_index = map (\<lambda>i. get_or [] by_index (int i)) [0..<length (owners c)]"

definition all_owners_present :: "public_config \<Rightarrow> (int \<times> int list) list \<Rightarrow> bool" where
  "all_owners_present c by_index = (fst ` set by_index = {0..<int (length (owners c))})"

definition assemble_packed_batch_input ::
  "(jval \<Rightarrow> string) \<Rightarrow> public_config \<Rightarrow> int \<Rightarrow> int list \<Rightarrow> document list \<Rightarrow> int list res" where
  "assemble_packed_batch_input H c server query_values documents =
     bindr (require_packed_config c) (\<lambda>_.
     if \<not> (0 \<le> server \<and> server < int SERVER_COUNT) then Inl (ValueError ''server must be 0, 1, or 2'')
     else if length query_values mod 3 \<noteq> 0
     then Inl (ValueError ''query share vector length must be divisible by three'')
     else
     bindr (foldM (packed_document_step H c server) documents []) (\<lambda>by_index.
     if \<not> all_owners_present c by_index then Inl (ValueError ''packed owner shard set is incomplete'')
     else Inr (entity_major (nat (entity_count c)) (nat (fanout_per_owner c)) query_values
                 (owner_tables c by_index))))"

definition as_document :: "exn \<Rightarrow> jval \<Rightarrow> document res" where
  "as_document e v = (case v of JDict d \<Rightarrow> Inr d | _ \<Rightarrow> Inl e)"

definition assemble_packed_batch_from_paths ::
  "(jval \<Rightarrow> string) \<Rightarrow> public_config \<Rightarrow> int \<Rightarrow> int \<Rightarrow> jval \<Rightarrow> jval list \<Rightarrow> int list res" where
  "assemble_packed_batch_from_paths H c server query_count query_shard shards =
     bindr (as_document (ValueError ''packed query-batch shard must be a JSON object'') query_shard) (\<lambda>query_doc.
     bindr (packed_query_batch_values H c server query_doc query_count) (\<lambda>query_values.
     bindr (traverse (as_document (ValueError ''packed owner shards must be JSON objects'')) shards) (\<lambda>documents.
       assemble_packed_batch_input H c server query_values documents)))"

section \<open>The five-column route\<close>

definition validate_shard ::
  "(jval \<Rightarrow> string) \<Rightarrow> string \<Rightarrow> public_config \<Rightarrow> int \<Rightarrow> int \<Rightarrow> jval \<Rightarrow> int list res" where
  "validate_shard H kind c server n v =
     bindr (as_document (ValueError ''shard must be a JSON object'') v) (\<lambda>doc.
     if \<not> (eq_int (jget doc ''version'') 1 \<and> eq_str (jget doc ''kind'') kind)
     then Inl (ValueError ''shard version or kind mismatch'')
     else if \<not> (eq_str (jget doc ''config_digest'') (digest H c) \<and> eq_int (jget doc ''server'') server)
     then Inl (ValueError ''shard belongs to a different configuration or server'')
     else (case jget doc ''values'' of
         JList xs \<Rightarrow>
           if int (length xs) \<noteq> n then Inl (ValueError ''shard must contain exactly'')
           else (case field_values (field_prime c) xs of
               None \<Rightarrow> Inl (ValueError ''shard contains a non-canonical field element'')
             | Some values \<Rightarrow> Inr values)
       | _ \<Rightarrow> Inl (ValueError ''shard must contain exactly'')))"

definition owner_shard_step ::
  "(jval \<Rightarrow> string) \<Rightarrow> public_config \<Rightarrow> int \<Rightarrow> jval \<Rightarrow> (int \<times> int list) list \<Rightarrow> (int \<times> int list) list res" where
  "owner_shard_step H c server v by_index =
     bindr (validate_shard H ''owner-shard'' c server (owner_value_count c) v) (\<lambda>values.
     bindr (as_document (AttributeError) v) (\<lambda>doc.
     case loose_int (jget doc ''owner_index'') of
       None \<Rightarrow> Inl (ValueError ''invalid owner index'')
     | Some index \<Rightarrow>
         if \<not> (0 \<le> index \<and> index < int (length (owners c)))
         then Inl (ValueError ''invalid owner index'')
         else if \<not> eq_str (jget doc ''owner'') (owners c ! nat index) \<or> index \<in> fst ` set by_index
         then Inl (ValueError ''owner identity mismatch or duplicate owner shard'')
         else Inr (AList.update index values by_index)))"

definition collect_owner_shards ::
  "(jval \<Rightarrow> string) \<Rightarrow> public_config \<Rightarrow> int \<Rightarrow> jval list \<Rightarrow> (int \<times> int list) list res" where
  "collect_owner_shards H c server shards =
     bindr (foldM (owner_shard_step H c server) shards []) (\<lambda>by_index.
     if \<not> all_owners_present c by_index then Inl (ValueError ''owner shard set is incomplete'')
     else Inr by_index)"

definition plain_width :: "public_config \<Rightarrow> nat" where
  "plain_width c = nat (fanout_per_owner c) * length EDGE_FIELDS"

definition assemble_server_input ::
  "(jval \<Rightarrow> string) \<Rightarrow> public_config \<Rightarrow> int \<Rightarrow> jval \<Rightarrow> jval list \<Rightarrow> int list res" where
  "assemble_server_input H c server query_shard shards =
     (if \<not> (0 \<le> server \<and> server < int SERVER_COUNT) then Inl (ValueError ''server must be 0, 1, or 2'')
      else if length shards \<noteq> length (owners c) then Inl (ValueError ''expected exactly one shard per owner'')
      else
      bindr (validate_shard H ''query-shard'' c server 3 query_shard) (\<lambda>query_values.
      bindr (collect_owner_shards H c server shards) (\<lambda>by_index.
        Inr (entity_major (nat (entity_count c)) (plain_width c) query_values (owner_tables c by_index)))))"

definition require_scalable_config :: "public_config \<Rightarrow> unit res" where
  "require_scalable_config c =
     raise_if (field_prime c \<notin> set SCALABLE_FIELD_PRIMES)
       (ValueError ''scalable preparation requires an audited scalable field'')"

definition assemble_setup_input ::
  "(jval \<Rightarrow> string) \<Rightarrow> public_config \<Rightarrow> int \<Rightarrow> jval list \<Rightarrow> int list res" where
  "assemble_setup_input H c server shards =
     bindr (require_scalable_config c) (\<lambda>_.
     if \<not> (0 \<le> server \<and> server < int SERVER_COUNT) then Inl (ValueError ''server must be 0, 1, or 2'')
     else if length shards \<noteq> length (owners c) then Inl (ValueError ''expected exactly one shard per owner'')
     else
     bindr (collect_owner_shards H c server shards) (\<lambda>by_index.
       let combined = entity_major (nat (entity_count c)) (plain_width c) [] (owner_tables c by_index) in
       if int (length combined) \<noteq> entity_count c * block_edges c * int (length EDGE_FIELDS)
       then Inl (AssertionError ''internal scalable setup-input length mismatch'')
       else Inr combined))"

definition assemble_query_input ::
  "(jval \<Rightarrow> string) \<Rightarrow> public_config \<Rightarrow> int \<Rightarrow> jval \<Rightarrow> int list res" where
  "assemble_query_input H c server query_shard =
     bindr (require_scalable_config c) (\<lambda>_.
     if \<not> (0 \<le> server \<and> server < int SERVER_COUNT) then Inl (ValueError ''server must be 0, 1, or 2'')
     else validate_shard H ''query-shard'' c server 3 query_shard)"

section \<open>Honest documents are accepted\<close>

abbreviation canonical :: "int \<Rightarrow> int list \<Rightarrow> bool" where
  "canonical p xs \<equiv> list_all (\<lambda>x. 0 \<le> x \<and> x < p) xs"

lemma field_values_JInt [simp]: "canonical p xs \<Longrightarrow> field_values p (map JInt xs) = Some xs"
  by (simp add: field_values_def list_all_iff comp_def)

lemma as_document_JDict [simp]: "as_document e (JDict d) = Inr d"
  by (simp add: as_document_def)

lemma owner_document_fields [simp]:
  "jget (owner_document H c kind o' i vs s) ''version'' = JInt 1"
  "jget (owner_document H c kind o' i vs s) ''kind'' = JStr kind"
  "jget (owner_document H c kind o' i vs s) ''config_digest'' = JStr (digest H c)"
  "jget (owner_document H c kind o' i vs s) ''owner'' = JStr o'"
  "jget (owner_document H c kind o' i vs s) ''owner_index'' = JInt (int i)"
  "jget (owner_document H c kind o' i vs s) ''server'' = JInt (int s)"
  "jget (owner_document H c kind o' i vs s) ''values'' = JList (map JInt (server_vector s vs))"
  by (simp_all add: owner_document_def jget_def get_or_def)

lemma packed_document_step_honest:
  assumes "i < length (owners c)" "int i \<notin> fst ` set by_index"
    and "canonical (field_prime c) (server_vector s vs)"
    and "int (length (server_vector s vs)) = entity_count c * fanout_per_owner c"
  shows "packed_document_step H c (int s) (owner_document H c ''packed-owner-shard'' (owners c ! i) i vs s) by_index
    = Inr (AList.update (int i) (server_vector s vs) by_index)"
  using assms by (simp add: packed_document_step_def)

lemma owner_shard_step_honest:
  assumes "i < length (owners c)" "int i \<notin> fst ` set by_index"
    and "canonical (field_prime c) (server_vector s vs)"
    and "int (length (server_vector s vs)) = owner_value_count c"
  shows "owner_shard_step H c (int s) (JDict (owner_document H c ''owner-shard'' (owners c ! i) i vs s)) by_index
    = Inr (AList.update (int i) (server_vector s vs) by_index)"
  using assms by (simp add: owner_shard_step_def validate_shard_def as_document_def)

text \<open>Whatever the order in which the documents arrive, the tables end up in owner order.\<close>

lemma collect_honest:
  assumes "\<And>i by_index. i \<in> set perm \<Longrightarrow> int i \<notin> fst ` set by_index \<Longrightarrow>
      step (doc i) by_index = Inr (AList.update (int i) (vec i) by_index)"
    and "distinct perm" and "fst ` set by_index \<inter> int ` set perm = {}"
  shows "\<exists>out. foldM step (map doc perm) by_index = Inr out
    \<and> fst ` set out = fst ` set by_index \<union> int ` set perm
    \<and> (\<forall>k. get_or d out k = (if k \<in> int ` set perm then vec (nat k) else get_or d by_index k))"
  using assms
proof (induction perm arbitrary: by_index)
  case (Cons i perm)
  let ?by = "AList.update (int i) (vec i) by_index"
  have step: "step (doc i) by_index = Inr ?by" using Cons.prems by auto
  have keys: "fst ` set ?by = insert (int i) (fst ` set by_index)" by (simp add: dom_update)
  have "fst ` set ?by \<inter> int ` set perm = {}" using Cons.prems keys by auto
  from Cons.IH [OF _ _ this] Cons.prems obtain out where
    out: "foldM step (map doc perm) ?by = Inr out" "fst ` set out = fst ` set ?by \<union> int ` set perm"
      "\<forall>k. get_or d out k = (if k \<in> int ` set perm then vec (nat k) else get_or d ?by k)"
    by auto
  have "foldM step (map doc (i # perm)) by_index = Inr out" using step out(1) by simp
  moreover have "fst ` set out = fst ` set by_index \<union> int ` set (i # perm)" using out(2) keys by auto
  moreover have "get_or d out k = (if k \<in> int ` set (i # perm) then vec (nat k) else get_or d by_index k)" for k
    using out(3) by auto
  ultimately show ?case by blast
qed auto

lemma collect_all_indices:
  assumes step: "\<And>i by_index. i < n \<Longrightarrow> int i \<notin> fst ` set by_index \<Longrightarrow>
      step (doc i) by_index = Inr (AList.update (int i) (vec i) by_index)"
    and perm: "distinct perm" "set perm = {..<n}"
  shows "\<exists>out. foldM step (map doc perm) [] = Inr out \<and> fst ` set out = {0..<int n} \<and>
    map (\<lambda>i. get_or d out (int i)) [0..<n] = map vec [0..<n]"
proof -
  obtain out where out: "foldM step (map doc perm) [] = Inr out" "fst ` set out = int ` set perm"
      "\<forall>k. get_or d out k = (if k \<in> int ` set perm then vec (nat k) else d)"
    using collect_honest [of perm step doc vec "[]" d] step perm by auto
  have "int ` {..<m} = {0..<int m}" for m
    by (auto simp: image_iff) (metis lessThan_iff nat_0_le nat_less_iff)
  with out perm(2) have "fst ` set out = {0..<int n}" by simp
  moreover have "map (\<lambda>i. get_or d out (int i)) [0..<n] = map vec [0..<n]" using out(3) perm(2) by auto
  ultimately show ?thesis using out(1) by blast
qed

lemma collect_all_owners:
  assumes "\<And>i by_index. i < length (owners c) \<Longrightarrow> int i \<notin> fst ` set by_index \<Longrightarrow>
      step (doc i) by_index = Inr (AList.update (int i) (vec i) by_index)"
    and "distinct perm" and "set perm = {..<length (owners c)}"
  shows "\<exists>out. foldM step (map doc perm) [] = Inr out \<and> all_owners_present c out
    \<and> owner_tables c out = map vec [0..<length (owners c)]"
  unfolding all_owners_present_def owner_tables_def by (rule collect_all_indices) (use assms in blast)+

lemma assemble_packed_honest:
  assumes "packable_config c" and "s < SERVER_COUNT" and "length query_values mod 3 = 0"
    and vec: "\<And>i. i < length (owners c) \<Longrightarrow> canonical (field_prime c) (server_vector s (sv i)) \<and>
      int (length (server_vector s (sv i))) = entity_count c * fanout_per_owner c"
    and perm: "distinct perm" "set perm = {..<length (owners c)}"
  shows "assemble_packed_batch_input H c (int s) query_values
      (map (\<lambda>i. owner_document H c ''packed-owner-shard'' (owners c ! i) i (sv i) s) perm) =
    Inr (entity_major (nat (entity_count c)) (nat (fanout_per_owner c)) query_values
      (map (\<lambda>i. server_vector s (sv i)) [0..<length (owners c)]))"
proof -
  let ?doc = "\<lambda>i. owner_document H c ''packed-owner-shard'' (owners c ! i) i (sv i) s"
  obtain out where "foldM (packed_document_step H c (int s)) (map ?doc perm) [] = Inr out"
      "all_owners_present c out"
      "owner_tables c out = map (\<lambda>i. server_vector s (sv i)) [0..<length (owners c)]"
    using collect_all_owners [OF _ perm, of "packed_document_step H c (int s)" ?doc "\<lambda>i. server_vector s (sv i)"]
      packed_document_step_honest vec by blast
  then show ?thesis using assms(1-3) by (simp add: assemble_packed_batch_input_def)
qed

lemma collect_owner_shards_honest:
  assumes vec: "\<And>i. i < length (owners c) \<Longrightarrow> canonical (field_prime c) (server_vector s (sv i)) \<and>
      int (length (server_vector s (sv i))) = owner_value_count c"
    and perm: "distinct perm" "set perm = {..<length (owners c)}"
  shows "\<exists>out. collect_owner_shards H c (int s)
      (map (\<lambda>i. JDict (owner_document H c ''owner-shard'' (owners c ! i) i (sv i) s)) perm) = Inr out \<and>
    owner_tables c out = map (\<lambda>i. server_vector s (sv i)) [0..<length (owners c)]"
proof -
  let ?doc = "\<lambda>i. JDict (owner_document H c ''owner-shard'' (owners c ! i) i (sv i) s)"
  obtain out where "foldM (owner_shard_step H c (int s)) (map ?doc perm) [] = Inr out"
      "all_owners_present c out"
      "owner_tables c out = map (\<lambda>i. server_vector s (sv i)) [0..<length (owners c)]"
    using collect_all_owners [OF _ perm, of "owner_shard_step H c (int s)" ?doc "\<lambda>i. server_vector s (sv i)"]
      owner_shard_step_honest vec by blast
  then show ?thesis by (simp add: collect_owner_shards_def)
qed

section \<open>Assembly commutes with reconstruction\<close>

lemma map_entity_major:
  "map f (entity_major n w qs ts) = entity_major n w (map f qs) (map (map f) ts)"
  by (simp add: entity_major_def map_concat comp_def take_map drop_map)

lemma set_entity_major: "set (entity_major n w qs ts) \<subseteq> set qs \<union> (\<Union>t \<in> set ts. set t)"
  by (auto simp: entity_major_def dest!: in_set_takeD in_set_dropD)

lemma length_entity_major:
  assumes "\<And>t. t \<in> set ts \<Longrightarrow> length t = n * w"
  shows "length (entity_major n w qs ts) = length qs + n * (length ts * w)"
proof -
  have slice: "length (take w (drop (e * w) t)) = w" if "t \<in> set ts" "e < n" for e t
  proof -
    have "e * w + w \<le> n * w" using that(2) by (metis Suc_leI add.commute mult_Suc mult_le_mono1)
    with assms [OF that(1)] show ?thesis by simp
  qed
  have "length (concat (map (\<lambda>t. take w (drop (e * w) t)) ts)) = length ts * w" if "e < n" for e
    using slice that by (subst length_concat_uniform [of _ w]) auto
  then show ?thesis
    unfolding entity_major_def by (subst length_append, subst length_concat_uniform [of _ "length ts * w"]) auto
qed

lemma zip3_maps: "zip (map fst t) (zip (map (fst \<circ> snd) t) (map (snd \<circ> snd) t)) = t"
  by (induction t) auto

definition triples :: "shared_vector \<Rightarrow> triple list" where
  "triples = (\<lambda>(as, bs, cs). zip as (zip bs cs))"

definition combined :: "int \<Rightarrow> triple \<Rightarrow> int" where
  "combined m = (\<lambda>(a, b, c). (a + b + c) mod m)"

lemma shared_triples:
  assumes "share_vector m vs g = Inr (sv, g')"
  shows "server_vector 0 sv = map fst (triples sv)"
    and "server_vector 1 sv = map (fst \<circ> snd) (triples sv)"
    and "server_vector 2 sv = map (snd \<circ> snd) (triples sv)"
    and "\<And>t. t \<in> set (triples sv) \<Longrightarrow> (case t of (a, b, c) \<Rightarrow> reconstruct m [a, b, c]) = Inr (combined m t)"
    and "map (combined m) (triples sv) = vs"
    and "length (triples sv) = length vs"
    and "\<And>s. canonical m (server_vector s sv)"
proof -
  obtain as bs cs where sv: "sv = (as, bs, cs)" by (metis prod.exhaust)
  from assms have deal: "deal_vector (share m) vs g = Inr ((as, bs, cs), g')"
    by (simp add: share_vector_def sv)
  note len = field.deal_vector_lengths [OF deal]
  then show "server_vector 0 sv = map fst (triples sv)"
    "server_vector 1 sv = map (fst \<circ> snd) (triples sv)"
    "server_vector 2 sv = map (snd \<circ> snd) (triples sv)" "length (triples sv) = length vs"
    by (simp_all add: server_vector_def sv triples_def map_fst_zip map_snd_zip map_map [symmetric] del: map_map)
  from field.combine_deal_vector [OF deal]
  have rec: "traverse (\<lambda>(a, b, c). reconstruct m [a, b, c]) (triples sv) = Inr vs"
    by (simp add: combine_vector_def triples_def sv)
  have val: "reconstruct m [a, b, c] = Inr v \<Longrightarrow> v = combined m (a, b, c) \<and> canonical m [a, b, c]" for a b c v
    by (auto simp: reconstruct_def combined_def SERVER_COUNT_def add.assoc split: if_splits)
  have all: "list_all2 (\<lambda>t v. v = combined m t \<and> (case t of (a, b, c) \<Rightarrow> reconstruct m [a, b, c] = Inr v)
      \<and> (case t of (a, b, c) \<Rightarrow> canonical m [a, b, c])) (triples sv) vs"
    using rec unfolding traverse_eq_Inr by (rule list_all2_mono) (use val in auto)
  then have "list_all2 (\<lambda>t v. v = combined m t) (triples sv) vs" by (rule list_all2_mono) simp
  then show "map (combined m) (triples sv) = vs"
    by (auto simp: list_all2_conv_all_nth intro!: nth_equalityI)
  have each: "(case t of (a, b, c) \<Rightarrow> reconstruct m [a, b, c]) = Inr (combined m t)
      \<and> (case t of (a, b, c) \<Rightarrow> canonical m [a, b, c])" if "t \<in> set (triples sv)" for t
    using that all by (fastforce simp: list_all2_conv_all_nth in_set_conv_nth split: prod.splits)
  then show "(case t of (a, b, c) \<Rightarrow> reconstruct m [a, b, c]) = Inr (combined m t)"
    if "t \<in> set (triples sv)" for t using that by blast
  have "canonical m (map fst (triples sv))" "canonical m (map (fst \<circ> snd) (triples sv))"
    "canonical m (map (snd \<circ> snd) (triples sv))"
    using each by (auto simp: list_all_iff)
  with \<open>server_vector 0 sv = _\<close> \<open>server_vector 1 sv = _\<close> \<open>server_vector 2 sv = _\<close>
  show "canonical m (server_vector s sv)" for s
    by (simp add: server_vector_def sv split: if_splits)
qed

lemma reconstruct_entity_major:
  assumes q: "share_vector m qs gq = Inr (qv, gq')"
    and t: "\<And>i. i \<in> set is \<Longrightarrow> share_vector m (vec i) (g i) = Inr (sv i, g' i)"
  shows "combine_vector (reconstruct m)
      (entity_major n w (server_vector 0 qv) (map (\<lambda>i. server_vector 0 (sv i)) is),
       entity_major n w (server_vector 1 qv) (map (\<lambda>i. server_vector 1 (sv i)) is),
       entity_major n w (server_vector 2 qv) (map (\<lambda>i. server_vector 2 (sv i)) is))
    = Inr (entity_major n w qs (map vec is))"
proof -
  let ?t = "entity_major n w (triples qv) (map (\<lambda>i. triples (sv i)) is)"
  have view: "entity_major n w (server_vector s qv) (map (\<lambda>i. server_vector s (sv i)) is) = map f ?t"
    if "server_vector s qv = map f (triples qv)" "\<And>i. i \<in> set is \<Longrightarrow> server_vector s (sv i) = map f (triples (sv i))"
    for s f
    using that by (simp add: map_entity_major comp_def cong: map_cong)
  have v0: "entity_major n w (server_vector 0 qv) (map (\<lambda>i. server_vector 0 (sv i)) is) = map (fst) ?t"
    by (rule view) (use shared_triples(1) [OF q] shared_triples(1) [OF t] in blast)+
  have v1: "entity_major n w (server_vector 1 qv) (map (\<lambda>i. server_vector 1 (sv i)) is) = map (fst \<circ> snd) ?t"
    by (rule view) (use shared_triples(2) [OF q] shared_triples(2) [OF t] in blast)+
  have v2: "entity_major n w (server_vector 2 qv) (map (\<lambda>i. server_vector 2 (sv i)) is) = map (snd \<circ> snd) ?t"
    by (rule view) (use shared_triples(3) [OF q] shared_triples(3) [OF t] in blast)+
  have ok: "(case x of (a, b, c) \<Rightarrow> reconstruct m [a, b, c]) = Inr (combined m x)" if "x \<in> set ?t" for x
  proof -
    have "x \<in> set (triples qv) \<or> (\<exists>i \<in> set is. x \<in> set (triples (sv i)))"
      using that set_entity_major [of n w "triples qv" "map (\<lambda>i. triples (sv i)) is"] by auto
    then show ?thesis using shared_triples(4) [OF q] shared_triples(4) [OF t] by blast
  qed
  have "combine_vector (reconstruct m) (map fst ?t, map (fst \<circ> snd) ?t, map (snd \<circ> snd) ?t)
      = Inr (map (combined m) ?t)"
    unfolding combine_vector_def prod.case zip3_maps by (rule traverse_Inr) (use ok in blast)
  also have "map (combined m) ?t = entity_major n w qs (map vec is)"
    using shared_triples(5) [OF q] shared_triples(5) [OF t] by (simp add: map_entity_major comp_def cong: map_cong)
  finally show ?thesis unfolding v0 v1 v2 .
qed

section \<open>From owner files to reconstructed input\<close>

lemma owner_shards_Inr:
  assumes "valid_config c" and "i < length (owners c)"
    and "owner_shards H c kind (owners c ! i) values g = Inr (docs, g')"
  shows "\<exists>sv. share_vector (field_prime c) values g = Inr (sv, g') \<and>
    (\<forall>s < SERVER_COUNT. docs ! s = owner_document H c kind (owners c ! i) i sv s)"
proof -
  have "list_index (owners c) (owners c ! i) = Inr i"
    using list_index_nth valid_owners(2) assms(1,2) by blast
  with assms(3) show ?thesis by (auto simp: owner_shards_def res_simps)
qed

lemma create_packed_owner_shards_Inr:
  assumes "valid_config c" and "i < length (owners c)"
    and "create_packed_owner_shards H c (owners c ! i) raw g = Inr (docs, g')"
  shows "\<exists>vec sv edges. raw = JList edges \<and> packed_owner_vector c (owners c ! i) edges = Inr vec \<and>
    share_vector (field_prime c) vec g = Inr (sv, g') \<and>
    (\<forall>s < SERVER_COUNT. docs ! s = owner_document H c ''packed-owner-shard'' (owners c ! i) i sv s)"
proof -
  from assms(3) obtain edges vec where "raw = JList edges" "packed_owner_vector c (owners c ! i) edges = Inr vec"
      and shards: "owner_shards H c ''packed-owner-shard'' (owners c ! i) vec g = Inr (docs, g')"
    by (auto simp: create_packed_owner_shards_def res_simps split: jval.splits)
  with owner_shards_Inr [OF assms(1,2) shards] show ?thesis by blast
qed

lemma length_server_vector:
  assumes "share_vector m vs g = Inr (sv, g')"
  shows "length (server_vector s sv) = length vs"
proof -
  obtain as bs cs where "sv = (as, bs, cs)" by (metis prod.exhaust)
  with assms field.deal_vector_lengths [of m vs g as bs cs g'] show ?thesis
    by (auto simp: share_vector_def server_vector_def)
qed

lemma packed_owner_vector_length:
  assumes "valid_config c" and "packed_owner_vector c owner edges = Inr vec"
  shows "packable_config c" and "int (length vec) = entity_count c * fanout_per_owner c"
proof -
  from assms(2) show "packable_config c" by (simp add: packed_owner_vector_iff [OF assms(1)])
  from assms(2) have "length vec = nat (entity_count c) * nat (fanout_per_owner c)"
    by (auto simp: packed_owner_vector_iff [OF assms(1)] length_owner_layout [OF assms(1)])
  then show "int (length vec) = entity_count c * fanout_per_owner c"
    using entity_count_pos [of c] valid_fanout [OF assms(1)] by simp
qed

lemma query_batch_values_honest:
  assumes "share_vector (field_prime c) qs g = Inr (qv, g')" and "length qs = n * 3"
  shows "packed_query_batch_values H c (int s) (query_batch_document H c n qv s) (int n) = Inr (server_vector s qv)"
  using shared_triples(7) [OF assms(1), of s] length_server_vector [OF assms(1), of s] assms(2)
  by (simp add: packed_query_batch_values_def query_batch_document_def jget_def get_or_def)

lemma length_concat_query_triples: "length (concat (map query_triple ids)) = length ids * 3"
  by (induction ids) (auto simp: query_triple_def)

text \<open>The plaintext the three inputs stand for.\<close>

definition plaintext_input :: "public_config \<Rightarrow> (int \<times> int \<times> int) list \<Rightarrow> (nat \<Rightarrow> int list) \<Rightarrow> int list" where
  "plaintext_input c ids vec =
     entity_major (nat (entity_count c)) (nat (fanout_per_owner c)) (concat (map query_triple ids))
       (map vec [0..<length (owners c)])"

definition server_run ::
  "(jval \<Rightarrow> string) \<Rightarrow> public_config \<Rightarrow> nat \<Rightarrow> document list \<Rightarrow> (nat \<Rightarrow> document list) \<Rightarrow> nat list \<Rightarrow> nat \<Rightarrow> int list res" where
  "server_run H c n qdocs docs order s =
     assemble_packed_batch_from_paths H c (int s) (int n) (JDict (qdocs ! s))
       (map (\<lambda>i. JDict (docs i ! s)) order)"

lemma server_run_honest:
  assumes c: "valid_config c" "packable_config c" and s: "s < SERVER_COUNT"
    and order: "distinct order" "set order = {..<length (owners c)}"
    and q: "share_vector (field_prime c) qs gq = Inr (qv, gq')" "length qs = n * 3"
      "qdocs ! s = query_batch_document H c n qv s"
    and t: "\<And>i. i < length (owners c) \<Longrightarrow> share_vector (field_prime c) (vec i) (g i) = Inr (sv i, g' i) \<and>
        int (length (vec i)) = entity_count c * fanout_per_owner c \<and>
        docs i ! s = owner_document H c ''packed-owner-shard'' (owners c ! i) i (sv i) s"
  shows "server_run H c n qdocs docs order s =
    Inr (entity_major (nat (entity_count c)) (nat (fanout_per_owner c)) (server_vector s qv)
      (map (\<lambda>i. server_vector s (sv i)) [0..<length (owners c)]))"
proof -
  let ?docs = "map (\<lambda>i. owner_document H c ''packed-owner-shard'' (owners c ! i) i (sv i) s) order"
  have docs: "map (\<lambda>i. docs i ! s) order = ?docs" using t order(2) by (intro map_cong) auto
  have parse: "traverse (as_document e) (map (\<lambda>i. JDict (docs i ! s)) order) = Inr (map (\<lambda>i. docs i ! s) order)" for e
    by (induction order) (simp_all add: as_document_def)
  have qlen: "length (server_vector s qv) mod 3 = 0" using length_server_vector [OF q(1)] q(2) by simp
  have vec: "canonical (field_prime c) (server_vector s (sv i)) \<and>
      int (length (server_vector s (sv i))) = entity_count c * fanout_per_owner c" if "i < length (owners c)" for i
  proof -
    from t [OF that] have share: "share_vector (field_prime c) (vec i) (g i) = Inr (sv i, g' i)"
      and len: "int (length (vec i)) = entity_count c * fanout_per_owner c" by blast+
    from shared_triples(7) [OF share, of s] length_server_vector [OF share, of s] len
    show ?thesis by simp
  qed
  have "assemble_packed_batch_input H c (int s) (server_vector s qv) ?docs =
      Inr (entity_major (nat (entity_count c)) (nat (fanout_per_owner c)) (server_vector s qv)
        (map (\<lambda>i. server_vector s (sv i)) [0..<length (owners c)]))"
    by (rule assemble_packed_honest) (use c s qlen vec order in auto)
  then show ?thesis
    unfolding server_run_def assemble_packed_batch_from_paths_def
    by (simp add: q(3) query_batch_values_honest [OF q(1,2)] parse docs)
qed

lemma packed_owner_vector_canonical:
  assumes "valid_config c" and "packed_owner_vector c owner edges = Inr vec"
  shows "canonical (field_prime c) vec"
proof -
  from assms(2) obtain rows where pk: "packable_config c" and rows: "traverse (validated_edge c) edges = Inr rows"
      and vec: "vec = owner_layout (nat (entity_count c)) (nat (fanout_per_owner c)) 0 (packed_item c) rows"
    by (auto simp: packed_owner_vector_iff [OF assms(1)])
  have "0 \<le> packed_item c row \<and> packed_item c row < field_prime c" if "row \<in> set rows" for row
    using packed_value_bounds [OF validated_rows_bounds(3) [OF assms(1) rows that]]
      packed_below_prime [OF assms(1) pk] by auto
  then show ?thesis
    using field_prime_pos [OF assms(1)]
    by (auto simp: vec owner_layout_def slot_items_def Let_def rows_at_def list_all_iff)
qed

lemma create_packed_owner_shards_ok:
  assumes "valid_config c" and "i < length (owners c)"
    and "packed_owner_vector c (owners c ! i) edges = Inr vec"
  shows "\<exists>docs g'. create_packed_owner_shards H c (owners c ! i) (JList edges) g = Inr (docs, g')"
proof -
  obtain as bs cs g' where "share_vector (field_prime c) vec g = Inr ((as, bs, cs), g')"
    using share_vector_total packed_owner_vector_canonical [OF assms(1,3)] by blast
  moreover have "list_index (owners c) (owners c ! i) = Inr i"
    using list_index_nth valid_owners(2) assms(1,2) by blast
  ultimately show ?thesis
    using assms(3) by (simp add: create_packed_owner_shards_def owner_shards_def)
qed

lemma query_ids_canonical:
  assumes "valid_config c" and "packable_config c" and "query_ids c q = Inr ids"
  shows "canonical (field_prime c) (query_triple ids)"
proof -
  obtain s r1 r2 where ids: "ids = (s, r1, r2)" by (metis prod.exhaust)
  from assms(3) obtain sn rn1 rn2 where look: "map_of (entities c) sn = Some s"
      "map_of (relations c) rn1 = Some r1" "map_of (relations c) rn2 = Some r2"
    by (auto simp: query_ids_def ids res_simps vocab_get_eq_Inr jitem_eq_Inr split: jval.splits if_splits)
  have w: "(2::int) ^ (packing_widths c ! k) \<le> field_prime c" if "k < 5" for k
  proof -
    have "packing_widths c ! k \<le> packed_edge_bits c"
      using that by (simp add: packed_edge_bits_def elem_le_sum_list)
    then have "(2::int) ^ (packing_widths c ! k) \<le> 2 ^ packed_edge_bits c" by (rule power_increasing) simp
    with packed_below_prime [OF assms(1,2)] show ?thesis by linarith
  qed
  show ?thesis
    using entity_id_fits [OF assms(1) look(1)] relation_id_fits [OF assms(1) look(2)]
      relation_id_fits [OF assms(1) look(3)] w [of 0] w [of 1] by (simp add: ids query_triple_def)
qed

lemma create_packed_query_batch_shards_ok:
  assumes "valid_config c" "packable_config c" "queries \<noteq> []" "traverse (query_ids c) queries = Inr ids"
  shows "\<exists>docs g'. create_packed_query_batch_shards H c (JList queries) g = Inr (docs, g')"
proof -
  have "canonical (field_prime c) (concat (map query_triple ids))"
    using traverse_set [OF assms(4)] query_ids_canonical [OF assms(1,2)] by (fastforce simp: list_all_iff)
  then obtain as bs cs g' where "share_vector (field_prime c) (concat (map query_triple ids)) g = Inr ((as, bs, cs), g')"
    using share_vector_total by blast
  then show ?thesis using assms by (simp add: create_packed_query_batch_shards_def)
qed

lemma packed_preparation_run:
  assumes c: "valid_config c"
    and owners_ok: "\<And>i. i < length (owners c) \<Longrightarrow>
      create_packed_owner_shards H c (owners c ! i) (JList (edges i)) (g i) = Inr (docs i, g' i)"
    and query_ok: "create_packed_query_batch_shards H c (JList queries) gq = Inr (qdocs, gq')"
    and order: "\<And>s. s < SERVER_COUNT \<Longrightarrow> distinct (order s) \<and> set (order s) = {..<length (owners c)}"
  shows "\<exists>a ids vec.
      (\<forall>s < SERVER_COUNT. server_run H c (length queries) qdocs docs (order s) s = Inr (a s)) \<and>
      (\<forall>s. int (length (a s)) = 3 * int (length queries) + entity_count c * block_edges c) \<and>
      traverse (query_ids c) queries = Inr ids \<and>
      (\<forall>i < length (owners c). packed_owner_vector c (owners c ! i) (edges i) = Inr (vec i)) \<and>
      combine_vector (reconstruct (field_prime c)) (a 0, a 1, a 2) = Inr (plaintext_input c ids vec)"
proof -
  let ?n = "length (owners c)" and ?p = "field_prime c"
  have "\<exists>vec sv. packed_owner_vector c (owners c ! i) (edges i) = Inr vec \<and>
      share_vector ?p vec (g i) = Inr (sv, g' i) \<and>
      (\<forall>s < SERVER_COUNT. docs i ! s = owner_document H c ''packed-owner-shard'' (owners c ! i) i sv s)"
    if "i < ?n" for i
    using create_packed_owner_shards_Inr [OF c that owners_ok [OF that]] by auto
  then obtain vec sv where t: "\<And>i. i < ?n \<Longrightarrow> packed_owner_vector c (owners c ! i) (edges i) = Inr (vec i) \<and>
      share_vector ?p (vec i) (g i) = Inr (sv i, g' i) \<and>
      (\<forall>s < SERVER_COUNT. docs i ! s = owner_document H c ''packed-owner-shard'' (owners c ! i) i (sv i) s)"
    by metis
  from query_ok obtain ids qv where ids: "traverse (query_ids c) queries = Inr ids"
      and qv: "share_vector ?p (concat (map query_triple ids)) gq = Inr (qv, gq')"
      and qdocs: "\<And>s. s < SERVER_COUNT \<Longrightarrow> qdocs ! s = query_batch_document H c (length queries) qv s"
    by (auto simp: create_packed_query_batch_shards_def res_simps split: if_splits)
  have qlen: "length (concat (map query_triple ids)) = length queries * 3"
    using length_traverse [OF ids] by (simp add: length_concat_query_triples)
  have len: "int (length (vec i)) = entity_count c * fanout_per_owner c" if "i < ?n" for i
    using packed_owner_vector_length(2) [OF c] t [OF that] by blast
  have "0 < ?n" using valid_owners(1) [OF c] by simp
  then have pk: "packable_config c" using packed_owner_vector_length(1) [OF c] t by blast
  let ?a = "\<lambda>s. entity_major (nat (entity_count c)) (nat (fanout_per_owner c)) (server_vector s qv)
      (map (\<lambda>i. server_vector s (sv i)) [0..<?n])"
  have run: "server_run H c (length queries) qdocs docs (order s) s = Inr (?a s)" if "s < SERVER_COUNT" for s
  proof (rule server_run_honest [OF c pk that _ _ qv qlen qdocs [OF that]])
    show "distinct (order s)" "set (order s) = {..<?n}" using order [OF that] by blast+
    show "share_vector ?p (vec i) (g i) = Inr (sv i, g' i) \<and>
        int (length (vec i)) = entity_count c * fanout_per_owner c \<and>
        docs i ! s = owner_document H c ''packed-owner-shard'' (owners c ! i) i (sv i) s" if "i < ?n" for i
      using t [OF that] len [OF that] \<open>s < SERVER_COUNT\<close> by blast
  qed
  have "combine_vector (reconstruct ?p) (?a 0, ?a 1, ?a 2) = Inr (plaintext_input c ids vec)"
    unfolding plaintext_input_def by (rule reconstruct_entity_major [OF qv]) (use t in auto)
  moreover have "int (length (?a s)) = 3 * int (length queries) + entity_count c * block_edges c" for s
  proof -
    have nat_len: "length (server_vector s (sv i)) = nat (entity_count c) * nat (fanout_per_owner c)" if "i < ?n" for i
      using length_server_vector t [OF that] len [OF that] entity_count_pos [of c] valid_fanout [OF c]
      by (metis int_one_le_iff_zero_less nat_int nat_mult_distrib order_less_imp_le)
    have "length (?a s) = length (server_vector s qv) + nat (entity_count c) * (?n * nat (fanout_per_owner c))"
      by (subst length_entity_major) (use nat_len in auto)
    then show ?thesis
      using length_server_vector [OF qv] qlen entity_count_pos [of c] valid_fanout [OF c]
      by (simp add: block_edges_def)
  qed
  ultimately show ?thesis using run ids t by (intro exI [of _ ?a] exI [of _ ids] exI [of _ vec]) blast
qed

section \<open>Properties\<close>

text \<open>
  End-to-end preparation.  When every owner's preparation and the client's query batch
  succeed, each of the three servers accepts its documents in whatever order it reads the
  owners' files, and reconstructing the three private inputs position by position gives the
  query identifiers followed, entity by entity and owner by owner, by the owners' packed
  tables.  The length of each input is a function of the public configuration and the query
  count alone.
\<close>

theorem packed_preparation_correct:
  assumes c: "valid_config c"
    and owners_ok: "\<And>i. i < length (owners c) \<Longrightarrow>
      create_packed_owner_shards H c (owners c ! i) (JList (edges i)) (g i) = Inr (docs i, g' i)"
    and query_ok: "create_packed_query_batch_shards H c (JList queries) gq = Inr (qdocs, gq')"
    and order: "\<And>s. s < SERVER_COUNT \<Longrightarrow> distinct (order s) \<and> set (order s) = {..<length (owners c)}"
  shows "\<exists>a0 a1 a2 ids vec.
      server_run H c (length queries) qdocs docs (order 0) 0 = Inr a0 \<and>
      server_run H c (length queries) qdocs docs (order 1) 1 = Inr a1 \<and>
      server_run H c (length queries) qdocs docs (order 2) 2 = Inr a2 \<and>
      traverse (query_ids c) queries = Inr ids \<and>
      (\<forall>i < length (owners c). packed_owner_vector c (owners c ! i) (edges i) = Inr (vec i)) \<and>
      combine_vector (reconstruct (field_prime c)) (a0, a1, a2) = Inr (plaintext_input c ids vec) \<and>
      int (length a0) = 3 * int (length queries) + entity_count c * block_edges c"
proof -
  obtain a ids vec where run: "\<forall>s < SERVER_COUNT. server_run H c (length queries) qdocs docs (order s) s = Inr (a s)"
      "int (length (a 0)) = 3 * int (length queries) + entity_count c * block_edges c"
      "traverse (query_ids c) queries = Inr ids"
      "\<forall>i < length (owners c). packed_owner_vector c (owners c ! i) (edges i) = Inr (vec i)"
      "combine_vector (reconstruct (field_prime c)) (a 0, a 1, a 2) = Inr (plaintext_input c ids vec)"
    using packed_preparation_run [where order = order, OF c owners_ok query_ok order] by blast
  then show ?thesis
    by (intro exI [of _ "a 0"] exI [of _ "a 1"] exI [of _ "a 2"] exI [of _ ids] exI [of _ vec]) (simp add: SERVER_COUNT_def)
qed

definition sample_query :: jval where
  "sample_query = JDict [(''source'', JStr ''a''), (''relation_1'', JStr ''r''), (''relation_2'', JStr ''s'')]"

lemma sample_query_ids: "query_ids sample_config sample_query = Inr (1, 1, 2)"
  by (simp add: query_ids_def sample_query_def query_keys_def vocab_get_def)

theorem packed_preparation_correct_witness:
  "\<exists>docs qdocs a0 a1 a2.
     server_run (\<lambda>_. ''h'') sample_config 1 qdocs docs [0, 1] 0 = Inr a0 \<and>
     server_run (\<lambda>_. ''h'') sample_config 1 qdocs docs [1, 0] 1 = Inr a1 \<and>
     server_run (\<lambda>_. ''h'') sample_config 1 qdocs docs [1, 0] 2 = Inr a2 \<and>
     int (length a0) = 19"
proof -
  let ?H = "\<lambda>_ :: jval. ''h''" and ?edges = "\<lambda>i :: nat. if i = 0 then sample_edges else []"
  have vec: "\<exists>vec. packed_owner_vector sample_config (owners sample_config ! i) (?edges i) = Inr vec" if "i < 2" for i
    using that sample_traverse sample_fit
    by (cases i) (auto simp: packed_owner_vector_iff [OF sample_valid] sources_fit_def relations_fit_def)
  let ?create = "\<lambda>i. create_packed_owner_shards ?H sample_config (owners sample_config ! i) (JList (?edges i)) (\<lambda>_. 5)"
  have "\<exists>r. i < 2 \<longrightarrow> ?create i = Inr r" for i
    using vec [of i] create_packed_owner_shards_ok [OF sample_valid, of i] by fastforce
  then obtain r where "\<forall>i. i < 2 \<longrightarrow> ?create i = Inr (r i)"
    using choice [of "\<lambda>i r. i < 2 \<longrightarrow> ?create i = Inr r"] by blast
  then have owners: "?create i = Inr (fst (r i), snd (r i))" if "i < length (owners sample_config)" for i
    using that by simp
  obtain qdocs gq' where query:
      "create_packed_query_batch_shards ?H sample_config (JList [sample_query]) (\<lambda>_. 6) = Inr (qdocs, gq')"
    using create_packed_query_batch_shards_ok [OF sample_valid sample_packable, of "[sample_query]" "[(1, 1, 2)]"
        ?H "\<lambda>_. 6"] sample_query_ids by auto
  let ?order = "\<lambda>s :: nat. if s = 0 then [0, 1 :: nat] else [1, 0]"
  have order: "distinct (?order s) \<and> set (?order s) = {..<length (owners sample_config)}" for s
    by auto
  have "\<exists>a0 a1 a2 ids vec.
      server_run ?H sample_config (length [sample_query]) qdocs (\<lambda>i. fst (r i)) (?order 0) 0 = Inr a0 \<and>
      server_run ?H sample_config (length [sample_query]) qdocs (\<lambda>i. fst (r i)) (?order 1) 1 = Inr a1 \<and>
      server_run ?H sample_config (length [sample_query]) qdocs (\<lambda>i. fst (r i)) (?order 2) 2 = Inr a2 \<and>
      traverse (query_ids sample_config) [sample_query] = Inr ids \<and>
      (\<forall>i < length (owners sample_config). packed_owner_vector sample_config (owners sample_config ! i) (?edges i) = Inr (vec i)) \<and>
      combine_vector (reconstruct (field_prime sample_config)) (a0, a1, a2) = Inr (plaintext_input sample_config ids vec) \<and>
      int (length a0) = 3 * int (length [sample_query]) + entity_count sample_config * block_edges sample_config"
    by (rule packed_preparation_correct [OF sample_valid _ query]) (use owners order in blast)+
  then obtain a0 a1 a2 where
    "server_run ?H sample_config (length [sample_query]) qdocs (\<lambda>i. fst (r i)) (?order 0) 0 = Inr a0"
    "server_run ?H sample_config (length [sample_query]) qdocs (\<lambda>i. fst (r i)) (?order 1) 1 = Inr a1"
    "server_run ?H sample_config (length [sample_query]) qdocs (\<lambda>i. fst (r i)) (?order 2) 2 = Inr a2"
    "int (length a0) = 3 * int (length [sample_query]) + entity_count sample_config * block_edges sample_config"
    by (elim exE conjE) (rule that, assumption+)
  then have "server_run ?H sample_config 1 qdocs (\<lambda>i. fst (r i)) [0, 1] 0 = Inr a0 \<and>
      server_run ?H sample_config 1 qdocs (\<lambda>i. fst (r i)) [1, 0] 1 = Inr a1 \<and>
      server_run ?H sample_config 1 qdocs (\<lambda>i. fst (r i)) [1, 0] 2 = Inr a2 \<and> int (length a0) = 19"
    by simp
  then show ?thesis by blast
qed

end
