(* ===== verification/Top_K.thy ===== *)
theory Top_K
  imports Py_Values
begin

text \<open>
  Ranking, the common tail of every cleartext oracle (\<open>reference.py\<close>, \<open>relation_pages.py\<close>,
  \<open>relation_paged_oram.py\<close>): candidates are sorted as Python tuples, scanned once with an
  optional suppression of terminal entities that were already answered, cut at \<open>top_k\<close> and
  padded with empty rows.  The order on candidates is an instance of \<open>linorder\<close>.
\<close>

section \<open>Candidates\<close>

text \<open>Negated path score, public slot index, left and right evidence handle, terminal entity.\<close>

datatype candidate =
  Candidate (neg_score: int) (slot_index: int) (left_handle: int) (right_handle: int) (terminal: int)

definition candidate_key :: "candidate \<Rightarrow> int \<times> int \<times> int \<times> int \<times> int" where
  "candidate_key c = (neg_score c, slot_index c, left_handle c, right_handle c, terminal c)"

lemma candidate_key_inject [simp]: "candidate_key c = candidate_key d \<longleftrightarrow> c = d"
  by (cases c; cases d) (simp add: candidate_key_def)

instantiation candidate :: linorder
begin

definition less_eq_candidate :: "candidate \<Rightarrow> candidate \<Rightarrow> bool" where
  "c \<le> d \<longleftrightarrow> candidate_key c \<le> candidate_key d"

definition less_candidate :: "candidate \<Rightarrow> candidate \<Rightarrow> bool" where
  "c < d \<longleftrightarrow> candidate_key c < candidate_key d"

instance
proof
  fix c d e :: candidate
  show "c < d \<longleftrightarrow> c \<le> d \<and> \<not> d \<le> c" "c \<le> c" "c \<le> d \<or> d \<le> c"
    by (auto simp: less_eq_candidate_def less_candidate_def less_le_not_le)
  show "c \<le> d \<Longrightarrow> d \<le> e \<Longrightarrow> c \<le> e" by (auto simp: less_eq_candidate_def intro: order_trans)
  show "c \<le> d \<Longrightarrow> d \<le> c \<Longrightarrow> c = d"
    by (metis antisym candidate_key_inject less_eq_candidate_def)
qed

end

lemma candidate_le_score: "c \<le> d \<Longrightarrow> neg_score c \<le> neg_score d"
  by (auto simp: less_eq_candidate_def candidate_key_def)

section \<open>Selection\<close>

fun select_loop :: "bool \<Rightarrow> int \<Rightarrow> candidate list \<Rightarrow> candidate list \<Rightarrow> int list \<Rightarrow> candidate list" where
  "select_loop dedup k [] selected seen = selected"
| "select_loop dedup k (cand # rest) selected seen =
     (if dedup \<and> terminal cand \<in> set seen then select_loop dedup k rest selected seen
      else
        let selected = selected @ [cand]; seen = terminal cand # seen in
        if int (length selected) = k then selected
        else select_loop dedup k rest selected seen)"

definition select_top :: "bool \<Rightarrow> int \<Rightarrow> candidate list \<Rightarrow> candidate list" where
  "select_top dedup k candidates = select_loop dedup k (sort candidates) [] []"

record result_row =
  valid :: int
  left_evidence :: int
  right_evidence :: int
  score :: int

definition result_of :: "candidate \<Rightarrow> result_row" where
  "result_of c = \<lparr>valid = 1, left_evidence = left_handle c, right_evidence = right_handle c,
                  score = - neg_score c\<rparr>"

definition empty_result :: result_row where
  "empty_result = \<lparr>valid = 0, left_evidence = 0, right_evidence = 0, score = 0\<rparr>"

definition result_rows :: "int \<Rightarrow> candidate list \<Rightarrow> result_row list" where
  "result_rows k selected =
     map (\<lambda>rank. if rank < length selected then result_of (selected ! rank) else empty_result) [0..<nat k]"

definition top_k_results :: "bool \<Rightarrow> int \<Rightarrow> candidate list \<Rightarrow> result_row list" where
  "top_k_results dedup k candidates = result_rows k (select_top dedup k candidates)"

section \<open>Selection as a prefix of a filtered sorted list\<close>

fun keep_first :: "bool \<Rightarrow> int set \<Rightarrow> candidate list \<Rightarrow> candidate list" where
  "keep_first dedup seen [] = []"
| "keep_first dedup seen (c # cs) =
     (if dedup \<and> terminal c \<in> seen then keep_first dedup seen cs
      else c # keep_first dedup (insert (terminal c) seen) cs)"

lemma select_loop_take:
  assumes "length selected < nat k"
  shows "select_loop dedup k cs selected seen =
           selected @ take (nat k - length selected) (keep_first dedup (set seen) cs)"
  using assms
proof (induction cs arbitrary: selected seen)
  case (Cons c cs)
  show ?case
  proof (cases "dedup \<and> terminal c \<in> set seen")
    case False
    obtain m where m: "nat k - length selected = Suc m" using Cons.prems by (cases "nat k - length selected") auto
    show ?thesis
    proof (cases "int (length (selected @ [c])) = k")
      case True
      then have "m = 0" using m by auto
      with False True m show ?thesis by (auto simp: Let_def)
    next
      case neq: False
      then have "length (selected @ [c]) < nat k" "nat k - length (selected @ [c]) = m"
        using Cons.prems m by auto
      with Cons.IH [of "selected @ [c]" "terminal c # seen"] False neq m show ?thesis
        by (auto simp: Let_def)
    qed
  qed (use Cons in simp)
qed simp

lemma select_top_take:
  assumes "1 \<le> k"
  shows "select_top dedup k candidates = take (nat k) (keep_first dedup {} (sort candidates))"
  using select_loop_take [of "[]" k dedup "sort candidates" "[]"] assms by (simp add: select_top_def)

lemma keep_first_all: "keep_first False seen cs = cs"
  by (induction cs arbitrary: seen) auto

lemma set_keep_first: "set (keep_first dedup seen cs) \<subseteq> set cs"
  by (induction dedup seen cs rule: keep_first.induct) (simp, auto)

lemma sorted_keep_first: "sorted cs \<Longrightarrow> sorted (keep_first dedup seen cs)"
proof (induction cs arbitrary: seen)
  case (Cons c cs)
  then show ?case using set_keep_first [of dedup "insert (terminal c) seen" cs] by auto
qed simp

lemma keep_first_terminals:
  "terminal ` set (keep_first True seen cs) \<inter> seen = {} \<and> distinct (map terminal (keep_first True seen cs))"
proof (induction cs arbitrary: seen)
  case (Cons c cs)
  then show ?case
    using Cons.IH [of seen] Cons.IH [of "insert (terminal c) seen"] by auto
qed simp

text \<open>Every candidate is kept, or one with its terminal was seen or kept before it.\<close>

lemma keep_first_covers:
  assumes "sorted cs" and "c \<in> set cs"
  shows "c \<in> set (keep_first dedup seen cs) \<or>
    (dedup \<and> (terminal c \<in> seen \<or> (\<exists>d \<in> set (keep_first dedup seen cs). terminal d = terminal c \<and> d \<le> c)))"
  using assms
proof (induction cs arbitrary: seen)
  case (Cons x cs)
  show ?case
  proof (cases "c = x")
    case False
    with Cons.prems have "c \<in> set cs" "sorted cs" "x \<le> c" by auto
    with Cons.IH [of seen] Cons.IH [of "insert (terminal x) seen"] show ?thesis
      by (cases "dedup \<and> terminal x \<in> seen") auto
  qed auto
qed simp

lemma sorted_take_le:
  assumes "sorted xs" and "x \<in> set xs" and "x \<notin> set (take n xs)" and "s \<in> set (take n xs)"
  shows "s \<le> x"
proof -
  have "x \<in> set (drop n xs)" using assms(2,3) by (metis Un_iff append_take_drop_id set_append)
  moreover have "sorted (take n xs @ drop n xs)" using assms(1) by simp
  ultimately show ?thesis using assms(4) unfolding sorted_append by blast
qed

lemma select_top_optimal:
  fixes dedup :: bool and candidates :: "candidate list" and k :: int
  assumes "1 \<le> k"
  defines "sel \<equiv> select_top dedup k candidates"
  shows "set sel \<subseteq> set candidates" and "sorted sel" and "length sel \<le> nat k"
    and "dedup \<Longrightarrow> distinct (map terminal sel)"
    and "c \<in> set candidates \<Longrightarrow> c \<notin> set sel \<Longrightarrow>
      (length sel = nat k \<and> (\<forall>s \<in> set sel. s \<le> c)) \<or>
      (dedup \<and> (\<exists>s \<in> set sel. terminal s = terminal c \<and> s \<le> c))"
proof -
  let ?kept = "keep_first dedup {} (sort candidates)"
  have sel: "sel = take (nat k) ?kept" by (simp add: sel_def select_top_take [OF assms(1)])
  have kept: "sorted ?kept" by (simp add: sorted_keep_first)
  show "set sel \<subseteq> set candidates"
    using set_keep_first [of dedup "{}" "sort candidates"] unfolding sel by (auto dest: in_set_takeD)
  show "sorted sel" unfolding sel using kept by (rule sorted_wrt_take)
  show "length sel \<le> nat k" by (simp add: sel)
  show "distinct (map terminal sel)" if dedup
    using keep_first_terminals [of "{}" "sort candidates"] that by (simp add: sel take_map [symmetric])
  have full: "length sel = nat k \<and> (\<forall>s \<in> set sel. s \<le> d)" if "d \<in> set ?kept" "d \<notin> set sel" for d
  proof -
    from that have "\<not> length ?kept \<le> nat k" unfolding sel by auto
    then have "length sel = nat k" by (simp add: sel)
    with sorted_take_le [OF kept that(1)] that(2) show ?thesis unfolding sel by blast
  qed
  show "(length sel = nat k \<and> (\<forall>s \<in> set sel. s \<le> c)) \<or>
      (dedup \<and> (\<exists>s \<in> set sel. terminal s = terminal c \<and> s \<le> c))"
    if c: "c \<in> set candidates" "c \<notin> set sel"
  proof (cases "c \<in> set ?kept")
    case False
    with keep_first_covers [of "sort candidates" c dedup "{}"] c obtain d where
      d: "dedup" "d \<in> set ?kept" "terminal d = terminal c" "d \<le> c" by auto
    show ?thesis
    proof (cases "d \<in> set sel")
      case False
      from full [OF d(2) False] d(4) show ?thesis by (blast intro: order_trans)
    qed (use d in blast)
  qed (use full c in blast)
qed

section \<open>The ranking depends on the scores and terminals alone\<close>

text \<open>
  Two candidate lists with the same multiset of (score, terminal) pairs select the same
  sequence of scores, however the slots are numbered and the ties are broken.
\<close>

definition rank_pair :: "candidate \<Rightarrow> int \<times> int" where
  "rank_pair c = (neg_score c, terminal c)"

lemma sorted_scores: "sorted cs \<Longrightarrow> sorted (map neg_score cs)"
  by (induction cs) (auto simp: candidate_le_score)

definition best_scores :: "(int \<times> int) set \<Rightarrow> (int \<times> int) set" where
  "best_scores pairs = {(n, t). (n, t) \<in> pairs \<and> (\<forall>m. (m, t) \<in> pairs \<longrightarrow> n \<le> m)}"

lemma keep_first_best:
  assumes "sorted cs"
  shows "rank_pair ` set (keep_first True {} cs) = best_scores (rank_pair ` set cs)"
proof (intro set_eqI iffI)
  fix p assume "p \<in> rank_pair ` set (keep_first True {} cs)"
  then obtain c where c: "c \<in> set (keep_first True {} cs)" "p = rank_pair c" by auto
  have "neg_score c \<le> neg_score d" if "d \<in> set cs" "terminal d = terminal c" for d
  proof -
    from keep_first_covers [OF assms that(1), of True "{}"] obtain e where
      e: "e \<in> set (keep_first True {} cs)" "terminal e = terminal d" "e \<le> d" by auto
    moreover have "inj_on terminal (set (keep_first True {} cs))"
      using keep_first_terminals [of "{}" cs] by (simp add: distinct_map)
    ultimately have "e = c" using c(1) that(2) by (metis inj_onD)
    with e(3) show ?thesis by (simp add: candidate_le_score)
  qed
  moreover have "c \<in> set cs" using c(1) set_keep_first by blast
  ultimately show "p \<in> best_scores (rank_pair ` set cs)"
    by (auto simp: best_scores_def c(2) rank_pair_def)
next
  fix p assume p: "p \<in> best_scores (rank_pair ` set cs)"
  then have "p \<in> rank_pair ` set cs" by (auto simp: best_scores_def)
  then obtain c where c: "c \<in> set cs" "p = rank_pair c" by auto
  have best: "neg_score c \<le> neg_score d" if "d \<in> set cs" "terminal d = terminal c" for d
  proof -
    have "(neg_score d, terminal c) \<in> rank_pair ` set cs"
      using that by (metis image_eqI rank_pair_def)
    with p show ?thesis unfolding c(2) rank_pair_def [of c] best_scores_def by simp
  qed
  from keep_first_covers [OF assms c(1), of True "{}"] obtain d where
    d: "d \<in> set (keep_first True {} cs)" "terminal d = terminal c" "d \<le> c" by auto
  from d(1) set_keep_first have "d \<in> set cs" by blast
  from best [OF this d(2)] candidate_le_score [OF d(3)] have "neg_score d = neg_score c" by simp
  then have "p = rank_pair d" using d(2) c(2) by (simp add: rank_pair_def)
  with d(1) show "p \<in> rank_pair ` set (keep_first True {} cs)" by blast
qed

lemma keep_first_scores_mset:
  assumes "mset (map rank_pair as) = mset (map rank_pair bs)" and "sorted as" and "sorted bs"
  shows "map neg_score (keep_first dedup {} as) = map neg_score (keep_first dedup {} bs)"
proof -
  have "mset (map neg_score (keep_first dedup {} as)) = mset (map neg_score (keep_first dedup {} bs))"
  proof (cases dedup)
    case True
    have set_eq: "rank_pair ` set as = rank_pair ` set bs"
      using arg_cong [OF assms(1), of set_mset] by simp
    have kept: "mset (map rank_pair (keep_first True {} cs)) = mset_set (best_scores (rank_pair ` set cs))"
      if "sorted cs" for cs
    proof -
      have "distinct (map rank_pair (keep_first True {} cs))"
        using keep_first_terminals [of "{}" cs] by (auto simp: distinct_map rank_pair_def inj_on_def)
      from mset_set_set [OF this] show ?thesis using keep_first_best [OF that] by simp
    qed
    have "mset (map rank_pair (keep_first True {} as)) = mset (map rank_pair (keep_first True {} bs))"
      unfolding kept [OF assms(2)] kept [OF assms(3)] set_eq ..
    then have "image_mset fst (mset (map rank_pair (keep_first True {} as))) =
        image_mset fst (mset (map rank_pair (keep_first True {} bs)))" by simp
    then show ?thesis using True by (simp add: image_mset.compositionality comp_def rank_pair_def)
  next
    case False
    have "image_mset fst (mset (map rank_pair as)) = image_mset fst (mset (map rank_pair bs))"
      using assms(1) by simp
    then show ?thesis
      using False by (simp add: keep_first_all image_mset.compositionality comp_def rank_pair_def)
  qed
  then show ?thesis
    by (metis assms(2,3) properties_for_sort sorted_keep_first sorted_scores)
qed

lemma top_k_scores_cong:
  assumes "mset (map rank_pair as) = mset (map rank_pair bs)" and "1 \<le> k"
  shows "map (\<lambda>r. (valid r, score r)) (top_k_results dedup k as) =
         map (\<lambda>r. (valid r, score r)) (top_k_results dedup k bs)"
proof -
  have "mset (map rank_pair (sort as)) = mset (map rank_pair (sort bs))" using assms(1) by simp
  from keep_first_scores_mset [OF this sorted_sort sorted_sort]
  have eq: "map neg_score (select_top dedup k as) = map neg_score (select_top dedup k bs)"
    by (simp add: select_top_take [OF assms(2)] take_map [symmetric])
  then have len: "length (select_top dedup k as) = length (select_top dedup k bs)"
    by (metis length_map)
  have "neg_score (select_top dedup k as ! i) = neg_score (select_top dedup k bs ! i)"
    if "i < length (select_top dedup k bs)" for i
    using arg_cong [OF eq, of "\<lambda>xs. xs ! i"] that len by simp
  with len show ?thesis
    by (auto simp: top_k_results_def result_rows_def result_of_def empty_result_def)
qed

section \<open>Properties\<close>

text \<open>
  C11: The selection is the best answer the contract allows.  The selected candidates are
  candidates, in ascending key order (descending score, ties by public slot index), at most
  \<open>top_k\<close> many and with distinct terminals when suppression is on; and a candidate is left out
  only because the answer is full of candidates that rank no worse, or because a candidate that
  ranks no worse already answers the same terminal.
\<close>

theorem selection_optimal:
  assumes "1 \<le> k"
  shows "let sel = select_top dedup k candidates in
      set sel \<subseteq> set candidates \<and> sorted sel \<and> length sel \<le> nat k \<and>
      (dedup \<longrightarrow> distinct (map terminal sel)) \<and>
      (\<forall>c \<in> set candidates - set sel.
         (length sel = nat k \<and> (\<forall>s \<in> set sel. s \<le> c)) \<or>
         (dedup \<and> (\<exists>s \<in> set sel. terminal s = terminal c \<and> s \<le> c)))"
  unfolding Let_def using select_top_optimal [OF assms, where dedup = dedup and candidates = candidates] by blast

theorem selection_optimal_witness:
  "select_top True 2 [Candidate (-5) 3 1 2 7, Candidate (-9) 1 3 4 7, Candidate (-4) 0 5 6 8]
     = [Candidate (-9) 1 3 4 7, Candidate (-4) 0 5 6 8] \<and>
   sorted (select_top True 2 [Candidate (-5) 3 1 2 7, Candidate (-9) 1 3 4 7, Candidate (-4) 0 5 6 8])"
  using selection_optimal [of 2 True "[Candidate (-5) 3 1 2 7, Candidate (-9) 1 3 4 7, Candidate (-4) 0 5 6 8]"]
  by (simp add: Let_def) (simp add: select_top_def less_eq_candidate_def candidate_key_def)

end
