(* ===== verification/Clear_Reference.thy ===== *)
theory Clear_Reference
  imports Server_Input Top_K
begin

text \<open>
  The raw-edge oracle of the scan backend (\<open>doram_t2_3pc/reference.py\<close>): bounded buckets per
  owner, the first-hop frontier with or without compaction, the dependent second hop and the
  ranking.  Its specification is the multiset of two-hop join paths in the owners' edges.
\<close>

section \<open>Bounded buckets\<close>

definition checked_int :: "jval \<Rightarrow> int \<Rightarrow> bool \<Rightarrow> int res" where
  "checked_int v upper reserve_zero =
     (case strict_int v of
        None \<Rightarrow> Inl (ValueError ''must be an integer'')
      | Some i \<Rightarrow>
          let lower = (if reserve_zero then 1 else 0) in
          if \<not> (lower \<le> i \<and> i < upper) then Inl (ValueError ''must be in range'') else Inr i)"

definition raw_edge_row :: "public_config \<Rightarrow> jval \<Rightarrow> edge_row res" where
  "raw_edge_row c e =
     (case e of
        JDict d \<Rightarrow>
          if set (map fst d) \<noteq> set edge_keys
          then Inl (ValueError ''edge must contain exactly source/relation/target/evidence/score'')
          else
            bindr (edge_ids c e) (\<lambda>(source, relation, target).
            bindr (bindr (jitem e ''evidence'') (\<lambda>v. checked_int v (push_bit (nat (evidence_bits c)) 1) True)) (\<lambda>evidence.
            bindr (bindr (jitem e ''score'') (\<lambda>v. checked_int v (push_bit (nat (score_bits c)) 1) False)) (\<lambda>score.
              Inr (source, relation, target, evidence, score))))
      | _ \<Rightarrow> Inl (ValueError ''edge must contain exactly source/relation/target/evidence/score''))"

definition raw_step :: "public_config \<Rightarrow> jval \<Rightarrow> edge_fields list list \<times> ((int \<times> int) \<times> nat) list \<Rightarrow>
    (edge_fields list list \<times> ((int \<times> int) \<times> nat) list) res" where
  "raw_step c e = (\<lambda>(buckets, relation_counts).
     bindr (raw_edge_row c e) (\<lambda>(source, relation, target, evidence, score).
     bindr (append_at buckets source (target, relation, evidence, score, 1)) (\<lambda>buckets.
       let relation_counts = count_at (source, relation) relation_counts in
       if int (get_or 0 relation_counts (source, relation)) > relation_frontier_per_owner c
       then Inl relation_overflow
       else Inr (buckets, relation_counts))))"

definition raw_owner_buckets :: "public_config \<Rightarrow> jval list \<Rightarrow> edge_fields list list res" where
  "raw_owner_buckets c edges =
     bindr (foldM (raw_step c) edges (replicate (nat (entity_count c)) [], [])) (\<lambda>(buckets, _).
       pad_buckets (fanout_per_owner c) (0, 0, 0, 0, 0) buckets)"

section \<open>The two hops\<close>

definition block_at :: "edge_fields list list list \<Rightarrow> int \<Rightarrow> edge_fields list" where
  "block_at tables entity = concat (map (\<lambda>table. table ! nat entity) tables)"

text \<open>\<open>edge[4] and edge[0] and edge[1] == relation\<close>.\<close>

definition edge_matches :: "int \<Rightarrow> edge_fields \<Rightarrow> bool" where
  "edge_matches r = (\<lambda>(target, relation, evidence, score, valid). valid \<noteq> 0 \<and> target \<noteq> 0 \<and> relation = r)"

text \<open>Public slot index, target, evidence handle, score.\<close>

type_synonym frontier_entry = "int \<times> int \<times> int \<times> int"

definition owner_matches ::
  "public_config \<Rightarrow> int \<Rightarrow> int \<Rightarrow> nat \<times> edge_fields list list \<Rightarrow> frontier_entry list res" where
  "owner_matches c source relation_1 = (\<lambda>(owner_index, table).
     let relation_frontier = relation_frontier_per_owner c;
         matches = filter (edge_matches relation_1) (table ! nat source)
     in if int (length matches) > relation_frontier
        then Inl (AssertionError ''validated owner relation frontier exceeds its public bound'')
        else Inr (map (\<lambda>(local_index, target, relation, handle, score, valid).
               (int owner_index * relation_frontier + int local_index, target, handle, score))
             (enumerate 0 matches)))"

definition first_frontier ::
  "public_config \<Rightarrow> edge_fields list list list \<Rightarrow> int \<Rightarrow> int \<Rightarrow> frontier_entry list res" where
  "first_frontier c tables source relation_1 =
     (if uses_frontier_compaction c then
        bindr (traverse (owner_matches c source relation_1) (enumerate 0 tables)) (\<lambda>parts. Inr (concat parts))
      else
        Inr (map (\<lambda>(first_index, target, relation, handle, score, valid). (int first_index, target, handle, score))
          (filter (\<lambda>(first_index, edge). edge_matches relation_1 edge)
            (enumerate 0 (block_at tables source)))))"

definition expand_entry ::
  "public_config \<Rightarrow> edge_fields list list list \<Rightarrow> int \<Rightarrow> frontier_entry \<Rightarrow> candidate list" where
  "expand_entry c tables relation_2 = (\<lambda>(first_index, target, left_handle, first_score).
     map (\<lambda>(second_index, terminal, relation, right_handle, second_score, valid).
         Candidate (- (first_score + second_score)) (first_index * block_edges c + int second_index)
           left_handle right_handle terminal)
       (filter (\<lambda>(second_index, edge). edge_matches relation_2 edge)
         (enumerate 0 (block_at tables target))))"

definition reference_candidates ::
  "public_config \<Rightarrow> edge_fields list list list \<Rightarrow> int \<times> int \<times> int \<Rightarrow> candidate list res" where
  "reference_candidates c tables = (\<lambda>(source, relation_1, relation_2).
     bindr (first_frontier c tables source relation_1) (\<lambda>frontier.
       Inr (concat (map (expand_entry c tables relation_2) frontier))))"

definition evaluate_cleartext ::
  "public_config \<Rightarrow> (string \<times> jval list) list \<Rightarrow> jval \<Rightarrow> result_row list res" where
  "evaluate_cleartext c owner_edges query =
     (if fst ` set owner_edges \<noteq> set (owners c)
      then Inl (ValueError ''reference input must contain every configured owner exactly once'')
      else
      bindr (query_ids c query) (\<lambda>ids.
      bindr (traverse (\<lambda>owner. raw_owner_buckets c (get_or [] owner_edges owner)) (owners c)) (\<lambda>tables.
      bindr (reference_candidates c tables ids) (\<lambda>candidates.
        Inr (top_k_results (deduplicate_terminal_answers c) (top_k c) candidates)))))"

section \<open>The join specification\<close>

text \<open>A two-hop path as (total score, left handle, right handle, terminal).\<close>

type_synonym join_path = "int \<times> int \<times> int \<times> int"

definition join_pair :: "edge_row \<Rightarrow> edge_row \<Rightarrow> join_path" where
  "join_pair = (\<lambda>(s, r, t, ev, sc) (s', r', t', ev', sc'). (sc + sc', ev, ev', t'))"

definition hop_rows :: "edge_row list \<Rightarrow> int \<Rightarrow> int \<Rightarrow> edge_row list" where
  "hop_rows rows s r = filter (\<lambda>row. row_key row = (s, r)) rows"

definition row_target :: "edge_row \<Rightarrow> int" where
  "row_target = (\<lambda>(source, relation, target, evidence, score). target)"

definition join_paths :: "edge_row list \<Rightarrow> int \<times> int \<times> int \<Rightarrow> join_path list" where
  "join_paths rows = (\<lambda>(source, relation_1, relation_2).
     concat (map (\<lambda>p. map (join_pair p) (hop_rows rows (row_target p) relation_2))
       (hop_rows rows source relation_1)))"

definition path_of :: "candidate \<Rightarrow> join_path" where
  "path_of c = (- neg_score c, left_handle c, right_handle c, terminal c)"

section \<open>Buckets meet the layout\<close>

lemma checked_int_Inr:
  "checked_int v n z = Inr i \<longleftrightarrow> v = JInt i \<and> (if z then 1 else 0) \<le> i \<and> i < n"
  by (auto simp: checked_int_def strict_int_Some Let_def split: option.splits)

lemma raw_edge_row_iff: "raw_edge_row c e = Inr row \<longleftrightarrow> plain_edge c e = Inr row"
proof -
  obtain s r t ev sc where row: "row = (s, r, t, ev, sc)" by (metis prod.exhaust)
  show ?thesis
  proof (cases e)
    case (JDict d)
    show ?thesis
      unfolding row plain_edge_Inr
      by (auto simp: raw_edge_row_def JDict res_simps checked_int_Inr split: option.splits)
  qed (auto simp: raw_edge_row_def row plain_edge_Inr edge_ids_Inr)
qed

lemma raw_step_Inr:
  assumes "valid_config c" and "raw_edge_row c e = Inr row" and "int (length buckets) = entity_count c"
  shows "raw_step c e (buckets, counts) =
    (if 1 + int (get_or 0 counts (row_key row)) > relation_frontier_per_owner c then Inl relation_overflow
     else Inr (bucket_of row_fields row buckets, count_at (row_key row) counts))"
proof -
  obtain s r t ev sc where row: "row = (s, r, t, ev, sc)" by (metis prod.exhaust)
  note b = plain_edge_bounds [OF assms(1) assms(2) [unfolded raw_edge_row_iff]]
  have "append_at buckets s (t, r, ev, sc, 1) = Inr (bucket_of row_fields row buckets)"
    using b assms(3) by (simp add: append_at_in row row_source_def row_fields_def bucket_of_def Let_def)
  then show ?thesis using assms(2) by (simp add: raw_step_def row row_key_def Let_def)
qed

abbreviation owner_records :: "public_config \<Rightarrow> edge_row list \<Rightarrow> edge_fields list list" where
  "owner_records c rows \<equiv>
     map (slot_items (nat (fanout_per_owner c)) (0, 0, 0, 0, 0) row_fields rows) [0..<nat (entity_count c)]"

lemma raw_owner_buckets_iff:
  assumes "valid_config c"
  shows "raw_owner_buckets c edges = Inr table \<longleftrightarrow>
    (\<exists>rows. traverse (plain_edge c) edges = Inr rows \<and> sources_fit c rows \<and> relations_fit c rows \<and>
      table = owner_records c rows)"
proof -
  let ?n = "nat (entity_count c)"
  have n: "int (length (replicate ?n ([] :: edge_fields list))) = entity_count c"
    using entity_count_pos [of c] by simp
  have same: "traverse (raw_edge_row c) edges = Inr rows \<longleftrightarrow> traverse (plain_edge c) edges = Inr rows" for rows
    by (simp add: traverse_eq_Inr raw_edge_row_iff)
  have loop: "foldM (raw_step c) edges (replicate ?n [], []) = Inr (buckets, counts) \<longleftrightarrow>
      (\<exists>rows. traverse (plain_edge c) edges = Inr rows \<and> relations_fit c rows
        \<and> buckets = fold (bucket_of row_fields) rows (replicate ?n [])
        \<and> counts = fold (\<lambda>row. count_at (row_key row)) rows [])" for buckets counts
    by (subst bounded_loop [where dec = "raw_edge_row c", OF raw_step_Inr [OF assms] _ n])
      (auto simp: raw_step_def same relations_fit_def)
  have pad: "pad_buckets (fanout_per_owner c) (0, 0, 0, 0, 0) (fold (bucket_of row_fields) rows (replicate ?n [])) = Inr table
      \<longleftrightarrow> sources_fit c rows \<and> table = owner_records c rows"
    if "traverse (plain_edge c) edges = Inr rows" for rows table
    using traverse_set [OF that] plain_edge_bounds [OF assms] by (intro pad_layout_valid [OF assms]) blast
  show ?thesis
    unfolding raw_owner_buckets_def bindr_eq_Inr split_paired_Ex prod.case loop using pad by blast
qed

section \<open>The candidates are the join paths\<close>

lemma filter_slot_items:
  assumes "\<not> P zero"
  shows "filter P (slot_items fan zero item rows s) = filter P (map item (rows_at rows (int s)))"
  using assms by (simp add: slot_items_def Let_def filter_replicate)

definition rows_legal :: "public_config \<Rightarrow> edge_row list \<Rightarrow> bool" where
  "rows_legal c rows = list_all (\<lambda>row. 1 \<le> row_source row \<and> row_source row < entity_count c \<and>
     1 \<le> row_target row \<and> row_target row < entity_count c) rows"

lemma plain_rows_legal:
  assumes "valid_config c" and "traverse (plain_edge c) edges = Inr rows"
  shows "rows_legal c rows"
  unfolding rows_legal_def list_all_iff
proof
  fix row assume "row \<in> set rows"
  from traverse_set [OF assms(2) this] obtain e where e: "plain_edge c e = Inr row" by blast
  obtain s r t ev sc where row: "row = (s, r, t, ev, sc)" by (metis prod.exhaust)
  with e have "edge_ids c e = Inr (s, r, t)" by (simp add: plain_edge_Inr)
  from edge_ids_bounds(1-4) [OF assms(1) this]
  show "1 \<le> row_source row \<and> row_source row < entity_count c \<and> 1 \<le> row_target row \<and> row_target row < entity_count c"
    by (simp add: row row_source_def row_target_def)
qed

lemma filter_matches_records:
  assumes "rows_legal c rows" and "0 \<le> e" and "e < entity_count c"
  shows "filter (edge_matches r) (owner_records c rows ! nat e) = map row_fields (hop_rows rows e r)"
proof -
  have "filter (edge_matches r) (map row_fields (rows_at rows e)) = map row_fields (hop_rows rows e r)"
    using assms(1) unfolding rows_legal_def
    by (induction rows)
      (auto simp: rows_at_def hop_rows_def row_source_def row_key_def row_fields_def row_target_def edge_matches_def)
  then show ?thesis
    using assms(2,3) by (simp add: filter_slot_items edge_matches_def)
qed

lemma filter_matches_block:
  assumes "\<And>rows. rows \<in> set rowss \<Longrightarrow> rows_legal c rows" and "0 \<le> e" and "e < entity_count c"
  shows "filter (edge_matches r) (block_at (map (owner_records c) rowss) e) = map row_fields (hop_rows (concat rowss) e r)"
proof -
  have "filter (edge_matches r) (block_at (map (owner_records c) rowss) e) =
      concat (map (\<lambda>rows. filter (edge_matches r) (owner_records c rows ! nat e)) rowss)"
    by (simp add: block_at_def filter_concat comp_def)
  also have "map (\<lambda>rows. filter (edge_matches r) (owner_records c rows ! nat e)) rowss =
      map (\<lambda>rows. map row_fields (hop_rows rows e r)) rowss"
    using filter_matches_records assms by (intro map_cong) auto
  also have "concat \<dots> = map row_fields (hop_rows (concat rowss) e r)"
    by (simp add: hop_rows_def filter_concat map_concat comp_def)
  finally show ?thesis .
qed

lemma map_snd_filter_enumerate:
  "map snd (filter (\<lambda>(i, x). P x) (enumerate n xs)) = filter P xs"
  by (induction xs arbitrary: n) auto

lemma frontier_entries:
  assumes legal: "\<And>rows. rows \<in> set rowss \<Longrightarrow> rows_legal c rows \<and> relations_fit c rows"
    and s: "0 \<le> s" "s < entity_count c" and "valid_config c"
  shows "\<exists>frontier. first_frontier c (map (owner_records c) rowss) s r = Inr frontier \<and>
    map snd frontier = map (\<lambda>row. (row_target row, snd (snd (snd row)))) (hop_rows (concat rowss) s r)"
proof -
  let ?strip = "\<lambda>(t, r, ev, sc, v). (t, ev, sc) :: int \<times> int \<times> int" and ?tables = "map (owner_records c) rowss"
  let ?goal = "\<lambda>rows. map (\<lambda>row. (row_target row, snd (snd (snd row)))) (hop_rows rows s r)"
  have strip: "map ?strip (map row_fields rows) = map (\<lambda>row. (row_target row, snd (snd (snd row)))) rows"
    for rows :: "edge_row list"
    by (auto simp: row_fields_def row_target_def)
  have block: "filter (edge_matches r) (block_at ?tables s) = map row_fields (hop_rows (concat rowss) s r)"
    using legal s by (intro filter_matches_block) auto
  show ?thesis
  proof (cases "uses_frontier_compaction c")
    case False
    let ?sel = "filter (\<lambda>(i, edge). edge_matches r edge) (enumerate 0 (block_at ?tables s))"
    have "map snd (map (\<lambda>(i, t, r, ev, sc, v). (int i, t, ev, sc)) ?sel) = map ?strip (map snd ?sel)"
      by (simp add: comp_def case_prod_unfold)
    also have "\<dots> = ?goal (concat rowss)"
      unfolding map_snd_filter_enumerate block strip ..
    finally show ?thesis using False by (simp add: first_frontier_def)
  next
    case True
    define part where "part = (\<lambda>(i :: nat, table). map (\<lambda>(l, t, r, ev, sc, v).
        (int i * relation_frontier_per_owner c + int l, t, ev, sc :: int)) (enumerate 0 (filter (edge_matches r) (table ! nat s))))"
    have short: "int (length (filter (edge_matches r) (owner_records c rows ! nat s))) \<le> relation_frontier_per_owner c"
      if "rows \<in> set rowss" for rows
    proof (cases "hop_rows rows s r")
      case Nil
      then show ?thesis
        using filter_matches_records [of c rows s r] legal [OF that] s frontier_bounds(1) [OF assms(4)] by simp
    next
      case (Cons row tail)
      then have "row \<in> set (hop_rows rows s r)" by simp
      then have "row \<in> set rows" "row_key row = (s, r)" by (auto simp: hop_rows_def)
      then show ?thesis
        using filter_matches_records [of c rows s r] legal [OF that] s
        by (auto simp: relations_fit_def list_all_iff rows_with_def hop_rows_def)
    qed
    have "owner_matches c s r x = Inr (part x)" if "x \<in> set (enumerate 0 ?tables)" for x
    proof -
      from that obtain i where "i < length rowss" "x = (i, owner_records c (rowss ! i))"
        by (auto simp: in_set_enumerate_eq)
      with short [of "rowss ! i"] show ?thesis by (simp add: owner_matches_def part_def Let_def)
    qed
    then have "traverse (owner_matches c s r) (enumerate 0 ?tables) = Inr (map part (enumerate 0 ?tables))"
      by (rule traverse_Inr)
    then have "first_frontier c ?tables s r = Inr (concat (map part (enumerate 0 ?tables)))"
      using True by (simp add: first_frontier_def)
    moreover have "map snd (concat (map part (enumerate n ?tables))) = ?goal (concat rowss)" for n
      using legal
    proof (induction rowss arbitrary: n)
      case (Cons rows rowss)
      have "map snd (part (n, owner_records c rows)) =
          map ?strip (map snd (enumerate 0 (filter (edge_matches r) (owner_records c rows ! nat s))))"
        by (simp add: part_def comp_def case_prod_unfold del: map_snd_enumerate)
      also have "\<dots> = ?goal rows"
        unfolding map_snd_enumerate
        using filter_matches_records [of c rows s r] Cons.prems s strip [of "hop_rows rows s r"] by simp
      finally show ?case using Cons by (simp add: hop_rows_def)
    qed (simp add: hop_rows_def)
    ultimately show ?thesis by blast
  qed
qed

lemma expand_paths:
  assumes "\<And>rows. rows \<in> set rowss \<Longrightarrow> rows_legal c rows" and "0 \<le> t" and "t < entity_count c"
  shows "map path_of (expand_entry c (map (owner_records c) rowss) r (i, t, ev, sc)) =
    map (\<lambda>(s', r', t', ev', sc'). (sc + sc', ev, ev', t')) (hop_rows (concat rowss) t r)"
proof -
  let ?sel = "filter (\<lambda>(i, edge). edge_matches r edge) (enumerate 0 (block_at (map (owner_records c) rowss) t))"
  have "map path_of (expand_entry c (map (owner_records c) rowss) r (i, t, ev, sc)) =
      map (\<lambda>(t', r', ev', sc', v). (sc + sc', ev, ev', t')) (map snd ?sel)"
    by (simp add: expand_entry_def path_of_def comp_def case_prod_unfold)
  also have "\<dots> = map (\<lambda>(t', r', ev', sc', v). (sc + sc', ev, ev', t')) (map row_fields (hop_rows (concat rowss) t r))"
    unfolding map_snd_filter_enumerate using assms by (subst filter_matches_block) auto
  also have "\<dots> = map (\<lambda>(s', r', t', ev', sc'). (sc + sc', ev, ev', t')) (hop_rows (concat rowss) t r)"
    by (auto simp: row_fields_def)
  finally show ?thesis .
qed

lemma reference_candidates_paths:
  assumes legal: "\<And>rows. rows \<in> set rowss \<Longrightarrow> rows_legal c rows \<and> relations_fit c rows"
    and s: "0 \<le> s" "s < entity_count c" and "valid_config c"
  shows "\<exists>cands. reference_candidates c (map (owner_records c) rowss) (s, r1, r2) = Inr cands \<and>
    map path_of cands = join_paths (concat rowss) (s, r1, r2)"
proof -
  let ?tables = "map (owner_records c) rowss"
  obtain frontier where f: "first_frontier c ?tables s r1 = Inr frontier"
      "map snd frontier = map (\<lambda>row. (row_target row, snd (snd (snd row)))) (hop_rows (concat rowss) s r1)"
    using frontier_entries [OF legal s assms(4)] by blast
  have one: "map path_of (expand_entry c ?tables r2 entry) = map (join_pair row) (hop_rows (concat rowss) (row_target row) r2)"
    if "snd entry = (row_target row, snd (snd (snd row)))" "row \<in> set (concat rowss)" for entry row
  proof -
    define i where "i = fst entry"
    have entry: "entry = (i, row_target row, snd (snd (snd row)))"
      using that(1) by (simp add: i_def prod_eq_iff)
    obtain s' r' t ev sc where row: "row = (s', r', t, ev, sc)" by (metis prod.exhaust)
    from that(2) obtain rows where rows: "rows \<in> set rowss" "row \<in> set rows" by auto
    with legal [OF rows(1)] have "1 \<le> row_target row" "row_target row < entity_count c"
      by (auto simp: rows_legal_def list_all_iff)
    then have "1 \<le> t" "t < entity_count c" by (simp_all add: row row_target_def)
    then show ?thesis
      using expand_paths [of rowss c t r2 i ev sc] legal
      by (simp add: entry row row_target_def join_pair_def)
  qed
  have "map path_of (concat (map (expand_entry c ?tables r2) entries)) =
      concat (map (\<lambda>row. map (join_pair row) (hop_rows (concat rowss) (row_target row) r2)) rows)"
    if "map snd entries = map (\<lambda>row. (row_target row, snd (snd (snd row)))) rows" "set rows \<subseteq> set (concat rowss)"
    for entries rows
    using that
  proof (induction rows arbitrary: entries)
    case (Cons row rows)
    then obtain e es where "entries = e # es" by (cases entries) auto
    with Cons one [of e row] show ?case by simp
  qed simp
  from this [OF f(2)] have "map path_of (concat (map (expand_entry c ?tables r2) frontier)) =
      join_paths (concat rowss) (s, r1, r2)"
    by (auto simp: join_paths_def hop_rows_def)
  with f(1) show ?thesis by (simp add: reference_candidates_def)
qed

section \<open>The oracle\<close>

lemma query_ids_source:
  assumes "valid_config c" and "query_ids c q = Inr (s, r1, r2)"
  shows "1 \<le> s" and "s < entity_count c"
proof -
  from assms(2) obtain sn where "map_of (entities c) sn = Some s"
    by (auto simp: query_ids_def res_simps vocab_get_eq_Inr jitem_eq_Inr split: jval.splits if_splits)
  from entity_slot_bounds [OF assms(1) this] show "1 \<le> s" "s < entity_count c" .
qed

lemma evaluate_cleartext_run:
  assumes "valid_config c" and "fst ` set owner_edges = set (owners c)"
    and "query_ids c query = Inr ids"
    and "\<And>owner. owner \<in> set (owners c) \<Longrightarrow>
      traverse (plain_edge c) (get_or [] owner_edges owner) = Inr (rows owner) \<and>
      sources_fit c (rows owner) \<and> relations_fit c (rows owner)"
  shows "\<exists>candidates.
      evaluate_cleartext c owner_edges query =
        Inr (top_k_results (deduplicate_terminal_answers c) (top_k c) candidates) \<and>
      map path_of candidates = join_paths (concat (map rows (owners c))) ids"
proof -
  obtain s r1 r2 where ids: "ids = (s, r1, r2)" by (metis prod.exhaust)
  have s: "0 \<le> s" "s < entity_count c"
    using query_ids_source [OF assms(1) assms(3) [unfolded ids]] by simp_all
  have legal: "rs \<in> set (map rows (owners c)) \<Longrightarrow> rows_legal c rs \<and> relations_fit c rs" for rs
    using assms(4) plain_rows_legal [OF assms(1)] by auto
  have "raw_owner_buckets c (get_or [] owner_edges owner) = Inr (owner_records c (rows owner))"
    if "owner \<in> set (owners c)" for owner
    using assms(4) [OF that] by (auto simp: raw_owner_buckets_iff [OF assms(1)])
  then have tables: "traverse (\<lambda>owner. raw_owner_buckets c (get_or [] owner_edges owner)) (owners c) =
      Inr (map (owner_records c) (map rows (owners c)))"
    unfolding map_map comp_def by (rule traverse_Inr)
  obtain cands where "reference_candidates c (map (owner_records c) (map rows (owners c))) ids = Inr cands"
      "map path_of cands = join_paths (concat (map rows (owners c))) ids"
    using reference_candidates_paths [OF legal s assms(1)] unfolding ids by blast
  then show ?thesis
    using assms(2,3) tables by (auto simp: evaluate_cleartext_def)
qed

section \<open>Properties\<close>

text \<open>
  C12: The reference oracle computes the join.  When the query resolves and every owner's file
  validates within the declared capacities, \<open>evaluate_cleartext\<close> returns, with or without
  frontier compaction and never through its internal assertion, the ranking of a candidate list
  whose (score, evidence, evidence, terminal) tuples are exactly the two-hop join paths of the
  concatenated owner edges, none lost and none invented.
\<close>

theorem evaluate_cleartext_join:
  assumes "valid_config c" and "fst ` set owner_edges = set (owners c)"
    and "query_ids c query = Inr ids"
    and "\<And>owner. owner \<in> set (owners c) \<Longrightarrow>
      traverse (plain_edge c) (get_or [] owner_edges owner) = Inr (rows owner) \<and>
      sources_fit c (rows owner) \<and> relations_fit c (rows owner)"
  shows "\<exists>candidates.
      evaluate_cleartext c owner_edges query =
        Inr (top_k_results (deduplicate_terminal_answers c) (top_k c) candidates) \<and>
      map path_of candidates = join_paths (concat (map rows (owners c))) ids"
  by (rule evaluate_cleartext_run [OF assms])

theorem evaluate_cleartext_join_witness:
  "evaluate_cleartext sample_config [(''alice'', sample_edges), (''bob'', [])] sample_query =
     Inr [\<lparr>valid = 1, left_evidence = 9, right_evidence = 7, score = 5\<rparr>,
          \<lparr>valid = 0, left_evidence = 0, right_evidence = 0, score = 0\<rparr>]"
proof -
  let ?rows = "\<lambda>owner :: string. if owner = ''alice'' then sample_rows else []"
  have plain: "traverse (plain_edge sample_config) sample_edges = Inr sample_rows"
    using sample_traverse traverse_validated_plain [OF sample_valid sample_packable] by blast
  have inputs: "traverse (plain_edge sample_config) (get_or [] [(''alice'', sample_edges), (''bob'', [])] owner)
        = Inr (?rows owner) \<and> sources_fit sample_config (?rows owner) \<and> relations_fit sample_config (?rows owner)"
    if "owner \<in> set (owners sample_config)" for owner
    using that plain sample_fit by (auto simp: get_or_def sources_fit_def relations_fit_def)
  have "\<exists>cands. evaluate_cleartext sample_config [(''alice'', sample_edges), (''bob'', [])] sample_query =
      Inr (top_k_results (deduplicate_terminal_answers sample_config) (top_k sample_config) cands) \<and>
      map path_of cands = join_paths (concat (map ?rows (owners sample_config))) (1, 1, 2)"
    by (rule evaluate_cleartext_join [OF sample_valid _ sample_query_ids inputs]) auto
  then obtain cands where
    run: "evaluate_cleartext sample_config [(''alice'', sample_edges), (''bob'', [])] sample_query =
      Inr (top_k_results False 2 cands)"
    and paths: "map path_of cands = join_paths (concat (map ?rows [''alice'', ''bob''])) (1, 1, 2)"
    unfolding sample_fields by blast
  have "join_paths (concat (map ?rows [''alice'', ''bob''])) (1, 1, 2) = [(5, 9, 7, 3)]"
    by (simp add: join_paths_def sample_rows_def hop_rows_def row_key_def row_target_def join_pair_def)
  with paths obtain cand where cand: "cands = [cand]" "path_of cand = (5, 9, 7, 3)"
    by auto
  then have "neg_score cand = -5" "left_handle cand = 9" "right_handle cand = 7"
    by (auto simp: path_of_def)
  with run cand(1) show ?thesis
    by (simp add: top_k_results_def select_top_def result_rows_def result_of_def empty_result_def Let_def
        numeral_2_eq_2)
qed

end
