(* ===== verification/Mpc_Machine.thy ===== *)
theory Mpc_Machine
  imports Bit_Packing
begin

text \<open>
  The secret arithmetic the generated circuits call (\<open>sint\<close>, \<open>if_else\<close>, \<open>bit_decompose\<close>,
  \<open>bit_compose\<close> and \<open>demux_matrix\<close> of the MP-SPDZ compiler, which is not part of the repository).
  The operations are a record that the circuits take as an argument; what the circuits rely on
  is the locale \<open>mpc_machine\<close>: field arithmetic modulo the prime, bits of values of a known
  width, and comparisons of values below the compiled integer width.  \<open>plain_ops\<close>, arithmetic
  in the clear, satisfies it.
\<close>

section \<open>The operations\<close>

record mpc_ops =
  m_add :: "int \<Rightarrow> int \<Rightarrow> int"
  m_sub :: "int \<Rightarrow> int \<Rightarrow> int"
  m_mul :: "int \<Rightarrow> int \<Rightarrow> int"
  m_eq :: "int \<Rightarrow> int \<Rightarrow> int"
  m_less :: "int \<Rightarrow> int \<Rightarrow> int"
  m_if :: "int \<Rightarrow> int \<Rightarrow> int \<Rightarrow> int"
  m_bits :: "nat \<Rightarrow> int \<Rightarrow> int list"
  m_compose :: "int list \<Rightarrow> int"
  m_demux :: "int list \<Rightarrow> int list"

definition m_neq :: "mpc_ops \<Rightarrow> int \<Rightarrow> int \<Rightarrow> int" where
  "m_neq ops x y = m_sub ops 1 (m_eq ops x y)"

definition m_not :: "mpc_ops \<Rightarrow> int \<Rightarrow> int" where
  "m_not ops b = m_sub ops 1 b"

abbreviation flag :: "bool \<Rightarrow> int" where
  "flag b \<equiv> of_bool b"

definition bits_of :: "nat \<Rightarrow> int \<Rightarrow> int list" where
  "bits_of n x = map (\<lambda>i. of_bool (bit x i)) [0..<n]"

fun bits_value :: "int list \<Rightarrow> int" where
  "bits_value [] = 0"
| "bits_value (b # bs) = b + 2 * bits_value bs"

definition in_prime :: "int \<Rightarrow> int \<Rightarrow> bool" where
  "in_prime p x \<longleftrightarrow> 0 \<le> x \<and> x < p"

section \<open>What the circuits rely on\<close>

locale mpc_machine =
  fixes ops :: mpc_ops and p :: int and w :: nat
  assumes prime: "2 ^ w \<le> p" and wide: "1 \<le> w"
    and add: "in_prime p x \<Longrightarrow> in_prime p y \<Longrightarrow> m_add ops x y = (x + y) mod p"
    and sub: "in_prime p x \<Longrightarrow> in_prime p y \<Longrightarrow> m_sub ops x y = (x - y) mod p"
    and mul: "in_prime p x \<Longrightarrow> in_prime p y \<Longrightarrow> m_mul ops x y = (x * y) mod p"
    and eq: "in_prime p x \<Longrightarrow> in_prime p y \<Longrightarrow> m_eq ops x y = flag (x = y)"
    and less: "in_prime (2 ^ w) x \<Longrightarrow> in_prime (2 ^ w) y \<Longrightarrow> m_less ops x y = flag (x < y)"
    and select: "in_prime p x \<Longrightarrow> in_prime p y \<Longrightarrow> m_if ops (flag b) x y = (if b then x else y)"
    and bits: "in_prime (2 ^ n) x \<Longrightarrow> n \<le> w \<Longrightarrow> m_bits ops n x = bits_of n x"
    and compose: "set bs \<subseteq> {0, 1} \<Longrightarrow> length bs \<le> w \<Longrightarrow> m_compose ops bs = bits_value bs"
    and demux: "set bs \<subseteq> {0, 1} \<Longrightarrow> m_demux ops bs = map (\<lambda>i. flag (int i = bits_value bs)) [0..<2 ^ length bs]"
begin

lemma small: "in_prime (2 ^ w) x \<Longrightarrow> in_prime p x"
  using prime by (simp add: in_prime_def)

lemma p_gt_1: "1 < p"
proof -
  have "(2 :: int) ^ 1 \<le> 2 ^ w" using wide by (rule power_increasing) simp
  with prime show ?thesis by simp
qed

lemma flag_in [simp]: "in_prime p (flag b)" "in_prime p 0" "in_prime p 1"
  using p_gt_1 by (auto simp: in_prime_def)

lemma in_prime_mod: "in_prime p x \<Longrightarrow> x mod p = x"
  by (simp add: in_prime_def)

lemma mul_flag [simp]: "in_prime p x \<Longrightarrow> m_mul ops (flag b) x = (if b then x else 0)"
  by (subst mul [OF flag_in(1)]) (cases b, simp_all add: in_prime_mod)

lemma mul_flags: "m_mul ops (flag a) (flag b) = flag (a \<and> b)"
  by (subst mul_flag [OF flag_in(1)]) simp

lemma not_flag [simp]: "m_not ops (flag b) = flag (\<not> b)"
  using p_gt_1 by (cases b) (simp_all add: m_not_def sub)

lemma select_bit [simp]:
  "in_prime p x \<Longrightarrow> in_prime p y \<Longrightarrow> m_if ops 1 x y = x" "in_prime p x \<Longrightarrow> in_prime p y \<Longrightarrow> m_if ops 0 x y = y"
  using select [of x y True] select [of x y False] by simp_all

lemma mul_bit [simp]: "in_prime p x \<Longrightarrow> m_mul ops 1 x = x" "in_prime p x \<Longrightarrow> m_mul ops 0 x = 0"
  using mul_flag [of x True] mul_flag [of x False] by simp_all

lemma not_bit [simp]: "m_not ops 1 = 0" "m_not ops 0 = 1"
  using not_flag [of True] not_flag [of False] by simp_all

lemma neq_flag [simp]: "in_prime p x \<Longrightarrow> in_prime p y \<Longrightarrow> m_neq ops x y = flag (x \<noteq> y)"
  using not_flag [of "x = y"] by (simp add: m_neq_def m_not_def eq)

lemma add_small: "in_prime p x \<Longrightarrow> in_prime p y \<Longrightarrow> x + y < p \<Longrightarrow> m_add ops x y = x + y"
  by (simp add: add in_prime_def)

lemma add_zero [simp]: "in_prime p x \<Longrightarrow> m_add ops x 0 = x" "in_prime p x \<Longrightarrow> m_add ops 0 x = x"
  by (simp_all add: add in_prime_def)

lemma add_flags: "\<not> (a \<and> b) \<Longrightarrow> m_add ops (flag a) (flag b) = flag (a \<or> b)"
  using p_gt_1 by (cases a; cases b) (simp_all add: add_small)

lemma add_in [simp]: "in_prime p x \<Longrightarrow> in_prime p y \<Longrightarrow> in_prime p (m_add ops x y)"
  using p_gt_1 by (simp add: add in_prime_def)

text \<open>A sum with at most one term that is not zero.\<close>

lemma sum_single:
  assumes "\<And>x. x \<in> set xs \<Longrightarrow> in_prime p (f x)" and "in_prime p z"
    and "\<And>x. x \<in> set xs \<Longrightarrow> x \<noteq> k \<Longrightarrow> f x = 0" and "distinct xs"
  shows "fold (\<lambda>x acc. m_add ops acc (f x)) xs z = (if k \<in> set xs then m_add ops z (f k) else z)"
  using assms
proof (induction xs arbitrary: z)
  case (Cons x xs)
  show ?case
  proof (cases "x = k")
    case True
    with Cons.prems have "k \<notin> set xs" "in_prime p (m_add ops z (f k))" by auto
    with Cons.IH [of "m_add ops z (f k)"] Cons.prems True show ?thesis by auto
  next
    case False
    with Cons.prems have "m_add ops z (f x) = z" by simp
    with Cons.IH [of z] Cons.prems False show ?thesis by auto
  qed
qed simp

end

section \<open>Bits and their values\<close>

lemma length_bits_of [simp]: "length (bits_of n x) = n"
  by (simp add: bits_of_def)

lemma set_bits_of: "set (bits_of n x) \<subseteq> {0, 1}"
  by (auto simp: bits_of_def)

lemma bits_value_bits_of: "bits_value (bits_of n x) = take_bit n x"
proof (induction n arbitrary: x)
  case (Suc n)
  have "bits_of (Suc n) x = of_bool (odd x) # bits_of n (x div 2)"
    unfolding bits_of_def upt_conv_Cons [OF zero_less_Suc] map_Suc_upt [symmetric] list.map map_map
    by (simp add: bit_0 bit_Suc comp_def)
  with Suc show ?case by (simp add: take_bit_Suc mod_2_eq_odd)
qed (simp add: bits_of_def)

lemma take_bits_of: "take m (bits_of n x) = bits_of (min m n) x"
  by (simp add: bits_of_def take_map min_def)

lemma drop_bits_of: "drop m (bits_of n x) = bits_of (n - m) (drop_bit m x)"
  by (rule nth_equalityI) (simp_all add: bits_of_def bit_drop_bit_eq)

text \<open>The fields of a packed word, read off its bits.\<close>

fun split_bits :: "(int list \<Rightarrow> int) \<Rightarrow> nat list \<Rightarrow> int list \<Rightarrow> int list" where
  "split_bits compose [] bs = []"
| "split_bits compose (n # ns) bs = compose (take n bs) # split_bits compose ns (drop n bs)"

lemma split_bits_of:
  "sum_list ns \<le> n \<Longrightarrow> split_bits bits_value ns (bits_of n x) = unpack_fields ns x"
proof (induction ns arbitrary: n x)
  case (Cons k ns)
  then have "sum_list ns \<le> n - k" "min k n = k" by auto
  with Cons.IH [of "n - k" "drop_bit k x"] show ?case
    by (simp add: take_bits_of drop_bits_of bits_value_bits_of and_mask_take [symmetric])
qed simp

section \<open>Arithmetic in the clear\<close>

definition plain_ops :: "int \<Rightarrow> mpc_ops" where
  "plain_ops p = \<lparr>m_add = (\<lambda>x y. (x + y) mod p), m_sub = (\<lambda>x y. (x - y) mod p), m_mul = (\<lambda>x y. (x * y) mod p),
     m_eq = (\<lambda>x y. of_bool (x = y)), m_less = (\<lambda>x y. of_bool (x < y)),
     m_if = (\<lambda>b x y. (y + b * (x - y)) mod p), m_bits = bits_of, m_compose = bits_value,
     m_demux = (\<lambda>bs. map (\<lambda>i. of_bool (int i = bits_value bs)) [0..<2 ^ length bs])\<rparr>"

lemma plain_machine: "2 ^ w \<le> p \<Longrightarrow> 1 \<le> w \<Longrightarrow> mpc_machine (plain_ops p) p w"
  by unfold_locales (auto simp: plain_ops_def in_prime_def)

interpretation clear: mpc_machine "plain_ops (2 ^ Suc w)" "2 ^ Suc w" "Suc w" for w
  by (rule plain_machine) simp_all

end
