(* ===== verification/Rank_Circuit.thy ===== *)
theory Rank_Circuit
  imports Mpc_Machine Top_K
begin

text \<open>
  The ranking block of the generated circuits (\<open>scan_program.py\<close>; \<open>page_program.py\<close> and the ORAM
  renderers repeat it): \<open>TOP_K\<close> forward scans for the best candidate that is not selected yet,
  each followed by the suppression of the winner or of every candidate with its terminal.  No
  candidate is moved and no index is opened; the selection is a vector of secret flags.  On
  well-formed cells the block computes the ranking of the cleartext oracles.
\<close>

section \<open>The block\<close>

record rank_cell =
  cell_valid :: int
  cell_score :: int
  cell_left :: int
  cell_right :: int
  cell_terminal :: int

record best_state =
  best_valid :: int
  best_score :: int
  best_left :: int
  best_right :: int
  best_terminal :: int

definition no_best :: best_state where
  "no_best = \<lparr>best_valid = 0, best_score = 0, best_left = 0, best_right = 0, best_terminal = 0\<rparr>"

text \<open>One candidate: the new incumbent, and the flag \<open>better\<close>.\<close>

definition best_step :: "mpc_ops \<Rightarrow> bool \<Rightarrow> rank_cell \<times> int \<Rightarrow> best_state \<Rightarrow> best_state \<times> int" where
  "best_step ops dedup = (\<lambda>(cell, selected) b.
     let available = m_mul ops (cell_valid cell) (m_not ops selected);
         better = m_mul ops available
           (m_add ops (m_not ops (best_valid b))
             (m_mul ops (best_valid b) (m_less ops (best_score b) (cell_score cell))))
     in (\<lparr>best_valid = m_if ops better available (best_valid b),
          best_score = m_if ops better (cell_score cell) (best_score b),
          best_left = m_if ops better (cell_left cell) (best_left b),
          best_right = m_if ops better (cell_right cell) (best_right b),
          best_terminal = (if dedup then m_if ops better (cell_terminal cell) (best_terminal b) else best_terminal b)\<rparr>,
        better))"

fun best_scan :: "mpc_ops \<Rightarrow> bool \<Rightarrow> (rank_cell \<times> int) list \<Rightarrow> best_state \<Rightarrow> best_state \<times> int list" where
  "best_scan ops dedup [] b = (b, [])"
| "best_scan ops dedup (x # xs) b =
     (let (b', better) = best_step ops dedup x b;
          (b'', became_best) = best_scan ops dedup xs b'
      in (b'', better # became_best))"

definition suppress_terminal :: "mpc_ops \<Rightarrow> best_state \<Rightarrow> rank_cell list \<Rightarrow> int list \<Rightarrow> int list" where
  "suppress_terminal ops b cells selected =
     map (\<lambda>(cell, s). m_add ops s (m_mul ops (best_valid b) (m_eq ops (cell_terminal cell) (best_terminal b))))
       (zip cells selected)"

text \<open>The reverse pass over \<open>became_best\<close>: the last set bit is the winner.\<close>

fun winner_scan :: "mpc_ops \<Rightarrow> (int \<times> int) list \<Rightarrow> int \<Rightarrow> int list" where
  "winner_scan ops [] later_winner = []"
| "winner_scan ops ((became_best, selected) # rest) later_winner =
     (let winner = m_mul ops became_best (m_not ops later_winner)
      in m_add ops selected winner # winner_scan ops rest (m_add ops later_winner winner))"

definition suppress_winner :: "mpc_ops \<Rightarrow> int list \<Rightarrow> int list \<Rightarrow> int list" where
  "suppress_winner ops became_best selected = rev (winner_scan ops (rev (zip became_best selected)) 0)"

definition rank_round :: "mpc_ops \<Rightarrow> bool \<Rightarrow> rank_cell list \<Rightarrow> int list \<Rightarrow> result_row \<times> int list" where
  "rank_round ops dedup cells selected =
     (let (b, became_best) = best_scan ops dedup (zip cells selected) no_best
      in (\<lparr>valid = best_valid b,
           left_evidence = m_mul ops (best_valid b) (best_left b),
           right_evidence = m_mul ops (best_valid b) (best_right b),
           score = m_mul ops (best_valid b) (best_score b)\<rparr>,
          if dedup then suppress_terminal ops b cells selected
          else suppress_winner ops became_best selected))"

fun rank_rounds :: "mpc_ops \<Rightarrow> bool \<Rightarrow> rank_cell list \<Rightarrow> nat \<Rightarrow> int list \<Rightarrow> result_row list" where
  "rank_rounds ops dedup cells 0 selected = []"
| "rank_rounds ops dedup cells (Suc k) selected =
     (let (row, selected') = rank_round ops dedup cells selected
      in row # rank_rounds ops dedup cells k selected')"

definition rank_block :: "mpc_ops \<Rightarrow> bool \<Rightarrow> nat \<Rightarrow> rank_cell list \<Rightarrow> result_row list" where
  "rank_block ops dedup k cells = rank_rounds ops dedup cells k (replicate (length cells) 0)"

section \<open>The candidates that are still available\<close>

definition cell_candidate :: "nat \<Rightarrow> rank_cell \<Rightarrow> candidate" where
  "cell_candidate i cell =
     Candidate (- cell_score cell) (int i) (cell_left cell) (cell_right cell) (cell_terminal cell)"

fun live :: "nat \<Rightarrow> (rank_cell \<times> bool) list \<Rightarrow> candidate list" where
  "live n [] = []"
| "live n ((cell, marked) # xs) =
     (if cell_valid cell = 1 \<and> \<not> marked then cell_candidate n cell # live (Suc n) xs else live (Suc n) xs)"

definition cell_ok :: "int \<Rightarrow> nat \<Rightarrow> rank_cell \<Rightarrow> bool" where
  "cell_ok p w cell \<longleftrightarrow> cell_valid cell \<in> {0, 1} \<and> in_prime (2 ^ w) (cell_score cell) \<and>
     in_prime p (cell_left cell) \<and> in_prime p (cell_right cell) \<and> in_prime p (cell_terminal cell)"

text \<open>The forward scan as a choice among candidates.\<close>

fun incumbent :: "candidate option \<Rightarrow> candidate list \<Rightarrow> candidate option" where
  "incumbent best [] = best"
| "incumbent best (c # cs) =
     incumbent (case best of None \<Rightarrow> Some c | Some b \<Rightarrow> if neg_score c < neg_score b then Some c else Some b) cs"

definition best_of :: "bool \<Rightarrow> candidate option \<Rightarrow> best_state" where
  "best_of dedup best = (case best of None \<Rightarrow> no_best
     | Some c \<Rightarrow> \<lparr>best_valid = 1, best_score = - neg_score c, best_left = left_handle c,
                   best_right = right_handle c, best_terminal = (if dedup then terminal c else 0)\<rparr>)"

fun winners :: "bool list \<Rightarrow> bool list" where
  "winners [] = []"
| "winners (b # bs) = (b \<and> True \<notin> set bs) # winners bs"

lemma live_slot_ge: "c \<in> set (live n xs) \<Longrightarrow> int n \<le> slot_index c"
  by (induction n xs rule: live.induct) (auto simp: cell_candidate_def split: if_splits)

lemma live_slot_less: "c \<in> set (live n xs) \<Longrightarrow> \<exists>i < length xs. slot_index c = int (n + i)"
proof (induction n xs rule: live.induct)
  case (2 n cell marked xs)
  have "\<exists>i < length ((cell, marked) # xs). slot_index c = int (n + i)" if "\<exists>i < length xs. slot_index c = int (Suc n + i)"
    using that by (metis Suc_less_eq add_Suc_shift length_Cons)
  with 2 show ?case by (auto simp: cell_candidate_def split: if_splits)
qed simp

lemma live_sorted: "sorted_wrt (<) (map slot_index (live n xs))"
proof (induction n xs rule: live.induct)
  case (2 n cell marked xs)
  then have "sorted_wrt (<) (map slot_index (live (Suc n) xs))" by blast
  moreover have "\<forall>c \<in> set (live (Suc n) xs). int n < slot_index c" using live_slot_ge [of _ "Suc n" xs] by fastforce
  ultimately show ?case by (simp add: cell_candidate_def)
qed simp

lemma live_member:
  "c \<in> set (live n xs) \<Longrightarrow> \<exists>cell. (cell, False) \<in> set xs \<and> cell_valid cell = 1 \<and>
     neg_score c = - cell_score cell \<and> left_handle c = cell_left cell \<and> right_handle c = cell_right cell \<and>
     terminal c = cell_terminal cell"
  by (induction n xs rule: live.induct) (auto simp: cell_candidate_def split: if_splits)

lemma incumbent_cases: "incumbent best cs = best \<or> (\<exists>c \<in> set cs. incumbent best cs = Some c)"
proof (induction best cs rule: incumbent.induct)
  case (2 best c cs)
  then show ?case by (auto split: option.splits if_splits)
qed simp

lemma incumbent_le:
  assumes "sorted_wrt (<) (map slot_index cs)" and "\<And>b. best = Some b \<Longrightarrow> \<forall>c \<in> set cs. slot_index b < slot_index c"
    and "incumbent best cs = Some m"
  shows "(\<forall>c \<in> set cs. m \<le> c) \<and> (\<forall>b. best = Some b \<longrightarrow> m \<le> b)"
  using assms
proof (induction best cs rule: incumbent.induct)
  case (2 best c cs)
  let ?next = "case best of None \<Rightarrow> Some c | Some b \<Rightarrow> if neg_score c < neg_score b then Some c else Some b"
  have after: "\<forall>d \<in> set cs. slot_index c < slot_index d" "sorted_wrt (<) (map slot_index cs)"
    using "2.prems"(1) by auto
  have "\<And>b. ?next = Some b \<Longrightarrow> \<forall>d \<in> set cs. slot_index b < slot_index d"
    using after(1) "2.prems"(2) by (auto split: option.splits if_splits)
  with 2 after have IH: "\<forall>d \<in> set cs. m \<le> d" "\<And>b. ?next = Some b \<Longrightarrow> m \<le> b" by simp_all
  have "?next = Some x \<Longrightarrow> x \<le> c \<and> (\<forall>b. best = Some b \<longrightarrow> x \<le> b)" for x
    using "2.prems"(2) by (auto simp: less_eq_candidate_def candidate_key_def split: option.splits if_splits)
  moreover have "?next \<noteq> None" by (auto split: option.split)
  then obtain x where x: "?next = Some x" by blast
  ultimately have "x \<le> c" "\<And>b. best = Some b \<Longrightarrow> x \<le> b" "m \<le> x" using IH(2) [OF x] by blast+
  then have "m \<le> c \<and> (\<forall>b. best = Some b \<longrightarrow> m \<le> b)" using order_trans by blast
  with IH(1) show ?case by simp
qed simp

lemma incumbent_None: "incumbent None cs = None \<longleftrightarrow> cs = []"
proof -
  have "incumbent (Some b) xs \<noteq> None" for b xs
    by (induction xs arbitrary: b) auto
  then show ?thesis by (cases cs) auto
qed

section \<open>The scan computes the choice\<close>

context mpc_machine
begin

lemma best_step_spec:
  assumes "cell_ok p w cell" and "\<And>c. best = Some c \<Longrightarrow> in_prime (2 ^ w) (- neg_score c) \<and>
      in_prime p (left_handle c) \<and> in_prime p (right_handle c) \<and> in_prime p (terminal c)"
  shows "best_step ops dedup (cell, flag marked) (best_of dedup best) =
    (let cand = cell_candidate n cell;
         take = cell_valid cell = 1 \<and> \<not> marked \<and> (case best of None \<Rightarrow> True | Some b \<Rightarrow> neg_score cand < neg_score b)
     in (best_of dedup (if take then Some cand else best), flag take))"
proof -
  obtain v where v: "cell_valid cell = flag v" using assms(1) by (auto simp: cell_ok_def intro: that [of True] that [of False])
  have zero: "in_prime (2 ^ w) 0" by (simp add: in_prime_def)
  have cell: "in_prime (2 ^ w) (cell_score cell)" "in_prime p (cell_score cell)" "in_prime p (cell_left cell)"
      "in_prime p (cell_right cell)" "in_prime p (cell_terminal cell)"
    using assms(1) small by (auto simp: cell_ok_def)
  have avail: "m_mul ops (cell_valid cell) (m_not ops (flag marked)) = flag (v \<and> \<not> marked)"
    unfolding v not_flag mul_flags ..
  let ?c = "cell_candidate n cell"
  let ?less = "case best of None \<Rightarrow> True | Some b \<Rightarrow> neg_score ?c < neg_score b"
  have sc: "in_prime (2 ^ w) (best_score (best_of dedup best))"
    using assms(2) zero by (auto simp: best_of_def no_best_def split: option.splits)
  have regs: "in_prime p (best_valid (best_of dedup best))" "in_prime p (best_score (best_of dedup best))"
      "in_prime p (best_left (best_of dedup best))" "in_prime p (best_right (best_of dedup best))"
      "in_prime p (best_terminal (best_of dedup best))"
    using assms(2) small by (auto simp: best_of_def no_best_def split: option.splits)
  have "m_add ops (m_not ops (best_valid (best_of dedup best)))
      (m_mul ops (best_valid (best_of dedup best)) (m_less ops (best_score (best_of dedup best)) (cell_score cell))) = flag ?less"
    using less [OF sc cell(1)]
    by (cases best) (auto simp: best_of_def no_best_def cell_candidate_def)
  then have better: "m_mul ops (flag (v \<and> \<not> marked)) (m_add ops (m_not ops (best_valid (best_of dedup best)))
      (m_mul ops (best_valid (best_of dedup best)) (m_less ops (best_score (best_of dedup best)) (cell_score cell))))
      = flag ((v \<and> \<not> marked) \<and> ?less)"
    by (simp only: mul_flags)
  have cv: "cell_valid cell = 1 \<longleftrightarrow> v" by (simp add: v)
  define t where "t \<longleftrightarrow> (v \<and> \<not> marked) \<and> ?less"
  have idle: "\<not> dedup \<Longrightarrow> best_terminal (best_of dedup best) = 0"
    by (simp add: best_of_def no_best_def split: option.split)
  have "(\<lparr>best_valid = m_if ops (flag t) (flag (v \<and> \<not> marked)) (best_valid (best_of dedup best)),
      best_score = m_if ops (flag t) (cell_score cell) (best_score (best_of dedup best)),
      best_left = m_if ops (flag t) (cell_left cell) (best_left (best_of dedup best)),
      best_right = m_if ops (flag t) (cell_right cell) (best_right (best_of dedup best)),
      best_terminal = (if dedup then m_if ops (flag t) (cell_terminal cell) (best_terminal (best_of dedup best))
        else best_terminal (best_of dedup best))\<rparr>) = best_of dedup (if t then Some ?c else best)"
  proof (cases t)
    case True
    then have "v \<and> \<not> marked" by (simp add: t_def)
    have new: "best_of dedup (Some ?c) = \<lparr>best_valid = 1, best_score = cell_score cell, best_left = cell_left cell,
        best_right = cell_right cell, best_terminal = (if dedup then cell_terminal cell else 0)\<rparr>"
      by (simp add: best_of_def cell_candidate_def)
    from True cell regs idle \<open>v \<and> \<not> marked\<close> show ?thesis unfolding if_P [OF True] new by (cases dedup) simp_all
  next
    case False
    with cell regs show ?thesis by (cases dedup) simp_all
  qed
  then show ?thesis
    unfolding best_step_def prod.case avail Let_def better cv t_def conj_assoc by simp
qed

text \<open>The scan ends with the choice, and the last set flag of \<open>became_best\<close> marks it.\<close>

definition won_at :: "candidate option \<Rightarrow> nat \<Rightarrow> bool" where
  "won_at best i = (case best of None \<Rightarrow> False | Some c \<Rightarrow> slot_index c = int i)"

lemma best_scan_spec:
  assumes "\<And>cell. cell \<in> fst ` set xs \<Longrightarrow> cell_ok p w cell"
    and "\<And>c. best = Some c \<Longrightarrow> in_prime (2 ^ w) (- neg_score c) \<and> in_prime p (left_handle c) \<and>
      in_prime p (right_handle c) \<and> in_prime p (terminal c) \<and> slot_index c < int n"
  shows "\<exists>became. best_scan ops dedup (map (\<lambda>(cell, m). (cell, flag m)) xs) (best_of dedup best) =
      (best_of dedup (incumbent best (live n xs)), map of_bool became) \<and> length became = length xs \<and>
      winners became = map (\<lambda>i. won_at (incumbent best (live n xs)) (n + i)) [0..<length xs] \<and>
      list_all2 (\<lambda>b (cell, m). b \<longrightarrow> \<not> m) became xs"
  using assms
proof (induction xs arbitrary: best n)
  case (Cons x xs)
  obtain cell m where x: "x = (cell, m)" by (cases x)
  let ?c = "cell_candidate n cell"
  define t where "t \<longleftrightarrow> cell_valid cell = 1 \<and> \<not> m \<and> (case best of None \<Rightarrow> True | Some b \<Rightarrow> neg_score ?c < neg_score b)"
  define best' where "best' = (if t then Some ?c else best)"
  have ok: "cell_ok p w cell" using Cons.prems(1) x by simp
  have step: "best_step ops dedup (cell, flag m) (best_of dedup best) = (best_of dedup best', flag t)"
    using best_step_spec [OF ok, of best dedup m n] Cons.prems(2) by (simp add: t_def best'_def Let_def)
  have inc: "incumbent best (live n (x # xs)) = incumbent best' (live (Suc n) xs)"
    by (auto simp: x t_def best'_def split: option.splits)
  have "in_prime (2 ^ w) (- neg_score c) \<and> in_prime p (left_handle c) \<and> in_prime p (right_handle c) \<and>
      in_prime p (terminal c) \<and> slot_index c < int (Suc n)" if "best' = Some c" for c
    using that ok Cons.prems(2) by (fastforce simp: best'_def cell_ok_def cell_candidate_def split: if_splits)
  with Cons.IH [of best' "Suc n"] Cons.prems(1) obtain became where
    IH: "best_scan ops dedup (map (\<lambda>(cell, m). (cell, flag m)) xs) (best_of dedup best') =
        (best_of dedup (incumbent best' (live (Suc n) xs)), map of_bool became)"
      "length became = length xs"
      "winners became = map (\<lambda>i. won_at (incumbent best' (live (Suc n) xs)) (Suc n + i)) [0..<length xs]"
      "list_all2 (\<lambda>b (cell, m). b \<longrightarrow> \<not> m) became xs"
    by auto
  define final where "final = incumbent best' (live (Suc n) xs)"
  have some: "True \<in> set bs \<longleftrightarrow> True \<in> set (winners bs)" for bs by (induction bs) auto
  have "won_at final n \<longleftrightarrow> t \<and> True \<notin> set became"
  proof (cases "True \<in> set became")
    case True
    then obtain i where "won_at final (Suc n + i)" unfolding some [of became] IH(3) final_def by auto
    then have "\<not> won_at final n" by (auto simp: won_at_def split: option.splits)
    with True show ?thesis by simp
  next
    case False
    have "final = best'"
    proof (rule ccontr)
      assume "final \<noteq> best'"
      with incumbent_cases [of best' "live (Suc n) xs"] obtain c where
        c: "c \<in> set (live (Suc n) xs)" "final = Some c" by (auto simp: final_def)
      then obtain i where "i < length xs" "slot_index c = int (Suc n + i)"
        using live_slot_less by blast
      with c have "True \<in> set (winners became)" unfolding IH(3) by (auto simp: final_def [symmetric] won_at_def)
      with False some show False by blast
    qed
    moreover have "\<not> t \<Longrightarrow> \<not> won_at best' n"
      using Cons.prems(2) by (auto simp: best'_def won_at_def split: option.splits)
    ultimately show ?thesis using False by (auto simp: best'_def won_at_def cell_candidate_def)
  qed
  then have "winners (t # became) = map (\<lambda>i. won_at final (n + i)) [0..<Suc (length xs)]"
    unfolding upt_conv_Cons [OF zero_less_Suc] map_Suc_upt [symmetric]
    by (simp add: IH(3) final_def comp_def)
  moreover have "best_scan ops dedup (map (\<lambda>(cell, m). (cell, flag m)) (x # xs)) (best_of dedup best) =
      (best_of dedup final, map of_bool (t # became))"
    using IH(1) by (simp add: x step final_def)
  ultimately show ?case
    unfolding inc final_def [symmetric] using IH(2,4) by (intro exI [of _ "t # became"]) (simp add: x t_def)
qed simp

text \<open>The reverse pass selects the last set flag.\<close>

lemma winner_scan_snoc:
  "winner_scan ops (map (\<lambda>(b, s). (flag b, flag s)) (xs @ [(b, s)])) (flag l) =
    winner_scan ops (map (\<lambda>(b, s). (flag b, flag s)) xs) (flag l) @
      [m_add ops (flag s) (flag (b \<and> \<not> l \<and> True \<notin> fst ` set xs))]"
proof (induction xs arbitrary: l)
  case Nil
  show ?case using mul_flags [of b "\<not> l"] not_flag [of l] by simp
next
  case (Cons x xs)
  obtain b' s' where x: "x = (b', s')" by (cases x)
  have win: "m_mul ops (flag b') (m_not ops (flag l)) = flag (b' \<and> \<not> l)" unfolding not_flag mul_flags ..
  have later: "m_add ops (flag l) (flag (b' \<and> \<not> l)) = flag (l \<or> b')" using add_flags [of l "b' \<and> \<not> l"] by (cases l) auto
  have mem: "(b \<and> \<not> (l \<or> b') \<and> True \<notin> fst ` set xs) = (b \<and> \<not> l \<and> True \<notin> fst ` set ((b', s') # xs))" by auto
  have cons: "winner_scan ops ((flag b', flag s') # rest) (flag l) =
      m_add ops (flag s') (flag (b' \<and> \<not> l)) # winner_scan ops rest (flag (l \<or> b'))" for rest
    unfolding winner_scan.simps Let_def win later ..
  show ?case
    unfolding x append_Cons list.map prod.case cons Cons.IH [of "l \<or> b'"] mem ..
qed

lemma suppress_winner_spec:
  assumes "length bs = length ms" and "list_all2 (\<lambda>b m. b \<longrightarrow> \<not> m) bs ms"
  shows "suppress_winner ops (map of_bool bs) (map of_bool ms) = map2 (\<lambda>m b. flag (m \<or> b)) ms (winners bs)"
  using assms
proof (induction bs ms rule: list_induct2)
  case (Cons b bs m ms)
  have zips: "zip (map of_bool bs) (map of_bool ms) = map (\<lambda>(b, s). (flag b, flag s)) (zip bs ms)"
    by (simp add: zip_map_map)
  have mem: "True \<in> fst ` set (rev (zip bs ms)) \<longleftrightarrow> True \<in> set bs"
    using Cons.hyps by (metis set_rev list.set_map map_fst_zip)
  have "suppress_winner ops (map of_bool (b # bs)) (map of_bool (m # ms)) =
      rev (winner_scan ops (map (\<lambda>(b, s). (flag b, flag s)) (rev (zip bs ms) @ [(b, m)])) (flag False))"
    by (simp add: suppress_winner_def zips rev_map)
  also have "\<dots> = m_add ops (flag m) (flag (b \<and> True \<notin> set bs)) # suppress_winner ops (map of_bool bs) (map of_bool ms)"
    unfolding winner_scan_snoc mem by (simp add: suppress_winner_def zips rev_map)
  also have "m_add ops (flag m) (flag (b \<and> True \<notin> set bs)) = flag (m \<or> (b \<and> True \<notin> set bs))"
    using Cons.prems by (intro add_flags) auto
  finally show ?case using Cons by simp
qed (simp add: suppress_winner_def)

text \<open>Marking every candidate with the winner's terminal.\<close>

definition terminal_closed :: "rank_cell list \<Rightarrow> bool list \<Rightarrow> bool" where
  "terminal_closed cells marks \<longleftrightarrow>
     (\<forall>x \<in> set (zip cells marks). \<forall>y \<in> set (zip cells marks). cell_terminal (fst x) = cell_terminal (fst y) \<longrightarrow> snd x = snd y)"

lemma suppress_terminal_spec:
  assumes "list_all (cell_ok p w) cells" and "length cells = length marks" and "terminal_closed cells marks"
    and "(cell, False) \<in> set (zip cells marks)" and "best_valid b = 1" and "best_terminal b = cell_terminal cell"
  shows "suppress_terminal ops b cells (map flag marks) =
    map flag (map (\<lambda>(c, m). m \<or> cell_terminal c = cell_terminal cell) (zip cells marks))"
proof -
  have in_p: "in_prime p (cell_terminal c)" if "c \<in> set cells" for c
    using that assms(1) by (auto simp: list_all_iff cell_ok_def)
  have "cell \<in> set cells" using assms(4) by (auto dest: set_zip_leftD)
  have one: "m_add ops (flag m) (m_mul ops (best_valid b) (m_eq ops (cell_terminal c) (best_terminal b)))
      = flag (m \<or> cell_terminal c = cell_terminal cell)" if "(c, m) \<in> set (zip cells marks)" for c m
  proof -
    have "c \<in> set cells" using that by (auto dest: set_zip_leftD)
    then have "m_mul ops (best_valid b) (m_eq ops (cell_terminal c) (best_terminal b)) = flag (cell_terminal c = cell_terminal cell)"
      using assms(5,6) in_p \<open>cell \<in> set cells\<close> by (simp add: eq)
    moreover have "\<not> (m \<and> cell_terminal c = cell_terminal cell)"
      using assms(3,4) that by (fastforce simp: terminal_closed_def)
    ultimately show ?thesis using add_flags by simp
  qed
  have "zip cells (map flag marks) = map (\<lambda>(c, m). (c, flag m)) (zip cells marks)"
    by (simp add: zip_map2)
  moreover have "map ((\<lambda>(c, s). m_add ops s (m_mul ops (best_valid b) (m_eq ops (cell_terminal c) (best_terminal b)))) \<circ>
      (\<lambda>(c, m). (c, flag m))) (zip cells marks) =
    map (flag \<circ> (\<lambda>(c, m). m \<or> cell_terminal c = cell_terminal cell)) (zip cells marks)"
    by (intro map_cong refl) (use one in \<open>force simp del: of_bool_or_iff\<close>)
  ultimately show ?thesis by (simp only: suppress_terminal_def map_map)
qed

lemma terminal_closed_suppress:
  assumes "length cells = length marks" and "terminal_closed cells marks"
  shows "terminal_closed cells (map (\<lambda>(c, m). m \<or> cell_terminal c = t) (zip cells marks))"
proof -
  have zip: "zip cells (map (\<lambda>(c, m). m \<or> cell_terminal c = t) (zip cells marks)) =
      map (\<lambda>(c, m). (c, m \<or> cell_terminal c = t)) (zip cells marks)"
    using assms(1) by (induction cells marks rule: list_induct2) auto
  show ?thesis using assms(2) unfolding terminal_closed_def zip by fastforce
qed

end

lemma live_suppress_terminal:
  "length cells = length marks \<Longrightarrow>
   live n (zip cells (map (\<lambda>(c, m). m \<or> cell_terminal c = t) (zip cells marks))) =
   filter (\<lambda>c. terminal c \<noteq> t) (live n (zip cells marks))"
  by (induction cells marks arbitrary: n rule: list_induct2) (auto simp: cell_candidate_def)

lemma live_suppress_winner:
  "length cells = length marks \<Longrightarrow>
   live n (zip cells (map2 (\<or>) marks (map (\<lambda>i. slot = int (n + i)) [0..<length marks]))) =
   filter (\<lambda>c. slot_index c \<noteq> slot) (live n (zip cells marks))"
proof (induction cells marks arbitrary: n rule: list_induct2)
  case (Cons c cells m marks)
  have "map (\<lambda>i. slot = int (n + i)) [0..<length (m # marks)] =
      (slot = int n) # map (\<lambda>i. slot = int (Suc n + i)) [0..<length marks]"
    unfolding list.size add_Suc_right add_0_right upt_conv_Cons [OF zero_less_Suc] map_Suc_upt [symmetric]
    by (simp add: comp_def ac_simps)
  with Cons.IH [of "Suc n"] show ?case by (auto simp: cell_candidate_def)
qed simp

text \<open>Picking the minimum, then suppressing, is one step down the ranking.\<close>

lemma sort_minimum:
  fixes xs :: "'a :: linorder list"
  assumes "m \<in> set xs" and "\<forall>x \<in> set xs. m \<le> x"
  shows "sort xs = m # sort (remove1 m xs)"
proof (rule properties_for_sort)
  show "mset (m # sort (remove1 m xs)) = mset xs" using assms(1) by simp
  have "set (remove1 m xs) \<subseteq> set xs" by (rule set_remove1_subset)
  with assms(2) show "sorted (m # sort (remove1 m xs))" by auto
qed

lemma keep_first_seen:
  "keep_first True (insert t seen) cs = keep_first True seen (filter (\<lambda>c. terminal c \<noteq> t) cs)"
  by (induction cs arbitrary: seen) (auto simp: insert_commute)

definition suppressed :: "bool \<Rightarrow> candidate \<Rightarrow> candidate \<Rightarrow> bool" where
  "suppressed dedup m c = (if dedup then terminal c = terminal m else slot_index c = slot_index m)"

lemma keep_first_step:
  assumes "m \<in> set cs" and "\<forall>c \<in> set cs. m \<le> c" and "distinct (map slot_index cs)"
  shows "keep_first dedup {} (sort cs) = m # keep_first dedup {} (sort (filter (\<lambda>c. \<not> suppressed dedup m c) cs))"
proof -
  note sorted = sort_minimum [OF assms(1,2)]
  show ?thesis
  proof (cases dedup)
    case True
    have "filter (\<lambda>c. terminal c \<noteq> terminal m) (sort (remove1 m cs)) = filter (\<lambda>c. terminal c \<noteq> terminal m) (sort cs)"
      by (simp add: sorted)
    also have "\<dots> = sort (filter (\<lambda>c. terminal c \<noteq> terminal m) cs)" by (simp add: filter_sort)
    finally show ?thesis using True by (simp add: sorted keep_first_seen suppressed_def)
  next
    case False
    have "inj_on slot_index (set cs)" "distinct cs" using assms(3) by (simp_all add: distinct_map)
    then have "filter (\<lambda>c. slot_index c \<noteq> slot_index m) cs = remove1 m cs"
      using assms(1) by (auto simp: distinct_remove1_removeAll removeAll_filter_not_eq inj_on_def intro!: filter_cong)
    with False show ?thesis by (simp add: sorted keep_first_all suppressed_def)
  qed
qed

definition padded_rows :: "nat \<Rightarrow> candidate list \<Rightarrow> result_row list" where
  "padded_rows k cs = map result_of (take k cs) @ replicate (k - length cs) empty_result"

lemma padded_rows_simps [simp]:
  "padded_rows 0 cs = []"
  "padded_rows (Suc k) [] = empty_result # padded_rows k []"
  "padded_rows (Suc k) (c # cs) = result_of c # padded_rows k cs"
  by (simp_all add: padded_rows_def)

lemma top_k_padded:
  "1 \<le> k \<Longrightarrow> top_k_results dedup k cs = padded_rows (nat k) (keep_first dedup {} (sort cs))"
  by (auto simp: top_k_results_def result_rows_def select_top_take padded_rows_def nth_append intro!: nth_equalityI)

context mpc_machine
begin

lemma rank_round_spec:
  assumes cells: "list_all (cell_ok p w) cells" and len: "length cells = length marks"
    and closed: "dedup \<Longrightarrow> terminal_closed cells marks"
  defines "L \<equiv> live 0 (zip cells marks)"
  shows "\<exists>marks'. length marks' = length cells \<and> (dedup \<longrightarrow> terminal_closed cells marks') \<and>
    (if L = [] then live 0 (zip cells marks') = [] \<and> rank_round ops dedup cells (map flag marks) = (empty_result, map flag marks')
     else \<exists>m \<in> set L. (\<forall>c \<in> set L. m \<le> c) \<and>
       live 0 (zip cells marks') = filter (\<lambda>c. \<not> suppressed dedup m c) L \<and>
       rank_round ops dedup cells (map flag marks) = (result_of m, map flag marks'))"
proof -
  let ?zs = "zip cells marks"
  have zip: "zip cells (map flag marks) = map (\<lambda>(c, m). (c, flag m)) ?zs" by (simp add: zip_map2)
  have members: "cell_ok p w c" if "c \<in> fst ` set ?zs" for c
    using that cells by (auto simp: list_all_iff dest: set_zip_leftD)
  have lenz: "length ?zs = length marks" using len by simp
  obtain became where scan: "best_scan ops dedup (zip cells (map flag marks)) no_best =
      (best_of dedup (incumbent None L), map of_bool became)" "length became = length marks"
      "winners became = map (\<lambda>i. won_at (incumbent None L) (0 + i)) [0..<length marks]"
      "list_all2 (\<lambda>b (cell, m). b \<longrightarrow> \<not> m) became ?zs"
    using best_scan_spec [of ?zs None 0 dedup] members unfolding zip lenz L_def by (auto simp: best_of_def)
  have free: "list_all2 (\<lambda>b m. b \<longrightarrow> \<not> m) became marks"
    using scan(2,4) len by (auto simp: list_all2_conv_all_nth)
  show ?thesis
  proof (cases "L = []")
    case True
    have row: "rank_round ops dedup cells (map flag marks) =
        (empty_result, if dedup then suppress_terminal ops no_best cells (map flag marks)
          else suppress_winner ops (map of_bool became) (map flag marks))"
      unfolding rank_round_def scan(1) True
      by (simp add: best_of_def no_best_def empty_result_def)
    have "suppress_winner ops (map of_bool became) (map flag marks) = map flag marks"
    proof -
      have "winners became = replicate (length marks) False"
        unfolding scan(3) True by (simp add: won_at_def map_replicate_const)
      with suppress_winner_spec [OF scan(2) free] show ?thesis
        by (simp add: map2_map_map zip_replicate2 comp_def)
    qed
    moreover have "suppress_terminal ops no_best cells (map flag marks) = map flag marks"
    proof -
      have "m_add ops (flag m) (m_mul ops 0 (m_eq ops (cell_terminal c) 0)) = flag m" if "c \<in> set cells" for c m
        using that cells mul_bit(2) [OF flag_in(1)] eq by (simp add: list_all_iff cell_ok_def)
      then have "suppress_terminal ops no_best cells (map flag marks) = map (\<lambda>(c, m). flag m) ?zs"
        unfolding suppress_terminal_def zip no_best_def by (auto dest: set_zip_leftD)
      also have "\<dots> = map flag (map snd ?zs)" by (simp add: case_prod_unfold)
      finally show ?thesis using len by simp
    qed
    ultimately show ?thesis using True len closed row by (intro exI [of _ marks]) (auto simp: L_def)
  next
    case False
    then obtain m where m: "incumbent None L = Some m" using incumbent_None by blast
    with incumbent_cases [of None L] have mem: "m \<in> set L" by auto
    have least: "\<forall>c \<in> set L. m \<le> c" using incumbent_le [OF _ _ m] live_sorted by (simp add: L_def)
    from mem obtain cell where cell: "(cell, False) \<in> set ?zs" "neg_score m = - cell_score cell"
        "left_handle m = cell_left cell" "right_handle m = cell_right cell" "terminal m = cell_terminal cell"
      unfolding L_def using live_member by blast
    from cell(1) have "cell_ok p w cell" using members by force
    then have in_p: "in_prime p (- neg_score m)" "in_prime p (left_handle m)" "in_prime p (right_handle m)"
      using small by (auto simp: cell cell_ok_def)
    have row: "rank_round ops dedup cells (map flag marks) =
        (result_of m, if dedup then suppress_terminal ops (best_of dedup (Some m)) cells (map flag marks)
          else suppress_winner ops (map of_bool became) (map flag marks))"
      unfolding rank_round_def scan(1) m using in_p by (simp add: best_of_def result_of_def)
    define marks' where "marks' = (if dedup then map (\<lambda>(c, b). b \<or> cell_terminal c = terminal m) ?zs
        else map2 (\<or>) marks (map (\<lambda>i. slot_index m = int (0 + i)) [0..<length marks]))"
    have "length marks' = length cells" using len by (simp add: marks'_def)
    moreover have "dedup \<longrightarrow> terminal_closed cells marks'"
      using closed terminal_closed_suppress [OF len] by (simp add: marks'_def)
    moreover have "live 0 (zip cells marks') = filter (\<lambda>c. \<not> suppressed dedup m c) L"
      unfolding L_def marks'_def suppressed_def
      using live_suppress_terminal [OF len, of 0 "terminal m"] live_suppress_winner [OF len, of 0 "slot_index m"]
      by (cases dedup) simp_all
    moreover have "rank_round ops dedup cells (map flag marks) = (result_of m, map flag marks')"
    proof (cases dedup)
      case True
      from suppress_terminal_spec [OF cells len closed [OF True] cell(1), of "best_of dedup (Some m)"] True
      show ?thesis unfolding row marks'_def by (simp add: best_of_def cell)
    next
      case not: False
      have "winners became = map (\<lambda>i. slot_index m = int (0 + i)) [0..<length marks]"
        unfolding scan(3) m by (simp add: won_at_def)
      with suppress_winner_spec [OF scan(2) free] not show ?thesis
        unfolding row marks'_def by (simp add: case_prod_unfold comp_def)
    qed
    ultimately show ?thesis using False mem least by (intro exI [of _ marks']) auto
  qed
qed

lemma rank_rounds_spec:
  assumes cells: "list_all (cell_ok p w) cells"
  shows "length cells = length marks \<Longrightarrow> (dedup \<Longrightarrow> terminal_closed cells marks) \<Longrightarrow>
    rank_rounds ops dedup cells k (map flag marks) =
      padded_rows k (keep_first dedup {} (sort (live 0 (zip cells marks))))"
proof (induction k arbitrary: marks)
  case (Suc k)
  let ?L = "live 0 (zip cells marks)"
  from rank_round_spec [OF cells Suc.prems] obtain marks' where
    m': "length marks' = length cells" "dedup \<longrightarrow> terminal_closed cells marks'"
      "if ?L = [] then live 0 (zip cells marks') = [] \<and> rank_round ops dedup cells (map flag marks) = (empty_result, map flag marks')
       else \<exists>m \<in> set ?L. (\<forall>c \<in> set ?L. m \<le> c) \<and>
         live 0 (zip cells marks') = filter (\<lambda>c. \<not> suppressed dedup m c) ?L \<and>
         rank_round ops dedup cells (map flag marks) = (result_of m, map flag marks')"
    by blast
  have IH: "rank_rounds ops dedup cells k (map flag marks') =
      padded_rows k (keep_first dedup {} (sort (live 0 (zip cells marks'))))"
    using Suc.IH [of marks'] m' by simp
  show ?case
  proof (cases "?L = []")
    case True
    with m'(3) have "live 0 (zip cells marks') = []" "rank_round ops dedup cells (map flag marks) = (empty_result, map flag marks')"
      by simp_all
    with IH True show ?thesis by simp
  next
    case False
    with m'(3) obtain m where m: "m \<in> set ?L" "\<forall>c \<in> set ?L. m \<le> c"
        "live 0 (zip cells marks') = filter (\<lambda>c. \<not> suppressed dedup m c) ?L"
        "rank_round ops dedup cells (map flag marks) = (result_of m, map flag marks')"
      by auto
    have "distinct (map slot_index ?L)"
      using live_sorted strict_sorted_iff by blast
    from keep_first_step [OF m(1,2) this, of dedup] m(3,4) IH show ?thesis by simp
  qed
qed simp

text \<open>The block is the ranking of the valid cells.\<close>

lemma rank_block_spec:
  assumes "list_all (cell_ok p w) cells" and "1 \<le> k"
  shows "rank_block ops dedup (nat k) cells =
    top_k_results dedup k (live 0 (zip cells (replicate (length cells) False)))"
proof -
  have "terminal_closed cells (replicate (length cells) False)"
    by (auto simp: terminal_closed_def dest!: set_zip_rightD)
  from rank_rounds_spec [OF assms(1) _ this, of dedup "nat k"] show ?thesis
    by (simp add: rank_block_def top_k_padded [OF assms(2)])
qed

end

end
