(* ===== verification/Scan_Circuit.thy ===== *)
theory Scan_Circuit
  imports Rank_Circuit Clear_Reference
begin

text \<open>
  The circuits \<open>scan_program.py\<close> generates: the text of the generated program is read as a
  function of the three servers' inputs.  Secret values are field elements and secret
  operations are those of an \<open>mpc_ops\<close>; timers, thread counts and the freeing of temporaries
  have no value.  \<open>scan_program\<close> is the dispatch of \<open>render_program\<close> over the two renderers.
\<close>

section \<open>Validation and cost\<close>

definition SCAN_PROGRAM_VERSION :: int where
  "SCAN_PROGRAM_VERSION = 3"

definition MAX_BATCH_QUERIES :: int where
  "MAX_BATCH_QUERIES = 10"

definition scan_validate :: "public_config \<Rightarrow> int \<Rightarrow> unit res" where
  "scan_validate c query_count =
     (if field_prime c \<notin> set SCALABLE_FIELD_PRIMES
      then Inl (ValueError ''packed oblivious scan requires the scalable field prime'')
      else if \<not> (1 \<le> query_count \<and> query_count \<le> MAX_BATCH_QUERIES)
      then Inl (ValueError ''query_count must be in'')
      else if int (packed_edge_bits c) > field_usable_bits c
      then Inl (ValueError ''packed edge does not fit the scalable field'')
      else if uses_frontier_compaction c \<and> top_k c > compacted_candidate_count c
      then Inl (ValueError ''top_k exceeds the compacted candidate count'')
      else Inr ())"

record scan_cost =
  sc_entity_count :: int
  sc_query_count :: int
  sc_block_edges :: int
  sc_frontier_edges :: int
  sc_first_scan_products :: int
  sc_second_scan_products :: int
  sc_legacy_second_scan_products :: int
  sc_compaction_cells :: int
  sc_candidates_per_query :: int
  sc_topk_visits :: int
  sc_dedup_comparisons :: int
  sc_reduction_factor :: rat

definition scan_cost_estimate :: "public_config \<Rightarrow> int \<Rightarrow> scan_cost res" where
  "scan_cost_estimate c query_count =
     bindr (scan_validate c query_count) (\<lambda>_.
       let block = block_edges c; frontier = frontier_edges c;
           legacy_second = entity_count c * query_count * block * block;
           optimized_second = entity_count c * query_count * frontier * block
       in Inr \<lparr>sc_entity_count = entity_count c,
               sc_query_count = query_count,
               sc_block_edges = block,
               sc_frontier_edges = frontier,
               sc_first_scan_products = entity_count c * query_count * block,
               sc_second_scan_products = optimized_second,
               sc_legacy_second_scan_products = legacy_second,
               sc_compaction_cells =
                 (if uses_frontier_compaction c then query_count * frontier * fanout_per_owner c else 0),
               sc_candidates_per_query = frontier * block,
               sc_topk_visits = query_count * top_k c * frontier * block,
               sc_dedup_comparisons =
                 (if deduplicate_terminal_answers c then query_count * top_k c * frontier * block else 0),
               sc_reduction_factor = rat_of_int legacy_second / rat_of_int optimized_second\<rparr>)"

section \<open>Inputs and oblivious reads\<close>

definition index_bits :: "public_config \<Rightarrow> nat" where
  "index_bits c = max 1 (bit_length (entity_count c - 1))"

text \<open>A matrix input: the sum of the players' next \<open>rows * columns\<close> values, and what they have left.\<close>

definition shared_matrix :: "mpc_ops \<Rightarrow> nat \<Rightarrow> nat \<Rightarrow> shared_vector \<Rightarrow> int list list \<times> shared_vector" where
  "shared_matrix ops rows columns = (\<lambda>(as, bs, cs).
     let n = rows * columns;
         result = map2 (m_add ops) (map2 (m_add ops) (take n as) (take n bs)) (take n cs)
     in (map (\<lambda>r. take columns (drop (r * columns) result)) [0..<rows], (drop n as, drop n bs, drop n cs)))"

definition unpack_secret :: "mpc_ops \<Rightarrow> public_config \<Rightarrow> int \<Rightarrow> edge_fields" where
  "unpack_secret ops c packed =
     (let bits = m_bits ops (packed_edge_bits c) packed;
          SLOT_BITS = packing_widths c ! 0; RELATION_BITS = packing_widths c ! 1;
          EVIDENCE_BITS = packing_widths c ! 2; SCORE_BITS = packing_widths c ! 3;
          target = m_compose ops (take SLOT_BITS bits);
          offset = SLOT_BITS;
          relation = m_compose ops (take RELATION_BITS (drop offset bits));
          offset = offset + RELATION_BITS;
          evidence = m_compose ops (take EVIDENCE_BITS (drop offset bits));
          offset = offset + EVIDENCE_BITS;
          score = m_compose ops (take SCORE_BITS (drop offset bits));
          offset = offset + SCORE_BITS
      in (target, relation, evidence, score, bits ! offset))"

definition scan_row :: "mpc_ops \<Rightarrow> int list list \<Rightarrow> int list list \<Rightarrow> nat \<Rightarrow> int list" where
  "scan_row ops graph selectors entity =
     concat (map (\<lambda>selector. map (\<lambda>cell. m_mul ops (selector ! entity) cell) (graph ! entity)) selectors)"

text \<open>One pass over the graph: the selected blocks of all addresses, summed row by row.\<close>

definition oblivious_batch_read :: "mpc_ops \<Rightarrow> public_config \<Rightarrow> int list list \<Rightarrow> int list \<Rightarrow> int list" where
  "oblivious_batch_read ops c graph addresses =
     (let selectors = map (\<lambda>address. m_demux ops (m_bits ops (index_bits c) address)) addresses
      in fold (\<lambda>entity total. map2 (m_add ops) total (scan_row ops graph selectors entity))
           [0..<nat (entity_count c)] (replicate (length addresses * nat (block_edges c)) 0))"

section \<open>The hops\<close>

text \<open>The address a query's source is read at, with its validity.\<close>

definition query_guard :: "mpc_ops \<Rightarrow> public_config \<Rightarrow> int \<Rightarrow> int \<times> int" where
  "query_guard ops c source =
     (let source_valid = m_mul ops (m_neq ops source 0) (m_less ops source (entity_count c))
      in (source_valid, m_if ops source_valid source 0))"

definition edge_guard :: "mpc_ops \<Rightarrow> public_config \<Rightarrow> int \<Rightarrow> int \<Rightarrow> edge_fields \<Rightarrow> int" where
  "edge_guard ops c earlier relation_id = (\<lambda>(target, relation, handle, score, stored_valid).
     m_mul ops (m_mul ops (m_mul ops (m_mul ops earlier stored_valid) (m_neq ops target 0))
       (m_less ops target (entity_count c))) (m_eq ops relation relation_id))"

record hop_cell =
  hop_valid :: int
  hop_handle :: int
  hop_score :: int
  hop_address :: int

definition empty_hop :: hop_cell where
  "empty_hop = \<lparr>hop_valid = 0, hop_handle = 0, hop_score = 0, hop_address = 0\<rparr>"

definition full_hop_cell :: "mpc_ops \<Rightarrow> public_config \<Rightarrow> int \<Rightarrow> int \<Rightarrow> int \<Rightarrow> hop_cell" where
  "full_hop_cell ops c source_valid relation_1 packed =
     (let (target, relation, handle, score, stored_valid) = unpack_secret ops c packed;
          valid = edge_guard ops c source_valid relation_1 (target, relation, handle, score, stored_valid)
      in \<lparr>hop_valid = valid, hop_handle = m_mul ops valid handle, hop_score = m_mul ops valid score,
          hop_address = m_if ops valid target 0\<rparr>)"

definition raw_hop_cell :: "mpc_ops \<Rightarrow> public_config \<Rightarrow> int \<Rightarrow> int \<Rightarrow> int \<Rightarrow> hop_cell" where
  "raw_hop_cell ops c source_valid relation_1 packed =
     (let (target, relation, handle, score, stored_valid) = unpack_secret ops c packed;
          valid = edge_guard ops c source_valid relation_1 (target, relation, handle, score, stored_valid)
      in \<lparr>hop_valid = valid, hop_handle = m_mul ops valid handle, hop_score = m_mul ops valid score,
          hop_address = m_mul ops valid target\<rparr>)"

text \<open>The stable compaction of one owner's sub-bucket: \<open>found\<close> is the validity of the chosen cell.\<close>

fun take_pass :: "mpc_ops \<Rightarrow> (hop_cell \<times> int) list \<Rightarrow> hop_cell \<Rightarrow> hop_cell \<times> int list" where
  "take_pass ops [] chosen = (chosen, [])"
| "take_pass ops ((raw, consumed) # rest) chosen =
     (let available = m_mul ops (hop_valid raw) (m_not ops consumed);
          take = m_mul ops available (m_not ops (hop_valid chosen));
          (final, consumed_rest) = take_pass ops rest
            \<lparr>hop_valid = m_add ops (hop_valid chosen) take,
             hop_handle = m_add ops (hop_handle chosen) (m_mul ops take (hop_handle raw)),
             hop_score = m_add ops (hop_score chosen) (m_mul ops take (hop_score raw)),
             hop_address = m_add ops (hop_address chosen) (m_mul ops take (hop_address raw))\<rparr>
      in (final, m_add ops consumed take # consumed_rest))"

fun compact_owner :: "mpc_ops \<Rightarrow> hop_cell list \<Rightarrow> nat \<Rightarrow> int list \<Rightarrow> hop_cell list" where
  "compact_owner ops raw 0 consumed = []"
| "compact_owner ops raw (Suc k) consumed =
     (let (chosen, consumed') = take_pass ops (zip raw consumed) empty_hop
      in chosen # compact_owner ops raw k consumed')"

definition compact_frontier :: "mpc_ops \<Rightarrow> public_config \<Rightarrow> hop_cell list \<Rightarrow> hop_cell list" where
  "compact_frontier ops c raw =
     (let fanout = nat (fanout_per_owner c) in
      concat (map (\<lambda>owner. compact_owner ops (take fanout (drop (owner * fanout) raw))
          (nat (relation_frontier_per_owner c)) (replicate fanout 0))
        [0..<length (owners c)]))"

definition second_hop_cell :: "mpc_ops \<Rightarrow> public_config \<Rightarrow> hop_cell \<Rightarrow> int \<Rightarrow> int \<Rightarrow> rank_cell" where
  "second_hop_cell ops c first relation_2 packed =
     (let (terminal, relation, handle, score, stored_valid) = unpack_secret ops c packed;
          valid = edge_guard ops c (hop_valid first) relation_2 (terminal, relation, handle, score, stored_valid)
      in \<lparr>cell_valid = valid,
          cell_score = m_mul ops valid (m_add ops (hop_score first) score),
          cell_left = m_mul ops valid (hop_handle first),
          cell_right = m_mul ops valid handle,
          cell_terminal = (if deduplicate_terminal_answers c then m_mul ops valid terminal else 0)\<rparr>)"

definition candidate_cells ::
  "mpc_ops \<Rightarrow> public_config \<Rightarrow> nat \<Rightarrow> hop_cell list \<Rightarrow> int list \<Rightarrow> int \<Rightarrow> nat \<Rightarrow> rank_cell list" where
  "candidate_cells ops c width first second_blocks relation_2 query_index =
     (let block = nat (block_edges c) in
      concat (map (\<lambda>first_index.
        let first_flat = query_index * width + first_index in
        map (\<lambda>second_index. second_hop_cell ops c (first ! first_flat) relation_2
            (second_blocks ! (first_flat * block + second_index))) [0..<block]) [0..<width]))"

section \<open>Output shares\<close>

text \<open>Query, rank, field, server, value: the fields of a printed \<open>DORAM_BATCH_SHARE\<close> line.\<close>

type_synonym batch_line = "int \<times> int \<times> int \<times> int \<times> int"
type_synonym batch_logs = "batch_line list \<times> batch_line list \<times> batch_line list"

definition emit_output_shares ::
  "mpc_ops \<Rightarrow> int \<Rightarrow> int \<Rightarrow> int \<Rightarrow> int \<Rightarrow> int \<Rightarrow> rng \<Rightarrow> (batch_line \<times> batch_line \<times> batch_line) \<times> rng" where
  "emit_output_shares ops p query_index rank field value g =
     (let (share_0, g1) = randbelow (nat p) g;
          (share_1, g2) = randbelow (nat p) g1;
          share_2 = m_sub ops (m_sub ops value (int share_0)) (int share_1)
      in (((query_index, rank, field, 0, int share_0),
           (query_index, rank, field, 1, int share_1),
           (query_index, rank, field, 2, share_2)), g2))"

fun emit_all :: "mpc_ops \<Rightarrow> int \<Rightarrow> (int \<times> int \<times> int \<times> int) list \<Rightarrow> rng \<Rightarrow> batch_logs \<times> rng" where
  "emit_all ops p [] g = (([], [], []), g)"
| "emit_all ops p ((query_index, rank, field, value) # rest) g =
     (let ((a, b, c), g1) = emit_output_shares ops p query_index rank field value g;
          ((as, bs, cs), g2) = emit_all ops p rest g1
      in ((a # as, b # bs, c # cs), g2))"

definition row_outputs :: "result_row \<Rightarrow> int list" where
  "row_outputs row = [valid row, left_evidence row, right_evidence row, score row]"

definition result_outputs :: "result_row list list \<Rightarrow> (int \<times> int \<times> int \<times> int) list" where
  "result_outputs results =
     concat (map (\<lambda>(query_index, rows). concat (map (\<lambda>(rank, row).
         map (\<lambda>(field, value). (int query_index, int rank, int field, value)) (enumerate 0 (row_outputs row)))
       (enumerate 0 rows))) (enumerate 0 results))"

section \<open>The two circuits\<close>

definition full_frontier_results :: "mpc_ops \<Rightarrow> public_config \<Rightarrow> nat \<Rightarrow> shared_vector \<Rightarrow> result_row list list" where
  "full_frontier_results ops c query_count inputs =
     (let block = nat (block_edges c);
          (queries, inputs) = shared_matrix ops query_count 3 inputs;
          (graph, inputs) = shared_matrix ops (nat (entity_count c)) block inputs;
          guards = map (\<lambda>query. query_guard ops c (query ! 0)) queries;
          first_blocks = oblivious_batch_read ops c graph (map snd guards);
          first = concat (map (\<lambda>query_index. map (\<lambda>first_index.
              full_hop_cell ops c (fst (guards ! query_index)) (queries ! query_index ! 1)
                (first_blocks ! (query_index * block + first_index))) [0..<block]) [0..<query_count]);
          second_blocks = oblivious_batch_read ops c graph (map hop_address first)
      in map (\<lambda>query_index. rank_block ops (deduplicate_terminal_answers c) (nat (top_k c))
           (candidate_cells ops c block first second_blocks (queries ! query_index ! 2) query_index)) [0..<query_count])"

definition compacted_frontier_results :: "mpc_ops \<Rightarrow> public_config \<Rightarrow> nat \<Rightarrow> shared_vector \<Rightarrow> result_row list list" where
  "compacted_frontier_results ops c query_count inputs =
     (let block = nat (block_edges c);
          (queries, inputs) = shared_matrix ops query_count 3 inputs;
          (graph, inputs) = shared_matrix ops (nat (entity_count c)) block inputs;
          guards = map (\<lambda>query. query_guard ops c (query ! 0)) queries;
          raw_first_blocks = oblivious_batch_read ops c graph (map snd guards);
          raw_first = map (\<lambda>query_index. map (\<lambda>raw_index.
              raw_hop_cell ops c (fst (guards ! query_index)) (queries ! query_index ! 1)
                (raw_first_blocks ! (query_index * block + raw_index))) [0..<block]) [0..<query_count];
          first = concat (map (compact_frontier ops c) raw_first);
          second_blocks = oblivious_batch_read ops c graph (map hop_address first)
      in map (\<lambda>query_index. rank_block ops (deduplicate_terminal_answers c) (nat (top_k c))
           (candidate_cells ops c (nat (frontier_edges c)) first second_blocks (queries ! query_index ! 2) query_index))
         [0..<query_count])"

definition scan_results :: "mpc_ops \<Rightarrow> public_config \<Rightarrow> nat \<Rightarrow> shared_vector \<Rightarrow> result_row list list" where
  "scan_results ops c query_count inputs =
     (if uses_frontier_compaction c then compacted_frontier_results ops c query_count inputs
      else full_frontier_results ops c query_count inputs)"

definition scan_program ::
  "mpc_ops \<Rightarrow> public_config \<Rightarrow> nat \<Rightarrow> shared_vector \<Rightarrow> rng \<Rightarrow> (batch_logs \<times> rng) res" where
  "scan_program ops c query_count inputs g =
     bindr (scan_validate c (int query_count)) (\<lambda>_.
       Inr (emit_all ops (field_prime c) (result_outputs (scan_results ops c query_count inputs)) g))"

end
