(* ===== verification/Scan_Refinement.thy ===== *)
theory Scan_Refinement
  imports Scan_Circuit
begin

text \<open>
  The generated scan circuits refine the cleartext oracle: on the additive shares of an honest
  assembly, and for any secret arithmetic with the laws of \<open>mpc_machine\<close>, both circuits compute
  what \<open>evaluate_cleartext\<close> computes, result row by result row.
\<close>

section \<open>Rows and widths\<close>

lemma concat_map_nth:
  assumes "\<And>x. x \<in> set xs \<Longrightarrow> length (f x) = m" and "i < length xs" and "j < m"
  shows "concat (map f xs) ! (i * m + j) = f (xs ! i) ! j"
proof -
  have "length r = m" if "r \<in> set (map f xs)" for r using that assms(1) by auto
  from concat_uniform_nth [of "map f xs", OF this, of i j] assms(2,3) show ?thesis by simp
qed

lemma concat_map_slice:
  assumes "\<And>x. x \<in> set xs \<Longrightarrow> length (f x) = m" and "i < length xs"
  shows "take m (drop (i * m) (concat (map f xs))) = f (xs ! i)"
proof -
  have "length r = m" if "r \<in> set (map f xs)" for r using that assms(1) by auto
  from concat_uniform_slice [of "map f xs", OF this, of i] assms(2) show ?thesis by simp
qed

lemma packed_edge_bits_sum:
  "packed_edge_bits c = packing_widths c ! 0 + packing_widths c ! 1 + packing_widths c ! 2 + packing_widths c ! 3 + 1"
  by (simp add: packed_edge_bits_def packing_widths_def)

lemma entity_count_fits: "entity_count c \<le> 2 ^ (packing_widths c ! 0)"
proof -
  have "entity_count c - 1 < 2 ^ bit_length (entity_count c - 1)"
    using entity_count_pos [of c] by (intro bit_length_less) simp
  also have "\<dots> \<le> (2 :: int) ^ (packing_widths c ! 0)"
    by (intro power_increasing) (simp_all add: packing_widths_def)
  finally show ?thesis by linarith
qed

lemma below_wide:
  assumes "x \<le> 2 ^ n" and "n < w"
  shows "x < (2 :: int) ^ w"
proof -
  have "(2 :: int) ^ n < 2 ^ w" using assms(2) by (intro power_strict_increasing) simp_all
  with assms(1) show ?thesis by linarith
qed

lemma in_prime_widen:
  assumes "in_prime (2 ^ k) x" and "k \<le> w"
  shows "in_prime (2 ^ w) x"
proof -
  have "(2 :: int) ^ k \<le> 2 ^ w" using assms(2) by (intro power_increasing) simp_all
  with assms(1) show ?thesis unfolding in_prime_def by (blast intro: less_le_trans)
qed

text \<open>An edge the tables hold: it packs, and its target is an entity slot.\<close>

definition edge_legal :: "public_config \<Rightarrow> edge_fields \<Rightarrow> bool" where
  "edge_legal c f \<longleftrightarrow> edge_fits c f \<and> fst f < entity_count c"

definition hop_of :: "bool \<Rightarrow> edge_fields \<Rightarrow> hop_cell" where
  "hop_of m = (\<lambda>(target, relation, handle, score, stored_valid).
     if m then \<lparr>hop_valid = 1, hop_handle = handle, hop_score = score, hop_address = target\<rparr> else empty_hop)"

lemma hop_of_False [simp]: "hop_of False f = empty_hop"
  by (simp add: hop_of_def split: prod.split)

section \<open>One word\<close>

context mpc_machine
begin

lemma unpack_secret_spec:
  assumes "packed_edge_bits c \<le> w" and "edge_fits c f"
  shows "unpack_secret ops c (packed_value c f) = f"
proof -
  obtain a b e s where widths: "packing_widths c = [a, b, e, s, 1]" by (simp add: packing_widths_def)
  let ?n = "a + b + e + s + 1" and ?x = "packed_value c f"
  have n: "packed_edge_bits c = ?n" by (simp add: packed_edge_bits_def widths)
  have "in_prime (2 ^ ?n) ?x" using packed_value_bounds [OF assms(2)] by (simp add: in_prime_def n)
  then have bits: "m_bits ops ?n ?x = bits_of ?n ?x" using assms(1) bits by (simp add: n)
  have field: "m_compose ops (take k (drop o' (bits_of ?n ?x))) = take_bit k (drop_bit o' ?x)" if "o' + k \<le> ?n" for k o'
  proof -
    have "take k (drop o' (bits_of ?n ?x)) = bits_of k (drop_bit o' ?x)"
      using that by (subst drop_bits_of, subst take_bits_of, subst min_absorb1) simp_all
    then show ?thesis
      using compose [OF set_bits_of] that assms(1) by (simp add: bits_value_bits_of n)
  qed
  have last: "bits_of ?n ?x ! (a + b + e + s) = take_bit 1 (drop_bit (a + b + e + s) ?x)"
    by (simp add: bits_of_def take_bit_Suc bit_iff_odd_drop_bit mod_2_eq_odd nth_append)
  have "unpack_secret ops c ?x = (take_bit a ?x, take_bit b (drop_bit a ?x), take_bit e (drop_bit (a + b) ?x),
      take_bit s (drop_bit (a + b + e) ?x), take_bit 1 (drop_bit (a + b + e + s) ?x))"
    unfolding unpack_secret_def Let_def n bits widths nth_Cons_0 using field [of 0 a] field [of a b] field [of "a + b" e]
      field [of "a + b + e" s] last by simp
  also have "\<dots> = five_fields (unpack_fields (packing_widths c) ?x)"
    by (simp add: widths and_mask_take [symmetric] drop_bit_drop_bit ac_simps)
  also have "\<dots> = f" using assms(2) by (rule unpack_packed_value)
  finally show ?thesis .
qed

lemma entity_count_in: "packed_edge_bits c \<le> w \<Longrightarrow> in_prime (2 ^ w) (entity_count c)"
  using below_wide [OF entity_count_fits, of c w] entity_count_pos [of c]
  by (simp add: in_prime_def packed_edge_bits_sum)

lemma legal_in:
  assumes "packed_edge_bits c \<le> w" and "edge_fits c (t, r, h, s, v)"
  shows "in_prime (2 ^ w) t" and "in_prime (2 ^ w) r" and "in_prime (2 ^ w) h" and "in_prime (2 ^ (w - 1)) s"
    and "v \<in> {0, 1}"
proof -
  have nths: "packing_widths c ! 2 = nat (evidence_bits c)" "packing_widths c ! 3 = nat (score_bits c)"
    by (simp_all add: packing_widths_def)
  have fits: "in_prime (2 ^ (packing_widths c ! 0)) t" "in_prime (2 ^ (packing_widths c ! 1)) r"
      "in_prime (2 ^ (packing_widths c ! 2)) h" "in_prime (2 ^ (packing_widths c ! 3)) s" "0 \<le> v" "v < 2"
    using assms(2) by (simp_all add: edge_fits_iff in_prime_def nths)
  have le: "packing_widths c ! 0 \<le> w" "packing_widths c ! 1 \<le> w" "packing_widths c ! 2 \<le> w"
      "packing_widths c ! 3 \<le> w - 1"
    using assms(1) by (simp_all add: packed_edge_bits_sum)
  show "in_prime (2 ^ w) t" "in_prime (2 ^ w) r" "in_prime (2 ^ w) h" "in_prime (2 ^ (w - 1)) s"
    by (rule in_prime_widen, rule fits, rule le)+
  show "v \<in> {0, 1}" using fits(5,6) by auto
qed

lemma edge_guard_spec:
  assumes "packed_edge_bits c \<le> w" and "edge_legal c f" and "in_prime p rel"
  shows "edge_guard ops c (flag b) rel f = flag (b \<and> edge_matches rel f)"
proof -
  obtain t r h s v where f: "f = (t, r, h, s, v)" by (metis prod.exhaust)
  note in_w = legal_in [OF assms(1), of t r h s v]
  have fits: "edge_fits c (t, r, h, s, v)" and t: "t < entity_count c" using assms(2) by (auto simp: edge_legal_def f)
  note in_w = legal_in [OF assms(1) fits]
  obtain y where v: "v = flag y" using in_w(5) by (auto intro: that [of True] that [of False])
  have "in_prime p t" "in_prime p r" "in_prime p 0" using in_w small by auto
  then have "edge_guard ops c (flag b) rel f = flag ((((b \<and> y) \<and> t \<noteq> 0) \<and> t < entity_count c) \<and> r = rel)"
    unfolding edge_guard_def f prod.case v
    using less [OF in_w(1) entity_count_in [OF assms(1)]] eq [OF _ assms(3)] neq_flag [of t 0]
    by (simp only: mul_flags)
  with t show ?thesis by (auto simp: edge_matches_def f v)
qed

lemma hop_cell_spec:
  assumes "packed_edge_bits c \<le> w" and "edge_legal c f" and "in_prime p rel"
  shows "full_hop_cell ops c (flag b) rel (packed_value c f) = hop_of (b \<and> edge_matches rel f) f"
    and "raw_hop_cell ops c (flag b) rel (packed_value c f) = hop_of (b \<and> edge_matches rel f) f"
proof -
  obtain t r h s v where f: "f = (t, r, h, s, v)" by (metis prod.exhaust)
  have fits: "edge_fits c (t, r, h, s, v)" using assms(2) by (simp add: edge_legal_def f)
  have unpack: "unpack_secret ops c (packed_value c f) = (t, r, h, s, v)"
    using unpack_secret_spec [OF assms(1) fits] by (simp add: f)
  have "in_prime (2 ^ w) s"
    using legal_in(4) [OF assms(1) fits] by (rule in_prime_widen) simp
  with legal_in [OF assms(1) fits] have in_p: "in_prime p t" "in_prime p h" "in_prime p s" by (simp_all add: small)
  show "full_hop_cell ops c (flag b) rel (packed_value c f) = hop_of (b \<and> edge_matches rel f) f"
    "raw_hop_cell ops c (flag b) rel (packed_value c f) = hop_of (b \<and> edge_matches rel f) f"
    unfolding full_hop_cell_def raw_hop_cell_def unpack prod.case Let_def
      edge_guard_spec [OF assms, of b, unfolded f]
    using in_p by (simp_all add: hop_of_def empty_hop_def f select)
qed

lemma second_hop_cell_spec:
  assumes "packed_edge_bits c \<le> w" and "edge_legal c f" and "in_prime p rel"
    and "first = hop_of b g" and "edge_legal c g"
  shows "second_hop_cell ops c first rel (packed_value c f) =
    (if b \<and> edge_matches rel f
     then \<lparr>cell_valid = 1, cell_score = hop_score first + (case f of (t, r, h, s, v) \<Rightarrow> s),
           cell_left = hop_handle first, cell_right = (case f of (t, r, h, s, v) \<Rightarrow> h),
           cell_terminal = (if deduplicate_terminal_answers c then fst f else 0)\<rparr>
     else \<lparr>cell_valid = 0, cell_score = 0, cell_left = 0, cell_right = 0, cell_terminal = 0\<rparr>)"
    and "cell_ok p w (second_hop_cell ops c first rel (packed_value c f))"
proof -
  obtain t r h s v where f: "f = (t, r, h, s, v)" by (metis prod.exhaust)
  obtain t' r' h' s' v' where g: "g = (t', r', h', s', v')" by (metis prod.exhaust)
  have fits: "edge_fits c (t, r, h, s, v)" "edge_fits c (t', r', h', s', v')"
    using assms(2,5) by (simp_all add: edge_legal_def f g)
  have unpack: "unpack_secret ops c (packed_value c f) = (t, r, h, s, v)"
    using unpack_secret_spec [OF assms(1) fits(1)] by (simp add: f)
  have half: "2 * (2 :: int) ^ (w - 1) = 2 ^ w" using wide by (simp add: power_eq_if)
  have first: "hop_valid first = flag b" "in_prime (2 ^ (w - 1)) (hop_score first)" "in_prime (2 ^ w) (hop_handle first)"
    using legal_in [OF assms(1) fits(2)] by (cases b; simp add: assms(4) hop_of_def g empty_hop_def in_prime_def)+
  note in_w = legal_in [OF assms(1) fits(1)]
  have sum: "in_prime (2 ^ w) (hop_score first + s)" using first(2) in_w(4) half by (simp add: in_prime_def)
  have add: "m_add ops (hop_score first) s = hop_score first + s"
    using first(2) in_w(4) half prime by (intro add_small) (simp_all add: in_prime_def)
  have in_p: "in_prime p t" "in_prime p h" "in_prime p (hop_handle first)" "in_prime p (hop_score first + s)"
    using in_w first sum by (simp_all add: small)
  show eq: "second_hop_cell ops c first rel (packed_value c f) =
    (if b \<and> edge_matches rel f
     then \<lparr>cell_valid = 1, cell_score = hop_score first + (case f of (t, r, h, s, v) \<Rightarrow> s),
           cell_left = hop_handle first, cell_right = (case f of (t, r, h, s, v) \<Rightarrow> h),
           cell_terminal = (if deduplicate_terminal_answers c then fst f else 0)\<rparr>
     else \<lparr>cell_valid = 0, cell_score = 0, cell_left = 0, cell_right = 0, cell_terminal = 0\<rparr>)"
    unfolding second_hop_cell_def unpack prod.case Let_def first(1) add
      edge_guard_spec [OF assms(1-3), of b, unfolded f]
    using in_p by (simp add: f)
  show "cell_ok p w (second_hop_cell ops c first rel (packed_value c f))"
    unfolding eq using in_p sum by (auto simp: cell_ok_def f in_prime_def [of "2 ^ w" 0])
qed

end

section \<open>A batch of oblivious reads\<close>

lemma zip_concat_maps:
  assumes "\<And>a. a \<in> set as \<Longrightarrow> length (g a) = length (h a)"
  shows "map2 f (concat (map g as)) (concat (map h as)) = concat (map (\<lambda>a. map2 f (g a) (h a)) as)"
  using assms by (induction as) auto

definition graph_ok :: "int \<Rightarrow> public_config \<Rightarrow> int list list \<Rightarrow> bool" where
  "graph_ok p c graph \<longleftrightarrow> length graph = nat (entity_count c) \<and>
     list_all (\<lambda>row. length row = nat (block_edges c) \<and> list_all (in_prime p) row) graph"

context mpc_machine
begin

lemma selector_spec:
  assumes "packed_edge_bits c \<le> w" and "0 \<le> a" and "a < entity_count c" and "e < nat (entity_count c)"
  shows "m_demux ops (m_bits ops (index_bits c) a) ! e = flag (int e = a)"
proof -
  have le: "index_bits c \<le> w" using assms(1) by (simp add: packed_edge_bits_sum packing_widths_def index_bits_def)
  have ec: "entity_count c \<le> 2 ^ index_bits c"
    using entity_count_fits [of c] by (simp add: packing_widths_def index_bits_def)
  have "a < 2 ^ index_bits c" using assms(3) ec by linarith
  then have a: "in_prime (2 ^ index_bits c) a" "take_bit (index_bits c) a = a"
    using assms(2) by (simp_all add: in_prime_def take_bit_int_eq_self)
  have "int e < 2 ^ index_bits c" using assms(4) ec by linarith
  then have "e < 2 ^ index_bits c" by (simp flip: of_nat_less_iff)
  then show ?thesis
    using bits [OF a(1) le] demux [OF set_bits_of] by (simp add: bits_value_bits_of a(2))
qed

lemma oblivious_batch_read_spec:
  assumes "packed_edge_bits c \<le> w" and graph: "graph_ok p c graph"
    and as: "list_all (\<lambda>a. 0 \<le> a \<and> a < entity_count c) addresses"
  shows "oblivious_batch_read ops c graph addresses = concat (map (\<lambda>a. graph ! nat a) addresses)"
proof -
  let ?B = "nat (block_edges c)" and ?E = "nat (entity_count c)"
  let ?sels = "map (\<lambda>address. m_demux ops (m_bits ops (index_bits c) address)) addresses"
  let ?part = "\<lambda>k a. if nat a < k then graph ! nat a else replicate ?B 0"
  have row: "length (graph ! e) = ?B" "list_all (in_prime p) (graph ! e)" if "e < ?E" for e
    using graph that by (auto simp: graph_ok_def list_all_length)
  have "fold (\<lambda>entity total. map2 (m_add ops) total (scan_row ops graph ?sels entity)) [0..<k]
      (replicate (length addresses * ?B) 0) = concat (map (?part k) addresses)" if "k \<le> ?E" for k
    using that
  proof (induction k)
    case 0
    have "replicate (length addresses * ?B) 0 = concat (map (\<lambda>a. replicate ?B (0 :: int)) addresses)"
      by (induction addresses) (simp_all add: replicate_add)
    then show ?case by simp
  next
    case (Suc k)
    then have k: "k < ?E" by simp
    have "scan_row ops graph ?sels k = concat (map (\<lambda>a. if nat a = k then graph ! k else replicate ?B 0) addresses)"
      unfolding scan_row_def map_map
    proof (intro arg_cong [where f = concat] map_cong refl)
      fix a assume "a \<in> set addresses"
      with as have a: "0 \<le> a" "a < entity_count c" by (simp_all add: list_all_iff)
      have sel: "m_demux ops (m_bits ops (index_bits c) a) ! k = flag (int k = a)"
        using selector_spec [OF assms(1) a k] .
      have "map (m_mul ops (flag (int k = a))) (graph ! k) = map (\<lambda>x. if int k = a then x else 0) (graph ! k)"
        using row(2) [OF k] by (intro map_cong refl mul_flag) (simp add: list_all_iff)
      also have "\<dots> = (if int k = a then graph ! k else replicate ?B 0)"
        using row(1) [OF k] by (simp add: map_replicate_const)
      finally have "map (m_mul ops (flag (int k = a))) (graph ! k) = (if int k = a then graph ! k else replicate ?B 0)" .
      moreover have "int k = a \<longleftrightarrow> nat a = k" using a(1) by auto
      ultimately show "((\<lambda>selector. map (m_mul ops (selector ! k)) (graph ! k)) \<circ>
          (\<lambda>address. m_demux ops (m_bits ops (index_bits c) address))) a =
          (if nat a = k then graph ! k else replicate ?B 0)"
        by (simp only: comp_def sel)
    qed
    moreover have "map2 (m_add ops) (concat (map (?part k) addresses))
        (concat (map (\<lambda>a. if nat a = k then graph ! k else replicate ?B 0) addresses)) =
        concat (map (\<lambda>a. map2 (m_add ops) (?part k a) (if nat a = k then graph ! k else replicate ?B 0)) addresses)"
    proof (rule zip_concat_maps)
      show "length (?part k a) = length (if nat a = k then graph ! k else replicate ?B 0)" for a
        using row(1) [OF less_trans [OF _ k], of "nat a"] row(1) [OF k] by simp
    qed
    moreover have "map2 (m_add ops) (?part k a) (if nat a = k then graph ! k else replicate ?B 0) = ?part (Suc k) a" for a
    proof -
      have zeros: "map2 (m_add ops) (replicate ?B 0) (replicate ?B 0) = replicate ?B 0"
        by (simp add: zip_replicate)
      have left: "map2 (m_add ops) xs (replicate ?B 0) = xs" if "length xs = ?B" "list_all (in_prime p) xs" for xs
        using that by (intro nth_equalityI) (simp_all add: list_all_length)
      have right: "map2 (m_add ops) (replicate ?B 0) xs = xs" if "length xs = ?B" "list_all (in_prime p) xs" for xs
        using that by (intro nth_equalityI) (simp_all add: list_all_length)
      consider "nat a < k" | "nat a = k" | "k < nat a" by linarith
      then show ?thesis
      proof cases
        case 1
        with left [OF row [OF less_trans [OF 1 k]]] show ?thesis by simp
      qed (use right [OF row [OF k]] zeros in auto)
    qed
    ultimately show ?case using Suc by simp
  qed
  from this [of ?E] have "oblivious_batch_read ops c graph addresses = concat (map (?part ?E) addresses)"
    by (simp add: oblivious_batch_read_def)
  also have "\<dots> = concat (map (\<lambda>a. graph ! nat a) addresses)"
    using as by (intro arg_cong [where f = concat] map_cong refl) (auto simp: list_all_iff)
  finally show ?thesis .
qed

lemma query_guard_spec:
  assumes "packed_edge_bits c \<le> w" and "1 \<le> s" and "s < entity_count c"
  shows "query_guard ops c s = (1, s)"
proof -
  have "in_prime (2 ^ w) s" using assms entity_count_in [OF assms(1)] by (simp add: in_prime_def)
  then show ?thesis
    using less [OF _ entity_count_in [OF assms(1)]] assms(2,3) small by (simp add: query_guard_def)
qed

end

section \<open>Compaction\<close>

definition hop_ok :: "int \<Rightarrow> hop_cell \<Rightarrow> bool" where
  "hop_ok p cell \<longleftrightarrow> cell = empty_hop \<or> hop_valid cell = 1 \<and> in_prime p (hop_handle cell) \<and>
     in_prime p (hop_score cell) \<and> in_prime p (hop_address cell)"

definition available_cells :: "(hop_cell \<times> bool) list \<Rightarrow> hop_cell list" where
  "available_cells xs = map fst (filter (\<lambda>(cell, m). hop_valid cell = 1 \<and> \<not> m) xs)"

context mpc_machine
begin

lemma take_pass_done:
  assumes "list_all (\<lambda>(cell, m). hop_ok p cell) xs" and "hop_ok p chosen" and "hop_valid chosen = 1"
  shows "take_pass ops (map (\<lambda>(cell, m). (cell, flag m)) xs) chosen = (chosen, map (\<lambda>(cell, m). flag m) xs)"
  using assms(1)
proof (induction xs)
  case (Cons x xs)
  obtain cell m where x: "x = (cell, m)" by (cases x)
  have ok: "hop_ok p cell" using Cons.prems x by simp
  have regs: "in_prime p (hop_handle cell)" "in_prime p (hop_score cell)" "in_prime p (hop_address cell)"
      "hop_valid cell = flag (hop_valid cell = 1)"
    using ok by (auto simp: hop_ok_def empty_hop_def)
  have mine: "in_prime p (hop_handle chosen)" "in_prime p (hop_score chosen)" "in_prime p (hop_address chosen)"
    using assms(2,3) by (auto simp: hop_ok_def empty_hop_def)
  have "m_mul ops (m_mul ops (hop_valid cell) (m_not ops (flag m))) (m_not ops (hop_valid chosen)) = flag False"
    by (subst regs(4), simp only: not_flag mul_flags assms(3) not_bit)
      (use mul_flags [of "hop_valid cell = 1 \<and> \<not> m" False] in simp)
  moreover obtain h sc a where "chosen = \<lparr>hop_valid = 1, hop_handle = h, hop_score = sc, hop_address = a\<rparr>"
    using assms(3) by (cases chosen) simp
  ultimately show ?case using Cons regs mine
    by (simp add: x Let_def)
qed simp

lemma take_pass_spec:
  assumes "list_all (\<lambda>(cell, m). hop_ok p cell) xs"
  shows "\<exists>marks. take_pass ops (map (\<lambda>(cell, m). (cell, flag m)) xs) empty_hop =
      ((case available_cells xs of [] \<Rightarrow> empty_hop | cell # rest \<Rightarrow> cell), map flag marks) \<and>
    length marks = length xs \<and> available_cells (zip (map fst xs) marks) = tl (available_cells xs)"
  using assms
proof (induction xs)
  case Nil
  show ?case by (simp add: available_cells_def)
next
  case (Cons x xs)
  obtain cell m where x: "x = (cell, m)" by (cases x)
  have ok: "hop_ok p cell" using Cons.prems x by simp
  have regs: "in_prime p (hop_handle cell)" "in_prime p (hop_score cell)" "in_prime p (hop_address cell)"
      "hop_valid cell = flag (hop_valid cell = 1)"
    using ok by (auto simp: hop_ok_def empty_hop_def)
  define t where "t \<longleftrightarrow> hop_valid cell = 1 \<and> \<not> m"
  have take: "m_mul ops (m_mul ops (hop_valid cell) (m_not ops (flag m))) (m_not ops (hop_valid empty_hop)) = flag t"
    by (subst regs(4), simp only: not_flag mul_flags empty_hop_def hop_cell.simps not_bit)
      (use mul_flags [of "hop_valid cell = 1 \<and> \<not> m" True] in \<open>simp add: t_def\<close>)
  let ?next = "\<lparr>hop_valid = m_add ops (hop_valid empty_hop) (flag t),
      hop_handle = m_add ops (hop_handle empty_hop) (m_mul ops (flag t) (hop_handle cell)),
      hop_score = m_add ops (hop_score empty_hop) (m_mul ops (flag t) (hop_score cell)),
      hop_address = m_add ops (hop_address empty_hop) (m_mul ops (flag t) (hop_address cell))\<rparr>"
  have pass: "take_pass ops (map (\<lambda>(cell, m). (cell, flag m)) (x # xs)) empty_hop =
      (case take_pass ops (map (\<lambda>(cell, m). (cell, flag m)) xs) ?next of
         (final, rest) \<Rightarrow> (final, m_add ops (flag m) (flag t) # rest))"
    by (simp only: x list.map prod.case take_pass.simps Let_def take)
  have rest: "list_all (\<lambda>(cell, m). hop_ok p cell) xs" using Cons.prems by simp
  show ?case
  proof (cases t)
    case True
    then have v: "hop_valid cell = 1" and m: "\<not> m" by (simp_all add: t_def)
    then have nextc: "?next = cell" using True regs by (simp add: empty_hop_def)
    have "take_pass ops (map (\<lambda>(cell, m). (cell, flag m)) (x # xs)) empty_hop = (cell, map flag (True # map snd xs))"
      unfolding pass nextc take_pass_done [OF rest ok v] using True m by (simp add: case_prod_unfold)
    moreover have "available_cells (x # xs) = cell # available_cells xs"
      by (simp add: available_cells_def x v m)
    moreover have "available_cells (zip (map fst (x # xs)) (True # map snd xs)) = available_cells xs"
      by (simp add: available_cells_def zip_map_fst_snd)
    ultimately show ?thesis by (intro exI [of _ "True # map snd xs"]) simp
  next
    case False
    have nextc: "?next = empty_hop" using False regs by (simp add: empty_hop_def)
    from Cons.IH [OF rest] obtain marks where IH:
      "take_pass ops (map (\<lambda>(cell, m). (cell, flag m)) xs) empty_hop =
        ((case available_cells xs of [] \<Rightarrow> empty_hop | cell # rest \<Rightarrow> cell), map flag marks)"
      "length marks = length xs" "available_cells (zip (map fst xs) marks) = tl (available_cells xs)" by blast
    have "take_pass ops (map (\<lambda>(cell, m). (cell, flag m)) (x # xs)) empty_hop =
        ((case available_cells xs of [] \<Rightarrow> empty_hop | cell # rest \<Rightarrow> cell), map flag (m # marks))"
      unfolding pass nextc IH(1) using False by simp
    moreover have "available_cells (x # xs) = available_cells xs"
      "available_cells (zip (map fst (x # xs)) (m # marks)) = available_cells (zip (map fst xs) marks)"
      using False by (auto simp: available_cells_def x t_def)
    ultimately show ?thesis using IH by (intro exI [of _ "m # marks"]) simp
  qed
qed

lemma compact_owner_marks:
  assumes "list_all (hop_ok p) raw"
  shows "length marks = length raw \<Longrightarrow>
    compact_owner ops raw k (map flag marks) = take k (available_cells (zip raw marks) @ replicate k empty_hop)"
proof (induction k arbitrary: marks)
  case (Suc k)
  have "list_all (\<lambda>(cell, m). hop_ok p cell) (zip raw marks)"
    using assms by (auto simp: list_all_iff dest: set_zip_leftD)
  from take_pass_spec [OF this] Suc.prems obtain marks' where
    pass: "take_pass ops (zip raw (map flag marks)) empty_hop =
      ((case available_cells (zip raw marks) of [] \<Rightarrow> empty_hop | cell # rest \<Rightarrow> cell), map flag marks')"
      "length marks' = length raw" "available_cells (zip raw marks') = tl (available_cells (zip raw marks))"
    by (auto simp: zip_map2)
  from Suc.IH [OF pass(2)] pass(3) show ?case
    by (cases "available_cells (zip raw marks)") (simp_all add: pass(1) del: replicate_Suc, simp)
qed simp

lemma compact_owner_spec:
  assumes "list_all (hop_ok p) raw"
  shows "compact_owner ops raw k (replicate (length raw) 0) =
    take k (filter (\<lambda>cell. hop_valid cell = 1) raw @ replicate k empty_hop)"
proof -
  have "available_cells (zip raw (replicate (length raw) False)) = filter (\<lambda>cell. hop_valid cell = 1) raw"
    by (induction raw) (auto simp: available_cells_def)
  with compact_owner_marks [OF assms, of "replicate (length raw) False" k] show ?thesis by simp
qed

end

section \<open>The frontier\<close>

text \<open>The entries a list of hop cells stands for.\<close>

definition cell_entries :: "nat \<Rightarrow> hop_cell list \<Rightarrow> frontier_entry list" where
  "cell_entries n cells = map (\<lambda>(i, cell). (int i, hop_address cell, hop_handle cell, hop_score cell))
     (filter (\<lambda>(i, cell). hop_valid cell = 1) (enumerate n cells))"

lemma cell_entries_simps [simp]:
  "cell_entries n [] = []"
  "cell_entries n (cell # cells) =
     (if hop_valid cell = 1 then [(int n, hop_address cell, hop_handle cell, hop_score cell)] else []) @ cell_entries (Suc n) cells"
  by (simp_all add: cell_entries_def)

lemma cell_entries_append: "cell_entries n (xs @ ys) = cell_entries n xs @ cell_entries (n + length xs) ys"
  by (induction xs arbitrary: n) simp_all

lemma cell_entries_empty [simp]: "cell_entries n (replicate k empty_hop) = []"
  by (induction k arbitrary: n) (simp_all add: empty_hop_def)

definition hop_cells :: "int \<Rightarrow> edge_fields list \<Rightarrow> hop_cell list" where
  "hop_cells r = map (\<lambda>f. hop_of (edge_matches r f) f)"

lemma length_hop_cells [simp]: "length (hop_cells r fs) = length fs"
  by (simp add: hop_cells_def)

lemma hop_valid_hop_of [simp]: "hop_valid (hop_of m f) = 1 \<longleftrightarrow> m"
  by (auto simp: hop_of_def empty_hop_def split: prod.split)

lemma entries_hop_cells:
  "cell_entries n (hop_cells r fs) =
    map (\<lambda>(first_index, target, relation, handle, score, valid). (int first_index, target, handle, score))
      (filter (\<lambda>(first_index, edge). edge_matches r edge) (enumerate n fs))"
  by (induction fs arbitrary: n) (auto simp: hop_cells_def hop_of_def empty_hop_def)

lemma entries_matches:
  "cell_entries n (hop_cells r (filter (edge_matches r) fs)) =
    map (\<lambda>(i, target, relation, handle, score, valid). (int n + int i, target, handle, score))
      (enumerate 0 (filter (edge_matches r) fs))"
proof -
  have "filter (\<lambda>(i, edge). edge_matches r edge) (enumerate m (filter (edge_matches r) fs)) = enumerate m (filter (edge_matches r) fs)" for m
    by (induction fs arbitrary: m) auto
  moreover have "map (\<lambda>(i, t, r, h, s, v). (int i, t, h, s)) (enumerate (n + m) gs) =
      map (\<lambda>(i, t, r, h, s, v). (int n + int i, t, h, s)) (enumerate m gs)" for m and gs :: "edge_fields list"
  proof (induction gs arbitrary: m)
    case (Cons g gs)
    from Cons [of "Suc m"] show ?case by (auto split: prod.split)
  qed simp
  from this [of 0] show ?thesis unfolding entries_hop_cells calculation by simp
qed

lemma filter_hop_cells: "filter (\<lambda>cell. hop_valid cell = 1) (hop_cells r fs) = hop_cells r (filter (edge_matches r) fs)"
  by (induction fs) (simp_all add: hop_cells_def)

definition compacted_cells :: "nat \<Rightarrow> int \<Rightarrow> edge_fields list \<Rightarrow> hop_cell list" where
  "compacted_cells width r fs = take width (hop_cells r (filter (edge_matches r) fs) @ replicate width empty_hop)"

lemma length_compacted [simp]: "length (compacted_cells width r fs) = width"
  by (simp add: compacted_cells_def)

lemma compacted_cells_fit:
  assumes "length (filter (edge_matches r) fs) \<le> width"
  shows "compacted_cells width r fs = hop_cells r (filter (edge_matches r) fs) @
    replicate (width - length (filter (edge_matches r) fs)) empty_hop"
  using assms by (simp add: compacted_cells_def)

text \<open>The hop cells of a query, before the second hop, and the oracle's frontier.\<close>

definition frontier_cells :: "public_config \<Rightarrow> edge_fields list list list \<Rightarrow> int \<Rightarrow> int \<Rightarrow> hop_cell list" where
  "frontier_cells c tables source r =
     (if uses_frontier_compaction c
      then concat (map (\<lambda>table. compacted_cells (nat (relation_frontier_per_owner c)) r (table ! nat source)) tables)
      else hop_cells r (block_at tables source))"

lemma compacted_entries:
  assumes "0 \<le> relation_frontier_per_owner c"
  shows "traverse (owner_matches c s r) (enumerate o' tables) = Inr parts \<Longrightarrow>
    concat parts = cell_entries (o' * nat (relation_frontier_per_owner c))
      (concat (map (\<lambda>table. compacted_cells (nat (relation_frontier_per_owner c)) r (table ! nat s)) tables))"
proof (induction tables arbitrary: o' parts)
  case (Cons table tables)
  let ?w = "nat (relation_frontier_per_owner c)" and ?m = "filter (edge_matches r) (table ! nat s)"
  from Cons.prems obtain part rest where parts: "parts = part # rest" "owner_matches c s r (o', table) = Inr part"
      "traverse (owner_matches c s r) (enumerate (Suc o') tables) = Inr rest"
    by (auto simp: res_simps)
  from parts(2) have fit: "length ?m \<le> ?w"
      and part: "part = map (\<lambda>(i, t, r', h, sc, v). (int o' * relation_frontier_per_owner c + int i, t, h, sc)) (enumerate 0 ?m)"
    by (auto simp: owner_matches_def Let_def split: if_splits)
  have "cell_entries (o' * ?w) (compacted_cells ?w r (table ! nat s)) = part"
    unfolding compacted_cells_fit [OF fit] cell_entries_append cell_entries_empty append_Nil2 entries_matches part
    using assms by simp
  with Cons.IH [OF parts(3)] parts(1) show ?case by (simp add: cell_entries_append ac_simps)
qed simp

lemma frontier_entries_cells:
  assumes "valid_config c" and "first_frontier c tables s r = Inr frontier"
  shows "frontier = cell_entries 0 (frontier_cells c tables s r)"
proof (cases "uses_frontier_compaction c")
  case True
  with assms(2) obtain parts where "traverse (owner_matches c s r) (enumerate 0 tables) = Inr parts" "frontier = concat parts"
    by (auto simp: first_frontier_def res_simps)
  with compacted_entries [of c s r 0 tables parts] frontier_bounds(1) [OF assms(1)] True show ?thesis
    by (simp add: frontier_cells_def)
next
  case False
  with assms(2) show ?thesis
    by (simp add: first_frontier_def frontier_cells_def entries_hop_cells)
qed

section \<open>Rows\<close>

definition row_ok :: "int \<Rightarrow> result_row \<Rightarrow> bool" where
  "row_ok p row \<longleftrightarrow> valid row \<in> {0, 1} \<and> in_prime p (left_evidence row) \<and> in_prime p (right_evidence row) \<and>
     in_prime p (score row) \<and> (valid row = 0 \<longrightarrow> left_evidence row = 0 \<and> right_evidence row = 0 \<and> score row = 0)"

lemma top_k_rows:
  assumes "1 \<le> k" and "\<And>c. c \<in> set cs \<Longrightarrow> P (result_of c)" and "P empty_result"
  shows "list_all P (top_k_results dedup k cs)" and "length (top_k_results dedup k cs) = nat k"
proof -
  have "c \<in> set cs" if "c \<in> set (take (nat k) (keep_first dedup {} (sort cs)))" for c
    using in_set_takeD [OF that] set_keep_first [of dedup "{}" "sort cs"] by auto
  with assms(2,3) show "list_all P (top_k_results dedup k cs)"
    unfolding top_k_padded [OF assms(1)] padded_rows_def by (auto simp: list_all_iff)
  show "length (top_k_results dedup k cs) = nat k" by (simp add: top_k_results_def result_rows_def)
qed

section \<open>The candidates\<close>

text \<open>The cell of a pair of edges, in the clear.\<close>

definition pair_cell :: "public_config \<Rightarrow> hop_cell \<Rightarrow> int \<Rightarrow> edge_fields \<Rightarrow> rank_cell" where
  "pair_cell c first r = (\<lambda>(terminal, relation, handle, sc, stored_valid).
     if hop_valid first = 1 \<and> edge_matches r (terminal, relation, handle, sc, stored_valid)
     then \<lparr>cell_valid = 1, cell_score = hop_score first + sc, cell_left = hop_handle first, cell_right = handle,
           cell_terminal = (if deduplicate_terminal_answers c then terminal else 0)\<rparr>
     else \<lparr>cell_valid = 0, cell_score = 0, cell_left = 0, cell_right = 0, cell_terminal = 0\<rparr>)"

definition strip_terminal :: "bool \<Rightarrow> candidate \<Rightarrow> candidate" where
  "strip_terminal dedup cand = (if dedup then cand
     else Candidate (neg_score cand) (slot_index cand) (left_handle cand) (right_handle cand) 0)"

lemma live_append: "live n (xs @ ys) = live n xs @ live (n + length xs) ys"
  by (induction n xs rule: live.induct) simp_all

abbreviation live_cells :: "nat \<Rightarrow> rank_cell list \<Rightarrow> candidate list" where
  "live_cells n cells \<equiv> live n (map (\<lambda>cell. (cell, False)) cells)"

lemma zip_replicate_False: "zip cells (replicate (length cells) False) = map (\<lambda>cell. (cell, False)) cells"
  by (induction cells) simp_all

lemma live_pair_cells:
  "live_cells (n + m) (map (pair_cell c first r) fs) =
    (if hop_valid first = 1
     then map (\<lambda>(j, terminal, relation, handle, sc, v). strip_terminal (deduplicate_terminal_answers c)
         (Candidate (- (hop_score first + sc)) (int n + int j) (hop_handle first) handle terminal))
       (filter (\<lambda>(j, edge). edge_matches r edge) (enumerate m fs))
     else [])"
proof (induction fs arbitrary: m)
  case (Cons f fs)
  obtain t r' h s v where f: "f = (t, r', h, s, v)" by (metis prod.exhaust)
  have here: "pair_cell c first r f = (if hop_valid first = 1 \<and> edge_matches r f
      then \<lparr>cell_valid = 1, cell_score = hop_score first + s, cell_left = hop_handle first, cell_right = h,
            cell_terminal = (if deduplicate_terminal_answers c then t else 0)\<rparr>
      else \<lparr>cell_valid = 0, cell_score = 0, cell_left = 0, cell_right = 0, cell_terminal = 0\<rparr>)"
    by (simp add: f pair_cell_def)
  from Cons [of "Suc m"] show ?case
    unfolding list.map here by (simp add: f cell_candidate_def strip_terminal_def)
qed simp

lemma live_candidates:
  assumes "\<And>cell. cell \<in> set first \<Longrightarrow> length (block_at tables (hop_address cell)) = nat (block_edges c)"
    and "0 \<le> block_edges c"
  shows "live_cells (n * nat (block_edges c))
      (concat (map (\<lambda>cell. map (pair_cell c cell r) (block_at tables (hop_address cell))) first)) =
    map (strip_terminal (deduplicate_terminal_answers c)) (concat (map (expand_entry c tables r) (cell_entries n first)))"
  using assms(1)
proof (induction first arbitrary: n)
  case (Cons cell first)
  let ?B = "nat (block_edges c)" and ?fs = "block_at tables (hop_address cell)"
  have "live_cells (n * ?B) (map (pair_cell c cell r) ?fs) =
      (if hop_valid cell = 1 then map (strip_terminal (deduplicate_terminal_answers c))
         (expand_entry c tables r (int n, hop_address cell, hop_handle cell, hop_score cell)) else [])"
    using live_pair_cells [of "n * ?B" 0 c cell r ?fs] assms(2)
    by (simp add: expand_entry_def comp_def case_prod_unfold)
  moreover have "n * ?B + length ?fs = Suc n * ?B" using Cons.prems [of cell] by simp
  moreover note Cons.IH [of "Suc n"]
  ultimately show ?case using Cons.prems by (simp add: live_append add.commute)
qed simp

lemma top_k_strip: "top_k_results dedup k (map (strip_terminal dedup) cs) = top_k_results dedup k cs"
proof (cases dedup)
  case True
  then show ?thesis by (simp add: strip_terminal_def cong: map_cong)
next
  case False
  have mono: "c \<le> d \<Longrightarrow> strip_terminal False c \<le> strip_terminal False d" for c d
    by (auto simp: less_eq_candidate_def candidate_key_def strip_terminal_def)
  have "sort (map (strip_terminal False) cs) = map (strip_terminal False) (sort cs)"
  proof (rule properties_for_sort)
    show "sorted (map (strip_terminal False) (sort cs))"
      unfolding sorted_map by (rule sorted_wrt_mono_rel [OF _ sorted_sort]) (rule mono)
  qed simp
  moreover have "select_loop False k (map (strip_terminal False) xs) (map (strip_terminal False) sel) seen =
      map (strip_terminal False) (select_loop False k xs sel seen')" for xs sel seen seen'
  proof (induction xs arbitrary: sel seen seen')
    case (Cons a xs)
    from Cons.IH [of "sel @ [a]"] show ?case by (simp add: Let_def)
  qed simp
  from this [of _ "[]"] have "select_loop False k (map (strip_terminal False) xs) [] [] =
      map (strip_terminal False) (select_loop False k xs [] [])" for xs by simp
  ultimately have sel: "select_top False k (map (strip_terminal False) cs) = map (strip_terminal False) (select_top False k cs)"
    by (simp add: select_top_def)
  have "result_of (strip_terminal False c) = result_of c" for c by (simp add: result_of_def strip_terminal_def)
  then have "top_k_results False k (map (strip_terminal False) cs) = top_k_results False k cs"
    unfolding top_k_results_def sel result_rows_def by simp
  with False show ?thesis by simp
qed

section \<open>Tables and shares\<close>

definition tables_ok :: "public_config \<Rightarrow> edge_fields list list list \<Rightarrow> bool" where
  "tables_ok c tables \<longleftrightarrow> length tables = length (owners c) \<and>
     (\<forall>table \<in> set tables. length table = nat (entity_count c) \<and>
       (\<forall>bucket \<in> set table. length bucket = nat (fanout_per_owner c) \<and> (\<forall>f \<in> set bucket. edge_legal c f)))"

definition graph_of :: "public_config \<Rightarrow> edge_fields list list list \<Rightarrow> int list list" where
  "graph_of c tables = map (\<lambda>e. map (packed_value c) (block_at tables (int e))) [0..<nat (entity_count c)]"

lemma block_edges_nat: "valid_config c \<Longrightarrow> nat (block_edges c) = length (owners c) * nat (fanout_per_owner c)"
  using valid_fanout [of c] by (simp add: block_edges_def nat_mult_distrib)

lemma tables_bucket:
  assumes "tables_ok c tables" and "table \<in> set tables" and "0 \<le> e" and "e < entity_count c"
  shows "length (table ! nat e) = nat (fanout_per_owner c)" and "f \<in> set (table ! nat e) \<Longrightarrow> edge_legal c f"
proof -
  from assms(1,2) have all: "length table = nat (entity_count c)"
      "\<forall>bucket \<in> set table. length bucket = nat (fanout_per_owner c) \<and> (\<forall>f \<in> set bucket. edge_legal c f)"
    unfolding tables_ok_def by blast+
  with assms(3,4) have "table ! nat e \<in> set table" by (intro nth_mem) simp
  with all(2) show "length (table ! nat e) = nat (fanout_per_owner c)" "f \<in> set (table ! nat e) \<Longrightarrow> edge_legal c f"
    by blast+
qed

lemma tables_block:
  assumes "valid_config c" and "tables_ok c tables" and "0 \<le> e" and "e < entity_count c"
  shows "length (block_at tables e) = nat (block_edges c)" and "f \<in> set (block_at tables e) \<Longrightarrow> edge_legal c f"
    and "graph_of c tables ! nat e = map (packed_value c) (block_at tables e)"
proof -
  have "length (block_at tables e) = length (map (\<lambda>table. table ! nat e) tables) * nat (fanout_per_owner c)"
    unfolding block_at_def by (rule length_concat_uniform) (use tables_bucket(1) [OF assms(2) _ assms(3,4)] in auto)
  then show "length (block_at tables e) = nat (block_edges c)"
    using assms(2) by (simp add: block_edges_nat [OF assms(1)] tables_ok_def)
  show "edge_legal c f" if f: "f \<in> set (block_at tables e)"
  proof -
    from f obtain table where "table \<in> set tables" "f \<in> set (table ! nat e)" by (auto simp: block_at_def)
    then show ?thesis using tables_bucket(2) [OF assms(2) _ assms(3,4)] by blast
  qed
  show "graph_of c tables ! nat e = map (packed_value c) (block_at tables e)"
    using assms(3,4) by (simp add: graph_of_def)
qed

text \<open>What the second hop needs of the first: every cell is that of a legal edge, or empty.\<close>

definition hops_legal :: "public_config \<Rightarrow> hop_cell list \<Rightarrow> bool" where
  "hops_legal c cells \<longleftrightarrow> (\<forall>cell \<in> set cells. \<exists>b g. cell = hop_of b g \<and> edge_legal c g)"

lemma hop_of_address:
  assumes "edge_legal c g"
  shows "0 \<le> hop_address (hop_of b g)" and "hop_address (hop_of b g) < entity_count c"
  using assms entity_count_pos [of c]
  by (auto simp: hop_of_def empty_hop_def edge_legal_def edge_fits_iff split: prod.split)

lemma hops_legal_address:
  assumes "hops_legal c cells" and "cell \<in> set cells"
  shows "0 \<le> hop_address cell" and "hop_address cell < entity_count c"
proof -
  from assms obtain b g where "cell = hop_of b g" "edge_legal c g" unfolding hops_legal_def by blast
  with hop_of_address [of c g b] show "0 \<le> hop_address cell" "hop_address cell < entity_count c" by simp_all
qed

definition shares_of :: "int \<Rightarrow> shared_vector \<Rightarrow> int list \<Rightarrow> bool" where
  "shares_of p = (\<lambda>(as, bs, cs) vs. length as = length vs \<and> length bs = length vs \<and> length cs = length vs \<and>
     (\<forall>i < length vs. in_prime p (as ! i) \<and> in_prime p (bs ! i) \<and> in_prime p (cs ! i) \<and>
       (as ! i + bs ! i + cs ! i) mod p = vs ! i))"

lemma shares_of_take: "shares_of p (as, bs, cs) (us @ vs) \<Longrightarrow>
    shares_of p (take (length us) as, take (length us) bs, take (length us) cs) us \<and>
    shares_of p (drop (length us) as, drop (length us) bs, drop (length us) cs) vs"
proof -
  assume a: "shares_of p (as, bs, cs) (us @ vs)"
  then have all: "\<And>i. i < length us + length vs \<Longrightarrow> in_prime p (as ! i) \<and> in_prime p (bs ! i) \<and> in_prime p (cs ! i) \<and>
      (as ! i + bs ! i + cs ! i) mod p = (us @ vs) ! i"
    by (simp add: shares_of_def)
  have "in_prime p (as ! i) \<and> in_prime p (bs ! i) \<and> in_prime p (cs ! i) \<and> (as ! i + bs ! i + cs ! i) mod p = us ! i"
    if "i < length us" for i using all [of i] that by (simp add: nth_append)
  moreover have "in_prime p (as ! (length us + i)) \<and> in_prime p (bs ! (length us + i)) \<and> in_prime p (cs ! (length us + i)) \<and>
      (as ! (length us + i) + bs ! (length us + i) + cs ! (length us + i)) mod p = vs ! i"
    if "i < length vs" for i using all [of "length us + i"] that by (simp add: nth_append)
  ultimately show ?thesis using a by (simp add: shares_of_def)
qed

context mpc_machine
begin

lemma shared_matrix_spec:
  assumes "shares_of p inputs (concat rows @ rest)" and "length rows = n" and "\<And>r. r \<in> set rows \<Longrightarrow> length r = m"
  shows "\<exists>inputs'. shared_matrix ops n m inputs = (rows, inputs') \<and> shares_of p inputs' rest"
proof -
  obtain as bs cs where inputs: "inputs = (as, bs, cs)" by (metis prod.exhaust)
  have len: "length (concat rows) = n * m" using length_concat_uniform [of rows m] assms(2,3) by simp
  note sh = shares_of_take [OF assms(1) [unfolded inputs], unfolded len]
  have "map2 (m_add ops) (map2 (m_add ops) (take (n * m) as) (take (n * m) bs)) (take (n * m) cs) = concat rows"
  proof (rule nth_equalityI)
    show "length (map2 (m_add ops) (map2 (m_add ops) (take (n * m) as) (take (n * m) bs)) (take (n * m) cs)) = length (concat rows)"
      using sh by (simp add: shares_of_def len)
  next
    fix i assume "i < length (map2 (m_add ops) (map2 (m_add ops) (take (n * m) as) (take (n * m) bs)) (take (n * m) cs))"
    then have i: "i < n * m" "i < length as" "i < length bs" "i < length cs" by simp_all
    with sh len have one: "in_prime p (as ! i)" "in_prime p (bs ! i)" "in_prime p (cs ! i)"
        "(as ! i + bs ! i + cs ! i) mod p = concat rows ! i"
      by (simp_all add: shares_of_def)
    then have "m_add ops (m_add ops (as ! i) (bs ! i)) (cs ! i) = (as ! i + bs ! i + cs ! i) mod p"
      using add_in [OF one(1,2)] by (simp add: add mod_add_left_eq)
    with i one show "map2 (m_add ops) (map2 (m_add ops) (take (n * m) as) (take (n * m) bs)) (take (n * m) cs) ! i = concat rows ! i"
      by simp
  qed
  moreover have "map (\<lambda>r. take m (drop (r * m) (concat rows))) [0..<n] = rows"
    using concat_uniform_slice [of rows m] assms(2,3) by (intro nth_equalityI) simp_all
  ultimately show ?thesis using sh by (simp add: inputs shared_matrix_def Let_def)
qed

lemma graph_of_ok:
  assumes "valid_config c" and "packed_edge_bits c \<le> w" and "tables_ok c tables"
  shows "graph_ok p c (graph_of c tables)"
proof -
  have "in_prime p (packed_value c f)" if "edge_legal c f" for f
  proof -
    have "in_prime (2 ^ packed_edge_bits c) (packed_value c f)"
      using packed_value_bounds [of c f] that by (simp add: edge_legal_def in_prime_def)
    then show ?thesis using in_prime_widen assms(2) small by blast
  qed
  note pv = this
  have "list_all (in_prime p) (map (packed_value c) (block_at tables (int e)))" if "e < nat (entity_count c)" for e
  proof -
    from that have "0 \<le> int e" "int e < entity_count c" by simp_all
    with tables_block(2) [OF assms(1,3)] pv show ?thesis unfolding list_all_iff set_map by blast
  qed
  moreover have "length (block_at tables (int e)) = nat (block_edges c)" if "e < nat (entity_count c)" for e
    using that tables_block(1) [OF assms(1,3), of "int e"] by simp
  ultimately show ?thesis
    unfolding graph_ok_def graph_of_def by (auto simp: list_all_iff)
qed

lemma hop_of_ok: "packed_edge_bits c \<le> w \<Longrightarrow> edge_legal c g \<Longrightarrow> hop_ok p (hop_of b g)"
proof -
  assume a: "packed_edge_bits c \<le> w" "edge_legal c g"
  obtain t r h s v where g: "g = (t, r, h, s, v)" by (metis prod.exhaust)
  with a(2) have fits: "edge_fits c (t, r, h, s, v)" by (simp add: edge_legal_def)
  have "in_prime (2 ^ w) s" using legal_in(4) [OF a(1) fits] by (rule in_prime_widen) simp
  with legal_in [OF a(1) fits] show "hop_ok p (hop_of b g)" by (simp add: hop_ok_def hop_of_def g small)
qed

lemma second_read:
  assumes "valid_config c" and "packed_edge_bits c \<le> w" and "tables_ok c tables" and "hops_legal c first"
  shows "oblivious_batch_read ops c (graph_of c tables) (map hop_address first) =
    concat (map (\<lambda>cell. map (packed_value c) (block_at tables (hop_address cell))) first)"
proof -
  have in_range: "0 \<le> hop_address cell \<and> hop_address cell < entity_count c" if "cell \<in> set first" for cell
    using hops_legal_address [OF assms(4) that] by blast
  then have "oblivious_batch_read ops c (graph_of c tables) (map hop_address first) =
      concat (map (\<lambda>a. graph_of c tables ! nat a) (map hop_address first))"
    by (intro oblivious_batch_read_spec [OF assms(2) graph_of_ok [OF assms(1-3)]]) (auto simp: list_all_iff)
  also have "\<dots> = concat (map (\<lambda>cell. map (packed_value c) (block_at tables (hop_address cell))) first)"
    using in_range tables_block(3) [OF assms(1,3)]
    by (intro arg_cong [where f = concat]) (simp add: comp_def)
  finally show ?thesis .
qed

lemma candidate_cells_spec:
  assumes c: "valid_config c" and bits: "packed_edge_bits c \<le> w" and tables: "tables_ok c tables"
    and F: "\<And>q. q < n \<Longrightarrow> length (F q) = width \<and> hops_legal c (F q)" and r: "in_prime p r" and q: "q < n"
  defines "first \<equiv> concat (map F [0..<n])"
  shows "candidate_cells ops c width first (oblivious_batch_read ops c (graph_of c tables) (map hop_address first)) r q =
      concat (map (\<lambda>cell. map (pair_cell c cell r) (block_at tables (hop_address cell))) (F q))"
    and "list_all (cell_ok p w) (concat (map (\<lambda>cell. map (pair_cell c cell r) (block_at tables (hop_address cell))) (F q)))"
proof -
  let ?B = "nat (block_edges c)"
  have legal: "hops_legal c first" using F by (auto simp: first_def hops_legal_def)
  have len: "length first = n * width"
    unfolding first_def using F by (subst length_concat_uniform [of _ width]) auto
  have first_nth: "first ! (q * width + i) = F q ! i" if "i < width" for i
    unfolding first_def using concat_uniform_nth [of "map F [0..<n]" width q i] F q that by fastforce
  have block: "length (block_at tables (hop_address cell)) = ?B"
      "f \<in> set (block_at tables (hop_address cell)) \<Longrightarrow> edge_legal c f" if "cell \<in> set first" for cell f
    using tables_block(1,2) [OF c tables hops_legal_address [OF legal that(1)]] by blast+
  have second_nth: "concat (map (\<lambda>cell. map (packed_value c) (block_at tables (hop_address cell))) first) ! ((q * width + i) * ?B + j)
      = packed_value c (block_at tables (hop_address (F q ! i)) ! j)" if "i < width" "j < ?B" for i j
  proof -
    have flat: "q * width + i < length first" unfolding len using row_index_less [OF q that(1)] .
    then have mem: "F q ! i \<in> set first" using first_nth [OF that(1)] nth_mem [OF flat] by simp
    have "concat (map (\<lambda>cell. map (packed_value c) (block_at tables (hop_address cell))) first) ! ((q * width + i) * ?B + j) =
        map (packed_value c) (block_at tables (hop_address (first ! (q * width + i)))) ! j"
      by (rule concat_map_nth) (use block(1) flat that in simp_all)
    then show ?thesis
      using block(1) [OF mem] that first_nth [OF that(1)] by simp
  qed
  have cell: "second_hop_cell ops c (F q ! i) r (packed_value c f) = pair_cell c (F q ! i) r f \<and>
      cell_ok p w (pair_cell c (F q ! i) r f)" if "i < width" "edge_legal c f" for i f
  proof -
    have "F q ! i \<in> set (F q)" using that(1) F [OF q] by simp
    then obtain b g where g: "F q ! i = hop_of b g" "edge_legal c g" using F [OF q] unfolding hops_legal_def by blast
    have "second_hop_cell ops c (F q ! i) r (packed_value c f) = pair_cell c (F q ! i) r f"
      using second_hop_cell_spec(1) [OF bits that(2) r g] by (auto simp: pair_cell_def g(1) split: prod.split)
    with second_hop_cell_spec(2) [OF bits that(2) r g] show ?thesis by simp
  qed
  have row: "map (\<lambda>j. second_hop_cell ops c (first ! (q * width + i)) r
        (concat (map (\<lambda>cell. map (packed_value c) (block_at tables (hop_address cell))) first) ! ((q * width + i) * ?B + j))) [0..<?B] =
      map (pair_cell c (F q ! i) r) (block_at tables (hop_address (F q ! i)))" if "i < width" for i
  proof -
    have mem: "F q ! i \<in> set first"
      using first_nth [OF that] row_index_less [OF q that] len by (metis nth_mem)
    have "second_hop_cell ops c (F q ! i) r (packed_value c (block_at tables (hop_address (F q ! i)) ! j)) =
        pair_cell c (F q ! i) r (block_at tables (hop_address (F q ! i)) ! j)" if "j < ?B" for j
      using cell [OF \<open>i < width\<close>] block [OF mem] that by (metis nth_mem)
    then show ?thesis
      using block(1) [OF mem] that by (intro nth_equalityI) (simp_all add: first_nth second_nth)
  qed
  show "candidate_cells ops c width first (oblivious_batch_read ops c (graph_of c tables) (map hop_address first)) r q =
      concat (map (\<lambda>cell. map (pair_cell c cell r) (block_at tables (hop_address cell))) (F q))"
  proof -
    have "candidate_cells ops c width first (oblivious_batch_read ops c (graph_of c tables) (map hop_address first)) r q =
        concat (map (\<lambda>i. map (pair_cell c (F q ! i) r) (block_at tables (hop_address (F q ! i)))) [0..<width])"
      unfolding candidate_cells_def Let_def second_read [OF c bits tables legal]
      using row by (intro arg_cong [where f = concat] map_cong refl) simp
    also have "map (\<lambda>i. map (pair_cell c (F q ! i) r) (block_at tables (hop_address (F q ! i)))) [0..<width] =
        map (\<lambda>cell. map (pair_cell c cell r) (block_at tables (hop_address cell))) (F q)"
      using F [OF q] by (intro nth_equalityI) simp_all
    finally show ?thesis .
  qed
  show "list_all (cell_ok p w) (concat (map (\<lambda>cell. map (pair_cell c cell r) (block_at tables (hop_address cell))) (F q)))"
  proof -
    have "cell_ok p w (pair_cell c h r f)" if h: "h \<in> set (F q)" and f: "f \<in> set (block_at tables (hop_address h))" for h f
    proof -
      obtain i where i: "i < width" "h = F q ! i" using h F [OF q] by (auto simp: in_set_conv_nth)
      have "h \<in> set first" using h q by (auto simp: first_def)
      from block(2) [OF this f] cell [OF i(1)] i(2) show ?thesis by blast
    qed
    then show ?thesis by (auto simp: list_all_iff)
  qed
qed

lemma rank_block_rows:
  assumes "list_all (cell_ok p w) cells" and "1 \<le> k"
  shows "list_all (row_ok p) (rank_block ops dedup (nat k) cells)" and "length (rank_block ops dedup (nat k) cells) = nat k"
proof -
  have zero: "row_ok p empty_result" by (simp add: row_ok_def empty_result_def)
  have "row_ok p (result_of cand)" if cand: "cand \<in> set (live_cells 0 cells)" for cand
  proof -
    from live_member [OF cand] obtain cell where "cell \<in> set cells" "neg_score cand = - cell_score cell"
        "left_handle cand = cell_left cell" "right_handle cand = cell_right cell" by auto
    with assms(1) small show ?thesis
      by (auto simp: list_all_iff cell_ok_def row_ok_def result_of_def)
  qed
  from top_k_rows [where P = "row_ok p" and cs = "live_cells 0 cells" and dedup = dedup, OF assms(2) this zero]
  show "list_all (row_ok p) (rank_block ops dedup (nat k) cells)" "length (rank_block ops dedup (nat k) cells) = nat k"
    unfolding rank_block_spec [OF assms] zip_replicate_False by simp_all
qed

text \<open>The ranked candidates of one query.\<close>

lemma ranked_candidates:
  assumes c: "valid_config c" and tables: "tables_ok c tables"
    and legal: "hops_legal c cells"
    and ok: "list_all (cell_ok p w) (concat (map (\<lambda>cell. map (pair_cell c cell r) (block_at tables (hop_address cell))) cells))"
  shows "rank_block ops (deduplicate_terminal_answers c) (nat (top_k c))
      (concat (map (\<lambda>cell. map (pair_cell c cell r) (block_at tables (hop_address cell))) cells)) =
    top_k_results (deduplicate_terminal_answers c) (top_k c)
      (concat (map (expand_entry c tables r) (cell_entries 0 cells)))"
proof -
  have "length (block_at tables (hop_address cell)) = nat (block_edges c)" if "cell \<in> set cells" for cell
    using tables_block(1) [OF c tables hops_legal_address [OF legal that]] .
  from live_candidates [OF this, of cells 0 r] block_edges_pos [OF c] show ?thesis
    unfolding rank_block_spec [OF ok valid_top_k(1) [OF c]] zip_replicate_False by (simp add: top_k_strip)
qed

lemma compact_frontier_spec:
  assumes c: "valid_config c" and bits: "packed_edge_bits c \<le> w" and tables: "tables_ok c tables"
    and s: "0 \<le> s" "s < entity_count c"
  shows "compact_frontier ops c (hop_cells r (block_at tables s)) =
    concat (map (\<lambda>table. compacted_cells (nat (relation_frontier_per_owner c)) r (table ! nat s)) tables)"
proof -
  let ?F = "nat (fanout_per_owner c)"
  have n: "length tables = length (owners c)" using tables by (simp add: tables_ok_def)
  have "compact_owner ops (take ?F (drop (i * ?F) (hop_cells r (block_at tables s))))
      (nat (relation_frontier_per_owner c)) (replicate ?F 0) =
      compacted_cells (nat (relation_frontier_per_owner c)) r ((tables ! i) ! nat s)" if "i < length tables" for i
  proof -
    let ?bucket = "(tables ! i) ! nat s"
    note bucket = tables_bucket [OF tables _ s]
    have mem: "tables ! i \<in> set tables" using that by simp
    have "take ?F (drop (i * ?F) (block_at tables s)) = ?bucket"
      unfolding block_at_def by (rule concat_map_slice) (use bucket(1) that in simp_all)
    then have "take ?F (drop (i * ?F) (hop_cells r (block_at tables s))) = hop_cells r ?bucket"
      by (simp add: hop_cells_def take_map drop_map)
    moreover have "list_all (hop_ok p) (hop_cells r ?bucket)"
      unfolding hop_cells_def list_all_iff set_map using hop_of_ok [OF bits] bucket(2) [OF mem] by blast
    from compact_owner_spec [OF this] have "compact_owner ops (hop_cells r ?bucket) (nat (relation_frontier_per_owner c)) (replicate ?F 0) =
        compacted_cells (nat (relation_frontier_per_owner c)) r ?bucket"
      using bucket(1) [OF mem] by (simp add: compacted_cells_def filter_hop_cells)
    ultimately show ?thesis by simp
  qed
  then have "map (\<lambda>i. compact_owner ops (take ?F (drop (i * ?F) (hop_cells r (block_at tables s))))
      (nat (relation_frontier_per_owner c)) (replicate ?F 0)) [0..<length (owners c)] =
      map (\<lambda>table. compacted_cells (nat (relation_frontier_per_owner c)) r (table ! nat s)) tables"
    by (intro nth_equalityI) (simp_all add: n)
  then show ?thesis by (simp add: compact_frontier_def Let_def)
qed

lemma frontier_cells_legal:
  assumes c: "valid_config c" and tables: "tables_ok c tables" and s: "0 \<le> s" "s < entity_count c"
  shows "length (frontier_cells c tables s r) =
      nat (if uses_frontier_compaction c then frontier_edges c else block_edges c) \<and>
    hops_legal c (frontier_cells c tables s r)"
proof -
  have ec: "edge_legal c (0, 0, 0, 0, 0)" using entity_count_pos [of c] by (simp add: edge_legal_def edge_fits_iff)
  have padding: "\<exists>b g. empty_hop = hop_of b g \<and> edge_legal c g"
    using ec hop_of_False [of "(0, 0, 0, 0, 0)"] by metis
  show ?thesis
  proof (cases "uses_frontier_compaction c")
    case True
    have "length (frontier_cells c tables s r) = length tables * nat (relation_frontier_per_owner c)"
      using True unfolding frontier_cells_def
      by (simp, subst length_concat_uniform [of _ "nat (relation_frontier_per_owner c)"]) auto
    moreover have "\<exists>b g. cell = hop_of b g \<and> edge_legal c g" if "cell \<in> set (frontier_cells c tables s r)" for cell
    proof -
      from that True obtain table where table: "table \<in> set tables"
          "cell \<in> set (hop_cells r (filter (edge_matches r) (table ! nat s))) \<or> cell = empty_hop"
        by (auto simp: frontier_cells_def compacted_cells_def dest!: in_set_takeD)
      from table(2) show ?thesis
      proof
        assume "cell \<in> set (hop_cells r (filter (edge_matches r) (table ! nat s)))"
        then obtain f where "f \<in> set (table ! nat s)" "cell = hop_of (edge_matches r f) f"
          unfolding hop_cells_def set_map set_filter by blast
        with tables_bucket(2) [OF tables table(1) s] show ?thesis by blast
      qed (use padding in simp)
    qed
    ultimately show ?thesis
      using True tables frontier_bounds(1) [OF c] by (auto simp: hops_legal_def frontier_edges_def tables_ok_def nat_mult_distrib)
  next
    case False
    then have "hops_legal c (frontier_cells c tables s r)"
      unfolding frontier_cells_def hop_cells_def hops_legal_def using tables_block(2) [OF c tables s] by fastforce
    with False tables_block(1) [OF c tables s] show ?thesis by (simp add: frontier_cells_def)
  qed
qed

text \<open>The first hop of query \<open>q\<close>, as either circuit computes it.\<close>

lemma first_blocks_nth:
  assumes c: "valid_config c" and bits: "packed_edge_bits c \<le> w" and tables: "tables_ok c tables"
    and sources: "list_all (\<lambda>s. 0 \<le> s \<and> s < entity_count c) sources"
    and q: "q < length sources" and i: "i < nat (block_edges c)"
  shows "oblivious_batch_read ops c (graph_of c tables) sources ! (q * nat (block_edges c) + i) =
    packed_value c (block_at tables (sources ! q) ! i)"
proof -
  have range: "0 \<le> s \<and> s < entity_count c" if "s \<in> set sources" for s using that sources by (simp add: list_all_iff)
  have "length (graph_of c tables ! nat a) = nat (block_edges c)" if "a \<in> set sources" for a
    using range [OF that] tables_block(1,3) [OF c tables, of a] by simp
  then have "oblivious_batch_read ops c (graph_of c tables) sources ! (q * nat (block_edges c) + i) =
      graph_of c tables ! nat (sources ! q) ! i"
    unfolding oblivious_batch_read_spec [OF bits graph_of_ok [OF c bits tables] sources]
    by (rule concat_map_nth) (use q i in simp_all)
  then show ?thesis
    using range [of "sources ! q"] q i tables_block(1,3) [OF c tables, of "sources ! q"] by simp
qed

lemma first_cells_spec:
  assumes c: "valid_config c" and bits: "packed_edge_bits c \<le> w" and tables: "tables_ok c tables"
    and sources: "list_all (\<lambda>s. 0 \<le> s \<and> s < entity_count c) sources"
    and q: "q < length sources" and r: "in_prime p r"
  shows "map (\<lambda>i. full_hop_cell ops c 1 r
        (oblivious_batch_read ops c (graph_of c tables) sources ! (q * nat (block_edges c) + i))) [0..<nat (block_edges c)] =
      hop_cells r (block_at tables (sources ! q))"
    and "map (\<lambda>i. raw_hop_cell ops c 1 r
        (oblivious_batch_read ops c (graph_of c tables) sources ! (q * nat (block_edges c) + i))) [0..<nat (block_edges c)] =
      hop_cells r (block_at tables (sources ! q))"
proof -
  have s: "0 \<le> sources ! q" "sources ! q < entity_count c" using sources q by (simp_all add: list_all_length)
  note block = tables_block [OF c tables s]
  have legal: "edge_legal c (block_at tables (sources ! q) ! i)" if "i < nat (block_edges c)" for i
    using block(2) [OF nth_mem] block(1) that by simp
  note cell = hop_cell_spec [OF bits legal r, of _ True]
  show "map (\<lambda>i. full_hop_cell ops c 1 r
        (oblivious_batch_read ops c (graph_of c tables) sources ! (q * nat (block_edges c) + i))) [0..<nat (block_edges c)] =
      hop_cells r (block_at tables (sources ! q))"
    "map (\<lambda>i. raw_hop_cell ops c 1 r
        (oblivious_batch_read ops c (graph_of c tables) sources ! (q * nat (block_edges c) + i))) [0..<nat (block_edges c)] =
      hop_cells r (block_at tables (sources ! q))"
    using cell block(1) first_blocks_nth [OF c bits tables sources q]
    by (intro nth_equalityI; simp add: hop_cells_def)+
qed

text \<open>Both circuits compute the ranking of the oracle's candidates, query by query.\<close>

lemma scan_results_spec:
  assumes c: "valid_config c" and bits: "packed_edge_bits c \<le> w" and tables: "tables_ok c tables"
    and ids: "\<And>s r1 r2. (s, r1, r2) \<in> set ids \<Longrightarrow> 1 \<le> s \<and> s < entity_count c \<and> in_prime p r1 \<and> in_prime p r2"
    and cands: "\<And>q. q < length ids \<Longrightarrow> reference_candidates c tables (ids ! q) = Inr (cands q)"
    and shares: "shares_of p inputs (concat (map query_triple ids) @ concat (graph_of c tables) @ rest)"
  shows "scan_results ops c (length ids) inputs =
      map (\<lambda>q. top_k_results (deduplicate_terminal_answers c) (top_k c) (cands q)) [0..<length ids] \<and>
    list_all (\<lambda>rows. list_all (row_ok p) rows \<and> length rows = nat (top_k c)) (scan_results ops c (length ids) inputs)"
proof -
  let ?n = "length ids" and ?g = "graph_of c tables" and ?B = "nat (block_edges c)"
  let ?sources = "map fst ids"
  obtain inputs1 where m1: "shared_matrix ops ?n 3 inputs = (map query_triple ids, inputs1)"
      "shares_of p inputs1 (concat ?g @ rest)"
  proof -
    have "length r = 3" if "r \<in> set (map query_triple ids)" for r using that by (auto simp: query_triple_def)
    from shared_matrix_spec [OF shares _ this] that show thesis by simp blast
  qed
  have glen: "length ?g = nat (entity_count c)" "\<And>r. r \<in> set ?g \<Longrightarrow> length r = ?B"
    using graph_of_ok [OF c bits tables] by (auto simp: graph_ok_def list_all_iff)
  obtain inputs2 where m2: "shared_matrix ops (nat (entity_count c)) ?B inputs1 = (?g, inputs2)"
    using shared_matrix_spec [OF m1(2) glen] by blast
  have id: "1 \<le> fst (ids ! q)" "fst (ids ! q) < entity_count c" "in_prime p (fst (snd (ids ! q)))"
      "in_prime p (snd (snd (ids ! q)))" if "q < ?n" for q
    using ids [of "fst (ids ! q)" "fst (snd (ids ! q))" "snd (snd (ids ! q))"] that by simp_all
  have range: "list_all (\<lambda>s. 0 \<le> s \<and> s < entity_count c) ?sources"
    using id by (simp add: list_all_length) (meson order_trans zero_le_one)
  have triple: "map query_triple ids ! q ! 0 = fst (ids ! q)" "map query_triple ids ! q ! 1 = fst (snd (ids ! q))"
      "map query_triple ids ! q ! 2 = snd (snd (ids ! q))" if "q < ?n" for q
    using that by (simp_all add: query_triple_def split: prod.split)
  have guards: "map (\<lambda>query. query_guard ops c (query ! 0)) (map query_triple ids) = map (\<lambda>s. (1, s)) ?sources"
  proof -
    have "query_guard ops c (query_triple t ! 0) = (1, fst t)" if "t \<in> set ids" for t
      using query_guard_spec [OF bits] ids that by (cases t) (simp add: query_triple_def)
    then show ?thesis by (simp add: comp_def)
  qed
  have guard: "fst (map (\<lambda>s. (1, s)) ?sources ! q) = 1" if "q < ?n" for q :: nat using that by simp
  have snds: "map snd (map (\<lambda>s. (1 :: int, s)) ?sources) = ?sources" by (simp add: comp_def)
  define F where "F q = frontier_cells c tables (fst (ids ! q)) (fst (snd (ids ! q)))" for q
  let ?W = "nat (if uses_frontier_compaction c then frontier_edges c else block_edges c)"
  have F: "length (F q) = ?W \<and> hops_legal c (F q)" if "q < ?n" for q
    unfolding F_def using id [OF that] by (intro frontier_cells_legal [OF c tables]) simp_all
  have entries: "concat (map (expand_entry c tables (snd (snd (ids ! q)))) (cell_entries 0 (F q))) = cands q" if "q < ?n" for q
    using cands [OF that] frontier_entries_cells [OF c]
    by (auto simp: reference_candidates_def F_def res_simps split: prod.splits)
  let ?read = "oblivious_batch_read ops c ?g"
  have final: "rank_block ops (deduplicate_terminal_answers c) (nat (top_k c))
      (candidate_cells ops c ?W (concat (map F [0..<?n])) (?read (map hop_address (concat (map F [0..<?n]))))
        (snd (snd (ids ! q))) q) =
      top_k_results (deduplicate_terminal_answers c) (top_k c) (cands q) \<and>
      list_all (row_ok p) (top_k_results (deduplicate_terminal_answers c) (top_k c) (cands q)) \<and>
      length (top_k_results (deduplicate_terminal_answers c) (top_k c) (cands q)) = nat (top_k c)" if "q < ?n" for q
  proof -
    let ?pairs = "concat (map (\<lambda>cell. map (pair_cell c cell (snd (snd (ids ! q)))) (block_at tables (hop_address cell))) (F q))"
    have "candidate_cells ops c ?W (concat (map F [0..<?n])) (?read (map hop_address (concat (map F [0..<?n]))))
        (snd (snd (ids ! q))) q = ?pairs"
      by (rule candidate_cells_spec(1) [OF c bits tables _ id(4) [OF that] that]) (rule F)
    moreover have ok: "list_all (cell_ok p w) ?pairs"
      by (rule candidate_cells_spec(2) [OF c bits tables _ id(4) [OF that] that]) (rule F)
    moreover have "rank_block ops (deduplicate_terminal_answers c) (nat (top_k c)) ?pairs =
        top_k_results (deduplicate_terminal_answers c) (top_k c) (cands q)"
      using ranked_candidates [OF c tables conjunct2 [OF F [OF that]] ok] by (simp only: entries [OF that])
    ultimately show ?thesis
      using rank_block_rows [OF ok valid_top_k(1) [OF c], of "deduplicate_terminal_answers c"] by simp
  qed
  note first = first_cells_spec [OF c bits tables range]
  show ?thesis
  proof (cases "uses_frontier_compaction c")
    case False
    have cells: "map (\<lambda>i. full_hop_cell ops c (fst (map (\<lambda>s. (1, s)) ?sources ! q)) (map query_triple ids ! q ! 1)
        (?read ?sources ! (q * ?B + i))) [0..<?B] = F q" if "q < ?n" for q
      unfolding guard [OF that] triple(2) [OF that]
      using first(1) [of q "fst (snd (ids ! q))"] that id(3) [OF that] False by (simp add: F_def frontier_cells_def)
    have "concat (map (\<lambda>q. map (\<lambda>i. full_hop_cell ops c (fst (map (\<lambda>s. (1, s)) ?sources ! q)) (map query_triple ids ! q ! 1)
        (?read ?sources ! (q * ?B + i))) [0..<?B]) [0..<?n]) = concat (map F [0..<?n])"
      by (intro arg_cong [where f = concat] map_cong refl cells) simp
    then have "full_frontier_results ops c ?n inputs = map (\<lambda>q. rank_block ops (deduplicate_terminal_answers c) (nat (top_k c))
        (candidate_cells ops c ?B (concat (map F [0..<?n])) (?read (map hop_address (concat (map F [0..<?n]))))
          (map query_triple ids ! q ! 2) q)) [0..<?n]"
      unfolding full_frontier_results_def Let_def m1(1) prod.case m2 guards snds by simp
    then show ?thesis
      using False final triple(3) by (simp add: scan_results_def list_all_iff)
  next
    case True
    have cells: "compact_frontier ops c (map (\<lambda>i. raw_hop_cell ops c (fst (map (\<lambda>s. (1, s)) ?sources ! q)) (map query_triple ids ! q ! 1)
        (?read ?sources ! (q * ?B + i))) [0..<?B]) = F q" if "q < ?n" for q
      unfolding guard [OF that] triple(2) [OF that]
      using first(2) [of q "fst (snd (ids ! q))"] that id [OF that] True compact_frontier_spec [OF c bits tables, of "fst (ids ! q)"]
      by (simp add: F_def frontier_cells_def)
    have "concat (map (compact_frontier ops c) (map (\<lambda>q. map (\<lambda>i. raw_hop_cell ops c (fst (map (\<lambda>s. (1, s)) ?sources ! q))
        (map query_triple ids ! q ! 1) (?read ?sources ! (q * ?B + i))) [0..<?B]) [0..<?n])) = concat (map F [0..<?n])"
      by (intro arg_cong [where f = concat], subst map_map, intro map_cong refl, unfold comp_def, intro cells) simp
    then have "compacted_frontier_results ops c ?n inputs = map (\<lambda>q. rank_block ops (deduplicate_terminal_answers c) (nat (top_k c))
        (candidate_cells ops c (nat (frontier_edges c)) (concat (map F [0..<?n])) (?read (map hop_address (concat (map F [0..<?n]))))
          (map query_triple ids ! q ! 2) q)) [0..<?n]"
      unfolding compacted_frontier_results_def Let_def m1(1) prod.case m2 guards snds by simp
    then show ?thesis
      using True final triple(3) by (simp add: scan_results_def list_all_iff)
  qed
qed

end

end
