(* ===== verification/Decode_Batch.thy ===== *)
theory Decode_Batch
  imports Top_K Field_Sharing
begin

text \<open>
  The client's side of a run (\<open>decode_batch.py\<close> and, for the single-query circuits,
  \<open>decode.py\<close>): the shares printed in the three servers' logs are collected by output
  position and reconstructed.  A log is the list of the matches of the \<open>LINE\<close> pattern, in
  order; a match is a tuple of integers, the claimed server before the value.  The two decoders differ in the
  key of a share (query, rank and field, or rank and field), so the collection is shared.
\<close>

section \<open>Collecting shares\<close>

definition add_share :: "'k \<Rightarrow> int \<Rightarrow> int \<Rightarrow> ('k \<times> (int \<times> int) list) list \<Rightarrow> ('k \<times> (int \<times> int) list) list res" where
  "add_share key server v shares =
     (let server_shares = get_or [] shares key in
      if server \<in> fst ` set server_shares then Inl (ValueError ''duplicate output share'')
      else Inr (AList.update key (AList.update server v server_shares) shares))"

definition shares_complete :: "'k list \<Rightarrow> ('k \<times> (int \<times> int) list) list \<Rightarrow> bool" where
  "shares_complete expected shares \<longleftrightarrow> fst ` set shares = set expected \<and>
     list_all (\<lambda>(key, server_shares). fst ` set server_shares = int ` {0..<SERVER_COUNT}) shares"

definition share_pieces :: "('k \<times> (int \<times> int) list) list \<Rightarrow> 'k \<Rightarrow> int list" where
  "share_pieces shares key = map (\<lambda>server. get_or 0 (get_or [] shares key) (int server)) [0..<SERVER_COUNT]"

text \<open>The row of four reconstructed fields, with the two checks on it.\<close>

definition result_row_of :: "int list \<Rightarrow> result_row" where
  "result_row_of xs = \<lparr>valid = xs ! 0, left_evidence = xs ! 1, right_evidence = xs ! 2, score = xs ! 3\<rparr>"

definition checked_row :: "result_row \<Rightarrow> result_row res" where
  "checked_row row =
     (if valid row \<notin> {0, 1} then Inl (ValueError ''MPC returned a non-boolean validity value'')
      else if valid row = 0 \<and> (left_evidence row \<noteq> 0 \<or> right_evidence row \<noteq> 0 \<or> score row \<noteq> 0)
      then Inl (ValueError ''invalid MPC result has non-zero payload'')
      else Inr row)"

section \<open>The batch decoder\<close>

text \<open>Query, rank, field, claimed server, value.\<close>

type_synonym batch_match = "int \<times> int \<times> int \<times> int \<times> int"

definition decode_batch_line ::
  "public_config \<Rightarrow> int \<Rightarrow> int \<Rightarrow> batch_match \<Rightarrow> ((int \<times> int \<times> int) \<times> (int \<times> int) list) list \<Rightarrow>
    ((int \<times> int \<times> int) \<times> (int \<times> int) list) list res" where
  "decode_batch_line c query_count expected_server = (\<lambda>(query, rank, field, claimed_server, v) shares.
     if claimed_server \<noteq> expected_server then Inl (ValueError ''output log'')
     else if \<not> (0 \<le> query \<and> query < query_count)
     then Inl (ValueError ''output contains an out-of-range query index'')
     else if \<not> (0 \<le> rank \<and> rank < top_k c)
     then Inl (ValueError ''output contains an out-of-range result rank'')
     else add_share (query, rank, field) expected_server (v mod field_prime c) shares)"

definition batch_row :: "public_config \<Rightarrow> ((int \<times> int \<times> int) \<times> (int \<times> int) list) list \<Rightarrow> int \<Rightarrow> int \<Rightarrow> result_row res" where
  "batch_row c shares query rank =
     bindr (traverse (\<lambda>field. reconstruct (field_prime c) (share_pieces shares (query, rank, int field))) [0..<4])
       (\<lambda>xs. checked_row (result_row_of xs))"

definition decode_batch_logs :: "public_config \<Rightarrow> int \<Rightarrow> batch_match list list \<Rightarrow> result_row list list res" where
  "decode_batch_logs c query_count logs =
     (if query_count < 1 then Inl (ValueError ''query_count must be positive'')
      else if length logs \<noteq> SERVER_COUNT
      then Inl (ValueError ''the client must receive exactly one output log from each server'')
      else
      bindr (foldM (\<lambda>(server, log) shares. foldM (decode_batch_line c query_count (int server)) log shares)
          (enumerate 0 logs) []) (\<lambda>shares.
      if \<not> shares_complete [(query, rank, field). query \<leftarrow> [0..query_count - 1], rank \<leftarrow> [0..top_k c - 1], field \<leftarrow> [0..3]] shares
      then Inl (ValueError ''missing or unexpected output shares'')
      else traverse (\<lambda>query. traverse (batch_row c shares query) [0..top_k c - 1]) [0..query_count - 1]))"

section \<open>The single-query decoder\<close>

text \<open>Rank, field, claimed server, value.\<close>

type_synonym rank_match = "int \<times> int \<times> int \<times> int"

definition decode_rank_line ::
  "public_config \<Rightarrow> int \<Rightarrow> rank_match \<Rightarrow> ((int \<times> int) \<times> (int \<times> int) list) list \<Rightarrow> ((int \<times> int) \<times> (int \<times> int) list) list res" where
  "decode_rank_line c expected_server = (\<lambda>(rank, field, claimed_server, v) shares.
     if claimed_server \<noteq> expected_server then Inl (ValueError ''output log'')
     else if \<not> (0 \<le> rank \<and> rank < top_k c)
     then Inl (ValueError ''output contains an out-of-range result rank'')
     else add_share (rank, field) expected_server (v mod field_prime c) shares)"

definition rank_row :: "public_config \<Rightarrow> ((int \<times> int) \<times> (int \<times> int) list) list \<Rightarrow> int \<Rightarrow> result_row res" where
  "rank_row c shares rank =
     bindr (traverse (\<lambda>field. reconstruct (field_prime c) (share_pieces shares (rank, int field))) [0..<4])
       (\<lambda>xs. checked_row (result_row_of xs))"

definition decode_logs :: "public_config \<Rightarrow> rank_match list list \<Rightarrow> result_row list res" where
  "decode_logs c logs =
     (if length logs \<noteq> SERVER_COUNT
      then Inl (ValueError ''the client must receive exactly one output log from each server'')
      else
      bindr (foldM (\<lambda>(server, log) shares. foldM (decode_rank_line c (int server)) log shares)
          (enumerate 0 logs) []) (\<lambda>shares.
      if \<not> shares_complete [(rank, field). rank \<leftarrow> [0..top_k c - 1], field \<leftarrow> [0..3]] shares
      then Inl (ValueError ''missing or unexpected output shares'')
      else traverse (rank_row c shares) [0..top_k c - 1]))"

section \<open>Collection succeeds on distinct shares\<close>

type_synonym 'k located_share = "'k \<times> int \<times> int"

abbreviation add_located :: "'k located_share \<Rightarrow> ('k \<times> (int \<times> int) list) list \<Rightarrow> ('k \<times> (int \<times> int) list) list res" where
  "add_located \<equiv> \<lambda>(key, server, v). add_share key server v"

lemma add_all_shares:
  assumes "distinct (map (\<lambda>(key, server, v). (key, server)) xs)"
    and "\<And>key server v. (key, server, v) \<in> set xs \<Longrightarrow> server \<notin> fst ` set (get_or [] shares key)"
  shows "\<exists>out. foldM add_located xs shares = Inr out \<and> fst ` set out = fst ` set shares \<union> fst ` set xs \<and>
    (\<forall>key. fst ` set (get_or [] out key) = fst ` set (get_or [] shares key) \<union> {server. \<exists>v. (key, server, v) \<in> set xs}) \<and>
    (\<forall>key server. get_or 0 (get_or [] out key) server =
      (case map_of (map (\<lambda>(key, server, v). ((key, server), v)) xs) (key, server) of
         None \<Rightarrow> get_or 0 (get_or [] shares key) server | Some v \<Rightarrow> v))"
  using assms
proof (induction xs arbitrary: shares)
  case (Cons x xs)
  obtain k s v where x: "x = (k, s, v)" by (metis prod.exhaust)
  let ?new = "AList.update k (AList.update s v (get_or [] shares k)) shares"
  have fresh: "s \<notin> fst ` set (get_or [] shares k)" using Cons.prems(2) [of k s v] by (simp add: x)
  then have step: "add_located x shares = Inr ?new" by (simp add: x add_share_def Let_def)
  have new: "(k, s) \<notin> (\<lambda>(key, server, v). (key, server)) ` set xs" using Cons.prems(1) by (simp add: x)
  have fresh_rest: "server \<notin> fst ` set (get_or [] ?new key)" if "(key, server, u) \<in> set xs" for key server u
  proof -
    have "server \<notin> fst ` set (get_or [] shares key)" using that Cons.prems(2) [of key server u] by simp
    moreover have "(key, server) \<noteq> (k, s)" using that new by force
    ultimately show ?thesis by (auto simp: dom_update)
  qed
  have dist: "distinct (map (\<lambda>(key, server, v). (key, server)) xs)" using Cons.prems(1) by simp
  have "\<exists>out. foldM add_located xs ?new = Inr out \<and> fst ` set out = fst ` set ?new \<union> fst ` set xs \<and>
      (\<forall>key. fst ` set (get_or [] out key) = fst ` set (get_or [] ?new key) \<union> {server. \<exists>v. (key, server, v) \<in> set xs}) \<and>
      (\<forall>key server. get_or 0 (get_or [] out key) server =
        (case map_of (map (\<lambda>(key, server, v). ((key, server), v)) xs) (key, server) of
           None \<Rightarrow> get_or 0 (get_or [] ?new key) server | Some v \<Rightarrow> v))"
    by (rule Cons.IH [OF dist]) (rule fresh_rest)
  then obtain out where
    out: "foldM add_located xs ?new = Inr out" "fst ` set out = fst ` set ?new \<union> fst ` set xs"
      "\<forall>key. fst ` set (get_or [] out key) = fst ` set (get_or [] ?new key) \<union> {server. \<exists>v. (key, server, v) \<in> set xs}"
      "\<forall>key server. get_or 0 (get_or [] out key) server =
        (case map_of (map (\<lambda>(key, server, v). ((key, server), v)) xs) (key, server) of
           None \<Rightarrow> get_or 0 (get_or [] ?new key) server | Some v \<Rightarrow> v)"
    by (elim exE conjE) (rule that)
  have none: "map_of (map (\<lambda>(key, server, v). ((key, server), v)) xs) (k, s) = None"
    using new by (force simp: map_of_eq_None_iff)
  show ?case
  proof (intro exI [of _ out] conjI allI)
    show "foldM add_located (x # xs) shares = Inr out" using step out(1) by simp
    show "fst ` set out = fst ` set shares \<union> fst ` set (x # xs)" using out(2) by (auto simp: dom_update x)
    show "fst ` set (get_or [] out key) = fst ` set (get_or [] shares key) \<union> {server. \<exists>v. (key, server, v) \<in> set (x # xs)}" for key
      using out(3) by (auto simp: dom_update x)
    show "get_or 0 (get_or [] out key) server =
      (case map_of (map (\<lambda>(key, server, v). ((key, server), v)) (x # xs)) (key, server) of
         None \<Rightarrow> get_or 0 (get_or [] shares key) server | Some v \<Rightarrow> v)" for key server
      using out(4) none by (auto simp: x split: option.split)
  qed
qed simp

lemma add_shares_distinct:
  "foldM add_located xs shares = Inr out \<Longrightarrow> distinct (map fst shares) \<Longrightarrow> distinct (map fst out)"
proof (induction xs arbitrary: shares)
  case (Cons x xs)
  obtain k s v where x: "x = (k, s, v)" by (metis prod.exhaust)
  from Cons.prems(1) obtain shares' where step: "add_share k s v shares = Inr shares'" "foldM add_located xs shares' = Inr out"
    by (auto simp: x res_simps)
  from step(1) Cons.prems(2) have "distinct (map fst shares')"
    by (auto simp: add_share_def Let_def distinct_update split: if_splits)
  with Cons.IH step(2) show ?case by blast
qed simp

lemma collect_shares:
  assumes "distinct (map (\<lambda>(key, server, v). (key, server)) xs)"
  shows "\<exists>out. foldM add_located xs [] = Inr out \<and> distinct (map fst out) \<and> fst ` set out = fst ` set xs \<and>
    (\<forall>key. fst ` set (get_or [] out key) = {server. \<exists>v. (key, server, v) \<in> set xs}) \<and>
    (\<forall>key server. get_or 0 (get_or [] out key) server =
      (case map_of (map (\<lambda>(key, server, v). ((key, server), v)) xs) (key, server) of None \<Rightarrow> 0 | Some v \<Rightarrow> v))"
proof -
  have "\<exists>out. foldM add_located xs [] = Inr out \<and> fst ` set out = fst ` set xs \<and>
    (\<forall>key. fst ` set (get_or [] out key) = {server. \<exists>v. (key, server, v) \<in> set xs}) \<and>
    (\<forall>key server. get_or 0 (get_or [] out key) server =
      (case map_of (map (\<lambda>(key, server, v). ((key, server), v)) xs) (key, server) of None \<Rightarrow> 0 | Some v \<Rightarrow> v))"
    using add_all_shares [OF assms, of "[]"]
    by (simp only: get_or_Nil list.set image_empty Un_empty_left empty_iff not_False_eq_True simp_thms)
  with add_shares_distinct [of xs "[]"] show ?thesis by (elim exE conjE) (intro exI conjI, assumption, simp_all)
qed

end
