(* ===== verification/Scan_Pipeline.thy ===== *)
theory Scan_Pipeline
  imports Scan_Refinement Decode_Batch
begin

text \<open>
  The scan backend from files to answers: the owners' shards and the client's query batch
  (\<open>packed.py\<close>), the assembly at each server (\<open>prepare_scan.py\<close>), the generated circuit
  (\<open>scan_program.py\<close>), its output shares, and the client's decoder (\<open>decode_batch.py\<close>).  The
  components meet here, and what the client decodes is what the cleartext oracle of
  \<open>reference.py\<close> computes.
\<close>

section \<open>Emission\<close>

definition line_key :: "int \<times> int \<times> int \<times> int \<Rightarrow> int \<times> int \<times> int" where
  "line_key = (\<lambda>(query_index, rank, field, v). (query_index, rank, field))"

text \<open>An emitted output with the three shares it was printed as.\<close>

type_synonym shared_output = "(int \<times> int \<times> int \<times> int) \<times> triple"

definition printed_as :: "int \<Rightarrow> shared_output \<Rightarrow> bool" where
  "printed_as p = (\<lambda>((query_index, rank, field, v), (x, y, z)).
     reconstruct p [x, y, z] = Inr v \<and> x mod p = x \<and> y mod p = y \<and> z mod p = z)"

definition server_log :: "int \<Rightarrow> (triple \<Rightarrow> int) \<Rightarrow> shared_output list \<Rightarrow> batch_line list" where
  "server_log server piece = map (\<lambda>((query_index, rank, field, v), t). (query_index, rank, field, server, piece t))"

lemma printed_member:
  assumes "list_all (printed_as p) zs" and "((q, r, f, v), t) \<in> set zs"
  shows "case t of (x, y, z) \<Rightarrow> reconstruct p [x, y, z] = Inr v \<and> x mod p = x \<and> y mod p = y \<and> z mod p = z"
  using assms by (fastforce simp: list_all_iff printed_as_def)

context mpc_machine
begin

lemma emit_output_shares_spec:
  assumes "in_prime p v"
  shows "\<exists>x y z g'. emit_output_shares ops p query_index rank field v g =
      (((query_index, rank, field, 0, x), (query_index, rank, field, 1, y), (query_index, rank, field, 2, z)), g') \<and>
    printed_as p ((query_index, rank, field, v), (x, y, z))"
proof -
  let ?x = "int (g 0 mod nat p)" and ?y = "int (g 1 mod nat p)"
  let ?z = "((v - ?x) mod p - ?y) mod p"
  have p: "0 < nat p" "0 < p" using p_gt_1 by simp_all
  have less: "in_prime p (int (k mod nat p))" for k
    using mod_less_divisor [OF p(1), of k] by (auto simp: in_prime_def)
  have x: "in_prime p ?x" "in_prime p ?y" by (rule less)+
  have first: "m_sub ops v ?x = (v - ?x) mod p" using sub [OF assms x(1)] .
  have "in_prime p ((v - ?x) mod p)" using p by (simp add: in_prime_def)
  then have z: "m_sub ops (m_sub ops v ?x) ?y = ?z" using sub x(2) by (simp add: first)
  have zin: "in_prime p ?z" using p by (simp add: in_prime_def)
  have "(?x + (?y + ?z)) mod p = (?x + ?y + (v - ?x - ?y)) mod p"
    by (metis add.assoc mod_add_right_eq mod_diff_left_eq)
  also have "\<dots> = v" using in_prime_mod [OF assms] by simp
  finally have "printed_as p ((query_index, rank, field, v), (?x, ?y, ?z))"
    using x zin in_prime_mod by (simp add: printed_as_def reconstruct_def SERVER_COUNT_def in_prime_def)
  moreover have "emit_output_shares ops p query_index rank field v g =
      (((query_index, rank, field, 0, ?x), (query_index, rank, field, 1, ?y), (query_index, rank, field, 2, ?z)),
       \<lambda>i. g (Suc (Suc i)))"
    using z by (simp add: emit_output_shares_def randbelow_simp Let_def)
  ultimately show ?thesis by blast
qed

lemma emit_all_spec:
  assumes "\<And>q r f v. (q, r, f, v) \<in> set outs \<Longrightarrow> in_prime p v"
  shows "\<exists>zs g'. map fst zs = outs \<and> list_all (printed_as p) zs \<and>
    emit_all ops p outs g =
      ((server_log 0 fst zs, server_log 1 (fst \<circ> snd) zs, server_log 2 (snd \<circ> snd) zs), g')"
  using assms
proof (induction outs arbitrary: g)
  case Nil
  show ?case by (simp add: server_log_def)
next
  case (Cons out outs)
  obtain q r f v where out: "out = (q, r, f, v)" by (metis prod.exhaust)
  obtain x y z g1 where one: "emit_output_shares ops p q r f v g = (((q, r, f, 0, x), (q, r, f, 1, y), (q, r, f, 2, z)), g1)"
      "printed_as p ((q, r, f, v), (x, y, z))"
    using emit_output_shares_spec [of v q r f g] Cons.prems [of q r f v] out by auto
  obtain zs g' where rest: "map fst zs = outs" "list_all (printed_as p) zs"
      "emit_all ops p outs g1 =
        ((server_log 0 fst zs, server_log 1 (fst \<circ> snd) zs, server_log 2 (snd \<circ> snd) zs), g')"
    using Cons.IH [of g1] Cons.prems by (metis list.set_intros(2))
  then show ?case
    using one by (intro exI [of _ "((q, r, f, v), (x, y, z)) # zs"] exI [of _ g']) (simp add: out server_log_def)
qed

end

section \<open>The outputs of a run\<close>

lemma distinct_concat_tagged:
  assumes "distinct (map tag xs)" and "\<And>x. x \<in> set xs \<Longrightarrow> distinct (f x) \<and> (\<forall>y \<in> set (f x). label y = tag x)"
  shows "distinct (concat (map f xs))"
  using assms
proof (induction xs)
  case (Cons x xs)
  have "y \<notin> set (f x')" if "y \<in> set (f x)" "x' \<in> set xs" for x' y
    using that Cons.prems(1) Cons.prems(2) [of x] Cons.prems(2) [of x'] by force
  then have "set (f x) \<inter> set (concat (map f xs)) = {}" by auto
  with Cons show ?case by simp
qed simp

lemma enumerate_nth: "enumerate 0 xs = map (\<lambda>i. (i, xs ! i)) [0..<length xs]"
  by (rule nth_equalityI) (simp_all add: nth_enumerate_eq)

lemma result_outputs_nth:
  "result_outputs results = concat (map (\<lambda>i. concat (map (\<lambda>j. map (\<lambda>k.
     (int i, int j, int k, row_outputs (results ! i ! j) ! k)) [0..<4]) [0..<length (results ! i)])) [0..<length results])"
proof -
  have four: "length (row_outputs row) = 4" for row by (simp add: row_outputs_def)
  show ?thesis
    unfolding result_outputs_def enumerate_nth map_map comp_def prod.case four ..
qed

lemma result_outputs_member:
  "x \<in> set (result_outputs results) \<longleftrightarrow>
    (\<exists>i < length results. \<exists>j < length (results ! i). \<exists>k < 4.
      x = (int i, int j, int k, row_outputs (results ! i ! j) ! k))"
  unfolding result_outputs_nth by (auto simp: image_iff)

lemma result_outputs_keys:
  "line_key ` set (result_outputs results) =
    {(int i, int j, int k) | i j k. i < length results \<and> j < length (results ! i) \<and> k < 4}"
proof -
  have "line_key ` set (result_outputs results) = set (map line_key (result_outputs results))" by simp
  also have "\<dots> = {(int i, int j, int k) | i j k. i < length results \<and> j < length (results ! i) \<and> k < 4}"
    unfolding result_outputs_nth map_concat map_map comp_def line_key_def prod.case by (auto simp: image_iff)
  finally show ?thesis .
qed

lemma result_outputs_distinct: "distinct (map line_key (result_outputs results))"
proof -
  have row: "map line_key (map (\<lambda>k. (q, r, int k, f k)) [0..<4]) = map (\<lambda>k. (q, r, int k)) [0..<4]" for q r and f :: "nat \<Rightarrow> int"
    by (simp add: line_key_def)
  have rank: "distinct (concat (map (\<lambda>j. map (\<lambda>k. (q :: int, int j, int k)) [0..<4 :: nat]) [0..<n :: nat]))" for q n
    by (rule distinct_concat_tagged [where tag = "\<lambda>j. j" and label = "\<lambda>(q, r, f). nat r"]) (auto simp: distinct_map inj_on_def)
  show ?thesis
    unfolding result_outputs_nth map_concat map_map comp_def row
    by (rule distinct_concat_tagged [where tag = "\<lambda>j. j" and label = "\<lambda>(q, r, f). nat q"])
      (auto simp: rank line_key_def)
qed

section \<open>Decoding an honest run\<close>

definition located :: "int \<Rightarrow> (triple \<Rightarrow> int) \<Rightarrow> shared_output list \<Rightarrow> (int \<times> int \<times> int) located_share list" where
  "located server piece = map (\<lambda>(out, t). (line_key out, server, piece t))"

lemma foldM_relabel: "(\<And>x s. x \<in> set xs \<Longrightarrow> f x s = g (h x) s) \<Longrightarrow> foldM f xs s = foldM g (map h xs) s"
  by (induction xs arbitrary: s) (simp_all cong: bindr_cong)

lemma decode_log:
  assumes "\<And>q r f v t. ((q, r, f, v), t) \<in> set zs \<Longrightarrow> 0 \<le> q \<and> q < n \<and> 0 \<le> r \<and> r < top_k c \<and> piece t mod field_prime c = piece t"
  shows "foldM (decode_batch_line c n server) (server_log server piece zs) shares = foldM add_located (located server piece zs) shares"
proof -
  have "foldM add_located (map (\<lambda>(out, t). (line_key out, server, piece t)) zs) shares =
      foldM (\<lambda>((q, r, f, v), t). decode_batch_line c n server (q, r, f, server, piece t)) zs shares"
    by (rule foldM_relabel [symmetric]) (use assms in \<open>fastforce simp: decode_batch_line_def line_key_def\<close>)
  moreover have "foldM (decode_batch_line c n server) (server_log server piece zs) shares =
      foldM (\<lambda>((q, r, f, v), t). decode_batch_line c n server (q, r, f, server, piece t)) zs shares"
    unfolding server_log_def by (rule foldM_relabel [symmetric]) auto
  ultimately show ?thesis by (simp add: located_def)
qed

lemma distinct_located:
  assumes "distinct (map line_key (map fst zs))"
  shows "distinct (map (\<lambda>(key, server, v). (key, server)) (located 0 a zs @ located 1 b zs @ located 2 c zs))"
proof -
  have one: "map (\<lambda>(key, server, v). (key, server)) (located s f zs) = map (\<lambda>key. (key, s)) (map line_key (map fst zs))" for s f
    by (simp add: located_def case_prod_unfold comp_def)
  have "distinct (map (\<lambda>key. (key, s)) (map line_key (map fst zs)))" for s :: int
    using assms by (simp add: distinct_map inj_on_def del: map_map)
  then show ?thesis unfolding map_append one by (auto simp del: map_map)
qed

lemma located_value:
  assumes "distinct (map line_key (map fst zs))" and "(out, t) \<in> set zs" and "server < 3"
  shows "map_of (map (\<lambda>(key, server, v). ((key, server), v))
      (located 0 fst zs @ located 1 (fst \<circ> snd) zs @ located 2 (snd \<circ> snd) zs)) (line_key out, int server) =
    Some (case t of (x, y, z) \<Rightarrow> [x, y, z] ! server)"
proof (rule map_of_is_SomeI)
  show "distinct (map fst (map (\<lambda>(key, server, v). ((key, server), v))
      (located 0 fst zs @ located 1 (fst \<circ> snd) zs @ located 2 (snd \<circ> snd) zs)))"
    using distinct_located [OF assms(1), of fst "fst \<circ> snd" "snd \<circ> snd"]
    unfolding map_map by (simp add: comp_def case_prod_unfold)
  obtain x y z where t: "t = (x, y, z)" by (metis prod.exhaust)
  consider "server = 0" | "server = 1" | "server = 2" using assms(3) by linarith
  then show "((line_key out, int server), case t of (x, y, z) \<Rightarrow> [x, y, z] ! server) \<in>
      set (map (\<lambda>(key, server, v). ((key, server), v))
        (located 0 fst zs @ located 1 (fst \<circ> snd) zs @ located 2 (snd \<circ> snd) zs))"
    using assms(2) by cases (force simp: located_def t image_iff)+
qed

text \<open>The client decodes the logs of a run to the results the circuit held.\<close>

lemma decode_honest:
  assumes outs: "map fst zs = result_outputs results" and printed: "list_all (printed_as (field_prime c)) zs"
    and len: "int (length results) = n" "1 \<le> n"
    and rows: "list_all (\<lambda>rows. list_all (row_ok (field_prime c)) rows \<and> length rows = nat (top_k c)) results"
  shows "decode_batch_logs c n [server_log 0 fst zs, server_log 1 (fst \<circ> snd) zs, server_log 2 (snd \<circ> snd) zs] = Inr results"
proof -
  let ?p = "field_prime c"
  let ?xs = "located 0 fst zs @ located 1 (fst \<circ> snd) zs @ located 2 (snd \<circ> snd) zs"
  have lens: "length (results ! i) = nat (top_k c)" if "i < length results" for i
    using rows that by (simp add: list_all_length)
  have member: "\<exists>i < length results. \<exists>j < nat (top_k c). \<exists>k < 4. out = (int i, int j, int k, row_outputs (results ! i ! j) ! k)"
    if "out \<in> set (map fst zs)" for out
    using that lens unfolding outs result_outputs_member by fastforce
  have sound: "0 \<le> q \<and> q < n \<and> 0 \<le> r \<and> r < top_k c" "fst t mod ?p = fst t" "fst (snd t) mod ?p = fst (snd t)"
      "snd (snd t) mod ?p = snd (snd t)" if "((q, r, f, v), t) \<in> set zs" for q r f v t
  proof -
    have "(q, r, f, v) \<in> set (map fst zs)" using that by force
    from member [OF this] len(1) show "0 \<le> q \<and> q < n \<and> 0 \<le> r \<and> r < top_k c" by auto
    show "fst t mod ?p = fst t" "fst (snd t) mod ?p = fst (snd t)" "snd (snd t) mod ?p = snd (snd t)"
      using printed_member [OF printed that] by (auto split: prod.splits)
  qed
  have dist: "distinct (map line_key (map fst zs))" unfolding outs by (rule result_outputs_distinct)
  have "foldM (\<lambda>(server, log) shares. foldM (decode_batch_line c n (int server)) log shares)
      (enumerate 0 [server_log 0 fst zs, server_log 1 (fst \<circ> snd) zs, server_log 2 (snd \<circ> snd) zs]) [] = foldM add_located ?xs []"
    using decode_log [of zs n c fst 0] decode_log [of zs n c "fst \<circ> snd" 1] decode_log [of zs n c "snd \<circ> snd" 2] sound
    by (simp add: foldM_append cong: bindr_cong)
  moreover obtain out where out: "foldM add_located ?xs [] = Inr out" "distinct (map fst out)" "fst ` set out = fst ` set ?xs"
      "\<forall>key. fst ` set (get_or [] out key) = {server. \<exists>v. (key, server, v) \<in> set ?xs}"
      "\<forall>key server. get_or 0 (get_or [] out key) server =
        (case map_of (map (\<lambda>(key, server, v). ((key, server), v)) ?xs) (key, server) of None \<Rightarrow> 0 | Some v \<Rightarrow> v)"
    using collect_shares [OF distinct_located [OF dist], of fst "fst \<circ> snd" "snd \<circ> snd"]
    by (elim exE conjE) (rule that)
  ultimately have loop: "foldM (\<lambda>(server, log) shares. foldM (decode_batch_line c n (int server)) log shares)
      (enumerate 0 [server_log 0 fst zs, server_log 1 (fst \<circ> snd) zs, server_log 2 (snd \<circ> snd) zs]) [] = Inr out" by simp
  have keys: "fst ` set ?xs = line_key ` set (result_outputs results)"
  proof -
    have "map fst (located s f zs) = map line_key (map fst zs)" for s f
      by (simp add: located_def case_prod_unfold comp_def)
    then have "fst ` set (located s f zs) = line_key ` set (result_outputs results)" for s f
      by (metis outs list.set_map)
    then show ?thesis by (simp add: image_Un)
  qed
  have pieces: "share_pieces out (line_key o') = (case t of (x, y, z) \<Rightarrow> [x, y, z])" if "(o', t) \<in> set zs" for o' t
  proof -
    obtain x y z where t: "t = (x, y, z)" by (metis prod.exhaust)
    have "get_or 0 (get_or [] out (line_key o')) (int s) = [x, y, z] ! s" if "s < 3" for s
      unfolding out(5) [THEN spec, THEN spec, of "line_key o'" "int s"]
        located_value [OF dist \<open>(o', t) \<in> set zs\<close> that] by (simp add: t)
    from this [of 0] this [of 1] this [of 2] show ?thesis
      by (simp add: share_pieces_def SERVER_COUNT_def upt_rec t)
  qed
  have field: "reconstruct ?p (share_pieces out (int i, int j, int k)) = Inr (row_outputs (results ! i ! j) ! k)"
    if "i < length results" "j < nat (top_k c)" "k < 4" for i j k
  proof -
    let ?o = "(int i, int j, int k, row_outputs (results ! i ! j) ! k)"
    have "?o \<in> set (map fst zs)"
      unfolding outs result_outputs_member
      by (rule exI [of _ i], intro conjI, rule that, rule exI [of _ j], intro conjI, simp add: lens that,
          rule exI [of _ k], intro conjI refl, rule that)
    then obtain t where t: "(?o, t) \<in> set zs" by auto
    from pieces [OF t] printed_member [OF printed t] show ?thesis by (auto simp: line_key_def split: prod.splits)
  qed
  have row: "batch_row c out (int i) (int j) = Inr (results ! i ! j)" if "i < length results" "j < nat (top_k c)" for i j
  proof -
    have "traverse (\<lambda>k. reconstruct ?p (share_pieces out (int i, int j, int k))) [0..<4] =
        Inr (map (\<lambda>k. row_outputs (results ! i ! j) ! k) [0..<4])"
      by (rule traverse_Inr) (use field that in simp)
    moreover have "result_row_of (map (\<lambda>k. row_outputs (results ! i ! j) ! k) [0..<4]) = results ! i ! j"
      by (simp add: result_row_of_def row_outputs_def)
    moreover have "row_ok ?p (results ! i ! j)" using rows that by (simp add: list_all_length)
    ultimately show ?thesis by (auto simp: batch_row_def checked_row_def row_ok_def)
  qed
  have "traverse (\<lambda>query. traverse (batch_row c out query) [0..top_k c - 1]) [0..n - 1] =
      Inr (map (\<lambda>q. map (\<lambda>r. results ! nat q ! nat r) [0..top_k c - 1]) [0..n - 1])"
  proof (intro traverse_Inr)
    fix q r assume "q \<in> set [0..n - 1]" "r \<in> set [0..top_k c - 1]"
    with row [of "nat q" "nat r"] len show "batch_row c out q r = Inr (results ! nat q ! nat r)" by auto
  qed
  moreover have "map (\<lambda>q. map (\<lambda>r. results ! nat q ! nat r) [0..top_k c - 1]) [0..n - 1] = results"
    using lens len by (intro nth_equalityI) auto
  moreover have "shares_complete [(query, rank, field). query \<leftarrow> [0..n - 1], rank \<leftarrow> [0..top_k c - 1], field \<leftarrow> [0..3]] out"
    unfolding shares_complete_def
  proof
    have "line_key ` set (result_outputs results) = (\<lambda>(i, j, k). (int i, int j, int k)) ` ({..<nat n} \<times> {..<nat (top_k c)} \<times> {..<4})"
      unfolding result_outputs_keys using lens len by (force simp: image_iff)
    also have "\<dots> = set [(query, rank, field). query \<leftarrow> [0..n - 1], rank \<leftarrow> [0..top_k c - 1], field \<leftarrow> [0..3]]"
    proof -
      have ints: "int ` {..<nat m} = {0..m - 1}" for m
      proof (intro set_eqI iffI)
        fix x assume "x \<in> {0..m - 1}"
        then have "x = int (nat x)" "nat x \<in> {..<nat m}" by auto
        then show "x \<in> int ` {..<nat m}" by blast
      qed auto
      have "(\<lambda>(i, j, k). (int i, int j, int k)) ` (A \<times> B \<times> C) = int ` A \<times> int ` B \<times> int ` C" for A B C :: "nat set"
        by (force simp: image_iff)
      then have "(\<lambda>(i, j, k). (int i, int j, int k)) ` ({..<nat n} \<times> {..<nat (top_k c)} \<times> {..<nat 4}) =
          {0..n - 1} \<times> {0..top_k c - 1} \<times> {0..3}"
        by (simp only: ints) simp
      then show ?thesis by auto
    qed
    finally show "fst ` set out = set [(query, rank, field). query \<leftarrow> [0..n - 1], rank \<leftarrow> [0..top_k c - 1], field \<leftarrow> [0..3]]"
      using out(3) keys by simp
    show "list_all (\<lambda>(key, server_shares). fst ` set server_shares = int ` {0..<SERVER_COUNT}) out"
      unfolding list_all_iff
    proof (intro ballI, clarify)
      fix q r f ss assume mem: "((q, r, f), ss) \<in> set out"
      then have "(q, r, f) \<in> line_key ` set (map fst zs)" using out(3) keys by (force simp: outs)
      then obtain o' t where t: "(o', t) \<in> set zs" "line_key o' = (q, r, f)" by force
      have "{server. \<exists>v. ((q, r, f), server, v) \<in> set ?xs} = {0, 1, 2}"
        using t by (force simp: located_def)
      then show "fst ` set ss = int ` {0..<SERVER_COUNT}"
        using out(4) get_or_in [OF mem out(2), of "[]"] by (force simp: SERVER_COUNT_def)
    qed
  qed
  ultimately show ?thesis
    unfolding decode_batch_logs_def loop using len by (simp add: SERVER_COUNT_def)
qed

section \<open>The owners' tables in the circuit's graph\<close>

lemma packed_zero: "packed_value c (0, 0, 0, 0, 0) = 0"
  by (simp add: packed_value_def edge_field_list_def packing_widths_def)

lemma owner_table:
  assumes c: "valid_config c" and v: "packed_owner_vector c owner edges = Inr v"
  shows "\<exists>rows. traverse (plain_edge c) edges = Inr rows \<and> sources_fit c rows \<and> relations_fit c rows \<and>
    (\<forall>bucket \<in> set (owner_records c rows). length bucket = nat (fanout_per_owner c) \<and> (\<forall>f \<in> set bucket. edge_legal c f)) \<and>
    (\<forall>e < nat (entity_count c). take (nat (fanout_per_owner c)) (drop (e * nat (fanout_per_owner c)) v) =
      map (packed_value c) (owner_records c rows ! e))"
proof -
  from v obtain rows where pk: "packable_config c" and rows: "traverse (validated_edge c) edges = Inr rows"
      "sources_fit c rows" "relations_fit c rows"
      "v = owner_layout (nat (entity_count c)) (nat (fanout_per_owner c)) 0 (packed_item c) rows"
    by (auto simp: packed_owner_vector_iff [OF c])
  have plain: "traverse (plain_edge c) edges = Inr rows"
    using rows(1) by (simp add: traverse_validated_plain [OF c pk])
  have legal: "edge_legal c (row_fields row)" if row: "row \<in> set rows" for row
  proof -
    from traverse_set [OF rows(1) row] obtain e where "validated_edge c e = Inr row" by blast
    from validated_edge_bounds(3) [OF c this] have "edge_fits c (row_fields row)" .
    moreover have "fst (row_fields row) < entity_count c"
      using plain_rows_legal [OF c plain] row
      by (auto simp: rows_legal_def list_all_iff row_fields_def row_target_def split: prod.splits)
    ultimately show ?thesis by (simp add: edge_legal_def)
  qed
  have zero: "edge_legal c (0, 0, 0, 0, 0)" using entity_count_pos [of c] by (simp add: edge_legal_def edge_fits_iff)
  have bucket: "length (slot_items (nat (fanout_per_owner c)) (0, 0, 0, 0, 0) row_fields rows s) = nat (fanout_per_owner c)"
      "\<forall>f \<in> set (slot_items (nat (fanout_per_owner c)) (0, 0, 0, 0, 0) row_fields rows s). edge_legal c f" for s
    using length_slot_items [OF sources_fit_slot [OF c rows(2)]] legal zero
    by (auto simp: slot_items_def Let_def rows_at_def)
  have "map (packed_value c) (slot_items fan (0, 0, 0, 0, 0) row_fields rows s) = slot_items fan 0 (packed_item c) rows s" for fan s
    by (simp add: slot_items_def Let_def packed_zero comp_def)
  then have "take (nat (fanout_per_owner c)) (drop (e * nat (fanout_per_owner c)) v) = map (packed_value c) (owner_records c rows ! e)"
    if "e < nat (entity_count c)" for e
    using owner_layout_slot [OF c rows(2) that] that by (simp add: rows(4))
  with plain rows(2,3) bucket show ?thesis by (intro exI [of _ rows]) auto
qed

lemma plaintext_graph:
  assumes "\<And>i e. i < length (owners c) \<Longrightarrow> e < nat (entity_count c) \<Longrightarrow>
      take (nat (fanout_per_owner c)) (drop (e * nat (fanout_per_owner c)) (vec i)) = map (packed_value c) (tables ! i ! e)"
    and "length tables = length (owners c)"
  shows "plaintext_input c ids vec = concat (map query_triple ids) @ concat (graph_of c tables)"
proof -
  have "concat (map (\<lambda>i. take (nat (fanout_per_owner c)) (drop (e * nat (fanout_per_owner c)) (vec i))) [0..<length (owners c)]) =
      map (packed_value c) (block_at tables (int e))" if "e < nat (entity_count c)" for e
  proof -
    have "map (\<lambda>i. take (nat (fanout_per_owner c)) (drop (e * nat (fanout_per_owner c)) (vec i))) [0..<length (owners c)] =
        map (\<lambda>table. map (packed_value c) (table ! e)) tables"
      using assms that by (intro nth_equalityI) simp_all
    then show ?thesis by (simp add: block_at_def map_concat comp_def)
  qed
  then have "map (\<lambda>e. concat (map (\<lambda>i. take (nat (fanout_per_owner c)) (drop (e * nat (fanout_per_owner c)) (vec i))) [0..<length (owners c)]))
      [0..<nat (entity_count c)] = graph_of c tables"
    by (simp add: graph_of_def)
  then show ?thesis by (simp add: plaintext_input_def entity_major_def comp_def)
qed

lemma query_ids_in:
  assumes c: "valid_config c" and q: "query_ids c query = Inr (s, r1, r2)" and pk: "packable_config c"
  shows "1 \<le> s" "s < entity_count c" "in_prime (field_prime c) r1" "in_prime (field_prime c) r2"
proof -
  show "1 \<le> s" "s < entity_count c" using query_ids_source [OF c q] by simp_all
  have "set (query_triple (s, r1, r2)) \<subseteq> {x. in_prime (field_prime c) x}"
    using query_ids_canonical [OF c pk q] by (auto simp: list_all_iff in_prime_def)
  then show "in_prime (field_prime c) r1" "in_prime (field_prime c) r2" by (simp_all add: query_triple_def)
qed

lemma packed_bits_usable: "packable_config c \<Longrightarrow> packed_edge_bits c \<le> nat (field_usable_bits c)"
  by (auto simp: require_packed_config_def split: if_splits)

text \<open>The circuit on shares of the plaintext input, query by query.\<close>

abbreviation scan_machine :: "mpc_ops \<Rightarrow> public_config \<Rightarrow> bool" where
  "scan_machine ops c \<equiv> mpc_machine ops (field_prime c) (nat (field_usable_bits c))"

lemma scan_circuit_oracle:
  assumes c: "valid_config c" and machine: "scan_machine ops c"
    and keys: "fst ` set owner_edges = set (owners c)"
    and vec: "\<And>i. i < length (owners c) \<Longrightarrow>
      packed_owner_vector c (owners c ! i) (get_or [] owner_edges (owners c ! i)) = Inr (vec i)"
    and ids: "traverse (query_ids c) queries = Inr ids"
    and shares: "shares_of (field_prime c) inputs (plaintext_input c ids vec)"
  shows "traverse (evaluate_cleartext c owner_edges) queries = Inr (scan_results ops c (length queries) inputs) \<and>
    list_all (\<lambda>rows. list_all (row_ok (field_prime c)) rows \<and> length rows = nat (top_k c))
      (scan_results ops c (length queries) inputs) \<and> packable_config c"
proof -
  let ?n = "length (owners c)" and ?E = "nat (entity_count c)" and ?F = "nat (fanout_per_owner c)"
  have "0 < ?n" using valid_owners(1) [OF c] by simp
  then have pk: "packable_config c" using vec [of 0] by (auto simp: packed_owner_vector_iff [OF c])
  note bits = packed_bits_usable [OF pk]
  have "\<exists>rows. i < ?n \<longrightarrow> (traverse (plain_edge c) (get_or [] owner_edges (owners c ! i)) = Inr rows \<and> sources_fit c rows \<and> relations_fit c rows \<and>
    (\<forall>bucket \<in> set (owner_records c rows). length bucket = ?F \<and> (\<forall>f \<in> set bucket. edge_legal c f)) \<and>
    (\<forall>e < ?E. take ?F (drop (e * ?F) (vec i)) = map (packed_value c) (owner_records c rows ! e)))" for i
    using owner_table [OF c vec [of i]] by (cases "i < ?n") simp_all
  then obtain rows where rows: "\<And>i. i < ?n \<Longrightarrow>
      traverse (plain_edge c) (get_or [] owner_edges (owners c ! i)) = Inr (rows i) \<and> sources_fit c (rows i) \<and> relations_fit c (rows i) \<and>
    (\<forall>bucket \<in> set (owner_records c (rows i)). length bucket = ?F \<and> (\<forall>f \<in> set bucket. edge_legal c f)) \<and>
    (\<forall>e < ?E. take ?F (drop (e * ?F) (vec i)) = map (packed_value c) (owner_records c (rows i) ! e))"
    by metis
  define tables where "tables = map (\<lambda>i. owner_records c (rows i)) [0..<?n]"
  have ok: "tables_ok c tables"
    unfolding tables_ok_def tables_def using rows by auto
  have plain: "plaintext_input c ids vec = concat (map query_triple ids) @ concat (graph_of c tables)"
    by (rule plaintext_graph) (use rows in \<open>simp_all add: tables_def\<close>)
  have read: "raw_owner_buckets c (get_or [] owner_edges (owners c ! i)) = Inr (tables ! i)" if "i < ?n" for i
    unfolding raw_owner_buckets_iff [OF c] using rows [OF that] that by (auto simp: tables_def)
  have buckets: "traverse (\<lambda>owner. raw_owner_buckets c (get_or [] owner_edges owner)) (owners c) = Inr tables"
    unfolding traverse_eq_Inr list_all2_conv_all_nth using read by (simp add: tables_def)
  have len: "length ids = length queries" using length_traverse [OF ids] .
  have legal: "rs \<in> set (map rows [0..<?n]) \<Longrightarrow> rows_legal c rs \<and> relations_fit c rs" for rs
    using rows plain_rows_legal [OF c] by fastforce
  have tables_rows: "tables = map (owner_records c) (map rows [0..<?n])" by (simp add: tables_def)
  have "\<exists>cands. q < length ids \<longrightarrow> reference_candidates c tables (ids ! q) = Inr cands" for q
  proof (cases "q < length ids")
    case True
    obtain s r1 r2 where id: "ids ! q = (s, r1, r2)" by (metis prod.exhaust)
    from traverse_nth [OF ids] True len have "query_ids c (queries ! q) = Inr (s, r1, r2)" by (simp add: id)
    with query_ids_source [OF c] have "0 \<le> s" "s < entity_count c" by fastforce+
    from reference_candidates_paths [OF legal this c] show ?thesis unfolding id tables_rows by blast
  qed simp
  then obtain cands where cands: "\<And>q. q < length ids \<Longrightarrow> reference_candidates c tables (ids ! q) = Inr (cands q)" by metis
  have id_in: "1 \<le> s \<and> s < entity_count c \<and> in_prime (field_prime c) r1 \<and> in_prime (field_prime c) r2"
    if "(s, r1, r2) \<in> set ids" for s r1 r2
    using traverse_set [OF ids that] query_ids_in [OF c _ pk] by blast
  have results: "scan_results ops c (length ids) inputs =
      map (\<lambda>q. top_k_results (deduplicate_terminal_answers c) (top_k c) (cands q)) [0..<length ids] \<and>
    list_all (\<lambda>rows. list_all (row_ok (field_prime c)) rows \<and> length rows = nat (top_k c)) (scan_results ops c (length ids) inputs)"
    by (rule mpc_machine.scan_results_spec [OF machine c bits ok, where rest = "[]"])
      (use id_in cands shares in \<open>simp_all add: plain\<close>)
  have "traverse (evaluate_cleartext c owner_edges) queries =
      Inr (map (\<lambda>q. top_k_results (deduplicate_terminal_answers c) (top_k c) (cands q)) [0..<length ids])"
    unfolding traverse_eq_Inr list_all2_conv_all_nth
  proof (intro conjI allI impI)
    fix q assume q: "q < length queries"
    with traverse_nth [OF ids q] cands [of q] len buckets keys
    show "evaluate_cleartext c owner_edges (queries ! q) = Inr (map (\<lambda>q. top_k_results (deduplicate_terminal_answers c) (top_k c) (cands q)) [0..<length ids] ! q)"
      by (simp add: evaluate_cleartext_def)
  qed (simp add: len)
  then have "traverse (evaluate_cleartext c owner_edges) queries = Inr (scan_results ops c (length queries) inputs)"
    using conjunct1 [OF results] by (simp add: len)
  with conjunct2 [OF results] pk show ?thesis by (simp add: len)
qed

section \<open>From the servers' inputs\<close>

lemma shares_of_combined:
  assumes "combine_vector (reconstruct p) (a0, a1, a2) = Inr vs" and "length a1 = length a0" and "length a2 = length a0"
  shows "shares_of p (a0, a1, a2) vs"
proof -
  have all: "list_all2 (\<lambda>(a, b, c) v. reconstruct p [a, b, c] = Inr v) (zip a0 (zip a1 a2)) vs"
    using assms(1) unfolding combine_vector_def traverse_eq_Inr prod.case
    by (rule list_all2_mono) (auto split: prod.splits)
  then have len: "length vs = length a0" using assms(2,3) by (auto dest: list_all2_lengthD)
  have "reconstruct p [a0 ! i, a1 ! i, a2 ! i] = Inr (vs ! i)" if "i < length vs" for i
    using list_all2_nthD2 [OF all that] that len assms(2,3) by simp
  then have "in_prime p (a0 ! i) \<and> in_prime p (a1 ! i) \<and> in_prime p (a2 ! i) \<and> (a0 ! i + a1 ! i + a2 ! i) mod p = vs ! i"
    if "i < length vs" for i
    using that by (force simp: reconstruct_def SERVER_COUNT_def in_prime_def add.assoc split: if_splits)
  with len assms(2,3) show ?thesis by (simp add: shares_of_def)
qed

lemma scan_validate_ok:
  assumes "valid_config c" and "packable_config c" and "1 \<le> n" and "n \<le> MAX_BATCH_QUERIES"
  shows "scan_validate c n = Inr ()"
  using assms valid_top_k(2) [OF assms(1)]
  by (auto simp: scan_validate_def require_packed_config_def active_candidate_count_def split: if_splits)

text \<open>The logs of a run decode to its results.\<close>

lemma results_decode:
  assumes machine: "scan_machine ops c" and n: "length results = n" "1 \<le> n"
    and rows: "list_all (\<lambda>rows. list_all (row_ok (field_prime c)) rows \<and> length rows = nat (top_k c)) results"
  shows "\<exists>l0 l1 l2 g'. emit_all ops (field_prime c) (result_outputs results) g = ((l0, l1, l2), g') \<and>
    decode_batch_logs c (int n) [l0, l1, l2] = Inr results"
proof -
  have canonical: "in_prime (field_prime c) v" if mem: "(q, r, f, v) \<in> set (result_outputs results)" for q r f v
  proof -
    from mem obtain i j l where ijl: "i < length results" "j < length (results ! i)" "l < 4" "v = row_outputs (results ! i ! j) ! l"
      unfolding result_outputs_member by auto
    with rows have "row_ok (field_prime c) (results ! i ! j)" by (simp add: list_all_length)
    moreover have "l = 0 \<or> l = 1 \<or> l = 2 \<or> l = 3" using ijl(3) by auto
    ultimately show ?thesis
      using mpc_machine.flag_in [OF machine] by (auto simp: ijl(4) row_outputs_def row_ok_def)
  qed
  obtain zs g' where
    zs: "map fst zs = result_outputs results" "list_all (printed_as (field_prime c)) zs"
      "emit_all ops (field_prime c) (result_outputs results) g =
        ((server_log 0 fst zs, server_log 1 (fst \<circ> snd) zs, server_log 2 (snd \<circ> snd) zs), g')"
    using mpc_machine.emit_all_spec [OF machine, of "result_outputs results" g] canonical by blast
  with decode_honest [OF zs(1,2) _ _ rows] n show ?thesis by simp
qed

lemma scan_program_decodes:
  assumes machine: "scan_machine ops c" and ok: "scan_validate c (int n) = Inr ()" and k: "1 \<le> top_k c"
    and rows: "list_all (\<lambda>rows. list_all (row_ok (field_prime c)) rows \<and> length rows = nat (top_k c)) (scan_results ops c n inputs)"
    and len: "length (scan_results ops c n inputs) = n"
  shows "\<exists>l0 l1 l2 g'. scan_program ops c n inputs g = Inr ((l0, l1, l2), g') \<and>
    decode_batch_logs c (int n) [l0, l1, l2] = Inr (scan_results ops c n inputs)"
  using results_decode [OF machine len _ rows, of g] ok by (auto simp: scan_program_def scan_validate_def split: if_splits)

section \<open>Every printed position is public\<close>

definition line_position :: "batch_line \<Rightarrow> int \<times> int \<times> int \<times> int" where
  "line_position = (\<lambda>(query_index, rank, field, server, v). (query_index, rank, field, server))"

definition public_positions :: "nat \<Rightarrow> nat \<Rightarrow> int \<Rightarrow> (int \<times> int \<times> int \<times> int) list" where
  "public_positions queries ranks server = concat (map (\<lambda>i. concat (map (\<lambda>j. map (\<lambda>k.
     (int i, int j, int k, server)) [0..<4]) [0..<ranks])) [0..<queries])"

lemma emit_all_positions:
  "emit_all ops p outs g = ((l0, l1, l2), g') \<Longrightarrow>
    map line_position l0 = map (\<lambda>(q, r, f, v). (q, r, f, 0)) outs \<and>
    map line_position l1 = map (\<lambda>(q, r, f, v). (q, r, f, 1)) outs \<and>
    map line_position l2 = map (\<lambda>(q, r, f, v). (q, r, f, 2)) outs"
proof (induction outs arbitrary: g l0 l1 l2)
  case (Cons out outs)
  obtain q r f v where out: "out = (q, r, f, v)" by (metis prod.exhaust)
  obtain x y z g1 where one: "emit_output_shares ops p q r f v g = (((q, r, f, 0, x), (q, r, f, 1, y), (q, r, f, 2, z)), g1)"
    by (simp add: emit_output_shares_def randbelow_simp Let_def)
  obtain m0 m1 m2 where rest: "emit_all ops p outs g1 = ((m0, m1, m2), g')"
    using Cons.prems by (auto simp: out one split: prod.splits)
  with Cons.prems have "l0 = (q, r, f, 0, x) # m0" "l1 = (q, r, f, 1, y) # m1" "l2 = (q, r, f, 2, z) # m2"
    by (simp_all add: out one)
  with Cons.IH [OF rest] show ?case by (simp add: out line_position_def)
qed simp

lemma length_rank_rounds: "length (rank_rounds ops dedup cells k selected) = k"
  by (induction k arbitrary: selected) (simp_all add: case_prod_unfold Let_def)

lemma scan_results_shape:
  "length (scan_results ops c n inputs) = n \<and> (\<forall>rows \<in> set (scan_results ops c n inputs). length rows = nat (top_k c))"
  by (auto simp: scan_results_def full_frontier_results_def compacted_frontier_results_def Let_def rank_block_def
      length_rank_rounds split: prod.splits)

lemma result_outputs_positions:
  assumes "length results = n" and "\<forall>rows \<in> set results. length rows = k"
  shows "map (\<lambda>(q, r, f, v). (q, r, f, s)) (result_outputs results) = public_positions n k s"
proof -
  have "length (results ! i) = k" if "i < n" for i using assms that by simp
  then show ?thesis
    unfolding result_outputs_nth public_positions_def map_concat map_map comp_def prod.case assms(1)
    by (intro arg_cong [where f = concat] map_cong refl) simp
qed

section \<open>Properties\<close>

text \<open>
  C3: The generated circuits refine the oracle.  Take any secret arithmetic with the laws of
  \<open>mpc_machine\<close> for the configured field, owner files that pack, and queries that resolve.
  On any three inputs that are additive shares of the plaintext input, both scan circuits (the
  full frontier and the compacted one, with or without terminal suppression) hold, row by row
  and tie by tie, exactly what \<open>evaluate_cleartext\<close> returns for each query.
\<close>

theorem scan_refines_oracle:
  assumes "valid_config c" and "scan_machine ops c"
    and "fst ` set owner_edges = set (owners c)"
    and "\<And>i. i < length (owners c) \<Longrightarrow>
      packed_owner_vector c (owners c ! i) (get_or [] owner_edges (owners c ! i)) = Inr (vec i)"
    and "traverse (query_ids c) queries = Inr ids"
    and "shares_of (field_prime c) inputs (plaintext_input c ids vec)"
  shows "traverse (evaluate_cleartext c owner_edges) queries = Inr (scan_results ops c (length queries) inputs)"
  using scan_circuit_oracle [OF assms(1-3) _ assms(5,6)] assms(4) by blast

definition sample_owner_edges :: "(string \<times> jval list) list" where
  "sample_owner_edges = [(''alice'', sample_edges), (''bob'', [])]"

lemma sample_machine: "scan_machine (plain_ops (field_prime sample_config)) sample_config"
  by (rule plain_machine) (simp_all add: field_usable_bits_def field_primes)

lemma sample_vectors:
  "i < length (owners sample_config) \<Longrightarrow> \<exists>vec.
     packed_owner_vector sample_config (owners sample_config ! i) (get_or [] sample_owner_edges (owners sample_config ! i)) = Inr vec"
  using sample_traverse sample_fit
  by (cases i) (auto simp: packed_owner_vector_iff [OF sample_valid] sources_fit_def relations_fit_def sample_owner_edges_def get_or_def less_Suc_eq)

lemma shares_of_trivial: "list_all (in_prime p) vs \<Longrightarrow> 0 < p \<Longrightarrow> shares_of p (vs, replicate (length vs) 0, replicate (length vs) 0) vs"
  by (auto simp: shares_of_def list_all_length in_prime_def)

theorem scan_refines_oracle_witness:
  "\<exists>inputs. traverse (evaluate_cleartext sample_config sample_owner_edges) [sample_query] =
     Inr (scan_results (plain_ops (field_prime sample_config)) sample_config 1 inputs)"
proof -
  have "\<exists>v. i < length (owners sample_config) \<longrightarrow>
      packed_owner_vector sample_config (owners sample_config ! i) (get_or [] sample_owner_edges (owners sample_config ! i)) = Inr v" for i
    using sample_vectors [of i] by blast
  then obtain vec where vec: "\<And>i. i < length (owners sample_config) \<Longrightarrow>
      packed_owner_vector sample_config (owners sample_config ! i) (get_or [] sample_owner_edges (owners sample_config ! i)) = Inr (vec i)"
    by metis
  have keys: "fst ` set sample_owner_edges = set (owners sample_config)" by (simp add: sample_owner_edges_def)
  have ids: "traverse (query_ids sample_config) [sample_query] = Inr [(1, 1, 2)]" using sample_query_ids by simp
  have "canonical (field_prime sample_config) x" if "x \<in> set (map vec [0..<length (owners sample_config)])" for x
    using that packed_owner_vector_canonical [OF sample_valid vec] by auto
  moreover have "canonical (field_prime sample_config) (query_triple (1, 1, 2))"
    using query_ids_canonical [OF sample_valid sample_packable sample_query_ids] .
  ultimately have "list_all (in_prime (field_prime sample_config)) (plaintext_input sample_config [(1, 1, 2)] vec)"
    using set_entity_major [of "nat (entity_count sample_config)" "nat (fanout_per_owner sample_config)"
        "query_triple (1, 1, 2)" "map vec [0..<length (owners sample_config)]"]
    unfolding plaintext_input_def list_all_iff in_prime_def by simp blast
  from shares_of_trivial [OF this] field_prime_pos [OF sample_valid]
  have shares: "shares_of (field_prime sample_config) (plaintext_input sample_config [(1, 1, 2)] vec,
      replicate (length (plaintext_input sample_config [(1, 1, 2)] vec)) 0,
      replicate (length (plaintext_input sample_config [(1, 1, 2)] vec)) 0) (plaintext_input sample_config [(1, 1, 2)] vec)" by blast
  from scan_refines_oracle [OF sample_valid sample_machine keys vec ids shares] show ?thesis by auto
qed

text \<open>
  C1: The scan backend, end to end.  When every owner's packed preparation and the client's
  query batch succeed, and the batch has at most \<open>MAX_BATCH_QUERIES\<close> queries, the three servers
  assemble their inputs whatever the order of the owners' files, the generated program
  validates and runs on them, and the client's decoder accepts the three logs and returns the
  oracle's answers to all queries.
\<close>

theorem scan_end_to_end:
  assumes c: "valid_config c" and machine: "scan_machine ops c"
    and owners_ok: "\<And>i. i < length (owners c) \<Longrightarrow>
      create_packed_owner_shards H c (owners c ! i) (JList (edges i)) (g i) = Inr (docs i, g' i)"
    and query_ok: "create_packed_query_batch_shards H c (JList queries) gq = Inr (qdocs, gq')"
    and order: "\<And>s. s < SERVER_COUNT \<Longrightarrow> distinct (order s) \<and> set (order s) = {..<length (owners c)}"
    and batch: "int (length queries) \<le> MAX_BATCH_QUERIES"
  shows "\<exists>a l0 l1 l2 go answers.
      (\<forall>s < SERVER_COUNT. server_run H c (length queries) qdocs docs (order s) s = Inr (a s)) \<and>
      scan_program ops c (length queries) (a 0, a 1, a 2) gr = Inr ((l0, l1, l2), go) \<and>
      decode_batch_logs c (int (length queries)) [l0, l1, l2] = Inr answers \<and>
      traverse (evaluate_cleartext c (map (\<lambda>i. (owners c ! i, edges i)) [0..<length (owners c)])) queries = Inr answers"
proof -
  let ?edges = "map (\<lambda>i. (owners c ! i, edges i)) [0..<length (owners c)]"
  obtain a ids vec where run: "\<forall>s < SERVER_COUNT. server_run H c (length queries) qdocs docs (order s) s = Inr (a s)"
      "\<forall>s. int (length (a s)) = 3 * int (length queries) + entity_count c * block_edges c"
      "traverse (query_ids c) queries = Inr ids"
      "\<forall>i < length (owners c). packed_owner_vector c (owners c ! i) (edges i) = Inr (vec i)"
      "combine_vector (reconstruct (field_prime c)) (a 0, a 1, a 2) = Inr (plaintext_input c ids vec)"
    using packed_preparation_run [where order = order, OF c owners_ok query_ok order] by blast
  have lens: "length (a 1) = length (a 0)" "length (a 2) = length (a 0)" using run(2) by (metis of_nat_eq_iff)+
  have names: "map fst ?edges = owners c" by (intro nth_equalityI) simp_all
  then have keys: "fst ` set ?edges = set (owners c)" by (metis list.set_map)
  have look: "get_or [] ?edges (owners c ! i) = edges i" if "i < length (owners c)" for i
    by (rule get_or_in) (use that valid_owners(2) [OF c] names in \<open>auto simp: comp_def\<close>)
  have vec: "packed_owner_vector c (owners c ! i) (get_or [] ?edges (owners c ! i)) = Inr (vec i)" if "i < length (owners c)" for i
    using run(4) that by (simp only: look)
  from scan_circuit_oracle [OF c machine keys vec run(3) shares_of_combined [OF run(5) lens]]
  have ans: "traverse (evaluate_cleartext c ?edges) queries = Inr (scan_results ops c (length queries) (a 0, a 1, a 2))"
      "list_all (\<lambda>rows. list_all (row_ok (field_prime c)) rows \<and> length rows = nat (top_k c))
        (scan_results ops c (length queries) (a 0, a 1, a 2))"
      and pk: "packable_config c" by blast+
  have "queries \<noteq> []" using query_ok by (auto simp: create_packed_query_batch_shards_def split: if_splits)
  then have "1 \<le> int (length queries)" by (cases queries) auto
  from scan_program_decodes [OF machine scan_validate_ok [OF c pk this batch] valid_top_k(1) [OF c] ans(2)]
    scan_results_shape obtain l0 l1 l2 go where
    "scan_program ops c (length queries) (a 0, a 1, a 2) gr = Inr ((l0, l1, l2), go)"
    "decode_batch_logs c (int (length queries)) [l0, l1, l2] = Inr (scan_results ops c (length queries) (a 0, a 1, a 2))"
    by blast
  with run(1) ans(1) show ?thesis by blast
qed

theorem scan_end_to_end_witness:
  "\<exists>docs qdocs a l0 l1 l2 go answers.
     (\<forall>s < SERVER_COUNT. server_run (\<lambda>_. ''h'') sample_config 1 qdocs docs [1, 0 :: nat] s = Inr (a s)) \<and>
     scan_program (plain_ops (field_prime sample_config)) sample_config 1 (a 0, a 1, a 2) (\<lambda>_. 7) = Inr ((l0, l1, l2), go) \<and>
     decode_batch_logs sample_config 1 [l0, l1, l2] = Inr answers \<and>
     traverse (evaluate_cleartext sample_config sample_owner_edges) [sample_query] = Inr answers"
proof -
  let ?H = "\<lambda>_ :: jval. ''h''" and ?edges = "\<lambda>i :: nat. if i = 0 then sample_edges else []"
  have edges: "get_or [] sample_owner_edges (owners sample_config ! i) = ?edges i" if "i < length (owners sample_config)" for i
    using that by (cases i) (auto simp: sample_owner_edges_def get_or_def less_Suc_eq)
  let ?create = "\<lambda>i. create_packed_owner_shards ?H sample_config (owners sample_config ! i) (JList (?edges i)) (\<lambda>_. 5)"
  have "\<exists>r. i < length (owners sample_config) \<longrightarrow> ?create i = Inr r" for i
    using sample_vectors [of i] edges [of i] create_packed_owner_shards_ok [OF sample_valid, of i] by fastforce
  then obtain r where "\<forall>i. i < length (owners sample_config) \<longrightarrow> ?create i = Inr (r i)"
    using choice [of "\<lambda>i r. i < length (owners sample_config) \<longrightarrow> ?create i = Inr r"] by blast
  then have shards: "?create i = Inr (fst (r i), snd (r i))" if "i < length (owners sample_config)" for i
    using that by simp
  obtain qdocs gq' where query:
      "create_packed_query_batch_shards ?H sample_config (JList [sample_query]) (\<lambda>_. 6) = Inr (qdocs, gq')"
    using create_packed_query_batch_shards_ok [OF sample_valid sample_packable, of "[sample_query]" "[(1, 1, 2)]"
        ?H "\<lambda>_. 6"] sample_query_ids by auto
  have order: "distinct [1, 0 :: nat] \<and> set [1, 0] = {..<length (owners sample_config)}" by auto
  have batch: "int (length [sample_query]) \<le> MAX_BATCH_QUERIES" by (simp add: MAX_BATCH_QUERIES_def)
  have same: "map (\<lambda>i. (owners sample_config ! i, ?edges i)) [0..<length (owners sample_config)] = sample_owner_edges"
    by (simp add: sample_owner_edges_def upt_rec)
  have "\<exists>a l0 l1 l2 go answers.
      (\<forall>s < SERVER_COUNT. server_run ?H sample_config (length [sample_query]) qdocs (\<lambda>i. fst (r i)) [1, 0] s = Inr (a s)) \<and>
      scan_program (plain_ops (field_prime sample_config)) sample_config (length [sample_query]) (a 0, a 1, a 2) (\<lambda>_. 7) = Inr ((l0, l1, l2), go) \<and>
      decode_batch_logs sample_config (int (length [sample_query])) [l0, l1, l2] = Inr answers \<and>
      traverse (evaluate_cleartext sample_config (map (\<lambda>i. (owners sample_config ! i, ?edges i)) [0..<length (owners sample_config)])) [sample_query] = Inr answers"
    by (rule scan_end_to_end [OF sample_valid sample_machine _ query _ batch]) (use shards order in blast)+
  then show ?thesis unfolding same by (simp only: list.size One_nat_def [symmetric] add_0 plus_1_eq_Suc of_nat_1) blast
qed

text \<open>
  C33: What the logs show besides shares is public.  Whatever the secret arithmetic, the inputs
  and the randomness, a run of the program prints at every server exactly one line per query,
  rank and field, in that order and labelled with that server: the list of positions is a
  function of the query count and \<open>top_k\<close> alone.
\<close>

theorem scan_log_positions:
  assumes "scan_program ops c n inputs g = Inr ((l0, l1, l2), g')"
  shows "map line_position l0 = public_positions n (nat (top_k c)) 0 \<and>
    map line_position l1 = public_positions n (nat (top_k c)) 1 \<and>
    map line_position l2 = public_positions n (nat (top_k c)) 2"
proof -
  from assms have "emit_all ops (field_prime c) (result_outputs (scan_results ops c n inputs)) g = ((l0, l1, l2), g')"
    by (auto simp: scan_program_def res_simps)
  from emit_all_positions [OF this] show ?thesis
    using scan_results_shape [of ops c n inputs] by (simp add: result_outputs_positions)
qed

theorem scan_log_positions_witness:
  "\<exists>l0 l1 l2 g'. scan_program (plain_ops 7) sample_config 1 ([], [], []) (\<lambda>_. 0) = Inr ((l0, l1, l2), g') \<and>
     map line_position l1 = public_positions 1 2 1"
proof -
  have "scan_validate sample_config (int 1) = Inr ()"
    by (rule scan_validate_ok) (simp_all add: MAX_BATCH_QUERIES_def)
  then obtain l0 l1 l2 g' where run: "scan_program (plain_ops 7) sample_config 1 ([], [], []) (\<lambda>_. 0) = Inr ((l0, l1, l2), g')"
    by (simp add: scan_program_def) (metis prod.exhaust)
  from scan_log_positions [OF run] run show ?thesis by auto
qed

end
