(* ===== verification/Type_Blocked.thy ===== *)
theory Type_Blocked
  imports Public_Config
begin

text \<open>
  The type-blocked directory (\<open>doram_t2_3pc/type_blocked_directory.py\<close>): one contiguous block
  of rows per relation, as wide as the class of entities in the relation's domain, addressed
  affinely.  Both builders, the address computation, the owner vector and its lookup are
  modelled; the layout is a record of dictionaries and a missing key is \<open>KeyError\<close>.
\<close>

section \<open>The layout\<close>

record type_layout =
  entity_order :: "string list"
  entity_index :: "(string \<times> int) list"
  type_start :: "(string \<times> int) list"
  type_size :: "(string \<times> int) list"
  relation_order :: "string list"
  block_start :: "(string \<times> int) list"
  relation_domain :: "(string \<times> string) list"

definition DUMMY_TYPE :: string where
  "DUMMY_TYPE = CHR 0x00 # ''dummy''"

definition domain_from_name :: "string \<Rightarrow> string" where
  "domain_from_name relation =
     (if CHR ''.'' \<in> set relation
      then rev (tl (dropWhile (\<lambda>ch. ch \<noteq> CHR ''.'') (rev relation))) else relation)"

definition dict_at :: "('k \<times> 'v) list \<Rightarrow> 'k \<Rightarrow> 'v res" where
  "dict_at d k = (case map_of d k of None \<Rightarrow> Inl KeyError | Some v \<Rightarrow> Inr v)"

text \<open>\<open>max(values, default=d)\<close>.\<close>

definition max_default :: "int \<Rightarrow> int list \<Rightarrow> int" where
  "max_default d xs = (case xs of [] \<Rightarrow> d | y # ys \<Rightarrow> fold max ys y)"

definition relation_width :: "type_layout \<Rightarrow> string \<Rightarrow> int res" where
  "relation_width l r = bindr (dict_at (relation_domain l) r) (dict_at (type_size l))"

definition total_rows :: "type_layout \<Rightarrow> int res" where
  "total_rows l =
     bindr (traverse (\<lambda>r. bindr (dict_at (block_start l) r) (\<lambda>start.
            bindr (relation_width l r) (\<lambda>width. Inr (start + width)))) (relation_order l)) (\<lambda>ends.
       Inr (max_default 1 ends))"

definition max_block :: "type_layout \<Rightarrow> int res" where
  "max_block l = bindr (traverse (relation_width l) (relation_order l)) (\<lambda>widths. Inr (max_default 1 widths))"

definition block_of :: "type_layout \<Rightarrow> string \<Rightarrow> (int \<times> int \<times> int) res" where
  "block_of l r =
     bindr (dict_at (relation_domain l) r) (\<lambda>domain.
     bindr (dict_at (block_start l) r) (\<lambda>bs.
     bindr (dict_at (type_start l) domain) (\<lambda>ts.
     bindr (dict_at (type_size l) domain) (\<lambda>size. Inr (bs, ts, size)))))"

definition coefficient :: "type_layout \<Rightarrow> string \<Rightarrow> int res" where
  "coefficient l r = bindr (block_of l r) (\<lambda>(bs, ts, _). Inr (bs - ts))"

definition address :: "type_layout \<Rightarrow> string \<Rightarrow> string \<Rightarrow> int option res" where
  "address l entity relation =
     (case map_of (entity_index l) entity of
        None \<Rightarrow> Inr None
      | Some index \<Rightarrow>
          if relation \<notin> fst ` set (relation_domain l) then Inr None
          else
            bindr (block_of l relation) (\<lambda>(_, ts, width).
            if \<not> (ts \<le> index \<and> index < ts + width) then Inr None
            else bindr (coefficient l relation) (\<lambda>co. Inr (Some (co + index)))))"

definition coefficient_table :: "type_layout \<Rightarrow> (int \<times> int \<times> int) list res" where
  "coefficient_table l =
     traverse (\<lambda>r. bindr (block_of l r) (\<lambda>(bs, ts, width). Inr (bs - ts, ts, width))) (relation_order l)"

section \<open>The builders\<close>

text \<open>The loop that hands each relation the next free row.\<close>

fun assign_blocks :: "(string \<Rightarrow> int) \<Rightarrow> int \<Rightarrow> string list \<Rightarrow> (string \<times> int) list" where
  "assign_blocks width cursor [] = []"
| "assign_blocks width cursor (r # rs) = (r, cursor) # assign_blocks width (cursor + width r) rs"

fun assign_types :: "(string \<times> string list) list \<Rightarrow> int \<Rightarrow>
    string list \<times> (string \<times> int) list \<times> (string \<times> int) list" where
  "assign_types [] cursor = ([], [], [])"
| "assign_types ((t, members) # rest) cursor =
     (let (order, starts, sizes) = assign_types rest (cursor + int (length members))
      in (sort members @ order, (t, cursor) # starts, (t, int (length members)) # sizes))"

definition setdefault :: "'k \<Rightarrow> 'v \<Rightarrow> ('k \<times> 'v) list \<Rightarrow> ('k \<times> 'v) list" where
  "setdefault k v d = (if k \<in> fst ` set d then d else d @ [(k, v)])"

definition build_layout :: "(string \<times> string) list \<Rightarrow> (string \<times> string) list \<Rightarrow> type_layout" where
  "build_layout entity_types relation_domains =
     (let by_type = group_by snd fst entity_types;
          (order, starts, sizes) = assign_types (sort_key fst by_type) 1;
          starts = setdefault DUMMY_TYPE 0 starts;
          sizes = setdefault DUMMY_TYPE 1 sizes;
          rel_order = sort (map fst relation_domains);
          width = (\<lambda>r. get_or 0 sizes (get_or [] relation_domains r))
      in \<lparr>entity_order = order,
          entity_index = map (\<lambda>(position, entity). (entity, int position + 1)) (enumerate 0 order),
          type_start = starts,
          type_size = fold (\<lambda>r. AList.update (get_or [] relation_domains r) (width r)) rel_order sizes,
          relation_order = rel_order,
          block_start = assign_blocks width 1 rel_order,
          relation_domain = relation_domains\<rparr>)"

definition name_values :: "exn \<Rightarrow> (string \<times> jval) list \<Rightarrow> (string \<times> string) list res" where
  "name_values e d =
     traverse (\<lambda>(k, v). case v of JStr s \<Rightarrow> if s = [] then Inl e else Inr (k, s) | _ \<Rightarrow> Inl e) d"

definition place_type :: "string \<times> int list \<Rightarrow> (string \<times> int) list \<times> (string \<times> int) list \<Rightarrow>
    ((string \<times> int) list \<times> (string \<times> int) list) res" where
  "place_type = (\<lambda>(entity_type, slots) (starts, sizes).
     let ordered = sort slots in
     if ordered \<noteq> [hd ordered..hd ordered + int (length ordered) - 1]
     then Inl (ValueError ''entities of primary type are not contiguous'')
     else Inr (AList.update entity_type (hd ordered) starts,
               AList.update entity_type (int (length ordered)) sizes))"

definition build_layout_from_public_ids ::
  "(string \<times> int) list \<Rightarrow> (string \<times> int) list \<Rightarrow> (string \<times> jval) list \<Rightarrow> (string \<times> jval) list \<Rightarrow> type_layout res" where
  "build_layout_from_public_ids entity_ids relation_ids raw_types raw_domains =
     (if fst ` set raw_types \<noteq> fst ` set entity_ids
      then Inl (ValueError ''entity_types must cover every configured entity exactly once'')
      else if fst ` set raw_domains \<noteq> fst ` set relation_ids
      then Inl (ValueError ''relation_domains must cover every configured relation exactly once'')
      else
      bindr (name_values (ValueError ''every entity type must be a non-empty string'') raw_types) (\<lambda>entity_types.
      bindr (name_values (ValueError ''every relation domain must be a non-empty string'') raw_domains) (\<lambda>relation_domains.
      let by_type = group_by snd (\<lambda>(entity, _). get_or 0 entity_ids entity) entity_types in
      bindr (foldM place_type by_type ([(DUMMY_TYPE, 0)], [(DUMMY_TYPE, 1)])) (\<lambda>(starts, sizes).
      if \<not> snd ` set relation_domains \<subseteq> fst ` set by_type
      then Inl (ValueError ''relation domains have no entities in the public primary-type map'')
      else
        let rel_order = map fst (sort_key snd relation_ids) in
        Inr \<lparr>entity_order = map fst (sort_key snd entity_ids),
             entity_index = entity_ids,
             type_start = starts,
             type_size = sizes,
             relation_order = rel_order,
             block_start = assign_blocks (\<lambda>r. get_or 0 sizes (get_or [] relation_domains r)) 1 rel_order,
             relation_domain = relation_domains\<rparr>))))"

section \<open>Owner vectors\<close>

definition write_descriptor ::
  "type_layout \<Rightarrow> (string \<times> string) \<times> int \<Rightarrow> int list \<Rightarrow> int list res" where
  "write_descriptor l = (\<lambda>((entity, relation), descriptor) vector.
     bindr (address l entity relation) (\<lambda>a.
       case a of
         None \<Rightarrow> Inl (ValueError ''key is type-invalid under the supplied ontology'')
       | Some row \<Rightarrow> list_put vector row descriptor))"

definition build_owner_vector ::
  "type_layout \<Rightarrow> ((string \<times> string) \<times> int) list \<Rightarrow> int list res" where
  "build_owner_vector l keyed_descriptors =
     bindr (total_rows l) (\<lambda>rows.
       foldM (write_descriptor l) keyed_descriptors (replicate (nat rows) 0))"

definition lookup_blocked ::
  "int list list \<Rightarrow> type_layout \<Rightarrow> string \<Rightarrow> string \<Rightarrow> int list res" where
  "lookup_blocked vectors l entity relation =
     bindr (address l entity relation) (\<lambda>a.
       case a of
         None \<Rightarrow> Inr (replicate (length vectors) 0)
       | Some row \<Rightarrow> traverse (\<lambda>vector. list_get vector row) vectors)"

definition blocked_cost_model :: "type_layout \<Rightarrow> int \<Rightarrow> bool \<Rightarrow> int res" where
  "blocked_cost_model l frontier_addresses folded =
     bindr (total_rows l) (\<lambda>rows.
       if folded then bindr (max_block l) (\<lambda>width. Inr (rows + (rows + frontier_addresses * width)))
       else Inr ((1 + frontier_addresses) * rows))"

section \<open>Well-formed layouts\<close>

text \<open>
  Every relation has a domain of known, non-negative size; the blocks tile the rows from 1 on
  in relation order; entities have distinct positions.  A domain may lack a start position,
  which is what \<open>build_layout\<close> leaves behind for a domain without entities.
\<close>

definition width_at :: "type_layout \<Rightarrow> string \<Rightarrow> int" where
  "width_at l r = get_or 0 (type_size l) (get_or [] (relation_domain l) r)"

definition layout_ok :: "type_layout \<Rightarrow> bool" where
  "layout_ok l \<longleftrightarrow>
     distinct (relation_order l) \<and> set (relation_order l) = fst ` set (relation_domain l) \<and>
     (\<forall>r \<in> set (relation_order l). get_or [] (relation_domain l) r \<in> fst ` set (type_size l) \<and> 0 \<le> width_at l r) \<and>
     block_start l = assign_blocks (width_at l) 1 (relation_order l) \<and>
     (\<forall>e e' i. map_of (entity_index l) e = Some i \<longrightarrow> map_of (entity_index l) e' = Some i \<longrightarrow> e = e')"

lemma dict_at_Inr [simp]: "dict_at d k = Inr v \<longleftrightarrow> map_of d k = Some v"
  by (auto simp: dict_at_def split: option.splits)

lemma dict_at_some: "map_of d k = Some v \<Longrightarrow> dict_at d k = Inr v"
  by simp

lemma get_or_some: "map_of d k = Some v \<Longrightarrow> get_or z d k = v"
  by (simp add: get_or_def)

lemma map_of_get_or: "k \<in> fst ` set d \<Longrightarrow> map_of d k = Some (get_or z d k)"
  by (cases "map_of d k") (auto simp: get_or_def map_of_eq_None_iff)

lemma fst_assign_blocks [simp]: "map fst (assign_blocks w k rs) = rs"
  by (induction w k rs rule: assign_blocks.induct) auto

lemma assign_blocks_at:
  assumes "distinct rs" and "i < length rs"
  shows "map_of (assign_blocks w k rs) (rs ! i) = Some (k + (\<Sum>j<i. w (rs ! j)))"
  using assms
proof (induction w k rs arbitrary: i rule: assign_blocks.induct)
  case (2 w k r rs)
  show ?case
  proof (cases i)
    case (Suc n)
    have "rs ! n \<noteq> r" using 2(2,3) Suc by (auto dest: nth_mem)
    with 2 Suc show ?thesis
      by (simp add: sum.lessThan_Suc_shift add.assoc del: sum.lessThan_Suc map_of_eq_Some_iff)
  qed simp
qed simp

lemma relation_position:
  assumes "layout_ok l" and "r \<in> set (relation_order l)"
  obtains i where "i < length (relation_order l)" "relation_order l ! i = r"
    "map_of (block_start l) r = Some (1 + (\<Sum>j<i. width_at l (relation_order l ! j)))"
proof -
  from assms(2) obtain i where i: "i < length (relation_order l)" "relation_order l ! i = r"
    by (auto simp: in_set_conv_nth)
  with assms(1) assign_blocks_at [of "relation_order l" i "width_at l" 1] that [of i] show thesis
    by (simp add: layout_ok_def)
qed

lemma relation_width_ok:
  assumes "layout_ok l" and "r \<in> set (relation_order l)"
  shows "relation_width l r = Inr (width_at l r)"
proof -
  from assms have d: "map_of (relation_domain l) r = Some (get_or [] (relation_domain l) r)"
    by (intro map_of_get_or) (simp add: layout_ok_def)
  from assms have "map_of (type_size l) (get_or [] (relation_domain l) r) = Some (width_at l r)"
    unfolding width_at_def by (intro map_of_get_or) (simp add: layout_ok_def)
  with d show ?thesis by (simp add: relation_width_def dict_at_some)
qed

definition row_total :: "type_layout \<Rightarrow> int" where
  "row_total l = 1 + (\<Sum>j<length (relation_order l). width_at l (relation_order l ! j))"

lemma fold_max_last:
  assumes "sorted (y # ys)"
  shows "fold max ys y = last (y # ys)"
  using assms
proof (induction ys arbitrary: y)
  case (Cons z zs)
  then have "max z y = z" by simp
  with Cons show ?case by simp
qed simp

lemma max_default_sorted: "sorted xs \<Longrightarrow> xs \<noteq> [] \<Longrightarrow> max_default d xs = last xs"
proof (cases xs)
  case (Cons y ys)
  moreover assume "sorted xs"
  ultimately show ?thesis using fold_max_last [of y ys] by (simp add: max_default_def)
qed simp

lemma sum_prefix_mono:
  fixes f :: "nat \<Rightarrow> int"
  assumes "\<And>j. j < n \<Longrightarrow> 0 \<le> f j" and "i \<le> n"
  shows "(\<Sum>j<i. f j) \<le> (\<Sum>j<n. f j)"
  using assms by (intro sum_mono2) auto

lemma width_nonneg: "layout_ok l \<Longrightarrow> j < length (relation_order l) \<Longrightarrow> 0 \<le> width_at l (relation_order l ! j)"
  using nth_mem [of j "relation_order l"] by (simp add: layout_ok_def)

lemma total_rows_ok:
  assumes "layout_ok l"
  shows "total_rows l = Inr (row_total l)"
proof -
  let ?ro = "relation_order l"
  let ?e = "\<lambda>i. 1 + (\<Sum>j<Suc i. width_at l (?ro ! j))"
  let ?body = "\<lambda>r. bindr (dict_at (block_start l) r) (\<lambda>start.
            bindr (relation_width l r) (\<lambda>width. Inr (start + width)))"
  have body: "?body (?ro ! i) = Inr (?e i)" if "i < length ?ro" for i
  proof -
    have "map_of (block_start l) (?ro ! i) = Some (1 + (\<Sum>j<i. width_at l (?ro ! j)))"
      using assms that assign_blocks_at [of ?ro i "width_at l" 1] by (simp add: layout_ok_def)
    with relation_width_ok [OF assms nth_mem [OF that]] show ?thesis by (simp add: dict_at_some)
  qed
  have "traverse ?body ?ro = Inr (map ?e [0..<length ?ro])"
    by (auto simp: traverse_eq_Inr list_all2_conv_all_nth body)
  moreover have "max_default 1 (map ?e [0..<length ?ro]) = row_total l"
  proof (cases "length ?ro")
    case (Suc n)
    have "sorted (map ?e [0..<length ?ro])"
      using width_nonneg [OF assms]
      by (auto simp: sorted_iff_nth_mono simp del: sum.lessThan_Suc intro!: sum_prefix_mono)
    then have "max_default 1 (map ?e [0..<length ?ro]) = last (map ?e [0..<length ?ro])"
      by (rule max_default_sorted) (simp add: Suc)
    then show ?thesis using Suc by (simp add: row_total_def)
  qed (simp add: max_default_def row_total_def)
  ultimately show ?thesis by (simp add: total_rows_def)
qed

lemma address_row:
  assumes "layout_ok l" and "address l e r = Inr (Some a)"
  obtains i k where "i < length (relation_order l)" "relation_order l ! i = r" "map_of (entity_index l) e = Some k"
    "map_of (type_start l) (get_or [] (relation_domain l) r) \<noteq> None"
    "the (map_of (type_start l) (get_or [] (relation_domain l) r)) \<le> k"
    "k < the (map_of (type_start l) (get_or [] (relation_domain l) r)) + width_at l r"
    "a = 1 + (\<Sum>j<i. width_at l (relation_order l ! j)) + (k - the (map_of (type_start l) (get_or [] (relation_domain l) r)))"
proof -
  from assms(2) obtain k bs ts w where k: "map_of (entity_index l) e = Some k"
      and r: "r \<in> fst ` set (relation_domain l)" and blk: "block_of l r = Inr (bs, ts, w)"
      and bounds: "ts \<le> k" "k < ts + w" and a: "a = bs - ts + k"
    by (auto simp: address_def coefficient_def res_simps split: option.splits if_splits)
  have mem: "r \<in> set (relation_order l)" using assms(1) r by (simp add: layout_ok_def)
  from blk have dom: "map_of (relation_domain l) r = Some (get_or [] (relation_domain l) r)"
    and bs: "map_of (block_start l) r = Some bs"
    and ts: "map_of (type_start l) (get_or [] (relation_domain l) r) = Some ts"
    and w: "map_of (type_size l) (get_or [] (relation_domain l) r) = Some w"
    by (auto simp: block_of_def res_simps get_or_some)
  have "w = width_at l r" using w by (simp add: width_at_def get_or_some)
  moreover obtain i where "i < length (relation_order l)" "relation_order l ! i = r"
      "map_of (block_start l) r = Some (1 + (\<Sum>j<i. width_at l (relation_order l ! j)))"
    using relation_position [OF assms(1) mem] .
  ultimately show thesis using that [of i k] k ts bs bounds a by simp
qed

lemma address_bounds:
  assumes "layout_ok l" and "address l e r = Inr (Some a)"
  shows "1 \<le> a" and "a < row_total l"
proof -
  obtain i off where i: "i < length (relation_order l)" "relation_order l ! i = r"
      and off: "0 \<le> off" "off < width_at l r" "a = 1 + (\<Sum>j<i. width_at l (relation_order l ! j)) + off"
    using address_row [OF assms] by (metis diff_ge_0_iff_ge diff_less_eq add.commute)
  have nn: "0 \<le> (\<Sum>j<i. width_at l (relation_order l ! j))"
    using width_nonneg [OF assms(1)] i(1) by (intro sum_nonneg) auto
  with off show "1 \<le> a" by simp
  have "(\<Sum>j<Suc i. width_at l (relation_order l ! j)) \<le> (\<Sum>j<length (relation_order l). width_at l (relation_order l ! j))"
    using width_nonneg [OF assms(1)] i(1) by (intro sum_prefix_mono) auto
  with off i(2) show "a < row_total l" by (simp add: row_total_def)
qed

lemma address_inj:
  assumes ok: "layout_ok l" and a: "address l e r = Inr (Some a)" and a': "address l e' r' = Inr (Some a)"
  shows "e = e' \<and> r = r'"
proof -
  let ?s = "\<lambda>i. \<Sum>j<i. width_at l (relation_order l ! j)"
  obtain i k where i: "i < length (relation_order l)" "relation_order l ! i = r" "map_of (entity_index l) e = Some k"
      "the (map_of (type_start l) (get_or [] (relation_domain l) r)) \<le> k"
      "k < the (map_of (type_start l) (get_or [] (relation_domain l) r)) + width_at l r"
      "a = 1 + ?s i + (k - the (map_of (type_start l) (get_or [] (relation_domain l) r)))"
    using address_row [OF ok a] .
  obtain i' k' where i': "i' < length (relation_order l)" "relation_order l ! i' = r'" "map_of (entity_index l) e' = Some k'"
      "the (map_of (type_start l) (get_or [] (relation_domain l) r')) \<le> k'"
      "k' < the (map_of (type_start l) (get_or [] (relation_domain l) r')) + width_at l r'"
      "a = 1 + ?s i' + (k' - the (map_of (type_start l) (get_or [] (relation_domain l) r')))"
    using address_row [OF ok a'] .
  have range: "1 + ?s i \<le> a \<and> a < 1 + ?s (Suc i)" "1 + ?s i' \<le> a \<and> a < 1 + ?s (Suc i')"
    using i i' by simp_all
  have le: "?s (Suc m) \<le> ?s n" if "m < n" "n < length (relation_order l)" for m n
    using that width_nonneg [OF ok] by (intro sum_prefix_mono) auto
  have "i = i'"
  proof (rule linorder_cases [of i i'])
    assume "i < i'" with le [OF this i'(1)] range show ?thesis by linarith
  next
    assume "i' < i" with le [OF this i(1)] range show ?thesis by linarith
  qed
  then have "r = r'" using i(2) i'(2) by simp
  moreover have "k = k'" using \<open>i = i'\<close> \<open>r = r'\<close> i(6) i'(6) by simp
  then have "e = e'" using ok i(3) i'(3) by (auto simp: layout_ok_def)
  ultimately show ?thesis by simp
qed

section \<open>The builder over the public identifiers\<close>

definition types_placed :: "(string \<times> int list) list \<Rightarrow> (string \<times> int) list \<times> (string \<times> int) list \<Rightarrow> bool" where
  "types_placed by_type = (\<lambda>(starts, sizes).
     (\<forall>(t, slots) \<in> set by_type. map_of starts t = Some (hd (sort slots)) \<and>
        map_of sizes t = Some (int (length slots)) \<and>
        sort slots = [hd (sort slots)..hd (sort slots) + int (length slots) - 1]) \<and>
     (\<forall>k. 0 \<le> get_or 0 sizes k))"

lemma place_types:
  assumes "foldM place_type by_type ([(DUMMY_TYPE, 0)], [(DUMMY_TYPE, 1)]) = Inr placed"
    and "distinct (map fst by_type)"
  shows "types_placed by_type placed"
proof -
  let ?P = "\<lambda>ys st. distinct (map fst ys) \<longrightarrow> types_placed ys st"
  have "?P by_type placed"
  proof (rule foldM_invariant [where P = ?P, OF assms(1)])
    show "?P [] ([(DUMMY_TYPE, 0)], [(DUMMY_TYPE, 1)])"
      by (simp add: types_placed_def get_or_def)
    show "?P (ys @ [x]) s'" if step: "place_type x s = Inr s'" and IH: "?P ys s" for ys x s s'
    proof
      assume d: "distinct (map fst (ys @ [x]))"
      obtain t slots where x: "x = (t, slots)" by (cases x)
      obtain starts sizes where s: "s = (starts, sizes)" by (cases s)
      from step have contiguous: "sort slots = [hd (sort slots)..hd (sort slots) + int (length slots) - 1]"
        and s': "s' = (AList.update t (hd (sort slots)) starts, AList.update t (int (length slots)) sizes)"
        by (simp_all add: place_type_def x s Let_def split: if_splits)
      have "types_placed ys (starts, sizes)" using IH d s by simp
      moreover have "t' \<noteq> t" if "(t', slots') \<in> set ys" for t' slots'
        using d that x by force
      ultimately show "types_placed (ys @ [x]) s'"
        using contiguous unfolding types_placed_def s' x by (auto simp: update_conv' split: prod.splits)
    qed
  qed
  with assms(2) show ?thesis by blast
qed

lemma name_values_Inr:
  assumes "name_values e d = Inr names"
  shows "fst ` set names = fst ` set d" and "map fst names = map fst d"
proof -
  from assms have "list_all2 (\<lambda>x y. fst y = fst x) d names"
    unfolding name_values_def traverse_eq_Inr
    by (rule list_all2_mono) (auto split: prod.splits jval.splits if_splits)
  then show "map fst names = map fst d"
    by (auto simp: list_all2_conv_all_nth intro!: nth_equalityI)
  then show "fst ` set names = fst ` set d" by (metis set_map)
qed

lemma build_public_Inr:
  assumes "build_layout_from_public_ids entity_ids relation_ids raw_types raw_domains = Inr l"
  obtains types domains starts sizes where
    "name_values (ValueError ''every entity type must be a non-empty string'') raw_types = Inr types"
    "name_values (ValueError ''every relation domain must be a non-empty string'') raw_domains = Inr domains"
    "fst ` set types = fst ` set entity_ids" "fst ` set domains = fst ` set relation_ids"
    "types_placed (group_by snd (\<lambda>(entity, _). get_or 0 entity_ids entity) types) (starts, sizes)"
    "snd ` set domains \<subseteq> snd ` set types"
    "l = \<lparr>entity_order = map fst (sort_key snd entity_ids), entity_index = entity_ids,
          type_start = starts, type_size = sizes, relation_order = map fst (sort_key snd relation_ids),
          block_start = assign_blocks (\<lambda>r. get_or 0 sizes (get_or [] domains r)) 1
            (map fst (sort_key snd relation_ids)),
          relation_domain = domains\<rparr>"
  using assms place_types [OF _ distinct_group_by] name_values_Inr(1)
  by (auto simp: build_layout_from_public_ids_def res_simps Let_def split: if_splits) blast

lemma get_or_value_in: "k \<in> fst ` set d \<Longrightarrow> get_or z d k \<in> snd ` set d"
  using map_of_get_or [of k d z] by (force dest: map_of_SomeD)

lemma placed_type:
  assumes "types_placed (group_by snd f types) (starts, sizes)" and "t \<in> snd ` set types"
  defines "slots \<equiv> map f (filter (\<lambda>x. snd x = t) types)"
  shows "map_of starts t = Some (hd (sort slots))" and "map_of sizes t = Some (int (length slots))"
    and "set slots = {hd (sort slots)..hd (sort slots) + int (length slots) - 1}"
proof -
  have "t \<in> fst ` set (group_by snd f types)" using assms(2) by simp
  then obtain vs where "(t, vs) \<in> set (group_by snd f types)" by (auto simp del: keys_group_by)
  moreover have "vs = slots" using group_by_entry [OF calculation] by (simp add: slots_def)
  ultimately have at: "map_of starts t = Some (hd (sort slots)) \<and> map_of sizes t = Some (int (length slots)) \<and>
      sort slots = [hd (sort slots)..hd (sort slots) + int (length slots) - 1]"
    using assms(1) by (auto simp: types_placed_def)
  then show "map_of starts t = Some (hd (sort slots))" "map_of sizes t = Some (int (length slots))"
    by simp_all
  have "set (sort slots) = {hd (sort slots)..hd (sort slots) + int (length slots) - 1}"
    using at by (metis set_upto)
  then show "set slots = {hd (sort slots)..hd (sort slots) + int (length slots) - 1}" by simp
qed

lemma build_public_ok:
  assumes "build_layout_from_public_ids entity_ids relation_ids raw_types raw_domains = Inr l"
    and "distinct (map snd entity_ids)" and "distinct (map fst relation_ids)"
  shows "layout_ok l"
proof -
  obtain types domains starts sizes where b:
    "fst ` set domains = fst ` set relation_ids" "snd ` set domains \<subseteq> snd ` set types"
    "types_placed (group_by snd (\<lambda>(entity, _). get_or 0 entity_ids entity) types) (starts, sizes)"
    "l = \<lparr>entity_order = map fst (sort_key snd entity_ids), entity_index = entity_ids,
          type_start = starts, type_size = sizes, relation_order = map fst (sort_key snd relation_ids),
          block_start = assign_blocks (\<lambda>r. get_or 0 sizes (get_or [] domains r)) 1
            (map fst (sort_key snd relation_ids)),
          relation_domain = domains\<rparr>"
    using build_public_Inr [OF assms(1)] by metis
  have "distinct (map fst (sort_key snd relation_ids))"
    using assms(3) by (simp add: distinct_map)
  moreover have "get_or [] domains r \<in> fst ` set sizes" if "r \<in> fst ` set relation_ids" for r
  proof -
    have "get_or [] domains r \<in> snd ` set types"
      using get_or_value_in [of r domains "[]"] that b(1,2) by auto
    from placed_type(2) [OF b(3) this] show ?thesis by (force dest: map_of_SomeD)
  qed
  moreover have "e = e'" if "map_of entity_ids e = Some i" "map_of entity_ids e' = Some i" for e e' i
  proof -
    from that have "(e, i) \<in> set entity_ids" "(e', i) \<in> set entity_ids" by (auto dest: map_of_SomeD)
    with assms(2) have "(e, i) = (e', i)" by (metis distinct_map inj_onD snd_conv)
    then show ?thesis by simp
  qed
  moreover have "0 \<le> get_or 0 sizes k" for k using b(3) by (simp add: types_placed_def)
  ultimately show ?thesis
    using b(1) by (auto simp: layout_ok_def b(4) width_at_def [abs_def])
qed

text \<open>The address exists exactly when the entity's primary type is the relation's domain.\<close>

lemma public_address:
  assumes built: "build_layout_from_public_ids entity_ids relation_ids raw_types raw_domains = Inr l"
    and ids: "distinct (map fst entity_ids)" "distinct (map snd entity_ids)" "distinct (map fst relation_ids)"
    and e: "map_of raw_types e = Some (JStr t)" and r: "map_of raw_domains r = Some (JStr d)"
    and keys: "distinct (map fst raw_types)"
  shows "\<exists>row. address l e r = Inr (if t = d then Some row else None)"
proof -
  let ?f = "\<lambda>(entity, _). get_or 0 entity_ids entity"
  obtain types domains starts sizes where b:
    "name_values (ValueError ''every entity type must be a non-empty string'') raw_types = Inr types"
    "name_values (ValueError ''every relation domain must be a non-empty string'') raw_domains = Inr domains"
    "fst ` set types = fst ` set entity_ids" "fst ` set domains = fst ` set relation_ids"
    "types_placed (group_by snd ?f types) (starts, sizes)" "snd ` set domains \<subseteq> snd ` set types"
    "l = \<lparr>entity_order = map fst (sort_key snd entity_ids), entity_index = entity_ids,
          type_start = starts, type_size = sizes, relation_order = map fst (sort_key snd relation_ids),
          block_start = assign_blocks (\<lambda>r. get_or 0 sizes (get_or [] domains r)) 1
            (map fst (sort_key snd relation_ids)),
          relation_domain = domains\<rparr>"
    using build_public_Inr [OF built] by metis
  have name: "map_of names k = Some s" if "name_values x raw = Inr names" "map_of raw k = Some (JStr s)" for x raw names k s
    using that unfolding name_values_def
    by (induction raw arbitrary: names) (auto simp: res_simps split: jval.splits if_splits)
  have te: "map_of types e = Some t" and dr: "map_of domains r = Some d"
    using name [OF b(1) e] name [OF b(2) r] .
  have tkeys: "distinct (map fst types)" using name_values_Inr(2) [OF b(1)] keys by simp
  have "e \<in> fst ` set entity_ids" using te b(3) by (force dest: map_of_SomeD)
  then obtain k where k: "map_of entity_ids e = Some k" using map_of_get_or by metis
  have dt: "d \<in> snd ` set types" using dr b(6) by (force dest: map_of_SomeD)
  define slots where "slots = map ?f (filter (\<lambda>x. snd x = d) types)"
  note placed = placed_type [OF b(5) dt, folded slots_def]
  have mem: "k \<in> set slots \<longleftrightarrow> t = d"
  proof
    assume "t = d"
    with te have "(e, d) \<in> set types" by (auto dest: map_of_SomeD)
    then show "k \<in> set slots" using k by (force simp: slots_def get_or_some)
  next
    assume "k \<in> set slots"
    then obtain e' where e': "(e', d) \<in> set types" "get_or 0 entity_ids e' = k" by (auto simp: slots_def)
    then have "e' \<in> fst ` set entity_ids" using b(3) by force
    then have "map_of entity_ids e' = Some k" using map_of_get_or [of e' entity_ids 0] e'(2) by simp
    with k ids(2) have "e' = e"
      by (metis distinct_map inj_onD map_of_SomeD prod.inject snd_conv)
    with e'(1) te tkeys show "t = d" by (metis map_of_is_SomeI option.inject)
  qed
  have "layout_ok l" using build_public_ok [OF built ids(2,3)] .
  moreover have rel: "r \<in> fst ` set domains" using dr by (force dest: map_of_SomeD)
  ultimately obtain bs where "map_of (block_start l) r = Some bs"
    using relation_position [of l r] by (metis layout_ok_def b(7) type_layout.select_convs(7))
  then have "block_of l r = Inr (bs, hd (sort slots), int (length slots))"
    using dr placed(1,2) by (simp add: block_of_def b(7) dict_at_some)
  moreover have "(hd (sort slots) \<le> k \<and> k < hd (sort slots) + int (length slots)) \<longleftrightarrow> t = d"
    using mem placed(3) by auto
  ultimately show ?thesis
    using k rel by (auto simp: address_def coefficient_def b(7))
qed

section \<open>Owner vectors and their lookup\<close>

lemma list_put_Inr:
  "list_put xs i v = Inr ys \<Longrightarrow> 0 \<le> i \<Longrightarrow> i < int (length xs) \<and> ys = xs[nat i := v]"
  by (auto simp: list_put_def py_index_def split: if_splits)

lemma owner_vector_at:
  assumes ok: "layout_ok l" and built: "build_owner_vector l keyed = Inr v" and "distinct (map fst keyed)"
  shows "int (length v) = row_total l \<and>
    (\<forall>e r a. address l e r = Inr (Some a) \<longrightarrow> v ! nat a = get_or 0 keyed (e, r)) \<and>
    (\<forall>e r. (e, r) \<in> fst ` set keyed \<longrightarrow> (\<exists>a. address l e r = Inr (Some a)))"
proof -
  let ?P = "\<lambda>ys v. int (length v) = row_total l \<and> (distinct (map fst ys) \<longrightarrow>
      (\<forall>e r a. address l e r = Inr (Some a) \<longrightarrow> v ! nat a = get_or 0 ys (e, r))) \<and>
      (\<forall>e r. (e, r) \<in> fst ` set ys \<longrightarrow> (\<exists>a. address l e r = Inr (Some a)))"
  have total: "1 \<le> row_total l"
    using width_nonneg [OF ok] by (auto simp: row_total_def intro!: sum_nonneg)
  have "?P keyed v"
  proof (rule foldM_invariant [where P = ?P and s = "replicate (nat (row_total l)) 0"])
    show "foldM (write_descriptor l) keyed (replicate (nat (row_total l)) 0) = Inr v"
      using built by (simp add: build_owner_vector_def total_rows_ok [OF ok])
    show "?P [] (replicate (nat (row_total l)) 0)"
      using total address_bounds [OF ok] by (fastforce simp: nat_less_iff)
    show "?P (ys @ [x]) s'" if step: "write_descriptor l x s = Inr s'" and IH: "?P ys s" for ys x s s'
    proof -
      obtain e' r' d where x: "x = ((e', r'), d)" by (metis prod.exhaust)
      from step obtain a' where a': "address l e' r' = Inr (Some a')" and put: "list_put s a' d = Inr s'"
        by (auto simp: write_descriptor_def x res_simps split: option.splits)
      note put' = list_put_Inr [OF put] address_bounds [OF ok a']
      have "s' ! nat a = get_or 0 (ys @ [x]) (e, r)"
        if d: "distinct (map fst (ys @ [x]))" and a: "address l e r = Inr (Some a)" for e r a
      proof (cases "(e, r) = (e', r')")
        case True
        then have "a = a'" using a a' by simp
        moreover have "map_of ys (e', r') = None" using d x by (auto simp: map_of_eq_None_iff)
        ultimately show ?thesis using put' True by (simp add: x get_or_def map_add_def nat_less_iff)
      next
        case False
        then have "nat a \<noteq> nat a'"
        proof -
          have "a \<noteq> a'" using address_inj [OF ok a, of e' r'] a' False by auto
          then show ?thesis using address_bounds [OF ok a] address_bounds [OF ok a'] by linarith
        qed
        then have "s' ! nat a = s ! nat a" using put' by simp
        also have "\<dots> = get_or 0 ys (e, r)" using IH d a by simp
        finally show ?thesis using False by (auto simp: x get_or_def map_add_def split: option.splits)
      qed
      moreover have "int (length s') = row_total l" using IH put' by simp
      ultimately show ?thesis using IH a' x by auto
    qed
  qed
  with assms(3) show ?thesis by blast
qed

lemma lookup_blocked_correct:
  assumes ok: "layout_ok l"
    and vectors: "list_all2 (\<lambda>keyed v. distinct (map fst keyed) \<and> build_owner_vector l keyed = Inr v) owner_keys vs"
    and a: "address l e r = Inr x"
  shows "lookup_blocked vs l e r = Inr (map (\<lambda>keyed. get_or 0 keyed (e, r)) owner_keys)"
proof (cases x)
  case None
  have "get_or 0 keyed (e, r) = 0" if "keyed \<in> set owner_keys" for keyed
  proof -
    from that vectors obtain v where "build_owner_vector l keyed = Inr v" "distinct (map fst keyed)"
      by (auto simp: list_all2_conv_all_nth in_set_conv_nth)
    from owner_vector_at [OF ok this]
    have "(e, r) \<in> fst ` set keyed \<Longrightarrow> \<exists>a. address l e r = Inr (Some a)" by blast
    with a None have "(e, r) \<notin> fst ` set keyed" by auto
    then show ?thesis by (rule get_or_notin)
  qed
  moreover have "length vs = length owner_keys" using vectors by (auto dest: list_all2_lengthD)
  ultimately show ?thesis
    using a None by (auto simp: lookup_blocked_def intro!: nth_equalityI)
next
  case (Some row)
  have "list_get v row = Inr (get_or 0 keyed (e, r))"
    if "distinct (map fst keyed) \<and> build_owner_vector l keyed = Inr v" for keyed v
    using owner_vector_at [OF ok, of keyed v] that address_bounds [OF ok] a Some
    by (fastforce simp: list_get_in)
  then have "traverse (\<lambda>v. list_get v row) vs = Inr (map (\<lambda>keyed. get_or 0 keyed (e, r)) owner_keys)"
    using vectors by (auto simp: traverse_eq_Inr list_all2_conv_all_nth)
  then show ?thesis using a Some by (simp add: lookup_blocked_def)
qed

section \<open>A domain without entities\<close>

lemma fst_assign_types: "map fst (fst (snd (assign_types ts k))) = map fst ts"
  by (induction ts k rule: assign_types.induct) (auto simp: Let_def split: prod.splits)

lemma set_assign_types: "set (fst (assign_types ts k)) = (\<Union>(t, ms) \<in> set ts. set ms)"
  by (induction ts k rule: assign_types.induct) (auto simp: Let_def split: prod.splits)

lemma build_layout_missing_start:
  assumes "d \<notin> snd ` set types" and "d \<noteq> DUMMY_TYPE"
  shows "map_of (type_start (build_layout types domains)) d = None"
proof -
  let ?ts = "sort_key fst (group_by snd fst types)"
  have "fst ` set (fst (snd (assign_types ?ts 1))) = snd ` set types"
    using arg_cong [OF fst_assign_types [of ?ts 1], of set] by simp
  with assms have "d \<notin> fst ` set (setdefault DUMMY_TYPE 0 (fst (snd (assign_types ?ts 1))))"
    by (simp add: setdefault_def image_Un)
  then have "map_of (setdefault DUMMY_TYPE 0 (fst (snd (assign_types ?ts 1)))) d = None"
    by (simp only: map_of_eq_None_iff not_False_eq_True)
  then show ?thesis by (simp add: build_layout_def Let_def case_prod_unfold)
qed

lemma keys_of_positions:
  "fst ` set (map (\<lambda>(position, entity). (entity, int position + 1)) (enumerate n xs)) = set xs"
  by (induction xs arbitrary: n) auto

lemma build_layout_index:
  assumes "e \<in> fst ` set types"
  shows "map_of (entity_index (build_layout types domains)) e \<noteq> None"
proof -
  let ?ts = "sort_key fst (group_by snd fst types)"
  from assms obtain t where et: "(e, t) \<in> set types" by auto
  then have "t \<in> fst ` set (group_by snd fst types)" by force
  then obtain ms where ms: "(t, ms) \<in> set (group_by snd fst types)" by (auto simp del: keys_group_by)
  with group_by_entry [OF ms] et have "e \<in> set (fst (assign_types ?ts 1))"
    by (force simp: set_assign_types)
  then have "e \<in> fst ` set (entity_index (build_layout types domains))"
    using keys_of_positions [of 0 "fst (assign_types ?ts 1)"]
    by (simp add: build_layout_def Let_def case_prod_unfold)
  then show ?thesis by (simp add: map_of_eq_None_iff)
qed

section \<open>Properties\<close>

text \<open>
  The deployable builder addresses exactly the ontology-valid keys.  For a layout built over
  the public identifiers, the address of every (entity, relation) pair is computed without an
  exception; it exists exactly when the entity's primary type is the relation's domain, lies in
  rows 1 to the directory height (row 0 stays the dummy row), and no two pairs share a row.
\<close>

theorem blocked_address_exact:
  assumes "build_layout_from_public_ids entity_ids relation_ids raw_types raw_domains = Inr l"
    and "distinct (map fst entity_ids)" "distinct (map snd entity_ids)" "distinct (map fst relation_ids)"
    and "distinct (map fst raw_types)"
    and "map_of raw_types e = Some (JStr t)" and "map_of raw_domains r = Some (JStr d)"
  shows "\<exists>row rows. address l e r = Inr (if t = d then Some row else None) \<and> total_rows l = Inr rows \<and>
    (t = d \<longrightarrow> 1 \<le> row \<and> row < rows \<and>
      (\<forall>e' r'. address l e' r' = Inr (Some row) \<longrightarrow> e' = e \<and> r' = r))"
proof -
  have ok: "layout_ok l" using build_public_ok [OF assms(1,3,4)] .
  obtain row where row: "address l e r = Inr (if t = d then Some row else None)"
    using public_address [OF assms(1-4,6,7,5)] by blast
  show ?thesis
  proof (intro exI conjI impI)
    show "address l e r = Inr (if t = d then Some row else None)" by (rule row)
    show "total_rows l = Inr (row_total l)" by (rule total_rows_ok [OF ok])
    assume "t = d"
    with row have a: "address l e r = Inr (Some row)" by simp
    from address_bounds [OF ok a] show "1 \<le> row" "row < row_total l" .
    show "\<forall>e' r'. address l e' r' = Inr (Some row) \<longrightarrow> e' = e \<and> r' = r"
      using address_inj [OF ok a] by blast
  qed
qed

definition sample_types :: "(string \<times> jval) list" where
  "sample_types = [(''a'', JStr ''P''), (''b'', JStr ''P''), (''c'', JStr ''Q'')]"

definition sample_domains :: "(string \<times> jval) list" where
  "sample_domains = [(''r'', JStr ''P''), (''s'', JStr ''Q'')]"

lemma sample_blocked_layout:
  "\<exists>l. build_layout_from_public_ids (entities sample_config) (relations sample_config) sample_types sample_domains = Inr l"
  by (simp add: build_layout_from_public_ids_def sample_types_def sample_domains_def name_values_def
      group_by_def push_at_def get_or_def place_type_def upto.simps insert_commute Let_def)

theorem blocked_address_exact_witness:
  "\<exists>l row. build_layout_from_public_ids (entities sample_config) (relations sample_config) sample_types sample_domains = Inr l
    \<and> address l ''b'' ''r'' = Inr (Some row) \<and> address l ''b'' ''s'' = Inr None"
proof -
  obtain l where l: "build_layout_from_public_ids (entities sample_config) (relations sample_config) sample_types sample_domains = Inr l"
    using sample_blocked_layout by blast
  show ?thesis
    using blocked_address_exact [OF l, of "''b''" "''P''" "''r''" "''P''"] blocked_address_exact [OF l, of "''b''" "''P''" "''s''" "''Q''"] l
    by (auto simp: sample_types_def sample_domains_def)
qed

text \<open>
  C13: Reading the assembled type-blocked directory returns each owner's own descriptor.  For any
  well-formed layout and owner vectors built from it, a lookup of any key whose address is
  computed returns, owner by owner, the descriptor that owner stored under the key and 0 when it
  stored none (in particular for every ontology-forbidden key).
\<close>

theorem blocked_lookup_correct:
  assumes "layout_ok l"
    and "list_all2 (\<lambda>keyed v. distinct (map fst keyed) \<and> build_owner_vector l keyed = Inr v) owner_keys vs"
    and "address l e r = Inr x"
  shows "lookup_blocked vs l e r = Inr (map (\<lambda>keyed. get_or 0 keyed (e, r)) owner_keys)"
  by (rule lookup_blocked_correct [OF assms])

definition sample_layout_record :: type_layout where
  "sample_layout_record = \<lparr>entity_order = [''a'', ''b'', ''c''], entity_index = [(''a'', 1), (''b'', 2), (''c'', 3)],
     type_start = [(''P'', 1), (''Q'', 3)], type_size = [(''P'', 2), (''Q'', 1)], relation_order = [''r'', ''s''],
     block_start = [(''r'', 1), (''s'', 3)], relation_domain = [(''r'', ''P''), (''s'', ''Q'')]\<rparr>"

theorem blocked_lookup_correct_witness:
  "lookup_blocked [[0, 0, 7, 9]] sample_layout_record ''b'' ''r'' = Inr [7]"
proof -
  have ok: "layout_ok sample_layout_record"
    by (auto simp: layout_ok_def sample_layout_record_def width_at_def get_or_def split: if_splits)
  have total: "total_rows sample_layout_record = Inr 4"
    by (simp add: total_rows_def relation_width_def dict_at_def max_default_def sample_layout_record_def)
  have addr: "address sample_layout_record ''b'' ''r'' = Inr (Some 2)"
      "address sample_layout_record ''c'' ''s'' = Inr (Some 3)"
    by (simp_all add: address_def block_of_def coefficient_def dict_at_def sample_layout_record_def)
  let ?keyed = "[((''b'', ''r''), 7), ((''c'', ''s''), 9)]"
  have "build_owner_vector sample_layout_record ?keyed = Inr [0, 0, 7, 9]"
    by (simp add: build_owner_vector_def total addr write_descriptor_def list_put_in eval_nat_numeral)
  then show ?thesis
    using blocked_lookup_correct [OF ok _ addr(1), of "[?keyed]" "[[0, 0, 7, 9]]"] by (simp add: get_or_def)
qed

text \<open>
  C14: The name-ordered builder leaves relations unaskable.  When the domain of a relation has no
  entity, the layout \<open>build_layout\<close> returns has a size but no start for that domain, so computing
  the address of any known entity under that relation raises \<open>KeyError\<close> instead of reporting the
  key as type-invalid.
\<close>

theorem build_layout_empty_domain_raises:
  assumes "e \<in> fst ` set types" and "map_of domains r = Some d"
    and "d \<notin> snd ` set types" and "d \<noteq> DUMMY_TYPE"
  shows "address (build_layout types domains) e r = Inl KeyError"
proof -
  let ?l = "build_layout types domains"
  have dom: "relation_domain ?l = domains" by (simp add: build_layout_def Let_def split: prod.splits)
  have start: "map_of (type_start ?l) d = None" using build_layout_missing_start assms(3,4) by blast
  have rel: "r \<in> fst ` set domains" using assms(2) by (force dest: map_of_SomeD)
  obtain k where k: "map_of (entity_index ?l) e = Some k" using build_layout_index [OF assms(1)] by blast
  have "r \<in> fst ` set (block_start ?l)"
    using rel by (simp add: build_layout_def Let_def split: prod.splits)
      (metis fst_assign_blocks set_map set_sort)
  then obtain bs where "map_of (block_start ?l) r = Some bs" using map_of_get_or by metis
  then have "block_of ?l r = Inl KeyError"
    using assms(2) start by (simp add: block_of_def dom dict_at_def)
  then show ?thesis using k rel by (simp add: address_def dom)
qed

theorem build_layout_empty_domain_raises_witness:
  "address (build_layout [(''e'', ''T'')] [(''r'', ''U'')]) ''e'' ''r'' = Inl KeyError"
  by (rule build_layout_empty_domain_raises [where d = "''U''"]) (simp_all add: DUMMY_TYPE_def)

end
