(* ===== verification/Page_Layout.thy ===== *)
theory Page_Layout
  imports Owner_Layout Type_Blocked
begin

unbundle bit_operations_syntax

text \<open>
  The public shape of the relation-paged layout (first part of \<open>doram_t2_3pc/relation_pages.py\<close>):
  the page parameters and their validation from JSON, the directory addresses of the dense and
  of the hybrid directory, and descriptor packing.  A directory together with its residual
  dictionary is a store of descriptors, stated as the locale \<open>descriptor_store\<close>.
\<close>

section \<open>Page parameters\<close>

record page_params =
  page_size :: int
  pages_per_key :: int
  page_budget :: int
  frontier_per_owner :: "int option"
  global_frontier :: "int option"
  directory_buckets :: "int option"
  bucket_slots :: "int option"
  partition_residual_by_relation :: bool

definition slots_per_key :: "page_params \<Rightarrow> int" where
  "slots_per_key p = pages_per_key p * page_size p"

definition effective_frontier_per_owner :: "page_params \<Rightarrow> int" where
  "effective_frontier_per_owner p =
     (case frontier_per_owner p of
        None \<Rightarrow> slots_per_key p
      | Some f \<Rightarrow> if f = 0 then slots_per_key p else f)"

definition pages_frontier_compaction :: "page_params \<Rightarrow> bool" where
  "pages_frontier_compaction p = (effective_frontier_per_owner p < slots_per_key p)"

definition frontier_slots :: "page_params \<Rightarrow> int \<Rightarrow> int" where
  "frontier_slots p owner_count =
     (case global_frontier p of
        Some g \<Rightarrow> g
      | None \<Rightarrow> owner_count * effective_frontier_per_owner p)"

definition uses_compact_directory :: "page_params \<Rightarrow> bool" where
  "uses_compact_directory p = (directory_buckets p \<noteq> None)"

definition uses_global_frontier :: "page_params \<Rightarrow> bool" where
  "uses_global_frontier p = (global_frontier p \<noteq> None)"

definition pool_rows :: "page_params \<Rightarrow> int" where
  "pool_rows p = page_budget p + pages_per_key p - 1"

definition page_base_bits :: "page_params \<Rightarrow> nat" where
  "page_base_bits p = max 1 (bit_length (page_budget p - 1))"

definition page_count_bits :: "page_params \<Rightarrow> nat" where
  "page_count_bits p = max 1 (bit_length (pages_per_key p))"

definition descriptor_bits :: "page_params \<Rightarrow> nat" where
  "descriptor_bits p = page_base_bits p + page_count_bits p"

text \<open>\<open>from_dict\<close> followed by \<open>validate\<close>, the checks in their order.\<close>

definition positive_int :: "jval \<Rightarrow> int res" where
  "positive_int v =
     (case strict_int v of
        None \<Rightarrow> Inl (ValueError ''must be an integer'')
      | Some i \<Rightarrow> if i < 1 then Inl (ValueError ''must be positive'') else Inr i)"

definition optional_int :: "(jval \<Rightarrow> int res) \<Rightarrow> jval \<Rightarrow> int option res" where
  "optional_int check v = (case v of JNull \<Rightarrow> Inr None | _ \<Rightarrow> bindr (check v) (\<lambda>i. Inr (Some i)))"

definition frontier_int :: "int \<Rightarrow> jval \<Rightarrow> int res" where
  "frontier_int upper v =
     (case strict_int v of
        None \<Rightarrow> Inl (ValueError ''frontier_per_owner must be an integer'')
      | Some i \<Rightarrow> if \<not> (1 \<le> i \<and> i \<le> upper) then Inl (ValueError ''frontier_per_owner must be in'') else Inr i)"

definition page_required_keys :: "string list" where
  "page_required_keys = [''page_size'', ''pages_per_key'', ''page_budget'']"

definition page_optional_keys :: "string list" where
  "page_optional_keys = [''frontier_per_owner'', ''global_frontier'', ''directory_buckets'',
     ''bucket_slots'', ''partition_residual_by_relation'']"

definition page_params_from_dict :: "jval \<Rightarrow> page_params res" where
  "page_params_from_dict raw =
     bindr (case raw of JDict d \<Rightarrow> Inr d
            | _ \<Rightarrow> Inl (ValueError ''relation_page_layout must be a JSON object'')) (\<lambda>d.
     if \<not> set page_required_keys \<subseteq> fst ` set d \<or>
        \<not> fst ` set d \<subseteq> set page_required_keys \<union> set page_optional_keys
     then Inl (ValueError ''relation_page_layout requires'')
     else
     bindr (positive_int (jget d ''page_size'')) (\<lambda>size.
     bindr (positive_int (jget d ''pages_per_key'')) (\<lambda>per_key.
     bindr (positive_int (jget d ''page_budget'')) (\<lambda>budget.
     if budget < 2 then Inl (ValueError ''page_budget must reserve the dummy page plus data'')
     else
     bindr (optional_int (frontier_int (per_key * size)) (jget d ''frontier_per_owner'')) (\<lambda>frontier.
     bindr (optional_int positive_int (jget d ''directory_buckets'')) (\<lambda>buckets.
     bindr (optional_int positive_int (jget d ''bucket_slots'')) (\<lambda>slots.
     if (buckets = None) \<noteq> (slots = None)
     then Inl (ValueError ''directory_buckets and bucket_slots must be set together'')
     else if (case buckets of None \<Rightarrow> False | Some b \<Rightarrow> b AND (b - 1) \<noteq> 0)
     then Inl (ValueError ''directory_buckets must be a power of two'')
     else
     bindr (optional_int positive_int (jget d ''global_frontier'')) (\<lambda>global.
     bindr (case get_or (JBool False) d ''partition_residual_by_relation'' of
              JBool b \<Rightarrow> Inr b
            | _ \<Rightarrow> Inl (ValueError ''partition_residual_by_relation must be boolean'')) (\<lambda>partition.
     if partition \<and> buckets = None
     then Inl (ValueError ''partition_residual_by_relation requires directory_buckets and bucket_slots'')
     else Inr \<lparr>page_size = size, pages_per_key = per_key, page_budget = budget,
       frontier_per_owner = frontier, global_frontier = global, directory_buckets = buckets,
       bucket_slots = slots, partition_residual_by_relation = partition\<rparr>)))))))))"

definition params_public_dict :: "page_params \<Rightarrow> (string \<times> jval) list" where
  "params_public_dict p =
     [(''page_size'', JInt (page_size p)), (''pages_per_key'', JInt (pages_per_key p)),
      (''page_budget'', JInt (page_budget p))]
     @ (case frontier_per_owner p of None \<Rightarrow> [] | Some f \<Rightarrow> [(''frontier_per_owner'', JInt f)])
     @ (case global_frontier p of None \<Rightarrow> [] | Some g \<Rightarrow> [(''global_frontier'', JInt g)])
     @ (case directory_buckets p of None \<Rightarrow> []
        | Some b \<Rightarrow> [(''directory_buckets'', JInt b),
            (''bucket_slots'', case bucket_slots p of None \<Rightarrow> JNull | Some s \<Rightarrow> JInt s)])
     @ (if partition_residual_by_relation p then [(''partition_residual_by_relation'', JBool True)] else [])"

definition params_ok :: "page_params \<Rightarrow> bool" where
  "params_ok p \<longleftrightarrow>
     1 \<le> page_size p \<and> 1 \<le> pages_per_key p \<and> 2 \<le> page_budget p \<and>
     (\<forall>f. frontier_per_owner p = Some f \<longrightarrow> 1 \<le> f \<and> f \<le> slots_per_key p) \<and>
     (\<forall>g. global_frontier p = Some g \<longrightarrow> 1 \<le> g) \<and>
     (directory_buckets p = None \<longleftrightarrow> bucket_slots p = None) \<and>
     (\<forall>b. directory_buckets p = Some b \<longrightarrow> 1 \<le> b \<and> b AND (b - 1) = 0) \<and>
     (\<forall>s. bucket_slots p = Some s \<longrightarrow> 1 \<le> s) \<and>
     (partition_residual_by_relation p \<longrightarrow> directory_buckets p \<noteq> None)"

section \<open>The paged configuration\<close>

record page_config =
  base :: public_config
  pages :: page_params
  type_blocks :: "type_layout option"
  entity_types :: "(string \<times> string) list"
  relation_domains :: "(string \<times> string) list"

definition relation_count :: "page_config \<Rightarrow> int" where
  "relation_count c = int (length (relations (base c)))"

definition dense_directory_rows :: "page_config \<Rightarrow> int" where
  "dense_directory_rows c = entity_count (base c) * relation_count c"

definition directory_rows :: "page_config \<Rightarrow> int res" where
  "directory_rows c = (case type_blocks c of Some l \<Rightarrow> total_rows l | None \<Rightarrow> Inr (dense_directory_rows c))"

definition uses_hybrid_directory :: "page_config \<Rightarrow> bool" where
  "uses_hybrid_directory c = (type_blocks c \<noteq> None)"

definition residual_directory_rows :: "page_config \<Rightarrow> int" where
  "residual_directory_rows c =
     (let buckets = (case directory_buckets (pages c) of None \<Rightarrow> 0 | Some b \<Rightarrow> b) in
      if partition_residual_by_relation (pages c)
      then push_bit (max 0 (bit_length (relation_count c * buckets - 1))) 1
      else buckets)"

definition residual_tag_bits :: "page_config \<Rightarrow> nat" where
  "residual_tag_bits c =
     (if partition_residual_by_relation (pages c) then max 1 (bit_length (entity_count (base c)))
      else max 1 (bit_length (dense_directory_rows c)))"

definition owners_per_directory_element :: "page_config \<Rightarrow> int" where
  "owners_per_directory_element c = max 1 (field_usable_bits (base c) div int (descriptor_bits (pages c)))"

definition directory_columns :: "page_config \<Rightarrow> int" where
  "directory_columns c =
     (let per_element = owners_per_directory_element c
      in (int (length (owners (base c))) + per_element - 1) div per_element)"

definition directory_slot :: "page_config \<Rightarrow> int \<Rightarrow> int \<times> int" where
  "directory_slot c owner_index =
     (let per_element = owners_per_directory_element c
      in (owner_index div per_element, (owner_index mod per_element) * int (descriptor_bits (pages c))))"

definition dense_directory_index :: "page_config \<Rightarrow> int \<Rightarrow> int \<Rightarrow> int res" where
  "dense_directory_index c source_slot relation_id =
     (if \<not> (0 \<le> source_slot \<and> source_slot < entity_count (base c)) then Inl (ValueError ''source slot out of range'')
      else if \<not> (1 \<le> relation_id \<and> relation_id \<le> relation_count c) then Inl (ValueError ''relation id out of range'')
      else Inr (source_slot * relation_count c + (relation_id - 1)))"

text \<open>\<open>next(name for name, value in items if value == x)\<close>.\<close>

definition name_of :: "(string \<times> int) list \<Rightarrow> int \<Rightarrow> string res" where
  "name_of ids x =
     (case find (\<lambda>(name, i). i = x) ids of None \<Rightarrow> Inl StopIteration | Some (name, i) \<Rightarrow> Inr name)"

definition blocked_directory_index :: "page_config \<Rightarrow> int \<Rightarrow> int \<Rightarrow> int option res" where
  "blocked_directory_index c source_slot relation_id =
     (case type_blocks c of
        None \<Rightarrow> bindr (dense_directory_index c source_slot relation_id) (\<lambda>i. Inr (Some i))
      | Some l \<Rightarrow>
          if source_slot = 0 then Inr (Some 0)
          else
            bindr (name_of (entities (base c)) source_slot) (\<lambda>entity.
            bindr (name_of (relations (base c)) relation_id) (\<lambda>relation.
              address l entity relation)))"

definition directory_index :: "page_config \<Rightarrow> int \<Rightarrow> int \<Rightarrow> int res" where
  "directory_index c source_slot relation_id =
     bindr (dense_directory_index c source_slot relation_id) (\<lambda>dense.
     case type_blocks c of
       None \<Rightarrow> Inr dense
     | Some l \<Rightarrow>
         if source_slot = 0 then Inr 0
         else
           bindr (name_of (entities (base c)) source_slot) (\<lambda>entity.
           bindr (name_of (relations (base c)) relation_id) (\<lambda>relation.
           bindr (address l entity relation) (\<lambda>a.
           case a of
             None \<Rightarrow> Inl (ValueError ''key belongs in the hybrid hashed residual'')
           | Some row \<Rightarrow> Inr row))))"

definition pack_descriptor :: "page_config \<Rightarrow> int \<Rightarrow> int \<Rightarrow> int res" where
  "pack_descriptor c page_base page_count =
     (if \<not> (0 \<le> page_base \<and> page_base < page_budget (pages c)) then Inl (ValueError ''page_base out of range'')
      else if \<not> (0 \<le> page_count \<and> page_count \<le> pages_per_key (pages c)) then Inl (ValueError ''page_count out of range'')
      else Inr (page_base OR push_bit (page_base_bits (pages c)) page_count))"

definition unpack_descriptor :: "page_config \<Rightarrow> int \<Rightarrow> int \<times> int" where
  "unpack_descriptor c value =
     (value AND (push_bit (page_base_bits (pages c)) 1 - 1), drop_bit (page_base_bits (pages c)) value)"

definition page_config_digest :: "(jval \<Rightarrow> string) \<Rightarrow> page_config \<Rightarrow> string" where
  "page_config_digest sha256 c = sha256 (canonical_json (JDict (
     [(''layout_version'', JInt 1),
      (''base'', public_dict (base c)),
      (''relation_page_layout'', JDict (params_public_dict (pages c)))]
     @ (if type_blocks c = None then []
        else [(''type_block_layout'', JDict
          [(''entity_types'', JDict (map (\<lambda>(k, t). (k, JStr t)) (entity_types c))),
           (''relation_domains'', JDict (map (\<lambda>(k, t). (k, JStr t)) (relation_domains c)))])]))))"

section \<open>Reading and writing descriptors\<close>

text \<open>The affine directory and the residual dictionary of one owner.\<close>

type_synonym directory_state = "int list \<times> (int \<times> int) list"

definition put_descriptor :: "page_config \<Rightarrow> int \<times> int \<Rightarrow> int \<Rightarrow> directory_state \<Rightarrow> directory_state res" where
  "put_descriptor c = (\<lambda>(source, relation) descriptor (directory, residual).
     bindr (blocked_directory_index c source relation) (\<lambda>blocked.
     if uses_hybrid_directory c \<and> blocked = None then
       bindr (dense_directory_index c source relation) (\<lambda>i.
         Inr (directory, AList.update (i + 1) descriptor residual))
     else (case blocked of
         None \<Rightarrow> Inl (TypeError ''list indices must be integers'')
       | Some row \<Rightarrow> bindr (list_put directory row descriptor) (\<lambda>directory. Inr (directory, residual)))))"

definition get_descriptor :: "page_config \<Rightarrow> directory_state \<Rightarrow> int \<times> int \<Rightarrow> int res" where
  "get_descriptor c = (\<lambda>(directory, residual) (entity, relation).
     if entity = 0 then Inr 0
     else
       bindr (blocked_directory_index c entity relation) (\<lambda>blocked.
       if uses_hybrid_directory c \<and> blocked = None then
         bindr (dense_directory_index c entity relation) (\<lambda>i. Inr (get_or 0 residual (i + 1)))
       else (case blocked of
           None \<Rightarrow> Inl (TypeError ''list indices must be integers'')
         | Some row \<Rightarrow> list_get directory row)))"

section \<open>Accepted parameters\<close>

lemma positive_int_Inr: "positive_int v = Inr i \<longleftrightarrow> v = JInt i \<and> 1 \<le> i"
  by (auto simp: positive_int_def strict_int_Some split: option.splits)

lemma frontier_int_Inr: "frontier_int u v = Inr i \<longleftrightarrow> v = JInt i \<and> 1 \<le> i \<and> i \<le> u"
  by (auto simp: frontier_int_def strict_int_Some split: option.splits)

lemma optional_int_Inr: "optional_int f v = Inr x \<longleftrightarrow>
    (v = JNull \<and> x = None) \<or> (v \<noteq> JNull \<and> (\<exists>i. f v = Inr i \<and> x = Some i))"
  by (cases v) (auto simp: optional_int_def res_simps)

lemma page_params_from_dict_ok:
  assumes "page_params_from_dict raw = Inr p"
  shows "params_ok p"
  using assms
  by (auto simp: page_params_from_dict_def res_simps positive_int_Inr frontier_int_Inr optional_int_Inr params_ok_def
      slots_per_key_def split: jval.splits if_splits option.splits)

lemma params_frontier_bounds:
  assumes "params_ok p"
  shows "1 \<le> effective_frontier_per_owner p" and "effective_frontier_per_owner p \<le> slots_per_key p"
proof -
  have "1 * 1 \<le> slots_per_key p"
    unfolding slots_per_key_def using assms by (intro mult_mono) (auto simp: params_ok_def)
  with assms show "1 \<le> effective_frontier_per_owner p" "effective_frontier_per_owner p \<le> slots_per_key p"
    by (auto simp: params_ok_def effective_frontier_per_owner_def split: option.splits)
qed

section \<open>Descriptors\<close>

lemma page_base_fits:
  assumes "params_ok p" and "0 \<le> b" and "b < page_budget p"
  shows "b < 2 ^ page_base_bits p"
proof -
  have "page_budget p - 1 < 2 ^ bit_length (page_budget p - 1)"
    using assms by (intro bit_length_less) (simp add: params_ok_def)
  also have "\<dots> \<le> 2 ^ page_base_bits p" by (intro power_increasing) (simp_all add: page_base_bits_def)
  finally show ?thesis using assms(3) by linarith
qed

definition descriptor_fits :: "page_config \<Rightarrow> int \<times> int \<Rightarrow> bool" where
  "descriptor_fits c = (\<lambda>(b, n). params_ok (pages c) \<and> 0 \<le> b \<and> b < page_budget (pages c) \<and>
     0 \<le> n \<and> n \<le> pages_per_key (pages c))"

definition descriptor_value :: "page_config \<Rightarrow> int \<times> int \<Rightarrow> int" where
  "descriptor_value c = (\<lambda>(b, n). b + 2 ^ page_base_bits (pages c) * n)"

lemma pack_descriptor_fits:
  assumes "descriptor_fits c (b, n)"
  shows "pack_descriptor c b n = Inr (descriptor_value c (b, n))"
  using assms page_base_fits [of "pages c" b] or_push_bit [of b "page_base_bits (pages c)" n]
  by (auto simp: pack_descriptor_def descriptor_fits_def descriptor_value_def)

lemma unpack_descriptor_value:
  assumes "descriptor_fits c x"
  shows "unpack_descriptor c (descriptor_value c x) = x"
proof -
  obtain b n where x: "x = (b, n)" by (cases x)
  from assms have b: "0 \<le> b" "b < 2 ^ page_base_bits (pages c)"
    using page_base_fits [of "pages c" b] by (auto simp: descriptor_fits_def x)
  then show ?thesis
    by (simp add: x unpack_descriptor_def descriptor_value_def and_mask_take drop_bit_eq_div take_bit_eq_mod)
qed

interpretation descriptor_codec: codec "descriptor_value c" "unpack_descriptor c" "descriptor_fits c" for c
  by unfold_locales (rule unpack_descriptor_value)

lemma descriptor_value_bound:
  assumes "descriptor_fits c x"
  shows "0 \<le> descriptor_value c x \<and> descriptor_value c x < 2 ^ descriptor_bits (pages c)"
proof -
  obtain b n where x: "x = (b, n)" by (cases x)
  let ?p = "pages c"
  have b: "0 \<le> b" "b < 2 ^ page_base_bits ?p" and n: "0 \<le> n" "n \<le> pages_per_key ?p"
    using assms page_base_fits [of ?p b] by (auto simp: descriptor_fits_def x)
  have "pages_per_key ?p < 2 ^ bit_length (pages_per_key ?p)" using n by (intro bit_length_less) simp
  also have "\<dots> \<le> 2 ^ page_count_bits ?p" by (intro power_increasing) (simp_all add: page_count_bits_def)
  finally have "n + 1 \<le> 2 ^ page_count_bits ?p" using n by linarith
  then have "2 ^ page_base_bits ?p * (n + 1) \<le> 2 ^ page_base_bits ?p * 2 ^ page_count_bits ?p"
    by (intro mult_left_mono) auto
  with b n show ?thesis
    by (auto simp: x descriptor_value_def descriptor_bits_def power_add algebra_simps intro: add_nonneg_nonneg)
qed

section \<open>A store of descriptors\<close>

locale descriptor_store =
  fixes put :: "'k \<Rightarrow> int \<Rightarrow> 's \<Rightarrow> 's res" and get :: "'s \<Rightarrow> 'k \<Rightarrow> int res"
    and good :: "'s \<Rightarrow> bool" and key :: "'k \<Rightarrow> bool"
  assumes put_ok: "good s \<Longrightarrow> key k \<Longrightarrow> \<exists>s'. put k d s = Inr s' \<and> good s'"
    and get_put: "good s \<Longrightarrow> key k \<Longrightarrow> key k' \<Longrightarrow> put k d s = Inr s' \<Longrightarrow>
      get s' k' = (if k' = k then Inr d else get s k')"
begin

definition put_all :: "('k \<times> int) list \<Rightarrow> 's \<Rightarrow> 's res" where
  "put_all kds = foldM (\<lambda>(k, d). put k d) kds"

lemma put_good: "good s \<Longrightarrow> key k \<Longrightarrow> put k d s = Inr s' \<Longrightarrow> good s'"
  using put_ok [of s k d] by auto

lemma put_all_get:
  assumes "good s" and "distinct (map fst kds)" and "\<And>k d. (k, d) \<in> set kds \<Longrightarrow> key k"
  shows "\<exists>s'. put_all kds s = Inr s' \<and> good s' \<and>
    (\<forall>k. key k \<longrightarrow> get s' k = (case map_of kds k of None \<Rightarrow> get s k | Some d \<Rightarrow> Inr d))"
  using assms
proof (induction kds arbitrary: s)
  case (Cons kd kds)
  obtain k d where kd: "kd = (k, d)" by (cases kd)
  have k: "key k" using Cons.prems(3) [of k d] by (simp add: kd)
  from put_ok [OF Cons.prems(1) k, of d] obtain s1 where
    s1: "put k d s = Inr s1" "good s1" by auto
  from Cons.IH [OF s1(2)] Cons.prems obtain s' where
    s': "put_all kds s1 = Inr s'" "good s'"
      "\<forall>k. key k \<longrightarrow> get s' k = (case map_of kds k of None \<Rightarrow> get s1 k | Some d \<Rightarrow> Inr d)"
    by auto
  have "k \<notin> fst ` set kds" using Cons.prems(2) by (simp add: kd)
  then have "map_of kds k = None" by (simp add: map_of_eq_None_iff)
  moreover have "get s1 k' = (if k' = k then Inr d else get s k')" if "key k'" for k'
    by (rule get_put [OF Cons.prems(1) k that s1(1)])
  ultimately have "get s' k' = (case map_of (kd # kds) k' of None \<Rightarrow> get s k' | Some d \<Rightarrow> Inr d)" if "key k'" for k'
    using s'(3) that by (auto simp: kd split: option.splits)
  with s' s1 show ?case by (auto simp: put_all_def kd)
qed (simp add: put_all_def)

end

section \<open>The directory is such a store\<close>

text \<open>A configuration as \<open>RelationPageConfig.load\<close> builds it.\<close>

definition page_config_ok :: "page_config \<Rightarrow> bool" where
  "page_config_ok c \<longleftrightarrow>
     valid_config (base c) \<and> packable_config (base c) \<and> params_ok (pages c) \<and>
     distinct (map fst (entities (base c))) \<and> distinct (map fst (relations (base c))) \<and>
     (case type_blocks c of None \<Rightarrow> True
      | Some l \<Rightarrow> \<exists>types domains. distinct (map fst types) \<and> distinct (map fst domains) \<and>
          build_layout_from_public_ids (entities (base c)) (relations (base c)) types domains = Inr l)"

definition key_in_range :: "page_config \<Rightarrow> int \<times> int \<Rightarrow> bool" where
  "key_in_range c = (\<lambda>(s, r). 1 \<le> s \<and> s < entity_count (base c) \<and> 1 \<le> r \<and> r \<le> relation_count c)"

lemma name_of_id:
  assumes "distinct (map fst ids)" and "i \<in> snd ` set ids"
  obtains name where "name_of ids i = Inr name" "map_of ids name = Some i"
proof -
  from assms(2) have "find (\<lambda>(name, j). j = i) ids \<noteq> None" by (auto simp: find_None_iff)
  then obtain name j where f: "find (\<lambda>(name, j). j = i) ids = Some (name, j)" by auto
  then obtain n where "n < length ids" "ids ! n = (name, j)" "j = i" by (auto simp: find_Some_iff)
  then have "(name, i) \<in> set ids" "j = i" using nth_mem [of n ids] by simp_all
  with f assms(1) that [of name] show thesis by (simp add: name_of_def)
qed

lemma key_names:
  assumes "page_config_ok c" and "key_in_range c (s, r)"
  obtains e rel where "name_of (entities (base c)) s = Inr e" "map_of (entities (base c)) e = Some s"
    "name_of (relations (base c)) r = Inr rel" "map_of (relations (base c)) rel = Some r"
proof -
  from assms have v: "valid_config (base c)" "distinct (map fst (entities (base c)))"
      "distinct (map fst (relations (base c)))"
    by (simp_all add: page_config_ok_def)
  have "s \<in> snd ` set (entities (base c))" "r \<in> snd ` set (relations (base c))"
    using assms(2) valid_entity_ids(2) [OF v(1)] valid_relation_ids(2) [OF v(1)]
    by (auto simp: key_in_range_def entity_count_def relation_count_def)
  with name_of_id [OF v(2)] name_of_id [OF v(3)] that show thesis by metis
qed

lemma dense_index_ok:
  assumes "key_in_range c (s, r)"
  shows "dense_directory_index c s r = Inr (s * relation_count c + (r - 1))"
    and "0 \<le> s * relation_count c + (r - 1)" and "s * relation_count c + (r - 1) < dense_directory_rows c"
proof -
  from assms show "dense_directory_index c s r = Inr (s * relation_count c + (r - 1))"
    by (simp add: key_in_range_def dense_directory_index_def)
  from assms show "0 \<le> s * relation_count c + (r - 1)"
    by (auto simp: key_in_range_def intro!: add_nonneg_nonneg mult_nonneg_nonneg)
  have "s * relation_count c + (r - 1) < (s + 1) * relation_count c"
    using assms by (simp add: key_in_range_def algebra_simps)
  also have "\<dots> \<le> entity_count (base c) * relation_count c"
    using assms by (intro mult_right_mono) (auto simp: key_in_range_def)
  finally show "s * relation_count c + (r - 1) < dense_directory_rows c"
    by (simp add: dense_directory_rows_def)
qed

lemma dense_index_inj:
  assumes "key_in_range c (s, r)" and "key_in_range c (s', r')"
    and "s * relation_count c + (r - 1) = s' * relation_count c + (r' - 1)"
  shows "s = s' \<and> r = r'"
proof -
  let ?n = "relation_count c"
  from assms(1,2) have "0 \<le> r - 1" "r - 1 < ?n" "0 \<le> r' - 1" "r' - 1 < ?n"
    by (auto simp: key_in_range_def)
  then have "(s * ?n + (r - 1)) div ?n = s" "(s' * ?n + (r' - 1)) div ?n = s'"
    by (simp_all add: div_add1_eq)
  then have "s = s'" using assms(3) by argo
  with assms(3) show ?thesis by simp
qed

lemma name_values_in:
  assumes "name_values x raw = Inr names" and "k \<in> fst ` set names"
  shows "\<exists>t. map_of raw k = Some (JStr t)"
  using assms
proof (induction raw arbitrary: names)
  case (Cons kv raw)
  obtain k0 v where kv: "kv = (k0, v)" by (cases kv)
  from Cons.prems(1) obtain t rest where v: "v = JStr t" and rest: "name_values x raw = Inr rest"
      and names: "names = (k0, t) # rest"
    by (auto simp: name_values_def kv res_simps split: jval.splits if_splits)
  show ?case
  proof (cases "k = k0")
    case False
    then have "k \<in> fst ` set rest" using Cons.prems(2) by (auto simp: names)
    from Cons.IH [OF rest this] False show ?thesis by (simp add: kv)
  qed (simp add: kv v)
qed (simp add: name_values_def)

lemma type_blocks_layout:
  assumes "page_config_ok c" and "type_blocks c = Some l"
  shows "layout_ok l" and "entity_index l = entities (base c)"
    and "map_of (entities (base c)) e = Some s \<Longrightarrow> map_of (relations (base c)) rel = Some r \<Longrightarrow> \<exists>x. address l e rel = Inr x"
proof -
  from assms obtain types domains where d: "distinct (map fst types)" "distinct (map fst domains)"
      and built: "build_layout_from_public_ids (entities (base c)) (relations (base c)) types domains = Inr l"
    by (auto simp: page_config_ok_def)
  have v: "valid_config (base c)" "distinct (map fst (entities (base c)))" "distinct (map fst (relations (base c)))"
    using assms(1) by (simp_all add: page_config_ok_def)
  have snd_ids: "distinct (map snd (entities (base c)))" using valid_entity_ids(1) [OF v(1)] .
  show "layout_ok l" using build_public_ok [OF built snd_ids v(3)] .
  obtain types' domains' starts sizes where b:
    "name_values (ValueError ''every entity type must be a non-empty string'') types = Inr types'"
    "name_values (ValueError ''every relation domain must be a non-empty string'') domains = Inr domains'"
    "fst ` set types' = fst ` set (entities (base c))" "fst ` set domains' = fst ` set (relations (base c))"
    "entity_index l = entities (base c)"
    using build_public_Inr [OF built] by (metis type_layout.select_convs(2))
  show "entity_index l = entities (base c)" by (rule b(5))
  assume e: "map_of (entities (base c)) e = Some s" and r: "map_of (relations (base c)) rel = Some r"
  have in_ids: "fst (e, s) \<in> fst ` set (entities (base c))" "fst (rel, r) \<in> fst ` set (relations (base c))"
    using map_of_SomeD [OF e] map_of_SomeD [OF r] by (blast intro: imageI)+
  then have "e \<in> fst ` set types'" "rel \<in> fst ` set domains'" unfolding b(3,4) by simp_all
  from name_values_in [OF b(1) this(1)] name_values_in [OF b(2) this(2)]
  obtain t d' where "map_of types e = Some (JStr t)" "map_of domains rel = Some (JStr d')"
    by (elim exE) (rule that)
  from public_address [OF built v(2) snd_ids v(3) this d(1)] show "\<exists>x. address l e rel = Inr x" by blast
qed

lemma blocked_index_cases:
  assumes ok: "page_config_ok c" and k: "key_in_range c (s, r)"
  obtains row rows where "blocked_directory_index c s r = Inr (Some row)" "directory_rows c = Inr rows" "0 \<le> row" "row < rows"
  | "blocked_directory_index c s r = Inr None" "uses_hybrid_directory c"
proof (cases "type_blocks c")
  case None
  with dense_index_ok [OF k] that(1) show thesis
    by (simp add: blocked_directory_index_def directory_rows_def)
next
  case (Some l)
  obtain e rel where names: "name_of (entities (base c)) s = Inr e" "map_of (entities (base c)) e = Some s"
    "name_of (relations (base c)) r = Inr rel" "map_of (relations (base c)) rel = Some r"
    using key_names [OF ok k] .
  obtain x where x: "address l e rel = Inr x" using type_blocks_layout(3) [OF ok Some names(2,4)] by blast
  have idx: "blocked_directory_index c s r = Inr x"
    using Some names x k by (simp add: blocked_directory_index_def key_in_range_def)
  show thesis
  proof (cases x)
    case None
    with idx Some that(2) show thesis by (simp add: uses_hybrid_directory_def)
  next
    case (Some row)
    have lay: "layout_ok l" using type_blocks_layout(1) [OF ok \<open>type_blocks c = Some l\<close>] .
    show thesis
      using that(1) idx Some address_bounds [OF lay x [unfolded Some]] total_rows_ok [OF lay]
      by (simp add: directory_rows_def \<open>type_blocks c = Some l\<close>)
  qed
qed

lemma blocked_index_inj:
  assumes ok: "page_config_ok c" and k: "key_in_range c (s, r)" "key_in_range c (s', r')"
    and eq: "blocked_directory_index c s r = Inr (Some row)" "blocked_directory_index c s' r' = Inr (Some row)"
  shows "s = s' \<and> r = r'"
proof (cases "type_blocks c")
  case None
  with eq k dense_index_ok(1) dense_index_inj show ?thesis by (auto simp: blocked_directory_index_def)
next
  case (Some l)
  obtain e rel where n: "name_of (entities (base c)) s = Inr e" "map_of (entities (base c)) e = Some s"
    "name_of (relations (base c)) r = Inr rel" "map_of (relations (base c)) rel = Some r"
    using key_names [OF ok k(1)] .
  obtain e' rel' where n': "name_of (entities (base c)) s' = Inr e'" "map_of (entities (base c)) e' = Some s'"
    "name_of (relations (base c)) r' = Inr rel'" "map_of (relations (base c)) rel' = Some r'"
    using key_names [OF ok k(2)] .
  have "address l e rel = Inr (Some row)" "address l e' rel' = Inr (Some row)"
    using eq Some n n' k by (simp_all add: blocked_directory_index_def key_in_range_def)
  from address_inj [OF type_blocks_layout(1) [OF ok Some] this] n n' show ?thesis by auto
qed

definition directory_good :: "page_config \<Rightarrow> directory_state \<Rightarrow> bool" where
  "directory_good c = (\<lambda>(directory, residual).
     page_config_ok c \<and> directory_rows c = Inr (int (length directory)))"

interpretation directory: descriptor_store
  "put_descriptor c" "get_descriptor c" "directory_good c" "key_in_range c" for c
proof unfold_locales
  fix st k d
  assume g: "directory_good c st" and k: "key_in_range c k"
  obtain dir res where st: "st = (dir, res)" by (cases st)
  obtain s r where sr: "k = (s, r)" by (cases k)
  from g have ok: "page_config_ok c" by (simp add: directory_good_def st)
  from blocked_index_cases [OF ok k [unfolded sr]]
  show "\<exists>st'. put_descriptor c k d st = Inr st' \<and> directory_good c st'"
  proof cases
    case (1 row rows)
    with g show ?thesis by (auto simp: put_descriptor_def st sr directory_good_def list_put_in)
  next
    case 2
    with g dense_index_ok(1) [OF k [unfolded sr]] show ?thesis
      by (auto simp: put_descriptor_def st sr directory_good_def)
  qed
next
  fix st st' k k' d
  assume g: "directory_good c st" and k: "key_in_range c k" and k': "key_in_range c k'"
    and put: "put_descriptor c k d st = Inr st'"
  obtain dir res where st: "st = (dir, res)" by (cases st)
  obtain s r where sr: "k = (s, r)" by (cases k)
  obtain s' r' where sr': "k' = (s', r')" by (cases k')
  from g have ok: "page_config_ok c" and rows: "directory_rows c = Inr (int (length dir))"
    by (simp_all add: directory_good_def st)
  have s': "s' \<noteq> 0" using k' by (auto simp: key_in_range_def sr')
  note d = dense_index_ok(1) [OF k [unfolded sr]] dense_index_ok(1) [OF k' [unfolded sr']]
  have dinj: "s * relation_count c + (r - 1) = s' * relation_count c + (r' - 1) \<longleftrightarrow> k' = k"
    using dense_index_inj [OF k [unfolded sr] k' [unfolded sr']] by (auto simp: sr sr')
  from blocked_index_cases [OF ok k [unfolded sr]]
  show "get_descriptor c st' k' = (if k' = k then Inr d else get_descriptor c st k')"
  proof cases
    case (1 row n)
    have "n = int (length dir)" using 1(2) rows by simp
    with 1 put have st': "st' = (dir[nat row := d], res)"
      by (simp add: put_descriptor_def st sr list_put_in)
    from blocked_index_cases [OF ok k' [unfolded sr']] show ?thesis
    proof cases
      case (1 row' n')
      have "nat row' = nat row \<longleftrightarrow> k' = k"
        using blocked_index_inj [OF ok k [unfolded sr] k' [unfolded sr']] 1
          \<open>blocked_directory_index c s r = Inr (Some row)\<close> \<open>0 \<le> row\<close> by (auto simp: sr sr')
      with 1 rows s' \<open>0 \<le> row\<close> show ?thesis
        by (auto simp: get_descriptor_def st st' sr' list_get_in nth_list_update)
    next
      case 2
      with 1 s' show ?thesis by (auto simp: get_descriptor_def st st' sr sr')
    qed
  next
    case 2
    with put d have st': "st' = (dir, AList.update (s * relation_count c + (r - 1) + 1) d res)"
      by (simp add: put_descriptor_def st sr)
    from blocked_index_cases [OF ok k' [unfolded sr']] show ?thesis
    proof cases
      case (1 row' n')
      with 2 s' show ?thesis by (auto simp: get_descriptor_def st st' sr sr')
    next
      case 2
      with d dinj s' show ?thesis by (auto simp: get_descriptor_def st st' sr' simp del: get_or_update)
          (simp_all add: get_or_def update_conv')
    qed
  qed
qed

end
