(* ===== verification/Compact_Directory.thy ===== *)
theory Compact_Directory
  imports Public_Config Bit_Packing
begin

unbundle bit_operations_syntax

text \<open>
  The hashed compact directory (\<open>doram_t2_3pc/compact_directory.py\<close>): the multiplicative hash,
  capacity planning from the measured load, the per-owner table with its fail-closed overflow
  check and the lookup that sums the owners' tables.  \<open>public_capacity_bound\<close>, which works in
  floating-point log-gamma arithmetic, is not modelled.
\<close>

section \<open>Tags and buckets\<close>

definition MULTIPLIER :: int where
  "MULTIPLIER = 0x9E3779B97F4A7C15"

definition HASH_INPUT_BITS :: nat where
  "HASH_INPUT_BITS = 40"

definition HASH_WORD_BITS :: nat where
  "HASH_WORD_BITS = 64"

definition key_tag :: "int \<Rightarrow> int \<Rightarrow> int \<Rightarrow> int res" where
  "key_tag entity relation relation_count =
     (if \<not> (1 \<le> relation \<and> relation \<le> relation_count) then Inl (ValueError ''relation outside range'')
      else if entity < 0 then Inl (ValueError ''entity must be non-negative'')
      else Inr (entity * relation_count + (relation - 1) + 1))"

definition hash_bucket :: "int \<Rightarrow> int \<Rightarrow> int res" where
  "hash_bucket tag buckets =
     (if buckets < 1 \<or> buckets AND (buckets - 1) \<noteq> 0 then Inl (ValueError ''buckets must be a power of two'')
      else if buckets = 1 then Inr 0
      else if bit_length tag > HASH_INPUT_BITS then Inl (ValueError ''key tag exceeds the hash input width'')
      else
        let width = bit_length buckets - 1;
            word = (tag * MULTIPLIER) AND (push_bit HASH_WORD_BITS 1 - 1)
        in if HASH_WORD_BITS < width then Inl (ValueError ''negative shift count'')
           else Inr (drop_bit (HASH_WORD_BITS - width) word))"

section \<open>Capacity planning\<close>

record directory_plan =
  plan_buckets :: int
  plan_slots :: nat
  plan_owner_count :: nat
  plan_max_load :: nat
  plan_total_keys :: nat

definition total_slots :: "directory_plan \<Rightarrow> int" where
  "total_slots p = plan_buckets p * int (plan_owner_count p) * int (plan_slots p)"

definition slack :: "directory_plan \<Rightarrow> rat" where
  "slack p = (if plan_total_keys p \<noteq> 0 then of_int (total_slots p) / of_nat (plan_total_keys p) else 0)"

definition headroom :: "directory_plan \<Rightarrow> int" where
  "headroom p = int (plan_slots p) - int (plan_max_load p)"

definition count_tag :: "int \<Rightarrow> int \<Rightarrow> (int \<times> nat) list \<Rightarrow> (int \<times> nat) list res" where
  "count_tag buckets tag counts = bindr (hash_bucket tag buckets) (\<lambda>b. Inr (count_at b counts))"

definition owner_load :: "int \<Rightarrow> int list \<Rightarrow> nat res" where
  "owner_load buckets tags =
     bindr (foldM (count_tag buckets) tags []) (\<lambda>counts. Inr (fold max (map snd counts) 0))"

definition measure_load :: "(string \<times> int list) list \<Rightarrow> int \<Rightarrow> (nat \<times> nat list) res" where
  "measure_load owner_tags buckets =
     bindr (traverse (\<lambda>(_, tags). owner_load buckets tags) owner_tags) (\<lambda>per_owner.
       Inr (fold max per_owner 0, per_owner))"

definition EQUALITY_PRODUCTS :: int where
  "EQUALITY_PRODUCTS = 50"

definition lookup_products :: "directory_plan \<Rightarrow> int \<Rightarrow> int" where
  "lookup_products p frontier_addresses =
     (let addresses = 1 + frontier_addresses;
          fetch = 2 * plan_buckets p * int (plan_owner_count p) * int (plan_slots p);
          verify = int (plan_owner_count p) * int (plan_slots p) * EQUALITY_PRODUCTS
      in addresses * (fetch + verify))"

definition dense_products :: "int \<Rightarrow> int \<Rightarrow> int \<Rightarrow> bool \<Rightarrow> int" where
  "dense_products entity_slots relation_slots frontier_addresses folded =
     (let rows = entity_slots * relation_slots
      in if folded then rows + rows + frontier_addresses * entity_slots
         else (1 + frontier_addresses) * rows)"

definition default_candidates :: "int list" where
  "default_candidates = map (\<lambda>power. push_bit power 1) [0..<15]"

definition consider_plan ::
  "(string \<times> int list) list \<Rightarrow> int \<Rightarrow> int \<Rightarrow> (directory_plan \<times> int) option \<Rightarrow> (directory_plan \<times> int) option res" where
  "consider_plan owner_tags frontier_addresses buckets best =
     bindr (measure_load owner_tags buckets) (\<lambda>(max_load, _).
       if max_load = 0 then Inr best
       else
         let plan = \<lparr>plan_buckets = buckets, plan_slots = max_load,
               plan_owner_count = (if owner_tags = [] then 1 else length owner_tags),
               plan_max_load = max_load,
               plan_total_keys = sum_list (map (length \<circ> snd) owner_tags)\<rparr>;
             cost = lookup_products plan frontier_addresses
         in case best of
              None \<Rightarrow> Inr (Some (plan, cost))
            | Some (_, best_cost) \<Rightarrow> if cost < best_cost then Inr (Some (plan, cost)) else Inr best)"

definition plan_capacity ::
  "(string \<times> int list) list \<Rightarrow> int list option \<Rightarrow> int \<Rightarrow> directory_plan res" where
  "plan_capacity owner_tags candidates frontier_addresses =
     bindr (foldM (consider_plan owner_tags frontier_addresses)
              (case candidates of None \<Rightarrow> default_candidates | Some cs \<Rightarrow> cs) None) (\<lambda>best.
       case best of None \<Rightarrow> Inl (ValueError ''no candidate bucket count fits these keys'')
       | Some (plan, _) \<Rightarrow> Inr plan)"

section \<open>Owner tables\<close>

definition slot_columns :: "nat \<Rightarrow> nat \<Rightarrow> nat list" where
  "slot_columns owner_index slots = [owner_index * slots..<(owner_index + 1) * slots]"

definition pack_slot :: "int \<Rightarrow> int \<Rightarrow> nat \<Rightarrow> int res" where
  "pack_slot tag descriptor descriptor_bits =
     (if tag < 0 \<or> descriptor < 0 then Inl (ValueError ''tag and descriptor must be non-negative'')
      else if descriptor \<ge> push_bit descriptor_bits 1 then Inl (ValueError ''descriptor does not fit'')
      else Inr (push_bit descriptor_bits tag OR descriptor))"

definition place_key ::
  "nat \<Rightarrow> int \<Rightarrow> nat \<Rightarrow> nat \<Rightarrow> nat \<Rightarrow> int \<times> int \<Rightarrow> int list \<times> (int \<times> nat) list \<Rightarrow> (int list \<times> (int \<times> nat) list) res" where
  "place_key owner_index buckets slots owner_count descriptor_bits = (\<lambda>(tag, descriptor) (table, filled).
     if tag = 0 then Inl (ValueError ''tag 0 is reserved to mark an empty slot'')
     else
       bindr (hash_bucket tag buckets) (\<lambda>bucket.
         let used = get_or 0 filled bucket in
         if used \<ge> slots then Inl (ValueError ''bucket overflows'')
         else
           let column = owner_index * slots + used in
           bindr (pack_slot tag descriptor descriptor_bits) (\<lambda>word.
           bindr (list_put table (bucket * int (owner_count * slots) + int column) word) (\<lambda>table.
             Inr (table, AList.update bucket (used + 1) filled)))))"

definition build_owner_table ::
  "(int \<times> int) list \<Rightarrow> nat \<Rightarrow> int \<Rightarrow> nat \<Rightarrow> nat \<Rightarrow> nat \<Rightarrow> int list res" where
  "build_owner_table keyed_descriptors owner_index buckets slots owner_count descriptor_bits =
     bindr (foldM (place_key owner_index buckets slots owner_count descriptor_bits) (sort keyed_descriptors)
              (replicate (nat buckets * (owner_count * slots)) 0, [])) (\<lambda>(table, _). Inr table)"

definition slot_sum :: "int list list \<Rightarrow> int \<Rightarrow> int res" where
  "slot_sum tables i = bindr (traverse (\<lambda>table. list_get table i) tables) (\<lambda>xs. Inr (sum_list xs))"

definition match_slot :: "int list list \<Rightarrow> int \<Rightarrow> int \<Rightarrow> nat \<Rightarrow> nat \<Rightarrow> nat \<Rightarrow> int \<Rightarrow> int res" where
  "match_slot tables tag bucket width descriptor_bits column found =
     bindr (slot_sum tables (bucket * int width + int column)) (\<lambda>packed.
       if packed \<noteq> 0 \<and> drop_bit descriptor_bits packed = tag
       then Inr (packed AND (push_bit descriptor_bits 1 - 1)) else Inr found)"

definition lookup_compact ::
  "int list list \<Rightarrow> int \<Rightarrow> int \<Rightarrow> nat \<Rightarrow> nat \<Rightarrow> nat \<Rightarrow> int list res" where
  "lookup_compact tables tag buckets slots owner_count descriptor_bits =
     bindr (hash_bucket tag buckets) (\<lambda>bucket.
       traverse (\<lambda>owner. foldM (match_slot tables tag bucket (owner_count * slots) descriptor_bits)
         (slot_columns owner slots) 0) [0..<owner_count])"

section \<open>The hash stays in range\<close>

lemma hash_bucket_range:
  assumes "hash_bucket tag buckets = Inr b"
  shows "0 \<le> b" and "b < buckets"
proof -
  let ?w = "bit_length buckets - 1" and ?word = "(tag * MULTIPLIER) AND (push_bit HASH_WORD_BITS 1 - 1)"
  have pos: "1 \<le> buckets" using assms by (auto simp: hash_bucket_def split: if_splits)
  show "0 \<le> b" "b < buckets"
  proof (atomize (full), cases "buckets = 1")
    case True
    with assms show "0 \<le> b \<and> b < buckets" by (auto simp: hash_bucket_def split: if_splits)
  next
    case False
    with assms have b: "b = drop_bit (HASH_WORD_BITS - ?w) ?word" and w: "?w \<le> HASH_WORD_BITS"
      by (auto simp: hash_bucket_def Let_def split: if_splits)
    have word: "?word = take_bit HASH_WORD_BITS (tag * MULTIPLIER)" by (simp add: and_mask_take)
    have "0 \<le> ?word" "?word < 2 ^ HASH_WORD_BITS" unfolding word by simp_all
    then have "0 \<le> b" by (simp add: b drop_bit_eq_div pos_imp_zdiv_nonneg_iff)
    have "b < 2 ^ ?w"
    proof (rule ccontr)
      assume "\<not> b < 2 ^ ?w"
      then have "2 ^ (HASH_WORD_BITS - ?w) * 2 ^ ?w \<le> 2 ^ (HASH_WORD_BITS - ?w) * b"
        by (intro mult_left_mono) auto
      also have "\<dots> \<le> ?word" by (simp add: b drop_bit_eq_div minus_mod_eq_mult_div [symmetric])
      finally have "2 ^ (HASH_WORD_BITS - ?w + ?w) \<le> ?word" by (simp only: power_add)
      then have "2 ^ HASH_WORD_BITS \<le> ?word" using w by (simp only: le_add_diff_inverse2)
      with \<open>?word < 2 ^ HASH_WORD_BITS\<close> show False by linarith
    qed
    also have "2 ^ ?w \<le> buckets"
    proof -
      have "2 ^ ?w \<le> nat \<bar>buckets\<bar>"
        using pos unfolding bit_length_def by (intro two_power_bit_len_le) simp
      then have "int (2 ^ ?w) \<le> int (nat \<bar>buckets\<bar>)" by (simp only: of_nat_le_iff)
      then show ?thesis using pos by simp
    qed
    finally show "0 \<le> b \<and> b < buckets" using \<open>0 \<le> b\<close> by simp
  qed
qed

section \<open>Cells\<close>

text \<open>The slot of owner \<open>o'\<close>, position \<open>u\<close>, in bucket \<open>b\<close>.\<close>

definition cell :: "nat \<Rightarrow> nat \<Rightarrow> nat \<Rightarrow> nat \<Rightarrow> nat \<Rightarrow> nat" where
  "cell n slots b o' u = b * (n * slots) + (o' * slots + u)"

lemma cell_less: "b < m \<Longrightarrow> o' < n \<Longrightarrow> u < slots \<Longrightarrow> cell n slots b o' u < m * (n * slots)"
  unfolding cell_def by (intro row_index_less)

lemma cell_inj:
  assumes "cell n slots b o' u = cell n slots b' o'' u'" "o' < n" "o'' < n" "u < slots" "u' < slots"
  shows "b = b' \<and> o' = o'' \<and> u = u'"
proof -
  have "b = b' \<and> o' * slots + u = o'' * slots + u'"
    using assms by (intro row_index_inj [of _ "n * slots"]) (simp_all add: cell_def row_index_less)
  then show ?thesis using row_index_inj [of o' slots u o'' u'] assms(4,5) by blast
qed

definition packed_slot :: "nat \<Rightarrow> int \<times> int \<Rightarrow> int" where
  "packed_slot bits = (\<lambda>(tag, descriptor). tag * 2 ^ bits + descriptor)"

definition slot_fits :: "nat \<Rightarrow> int \<times> int \<Rightarrow> bool" where
  "slot_fits bits = (\<lambda>(tag, descriptor). 0 \<le> tag \<and> 0 \<le> descriptor \<and> descriptor < 2 ^ bits)"

lemma pack_slot_iff: "pack_slot tag d bits = Inr w \<longleftrightarrow> slot_fits bits (tag, d) \<and> w = packed_slot bits (tag, d)"
proof (cases "slot_fits bits (tag, d)")
  case True
  then have "push_bit bits tag OR d = d + 2 ^ bits * tag"
    using or_push_bit [of d bits tag] by (simp add: slot_fits_def or.commute)
  with True show ?thesis by (auto simp: pack_slot_def slot_fits_def packed_slot_def)
qed (auto simp: pack_slot_def slot_fits_def)

definition unpack_slot :: "nat \<Rightarrow> int \<Rightarrow> int \<times> int" where
  "unpack_slot bits w = (drop_bit bits w, w AND (push_bit bits 1 - 1))"

lemma unpack_packed_slot:
  assumes "slot_fits bits x"
  shows "unpack_slot bits (packed_slot bits x) = x"
proof -
  obtain t d where x: "x = (t, d)" by (cases x)
  with assms show ?thesis
    by (simp add: slot_fits_def packed_slot_def unpack_slot_def drop_bit_eq_div and_mask_take take_bit_eq_mod)
qed

interpretation slot_codec: codec "packed_slot bits" "unpack_slot bits" "slot_fits bits" for bits
  by unfold_locales (rule unpack_packed_slot)

section \<open>The owner table\<close>

definition items_of :: "int \<Rightarrow> (int \<times> int) list \<Rightarrow> nat \<Rightarrow> (int \<times> int) list" where
  "items_of buckets keyed b = filter (\<lambda>(tag, d). hash_bucket tag buckets = Inr (int b)) keyed"

definition table_holds ::
  "nat \<Rightarrow> int \<Rightarrow> nat \<Rightarrow> nat \<Rightarrow> nat \<Rightarrow> (int \<times> int) list \<Rightarrow> int list \<Rightarrow> bool" where
  "table_holds owner_index buckets slots n bits keyed table \<longleftrightarrow>
     length table = nat buckets * (n * slots) \<and>
     (\<forall>b < nat buckets. length (items_of buckets keyed b) \<le> slots) \<and>
     (\<forall>b < nat buckets. \<forall>o' < n. \<forall>u < slots. table ! cell n slots b o' u =
        (if o' = owner_index \<and> u < length (items_of buckets keyed b)
         then packed_slot bits (items_of buckets keyed b ! u) else 0)) \<and>
     (\<forall>(tag, d) \<in> set keyed. tag \<noteq> 0 \<and> slot_fits bits (tag, d) \<and> is_ok (hash_bucket tag buckets))"

lemma items_of_snoc:
  "items_of buckets (keyed @ [(tag, d)]) b =
     items_of buckets keyed b @ (if hash_bucket tag buckets = Inr (int b) then [(tag, d)] else [])"
  by (simp add: items_of_def)

lemma place_key_holds:
  assumes step: "place_key owner_index buckets slots n bits (tag, d) (table, filled) = Inr (table', filled')"
    and holds: "table_holds owner_index buckets slots n bits keyed table"
    and filled: "\<forall>b < nat buckets. get_or 0 filled (int b) = length (items_of buckets keyed b)"
    and own: "owner_index < n"
  shows "table_holds owner_index buckets slots n bits (keyed @ [(tag, d)]) table' \<and>
    (\<forall>b < nat buckets. get_or 0 filled' (int b) = length (items_of buckets (keyed @ [(tag, d)]) b))"
proof -
  from step obtain bucket word where tag: "tag \<noteq> 0" and h: "hash_bucket tag buckets = Inr bucket"
      and used: "get_or 0 filled bucket < slots" and word: "pack_slot tag d bits = Inr word"
      and put: "list_put table (bucket * int (n * slots) + int (owner_index * slots + get_or 0 filled bucket)) word = Inr table'"
      and filled': "filled' = AList.update bucket (get_or 0 filled bucket + 1) filled"
    by (auto simp: place_key_def res_simps Let_def split: if_splits)
  define k where "k = nat bucket"
  have k: "bucket = int k" "k < nat buckets" using hash_bucket_range [OF h] by (auto simp: k_def)
  define u where "u = length (items_of buckets keyed k)"
  have u: "get_or 0 filled bucket = u" unfolding u_def k(1) by (rule filled [rule_format, OF k(2)])
  note u = this used [unfolded this]
  have idx: "bucket * int (n * slots) + int (owner_index * slots + get_or 0 filled bucket) = int (cell n slots k owner_index u)"
    unfolding u(1) by (simp add: cell_def k(1))
  have len: "length table = nat buckets * (n * slots)" using holds by (simp add: table_holds_def)
  have less: "cell n slots k owner_index u < length table"
    unfolding len using k(2) own u(2) by (rule cell_less)
  from put have table': "table' = table[cell n slots k owner_index u := word]"
    unfolding idx using less by (simp add: list_put_in)
  have items: "items_of buckets (keyed @ [(tag, d)]) b = items_of buckets keyed b @ (if b = k then [(tag, d)] else [])" for b
    using h k(1) by (auto simp: items_of_snoc)
  have word': "slot_fits bits (tag, d)" "word = packed_slot bits (tag, d)" using word by (simp_all add: pack_slot_iff)
  have at: "table' ! cell n slots b o' v =
      (if o' = owner_index \<and> v < length (items_of buckets (keyed @ [(tag, d)]) b)
       then packed_slot bits (items_of buckets (keyed @ [(tag, d)]) b ! v) else 0)"
    if "b < nat buckets" "o' < n" "v < slots" for b o' v
  proof (cases "b = k \<and> o' = owner_index \<and> v = u")
    case True
    then show ?thesis using less by (simp add: table' items word' u_def)
  next
    case False
    then have "cell n slots b o' v \<noteq> cell n slots k owner_index u"
      using cell_inj [of n slots b o' v k owner_index u] that own u(2) by blast
    then have "table' ! cell n slots b o' v = table ! cell n slots b o' v" by (simp add: table')
    also have "\<dots> = (if o' = owner_index \<and> v < length (items_of buckets keyed b)
         then packed_slot bits (items_of buckets keyed b ! v) else 0)"
      using holds that by (simp add: table_holds_def)
    finally show ?thesis using False by (auto simp: items nth_append u_def)
  qed
  have "length (items_of buckets (keyed @ [(tag, d)]) b) \<le> slots" if "b < nat buckets" for b
    using holds that u(2) by (auto simp: items table_holds_def u_def)
  moreover have "get_or 0 filled' (int b) = length (items_of buckets (keyed @ [(tag, d)]) b)" if "b < nat buckets" for b
    using filled [rule_format, OF that] u(1) by (simp add: filled' items u_def) (simp add: k(1))
  ultimately show ?thesis
    using holds at tag h word'(1) by (auto simp: table_holds_def table')
qed

lemma build_owner_table_holds:
  assumes "build_owner_table keyed owner_index buckets slots n bits = Inr table" and "owner_index < n"
  shows "table_holds owner_index buckets slots n bits (sort keyed) table"
proof -
  from assms(1) obtain filled where run: "foldM (place_key owner_index buckets slots n bits) (sort keyed)
      (replicate (nat buckets * (n * slots)) 0, []) = Inr (table, filled)"
    by (auto simp: build_owner_table_def res_simps)
  let ?P = "\<lambda>ys (t, f). table_holds owner_index buckets slots n bits ys t \<and>
      (\<forall>b < nat buckets. get_or 0 f (int b) = length (items_of buckets ys b))"
  have "?P (sort keyed) (table, filled)"
  proof (rule foldM_invariant [where P = ?P, OF run])
    show "?P [] (replicate (nat buckets * (n * slots)) 0, [])"
      by (auto simp: table_holds_def items_of_def cell_less)
  next
    fix ys x s s'
    assume "place_key owner_index buckets slots n bits x s = Inr s'" "?P ys s"
    with place_key_holds [OF _ _ _ assms(2)] show "?P (ys @ [x]) s'"
      by (cases x; cases s; cases s') (simp; blast)
  qed
  then show ?thesis by simp
qed

section \<open>Lookup\<close>

lemma fold_match:
  assumes "\<And>u. u \<in> set us \<Longrightarrow> P u \<Longrightarrow> f u = d"
  shows "fold (\<lambda>u acc. if P u then f u else acc) us a = (if \<exists>u \<in> set us. P u then d else a)"
  using assms
proof (induction us arbitrary: a)
  case (Cons u us)
  then show ?case by (cases "\<exists>v \<in> set us. P v") auto
qed simp

definition tables_built ::
  "int list list \<Rightarrow> (int \<times> int) list list \<Rightarrow> int \<Rightarrow> nat \<Rightarrow> nat \<Rightarrow> nat \<Rightarrow> bool" where
  "tables_built tables keyeds buckets slots n bits \<longleftrightarrow>
     length keyeds = n \<and> length tables = n \<and>
     (\<forall>i < n. distinct (map fst (keyeds ! i)) \<and>
        build_owner_table (keyeds ! i) i buckets slots n bits = Inr (tables ! i))"

lemma tables_built_facts:
  assumes "tables_built tables keyeds buckets slots n bits"
  shows "length keyeds = n \<and> length tables = n"
    and "i < n \<Longrightarrow> table_holds i buckets slots n bits (sort (keyeds ! i)) (tables ! i)"
    and "i < n \<Longrightarrow> distinct (map fst (keyeds ! i))"
  using assms build_owner_table_holds by (auto simp: tables_built_def)

text \<open>Only the owner's own table contributes to a cell.\<close>

lemma slot_sum_cell:
  assumes built: "tables_built tables keyeds buckets slots n bits"
    and bounds: "b < nat buckets" "i < n" "u < slots"
  shows "slot_sum tables (int (cell n slots b i u)) = Inr (tables ! i ! cell n slots b i u)"
proof -
  note owners = tables_built_facts(1) [OF built] and holds = tables_built_facts(2) [OF built]
  have less: "cell n slots b i u < length (tables ! j)" if "j < n" for j
    using holds [OF that] cell_less [OF bounds] by (simp add: table_holds_def)
  have get: "traverse (\<lambda>table. list_get table (int (cell n slots b i u))) tables =
      Inr (map (\<lambda>table. table ! cell n slots b i u) tables)"
    by (rule traverse_Inr) (use less owners in \<open>auto simp: in_set_conv_nth\<close>)
  have "sum_list (map (\<lambda>table. table ! cell n slots b i u) tables) =
      map (\<lambda>table. table ! cell n slots b i u) tables ! i"
  proof (rule sum_list_single)
    show "i < length (map (\<lambda>table. table ! cell n slots b i u) tables)" using assms owners by simp
    show "map (\<lambda>table. table ! cell n slots b i u) tables ! j = 0"
      if "j < length (map (\<lambda>table. table ! cell n slots b i u) tables)" "j \<noteq> i" for j
      using that holds [of j] assms owners by (simp add: table_holds_def)
  qed
  with get assms owners show ?thesis by (simp add: slot_sum_def)
qed

lemma lookup_owner:
  assumes built: "tables_built tables keyeds buckets slots n bits"
    and h: "hash_bucket tag buckets = Inr (int b)" and i: "i < n"
  shows "foldM (match_slot tables tag (int b) (n * slots) bits) (slot_columns i slots) 0 = Inr (get_or 0 (keyeds ! i) tag)"
proof -
  note holds = tables_built_facts(2) [OF built] and keys = tables_built_facts(3) [OF built]
  let ?items = "items_of buckets (sort (keyeds ! i)) b"
  let ?word = "\<lambda>u. if u < length ?items then packed_slot bits (?items ! u) else 0"
  let ?P = "\<lambda>u. u < length ?items \<and> fst (?items ! u) = tag"
  have b: "b < nat buckets" using hash_bucket_range [OF h] by auto
  have len: "length ?items \<le> slots" using holds [OF i] b by (simp add: table_holds_def)
  have item: "fst (?items ! u) \<noteq> 0 \<and> slot_fits bits (?items ! u)" if "u < length ?items" for u
  proof -
    have "?items ! u \<in> set (sort (keyeds ! i))" using nth_mem [OF that] by (simp add: items_of_def)
    with holds [OF i] show ?thesis by (auto simp: table_holds_def)
  qed
  have match: "match_slot tables tag (int b) (n * slots) bits (i * slots + u) acc =
      Inr (if ?P u then snd (?items ! u) else acc)" if "u < slots" for u acc
  proof -
    have idx: "int b * int (n * slots) + int (i * slots + u) = int (cell n slots b i u)" by (simp add: cell_def)
    have word: "tables ! i ! cell n slots b i u = ?word u"
      using holds [OF i] b i that by (simp add: table_holds_def)
    have "unpack_slot bits (?word u) = ?items ! u \<and> ?word u \<noteq> 0" if "u < length ?items"
    proof -
      have "0 < fst (?items ! u)" using item [OF that] by (auto simp: slot_fits_def split: prod.splits)
      then have "0 < ?word u"
        using item [OF that] that by (auto simp: packed_slot_def slot_fits_def split: prod.splits intro!: add_pos_nonneg)
      with slot_codec.dec_enc item [OF that] that show ?thesis by simp
    qed
    then show ?thesis
      unfolding match_slot_def idx slot_sum_cell [OF built b i that] word bindr_Inr
      by (auto simp: unpack_slot_def prod_eq_iff)
  qed
  have cols: "slot_columns i slots = map (\<lambda>u. i * slots + u) [0..<slots]"
    by (simp add: slot_columns_def map_add_upt add.commute)
  have run: "foldM (match_slot tables tag (int b) (n * slots) bits) (map (\<lambda>u. i * slots + u) us) acc =
      Inr (fold (\<lambda>u acc. if ?P u then snd (?items ! u) else acc) us acc)" if "set us \<subseteq> {..<slots}" for us acc
    using that by (induction us arbitrary: acc) (simp_all add: match)
  have same: "snd (?items ! u) = get_or 0 (keyeds ! i) tag" if "?P u" for u
  proof -
    have "?items ! u \<in> set (keyeds ! i)" using nth_mem [of u ?items] that by (auto simp: items_of_def)
    then have "(tag, snd (?items ! u)) \<in> set (keyeds ! i)" using that by (metis prod.collapse)
    from get_or_in [OF this keys [OF i], of 0] show ?thesis by simp
  qed
  have none: "get_or 0 (keyeds ! i) tag = 0" if "\<not> (\<exists>u \<in> set [0..<slots]. ?P u)"
  proof (rule get_or_notin, rule notI)
    assume "tag \<in> fst ` set (keyeds ! i)"
    then obtain d where "(tag, d) \<in> set (keyeds ! i)" by auto
    then have "(tag, d) \<in> set ?items" using h by (simp add: items_of_def)
    then obtain u where "u < length ?items" "?items ! u = (tag, d)" by (auto simp: in_set_conv_nth)
    with that len show False by auto
  qed
  have "fold (\<lambda>u acc. if ?P u then snd (?items ! u) else acc) [0..<slots] 0 = get_or 0 (keyeds ! i) tag"
    using fold_match [of "[0..<slots]" ?P "\<lambda>u. snd (?items ! u)" "get_or 0 (keyeds ! i) tag" 0] same none by auto
  moreover have "set [0..<slots] \<subseteq> {..<slots}" by auto
  ultimately show ?thesis unfolding cols using run [of "[0..<slots]" 0] by (simp only:)
qed

lemma lookup_all:
  assumes built: "tables_built tables keyeds buckets slots n bits"
    and h: "hash_bucket tag buckets = Inr b"
  shows "lookup_compact tables tag buckets slots n bits = Inr (map (\<lambda>keyed. get_or 0 keyed tag) keyeds)"
proof -
  obtain k where k: "b = int k" using hash_bucket_range(1) [OF h] nonneg_int_cases by blast
  have "traverse (\<lambda>owner. foldM (match_slot tables tag b (n * slots) bits) (slot_columns owner slots) 0) [0..<n] =
      Inr (map (\<lambda>i. get_or 0 (keyeds ! i) tag) [0..<n])"
    by (rule traverse_Inr) (use lookup_owner [OF built] assms k in auto)
  moreover have "map (\<lambda>i. get_or 0 (keyeds ! i) tag) [0..<n] = map (\<lambda>keyed. get_or 0 keyed tag) keyeds"
    using tables_built_facts(1) [OF built] by (intro nth_equalityI) auto
  ultimately show ?thesis using assms by (simp add: lookup_compact_def)
qed

section \<open>Building succeeds within the planned load\<close>

definition keys_fit :: "int \<Rightarrow> nat \<Rightarrow> nat \<Rightarrow> (int \<times> int) list \<Rightarrow> bool" where
  "keys_fit buckets slots bits keyed \<longleftrightarrow>
     list_all (\<lambda>(tag, d). tag \<noteq> 0 \<and> slot_fits bits (tag, d) \<and> is_ok (hash_bucket tag buckets)) keyed \<and>
     (\<forall>b < nat buckets. length (items_of buckets keyed b) \<le> slots)"

lemma place_key_ok:
  assumes "table_holds i buckets slots n bits keyed table" and "i < n"
    and "\<forall>b < nat buckets. get_or 0 filled (int b) = length (items_of buckets keyed b)"
    and "keys_fit buckets slots bits (keyed @ [(tag, d)])"
  shows "\<exists>s. place_key i buckets slots n bits (tag, d) (table, filled) = Inr s"
proof -
  obtain bucket where tag: "tag \<noteq> 0" "slot_fits bits (tag, d)" and h: "hash_bucket tag buckets = Inr bucket"
    using assms(4) by (auto simp: keys_fit_def is_ok_iff)
  define k where "k = nat bucket"
  have k: "bucket = int k" "k < nat buckets" using hash_bucket_range [OF h] by (auto simp: k_def)
  have "Suc (length (items_of buckets keyed k)) \<le> slots"
    using assms(4) k h by (auto simp: keys_fit_def items_of_snoc dest!: spec [of _ k])
  then have used: "get_or 0 filled (int k) < slots" using assms(3) k(2) by simp
  then have "cell n slots k i (get_or 0 filled (int k)) < length table"
    using assms(1,2) k(2) cell_less by (auto simp: table_holds_def)
  then obtain t where "list_put table (int k * int (n * slots) + int (i * slots + get_or 0 filled (int k)))
      (packed_slot bits (tag, d)) = Inr t"
  proof -
    have "int k * int (n * slots) + int (i * slots + get_or 0 filled (int k)) =
        int (cell n slots k i (get_or 0 filled (int k)))" by (simp add: cell_def)
    then show thesis
      using that \<open>cell n slots k i (get_or 0 filled (int k)) < length table\<close> by (simp add: list_put_in)
  qed
  moreover have "pack_slot tag d bits = Inr (packed_slot bits (tag, d))" using tag(2) by (simp add: pack_slot_iff)
  ultimately show ?thesis
    using tag(1) h used by (auto simp: place_key_def k(1) Let_def)
qed

lemma keys_fit_prefix: "keys_fit buckets slots bits (xs @ ys) \<Longrightarrow> keys_fit buckets slots bits xs"
  by (auto simp: keys_fit_def items_of_def)

lemma build_owner_table_ok:
  assumes "keys_fit buckets slots bits keyed" and "i < n"
  shows "is_ok (build_owner_table keyed i buckets slots n bits)"
proof -
  let ?P = "\<lambda>ys (t, f). table_holds i buckets slots n bits ys t \<and>
      (\<forall>b < nat buckets. get_or 0 f (int b) = length (items_of buckets ys b))"
  have fit: "keys_fit buckets slots bits (sort keyed)"
  proof -
    have "length (items_of buckets (sort keyed) b) = length (items_of buckets keyed b)" for b
      unfolding items_of_def by (metis mset_filter mset_sort size_mset)
    with assms(1) show ?thesis by (auto simp: keys_fit_def list_all_iff)
  qed
  have "\<exists>s. foldM (place_key i buckets slots n bits) ys (replicate (nat buckets * (n * slots)) 0, []) = Inr s \<and> ?P ys s"
    if "keys_fit buckets slots bits ys" for ys
    using that
  proof (induction ys rule: rev_induct)
    case Nil
    then show ?case by (auto simp: table_holds_def items_of_def cell_less)
  next
    case (snoc x xs)
    obtain tag d where x: "x = (tag, d)" by (cases x)
    from snoc.IH [OF keys_fit_prefix [OF snoc.prems]] obtain t f where
      run: "foldM (place_key i buckets slots n bits) xs (replicate (nat buckets * (n * slots)) 0, []) = Inr (t, f)"
      and P: "?P xs (t, f)" by auto
    have "\<exists>s. place_key i buckets slots n bits (tag, d) (t, f) = Inr s"
      by (rule place_key_ok [OF _ assms(2), of buckets slots bits xs]) (use P snoc.prems x in auto)
    then obtain t' f' where step: "place_key i buckets slots n bits (tag, d) (t, f) = Inr (t', f')"
      by (metis prod.exhaust)
    from place_key_holds [OF step _ _ assms(2)] P have "?P (xs @ [x]) (t', f')" by (auto simp: x)
    with run step show ?case by (auto simp: foldM_append x)
  qed
  from this [OF fit] obtain t f where "foldM (place_key i buckets slots n bits) (sort keyed)
      (replicate (nat buckets * (n * slots)) 0, []) = Inr (t, f)" by (metis prod.exhaust)
  then show ?thesis by (simp add: build_owner_table_def)
qed

lemma owner_load_bound:
  assumes "owner_load buckets tags = Inr m"
  shows "(\<forall>tag \<in> set tags. is_ok (hash_bucket tag buckets)) \<and>
    (\<forall>b. length (filter (\<lambda>tag. hash_bucket tag buckets = Inr b) tags) \<le> m)"
proof -
  from assms obtain counts where run: "foldM (count_tag buckets) tags [] = Inr counts"
      and m: "m = fold max (map snd counts) 0"
    by (auto simp: owner_load_def res_simps)
  have inv: "distinct (map fst counts) \<and> (\<forall>tag \<in> set tags. is_ok (hash_bucket tag buckets)) \<and>
      (\<forall>b. get_or 0 counts b = length (filter (\<lambda>tag. hash_bucket tag buckets = Inr b) tags))"
  proof (rule foldM_invariant [OF run, where P = "\<lambda>ys c. distinct (map fst c) \<and>
      (\<forall>tag \<in> set ys. is_ok (hash_bucket tag buckets)) \<and>
      (\<forall>b. get_or 0 c b = length (filter (\<lambda>tag. hash_bucket tag buckets = Inr b) ys))"])
  qed (auto simp: count_tag_def res_simps distinct_count_at)
  have max: "n \<le> fold max ns a" if "n \<in> set ns \<or> n \<le> a" for n ns and a :: nat
    using that by (induction ns arbitrary: a) (auto simp: le_max_iff_disj)
  have "get_or 0 counts b \<le> m" for b
  proof (cases "map_of counts b")
    case (Some v)
    then have "v \<in> set (map snd counts)" by (force dest: map_of_SomeD)
    with max [of v "map snd counts" 0] Some show ?thesis by (simp add: m get_or_def)
  qed (simp add: get_or_def)
  with inv show ?thesis by metis
qed

lemma measure_load_bound:
  assumes "measure_load owner_tags buckets = Inr (m, per)" and "(owner, tags) \<in> set owner_tags"
  shows "\<exists>k \<le> m. owner_load buckets tags = Inr k"
proof -
  from assms(1) have run: "traverse (\<lambda>(_, tags). owner_load buckets tags) owner_tags = Inr per"
    and m: "m = fold max per 0" by (auto simp: measure_load_def res_simps)
  from assms(2) obtain i where i: "i < length owner_tags" "owner_tags ! i = (owner, tags)"
    by (auto simp: in_set_conv_nth)
  have k: "owner_load buckets tags = Inr (per ! i)" using traverse_nth [OF run i(1)] i(2) by simp
  have "per ! i \<in> set per" using i(1) length_traverse [OF run] by simp
  moreover have "x \<le> fold max xs a" if "x \<in> set xs \<or> x \<le> a" for x xs and a :: nat
    using that by (induction xs arbitrary: a) (auto simp: le_max_iff_disj)
  ultimately show ?thesis using k m by blast
qed

definition plan_for :: "(string \<times> int list) list \<Rightarrow> int \<Rightarrow> nat \<Rightarrow> directory_plan" where
  "plan_for owner_tags buckets max_load = \<lparr>plan_buckets = buckets, plan_slots = max_load,
     plan_owner_count = (if owner_tags = [] then 1 else length owner_tags),
     plan_max_load = max_load, plan_total_keys = sum_list (map (length \<circ> snd) owner_tags)\<rparr>"

text \<open>A cost \<open>k\<close> no worse than what a candidate would cost, if that candidate holds a key.\<close>

definition beats :: "(string \<times> int list) list \<Rightarrow> int \<Rightarrow> int \<Rightarrow> int \<Rightarrow> bool" where
  "beats owner_tags f k b = (case measure_load owner_tags b of
     Inl _ \<Rightarrow> False
   | Inr (m, _) \<Rightarrow> m = 0 \<or> k \<le> lookup_products (plan_for owner_tags b m) f)"

definition plan_of :: "(string \<times> int list) list \<Rightarrow> directory_plan \<Rightarrow> int \<Rightarrow> bool" where
  "plan_of owner_tags plan b = (case measure_load owner_tags b of
     Inl _ \<Rightarrow> False
   | Inr (m, _) \<Rightarrow> 0 < m \<and> plan = plan_for owner_tags b m)"

lemma beats_mono: "beats owner_tags f k b \<Longrightarrow> k' \<le> k \<Longrightarrow> beats owner_tags f k' b"
  by (auto simp: beats_def split: sum.splits)

definition best_so_far :: "(string \<times> int list) list \<Rightarrow> int \<Rightarrow> int list \<Rightarrow> (directory_plan \<times> int) option \<Rightarrow> bool" where
  "best_so_far owner_tags f ys best = (case best of
      None \<Rightarrow> (\<forall>b \<in> set ys. \<forall>k. beats owner_tags f k b)
    | Some (p, k) \<Rightarrow> k = lookup_products p f \<and> (\<exists>b \<in> set ys. plan_of owner_tags p b) \<and>
        (\<forall>b \<in> set ys. beats owner_tags f k b))"

lemma consider_plan_best:
  assumes step: "consider_plan owner_tags f x best = Inr best'" and IH: "best_so_far owner_tags f ys best"
  shows "best_so_far owner_tags f (ys @ [x]) best'"
proof -
  from step obtain m per where ml: "measure_load owner_tags x = Inr (m, per)"
    by (auto simp: consider_plan_def res_simps)
  define new where "new = plan_for owner_tags x m"
  define cost where "cost = lookup_products new f"
  have self: "m = 0 \<Longrightarrow> beats owner_tags f k x" "beats owner_tags f cost x" "m \<noteq> 0 \<Longrightarrow> plan_of owner_tags new x" for k
    by (simp_all add: beats_def plan_of_def ml cost_def new_def)
  consider "m = 0" "best' = best" | "m \<noteq> 0" "best = None" "best' = Some (new, cost)"
    | p k where "m \<noteq> 0" "best = Some (p, k)" "cost < k" "best' = Some (new, cost)"
    | p k where "m \<noteq> 0" "best = Some (p, k)" "k \<le> cost" "best' = best"
    using step ml
    by (auto simp: consider_plan_def plan_for_def [symmetric] Let_def new_def [symmetric] cost_def [symmetric]
        split: option.splits if_splits)
  then show ?thesis
  proof cases
    case 1
    with IH self(1) show ?thesis by (auto simp: best_so_far_def split: option.splits)
  next
    case 2
    with IH self show ?thesis by (auto simp: best_so_far_def cost_def)
  next
    case 3
    with IH self show ?thesis by (auto simp: best_so_far_def cost_def intro: beats_mono)
  next
    case 4
    with IH self beats_mono [OF self(2)] show ?thesis by (auto simp: best_so_far_def)
  qed
qed

lemma plan_capacity_best:
  assumes "plan_capacity owner_tags (Some candidates) f = Inr plan"
  shows "(\<exists>b \<in> set candidates. plan_of owner_tags plan b) \<and>
    (\<forall>b \<in> set candidates. beats owner_tags f (lookup_products plan f) b)"
proof -
  from assms obtain cost where run: "foldM (consider_plan owner_tags f) candidates None = Inr (Some (plan, cost))"
    by (auto simp: plan_capacity_def res_simps split: option.splits)
  have "best_so_far owner_tags f candidates (Some (plan, cost))"
  proof (rule foldM_invariant [OF run])
    show "best_so_far owner_tags f [] None" by (simp add: best_so_far_def)
  qed (rule consider_plan_best)
  then show ?thesis by (auto simp: best_so_far_def)
qed

section \<open>Properties\<close>

text \<open>
  C15: The compact directory answers every lookup exactly.  When each owner's table was built
  from its keyed descriptors, looking a hashable tag up in the sum of the tables returns, owner
  by owner, the descriptor that owner stored under the tag and 0 when it stored none: no owner's
  slots disturb another's, and a bucket collision is resolved by the tag comparison.
\<close>

theorem compact_lookup_correct:
  assumes "tables_built tables keyeds buckets slots n bits" and "hash_bucket tag buckets = Inr b"
  shows "lookup_compact tables tag buckets slots n bits = Inr (map (\<lambda>keyed. get_or 0 keyed tag) keyeds)"
  by (rule lookup_all [OF assms])

lemma sample_hash: "hash_bucket 5 2 = Inr 0" "hash_bucket 9 2 = Inr 1" "hash_bucket 7 2 = Inr 0"
  by (simp_all add: hash_bucket_def HASH_INPUT_BITS_def HASH_WORD_BITS_def MULTIPLIER_def bit_length_def
      bit_len_nat.simps Let_def)

theorem compact_lookup_correct_witness:
  "\<exists>t0 t1. build_owner_table [(5, 3), (9, 6), (7, 2)] 0 2 2 2 4 = Inr t0 \<and> build_owner_table [(7, 1)] 1 2 2 2 4 = Inr t1 \<and>
     lookup_compact [t0, t1] 7 2 2 2 4 = Inr [2, 1]"
proof -
  have h: "hash_bucket t 2 = Inr (if t = 9 then 1 else 0)" if "t = 5 \<or> t = 9 \<or> t = 7" for t
    using that sample_hash by auto
  have "keys_fit 2 2 4 [(5, 3), (9, 6), (7, 2)]" "keys_fit 2 2 4 [(7, 1)]"
    by (auto simp: keys_fit_def items_of_def slot_fits_def sample_hash less_Suc_eq eval_nat_numeral)
  then obtain t0 t1 where t: "build_owner_table [(5, 3), (9, 6), (7, 2)] 0 2 2 2 4 = Inr t0"
      "build_owner_table [(7, 1)] 1 2 2 2 4 = Inr t1"
    using build_owner_table_ok [of 2 2 4 _ 0 2] build_owner_table_ok [of 2 2 4 _ 1 2] by (force simp: is_ok_iff)
  then have "tables_built [t0, t1] [[(5, 3), (9, 6), (7, 2)], [(7, 1)]] 2 2 2 4"
    by (auto simp: tables_built_def less_Suc_eq numeral_2_eq_2)
  from compact_lookup_correct [OF this sample_hash(3)] t show ?thesis by (auto simp: get_or_def)
qed

text \<open>
  C16: A capacity plan is sufficient and cheapest.  The plan \<open>plan_capacity\<close> returns for given
  candidates costs no more than any candidate that holds a key, and any owner whose keys were
  part of the measurement can build its table under the plan without overflow.
\<close>

theorem plan_capacity_sufficient:
  assumes "plan_capacity owner_tags (Some candidates) f = Inr plan"
    and "(owner, map fst keyed) \<in> set owner_tags"
    and "list_all (\<lambda>(tag, d). tag \<noteq> 0 \<and> slot_fits bits (tag, d)) keyed" and "i < n"
  shows "is_ok (build_owner_table keyed i (plan_buckets plan) (plan_slots plan) n bits) \<and>
    (\<forall>b \<in> set candidates. beats owner_tags f (lookup_products plan f) b)"
proof -
  from plan_capacity_best [OF assms(1)] obtain b where b: "plan_of owner_tags plan b"
    and best: "\<forall>b \<in> set candidates. beats owner_tags f (lookup_products plan f) b" by blast
  from b obtain m per where ml: "measure_load owner_tags b = Inr (m, per)" and plan: "plan = plan_for owner_tags b m"
    by (auto simp: plan_of_def split: sum.splits)
  obtain k where k: "k \<le> m" "owner_load b (map fst keyed) = Inr k"
    using measure_load_bound [OF ml assms(2)] by blast
  note load = owner_load_bound [OF k(2)]
  have "length (items_of b keyed x) \<le> m" for x
  proof -
    have "length (items_of b keyed x) = length (filter (\<lambda>tag. hash_bucket tag b = Inr (int x)) (map fst keyed))"
      by (simp add: items_of_def filter_map comp_def case_prod_unfold)
    with load k(1) show ?thesis by (metis order_trans)
  qed
  with assms(3) load have "keys_fit b m bits keyed"
    by (auto simp: keys_fit_def list_all_iff)
  from build_owner_table_ok [OF this assms(4)] best show ?thesis by (simp add: plan plan_for_def)
qed

theorem plan_capacity_sufficient_witness:
  "\<exists>plan. plan_capacity [(''x'', [5, 9, 7])] (Some [2]) 1 = Inr plan \<and>
     is_ok (build_owner_table [(5, 3), (9, 6), (7, 2)] 0 (plan_buckets plan) (plan_slots plan) 1 4)"
proof -
  have "measure_load [(''x'', [5, 9, 7])] 2 = Inr (2, [2])"
    by (simp add: measure_load_def owner_load_def count_tag_def sample_hash count_at_def get_or_def)
  then obtain plan where plan: "plan_capacity [(''x'', [5, 9, 7])] (Some [2]) 1 = Inr plan"
    by (simp add: plan_capacity_def consider_plan_def Let_def)
  from plan_capacity_sufficient [OF plan, of "''x''" "[(5, 3), (9, 6), (7, 2)]" 4 0 1] plan show ?thesis
    by (auto simp: slot_fits_def)
qed

end
