(* ===== verification/Page_Circuit.thy ===== *)
theory Page_Circuit
  imports Scan_Circuit Relation_Pages Compact_Directory
begin

text \<open>
  The circuit \<open>page_program.py\<close> generates, read as a function of the three servers' inputs as in
  \<open>Scan_Circuit\<close>: the private directory (dense, hashed, or type-blocked with a hashed residual),
  the window reads of the page pool, the frontier, and the ranking block.  The \<open>ablate_\<close>
  switches of the renderer are the record \<open>page_ablations\<close>.
\<close>

section \<open>Validation and cost\<close>

record page_ablations =
  ablate_relation_check :: bool
  ablate_window_demux :: bool
  ablate_folded_directory :: bool
  ablate_folded_residual :: bool
  ablate_compaction :: bool
  ablate_owner_batching :: bool

definition PAGE_MAX_BATCH_QUERIES :: int where
  "PAGE_MAX_BATCH_QUERIES = 10"

definition second_width :: "page_config \<Rightarrow> int" where
  "second_width c = int (length (owners (base c))) * slots_per_key (pages c)"

definition page_frontier_slots :: "page_config \<Rightarrow> int" where
  "page_frontier_slots c = frontier_slots (pages c) (int (length (owners (base c))))"

definition page_validate :: "page_config \<Rightarrow> int \<Rightarrow> unit res" where
  "page_validate c query_count =
     (if field_prime (base c) \<notin> set SCALABLE_FIELD_PRIMES
      then Inl (ValueError ''the relation-paged circuit requires an audited scalable field_prime'')
      else if \<not> (1 \<le> query_count \<and> query_count \<le> PAGE_MAX_BATCH_QUERIES)
      then Inl (ValueError ''query_count must be in'')
      else if int (packed_edge_bits (base c)) > field_usable_bits (base c)
      then Inl (ValueError ''packed edge does not fit the scalable field'')
      else if int (descriptor_bits (pages c)) > field_usable_bits (base c)
      then Inl (ValueError ''page descriptor does not fit the scalable field'')
      else if top_k (base c) >
        frontier_slots (pages c) (int (length (owners (base c)))) * int (length (owners (base c))) * slots_per_key (pages c)
      then Inl (ValueError ''top_k exceeds the paged candidate count'')
      else if relation_fanout_per_owner (base c) \<noteq> None
      then Inl (ValueError ''the relation-paged backend replaces relation_fanout_per_owner '')
      else if uses_hybrid_directory c \<and> \<not> uses_compact_directory (pages c)
      then Inl (ValueError ''hybrid type-blocked layout requires a compact residual'')
      else Inr ())"

definition check_compaction_ablation :: "page_config \<Rightarrow> unit res" where
  "check_compaction_ablation c =
     (if uses_global_frontier (pages c)
      then Inl (ValueError ''ablate_compaction is incompatible with global_frontier'')
      else if effective_frontier_per_owner (pages c) \<noteq> slots_per_key (pages c)
      then Inl (ValueError ''ablate_compaction requires frontier_per_owner'')
      else Inr ())"

section \<open>The public constants of the program\<close>

definition public_rows :: "page_config \<Rightarrow> int" where
  "public_rows c = (case directory_rows c of Inl _ \<Rightarrow> 0 | Inr n \<Rightarrow> n)"

definition dir_index_bits :: "page_config \<Rightarrow> nat" where
  "dir_index_bits c = max 1 (bit_length (public_rows c - 1))"

definition ent_index_bits :: "page_config \<Rightarrow> nat" where
  "ent_index_bits c = max 1 (bit_length (entity_count (base c) - 1))"

definition rel_index_bits :: "page_config \<Rightarrow> nat" where
  "rel_index_bits c = max 1 (bit_length (relation_count c - 1))"

definition pool_index_bits :: "page_config \<Rightarrow> nat" where
  "pool_index_bits c = max 1 (bit_length (page_budget (pages c) - 1))"

text \<open>\<open>params.directory_buckets or 1\<close>.\<close>

definition or_one :: "int option \<Rightarrow> int" where
  "or_one x = (case x of None \<Rightarrow> 1 | Some n \<Rightarrow> if n = 0 then 1 else n)"

definition program_buckets :: "page_config \<Rightarrow> nat" where
  "program_buckets c = nat (or_one (directory_buckets (pages c)))"

definition program_slots :: "page_config \<Rightarrow> nat" where
  "program_slots c = nat (or_one (bucket_slots (pages c)))"

definition bucket_width :: "page_config \<Rightarrow> nat" where
  "bucket_width c = length (owners (base c)) * program_slots c"

definition bucket_index_bits :: "page_config \<Rightarrow> nat" where
  "bucket_index_bits c = max 1 (bit_length (int (program_buckets c) - 1))"

definition residual_rows :: "page_config \<Rightarrow> nat" where
  "residual_rows c = nat (max 1 (residual_directory_rows c))"

definition compact_index_bits :: "page_config \<Rightarrow> nat" where
  "compact_index_bits c = max 1 (bit_length (int (residual_rows c) - 1))"

definition packed_slot_bits :: "page_config \<Rightarrow> nat" where
  "packed_slot_bits c = residual_tag_bits c + descriptor_bits (pages c)"

definition hash_product_bits :: "page_config \<Rightarrow> nat" where
  "hash_product_bits c = residual_tag_bits c + bit_length MULTIPLIER"

definition packed_directory_bits :: "page_config \<Rightarrow> nat" where
  "packed_directory_bits c =
     nat (min (field_usable_bits (base c)) (owners_per_directory_element c * int (descriptor_bits (pages c))))"

definition fold_chunk :: "page_config \<Rightarrow> nat" where
  "fold_chunk c = nat (max 1 (256 div max 1 (directory_columns c)))"

definition residual_fetch_batch :: "page_config \<Rightarrow> nat" where
  "residual_fetch_batch c = max 1 (256 div max 1 (bucket_width c))"

definition MAP_SUM_WIDTH_WARNING :: int where
  "MAP_SUM_WIDTH_WARNING = 512"

definition owner_read_batch :: "page_config \<Rightarrow> nat \<Rightarrow> nat" where
  "owner_read_batch c query_count =
     nat (min (int (length (owners (base c))))
       (max 1 (MAP_SUM_WIDTH_WARNING div max 1 (int query_count * page_frontier_slots c * slots_per_key (pages c)))))"

text \<open>The checks of the compact slot that the renderer makes.\<close>

definition check_compact :: "page_config \<Rightarrow> unit res" where
  "check_compact c =
     (if \<not> uses_compact_directory (pages c) then Inr ()
      else if int (packed_slot_bits c) > field_usable_bits (base c) then Inl (ValueError ''compact slot needs'')
      else if bucket_index_bits c > HASH_WORD_BITS then Inl (ValueError ''directory_buckets exceeds the hash word width'')
      else Inr ())"

section \<open>Scans\<close>

definition m_le :: "mpc_ops \<Rightarrow> int \<Rightarrow> int \<Rightarrow> int" where
  "m_le ops x y = m_not ops (m_less ops y x)"

definition add_vec :: "mpc_ops \<Rightarrow> int list \<Rightarrow> int list \<Rightarrow> int list" where
  "add_vec ops = map2 (m_add ops)"

definition map_sum_rows :: "mpc_ops \<Rightarrow> nat \<Rightarrow> nat \<Rightarrow> (nat \<Rightarrow> int list) \<Rightarrow> int list" where
  "map_sum_rows ops n width f = fold (\<lambda>i total. add_vec ops total (f i)) [0..<n] (replicate width 0)"

text \<open>\<open>range(0, n, k)\<close> with the clipped ends of its pieces.\<close>

definition chunks :: "nat \<Rightarrow> nat \<Rightarrow> (nat \<times> nat) list" where
  "chunks n k = map (\<lambda>i. (i * k, min (i * k + k) n)) [0..<(n + k - 1) div k]"

definition selectors_for :: "mpc_ops \<Rightarrow> nat \<Rightarrow> int list \<Rightarrow> int list list" where
  "selectors_for ops n = map (\<lambda>address. m_demux ops (m_bits ops n address))"

text \<open>One row of a scan: the row's cells under the selector of every address.\<close>

definition select_row :: "mpc_ops \<Rightarrow> int list list \<Rightarrow> nat \<Rightarrow> int list \<Rightarrow> int list" where
  "select_row ops selectors row cells = concat (map (\<lambda>selector. map (m_mul ops (selector ! row)) cells) selectors)"

section \<open>The directories\<close>

definition entity_guard :: "mpc_ops \<Rightarrow> page_config \<Rightarrow> int \<Rightarrow> int" where
  "entity_guard ops c entity = m_mul ops (m_neq ops entity 0) (m_less ops entity (entity_count (base c)))"

definition relation_guard :: "mpc_ops \<Rightarrow> page_config \<Rightarrow> int \<Rightarrow> int" where
  "relation_guard ops c relation = m_mul ops (m_neq ops relation 0) (m_le ops relation (relation_count c))"

text \<open>The selector of the query's relation.\<close>

definition relation_selector :: "mpc_ops \<Rightarrow> page_config \<Rightarrow> int \<Rightarrow> int \<Rightarrow> int list" where
  "relation_selector ops c relation relation_ok =
     m_demux ops (m_bits ops (rel_index_bits c) (m_if ops relation_ok (m_sub ops relation 1) 0))"

definition dense_address :: "mpc_ops \<Rightarrow> page_config \<Rightarrow> int \<Rightarrow> int \<Rightarrow> int \<times> int" where
  "dense_address ops c entity relation =
     (let ok = m_mul ops (entity_guard ops c entity) (relation_guard ops c relation);
          address = m_sub ops (m_add ops (m_mul ops entity (relation_count c)) relation) 1
      in (ok, m_if ops ok address 0))"

text \<open>Start row, first entity and width of each relation's block.\<close>

definition type_blocks_of :: "page_config \<Rightarrow> (int \<times> int \<times> int) list res" where
  "type_blocks_of c = (case type_blocks c of None \<Rightarrow> Inr [] | Some l \<Rightarrow> traverse (block_of l) (relation_order l))"

definition weighted_sum :: "mpc_ops \<Rightarrow> (int \<times> int) list \<Rightarrow> int" where
  "weighted_sum ops ws = fold (\<lambda>(weight, x) total. m_add ops total (m_mul ops weight x)) ws 0"

definition blocked_address :: "mpc_ops \<Rightarrow> page_config \<Rightarrow> (int \<times> int \<times> int) list \<Rightarrow> int \<Rightarrow> int \<Rightarrow> int \<times> int" where
  "blocked_address ops c blocks entity relation =
     (let p = field_prime (base c);
          relation_ok = relation_guard ops c relation;
          generic_ok = m_mul ops (entity_guard ops c entity) relation_ok;
          selector = relation_selector ops c relation relation_ok;
          coefficient = weighted_sum ops (zip selector (map (\<lambda>(row, ts, w). (row - ts) mod p) blocks));
          ts = weighted_sum ops (zip selector (map (\<lambda>(row, ts, w). ts) blocks));
          width = weighted_sum ops (zip selector (map (\<lambda>(row, ts, w). w) blocks));
          blocked_ok = m_mul ops (m_mul ops generic_ok (m_le ops ts entity)) (m_less ops entity (m_add ops ts width))
      in (generic_ok, m_if ops blocked_ok (m_add ops coefficient entity) 0))"

definition directory_address ::
  "mpc_ops \<Rightarrow> page_config \<Rightarrow> (int \<times> int \<times> int) list \<Rightarrow> int \<Rightarrow> int \<Rightarrow> int \<times> int" where
  "directory_address ops c blocks entity relation =
     (if uses_hybrid_directory c then blocked_address ops c blocks entity relation
      else dense_address ops c entity relation)"

definition read_directory :: "mpc_ops \<Rightarrow> page_config \<Rightarrow> int list list \<Rightarrow> int list \<Rightarrow> int list" where
  "read_directory ops c dir addresses =
     (let selectors = selectors_for ops (dir_index_bits c) addresses
      in map_sum_rows ops (nat (public_rows c)) (length addresses * nat (directory_columns c))
           (\<lambda>row. select_row ops selectors row (dir ! row)))"

definition fold_directory :: "mpc_ops \<Rightarrow> page_config \<Rightarrow> int list list \<Rightarrow> int \<Rightarrow> int \<Rightarrow> int list" where
  "fold_directory ops c dir relation relation_ok =
     (let selector = relation_selector ops c relation relation_ok;
          R = nat (relation_count c)
      in concat (map (\<lambda>(start, stop).
           map_sum_rows ops R ((stop - start) * nat (directory_columns c)) (\<lambda>relation_index.
             concat (map (\<lambda>entity. map (m_mul ops (selector ! relation_index)) (dir ! (entity * R + relation_index)))
               [start..<stop])))
         (chunks (nat (entity_count (base c))) (fold_chunk c))))"

definition read_folded_directory :: "mpc_ops \<Rightarrow> page_config \<Rightarrow> int list \<Rightarrow> int list \<Rightarrow> int list" where
  "read_folded_directory ops c table ents =
     (let columns = nat (directory_columns c);
          selectors = selectors_for ops (ent_index_bits c) ents
      in map_sum_rows ops (nat (entity_count (base c))) (length ents * columns)
           (\<lambda>entity. select_row ops selectors entity (take columns (drop (entity * columns) table))))"

text \<open>The type-blocked primary directory, folded to one padded block.\<close>

definition fold_type_block ::
  "mpc_ops \<Rightarrow> page_config \<Rightarrow> (int \<times> int \<times> int) list \<Rightarrow> nat \<Rightarrow> int list list \<Rightarrow> int \<Rightarrow> int \<Rightarrow> int list \<times> int \<times> int" where
  "fold_type_block ops c blocks block_max dir relation relation_ok =
     (let selector = relation_selector ops c relation relation_ok;
          columns = nat (directory_columns c);
          folded = fold (\<lambda>(weight, row, ts, width) total.
            let block = concat (take (nat width) (drop (nat row) dir))
            in add_vec ops total (map (m_mul ops weight) block @ replicate ((block_max - nat width) * columns) 0))
            (zip selector blocks) (replicate (block_max * columns) 0)
      in (folded, weighted_sum ops (zip selector (map (\<lambda>(row, ts, w). ts) blocks)),
          weighted_sum ops (zip selector (map (\<lambda>(row, ts, w). w) blocks))))"

definition read_folded_type_block ::
  "mpc_ops \<Rightarrow> page_config \<Rightarrow> nat \<Rightarrow> int list \<times> int \<times> int \<Rightarrow> (int \<times> int) list \<Rightarrow> int list" where
  "read_folded_type_block ops c block_max = (\<lambda>(table, ts, width) addresses.
     (let columns = nat (directory_columns c);
          active = map (\<lambda>(entity, gate).
            m_mul ops gate (m_mul ops (m_le ops ts entity) (m_less ops entity (m_add ops ts width)))) addresses;
          offsets = map2 (\<lambda>use (entity, gate). m_if ops use (m_sub ops entity ts) 0) active addresses;
          selectors = selectors_for ops (max 1 (bit_length (int block_max - 1))) offsets;
          fetched = map_sum_rows ops block_max (length addresses * columns)
            (\<lambda>offset. select_row ops selectors offset (take columns (drop (offset * columns) table)))
      in concat (map (\<lambda>(i, use). map (m_mul ops use) (take columns (drop (i * columns) fetched))) (enumerate 0 active))))"

section \<open>The hashed directory\<close>

definition compact_bucket :: "mpc_ops \<Rightarrow> page_config \<Rightarrow> int \<Rightarrow> int" where
  "compact_bucket ops c tag =
     (if program_buckets c = 1 then 0
      else
        let bits = m_bits ops (hash_product_bits c) (m_mul ops tag MULTIPLIER)
        in m_compose ops (take (bucket_index_bits c) (drop (HASH_WORD_BITS - bucket_index_bits c) bits)))"

text \<open>The balanced conjunction tree over the bit equalities.\<close>

fun pair_bits :: "mpc_ops \<Rightarrow> int list \<Rightarrow> int list" where
  "pair_bits ops (a # b # rest) = m_mul ops a b # pair_bits ops rest"
| "pair_bits ops rest = rest"

lemma length_pair_bits: "length (pair_bits ops bs) = (length bs + 1) div 2"
  by (induction ops bs rule: pair_bits.induct) auto

function and_tree :: "mpc_ops \<Rightarrow> int list \<Rightarrow> int" where
  "and_tree ops bs = (if length bs \<le> 1 then hd bs else and_tree ops (pair_bits ops bs))"
  by pat_completeness auto
termination by (relation "measure (\<lambda>(ops, bs). length bs)") (auto simp: length_pair_bits)

declare and_tree.simps [simp del]

definition tag_equal :: "mpc_ops \<Rightarrow> int list \<Rightarrow> int list \<Rightarrow> int" where
  "tag_equal ops stored_bits wanted_bits =
     and_tree ops (map2 (\<lambda>stored asked. m_add ops (m_sub ops (m_sub ops 1 stored) asked) (m_mul ops 2 (m_mul ops stored asked)))
       stored_bits wanted_bits)"

definition resolve_slot :: "mpc_ops \<Rightarrow> page_config \<Rightarrow> int list \<Rightarrow> int \<Rightarrow> int" where
  "resolve_slot ops c wanted_bits slot =
     (let bits = m_bits ops (packed_slot_bits c) slot;
          descriptor = m_compose ops (take (descriptor_bits (pages c)) bits)
      in m_mul ops (tag_equal ops (drop (descriptor_bits (pages c)) bits) wanted_bits) descriptor)"

text \<open>The descriptors of one address, rebuilt in the packed columns of the dense directory.\<close>

definition resolve_address :: "mpc_ops \<Rightarrow> page_config \<Rightarrow> int list \<Rightarrow> int \<Rightarrow> int list" where
  "resolve_address ops c bucket tag =
     (let selected = map (resolve_slot ops c (m_bits ops (residual_tag_bits c) tag)) bucket;
          total = (\<lambda>owner. fold (\<lambda>slot t. m_add ops t (selected ! (owner * program_slots c + slot))) [0..<program_slots c] 0)
      in map (\<lambda>column.
           fold (\<lambda>owner acc.
             let (column_index, offset) = directory_slot c (int owner)
             in if column_index = int column then m_add ops acc (m_mul ops (total owner) (2 ^ nat offset)) else acc)
             [0..<length (owners (base c))] 0)
         [0..<nat (directory_columns c)])"

definition resolve_fetched :: "mpc_ops \<Rightarrow> page_config \<Rightarrow> int list \<Rightarrow> int list \<Rightarrow> int list" where
  "resolve_fetched ops c fetched tags =
     concat (map (\<lambda>(i, tag). resolve_address ops c (take (bucket_width c) (drop (i * bucket_width c) fetched)) tag)
       (enumerate 0 tags))"

definition compact_tag :: "mpc_ops \<Rightarrow> page_config \<Rightarrow> int \<Rightarrow> int \<Rightarrow> int \<Rightarrow> int" where
  "compact_tag ops c entity relation gate =
     (if partition_residual_by_relation (pages c) then m_if ops gate (m_add ops entity 1) 0
      else m_if ops gate (m_add ops (m_mul ops entity (relation_count c)) relation) 0)"

definition compact_row :: "mpc_ops \<Rightarrow> page_config \<Rightarrow> int \<Rightarrow> int \<Rightarrow> int \<Rightarrow> int" where
  "compact_row ops c relation gate bucket =
     (if partition_residual_by_relation (pages c)
      then m_if ops (m_mul ops gate (relation_guard ops c relation))
             (m_add ops (m_mul ops (m_sub ops relation 1) (int (program_buckets c))) bucket) 0
      else bucket)"

text \<open>Addresses are entity, relation and validity.\<close>

definition read_compact_directory ::
  "mpc_ops \<Rightarrow> page_config \<Rightarrow> int list list \<Rightarrow> (int \<times> int \<times> int) list \<Rightarrow> int list" where
  "read_compact_directory ops c table addresses =
     (let tags = map (\<lambda>(entity, relation, gate). compact_tag ops c entity relation gate) addresses;
          rows = map2 (\<lambda>(entity, relation, gate) tag. compact_row ops c relation gate (compact_bucket ops c tag)) addresses tags;
          selectors = selectors_for ops (compact_index_bits c) rows;
          fetched = map_sum_rows ops (residual_rows c) (length addresses * bucket_width c)
            (\<lambda>row. select_row ops selectors row (table ! row))
      in resolve_fetched ops c fetched tags)"

definition fold_partitioned_residual :: "mpc_ops \<Rightarrow> page_config \<Rightarrow> int list list \<Rightarrow> int \<Rightarrow> int list" where
  "fold_partitioned_residual ops c table relation =
     (let selector = relation_selector ops c relation (relation_guard ops c relation);
          cells = program_buckets c * bucket_width c;
          slices = map (\<lambda>r. take cells (drop (r * cells) (concat table))) [0..<nat (relation_count c)] @
            replicate (2 ^ rel_index_bits c - nat (relation_count c)) (replicate cells 0)
      in map_sum_rows ops (2 ^ rel_index_bits c) cells (\<lambda>r. map (m_mul ops (selector ! r)) (slices ! r)))"

definition fetch_folded :: "mpc_ops \<Rightarrow> page_config \<Rightarrow> int list list \<Rightarrow> nat \<Rightarrow> int list \<Rightarrow> int list" where
  "fetch_folded ops c tables per_query buckets =
     (let width = bucket_width c; n = length buckets;
          selectors = selectors_for ops (bucket_index_bits c) buckets
      in if program_buckets c = 1
         then concat (map (\<lambda>address. tables ! (address div per_query)) [0..<n])
         else concat (map (\<lambda>(start, stop).
           map_sum_rows ops (program_buckets c) ((stop - start) * width) (\<lambda>bucket.
             concat (map (\<lambda>address. map (m_mul ops (selectors ! address ! bucket))
                 (take width (drop (bucket * width) (tables ! (address div per_query))))) [start..<stop])))
           (chunks n (residual_fetch_batch c))))"

definition read_folded_residuals ::
  "mpc_ops \<Rightarrow> page_config \<Rightarrow> int list list \<Rightarrow> nat \<Rightarrow> (int \<times> int) list \<Rightarrow> int list" where
  "read_folded_residuals ops c tables per_query addresses =
     (let tags = map (\<lambda>(entity, gate). m_if ops gate (m_add ops entity 1) 0) addresses;
          buckets = map (compact_bucket ops c) tags
      in resolve_fetched ops c (fetch_folded ops c tables per_query buckets) tags)"

section \<open>Pages\<close>

text \<open>
  Base page and page count of one owner at one address: the columns of the address and its
  validity.  The renderer writes the gate on the count in two orders.
\<close>

definition descriptor_parts :: "mpc_ops \<Rightarrow> page_config \<Rightarrow> int \<Rightarrow> nat \<Rightarrow> int \<times> int \<times> int" where
  "descriptor_parts ops c packed offset =
     (let bits = take (descriptor_bits (pages c)) (drop offset (m_bits ops (packed_directory_bits c) packed));
          page_bases = m_compose ops (take (page_base_bits (pages c)) bits);
          page_counts = m_compose ops (drop (page_base_bits (pages c)) bits);
          usable = m_mul ops (m_less ops page_bases (page_budget (pages c))) (m_le ops page_counts (pages_per_key (pages c)))
      in (usable, m_if ops usable page_bases 0, page_counts))"

definition owner_window :: "mpc_ops \<Rightarrow> page_config \<Rightarrow> bool \<Rightarrow> nat \<Rightarrow> int list \<Rightarrow> int \<Rightarrow> int \<times> int" where
  "owner_window ops c scalar owner columns gate =
     (let (column, offset) = directory_slot c (int owner);
          (usable, safe_base, page_count) = descriptor_parts ops c (columns ! nat column) (nat offset)
      in (m_if ops gate safe_base 0,
          if scalar then m_mul ops gate (m_mul ops usable page_count) else m_mul ops (m_mul ops gate usable) page_count))"

text \<open>The cells that page \<open>page\<close> offers to a window of an owner.\<close>

definition window_cells :: "page_config \<Rightarrow> int list list \<Rightarrow> nat \<Rightarrow> nat \<Rightarrow> int list" where
  "window_cells c pool owner page =
     concat (map (\<lambda>offset. pool ! (owner * nat (pool_rows (pages c)) + page + offset)) [0..<nat (pages_per_key (pages c))])"

text \<open>\<open>read_page_window\<close>: one owner's windows at all addresses.\<close>

definition read_page_window :: "mpc_ops \<Rightarrow> page_config \<Rightarrow> bool \<Rightarrow> int list list \<Rightarrow> nat \<Rightarrow> int list \<Rightarrow> int list" where
  "read_page_window ops c per_offset pool owner bases =
     (let size = nat (page_size (pages c)); budget = nat (page_budget (pages c)); per_key = nat (pages_per_key (pages c));
          rows = nat (pool_rows (pages c))
      in if per_offset then
           let parts = map (\<lambda>offset.
             let selectors = selectors_for ops (pool_index_bits c) bases
             in map_sum_rows ops budget (length bases * size)
                  (\<lambda>page. select_row ops selectors page (pool ! (owner * rows + page + offset)))) [0..<per_key]
           in concat (map (\<lambda>address. concat (map (\<lambda>part. take size (drop (address * size) part)) parts)) [0..<length bases])
         else
           let selectors = selectors_for ops (pool_index_bits c) bases
           in map_sum_rows ops budget (length bases * (per_key * size)) (\<lambda>page. select_row ops selectors page (window_cells c pool owner page)))"

text \<open>\<open>read_page_windows\<close>: all owners, owner-major, in batches of owners.\<close>

definition read_page_windows ::
  "mpc_ops \<Rightarrow> page_config \<Rightarrow> bool \<Rightarrow> nat \<Rightarrow> int list list \<Rightarrow> nat \<Rightarrow> int list \<Rightarrow> int list" where
  "read_page_windows ops c per_offset batch pool address_count bases =
     (let size = nat (page_size (pages c)); budget = nat (page_budget (pages c)); per_key = nat (pages_per_key (pages c));
          rows = nat (pool_rows (pages c)); n = length (owners (base c));
          slice = (\<lambda>owner xs. take address_count (drop (owner * address_count) xs))
      in if per_offset then
           let parts = map (\<lambda>offset.
             let selectors = selectors_for ops (pool_index_bits c) bases
             in concat (map (\<lambda>(start, stop).
                  map_sum_rows ops budget ((stop - start) * address_count * size) (\<lambda>page.
                    concat (map (\<lambda>owner. select_row ops (slice owner selectors) page (pool ! (owner * rows + page + offset)))
                      [start..<stop]))) (chunks n batch))) [0..<per_key]
           in concat (map (\<lambda>i. concat (map (\<lambda>part. take size (drop (i * size) part)) parts)) [0..<n * address_count])
         else
           let selectors = selectors_for ops (pool_index_bits c) bases
           in concat (map (\<lambda>(start, stop).
                map_sum_rows ops budget ((stop - start) * address_count * (per_key * size)) (\<lambda>page.
                  concat (map (\<lambda>owner. select_row ops (slice owner selectors) page (window_cells c pool owner page))
                    [start..<stop]))) (chunks n batch)))"

section \<open>Keys\<close>

text \<open>One slot of a window; \<open>wanted\<close> is the relation of the ablated check.\<close>

definition page_cell :: "mpc_ops \<Rightarrow> page_config \<Rightarrow> int option \<Rightarrow> int \<Rightarrow> int \<Rightarrow> hop_cell" where
  "page_cell ops c wanted active packed =
     (let (target, relation, handle, score, stored) = unpack_secret ops (base c) packed;
          ok = m_mul ops (m_mul ops (m_mul ops active stored) (m_neq ops target 0)) (m_less ops target (entity_count (base c)));
          ok = (case wanted of None \<Rightarrow> ok | Some r \<Rightarrow> m_mul ops ok (m_eq ops relation r))
      in \<lparr>hop_valid = ok, hop_handle = m_mul ops ok handle, hop_score = m_mul ops ok score,
          hop_address = m_mul ops ok target\<rparr>)"

definition window_slots :: "mpc_ops \<Rightarrow> page_config \<Rightarrow> int option \<Rightarrow> int \<Rightarrow> int list \<Rightarrow> hop_cell list" where
  "window_slots ops c wanted page_count cells =
     map (\<lambda>(i, packed). page_cell ops c wanted (m_less ops (int (i div nat (page_size (pages c)))) page_count) packed)
       (enumerate 0 cells)"

text \<open>
  \<open>read_keys\<close>: per address, the slots of all owners in owner order.  An address is its directory
  columns, its validity and its wanted relation.
\<close>

definition read_keys ::
  "mpc_ops \<Rightarrow> page_config \<Rightarrow> page_ablations \<Rightarrow> nat \<Rightarrow> int list list \<Rightarrow> (int list \<times> int \<times> int) list \<Rightarrow> hop_cell list list" where
  "read_keys ops c ab batch pool addresses =
     (let n = length (owners (base c)); m = length addresses; width = nat (slots_per_key (pages c));
          scalar = ablate_relation_check ab;
          windows = map (\<lambda>owner. map (\<lambda>(columns, gate, wanted). owner_window ops c scalar owner columns gate) addresses) [0..<n];
          cells = (if scalar \<or> ablate_owner_batching ab
            then concat (map (\<lambda>owner. read_page_window ops c (ablate_window_demux ab) pool owner (map fst (windows ! owner))) [0..<n])
            else read_page_windows ops c (ablate_window_demux ab) batch pool m (map fst (concat windows)))
      in map (\<lambda>address. concat (map (\<lambda>owner.
           window_slots ops c (if scalar then Some (snd (snd (addresses ! address))) else None)
             (snd (windows ! owner ! address)) (take width (drop ((owner * m + address) * width) cells)))
           [0..<n])) [0..<m])"

section \<open>The frontier and the candidates\<close>

definition page_frontier :: "mpc_ops \<Rightarrow> page_config \<Rightarrow> page_ablations \<Rightarrow> hop_cell list \<Rightarrow> hop_cell list" where
  "page_frontier ops c ab cells =
     (let width = nat (slots_per_key (pages c)) in
      if ablate_compaction ab then cells
      else case global_frontier (pages c) of
        Some g \<Rightarrow> compact_owner ops cells (nat g) (replicate (nat (second_width c)) 0)
      | None \<Rightarrow> concat (map (\<lambda>owner. compact_owner ops (take width (drop (owner * width) cells))
          (nat (effective_frontier_per_owner (pages c))) (replicate width 0)) [0..<length (owners (base c))]))"

definition page_pair :: "mpc_ops \<Rightarrow> page_config \<Rightarrow> hop_cell \<Rightarrow> hop_cell \<Rightarrow> rank_cell" where
  "page_pair ops c first second =
     (let gate = m_mul ops (hop_valid first) (hop_valid second)
      in \<lparr>cell_valid = gate,
          cell_score = m_mul ops gate (m_add ops (hop_score first) (hop_score second)),
          cell_left = m_mul ops gate (hop_handle first),
          cell_right = m_mul ops gate (hop_handle second),
          cell_terminal = (if deduplicate_terminal_answers (base c) then m_mul ops gate (hop_address second) else 0)\<rparr>)"

definition page_ranking :: "mpc_ops \<Rightarrow> page_config \<Rightarrow> hop_cell list \<Rightarrow> hop_cell list list \<Rightarrow> result_row list" where
  "page_ranking ops c frontier seconds =
     rank_block ops (deduplicate_terminal_answers (base c)) (nat (top_k (base c)))
       (concat (map2 (\<lambda>first. map (page_pair ops c first)) frontier seconds))"

section \<open>The program\<close>

text \<open>The columns of each address, from the flat result of a directory read.\<close>

definition split_columns :: "page_config \<Rightarrow> nat \<Rightarrow> int list \<Rightarrow> int list list" where
  "split_columns c n flat =
     (let columns = nat (directory_columns c) in map (\<lambda>i. take columns (drop (i * columns) flat)) [0..<n])"

definition first_descriptors ::
  "mpc_ops \<Rightarrow> page_config \<Rightarrow> int list list \<Rightarrow> int list list \<Rightarrow> int list \<Rightarrow> (int \<times> int \<times> int) list \<Rightarrow> int list" where
  "first_descriptors ops c dir table addresses keys =
     (if uses_hybrid_directory c
      then add_vec ops (read_directory ops c dir addresses) (read_compact_directory ops c table keys)
      else if uses_compact_directory (pages c) then read_compact_directory ops c table keys
      else read_directory ops c dir addresses)"

text \<open>The second hop's keys and their blocked or dense addresses, for one query's frontier.\<close>

definition second_addresses ::
  "mpc_ops \<Rightarrow> page_config \<Rightarrow> page_ablations \<Rightarrow> (int \<times> int \<times> int) list \<Rightarrow> int \<Rightarrow> hop_cell list \<Rightarrow> (int \<times> int \<times> int \<times> int) list" where
  "second_addresses ops c ab blocks relation_2 frontier =
     map (\<lambda>cell.
       if uses_hybrid_directory c \<and> \<not> ablate_folded_directory ab then
         let combined = m_mul ops (m_mul ops (entity_guard ops c (hop_address cell)) (relation_guard ops c relation_2)) (hop_valid cell)
         in (m_if ops combined (hop_address cell) 0, relation_2, combined, 0)
       else
         let (ok, address) = directory_address ops c blocks (hop_address cell) relation_2;
             combined = m_mul ops ok (hop_valid cell)
         in (m_if ops combined (hop_address cell) 0, relation_2, combined, m_if ops combined address 0)) frontier"

definition second_descriptors ::
  "mpc_ops \<Rightarrow> page_config \<Rightarrow> page_ablations \<Rightarrow> (int \<times> int \<times> int) list \<Rightarrow> nat \<Rightarrow> int list list \<Rightarrow> int list list \<Rightarrow>
   (int \<times> (int \<times> int \<times> int \<times> int) list) list \<Rightarrow> int list" where
  "second_descriptors ops c ab blocks block_max dir table queries =
     (let all = concat (map snd queries);
          keys = map (\<lambda>(entity, relation, gate, address). (entity, relation, gate)) all;
          addresses = map (\<lambda>(entity, relation, gate, address). address) all;
          per_query = nat (page_frontier_slots c)
      in if uses_hybrid_directory c then
           if ablate_folded_directory ab
           then add_vec ops (read_directory ops c dir addresses) (read_compact_directory ops c table keys)
           else
             let blocked = concat (map (\<lambda>(relation_2, frontier). read_folded_type_block ops c block_max
                   (fold_type_block ops c blocks block_max dir relation_2 (relation_guard ops c relation_2))
                   (map (\<lambda>(entity, relation, gate, address). (entity, gate)) frontier)) queries);
                 residual = (if partition_residual_by_relation (pages c) \<and> \<not> ablate_folded_residual ab
                   then read_folded_residuals ops c (map (\<lambda>(relation_2, frontier). fold_partitioned_residual ops c table relation_2) queries)
                     per_query (map (\<lambda>(entity, relation, gate, address). (entity, gate)) all)
                   else read_compact_directory ops c table keys)
             in add_vec ops blocked residual
         else if uses_compact_directory (pages c) then read_compact_directory ops c table keys
         else if ablate_folded_directory ab then read_directory ops c dir addresses
         else concat (map (\<lambda>(relation_2, frontier). read_folded_directory ops c
                (fold_directory ops c dir relation_2 (relation_guard ops c relation_2))
                (map (\<lambda>(entity, relation, gate, address). entity) frontier)) queries))"

definition directory_matrices ::
  "mpc_ops \<Rightarrow> page_config \<Rightarrow> shared_vector \<Rightarrow> int list list \<times> int list list \<times> shared_vector" where
  "directory_matrices ops c inputs =
     (let (dir, inputs) = (if uses_hybrid_directory c \<or> \<not> uses_compact_directory (pages c)
            then shared_matrix ops (nat (public_rows c)) (nat (directory_columns c)) inputs else ([], inputs));
          (table, inputs) = (if uses_compact_directory (pages c)
            then shared_matrix ops (residual_rows c) (bucket_width c) inputs else ([], inputs))
      in (dir, table, inputs))"

definition page_results ::
  "mpc_ops \<Rightarrow> page_config \<Rightarrow> page_ablations \<Rightarrow> (int \<times> int \<times> int) list \<Rightarrow> nat \<Rightarrow> nat \<Rightarrow> shared_vector \<Rightarrow> result_row list list" where
  "page_results ops c ab blocks block_max query_count inputs =
     (let (queries, inputs) = shared_matrix ops query_count 3 inputs;
          (dir, table, inputs) = directory_matrices ops c inputs;
          (pool, inputs) = shared_matrix ops (length (owners (base c)) * nat (pool_rows (pages c))) (nat (page_size (pages c))) inputs;
          batch = owner_read_batch c query_count;
          firsts = map (\<lambda>query. directory_address ops c blocks (query ! 0) (query ! 1)) queries;
          first_columns = split_columns c query_count (first_descriptors ops c dir table (map snd firsts)
            (map2 (\<lambda>query first. (query ! 0, query ! 1, fst first)) queries firsts));
          hop1 = read_keys ops c ab batch pool
            (map2 (\<lambda>columns (query, first). (columns, fst first, query ! 1)) first_columns (zip queries firsts));
          frontiers = map (page_frontier ops c ab) hop1;
          seconds = map2 (\<lambda>query frontier. (query ! 2, second_addresses ops c ab blocks (query ! 2) frontier)) queries frontiers;
          keys = concat (map snd seconds);
          second_columns = split_columns c (length keys) (second_descriptors ops c ab blocks block_max dir table seconds);
          hop2 = read_keys ops c ab batch pool
            (map2 (\<lambda>columns (entity, relation, gate, address). (columns, gate, relation)) second_columns keys);
          width = nat (page_frontier_slots c)
      in map (\<lambda>(query_index, frontier). page_ranking ops c frontier (take width (drop (query_index * width) hop2)))
           (enumerate 0 frontiers))"

definition page_program ::
  "mpc_ops \<Rightarrow> page_config \<Rightarrow> page_ablations \<Rightarrow> nat \<Rightarrow> shared_vector \<Rightarrow> rng \<Rightarrow> (batch_logs \<times> rng) res" where
  "page_program ops c ab query_count inputs g =
     bindr (page_validate c (int query_count)) (\<lambda>_.
     bindr (if ablate_compaction ab then check_compaction_ablation c else Inr ()) (\<lambda>_.
     bindr (check_compact c) (\<lambda>_.
     bindr (type_blocks_of c) (\<lambda>blocks.
     bindr (case type_blocks c of None \<Rightarrow> Inr 0 | Some l \<Rightarrow> max_block l) (\<lambda>block_max.
       Inr (emit_all ops (field_prime (base c))
         (result_outputs (page_results ops c ab blocks (nat block_max) query_count inputs)) g))))))"

end
