(* ===== verification/Page_Pool.thy ===== *)
theory Page_Pool
  imports Relation_Pages
begin

text \<open>
  The built relation-paged layout: what the build loop keeps of the page pool and of the
  directory, when it succeeds, and that reading a key back returns exactly its records.
\<close>

section \<open>Windows\<close>

lemma ceil_pages:
  assumes "1 \<le> w"
  shows "0 \<le> - (- int m div w)" and "int m \<le> - (- int m div w) * w" and "0 < m \<Longrightarrow> 1 \<le> - (- int m div w)"
proof -
  have "- int m = w * (- int m div w) + - int m mod w" by (rule mult_div_mod_eq [symmetric])
  moreover have "0 \<le> - int m mod w" using assms by simp
  ultimately show le: "int m \<le> - (- int m div w) * w" by (simp only: mult.commute [of w] mult_minus_left)
  have "0 < - (- int m div w)" if "0 < m"
  proof (rule ccontr)
    assume "\<not> 0 < - (- int m div w)"
    then have "- (- int m div w) * w \<le> 0" using assms by (intro mult_nonpos_nonneg) auto
    with le that show False by linarith
  qed
  then show "0 < m \<Longrightarrow> 1 \<le> - (- int m div w)" "0 \<le> - (- int m div w)"
    by (fastforce, cases "m = 0") fastforce+
qed

section \<open>Records\<close>

definition page_width :: "page_config \<Rightarrow> nat" where
  "page_width c = nat (page_size (pages c))"

definition packed_record :: "page_config \<Rightarrow> page_record \<Rightarrow> int" where
  "packed_record c = (\<lambda>(t, r, e, s). packed_value (base c) (t, r, e, s, 1))"

definition record_ok :: "page_config \<Rightarrow> page_record \<Rightarrow> bool" where
  "record_ok c = (\<lambda>(t, r, e, s). packable_config (base c) \<and> edge_fits (base c) (t, r, e, s, 1) \<and>
     1 \<le> t \<and> t < entity_count (base c))"

definition slot_record :: "page_config \<Rightarrow> int \<Rightarrow> page_record" where
  "slot_record c value =
     (if value = 0 then zero_record
      else case five_fields (unpack_fields (packing_widths (base c)) value) of (t, r, e, s, v) \<Rightarrow> (t, r, e, s))"

lemma pack_record_ok: "record_ok c x \<Longrightarrow> pack_record (base c) x = Inr (packed_record c x)"
  by (cases x) (simp add: record_ok_def pack_record_def packed_record_def pack_edge_iff)

lemma packed_record_pos: "record_ok c x \<Longrightarrow> 0 < packed_record c x"
  by (cases x) (simp add: record_ok_def packed_record_def packed_value_pos)

lemma slot_record_packed: "record_ok c x \<Longrightarrow> slot_record c (packed_record c x) = x"
  using packed_record_pos [of c x]
  by (cases x) (auto simp: record_ok_def slot_record_def packed_record_def edge_codec.dec_enc)

lemma slot_record_zero [simp]: "slot_record c 0 = zero_record"
  by (simp add: slot_record_def)

lemma read_slot_inactive [simp]: "read_slot b False v = Inr zero_record"
  by (simp add: read_slot_def)

lemma read_slot_packed:
  assumes "v = 0 \<or> (\<exists>x. record_ok c x \<and> v = packed_record c x)"
  shows "read_slot (base c) True v = Inr (slot_record c v)"
proof (cases "v = 0")
  case False
  with assms obtain t r e s where x: "record_ok c (t, r, e, s)" "v = packed_record c (t, r, e, s)" by auto
  then have "unpack_edge (base c) v = Inr (t, r, e, s, 1)"
    using packed_value_bounds by (simp add: record_ok_def packed_record_def unpack_edge_iff edge_codec.dec_enc)
  with x False show ?thesis
    using slot_record_packed [OF x(1)] by (simp add: read_slot_def record_ok_def)
qed (simp add: read_slot_def)

lemma paged_edge_iff: "paged_edge c e = Inr row \<longleftrightarrow> validated_edge c e = Inr row"
proof -
  obtain s r t ev sc where row: "row = (s, r, t, ev, sc)" by (metis prod.exhaust)
  show ?thesis unfolding row paged_edge_def by (auto simp: validated_edge_Inr)
qed

lemma traverse_paged: "traverse (paged_edge c) edges = Inr rows \<longleftrightarrow> traverse (validated_edge c) edges = Inr rows"
  by (simp add: traverse_eq_Inr paged_edge_iff)

lemma grouped_edges_Inr:
  "grouped_edges c owner edges = Inr g \<longleftrightarrow> owner \<in> set (owners (base c)) \<and>
     (\<exists>rows. traverse (validated_edge (base c)) edges = Inr rows \<and> g = group_by row_key row_record rows)"
  by (auto simp: grouped_edges_def res_simps traverse_paged)

lemma validated_row:
  assumes "valid_config (base c)" and "traverse (validated_edge (base c)) edges = Inr rows" and "row \<in> set rows"
  shows "record_ok c (row_record row)" and "key_in_range c (row_key row)"
proof -
  from traverse_set [OF assms(2,3)] obtain e where e: "validated_edge (base c) e = Inr row" by blast
  obtain s r t ev sc where row: "row = (s, r, t, ev, sc)" by (metis prod.exhaust)
  from e have v: "packable_config (base c)" "edge_ids (base c) e = Inr (s, r, t)" "edge_fits (base c) (t, r, ev, sc, 1)"
    unfolding row validated_edge_Inr by blast+
  note b = edge_ids_bounds [OF assms(1) v(2)]
  from v b show "record_ok c (row_record row)" by (simp add: row record_ok_def row_record_def)
  from b show "key_in_range c (row_key row)"
    by (simp add: row key_in_range_def row_key_def relation_count_def)
qed

section \<open>The pages of one key\<close>

definition required_pages :: "page_config \<Rightarrow> page_record list \<Rightarrow> int" where
  "required_pages c records = - (- int (length records) div page_size (pages c))"

definition group_pages :: "page_config \<Rightarrow> page_record list \<Rightarrow> int list list" where
  "group_pages c records = map (\<lambda>i. let page = take (page_width c) (drop (i * page_width c) (map (packed_record c) records))
     in page @ replicate (page_width c - length page) 0) [0..<nat (required_pages c records)]"

lemma length_group_pages [simp]: "length (group_pages c records) = nat (required_pages c records)"
  by (simp add: group_pages_def)

lemma page_width_pos: "params_ok (pages c) \<Longrightarrow> 0 < page_width c"
  by (simp add: params_ok_def page_width_def)

lemma required_pages_bounds:
  assumes "params_ok (pages c)"
  shows "0 \<le> required_pages c records" and "length records \<le> nat (required_pages c records) * page_width c"
    and "records \<noteq> [] \<Longrightarrow> 1 \<le> required_pages c records"
proof -
  have w: "1 \<le> page_size (pages c)" using assms by (simp add: params_ok_def)
  note cp = ceil_pages [OF w, of "length records", folded required_pages_def]
  show "0 \<le> required_pages c records" by (rule cp(1))
  show "records \<noteq> [] \<Longrightarrow> 1 \<le> required_pages c records" using cp(3) by simp
  have "int (length records) \<le> int (nat (required_pages c records) * page_width c)"
    using cp(1,2) w by (simp add: page_width_def)
  then show "length records \<le> nat (required_pages c records) * page_width c" by linarith
qed

lemma concat_group_pages:
  assumes "params_ok (pages c)"
  shows "concat (group_pages c records) = map (packed_record c) records @
    replicate (nat (required_pages c records) * page_width c - length records) 0"
  using concat_windows [OF page_width_pos [OF assms], of "map (packed_record c) records" "nat (required_pages c records)" 0]
    required_pages_bounds(2) [OF assms, of records]
  unfolding group_pages_def Let_def by simp

lemma group_pages_width: "page \<in> set (group_pages c records) \<Longrightarrow> length page = page_width c"
  by (auto simp: group_pages_def Let_def)

lemma pack_pages_ok:
  assumes "\<And>x. x \<in> set records \<Longrightarrow> record_ok c x"
  shows "traverse (pack_page c records) [0..<nat (required_pages c records)] = Inr (group_pages c records)"
  unfolding group_pages_def
proof (rule traverse_Inr)
  fix i
  have "traverse (pack_record (base c)) (take (page_width c) (drop (i * page_width c) records)) =
      Inr (map (packed_record c) (take (page_width c) (drop (i * page_width c) records)))"
    using assms by (intro traverse_Inr pack_record_ok) (meson in_set_dropD in_set_takeD)
  then show "pack_page c records i =
      Inr (let page = take (page_width c) (drop (i * page_width c) (map (packed_record c) records))
           in page @ replicate (page_width c - length page) 0)"
    by (simp add: pack_page_def Let_def page_width_def take_map drop_map)
qed

lemma required_pages_sort [simp]: "required_pages c (sort records) = required_pages c records"
  by (simp add: required_pages_def)

section \<open>The build loop\<close>

abbreviation dummy_page :: "page_config \<Rightarrow> int list" where
  "dummy_page c \<equiv> replicate (page_width c) 0"

text \<open>A key's descriptor names the run of pages that hold its sorted records.\<close>

definition stored_at ::
  "page_config \<Rightarrow> int list list \<Rightarrow> directory_state \<Rightarrow> int \<times> int \<Rightarrow> page_record list \<Rightarrow> bool" where
  "stored_at c pool state key records \<longleftrightarrow>
     (\<exists>b. get_descriptor c state key = Inr (descriptor_value c (int b, required_pages c records)) \<and>
        descriptor_fits c (int b, required_pages c records) \<and>
        b + nat (required_pages c records) \<le> length pool \<and>
        take (nat (required_pages c records)) (drop b pool) = group_pages c (sort records))"

definition pages_total :: "page_config \<Rightarrow> ((int \<times> int) \<times> page_record list) list \<Rightarrow> int" where
  "pages_total c groups = sum_list (map (\<lambda>(key, records). required_pages c records) groups)"

definition pool_invariant ::
  "page_config \<Rightarrow> ((int \<times> int) \<times> page_record list) list \<Rightarrow> int list list \<times> directory_state \<Rightarrow> bool" where
  "pool_invariant c groups = (\<lambda>(pool, state).
     directory_good c state \<and>
     pool \<noteq> [] \<and> hd pool = dummy_page c \<and> (\<forall>page \<in> set pool. length page = page_width c) \<and>
     int (length pool) = 1 + pages_total c groups \<and> int (length pool) \<le> page_budget (pages c) \<and>
     length (filter (\<lambda>v. v \<noteq> 0) (concat pool)) = sum_list (map (\<lambda>(key, records). length records) groups) \<and>
     (\<forall>(key, records) \<in> set groups. key_in_range c key \<and> stored_at c pool state key records) \<and>
     (\<forall>key. key_in_range c key \<and> key \<notin> fst ` set groups \<longrightarrow> get_descriptor c state key = Inr 0))"

definition group_ok :: "page_config \<Rightarrow> (int \<times> int) \<times> page_record list \<Rightarrow> bool" where
  "group_ok c = (\<lambda>(key, records). key_in_range c key \<and> records \<noteq> [] \<and> (\<forall>x \<in> set records. record_ok c x))"

definition group_fits :: "page_config \<Rightarrow> (int \<times> int) \<times> page_record list \<Rightarrow> bool" where
  "group_fits c = (\<lambda>(key, records). required_pages c records \<le> pages_per_key (pages c) \<and>
     int (length records) \<le> effective_frontier_per_owner (pages c))"

lemma stored_at_mono:
  assumes "stored_at c pool state key records" and "get_descriptor c state' key = get_descriptor c state key"
  shows "stored_at c (pool @ added) state' key records"
  using assms by (auto simp: stored_at_def)

lemma nonzero_group_pages:
  assumes "params_ok (pages c)" and "\<And>x. x \<in> set records \<Longrightarrow> record_ok c x"
  shows "length (filter (\<lambda>v. v \<noteq> 0) (concat (group_pages c records))) = length records"
proof -
  have "packed_record c x \<noteq> 0" if "x \<in> set records" for x
    using packed_record_pos [OF assms(2) [OF that]] by simp
  then have "filter (\<lambda>v. v \<noteq> 0) (map (packed_record c) records) = map (packed_record c) records"
    by (auto simp: filter_id_conv)
  then show ?thesis
    unfolding concat_group_pages [OF assms(1)] filter_append by (simp add: filter_replicate)
qed

lemma place_group_step:
  assumes inv: "pool_invariant c groups (pool, state)" and g: "group_ok c (key, records)"
    and new: "key \<notin> fst ` set groups"
  shows "(\<exists>out. place_group c (key, records) (pool, state) = Inr out) \<longleftrightarrow>
      group_fits c (key, records) \<and> int (length pool) + required_pages c records \<le> page_budget (pages c)"
    and "place_group c (key, records) (pool, state) = Inr out \<Longrightarrow>
      pool_invariant c (groups @ [(key, records)]) out"
proof -
  let ?n = "required_pages c records" and ?b = "int (length pool)"
  let ?d = "descriptor_value c (?b, ?n)"
  from inv have good: "directory_good c state" and pool: "pool \<noteq> []" by (auto simp: pool_invariant_def)
  from good have ok: "page_config_ok c" by (cases state) (simp add: directory_good_def)
  then have p: "params_ok (pages c)" by (simp add: page_config_ok_def)
  from g have key: "key_in_range c key" and ne: "records \<noteq> []" and recs: "\<And>x. x \<in> set (sort records) \<Longrightarrow> record_ok c x"
    by (auto simp: group_ok_def)
  note n = required_pages_bounds [OF p, of records]
  have pages: "traverse (pack_page c (sort records)) [0..<nat ?n] = Inr (group_pages c (sort records))"
    using pack_pages_ok [of "sort records" c] recs by simp
  obtain state' where put: "put_descriptor c key ?d state = Inr state'" "directory_good c state'"
    using directory.put_ok [OF good key] by blast
  define fits where "fits \<longleftrightarrow> group_fits c (key, records) \<and> ?b + ?n \<le> page_budget (pages c)"
  have fit: "descriptor_fits c (?b, ?n)" if fits
    using that p n ne by (auto simp: fits_def group_fits_def descriptor_fits_def)
  have run: "place_group c (key, records) (pool, state) = Inr (pool @ group_pages c (sort records), state')" if fits
    using that pages put(1) pack_descriptor_fits [OF fit [OF that]]
    by (simp add: place_group_def Let_def fits_def group_fits_def flip: required_pages_def)
  have "\<not> is_ok (place_group c (key, records) (pool, state))" if "\<not> fits"
    using that by (auto simp: place_group_def Let_def fits_def group_fits_def simp flip: required_pages_def)
  then have only: "fits" if "place_group c (key, records) (pool, state) = Inr out" for out
    using that unfolding is_ok_iff by blast
  with run show "(\<exists>out. place_group c (key, records) (pool, state) = Inr out) \<longleftrightarrow>
      group_fits c (key, records) \<and> ?b + ?n \<le> page_budget (pages c)"
    unfolding fits_def by blast
  assume out: "place_group c (key, records) (pool, state) = Inr out"
  from only [OF out] have fits .
  with run out have out': "out = (pool @ group_pages c (sort records), state')" by simp
  have get: "get_descriptor c state' k = (if k = key then Inr ?d else get_descriptor c state k)" if "key_in_range c k" for k
    by (rule directory.get_put [OF good key that put(1)])
  have here: "stored_at c (pool @ group_pages c (sort records)) state' key records"
    unfolding stored_at_def
    using get [OF key] fit [OF \<open>fits\<close>] by (intro exI [of _ "length pool"]) simp
  have there: "stored_at c (pool @ group_pages c (sort records)) state' k rs" if "(k, rs) \<in> set groups" for k rs
  proof (rule stored_at_mono)
    show "stored_at c pool state k rs" using inv that by (auto simp: pool_invariant_def)
    have "key_in_range c k" using inv that by (auto simp: pool_invariant_def)
    moreover have "k \<noteq> key" using new that by force
    ultimately show "get_descriptor c state' k = get_descriptor c state k" using get by simp
  qed
  have absent: "get_descriptor c state' k = Inr 0" if "key_in_range c k" "k \<notin> fst ` set (groups @ [(key, records)])" for k
  proof -
    have "k \<noteq> key" "k \<notin> fst ` set groups" using that(2) by auto
    moreover from this(2) have "get_descriptor c state k = Inr 0"
      using inv that(1) unfolding pool_invariant_def prod.case by blast
    ultimately show ?thesis using get [OF that(1)] by simp
  qed
  have count: "length (filter (\<lambda>v. v \<noteq> 0) (concat (group_pages c (sort records)))) = length records"
    using nonzero_group_pages [OF p, of "sort records"] recs by simp
  show "pool_invariant c (groups @ [(key, records)]) out"
    using inv put(2) here there absent key count n(1) pool \<open>fits\<close> group_pages_width [of _ c "sort records"]
    unfolding out' pool_invariant_def prod.case
    by (intro conjI) (auto simp: fits_def pages_total_def)
qed

lemma place_groups_invariant:
  assumes "pool_invariant c before st" and "distinct (map fst (before @ groups))"
    and "\<And>g. g \<in> set groups \<Longrightarrow> group_ok c g" and "foldM (place_group c) groups st = Inr out"
  shows "pool_invariant c (before @ groups) out"
  using assms
proof (induction groups arbitrary: before st)
  case (Cons g groups)
  obtain key records where g: "g = (key, records)" by (cases g)
  obtain pool state where st: "st = (pool, state)" by (cases st)
  have new: "key \<notin> fst ` set before" and gok: "group_ok c (key, records)"
    using Cons.prems(2) Cons.prems(3) [of g] by (auto simp: g)
  from Cons.prems(4) obtain mid where mid: "place_group c (key, records) (pool, state) = Inr mid"
      "foldM (place_group c) groups mid = Inr out" by (auto simp: g st res_simps)
  have "pool_invariant c ((before @ [g]) @ groups) out"
    using place_group_step(2) [OF Cons.prems(1) [unfolded st] gok new mid(1)] mid(2) Cons.prems(2,3)
    by (intro Cons.IH) (auto simp: g)
  then show ?case by simp
qed simp

lemma place_groups_success:
  assumes "pool_invariant c before st" and "distinct (map fst (before @ groups))"
    and "\<And>g. g \<in> set groups \<Longrightarrow> group_ok c g"
  shows "(\<exists>out. foldM (place_group c) groups st = Inr out) \<longleftrightarrow>
      (\<forall>g \<in> set groups. group_fits c g) \<and> 1 + pages_total c (before @ groups) \<le> page_budget (pages c)"
  using assms
proof (induction groups arbitrary: before st)
  case Nil
  then show ?case by (auto simp: pool_invariant_def)
next
  case (Cons g groups)
  obtain key records where g: "g = (key, records)" by (cases g)
  obtain pool state where st: "st = (pool, state)" by (cases st)
  from Cons.prems(1) have ok: "page_config_ok c"
    by (cases state) (simp add: st pool_invariant_def directory_good_def)
  then have total: "0 \<le> pages_total c groups"
    using required_pages_bounds(1) [of c] unfolding pages_total_def
    by (intro sum_list_nonneg) (auto simp: page_config_ok_def)
  have new: "key \<notin> fst ` set before" and gok: "group_ok c (key, records)"
    using Cons.prems(2) Cons.prems(3) [of g] by (auto simp: g)
  note step = place_group_step [OF Cons.prems(1) [unfolded st] gok new]
  have len: "int (length pool) = 1 + pages_total c before" using Cons.prems(1) by (simp add: st pool_invariant_def)
  show ?case
  proof (cases "\<exists>mid. place_group c (key, records) (pool, state) = Inr mid")
    case True
    then obtain mid where mid: "place_group c (key, records) (pool, state) = Inr mid" by blast
    have "(\<exists>out. foldM (place_group c) groups mid = Inr out) \<longleftrightarrow>
        (\<forall>g \<in> set groups. group_fits c g) \<and> 1 + pages_total c ((before @ [g]) @ groups) \<le> page_budget (pages c)"
      using step(2) [OF mid] Cons.prems(2,3) by (intro Cons.IH) (auto simp: g)
    moreover have "group_fits c g" using step(1) True by (simp add: g)
    moreover have "foldM (place_group c) (g # groups) st = foldM (place_group c) groups mid"
      using mid by (simp add: g st)
    ultimately show ?thesis by (simp add: pages_total_def)
  next
    case False
    then have "\<not> (group_fits c g \<and> int (length pool) + required_pages c records \<le> page_budget (pages c))"
      using step(1) by (simp add: g)
    with False len total show ?thesis by (auto simp: g st res_simps pages_total_def)
  qed
qed

section \<open>The built layout\<close>

text \<open>The groups in the order the build visits them.\<close>

definition sorted_groups :: "edge_row list \<Rightarrow> ((int \<times> int) \<times> page_record list) list" where
  "sorted_groups rows = (let grouped = group_by row_key row_record rows
     in map (\<lambda>key. (key, get_or [] grouped key)) (sort (map fst grouped)))"

definition key_records :: "edge_row list \<Rightarrow> int \<times> int \<Rightarrow> page_record list" where
  "key_records rows key = map row_record (filter (\<lambda>row. row_key row = key) rows)"

lemma sorted_groups_keys: "fst ` set (sorted_groups rows) = row_key ` set rows"
  by (simp add: sorted_groups_def Let_def image_image)

lemma distinct_sorted_groups: "distinct (map fst (sorted_groups rows))"
  by (simp add: sorted_groups_def Let_def comp_def)

lemma set_sorted_groups: "set (sorted_groups rows) = (\<lambda>key. (key, key_records rows key)) ` row_key ` set rows"
  by (simp add: sorted_groups_def Let_def key_records_def [abs_def])

lemma sorted_groups_entry: "(key, records) \<in> set (sorted_groups rows) \<longleftrightarrow>
    key \<in> row_key ` set rows \<and> records = key_records rows key"
  by (auto simp: set_sorted_groups)

lemma sorted_groups_ok:
  assumes "valid_config (base c)" and "traverse (validated_edge (base c)) edges = Inr rows"
    and "g \<in> set (sorted_groups rows)"
  shows "group_ok c g"
proof -
  obtain key records where g: "g = (key, records)" by (cases g)
  with assms(3) have "key \<in> row_key ` set rows" "records = key_records rows key"
    by (simp_all add: sorted_groups_entry)
  with validated_row [OF assms(1,2)] show ?thesis
    by (auto simp: g group_ok_def key_records_def filter_empty_conv)
qed

lemma count_list_map_filter: "count_list (map f xs) k = length (filter (\<lambda>x. f x = k) xs)"
  by (induction xs) auto

lemma sum_group_lengths: "sum_list (map (\<lambda>(key, records). length records) (sorted_groups rows)) = length rows"
proof -
  let ?keys = "sort (map fst (group_by row_key row_record rows))"
  have "set ?keys = row_key ` set rows" by simp
  have "sum_list (map (\<lambda>(key, records). length records) (sorted_groups rows)) =
      sum_list (map (\<lambda>key. length (filter (\<lambda>row. row_key row = key) rows)) ?keys)"
    by (simp add: sorted_groups_def Let_def comp_def)
  also have "\<dots> = (\<Sum>key \<in> row_key ` set rows. length (filter (\<lambda>row. row_key row = key) rows))"
    by (subst sum_list_distinct_conv_sum_set) simp_all
  also have "\<dots> = length (map row_key rows)"
    using sum_list_map_eq_sum_count [of "\<lambda>_. 1" "map row_key rows"]
    by (simp add: count_list_map_filter sum_list_triv comp_def)
  finally show ?thesis by simp
qed

lemma blocked_rows_nonneg:
  assumes "page_config_ok c" and "directory_rows c = Inr n"
  shows "0 \<le> n"
proof (cases "type_blocks c")
  case None
  with assms(2) entity_count_pos [of "base c"] show ?thesis
    by (auto simp: directory_rows_def dense_directory_rows_def relation_count_def intro!: mult_nonneg_nonneg)
next
  case (Some l)
  note lay = type_blocks_layout(1) [OF assms(1) Some]
  have "0 \<le> (\<Sum>j<length (relation_order l). width_at l (relation_order l ! j))"
    using width_nonneg [OF lay] by (intro sum_nonneg) auto
  with Some assms(2) total_rows_ok [OF lay] show ?thesis by (simp add: directory_rows_def row_total_def)
qed

lemma start_invariant:
  assumes "page_config_ok c" and "directory_rows c = Inr n"
  shows "pool_invariant c [] ([dummy_page c], replicate (nat n) 0, [])"
proof -
  have n: "0 \<le> n"
    using blocked_rows_nonneg [OF assms] .
  then have good: "directory_good c (replicate (nat n) 0, [])" using assms by (simp add: directory_good_def)
  have "get_descriptor c (replicate (nat n) 0, []) key = Inr 0" if "key_in_range c key" for key
  proof -
    obtain s r where key: "key = (s, r)" by (cases key)
    with that have s: "s \<noteq> 0" by (auto simp: key_in_range_def)
    from blocked_index_cases [OF assms(1) that [unfolded key]] show ?thesis
    proof cases
      case (1 row rows)
      then have "nat row < nat n" using assms(2) by simp
      with 1 n s show ?thesis by (simp add: get_descriptor_def key list_get_in)
    next
      case 2
      with s dense_index_ok(1) [OF that [unfolded key]] show ?thesis by (simp add: get_descriptor_def key)
    qed
  qed
  with good assms(1) show ?thesis
    by (auto simp: pool_invariant_def pages_total_def page_config_ok_def params_ok_def filter_replicate)
qed

text \<open>What the built layout of an owner with the given rows holds.\<close>

definition layout_holds :: "page_config \<Rightarrow> edge_row list \<Rightarrow> owner_page_layout \<Rightarrow> bool" where
  "layout_holds c rows l \<longleftrightarrow>
     (\<exists>pool. pool_invariant c (sorted_groups rows) (pool, directory l, residual_descriptors l) \<and>
        realized_page_count l = int (length pool) \<and>
        page_pool l = pool @ replicate (nat (pool_rows (pages c)) - length pool) (dummy_page c))"

definition rows_fit_pages :: "page_config \<Rightarrow> edge_row list \<Rightarrow> bool" where
  "rows_fit_pages c rows \<longleftrightarrow>
     (\<forall>group \<in> set (sorted_groups rows). group_fits c group) \<and>
     1 + pages_total c (sorted_groups rows) \<le> page_budget (pages c)"

lemma directory_rows_ok: "page_config_ok c \<Longrightarrow> \<exists>n. directory_rows c = Inr n"
  using type_blocks_layout(1) [of c] total_rows_ok
  by (cases "type_blocks c") (auto simp: directory_rows_def)

lemma build_layout_run:
  assumes ok: "page_config_ok c" and owner: "owner \<in> set (owners (base c))"
    and rows: "traverse (validated_edge (base c)) edges = Inr rows"
  shows "(\<exists>l. build_owner_page_layout c owner edges = Inr l) \<longleftrightarrow> rows_fit_pages c rows"
    and "build_owner_page_layout c owner edges = Inr l \<Longrightarrow> layout_holds c rows l \<and> layout_owner l = owner"
proof -
  obtain n where n: "directory_rows c = Inr n" using directory_rows_ok [OF ok] by blast
  have v: "valid_config (base c)" using ok by (simp add: page_config_ok_def)
  let ?start = "([dummy_page c], replicate (nat n) 0, [] :: (int \<times> int) list)"
  have grouped: "grouped_edges c owner edges = Inr (group_by row_key row_record rows)"
    using owner rows by (auto simp: grouped_edges_Inr)
  have run: "build_owner_page_layout c owner edges =
      bindr (foldM (place_group c) (sorted_groups rows) ?start) (\<lambda>(pool, directory, residual).
       Inr \<lparr>layout_owner = owner, directory = directory,
            page_pool = pool @ replicate (nat (pool_rows (pages c)) - length pool) (dummy_page c),
            realized_page_count = int (length pool), residual_descriptors = residual\<rparr>)"
    by (simp add: build_owner_page_layout_def grouped n Let_def sorted_groups_def page_width_def)
  have "(\<exists>out. foldM (place_group c) (sorted_groups rows) ?start = Inr out) \<longleftrightarrow> rows_fit_pages c rows"
    using place_groups_success [OF start_invariant [OF ok n], of "sorted_groups rows"]
      distinct_sorted_groups sorted_groups_ok [OF v rows] by (simp add: rows_fit_pages_def)
  then show "(\<exists>l. build_owner_page_layout c owner edges = Inr l) \<longleftrightarrow> rows_fit_pages c rows"
    unfolding run by (auto simp: res_simps)
  assume "build_owner_page_layout c owner edges = Inr l"
  then obtain pool dir resid where out: "foldM (place_group c) (sorted_groups rows) ?start = Inr (pool, dir, resid)"
      and l: "l = \<lparr>layout_owner = owner, directory = dir,
            page_pool = pool @ replicate (nat (pool_rows (pages c)) - length pool) (dummy_page c),
            realized_page_count = int (length pool), residual_descriptors = resid\<rparr>"
    unfolding run by (auto simp: res_simps)
  have "pool_invariant c (sorted_groups rows) (pool, dir, resid)"
    using place_groups_invariant [OF start_invariant [OF ok n] _ _ out]
      distinct_sorted_groups sorted_groups_ok [OF v rows] by simp
  with l show "layout_holds c rows l \<and> layout_owner l = owner"
    unfolding layout_holds_def by (intro conjI exI [of _ pool]) simp_all
qed

lemma build_layout_iff:
  assumes "page_config_ok c"
  shows "(\<exists>l. build_owner_page_layout c owner edges = Inr l) \<longleftrightarrow>
    owner \<in> set (owners (base c)) \<and>
    (\<exists>rows. traverse (validated_edge (base c)) edges = Inr rows \<and> rows_fit_pages c rows)"
proof
  assume l: "\<exists>l. build_owner_page_layout c owner edges = Inr l"
  then obtain rows where "owner \<in> set (owners (base c))" "traverse (validated_edge (base c)) edges = Inr rows"
    by (auto simp: build_owner_page_layout_def res_simps grouped_edges_Inr)
  with build_layout_run(1) [OF assms this] l
  show "owner \<in> set (owners (base c)) \<and> (\<exists>rows. traverse (validated_edge (base c)) edges = Inr rows \<and> rows_fit_pages c rows)"
    by blast
qed (use build_layout_run(1) [OF assms] in blast)

section \<open>Reading a key back\<close>

lemma key_records_ok:
  assumes "valid_config (base c)" and "traverse (validated_edge (base c)) edges = Inr rows" and "x \<in> set (key_records rows key)"
  shows "record_ok c x"
  using assms(3) validated_row(1) [OF assms(1,2)] by (auto simp: key_records_def)

lemma key_records_group:
  "key_records rows key \<noteq> [] \<Longrightarrow> (key, key_records rows key) \<in> set (sorted_groups rows)"
  by (auto simp: sorted_groups_entry key_records_def filter_empty_conv)

lemma concat_replicate_pages: "concat (replicate m (replicate k x)) = replicate (m * k) x"
  by (induction m) (simp_all add: replicate_add)

lemma read_window_stored:
  assumes run: "b + n \<le> length pool" and ne: "pool \<noteq> []" "hd pool = dummy_page c"
    and n: "int n \<le> pages_per_key (pages c)"
    and slots: "\<And>page v. page \<in> set (take n (drop b pool)) \<Longrightarrow> v \<in> set page \<Longrightarrow>
      v = 0 \<or> (\<exists>x. record_ok c x \<and> v = packed_record c x)"
  shows "read_window c pool (int b) (int n) =
    Inr (map (slot_record c) (concat (take n (drop b pool))) @
         replicate ((nat (pages_per_key (pages c)) - n) * page_width c) zero_record)"
proof -
  let ?ppk = "nat (pages_per_key (pages c))"
  let ?read = "\<lambda>page_number. bindr (list_get pool (if page_number < int n then int b + page_number else 0))
      (traverse (read_slot (base c) (page_number < int n)))"
  have dummy: "list_get pool 0 = Inr (dummy_page c)"
    using ne by (simp add: list_get_in hd_conv_nth)
  have zeros: "traverse (read_slot (base c) False) (dummy_page c) = Inr (replicate (page_width c) zero_record)"
    by (simp add: traverse_eq_Inr list_all2_conv_all_nth)
  have active: "?read (int i) = Inr (map (slot_record c) (take n (drop b pool) ! i))" if "i < n" for i
  proof -
    have page: "list_get pool (int b + int i) = Inr (take n (drop b pool) ! i)"
      using that run by (simp add: list_get_in nat_add_distrib)
    have "take n (drop b pool) ! i \<in> set (take n (drop b pool))" using that run by (intro nth_mem) simp
    from slots [OF this] have "traverse (read_slot (base c) True) (take n (drop b pool) ! i) =
        Inr (map (slot_record c) (take n (drop b pool) ! i))"
      by (intro traverse_Inr read_slot_packed)
    with that page show ?thesis by simp
  qed
  have idle: "?read (int i) = Inr (replicate (page_width c) zero_record)" if "n \<le> i" for i
    using that dummy zeros by simp
  have split: "[0..<?ppk] = [0..<n] @ [n..<?ppk]" using n by (metis upt_add_eq_append zero_le le_add_diff_inverse nat_int nat_mono)
  have "traverse ?read (map int [0..<n]) = Inr (map (map (slot_record c)) (take n (drop b pool)))"
    using active run by (auto simp: traverse_eq_Inr list_all2_conv_all_nth)
  moreover have "traverse ?read (map int [n..<?ppk]) = Inr (replicate (?ppk - n) (replicate (page_width c) zero_record))"
    using idle by (auto simp: traverse_eq_Inr list_all2_conv_all_nth)
  ultimately show ?thesis
    by (simp add: read_window_def Let_def split traverse_append map_concat concat_replicate_pages)
qed

lemma slots_per_key_nat:
  assumes "params_ok (pages c)"
  shows "nat (slots_per_key (pages c)) = nat (pages_per_key (pages c)) * page_width c"
  using assms by (simp add: slots_per_key_def page_width_def params_ok_def nat_mult_distrib)

text \<open>The records of a key in the order a read returns them.\<close>

abbreviation stored_records :: "edge_row list \<Rightarrow> int \<times> int \<Rightarrow> page_record list" where
  "stored_records rows key \<equiv> sort (key_records rows key)"

lemma read_owner_full:
  assumes ok: "page_config_ok c" and rows: "traverse (validated_edge (base c)) edges = Inr rows"
    and l: "layout_holds c rows l" and key: "key_in_range c key"
  shows "read_owner_key c False key l = Inr (stored_records rows key @
      replicate (nat (slots_per_key (pages c)) - length (key_records rows key)) zero_record)"
    and "length (key_records rows key) \<le> nat (slots_per_key (pages c))"
proof -
  let ?recs = "key_records rows key" and ?st = "(directory l, residual_descriptors l)"
  from ok have p: "params_ok (pages c)" and v: "valid_config (base c)" by (simp_all add: page_config_ok_def)
  from l obtain pool where inv: "pool_invariant c (sorted_groups rows) (pool, ?st)"
      and pool: "page_pool l = pool @ replicate (nat (pool_rows (pages c)) - length pool) (dummy_page c)"
    by (auto simp: layout_holds_def)
  from inv have ne: "page_pool l \<noteq> []" "hd (page_pool l) = dummy_page c" by (auto simp: pool_invariant_def pool)
  have "read_owner_key c False key l = Inr (stored_records rows key @
      replicate (nat (slots_per_key (pages c)) - length ?recs) zero_record) \<and>
      length ?recs \<le> nat (slots_per_key (pages c))"
  proof (cases "?recs = []")
    case True
    then have "key \<notin> fst ` set (sorted_groups rows)"
      by (auto simp: sorted_groups_keys key_records_def filter_empty_conv)
    then have "get_descriptor c ?st key = Inr 0"
      using inv key unfolding pool_invariant_def prod.case by blast
    moreover have "read_window c (page_pool l) 0 0 = Inr (replicate (nat (slots_per_key (pages c))) zero_record)"
      using read_window_stored [OF _ ne, of 0 0] p
      by (simp add: slots_per_key_nat [OF p] params_ok_def)
    ultimately show ?thesis
      using True by (simp add: read_owner_key_def unpack_descriptor_def)
  next
    case False
    let ?n = "required_pages c ?recs"
    from inv key_records_group [OF False] obtain b where
      get: "get_descriptor c ?st key = Inr (descriptor_value c (int b, ?n))" and
      fit: "descriptor_fits c (int b, ?n)" and
      run: "b + nat ?n \<le> length pool" "take (nat ?n) (drop b pool) = group_pages c (stored_records rows key)"
      by (auto simp: pool_invariant_def stored_at_def)
    have n: "0 \<le> ?n" "?n \<le> pages_per_key (pages c)" using fit by (auto simp: descriptor_fits_def)
    have recs: "record_ok c x" if "x \<in> set (stored_records rows key)" for x
      using key_records_ok [OF v rows, of x key] that by simp
    have here: "take (nat ?n) (drop b (page_pool l)) = group_pages c (stored_records rows key)"
      using run by (simp add: pool)
    have cat: "concat (group_pages c (stored_records rows key)) = map (packed_record c) (stored_records rows key) @
        replicate (nat ?n * page_width c - length ?recs) 0"
      using concat_group_pages [OF p, of "stored_records rows key"] by simp
    have slots: "u = 0 \<or> (\<exists>x. record_ok c x \<and> u = packed_record c x)"
      if "page \<in> set (take (nat ?n) (drop b (page_pool l)))" "u \<in> set page" for page u
    proof -
      have "u \<in> set (concat (group_pages c (stored_records rows key)))" using that here by auto
      then have "u = 0 \<or> u \<in> packed_record c ` set (stored_records rows key)" unfolding cat by auto
      then show ?thesis using recs by blast
    qed
    have decode: "map (slot_record c) (map (packed_record c) (stored_records rows key)) = stored_records rows key"
      using recs slot_record_packed by (intro trans [OF map_map] map_idI) simp
    have "read_window c (page_pool l) (int b) (int (nat ?n)) =
        Inr (map (slot_record c) (concat (group_pages c (stored_records rows key))) @
          replicate ((nat (pages_per_key (pages c)) - nat ?n) * page_width c) zero_record)"
      using read_window_stored [OF _ ne, of b "nat ?n"] run(1) n slots unfolding here by (simp add: pool)
    also have "\<dots> = Inr (stored_records rows key @ replicate (nat (slots_per_key (pages c)) - length ?recs) zero_record)"
    proof -
      note le = required_pages_bounds(2) [OF p, of ?recs]
      have "nat ?n * page_width c \<le> nat (pages_per_key (pages c)) * page_width c"
        using n by (intro mult_le_mono1) simp
      then have "nat ?n * page_width c - length ?recs + (nat (pages_per_key (pages c)) - nat ?n) * page_width c =
          nat (slots_per_key (pages c)) - length ?recs"
        using le by (simp add: slots_per_key_nat [OF p] diff_mult_distrib)
      then show ?thesis unfolding cat map_append decode by (simp flip: replicate_add)
    qed
    finally have "read_window c (page_pool l) (int b) ?n =
        Inr (stored_records rows key @ replicate (nat (slots_per_key (pages c)) - length ?recs) zero_record)"
      using n by simp
    moreover have "length ?recs \<le> nat (slots_per_key (pages c))"
    proof -
      have "nat ?n * page_width c \<le> nat (pages_per_key (pages c)) * page_width c"
        using n by (intro mult_le_mono1) simp
      with required_pages_bounds(2) [OF p, of ?recs] show ?thesis
        unfolding slots_per_key_nat [OF p] by (rule order_trans)
    qed
    ultimately show ?thesis
      using get by (simp add: read_owner_key_def descriptor_codec.dec_enc [OF fit])
  qed
  then show "read_owner_key c False key l = Inr (stored_records rows key @
      replicate (nat (slots_per_key (pages c)) - length ?recs) zero_record)"
    "length ?recs \<le> nat (slots_per_key (pages c))" by blast+
qed

lemma filter_real_records:
  assumes "\<And>x. x \<in> set records \<Longrightarrow> record_ok c x"
  shows "filter (\<lambda>slot. fst slot \<noteq> 0) (records @ replicate k zero_record) = records"
proof -
  have "fst x \<noteq> 0" if "x \<in> set records" for x
    using assms [OF that] by (cases x) (simp add: record_ok_def)
  then have "filter (\<lambda>slot. fst slot \<noteq> 0) records = records" by (simp add: filter_id_conv)
  then show ?thesis by (simp add: filter_replicate zero_record_def)
qed

lemma read_owner_compact:
  assumes ok: "page_config_ok c" and rows: "traverse (validated_edge (base c)) edges = Inr rows"
    and fit: "rows_fit_pages c rows" and l: "layout_holds c rows l" and key: "key_in_range c key"
  shows "read_owner_key c True key l = Inr (stored_records rows key @
      replicate (nat (effective_frontier_per_owner (pages c)) - length (key_records rows key)) zero_record)"
    and "int (length (key_records rows key)) \<le> effective_frontier_per_owner (pages c)"
proof -
  let ?recs = "key_records rows key"
  from ok have p: "params_ok (pages c)" and v: "valid_config (base c)" by (simp_all add: page_config_ok_def)
  show short: "int (length ?recs) \<le> effective_frontier_per_owner (pages c)"
  proof (cases "?recs = []")
    case True
    with params_frontier_bounds(1) [OF p] show ?thesis by simp
  next
    case False
    from key_records_group [OF this] fit have "group_fits c (key, ?recs)" by (simp add: rows_fit_pages_def)
    then show ?thesis by (simp add: group_fits_def)
  qed
  have "record_ok c x" if "x \<in> set (stored_records rows key)" for x
    using key_records_ok [OF v rows, of x key] that by simp
  then have real: "filter (\<lambda>slot. fst slot \<noteq> 0) (stored_records rows key @ replicate k zero_record) = stored_records rows key" for k
    by (intro filter_real_records)
  from read_owner_full(1) [OF ok rows l key] obtain d where
    d: "get_descriptor c (directory l, residual_descriptors l) key = Inr d"
    unfolding read_owner_key_def bindr_eq_Inr by blast
  obtain pb pc where u: "unpack_descriptor c d = (pb, pc)" by (cases "unpack_descriptor c d")
  have "read_window c (page_pool l) pb pc = Inr (stored_records rows key @
      replicate (nat (slots_per_key (pages c)) - length ?recs) zero_record)"
    using read_owner_full(1) [OF ok rows l key] by (simp add: read_owner_key_def d u)
  with d u show "read_owner_key c True key l = Inr (stored_records rows key @
      replicate (nat (effective_frontier_per_owner (pages c)) - length ?recs) zero_record)"
    using short by (simp add: read_owner_key_def compact_records_def real Let_def del: filter_append)
qed

section \<open>Occupancy vector and report\<close>

lemma stored_count:
  assumes "layout_holds c rows l"
  shows "length (filter (\<lambda>v. v \<noteq> 0) (concat (page_pool l))) = length rows"
proof -
  from assms obtain pool where "pool_invariant c (sorted_groups rows) (pool, directory l, residual_descriptors l)"
      "page_pool l = pool @ replicate (nat (pool_rows (pages c)) - length pool) (dummy_page c)"
    by (auto simp: layout_holds_def)
  then show ?thesis
    by (simp add: pool_invariant_def sum_group_lengths concat_replicate_pages filter_replicate)
qed

lemma pool_shape:
  assumes "page_config_ok c" and "layout_holds c rows l"
  shows "length (page_pool l) = nat (pool_rows (pages c))"
    and "page \<in> set (page_pool l) \<Longrightarrow> length page = page_width c"
    and "directory_rows c = Inr (int (length (directory l)))"
proof -
  from assms(2) obtain pool where p: "pool_invariant c (sorted_groups rows) (pool, directory l, residual_descriptors l)"
      "page_pool l = pool @ replicate (nat (pool_rows (pages c)) - length pool) (dummy_page c)"
    by (auto simp: layout_holds_def)
  have "page_budget (pages c) \<le> pool_rows (pages c)"
    using assms(1) by (simp add: page_config_ok_def params_ok_def pool_rows_def)
  with p show "length (page_pool l) = nat (pool_rows (pages c))" by (auto simp: pool_invariant_def)
  show "page \<in> set (page_pool l) \<Longrightarrow> length page = page_width c"
    using p by (auto simp: pool_invariant_def)
  show "directory_rows c = Inr (int (length (directory l)))"
    using p by (simp add: pool_invariant_def directory_good_def)
qed

section \<open>A sample layout\<close>

definition sample_pages :: page_params where
  "sample_pages = \<lparr>page_size = 1, pages_per_key = 2, page_budget = 5, frontier_per_owner = None,
     global_frontier = Some 3, directory_buckets = None, bucket_slots = None,
     partition_residual_by_relation = False\<rparr>"

definition sample_page_config :: page_config where
  "sample_page_config = \<lparr>base = sample_config, pages = sample_pages, type_blocks = None,
     entity_types = [], relation_domains = []\<rparr>"

lemma sample_page_fields [simp]:
  "base sample_page_config = sample_config" "pages sample_page_config = sample_pages"
  "type_blocks sample_page_config = None" "page_size sample_pages = 1" "pages_per_key sample_pages = 2"
  "page_budget sample_pages = 5" "frontier_per_owner sample_pages = None" "global_frontier sample_pages = Some 3"
  by (simp_all add: sample_page_config_def sample_pages_def)

lemma sample_page_ok [simp]: "page_config_ok sample_page_config"
  by (simp add: page_config_ok_def params_ok_def slots_per_key_def) (simp add: sample_pages_def)

lemma sample_rows_fit_pages: "rows_fit_pages sample_page_config sample_rows"
  by (simp add: rows_fit_pages_def sorted_groups_def sample_rows_def group_by_def push_at_def row_key_def
      row_record_def group_fits_def pages_total_def required_pages_def effective_frontier_per_owner_def
      slots_per_key_def get_or_def Let_def)

section \<open>Properties\<close>

text \<open>
  C17: The relation-paged layout is lossless.  When an owner's layout is built, its file
  validated, and reading any key of the public key space, through the dense or through the
  hybrid directory, returns exactly the owner's records of that key in sorted order followed by
  empty slots up to the fixed width; the compacted read returns the same records at the
  narrower width and never reaches its assertion; and the pool stores as many edges as the file
  has, in a shape fixed by public parameters.
\<close>

theorem paged_layout_lossless:
  assumes "page_config_ok c" and "build_owner_page_layout c owner edges = Inr l"
  shows "\<exists>rows. traverse (validated_edge (base c)) edges = Inr rows \<and>
    (\<forall>key. key_in_range c key \<longrightarrow>
       (let records = stored_records rows key in
        read_owner_key c False key l =
          Inr (records @ replicate (nat (slots_per_key (pages c)) - length records) zero_record) \<and>
        read_owner_key c True key l =
          Inr (records @ replicate (nat (effective_frontier_per_owner (pages c)) - length records) zero_record) \<and>
        int (length records) \<le> effective_frontier_per_owner (pages c))) \<and>
    length (filter (\<lambda>v. v \<noteq> 0) (concat (page_pool l))) = length edges \<and>
    length (page_pool l) = nat (pool_rows (pages c)) \<and> directory_rows c = Inr (int (length (directory l)))"
proof -
  from build_layout_iff [OF assms(1)] assms(2) obtain rows where
    owner: "owner \<in> set (owners (base c))" and rows: "traverse (validated_edge (base c)) edges = Inr rows"
    and fit: "rows_fit_pages c rows" by blast
  from build_layout_run(2) [OF assms(1) owner rows assms(2)] have l: "layout_holds c rows l" by blast
  note full = read_owner_full [OF assms(1) rows l] and compact = read_owner_compact [OF assms(1) rows fit l]
  show ?thesis
    using rows full compact stored_count [OF l] length_traverse [OF rows] pool_shape(1,3) [OF assms(1) l]
    by (intro exI [of _ rows]) (simp add: Let_def)
qed

theorem paged_layout_lossless_witness:
  "\<exists>l. build_owner_page_layout sample_page_config ''alice'' sample_edges = Inr l \<and>
     read_owner_key sample_page_config False (1, 1) l = Inr [(2, 1, 9, 3), (3, 1, 5, 1)]"
proof -
  have "\<exists>l. build_owner_page_layout sample_page_config ''alice'' sample_edges = Inr l"
    unfolding build_layout_iff [OF sample_page_ok] using sample_traverse sample_rows_fit_pages by auto
  then obtain l where l: "build_owner_page_layout sample_page_config ''alice'' sample_edges = Inr l" by blast
  have "key_in_range sample_page_config (1, 1)" by (simp add: key_in_range_def relation_count_def)
  moreover have "stored_records sample_rows (1, 1) = [(2, 1, 9, 3), (3, 1, 5, 1)]"
      "length (key_records sample_rows (1, 1)) = 2"
    by (simp_all add: key_records_def sample_rows_def row_key_def row_record_def)
  ultimately have "read_owner_key sample_page_config False (1, 1) l = Inr [(2, 1, 9, 3), (3, 1, 5, 1)]"
    using paged_layout_lossless [OF sample_page_ok l] sample_traverse by (auto simp: Let_def slots_per_key_def)
  with l show ?thesis by blast
qed

text \<open>
  C18: The build accepts exactly the files that fit.  For a known owner whose edges validate,
  \<open>build_owner_page_layout\<close> returns exactly when every key needs at most \<open>pages_per_key\<close> pages
  and holds at most \<open>frontier_per_owner\<close> edges, and all pages with the reserved dummy page stay
  within \<open>page_budget\<close>; nothing else makes it raise and nothing is dropped to make it fit.
\<close>

theorem paged_layout_accepts:
  assumes "page_config_ok c"
  shows "is_ok (build_owner_page_layout c owner edges) \<longleftrightarrow>
    owner \<in> set (owners (base c)) \<and>
    (\<exists>rows. traverse (validated_edge (base c)) edges = Inr rows \<and>
      (\<forall>key \<in> row_key ` set rows.
         required_pages c (key_records rows key) \<le> pages_per_key (pages c) \<and>
         int (length (key_records rows key)) \<le> effective_frontier_per_owner (pages c)) \<and>
      1 + (\<Sum>key \<in> row_key ` set rows. required_pages c (key_records rows key)) \<le> page_budget (pages c))"
proof -
  have fits: "(\<forall>group \<in> set (sorted_groups rows). group_fits c group) \<longleftrightarrow>
      (\<forall>key \<in> row_key ` set rows. group_fits c (key, key_records rows key))" for rows
    unfolding set_sorted_groups by simp
  have total: "pages_total c (sorted_groups rows) = (\<Sum>key \<in> row_key ` set rows. required_pages c (key_records rows key))" for rows
  proof -
    have "pages_total c (sorted_groups rows) =
        sum_list (map (\<lambda>key. required_pages c (key_records rows key)) (sort (map fst (group_by row_key row_record rows))))"
      by (simp add: pages_total_def sorted_groups_def Let_def comp_def key_records_def)
    also have "\<dots> = (\<Sum>key \<in> row_key ` set rows. required_pages c (key_records rows key))"
      by (subst sum_list_distinct_conv_sum_set) simp_all
    finally show ?thesis .
  qed
  show ?thesis
    unfolding is_ok_iff build_layout_iff [OF assms] rows_fit_pages_def fits total
    unfolding group_fits_def prod.case by (rule refl)
qed

theorem paged_layout_accepts_witness:
  "is_ok (build_owner_page_layout sample_page_config ''alice'' sample_edges) \<and>
   \<not> is_ok (build_owner_page_layout sample_page_config ''alice'' (sample_edges @ sample_edges))"
  (is "_ \<and> \<not> is_ok (build_owner_page_layout _ _ ?twice)")
proof
  show "is_ok (build_owner_page_layout sample_page_config ''alice'' sample_edges)"
  proof -
    have keys: "row_key ` set sample_rows = {(1, 1), (2, 2)}" by (auto simp: sample_rows_def row_key_def)
    have "required_pages sample_page_config (key_records sample_rows (1, 1)) = 2"
      "length (key_records sample_rows (1, 1)) = 2"
      "required_pages sample_page_config (key_records sample_rows (2, 2)) = 1"
      "length (key_records sample_rows (2, 2)) = 1"
      by (simp_all add: key_records_def sample_rows_def row_key_def required_pages_def)
    then show ?thesis
      unfolding paged_layout_accepts [OF sample_page_ok]
      by (intro conjI exI [of _ sample_rows], unfold keys)
        (simp_all add: sample_traverse effective_frontier_per_owner_def slots_per_key_def)
  qed
  have twice: "traverse (validated_edge sample_config) ?twice = Inr (sample_rows @ sample_rows)"
    by (simp add: traverse_append sample_traverse)
  have "required_pages sample_page_config (key_records (sample_rows @ sample_rows) (1, 1)) = 4"
    by (simp add: sample_rows_def row_key_def key_records_def required_pages_def)
  moreover have "(1, 1) \<in> row_key ` set (sample_rows @ sample_rows)"
    by (simp add: sample_rows_def row_key_def)
  ultimately have "\<exists>key \<in> row_key ` set (sample_rows @ sample_rows).
      2 < required_pages sample_page_config (key_records (sample_rows @ sample_rows) key)"
    by (intro bexI [of _ "(1, 1)"]) simp_all
  then show "\<not> is_ok (build_owner_page_layout sample_page_config ''alice'' ?twice)"
    unfolding paged_layout_accepts [OF sample_page_ok] sample_page_fields twice sum.inject
    by (metis not_less)
qed

end
