(* ===== verification/Paged_Join.thy ===== *)
theory Paged_Join
  imports Page_Pool
begin

text \<open>
  The relation-paged oracle against the join specification and against the raw-edge oracle, and
  the federation-wide bound that makes the second compaction lossless.
\<close>

section \<open>Reading all owners\<close>

text \<open>One validated, fitting row list per built layout.\<close>

definition layouts_hold :: "page_config \<Rightarrow> edge_row list list \<Rightarrow> owner_page_layout list \<Rightarrow> bool" where
  "layouts_hold c = list_all2 (\<lambda>rows l. layout_holds c rows l \<and> rows_fit_pages c rows \<and>
     (\<exists>edges. traverse (validated_edge (base c)) edges = Inr rows))"

abbreviation all_records :: "edge_row list list \<Rightarrow> int \<times> int \<Rightarrow> page_record list" where
  "all_records rowss key \<equiv> concat (map (\<lambda>rows. stored_records rows key) rowss)"

lemma read_key_records:
  assumes ok: "page_config_ok c" and hold: "layouts_hold c rowss ls" and key: "key_in_range c key"
  shows "\<exists>slots. read_key c ls compacting key = Inr slots \<and>
    filter (\<lambda>slot. fst slot \<noteq> 0) slots = all_records rowss key"
proof -
  have v: "valid_config (base c)" using ok by (simp add: page_config_ok_def)
  define width where "width = (if compacting then effective_frontier_per_owner (pages c) else slots_per_key (pages c))"
  let ?slots = "\<lambda>rows. stored_records rows key @ replicate (nat width - length (key_records rows key)) zero_record"
  have one: "read_owner_key c compacting key l = Inr (?slots rows)"
      "filter (\<lambda>slot. fst slot \<noteq> 0) (?slots rows) = stored_records rows key"
    if "layout_holds c rows l \<and> rows_fit_pages c rows \<and> (\<exists>edges. traverse (validated_edge (base c)) edges = Inr rows)"
    for rows l
  proof -
    from that obtain edges where e: "traverse (validated_edge (base c)) edges = Inr rows" by blast
    from that read_owner_full(1) [OF ok e _ key] read_owner_compact(1) [OF ok e _ _ key]
    show "read_owner_key c compacting key l = Inr (?slots rows)"
      by (cases compacting) (simp_all add: width_def)
    show "filter (\<lambda>slot. fst slot \<noteq> 0) (?slots rows) = stored_records rows key"
      using key_records_ok [OF v e, of _ key] by (intro filter_real_records) simp
  qed
  have "list_all2 (\<lambda>rows l. read_owner_key c compacting key l = Inr (?slots rows) \<and>
      filter (\<lambda>slot. fst slot \<noteq> 0) (?slots rows) = stored_records rows key) rowss ls"
    using hold unfolding layouts_hold_def by (rule list_all2_mono) (use one in blast)
  then have "traverse (read_owner_key c compacting key) ls = Inr (map ?slots rowss) \<and>
      map (filter (\<lambda>slot. fst slot \<noteq> 0)) (map ?slots rowss) = map (\<lambda>rows. stored_records rows key) rowss"
    by (induction rule: list_all2_induct) (simp_all del: filter_append)
  then show ?thesis
    by (intro exI [of _ "concat (map ?slots rowss)"]) (simp only: read_key_def bindr_Inr filter_concat simp_thms)
qed

section \<open>Candidates\<close>

definition record_pair :: "page_record \<Rightarrow> page_record \<Rightarrow> join_path" where
  "record_pair = (\<lambda>(t, r, ev, sc) (t', r', ev', sc'). (sc + sc', ev, ev', t'))"

lemma expand_paged_records:
  assumes "page_config_ok c" and "layouts_hold c rowss ls" and "fst p \<noteq> 0 \<Longrightarrow> key_in_range c (fst p, r)"
  shows "\<exists>cands. expand_paged c ls r (n, p) = Inr cands \<and>
    map path_of cands = (if fst p = 0 then [] else map (record_pair p) (all_records rowss (fst p, r)))"
proof (cases "fst p = 0")
  case False
  obtain t r0 left sc where p: "p = (t, r0, left, sc)" by (metis prod.exhaust)
  from read_key_records [OF assms(1,2) assms(3) [OF False], of False] obtain slots where
    slots: "read_key c ls False (t, r) = Inr slots" "filter (\<lambda>slot. fst slot \<noteq> 0) slots = all_records rowss (t, r)"
    by (auto simp: p)
  let ?sel = "filter (\<lambda>(i, slot). fst slot \<noteq> 0) (enumerate 0 slots)"
  have sel: "?sel = filter (\<lambda>(_, terminal, _). terminal \<noteq> 0) (enumerate 0 slots)"
    by (intro filter_cong) auto
  have "map (record_pair p) (map snd ?sel) = map (record_pair p) (all_records rowss (t, r))"
    unfolding map_snd_filter_enumerate slots(2) ..
  then show ?thesis
    using False slots(1) by (simp add: expand_paged_def p sel record_pair_def path_of_def comp_def case_prod_unfold add.commute)
next
  case True
  then show ?thesis by (cases p) (simp add: expand_paged_def)
qed

lemma expand_frontier:
  assumes "page_config_ok c" and "layouts_hold c rowss ls"
    and "\<And>p. p \<in> set frontier \<Longrightarrow> fst p \<noteq> 0 \<Longrightarrow> key_in_range c (fst p, r)"
  shows "\<exists>parts. traverse (expand_paged c ls r) (enumerate n frontier) = Inr parts \<and>
    map path_of (concat parts) =
      concat (map (\<lambda>p. map (record_pair p) (all_records rowss (fst p, r))) (filter (\<lambda>p. fst p \<noteq> 0) frontier))"
  using assms(3)
proof (induction frontier arbitrary: n)
  case (Cons p frontier)
  from Cons.IH [of "Suc n"] Cons.prems obtain parts where
    parts: "traverse (expand_paged c ls r) (enumerate (Suc n) frontier) = Inr parts"
      "map path_of (concat parts) =
        concat (map (\<lambda>p. map (record_pair p) (all_records rowss (fst p, r))) (filter (\<lambda>p. fst p \<noteq> 0) frontier))"
    by auto
  from expand_paged_records [OF assms(1,2), of p r n] Cons.prems [of p] obtain cands where
    "expand_paged c ls r (n, p) = Inr cands"
    "map path_of cands = (if fst p = 0 then [] else map (record_pair p) (all_records rowss (fst p, r)))"
    by auto
  with parts show ?case by simp
qed simp

lemma record_pair_row: "record_pair (row_record p) (row_record q) = join_pair p q"
  by (simp add: record_pair_def row_record_def join_pair_def split: prod.splits)

lemma mset_all_records: "mset (all_records rowss key) = mset (map row_record (hop_rows (concat rowss) (fst key) (snd key)))"
  by (induction rowss) (simp_all add: key_records_def hop_rows_def)

lemma mset_concat_map_cong:
  assumes "mset xs = mset ys" and "\<And>x. x \<in> set xs \<Longrightarrow> mset (f x) = mset (g x)"
  shows "mset (concat (map f xs)) = mset (concat (map g ys))"
proof -
  have "mset (concat (map f xs)) = \<Sum>\<^sub># (image_mset (\<lambda>x. mset (f x)) (mset xs))"
    by (simp add: mset_concat sum_mset_sum_list [symmetric] comp_def)
  also have "\<dots> = \<Sum>\<^sub># (image_mset (\<lambda>x. mset (g x)) (mset ys))"
    using assms by (intro arg_cong [of _ _ sum_mset]) (metis image_mset_cong set_mset_mset)
  also have "\<dots> = mset (concat (map g ys))"
    by (simp add: mset_concat sum_mset_sum_list [symmetric] comp_def)
  finally show ?thesis .
qed

lemma records_join:
  "mset (concat (map (\<lambda>p. map (record_pair p) (all_records rowss (fst p, r2))) (all_records rowss (s, r1)))) =
   mset (join_paths (concat rowss) (s, r1, r2))"
proof -
  let ?rows = "concat rowss"
  have "mset (concat (map (\<lambda>p. map (record_pair p) (all_records rowss (fst p, r2))) (all_records rowss (s, r1)))) =
      mset (concat (map (\<lambda>p. map (record_pair p) (map row_record (hop_rows ?rows (fst p) r2))) (map row_record (hop_rows ?rows s r1))))"
    by (rule mset_concat_map_cong) (simp_all only: mset_all_records mset_map fst_conv snd_conv)
  also have "concat (map (\<lambda>p. map (record_pair p) (map row_record (hop_rows ?rows (fst p) r2))) (map row_record (hop_rows ?rows s r1))) =
      join_paths ?rows (s, r1, r2)"
  proof -
    have "fst (row_record p) = row_target p" for p by (cases p) (simp add: row_record_def row_target_def)
    then show ?thesis by (simp add: join_paths_def comp_def record_pair_row)
  qed
  finally show ?thesis .
qed

text \<open>Every record a read returns names a middle entity that can be read in turn.\<close>

lemma records_in_range:
  assumes "page_config_ok c" and "layouts_hold c rowss ls" and "p \<in> set (all_records rowss key)"
    and "1 \<le> r" and "r \<le> relation_count c"
  shows "key_in_range c (fst p, r)"
proof -
  from assms(3) obtain rows where rows: "rows \<in> set rowss" "p \<in> set (key_records rows key)" by auto
  from assms(2) rows(1) obtain edges where "traverse (validated_edge (base c)) edges = Inr rows"
    by (auto simp: layouts_hold_def list_all2_conv_all_nth in_set_conv_nth)
  moreover have "valid_config (base c)" using assms(1) by (simp add: page_config_ok_def)
  ultimately have "record_ok c p" using key_records_ok rows(2) by blast
  with assms(4,5) show ?thesis by (cases p) (simp add: record_ok_def key_in_range_def)
qed

lemma paged_candidates_paths:
  assumes ok: "page_config_ok c" and hold: "layouts_hold c rowss ls"
    and key: "key_in_range c (s, r1)" and r2: "1 \<le> r2" "r2 \<le> relation_count c"
    and global: "\<And>g. global_frontier (pages c) = Some g \<Longrightarrow> int (length (hop_rows (concat rowss) s r1)) \<le> g"
  shows "\<exists>cands. paged_candidates c ls (s, r1, r2) = Inr cands \<and>
    mset (map path_of cands) = mset (join_paths (concat rowss) (s, r1, r2))"
proof -
  let ?recs = "all_records rowss (s, r1)" and ?real = "\<lambda>slot :: page_record. fst slot \<noteq> 0"
  from read_key_records [OF ok hold key, of True] obtain slots where
    slots: "read_key c ls True (s, r1) = Inr slots" "filter ?real slots = ?recs" by blast
  have len: "length ?recs = length (hop_rows (concat rowss) s r1)"
    using mset_eq_length [OF mset_all_records [where rowss = rowss and key = "(s, r1)"]]
    by (simp only: length_map fst_conv snd_conv)
  obtain frontier where f: "(case global_frontier (pages c) of None \<Rightarrow> Inr slots
        | Some width \<Rightarrow> compact_records ''federation-wide frontier exceeds the declared global_frontier'' width slots)
        = Inr frontier" "filter ?real frontier = ?recs"
  proof (cases "global_frontier (pages c)")
    case None
    with slots(2) that [of slots] show thesis by simp
  next
    case (Some g)
    have "filter ?real ?recs = ?recs" unfolding slots(2) [symmetric] by simp
    with Some global [OF Some] that [of "?recs @ replicate (nat g - length ?recs) zero_record"] show thesis
      by (simp add: compact_records_def slots(2) len Let_def zero_record_def filter_replicate)
  qed
  have range: "key_in_range c (fst p, r2)" if "p \<in> set frontier" "fst p \<noteq> 0" for p
  proof -
    have "p \<in> set (filter ?real frontier)" using that by simp
    then have "p \<in> set ?recs" unfolding f(2) .
    from records_in_range [OF ok hold this r2] show ?thesis .
  qed
  from expand_frontier [OF ok hold range, of frontier 0] obtain parts where
    parts: "traverse (expand_paged c ls r2) (enumerate 0 frontier) = Inr parts"
      "map path_of (concat parts) = concat (map (\<lambda>p. map (record_pair p) (all_records rowss (fst p, r2))) ?recs)"
    unfolding f(2) by auto
  have "paged_candidates c ls (s, r1, r2) = Inr (concat parts)"
    using slots(1) f(1) parts(1) by (simp add: paged_candidates_def)
  moreover have "mset (map path_of (concat parts)) = mset (join_paths (concat rowss) (s, r1, r2))"
    unfolding parts(2) by (rule records_join)
  ultimately show ?thesis by blast
qed

section \<open>The federation-wide bound\<close>

text \<open>The names of an edge determine its key and conversely.\<close>

lemma edge_name_key_of:
  assumes "validated_edge c e = Inr row"
  obtains sn rn where "edge_name_key e = Inr (JStr sn, JStr rn)"
    "map_of (entities c) sn = Some (fst (row_key row))" "map_of (relations c) rn = Some (snd (row_key row))"
proof -
  obtain s r t ev sc where row: "row = (s, r, t, ev, sc)" by (metis prod.exhaust)
  from assms have "edge_ids c e = Inr (s, r, t)" by (simp add: row validated_edge_Inr)
  then obtain d sn rn where "e = JDict d" "map_of d ''source'' = Some (JStr sn)" "map_of (entities c) sn = Some s"
      "map_of d ''relation'' = Some (JStr rn)" "map_of (relations c) rn = Some r"
    unfolding edge_ids_Inr by blast
  then show thesis using that [of sn rn] by (simp add: edge_name_key_def dict_key_def row row_key_def)
qed

lemma map_of_inj:
  assumes "distinct (map snd xs)" and "map_of xs a = Some v" and "map_of xs b = Some v"
  shows "a = b"
  using assms(1) map_of_SomeD [OF assms(2)] map_of_SomeD [OF assms(3)]
  by (metis distinct_map inj_onD prod.inject snd_conv)

lemma edge_names_count:
  assumes v: "valid_config c" and names: "map_of (entities c) sn = Some s" "map_of (relations c) rn = Some r"
    and rows: "traverse (validated_edge c) edges = Inr rows"
  shows "\<exists>keys. traverse edge_name_key edges = Inr keys \<and>
    length (filter (\<lambda>k. k = (JStr sn, JStr rn)) keys) = length (hop_rows rows s r)"
  using rows
proof (induction edges arbitrary: rows)
  case (Cons e edges)
  from Cons.prems obtain row rest where r: "validated_edge c e = Inr row"
      "traverse (validated_edge c) edges = Inr rest" "rows = row # rest"
    by (auto simp: res_simps)
  from Cons.IH [OF r(2)] obtain keys where keys: "traverse edge_name_key edges = Inr keys"
      "length (filter (\<lambda>k. k = (JStr sn, JStr rn)) keys) = length (hop_rows rest s r)" by blast
  obtain sn' rn' where n: "edge_name_key e = Inr (JStr sn', JStr rn')"
      "map_of (entities c) sn' = Some (fst (row_key row))" "map_of (relations c) rn' = Some (snd (row_key row))"
    using edge_name_key_of [OF r(1)] .
  have "sn' = sn \<and> rn' = rn \<longleftrightarrow> row_key row = (s, r)"
    using n(2,3) names map_of_inj [OF valid_entity_ids(1) [OF v]] map_of_inj [OF valid_relation_ids(1) [OF v]]
    by (cases "row_key row") auto
  with keys n(1) r(3) show ?case by (auto simp: hop_rows_def)
qed (simp add: hop_rows_def)

lemma id_has_name:
  assumes "distinct (map fst ids)" and "i \<in> snd ` set ids"
  shows "\<exists>name. map_of ids name = Some i"
  using assms by (auto intro: map_of_is_SomeI)

lemma checked_frontier:
  assumes ok: "page_config_ok c" and key: "key_in_range c (s, r)"
    and chk: "check_global_frontier c owner_edges = Inr report" and g: "global_frontier (pages c) = Some g"
    and rows: "list_all2 (\<lambda>(owner, edges) rows. traverse (validated_edge (base c)) edges = Inr rows) owner_edges rowss"
  shows "int (length (hop_rows (concat rowss) s r)) \<le> g"
proof -
  from ok have v: "valid_config (base c)" "distinct (map fst (entities (base c)))" "distinct (map fst (relations (base c)))"
    by (simp_all add: page_config_ok_def)
  obtain sn rn where names: "map_of (entities (base c)) sn = Some s" "map_of (relations (base c)) rn = Some r"
    using key_names [OF ok key] by metis
  from chk g obtain keyss where keyss: "traverse (owner_name_keys (base c)) owner_edges = Inr keyss"
      and low: "filter (\<lambda>(_, n). int n > g) (count_by (\<lambda>k. k) (concat keyss)) = []"
    by (auto simp: check_global_frontier_def res_simps Let_def split: if_splits)
  let ?k = "(JStr sn, JStr rn)"
  have "length (filter (\<lambda>k. k = ?k) (concat keyss)) = length (hop_rows (concat rowss) s r)"
    using rows keyss
  proof (induction arbitrary: keyss rule: list_all2_induct)
    case (Cons oe owner_edges rs rowss)
    obtain owner edges where oe: "oe = (owner, edges)" by (cases oe)
    from Cons.prems obtain keys rest where k: "owner_name_keys (base c) oe = Inr keys"
        "traverse (owner_name_keys (base c)) owner_edges = Inr rest" "keyss = keys # rest"
      by (auto simp: res_simps)
    from k(1) have keys: "traverse edge_name_key edges = Inr keys" by (simp add: owner_name_keys_def oe split: if_splits)
    from Cons.hyps(1) have "traverse (validated_edge (base c)) edges = Inr rs" by (simp add: oe)
    from edge_names_count [OF v(1) names this] keys Cons.IH [OF k(2)] show ?case
      by (simp add: k(3) hop_rows_def)
  qed (simp add: hop_rows_def)
  moreover have "int (length (filter (\<lambda>k. k = ?k) (concat keyss))) \<le> g \<or> filter (\<lambda>k. k = ?k) (concat keyss) = []"
  proof (cases "?k \<in> set (concat keyss)")
    case True
    then have "?k \<in> fst ` set (count_by (\<lambda>k. k) (concat keyss))" by simp
    then obtain n where n: "(?k, n) \<in> set (count_by (\<lambda>k. k) (concat keyss))"
      by (auto simp del: keys_count_by)
    with low have "\<not> int n > g" by (auto simp: filter_empty_conv)
    with count_by_entry [OF n] show ?thesis by simp
  qed (auto simp: filter_empty_conv)
  moreover have "0 \<le> g" using ok g by (simp add: page_config_ok_def params_ok_def)
  ultimately show ?thesis by force
qed

section \<open>The oracle\<close>

lemma query_ids_relations:
  assumes "valid_config c" and "query_ids c q = Inr (s, r1, r2)"
  shows "1 \<le> r1 \<and> r1 \<le> int (length (relations c))" and "1 \<le> r2 \<and> r2 \<le> int (length (relations c))"
proof -
  from assms(2) obtain n1 n2 where "map_of (relations c) n1 = Some r1" "map_of (relations c) n2 = Some r2"
    by (auto simp: query_ids_def res_simps vocab_get_eq_Inr jitem_eq_Inr split: jval.splits if_splits)
  with relation_id_bounds [OF assms(1)]
  show "1 \<le> r1 \<and> r1 \<le> int (length (relations c))" "1 \<le> r2 \<and> r2 \<le> int (length (relations c))" by blast+
qed

lemma owner_rows_perm:
  assumes "distinct (map fst owner_edges)" and "distinct names" and "fst ` set owner_edges = set names"
  shows "mset (concat (map (\<lambda>(owner, edges). f owner edges) owner_edges)) =
         mset (concat (map (\<lambda>owner. f owner (get_or [] owner_edges owner)) names))"
proof -
  have "mset (map fst owner_edges) = mset names"
    using set_eq_iff_mset_eq_distinct [OF assms(1,2)] assms(3) by simp
  then have "mset (concat (map (\<lambda>owner. f owner (get_or [] owner_edges owner)) (map fst owner_edges))) =
      mset (concat (map (\<lambda>owner. f owner (get_or [] owner_edges owner)) names))"
    by (rule mset_concat_map_cong) (rule refl)
  moreover have "map (\<lambda>(owner, edges). f owner edges) owner_edges =
      map (\<lambda>owner. f owner (get_or [] owner_edges owner)) (map fst owner_edges)"
    using assms(1) by (auto simp: get_or_in)
  ultimately show ?thesis by (simp only:)
qed

lemma evaluate_paged_run:
  assumes ok: "page_config_ok c"
    and owners: "distinct (map fst owner_edges)" "fst ` set owner_edges = set (owners (base c))"
    and query: "query_ids (base c) query = Inr ids"
    and built: "\<And>owner. owner \<in> set (owners (base c)) \<Longrightarrow>
      is_ok (build_owner_page_layout c owner (get_or [] owner_edges owner))"
    and checked: "global_frontier (pages c) \<noteq> None \<Longrightarrow> is_ok (check_global_frontier c owner_edges)"
    and rows: "\<And>owner. owner \<in> set (owners (base c)) \<Longrightarrow>
      traverse (validated_edge (base c)) (get_or [] owner_edges owner) = Inr (rows owner)"
  shows "\<exists>candidates.
      evaluate_paged_cleartext c owner_edges query None =
        Inr (top_k_results (deduplicate_terminal_answers (base c)) (top_k (base c)) candidates) \<and>
      mset (map path_of candidates) = mset (join_paths (concat (map rows (owners (base c)))) ids)"
proof -
  let ?owners = "owners (base c)" and ?edges = "\<lambda>owner. get_or [] owner_edges owner"
  from ok have v: "valid_config (base c)" by (simp add: page_config_ok_def)
  obtain s r1 r2 where ids: "ids = (s, r1, r2)" by (metis prod.exhaust)
  note q = query_ids_source [OF v query [unfolded ids]] query_ids_relations [OF v query [unfolded ids]]
  define layout where "layout owner = projr (build_owner_page_layout c owner (?edges owner))" for owner
  have lay: "build_owner_page_layout c owner (?edges owner) = Inr (layout owner)" if "owner \<in> set ?owners" for owner
    using built [OF that] by (auto simp: layout_def is_ok_iff)
  have one: "layout_holds c (rows owner) (layout owner) \<and> rows_fit_pages c (rows owner)" if "owner \<in> set ?owners" for owner
    using build_layout_run [OF ok that rows [OF that]] lay [OF that] by blast
  then have hold: "layouts_hold c (map rows ?owners) (map layout ?owners)"
    using rows unfolding layouts_hold_def by (auto simp: list_all2_map1 list_all2_map2 list_all2_same)
  have key: "key_in_range c (s, r1)" using q by (simp add: key_in_range_def relation_count_def)
  have global: "int (length (hop_rows (concat (map rows ?owners)) s r1)) \<le> g" if g: "global_frontier (pages c) = Some g" for g
  proof -
    from checked g obtain report where chk: "check_global_frontier c owner_edges = Inr report" by (auto simp: is_ok_iff)
    have all2: "list_all2 (\<lambda>(owner, edges) rs. traverse (validated_edge (base c)) edges = Inr rs) owner_edges
        (map (\<lambda>(owner, edges). rows owner) owner_edges)"
    proof -
      have "traverse (validated_edge (base c)) edges = Inr (rows owner)" if "(owner, edges) \<in> set owner_edges" for owner edges
      proof -
        have "owner \<in> set ?owners" using owners(2) imageI [OF that, of fst] by simp
        from rows [OF this] get_or_in [OF that owners(1)] show ?thesis by simp
      qed
      then show ?thesis by (auto simp: list_all2_map2 list_all2_same)
    qed
    have "mset (concat (map (\<lambda>(owner, edges). rows owner) owner_edges)) = mset (concat (map rows ?owners))"
      using owner_rows_perm [OF owners(1) valid_owners(2) [OF v] owners(2), of "\<lambda>owner edges. rows owner"] by simp
    then have "length (hop_rows (concat (map (\<lambda>(owner, edges). rows owner) owner_edges)) s r1) =
        length (hop_rows (concat (map rows ?owners)) s r1)"
      unfolding hop_rows_def by (metis mset_filter size_mset)
    with checked_frontier [OF ok key chk g all2] show ?thesis by simp
  qed
  obtain cands where "paged_candidates c (map layout ?owners) (s, r1, r2) = Inr cands"
      "mset (map path_of cands) = mset (join_paths (concat (map rows ?owners)) (s, r1, r2))"
    using paged_candidates_paths [OF ok hold key _ _ global] q by (auto simp: relation_count_def)
  moreover have "resolve_layouts c owner_edges None = Inr (map layout ?owners)"
    using lay by (simp add: resolve_layouts_def) (rule traverse_Inr)
  ultimately show ?thesis
    using owners(2) query by (auto simp: evaluate_paged_cleartext_def ids)
qed

section \<open>A sample federation\<close>

definition sample_owner_edges :: "(string \<times> jval list) list" where
  "sample_owner_edges = [(''alice'', sample_edges), (''bob'', [])]"

lemma sample_built:
  assumes "owner \<in> set (owners (base sample_page_config))"
  shows "is_ok (build_owner_page_layout sample_page_config owner (get_or [] sample_owner_edges owner)) \<and>
    is_ok (packed_owner_vector (base sample_page_config) owner (get_or [] sample_owner_edges owner))"
proof -
  have empty: "rows_fit_pages sample_page_config []" "sources_fit sample_config []" "relations_fit sample_config []"
    by (simp_all add: rows_fit_pages_def sorted_groups_def group_by_def pages_total_def sources_fit_def relations_fit_def)
  from assms consider "owner = ''alice''" | "owner = ''bob''" by auto
  then show ?thesis
  proof cases
    case 1
    then show ?thesis
      using sample_traverse sample_rows_fit_pages sample_fit
      by (auto simp: is_ok_iff build_layout_iff packed_owner_vector_iff [OF sample_valid] sample_owner_edges_def get_or_def)
  next
    case 2
    then show ?thesis
      using empty by (auto simp: is_ok_iff build_layout_iff packed_owner_vector_iff [OF sample_valid] sample_owner_edges_def get_or_def)
  qed
qed

lemma sample_checked: "is_ok (check_global_frontier sample_page_config sample_owner_edges)"
  by (simp add: check_global_frontier_def sample_owner_edges_def owner_name_keys_def sample_edges_def raw_edge_def
      edge_name_key_def dict_key_def count_by_def count_at_def get_or_def Let_def)

section \<open>Properties\<close>

text \<open>
  C19: The relation-paged oracle computes the join.  When the query resolves, every owner's
  layout builds and the federation-wide bound was checked, \<open>evaluate_paged_cleartext\<close> returns,
  never through one of its two assertions, the ranking of a candidate list whose
  (score, evidence, evidence, terminal) tuples are, as a multiset, the two-hop join paths of
  the owners' edges: both compactions and the page windows lose and invent nothing.
\<close>

theorem paged_oracle_join:
  assumes "page_config_ok c"
    and "distinct (map fst owner_edges)" and "fst ` set owner_edges = set (owners (base c))"
    and "query_ids (base c) query = Inr ids"
    and "\<And>owner. owner \<in> set (owners (base c)) \<Longrightarrow>
      is_ok (build_owner_page_layout c owner (get_or [] owner_edges owner))"
    and "global_frontier (pages c) \<noteq> None \<Longrightarrow> is_ok (check_global_frontier c owner_edges)"
  shows "\<exists>rows candidates.
      (\<forall>owner \<in> set (owners (base c)).
         traverse (validated_edge (base c)) (get_or [] owner_edges owner) = Inr (rows owner)) \<and>
      evaluate_paged_cleartext c owner_edges query None =
        Inr (top_k_results (deduplicate_terminal_answers (base c)) (top_k (base c)) candidates) \<and>
      mset (map path_of candidates) = mset (join_paths (concat (map rows (owners (base c)))) ids)"
proof -
  define rows where "rows owner = projr (traverse (validated_edge (base c)) (get_or [] owner_edges owner))" for owner
  have rows: "traverse (validated_edge (base c)) (get_or [] owner_edges owner) = Inr (rows owner)"
    if "owner \<in> set (owners (base c))" for owner
    using assms(5) [OF that] build_layout_iff [OF assms(1), of owner "get_or [] owner_edges owner"]
    by (auto simp: is_ok_iff rows_def)
  from evaluate_paged_run [OF assms(1-6) rows] rows show ?thesis by blast
qed

theorem paged_oracle_join_witness:
  "\<exists>candidates.
     evaluate_paged_cleartext sample_page_config sample_owner_edges sample_query None = Inr (top_k_results False 2 candidates) \<and>
     map path_of candidates = [(5, 9, 7, 3)]"
proof -
  from paged_oracle_join [OF sample_page_ok _ _ _ conjunct1 [OF sample_built] sample_checked, of sample_query "(1, 1, 2)"]
  obtain rows candidates where
    rows: "\<forall>owner \<in> set (owners sample_config).
      traverse (validated_edge sample_config) (get_or [] sample_owner_edges owner) = Inr (rows owner)" and
    run: "evaluate_paged_cleartext sample_page_config sample_owner_edges sample_query None = Inr (top_k_results False 2 candidates)" and
    paths: "mset (map path_of candidates) = mset (join_paths (concat (map rows (owners sample_config))) (1, 1, 2))"
    using sample_query_ids by (auto simp: sample_owner_edges_def)
  have "rows ''alice'' = sample_rows" "rows ''bob'' = []"
    using rows sample_traverse by (simp_all add: sample_owner_edges_def get_or_def)
  then have "join_paths (concat (map rows (owners sample_config))) (1, 1, 2) = [(5, 9, 7, 3)]"
    by (simp add: join_paths_def sample_rows_def hop_rows_def row_key_def row_target_def join_pair_def)
  with paths have "mset (map path_of candidates) = {#(5, 9, 7, 3)#}" by (simp only: mset.simps)
  then have "map path_of candidates = [(5, 9, 7, 3)]" by (simp only: mset_single_iff)
  with run show ?thesis by (intro exI [of _ candidates] conjI)
qed

text \<open>
  C20: The two backends answer alike.  On the same files and query, whenever the packed scan
  accepts the files within its fanouts and the relation-paged layout within its page bounds, the
  two oracles return the same validity bits and scores at every rank, with and without
  suppression of duplicate terminals; only ties may name different evidence.
\<close>

theorem paged_matches_scan:
  assumes "page_config_ok c"
    and "distinct (map fst owner_edges)" and "fst ` set owner_edges = set (owners (base c))"
    and "query_ids (base c) query = Inr ids"
    and "\<And>owner. owner \<in> set (owners (base c)) \<Longrightarrow>
      is_ok (build_owner_page_layout c owner (get_or [] owner_edges owner)) \<and>
      is_ok (packed_owner_vector (base c) owner (get_or [] owner_edges owner))"
    and "global_frontier (pages c) \<noteq> None \<Longrightarrow> is_ok (check_global_frontier c owner_edges)"
  shows "\<exists>paged scan.
      evaluate_paged_cleartext c owner_edges query None = Inr paged \<and>
      evaluate_cleartext (base c) owner_edges query = Inr scan \<and>
      map (\<lambda>r. (valid r, score r)) paged = map (\<lambda>r. (valid r, score r)) scan"
proof -
  from assms(1) have v: "valid_config (base c)" and pk: "packable_config (base c)" by (simp_all add: page_config_ok_def)
  define rows where "rows owner = projr (traverse (validated_edge (base c)) (get_or [] owner_edges owner))" for owner
  have rows: "traverse (validated_edge (base c)) (get_or [] owner_edges owner) = Inr (rows owner)"
      "sources_fit (base c) (rows owner)" "relations_fit (base c) (rows owner)"
    if "owner \<in> set (owners (base c))" for owner
    using assms(5) [OF that] packed_owner_vector_iff [OF v, of owner "get_or [] owner_edges owner"]
    by (auto simp: is_ok_iff rows_def)
  have plain: "traverse (plain_edge (base c)) (get_or [] owner_edges owner) = Inr (rows owner) \<and>
      sources_fit (base c) (rows owner) \<and> relations_fit (base c) (rows owner)"
    if "owner \<in> set (owners (base c))" for owner
    using rows [OF that] traverse_validated_plain [OF v pk] by simp
  obtain paged where p: "evaluate_paged_cleartext c owner_edges query None =
        Inr (top_k_results (deduplicate_terminal_answers (base c)) (top_k (base c)) paged)"
      "mset (map path_of paged) = mset (join_paths (concat (map rows (owners (base c)))) ids)"
    using evaluate_paged_run [OF assms(1-4) conjunct1 [OF assms(5)] assms(6) rows(1)] by blast
  obtain scan where s: "evaluate_cleartext (base c) owner_edges query =
        Inr (top_k_results (deduplicate_terminal_answers (base c)) (top_k (base c)) scan)"
      "map path_of scan = join_paths (concat (map rows (owners (base c)))) ids"
    using evaluate_cleartext_run [OF v assms(3,4) plain] by blast
  let ?rank = "\<lambda>(n, l, r, t). (- n, t) :: int \<times> int"
  have "mset (map rank_pair cands) = image_mset ?rank (mset (map path_of cands))" for cands
    by (simp add: image_mset.compositionality comp_def rank_pair_def [abs_def] path_of_def)
  then have "mset (map rank_pair paged) = mset (map rank_pair scan)"
    by (simp only: p(2) s(2))
  from top_k_scores_cong [OF this valid_top_k(1) [OF v]] p(1) s(1) show ?thesis by simp
qed

theorem paged_matches_scan_witness:
  "\<exists>paged scan. evaluate_paged_cleartext sample_page_config sample_owner_edges sample_query None = Inr paged \<and>
     evaluate_cleartext sample_config sample_owner_edges sample_query = Inr scan \<and>
     map (\<lambda>r. (valid r, score r)) paged = map (\<lambda>r. (valid r, score r)) scan"
  using paged_matches_scan [OF sample_page_ok _ _ _ sample_built sample_checked, of sample_query "(1, 1, 2)"] sample_query_ids
  by (simp add: sample_owner_edges_def)

end
