(* ===== verification/Page_Scan.thy ===== *)
theory Page_Scan
  imports Page_Circuit Scan_Pipeline Paged_Join
begin

text \<open>
  The scans of the generated relation-paged circuit, one by one: each reads exactly the rows its
  secret addresses name, and the batched, folded and per-offset forms read the same.
\<close>

section \<open>Chunks\<close>

lemma concat_upt_chunks: "concat (map (\<lambda>i. [i * k..<min (i * k + k) n]) [0..<m]) = [0..<min (m * k) n]"
proof (induction m)
  case (Suc m)
  then show ?case
  proof (cases "m * k \<le> n")
    case True
    then obtain d where d: "min (m * k + k) n = m * k + d" using le_Suc_ex [of "m * k" "min (m * k + k) n"] by auto
    have "[0..<m * k] @ [m * k..<m * k + d] = [0..<m * k + d]" using upt_add_eq_append [of 0 "m * k" d] by simp
    moreover have "min (Suc m * k) n = m * k + d" using d by (simp add: add.commute)
    ultimately show ?thesis using Suc True by (simp only: upt_Suc_append [OF le0] map_append concat_append d min_absorb1 list.map concat.simps append_Nil2)
  qed (simp add: min_def)
qed simp

lemma chunks_upt:
  assumes "0 < k"
  shows "concat (map (\<lambda>(start, stop). [start..<stop]) (chunks n k)) = [0..<n]"
proof -
  have "n \<le> (n + k - 1) div k * k"
  proof -
    have "(n + k - 1) mod k < k" using assms by simp
    then show ?thesis using div_mult_mod_eq [of "n + k - 1" k] assms by linarith
  qed
  then show ?thesis using concat_upt_chunks [of k n "(n + k - 1) div k"] by (simp add: chunks_def comp_def)
qed

lemma concat_chunks:
  assumes "0 < k"
  shows "concat (map (\<lambda>(start, stop). concat (map f [start..<stop])) (chunks n k)) = concat (map f [0..<n])"
proof -
  have "concat (map (\<lambda>(start, stop). concat (map f [start..<stop])) cs) =
      concat (map f (concat (map (\<lambda>(start, stop). [start..<stop]) cs)))" for cs
    by (induction cs) (auto split: prod.split)
  with chunks_upt [OF assms] show ?thesis by simp
qed

section \<open>Scans over lanes\<close>

text \<open>
  A scan reads several lanes at once: a lane is a secret row number and what each row offers the
  lane.
\<close>

type_synonym lane = "int \<times> (nat \<Rightarrow> int list)"

definition lanes_row :: "mpc_ops \<Rightarrow> nat \<Rightarrow> lane list \<Rightarrow> nat \<Rightarrow> int list" where
  "lanes_row ops k lanes row =
     concat (map (\<lambda>(a, f). map (m_mul ops (m_demux ops (m_bits ops k a) ! row)) (f row)) lanes)"

definition lane_ok :: "int \<Rightarrow> nat \<Rightarrow> nat \<Rightarrow> lane \<Rightarrow> bool" where
  "lane_ok p n m = (\<lambda>(a, f). 0 \<le> a \<and> a < int n \<and> (\<forall>row < n. length (f row) = m \<and> list_all (in_prime p) (f row)))"

lemma select_row_lanes:
  "select_row ops (selectors_for ops k addresses) row (cells row) = lanes_row ops k (map (\<lambda>a. (a, cells)) addresses) row"
  by (simp add: select_row_def selectors_for_def lanes_row_def comp_def)

lemma map_sum_rows_cong: "(\<And>i. i < n \<Longrightarrow> f i = g i) \<Longrightarrow> map_sum_rows ops n width f = map_sum_rows ops n width g"
  unfolding map_sum_rows_def by (intro fold_cong) auto

definition matrix_ok :: "int \<Rightarrow> nat \<Rightarrow> nat \<Rightarrow> int list list \<Rightarrow> bool" where
  "matrix_ok p rows columns m \<longleftrightarrow>
     length m = rows \<and> (\<forall>row < rows. length (m ! row) = columns \<and> list_all (in_prime p) (m ! row))"

lemma index_covers:
  assumes "0 \<le> n"
  shows "n \<le> 2 ^ max 1 (bit_length (n - 1))"
proof (cases "n = 0")
  case False
  have "n - 1 < 2 ^ bit_length (n - 1)" using assms False by (intro bit_length_less) simp
  also have "\<dots> \<le> (2 :: int) ^ max 1 (bit_length (n - 1))" by (intro power_increasing) simp_all
  finally show ?thesis by linarith
qed simp

context mpc_machine
begin

lemma demux_at:
  assumes "k \<le> w" and "int n \<le> 2 ^ k" and "0 \<le> a" and "a < int n" and "row < n"
  shows "m_demux ops (m_bits ops k a) ! row = flag (int row = a)"
proof -
  have "a < 2 ^ k" using assms(2,4) by linarith
  then have a: "in_prime (2 ^ k) a" "take_bit k a = a"
    using assms(3) by (simp_all add: in_prime_def take_bit_int_eq_self)
  have "int row < 2 ^ k" using assms(2,5) by linarith
  then have "row < 2 ^ k" by (simp flip: of_nat_less_iff)
  then show ?thesis
    using bits [OF a(1) assms(1)] demux [OF set_bits_of] by (simp add: bits_value_bits_of a(2))
qed

lemma add_vec_zero:
  assumes "length xs = m" and "list_all (in_prime p) xs"
  shows "add_vec ops xs (replicate m 0) = xs" and "add_vec ops (replicate m 0) xs = xs"
  using assms by (auto intro!: nth_equalityI simp: add_vec_def list_all_length)

lemma lanes_row_at:
  assumes "k \<le> w" and "int n \<le> 2 ^ k" and "\<And>lane. lane \<in> set lanes \<Longrightarrow> lane_ok p n m lane" and "row < n"
  shows "lanes_row ops k lanes row = concat (map (\<lambda>(a, f). if nat a = row then f row else replicate m 0) lanes)"
  unfolding lanes_row_def
proof (intro arg_cong [where f = concat] map_cong refl)
  fix lane assume "lane \<in> set lanes"
  with assms(3) obtain a f where lane: "lane = (a, f)" "lane_ok p n m (a, f)" by (cases lane) auto
  then have a: "0 \<le> a" "a < int n" and f: "length (f row) = m" "list_all (in_prime p) (f row)"
    using assms(4) by (simp_all add: lane_ok_def)
  have "map (m_mul ops (flag (int row = a))) (f row) = map (\<lambda>x. if int row = a then x else 0) (f row)"
    using f(2) by (intro map_cong refl mul_flag) (simp add: list_all_iff)
  also have "\<dots> = (if nat a = row then f row else replicate m 0)"
  proof -
    have "int row = a \<longleftrightarrow> nat a = row" using a(1) by auto
    then show ?thesis using f(1) by (simp add: map_replicate_const)
  qed
  finally show "(case lane of (a, f) \<Rightarrow> map (m_mul ops (m_demux ops (m_bits ops k a) ! row)) (f row)) =
      (case lane of (a, f) \<Rightarrow> if nat a = row then f row else replicate m 0)"
    using demux_at [OF assms(1,2) a assms(4)] by (simp add: lane)
qed

lemma lanes_read:
  assumes "k \<le> w" and "int n \<le> 2 ^ k" and lanes: "\<And>lane. lane \<in> set lanes \<Longrightarrow> lane_ok p n m lane"
  shows "map_sum_rows ops n (length lanes * m) (lanes_row ops k lanes) = concat (map (\<lambda>(a, f). f (nat a)) lanes)"
proof -
  let ?part = "\<lambda>j (a, f). if nat a < j then f (nat a) else replicate m (0 :: int)"
  have "fold (\<lambda>i total. add_vec ops total (lanes_row ops k lanes i)) [0..<j] (replicate (length lanes * m) 0) =
      concat (map (?part j) lanes)" if "j \<le> n" for j
    using that
  proof (induction j)
    case 0
    have "replicate (length lanes * m) 0 = concat (map (\<lambda>lane. replicate m (0 :: int)) lanes)"
      by (induction lanes) (simp_all add: replicate_add)
    then show ?case by (simp add: case_prod_unfold)
  next
    case (Suc j)
    then have j: "j < n" by simp
    have "add_vec ops (concat (map (?part j) lanes)) (concat (map (\<lambda>(a, f). if nat a = j then f j else replicate m 0) lanes)) =
        concat (map (\<lambda>lane. add_vec ops (?part j lane) (case lane of (a, f) \<Rightarrow> if nat a = j then f j else replicate m 0)) lanes)"
      unfolding add_vec_def
    proof (rule zip_concat_maps)
      fix lane assume "lane \<in> set lanes"
      with lanes [of lane] j show "length (?part j lane) = length (case lane of (a, f) \<Rightarrow> if nat a = j then f j else replicate m 0)"
        by (auto simp: lane_ok_def)
    qed
    also have "\<dots> = concat (map (?part (Suc j)) lanes)"
    proof (intro arg_cong [where f = concat] map_cong refl)
      fix lane assume "lane \<in> set lanes"
      with lanes obtain a f where lane: "lane = (a, f)" "lane_ok p n m (a, f)" by (cases lane) auto
      then have f: "length (f row) = m" "list_all (in_prime p) (f row)" if "row < n" for row
        using that by (simp_all add: lane_ok_def)
      have z: "add_vec ops (replicate m 0) (replicate m 0) = replicate m 0"
        by (rule add_vec_zero) (simp_all add: list_all_iff)
      show "add_vec ops (?part j lane) (case lane of (a, f) \<Rightarrow> if nat a = j then f j else replicate m 0) = ?part (Suc j) lane"
        using add_vec_zero(1) [OF f(1) f(2), of "nat a"] add_vec_zero(2) [OF f(1) [OF j] f(2) [OF j]] z j
        by (auto simp: lane(1) less_Suc_eq)
    qed
    finally show ?case using Suc lanes_row_at [OF assms j] by simp
  qed
  from this [of n] have "map_sum_rows ops n (length lanes * m) (lanes_row ops k lanes) = concat (map (?part n) lanes)"
    by (simp add: map_sum_rows_def)
  also have "\<dots> = concat (map (\<lambda>(a, f). f (nat a)) lanes)"
  proof (intro arg_cong [where f = concat] map_cong refl)
    fix lane assume "lane \<in> set lanes"
    with lanes [of lane] show "?part n lane = (case lane of (a, f) \<Rightarrow> f (nat a))"
      by (cases lane) (auto simp: lane_ok_def nat_less_iff)
  qed
  finally show ?thesis .
qed

text \<open>One table, one width.\<close>

lemma table_read:
  assumes "k \<le> w" and "int n \<le> 2 ^ k" and "\<And>a. a \<in> set addresses \<Longrightarrow> 0 \<le> a \<and> a < int n"
    and "\<And>row. row < n \<Longrightarrow> length (cells row) = m \<and> list_all (in_prime p) (cells row)"
  shows "map_sum_rows ops n (length addresses * m) (\<lambda>row. select_row ops (selectors_for ops k addresses) row (cells row)) =
    concat (map (\<lambda>a. cells (nat a)) addresses)"
proof -
  have "lane_ok p n m lane" if "lane \<in> set (map (\<lambda>a. (a, cells)) addresses)" for lane
    using that assms(3,4) by (auto simp: lane_ok_def)
  from lanes_read [where lanes = "map (\<lambda>a. (a, cells)) addresses" and m = m, OF assms(1,2) this] show ?thesis
    by (simp add: select_row_lanes comp_def)
qed

end

section \<open>The widths of the program\<close>

text \<open>The directory is the dense one: neither hashed nor type-blocked.\<close>

definition dense_config :: "page_config \<Rightarrow> bool" where
  "dense_config c \<longleftrightarrow> type_blocks c = None \<and> directory_buckets (pages c) = None"

definition row_count :: "page_config \<Rightarrow> nat" where
  "row_count c = nat (entity_count (base c)) * length (relations (base c))"

lemma dense_simps [simp]:
  assumes "dense_config c"
  shows "uses_hybrid_directory c \<longleftrightarrow> False" and "uses_compact_directory (pages c) \<longleftrightarrow> False"
    and "directory_rows c = Inr (int (row_count c))" and "public_rows c = int (row_count c)"
  using assms entity_count_pos [of "base c"]
  by (simp_all add: dense_config_def uses_hybrid_directory_def uses_compact_directory_def directory_rows_def
      public_rows_def dense_directory_rows_def relation_count_def row_count_def)

lemma bit_length_le:
  assumes "0 \<le> x" and "x < 2 ^ n"
  shows "bit_length x \<le> n"
proof (cases "x = 0")
  case False
  then have "2 ^ (bit_length x - 1) \<le> nat x"
    using two_power_bit_len_le [of "nat x"] assms(1) by (simp add: bit_length_def)
  then have "int (2 ^ (bit_length x - 1)) \<le> int (nat x)" by (simp only: of_nat_le_iff)
  then have "(2 :: int) ^ (bit_length x - 1) \<le> x" using assms(1) by simp
  also have "x < 2 ^ n" by (rule assms(2))
  finally have "bit_length x - 1 < n" by simp
  then show ?thesis by simp
qed (simp add: bit_length_def)

lemma relation_width:
  assumes "valid_config c"
  shows "int (length (relations c)) < 2 ^ (packing_widths c ! 1)"
proof -
  have "1 \<le> int (length (relations c))" using valid_relations [OF assms] by (cases "relations c") simp_all
  then have "Max (snd ` set (relations c)) = int (length (relations c))"
    unfolding valid_relation_ids(2) [OF assms] by (intro Max_eqI) auto
  then have "int (length (relations c)) < 2 ^ bit_length (Max (set (map snd (relations c))))"
    using bit_length_less [of "int (length (relations c))"] by simp
  also have "\<dots> \<le> 2 ^ (packing_widths c ! 1)" by (intro power_increasing) (simp_all add: packing_widths_def)
  finally show ?thesis .
qed

lemma page_widths:
  assumes v: "valid_config (base c)" and w: "packed_edge_bits (base c) \<le> w"
  shows "ent_index_bits c \<le> w" and "rel_index_bits c \<le> w" and "relation_count c < 2 ^ w" and "entity_count (base c) < 2 ^ w"
    and "int (row_count c) < 2 ^ w" and "dense_config c \<Longrightarrow> dir_index_bits c \<le> w"
proof -
  let ?a = "packing_widths (base c) ! 0" and ?b = "packing_widths (base c) ! 1"
  have le: "?a + ?b < w" using w by (simp add: packed_edge_bits_sum)
  show "ent_index_bits c \<le> w" using le by (simp add: ent_index_bits_def packing_widths_def)
  have R: "relation_count c < 2 ^ ?b" using relation_width [OF v] by (simp add: relation_count_def)
  have R0: "0 < relation_count c" using valid_relations [OF v] by (simp add: relation_count_def)
  have "bit_length (relation_count c - 1) \<le> ?b" using R R0 by (intro bit_length_le) simp_all
  then show "rel_index_bits c \<le> w" using le by (auto simp: rel_index_bits_def packing_widths_def)
  show "relation_count c < 2 ^ w" using below_wide [of "relation_count c" ?b w] R le by simp
  show "entity_count (base c) < 2 ^ w" using below_wide [OF entity_count_fits, of "base c" w] le by simp
  have "int (row_count c) = entity_count (base c) * relation_count c"
    using entity_count_pos [of "base c"] by (simp add: row_count_def relation_count_def)
  also have "\<dots> \<le> 2 ^ ?a * 2 ^ ?b"
    using entity_count_fits [of "base c"] R R0 entity_count_pos [of "base c"] by (intro mult_mono) simp_all
  finally have rows: "int (row_count c) \<le> 2 ^ (?a + ?b)" by (simp add: power_add)
  with below_wide [OF this le] show "int (row_count c) < 2 ^ w" by blast
  have "0 < int (row_count c)"
    using entity_count_pos [of "base c"] valid_relations [OF v] by (simp add: row_count_def)
  with rows have "bit_length (int (row_count c) - 1) \<le> ?a + ?b" by (intro bit_length_le) linarith+
  moreover have "1 \<le> ?a" by (simp add: packing_widths_def)
  ultimately show "dir_index_bits c \<le> w" if "dense_config c" using le that by (simp add: dir_index_bits_def)
qed

lemma index_covers_count:
  "int (row_count c) \<le> 2 ^ max 1 (bit_length (int (row_count c) - 1))"
  "entity_count (base c) \<le> 2 ^ ent_index_bits c" "relation_count c \<le> 2 ^ rel_index_bits c"
  using index_covers [of "int (row_count c)"] index_covers [of "entity_count (base c)"] index_covers [of "relation_count c"]
    entity_count_pos [of "base c"]
  by (simp_all add: ent_index_bits_def rel_index_bits_def relation_count_def)

section \<open>Directory reads\<close>

context mpc_machine
begin

lemma relation_guard_spec:
  assumes "valid_config (base c)" and "packed_edge_bits (base c) \<le> w" and "1 \<le> r" and "r \<le> relation_count c"
  shows "relation_guard ops c r = 1"
proof -
  have "in_prime (2 ^ w) r" "in_prime (2 ^ w) (relation_count c)"
    using page_widths(3) [OF assms(1,2)] assms(3,4) by (simp_all add: in_prime_def)
  with less [of "relation_count c" r] show ?thesis
    using assms(3,4) small by (simp add: relation_guard_def m_le_def)
qed

lemma entity_guard_spec:
  assumes "valid_config (base c)" and "packed_edge_bits (base c) \<le> w" and "0 \<le> e" and "e < entity_count (base c)"
  shows "entity_guard ops c e = flag (e \<noteq> 0)"
proof -
  have "in_prime (2 ^ w) e" "in_prime (2 ^ w) (entity_count (base c))"
    using page_widths(4) [OF assms(1,2)] assms(3,4) by (simp_all add: in_prime_def)
  with less [of e "entity_count (base c)"] mul_flags [of "e \<noteq> 0" True] show ?thesis
    using assms(3,4) small by (simp add: entity_guard_def)
qed

lemma dense_address_spec:
  assumes v: "valid_config (base c)" and bits: "packed_edge_bits (base c) \<le> w"
    and e: "0 \<le> e" "e < entity_count (base c)" and r: "1 \<le> r" "r \<le> relation_count c"
  shows "dense_address ops c e r = (flag (e \<noteq> 0), if e = 0 then 0 else e * relation_count c + (r - 1))"
proof -
  let ?R = "relation_count c"
  have rows: "entity_count (base c) * ?R < 2 ^ w"
    using page_widths(5) [OF v bits] entity_count_pos [of "base c"] by (simp add: row_count_def relation_count_def)
  have "(e + 1) * ?R \<le> entity_count (base c) * ?R" using e r by (intro mult_right_mono) simp_all
  then have top: "e * ?R + ?R \<le> entity_count (base c) * ?R" by (simp add: algebra_simps)
  have nn: "0 \<le> e * ?R" using e r by simp
  have in_p: "in_prime p x" if "0 \<le> x" "x \<le> e * ?R + ?R" for x
    using that top rows by (intro small) (simp add: in_prime_def)
  have "e \<le> e * ?R" using e r by (metis mult_left_mono mult.right_neutral order_trans)
  then have "in_prime p e" "in_prime p ?R" "in_prime p r" "in_prime p (e * ?R)" "in_prime p (e * ?R + r)" "in_prime p (e * ?R + r - 1)"
    using e r nn by (auto intro!: in_p)
  then have "m_mul ops e ?R = e * ?R" "m_add ops (e * ?R) r = e * ?R + r" "m_sub ops (e * ?R + r) 1 = e * ?R + r - 1"
    by (simp_all add: mul add sub in_prime_mod)
  then show ?thesis
    using relation_guard_spec [OF v bits r] entity_guard_spec [OF v bits e] mul_flags [of "e \<noteq> 0" True]
      \<open>in_prime p (e * ?R + r - 1)\<close> select [of "e * ?R + r - 1" 0 "e \<noteq> 0"]
    by (simp add: dense_address_def Let_def)
qed

lemma relation_selector_spec:
  assumes v: "valid_config (base c)" and bits: "packed_edge_bits (base c) \<le> w" and r: "1 \<le> r" "r \<le> relation_count c"
  shows "relation_selector ops c r (relation_guard ops c r) = m_demux ops (m_bits ops (rel_index_bits c) (r - 1))"
proof -
  have "in_prime (2 ^ w) r" "in_prime (2 ^ w) (r - 1)"
    using page_widths(3) [OF v bits] r by (simp_all add: in_prime_def)
  then have "in_prime p r" "in_prime p (r - 1)" by (simp_all add: small)
  then show ?thesis
    using relation_guard_spec [OF v bits r] by (simp add: relation_selector_def sub in_prime_mod)
qed

lemma read_directory_spec:
  assumes v: "valid_config (base c)" and bits: "packed_edge_bits (base c) \<le> w" and d: "dense_config c"
    and dir: "matrix_ok p (row_count c) (nat (directory_columns c)) dir"
    and as: "\<And>a. a \<in> set addresses \<Longrightarrow> 0 \<le> a \<and> a < int (row_count c)"
  shows "read_directory ops c dir addresses = concat (map (\<lambda>a. dir ! nat a) addresses)"
  using table_read [where cells = "\<lambda>row. dir ! row" and m = "nat (directory_columns c)", OF page_widths(6) [OF v bits d] _ as]
    dir index_covers_count(1) [of c] d
  by (simp add: read_directory_def matrix_ok_def dir_index_bits_def Let_def)

lemma fold_directory_spec:
  assumes v: "valid_config (base c)" and bits: "packed_edge_bits (base c) \<le> w"
    and dir: "matrix_ok p (row_count c) (nat (directory_columns c)) dir" and r: "1 \<le> r" "r \<le> relation_count c"
  shows "fold_directory ops c dir r (relation_guard ops c r) =
    concat (map (\<lambda>e. dir ! (e * nat (relation_count c) + nat (r - 1))) [0..<nat (entity_count (base c))])"
proof -
  let ?R = "nat (relation_count c)" and ?E = "nat (entity_count (base c))" and ?C = "nat (directory_columns c)"
  let ?lane = "\<lambda>start stop. (r - 1, \<lambda>relation_index. concat (map (\<lambda>e. dir ! (e * ?R + relation_index)) [start..<stop]))"
  have cell: "length (dir ! (e * ?R + i)) = ?C \<and> list_all (in_prime p) (dir ! (e * ?R + i))" if "e < ?E" "i < ?R" for e i
    using dir row_index_less [OF that] by (simp add: matrix_ok_def row_count_def relation_count_def)
  have piece: "map_sum_rows ops ?R ((stop - start) * ?C) (\<lambda>relation_index.
      concat (map (\<lambda>e. map (m_mul ops (m_demux ops (m_bits ops (rel_index_bits c) (r - 1)) ! relation_index))
        (dir ! (e * ?R + relation_index))) [start..<stop])) =
      concat (map (\<lambda>e. dir ! (e * ?R + nat (r - 1))) [start..<stop])" if "stop \<le> ?E" for start stop
  proof -
    have "lane_ok p ?R ((stop - start) * ?C) (?lane start stop)"
    proof -
      have "length (concat (map (\<lambda>e. dir ! (e * ?R + i)) [start..<stop])) = (stop - start) * ?C \<and>
          list_all (in_prime p) (concat (map (\<lambda>e. dir ! (e * ?R + i)) [start..<stop]))" if "i < ?R" for i
      proof -
        have "length (dir ! (e * ?R + i)) = ?C \<and> list_all (in_prime p) (dir ! (e * ?R + i))" if "e \<in> set [start..<stop]" for e
          using that \<open>stop \<le> ?E\<close> by (intro cell [OF _ \<open>i < ?R\<close>]) simp
        then show ?thesis by (subst length_concat_uniform [of _ ?C]) (auto simp: list_all_iff simp del: set_upt)
      qed
      with r show ?thesis by (simp add: lane_ok_def)
    qed
    with lanes_read [where lanes = "[?lane start stop]", OF page_widths(2) [OF v bits], of ?R "(stop - start) * ?C"]
      index_covers_count(3) [of c] r
    show ?thesis by (simp add: lanes_row_def [abs_def] map_concat comp_def)
  qed
  have "fold_directory ops c dir r (relation_guard ops c r) =
      concat (map (\<lambda>(start, stop). concat (map (\<lambda>e. dir ! (e * ?R + nat (r - 1))) [start..<stop])) (chunks ?E (fold_chunk c)))"
    unfolding fold_directory_def relation_selector_spec [OF v bits r] Let_def
  proof (intro arg_cong [where f = concat] map_cong refl)
    fix piece' assume "piece' \<in> set (chunks ?E (fold_chunk c))"
    then obtain start stop where s: "piece' = (start, stop)" "stop \<le> ?E" by (auto simp: chunks_def)
    show "(case piece' of (start, stop) \<Rightarrow> map_sum_rows ops ?R ((stop - start) * ?C) (\<lambda>relation_index.
      concat (map (\<lambda>e. map (m_mul ops (m_demux ops (m_bits ops (rel_index_bits c) (r - 1)) ! relation_index))
        (dir ! (e * ?R + relation_index))) [start..<stop]))) =
      (case piece' of (start, stop) \<Rightarrow> concat (map (\<lambda>e. dir ! (e * ?R + nat (r - 1))) [start..<stop]))"
      unfolding s(1) prod.case by (rule piece [OF s(2)])
  qed
  also have "\<dots> = concat (map (\<lambda>e. dir ! (e * ?R + nat (r - 1))) [0..<?E])"
    by (rule concat_chunks) (simp add: fold_chunk_def)
  finally show ?thesis .
qed

lemma read_folded_spec:
  assumes v: "valid_config (base c)" and bits: "packed_edge_bits (base c) \<le> w"
    and dir: "matrix_ok p (row_count c) (nat (directory_columns c)) dir" and r: "1 \<le> r" "r \<le> relation_count c"
    and es: "\<And>e. e \<in> set ents \<Longrightarrow> 0 \<le> e \<and> e < entity_count (base c)"
  shows "read_folded_directory ops c (fold_directory ops c dir r (relation_guard ops c r)) ents =
    concat (map (\<lambda>e. dir ! (nat e * nat (relation_count c) + nat (r - 1))) ents)"
proof -
  let ?R = "nat (relation_count c)" and ?E = "nat (entity_count (base c))" and ?C = "nat (directory_columns c)"
  let ?g = "\<lambda>e. dir ! (e * ?R + nat (r - 1))"
  have r': "nat (r - 1) < ?R" using r by simp
  have cell: "length (?g e) = ?C \<and> list_all (in_prime p) (?g e)" if "e < ?E" for e
    using dir row_index_less [OF that r'] by (simp add: matrix_ok_def row_count_def relation_count_def)
  have slice: "take ?C (drop (e * ?C) (concat (map ?g [0..<?E]))) = ?g e" if "e < ?E" for e
    using concat_map_slice [where f = ?g and xs = "[0..<?E]" and m = ?C and i = e] cell that by simp
  have "map_sum_rows ops ?E (length ents * ?C) (\<lambda>e. select_row ops (selectors_for ops (ent_index_bits c) ents) e
        (take ?C (drop (e * ?C) (concat (map ?g [0..<?E]))))) =
      map_sum_rows ops ?E (length ents * ?C) (\<lambda>e. select_row ops (selectors_for ops (ent_index_bits c) ents) e (?g e))"
    by (rule map_sum_rows_cong) (simp only: slice)
  also have "\<dots> = concat (map (\<lambda>e. ?g (nat e)) ents)"
    by (rule table_read [OF page_widths(1) [OF v bits]])
      (use index_covers_count(2) [of c] entity_count_pos [of "base c"] es cell in auto)
  finally show ?thesis
    by (simp add: read_folded_directory_def fold_directory_spec [OF v bits dir r] Let_def)
qed

end

section \<open>Packed columns\<close>

text \<open>The descriptors of one row's owners, several to a field element.\<close>

fun stack_value :: "nat \<Rightarrow> int list \<Rightarrow> int" where
  "stack_value width [] = 0"
| "stack_value width (d # ds) = d + 2 ^ width * stack_value width ds"

definition packed_columns :: "page_config \<Rightarrow> int list \<Rightarrow> int list" where
  "packed_columns c ds =
     (let per = nat (owners_per_directory_element c)
      in map (\<lambda>j. stack_value (descriptor_bits (pages c)) (take per (drop (j * per) ds))) [0..<nat (directory_columns c)])"

definition descriptor_ok :: "page_config \<Rightarrow> int \<Rightarrow> bool" where
  "descriptor_ok c d \<longleftrightarrow> 0 \<le> d \<and> d < 2 ^ descriptor_bits (pages c)"

definition bits_fit :: "page_config \<Rightarrow> nat \<Rightarrow> bool" where
  "bits_fit c w \<longleftrightarrow> packed_edge_bits (base c) \<le> w \<and> int (descriptor_bits (pages c)) \<le> field_usable_bits (base c) \<and>
     field_usable_bits (base c) \<le> int w"

lemma stack_value_bounds:
  "list_all (\<lambda>d. 0 \<le> d \<and> d < 2 ^ width) ds \<Longrightarrow> 0 \<le> stack_value width ds \<and> stack_value width ds < 2 ^ (length ds * width)"
proof (induction ds)
  case (Cons d ds)
  then have IH: "0 \<le> stack_value width ds" "stack_value width ds + 1 \<le> 2 ^ (length ds * width)" and d: "0 \<le> d" "d < 2 ^ width"
    by simp_all
  have "2 ^ width * (stack_value width ds + 1) \<le> 2 ^ width * 2 ^ (length ds * width)"
    using IH(2) by (rule mult_left_mono) simp
  then show ?case using IH(1) d by (simp add: power_add algebra_simps)
qed simp

lemma stack_value_nth:
  "list_all (\<lambda>d. 0 \<le> d \<and> d < 2 ^ width) ds \<Longrightarrow> i < length ds \<Longrightarrow>
    take_bit width (drop_bit (i * width) (stack_value width ds)) = ds ! i"
proof (induction ds arbitrary: i)
  case (Cons d ds)
  then have d: "0 \<le> d" "d < 2 ^ width" by simp_all
  have low: "(d + 2 ^ width * stack_value width ds) mod 2 ^ width = d" using d by simp
  have high: "(d + 2 ^ width * stack_value width ds) div 2 ^ width = stack_value width ds" using d by simp
  show ?case
  proof (cases i)
    case 0
    then show ?thesis using low by (simp add: take_bit_eq_mod)
  next
    case (Suc j)
    have "drop_bit (i * width) (stack_value width (d # ds)) =
        drop_bit (j * width) (drop_bit width (d + 2 ^ width * stack_value width ds))"
      by (simp add: Suc drop_bit_drop_bit add.commute)
    also have "drop_bit width (d + 2 ^ width * stack_value width ds) = stack_value width ds"
      using high by (simp add: drop_bit_eq_div)
    finally show ?thesis using Cons Suc by simp
  qed
qed simp

lemma owners_per_element:
  assumes "int (descriptor_bits (pages c)) \<le> field_usable_bits (base c)"
  shows "1 \<le> owners_per_directory_element c"
    and "owners_per_directory_element c * int (descriptor_bits (pages c)) \<le> field_usable_bits (base c)"
    and "packed_directory_bits c = nat (owners_per_directory_element c) * descriptor_bits (pages c)"
proof -
  let ?D = "int (descriptor_bits (pages c))" and ?u = "field_usable_bits (base c)"
  show one: "1 \<le> owners_per_directory_element c" by (simp add: owners_per_directory_element_def)
  have D: "0 < ?D" by (simp add: descriptor_bits_def page_base_bits_def)
  then have "1 \<le> ?u div ?D" using assms by (simp add: zdiv_mono1 [of ?D ?u ?D, simplified])
  then have per: "owners_per_directory_element c = ?u div ?D" by (simp add: owners_per_directory_element_def)
  show le: "owners_per_directory_element c * ?D \<le> ?u"
    unfolding per using D div_mult_mod_eq [of ?u ?D] pos_mod_sign [of ?D ?u] by linarith
  show "packed_directory_bits c = nat (owners_per_directory_element c) * descriptor_bits (pages c)"
    using le one by (simp add: packed_directory_bits_def min_absorb2 nat_mult_distrib)
qed

lemma owner_column:
  assumes fit: "int (descriptor_bits (pages c)) \<le> field_usable_bits (base c)" and len: "length ds = length (owners (base c))"
    and ok: "list_all (descriptor_ok c) ds" and i: "i < length ds"
  defines "per \<equiv> nat (owners_per_directory_element c)"
  shows "directory_slot c (int i) = (int (i div per), int (i mod per * descriptor_bits (pages c)))"
    and "i div per < nat (directory_columns c)"
    and "in_prime (2 ^ packed_directory_bits c) (packed_columns c ds ! (i div per))"
    and "take_bit (descriptor_bits (pages c)) (drop_bit (i mod per * descriptor_bits (pages c)) (packed_columns c ds ! (i div per))) = ds ! i"
    and "i mod per * descriptor_bits (pages c) + descriptor_bits (pages c) \<le> packed_directory_bits c"
proof -
  let ?D = "descriptor_bits (pages c)"
  note one = owners_per_element [OF fit]
  have per: "0 < per" "owners_per_directory_element c = int per" using one(1) by (simp_all add: per_def)
  show "directory_slot c (int i) = (int (i div per), int (i mod per * ?D))"
    by (simp add: directory_slot_def per(2) zdiv_int zmod_int Let_def)
  have "nat (directory_columns c) = (length ds + per - 1) div per"
  proof -
    have "directory_columns c = int ((length ds + per - 1) div per)"
      using per by (simp add: directory_columns_def len zdiv_int of_nat_diff Let_def)
    then show ?thesis by simp
  qed
  moreover have "(i + per) div per \<le> (length ds + per - 1) div per" using i by (intro div_le_mono) simp
  ultimately show col: "i div per < nat (directory_columns c)" using per(1) by simp
  let ?slice = "take per (drop (i div per * per) ds)"
  have cell: "packed_columns c ds ! (i div per) = stack_value ?D ?slice"
    using col by (simp add: packed_columns_def Let_def per_def)
  have slice: "list_all (\<lambda>d. 0 \<le> d \<and> d < 2 ^ ?D) ?slice"
    using ok by (auto simp: list_all_iff descriptor_ok_def dest!: in_set_takeD in_set_dropD)
  have bits: "packed_directory_bits c = per * ?D" using one(3) by (simp add: per_def)
  have "(2 :: int) ^ (length ?slice * ?D) \<le> 2 ^ (per * ?D)" by (intro power_increasing) simp_all
  with stack_value_bounds [OF slice]
  show "in_prime (2 ^ packed_directory_bits c) (packed_columns c ds ! (i div per))"
    unfolding cell bits in_prime_def by linarith
  have split: "i div per * per + i mod per = i" by simp
  then have "i div per * per \<le> length ds" using i by linarith
  from nth_drop [OF this, of "i mod per"] have at: "drop (i div per * per) ds ! (i mod per) = ds ! i" unfolding split .
  have pos: "i mod per < length ?slice" "?slice ! (i mod per) = ds ! i"
    using i per(1) split by (simp_all add: less_diff_conv at)
  from stack_value_nth [OF slice pos(1)] pos(2)
  show "take_bit ?D (drop_bit (i mod per * ?D) (packed_columns c ds ! (i div per))) = ds ! i"
    unfolding cell by simp
  have "Suc (i mod per) * ?D \<le> per * ?D" using per(1) by (intro mult_le_mono1) (simp add: Suc_leI)
  then show "i mod per * ?D + ?D \<le> packed_directory_bits c" unfolding bits by simp
qed

context mpc_machine
begin

lemma descriptor_parts_spec:
  assumes fit: "bits_fit c w" and p: "params_ok (pages c)"
    and x: "in_prime (2 ^ packed_directory_bits c) x" and off: "offset + descriptor_bits (pages c) \<le> packed_directory_bits c"
    and d: "take_bit (descriptor_bits (pages c)) (drop_bit offset x) = d"
  defines "b \<equiv> fst (unpack_descriptor c d)" and "n \<equiv> snd (unpack_descriptor c d)"
  shows "descriptor_parts ops c x offset =
      (flag (b < page_budget (pages c) \<and> n \<le> pages_per_key (pages c)), if b < page_budget (pages c) \<and> n \<le> pages_per_key (pages c) then b else 0, n)"
    and "in_prime (2 ^ w) b" and "in_prime (2 ^ w) n"
proof -
  let ?B = "page_base_bits (pages c)" and ?C = "page_count_bits (pages c)" and ?D = "descriptor_bits (pages c)"
  have D: "?D = ?B + ?C" by (simp add: descriptor_bits_def)
  have Pw: "packed_directory_bits c \<le> w"
  proof -
    have "int (packed_directory_bits c) \<le> field_usable_bits (base c)"
      using owners_per_element [of c] fit by (simp add: bits_fit_def)
    with fit show ?thesis by (simp add: bits_fit_def)
  qed
  moreover have "1 \<le> ?B" "1 \<le> ?C" by (simp_all add: page_base_bits_def page_count_bits_def)
  ultimately have BC: "?B < w" "?C < w" using off D by linarith+
  let ?y = "drop_bit offset x"
  have bits: "take ?D (drop offset (m_bits ops (packed_directory_bits c) x)) = bits_of ?D ?y"
    using bits [OF x Pw] off by (simp add: drop_bits_of take_bits_of min_absorb1)
  have b: "m_compose ops (take ?B (bits_of ?D ?y)) = take_bit ?B ?y"
    using compose [OF set_bits_of] BC by (simp add: take_bits_of bits_value_bits_of D min_absorb1)
  have n: "m_compose ops (drop ?B (bits_of ?D ?y)) = take_bit ?C (drop_bit ?B ?y)"
    using compose [OF set_bits_of] BC by (simp add: drop_bits_of bits_value_bits_of D)
  have bn: "b = take_bit ?B ?y" "n = take_bit ?C (drop_bit ?B ?y)"
    unfolding b_def n_def d [symmetric] unpack_descriptor_def
    by (simp_all add: and_mask_take D min_absorb1 take_bit_drop_bit [symmetric] drop_bit_take_bit)
  have "in_prime (2 ^ ?B) b" "in_prime (2 ^ ?C) n" by (simp_all add: bn in_prime_def)
  then show in_w: "in_prime (2 ^ w) b" "in_prime (2 ^ w) n" using BC by (auto intro: in_prime_widen)
  have budget: "in_prime (2 ^ w) (page_budget (pages c))"
  proof -
    have "page_budget (pages c) \<le> 2 ^ ?B" using index_covers [of "page_budget (pages c)"] p by (simp add: params_ok_def page_base_bits_def)
    from below_wide [OF this BC(1)] show ?thesis using p by (simp add: params_ok_def in_prime_def)
  qed
  have per_key: "in_prime (2 ^ w) (pages_per_key (pages c))"
  proof -
    have "pages_per_key (pages c) < 2 ^ bit_length (pages_per_key (pages c))" using p by (intro bit_length_less) (simp add: params_ok_def)
    also have "\<dots> \<le> 2 ^ ?C" by (intro power_increasing) (simp_all add: page_count_bits_def)
    finally show ?thesis using below_wide [of "pages_per_key (pages c)" ?C w] BC(2) p by (simp add: params_ok_def in_prime_def)
  qed
  have "m_less ops b (page_budget (pages c)) = flag (b < page_budget (pages c))" using less [OF in_w(1) budget] .
  moreover have "m_le ops n (pages_per_key (pages c)) = flag (n \<le> pages_per_key (pages c))"
    using less [OF per_key in_w(2)] by (simp add: m_le_def not_less)
  moreover have "in_prime p b" using small [OF in_w(1)] .
  ultimately show "descriptor_parts ops c x offset =
      (flag (b < page_budget (pages c) \<and> n \<le> pages_per_key (pages c)), if b < page_budget (pages c) \<and> n \<le> pages_per_key (pages c) then b else 0, n)"
    unfolding descriptor_parts_def Let_def bits b n bn(1) [symmetric] bn(2) [symmetric]
    using mul_flags [of "b < page_budget (pages c)" "n \<le> pages_per_key (pages c)"]
      select [of b 0 "b < page_budget (pages c) \<and> n \<le> pages_per_key (pages c)"] by simp
qed

lemma owner_window_spec:
  assumes fit: "bits_fit c w" and p: "params_ok (pages c)" and len: "length ds = length (owners (base c))"
    and ok: "list_all (descriptor_ok c) ds" and i: "i < length ds"
    and d: "v \<Longrightarrow> descriptor_fits c (unpack_descriptor c (ds ! i))"
  shows "owner_window ops c scalar i (packed_columns c ds) (flag v) = (if v then unpack_descriptor c (ds ! i) else (0, 0))"
proof -
  let ?per = "nat (owners_per_directory_element c)"
  obtain b n where u: "unpack_descriptor c (ds ! i) = (b, n)" by fastforce
  have fit': "int (descriptor_bits (pages c)) \<le> field_usable_bits (base c)" using fit by (simp add: bits_fit_def)
  note col = owner_column [OF fit' len ok i]
  note parts = descriptor_parts_spec [OF fit p col(3,5,4), unfolded u fst_conv snd_conv]
  let ?u = "b < page_budget (pages c) \<and> n \<le> pages_per_key (pages c)"
  have in_p: "in_prime p b" "in_prime p n" using parts(2,3) small by simp_all
  have win: "owner_window ops c scalar i (packed_columns c ds) (flag v) =
      (m_if ops (flag v) (if ?u then b else 0) 0,
       if scalar then m_mul ops (flag v) (m_mul ops (flag ?u) n) else m_mul ops (m_mul ops (flag v) (flag ?u)) n)"
    unfolding owner_window_def Let_def col(1) prod.case nat_int parts(1) ..
  show ?thesis
  proof (cases v)
    case True
    then have "?u" using d u by (auto simp: descriptor_fits_def)
    then show ?thesis using True in_p u mul_flags [of True True] unfolding win by simp
  next
    case False
    have "m_mul ops (flag False) (flag ?u) = flag False" using mul_flags [of False ?u] by simp
    then show ?thesis
      using False in_p select [of "if ?u then b else 0" 0 False] unfolding win by simp
  qed
qed

end

section \<open>Windows\<close>

text \<open>A cell of a pool: empty, or the packed record of an edge.\<close>

definition stored_cell :: "page_config \<Rightarrow> int \<Rightarrow> bool" where
  "stored_cell c v \<longleftrightarrow> v = 0 \<or> (\<exists>x. record_ok c x \<and> v = packed_record c x)"

definition pool_ok :: "page_config \<Rightarrow> int list list \<Rightarrow> bool" where
  "pool_ok c pool \<longleftrightarrow> length pool = nat (pool_rows (pages c)) \<and>
     (\<forall>page \<in> set pool. length page = page_width c \<and> list_all (stored_cell c) page)"

definition record_hop :: "page_record \<Rightarrow> hop_cell" where
  "record_hop = (\<lambda>(t, r, e, s). if t = 0 then empty_hop
     else \<lparr>hop_valid = 1, hop_handle = e, hop_score = s, hop_address = t\<rparr>)"

lemma record_hop_zero [simp]: "record_hop zero_record = empty_hop"
  by (simp add: record_hop_def zero_record_def)

lemma hop_valid_record: "hop_valid (record_hop x) = 1 \<longleftrightarrow> fst x \<noteq> 0"
  by (auto simp: record_hop_def empty_hop_def split: prod.split)

text \<open>The records a window of a pool shows, and the pages it shows them from.\<close>

definition window_page :: "page_config \<Rightarrow> int list list \<Rightarrow> int \<times> int \<Rightarrow> nat \<Rightarrow> page_record list" where
  "window_page c pool = (\<lambda>(b, n) k. if int k < n then map (slot_record c) (pool ! (nat b + k)) else replicate (page_width c) zero_record)"

definition window_records :: "page_config \<Rightarrow> int list list \<Rightarrow> int \<times> int \<Rightarrow> page_record list" where
  "window_records c pool bn = concat (map (window_page c pool bn) [0..<nat (pages_per_key (pages c))])"

lemma stored_cell_zero [simp]: "stored_cell c 0"
  by (simp add: stored_cell_def)

lemma zero_packed: "packed_value c (0, 0, 0, 0, 0) = 0" "edge_fits c (0, 0, 0, 0, 0)"
  by (simp_all add: packed_value_def edge_field_list_def packing_widths_def edge_fits_iff)

lemma pool_index:
  assumes "params_ok (pages c)" and "descriptor_fits c (b, n)" and "k < nat (pages_per_key (pages c))"
  shows "nat b + k < nat (pool_rows (pages c))"
  using assms by (auto simp: descriptor_fits_def pool_rows_def)

lemma read_window_records:
  assumes p: "params_ok (pages c)" and pool: "pool_ok c pool" and d: "descriptor_fits c (b, n)"
  shows "read_window c pool b n = Inr (window_records c pool (b, n))"
proof -
  let ?K = "nat (pages_per_key (pages c))"
  have len: "length pool = nat (pool_rows (pages c))" using pool by (simp add: pool_ok_def)
  have rows: "0 < nat (pool_rows (pages c))" using p by (simp add: params_ok_def pool_rows_def)
  have page: "length (pool ! i) = page_width c" "list_all (stored_cell c) (pool ! i)" if "i < length pool" for i
    using pool that by (simp_all add: pool_ok_def)
  have "traverse (\<lambda>page_number.
         let active = page_number < n; page_index = (if active then b + page_number else 0) in
         bindr (list_get pool page_index) (\<lambda>page. traverse (read_slot (base c) active) page)) (map int [0..<?K]) =
      Inr (map (window_page c pool (b, n)) [0..<?K])"
  proof -
    have one: "bindr (list_get pool (if int k < n then b + int k else 0)) (\<lambda>page. traverse (read_slot (base c) (int k < n)) page) =
        Inr (window_page c pool (b, n) k)" if k: "k < ?K" for k
    proof (cases "int k < n")
      case True
      have "nat b + k < length pool" "0 \<le> b" using pool_index [OF p d k] d by (simp_all add: len descriptor_fits_def)
      then have "list_get pool (b + int k) = Inr (pool ! (nat b + k))" by (simp add: list_get_in nat_add_distrib)
      moreover have "traverse (read_slot (base c) True) (pool ! (nat b + k)) = Inr (map (slot_record c) (pool ! (nat b + k)))"
        using page(2) [OF \<open>nat b + k < length pool\<close>]
        by (intro traverse_Inr read_slot_packed) (auto simp: list_all_iff stored_cell_def)
      ultimately show ?thesis using True by (simp add: window_page_def)
    next
      case False
      have "list_get pool 0 = Inr (pool ! 0)" using rows len by (simp add: list_get_in)
      moreover have "traverse (read_slot (base c) False) (pool ! 0) = Inr (map (\<lambda>v. zero_record) (pool ! 0))"
        by (intro traverse_Inr) simp
      ultimately show ?thesis using False page(1) [of 0] rows len by (simp add: window_page_def map_replicate_const)
    qed
    have "map (window_page c pool (b, n)) [0..<?K] = map (\<lambda>i. window_page c pool (b, n) (nat i)) (map int [0..<?K])"
      by simp
    moreover have "traverse (\<lambda>page_number.
         let active = page_number < n; page_index = (if active then b + page_number else 0) in
         bindr (list_get pool page_index) (\<lambda>page. traverse (read_slot (base c) active) page)) (map int [0..<?K]) =
        Inr (map (\<lambda>i. window_page c pool (b, n) (nat i)) (map int [0..<?K]))"
    proof (rule traverse_Inr)
      fix i assume "i \<in> set (map int [0..<?K])"
      then obtain k where k: "i = int k" "k < ?K" by auto
      show "(let active = i < n; page_index = (if active then b + i else 0) in
         bindr (list_get pool page_index) (\<lambda>page. traverse (read_slot (base c) active) page)) = Inr (window_page c pool (b, n) (nat i))"
        unfolding k(1) Let_def nat_int by (rule one [OF k(2)])
    qed
    ultimately show ?thesis by (simp only:)
  qed
  then show ?thesis by (simp add: read_window_def window_records_def)
qed

lemma enumerate_pages:
  assumes "\<And>k. k < K \<Longrightarrow> length (f k) = m"
  shows "map (\<lambda>(i, x). h (i div m) x) (enumerate 0 (concat (map f [0..<K]))) = concat (map (\<lambda>k. map (h k) (f k)) [0..<K])"
  using assms
proof (induction K)
  case (Suc K)
  have len: "length (concat (map f [0..<K])) = K * m"
    using Suc.prems by (subst length_concat_uniform [of _ m]) auto
  have "map (\<lambda>(i, x). h (i div m) x) (enumerate (K * m) (f K)) = map (h K) (f K)"
    using Suc.prems [of K] by (intro nth_equalityI) (simp_all add: nth_enumerate_eq)
  with Suc len show ?case by (simp add: enumerate_append_eq)
qed simp

context mpc_machine
begin

lemma page_cell_spec:
  assumes bits: "packed_edge_bits (base c) \<le> w" and v: "stored_cell c v"
    and wanted: "\<And>r. wanted = Some r \<Longrightarrow> in_prime p r \<and> (a \<and> v \<noteq> 0 \<longrightarrow> fst (snd (slot_record c v)) = r)"
  shows "page_cell ops c wanted (flag a) v = record_hop (if a then slot_record c v else zero_record)"
proof -
  from v obtain t r e s y where f: "edge_fits (base c) (t, r, e, s, flag y)" and pv: "v = packed_value (base c) (t, r, e, s, flag y)"
      and rec: "slot_record c v = (if y then (t, r, e, s) else zero_record)" and vy: "v \<noteq> 0 \<longleftrightarrow> y"
      and t: "t < entity_count (base c)" "y \<Longrightarrow> 1 \<le> t"
  proof (cases "v = 0")
    case True
    then show thesis using that [of 0 0 0 0 False] zero_packed [of "base c"] entity_count_pos [of "base c"] by simp
  next
    case False
    with v obtain x where x: "record_ok c x" "v = packed_record c x" by (auto simp: stored_cell_def)
    obtain t r e s where "x = (t, r, e, s)" by (metis prod.exhaust)
    with x slot_record_packed [OF x(1)] False show thesis
      using that [of t r e s True] by (simp add: record_ok_def packed_record_def)
  qed
  note in_w = legal_in [OF bits f]
  have "in_prime (2 ^ w) s" using in_w(4) by (rule in_prime_widen) simp
  then have in_p: "in_prime p t" "in_prime p r" "in_prime p e" "in_prime p s" using in_w(1-3) small by simp_all
  have unpack: "unpack_secret ops (base c) v = (t, r, e, s, flag y)"
    using unpack_secret_spec [OF bits f] pv by simp
  have lt: "m_less ops t (entity_count (base c)) = flag True"
    using less [OF in_w(1) entity_count_in [OF bits]] t(1) by simp
  have ok: "m_mul ops (m_mul ops (m_mul ops (flag a) (flag y)) (m_neq ops t 0)) (m_less ops t (entity_count (base c))) = flag (a \<and> y \<and> t \<noteq> 0)"
    unfolding lt neq_flag [OF in_p(1) flag_in(2)] by (simp only: mul_flags simp_thms conj_assoc)
  have res: "\<lparr>hop_valid = flag z, hop_handle = m_mul ops (flag z) e, hop_score = m_mul ops (flag z) s, hop_address = m_mul ops (flag z) t\<rparr> =
      (if z then \<lparr>hop_valid = 1, hop_handle = e, hop_score = s, hop_address = t\<rparr> else empty_hop)" for z
    using in_p by (simp add: empty_hop_def)
  have gate: "(case wanted of None \<Rightarrow> flag (a \<and> y \<and> t \<noteq> 0) | Some r' \<Rightarrow> m_mul ops (flag (a \<and> y \<and> t \<noteq> 0)) (m_eq ops r r')) = flag (a \<and> y \<and> t \<noteq> 0)"
  proof (cases wanted)
    case (Some r')
    have "m_eq ops r r' = flag (r = r')" using eq [OF in_p(2)] wanted [OF Some] by blast
    moreover have "a \<and> y \<Longrightarrow> r = r'" using wanted [OF Some] vy rec by simp
    ultimately show ?thesis using Some mul_flags [of "a \<and> y \<and> t \<noteq> 0" "r = r'"] by (cases "a \<and> y") auto
  qed simp
  have "page_cell ops c wanted (flag a) v =
      (if a \<and> y \<and> t \<noteq> 0 then \<lparr>hop_valid = 1, hop_handle = e, hop_score = s, hop_address = t\<rparr> else empty_hop)"
    unfolding page_cell_def unpack prod.case Let_def ok gate by (rule res)
  then show ?thesis using rec t(2) by (auto simp: record_hop_def zero_record_def)
qed

lemma window_slots_spec:
  assumes bits: "bits_fit c w" and p: "params_ok (pages c)" and pool: "pool_ok c pool"
    and d: "descriptor_fits c (b, n)" and n: "in_prime (2 ^ w) (pages_per_key (pages c))"
    and wanted: "\<And>r x. wanted = Some r \<Longrightarrow> in_prime p r \<and> (x \<in> set (window_records c pool (b, n)) \<and> fst x \<noteq> 0 \<longrightarrow> fst (snd x) = r)"
  shows "window_slots ops c wanted n (concat (map (\<lambda>k. pool ! (nat b + k)) [0..<nat (pages_per_key (pages c))])) =
    map record_hop (window_records c pool (b, n))"
proof -
  let ?K = "nat (pages_per_key (pages c))" and ?m = "nat (page_size (pages c))"
  have len: "length pool = nat (pool_rows (pages c))" using pool by (simp add: pool_ok_def)
  have page: "length (pool ! (nat b + k)) = ?m" "list_all (stored_cell c) (pool ! (nat b + k))" if "k < ?K" for k
    using pool pool_index [OF p d that] len by (auto simp: pool_ok_def page_width_def)
  have "window_slots ops c wanted n (concat (map (\<lambda>k. pool ! (nat b + k)) [0..<?K])) =
      concat (map (\<lambda>k. map (\<lambda>v. page_cell ops c wanted (m_less ops (int k) n) v) (pool ! (nat b + k))) [0..<?K])"
    unfolding window_slots_def by (rule enumerate_pages) (rule page(1))
  also have "\<dots> = concat (map (\<lambda>k. map record_hop (window_page c pool (b, n) k)) [0..<?K])"
  proof (intro arg_cong [where f = concat] map_cong refl)
    fix k assume "k \<in> set [0..<?K]"
    then have k: "k < ?K" by simp
    have "int k < pages_per_key (pages c)" using k by simp
    then have "int k < 2 ^ w" "0 \<le> n" "n < 2 ^ w"
      using n d unfolding in_prime_def descriptor_fits_def prod.case by linarith+
    then have "in_prime (2 ^ w) (int k)" "in_prime (2 ^ w) n" unfolding in_prime_def by simp_all
    then have act: "m_less ops (int k) n = flag (int k < n)" by (rule less)
    have cell: "page_cell ops c wanted (flag (int k < n)) v = record_hop (if int k < n then slot_record c v else zero_record)"
      if v: "v \<in> set (pool ! (nat b + k))" for v
    proof (rule page_cell_spec)
      show "packed_edge_bits (base c) \<le> w" using bits by (simp add: bits_fit_def)
      show st: "stored_cell c v" using page(2) [OF k] v by (simp add: list_all_iff)
      fix r assume r: "wanted = Some r"
      have "int k < n \<Longrightarrow> slot_record c v \<in> set (window_records c pool (b, n))"
        using k v by (auto simp: window_records_def window_page_def intro!: bexI [of _ k])
      moreover have "v \<noteq> 0 \<Longrightarrow> fst (slot_record c v) \<noteq> 0"
        using st slot_record_packed by (auto simp: stored_cell_def record_ok_def)
      ultimately show "in_prime p r \<and> (int k < n \<and> v \<noteq> 0 \<longrightarrow> fst (snd (slot_record c v)) = r)"
        using wanted [OF r] by blast
    qed
    show "map (\<lambda>v. page_cell ops c wanted (m_less ops (int k) n) v) (pool ! (nat b + k)) = map record_hop (window_page c pool (b, n) k)"
      unfolding act window_page_def prod.case
      using cell page(1) [OF k] by (auto simp: page_width_def map_replicate_const cong: map_cong)
  qed
  also have "\<dots> = map record_hop (window_records c pool (b, n))"
    by (simp add: window_records_def map_concat comp_def)
  finally show ?thesis .
qed

end

section \<open>Reading the windows of all owners\<close>

lemma concat_index_map: "length xs = n \<Longrightarrow> map (\<lambda>i. f (xs ! i)) [0..<n] = map f xs"
  by (intro nth_equalityI) auto

lemma concat_of_concats: "concat (map f (concat xss)) = concat (map (\<lambda>xs. concat (map f xs)) xss)"
  by (induction xss) simp_all

text \<open>One scan per offset, put at_page together address by address.\<close>

lemma regroup_offsets:
  assumes "\<And>k x. k < K \<Longrightarrow> x \<in> set xs \<Longrightarrow> length (f k x) = m"
  shows "concat (map (\<lambda>i. concat (map (\<lambda>part. take m (drop (i * m) part)) (map (\<lambda>k. concat (map (f k) xs)) [0..<K]))) [0..<length xs]) =
    concat (map (\<lambda>x. concat (map (\<lambda>k. f k x) [0..<K])) xs)"
proof -
  have slice: "take m (drop (i * m) (concat (map (f k) xs))) = f k (xs ! i)" if "k < K" "i < length xs" for k i
    using assms that by (intro concat_map_slice) simp_all
  have one: "concat (map (\<lambda>part. take m (drop (i * m) part)) (map (\<lambda>k. concat (map (f k) xs)) [0..<K])) =
      concat (map (\<lambda>k. f k (xs ! i)) [0..<K])" if "i < length xs" for i
    unfolding map_map using slice that by (intro arg_cong [where f = concat] map_cong refl) simp
  have "concat (map (\<lambda>i. concat (map (\<lambda>part. take m (drop (i * m) part)) (map (\<lambda>k. concat (map (f k) xs)) [0..<K]))) [0..<length xs]) =
      concat (map (\<lambda>i. concat (map (\<lambda>k. f k (xs ! i)) [0..<K])) [0..<length xs])"
    by (rule arg_cong [where f = concat], rule map_cong [OF refl], rule one) simp
  then show ?thesis using concat_index_map [of xs "length xs" "\<lambda>x. concat (map (\<lambda>k. f k x) [0..<K])"] by simp
qed

text \<open>The cells of a window, and the window an owner's descriptor opens.\<close>

definition window_at :: "page_config \<Rightarrow> int list list \<Rightarrow> int \<Rightarrow> int list" where
  "window_at c pool b = concat (map (\<lambda>k. pool ! (nat b + k)) [0..<nat (pages_per_key (pages c))])"

definition open_window :: "page_config \<Rightarrow> bool \<Rightarrow> int \<Rightarrow> int \<times> int" where
  "open_window c v d = (if v then unpack_descriptor c d else (0, 0))"

definition base_ok :: "page_config \<Rightarrow> int \<Rightarrow> bool" where
  "base_ok c b \<longleftrightarrow> 0 \<le> b \<and> b < page_budget (pages c)"

lemma lanes_row_concat: "lanes_row ops k (concat laness) row = concat (map (\<lambda>lanes. lanes_row ops k lanes row) laness)"
  by (induction laness) (simp_all add: lanes_row_def)

lemma pools_at:
  assumes "list_all (pool_ok c) pools" and "owner < length pools" and "i < nat (pool_rows (pages c))"
  shows "concat pools ! (owner * nat (pool_rows (pages c)) + i) = pools ! owner ! i"
  by (rule concat_uniform_nth) (use assms in \<open>auto simp: list_all_iff pool_ok_def\<close>)

lemma pool_page:
  assumes "list_all (pool_ok c) pools" and "owner < length pools" and "i < nat (pool_rows (pages c))"
  shows "length (pools ! owner ! i) = nat (page_size (pages c))" and "list_all (stored_cell c) (pools ! owner ! i)"
proof -
  have "pool_ok c (pools ! owner)" using assms(1,2) by (simp add: list_all_length)
  with assms(3) show "length (pools ! owner ! i) = nat (page_size (pages c))" "list_all (stored_cell c) (pools ! owner ! i)"
    by (simp_all add: pool_ok_def page_width_def)
qed

context mpc_machine
begin

lemma stored_cell_in:
  assumes "packed_edge_bits (base c) \<le> w" and "stored_cell c v"
  shows "in_prime p v"
proof (cases "v = 0")
  case False
  with assms(2) obtain x where x: "record_ok c x" "v = packed_record c x" by (auto simp: stored_cell_def)
  then have "in_prime (2 ^ packed_edge_bits (base c)) v"
    using packed_value_bounds by (cases x) (simp add: record_ok_def packed_record_def in_prime_def)
  then show ?thesis using in_prime_widen [OF _ assms(1)] small by blast
qed simp

lemma pool_scan_ok:
  assumes "bits_fit c w" and p: "params_ok (pages c)" and pools: "list_all (pool_ok c) pools" and owner: "owner < length pools"
    and page: "page < nat (page_budget (pages c))"
  shows "length (window_cells c (concat pools) owner page) = nat (pages_per_key (pages c)) * nat (page_size (pages c)) \<and>
      list_all (in_prime p) (window_cells c (concat pools) owner page)"
    and "window_cells c (concat pools) owner page = window_at c (pools ! owner) (int page)"
    and "k < nat (pages_per_key (pages c)) \<Longrightarrow>
      concat pools ! (owner * nat (pool_rows (pages c)) + page + k) = pools ! owner ! (page + k) \<and>
      length (pools ! owner ! (page + k)) = nat (page_size (pages c)) \<and> list_all (in_prime p) (pools ! owner ! (page + k))"
proof -
  let ?K = "nat (pages_per_key (pages c))"
  have idx: "page + k < nat (pool_rows (pages c))" if "k < ?K" for k
    using page that by (simp add: pool_rows_def)
  show cell: "concat pools ! (owner * nat (pool_rows (pages c)) + page + k) = pools ! owner ! (page + k) \<and>
      length (pools ! owner ! (page + k)) = nat (page_size (pages c)) \<and> list_all (in_prime p) (pools ! owner ! (page + k))"
    if "k < ?K" for k
    using pools_at [OF pools owner idx [OF that]] pool_page [OF pools owner idx [OF that]] stored_cell_in assms(1)
    by (auto simp: add.assoc list_all_iff bits_fit_def)
  then show "window_cells c (concat pools) owner page = window_at c (pools ! owner) (int page)"
    unfolding window_cells_def window_at_def by (intro arg_cong [where f = concat] map_cong refl) simp
  moreover have "length (window_at c (pools ! owner) (int page)) = ?K * nat (page_size (pages c))"
    unfolding window_at_def using cell by (subst length_concat_uniform [of _ "nat (page_size (pages c))"]) auto
  moreover have "list_all (in_prime p) (window_at c (pools ! owner) (int page))"
    unfolding window_at_def using cell by (auto simp: list_all_iff)
  ultimately show "length (window_cells c (concat pools) owner page) = ?K * nat (page_size (pages c)) \<and>
      list_all (in_prime p) (window_cells c (concat pools) owner page)" by simp
qed

lemma pool_bits:
  assumes "bits_fit c w" and "params_ok (pages c)"
  shows "pool_index_bits c \<le> w" and "int (nat (page_budget (pages c))) \<le> 2 ^ pool_index_bits c"
proof -
  have "pool_index_bits c = page_base_bits (pages c)" by (simp add: pool_index_bits_def page_base_bits_def)
  moreover have "page_base_bits (pages c) \<le> descriptor_bits (pages c)" by (simp add: descriptor_bits_def)
  moreover have "int (descriptor_bits (pages c)) \<le> int w" using assms(1) by (simp add: bits_fit_def)
  ultimately show "pool_index_bits c \<le> w" by linarith
  show "int (nat (page_budget (pages c))) \<le> 2 ^ pool_index_bits c"
    using index_covers [of "page_budget (pages c)"] assms(2) by (simp add: params_ok_def pool_index_bits_def)
qed

lemma read_page_window_spec:
  assumes fit: "bits_fit c w" and p: "params_ok (pages c)" and pools: "list_all (pool_ok c) pools" and owner: "owner < length pools"
    and bases: "list_all (base_ok c) bases"
  shows "read_page_window ops c per_offset (concat pools) owner bases = concat (map (window_at c (pools ! owner)) bases)"
proof -
  let ?K = "nat (pages_per_key (pages c))" and ?n = "nat (page_budget (pages c))" and ?m = "nat (page_size (pages c))"
  let ?rows = "nat (pool_rows (pages c))"
  have range: "0 \<le> b \<and> b < int ?n" if "b \<in> set bases" for b using bases that by (auto simp: list_all_iff base_ok_def)
  have at_page: "nat b < ?n" "int (nat b) = b" if "b \<in> set bases" for b using range [OF that] by (auto simp: nat_less_iff split: if_splits)
  note bits = pool_bits [OF fit p] and scan = pool_scan_ok [OF fit p pools owner]
  show ?thesis
  proof (cases per_offset)
    case False
    have "read_page_window ops c per_offset (concat pools) owner bases =
        concat (map (\<lambda>b. window_cells c (concat pools) owner (nat b)) bases)"
      using table_read [where cells = "window_cells c (concat pools) owner" and m = "?K * ?m", OF bits range scan(1)] False
      by (simp add: read_page_window_def Let_def)
    also have "\<dots> = concat (map (window_at c (pools ! owner)) bases)"
      using scan(2) [OF at_page(1)] at_page(2) by (intro arg_cong [where f = concat] map_cong refl) simp
    finally show ?thesis .
  next
    case True
    let ?f = "\<lambda>k b. pools ! owner ! (nat b + k)"
    have part: "map_sum_rows ops ?n (length bases * ?m) (\<lambda>page. select_row ops (selectors_for ops (pool_index_bits c) bases) page
        (concat pools ! (owner * ?rows + page + k))) = concat (map (?f k) bases)" if k: "k < ?K" for k
    proof -
      have "map_sum_rows ops ?n (length bases * ?m) (\<lambda>page. select_row ops (selectors_for ops (pool_index_bits c) bases) page
          (concat pools ! (owner * ?rows + page + k))) =
        concat (map (\<lambda>b. concat pools ! (owner * ?rows + nat b + k)) bases)"
        using table_read [where cells = "\<lambda>page. concat pools ! (owner * ?rows + page + k)" and m = ?m, OF bits range] scan(3) [OF _ k] by simp
      also have "\<dots> = concat (map (?f k) bases)"
        using scan(3) [OF at_page(1) k] by (intro arg_cong [where f = concat] map_cong refl) simp
      finally show ?thesis .
    qed
    have "read_page_window ops c per_offset (concat pools) owner bases =
        concat (map (\<lambda>i. concat (map (\<lambda>part. take ?m (drop (i * ?m) part)) (map (\<lambda>k. concat (map (?f k) bases)) [0..<?K]))) [0..<length bases])"
    proof -
      have "map (\<lambda>k. map_sum_rows ops ?n (length bases * ?m) (\<lambda>page. select_row ops (selectors_for ops (pool_index_bits c) bases) page
          (concat pools ! (owner * ?rows + page + k)))) [0..<?K] = map (\<lambda>k. concat (map (?f k) bases)) [0..<?K]"
        by (rule map_cong [OF refl], rule part) simp
      then show ?thesis unfolding read_page_window_def Let_def if_P [OF True] by (simp only:)
    qed
    also have "\<dots> = concat (map (\<lambda>b. concat (map (\<lambda>k. ?f k b) [0..<?K])) bases)"
      using scan(3) [OF at_page(1)] by (intro regroup_offsets) simp
    finally show ?thesis by (simp add: window_at_def [abs_def])
  qed
qed

text \<open>One scan over the lanes of a batch of owners.\<close>

lemma owners_read:
  assumes fit: "bits_fit c w" and p: "params_ok (pages c)"
    and bs: "\<And>owner. owner < n \<Longrightarrow> length (bs owner) = address_count \<and> list_all (base_ok c) (bs owner)" and stop: "stop \<le> n"
    and cells: "\<And>owner page. owner < n \<Longrightarrow> page < nat (page_budget (pages c)) \<Longrightarrow>
      length (cells owner page) = m \<and> list_all (in_prime p) (cells owner page)"
  shows "map_sum_rows ops (nat (page_budget (pages c))) ((stop - start) * address_count * m) (\<lambda>page.
      concat (map (\<lambda>owner. select_row ops (selectors_for ops (pool_index_bits c) (bs owner)) page (cells owner page)) [start..<stop])) =
    concat (map (\<lambda>owner. concat (map (\<lambda>b. cells owner (nat b)) (bs owner))) [start..<stop])"
proof -
  let ?lanes = "concat (map (\<lambda>owner. map (\<lambda>b. (b, cells owner)) (bs owner)) [start..<stop])"
  have len: "length ?lanes = (stop - start) * address_count"
    using bs stop by (subst length_concat_uniform [of _ address_count]) auto
  have ok: "lane_ok p (nat (page_budget (pages c))) m lane" if "lane \<in> set ?lanes" for lane
  proof -
    from that obtain owner b where lane: "lane = (b, cells owner)" "owner < n" "b \<in> set (bs owner)" using stop by auto
    with bs [of owner] cells [of owner] show ?thesis by (auto simp: lane_ok_def list_all_iff base_ok_def)
  qed
  have "lanes_row ops (pool_index_bits c) ?lanes = (\<lambda>page. concat (map (\<lambda>owner.
      select_row ops (selectors_for ops (pool_index_bits c) (bs owner)) page (cells owner page)) [start..<stop]))"
    by (rule ext) (simp add: lanes_row_concat select_row_lanes comp_def)
  moreover have "concat (map (\<lambda>(a, f). f (nat a)) ?lanes) = concat (map (\<lambda>owner. concat (map (\<lambda>b. cells owner (nat b)) (bs owner))) [start..<stop])"
    by (simp add: concat_of_concats comp_def)
  ultimately show ?thesis using lanes_read [where lanes = ?lanes and m = m, OF pool_bits [OF fit p] ok] len by (simp only:)
qed

lemma read_page_windows_spec:
  assumes fit: "bits_fit c w" and p: "params_ok (pages c)" and pools: "list_all (pool_ok c) pools" and n: "length pools = length (owners (base c))"
    and bs: "\<And>owner. owner < length pools \<Longrightarrow> length (bs owner) = address_count \<and> list_all (base_ok c) (bs owner)" and batch: "0 < batch"
  shows "read_page_windows ops c per_offset batch (concat pools) address_count (concat (map bs [0..<length pools])) =
    concat (map (\<lambda>owner. concat (map (window_at c (pools ! owner)) (bs owner))) [0..<length pools])"
proof -
  let ?K = "nat (pages_per_key (pages c))" and ?B = "nat (page_budget (pages c))" and ?m = "nat (page_size (pages c))"
  let ?rows = "nat (pool_rows (pages c))" and ?n = "length pools" and ?bases = "concat (map bs [0..<length pools])"
  have range: "0 \<le> b \<and> nat b < ?B" if "owner < ?n" "b \<in> set (bs owner)" for owner b
    using bs [OF that(1)] that(2) by (auto simp: list_all_iff base_ok_def)
  have slice: "take address_count (drop (owner * address_count) (selectors_for ops (pool_index_bits c) ?bases)) = selectors_for ops (pool_index_bits c) (bs owner)"
    if "owner < ?n" for owner
  proof -
    have "take address_count (drop (owner * address_count) ?bases) = bs owner"
      using concat_map_slice [where f = bs and xs = "[0..<?n]" and m = address_count and i = owner] bs that by simp
    then show ?thesis by (simp add: selectors_for_def take_map drop_map)
  qed
  note scan = pool_scan_ok [OF fit p pools]
  show ?thesis
  proof (cases per_offset)
    case False
    have piece: "map_sum_rows ops ?B ((stop - start) * address_count * (?K * ?m)) (\<lambda>page.
        concat (map (\<lambda>owner. select_row ops (take address_count (drop (owner * address_count) (selectors_for ops (pool_index_bits c) ?bases))) page
          (window_cells c (concat pools) owner page)) [start..<stop])) =
      concat (map (\<lambda>owner. concat (map (window_at c (pools ! owner)) (bs owner))) [start..<stop])" if stop: "stop \<le> ?n" for start stop
    proof -
      have "(\<lambda>page. concat (map (\<lambda>owner. select_row ops (take address_count (drop (owner * address_count) (selectors_for ops (pool_index_bits c) ?bases))) page
          (window_cells c (concat pools) owner page)) [start..<stop])) =
        (\<lambda>page. concat (map (\<lambda>owner. select_row ops (selectors_for ops (pool_index_bits c) (bs owner)) page
          (window_cells c (concat pools) owner page)) [start..<stop]))"
        using slice stop by (intro ext arg_cong [where f = concat] map_cong refl) simp
      then have "map_sum_rows ops ?B ((stop - start) * address_count * (?K * ?m)) (\<lambda>page.
          concat (map (\<lambda>owner. select_row ops (take address_count (drop (owner * address_count) (selectors_for ops (pool_index_bits c) ?bases))) page
            (window_cells c (concat pools) owner page)) [start..<stop])) =
        concat (map (\<lambda>owner. concat (map (\<lambda>b. window_cells c (concat pools) owner (nat b)) (bs owner))) [start..<stop])"
        using owners_read [where cells = "window_cells c (concat pools)" and m = "?K * ?m" and start = start, OF fit p bs stop] scan(1) by simp
      also have "\<dots> = concat (map (\<lambda>owner. concat (map (window_at c (pools ! owner)) (bs owner))) [start..<stop])"
      proof (intro arg_cong [where f = concat] map_cong refl)
        fix owner b assume "owner \<in> set [start..<stop]" "b \<in> set (bs owner)"
        with stop have o: "owner < ?n" and b: "0 \<le> b" "nat b < ?B" using range [of owner b] by simp_all
        from scan(2) [OF o b(2)] b(1) show "window_cells c (concat pools) owner (nat b) = window_at c (pools ! owner) b" by simp
      qed
      finally show ?thesis .
    qed
    have "read_page_windows ops c per_offset batch (concat pools) address_count ?bases =
        concat (map (\<lambda>(start, stop). concat (map (\<lambda>owner. concat (map (window_at c (pools ! owner)) (bs owner))) [start..<stop]))
          (chunks ?n batch))"
      unfolding read_page_windows_def Let_def n [symmetric] if_not_P [OF False]
    proof (intro arg_cong [where f = concat] map_cong refl)
      fix ch assume "ch \<in> set (chunks ?n batch)"
      then obtain start stop where ch: "ch = (start, stop)" "stop \<le> ?n" by (auto simp: chunks_def)
      show "(case ch of (start, stop) \<Rightarrow> map_sum_rows ops ?B ((stop - start) * address_count * (?K * ?m)) (\<lambda>page.
        concat (map (\<lambda>owner. select_row ops (take address_count (drop (owner * address_count) (selectors_for ops (pool_index_bits c) ?bases))) page
          (window_cells c (concat pools) owner page)) [start..<stop]))) =
        (case ch of (start, stop) \<Rightarrow> concat (map (\<lambda>owner. concat (map (window_at c (pools ! owner)) (bs owner))) [start..<stop]))"
        unfolding ch(1) prod.case by (rule piece [OF ch(2)])
    qed
    also have "\<dots> = concat (map (\<lambda>owner. concat (map (window_at c (pools ! owner)) (bs owner))) [0..<?n])"
      by (rule concat_chunks [OF batch])
    finally show ?thesis .
  next
    case True
    let ?f = "\<lambda>k owner b. pools ! owner ! (nat b + k)"
    let ?pairs = "concat (map (\<lambda>owner. map (Pair owner) (bs owner)) [0..<?n])"
    have piece: "map_sum_rows ops ?B ((stop - start) * address_count * ?m) (\<lambda>page.
        concat (map (\<lambda>owner. select_row ops (take address_count (drop (owner * address_count) (selectors_for ops (pool_index_bits c) ?bases))) page
          (concat pools ! (owner * ?rows + page + k))) [start..<stop])) =
      concat (map (\<lambda>owner. concat (map (?f k owner) (bs owner))) [start..<stop])" if stop: "stop \<le> ?n" and k: "k < ?K" for start stop k
    proof -
      have "(\<lambda>page. concat (map (\<lambda>owner. select_row ops (take address_count (drop (owner * address_count) (selectors_for ops (pool_index_bits c) ?bases))) page
          (concat pools ! (owner * ?rows + page + k))) [start..<stop])) =
        (\<lambda>page. concat (map (\<lambda>owner. select_row ops (selectors_for ops (pool_index_bits c) (bs owner)) page
          (concat pools ! (owner * ?rows + page + k))) [start..<stop]))"
        using slice stop by (intro ext arg_cong [where f = concat] map_cong refl) simp
      then have "map_sum_rows ops ?B ((stop - start) * address_count * ?m) (\<lambda>page.
          concat (map (\<lambda>owner. select_row ops (take address_count (drop (owner * address_count) (selectors_for ops (pool_index_bits c) ?bases))) page
            (concat pools ! (owner * ?rows + page + k))) [start..<stop])) =
        concat (map (\<lambda>owner. concat (map (\<lambda>b. concat pools ! (owner * ?rows + nat b + k)) (bs owner))) [start..<stop])"
        using owners_read [where cells = "\<lambda>owner page. concat pools ! (owner * ?rows + page + k)" and m = ?m and start = start, OF fit p bs stop] scan(3) [OF _ _ k] by simp
      also have "\<dots> = concat (map (\<lambda>owner. concat (map (?f k owner) (bs owner))) [start..<stop])"
      proof (intro arg_cong [where f = concat] map_cong refl)
        fix owner b assume "owner \<in> set [start..<stop]" "b \<in> set (bs owner)"
        with stop have o: "owner < ?n" and b: "nat b < ?B" using range [of owner b] by simp_all
        from scan(3) [OF o b k] show "concat pools ! (owner * ?rows + nat b + k) = ?f k owner b" by simp
      qed
      finally show ?thesis .
    qed
    have part: "concat (map (\<lambda>(start, stop). map_sum_rows ops ?B ((stop - start) * address_count * ?m) (\<lambda>page.
        concat (map (\<lambda>owner. select_row ops (take address_count (drop (owner * address_count) (selectors_for ops (pool_index_bits c) ?bases))) page
          (concat pools ! (owner * ?rows + page + k))) [start..<stop]))) (chunks ?n batch)) =
      concat (map (\<lambda>(owner, b). ?f k owner b) ?pairs)" if k: "k < ?K" for k
    proof -
      have "concat (map (\<lambda>(start, stop). map_sum_rows ops ?B ((stop - start) * address_count * ?m) (\<lambda>page.
          concat (map (\<lambda>owner. select_row ops (take address_count (drop (owner * address_count) (selectors_for ops (pool_index_bits c) ?bases))) page
            (concat pools ! (owner * ?rows + page + k))) [start..<stop]))) (chunks ?n batch)) =
        concat (map (\<lambda>(start, stop). concat (map (\<lambda>owner. concat (map (?f k owner) (bs owner))) [start..<stop])) (chunks ?n batch))"
      proof (intro arg_cong [where f = concat] map_cong refl)
        fix ch assume "ch \<in> set (chunks ?n batch)"
        then obtain start stop where ch: "ch = (start, stop)" "stop \<le> ?n" by (auto simp: chunks_def)
        show "(case ch of (start, stop) \<Rightarrow> map_sum_rows ops ?B ((stop - start) * address_count * ?m) (\<lambda>page.
          concat (map (\<lambda>owner. select_row ops (take address_count (drop (owner * address_count) (selectors_for ops (pool_index_bits c) ?bases))) page
            (concat pools ! (owner * ?rows + page + k))) [start..<stop]))) =
          (case ch of (start, stop) \<Rightarrow> concat (map (\<lambda>owner. concat (map (?f k owner) (bs owner))) [start..<stop]))"
          unfolding ch(1) prod.case by (rule piece [OF ch(2) k])
      qed
      also have "\<dots> = concat (map (\<lambda>owner. concat (map (?f k owner) (bs owner))) [0..<?n])"
        by (rule concat_chunks [OF batch])
      also have "\<dots> = concat (map (\<lambda>(owner, b). ?f k owner b) ?pairs)"
        by (simp add: concat_of_concats comp_def)
      finally show ?thesis .
    qed
    have len: "length ?pairs = length pools * address_count"
      using bs by (subst length_concat_uniform [of _ address_count]) auto
    have "read_page_windows ops c per_offset batch (concat pools) address_count ?bases =
        concat (map (\<lambda>i. concat (map (\<lambda>part. take ?m (drop (i * ?m) part))
          (map (\<lambda>k. concat (map (\<lambda>(owner, b). ?f k owner b) ?pairs)) [0..<?K]))) [0..<length ?pairs])"
    proof -
      have "map (\<lambda>k. concat (map (\<lambda>(start, stop). map_sum_rows ops ?B ((stop - start) * address_count * ?m) (\<lambda>page.
          concat (map (\<lambda>owner. select_row ops (take address_count (drop (owner * address_count) (selectors_for ops (pool_index_bits c) ?bases))) page
            (concat pools ! (owner * ?rows + page + k))) [start..<stop]))) (chunks ?n batch))) [0..<?K] =
        map (\<lambda>k. concat (map (\<lambda>(owner, b). ?f k owner b) ?pairs)) [0..<?K]"
        using part by (intro map_cong refl) simp
      then show ?thesis unfolding read_page_windows_def Let_def n [symmetric] if_P [OF True] len by (simp only:)
    qed
    also have "\<dots> = concat (map (\<lambda>x. concat (map (\<lambda>k. case x of (owner, b) \<Rightarrow> ?f k owner b) [0..<?K])) ?pairs)"
    proof (rule regroup_offsets)
      fix k x assume "k < ?K" "x \<in> set ?pairs"
      then show "length (case x of (owner, b) \<Rightarrow> ?f k owner b) = ?m" using scan(3) range by auto
    qed
    also have "\<dots> = concat (map (\<lambda>owner. concat (map (window_at c (pools ! owner)) (bs owner))) [0..<?n])"
      by (simp add: concat_of_concats comp_def window_at_def [abs_def])
    finally show ?thesis .
  qed
qed

end

end
