(* ===== verification/Page_Refinement.thy ===== *)
theory Page_Refinement
  imports Page_Scan
begin

text \<open>
  The generated relation-paged circuit refines the relation-paged oracle.  On the additive shares
  of the queries, the packed directory and the page pools, and for any secret arithmetic with the
  laws of \<open>mpc_machine\<close>, the circuit over the dense directory ranks the candidates of
  \<open>paged_candidates\<close>, whatever ablations it was rendered with.
\<close>

section \<open>Reading keys\<close>

text \<open>A key of a read: the owners' descriptors, whether it is a real one, and its relation.\<close>

type_synonym page_key = "int list \<times> bool \<times> int"

definition key_window :: "page_config \<Rightarrow> nat \<Rightarrow> page_key \<Rightarrow> int \<times> int" where
  "key_window c owner = (\<lambda>(ds, v, r). open_window c v (ds ! owner))"

definition key_slots :: "page_config \<Rightarrow> int list list list \<Rightarrow> page_key \<Rightarrow> page_record list" where
  "key_slots c pools key = concat (map (\<lambda>owner. window_records c (pools ! owner) (key_window c owner key)) [0..<length pools])"

definition key_ok :: "page_config \<Rightarrow> int \<Rightarrow> int list list list \<Rightarrow> page_key \<Rightarrow> bool" where
  "key_ok c p pools = (\<lambda>(ds, v, r). length ds = length pools \<and> list_all (descriptor_ok c) ds \<and> in_prime p r \<and>
     (\<forall>owner < length pools. descriptor_fits c (key_window c owner (ds, v, r)) \<and>
       (\<forall>x \<in> set (window_records c (pools ! owner) (key_window c owner (ds, v, r))). fst x \<noteq> 0 \<longrightarrow> fst (snd x) = r)))"

definition address_of :: "page_config \<Rightarrow> page_key \<Rightarrow> int list \<times> int \<times> int" where
  "address_of c = (\<lambda>(ds, v, r). (packed_columns c ds, flag v, r))"

lemma length_window_records:
  assumes p: "params_ok (pages c)" and pool: "pool_ok c pool" and d: "descriptor_fits c bn"
  shows "length (window_records c pool bn) = nat (slots_per_key (pages c))"
proof -
  obtain b n where bn: "bn = (b, n)" by (cases bn)
  have "length (window_page c pool bn k) = page_width c" if "k < nat (pages_per_key (pages c))" for k
    using pool pool_index [OF p d [unfolded bn] that] by (auto simp: window_page_def bn pool_ok_def)
  then have "length (window_records c pool bn) = nat (pages_per_key (pages c)) * page_width c"
    unfolding window_records_def by (subst length_concat_uniform [of _ "page_width c"]) auto
  then show ?thesis by (simp add: slots_per_key_nat [OF p])
qed

context mpc_machine
begin

lemma per_key_in:
  assumes fit: "bits_fit c w" and p: "params_ok (pages c)"
  shows "in_prime (2 ^ w) (pages_per_key (pages c))"
proof -
  have "pages_per_key (pages c) < 2 ^ bit_length (pages_per_key (pages c))" using p by (intro bit_length_less) (simp add: params_ok_def)
  also have "\<dots> \<le> 2 ^ page_count_bits (pages c)" by (intro power_increasing) (simp_all add: page_count_bits_def)
  finally have "pages_per_key (pages c) \<le> 2 ^ page_count_bits (pages c)" by simp
  moreover have "page_count_bits (pages c) < w"
  proof -
    have "1 \<le> page_base_bits (pages c)" by (simp add: page_base_bits_def)
    moreover have "descriptor_bits (pages c) = page_base_bits (pages c) + page_count_bits (pages c)" by (simp add: descriptor_bits_def)
    moreover have "int (descriptor_bits (pages c)) \<le> int w" using fit by (simp add: bits_fit_def)
    ultimately show ?thesis by linarith
  qed
  ultimately show ?thesis using below_wide p by (simp add: params_ok_def in_prime_def)
qed

lemma read_keys_cells:
  assumes fit: "bits_fit c w" and p: "params_ok (pages c)" and pools: "list_all (pool_ok c) pools"
    and n: "length pools = length (owners (base c))" and batch: "0 < batch"
    and keys: "\<And>owner key. owner < length pools \<Longrightarrow> key \<in> set keys \<Longrightarrow> base_ok c (fst (win owner key))"
  shows "(if scalar then concat (map (\<lambda>owner. read_page_window ops c per_offset (concat pools) owner
        (map fst (map (\<lambda>owner. map (win owner) keys) [0..<length pools] ! owner))) [0..<length pools])
      else read_page_windows ops c per_offset batch (concat pools) (length keys)
        (map fst (concat (map (\<lambda>owner. map (win owner) keys) [0..<length pools])))) =
    concat (map (\<lambda>owner. concat (map (\<lambda>key. window_at c (pools ! owner) (fst (win owner key))) keys)) [0..<length pools])"
proof (cases scalar)
  case True
  have "read_page_window ops c per_offset (concat pools) owner (map fst (map (\<lambda>owner. map (win owner) keys) [0..<length pools] ! owner)) =
      concat (map (\<lambda>key. window_at c (pools ! owner) (fst (win owner key))) keys)" if o: "owner < length pools" for owner
  proof -
    have "list_all (base_ok c) (map fst (map (win owner) keys))" using keys [OF o] by (simp add: list_all_iff)
    from read_page_window_spec [OF fit p pools o this] o show ?thesis by (simp add: comp_def)
  qed
  with True show ?thesis by (simp only: if_True) (intro arg_cong [where f = concat] map_cong refl, simp)
next
  case False
  let ?bs = "\<lambda>owner. map (\<lambda>key. fst (win owner key)) keys"
  have "map fst (concat (map (\<lambda>owner. map (win owner) keys) [0..<length pools])) = concat (map ?bs [0..<length pools])"
    by (simp add: map_concat comp_def)
  moreover have "length (?bs owner) = length keys \<and> list_all (base_ok c) (?bs owner)" if "owner < length pools" for owner
    using keys [OF that] by (simp add: list_all_iff)
  ultimately show ?thesis
    using read_page_windows_spec [where bs = ?bs and address_count = "length keys" and per_offset = per_offset, OF fit p pools n _ batch] False
    by (simp add: comp_def)
qed

lemma read_keys_spec:
  assumes fit: "bits_fit c w" and p: "params_ok (pages c)" and pools: "list_all (pool_ok c) pools"
    and n: "length pools = length (owners (base c))" and batch: "0 < batch" and keys: "list_all (key_ok c p pools) keys"
  shows "read_keys ops c ab batch (concat pools) (map (address_of c) keys) = map (\<lambda>key. map record_hop (key_slots c pools key)) keys"
proof -
  let ?n = "length pools" and ?m = "length keys" and ?W = "nat (slots_per_key (pages c))"
  let ?wins = "map (\<lambda>owner. map (key_window c owner) keys) [0..<?n]"
  have key: "descriptor_fits c (key_window c owner key)"
      "\<And>x. x \<in> set (window_records c (pools ! owner) (key_window c owner key)) \<Longrightarrow> fst x \<noteq> 0 \<Longrightarrow> fst (snd x) = snd (snd key)"
      "in_prime p (snd (snd key))" if "owner < ?n" "key \<in> set keys" for owner key
  proof -
    obtain ds v r where k: "key = (ds, v, r)" by (metis prod.exhaust)
    from keys that(2) have "key_ok c p pools (ds, v, r)" by (simp add: list_all_iff k)
    with that(1) show "descriptor_fits c (key_window c owner key)"
      "\<And>x. x \<in> set (window_records c (pools ! owner) (key_window c owner key)) \<Longrightarrow> fst x \<noteq> 0 \<Longrightarrow> fst (snd x) = snd (snd key)"
      "in_prime p (snd (snd key))"
      unfolding key_ok_def k prod.case by auto
  qed
  have win: "owner_window ops c scalar owner (packed_columns c ds) (flag v) = key_window c owner (ds, v, r)"
    if "owner < ?n" "(ds, v, r) \<in> set keys" for scalar owner ds v r
  proof -
    have k: "length ds = length (owners (base c))" "list_all (descriptor_ok c) ds" "owner < length ds"
      using keys that n by (auto simp: list_all_iff key_ok_def)
    have "v \<Longrightarrow> descriptor_fits c (unpack_descriptor c (ds ! owner))"
      using key(1) [OF that] by (simp add: key_window_def open_window_def)
    from owner_window_spec [OF fit p k this] show ?thesis
      unfolding key_window_def open_window_def prod.case .
  qed
  have wins: "map (\<lambda>owner. map (\<lambda>(columns, gate, wanted). owner_window ops c scalar owner columns gate) (map (address_of c) keys)) [0..<?n] = ?wins" for scalar
    using win by (auto simp: address_of_def)
  have bases: "base_ok c (fst (key_window c owner k))" if "owner < ?n" "k \<in> set keys" for owner k
    using key(1) [OF that] by (auto simp: descriptor_fits_def base_ok_def split: prod.splits)
  let ?pairs = "concat (map (\<lambda>owner. map (Pair owner) keys) [0..<?n])" and ?f = "\<lambda>(owner, k). window_at c (pools ! owner) (fst (key_window c owner k))"
  have cells: "(if ablate_relation_check ab \<or> ablate_owner_batching ab
      then concat (map (\<lambda>owner. read_page_window ops c (ablate_window_demux ab) (concat pools) owner (map fst (?wins ! owner))) [0..<?n])
      else read_page_windows ops c (ablate_window_demux ab) batch (concat pools) ?m (map fst (concat ?wins))) = concat (map ?f ?pairs)"
  proof -
    have flat: "concat (map ?f ?pairs) = concat (map (\<lambda>owner. concat (map (\<lambda>key. window_at c (pools ! owner) (fst (key_window c owner key))) keys)) [0..<?n])"
      by (simp add: concat_of_concats comp_def)
    show ?thesis unfolding flat by (rule read_keys_cells [OF fit p pools n batch bases])
  qed
  have flen: "length (?f x) = ?W" if "x \<in> set ?pairs" for x
  proof -
    from that obtain owner k where x: "x = (owner, k)" "owner < ?n" "k \<in> set keys" by auto
    have b: "0 \<le> fst (key_window c owner k)" "nat (fst (key_window c owner k)) < nat (page_budget (pages c))"
      using bases [OF x(2,3)] by (auto simp: base_ok_def)
    from pool_scan_ok(1,2) [OF fit p pools x(2) b(2)] b(1) show ?thesis
      by (simp add: x(1) slots_per_key_nat [OF p] page_width_def)
  qed
  have slice: "take ?W (drop ((owner * ?m + a) * ?W) (concat (map ?f ?pairs))) = window_at c (pools ! owner) (fst (key_window c owner (keys ! a)))"
    if "owner < ?n" "a < ?m" for owner a
  proof -
    have plen: "length ?pairs = ?n * ?m" by (subst length_concat_uniform [of _ ?m]) auto
    have at: "?pairs ! (owner * ?m + a) = (owner, keys ! a)"
      using concat_map_nth [where f = "\<lambda>owner. map (Pair owner) keys" and xs = "[0..<?n]" and m = ?m and i = owner and j = a] that by simp
    have "owner * ?m + a < length ?pairs" unfolding plen using row_index_less [OF that] .
    from concat_map_slice [where f = ?f, OF flen this] show ?thesis unfolding at by simp
  qed
  have slots: "window_slots ops c (if ablate_relation_check ab then Some (snd (snd (map (address_of c) keys ! a))) else None)
      (snd (?wins ! owner ! a)) (window_at c (pools ! owner) (fst (key_window c owner (keys ! a)))) =
      map record_hop (window_records c (pools ! owner) (key_window c owner (keys ! a)))" if "owner < ?n" "a < ?m" for owner a
  proof -
    have k: "keys ! a \<in> set keys" using that(2) by simp
    obtain b m where bm: "key_window c owner (keys ! a) = (b, m)" by fastforce
    have pool: "pool_ok c (pools ! owner)" using pools that(1) by (simp add: list_all_length)
    have r: "snd (snd (map (address_of c) keys ! a)) = snd (snd (keys ! a))"
      using that(2) by (simp add: address_of_def split: prod.split)
    have at: "?wins ! owner ! a = (b, m)" using that bm by simp
    show ?thesis
      unfolding at r bm fst_conv snd_conv window_at_def
      by (rule window_slots_spec [OF fit p pool key(1) [OF that(1) k, unfolded bm] per_key_in [OF fit p]])
        (use key(2,3) [OF that(1) k] bm in \<open>auto split: if_splits\<close>)
  qed
  have "read_keys ops c ab batch (concat pools) (map (address_of c) keys) =
      map (\<lambda>a. concat (map (\<lambda>owner. map record_hop (window_records c (pools ! owner) (key_window c owner (keys ! a)))) [0..<?n])) [0..<?m]"
    unfolding read_keys_def Let_def n [symmetric] wins length_map cells
    using slice slots by (intro map_cong refl arg_cong [where f = concat]) simp
  also have "\<dots> = map (\<lambda>key. map record_hop (key_slots c pools key)) keys"
    using concat_index_map [of keys ?m "\<lambda>key. map record_hop (key_slots c pools key)"]
    by (simp add: key_slots_def map_concat comp_def)
  finally show ?thesis .
qed

end

section \<open>What a built layout holds\<close>

definition layout_plain :: "page_config \<Rightarrow> owner_page_layout \<Rightarrow> bool" where
  "layout_plain c l \<longleftrightarrow> list_all (descriptor_ok c) (directory l) \<and> pool_ok c (page_pool l)"

lemma put_descriptor_set:
  assumes "put_descriptor c k d (dir, res) = Inr (dir', res')"
  shows "set dir' \<subseteq> insert d (set dir)"
  using assms
  by (cases k) (auto simp: put_descriptor_def list_put_def res_simps split: if_splits option.splits
      dest!: subsetD [OF set_update_subset_insert])

lemma place_group_plain:
  assumes "params_ok (pages c)" and "group_ok c grp"
    and "place_group c grp (pool, dir, res) = Inr (pool', dir', res')"
    and "list_all (descriptor_ok c) dir" and "list_all (list_all (stored_cell c)) pool"
  shows "list_all (descriptor_ok c) dir' \<and> list_all (list_all (stored_cell c)) pool'"
proof -
  obtain key records where g: "grp = (key, records)" by (cases grp)
  have recs: "record_ok c x" if "x \<in> set (sort records)" for x using assms(2) that by (simp add: g group_ok_def)
  let ?n = "required_pages c records" and ?b = "int (length pool)"
  have np: "traverse (pack_page c (sort records)) [0..<nat ?n] = Inr (group_pages c (sort records))"
    using pack_pages_ok [of "sort records" c] recs by simp
  from assms(3) obtain d where d: "pack_descriptor c ?b ?n = Inr d" "put_descriptor c key d (dir, res) = Inr (dir', res')"
      and pool': "pool' = pool @ group_pages c (sort records)"
    by (auto simp: g place_group_def Let_def res_simps required_pages_def [symmetric] np split: if_splits)
  from d(1) have fit: "descriptor_fits c (?b, ?n)" by (auto simp: pack_descriptor_def descriptor_fits_def assms(1) split: if_splits)
  have "descriptor_ok c d"
    using descriptor_value_bound [OF fit] pack_descriptor_fits [OF fit] d(1) by (simp add: descriptor_ok_def)
  then have "list_all (descriptor_ok c) dir'"
    using put_descriptor_set [OF d(2)] assms(4) by (auto simp: list_all_iff)
  moreover have "stored_cell c v" if "page \<in> set (group_pages c (sort records))" "v \<in> set page" for page v
  proof -
    from that have "v \<in> set (concat (group_pages c (sort records)))" by auto
    then have "v \<in> packed_record c ` set (sort records) \<or> v = 0"
      unfolding concat_group_pages [OF assms(1)] by auto
    then show ?thesis
    proof
      assume "v \<in> packed_record c ` set (sort records)"
      then obtain x where "x \<in> set (sort records)" "v = packed_record c x" by blast
      with recs show ?thesis unfolding stored_cell_def by blast
    qed simp
  qed
  ultimately show ?thesis using assms(5) by (auto simp: pool' list_all_iff)
qed

lemma built_layout_plain:
  assumes ok: "page_config_ok c" and l: "build_owner_page_layout c owner edges = Inr l"
    and rows: "traverse (validated_edge (base c)) edges = Inr rows"
  shows "layout_plain c l"
proof -
  from ok have p: "params_ok (pages c)" and v: "valid_config (base c)" by (simp_all add: page_config_ok_def)
  have owner: "owner \<in> set (owners (base c))" using build_layout_iff [OF ok] l by blast
  then have grouped: "grouped_edges c owner edges = Inr (group_by row_key row_record rows)"
    using rows by (auto simp: grouped_edges_Inr)
  from l obtain n pool where run: "foldM (place_group c) (sorted_groups rows) ([dummy_page c], replicate n 0, []) =
        Inr (pool, directory l, residual_descriptors l)"
      and pool: "page_pool l = pool @ replicate (nat (pool_rows (pages c)) - length pool) (dummy_page c)"
    by (auto simp: build_owner_page_layout_def grouped res_simps Let_def sorted_groups_def page_width_def)
  let ?P = "\<lambda>(pool, dir, res). list_all (descriptor_ok c) dir \<and> list_all (list_all (stored_cell c)) pool"
  have "?P (pool, directory l, residual_descriptors l)"
  proof (rule foldM_preserves [OF run])
    show "?P ([dummy_page c], replicate n 0, [] :: (int \<times> int) list)"
      by (simp add: list_all_iff descriptor_ok_def)
    fix grp s s' assume "place_group c grp s = Inr s'" "?P s" "grp \<in> set (sorted_groups rows)"
    with place_group_plain [OF p sorted_groups_ok [OF v rows]] show "?P s'" by (cases s; cases s') auto
  qed
  then have dir: "list_all (descriptor_ok c) (directory l)" and cells: "list_all (list_all (stored_cell c)) (page_pool l)"
    by (auto simp: pool list_all_iff)
  have holds: "layout_holds c rows l" using build_layout_run(2) [OF ok owner rows l] by blast
  with pool_shape(1,2) [OF ok holds] dir cells show ?thesis
    by (auto simp: layout_plain_def pool_ok_def list_all_iff)
qed

section \<open>The keys of a read\<close>

definition dense_row :: "page_config \<Rightarrow> int \<Rightarrow> int \<Rightarrow> nat" where
  "dense_row c s r = nat s * nat (relation_count c) + nat (r - 1)"

definition row_descriptors :: "owner_page_layout list \<Rightarrow> nat \<Rightarrow> int list" where
  "row_descriptors ls row = map (\<lambda>l. directory l ! row) ls"

lemma dense_row_int: "0 \<le> s \<Longrightarrow> 1 \<le> r \<Longrightarrow> int (dense_row c s r) = s * relation_count c + (r - 1)"
  by (simp add: dense_row_def relation_count_def)

lemma dense_row_less:
  assumes "0 \<le> s" and "s < entity_count (base c)" and "1 \<le> r" and "r \<le> relation_count c"
  shows "dense_row c s r < row_count c"
proof -
  have "nat s < nat (entity_count (base c))" "nat (r - 1) < nat (relation_count c)" using assms by simp_all
  from row_index_less [OF this] show ?thesis by (simp add: dense_row_def row_count_def relation_count_def)
qed

lemma zero_window:
  assumes "params_ok (pages c)"
  shows "descriptor_fits c (0, 0)"
    and "window_records c pool (0, 0) = replicate (nat (pages_per_key (pages c)) * page_width c) zero_record"
  using assms
  by (auto simp: descriptor_fits_def params_ok_def window_records_def window_page_def concat_replicate_pages map_replicate_const)

lemma key_closed:
  assumes p: "params_ok (pages c)" and ds: "length ds = length pools" "list_all (descriptor_ok c) ds" and r: "in_prime q r"
  shows "key_ok c q pools (ds, False, r)"
    and "key_slots c pools (ds, False, r) = replicate (length pools * nat (slots_per_key (pages c))) zero_record"
  using ds r zero_window [OF p]
  by (auto simp: key_ok_def key_window_def open_window_def key_slots_def zero_record_def slots_per_key_nat [OF p]
      concat_replicate_pages map_replicate_const)

lemma owner_key_read:
  assumes ok: "page_config_ok c" and d: "dense_config c" and plain: "layout_plain c l"
    and rows: "traverse (validated_edge (base c)) edges = Inr rows" and l: "layout_holds c rows l" and key: "key_in_range c (s, r)"
  defines "bn \<equiv> unpack_descriptor c (directory l ! dense_row c s r)"
  shows "descriptor_fits c bn" and "descriptor_ok c (directory l ! dense_row c s r)"
    and "read_owner_key c False (s, r) l = Inr (window_records c (page_pool l) bn)"
    and "x \<in> set (window_records c (page_pool l) bn) \<Longrightarrow> fst x \<noteq> 0 \<Longrightarrow> fst (snd x) = r"
proof -
  from ok have p: "params_ok (pages c)" and v: "valid_config (base c)" by (simp_all add: page_config_ok_def)
  have range: "0 \<le> s" "s < entity_count (base c)" "1 \<le> r" "r \<le> relation_count c" "s \<noteq> 0" using key by (auto simp: key_in_range_def)
  have len: "length (directory l) = row_count c" using pool_shape(3) [OF ok l] d by simp
  have row: "dense_row c s r < length (directory l)" using dense_row_less [OF range(1-4)] len by simp
  then show "descriptor_ok c (directory l ! dense_row c s r)" using plain by (simp add: layout_plain_def list_all_length)
  let ?st = "(directory l, residual_descriptors l)"
  have "blocked_directory_index c s r = Inr (Some (int (dense_row c s r)))"
    using d dense_index_ok(1) [OF key] dense_row_int [OF range(1,3), of c]
    by (simp add: blocked_directory_index_def dense_config_def)
  then have get: "get_descriptor c ?st (s, r) = Inr (directory l ! dense_row c s r)"
    using d range(5) row by (simp add: get_descriptor_def)
  from l obtain pool where inv: "pool_invariant c (sorted_groups rows) (pool, ?st)" by (auto simp: layout_holds_def)
  have "\<exists>bn'. directory l ! dense_row c s r = descriptor_value c bn' \<and> descriptor_fits c bn'"
  proof (cases "(s, r) \<in> fst ` set (sorted_groups rows)")
    case True
    then obtain records where "((s, r), records) \<in> set (sorted_groups rows)" by auto
    with inv have "stored_at c pool ?st (s, r) records" by (auto simp: pool_invariant_def)
    then show ?thesis using get by (auto simp: stored_at_def)
  next
    case False
    with inv key have "get_descriptor c ?st (s, r) = Inr 0" unfolding pool_invariant_def prod.case by blast
    then show ?thesis using get zero_window(1) [OF p] by (intro exI [of _ "(0, 0)"]) (simp add: descriptor_value_def)
  qed
  then show fits: "descriptor_fits c bn" unfolding bn_def by (auto simp: descriptor_codec.dec_enc)
  obtain b n where bn: "bn = (b, n)" by (cases bn)
  have pool: "pool_ok c (page_pool l)" using plain by (simp add: layout_plain_def)
  have read: "read_window c (page_pool l) b n = Inr (window_records c (page_pool l) bn)"
    using read_window_records [OF p pool fits [unfolded bn]] by (simp add: bn)
  then show run: "read_owner_key c False (s, r) l = Inr (window_records c (page_pool l) bn)"
    using get bn by (simp add: read_owner_key_def bn_def)
  assume x: "x \<in> set (window_records c (page_pool l) bn)" "fst x \<noteq> 0"
  have "window_records c (page_pool l) bn = stored_records rows (s, r) @
      replicate (nat (slots_per_key (pages c)) - length (key_records rows (s, r))) zero_record"
    using run read_owner_full(1) [OF ok rows l key] by simp
  with x have "x \<in> set (key_records rows (s, r))" by (auto simp: zero_record_def)
  then show "fst (snd x) = r" by (auto simp: key_records_def row_record_def row_key_def)
qed

section \<open>Pairs of slots\<close>

definition slot_ok :: "page_config \<Rightarrow> page_record \<Rightarrow> bool" where
  "slot_ok c x \<longleftrightarrow> x = zero_record \<or> record_ok c x"

definition record_cell :: "page_config \<Rightarrow> page_record \<Rightarrow> page_record \<Rightarrow> rank_cell" where
  "record_cell c = (\<lambda>(t, r, ev, sc) (t', r', ev', sc').
     if t \<noteq> 0 \<and> t' \<noteq> 0
     then \<lparr>cell_valid = 1, cell_score = sc + sc', cell_left = ev, cell_right = ev',
           cell_terminal = (if deduplicate_terminal_answers (base c) then t' else 0)\<rparr>
     else \<lparr>cell_valid = 0, cell_score = 0, cell_left = 0, cell_right = 0, cell_terminal = 0\<rparr>)"

lemma slot_target: "slot_ok c x \<Longrightarrow> 0 \<le> fst x \<and> fst x < entity_count (base c)"
  using entity_count_pos [of "base c"]
  by (cases x) (auto simp: slot_ok_def zero_record_def record_ok_def)

context mpc_machine
begin

lemma slot_ranges:
  assumes "packed_edge_bits (base c) \<le> w" and "slot_ok c (t, r, ev, sc)"
  shows "in_prime p t" and "in_prime p ev" and "in_prime (2 ^ (w - 1)) sc"
proof -
  have "in_prime p t \<and> in_prime p ev \<and> in_prime (2 ^ (w - 1)) sc"
  proof (cases "(t, r, ev, sc) = zero_record")
    case False
    with assms(2) have "edge_fits (base c) (t, r, ev, sc, 1)" by (simp add: slot_ok_def record_ok_def)
    from legal_in [OF assms(1) this] show ?thesis by (simp add: small)
  qed (simp add: zero_record_def in_prime_def [of "2 ^ (w - Suc 0)"])
  then show "in_prime p t" "in_prime p ev" "in_prime (2 ^ (w - 1)) sc" by simp_all
qed

lemma record_hop_ok:
  assumes "packed_edge_bits (base c) \<le> w" and "slot_ok c x"
  shows "hop_ok p (record_hop x)"
proof -
  obtain t r ev sc where x: "x = (t, r, ev, sc)" by (metis prod.exhaust)
  note rng = slot_ranges [OF assms [unfolded x]]
  have "in_prime (2 ^ w) sc" using rng(3) by (rule in_prime_widen) simp
  with rng small show ?thesis by (simp add: x record_hop_def hop_ok_def)
qed

lemma page_pair_spec:
  assumes bits: "packed_edge_bits (base c) \<le> w" and x: "slot_ok c x" and y: "slot_ok c y"
  shows "page_pair ops c (record_hop x) (record_hop y) = record_cell c x y" and "cell_ok p w (record_cell c x y)"
proof -
  obtain t r ev sc where xe: "x = (t, r, ev, sc)" by (metis prod.exhaust)
  obtain t' r' ev' sc' where ye: "y = (t', r', ev', sc')" by (metis prod.exhaust)
  note xr = slot_ranges [OF bits x [unfolded xe]] and yr = slot_ranges [OF bits y [unfolded ye]]
  have half: "2 * (2 :: int) ^ (w - 1) = 2 ^ w" using wide by (simp add: power_eq_if)
  have sum: "in_prime (2 ^ w) (sc + sc')" using xr(3) yr(3) half by (simp add: in_prime_def)
  have in_w: "in_prime (2 ^ w) sc" "in_prime (2 ^ w) sc'" using xr(3) yr(3) half by (simp_all add: in_prime_def)
  have add: "m_add ops sc sc' = sc + sc'"
    using in_w sum small by (intro add_small) (simp_all add: in_prime_def)
  have in_p: "in_prime p sc" "in_prime p sc'" "in_prime p (sc + sc')" using in_w sum small by simp_all
  have hops: "record_hop x = (if t = 0 then empty_hop else \<lparr>hop_valid = 1, hop_handle = ev, hop_score = sc, hop_address = t\<rparr>)"
      "record_hop y = (if t' = 0 then empty_hop else \<lparr>hop_valid = 1, hop_handle = ev', hop_score = sc', hop_address = t'\<rparr>)"
    by (simp_all add: record_hop_def xe ye)
  have m00: "m_mul ops 0 0 = 0" "m_mul ops 0 1 = 0" "m_mul ops 1 0 = 0" "m_mul ops 1 1 = 1" by simp_all
  show "page_pair ops c (record_hop x) (record_hop y) = record_cell c x y"
    using xr(1,2) yr(1,2) in_p add unfolding page_pair_def hops Let_def
    by (cases "t = 0"; cases "t' = 0") (simp_all add: record_cell_def xe ye empty_hop_def)
  show "cell_ok p w (record_cell c x y)"
    using xr(1,2) yr(1,2) sum by (auto simp: cell_ok_def record_cell_def xe ye in_prime_def [of "2 ^ w" 0])
qed

end

text \<open>The candidates of the oracle are those that the pairs' cells stand for.\<close>

lemma live_record_cells:
  "live_cells (n + m) (map (record_cell c (t, r, ev, sc)) ys) =
    (if t = 0 then []
     else map (\<lambda>(j, t', r', ev', sc'). strip_terminal (deduplicate_terminal_answers (base c))
         (Candidate (- (sc + sc')) (int n + int j) ev ev' t')) (filter (\<lambda>(_, t', _). t' \<noteq> 0) (enumerate m ys)))"
proof (induction ys arbitrary: m)
  case (Cons y ys)
  obtain t' r' ev' sc' where y: "y = (t', r', ev', sc')" by (metis prod.exhaust)
  have here: "record_cell c (t, r, ev, sc) y = (if t \<noteq> 0 \<and> t' \<noteq> 0
     then \<lparr>cell_valid = 1, cell_score = sc + sc', cell_left = ev, cell_right = ev',
           cell_terminal = (if deduplicate_terminal_answers (base c) then t' else 0)\<rparr>
     else \<lparr>cell_valid = 0, cell_score = 0, cell_left = 0, cell_right = 0, cell_terminal = 0\<rparr>)"
    by (simp add: y record_cell_def)
  from Cons [of "Suc m"] show ?case
    unfolding list.map here by (cases "t = 0") (simp_all add: y cell_candidate_def strip_terminal_def)
qed simp

lemma live_paged_candidates:
  assumes "\<And>x. x \<in> set frontier \<Longrightarrow> fst x \<noteq> 0 \<Longrightarrow> read_key c ls False (fst x, r2) = Inr (slots x)"
    and "\<And>x. x \<in> set frontier \<Longrightarrow> length (slots x) = width"
    and "int width = int (length (owners (base c))) * slots_per_key (pages c)"
    and "traverse (expand_paged c ls r2) (enumerate i frontier) = Inr parts"
  shows "live_cells (i * width) (concat (map (\<lambda>x. map (record_cell c x) (slots x)) frontier)) =
    map (strip_terminal (deduplicate_terminal_answers (base c))) (concat parts)"
  using assms(1,2,4)
proof (induction frontier arbitrary: i parts)
  case (Cons x frontier)
  obtain t r ev sc where x: "x = (t, r, ev, sc)" by (metis prod.exhaust)
  from Cons.prems(3) obtain part rest where parts: "parts = part # rest" "expand_paged c ls r2 (i, x) = Inr part"
      "traverse (expand_paged c ls r2) (enumerate (Suc i) frontier) = Inr rest"
    by (auto simp: res_simps)
  have "live_cells (i * width) (map (record_cell c x) (slots x)) = map (strip_terminal (deduplicate_terminal_answers (base c))) part"
  proof (cases "t = 0")
    case True
    then show ?thesis using parts(2) live_record_cells [of "i * width" 0 c t r ev sc "slots x"] by (simp add: x expand_paged_def)
  next
    case False
    then have "read_key c ls False (t, r2) = Inr (slots x)" using Cons.prems(1) [of x] by (simp add: x)
    with parts(2) False live_record_cells [of "i * width" 0 c t r ev sc "slots x"] show ?thesis
      by (auto simp: x expand_paged_def assms(3) [symmetric] comp_def case_prod_unfold)
  qed
  moreover have "i * width + length (slots x) = Suc i * width" using Cons.prems(2) [of x] by simp
  moreover note Cons.IH [OF Cons.prems(1,2) parts(3)]
  ultimately show ?case by (simp add: live_append parts(1) add.commute)
qed simp

section \<open>Reading through all owners\<close>

abbreviation layouts_ok :: "page_config \<Rightarrow> edge_row list list \<Rightarrow> owner_page_layout list \<Rightarrow> bool" where
  "layouts_ok c rowss ls \<equiv> layouts_hold c rowss ls \<and> list_all (layout_plain c) ls"

abbreviation pools_of :: "owner_page_layout list \<Rightarrow> int list list list" where
  "pools_of ls \<equiv> map page_pool ls"

definition real_key :: "page_config \<Rightarrow> owner_page_layout list \<Rightarrow> int \<Rightarrow> int \<Rightarrow> page_key" where
  "real_key c ls s r = (row_descriptors ls (dense_row c s r), True, r)"

lemma pools_of_ok: "layouts_ok c rowss ls \<Longrightarrow> list_all (pool_ok c) (pools_of ls)"
  by (simp add: list_all_iff layout_plain_def)

lemma row_descriptors_ok:
  assumes "page_config_ok c" and "dense_config c" and "layouts_ok c rowss ls" and "row < row_count c"
  shows "list_all (descriptor_ok c) (row_descriptors ls row)" and "length (row_descriptors ls row) = length ls"
proof -
  have "descriptor_ok c (directory l ! row)" if l: "l \<in> set ls" for l
  proof -
    from assms(3) l obtain rows where "layout_holds c rows l"
      by (auto simp: layouts_hold_def list_all2_conv_all_nth in_set_conv_nth)
    from pool_shape(3) [OF assms(1) this] have "row < length (directory l)" using assms(2,4) by simp
    then show ?thesis using assms(3) l by (auto simp: list_all_iff layout_plain_def)
  qed
  then show "list_all (descriptor_ok c) (row_descriptors ls row)" "length (row_descriptors ls row) = length ls"
    by (auto simp: row_descriptors_def list_all_iff)
qed

lemma layouts_read:
  assumes ok: "page_config_ok c" and d: "dense_config c" and ls: "layouts_ok c rowss ls" and key: "key_in_range c (s, r)"
    and q: "in_prime q r"
  shows "key_ok c q (pools_of ls) (real_key c ls s r)" and "read_key c ls False (s, r) = Inr (key_slots c (pools_of ls) (real_key c ls s r))"
proof -
  have range: "0 \<le> s" "s < entity_count (base c)" "1 \<le> r" "r \<le> relation_count c" using key by (auto simp: key_in_range_def)
  let ?row = "dense_row c s r"
  let ?bn = "\<lambda>l. unpack_descriptor c (directory l ! ?row)"
  have one: "descriptor_fits c (?bn l) \<and> read_owner_key c False (s, r) l = Inr (window_records c (page_pool l) (?bn l)) \<and>
      (\<forall>x \<in> set (window_records c (page_pool l) (?bn l)). fst x \<noteq> 0 \<longrightarrow> fst (snd x) = r)" if l: "l \<in> set ls" for l
  proof -
    from ls l obtain rows edges where h: "layout_holds c rows l" "traverse (validated_edge (base c)) edges = Inr rows" "layout_plain c l"
      by (fastforce simp: layouts_hold_def list_all2_conv_all_nth in_set_conv_nth list_all_iff)
    from owner_key_read [OF ok d h(3,2,1) key] show ?thesis by blast
  qed
  have win: "key_window c owner (real_key c ls s r) = ?bn (ls ! owner)" if "owner < length ls" for owner
    using that by (simp add: key_window_def real_key_def open_window_def row_descriptors_def)
  note ds = row_descriptors_ok [OF ok d ls dense_row_less [OF range]]
  show "key_ok c q (pools_of ls) (real_key c ls s r)"
    unfolding key_ok_def real_key_def prod.case
  proof (intro conjI allI impI)
    fix owner assume "owner < length (pools_of ls)"
    then have o: "owner < length ls" by simp
    note w = win [OF o, unfolded real_key_def] and n = one [OF nth_mem [OF o]]
    show "descriptor_fits c (key_window c owner (row_descriptors ls ?row, True, r))" unfolding w using n by blast
    show "\<forall>x \<in> set (window_records c (pools_of ls ! owner) (key_window c owner (row_descriptors ls ?row, True, r))). fst x \<noteq> 0 \<longrightarrow> fst (snd x) = r"
      unfolding w using n o by simp
  qed (use ds q in simp_all)
  have "traverse (read_owner_key c False (s, r)) ls = Inr (map (\<lambda>l. window_records c (page_pool l) (?bn l)) ls)"
    by (rule traverse_Inr) (use one in blast)
  moreover have "map (\<lambda>l. window_records c (page_pool l) (?bn l)) ls =
      map (\<lambda>owner. window_records c (pools_of ls ! owner) (key_window c owner (real_key c ls s r))) [0..<length ls]"
    by (intro nth_equalityI) (simp_all add: win)
  ultimately show "read_key c ls False (s, r) = Inr (key_slots c (pools_of ls) (real_key c ls s r))"
    by (simp add: read_key_def key_slots_def)
qed

section \<open>The frontier\<close>

lemma key_slots_shape:
  assumes p: "params_ok (pages c)" and pools: "list_all (pool_ok c) pools" and key: "key_ok c q pools key"
  shows "length (key_slots c pools key) = length pools * nat (slots_per_key (pages c))"
    and "x \<in> set (key_slots c pools key) \<Longrightarrow> slot_ok c x"
proof -
  obtain ds v r where k: "key = (ds, v, r)" by (metis prod.exhaust)
  have fits: "descriptor_fits c (key_window c owner key)" if "owner < length pools" for owner
    using key that by (auto simp: key_ok_def k)
  have pool: "pool_ok c (pools ! owner)" if "owner < length pools" for owner using pools that by (simp add: list_all_length)
  show "length (key_slots c pools key) = length pools * nat (slots_per_key (pages c))"
    unfolding key_slots_def using length_window_records [OF p pool fits]
    by (subst length_concat_uniform [of _ "nat (slots_per_key (pages c))"]) auto
  assume "x \<in> set (key_slots c pools key)"
  then obtain owner k where o: "owner < length pools" and k: "k < nat (pages_per_key (pages c))"
      and x: "x \<in> set (window_page c (pools ! owner) (key_window c owner key) k)"
    by (auto simp: key_slots_def window_records_def)
  obtain b n where bn: "key_window c owner key = (b, n)" by fastforce
  show "slot_ok c x"
  proof (cases "int k < n")
    case True
    with x bn obtain v where v: "v \<in> set (pools ! owner ! (nat b + k))" "x = slot_record c v" by (auto simp: window_page_def)
    have "nat b + k < length (pools ! owner)"
      using pool_index [OF p fits [OF o, unfolded bn] k] pool [OF o] by (simp add: pool_ok_def)
    with v(1) pool [OF o] have "stored_cell c v" by (auto simp: pool_ok_def list_all_iff)
    then show ?thesis using slot_record_packed by (auto simp: stored_cell_def slot_ok_def v(2))
  next
    case False
    with x bn show ?thesis by (simp add: window_page_def slot_ok_def)
  qed
qed

lemma owners_read_twice:
  assumes ok: "page_config_ok c" and ls: "layouts_hold c rowss ls" and key: "key_in_range c key"
  defines "full \<equiv> \<lambda>rows. stored_records rows key @ replicate (nat (slots_per_key (pages c)) - length (key_records rows key)) zero_record"
    and "short \<equiv> \<lambda>rows. stored_records rows key @
      replicate (nat (effective_frontier_per_owner (pages c)) - length (key_records rows key)) zero_record"
  shows "read_key c ls False key = Inr (concat (map full rowss))" and "read_key c ls True key = Inr (concat (map short rowss))"
    and "rows \<in> set rowss \<Longrightarrow> length (key_records rows key) \<le> nat (slots_per_key (pages c)) \<and>
      length (key_records rows key) \<le> nat (effective_frontier_per_owner (pages c)) \<and> (\<forall>x \<in> set (key_records rows key). record_ok c x)"
    and "length rowss = length ls"
proof -
  have v: "valid_config (base c)" using ok by (simp add: page_config_ok_def)
  have all2: "list_all2 (\<lambda>rows l. read_owner_key c False key l = Inr (full rows) \<and> read_owner_key c True key l = Inr (short rows) \<and>
      length (key_records rows key) \<le> nat (slots_per_key (pages c)) \<and>
      length (key_records rows key) \<le> nat (effective_frontier_per_owner (pages c)) \<and> (\<forall>x \<in> set (key_records rows key). record_ok c x)) rowss ls"
    using ls unfolding layouts_hold_def
  proof (rule list_all2_mono)
    fix rows l assume "layout_holds c rows l \<and> rows_fit_pages c rows \<and> (\<exists>edges. traverse (validated_edge (base c)) edges = Inr rows)"
    then obtain edges where h: "layout_holds c rows l" "rows_fit_pages c rows" "traverse (validated_edge (base c)) edges = Inr rows" by blast
    note rf = read_owner_full [OF ok h(3,1) key] and rc = read_owner_compact [OF ok h(3,2,1) key]
    show "read_owner_key c False key l = Inr (full rows) \<and> read_owner_key c True key l = Inr (short rows) \<and>
      length (key_records rows key) \<le> nat (slots_per_key (pages c)) \<and>
      length (key_records rows key) \<le> nat (effective_frontier_per_owner (pages c)) \<and> (\<forall>x \<in> set (key_records rows key). record_ok c x)"
      using rf rc key_records_ok [OF v h(3)] by (auto simp: full_def short_def)
  qed
  have "traverse (read_owner_key c False key) ls = Inr (map full rowss) \<and> traverse (read_owner_key c True key) ls = Inr (map short rowss)"
    using all2 by (induction rule: list_all2_induct) auto
  then show "read_key c ls False key = Inr (concat (map full rowss))" "read_key c ls True key = Inr (concat (map short rowss))"
    by (simp_all add: read_key_def)
  show len: "length rowss = length ls" using all2 by (rule list_all2_lengthD)
  show "rows \<in> set rowss \<Longrightarrow> length (key_records rows key) \<le> nat (slots_per_key (pages c)) \<and>
      length (key_records rows key) \<le> nat (effective_frontier_per_owner (pages c)) \<and> (\<forall>x \<in> set (key_records rows key). record_ok c x)"
    using all2 by (auto simp: list_all2_conv_all_nth in_set_conv_nth)
qed

definition oracle_frontier :: "page_config \<Rightarrow> owner_page_layout list \<Rightarrow> int \<times> int \<Rightarrow> page_record list res" where
  "oracle_frontier c ls key =
     bindr (read_key c ls True key) (\<lambda>frontier. case global_frontier (pages c) of
         None \<Rightarrow> Inr frontier
       | Some width \<Rightarrow> compact_records ''federation-wide frontier exceeds the declared global_frontier'' width frontier)"

context mpc_machine
begin

lemma filter_record_hops:
  assumes "\<forall>x \<in> set records. record_ok c x"
  shows "filter (\<lambda>cell. hop_valid cell = 1) (map record_hop (records @ replicate k zero_record)) = map record_hop records"
  using filter_real_records [of records c k] assms
  by (simp add: filter_map comp_def hop_valid_record del: filter_append map_append)

lemma page_frontier_spec:
  assumes ok: "page_config_ok c" and fit: "bits_fit c w" and ls: "layouts_hold c rowss ls" and n: "length ls = length (owners (base c))"
    and key: "key_in_range c key" and abl: "ablate_compaction ab \<Longrightarrow> check_compaction_ablation c = Inr ()"
    and slots: "read_key c ls False key = Inr slots" and F: "oracle_frontier c ls key = Inr frontier"
  shows "page_frontier ops c ab (map record_hop slots) = map record_hop frontier"
    and "length frontier = nat (page_frontier_slots c)" and "\<And>x. x \<in> set frontier \<Longrightarrow> slot_ok c x"
proof -
  let ?W = "nat (slots_per_key (pages c))" and ?f = "nat (effective_frontier_per_owner (pages c))"
  have p: "params_ok (pages c)" using ok by (simp add: page_config_ok_def)
  have bits: "packed_edge_bits (base c) \<le> w" using fit by (simp add: bits_fit_def)
  note twice = owners_read_twice [OF ok ls key]
  let ?st = "\<lambda>rows. stored_records rows key" and ?len = "\<lambda>rows. length (key_records rows key)"
  let ?full = "\<lambda>rows. ?st rows @ replicate (?W - ?len rows) zero_record" and ?short = "\<lambda>rows. ?st rows @ replicate (?f - ?len rows) zero_record"
  have slots': "slots = concat (map ?full rowss)" using slots twice(1) by simp
  have recs: "\<forall>x \<in> set (?st rows). record_ok c x" if "rows \<in> set rowss" for rows using twice(3) [OF that] by simp
  have lens: "length (?full rows) = ?W" "length (?short rows) = ?f" if "rows \<in> set rowss" for rows using twice(3) [OF that] by simp_all
  have hops: "list_all (hop_ok p) (map record_hop (?full rows))" if "rows \<in> set rowss" for rows
  proof -
    have "hop_ok p empty_hop" by (simp add: hop_ok_def)
    then show ?thesis using record_hop_ok [OF bits] recs [OF that] by (auto simp: list_all_iff slot_ok_def)
  qed
  have slen: "length slots = length rowss * ?W"
    unfolding slots' using lens(1) by (subst length_concat_uniform [of _ ?W]) auto
  have second: "nat (second_width c) = length rowss * ?W"
    using n twice(4) p by (simp add: second_width_def nat_mult_distrib)
  have ok_short: "slot_ok c x" if "x \<in> set (concat (map ?short rowss))" for x
    using that recs by (fastforce simp: slot_ok_def)
  show "page_frontier ops c ab (map record_hop slots) = map record_hop frontier"
  proof (cases "ablate_compaction ab")
    case True
    from abl [OF True] have "global_frontier (pages c) = None" "?f = ?W"
      by (auto simp: check_compaction_ablation_def uses_global_frontier_def split: if_splits)
    with True F twice(2) slots' show ?thesis by (simp add: oracle_frontier_def page_frontier_def)
  next
    case noabl: False
    show ?thesis
    proof (cases "global_frontier (pages c)")
      case None
      have owner: "compact_owner ops (take ?W (drop (i * ?W) (map record_hop slots))) ?f (replicate ?W 0) = map record_hop (?short (rowss ! i))"
        if i: "i < length rowss" for i
      proof -
        have mem: "rowss ! i \<in> set rowss" using i by simp
        have "take ?W (drop (i * ?W) (map record_hop slots)) = map record_hop (?full (rowss ! i))"
          using concat_map_slice [where f = ?full and xs = rowss, OF lens(1) i] unfolding slots' take_map drop_map by simp
        moreover have "compact_owner ops (map record_hop (?full (rowss ! i))) ?f (replicate ?W 0) =
            take ?f (map record_hop (?st (rowss ! i)) @ replicate ?f empty_hop)"
          using compact_owner_spec [OF hops [OF mem], of ?f] unfolding filter_record_hops [OF recs [OF mem]] length_map lens(1) [OF mem] .
        moreover have "\<dots> = map record_hop (?short (rowss ! i))" using twice(3) [OF mem] by simp
        ultimately show ?thesis by (simp only:)
      qed
      have "page_frontier ops c ab (map record_hop slots) =
          concat (map (\<lambda>i. map record_hop (?short (rowss ! i))) [0..<length rowss])"
        unfolding page_frontier_def Let_def if_not_P [OF noabl] None option.case n [symmetric] twice(4) [symmetric]
        by (rule arg_cong [where f = concat], rule map_cong [OF refl], rule owner) simp
      also have "\<dots> = map record_hop (concat (map ?short rowss))"
        using concat_index_map [of rowss "length rowss" "\<lambda>rows. map record_hop (?short rows)"] by (simp add: map_concat comp_def)
      finally show ?thesis using F twice(2) None by (simp add: oracle_frontier_def)
    next
      case (Some g)
      have g: "0 \<le> g" using p Some by (simp add: params_ok_def)
      have real_full: "filter (\<lambda>cell. hop_valid cell = 1) (map record_hop slots) = map record_hop (concat (map ?st rowss))"
        unfolding slots' using filter_record_hops [OF recs]
        by (simp add: map_concat filter_concat comp_def cong: map_cong del: map_append filter_append)
      have real_short: "filter (\<lambda>slot. fst slot \<noteq> 0) (concat (map ?short rowss)) = concat (map ?st rowss)"
        using filter_real_records [of "?st _" c] recs by (simp add: filter_concat comp_def cong: map_cong del: filter_append)
      from F twice(2) Some have fr: "int (length (concat (map ?st rowss))) \<le> g"
          "frontier = concat (map ?st rowss) @ replicate (nat g - length (concat (map ?st rowss))) zero_record"
        by (auto simp: oracle_frontier_def compact_records_def Let_def real_short simp del: length_concat split: if_splits)
      have "list_all (hop_ok p) (map record_hop slots)"
        unfolding slots' using hops by (auto simp: list_all_iff)
      from compact_owner_spec [OF this, of "nat g"] have "compact_owner ops (map record_hop slots) (nat g) (replicate (nat (second_width c)) 0) =
          take (nat g) (map record_hop (concat (map ?st rowss)) @ replicate (nat g) empty_hop)"
        unfolding real_full by (simp add: slen second)
      also have "\<dots> = map record_hop frontier" using fr g by (simp add: le_nat_iff del: length_concat map_concat)
      finally show ?thesis using noabl Some by (simp add: page_frontier_def)
    qed
  qed
  show "length frontier = nat (page_frontier_slots c)"
  proof (cases "global_frontier (pages c)")
    case None
    have "length (concat (map ?short rowss)) = length rowss * ?f" using lens(2) by (subst length_concat_uniform [of _ ?f]) auto
    then show ?thesis using F twice(2,4) None n by (simp add: oracle_frontier_def page_frontier_slots_def frontier_slots_def nat_mult_distrib)
  next
    case (Some g)
    then show ?thesis using F twice(2)
      by (auto simp: oracle_frontier_def compact_records_def Let_def page_frontier_slots_def frontier_slots_def simp del: length_concat split: if_splits)
  qed
  show "slot_ok c x" if "x \<in> set frontier" for x
  proof (cases "global_frontier (pages c)")
    case None
    then have "frontier = concat (map ?short rowss)" using F twice(2) by (simp add: oracle_frontier_def)
    with that ok_short show ?thesis by blast
  next
    case (Some g)
    then obtain k where "frontier = filter (\<lambda>slot. fst slot \<noteq> 0) (concat (map ?short rowss)) @ replicate k zero_record"
      using F twice(2) by (auto simp: oracle_frontier_def compact_records_def Let_def simp del: filter_concat split: if_splits)
    with that have "x \<in> set (concat (map ?short rowss)) \<or> x = zero_record"
      by (auto simp del: set_concat)
    with ok_short show ?thesis unfolding slot_ok_def by blast
  qed
qed

end

section \<open>The whole program\<close>

definition directory_plain :: "page_config \<Rightarrow> owner_page_layout list \<Rightarrow> int list list" where
  "directory_plain c ls = map (\<lambda>row. packed_columns c (row_descriptors ls row)) [0..<row_count c]"

text \<open>What the three servers' inputs are shares of, over the dense directory.\<close>

definition page_input :: "page_config \<Rightarrow> (int \<times> int \<times> int) list \<Rightarrow> owner_page_layout list \<Rightarrow> int list" where
  "page_input c ids ls = concat (map query_triple ids) @ concat (directory_plain c ls) @ concat (concat (pools_of ls))"

text \<open>The row of the directory that a slot of the frontier is looked up at.\<close>

definition second_row :: "page_config \<Rightarrow> page_ablations \<Rightarrow> int \<Rightarrow> page_record \<Rightarrow> nat" where
  "second_row c ab r x = (if ablate_folded_directory ab \<and> fst x = 0 then 0 else dense_row c (fst x) r)"

definition second_key :: "page_config \<Rightarrow> page_ablations \<Rightarrow> owner_page_layout list \<Rightarrow> int \<Rightarrow> page_record \<Rightarrow> page_key" where
  "second_key c ab ls r x = (row_descriptors ls (second_row c ab r x), fst x \<noteq> 0, r)"

lemma second_row_less:
  assumes "slot_ok c x" and "1 \<le> r" and "r \<le> relation_count c"
  shows "second_row c ab r x < row_count c"
proof -
  have "0 < row_count c" using dense_row_less [of 0 c 1] assms(2,3) entity_count_pos [of "base c"] by simp
  then show ?thesis using dense_row_less slot_target [OF assms(1)] assms(2,3) by (simp add: second_row_def)
qed

lemma split_columns_concat:
  "(\<And>row. row \<in> set rows \<Longrightarrow> length row = nat (directory_columns c)) \<Longrightarrow> length rows = n \<Longrightarrow> split_columns c n (concat rows) = rows"
  unfolding split_columns_def Let_def using concat_uniform_slice [of rows "nat (directory_columns c)"]
  by (intro nth_equalityI) simp_all

context mpc_machine
begin

lemma directory_plain_ok:
  assumes ok: "page_config_ok c" and d: "dense_config c" and fit: "bits_fit c w" and ls: "layouts_ok c rowss ls"
  shows "matrix_ok p (row_count c) (nat (directory_columns c)) (directory_plain c ls)"
    and "row < row_count c \<Longrightarrow> directory_plain c ls ! row = packed_columns c (row_descriptors ls row)"
proof -
  let ?D = "descriptor_bits (pages c)" and ?per = "nat (owners_per_directory_element c)"
  have fit': "int ?D \<le> field_usable_bits (base c)" using fit by (simp add: bits_fit_def)
  note per = owners_per_element [OF fit']
  have cell: "list_all (in_prime p) (packed_columns c ds)" if ds: "list_all (descriptor_ok c) ds" for ds
  proof -
    have "in_prime p (stack_value ?D (take ?per (drop j ds)))" for j
    proof -
      let ?slice = "take ?per (drop j ds)"
      have "list_all (\<lambda>d. 0 \<le> d \<and> d < 2 ^ ?D) ?slice"
        using ds by (auto simp: list_all_iff descriptor_ok_def dest!: in_set_takeD in_set_dropD)
      from stack_value_bounds [OF this] have v: "in_prime (2 ^ (length ?slice * ?D)) (stack_value ?D ?slice)" by (simp add: in_prime_def)
      have "length ?slice * ?D \<le> ?per * ?D" by (intro mult_le_mono1) simp
      moreover have "int (?per * ?D) \<le> int w" using per(1,2) fit by (simp add: bits_fit_def)
      ultimately have "length ?slice * ?D \<le> w" by linarith
      from small [OF in_prime_widen [OF v this]] show ?thesis .
    qed
    then show ?thesis by (simp add: packed_columns_def list_all_iff Let_def)
  qed
  show row: "row < row_count c \<Longrightarrow> directory_plain c ls ! row = packed_columns c (row_descriptors ls row)"
    by (simp add: directory_plain_def)
  show "matrix_ok p (row_count c) (nat (directory_columns c)) (directory_plain c ls)"
    using cell [OF row_descriptors_ok(1) [OF ok d ls]]
    by (simp add: matrix_ok_def directory_plain_def) (simp add: packed_columns_def Let_def)
qed

lemma second_addresses_spec:
  assumes v: "valid_config (base c)" and bits: "packed_edge_bits (base c) \<le> w" and d: "dense_config c"
    and r: "1 \<le> r" "r \<le> relation_count c" and slots: "\<And>x. x \<in> set frontier \<Longrightarrow> slot_ok c x"
  shows "second_addresses ops c ab blocks r (map record_hop frontier) =
    map (\<lambda>x. (fst x, r, flag (fst x \<noteq> 0), if fst x = 0 then 0 else int (dense_row c (fst x) r))) frontier"
  unfolding second_addresses_def map_map
proof (rule map_cong [OF refl])
  fix x assume x: "x \<in> set frontier"
  note rng = slot_target [OF slots [OF x]]
  obtain t r0 ev sc where xe: "x = (t, r0, ev, sc)" by (metis prod.exhaust)
  have hop: "hop_address (record_hop x) = t" "hop_valid (record_hop x) = flag (t \<noteq> 0)"
    by (simp_all add: xe record_hop_def empty_hop_def)
  have t: "0 \<le> t" "t < entity_count (base c)" using rng by (simp_all add: xe)
  have row: "int (dense_row c t r) = t * relation_count c + (r - 1)" by (rule dense_row_int) (use t r in simp_all)
  have "dense_row c t r < row_count c" using dense_row_less [OF t r] .
  then have "in_prime (2 ^ w) (int (dense_row c t r))" "in_prime (2 ^ w) t"
    using page_widths(4,5) [OF v bits] t by (simp_all add: in_prime_def)
  then have in_p: "in_prime p (int (dense_row c t r))" "in_prime p t" using small by simp_all
  show "((\<lambda>cell. if uses_hybrid_directory c \<and> \<not> ablate_folded_directory ab then
         let combined = m_mul ops (m_mul ops (entity_guard ops c (hop_address cell)) (relation_guard ops c r)) (hop_valid cell)
         in (m_if ops combined (hop_address cell) 0, r, combined, 0)
       else
         let (ok, address) = directory_address ops c blocks (hop_address cell) r;
             combined = m_mul ops ok (hop_valid cell)
         in (m_if ops combined (hop_address cell) 0, r, combined, m_if ops combined address 0)) \<circ> record_hop) x =
    (fst x, r, flag (fst x \<noteq> 0), if fst x = 0 then 0 else int (dense_row c (fst x) r))"
    using d dense_address_spec [OF v bits t r] mul_flags [of "t \<noteq> 0" "t \<noteq> 0"] in_p
    unfolding comp_def hop by (cases "t = 0") (simp_all add: directory_address_def xe row)
qed

lemma second_descriptors_spec:
  assumes ok: "page_config_ok c" and d: "dense_config c" and fit: "bits_fit c w" and ls: "layouts_ok c rowss ls"
    and r: "\<And>r frontier. (r, frontier) \<in> set qs \<Longrightarrow> 1 \<le> r \<and> r \<le> relation_count c \<and> (\<forall>x \<in> set frontier. slot_ok c x)"
  shows "second_descriptors ops c ab blocks block_max (directory_plain c ls) table
      (map (\<lambda>(r, frontier). (r, map (\<lambda>x. (fst x, r, flag (fst x \<noteq> 0), if fst x = 0 then 0 else int (dense_row c (fst x) r))) frontier)) qs) =
    concat (concat (map (\<lambda>(r, frontier). map (\<lambda>x. packed_columns c (row_descriptors ls (second_row c ab r x))) frontier) qs))"
proof -
  from ok have v: "valid_config (base c)" by (simp add: page_config_ok_def)
  have bits: "packed_edge_bits (base c) \<le> w" using fit by (simp add: bits_fit_def)
  note dir = directory_plain_ok [OF ok d fit ls]
  let ?adr = "\<lambda>r x. (fst x, r, flag (fst x \<noteq> 0), if fst x = 0 then 0 else int (dense_row c (fst x) r))"
  have row0: "0 < row_count c" if "(r', frontier) \<in> set qs" for r' and frontier :: "page_record list"
    using dense_row_less [of 0 c 1] r [OF that] entity_count_pos [of "base c"] by simp
  show ?thesis
  proof (cases "ablate_folded_directory ab")
    case True
    let ?as = "concat (map (\<lambda>(r, frontier). map (\<lambda>x. if fst x = 0 then 0 else int (dense_row c (fst x) r)) frontier) qs)"
    have row: "second_row c ab r' x < row_count c" "(if fst x = 0 then 0 else int (dense_row c (fst x) r')) = int (second_row c ab r' x)"
      if "(r', frontier) \<in> set qs" "x \<in> set frontier" for r' frontier x
      using second_row_less [of c x r' ab] r [OF that(1)] that(2) True by (auto simp: second_row_def)
    have range: "0 \<le> a \<and> a < int (row_count c)" if "a \<in> set ?as" for a
    proof -
      from that obtain r' frontier x where "(r', frontier) \<in> set qs" "x \<in> set frontier" "a = (if fst x = 0 then 0 else int (dense_row c (fst x) r'))" by auto
      with row [of r' frontier x] show ?thesis by simp
    qed
    have "second_descriptors ops c ab blocks block_max (directory_plain c ls) table
        (map (\<lambda>(r, frontier). (r, map (?adr r) frontier)) qs) = read_directory ops c (directory_plain c ls) ?as"
      using True d by (simp add: second_descriptors_def Let_def map_concat comp_def case_prod_unfold)
    also have "\<dots> = concat (map (\<lambda>a. directory_plain c ls ! nat a) ?as)"
      by (rule read_directory_spec [OF v bits d dir(1) range])
    also have "map (\<lambda>a. directory_plain c ls ! nat a) ?as =
        concat (map (\<lambda>(r, frontier). map (\<lambda>x. packed_columns c (row_descriptors ls (second_row c ab r x))) frontier) qs)"
    proof -
      have one: "map (\<lambda>a. directory_plain c ls ! nat a) (map (\<lambda>x. if fst x = 0 then 0 else int (dense_row c (fst x) r')) frontier) =
          map (\<lambda>x. packed_columns c (row_descriptors ls (second_row c ab r' x))) frontier" if "(r', frontier) \<in> set qs" for r' frontier
        using row [OF that] dir(2) by (simp del: if_split)
      show ?thesis unfolding map_concat map_map
      proof (intro arg_cong [where f = concat] map_cong refl)
        fix q assume "q \<in> set qs"
        moreover obtain r' frontier where "q = (r', frontier)" by fastforce
        ultimately show "(map (\<lambda>a. directory_plain c ls ! nat a) \<circ> (\<lambda>(r, frontier). map (\<lambda>x. if fst x = 0 then 0 else int (dense_row c (fst x) r)) frontier)) q =
            (case q of (r, frontier) \<Rightarrow> map (\<lambda>x. packed_columns c (row_descriptors ls (second_row c ab r x))) frontier)"
          using one [of r' frontier] by (simp only: comp_def prod.case)
      qed
    qed
    finally show ?thesis .
  next
    case False
    have one: "read_folded_directory ops c (fold_directory ops c (directory_plain c ls) r' (relation_guard ops c r'))
        (map (\<lambda>(entity, relation, gate, address). entity) (map (?adr r') frontier)) =
        concat (map (\<lambda>x. packed_columns c (row_descriptors ls (second_row c ab r' x))) frontier)" if q: "(r', frontier) \<in> set qs" for r' frontier
    proof -
      have ents: "map (\<lambda>(entity, relation, gate, address). entity) (map (?adr r') frontier) = map fst frontier" by simp
      have rng: "0 \<le> e \<and> e < entity_count (base c)" if "e \<in> set (map fst frontier)" for e
        using that r [OF q] slot_target by auto
      have "directory_plain c ls ! (nat (fst x) * nat (relation_count c) + nat (r' - 1)) =
          packed_columns c (row_descriptors ls (second_row c ab r' x))" if "x \<in> set frontier" for x
        using dir(2) second_row_less [of c x r' ab] r [OF q] that False by (simp add: second_row_def dense_row_def)
      then show ?thesis
        unfolding ents using read_folded_spec [where ents = "map fst frontier" and r = r', OF v bits dir(1) _ _ rng] r [OF q]
        by (simp add: comp_def cong: map_cong)
    qed
    have "second_descriptors ops c ab blocks block_max (directory_plain c ls) table
        (map (\<lambda>(r, frontier). (r, map (?adr r) frontier)) qs) =
        concat (map (\<lambda>(r, frontier). concat (map (\<lambda>x. packed_columns c (row_descriptors ls (second_row c ab r x))) frontier)) qs)"
      using False d one by (auto simp: second_descriptors_def Let_def intro!: arg_cong [where f = concat] split: prod.splits)
    moreover have "concat (concat (map g qs)) = concat (map (\<lambda>q. concat (g q)) qs)" for g :: "int \<times> page_record list \<Rightarrow> int list list"
      by (induction qs) simp_all
    ultimately show ?thesis by (simp add: case_prod_unfold)
  qed
qed


lemma page_ranking_spec:
  assumes bits: "packed_edge_bits (base c) \<le> w" and k: "1 \<le> top_k (base c)" and p: "params_ok (pages c)"
    and frontier: "\<And>x. x \<in> set frontier \<Longrightarrow> slot_ok c x"
    and slots: "\<And>x y. x \<in> set frontier \<Longrightarrow> y \<in> set (slots x) \<Longrightarrow> slot_ok c y"
    and len: "\<And>x. x \<in> set frontier \<Longrightarrow> length (slots x) = length (owners (base c)) * nat (slots_per_key (pages c))"
    and read: "\<And>x. x \<in> set frontier \<Longrightarrow> fst x \<noteq> 0 \<Longrightarrow> read_key c ls False (fst x, r) = Inr (slots x)"
    and parts: "traverse (expand_paged c ls r) (enumerate 0 frontier) = Inr parts"
  shows "page_ranking ops c (map record_hop frontier) (map (\<lambda>x. map record_hop (slots x)) frontier) =
      top_k_results (deduplicate_terminal_answers (base c)) (top_k (base c)) (concat parts) \<and>
    list_all (row_ok p) (top_k_results (deduplicate_terminal_answers (base c)) (top_k (base c)) (concat parts)) \<and>
    length (top_k_results (deduplicate_terminal_answers (base c)) (top_k (base c)) (concat parts)) = nat (top_k (base c))"
proof -
  let ?cells = "concat (map (\<lambda>x. map (record_cell c x) (slots x)) frontier)"
  let ?width = "length (owners (base c)) * nat (slots_per_key (pages c))"
  have "0 \<le> slots_per_key (pages c)" using p by (simp add: slots_per_key_def params_ok_def)
  then have width: "int ?width = int (length (owners (base c))) * slots_per_key (pages c)" by simp
  have cells: "concat (map2 (\<lambda>first. map (page_pair ops c first)) (map record_hop frontier) (map (\<lambda>x. map record_hop (slots x)) frontier)) = ?cells"
    using page_pair_spec(1) [OF bits frontier slots]
    by (auto simp: zip_map_map zip_same_conv_map intro!: arg_cong [where f = concat])
  have ok: "list_all (cell_ok p w) ?cells"
    using page_pair_spec(2) [OF bits frontier slots] by (auto simp: list_all_iff)
  have "rank_block ops (deduplicate_terminal_answers (base c)) (nat (top_k (base c))) ?cells =
      top_k_results (deduplicate_terminal_answers (base c)) (top_k (base c)) (concat parts)"
    using live_paged_candidates [OF read len width parts]
    unfolding rank_block_spec [OF ok k] zip_replicate_False by (simp add: top_k_strip)
  with rank_block_rows [OF ok k, of "deduplicate_terminal_answers (base c)"] show ?thesis
    by (simp add: page_ranking_def cells)
qed

lemma second_keys_spec:
  fixes ab :: page_ablations
  assumes ok: "page_config_ok c" and d: "dense_config c" and ls: "layouts_ok c rowss ls" and bits: "packed_edge_bits (base c) \<le> w"
    and r: "1 \<le> r" "r \<le> relation_count c" and x: "slot_ok c x"
  defines "key \<equiv> second_key c ab ls r x"
  shows "key_ok c p (pools_of ls) key"
    and "fst x \<noteq> 0 \<Longrightarrow> read_key c ls False (fst x, r) = Inr (key_slots c (pools_of ls) key)"
    and "length (key_slots c (pools_of ls) key) = length ls * nat (slots_per_key (pages c))"
    and "y \<in> set (key_slots c (pools_of ls) key) \<Longrightarrow> slot_ok c y"
proof -
  from ok have p: "params_ok (pages c)" and v: "valid_config (base c)" by (simp_all add: page_config_ok_def)
  have "in_prime (2 ^ w) r" using page_widths(3) [OF v bits] r by (simp add: in_prime_def)
  then have q: "in_prime p r" by (rule small)
  show key: "key_ok c p (pools_of ls) key"
    "fst x \<noteq> 0 \<Longrightarrow> read_key c ls False (fst x, r) = Inr (key_slots c (pools_of ls) key)"
  proof -
    have "key_ok c p (pools_of ls) key \<and> (fst x \<noteq> 0 \<longrightarrow> read_key c ls False (fst x, r) = Inr (key_slots c (pools_of ls) key))"
    proof (cases "fst x = 0")
      case True
      note ds = row_descriptors_ok [OF ok d ls second_row_less [OF x r, of ab]]
      have "key = (row_descriptors ls (second_row c ab r x), False, r)" by (simp add: key_def second_key_def True)
      then show ?thesis using key_closed(1) [OF p _ ds(1) q, of "pools_of ls"] ds(2) True by simp
    next
      case False
      then have "key_in_range c (fst x, r)" using slot_target [OF x] r by (simp add: key_in_range_def)
      moreover have "key = real_key c ls (fst x) r" using False by (simp add: key_def second_key_def real_key_def second_row_def)
      ultimately show ?thesis using layouts_read [OF ok d ls _ q] by simp
    qed
    then show "key_ok c p (pools_of ls) key"
      "fst x \<noteq> 0 \<Longrightarrow> read_key c ls False (fst x, r) = Inr (key_slots c (pools_of ls) key)" by blast+
  qed
  from key_slots_shape [OF p pools_of_ok [OF ls] key(1)]
  show "length (key_slots c (pools_of ls) key) = length ls * nat (slots_per_key (pages c))"
    "y \<in> set (key_slots c (pools_of ls) key) \<Longrightarrow> slot_ok c y" by simp_all
qed

end

lemma paged_candidates_frontier:
  "paged_candidates c ls (s, r1, r2) =
    bindr (oracle_frontier c ls (s, r1)) (\<lambda>frontier.
    bindr (traverse (expand_paged c ls r2) (enumerate 0 frontier)) (\<lambda>parts. Inr (concat parts)))"
  by (cases "read_key c ls True (s, r1)") (simp_all add: paged_candidates_def oracle_frontier_def)

lemma zip_map_same: "zip (map f xs) (map g xs) = map (\<lambda>x. (f x, g x)) xs"
  by (induction xs) simp_all

definition first_key :: "page_config \<Rightarrow> owner_page_layout list \<Rightarrow> int \<times> int \<times> int \<Rightarrow> page_key" where
  "first_key c ls = (\<lambda>(s, r1, r2). real_key c ls s r1)"

context mpc_machine
begin

text \<open>The frontiers of the batch: directory, windows and compaction of the first hop.\<close>

lemma first_hop_spec:
  fixes blocks :: "(int \<times> int \<times> int) list" and table :: "int list list"
  assumes ok: "page_config_ok c" and d: "dense_config c" and fit: "bits_fit c w" and ls: "layouts_ok c rowss ls"
    and n: "length ls = length (owners (base c))" and batch: "0 < batch"
    and abl: "ablate_compaction ab \<Longrightarrow> check_compaction_ablation c = Inr ()"
    and ids: "\<And>s r1 r2. (s, r1, r2) \<in> set ids \<Longrightarrow> key_in_range c (s, r1)"
    and F: "\<And>s r1 r2. (s, r1, r2) \<in> set ids \<Longrightarrow> oracle_frontier c ls (s, r1) = Inr (frontier (s, r1, r2))"
  defines "queries \<equiv> map query_triple ids"
  defines "firsts \<equiv> map (\<lambda>query. directory_address ops c blocks (query ! 0) (query ! 1)) queries"
  defines "columns \<equiv> split_columns c (length ids) (first_descriptors ops c (directory_plain c ls) table (map snd firsts)
            (map2 (\<lambda>query first. (query ! 0, query ! 1, fst first)) queries firsts))"
  shows "map (page_frontier ops c ab) (read_keys ops c ab batch (concat (pools_of ls))
      (map2 (\<lambda>columns (query, first). (columns, fst first, query ! 1)) columns (zip queries firsts))) =
    map (\<lambda>i. map record_hop (frontier i)) ids"
proof -
  from ok have p: "params_ok (pages c)" and v: "valid_config (base c)" by (simp_all add: page_config_ok_def)
  have bits: "packed_edge_bits (base c) \<le> w" using fit by (simp add: bits_fit_def)
  note dir = directory_plain_ok [OF ok d fit ls]
  let ?row = "\<lambda>(s, r1, r2). dense_row c s r1"
  have rng: "0 \<le> s \<and> s < entity_count (base c) \<and> 1 \<le> r1 \<and> r1 \<le> relation_count c \<and> s \<noteq> 0" if "(s, r1, r2) \<in> set ids" for s r1 r2
    using ids [OF that] by (auto simp: key_in_range_def)
  have row: "?row i < row_count c" if "i \<in> set ids" for i
    using dense_row_less rng that by (cases i) auto
  have firsts: "firsts = map (\<lambda>i. (1, int (?row i))) ids"
    unfolding firsts_def queries_def map_map
  proof (rule map_cong [OF refl])
    fix i assume i: "i \<in> set ids"
    obtain s r1 r2 where e: "i = (s, r1, r2)" by (metis prod.exhaust)
    have r: "0 \<le> s" "s < entity_count (base c)" "1 \<le> r1" "r1 \<le> relation_count c" "s \<noteq> 0" using rng i e by blast+
    show "((\<lambda>query. directory_address ops c blocks (query ! 0) (query ! 1)) \<circ> query_triple) i = (1, int (?row i))"
      using d dense_address_spec [OF v bits r(1-4)] r(5) dense_row_int [OF r(1,3), of c]
      by (simp add: directory_address_def e query_triple_def)
  qed
  have range: "0 \<le> a \<and> a < int (row_count c)" if "a \<in> set (map snd firsts)" for a
    using that row by (auto simp: firsts)
  have "read_directory ops c (directory_plain c ls) (map snd firsts) =
      concat (map (\<lambda>a. directory_plain c ls ! nat a) (map snd firsts))"
    by (rule read_directory_spec [OF v bits d dir(1) range])
  also have "map (\<lambda>a. directory_plain c ls ! nat a) (map snd firsts) = map (\<lambda>i. packed_columns c (row_descriptors ls (?row i))) ids"
    using dir(2) [OF row] by (simp add: firsts)
  finally have "first_descriptors ops c (directory_plain c ls) table (map snd firsts) ks =
      concat (map (\<lambda>i. packed_columns c (row_descriptors ls (?row i))) ids)" for ks
    using d by (simp add: first_descriptors_def)
  then have columns: "columns = map (\<lambda>i. packed_columns c (row_descriptors ls (?row i))) ids"
    unfolding columns_def by (simp only:) (rule split_columns_concat, auto simp: packed_columns_def Let_def)
  have keys: "map2 (\<lambda>columns (query, first). (columns, fst first, query ! 1)) columns (zip queries firsts) =
      map (address_of c) (map (first_key c ls) ids)"
    unfolding columns firsts queries_def zip_map_same map_map
    by (rule map_cong [OF refl]) (auto simp: address_of_def first_key_def real_key_def query_triple_def)
  have q: "in_prime p r1" if "(s, r1, r2) \<in> set ids" for s r1 r2
  proof -
    have "in_prime (2 ^ w) r1" using page_widths(3) [OF v bits] rng [OF that] by (simp add: in_prime_def)
    then show ?thesis by (rule small)
  qed
  have first: "key_ok c p (pools_of ls) (first_key c ls i)"
      "read_key c ls False (fst i, fst (snd i)) = Inr (key_slots c (pools_of ls) (first_key c ls i))" if "i \<in> set ids" for i
    using layouts_read [OF ok d ls ids q] that by (cases i; simp add: first_key_def; blast)+
  have "read_keys ops c ab batch (concat (pools_of ls)) (map (address_of c) (map (first_key c ls) ids)) =
      map (\<lambda>key. map record_hop (key_slots c (pools_of ls) key)) (map (first_key c ls) ids)"
    by (rule read_keys_spec [OF fit p pools_of_ok [OF ls] _ batch]) (use n first(1) in \<open>auto simp: list_all_iff\<close>)
  then show ?thesis
    unfolding keys map_map comp_def
  proof (simp only: map_map comp_def, intro map_cong refl)
    fix i assume i: "i \<in> set ids"
    obtain s r1 r2 where e: "i = (s, r1, r2)" by (metis prod.exhaust)
    show "page_frontier ops c ab (map record_hop (key_slots c (pools_of ls) (first_key c ls i))) = map record_hop (frontier i)"
      using page_frontier_spec(1) [OF ok fit conjunct1 [OF ls] n ids abl _ F] first(2) [OF i] i by (simp add: e)
  qed
qed

lemma second_hop_spec:
  fixes blocks :: "(int \<times> int \<times> int) list" and table :: "int list list" and block_max :: nat and ab :: page_ablations
  assumes ok: "page_config_ok c" and d: "dense_config c" and fit: "bits_fit c w" and ls: "layouts_ok c rowss ls"
    and n: "length ls = length (owners (base c))" and batch: "0 < batch"
    and qs: "\<And>r frontier. (r, frontier) \<in> set qs \<Longrightarrow> 1 \<le> r \<and> r \<le> relation_count c \<and> (\<forall>x \<in> set frontier. slot_ok c x)"
  defines "keys \<equiv> concat (map (\<lambda>(r, frontier). second_addresses ops c ab blocks r (map record_hop frontier)) qs)"
  defines "columns \<equiv> split_columns c (length keys) (second_descriptors ops c ab blocks block_max (directory_plain c ls) table
      (map (\<lambda>(r, frontier). (r, second_addresses ops c ab blocks r (map record_hop frontier))) qs))"
  shows "read_keys ops c ab batch (concat (pools_of ls))
      (map2 (\<lambda>columns (entity, relation, gate, address). (columns, gate, relation)) columns keys) =
    concat (map (\<lambda>(r, frontier). map (\<lambda>x. map record_hop (key_slots c (pools_of ls) (second_key c ab ls r x))) frontier) qs)"
proof -
  from ok have p: "params_ok (pages c)" and v: "valid_config (base c)" by (simp_all add: page_config_ok_def)
  have bits: "packed_edge_bits (base c) \<le> w" using fit by (simp add: bits_fit_def)
  let ?adr = "\<lambda>r x. (fst x, r, flag (fst x \<noteq> 0), if fst x = 0 then 0 else int (dense_row c (fst x) r))"
  let ?col = "\<lambda>r x. packed_columns c (row_descriptors ls (second_row c ab r x))"
  have adr: "second_addresses ops c ab blocks r (map record_hop frontier) = map (?adr r) frontier" if "(r, frontier) \<in> set qs" for r frontier
    using second_addresses_spec [OF v bits d] qs [OF that] by blast
  have adrs: "map (\<lambda>(r, frontier). second_addresses ops c ab blocks r (map record_hop frontier)) qs = map (\<lambda>(r, frontier). map (?adr r) frontier) qs"
    "map (\<lambda>(r, frontier). (r, second_addresses ops c ab blocks r (map record_hop frontier))) qs = map (\<lambda>(r, frontier). (r, map (?adr r) frontier)) qs"
    using adr by auto
  have keys: "keys = concat (map (\<lambda>(r, frontier). map (?adr r) frontier) qs)" unfolding keys_def adrs(1) ..
  have "length (concat (map (\<lambda>(r, frontier). map (?col r) frontier) qs)) = length keys"
    unfolding keys by (induction qs) auto
  moreover have "second_descriptors ops c ab blocks block_max (directory_plain c ls) table (map (\<lambda>(r, frontier). (r, map (?adr r) frontier)) qs) =
      concat (concat (map (\<lambda>(r, frontier). map (?col r) frontier) qs))"
    by (rule second_descriptors_spec [OF ok d fit ls]) (use qs in blast)
  ultimately have columns: "columns = concat (map (\<lambda>(r, frontier). map (?col r) frontier) qs)"
    unfolding columns_def adrs(2) by (simp only:) (rule split_columns_concat, auto simp: packed_columns_def Let_def)
  have all: "map2 (\<lambda>columns (entity, relation, gate, address). (columns, gate, relation)) columns keys =
      map (address_of c) (concat (map (\<lambda>(r, frontier). map (second_key c ab ls r) frontier) qs))"
  proof -
    have "map2 (\<lambda>columns (entity, relation, gate, address). (columns, gate, relation)) columns keys =
        concat (map (\<lambda>q. map2 (\<lambda>columns (entity, relation, gate, address). (columns, gate, relation))
          (case q of (r, frontier) \<Rightarrow> map (?col r) frontier) (case q of (r, frontier) \<Rightarrow> map (?adr r) frontier)) qs)"
      unfolding columns keys by (rule zip_concat_maps) (auto split: prod.split)
    also have "\<dots> = concat (map (\<lambda>(r, frontier). map (address_of c) (map (second_key c ab ls r) frontier)) qs)"
      by (intro arg_cong [where f = concat] map_cong refl)
        (auto simp: zip_map_same address_of_def second_key_def split: prod.split)
    finally show ?thesis by (simp add: map_concat comp_def case_prod_unfold)
  qed
  have "list_all (key_ok c p (pools_of ls)) (concat (map (\<lambda>(r, frontier). map (second_key c ab ls r) frontier) qs))"
    using second_keys_spec(1) [OF ok d ls bits] qs by (fastforce simp: list_all_iff)
  from read_keys_spec [OF fit p pools_of_ok [OF ls] _ batch this, of ab] n show ?thesis
    unfolding all by (simp add: map_concat comp_def case_prod_unfold)
qed

end

context mpc_machine
begin

lemma page_results_spec:
  assumes ok: "page_config_ok c" and d: "dense_config c" and fit: "bits_fit c w" and ls: "layouts_ok c rowss ls"
    and n: "length ls = length (owners (base c))" and abl: "ablate_compaction ab \<Longrightarrow> check_compaction_ablation c = Inr ()"
    and ids: "\<And>s r1 r2. (s, r1, r2) \<in> set ids \<Longrightarrow> key_in_range c (s, r1) \<and> 1 \<le> r2 \<and> r2 \<le> relation_count c"
    and cands: "\<And>i. i \<in> set ids \<Longrightarrow> paged_candidates c ls i = Inr (cands i)"
    and shares: "shares_of p inputs (page_input c ids ls @ rest)"
  shows "page_results ops c ab blocks block_max (length ids) inputs =
      map (\<lambda>i. top_k_results (deduplicate_terminal_answers (base c)) (top_k (base c)) (cands i)) ids \<and>
    list_all (\<lambda>rows. list_all (row_ok p) rows \<and> length rows = nat (top_k (base c)))
      (page_results ops c ab blocks block_max (length ids) inputs)"
proof -
  from ok have p: "params_ok (pages c)" and v: "valid_config (base c)" by (simp_all add: page_config_ok_def)
  have bits: "packed_edge_bits (base c) \<le> w" using fit by (simp add: bits_fit_def)
  let ?n = "length ids" and ?width = "nat (page_frontier_slots c)" and ?batch = "owner_read_batch c (length ids)"
  have batch: "0 < ?batch" using valid_owner_count [OF v] by (auto simp: owner_read_batch_def less_max_iff_disj)
  define F where "F i = projr (oracle_frontier c ls (fst i, fst (snd i)))" for i :: "int \<times> int \<times> int"
  define S where "S i x = key_slots c (pools_of ls) (second_key c ab ls (snd (snd i)) x)" for i :: "int \<times> int \<times> int" and x
  have run: "oracle_frontier c ls (s, r1) = Inr (F (s, r1, r2))"
      "\<exists>parts. traverse (expand_paged c ls r2) (enumerate 0 (F (s, r1, r2))) = Inr parts \<and> cands (s, r1, r2) = concat parts"
    if "(s, r1, r2) \<in> set ids" for s r1 r2
    using cands [OF that] by (auto simp: paged_candidates_frontier F_def res_simps)
  have F: "length (F i) = ?width" "\<And>x. x \<in> set (F i) \<Longrightarrow> slot_ok c x" if i: "i \<in> set ids" for i
  proof -
    obtain s r1 r2 where e: "i = (s, r1, r2)" by (metis prod.exhaust)
    have key: "key_in_range c (s, r1)" using ids i e by blast
    from owners_read_twice(1) [OF ok conjunct1 [OF ls] key] obtain slots where "read_key c ls False (s, r1) = Inr slots" by blast
    from page_frontier_spec(2,3) [OF ok fit conjunct1 [OF ls] n key abl this run(1)] i e
    show "length (F i) = ?width" "\<And>x. x \<in> set (F i) \<Longrightarrow> slot_ok c x" by blast+
  qed
  let ?qs = "map (\<lambda>i. (snd (snd i), F i)) ids"
  have qs: "1 \<le> r \<and> r \<le> relation_count c \<and> (\<forall>x \<in> set frontier. slot_ok c x)" if "(r, frontier) \<in> set ?qs" for r frontier
    using that ids F(2) by auto
  obtain inputs1 where m1: "shared_matrix ops ?n 3 inputs = (map query_triple ids, inputs1)"
      "shares_of p inputs1 (concat (directory_plain c ls) @ concat (concat (pools_of ls)) @ rest)"
  proof -
    have "length r = 3" if "r \<in> set (map query_triple ids)" for r using that by (auto simp: query_triple_def)
    from shared_matrix_spec [OF shares [unfolded page_input_def append_assoc] _ this] that show thesis by simp blast
  qed
  note dir = directory_plain_ok [OF ok d fit ls]
  obtain inputs2 where m2: "shared_matrix ops (row_count c) (nat (directory_columns c)) inputs1 = (directory_plain c ls, inputs2)"
      "shares_of p inputs2 (concat (concat (pools_of ls)) @ rest)"
  proof -
    have "length r = nat (directory_columns c)" if "r \<in> set (directory_plain c ls)" for r
      using dir(1) that by (auto simp: matrix_ok_def in_set_conv_nth)
    from shared_matrix_spec [OF m1(2) _ this] dir(1) that show thesis by (simp add: matrix_ok_def) blast
  qed
  obtain inputs3 where m3: "shared_matrix ops (length (owners (base c)) * nat (pool_rows (pages c))) (nat (page_size (pages c))) inputs2 =
      (concat (pools_of ls), inputs3)"
  proof -
    have pool: "length pool = nat (pool_rows (pages c))" "\<And>r. r \<in> set pool \<Longrightarrow> length r = nat (page_size (pages c))"
      if "pool \<in> set (pools_of ls)" for pool
      using pools_of_ok [OF ls] that by (auto simp: list_all_iff pool_ok_def page_width_def)
    have "length (concat (pools_of ls)) = length (owners (base c)) * nat (pool_rows (pages c))"
      using pool(1) n by (subst length_concat_uniform [of _ "nat (pool_rows (pages c))"]) auto
    moreover have "length r = nat (page_size (pages c))" if "r \<in> set (concat (pools_of ls))" for r using that pool(2) by fastforce
    ultimately show thesis using shared_matrix_spec [OF m2(2)] that by blast
  qed
  have matrices: "directory_matrices ops c inputs1 = (directory_plain c ls, [], inputs2)"
    using d m2(1) by (simp add: directory_matrices_def)
  let ?firsts = "map (\<lambda>query. directory_address ops c blocks (query ! 0) (query ! 1)) (map query_triple ids)"

  have frontiers: "map (page_frontier ops c ab) (read_keys ops c ab ?batch (concat (pools_of ls))
      (map2 (\<lambda>columns (query, first). (columns, fst first, query ! 1))
        (split_columns c ?n (first_descriptors ops c (directory_plain c ls) [] (map snd ?firsts)
            (map2 (\<lambda>query first. (query ! 0, query ! 1, fst first)) (map query_triple ids) ?firsts)))
        (zip (map query_triple ids) ?firsts))) = map (\<lambda>i. map record_hop (F i)) ids"
    by (rule first_hop_spec [OF ok d fit ls n batch abl]) (use ids run(1) in blast)+
  have seconds: "map2 (\<lambda>query frontier. (query ! 2, second_addresses ops c ab blocks (query ! 2) frontier))
      (map query_triple ids) (map (\<lambda>i. map record_hop (F i)) ids) =
      map (\<lambda>(r, frontier). (r, second_addresses ops c ab blocks r (map record_hop frontier))) ?qs"
    unfolding zip_map_same map_map by (rule map_cong [OF refl]) (auto simp: query_triple_def)
  let ?keys = "concat (map (\<lambda>(r, frontier). second_addresses ops c ab blocks r (map record_hop frontier)) ?qs)"
  have hop2: "read_keys ops c ab ?batch (concat (pools_of ls))
      (map2 (\<lambda>columns (entity, relation, gate, address). (columns, gate, relation))
        (split_columns c (length ?keys) (second_descriptors ops c ab blocks block_max (directory_plain c ls) []
          (map (\<lambda>(r, frontier). (r, second_addresses ops c ab blocks r (map record_hop frontier))) ?qs))) ?keys) =
      concat (map (\<lambda>(r, frontier). map (\<lambda>x. map record_hop (key_slots c (pools_of ls) (second_key c ab ls r x))) frontier) ?qs)"
    by (rule second_hop_spec [OF ok d fit ls n batch]) (use qs in blast)
  have flat: "concat (map (\<lambda>(r, frontier). map (\<lambda>x. map record_hop (key_slots c (pools_of ls) (second_key c ab ls r x))) frontier) ?qs) =
      concat (map (\<lambda>i. map (\<lambda>x. map record_hop (S i x)) (F i)) ids)"
    by (simp add: S_def comp_def)
  have snds: "concat (map snd (map (\<lambda>(r, frontier). (r, second_addresses ops c ab blocks r (map record_hop frontier))) ?qs)) = ?keys"
    by (simp add: comp_def case_prod_unfold)
  have results: "page_results ops c ab blocks block_max ?n inputs =
      map (\<lambda>(query_index, frontier). page_ranking ops c frontier (take ?width (drop (query_index * ?width)
        (concat (map (\<lambda>i. map (\<lambda>x. map record_hop (S i x)) (F i)) ids)))))
        (enumerate 0 (map (\<lambda>i. map record_hop (F i)) ids))"
    unfolding page_results_def Let_def m1(1) prod.case matrices m3 frontiers seconds snds hop2 flat ..
  have rank: "page_ranking ops c (map record_hop (F i)) (map (\<lambda>x. map record_hop (S i x)) (F i)) =
      top_k_results (deduplicate_terminal_answers (base c)) (top_k (base c)) (cands i) \<and>
      list_all (row_ok p) (top_k_results (deduplicate_terminal_answers (base c)) (top_k (base c)) (cands i)) \<and>
      length (top_k_results (deduplicate_terminal_answers (base c)) (top_k (base c)) (cands i)) = nat (top_k (base c))"
    if i: "i \<in> set ids" for i
  proof -
    obtain s r1 r2 where e: "i = (s, r1, r2)" by (metis prod.exhaust)
    obtain parts where parts: "traverse (expand_paged c ls r2) (enumerate 0 (F i)) = Inr parts" "cands i = concat parts"
      using run(2) i e by blast
    have r2: "1 \<le> r2" "r2 \<le> relation_count c" using ids i e by blast+
    note sk = second_keys_spec [OF ok d ls bits r2 F(2) [OF i]]
    have S: "S i x = key_slots c (pools_of ls) (second_key c ab ls r2 x)" for x by (simp add: S_def e)
    show ?thesis
      unfolding parts(2)
      by (rule page_ranking_spec [OF bits valid_top_k(1) [OF v] p F(2) [OF i] _ _ _ parts(1)]) (use sk n in \<open>simp_all add: S\<close>)
  qed
  have "page_results ops c ab blocks block_max ?n inputs =
      map (\<lambda>i. page_ranking ops c (map record_hop (F i)) (map (\<lambda>x. map record_hop (S i x)) (F i))) ids"
  proof -
    have "take ?width (drop (q * ?width) (concat (map (\<lambda>i. map (\<lambda>x. map record_hop (S i x)) (F i)) ids))) =
        map (\<lambda>x. map record_hop (S (ids ! q) x)) (F (ids ! q))" if "q < ?n" for q
      by (rule concat_map_slice) (use F(1) that in simp_all)
    then show ?thesis unfolding results by (intro nth_equalityI) (simp_all add: nth_enumerate_eq)
  qed
  also have "\<dots> = map (\<lambda>i. top_k_results (deduplicate_terminal_answers (base c)) (top_k (base c)) (cands i)) ids"
    using rank by simp
  finally show ?thesis using rank by (simp add: list_all_iff)
qed

end

section \<open>Against the oracle\<close>

lemma resolved_layouts:
  assumes ok: "page_config_ok c"
    and owners: "distinct (map fst owner_edges)" "fst ` set owner_edges = set (owners (base c))"
    and built: "resolve_layouts c owner_edges None = Inr ls"
    and checked: "global_frontier (pages c) \<noteq> None \<Longrightarrow> is_ok (check_global_frontier c owner_edges)"
  shows "\<exists>rowss. layouts_ok c rowss ls \<and> length ls = length (owners (base c)) \<and>
    (\<forall>s r1 r2. key_in_range c (s, r1) \<and> 1 \<le> r2 \<and> r2 \<le> relation_count c \<longrightarrow> is_ok (paged_candidates c ls (s, r1, r2)))"
proof -
  let ?owners = "owners (base c)" and ?edges = "\<lambda>owner. get_or [] owner_edges owner"
  from ok have v: "valid_config (base c)" by (simp add: page_config_ok_def)
  from built have run: "traverse (\<lambda>owner. build_owner_page_layout c owner (?edges owner)) ?owners = Inr ls"
    by (simp add: resolve_layouts_def)
  have lay: "build_owner_page_layout c (?owners ! i) (?edges (?owners ! i)) = Inr (ls ! i)" "length ls = length ?owners" if "i < length ?owners" for i
    using traverse_nth [OF run that] length_traverse [OF run] by simp_all
  have len: "length ls = length ?owners" using length_traverse [OF run] .
  define rows where "rows owner = projr (traverse (validated_edge (base c)) (?edges owner))" for owner
  have rows: "traverse (validated_edge (base c)) (?edges owner) = Inr (rows owner)" if o: "owner \<in> set ?owners" for owner
  proof -
    from o obtain i where "i < length ?owners" "owner = ?owners ! i" by (auto simp: in_set_conv_nth)
    with lay(1) have "\<exists>l. build_owner_page_layout c owner (?edges owner) = Inr l" by blast
    then show ?thesis unfolding build_layout_iff [OF ok] by (auto simp: rows_def)
  qed
  have one: "layout_holds c (rows (?owners ! i)) (ls ! i) \<and> rows_fit_pages c (rows (?owners ! i)) \<and> layout_plain c (ls ! i)"
    if "i < length ?owners" for i
  proof -
    have o: "?owners ! i \<in> set ?owners" using that by simp
    from build_layout_run [OF ok o rows [OF o]] lay(1) [OF that] built_layout_plain [OF ok lay(1) [OF that] rows [OF o]]
    show ?thesis by blast
  qed
  have hold: "layouts_hold c (map rows ?owners) ls"
    unfolding layouts_hold_def list_all2_conv_all_nth using one rows len nth_mem by fastforce
  have plain: "list_all (layout_plain c) ls" using one len by (simp add: list_all_length)
  have "is_ok (paged_candidates c ls (s, r1, r2))"
    if key: "key_in_range c (s, r1)" and r2: "1 \<le> r2" "r2 \<le> relation_count c" for s r1 r2
  proof -
    have "int (length (hop_rows (concat (map rows ?owners)) s r1)) \<le> g" if g: "global_frontier (pages c) = Some g" for g
    proof -
      from checked g obtain report where chk: "check_global_frontier c owner_edges = Inr report" by (auto simp: is_ok_iff)
      have "traverse (validated_edge (base c)) edges = Inr (rows owner)" if "(owner, edges) \<in> set owner_edges" for owner edges
      proof -
        have "owner \<in> set ?owners" using owners(2) imageI [OF that, of fst] by simp
        from rows [OF this] get_or_in [OF that owners(1)] show ?thesis by simp
      qed
      then have all2: "list_all2 (\<lambda>(owner, edges) rs. traverse (validated_edge (base c)) edges = Inr rs) owner_edges
          (map (\<lambda>(owner, edges). rows owner) owner_edges)"
        by (auto simp: list_all2_map2 list_all2_same)
      have "mset (concat (map (\<lambda>(owner, edges). rows owner) owner_edges)) = mset (concat (map rows ?owners))"
        using owner_rows_perm [OF owners(1) valid_owners(2) [OF v] owners(2), of "\<lambda>owner edges. rows owner"] by simp
      then have "length (hop_rows (concat (map (\<lambda>(owner, edges). rows owner) owner_edges)) s r1) =
          length (hop_rows (concat (map rows ?owners)) s r1)"
        unfolding hop_rows_def by (metis mset_filter size_mset)
      with checked_frontier [OF ok key chk g all2] show ?thesis by simp
    qed
    from paged_candidates_paths [OF ok hold key r2 this] show ?thesis by (auto simp: is_ok_iff)
  qed
  with hold plain len show ?thesis by blast
qed

lemma validated_bits:
  assumes "page_validate c n = Inr ()"
  shows "bits_fit c (nat (field_usable_bits (base c)))" and "1 \<le> n"
  using assms by (auto simp: page_validate_def bits_fit_def field_usable_bits_def split: if_splits)

lemma paged_circuit_oracle:
  assumes ok: "page_config_ok c" and d: "dense_config c" and machine: "scan_machine ops (base c)"
    and valid: "page_validate c (int (length queries)) = Inr ()"
    and abl: "ablate_compaction ab \<Longrightarrow> check_compaction_ablation c = Inr ()"
    and owners: "distinct (map fst owner_edges)" "fst ` set owner_edges = set (owners (base c))"
    and built: "resolve_layouts c owner_edges None = Inr ls"
    and checked: "global_frontier (pages c) \<noteq> None \<Longrightarrow> is_ok (check_global_frontier c owner_edges)"
    and ids: "traverse (query_ids (base c)) queries = Inr ids"
    and shares: "shares_of (field_prime (base c)) inputs (page_input c ids ls @ rest)"
  shows "traverse (\<lambda>query. evaluate_paged_cleartext c owner_edges query None) queries =
      Inr (page_results ops c ab blocks block_max (length queries) inputs)"
    and "list_all (\<lambda>rows. list_all (row_ok (field_prime (base c))) rows \<and> length rows = nat (top_k (base c)))
      (page_results ops c ab blocks block_max (length queries) inputs)"
    and "length (page_results ops c ab blocks block_max (length queries) inputs) = length queries"
proof -
  from ok have v: "valid_config (base c)" by (simp add: page_config_ok_def)
  obtain rowss where ls: "layouts_ok c rowss ls" and n: "length ls = length (owners (base c))"
      and total: "\<And>s r1 r2. key_in_range c (s, r1) \<Longrightarrow> 1 \<le> r2 \<Longrightarrow> r2 \<le> relation_count c \<Longrightarrow> is_ok (paged_candidates c ls (s, r1, r2))"
    using resolved_layouts [OF ok owners built checked] by blast
  have len: "length ids = length queries" using length_traverse [OF ids] .
  have range: "key_in_range c (s, r1) \<and> 1 \<le> r2 \<and> r2 \<le> relation_count c" if i: "(s, r1, r2) \<in> set ids" for s r1 r2
  proof -
    from i obtain query where "query_ids (base c) query = Inr (s, r1, r2)" using traverse_set [OF ids] by blast
    from query_ids_source [OF v this] query_ids_relations [OF v this] show ?thesis
      by (simp add: key_in_range_def relation_count_def)
  qed
  define cands where "cands i = projr (paged_candidates c ls i)" for i
  have cands: "paged_candidates c ls i = Inr (cands i)" if "i \<in> set ids" for i
  proof -
    obtain s r1 r2 where e: "i = (s, r1, r2)" by (metis prod.exhaust)
    with that range [of s r1 r2] total [of s r1 r2] show ?thesis by (auto simp: cands_def is_ok_iff)
  qed
  from mpc_machine.page_results_spec [where ab = ab and blocks = blocks and block_max = block_max, OF machine ok d validated_bits(1) [OF valid] ls n abl range cands shares]
  have res: "page_results ops c ab blocks block_max (length queries) inputs =
      map (\<lambda>i. top_k_results (deduplicate_terminal_answers (base c)) (top_k (base c)) (cands i)) ids"
    and rows: "list_all (\<lambda>rows. list_all (row_ok (field_prime (base c))) rows \<and> length rows = nat (top_k (base c)))
      (page_results ops c ab blocks block_max (length queries) inputs)"
    unfolding len by blast+
  show "list_all (\<lambda>rows. list_all (row_ok (field_prime (base c))) rows \<and> length rows = nat (top_k (base c)))
      (page_results ops c ab blocks block_max (length queries) inputs)" by (rule rows)
  show "length (page_results ops c ab blocks block_max (length queries) inputs) = length queries" using len by (simp add: res)
  have one: "evaluate_paged_cleartext c owner_edges (queries ! q) None =
      Inr (top_k_results (deduplicate_terminal_answers (base c)) (top_k (base c)) (cands (ids ! q)))" if q: "q < length queries" for q
  proof -
    have "query_ids (base c) (queries ! q) = Inr (ids ! q)" using traverse_nth [OF ids q] .
    moreover have "paged_candidates c ls (ids ! q) = Inr (cands (ids ! q))" using cands q len by simp
    ultimately show ?thesis using owners(2) built by (simp add: evaluate_paged_cleartext_def)
  qed
  have "traverse (\<lambda>query. evaluate_paged_cleartext c owner_edges query None) queries =
      Inr (map (\<lambda>query. projr (evaluate_paged_cleartext c owner_edges query None)) queries)"
  proof (rule traverse_Inr)
    fix query assume "query \<in> set queries"
    then obtain q where "q < length queries" "query = queries ! q" by (auto simp: in_set_conv_nth)
    with one [of q] show "evaluate_paged_cleartext c owner_edges query None = Inr (projr (evaluate_paged_cleartext c owner_edges query None))"
      by simp
  qed
  also have "map (\<lambda>query. projr (evaluate_paged_cleartext c owner_edges query None)) queries =
      page_results ops c ab blocks block_max (length queries) inputs"
    unfolding res using one len by (intro nth_equalityI) simp_all
  finally show "traverse (\<lambda>query. evaluate_paged_cleartext c owner_edges query None) queries =
      Inr (page_results ops c ab blocks block_max (length queries) inputs)" .
qed

end
