(* ===== verification/Page_Pipeline.thy ===== *)
theory Page_Pipeline
  imports Page_Refinement
begin

text \<open>
  The relation-paged backend from its inputs to the decoded answers: the generated program over
  the dense directory validates, runs and prints logs that the client decodes to the
  relation-paged oracle's answers.
\<close>

section \<open>The decoded logs\<close>

lemma page_program_decodes:
  assumes machine: "scan_machine ops (base c)" and d: "dense_config c"
    and valid: "page_validate c (int n) = Inr ()"
    and abl: "ablate_compaction ab \<Longrightarrow> check_compaction_ablation c = Inr ()"
    and rows: "list_all (\<lambda>rows. list_all (row_ok (field_prime (base c))) rows \<and> length rows = nat (top_k (base c)))
      (page_results ops c ab [] 0 n inputs)"
    and len: "length (page_results ops c ab [] 0 n inputs) = n"
  shows "\<exists>l0 l1 l2 g'. page_program ops c ab n inputs g = Inr ((l0, l1, l2), g') \<and>
    decode_batch_logs (base c) (int n) [l0, l1, l2] = Inr (page_results ops c ab [] 0 n inputs)"
proof -
  have one: "1 \<le> n" using validated_bits(2) [OF valid] by simp
  have "page_program ops c ab n inputs g = Inr (emit_all ops (field_prime (base c)) (result_outputs (page_results ops c ab [] 0 n inputs)) g)"
    using valid abl d by (simp add: page_program_def check_compact_def type_blocks_of_def) (simp add: dense_config_def)
  with results_decode [OF machine len one rows, of g] show ?thesis by auto
qed

section \<open>The shared values are canonical\<close>

lemma page_machine:
  assumes "page_config_ok c" and "page_validate c n = Inr ()"
  shows "scan_machine (plain_ops (field_prime (base c))) (base c)"
proof -
  have v: "valid_config (base c)" using assms(1) by (simp add: page_config_ok_def)
  have "field_prime (base c) \<in> set SCALABLE_FIELD_PRIMES" using assms(2) by (auto simp: page_validate_def split: if_splits)
  with usable_bits_below_prime [OF v] show ?thesis
    by (intro plain_machine) (auto simp: field_usable_bits_def field_primes)
qed

lemma page_input_in:
  assumes ok: "page_config_ok c" and d: "dense_config c" and valid: "page_validate c n = Inr ()"
    and ls: "layouts_ok c rowss ls" and ids: "traverse (query_ids (base c)) queries = Inr ids"
  shows "list_all (in_prime (field_prime (base c))) (page_input c ids ls)"
proof -
  let ?p = "field_prime (base c)"
  from ok have v: "valid_config (base c)" by (simp add: page_config_ok_def)
  have scalable: "?p \<in> set SCALABLE_FIELD_PRIMES" and pk: "packable_config (base c)"
    using valid by (auto simp: page_validate_def require_packed_config_def packed_edge_bits_def split: if_splits)
  note fit = validated_bits(1) [OF valid]
  note machine = page_machine [OF ok valid]
  have queries: "in_prime ?p x" if "x \<in> set (concat (map query_triple ids))" for x
    using that traverse_set [OF ids] query_ids_canonical [OF v pk] by (fastforce simp: list_all_iff in_prime_def)
  have cols: "matrix_ok ?p (row_count c) (nat (directory_columns c)) (directory_plain c ls)"
    by (rule mpc_machine.directory_plain_ok(1) [OF machine ok d fit ls])
  then have dir: "in_prime ?p x" if "x \<in> set (concat (directory_plain c ls))" for x
    using that by (fastforce simp: matrix_ok_def list_all_iff in_set_conv_nth)
  have "packed_edge_bits (base c) \<le> nat (field_usable_bits (base c))" using fit by (simp add: bits_fit_def)
  then have pools: "in_prime ?p x" if "x \<in> set (concat (concat (pools_of ls)))" for x
    using that pools_of_ok [OF ls] mpc_machine.stored_cell_in [OF machine]
    by (fastforce simp: list_all_iff pool_ok_def)
  show ?thesis unfolding page_input_def list_all_iff using queries dir pools by (metis Un_iff set_append)
qed

section \<open>Properties\<close>

text \<open>
  C4: The relation-paged circuit refines the relation-paged oracle.  Take a dense layout that
  validates, secret arithmetic with the laws of \<open>mpc_machine\<close>, owner edges whose layouts build
  within the checked federation bound, and queries that resolve.  On any three inputs that are
  additive shares of the queries, the packed directory and the page pools, the circuit (folded
  or flat directory reads, batched or per-owner windows, compacted or not, with a federation-wide
  or a per-owner frontier) holds, row by row and tie by tie, what
  \<open>evaluate_paged_cleartext\<close> returns for each query.
\<close>

theorem paged_circuit_refines:
  assumes "page_config_ok c" and "dense_config c" and "scan_machine ops (base c)"
    and "page_validate c (int (length queries)) = Inr ()"
    and "ablate_compaction ab \<Longrightarrow> check_compaction_ablation c = Inr ()"
    and "distinct (map fst owner_edges)" and "fst ` set owner_edges = set (owners (base c))"
    and "resolve_layouts c owner_edges None = Inr ls"
    and "global_frontier (pages c) \<noteq> None \<Longrightarrow> is_ok (check_global_frontier c owner_edges)"
    and "traverse (query_ids (base c)) queries = Inr ids"
    and "shares_of (field_prime (base c)) inputs (page_input c ids ls)"
  shows "traverse (\<lambda>query. evaluate_paged_cleartext c owner_edges query None) queries =
    Inr (page_results ops c ab [] 0 (length queries) inputs)"
  by (rule paged_circuit_oracle(1) [where rest = "[]" and ids = ids and ls = ls]) (use assms in simp_all)

lemma sample_page_widths: "int (page_base_bits sample_pages) + int (page_count_bits sample_pages) \<le> 124"
    "packed_edge_bits sample_config \<le> 124"
  by code_simp+

lemma sample_page_validate: "page_validate sample_page_config (int (length [sample_query])) = Inr ()"
  using sample_page_widths by (simp add: page_validate_def PAGE_MAX_BATCH_QUERIES_def field_usable_bits_def field_primes uses_hybrid_directory_def
      frontier_slots_def slots_per_key_def descriptor_bits_def)

lemma sample_layouts: "\<exists>ls. resolve_layouts sample_page_config Paged_Join.sample_owner_edges None = Inr ls"
proof -
  let ?build = "\<lambda>owner. build_owner_page_layout sample_page_config owner (get_or [] Paged_Join.sample_owner_edges owner)"
  have "?build owner = Inr (projr (?build owner))" if "owner \<in> set (owners (base sample_page_config))" for owner
    using conjunct1 [OF sample_built [OF that]] by (auto simp: is_ok_iff)
  from traverse_Inr [of "owners (base sample_page_config)" ?build, OF this] show ?thesis by (auto simp: resolve_layouts_def)
qed

theorem paged_circuit_refines_witness:
  "\<exists>inputs. traverse (\<lambda>query. evaluate_paged_cleartext sample_page_config Paged_Join.sample_owner_edges query None) [sample_query] =
     Inr (page_results (plain_ops (field_prime sample_config)) sample_page_config
       \<lparr>ablate_relation_check = False, ablate_window_demux = False, ablate_folded_directory = False,
        ablate_folded_residual = False, ablate_compaction = False, ablate_owner_batching = False\<rparr> [] 0 1 inputs)"
proof -
  let ?c = sample_page_config and ?edges = Paged_Join.sample_owner_edges
  let ?ab = "\<lparr>ablate_relation_check = False, ablate_window_demux = False, ablate_folded_directory = False,
      ablate_folded_residual = False, ablate_compaction = False, ablate_owner_batching = False\<rparr>"
  obtain ls where ls: "resolve_layouts ?c ?edges None = Inr ls" using sample_layouts by blast
  have d: "dense_config ?c" by (simp add: dense_config_def sample_pages_def)
  have keys: "distinct (map fst ?edges)" "fst ` set ?edges = set (owners (base ?c))"
    by (simp_all add: Paged_Join.sample_owner_edges_def)
  have ids: "traverse (query_ids (base ?c)) [sample_query] = Inr [(1, 1, 2)]" using sample_query_ids by simp
  obtain rowss where rowss: "layouts_ok ?c rowss ls"
    using resolved_layouts [OF sample_page_ok keys ls sample_checked] by blast
  have "list_all (in_prime (field_prime (base ?c))) (page_input ?c [(1, 1, 2)] ls)"
    by (rule page_input_in [OF sample_page_ok d sample_page_validate rowss ids])
  from shares_of_trivial [OF this] field_prime_pos [OF sample_valid]
  have shares: "shares_of (field_prime (base ?c)) (page_input ?c [(1, 1, 2)] ls,
      replicate (length (page_input ?c [(1, 1, 2)] ls)) 0, replicate (length (page_input ?c [(1, 1, 2)] ls)) 0)
      (page_input ?c [(1, 1, 2)] ls)" by simp
  have machine: "scan_machine (plain_ops (field_prime sample_config)) (base ?c)" using sample_machine by simp
  from paged_circuit_refines [OF sample_page_ok d machine sample_page_validate _ keys ls sample_checked ids shares, of ?ab]
  show ?thesis by auto
qed

end
