(* ===== verification/Paged_Shares.thy ===== *)
theory Paged_Shares
  imports Page_Pipeline
begin

text \<open>
  Owners' shards of the relation-paged layout and the private input of each server
  (\<open>doram_t2_3pc/paged_shares.py\<close>): the flat vectors of the three directory variants, the shard
  documents, their validation, the assembly that sums the owners' shifted shares into the packed
  columns, and the input of the one-time check of the federation-wide bound.
\<close>

section \<open>An owner's vectors\<close>

definition needed :: "int option \<Rightarrow> int res" where
  "needed x = (case x of None \<Rightarrow> Inl (TypeError ''unsupported operand'') | Some n \<Rightarrow> Inr n)"

definition owner_table_of :: "page_config \<Rightarrow> nat \<Rightarrow> (int \<times> int) list \<Rightarrow> int list res" where
  "owner_table_of c owner_index keyed =
     bindr (needed (directory_buckets (pages c))) (\<lambda>buckets.
     bindr (needed (bucket_slots (pages c))) (\<lambda>slots.
       build_owner_table keyed owner_index buckets (nat slots) (length (owners (base c))) (descriptor_bits (pages c))))"

text \<open>The residual descriptors of one relation, keyed by \<open>source + 1\<close>.\<close>

definition relation_slice :: "page_config \<Rightarrow> (int \<times> int) list \<Rightarrow> int \<Rightarrow> (int \<times> int) list" where
  "relation_slice c residual relation =
     fold (\<lambda>(tag, descriptor) slice.
         let dense_index = tag - 1 in
         if dense_index mod relation_count c + 1 = relation
         then AList.update (dense_index div relation_count c + 1) descriptor slice else slice)
       residual []"

definition residual_vector :: "page_config \<Rightarrow> nat \<Rightarrow> (int \<times> int) list \<Rightarrow> int list res" where
  "residual_vector c owner_index residual =
     (if partition_residual_by_relation (pages c) then
        bindr (traverse (\<lambda>relation. owner_table_of c owner_index (relation_slice c residual relation))
                 [1..relation_count c]) (\<lambda>tables.
        bindr (needed (bucket_slots (pages c))) (\<lambda>slots.
          let values = concat tables; width = int (length (owners (base c))) * slots
          in Inr (values @ replicate (nat (residual_directory_rows c * width - int (length values))) 0)))
      else owner_table_of c owner_index residual)"

definition owner_flat_vector :: "page_config \<Rightarrow> string \<Rightarrow> jval list \<Rightarrow> (int list \<times> int list) res" where
  "owner_flat_vector c owner edges =
     bindr (build_owner_page_layout c owner edges) (\<lambda>layout.
     bindr (directory_rows c) (\<lambda>rows.
     if int (length (directory layout)) \<noteq> rows
     then Inl (AssertionError ''directory height does not match the configuration'')
     else
     bindr (if uses_hybrid_directory c then
              bindr (list_index (owners (base c)) owner) (\<lambda>i.
              bindr (residual_vector c i (residual_descriptors layout)) (\<lambda>residual.
                Inr (directory layout @ residual)))
            else if uses_compact_directory (pages c) then
              bindr (list_index (owners (base c)) owner) (\<lambda>i.
                owner_table_of c i (map (\<lambda>(row, descriptor). (int row + 1, descriptor))
                  (filter (\<lambda>(row, descriptor). descriptor \<noteq> 0) (enumerate 0 (directory layout)))))
            else Inr (directory layout)) (\<lambda>vector.
     if int (length (page_pool layout)) \<noteq> pool_rows (pages c)
     then Inl (AssertionError ''page pool height does not match the configuration'')
     else if \<exists>page \<in> set (page_pool layout). int (length page) \<noteq> page_size (pages c)
     then Inl (AssertionError ''page width does not match the configuration'')
     else Inr (vector, concat (page_pool layout)))))"

section \<open>Owner shards\<close>

definition paged_owner_document ::
  "(jval \<Rightarrow> string) \<Rightarrow> page_config \<Rightarrow> string \<Rightarrow> nat \<Rightarrow> shared_vector \<Rightarrow> shared_vector \<Rightarrow> shared_vector option \<Rightarrow> nat \<Rightarrow> document" where
  "paged_owner_document H c owner index dirs pool occupancy server =
     [(''version'', JInt 1),
      (''kind'', JStr ''paged-owner-shard''),
      (''layout_digest'', JStr (page_config_digest H c)),
      (''owner'', JStr owner),
      (''owner_index'', JInt (int index)),
      (''server'', JInt (int server)),
      (''directory'', JList (map JInt (server_vector server dirs))),
      (''pages'', JList (map JInt (server_vector server pool)))] @
     (case occupancy of None \<Rightarrow> [] | Some vs \<Rightarrow> [(''occupancy'', JList (map JInt (server_vector server vs)))])"

definition create_paged_owner_shards ::
  "(jval \<Rightarrow> string) \<Rightarrow> page_config \<Rightarrow> string \<Rightarrow> jval \<Rightarrow> rng \<Rightarrow> (document list \<times> rng) res" where
  "create_paged_owner_shards H c owner raw g =
     (case raw of
        JList edges \<Rightarrow>
          bindr (owner_flat_vector c owner edges) (\<lambda>(vector, pool).
          bindr (share_vector (field_prime (base c)) vector g) (\<lambda>(dirs, g).
          bindr (share_vector (field_prime (base c)) pool g) (\<lambda>(pools, g).
          bindr (if uses_global_frontier (pages c) then
                   bindr (owner_occupancy_vector c owner edges) (\<lambda>occupancy.
                   bindr (share_vector (field_prime (base c)) occupancy g) (\<lambda>(shares, g). Inr (Some shares, g)))
                 else Inr (None, g)) (\<lambda>(occupancy, g).
          bindr (list_index (owners (base c)) owner) (\<lambda>index.
            Inr (map (paged_owner_document H c owner index dirs pools occupancy) [0..<SERVER_COUNT], g))))))
      | _ \<Rightarrow> Inl (ValueError ''owner edge file must be a JSON list''))"

section \<open>Validation by the receiving server\<close>

definition compact_value_count :: "page_config \<Rightarrow> int res" where
  "compact_value_count c =
     (if uses_compact_directory (pages c) then
        bindr (needed (bucket_slots (pages c))) (\<lambda>slots.
          Inr (residual_directory_rows c * int (length (owners (base c))) * slots))
      else Inr 0)"

definition expected_directory_values :: "page_config \<Rightarrow> int res" where
  "expected_directory_values c =
     bindr (compact_value_count c) (\<lambda>compact.
     if uses_hybrid_directory c then bindr (directory_rows c) (\<lambda>rows. Inr (rows + compact))
     else if compact \<noteq> 0 then Inr compact else directory_rows c)"

definition validated_owner_document ::
  "(jval \<Rightarrow> string) \<Rightarrow> page_config \<Rightarrow> int \<Rightarrow> jval \<Rightarrow> (int \<times> int list \<times> int list) res" where
  "validated_owner_document H c server v =
     bindr (as_document (ValueError ''paged owner shard must be a JSON object'') v) (\<lambda>doc.
     if \<not> (eq_int (jget doc ''version'') 1 \<and> eq_str (jget doc ''kind'') ''paged-owner-shard'' \<and>
            eq_str (jget doc ''layout_digest'') (page_config_digest H c) \<and> eq_int (jget doc ''server'') server)
     then Inl (ValueError ''paged owner shard metadata mismatch'')
     else case strict_int (jget doc ''owner_index'') of
       None \<Rightarrow> Inl (ValueError ''paged owner shard identifies an unknown owner'')
     | Some index \<Rightarrow>
         if \<not> (0 \<le> index \<and> index < int (length (owners (base c)))) \<or>
            \<not> eq_str (jget doc ''owner'') (owners (base c) ! nat index)
         then Inl (ValueError ''paged owner shard identifies an unknown owner'')
         else
           bindr (expected_directory_values c) (\<lambda>expected.
           case (jget doc ''directory'', jget doc ''pages'') of
             (JList ds, JList ps) \<Rightarrow>
               if int (length ds) \<noteq> expected \<or> int (length ps) \<noteq> pool_rows (pages c) * page_size (pages c)
               then Inl (ValueError ''paged owner shard has the wrong value count'')
               else (case (field_values (field_prime (base c)) ds, field_values (field_prime (base c)) ps) of
                   (Some dir, Some pool) \<Rightarrow> Inr (index, dir, pool)
                 | _ \<Rightarrow> Inl (ValueError ''non-canonical paged owner share''))
           | _ \<Rightarrow> Inl (ValueError ''paged owner shard has the wrong value count'')))"

section \<open>Assembly\<close>

text \<open>One row of the packed directory: every owner's value shifted to its place in its column.\<close>

definition column_step :: "page_config \<Rightarrow> (nat \<Rightarrow> int) \<Rightarrow> nat \<Rightarrow> int list \<Rightarrow> int list" where
  "column_step c piece owner columns =
     (let p = field_prime (base c);
          (column, offset) = directory_slot c (int owner);
          shifted = push_bit (nat offset) (piece owner) mod p
      in columns[nat column := (columns ! nat column + shifted) mod p])"

definition column_row :: "page_config \<Rightarrow> (nat \<Rightarrow> int) \<Rightarrow> int list" where
  "column_row c piece =
     fold (column_step c piece) [0..<length (owners (base c))] (replicate (nat (directory_columns c)) 0)"

definition summed_value :: "page_config \<Rightarrow> (nat \<Rightarrow> int) \<Rightarrow> int" where
  "summed_value c piece =
     fold (\<lambda>owner total. (total + piece owner) mod field_prime (base c)) [0..<length (owners (base c))] 0"

definition iter_paged_batch_input_values ::
  "page_config \<Rightarrow> int list \<Rightarrow> (int list \<times> int list) list \<Rightarrow> int list res" where
  "iter_paged_batch_input_values c query_values tables =
     bindr (directory_rows c) (\<lambda>rows.
     bindr (if uses_hybrid_directory c then
              bindr (needed (bucket_slots (pages c))) (\<lambda>slots.
                Inr (residual_directory_rows c * int (length (owners (base c))) * slots))
            else Inr 0) (\<lambda>compact.
     let entry = (\<lambda>position owner. fst (tables ! owner) ! position);
         packed = concat (map (\<lambda>row. column_row c (entry row)) [0..<nat rows]);
         dir = (if uses_hybrid_directory c
                then packed @ map (\<lambda>position. summed_value c (entry (nat rows + position))) [0..<nat compact]
                else if uses_compact_directory (pages c)
                then map (\<lambda>position. summed_value c (entry position)) [0..<length (fst (tables ! 0))]
                else packed)
     in Inr (query_values @ dir @ concat (map snd tables))))"

definition paged_document_step ::
  "(jval \<Rightarrow> string) \<Rightarrow> page_config \<Rightarrow> int \<Rightarrow> jval \<Rightarrow> (int \<times> int list \<times> int list) list \<Rightarrow> (int \<times> int list \<times> int list) list res" where
  "paged_document_step H c server doc by_index =
     bindr (validated_owner_document H c server doc) (\<lambda>(index, dir, pool).
     if index \<in> fst ` set by_index then Inl (ValueError ''duplicate paged owner shard'')
     else Inr (AList.update index (dir, pool) by_index))"

definition paged_tables :: "page_config \<Rightarrow> (int \<times> int list \<times> int list) list \<Rightarrow> (int list \<times> int list) list" where
  "paged_tables c by_index = map (\<lambda>i. get_or ([], []) by_index (int i)) [0..<length (owners (base c))]"

definition assemble_paged_batch_input ::
  "(jval \<Rightarrow> string) \<Rightarrow> page_config \<Rightarrow> int \<Rightarrow> int list \<Rightarrow> jval list \<Rightarrow> int list res" where
  "assemble_paged_batch_input H c server query_values documents =
     (if \<not> (0 \<le> server \<and> server < int SERVER_COUNT) then Inl (ValueError ''server must be 0, 1, or 2'')
      else if length query_values mod 3 \<noteq> 0
      then Inl (ValueError ''query share vector length must be divisible by three'')
      else
      bindr (foldM (paged_document_step H c server) documents []) (\<lambda>by_index.
      if fst ` set by_index \<noteq> {0..<int (length (owners (base c)))}
      then Inl (ValueError ''paged owner shard set is incomplete'')
      else iter_paged_batch_input_values c query_values (paged_tables c by_index)))"

definition assemble_paged_batch_from_paths ::
  "(jval \<Rightarrow> string) \<Rightarrow> page_config \<Rightarrow> int \<Rightarrow> int \<Rightarrow> jval \<Rightarrow> jval list \<Rightarrow> int list res" where
  "assemble_paged_batch_from_paths H c server query_count query_shard shards =
     bindr (as_document (ValueError ''query-batch shard must be a JSON object'') query_shard) (\<lambda>query_document.
     bindr (packed_query_batch_values H (base c) server query_document query_count) (\<lambda>query_values.
       assemble_paged_batch_input H c server query_values shards))"

definition expected_private_input_values :: "page_config \<Rightarrow> int \<Rightarrow> int res" where
  "expected_private_input_values c query_count =
     (let n = int (length (owners (base c))) in
      bindr (if uses_hybrid_directory c then
               bindr (directory_rows c) (\<lambda>rows.
               bindr (needed (bucket_slots (pages c))) (\<lambda>slots.
                 Inr (rows * directory_columns c + residual_directory_rows c * n * slots)))
             else if uses_compact_directory (pages c) then
               bindr (needed (directory_buckets (pages c))) (\<lambda>buckets.
               bindr (needed (bucket_slots (pages c))) (\<lambda>slots. Inr (buckets * n * slots)))
             else bindr (directory_rows c) (\<lambda>rows. Inr (rows * directory_columns c))) (\<lambda>directory_values.
        Inr (query_count * 3 + directory_values + n * pool_rows (pages c) * page_size (pages c))))"

text \<open>The lines of the file; a line \<open>int\<close> refuses is \<open>None\<close>.\<close>

definition input_line :: "int \<Rightarrow> int option \<Rightarrow> int res" where
  "input_line p line =
     (case line of
        None \<Rightarrow> Inl (ValueError ''private server input contains a non-integer'')
      | Some x \<Rightarrow>
          if \<not> (0 \<le> x \<and> x < p)
          then Inl (ValueError ''private server input contains a non-canonical field element'') else Inr x)"

definition validate_private_input :: "page_config \<Rightarrow> int \<Rightarrow> int option list \<Rightarrow> unit res" where
  "validate_private_input c query_count lines =
     bindr (expected_private_input_values c query_count) (\<lambda>expected.
     bindr (traverse (input_line (field_prime (base c))) lines) (\<lambda>values.
       raise_if (int (length values) \<noteq> expected) (ValueError ''private server input has'')))"

section \<open>The input of the bound check\<close>

definition occupancy_rows :: "page_config \<Rightarrow> int res" where
  "occupancy_rows c = (if uses_hybrid_directory c then Inr (dense_directory_rows c) else directory_rows c)"

definition bound_document_step ::
  "(jval \<Rightarrow> string) \<Rightarrow> page_config \<Rightarrow> int \<Rightarrow> int \<Rightarrow> jval \<Rightarrow> int list \<times> int list \<Rightarrow> (int list \<times> int list) res" where
  "bound_document_step H c server rows doc = (\<lambda>(totals, seen).
     bindr (validated_owner_document H c server doc) (\<lambda>(index, _, _).
     if index \<in> set seen then Inl (ValueError ''duplicate paged owner shard'')
     else
     bindr (as_document AttributeError doc) (\<lambda>fields.
     let bad = Inl (ValueError ''paged owner shard is missing a well-formed occupancy vector; '') in
     case jget fields ''occupancy'' of
       JList xs \<Rightarrow>
         if int (length xs) \<noteq> rows then bad
         else (case field_values (field_prime (base c)) xs of
             None \<Rightarrow> bad
           | Some occupancy \<Rightarrow>
               Inr (map2 (\<lambda>total value. (total + value) mod field_prime (base c)) totals occupancy, index # seen))
     | _ \<Rightarrow> bad)))"

definition assemble_bound_check_input ::
  "(jval \<Rightarrow> string) \<Rightarrow> page_config \<Rightarrow> int \<Rightarrow> jval list \<Rightarrow> int list res" where
  "assemble_bound_check_input H c server shards =
     (if \<not> (0 \<le> server \<and> server < int SERVER_COUNT) then Inl (ValueError ''server must be 0, 1, or 2'')
      else if \<not> uses_global_frontier (pages c) then Inl (ValueError ''layout does not declare global_frontier'')
      else
      bindr (occupancy_rows c) (\<lambda>rows.
      bindr (foldM (bound_document_step H c server rows) shards (replicate (nat rows) 0, [])) (\<lambda>(totals, seen).
      if set seen \<noteq> {0..<int (length (owners (base c)))}
      then Inl (ValueError ''paged owner shard set is incomplete'') else Inr totals)))"

section \<open>Packing the owners' columns\<close>

lemma stack_value_snoc: "stack_value w (xs @ [d]) = stack_value w xs + 2 ^ (length xs * w) * d"
  by (induction xs) (simp_all add: algebra_simps power_add)

lemma stack_slice_step:
  fixes per k j :: nat
  assumes "k < length ds" and "0 < per"
  shows "take per (drop (j * per) (take (Suc k) ds)) =
    take per (drop (j * per) (take k ds)) @ (if j = k div per then [ds ! k] else [])"
    and "j = k div per \<Longrightarrow> length (take per (drop (j * per) (take k ds))) = k mod per"
proof -
  have split: "k div per * per + k mod per = k" by simp
  have mod: "k mod per < per" using assms(2) by simp
  show len: "length (take per (drop (j * per) (take k ds))) = k mod per" if "j = k div per"
    using that split mod assms(1) by (simp add: minus_div_mult_eq_mod)
  show "take per (drop (j * per) (take (Suc k) ds)) =
      take per (drop (j * per) (take k ds)) @ (if j = k div per then [ds ! k] else [])"
  proof -
    have snoc: "take (Suc k) ds = take k ds @ [ds ! k]" using assms(1) by (simp add: take_Suc_conv_app_nth)
    consider "j = k div per" | "j < k div per" | "k div per < j" by linarith
    then show ?thesis
    proof cases
      case 1
      then have "j * per \<le> k" by simp
      then show ?thesis using 1 len [OF 1] mod assms(1) by (simp add: snoc drop_append)
    next
      case 2
      then have "Suc j * per \<le> k div per * per" by (intro mult_le_mono1) simp
      also have "\<dots> \<le> k" by simp
      finally have "j * per + per \<le> k" by simp
      then show ?thesis using 2 assms(1) by (simp add: snoc drop_append)
    next
      case 3
      then have "Suc (k div per) * per \<le> j * per" by (intro mult_le_mono1) simp
      moreover have "k < Suc (k div per) * per" using split mod unfolding mult_Suc by linarith
      ultimately have "k < j * per" by linarith
      then show ?thesis using 3 assms(1) by (simp add: snoc drop_append)
    qed
  qed
qed

lemma column_row_packed:
  assumes v: "valid_config (base c)" and fit: "int (descriptor_bits (pages c)) \<le> field_usable_bits (base c)"
    and len: "length ds = length (owners (base c))" and ok: "list_all (descriptor_ok c) ds"
  shows "column_row c ((!) ds) = packed_columns c ds"
proof -
  let ?p = "field_prime (base c)" and ?D = "descriptor_bits (pages c)" and ?cols = "nat (directory_columns c)"
  define per where "per = nat (owners_per_directory_element c)"
  define cell_at where "cell_at k j = stack_value ?D (take per (drop (j * per) (take k ds)))" for k j
  note one = owners_per_element [OF fit]
  have per: "0 < per" using one(1) by (simp add: per_def)
  have small: "0 \<le> cell_at k j \<and> cell_at k j < ?p" for k j
  proof -
    let ?slice = "take per (drop (j * per) (take k ds))"
    have "list_all (\<lambda>d. 0 \<le> d \<and> d < 2 ^ ?D) ?slice"
      using ok by (auto simp: list_all_iff descriptor_ok_def dest!: in_set_takeD in_set_dropD)
    note b = stack_value_bounds [OF this]
    have "length ?slice * ?D \<le> per * ?D" by (intro mult_le_mono1) simp
    moreover have "int (per * ?D) \<le> field_usable_bits (base c)" using one(1,2) by (simp add: per_def)
    ultimately have "length ?slice * ?D \<le> nat (field_usable_bits (base c))" by linarith
    then have "(2 :: int) ^ (length ?slice * ?D) \<le> 2 ^ nat (field_usable_bits (base c))" by (intro power_increasing) simp_all
    with b usable_bits_below_prime [OF v] show ?thesis unfolding cell_at_def by linarith
  qed
  have "fold (column_step c ((!) ds)) [0..<k] (replicate ?cols 0) = map (cell_at k) [0..<?cols]" if "k \<le> length ds" for k
    using that
  proof (induction k)
    case 0
    then show ?case by (simp add: cell_at_def map_replicate_const)
  next
    case (Suc k)
    then have k: "k < length ds" by simp
    note owner = owner_column(1,2) [OF fit len ok k, folded per_def]
    have step: "cell_at (Suc k) j = (if j = k div per then cell_at k j + 2 ^ (k mod per * ?D) * ds ! k else cell_at k j)" for j
      using stack_slice_step [OF k per, of j] by (simp add: cell_at_def stack_value_snoc)
    let ?q = "k div per"
    have put: "column_step c ((!) ds) k cs = cs[?q := (cs ! ?q + push_bit (k mod per * ?D) (ds ! k) mod ?p) mod ?p]" for cs
      by (simp only: column_step_def owner(1) prod.case Let_def nat_int)
    have "(cell_at k ?q + push_bit (k mod per * ?D) (ds ! k) mod ?p) mod ?p = cell_at (Suc k) ?q mod ?p"
      using step [of ?q] by (simp add: mod_add_right_eq push_bit_eq_mult mult.commute)
    then have hit: "(cell_at k ?q + push_bit (k mod per * ?D) (ds ! k) mod ?p) mod ?p = cell_at (Suc k) ?q"
      using small [of "Suc k" ?q] by simp
    have "column_step c ((!) ds) k (map (cell_at k) [0..<?cols]) = map (cell_at (Suc k)) [0..<?cols]"
    proof (rule nth_equalityI)
      fix j assume "j < length (column_step c ((!) ds) k (map (cell_at k) [0..<?cols]))"
      then have j: "j < ?cols" by (simp add: put)
      show "column_step c ((!) ds) k (map (cell_at k) [0..<?cols]) ! j = map (cell_at (Suc k)) [0..<?cols] ! j"
        using j hit step [of j] owner(2) by (cases "j = ?q") (simp_all add: put)
    qed (simp add: put)
    then show ?case using Suc by simp
  qed
  from this [of "length ds"] show ?thesis
    by (simp add: column_row_def packed_columns_def cell_at_def per_def len Let_def)
qed

lemma column_row_cong:
  "(\<And>owner. owner < length (owners (base c)) \<Longrightarrow> f owner = g owner) \<Longrightarrow> column_row c f = column_row c g"
  unfolding column_row_def by (rule fold_cong) (auto simp: column_step_def)

section \<open>Sums of shares\<close>

lemma shares_of_append:
  "shares_of p (as, bs, cs) us \<Longrightarrow> shares_of p (as', bs', cs') vs \<Longrightarrow> shares_of p (as @ as', bs @ bs', cs @ cs') (us @ vs)"
  by (auto simp: shares_of_def nth_append)

lemma shares_of_concat:
  "(\<And>i. i \<in> set is \<Longrightarrow> shares_of p (as i, bs i, cs i) (vs i)) \<Longrightarrow>
   shares_of p (concat (map as is), concat (map bs is), concat (map cs is)) (concat (map vs is))"
proof (induction "is")
  case Nil
  then show ?case by (simp add: shares_of_def)
next
  case (Cons i "is")
  then show ?case by (auto intro!: shares_of_append)
qed

lemma shared_shares:
  assumes "share_vector p vs g = Inr (sv, g')"
  shows "shares_of p (server_vector 0 sv, server_vector 1 sv, server_vector 2 sv) vs"
proof -
  have sum: "combined p (triples sv ! i) = vs ! i" if "i < length vs" for i
    using shared_triples(5,6) [OF assms] that by (metis nth_map)
  have canon: "canonical p (server_vector s sv)" for s by (rule shared_triples(7) [OF assms])
  have len: "length (server_vector s sv) = length vs" for s by (rule length_server_vector [OF assms])
  have "in_prime p (server_vector s sv ! i)" if "i < length vs" for s i
    using canon [of s] len [of s] that by (auto simp: list_all_length in_prime_def)
  moreover have "(server_vector 0 sv ! i + server_vector 1 sv ! i + server_vector 2 sv ! i) mod p = vs ! i" if "i < length vs" for i
    using sum [OF that] that shared_triples(1-3,6) [OF assms] by (simp add: combined_def split: prod.splits)
  ultimately show ?thesis using len by (simp add: shares_of_def)
qed

lemma shifted_sum:
  fixes p :: int
  shows "((a + x * t mod p) mod p + (b + y * t mod p) mod p + (d + z * t mod p) mod p) mod p =
    ((a + b + d) mod p + (x + y + z) * t mod p) mod p"
proof -
  have three: "(u mod p + v mod p + w mod p) mod p = (u + v + w) mod p" for u v w :: int
    by (metis mod_add_left_eq mod_add_right_eq)
  have "((a + x * t mod p) mod p + (b + y * t mod p) mod p + (d + z * t mod p) mod p) mod p =
      ((a + x * t) mod p + (b + y * t) mod p + (d + z * t) mod p) mod p"
    by (simp only: mod_add_right_eq)
  also have "\<dots> = ((a + x * t) + (b + y * t) + (d + z * t)) mod p" by (rule three)
  also have "\<dots> = ((a + b + d) + (x + y + z) * t) mod p" by (simp add: algebra_simps)
  also have "\<dots> = ((a + b + d) mod p + (x + y + z) * t mod p) mod p" by (simp only: mod_add_eq)
  finally show ?thesis .
qed

lemma column_step_shares:
  assumes p: "0 < field_prime (base c)"
    and x: "(x0 owner + x1 owner + x2 owner) mod field_prime (base c) = v owner mod field_prime (base c)"
    and s: "shares_of (field_prime (base c)) (c0, c1, c2) cv"
  shows "shares_of (field_prime (base c)) (column_step c x0 owner c0, column_step c x1 owner c1, column_step c x2 owner c2)
    (column_step c v owner cv)"
proof -
  let ?p = "field_prime (base c)"
  obtain column offset where slot: "directory_slot c (int owner) = (column, offset)" by fastforce
  define t where "t = (2 :: int) ^ nat offset"
  have put: "column_step c f owner cs = cs[nat column := (cs ! nat column + f owner * t mod ?p) mod ?p]" for f cs
    by (simp add: column_step_def slot Let_def push_bit_eq_mult t_def)
  have len: "length c0 = length cv" "length c1 = length cv" "length c2 = length cv" using s by (simp_all add: shares_of_def)
  have at: "in_prime ?p (c0 ! i) \<and> in_prime ?p (c1 ! i) \<and> in_prime ?p (c2 ! i) \<and> (c0 ! i + c1 ! i + c2 ! i) mod ?p = cv ! i"
    if "i < length cv" for i
    using s that by (simp add: shares_of_def)
  have same: "(x0 owner + x1 owner + x2 owner) * t mod ?p = v owner * t mod ?p" using x by (metis mod_mult_left_eq)
  have hit: "((c0 ! i + x0 owner * t mod ?p) mod ?p + (c1 ! i + x1 owner * t mod ?p) mod ?p + (c2 ! i + x2 owner * t mod ?p) mod ?p) mod ?p
      = (cv ! i + v owner * t mod ?p) mod ?p" if "i < length cv" for i
    unfolding shifted_sum same using at [OF that] by simp
  have range: "in_prime ?p (x mod ?p)" for x using p by (simp add: in_prime_def)
  show ?thesis
    unfolding put shares_of_def prod.case
  proof (intro conjI allI impI)
    fix i assume "i < length (cv[nat column := (cv ! nat column + v owner * t mod ?p) mod ?p])"
    then have i: "i < length cv" by simp
    have in_range: "in_prime ?p (cs[nat column := y mod ?p] ! i)" if "in_prime ?p (cs ! i)" "length cs = length cv" for cs y
      using that i range by (cases "i = nat column") simp_all
    show "in_prime ?p (c0[nat column := (c0 ! nat column + x0 owner * t mod ?p) mod ?p] ! i)"
      using in_range at [OF i] len by blast
    show "in_prime ?p (c1[nat column := (c1 ! nat column + x1 owner * t mod ?p) mod ?p] ! i)"
      using in_range at [OF i] len by blast
    show "in_prime ?p (c2[nat column := (c2 ! nat column + x2 owner * t mod ?p) mod ?p] ! i)"
      using in_range at [OF i] len by blast
    show "(c0[nat column := (c0 ! nat column + x0 owner * t mod ?p) mod ?p] ! i +
        c1[nat column := (c1 ! nat column + x1 owner * t mod ?p) mod ?p] ! i +
        c2[nat column := (c2 ! nat column + x2 owner * t mod ?p) mod ?p] ! i) mod ?p =
        cv[nat column := (cv ! nat column + v owner * t mod ?p) mod ?p] ! i"
      using i at [OF i] hit [OF i] by (cases "i = nat column") (simp_all add: len)
  qed (simp_all add: len)
qed

lemma column_row_shares:
  assumes p: "0 < field_prime (base c)"
    and x: "\<And>owner. owner < length (owners (base c)) \<Longrightarrow>
      (x0 owner + x1 owner + x2 owner) mod field_prime (base c) = v owner mod field_prime (base c)"
  shows "shares_of (field_prime (base c)) (column_row c x0, column_row c x1, column_row c x2) (column_row c v)"
proof -
  let ?p = "field_prime (base c)"
  have "shares_of ?p (fold (column_step c x0) os c0, fold (column_step c x1) os c1, fold (column_step c x2) os c2)
      (fold (column_step c v) os cv)"
    if "shares_of ?p (c0, c1, c2) cv" "set os \<subseteq> {..<length (owners (base c))}" for os c0 c1 c2 cv
    using that
  proof (induction os arbitrary: c0 c1 c2 cv)
    case (Cons owner os)
    from Cons.prems(2) have "owner < length (owners (base c))" by simp
    from Cons.IH [OF column_step_shares [where v = v and ?x0.0 = x0 and ?x1.0 = x1 and ?x2.0 = x2 and owner = owner, OF p x [OF this] Cons.prems(1)]] Cons.prems(2) show ?case by simp
  qed simp
  moreover have "shares_of ?p (replicate n 0, replicate n 0, replicate n 0) (replicate n 0)" for n
    using p by (simp add: shares_of_def in_prime_def)
  ultimately show ?thesis unfolding column_row_def by (simp add: atLeast_upt)
qed

section \<open>The vectors are canonical\<close>

lemma page_canonical:
  assumes ok: "page_config_ok c" and valid: "page_validate c n = Inr ()" and plain: "layout_plain c l"
  shows "canonical (field_prime (base c)) (directory l)" and "canonical (field_prime (base c)) (concat (page_pool l))"
proof -
  let ?p = "field_prime (base c)" and ?w = "nat (field_usable_bits (base c))"
  from ok have v: "valid_config (base c)" by (simp add: page_config_ok_def)
  note fit = validated_bits(1) [OF valid]
  then have bits: "descriptor_bits (pages c) \<le> ?w" "packed_edge_bits (base c) \<le> ?w" unfolding bits_fit_def by linarith+
  have "(2 :: int) ^ descriptor_bits (pages c) \<le> 2 ^ ?w" using bits(1) by (intro power_increasing) simp_all
  then have "x < ?p" if "x < 2 ^ descriptor_bits (pages c)" for x using that usable_bits_below_prime [OF v] by linarith
  with plain show "canonical ?p (directory l)" by (auto simp: layout_plain_def descriptor_ok_def list_all_iff)
  have "in_prime ?p x" if "x \<in> set (concat (page_pool l))" for x
    using that plain mpc_machine.stored_cell_in [OF page_machine [OF ok valid] bits(2)]
    by (fastforce simp: layout_plain_def pool_ok_def list_all_iff)
  then show "canonical ?p (concat (page_pool l))" by (simp add: list_all_iff in_prime_def)
qed

section \<open>Honest documents are accepted\<close>

lemma paged_document_fields [simp]:
  "jget (paged_owner_document H c o' i dirs pools occ s) ''version'' = JInt 1"
  "jget (paged_owner_document H c o' i dirs pools occ s) ''kind'' = JStr ''paged-owner-shard''"
  "jget (paged_owner_document H c o' i dirs pools occ s) ''layout_digest'' = JStr (page_config_digest H c)"
  "jget (paged_owner_document H c o' i dirs pools occ s) ''owner'' = JStr o'"
  "jget (paged_owner_document H c o' i dirs pools occ s) ''owner_index'' = JInt (int i)"
  "jget (paged_owner_document H c o' i dirs pools occ s) ''server'' = JInt (int s)"
  "jget (paged_owner_document H c o' i dirs pools occ s) ''directory'' = JList (map JInt (server_vector s dirs))"
  "jget (paged_owner_document H c o' i dirs pools occ s) ''pages'' = JList (map JInt (server_vector s pools))"
  by (simp_all add: paged_owner_document_def jget_def get_or_def)

lemma paged_step_honest:
  assumes "i < length (owners (base c))" and "int i \<notin> fst ` set by_index"
    and "expected_directory_values c = Inr (int (length (server_vector s dirs)))"
    and "int (length (server_vector s pools)) = pool_rows (pages c) * page_size (pages c)"
    and "canonical (field_prime (base c)) (server_vector s dirs)" and "canonical (field_prime (base c)) (server_vector s pools)"
  shows "paged_document_step H c (int s) (JDict (paged_owner_document H c (owners (base c) ! i) i dirs pools occ s)) by_index =
    Inr (AList.update (int i) (server_vector s dirs, server_vector s pools) by_index)"
  using assms by (simp add: paged_document_step_def validated_owner_document_def)

text \<open>What an owner's preparation of a dense layout leaves behind.\<close>

definition dealt :: "(jval \<Rightarrow> string) \<Rightarrow> page_config \<Rightarrow> nat \<Rightarrow> owner_page_layout \<Rightarrow> shared_vector \<Rightarrow> shared_vector \<Rightarrow> document list \<Rightarrow> bool" where
  "dealt H c i l dirs pools docs \<longleftrightarrow>
     (\<exists>g g'. share_vector (field_prime (base c)) (directory l) g = Inr (dirs, g')) \<and>
     (\<exists>g g'. share_vector (field_prime (base c)) (concat (page_pool l)) g = Inr (pools, g')) \<and>
     length (directory l) = row_count c \<and>
     int (length (concat (page_pool l))) = pool_rows (pages c) * page_size (pages c) \<and>
     (\<exists>occ. \<forall>s < SERVER_COUNT. docs ! s = paged_owner_document H c (owners (base c) ! i) i dirs pools occ s)"

lemma create_paged_dealt:
  assumes ok: "page_config_ok c" and d: "dense_config c" and i: "i < length (owners (base c))"
    and run: "create_paged_owner_shards H c (owners (base c) ! i) (JList edges) g = Inr (docs, g')"
  shows "\<exists>l dirs pools. build_owner_page_layout c (owners (base c) ! i) edges = Inr l \<and> dealt H c i l dirs pools docs"
proof -
  from ok have p: "params_ok (pages c)" and v: "valid_config (base c)" by (simp_all add: page_config_ok_def)
  have index: "list_index (owners (base c)) (owners (base c) ! i) = Inr i"
    using list_index_nth valid_owners(2) [OF v] i by blast
  from run obtain vector pool dirs g1 pools g2 occ where
    flat: "owner_flat_vector c (owners (base c) ! i) edges = Inr (vector, pool)"
    and shares: "share_vector (field_prime (base c)) vector g = Inr (dirs, g1)" "share_vector (field_prime (base c)) pool g1 = Inr (pools, g2)"
    and docs: "docs = map (paged_owner_document H c (owners (base c) ! i) i dirs pools occ) [0..<SERVER_COUNT]"
    by (auto simp: create_paged_owner_shards_def res_simps index) blast
  from flat d obtain l where l: "build_owner_page_layout c (owners (base c) ! i) edges = Inr l"
      and parts: "vector = directory l" "pool = concat (page_pool l)"
      and len: "length (directory l) = row_count c" "int (length (page_pool l)) = pool_rows (pages c)"
        "\<And>page. page \<in> set (page_pool l) \<Longrightarrow> int (length page) = page_size (pages c)"
    by (auto simp: owner_flat_vector_def res_simps split: if_splits)
  have "length (concat (page_pool l)) = length (page_pool l) * nat (page_size (pages c))"
    by (rule length_concat_uniform) (use len(3) in fastforce)
  then have "int (length (concat (page_pool l))) = pool_rows (pages c) * page_size (pages c)"
    using len(2) p by (simp add: params_ok_def)
  with l parts len(1) shares docs show ?thesis unfolding dealt_def by fastforce
qed

section \<open>What the servers assemble\<close>

definition paged_server_run ::
  "(jval \<Rightarrow> string) \<Rightarrow> page_config \<Rightarrow> nat \<Rightarrow> document list \<Rightarrow> (nat \<Rightarrow> document list) \<Rightarrow> nat list \<Rightarrow> nat \<Rightarrow> int list res" where
  "paged_server_run H c n qdocs docs order s =
     assemble_paged_batch_from_paths H c (int s) (int n) (JDict (qdocs ! s)) (map (\<lambda>i. JDict (docs i ! s)) order)"

definition assembled :: "page_config \<Rightarrow> shared_vector \<Rightarrow> (nat \<Rightarrow> shared_vector) \<Rightarrow> (nat \<Rightarrow> shared_vector) \<Rightarrow> nat \<Rightarrow> int list" where
  "assembled c qv dirs pools s = server_vector s qv @
     concat (map (\<lambda>row. column_row c (\<lambda>i. server_vector s (dirs i) ! row)) [0..<row_count c]) @
     concat (map (\<lambda>i. server_vector s (pools i)) [0..<length (owners (base c))])"

lemma paged_server_honest:
  assumes d: "dense_config c" and s: "s < SERVER_COUNT"
    and order: "distinct order" "set order = {..<length (owners (base c))}"
    and q: "share_vector (field_prime (base c)) qs gq = Inr (qv, gq')" "length qs = n * 3"
      "qdocs ! s = query_batch_document H (base c) n qv s"
    and t: "\<And>i. i < length (owners (base c)) \<Longrightarrow> dealt H c i (l i) (dirs i) (pools i) (docs i)"
  shows "paged_server_run H c n qdocs docs order s = Inr (assembled c qv dirs pools s)"
proof -
  let ?n = "length (owners (base c))" and ?p = "field_prime (base c)"
  let ?vec = "\<lambda>i. (server_vector s (dirs i), server_vector s (pools i))"
  have expected: "expected_directory_values c = Inr (int (row_count c))"
    using d by (simp add: expected_directory_values_def compact_value_count_def)
  have honest: "paged_document_step H c (int s) (JDict (docs i ! s)) by_index = Inr (AList.update (int i) (?vec i) by_index)"
    if i: "i < ?n" and new: "int i \<notin> fst ` set by_index" for i by_index
  proof -
    from t [OF i] obtain g1 g1' g2 g2' occ where
      shares: "share_vector ?p (directory (l i)) g1 = Inr (dirs i, g1')" "share_vector ?p (concat (page_pool (l i))) g2 = Inr (pools i, g2')"
      and lens: "length (directory (l i)) = row_count c" "int (length (concat (page_pool (l i)))) = pool_rows (pages c) * page_size (pages c)"
      and doc: "docs i ! s = paged_owner_document H c (owners (base c) ! i) i (dirs i) (pools i) occ s"
      using s unfolding dealt_def by blast
    show ?thesis unfolding doc
      by (rule paged_step_honest [OF i new])
        (use expected lens length_server_vector [OF shares(1)] length_server_vector [OF shares(2)]
          shared_triples(7) [OF shares(1)] shared_triples(7) [OF shares(2)] in simp_all)
  qed
  obtain out where out: "foldM (paged_document_step H c (int s)) (map (\<lambda>i. JDict (docs i ! s)) order) [] = Inr out"
      "fst ` set out = {0..<int ?n}" "map (\<lambda>i. get_or ([], []) out (int i)) [0..<?n] = map ?vec [0..<?n]"
    using collect_all_indices [of ?n "paged_document_step H c (int s)" "\<lambda>i. JDict (docs i ! s)" ?vec order "([], [])"]
      honest order by blast
  have rows: "column_row c (\<lambda>owner. fst (map ?vec [0..<?n] ! owner) ! row) = column_row c (\<lambda>i. server_vector s (dirs i) ! row)" for row
    by (rule column_row_cong) simp
  have qlen: "length (server_vector s qv) mod 3 = 0" using length_server_vector [OF q(1)] q(2) by simp
  have "iter_paged_batch_input_values c (server_vector s qv) (paged_tables c out) = Inr (assembled c qv dirs pools s)"
    using d by (simp add: iter_paged_batch_input_values_def paged_tables_def out(3) rows assembled_def comp_def)
  then show ?thesis
    using s qlen out(1,2)
    by (simp add: paged_server_run_def assemble_paged_batch_from_paths_def q(3) query_batch_values_honest [OF q(1,2)]
        assemble_paged_batch_input_def)
qed

lemma concat_map_rows: "concat (map concat xss) = concat (concat xss)"
  by (induction xss) auto

lemma assembled_shares:
  assumes ok: "page_config_ok c" and d: "dense_config c" and fit: "int (descriptor_bits (pages c)) \<le> field_usable_bits (base c)"
    and ls: "layouts_ok c rowss ls" and n: "length ls = length (owners (base c))"
    and q: "share_vector (field_prime (base c)) (concat (map query_triple ids)) gq = Inr (qv, gq')"
    and t: "\<And>i. i < length (owners (base c)) \<Longrightarrow> dealt H c i (ls ! i) (dirs i) (pools i) (docs i)"
  shows "shares_of (field_prime (base c)) (assembled c qv dirs pools 0, assembled c qv dirs pools 1, assembled c qv dirs pools 2)
    (page_input c ids ls)"
proof -
  let ?p = "field_prime (base c)" and ?n = "length (owners (base c))"
  from ok have v: "valid_config (base c)" by (simp add: page_config_ok_def)
  have dirs: "shares_of ?p (server_vector 0 (dirs i), server_vector 1 (dirs i), server_vector 2 (dirs i)) (directory (ls ! i))"
      "shares_of ?p (server_vector 0 (pools i), server_vector 1 (pools i), server_vector 2 (pools i)) (concat (page_pool (ls ! i)))"
      "length (directory (ls ! i)) = row_count c" if "i < ?n" for i
    using t [OF that] shared_shares unfolding dealt_def by blast+
  have row: "shares_of ?p (column_row c (\<lambda>i. server_vector 0 (dirs i) ! row), column_row c (\<lambda>i. server_vector 1 (dirs i) ! row),
      column_row c (\<lambda>i. server_vector 2 (dirs i) ! row)) (packed_columns c (row_descriptors ls row))"
    if r: "row < row_count c" for row
  proof -
    have "(server_vector 0 (dirs i) ! row + server_vector 1 (dirs i) ! row + server_vector 2 (dirs i) ! row) mod ?p =
        directory (ls ! i) ! row mod ?p" if "i < ?n" for i
      using dirs(1,3) [OF that] r by (auto simp: shares_of_def) (metis mod_mod_trivial)
    from column_row_shares [where v = "\<lambda>i. directory (ls ! i) ! row", OF field_prime_pos [OF v] this]
    have "shares_of ?p (column_row c (\<lambda>i. server_vector 0 (dirs i) ! row), column_row c (\<lambda>i. server_vector 1 (dirs i) ! row),
        column_row c (\<lambda>i. server_vector 2 (dirs i) ! row)) (column_row c (\<lambda>i. directory (ls ! i) ! row))" .
    moreover have "column_row c (\<lambda>i. directory (ls ! i) ! row) = column_row c ((!) (row_descriptors ls row))"
      by (rule column_row_cong) (simp add: row_descriptors_def n)
    moreover have "column_row c ((!) (row_descriptors ls row)) = packed_columns c (row_descriptors ls row)"
      using row_descriptors_ok [OF ok d ls r] n by (intro column_row_packed [OF v fit]) simp_all
    ultimately show ?thesis by simp
  qed
  have rows: "shares_of ?p (concat (map (\<lambda>row. column_row c (\<lambda>i. server_vector 0 (dirs i) ! row)) [0..<row_count c]),
      concat (map (\<lambda>row. column_row c (\<lambda>i. server_vector 1 (dirs i) ! row)) [0..<row_count c]),
      concat (map (\<lambda>row. column_row c (\<lambda>i. server_vector 2 (dirs i) ! row)) [0..<row_count c]))
      (concat (directory_plain c ls))"
    unfolding directory_plain_def by (rule shares_of_concat) (use row in simp)
  have "concat (map (\<lambda>i. concat (page_pool (ls ! i))) [0..<?n]) = concat (map concat (pools_of ls))"
    unfolding n [symmetric] by (rule arg_cong [where f = concat], rule nth_equalityI) simp_all
  also have "\<dots> = concat (concat (pools_of ls))" by (rule concat_map_rows)
  finally have pools: "shares_of ?p (concat (map (\<lambda>i. server_vector 0 (pools i)) [0..<?n]),
      concat (map (\<lambda>i. server_vector 1 (pools i)) [0..<?n]), concat (map (\<lambda>i. server_vector 2 (pools i)) [0..<?n]))
      (concat (concat (pools_of ls)))"
    using shares_of_concat [of "[0..<?n]" ?p "\<lambda>i. server_vector 0 (pools i)" "\<lambda>i. server_vector 1 (pools i)"
        "\<lambda>i. server_vector 2 (pools i)" "\<lambda>i. concat (page_pool (ls ! i))"] dirs(2) by simp
  from shares_of_append [OF shared_shares [OF q] shares_of_append [OF rows pools]]
  show ?thesis unfolding assembled_def page_input_def by simp
qed

section \<open>From owner files to answers\<close>

lemma paged_preparation_run:
  assumes ok: "page_config_ok c" and d: "dense_config c" and valid: "page_validate c (int (length queries)) = Inr ()"
    and owners_ok: "\<And>i. i < length (owners (base c)) \<Longrightarrow>
      create_paged_owner_shards H c (owners (base c) ! i) (JList (edges i)) (g i) = Inr (docs i, g' i)"
    and query_ok: "create_packed_query_batch_shards H (base c) (JList queries) gq = Inr (qdocs, gq')"
    and order: "\<And>s. s < SERVER_COUNT \<Longrightarrow> distinct (order s) \<and> set (order s) = {..<length (owners (base c))}"
    and checked: "global_frontier (pages c) \<noteq> None \<Longrightarrow>
      is_ok (check_global_frontier c (map (\<lambda>i. (owners (base c) ! i, edges i)) [0..<length (owners (base c))]))"
  shows "\<exists>a ids ls.
      (\<forall>s < SERVER_COUNT. paged_server_run H c (length queries) qdocs docs (order s) s = Inr (a s)) \<and>
      traverse (query_ids (base c)) queries = Inr ids \<and>
      resolve_layouts c (map (\<lambda>i. (owners (base c) ! i, edges i)) [0..<length (owners (base c))]) None = Inr ls \<and>
      shares_of (field_prime (base c)) (a 0, a 1, a 2) (page_input c ids ls)"
proof -
  let ?n = "length (owners (base c))" and ?p = "field_prime (base c)"
  let ?edges = "map (\<lambda>i. (owners (base c) ! i, edges i)) [0..<?n]"
  from ok have v: "valid_config (base c)" by (simp add: page_config_ok_def)
  have "\<exists>l dirs pools. build_owner_page_layout c (owners (base c) ! i) (edges i) = Inr l \<and> dealt H c i l dirs pools (docs i)"
    if "i < ?n" for i
    by (rule create_paged_dealt [OF ok d that owners_ok [OF that]])
  then obtain l dirs pools where t: "\<And>i. i < ?n \<Longrightarrow>
      build_owner_page_layout c (owners (base c) ! i) (edges i) = Inr (l i) \<and> dealt H c i (l i) (dirs i) (pools i) (docs i)"
    by metis
  have names: "map fst ?edges = owners (base c)" by (intro nth_equalityI) simp_all
  then have keys: "distinct (map fst ?edges)" "fst ` set ?edges = set (owners (base c))"
    using valid_owners(2) [OF v] by (simp_all only: list.set_map [symmetric])
  have look: "get_or [] ?edges (owners (base c) ! i) = edges i" if "i < ?n" for i
    by (rule get_or_in [OF _ keys(1)]) (use that in auto)
  have "traverse (\<lambda>owner. build_owner_page_layout c owner (get_or [] ?edges owner)) (owners (base c)) = Inr (map l [0..<?n])"
    unfolding traverse_eq_Inr list_all2_conv_all_nth using t look by simp
  then have ls: "resolve_layouts c ?edges None = Inr (map l [0..<?n])" by (simp add: resolve_layouts_def)
  obtain rowss where rowss: "layouts_ok c rowss (map l [0..<?n])"
    using resolved_layouts [OF ok keys ls checked] by blast
  from query_ok obtain ids qv where ids: "traverse (query_ids (base c)) queries = Inr ids"
      and qv: "share_vector ?p (concat (map query_triple ids)) gq = Inr (qv, gq')"
      and qdocs: "\<And>s. s < SERVER_COUNT \<Longrightarrow> qdocs ! s = query_batch_document H (base c) (length queries) qv s"
    by (auto simp: create_packed_query_batch_shards_def res_simps split: if_splits)
  have qlen: "length (concat (map query_triple ids)) = length queries * 3"
    using length_traverse [OF ids] by (simp add: length_concat_query_triples)
  have run: "paged_server_run H c (length queries) qdocs docs (order s) s = Inr (assembled c qv dirs pools s)"
    if s: "s < SERVER_COUNT" for s
    by (rule paged_server_honest [where l = l, OF d s _ _ qv qlen qdocs [OF s]]) (use order [OF s] t in blast)+
  have fit: "int (descriptor_bits (pages c)) \<le> field_usable_bits (base c)"
    using valid by (auto simp: page_validate_def split: if_splits)
  have "shares_of ?p (assembled c qv dirs pools 0, assembled c qv dirs pools 1, assembled c qv dirs pools 2)
      (page_input c ids (map l [0..<?n]))"
    by (rule assembled_shares [where H = H and docs = docs, OF ok d fit rowss _ qv]) (use t in simp_all)
  with run ids ls show ?thesis by (intro exI [of _ "assembled c qv dirs pools"] exI [of _ ids] exI [of _ "map l [0..<?n]"]) blast
qed

section \<open>Properties\<close>

text \<open>
  C2: The relation-paged backend, end to end.  When every owner's preparation of the dense layout
  and the client's query batch succeed, the layout and batch size validate and the federation-wide
  bound was checked, the three servers assemble their inputs whatever the order of the owners'
  files, the generated program (under every permitted ablation) runs on them, and the client's
  decoder accepts the three logs and returns the relation-paged oracle's answers to all queries.
\<close>

theorem paged_end_to_end:
  assumes ok: "page_config_ok c" and d: "dense_config c" and machine: "scan_machine ops (base c)"
    and valid: "page_validate c (int (length queries)) = Inr ()"
    and abl: "ablate_compaction ab \<Longrightarrow> check_compaction_ablation c = Inr ()"
    and owners_ok: "\<And>i. i < length (owners (base c)) \<Longrightarrow>
      create_paged_owner_shards H c (owners (base c) ! i) (JList (edges i)) (g i) = Inr (docs i, g' i)"
    and query_ok: "create_packed_query_batch_shards H (base c) (JList queries) gq = Inr (qdocs, gq')"
    and order: "\<And>s. s < SERVER_COUNT \<Longrightarrow> distinct (order s) \<and> set (order s) = {..<length (owners (base c))}"
    and checked: "global_frontier (pages c) \<noteq> None \<Longrightarrow>
      is_ok (check_global_frontier c (map (\<lambda>i. (owners (base c) ! i, edges i)) [0..<length (owners (base c))]))"
  shows "\<exists>a l0 l1 l2 go answers.
      (\<forall>s < SERVER_COUNT. paged_server_run H c (length queries) qdocs docs (order s) s = Inr (a s)) \<and>
      page_program ops c ab (length queries) (a 0, a 1, a 2) gr = Inr ((l0, l1, l2), go) \<and>
      decode_batch_logs (base c) (int (length queries)) [l0, l1, l2] = Inr answers \<and>
      traverse (\<lambda>query. evaluate_paged_cleartext c
        (map (\<lambda>i. (owners (base c) ! i, edges i)) [0..<length (owners (base c))]) query None) queries = Inr answers"
proof -
  let ?edges = "map (\<lambda>i. (owners (base c) ! i, edges i)) [0..<length (owners (base c))]"
  from ok have v: "valid_config (base c)" by (simp add: page_config_ok_def)
  obtain a ids ls where run: "\<forall>s < SERVER_COUNT. paged_server_run H c (length queries) qdocs docs (order s) s = Inr (a s)"
      "traverse (query_ids (base c)) queries = Inr ids" "resolve_layouts c ?edges None = Inr ls"
      "shares_of (field_prime (base c)) (a 0, a 1, a 2) (page_input c ids ls)"
    using paged_preparation_run [where order = order, OF ok d valid owners_ok query_ok order checked] by blast
  have shares: "shares_of (field_prime (base c)) (a 0, a 1, a 2) (page_input c ids ls @ [])" using run(4) by simp
  have names: "map fst ?edges = owners (base c)" by (intro nth_equalityI) simp_all
  then have keys: "distinct (map fst ?edges)" "fst ` set ?edges = set (owners (base c))"
    using valid_owners(2) [OF v] by (simp_all only: list.set_map [symmetric])
  note circuit = paged_circuit_oracle [where ab = ab and blocks = "[]" and block_max = 0 and rest = "[]",
      OF ok d machine valid abl keys run(3) checked run(2) shares]
  from page_program_decodes [OF machine d valid abl circuit(2,3)] run(1) circuit(1) show ?thesis by blast
qed

lemma sample_occupancy:
  assumes "i < 2"
  shows "\<exists>occ. owner_occupancy_vector sample_page_config (owners sample_config ! i) (if i = 0 then sample_edges else []) = Inr occ \<and>
    list_all (\<lambda>x. 0 \<le> x \<and> x < 5) occ"
proof -
  have "case owner_occupancy_vector sample_page_config ''alice'' sample_edges of
      Inl e \<Rightarrow> False | Inr occ \<Rightarrow> list_all (\<lambda>x. 0 \<le> x \<and> x < 5) occ"
    by code_simp
  moreover have "case owner_occupancy_vector sample_page_config ''bob'' [] of
      Inl e \<Rightarrow> False | Inr occ \<Rightarrow> list_all (\<lambda>x. 0 \<le> x \<and> x < 5) occ"
    by code_simp
  ultimately show ?thesis using assms by (cases i) (auto simp: less_Suc_eq split: sum.splits)
qed

lemma create_paged_owner_shards_ok:
  assumes ok: "page_config_ok c" and d: "dense_config c" and valid: "page_validate c n = Inr ()"
    and i: "i < length (owners (base c))"
    and l: "build_owner_page_layout c (owners (base c) ! i) edges = Inr l"
    and occ: "owner_occupancy_vector c (owners (base c) ! i) edges = Inr occ" "canonical (field_prime (base c)) occ"
  shows "\<exists>docs g'. create_paged_owner_shards H c (owners (base c) ! i) (JList edges) g = Inr (docs, g')"
proof -
  let ?p = "field_prime (base c)"
  from ok have p: "params_ok (pages c)" and v: "valid_config (base c)" by (simp_all add: page_config_ok_def)
  have index: "list_index (owners (base c)) (owners (base c) ! i) = Inr i"
    using list_index_nth valid_owners(2) [OF v] i by blast
  obtain rows where rows: "traverse (validated_edge (base c)) edges = Inr rows"
    using build_layout_iff [OF ok] l by blast
  have holds: "layout_holds c rows l" and plain: "layout_plain c l"
    using build_layout_run [OF ok nth_mem [OF i] rows] l built_layout_plain [OF ok l rows] by auto
  have heights: "directory_rows c = Inr (int (length (directory l)))" "length (page_pool l) = nat (pool_rows (pages c))"
      "\<And>page. page \<in> set (page_pool l) \<Longrightarrow> int (length page) = page_size (pages c)"
    using pool_shape [OF ok holds] p by (auto simp: page_width_def params_ok_def)
  have "0 \<le> pool_rows (pages c)" using p by (simp add: pool_rows_def params_ok_def)
  then have flat: "owner_flat_vector c (owners (base c) ! i) edges = Inr (directory l, concat (page_pool l))"
    using d l heights by (simp add: owner_flat_vector_def)
  from page_canonical [OF ok valid plain] obtain dirs g1 pools g2 where
    "share_vector ?p (directory l) g = Inr (dirs, g1)" "share_vector ?p (concat (page_pool l)) g1 = Inr (pools, g2)"
    by (metis share_vector_total)
  moreover obtain shares g3 where "share_vector ?p occ g2 = Inr (shares, g3)" using share_vector_total [OF occ(2)] by blast
  ultimately show ?thesis by (simp add: create_paged_owner_shards_def flat index occ(1))
qed

lemma sample_paged_shards:
  "\<exists>r. \<forall>i < length (owners (base sample_page_config)).
     create_paged_owner_shards H sample_page_config (owners (base sample_page_config) ! i)
       (JList (if i = 0 then sample_edges else [])) (\<lambda>_. 5) = Inr (fst (r i), snd (r i))"
proof -
  let ?edges = "\<lambda>i :: nat. if i = 0 then sample_edges else []" and ?c = sample_page_config
  let ?create = "\<lambda>i. create_paged_owner_shards H ?c (owners (base ?c) ! i) (JList (?edges i)) (\<lambda>_. 5)"
  have d: "dense_config ?c" by (simp add: dense_config_def sample_pages_def)
  have edges: "get_or [] Paged_Join.sample_owner_edges (owners (base ?c) ! i) = ?edges i" if "i < length (owners (base ?c))" for i
    using that by (cases i) (auto simp: Paged_Join.sample_owner_edges_def get_or_def less_Suc_eq)
  have "\<exists>r. ?create i = Inr r" if i: "i < length (owners (base ?c))" for i
  proof -
    from conjunct1 [OF sample_built [OF nth_mem [OF i]]] edges [OF i] obtain l where
      l: "build_owner_page_layout ?c (owners (base ?c) ! i) (?edges i) = Inr l" by (auto simp: is_ok_iff)
    obtain occ where occ: "owner_occupancy_vector ?c (owners (base ?c) ! i) (?edges i) = Inr occ" "list_all (\<lambda>x. 0 \<le> x \<and> x < 5) occ"
      using sample_occupancy [of i] i by auto
    have "canonical (field_prime (base ?c)) occ" using occ(2) by (auto simp: list_all_iff field_primes)
    from create_paged_owner_shards_ok [OF sample_page_ok d sample_page_validate i l occ(1) this] show ?thesis by blast
  qed
  then show ?thesis by (metis surjective_pairing)
qed

theorem paged_end_to_end_witness:
  "\<exists>docs qdocs a l0 l1 l2 go answers.
     (\<forall>s < SERVER_COUNT. paged_server_run (\<lambda>_. ''h'') sample_page_config 1 qdocs docs [1, 0 :: nat] s = Inr (a s)) \<and>
     page_program (plain_ops (field_prime sample_config)) sample_page_config
       \<lparr>ablate_relation_check = True, ablate_window_demux = False, ablate_folded_directory = False,
        ablate_folded_residual = False, ablate_compaction = False, ablate_owner_batching = False\<rparr>
       1 (a 0, a 1, a 2) (\<lambda>_. 7) = Inr ((l0, l1, l2), go) \<and>
     decode_batch_logs sample_config 1 [l0, l1, l2] = Inr answers \<and>
     traverse (\<lambda>query. evaluate_paged_cleartext sample_page_config Paged_Join.sample_owner_edges query None) [sample_query] = Inr answers"
proof -
  let ?H = "\<lambda>_ :: jval. ''h''" and ?edges = "\<lambda>i :: nat. if i = 0 then sample_edges else []" and ?c = sample_page_config
  let ?ab = "\<lparr>ablate_relation_check = True, ablate_window_demux = False, ablate_folded_directory = False,
      ablate_folded_residual = False, ablate_compaction = False, ablate_owner_batching = False\<rparr>"
  let ?create = "\<lambda>i. create_paged_owner_shards ?H ?c (owners (base ?c) ! i) (JList (?edges i)) (\<lambda>_. 5)"
  have d: "dense_config ?c" by (simp add: dense_config_def sample_pages_def)
  obtain r where shards: "\<And>i. i < length (owners (base ?c)) \<Longrightarrow> ?create i = Inr (fst (r i), snd (r i))"
    using sample_paged_shards by blast
  obtain qdocs gq' where query: "create_packed_query_batch_shards ?H (base ?c) (JList [sample_query]) (\<lambda>_. 6) = Inr (qdocs, gq')"
    using create_packed_query_batch_shards_ok [OF sample_valid sample_packable, of "[sample_query]" "[(1, 1, 2)]"
        ?H "\<lambda>_. 6"] sample_query_ids by auto
  have same: "map (\<lambda>i. (owners (base ?c) ! i, ?edges i)) [0..<length (owners (base ?c))] = Paged_Join.sample_owner_edges"
    by (simp add: Paged_Join.sample_owner_edges_def upt_rec)
  have order: "distinct [1, 0 :: nat] \<and> set [1, 0] = {..<length (owners (base ?c))}" by auto
  have machine: "scan_machine (plain_ops (field_prime sample_config)) (base ?c)" using sample_machine by simp
  have "\<exists>a l0 l1 l2 go answers.
      (\<forall>s < SERVER_COUNT. paged_server_run ?H ?c (length [sample_query]) qdocs (\<lambda>i. fst (r i)) [1, 0] s = Inr (a s)) \<and>
      page_program (plain_ops (field_prime sample_config)) ?c ?ab (length [sample_query]) (a 0, a 1, a 2) (\<lambda>_. 7) = Inr ((l0, l1, l2), go) \<and>
      decode_batch_logs (base ?c) (int (length [sample_query])) [l0, l1, l2] = Inr answers \<and>
      traverse (\<lambda>query. evaluate_paged_cleartext ?c
        (map (\<lambda>i. (owners (base ?c) ! i, ?edges i)) [0..<length (owners (base ?c))]) query None) [sample_query] = Inr answers"
    by (rule paged_end_to_end [where g' = "\<lambda>i. snd (r i)" and g = "\<lambda>_ _. 5", OF sample_page_ok d machine sample_page_validate _ _ query])
      (use shards order sample_checked same in simp_all)
  then show ?thesis unfolding same by (simp only: list.size One_nat_def [symmetric] add_0 plus_1_eq_Suc of_nat_1 sample_page_fields) blast
qed

end
