(* ===== verification/Bound_Check.thy ===== *)
theory Bound_Check
  imports Paged_Shares
begin

text \<open>
  The one-time check of the federation-wide bound (\<open>doram_t2_3pc/bound_check_program.py\<close>): the
  interpolation of the overflow predicate over the field, the generated program that evaluates it
  on the summed occupancies, and that the single value it opens is the number of keys whose edges,
  over all owners, exceed \<open>global_frontier\<close>.
\<close>

section \<open>The overflow polynomial\<close>

text \<open>\<open>pow(d, -1, p)\<close>, by the extended Euclidean algorithm.\<close>

function egcd :: "int \<Rightarrow> int \<Rightarrow> int \<times> int \<times> int" where
  "egcd a b = (if b \<le> 0 then (a, 1, 0)
     else let (g, x, y) = egcd b (a mod b) in (g, y, x - (a div b) * y))"
  by pat_completeness auto
termination
  by (relation "measure (\<lambda>(a, b). nat b)") auto

declare egcd.simps [simp del]

definition mod_inverse :: "int \<Rightarrow> int \<Rightarrow> int res" where
  "mod_inverse d p =
     (let (g, x, y) = egcd (d mod p) p
      in if g \<noteq> 1 then Inl (ValueError ''base is not invertible for the given modulus'') else Inr (x mod p))"

text \<open>\<open>basis\<close> times \<open>(X - other)\<close>.\<close>

definition basis_step :: "int \<Rightarrow> int \<Rightarrow> int list \<Rightarrow> int list" where
  "basis_step p other basis =
     fold (\<lambda>(degree, coefficient) product.
         let product = product[degree := (product ! degree - other * coefficient) mod p]
         in product[degree + 1 := (product ! (degree + 1) + coefficient) mod p])
       (enumerate 0 basis) (replicate (length basis + 1) 0)"

definition lagrange_basis :: "int \<Rightarrow> int \<Rightarrow> int \<Rightarrow> int list \<times> int" where
  "lagrange_basis p maximum point =
     fold (\<lambda>other (basis, denominator).
         if other = point then (basis, denominator)
         else (basis_step p other basis, denominator * (point - other) mod p))
       [0..maximum] ([1], 1)"

definition add_scaled :: "int \<Rightarrow> int \<Rightarrow> int list \<Rightarrow> int list \<Rightarrow> int list" where
  "add_scaled p scale basis result =
     fold (\<lambda>(degree, coefficient) result. result[degree := (result ! degree + coefficient * scale) mod p])
       (enumerate 0 basis) result"

definition interpolate_step :: "int \<Rightarrow> int \<Rightarrow> int \<Rightarrow> int list \<Rightarrow> int list res" where
  "interpolate_step p maximum point result =
     (let (basis, denominator) = lagrange_basis p maximum point
      in bindr (mod_inverse denominator p) (\<lambda>scale. Inr (add_scaled p scale basis result)))"

definition overflow_polynomial :: "int \<Rightarrow> int \<Rightarrow> int \<Rightarrow> int list res" where
  "overflow_polynomial bound maximum p =
     (if \<not> (0 \<le> bound \<and> bound < maximum \<and> maximum < p)
      then Inl (ValueError ''invalid overflow-polynomial domain'')
      else foldM (interpolate_step p maximum) [bound + 1..maximum] (replicate (nat maximum + 1) 0))"

section \<open>The generated program\<close>

definition bound_validate :: "page_config \<Rightarrow> int res" where
  "bound_validate c =
     (if field_prime (base c) \<notin> set SCALABLE_FIELD_PRIMES
      then Inl (ValueError ''the bound check requires an audited scalable field'')
      else case global_frontier (pages c) of
        None \<Rightarrow> Inl (ValueError ''layout does not declare global_frontier, so there is nothing to '')
      | Some bound \<Rightarrow> Inr bound)"

definition max_possible :: "page_config \<Rightarrow> int" where
  "max_possible c = int (length (owners (base c))) * slots_per_key (pages c)"

definition overflow_row :: "mpc_ops \<Rightarrow> int list \<Rightarrow> int \<Rightarrow> int" where
  "overflow_row ops coefficients x =
     fold (\<lambda>coefficient overflow. m_add ops (m_mul ops overflow x) coefficient)
       (rev (butlast coefficients)) (last coefficients)"

definition bound_check_program :: "mpc_ops \<Rightarrow> page_config \<Rightarrow> shared_vector \<Rightarrow> int res" where
  "bound_check_program ops c inputs =
     bindr (bound_validate c) (\<lambda>bound.
     bindr (overflow_polynomial bound (max_possible c) (field_prime (base c))) (\<lambda>coefficients.
     bindr (occupancy_rows c) (\<lambda>rows.
       let (occupancy, _) = shared_matrix ops (nat rows) 1 inputs
       in Inr (fold (\<lambda>x violations. m_add ops violations (overflow_row ops coefficients x)) (concat occupancy) 0))))"

record bound_check_cost =
  bound_directory_rows :: int
  bound_comparisons :: int
  bound_field_multiplications :: int
  bound_oblivious_reads :: int
  bound_opened_values :: int
  bound_private_input_values :: int

definition bound_check_cost_estimate :: "page_config \<Rightarrow> bound_check_cost res" where
  "bound_check_cost_estimate c =
     bindr (bound_validate c) (\<lambda>_. bindr (occupancy_rows c) (\<lambda>rows.
       Inr \<lparr>bound_directory_rows = rows, bound_comparisons = 0,
         bound_field_multiplications = rows * int (length (owners (base c))) * slots_per_key (pages c),
         bound_oblivious_reads = 0, bound_opened_values = 1, bound_private_input_values = rows\<rparr>))"

section \<open>Polynomials as coefficient lists\<close>

definition poly_at :: "int list \<Rightarrow> int \<Rightarrow> int" where
  "poly_at cs x = (\<Sum>i<length cs. cs ! i * x ^ i)"

lemma poly_at_Nil [simp]: "poly_at [] x = 0"
  by (simp add: poly_at_def)

lemma poly_at_Cons [simp]: "poly_at (a # cs) x = a + x * poly_at cs x"
proof -
  have "poly_at (a # cs) x = (\<Sum>i<Suc (length cs). (a # cs) ! i * x ^ i)" by (simp only: poly_at_def list.size add_0_right add_Suc_right)
  also have "\<dots> = a + (\<Sum>i<length cs. cs ! i * x ^ Suc i)" by (subst sum.lessThan_Suc_shift) simp
  also have "\<dots> = a + x * poly_at cs x" by (simp add: poly_at_def sum_distrib_left mult.left_commute)
  finally show ?thesis .
qed

lemma poly_at_replicate [simp]: "poly_at (replicate n 0) x = 0"
  by (induction n) simp_all

lemma poly_at_update: "i < length cs \<Longrightarrow> poly_at (cs[i := y]) x = poly_at cs x + (y - cs ! i) * x ^ i"
proof (induction cs arbitrary: i)
  case (Cons a cs)
  show ?case
  proof (cases i)
    case (Suc n)
    with Cons have "poly_at (cs[n := y]) x = poly_at cs x + (y - cs ! n) * x ^ n" by simp
    then have "poly_at ((a # cs)[i := y]) x = a + x * (poly_at cs x + (y - cs ! n) * x ^ n)" by (simp add: Suc)
    then show ?thesis by (simp add: Suc algebra_simps)
  qed simp
qed simp

lemma poly_at_add:
  assumes "i < length cs"
  shows "poly_at (cs[i := (cs ! i + d) mod p]) x mod p = (poly_at cs x + d * x ^ i) mod p"
proof -
  have e: "((cs ! i + d) mod p - cs ! i) mod p = d mod p" by (simp add: mod_diff_left_eq)
  have "poly_at (cs[i := (cs ! i + d) mod p]) x = poly_at cs x + ((cs ! i + d) mod p - cs ! i) * x ^ i"
    by (rule poly_at_update [OF assms])
  moreover have "(poly_at cs x + ((cs ! i + d) mod p - cs ! i) * x ^ i) mod p = (poly_at cs x + d * x ^ i) mod p"
    by (rule mod_add_cong [OF refl mod_mult_cong [OF e refl]])
  ultimately show ?thesis by simp
qed

lemma enumerate_fold: "fold f (enumerate 0 xs) s = fold (\<lambda>i. f (i, xs ! i)) [0..<length xs] s"
  by (simp add: enumerate_nth fold_map comp_def)

lemma in_prime_update: "list_all (in_prime p) cs \<Longrightarrow> 0 < p \<Longrightarrow> list_all (in_prime p) (cs[i := y mod p])"
  by (auto simp: list_all_iff in_prime_def dest!: subsetD [OF set_update_subset_insert])

lemma basis_step_spec:
  assumes p: "0 < p"
  shows "length (basis_step p other basis) = length basis + 1"
    and "poly_at (basis_step p other basis) x mod p = (x - other) * poly_at basis x mod p"
proof -
  define f where "f i product = (let product = product[i := (product ! i - other * basis ! i) mod p]
      in product[i + 1 := (product ! (i + 1) + basis ! i) mod p])" for i and product :: "int list"
  let ?start = "replicate (length basis + 1) 0 :: int list"
  have step: "length (f i product) = length product \<and>
      poly_at (f i product) x mod p = (poly_at product x + (x - other) * (basis ! i * x ^ i)) mod p"
    if "i + 1 < length product" for i product
  proof -
    let ?q = "product[i := (product ! i - other * basis ! i) mod p]"
    have "poly_at (f i product) x mod p = (poly_at ?q x + basis ! i * x ^ (i + 1)) mod p"
      using that poly_at_add [of "i + 1" ?q "basis ! i" p x] by (simp add: f_def Let_def)
    also have "\<dots> = (poly_at ?q x mod p + basis ! i * x ^ (i + 1)) mod p" by (simp only: mod_add_left_eq)
    also have "poly_at ?q x mod p = (poly_at product x + - (other * basis ! i) * x ^ i) mod p"
      using that poly_at_add [of i product "- (other * basis ! i)" p x] by simp
    also have "((poly_at product x + - (other * basis ! i) * x ^ i) mod p + basis ! i * x ^ (i + 1)) mod p =
        (poly_at product x + (x - other) * (basis ! i * x ^ i)) mod p"
      by (simp only: mod_add_left_eq) (simp add: algebra_simps)
    finally show ?thesis by (simp add: f_def Let_def)
  qed
  have "length (fold f [0..<k] ?start) = length basis + 1 \<and>
      poly_at (fold f [0..<k] ?start) x mod p = (x - other) * (\<Sum>i<k. basis ! i * x ^ i) mod p" if "k \<le> length basis" for k
    using that
  proof (induction k)
    case (Suc k)
    then have IH: "length (fold f [0..<k] ?start) = length basis + 1"
        "poly_at (fold f [0..<k] ?start) x mod p = (x - other) * (\<Sum>i<k. basis ! i * x ^ i) mod p" by simp_all
    then have s: "length (f k (fold f [0..<k] ?start)) = length basis + 1"
        "poly_at (f k (fold f [0..<k] ?start)) x mod p = (poly_at (fold f [0..<k] ?start) x + (x - other) * (basis ! k * x ^ k)) mod p"
      using step [of k "fold f [0..<k] ?start"] Suc.prems by simp_all
    have "(poly_at (fold f [0..<k] ?start) x + (x - other) * (basis ! k * x ^ k)) mod p =
        ((x - other) * (\<Sum>i<k. basis ! i * x ^ i) + (x - other) * (basis ! k * x ^ k)) mod p"
      using IH(2) by (metis mod_add_left_eq)
    with s show ?case by (simp add: distrib_left)
  qed simp
  from this [of "length basis"] have
    "length (fold f [0..<length basis] ?start) = length basis + 1"
    "poly_at (fold f [0..<length basis] ?start) x mod p = (x - other) * poly_at basis x mod p"
    by (simp_all add: poly_at_def [of basis])
  moreover have "basis_step p other basis = fold f [0..<length basis] ?start"
    unfolding basis_step_def enumerate_fold by (intro fold_cong refl) (simp add: f_def fun_eq_iff)
  ultimately show "length (basis_step p other basis) = length basis + 1"
    "poly_at (basis_step p other basis) x mod p = (x - other) * poly_at basis x mod p" by simp_all
qed

lemma add_scaled_spec:
  assumes p: "0 < p" and len: "length basis \<le> length result" and canon: "list_all (in_prime p) result"
  shows "length (add_scaled p scale basis result) = length result" and "list_all (in_prime p) (add_scaled p scale basis result)"
    and "poly_at (add_scaled p scale basis result) x mod p = (poly_at result x + poly_at basis x * scale) mod p"
proof -
  define f where "f i result = result[i := (result ! i + basis ! i * scale) mod p]" for i and result :: "int list"
  have "length (fold f [0..<k] result) = length result \<and> list_all (in_prime p) (fold f [0..<k] result) \<and>
      poly_at (fold f [0..<k] result) x mod p = (poly_at result x + (\<Sum>i<k. basis ! i * x ^ i) * scale) mod p"
    if "k \<le> length basis" for k
    using that
  proof (induction k)
    case 0
    then show ?case using canon by simp
  next
    case (Suc k)
    let ?r = "fold f [0..<k] result"
    from Suc have IH: "length ?r = length result" "list_all (in_prime p) ?r"
        "poly_at ?r x mod p = (poly_at result x + (\<Sum>i<k. basis ! i * x ^ i) * scale) mod p" by simp_all
    have "poly_at (f k ?r) x mod p = (poly_at ?r x + basis ! k * scale * x ^ k) mod p"
      using Suc.prems len IH(1) by (simp add: f_def poly_at_add)
    also have "\<dots> = (poly_at result x + (\<Sum>i<k. basis ! i * x ^ i) * scale + basis ! k * scale * x ^ k) mod p"
      using IH(3) by (metis mod_add_left_eq)
    also have "\<dots> = (poly_at result x + (\<Sum>i<Suc k. basis ! i * x ^ i) * scale) mod p" by (simp add: algebra_simps)
    finally have "poly_at (f k ?r) x mod p = (poly_at result x + (\<Sum>i<Suc k. basis ! i * x ^ i) * scale) mod p" .
    moreover have "length (f k ?r) = length result" "list_all (in_prime p) (f k ?r)"
      using IH(1) in_prime_update [OF IH(2) p] by (simp_all add: f_def)
    ultimately show ?case by simp
  qed
  from this [of "length basis"] have "length (fold f [0..<length basis] result) = length result"
      "list_all (in_prime p) (fold f [0..<length basis] result)"
      "poly_at (fold f [0..<length basis] result) x mod p = (poly_at result x + poly_at basis x * scale) mod p"
    by (simp_all add: poly_at_def [of basis])
  moreover have "add_scaled p scale basis result = fold f [0..<length basis] result"
    unfolding add_scaled_def enumerate_fold by (intro fold_cong refl) (simp add: f_def fun_eq_iff)
  ultimately show "length (add_scaled p scale basis result) = length result" "list_all (in_prime p) (add_scaled p scale basis result)"
    "poly_at (add_scaled p scale basis result) x mod p = (poly_at result x + poly_at basis x * scale) mod p" by simp_all
qed

section \<open>The interpolation is exact\<close>

lemma egcd_spec:
  "egcd a b = (g, x, y) \<Longrightarrow> 0 \<le> a \<Longrightarrow> 0 \<le> b \<Longrightarrow> a * x + b * y = g \<and> g = gcd a b"
proof (induction a b arbitrary: g x y rule: egcd.induct)
  case (1 a b)
  show ?case
  proof (cases "b \<le> 0")
    case True
    with 1 show ?thesis by (auto simp: egcd.simps [of a b])
  next
    case False
    obtain g' x' y' where rec: "egcd b (a mod b) = (g', x', y')" by (metis prod.exhaust)
    from 1(1) [OF False rec] False have IH: "b * x' + a mod b * y' = g' \<and> g' = gcd b (a mod b)" by simp
    from 1(2) False rec have out: "g = g'" "x = y'" "y = x' - a div b * y'" by (auto simp: egcd.simps [of a b])
    have "a * y' + b * (x' - a div b * y') = b * x' + (a - a div b * b) * y'" by (simp add: algebra_simps)
    also have "a - a div b * b = a mod b" by (simp add: minus_div_mult_eq_mod)
    finally show ?thesis using IH out by (simp add: gcd_red_int [of a b])
  qed
qed

lemma mod_inverse_spec:
  assumes p: "1 < p" and d: "coprime d p"
  shows "\<exists>s. mod_inverse d p = Inr s \<and> d * s mod p = 1"
proof -
  obtain g x y where e: "egcd (d mod p) p = (g, x, y)" by (metis prod.exhaust)
  from egcd_spec [OF e] p have bez: "d mod p * x + p * y = g" "g = gcd (d mod p) p" by simp_all
  have "coprime (d mod p) p" using d by (metis coprime_mod_left_iff p less_irrefl not_one_less_zero)
  with bez(2) have g: "g = 1" by (simp add: coprime_iff_gcd_eq_1)
  have "d * (x mod p) mod p = d mod p * x mod p" by (simp add: mod_simps)
  also have "\<dots> = (d mod p * x + p * y) mod p" by simp
  also have "\<dots> = 1" using bez(1) g p by simp
  finally show ?thesis using e g by (simp add: mod_inverse_def)
qed

lemma lagrange_fold:
  fixes os :: "int list" and point :: int
  assumes p: "0 < p"
  defines "step \<equiv> (\<lambda>other (basis, denominator). if other = point then (basis, denominator)
      else (basis_step p other basis, denominator * (point - other) mod p))"
  shows "fold step os (b, d) = (b', d') \<Longrightarrow>
    length b' = length b + length (filter (\<lambda>z. z \<noteq> point) os) \<and>
    (\<forall>x. poly_at b' x mod p = poly_at b x * (\<Prod>z\<leftarrow>filter (\<lambda>z. z \<noteq> point) os. x - z) mod p) \<and>
    d' mod p = d * (\<Prod>z\<leftarrow>filter (\<lambda>z. z \<noteq> point) os. point - z) mod p"
proof (induction os arbitrary: b d)
  case Nil
  then show ?case by simp
next
  case (Cons z os)
  show ?case
  proof (cases "z = point")
    case True
    with Cons show ?thesis by (simp add: step_def)
  next
    case False
    from Cons.prems False have "fold step os (basis_step p z b, d * (point - z) mod p) = (b', d')" by (simp add: step_def)
    note IH = Cons.IH [OF this]
    let ?P = "\<lambda>x. \<Prod>z\<leftarrow>filter (\<lambda>z. z \<noteq> point) os. x - z"
    have "poly_at b' x mod p = poly_at b x * ((x - z) * ?P x) mod p" for x
    proof -
      have "poly_at b' x mod p = (poly_at (basis_step p z b) x mod p) * ?P x mod p" using IH by (simp add: mod_mult_left_eq)
      also have "\<dots> = (x - z) * poly_at b x * ?P x mod p" unfolding basis_step_spec(2) [OF p] by (simp only: mod_mult_left_eq)
      finally show ?thesis by (simp add: ac_simps)
    qed
    moreover have "d' mod p = d * ((point - z) * ?P point) mod p" using IH by (simp add: mod_mult_left_eq mult.assoc)
    ultimately show ?thesis using False IH basis_step_spec(1) [OF p] by simp
  qed
qed

lemma coprime_prod_list: "(\<And>x. x \<in> set xs \<Longrightarrow> coprime x p) \<Longrightarrow> coprime (prod_list xs) (p :: int)"
  by (induction xs) simp_all

lemma interpolate_step_spec:
  assumes p: "1 < p" and point: "0 \<le> point" "point \<le> maximum"
    and units: "\<And>k. 1 \<le> k \<Longrightarrow> k \<le> maximum \<Longrightarrow> coprime k p"
    and len: "length result = nat maximum + 1" and canon: "list_all (in_prime p) result"
  shows "\<exists>out. interpolate_step p maximum point result = Inr out \<and> length out = nat maximum + 1 \<and> list_all (in_prime p) out \<and>
    (\<forall>x. 0 \<le> x \<and> x \<le> maximum \<longrightarrow> poly_at out x mod p = (poly_at result x + (if x = point then 1 else 0)) mod p)"
proof -
  let ?os = "filter (\<lambda>z. z \<noteq> point) [0..maximum]"
  obtain basis d where bd: "lagrange_basis p maximum point = (basis, d)" by fastforce
  have p0: "0 < p" using p by simp
  from lagrange_fold [OF p0, where point = point and os = "[0..maximum]" and b = "[1]" and d = 1] bd
  have spec: "length basis = 1 + length ?os" "\<And>x. poly_at basis x mod p = (\<Prod>z\<leftarrow>?os. x - z) mod p"
      "d mod p = (\<Prod>z\<leftarrow>?os. point - z) mod p"
    unfolding lagrange_basis_def by auto
  have unit: "coprime (point - z) p" if "z \<in> set ?os" for z
  proof (cases "point < z")
    case True
    with that point units [of "z - point"] have "coprime (z - point) p" by simp
    then show ?thesis using coprime_minus_left_iff [of "z - point" p] by simp
  next
    case False
    with that point units [of "point - z"] show ?thesis by auto
  qed
  have "coprime (\<Prod>z\<leftarrow>?os. point - z) p" by (rule coprime_prod_list) (use unit in auto)
  then have "coprime d p" using spec(3) p0 by (metis coprime_mod_left_iff less_irrefl)
  from mod_inverse_spec [OF p this] obtain s where s: "mod_inverse d p = Inr s" "d * s mod p = 1" by blast
  have "length ?os = card ({z. z \<noteq> point} \<inter> set [0..maximum])" by (rule distinct_length_filter) simp
  also have "{z. z \<noteq> point} \<inter> set [0..maximum] = {0..maximum} - {point}" by auto
  also have "card \<dots> = nat maximum" using point by (simp add: nat_add_distrib)
  finally have "length ?os = nat maximum" .
  then have small: "length basis \<le> length result" using spec(1) len by simp
  have at: "poly_at basis x * s mod p = (if x = point then 1 else 0)" if x: "0 \<le> x" "x \<le> maximum" for x
  proof (cases "x = point")
    case True
    have "poly_at basis x * s mod p = (poly_at basis x mod p) * s mod p" by (simp only: mod_mult_left_eq)
    also have "\<dots> = (d mod p) * s mod p" using spec(2) [of x] spec(3) True by simp
    also have "\<dots> = 1" using s(2) by (simp only: mod_mult_left_eq)
    finally show ?thesis using True by simp
  next
    case False
    then have "0 \<in> set (map (\<lambda>z. x - z) ?os)" using x by (auto intro!: image_eqI [of _ _ x])
    then have "(\<Prod>z\<leftarrow>?os. x - z) = 0" by (simp add: prod_list_zero_iff)
    then have "poly_at basis x mod p = 0" using spec(2) [of x] by simp
    then have "poly_at basis x * s mod p = 0" by (metis mod_mult_left_eq mult_zero_left mod_0)
    then show ?thesis using False by simp
  qed
  have "poly_at (add_scaled p s basis result) x mod p = (poly_at result x + (if x = point then 1 else 0)) mod p"
    if x: "0 \<le> x" "x \<le> maximum" for x
  proof -
    have "poly_at basis x * s mod p = (if x = point then 1 else 0) mod p" using at [OF x] p by simp
    from mod_add_cong [OF refl this] show ?thesis using add_scaled_spec(3) [OF p0 small canon, of s x] by simp
  qed
  then show ?thesis
    using add_scaled_spec(1,2) [OF p0 small canon, of s] len bd s(1) by (simp add: interpolate_step_def)
qed

lemma interpolation_exact:
  assumes dom: "0 \<le> bound" "bound < maximum" "maximum < p"
    and units: "\<And>k. 1 \<le> k \<Longrightarrow> k \<le> maximum \<Longrightarrow> coprime k p"
  shows "\<exists>cs. overflow_polynomial bound maximum p = Inr cs \<and> length cs = nat maximum + 1 \<and> list_all (in_prime p) cs \<and>
    (\<forall>x. 0 \<le> x \<and> x \<le> maximum \<longrightarrow> poly_at cs x mod p = flag (bound < x))"
proof -
  have p: "1 < p" using dom by simp
  have "\<exists>cs. foldM (interpolate_step p maximum) pts result = Inr cs \<and> length cs = nat maximum + 1 \<and> list_all (in_prime p) cs \<and>
      (\<forall>x. 0 \<le> x \<and> x \<le> maximum \<longrightarrow> poly_at cs x mod p = (poly_at result x + (if x \<in> set pts then 1 else 0)) mod p)"
    if "set pts \<subseteq> {0..maximum}" "distinct pts" "length result = nat maximum + 1" "list_all (in_prime p) result" for pts result
    using that
  proof (induction pts arbitrary: result)
    case Nil
    then show ?case by simp
  next
    case (Cons point pts)
    then have "0 \<le> point" "point \<le> maximum" by simp_all
    from interpolate_step_spec [OF p this units Cons.prems(3,4)] obtain mid where
      mid: "interpolate_step p maximum point result = Inr mid" "length mid = nat maximum + 1" "list_all (in_prime p) mid"
        "\<And>x. 0 \<le> x \<Longrightarrow> x \<le> maximum \<Longrightarrow> poly_at mid x mod p = (poly_at result x + (if x = point then 1 else 0)) mod p"
      by blast
    from Cons.IH [OF _ _ mid(2,3)] Cons.prems(1,2) obtain cs where
      cs: "foldM (interpolate_step p maximum) pts mid = Inr cs" "length cs = nat maximum + 1" "list_all (in_prime p) cs"
        "\<And>x. 0 \<le> x \<Longrightarrow> x \<le> maximum \<Longrightarrow> poly_at cs x mod p = (poly_at mid x + (if x \<in> set pts then 1 else 0)) mod p"
      by auto
    have "poly_at cs x mod p = (poly_at result x + (if x \<in> set (point # pts) then 1 else 0)) mod p" if x: "0 \<le> x" "x \<le> maximum" for x
    proof -
      have "poly_at cs x mod p = ((poly_at result x + (if x = point then 1 else 0)) + (if x \<in> set pts then 1 else 0)) mod p"
        using cs(4) [OF x] mid(4) [OF x] by (metis mod_add_left_eq)
      then show ?thesis using Cons.prems(2) by auto
    qed
    with mid(1) cs show ?case by simp
  qed
  from this [of "[bound + 1..maximum]" "replicate (nat maximum + 1) 0"] dom p obtain cs where
    cs: "foldM (interpolate_step p maximum) [bound + 1..maximum] (replicate (nat maximum + 1) 0) = Inr cs"
      "length cs = nat maximum + 1" "list_all (in_prime p) cs"
      "\<And>x. 0 \<le> x \<Longrightarrow> x \<le> maximum \<Longrightarrow> poly_at cs x mod p = (if x \<in> {bound + 1..maximum} then 1 else 0) mod p"
    by (auto simp: in_prime_def list_all_iff)
  have "poly_at cs x mod p = flag (bound < x)" if "0 \<le> x" "x \<le> maximum" for x
    using cs(4) [OF that] that p by auto
  with cs dom show ?thesis by (simp add: overflow_polynomial_def)
qed

section \<open>The program counts the violations\<close>

context mpc_machine
begin

lemma overflow_row_spec:
  assumes "list_all (in_prime p) cs" and "cs \<noteq> []" and x: "in_prime p x"
  shows "overflow_row ops cs x = poly_at cs x mod p"
  using assms(1,2)
proof (induction cs)
  case (Cons a cs)
  show ?case
  proof (cases "cs = []")
    case True
    then show ?thesis using Cons.prems by (simp add: overflow_row_def in_prime_mod)
  next
    case False
    from Cons False have IH: "overflow_row ops cs x = poly_at cs x mod p" by simp
    have "overflow_row ops (a # cs) x = m_add ops (m_mul ops (overflow_row ops cs x) x) a"
      using False by (simp add: overflow_row_def)
    also have "\<dots> = (poly_at cs x mod p * x mod p + a) mod p"
    proof -
      have "in_prime p (poly_at cs x mod p)" "in_prime p (poly_at cs x mod p * x mod p)" using p_gt_1 by (simp_all add: in_prime_def)
      then show ?thesis using x Cons.prems by (simp add: IH mul add)
    qed
    also have "\<dots> = (poly_at cs x * x + a) mod p" by (simp add: mod_simps)
    finally show ?thesis by (simp add: algebra_simps)
  qed
qed simp

lemma count_flags:
  assumes "int (length xs) < p"
  shows "fold (\<lambda>x t. m_add ops t (flag (P x))) xs 0 = int (length (filter P xs))"
proof -
  have "fold (\<lambda>x t. m_add ops t (flag (P x))) xs z = z + int (length (filter P xs))"
    if "0 \<le> z" "z + int (length xs) < p" for z
    using that
  proof (induction xs arbitrary: z)
    case (Cons x xs)
    have "m_add ops z (flag (P x)) = z + flag (P x)"
      using Cons.prems by (intro add_small) (auto simp: in_prime_def)
    with Cons.IH [of "z + flag (P x)"] Cons.prems show ?case by (cases "P x") simp_all
  qed simp
  from this [of 0] assms show ?thesis by simp
qed

lemma bound_check_counts:
  assumes prime: "p = field_prime (base c)"
    and scalable: "p \<in> set SCALABLE_FIELD_PRIMES" and g: "global_frontier (pages c) = Some g"
    and dom: "0 \<le> g" "g < max_possible c" "max_possible c < p"
    and units: "\<And>k. 1 \<le> k \<Longrightarrow> k \<le> max_possible c \<Longrightarrow> coprime k p"
    and rows: "occupancy_rows c = Inr (int (length counts))" "int (length counts) < p"
    and counts: "\<And>x. x \<in> set counts \<Longrightarrow> 0 \<le> x \<and> x \<le> max_possible c"
    and shares: "shares_of p inputs counts"
  shows "bound_check_program ops c inputs = Inr (int (length (filter (\<lambda>x. g < x) counts)))"
proof -
  from interpolation_exact [OF dom units] obtain cs where
    cs: "overflow_polynomial g (max_possible c) p = Inr cs" "length cs = nat (max_possible c) + 1" "list_all (in_prime p) cs"
      "\<And>x. 0 \<le> x \<Longrightarrow> x \<le> max_possible c \<Longrightarrow> poly_at cs x mod p = flag (g < x)"
    by blast
  have "concat (map (\<lambda>x. [x]) counts) = counts" by (induction counts) simp_all
  then have "shares_of p inputs (concat (map (\<lambda>x. [x]) counts) @ [])" using shares by simp
  then have "\<exists>rest. shared_matrix ops (length counts) 1 inputs = (map (\<lambda>x. [x]) counts, rest) \<and> shares_of p rest []"
    by (rule shared_matrix_spec) auto
  then obtain rest where "shared_matrix ops (length counts) 1 inputs = (map (\<lambda>x. [x]) counts, rest)" by blast
  moreover have "concat (map (\<lambda>x. [x]) counts) = counts" by fact
  moreover have "overflow_row ops cs x = flag (g < x)" if "x \<in> set counts" for x
  proof -
    have "in_prime p x" using counts [OF that] dom(3) by (simp add: in_prime_def)
    moreover have "cs \<noteq> []" using cs(2) by auto
    ultimately show ?thesis using overflow_row_spec [OF cs(3)] cs(4) counts [OF that] by simp
  qed
  then have "fold (\<lambda>x t. m_add ops t (overflow_row ops cs x)) counts 0 = fold (\<lambda>x t. m_add ops t (flag (g < x))) counts 0"
    by (intro fold_cong refl) simp
  ultimately show ?thesis
    using scalable g cs(1) rows count_flags [OF rows(2), of "\<lambda>x. g < x"] prime
    by (simp add: bound_check_program_def bound_validate_def)
qed

end

section \<open>The servers' inputs\<close>

lemma mod_three: "(u mod p + v mod p + w mod p) mod p = (u + v + w) mod (p :: int)"
  by (metis mod_add_left_eq mod_add_right_eq)

lemma int_row_unique:
  fixes w :: int
  assumes "i * w + j = i' * w + j'" and "0 \<le> j" "j < w" and "0 \<le> j'" "j' < w"
  shows "i = i' \<and> j = j'"
proof -
  have "(i * w + j) div w = i" "(i' * w + j') div w = i'" using assms(2-) by simp_all
  then show ?thesis using assms(1) by simp
qed

lemma row_split:
  assumes "row < row_count c"
  shows "dense_row c (int row div relation_count c) (int row mod relation_count c + 1) = row \<and>
    0 \<le> int row div relation_count c \<and> int row div relation_count c < entity_count (base c) \<and>
    1 \<le> int row mod relation_count c + 1 \<and> int row mod relation_count c + 1 \<le> relation_count c"
proof -
  have R: "0 < relation_count c" using assms by (cases "relations (base c)") (auto simp: row_count_def relation_count_def)
  have count: "int (row_count c) = entity_count (base c) * relation_count c"
    using entity_count_pos [of "base c"] by (simp add: row_count_def relation_count_def)
  have s: "0 \<le> int row div relation_count c" using R by (simp add: pos_imp_zdiv_nonneg_iff)
  have "int row < entity_count (base c) * relation_count c" using assms count by linarith
  moreover have "int row div relation_count c * relation_count c \<le> int row"
    using R pos_mod_sign [of "relation_count c" "int row"] div_mult_mod_eq [of "int row" "relation_count c"] by linarith
  ultimately have "int row div relation_count c * relation_count c < entity_count (base c) * relation_count c" by linarith
  then have "int row div relation_count c < entity_count (base c)" using R by simp
  moreover have r: "1 \<le> int row mod relation_count c + 1" "int row mod relation_count c + 1 \<le> relation_count c"
    using pos_mod_sign [OF R, of "int row"] pos_mod_bound [OF R, of "int row"] by linarith+
  moreover have "int (dense_row c (int row div relation_count c) (int row mod relation_count c + 1)) = int row"
    using dense_row_int [OF s r(1), of c] by simp
  ultimately show ?thesis using s by simp
qed

lemma occupancy_rows_all: "occupancy_rows c = Inr (int (row_count c))"
proof -
  have "dense_directory_rows c = int (row_count c)"
    using entity_count_pos [of "base c"] by (simp add: dense_directory_rows_def relation_count_def row_count_def)
  then show ?thesis
    by (cases "type_blocks c") (simp_all add: occupancy_rows_def uses_hybrid_directory_def directory_rows_def)
qed

lemma occupancy_loop:
  assumes run: "foldM (\<lambda>((source_slot, relation_id), records) occupancy.
      bindr (dense_directory_index c source_slot relation_id) (\<lambda>index. list_put occupancy index (int (length records)))) gs occ0 = Inr occ"
    and len: "length occ0 = row_count c" and dist: "distinct (map fst gs)"
  shows "length occ = row_count c"
    and "((s, r), records) \<in> set gs \<Longrightarrow> occ ! dense_row c s r = int (length records)"
    and "0 \<le> s \<Longrightarrow> s < entity_count (base c) \<Longrightarrow> 1 \<le> r \<Longrightarrow> r \<le> relation_count c \<Longrightarrow> (s, r) \<notin> fst ` set gs \<Longrightarrow>
      occ ! dense_row c s r = occ0 ! dense_row c s r"
proof -
  have "length occ = row_count c \<and> (\<forall>s r records. ((s, r), records) \<in> set gs \<longrightarrow> occ ! dense_row c s r = int (length records)) \<and>
      (\<forall>s r. 0 \<le> s \<and> s < entity_count (base c) \<and> 1 \<le> r \<and> r \<le> relation_count c \<and> (s, r) \<notin> fst ` set gs \<longrightarrow>
        occ ! dense_row c s r = occ0 ! dense_row c s r)"
    using run len dist
  proof (induction gs arbitrary: occ0)
    case Nil
    then show ?case by simp
  next
    case (Cons group gs)
    obtain s0 r0 records0 where group: "group = ((s0, r0), records0)" by (metis prod.exhaust)
    from Cons.prems(1) group have in0: "0 \<le> s0" "s0 < entity_count (base c)" "1 \<le> r0" "r0 \<le> relation_count c"
      by (auto simp: dense_directory_index_def split: if_splits)
    note row0 = dense_row_less [OF in0] dense_row_int [OF in0(1,3)]
    let ?mid = "occ0[dense_row c s0 r0 := int (length records0)]"
    have "dense_directory_index c s0 r0 = Inr (int (dense_row c s0 r0))"
      using in0 row0(2) by (simp add: dense_directory_index_def)
    then have rest: "foldM (\<lambda>((source_slot, relation_id), records) occupancy.
      bindr (dense_directory_index c source_slot relation_id) (\<lambda>index. list_put occupancy index (int (length records)))) gs ?mid = Inr occ"
      using Cons.prems(1,2) row0(1) by (simp add: group list_put_in)
    have mid: "length ?mid = row_count c" using Cons.prems(2) by simp
    from Cons.prems(3) have dist: "distinct (map fst gs)" "(s0, r0) \<notin> fst ` set gs" by (auto simp: group)
    note IH = Cons.IH [OF rest mid dist(1)]
    have inj: "(s, r) = (s0, r0)" if "0 \<le> s" "1 \<le> r" "r \<le> relation_count c" "dense_row c s r = dense_row c s0 r0" for s r
    proof -
      from that(4) have "s * relation_count c + (r - 1) = s0 * relation_count c + (r0 - 1)"
        using dense_row_int [OF that(1,2), of c] row0(2) by simp
      moreover have "0 \<le> r - 1" "r - 1 < relation_count c" "0 \<le> r0 - 1" "r0 - 1 < relation_count c" using that in0 by simp_all
      ultimately have "s = s0 \<and> r - 1 = r0 - 1" by (metis int_row_unique)
      then show ?thesis by simp
    qed
    show ?case
    proof (intro conjI allI impI)
      show "length occ = row_count c" using IH by blast
      show "occ ! dense_row c s r = int (length records)" if "((s, r), records) \<in> set (group # gs)" for s r records
      proof (cases "((s, r), records) \<in> set gs")
        case False
        with that have "s = s0" "r = r0" "records = records0" by (simp_all add: group)
        with IH in0 dist(2) row0(1) mid show ?thesis by simp
      qed (use IH in blast)
      show "occ ! dense_row c s r = occ0 ! dense_row c s r"
        if "0 \<le> s \<and> s < entity_count (base c) \<and> 1 \<le> r \<and> r \<le> relation_count c \<and> (s, r) \<notin> fst ` set (group # gs)" for s r
      proof -
        from that have "occ ! dense_row c s r = ?mid ! dense_row c s r" using IH by auto
        moreover have "dense_row c s r \<noteq> dense_row c s0 r0" using inj [of s r] that by (auto simp: group)
        ultimately show ?thesis by simp
      qed
    qed
  qed
  then show "length occ = row_count c"
    and "((s, r), records) \<in> set gs \<Longrightarrow> occ ! dense_row c s r = int (length records)"
    and "0 \<le> s \<Longrightarrow> s < entity_count (base c) \<Longrightarrow> 1 \<le> r \<Longrightarrow> r \<le> relation_count c \<Longrightarrow> (s, r) \<notin> fst ` set gs \<Longrightarrow>
      occ ! dense_row c s r = occ0 ! dense_row c s r" by blast+
qed

lemma occupancy_exact:
  assumes run: "owner_occupancy_vector c owner edges = Inr occ"
    and rows: "traverse (validated_edge (base c)) edges = Inr rows"
  shows "length occ = row_count c"
    and "0 \<le> s \<Longrightarrow> s < entity_count (base c) \<Longrightarrow> 1 \<le> r \<Longrightarrow> r \<le> relation_count c \<Longrightarrow>
      occ ! dense_row c s r = int (length (hop_rows rows s r))"
proof -
  let ?gs = "group_by row_key row_record rows"
  from run rows have loop: "foldM (\<lambda>((source_slot, relation_id), records) occupancy.
      bindr (dense_directory_index c source_slot relation_id) (\<lambda>index. list_put occupancy index (int (length records))))
      ?gs (replicate (row_count c) 0) = Inr occ"
    by (auto simp: owner_occupancy_vector_def res_simps grouped_edges_Inr occupancy_rows_all [unfolded occupancy_rows_def])
  note spec = occupancy_loop [OF loop _ distinct_group_by]
  show "length occ = row_count c" by (rule spec(1)) simp
  assume in_range: "0 \<le> s" "s < entity_count (base c)" "1 \<le> r" "r \<le> relation_count c"
  show "occ ! dense_row c s r = int (length (hop_rows rows s r))"
  proof (cases "(s, r) \<in> row_key ` set rows")
    case True
    then have "(s, r) \<in> fst ` set ?gs" by simp
    then obtain e where "e \<in> set ?gs" "fst e = (s, r)" by (metis imageE)
    then obtain records where e: "((s, r), records) \<in> set ?gs" by (metis prod.collapse)
    have "records = map row_record (filter (\<lambda>row. row_key row = (s, r)) rows)"
      using get_or_in [OF e distinct_group_by, of "[]"] by simp
    with spec(2) [OF _ e] show ?thesis by (simp add: hop_rows_def)
  next
    case False
    then have "hop_rows rows s r = []" unfolding hop_rows_def filter_empty_conv by (metis imageI)
    moreover have "occ ! dense_row c s r = replicate (row_count c) 0 ! dense_row c s r"
      by (rule spec(3)) (use in_range False in simp_all)
    ultimately show ?thesis using dense_row_less [OF in_range] by simp
  qed
qed

lemma hop_rows_fit:
  assumes p: "params_ok (pages c)" and fit: "rows_fit_pages c rows"
  shows "int (length (hop_rows rows s r)) \<le> slots_per_key (pages c)"
proof (cases "(s, r) \<in> row_key ` set rows")
  case True
  then obtain records where e: "((s, r), records) \<in> set (sorted_groups rows)"
    using sorted_groups_keys [of rows] by (metis (no_types, lifting) fst_conv imageE prod.exhaust)
  then have "length records = length (hop_rows rows s r)" by (auto simp: sorted_groups_def hop_rows_def Let_def)
  moreover have "int (length records) \<le> effective_frontier_per_owner (pages c)"
    using fit e by (auto simp: rows_fit_pages_def group_fits_def)
  moreover have "effective_frontier_per_owner (pages c) \<le> slots_per_key (pages c)" by (rule params_frontier_bounds(2) [OF p])
  ultimately show ?thesis by simp
next
  case False
  then have "hop_rows rows s r = []" unfolding hop_rows_def filter_empty_conv by (metis imageI)
  moreover have "0 \<le> slots_per_key (pages c)" using p by (simp add: slots_per_key_def params_ok_def)
  ultimately show ?thesis by simp
qed

definition bound_run ::
  "(jval \<Rightarrow> string) \<Rightarrow> page_config \<Rightarrow> (nat \<Rightarrow> document list) \<Rightarrow> nat list \<Rightarrow> nat \<Rightarrow> int list res" where
  "bound_run H c docs order s = assemble_bound_check_input H c (int s) (map (\<lambda>i. JDict (docs i ! s)) order)"

text \<open>A prepared document as the bound check reads it.\<close>

definition bound_ready :: "(jval \<Rightarrow> string) \<Rightarrow> page_config \<Rightarrow> nat \<Rightarrow> nat \<Rightarrow> int list \<Rightarrow> document \<Rightarrow> bool" where
  "bound_ready H c s i piece doc \<longleftrightarrow>
     (\<exists>dir pool. validated_owner_document H c (int s) (JDict doc) = Inr (int i, dir, pool)) \<and>
     jget doc ''occupancy'' = JList (map JInt piece) \<and> length piece = row_count c \<and> canonical (field_prime (base c)) piece"

lemma bound_loop:
  assumes p: "0 < field_prime (base c)"
    and ready: "\<And>i. i \<in> set perm \<Longrightarrow> bound_ready H c s i (x i) (doc i)" and "distinct perm"
    and "int ` set perm \<inter> set seen = {}" and "length totals = row_count c" and "canonical (field_prime (base c)) totals"
  shows "foldM (bound_document_step H c (int s) (int (row_count c))) (map (\<lambda>i. JDict (doc i)) perm) (totals, seen) =
    Inr (map (\<lambda>row. (totals ! row + (\<Sum>i\<leftarrow>perm. x i ! row)) mod field_prime (base c)) [0..<row_count c], rev (map int perm) @ seen)"
  using assms(2-)
proof (induction perm arbitrary: totals seen)
  case Nil
  then show ?case by (auto simp: list_all_length intro!: nth_equalityI)
next
  case (Cons i perm)
  let ?p = "field_prime (base c)"
  let ?mid = "map2 (\<lambda>total value. (total + value) mod ?p) totals (x i)"
  have r: "bound_ready H c s i (x i) (doc i)" using Cons.prems(1) by simp
  then have len: "length (x i) = row_count c" by (simp add: bound_ready_def)
  have step: "bound_document_step H c (int s) (int (row_count c)) (JDict (doc i)) (totals, seen) = Inr (?mid, int i # seen)"
    using r Cons.prems(3) by (auto simp: bound_document_step_def bound_ready_def)
  have mid: "length ?mid = row_count c" "canonical ?p ?mid" "\<And>row. row < row_count c \<Longrightarrow> ?mid ! row = (totals ! row + x i ! row) mod ?p"
    using len Cons.prems(4) p by (auto simp: list_all_length)
  have "int ` set perm \<inter> set (int i # seen) = {}" using Cons.prems(2,3) by auto
  from Cons.IH [OF _ _ this mid(1,2)] Cons.prems(1,2)
  have "foldM (bound_document_step H c (int s) (int (row_count c))) (map (\<lambda>i. JDict (doc i)) perm) (?mid, int i # seen) =
    Inr (map (\<lambda>row. (?mid ! row + (\<Sum>i\<leftarrow>perm. x i ! row)) mod ?p) [0..<row_count c], rev (map int perm) @ int i # seen)" by simp
  moreover have "map (\<lambda>row. (?mid ! row + (\<Sum>i\<leftarrow>perm. x i ! row)) mod ?p) [0..<row_count c] =
      map (\<lambda>row. (totals ! row + (\<Sum>i\<leftarrow>i # perm. x i ! row)) mod ?p) [0..<row_count c]"
    by (rule map_cong [OF refl]) (simp only: mid(3) set_upt atLeastLessThan_iff mod_add_left_eq list.map sum_list.Cons add.assoc)
  ultimately show ?case using step by simp
qed

text \<open>The length of an owner's vector is the one every server expects, for the three directory variants.\<close>

lemma owner_table_of_length:
  assumes "owner_table_of c i keyed = Inr t" and "i < length (owners (base c))" and "params_ok (pages c)"
  shows "\<exists>b u. directory_buckets (pages c) = Some b \<and> bucket_slots (pages c) = Some u \<and> 1 \<le> b \<and> 1 \<le> u \<and>
    int (length t) = b * int (length (owners (base c))) * u"
proof -
  from assms(1) obtain b u where bu: "directory_buckets (pages c) = Some b" "bucket_slots (pages c) = Some u"
      "build_owner_table keyed i b (nat u) (length (owners (base c))) (descriptor_bits (pages c)) = Inr t"
    by (auto simp: owner_table_of_def needed_def res_simps split: option.splits)
  with assms(3) have pos: "1 \<le> b" "1 \<le> u" by (auto simp: params_ok_def)
  from build_owner_table_holds [OF bu(3) assms(2)] have "length t = nat b * (length (owners (base c)) * nat u)"
    by (simp add: table_holds_def)
  with bu pos show ?thesis by simp
qed

lemma traverse_elements_of:
  assumes "traverse f xs = Inr ys" and "\<And>x y. f x = Inr y \<Longrightarrow> P y" and "y \<in> set ys"
  shows "P y"
proof -
  from assms(3) obtain i where i: "i < length ys" "y = ys ! i" by (auto simp: in_set_conv_nth)
  with assms(1) have "f (xs ! i) = Inr y" by (auto simp: traverse_eq_Inr list_all2_conv_all_nth)
  with assms(2) show ?thesis by blast
qed

lemma residual_vector_length:
  assumes run: "residual_vector c i residual = Inr t" and i: "i < length (owners (base c))" and p: "params_ok (pages c)"
  shows "compact_value_count c = Inr (int (length t))"
proof (cases "partition_residual_by_relation (pages c)")
  case False
  with run have "owner_table_of c i residual = Inr t" by (simp add: residual_vector_def)
  from owner_table_of_length [OF this i p] False show ?thesis
    by (auto simp: compact_value_count_def uses_compact_directory_def needed_def residual_directory_rows_def)
next
  case True
  let ?n = "int (length (owners (base c)))" and ?R = "relation_count c"
  from p True obtain b u where bu: "directory_buckets (pages c) = Some b" "bucket_slots (pages c) = Some u" "1 \<le> b" "1 \<le> u"
    by (auto simp: params_ok_def)
  from run True bu(2) obtain tables where
    tables: "traverse (\<lambda>relation. owner_table_of c i (relation_slice c residual relation)) [1..?R] = Inr tables"
    and t: "t = concat tables @ replicate (nat (residual_directory_rows c * (?n * u) - int (length (concat tables)))) 0"
    by (auto simp: residual_vector_def res_simps needed_def Let_def)
  have "length t' = nat (b * ?n * u)" if "t' \<in> set tables" for t'
  proof (rule traverse_elements_of [OF tables _ that])
    fix r y assume "owner_table_of c i (relation_slice c residual r) = Inr y"
    from owner_table_of_length [OF this i p] bu(1,2) show "length y = nat (b * ?n * u)" by auto
  qed
  then have "length (concat tables) = length tables * nat (b * ?n * u)" by (rule length_concat_uniform)
  moreover have "length tables = nat ?R" using length_traverse [OF tables] by simp
  moreover have R: "0 \<le> ?R" by (simp add: relation_count_def)
  ultimately have len: "int (length (concat tables)) = ?R * b * (?n * u)" using bu(3,4) by (simp add: mult.assoc)
  have "?R * b - 1 < 2 ^ bit_length (?R * b - 1)"
  proof (cases "1 \<le> ?R * b")
    case True
    then show ?thesis by (intro bit_length_less) simp
  next
    case False
    then have "?R * b - 1 < 0" by linarith
    moreover have "(0 :: int) \<le> 2 ^ bit_length (?R * b - 1)" by simp
    ultimately show ?thesis by linarith
  qed
  then have "?R * b \<le> residual_directory_rows c"
    using True bu(1) by (simp add: residual_directory_rows_def push_bit_eq_mult)
  then have "?R * b * (?n * u) \<le> residual_directory_rows c * (?n * u)" using bu(4) by (intro mult_right_mono) auto
  with t len have "int (length t) = residual_directory_rows c * (?n * u)" by (simp only: length_append length_replicate of_nat_add)
  with bu show ?thesis by (simp add: compact_value_count_def uses_compact_directory_def needed_def mult.assoc)
qed

lemma owner_vector_expected:
  assumes run: "owner_flat_vector c (owners (base c) ! i) edges = Inr (vector, pool)"
    and ok: "page_config_ok c" and i: "i < length (owners (base c))"
    and loaded: "partition_residual_by_relation (pages c) \<Longrightarrow> type_blocks c \<noteq> None"
  shows "expected_directory_values c = Inr (int (length vector))"
    and "int (length pool) = pool_rows (pages c) * page_size (pages c)"
proof -
  from ok have p: "params_ok (pages c)" and v: "valid_config (base c)" by (simp_all add: page_config_ok_def)
  have index: "list_index (owners (base c)) (owners (base c) ! i) = Inr i"
    using list_index_nth valid_owners(2) [OF v] i by blast
  from run obtain l :: owner_page_layout where rows: "directory_rows c = Inr (int (length (directory l)))"
    and variant: "(if uses_hybrid_directory c then
              bindr (residual_vector c i (residual_descriptors l)) (\<lambda>residual. Inr (directory l @ residual))
            else if uses_compact_directory (pages c) then
                owner_table_of c i (map (\<lambda>(row, descriptor). (int row + 1, descriptor))
                  (filter (\<lambda>(row, descriptor). descriptor \<noteq> 0) (enumerate 0 (directory l))))
            else Inr (directory l)) = Inr vector"
    and height: "int (length (page_pool l)) = pool_rows (pages c)"
    and width: "\<And>page. page \<in> set (page_pool l) \<Longrightarrow> int (length page) = page_size (pages c)"
    and pool: "pool = concat (page_pool l)"
    apply (simp only: owner_flat_vector_def index bindr_Inr res_simps not_not sum.inject prod.inject)
    apply (elim exE conjE)
    subgoal for l rows v by (rule that [of l]) (simp_all only:, blast+)
    done
  show "expected_directory_values c = Inr (int (length vector))"
  proof (cases "uses_hybrid_directory c")
    case True
    with variant obtain residual where residual: "residual_vector c i (residual_descriptors l) = Inr residual" "vector = directory l @ residual"
      by (auto simp: res_simps)
    from residual_vector_length [OF residual(1) i p] True residual(2) rows show ?thesis
      by (simp add: expected_directory_values_def)
  next
    case flat: False
    then have blocks: "type_blocks c = None" by (simp add: uses_hybrid_directory_def)
    show ?thesis
    proof (cases "uses_compact_directory (pages c)")
      case True
      with variant flat have "owner_table_of c i (map (\<lambda>(row, descriptor). (int row + 1, descriptor))
          (filter (\<lambda>(row, descriptor). descriptor \<noteq> 0) (enumerate 0 (directory l)))) = Inr vector" by simp
      from owner_table_of_length [OF this i p] obtain b u where
        bu: "directory_buckets (pages c) = Some b" "bucket_slots (pages c) = Some u" "1 \<le> b" "1 \<le> u"
          "int (length vector) = b * int (length (owners (base c))) * u" by blast
      moreover have "0 < b * int (length (owners (base c))) * u" using bu i by (intro mult_pos_pos) auto
      ultimately show ?thesis
        using flat True loaded blocks
        by (auto simp: expected_directory_values_def compact_value_count_def needed_def residual_directory_rows_def)
    next
      case False
      with variant flat rows show ?thesis by (simp add: expected_directory_values_def compact_value_count_def)
    qed
  qed
  have "length pool = length (page_pool l) * nat (page_size (pages c))"
    unfolding pool by (rule length_concat_uniform) (use width in fastforce)
  then show "int (length pool) = pool_rows (pages c) * page_size (pages c)"
    using height p by (simp add: params_ok_def)
qed

lemma validated_owner_shard:
  assumes i: "i < length (owners (base c))" and s: "s < SERVER_COUNT"
    and len: "expected_directory_values c = Inr (int (length vector))" "int (length pool) = pool_rows (pages c) * page_size (pages c)"
    and shares: "share_vector (field_prime (base c)) vector g1 = Inr (dirs, g2)" "share_vector (field_prime (base c)) pool g3 = Inr (pools, g4)"
  shows "validated_owner_document H c (int s) (JDict (paged_owner_document H c (owners (base c) ! i) i dirs pools occ s)) =
    Inr (int i, server_vector s dirs, server_vector s pools)"
  using i len length_server_vector [OF shares(1)] length_server_vector [OF shares(2)]
    shared_triples(7) [OF shares(1)] shared_triples(7) [OF shares(2)]
  by (simp add: validated_owner_document_def)

lemma create_paged_bound_ready:
  assumes ok: "page_config_ok c" and i: "i < length (owners (base c))"
    and loaded: "partition_residual_by_relation (pages c) \<Longrightarrow> type_blocks c \<noteq> None"
    and run: "create_paged_owner_shards H c (owners (base c) ! i) (JList edges) g = Inr (docs, g')"
    and gf: "uses_global_frontier (pages c)"
  shows "\<exists>rows x. traverse (validated_edge (base c)) edges = Inr rows \<and> rows_fit_pages c rows \<and>
    (\<forall>row < row_count c. (x 0 ! row + x 1 ! row + x 2 ! row) mod field_prime (base c) =
      int (length (hop_rows rows (int row div relation_count c) (int row mod relation_count c + 1))) mod field_prime (base c)) \<and>
    (\<forall>s < SERVER_COUNT. bound_ready H c s i (x s) (docs ! s))"
proof -
  let ?p = "field_prime (base c)"
  from ok have v: "valid_config (base c)" by (simp add: page_config_ok_def)
  have index: "list_index (owners (base c)) (owners (base c) ! i) = Inr i"
    using list_index_nth valid_owners(2) [OF v] i by blast
  from run gf obtain vector pool dirs g1 pools g2 occ shares g3 where
    flat: "owner_flat_vector c (owners (base c) ! i) edges = Inr (vector, pool)"
    and dealt: "share_vector ?p vector g = Inr (dirs, g1)" "share_vector ?p pool g1 = Inr (pools, g2)"
    and occ: "owner_occupancy_vector c (owners (base c) ! i) edges = Inr occ" "share_vector ?p occ g2 = Inr (shares, g3)"
    and docs: "docs = map (paged_owner_document H c (owners (base c) ! i) i dirs pools (Some shares)) [0..<SERVER_COUNT]"
    by (auto simp: create_paged_owner_shards_def res_simps index)
  from flat obtain l where "build_owner_page_layout c (owners (base c) ! i) edges = Inr l"
    by (auto simp: owner_flat_vector_def res_simps)
  then obtain rows where rows: "traverse (validated_edge (base c)) edges = Inr rows" "rows_fit_pages c rows"
    using build_layout_iff [OF ok] by blast
  note len = owner_vector_expected [OF flat ok i loaded]
  note exact = occupancy_exact [OF occ(1) rows(1)]
  have "bound_ready H c s i (server_vector s shares) (docs ! s)" if s: "s < SERVER_COUNT" for s
    using validated_owner_shard [OF i s len dealt, of H "Some shares"] s exact(1) length_server_vector [OF occ(2)] shared_triples(7) [OF occ(2)]
    by (auto simp: bound_ready_def docs) (simp add: paged_owner_document_def jget_def get_or_def)
  moreover have "(server_vector 0 shares ! row + server_vector 1 shares ! row + server_vector 2 shares ! row) mod ?p =
      int (length (hop_rows rows (int row div relation_count c) (int row mod relation_count c + 1))) mod ?p" if row: "row < row_count c" for row
  proof -
    let ?s = "int row div relation_count c" and ?r = "int row mod relation_count c + 1"
    note split = row_split [OF row]
    then have at: "occ ! row = int (length (hop_rows rows ?s ?r))" using exact(2) [of ?s ?r] by metis
    with at shared_shares [OF occ(2)] exact(1) row show ?thesis by (auto simp: shares_of_def) (metis mod_mod_trivial)
  qed
  ultimately show ?thesis using rows by (intro exI [of _ rows] exI [of _ "\<lambda>s. server_vector s shares"]) blast
qed

text \<open>The keys whose edges, over all owners, exceed a bound.\<close>

definition overfull_keys :: "page_config \<Rightarrow> edge_row list \<Rightarrow> int \<Rightarrow> (int \<times> int) set" where
  "overfull_keys c rows g = {(s, r). 0 \<le> s \<and> s < entity_count (base c) \<and> 1 \<le> r \<and> r \<le> relation_count c \<and>
     g < int (length (hop_rows rows s r))}"

lemma overfull_count:
  "length (filter (\<lambda>x. g < x) (map (\<lambda>row. int (length (hop_rows rows (int row div relation_count c) (int row mod relation_count c + 1))))
      [0..<row_count c])) = card (overfull_keys c rows g)"
proof -
  let ?f = "\<lambda>row. (int row div relation_count c, int row mod relation_count c + 1)"
  let ?P = "\<lambda>row. g < int (length (hop_rows rows (fst (?f row)) (snd (?f row))))"
  have "length (filter (\<lambda>x. g < x) (map (\<lambda>row. int (length (hop_rows rows (fst (?f row)) (snd (?f row))))) [0..<row_count c])) =
      card {row. row < row_count c \<and> ?P row}"
    by (simp add: filter_map comp_def length_filter_conv_card cong: conj_cong)
  also have "\<dots> = card (overfull_keys c rows g)"
  proof (rule bij_betw_same_card)
    show "bij_betw ?f {row. row < row_count c \<and> ?P row} (overfull_keys c rows g)"
    proof (rule bij_betw_byWitness [where f' = "\<lambda>(s, r). dense_row c s r"])
      have inverse: "?f (dense_row c s r) = (s, r)" if "0 \<le> s" "1 \<le> r" "r \<le> relation_count c" for s r
      proof -
        have "int (dense_row c s r) = s * relation_count c + (r - 1)" by (rule dense_row_int [OF that(1,2)])
        with that show ?thesis by (simp add: div_pos_pos_trivial)
      qed
      have forth: "dense_row c (int row div relation_count c) (int row mod relation_count c + 1) = row \<and>
          0 \<le> int row div relation_count c \<and> int row div relation_count c < entity_count (base c) \<and>
          1 \<le> int row mod relation_count c + 1 \<and> int row mod relation_count c + 1 \<le> relation_count c" if "row < row_count c" for row
        by (rule row_split [OF that])
      show "\<forall>row \<in> {row. row < row_count c \<and> ?P row}. (\<lambda>(s, r). dense_row c s r) (?f row) = row" using forth by simp
      show "\<forall>k \<in> overfull_keys c rows g. ?f ((\<lambda>(s, r). dense_row c s r) k) = k" using inverse by (auto simp: overfull_keys_def)
      show "?f ` {row. row < row_count c \<and> ?P row} \<subseteq> overfull_keys c rows g" using forth by (auto simp: overfull_keys_def)
      show "(\<lambda>(s, r). dense_row c s r) ` overfull_keys c rows g \<subseteq> {row. row < row_count c \<and> ?P row}"
        using inverse dense_row_less by (fastforce simp: overfull_keys_def)
    qed
  qed
  finally show ?thesis by simp
qed

section \<open>Properties\<close>

text \<open>
  C5: The bound check is exact.  When every owner's preparation of a layout with a federation-wide
  bound succeeds, whatever its directory (dense, hashed or hybrid), the three servers assemble the inputs of the check whatever the
  order of the owners' files, and the one value the generated program opens is the number of
  (source, relation) keys whose edges, counted over all owners, exceed \<open>global_frontier\<close>: the
  interpolated polynomial decides the bound on every possible count, and nothing wraps.  The field
  enters through two facts: the numbers up to the largest possible count are invertible, and there
  are fewer keys than field elements.  Partitioning the residual needs a type-block layout, as
  \<open>RelationPageConfig.load\<close> checks.
\<close>

theorem bound_check_exact:
  assumes ok: "page_config_ok c" and machine: "scan_machine ops (base c)"
    and loaded: "partition_residual_by_relation (pages c) \<Longrightarrow> type_blocks c \<noteq> None"
    and g: "global_frontier (pages c) = Some g" and below: "g < max_possible c"
    and scalable: "field_prime (base c) \<in> set SCALABLE_FIELD_PRIMES"
    and units: "\<And>k. 1 \<le> k \<Longrightarrow> k \<le> max_possible c \<Longrightarrow> coprime k (field_prime (base c))"
    and rows_fit: "int (row_count c) < field_prime (base c)"
    and owners_ok: "\<And>i. i < length (owners (base c)) \<Longrightarrow>
      create_paged_owner_shards H c (owners (base c) ! i) (JList (edges i)) (gs i) = Inr (docs i, gs' i)"
    and order: "\<And>s. s < SERVER_COUNT \<Longrightarrow> distinct (order s) \<and> set (order s) = {..<length (owners (base c))}"
  shows "\<exists>a rows.
      (\<forall>s < SERVER_COUNT. bound_run H c docs (order s) s = Inr (a s)) \<and>
      (\<forall>i < length (owners (base c)). traverse (validated_edge (base c)) (edges i) = Inr (rows i)) \<and>
      bound_check_program ops c (a 0, a 1, a 2) =
        Inr (int (card (overfull_keys c (concat (map rows [0..<length (owners (base c))])) g)))"
proof -
  let ?p = "field_prime (base c)" and ?n = "length (owners (base c))"
  from ok have p: "params_ok (pages c)" and v: "valid_config (base c)" by (simp_all add: page_config_ok_def)
  have p0: "0 < ?p" by (rule field_prime_pos [OF v])
  have gf: "uses_global_frontier (pages c)" using g by (simp add: uses_global_frontier_def)
  have "\<forall>i. \<exists>rows x. i < ?n \<longrightarrow> traverse (validated_edge (base c)) (edges i) = Inr rows \<and> rows_fit_pages c rows \<and>
      (\<forall>row < row_count c. (x 0 ! row + x 1 ! row + x 2 ! row) mod ?p =
        int (length (hop_rows rows (int row div relation_count c) (int row mod relation_count c + 1))) mod ?p) \<and>
      (\<forall>s < SERVER_COUNT. bound_ready H c s i (x s) (docs i ! s))"
    using create_paged_bound_ready [OF ok _ loaded owners_ok gf] by blast
  then obtain rows x where t: "\<And>i. i < ?n \<Longrightarrow> traverse (validated_edge (base c)) (edges i) = Inr (rows i)"
      "\<And>i. i < ?n \<Longrightarrow> rows_fit_pages c (rows i)"
      "\<And>i row. i < ?n \<Longrightarrow> row < row_count c \<Longrightarrow> (x i 0 ! row + x i 1 ! row + x i 2 ! row) mod ?p =
        int (length (hop_rows (rows i) (int row div relation_count c) (int row mod relation_count c + 1))) mod ?p"
      "\<And>i s. i < ?n \<Longrightarrow> s < SERVER_COUNT \<Longrightarrow> bound_ready H c s i (x i s) (docs i ! s)"
    by metis
  let ?a = "\<lambda>s. map (\<lambda>row. (\<Sum>i<?n. x i s ! row) mod ?p) [0..<row_count c]"
  let ?all = "concat (map rows [0..<?n])"
  let ?count = "\<lambda>row. int (length (hop_rows ?all (int row div relation_count c) (int row mod relation_count c + 1)))"
  have run: "bound_run H c docs (order s) s = Inr (?a s)" if s: "s < SERVER_COUNT" for s
  proof -
    have order_s: "distinct (order s)" "set (order s) = {..<?n}" using order [OF s] by blast+
    have sum: "(\<Sum>i\<leftarrow>order s. x i s ! row) = (\<Sum>i<?n. x i s ! row)" for row
      using sum_list_distinct_conv_sum_set [OF order_s(1)] order_s(2) by simp
    have "foldM (bound_document_step H c (int s) (int (row_count c))) (map (\<lambda>i. JDict (docs i ! s)) (order s))
        (replicate (row_count c) 0, []) =
      Inr (map (\<lambda>row. (replicate (row_count c) 0 ! row + (\<Sum>i\<leftarrow>order s. x i s ! row)) mod ?p) [0..<row_count c], rev (map int (order s)) @ [])"
      by (rule bound_loop [OF p0]) (use t(4) s order_s p0 in \<open>auto simp: list_all_iff\<close>)
    moreover have "map (\<lambda>row. (replicate (row_count c) 0 ! row + (\<Sum>i\<leftarrow>order s. x i s ! row)) mod ?p) [0..<row_count c] = ?a s"
      by (rule map_cong [OF refl]) (simp add: sum)
    moreover have "int ` {..<?n} = {0..<int ?n}" by (auto simp: image_iff) (metis lessThan_iff nat_0_le nat_less_iff)
    ultimately show ?thesis
      using s gf order_s(2) by (simp add: bound_run_def assemble_bound_check_input_def occupancy_rows_all)
  qed
  have hop: "length (hop_rows ?all s r) = (\<Sum>i<?n. length (hop_rows (rows i) s r))" for s r
    by (simp add: hop_rows_def filter_concat length_concat comp_def sum_list_sum_nth atLeast0LessThan)
  have count_le: "?count row \<le> max_possible c" for row
  proof -
    have "int (length (hop_rows (rows i) s r)) \<le> slots_per_key (pages c)" if "i < ?n" for i s r
      by (rule hop_rows_fit [OF p t(2) [OF that]])
    then have "(\<Sum>i<?n. int (length (hop_rows (rows i) s r))) \<le> (\<Sum>i<?n. slots_per_key (pages c))" for s r
      by (intro sum_mono) simp
    then show ?thesis by (simp add: hop max_possible_def)
  qed
  have "\<not> ?p \<le> max_possible c" using units [of ?p] p0 scalable by (auto simp: field_primes)
  then have maxp: "max_possible c < ?p" by simp
  have total: "(?a 0 ! row + ?a 1 ! row + ?a 2 ! row) mod ?p = ?count row" if row: "row < row_count c" for row
  proof -
    have "(?a 0 ! row + ?a 1 ! row + ?a 2 ! row) mod ?p =
        ((\<Sum>i<?n. x i 0 ! row) + (\<Sum>i<?n. x i 1 ! row) + (\<Sum>i<?n. x i 2 ! row)) mod ?p"
      using row by (simp only: length_map length_upt diff_zero nth_map nth_upt add_0 mod_three)
    also have "\<dots> = (\<Sum>i<?n. (x i 0 ! row + x i 1 ! row + x i 2 ! row) mod ?p) mod ?p"
      by (simp add: sum.distrib mod_sum_eq)
    also have "\<dots> = (\<Sum>i<?n. int (length (hop_rows (rows i) (int row div relation_count c) (int row mod relation_count c + 1))) mod ?p) mod ?p"
      using t(3) row by simp
    also have "\<dots> = ?count row mod ?p" by (simp add: mod_sum_eq hop)
    finally show ?thesis using count_le [of row] maxp by simp
  qed
  then have shares: "shares_of ?p (?a 0, ?a 1, ?a 2) (map ?count [0..<row_count c])"
    using p0 unfolding shares_of_def prod.case by (auto simp: in_prime_def)
  have "bound_check_program ops c (?a 0, ?a 1, ?a 2) = Inr (int (length (filter (\<lambda>x. g < x) (map ?count [0..<row_count c]))))"
    by (rule mpc_machine.bound_check_counts [OF machine refl scalable g _ below maxp units _ _ _ shares])
      (use g p rows_fit count_le in \<open>auto simp: params_ok_def occupancy_rows_all\<close>)
  then show ?thesis
    using run t(1) overfull_count by (intro exI [of _ ?a] exI [of _ rows]) simp
qed

lemma sample_units:
  assumes "1 \<le> k" and "k \<le> 4"
  shows "coprime k (field_prime sample_config)"
proof -
  have "coprime 1 SCALABLE_FIELD_PRIME" "coprime 2 SCALABLE_FIELD_PRIME" "coprime 3 SCALABLE_FIELD_PRIME" "coprime 4 SCALABLE_FIELD_PRIME"
    by code_simp+
  moreover have "k = 1 \<or> k = 2 \<or> k = 3 \<or> k = 4" using assms by linarith
  ultimately show ?thesis by auto
qed

theorem bound_check_exact_witness:
  "\<exists>docs a rows.
     (\<forall>s < SERVER_COUNT. bound_run (\<lambda>_. ''h'') sample_page_config docs [1, 0 :: nat] s = Inr (a s)) \<and>
     bound_check_program (plain_ops (field_prime sample_config)) sample_page_config (a 0, a 1, a 2) =
       Inr (int (card (overfull_keys sample_page_config (concat (map rows [0 :: nat, 1])) 3)))"
proof -
  let ?H = "\<lambda>_ :: jval. ''h''" and ?edges = "\<lambda>i :: nat. if i = 0 then sample_edges else []" and ?c = sample_page_config
  have machine: "scan_machine (plain_ops (field_prime sample_config)) (base ?c)" using sample_machine by simp
  have max: "max_possible ?c = 4" by (simp add: max_possible_def slots_per_key_def)
  have units: "coprime k (field_prime (base ?c))" if "1 \<le> k" "k \<le> max_possible ?c" for k
    using sample_units that by (simp add: max)
  obtain r where shards: "\<And>i. i < length (owners (base ?c)) \<Longrightarrow>
      create_paged_owner_shards ?H ?c (owners (base ?c) ! i) (JList (?edges i)) (\<lambda>_. 5) = Inr (fst (r i), snd (r i))"
    using sample_paged_shards by blast
  have order: "distinct [1, 0 :: nat] \<and> set [1, 0] = {..<length (owners (base ?c))}" by auto
  have "\<exists>a rows.
      (\<forall>s < SERVER_COUNT. bound_run ?H ?c (\<lambda>i. fst (r i)) [1, 0] s = Inr (a s)) \<and>
      (\<forall>i < length (owners (base ?c)). traverse (validated_edge (base ?c)) (?edges i) = Inr (rows i)) \<and>
      bound_check_program (plain_ops (field_prime sample_config)) ?c (a 0, a 1, a 2) =
        Inr (int (card (overfull_keys ?c (concat (map rows [0..<length (owners (base ?c))])) 3)))"
    by (rule bound_check_exact [where gs = "\<lambda>_ _. 5" and gs' = "\<lambda>i. snd (r i)", OF sample_page_ok machine _ _ _ _ units])
      (use shards order max in \<open>simp_all add: field_primes row_count_def sample_pages_def\<close>)
  then show ?thesis by (auto simp: upt_rec)
qed

text \<open>
  A bound that no layout can exceed is refused: \<open>global_frontier\<close> may be any positive number, but
  the interpolation needs a bound below the largest possible count.
\<close>

theorem bound_at_capacity_refused:
  assumes "field_prime (base c) \<in> set SCALABLE_FIELD_PRIMES" and "global_frontier (pages c) = Some g" and "max_possible c \<le> g"
  shows "bound_check_program ops c inputs = Inl (ValueError ''invalid overflow-polynomial domain'')"
  using assms by (simp add: bound_check_program_def bound_validate_def overflow_polynomial_def)

theorem bound_at_capacity_refused_witness:
  "page_config_ok (sample_page_config \<lparr>pages := sample_pages \<lparr>global_frontier := Some 4\<rparr>\<rparr>) \<and>
   bound_check_program (plain_ops 7) (sample_page_config \<lparr>pages := sample_pages \<lparr>global_frontier := Some 4\<rparr>\<rparr>) ([], [], []) =
     Inl (ValueError ''invalid overflow-polynomial domain'')"
proof -
  let ?c = "sample_page_config \<lparr>pages := sample_pages \<lparr>global_frontier := Some 4\<rparr>\<rparr>"
  have "page_config_ok ?c"
    by (simp add: page_config_ok_def params_ok_def slots_per_key_def) (simp add: sample_pages_def)
  moreover have "max_possible ?c \<le> 4" by (simp add: max_possible_def slots_per_key_def)
  ultimately show ?thesis using bound_at_capacity_refused [of ?c 4] by (simp add: field_primes)
qed

end
