(* ===== verification/Oram_Tree.thy ===== *)
theory Oram_Tree
  imports Py_Values
begin

text \<open>
  One level of the owner-built tree ORAM (first half of \<open>doram_t2_3pc/oram_layout.py\<close>): the
  rejection loop that draws leaf labels until every leaf bucket fits, the column-major table
  with the real entries in leaf buckets, and the plaintext read along one root-to-leaf path.
  The bucket size and depth come from the parameter \<open>shape\<close>; the formula the source computes
  in floating point is \<open>tree_shape\<close>, read over the reals.  A tree holds its records in the
  sense of the locale \<open>record_store\<close>, which the recursive stack satisfies as well.
\<close>

section \<open>The public shape\<close>

definition tree_shape :: "nat \<Rightarrow> (nat \<times> nat) res" where
  "tree_shape n =
     (if n < 2 then Inl (ValueError ''ORAM size must be at least 2'')
      else
        let delta = 3;
            k = (log 2 (real n * real n * log 2 (real n) * 100) + 21) / (1 + delta);
            bucket = min (nat \<lceil>(1 + delta) * k\<rceil>) (n + 1)
        in Inr (bucket, nat \<lfloor>log 2 (max (real n / k) 2)\<rfloor>))"

text \<open>
  \<open>None\<close> stands for minus infinity.  \<open>math.log\<close> raises at zero, which the second logarithm
  meets when the threshold is the whole table; a probability of one is at least the fraction, so
  its denominator is never zero.
\<close>

definition leaf_overflow_log2_bound :: "nat \<Rightarrow> nat \<Rightarrow> nat \<Rightarrow> real option res" where
  "leaf_overflow_log2_bound n bucket levels =
     (let leaves = 2 ^ levels; threshold = bucket + 1 in
      if threshold > n then Inr None
      else
        let probability = 1 / real leaves; fraction = real threshold / real n in
        if fraction \<le> probability then Inr (Some 0)
        else if fraction = 1 then Inl (ValueError ''math domain error'')
        else
          let divergence = fraction * ln (fraction / probability)
                + (1 - fraction) * ln ((1 - fraction) / (1 - probability))
          in Inr (Some ((ln (real leaves) - real n * divergence) / ln 2)))"

function grow_bucket :: "real \<Rightarrow> nat \<Rightarrow> nat \<Rightarrow> nat \<Rightarrow> nat res" where
  "grow_bucket target n levels bucket =
     bindr (leaf_overflow_log2_bound n bucket levels) (\<lambda>exponent.
     case exponent of
        None \<Rightarrow> Inr bucket
      | Some bound \<Rightarrow>
          if \<not> bound > target then Inr bucket
          else if bucket + 1 \<ge> n then Inr (n + 1)
          else grow_bucket target n levels (bucket + 1))"
  by pat_completeness auto

termination
  by (relation "measure (\<lambda>(target, n, levels, bucket). n - bucket)") auto

declare grow_bucket.simps [simp del]

definition secure_tree_shape :: "int \<Rightarrow> int \<Rightarrow> nat \<Rightarrow> (nat \<times> nat) res" where
  "secure_tree_shape security_bits max_levels n =
     (if security_bits < 40 then Inl (ValueError ''statistical_security_bits must be at least 40'')
      else if max_levels < 1 then Inl (ValueError ''maximum_stack_levels must be positive'')
      else bindr (tree_shape n) (\<lambda>(bucket, levels).
        bindr (grow_bucket (- of_int security_bits - log 2 (of_int max_levels)) n levels bucket) (\<lambda>bucket.
          Inr (bucket, levels))))"

definition owner_shape :: "int option \<Rightarrow> nat \<Rightarrow> (nat \<times> nat) res" where
  "owner_shape bits = (case bits of None \<Rightarrow> tree_shape | Some b \<Rightarrow> secure_tree_shape b 64)"

section \<open>Building a tree\<close>

record oram_tree =
  tree_size :: nat
  bucket_size :: nat
  tree_depth :: nat
  value_length :: nat
  tree_fields :: "int list list"
  position_map :: "int list"

definition n_buckets :: "oram_tree \<Rightarrow> nat" where
  "n_buckets t = 2 ^ (tree_depth t + 1)"

definition tree_slots :: "oram_tree \<Rightarrow> nat" where
  "tree_slots t = n_buckets t * bucket_size t"

definition field_count :: "oram_tree \<Rightarrow> nat" where
  "field_count t = length (tree_fields t)"

definition bucket_slots :: "oram_tree \<Rightarrow> nat \<Rightarrow> nat list" where
  "bucket_slots t bucket = [bucket * bucket_size t..<bucket * bucket_size t + bucket_size t]"

definition flat_values :: "oram_tree \<Rightarrow> int list" where
  "flat_values t = concat (tree_fields t)"

text \<open>Logical indices per leaf, in the order of their insertion.\<close>

definition occupancy :: "nat list \<Rightarrow> (nat \<times> nat list) list" where
  "occupancy assignment = group_by snd fst (enumerate 0 assignment)"

fun place_labels :: "nat \<Rightarrow> nat \<Rightarrow> nat \<Rightarrow> nat \<Rightarrow> rng \<Rightarrow> (nat list \<times> rng) res" where
  "place_labels 0 n leaves bucket g = Inl (ValueError ''could not place entries into leaf buckets'')"
| "place_labels (Suc attempts) n leaves bucket g =
     (let (assignment, g) = draws n leaves g in
      if list_all (\<lambda>(_, indices). length indices \<le> bucket) (occupancy assignment)
      then Inr (assignment, g)
      else place_labels attempts n leaves bucket g)"

text \<open>One real entry is written into every column of its slot.\<close>

definition write_slot :: "nat \<times> int list \<Rightarrow> int list list \<Rightarrow> int list list" where
  "write_slot = (\<lambda>(slot, entry) columns. map2 (\<lambda>column v. column[slot := v]) columns entry)"

definition tree_writes :: "int list list \<Rightarrow> nat \<Rightarrow> nat \<Rightarrow> nat list \<Rightarrow> (nat \<times> int list) list" where
  "tree_writes values leaves bucket assignment =
     concat (map (\<lambda>(leaf, indices).
         map (\<lambda>(offset, logical). ((leaf + leaves) * bucket + offset, [0, int logical, int leaf] @ values ! logical))
           (enumerate 0 indices))
       (occupancy assignment))"

definition build_owner_oram_tree ::
  "(nat \<Rightarrow> (nat \<times> nat) res) \<Rightarrow> nat \<Rightarrow> int list list \<Rightarrow> rng \<Rightarrow> (oram_tree \<times> rng) res" where
  "build_owner_oram_tree shape max_attempts values g =
     (if length values < 2 then Inl (ValueError ''ORAM size must be at least 2'')
      else if length (hd values) < 1 then Inl (ValueError ''entries must carry at least one value'')
      else if \<not> list_all (\<lambda>v. length v = length (hd values)) values
      then Inl (ValueError ''every entry must have the same value length'')
      else
      bindr (shape (length values)) (\<lambda>(bucket, levels).
      let leaves = 2 ^ levels; width = length (hd values) in
      bindr (place_labels max_attempts (length values) leaves bucket g) (\<lambda>(assignment, g).
      let slots = 2 ^ (levels + 1) * bucket;
          columns = replicate slots 1 # replicate (2 + width) (replicate slots 0)
      in Inr (\<lparr>tree_size = length values, bucket_size = bucket, tree_depth = levels,
                value_length = width + 1,
                tree_fields = fold write_slot (tree_writes values leaves bucket assignment) columns,
                position_map = map int assignment\<rparr>, g))))"

section \<open>Reading along a path\<close>

fun ancestors :: "nat \<Rightarrow> nat list" where
  "ancestors bucket = (if bucket = 0 then [] else ancestors (bucket div 2) @ [bucket])"

declare ancestors.simps [simp del]

definition path_buckets :: "int \<Rightarrow> nat \<Rightarrow> nat list res" where
  "path_buckets leaf levels =
     (if \<not> (0 \<le> leaf \<and> leaf < 2 ^ levels) then Inl (ValueError ''leaf out of range'')
      else Inr (ancestors (nat leaf + 2 ^ levels)))"

fun scan_slots :: "int list list \<Rightarrow> int \<Rightarrow> nat list \<Rightarrow> int list option res" where
  "scan_slots columns index [] = Inr None"
| "scan_slots columns index (slot # slots) =
     bindr (bindr (list_get columns 0) (\<lambda>column. list_get column (int slot))) (\<lambda>is_empty.
     if is_empty \<noteq> 0 then scan_slots columns index slots
     else
     bindr (bindr (list_get columns 1) (\<lambda>column. list_get column (int slot))) (\<lambda>logical.
     if logical \<noteq> index then scan_slots columns index slots
     else bindr (traverse (\<lambda>column. list_get column (int slot)) (drop 3 columns)) (\<lambda>entry. Inr (Some entry))))"

definition lookup :: "oram_tree \<Rightarrow> int \<Rightarrow> int list option res" where
  "lookup t index =
     (if \<not> (0 \<le> index \<and> index < int (tree_size t)) then Inl (ValueError ''logical index out of range'')
      else
      bindr (list_get (position_map t) index) (\<lambda>leaf.
      bindr (path_buckets leaf (tree_depth t)) (\<lambda>path.
        scan_slots (tree_fields t) index (concat (map (bucket_slots t) path)))))"

record tree_cost =
  cost_bucket_size :: nat
  cost_depth :: nat
  cost_buckets :: nat
  cost_slots :: nat
  fields_per_entry :: nat
  cost_shared_values :: nat
  path_buckets_per_access :: nat
  entries_touched_per_access :: nat

definition tree_cost_estimate :: "(nat \<Rightarrow> (nat \<times> nat) res) \<Rightarrow> nat \<Rightarrow> nat \<Rightarrow> tree_cost res" where
  "tree_cost_estimate shape n value_width =
     bindr (shape n) (\<lambda>(bucket, levels).
     let slots = 2 ^ (levels + 1) * bucket; columns = 3 + value_width in
     Inr \<lparr>cost_bucket_size = bucket, cost_depth = levels, cost_buckets = 2 ^ (levels + 1), cost_slots = slots,
       fields_per_entry = columns, cost_shared_values = slots * columns,
       path_buckets_per_access = levels + 1, entries_touched_per_access = (levels + 1) * bucket\<rparr>)"

section \<open>Read-only record stores\<close>

locale record_store =
  fixes read :: "'s \<Rightarrow> int \<Rightarrow> int list option res" and holds :: "int list list \<Rightarrow> 's \<Rightarrow> bool"
  assumes read_in: "holds vs s \<Longrightarrow> i < length vs \<Longrightarrow> read s (int i) = Inr (Some (vs ! i))"
    and read_out: "holds vs s \<Longrightarrow> \<not> (0 \<le> k \<and> k < int (length vs)) \<Longrightarrow>
      read s k = Inl (ValueError ''logical index out of range'')"
begin

lemma read_at: "holds vs s \<Longrightarrow> 0 \<le> k \<Longrightarrow> k < int (length vs) \<Longrightarrow> read s k = Inr (Some (vs ! nat k))"
  using read_in [of vs s "nat k"] by simp

lemma read_Inr: "holds vs s \<Longrightarrow> read s k = Inr x \<longleftrightarrow> 0 \<le> k \<and> k < int (length vs) \<and> x = Some (vs ! nat k)"
  using read_at [of vs s k] read_out [of vs s k] by (cases "0 \<le> k \<and> k < int (length vs)") auto

lemma holds_unique:
  assumes "holds vs s" and "holds ws s"
  shows "vs = ws"
proof (rule nth_equalityI)
  have "int i < int (length vs) \<longleftrightarrow> int i < int (length ws)" for i
    using read_Inr [OF assms(1), of "int i"] read_Inr [OF assms(2), of "int i"]
    by (metis of_nat_0_le_iff)
  then show "length vs = length ws" by (meson linorder_neqE_nat of_nat_less_iff less_irrefl)
  fix i assume "i < length vs"
  with \<open>length vs = length ws\<close> read_in [OF assms(1), of i] read_in [OF assms(2), of i]
  show "vs ! i = ws ! i" by simp
qed

lemma read_all:
  assumes "holds vs s" and "\<And>k. k \<in> set ks \<Longrightarrow> 0 \<le> k \<and> k < int (length vs)"
  shows "traverse (read s) ks = Inr (map (\<lambda>k. Some (vs ! nat k)) ks)"
  using read_at [OF assms(1)] assms(2) by (intro traverse_Inr) blast

end

section \<open>What a built tree holds\<close>

definition tree_entry :: "oram_tree \<Rightarrow> nat \<Rightarrow> int list" where
  "tree_entry t slot = map (\<lambda>column. column ! slot) (tree_fields t)"

text \<open>
  Every record sits in one slot of the leaf bucket its label names, and every other slot is
  marked empty.
\<close>

definition tree_placed :: "int list list \<Rightarrow> (nat \<Rightarrow> nat) \<Rightarrow> oram_tree \<Rightarrow> bool" where
  "tree_placed vs slot t \<longleftrightarrow>
     (\<forall>a < length vs. slot a < tree_slots t \<and>
        slot a div bucket_size t = nat (position_map t ! a) + 2 ^ tree_depth t \<and>
        tree_entry t (slot a) = [0, int a, position_map t ! a] @ vs ! a) \<and>
     (\<forall>u < tree_slots t. u \<notin> slot ` {..<length vs} \<longrightarrow> hd (tree_entry t u) \<noteq> 0)"

definition tree_holds :: "int list list \<Rightarrow> oram_tree \<Rightarrow> bool" where
  "tree_holds vs t \<longleftrightarrow>
     tree_size t = length vs \<and> length (position_map t) = length vs \<and>
     (\<forall>p \<in> set (position_map t). 0 \<le> p \<and> p < 2 ^ tree_depth t) \<and>
     length (tree_fields t) = 3 + length (hd vs) \<and> (\<forall>column \<in> set (tree_fields t). length column = tree_slots t) \<and>
     (\<exists>slot. tree_placed vs slot t)"

lemma ancestors_pos: "0 < b \<Longrightarrow> ancestors b = ancestors (b div 2) @ [b]"
  by (subst ancestors.simps) simp

lemma ancestors_bounds: "x \<in> set (ancestors b) \<Longrightarrow> 0 < x \<and> x \<le> b"
proof (induction b rule: ancestors.induct)
  case (1 b)
  show ?case
  proof (cases "b = 0")
    case True
    with 1(2) show ?thesis by (simp add: ancestors.simps)
  next
    case False
    with 1(2) ancestors_pos [of b] have "x \<in> set (ancestors (b div 2)) \<or> x = b" by auto
    with 1(1) [OF False] False show ?thesis by auto
  qed
qed

lemma scan_slots_find:
  assumes "3 \<le> length (tree_fields t)" and "\<forall>column \<in> set (tree_fields t). length column = n"
    and "\<forall>u \<in> set slots. u < n"
  shows "scan_slots (tree_fields t) index slots = Inr (map_option (\<lambda>u. drop 3 (tree_entry t u))
    (find (\<lambda>u. tree_entry t u ! 0 = 0 \<and> tree_entry t u ! 1 = index) slots))"
  using assms(3)
proof (induction slots)
  case (Cons u slots)
  let ?c = "tree_fields t"
  have col: "bindr (list_get ?c (int j)) (\<lambda>column. list_get column (int u)) = Inr (tree_entry t u ! j)" if "j < 3" for j
    using that assms(1,2) Cons.prems by (simp add: list_get_in tree_entry_def)
  have entry: "traverse (\<lambda>column. list_get column (int u)) (drop 3 ?c) = Inr (drop 3 (tree_entry t u))"
    unfolding tree_entry_def drop_map
    by (rule traverse_Inr) (use assms(2) Cons.prems in \<open>auto simp: list_get_in dest: in_set_dropD\<close>)
  from col [of 0] col [of 1] entry Cons show ?case by simp
qed simp

lemma lookup_holds:
  assumes h: "tree_holds vs t" and a: "a < length vs"
  shows "lookup t (int a) = Inr (Some (vs ! a))"
proof -
  let ?leaf = "position_map t ! a"
  from h obtain slot where placed: "tree_placed vs slot t" by (auto simp: tree_holds_def)
  from h a have size: "tree_size t = length vs" and lenp: "length (position_map t) = length vs"
    and leaf: "0 \<le> ?leaf" "?leaf < 2 ^ tree_depth t" by (auto simp: tree_holds_def)
  have here: "slot a < tree_slots t" "slot a div bucket_size t = nat ?leaf + 2 ^ tree_depth t"
      "tree_entry t (slot a) = [0, int a, ?leaf] @ vs ! a"
    using placed a by (auto simp: tree_placed_def)
  let ?path = "ancestors (nat ?leaf + 2 ^ tree_depth t)" and ?P = "\<lambda>u. tree_entry t u ! 0 = 0 \<and> tree_entry t u ! 1 = int a"
  let ?slots = "concat (map (bucket_slots t) ?path)"
  have low: "u < tree_slots t" if "u \<in> set ?slots" for u
  proof -
    from that obtain b where b: "b \<in> set ?path" "u < b * bucket_size t + bucket_size t"
      by (auto simp: bucket_slots_def)
    have "nat ?leaf < 2 ^ tree_depth t" using leaf by (simp add: nat_less_iff)
    with ancestors_bounds [OF b(1)] have "b < 2 * 2 ^ tree_depth t" by linarith
    then have "b < n_buckets t" by (simp add: n_buckets_def)
    then have "Suc b * bucket_size t \<le> tree_slots t"
      unfolding tree_slots_def by (intro mult_le_mono1) simp
    with b(2) show ?thesis by simp
  qed
  have bs: "0 < bucket_size t" using here(1) by (cases "bucket_size t") (simp_all add: tree_slots_def)
  have mem: "slot a \<in> set ?slots"
  proof -
    have "slot a \<in> set (bucket_slots t (nat ?leaf + 2 ^ tree_depth t))"
      using div_mult_mod_eq [of "slot a" "bucket_size t"] mod_less_divisor [OF bs, of "slot a"]
      by (simp add: bucket_slots_def here(2))
    then show ?thesis by (simp add: ancestors_pos)
  qed
  have only: "u = slot a" if "u < tree_slots t" "?P u" for u
  proof -
    have ne: "tree_entry t u \<noteq> []" using h by (auto simp: tree_holds_def tree_entry_def)
    with that(2) have "hd (tree_entry t u) = 0" by (simp add: hd_conv_nth)
    with placed that(1) obtain b where b: "b < length vs" "u = slot b" by (auto simp: tree_placed_def)
    with placed have "tree_entry t u ! 1 = int b" by (simp add: tree_placed_def)
    with that(2) b show ?thesis by simp
  qed
  have "find ?P ?slots = Some (slot a)"
  proof (cases "find ?P ?slots")
    case None
    then have "\<not> (\<exists>u. u \<in> set ?slots \<and> ?P u)" by (simp only: find_None_iff not_False_eq_True)
    moreover have "?P (slot a)" by (simp add: here(3))
    ultimately show ?thesis using mem by blast
  next
    case (Some u)
    then obtain i where "i < length ?slots" "?P (?slots ! i)" "u = ?slots ! i"
      by (simp only: find_Some_iff) blast
    then have "?P u" "u \<in> set ?slots" using nth_mem [of i ?slots] by (simp_all only:)
    with only [OF low] Some show ?thesis by simp
  qed
  moreover have "path_buckets ?leaf (tree_depth t) = Inr ?path" using leaf by (simp add: path_buckets_def)
  ultimately show ?thesis
    using h a low here(3) scan_slots_find [of t "tree_slots t" ?slots "int a"]
    by (simp add: lookup_def size lenp list_get_in tree_holds_def)
qed

interpretation tree: record_store lookup tree_holds
proof unfold_locales
  show "lookup t (int i) = Inr (Some (vs ! i))" if "tree_holds vs t" "i < length vs" for vs t i
    using lookup_holds that by blast
  show "lookup t k = Inl (ValueError ''logical index out of range'')"
    if "tree_holds vs t" "\<not> (0 \<le> k \<and> k < int (length vs))" for vs t k
    using that by (simp add: lookup_def tree_holds_def)
qed

section \<open>Building places every record once\<close>

lemma fold_write_slot:
  assumes "\<And>u e. (u, e) \<in> set ws \<Longrightarrow> length e = length columns"
  shows "length (fold write_slot ws columns) = length columns"
    and "j < length columns \<Longrightarrow>
      fold write_slot ws columns ! j = apply_writes (map (\<lambda>(u, e). (u, e ! j)) ws) (columns ! j)"
proof -
  have "length (fold write_slot ws columns) = length columns \<and> (\<forall>j < length columns.
      fold write_slot ws columns ! j = apply_writes (map (\<lambda>(u, e). (u, e ! j)) ws) (columns ! j))"
    using assms
  proof (induction ws arbitrary: columns)
    case (Cons w ws)
    obtain u e where w: "w = (u, e)" by (cases w)
    have len: "length e = length columns" using Cons.prems [of u e] by (simp add: w)
    have here: "length (write_slot (u, e) columns) = length columns"
      "\<And>j. j < length columns \<Longrightarrow> write_slot (u, e) columns ! j = (columns ! j)[u := e ! j]"
      using len by (simp_all add: write_slot_def)
    have "length e' = length (write_slot (u, e) columns)" if "(u', e') \<in> set ws" for u' e'
      using Cons.prems [of u' e'] that here(1) by simp
    from Cons.IH [OF this] here show ?case by (simp add: w)
  qed simp
  then show "length (fold write_slot ws columns) = length columns"
    "j < length columns \<Longrightarrow> fold write_slot ws columns ! j = apply_writes (map (\<lambda>(u, e). (u, e ! j)) ws) (columns ! j)"
    by blast+
qed

lemma occupancy_entry:
  assumes "(leaf, indices) \<in> set (occupancy assignment)"
  shows "indices = filter (\<lambda>a. assignment ! a = leaf) [0..<length assignment]"
proof -
  have "indices = map fst (filter (\<lambda>x. snd x = leaf) (enumerate 0 assignment))"
    using group_by_entry [OF assms [unfolded occupancy_def]] .
  also have "\<dots> = filter (\<lambda>a. assignment ! a = leaf) [0..<length assignment]"
  proof (induction assignment rule: rev_induct)
    case (snoc x xs)
    have "filter (\<lambda>a. (xs @ [x]) ! a = leaf) [0..<length xs] = filter (\<lambda>a. xs ! a = leaf) [0..<length xs]"
      by (intro filter_cong) (auto simp: nth_append)
    with snoc show ?case by (auto simp: enumerate_append_eq)
  qed simp
  finally show ?thesis .
qed

lemma occupancy_leaves: "fst ` set (occupancy assignment) = set assignment"
  by (simp add: occupancy_def del: set_map) (metis image_image list.set_map map_snd_enumerate)

lemma occupancy_distinct: "distinct (map fst (occupancy assignment))"
  unfolding occupancy_def by (rule distinct_group_by)

lemma distinct_bucket_slots:
  assumes "distinct (map fst occ)" and "\<And>leaf indices. (leaf, indices) \<in> set occ \<Longrightarrow> length indices \<le> bucket"
  shows "distinct (concat (map (\<lambda>(leaf, indices). map (\<lambda>offset. (leaf + c) * bucket + offset) [0..<length indices]) occ))"
    (is "distinct (concat (map ?slots occ))")
  using assms
proof (induction occ)
  case (Cons x occ)
  obtain leaf indices where x: "x = (leaf, indices)" by (cases x)
  have "u \<notin> set (?slots y)" if "u \<in> set (?slots x)" "y \<in> set occ" for u y
  proof
    assume u: "u \<in> set (?slots y)"
    obtain leaf' indices' where y: "y = (leaf', indices')" by (cases y)
    have upt: "\<exists>i < n. u = f i" if "u \<in> set (map f [0..<n])" for f and n :: nat using that by auto
    from that(1) upt [of _ "length indices"] obtain i where "u = (leaf + c) * bucket + i" "i < length indices"
      by (simp only: x prod.case) blast
    moreover from u upt [of _ "length indices'"] obtain j where "u = (leaf' + c) * bucket + j" "j < length indices'"
      by (simp only: y prod.case) blast
    moreover have "length indices \<le> bucket" "length indices' \<le> bucket"
      using Cons.prems(2) [of leaf indices] Cons.prems(2) [of leaf' indices'] that(2) by (auto simp: x y)
    ultimately have "leaf + c = leaf' + c" using row_index_inj [of "leaf + c" bucket i "leaf' + c" j] by linarith
    with Cons.prems(1) that(2) show False by (force simp: x y)
  qed
  then have "set (?slots x) \<inter> set (concat (map ?slots occ)) = {}" by fastforce
  moreover have "distinct (?slots x)" by (simp add: x distinct_map inj_on_def)
  moreover have "distinct (concat (map ?slots occ))"
    by (rule Cons.IH) (use Cons.prems in auto)
  ultimately show ?case by (simp only: list.map concat.simps distinct_append simp_thms)
qed simp

lemma tree_writes_slots:
  "map fst (tree_writes vs leaves bucket assignment) =
   concat (map (\<lambda>(leaf, indices). map (\<lambda>offset. (leaf + leaves) * bucket + offset) [0..<length indices]) (occupancy assignment))"
  unfolding tree_writes_def map_concat map_map
proof (intro arg_cong [of _ _ concat] map_cong refl)
  fix x
  have "map (\<lambda>(offset, logical). (leaf + leaves) * bucket + offset) (enumerate 0 indices) =
      map (\<lambda>offset. (leaf + leaves) * bucket + offset) (map fst (enumerate 0 indices))" for leaf and indices :: "nat list"
    by (simp only: map_map comp_def case_prod_unfold)
  then show "(map fst \<circ> (\<lambda>(leaf, indices). map (\<lambda>(offset, logical).
      ((leaf + leaves) * bucket + offset, [0, int logical, int leaf] @ vs ! logical)) (enumerate 0 indices))) x =
    (case x of (leaf, indices) \<Rightarrow> map (\<lambda>offset. (leaf + leaves) * bucket + offset) [0..<length indices])"
    by (cases x) (simp add: comp_def case_prod_unfold)
qed

lemma tree_writes_obtain:
  assumes "(u, e) \<in> set (tree_writes vs leaves bucket assignment)"
  obtains leaf offset where
    "offset < length (filter (\<lambda>a. assignment ! a = leaf) [0..<length assignment])"
    "u = (leaf + leaves) * bucket + offset"
    "e = [0, int (filter (\<lambda>a. assignment ! a = leaf) [0..<length assignment] ! offset), int leaf]
         @ vs ! (filter (\<lambda>a. assignment ! a = leaf) [0..<length assignment] ! offset)"
proof -
  from assms obtain leaf indices offset where o: "(leaf, indices) \<in> set (occupancy assignment)"
      "offset < length indices" "u = (leaf + leaves) * bucket + offset"
      "e = [0, int (indices ! offset), int leaf] @ vs ! (indices ! offset)"
    by (auto simp: tree_writes_def in_set_enumerate_eq)
  from that [of offset leaf] o(2-4) show thesis by (simp only: occupancy_entry [OF o(1)])
qed

lemma tree_writes_unique:
  assumes "(u, e) \<in> set (tree_writes vs leaves bucket assignment)"
    and "(u', e') \<in> set (tree_writes vs leaves bucket assignment)" and "e ! 1 = e' ! 1"
  shows "u = u'"
proof -
  let ?at = "\<lambda>leaf. filter (\<lambda>a. assignment ! a = leaf) [0..<length assignment]"
  obtain leaf offset where o: "offset < length (?at leaf)" "u = (leaf + leaves) * bucket + offset"
      "e = [0, int (?at leaf ! offset), int leaf] @ vs ! (?at leaf ! offset)"
    by (rule tree_writes_obtain [OF assms(1)])
  obtain leaf' offset' where o': "offset' < length (?at leaf')" "u' = (leaf' + leaves) * bucket + offset'"
      "e' = [0, int (?at leaf' ! offset'), int leaf'] @ vs ! (?at leaf' ! offset')"
    by (rule tree_writes_obtain [OF assms(2)])
  have same: "?at leaf ! offset = ?at leaf' ! offset'" using assms(3) o(3) o'(3) by simp
  have "assignment ! (?at leaf ! offset) = leaf" "assignment ! (?at leaf' ! offset') = leaf'"
    using nth_mem [OF o(1)] nth_mem [OF o'(1)] by simp_all
  with same have "leaf = leaf'" by simp
  with same o(1) o'(1) have "offset = offset'" by (simp add: nth_eq_iff_index_eq)
  with \<open>leaf = leaf'\<close> show ?thesis by (simp add: o(2) o'(2))
qed

lemma tree_writes_entry:
  assumes "(u, e) \<in> set (tree_writes vs leaves bucket assignment)"
    and "\<And>leaf indices. (leaf, indices) \<in> set (occupancy assignment) \<Longrightarrow> length indices \<le> bucket"
  shows "\<exists>a < length assignment. e = [0, int a, int (assignment ! a)] @ vs ! a \<and> u div bucket = assignment ! a + leaves"
proof -
  from assms(1) obtain leaf indices offset where o: "(leaf, indices) \<in> set (occupancy assignment)"
      "offset < length indices" "u = (leaf + leaves) * bucket + offset"
      "e = [0, int (indices ! offset), int leaf] @ vs ! (indices ! offset)"
    by (auto simp: tree_writes_def in_set_enumerate_eq)
  have "indices ! offset \<in> set indices" using o(2) by (rule nth_mem)
  then have "indices ! offset < length assignment" "assignment ! (indices ! offset) = leaf"
    unfolding occupancy_entry [OF o(1)] by auto
  moreover have "u div bucket = leaf + leaves" using o assms(2) [OF o(1)] by simp
  ultimately show ?thesis using o(4) by blast
qed

lemma tree_writes_all:
  assumes "a < length assignment"
  shows "\<exists>u. (u, [0, int a, int (assignment ! a)] @ vs ! a) \<in> set (tree_writes vs leaves bucket assignment)"
proof -
  have "assignment ! a \<in> fst ` set (occupancy assignment)" using assms by (simp add: occupancy_leaves)
  then obtain indices where occ: "(assignment ! a, indices) \<in> set (occupancy assignment)" by auto
  then have "a \<in> set indices" using occupancy_entry [OF occ] assms by simp
  then obtain offset where "offset < length indices" "indices ! offset = a" by (auto simp: in_set_conv_nth)
  then have "(offset, a) \<in> set (enumerate 0 indices)" by (auto simp: in_set_enumerate_eq)
  with occ show ?thesis unfolding tree_writes_def by force
qed

lemma place_labels_ok:
  assumes "place_labels attempts n leaves bucket g = Inr (assignment, g')" and "0 < leaves"
  shows "length assignment = n" and "\<And>x. x \<in> set assignment \<Longrightarrow> x < leaves"
    and "\<And>leaf indices. (leaf, indices) \<in> set (occupancy assignment) \<Longrightarrow> length indices \<le> bucket"
proof -
  have "length assignment = n \<and> (\<forall>x \<in> set assignment. x < leaves) \<and>
      (\<forall>(leaf, indices) \<in> set (occupancy assignment). length indices \<le> bucket)"
    using assms(1)
  proof (induction attempts arbitrary: g)
    case (Suc attempts)
    obtain xs h where d: "draws n leaves g = (xs, h)" by (cases "draws n leaves g")
    with length_draws [of n leaves g] draws_less [OF assms(2), of _ n g] have "length xs = n" "\<forall>x \<in> set xs. x < leaves"
      by simp_all
    with Suc d show ?case by (auto simp: list_all_iff split: if_splits)
  qed simp
  then show "length assignment = n" "\<And>x. x \<in> set assignment \<Longrightarrow> x < leaves"
    "\<And>leaf indices. (leaf, indices) \<in> set (occupancy assignment) \<Longrightarrow> length indices \<le> bucket"
    by blast+
qed

lemma build_tree_holds:
  assumes "build_owner_oram_tree shape attempts vs g = Inr (t, g')"
  shows "tree_holds vs t"
proof -
  from assms obtain bucket levels assignment where
    width: "\<And>v. v \<in> set vs \<Longrightarrow> length v = length (hd vs)" and
    labels: "place_labels attempts (length vs) (2 ^ levels) bucket g = Inr (assignment, g')" and
    t: "t = \<lparr>tree_size = length vs, bucket_size = bucket, tree_depth = levels, value_length = length (hd vs) + 1,
       tree_fields = fold write_slot (tree_writes vs (2 ^ levels) bucket assignment)
         (replicate (2 ^ (levels + 1) * bucket) 1 # replicate (2 + length (hd vs)) (replicate (2 ^ (levels + 1) * bucket) 0)),
       position_map = map int assignment\<rparr>"
    by (auto simp: build_owner_oram_tree_def res_simps Let_def list_all_iff split: if_splits)
  let ?slots = "2 ^ (levels + 1) * bucket" and ?ws = "tree_writes vs (2 ^ levels) bucket assignment"
  let ?cols = "replicate ?slots (1 :: int) # replicate (2 + length (hd vs)) (replicate ?slots 0)"
  note pl = place_labels_ok [OF labels]
  have slots: "tree_slots t = ?slots" by (simp add: t tree_slots_def n_buckets_def)
  have entry: "\<exists>a < length vs. e = [0, int a, int (assignment ! a)] @ vs ! a \<and> u div bucket = assignment ! a + 2 ^ levels"
    if "(u, e) \<in> set ?ws" for u e
    using tree_writes_entry [OF that pl(3)] pl(1) by simp
  have len: "length e = length ?cols" if "(u, e) \<in> set ?ws" for u e
    using entry [OF that] width by auto
  have cols: "length (fold write_slot ?ws ?cols) = length ?cols"
    "\<And>j. j < length ?cols \<Longrightarrow> fold write_slot ?ws ?cols ! j = apply_writes (map (\<lambda>(u, e). (u, e ! j)) ?ws) (?cols ! j)"
    by (rule fold_write_slot, rule len, assumption)+
  have low: "u < ?slots" if "(u, e) \<in> set ?ws" for u e
  proof -
    from entry [OF that] obtain a where a: "a < length vs" "u div bucket = assignment ! a + 2 ^ levels" by blast
    with pl(1,2) have "u div bucket < 2 ^ (levels + 1)" by simp
    moreover have "bucket \<noteq> 0" using a(2) by (cases "bucket = 0") auto
    ultimately show ?thesis by (simp add: div_less_iff_less_mult)
  qed
  have distinct: "distinct (map fst ?ws)"
    unfolding tree_writes_slots by (rule distinct_bucket_slots [OF occupancy_distinct pl(3)]) simp_all
  have width_t: "length (tree_fields t) = 3 + length (hd vs)" using cols(1) by (simp add: t)
  have col: "tree_fields t ! j = apply_writes (map (\<lambda>(u, e). (u, e ! j)) ?ws) (?cols ! j)" if "j < 3 + length (hd vs)" for j
    using cols(2) [of j] that by (simp add: t)
  have fsts: "map fst (map (\<lambda>(u, e). (u, e ! j)) ?ws) = map fst ?ws" for j
    by (simp add: comp_def case_prod_unfold)
  have hit: "tree_entry t u = e" if "(u, e) \<in> set ?ws" for u e
  proof (rule nth_equalityI)
    show "length (tree_entry t u) = length e" using len [OF that] by (simp add: tree_entry_def width_t)
    fix j assume "j < length (tree_entry t u)"
    then have j: "j < 3 + length (hd vs)" by (simp add: tree_entry_def width_t)
    have "apply_writes (map (\<lambda>(u, e). (u, e ! j)) ?ws) (?cols ! j) ! u = e ! j"
    proof (rule apply_writes_hit)
      show "(u, e ! j) \<in> set (map (\<lambda>(u, e). (u, e ! j)) ?ws)" using that by force
      show "distinct (map fst (map (\<lambda>(u, e). (u, e ! j)) ?ws))" unfolding fsts by (rule distinct)
      show "u < length (?cols ! j)" using low [OF that] j by (auto simp: nth_Cons')
    qed
    then show "tree_entry t u ! j = e ! j" using j by (simp add: tree_entry_def width_t col)
  qed
  have miss: "hd (tree_entry t u) = 1" if "u < ?slots" "u \<notin> fst ` set ?ws" for u
  proof -
    have "apply_writes (map (\<lambda>(u, e). (u, e ! 0)) ?ws) (?cols ! 0) ! u = ?cols ! 0 ! u"
      by (rule apply_writes_other) (use that(2) in force)
    then have "tree_fields t ! 0 ! u = 1" using that(1) by (simp add: col)
    then show ?thesis using width_t by (cases "tree_fields t") (simp_all add: tree_entry_def)
  qed
  have "\<forall>a. \<exists>u. a < length vs \<longrightarrow> (u, [0, int a, int (assignment ! a)] @ vs ! a) \<in> set ?ws"
    using tree_writes_all [of _ assignment vs "2 ^ levels" bucket] pl(1) by simp
  from choice [OF this] obtain slot
    where slot: "\<And>a. a < length vs \<Longrightarrow> (slot a, [0, int a, int (assignment ! a)] @ vs ! a) \<in> set ?ws"
    by blast
  have "tree_placed vs slot t"
    unfolding tree_placed_def
  proof (intro conjI allI impI)
    fix a assume a: "a < length vs"
    note w = slot [OF a]
    show "slot a < tree_slots t" using low [OF w] by (simp add: slots)
    show "slot a div bucket_size t = nat (position_map t ! a) + 2 ^ tree_depth t"
      using entry [OF w] a pl(1) by (auto simp: t)
    show "tree_entry t (slot a) = [0, int a, position_map t ! a] @ vs ! a"
      using hit [OF w] a pl(1) by (simp add: t)
  next
    fix u assume u: "u < tree_slots t" "u \<notin> slot ` {..<length vs}"
    have "u \<notin> fst ` set ?ws"
    proof
      assume "u \<in> fst ` set ?ws"
      then obtain e where e: "(u, e) \<in> set ?ws" by auto
      from entry [OF e] obtain a where a: "a < length vs" "e = [0, int a, int (assignment ! a)] @ vs ! a" by blast
      have "u = slot a" by (rule tree_writes_unique [OF e slot [OF a(1)]]) (simp add: a(2))
      with u(2) a(1) show False by auto
    qed
    with miss u(1) show "hd (tree_entry t u) \<noteq> 0" by (simp add: slots)
  qed
  moreover have "length column = ?slots" if "column \<in> set (tree_fields t)" for column
  proof -
    from that obtain j where "j < 3 + length (hd vs)" "column = tree_fields t ! j" by (auto simp: in_set_conv_nth width_t)
    then show ?thesis by (simp add: col nth_Cons')
  qed
  moreover have "\<forall>p \<in> set (position_map t). 0 \<le> p \<and> p < 2 ^ tree_depth t"
    using pl(2) by (auto simp: t simp flip: of_nat_less_iff)
  moreover have "tree_size t = length vs" "length (position_map t) = length vs" using pl(1) by (simp_all add: t)
  ultimately show ?thesis
    unfolding tree_holds_def slots width_t by (intro conjI ballI exI) simp_all
qed

end
