(* ===== verification/Oram_Stack.thy ===== *)
theory Oram_Stack
  imports Oram_Tree
begin

text \<open>
  The recursive position map (second half of \<open>doram_t2_3pc/oram_layout.py\<close>): every tree's leaf
  labels are packed \<open>chi\<close> per record into a further tree until the labels are few enough to be
  scanned, and a read walks from the scanned base down to the data tree.  A built stack is a
  second instance of \<open>record_store\<close>.  The planning loop of \<open>stack_cost_estimate\<close> has no
  guard on \<open>chi\<close>, so it is a partial function whose domain is a theorem.
\<close>

section \<open>Building the stack\<close>

definition DEFAULT_CHI :: nat where
  "DEFAULT_CHI = 256"

definition DEFAULT_BASE_THRESHOLD :: nat where
  "DEFAULT_BASE_THRESHOLD = 64"

record oram_stack =
  stack_levels :: "oram_tree list"
  stack_base :: "int list"
  stack_chi :: nat

definition stack_size :: "oram_stack \<Rightarrow> nat" where
  "stack_size st = tree_size (hd (stack_levels st))"

definition level_index :: "oram_stack \<Rightarrow> int \<Rightarrow> nat \<Rightarrow> int" where
  "level_index st index level = index div int (stack_chi st ^ level)"

definition stack_shared_values :: "oram_stack \<Rightarrow> nat" where
  "stack_shared_values st =
     sum_list (map (\<lambda>t. tree_slots t * field_count t) (stack_levels st)) + length (stack_base st)"

text \<open>The labels, \<open>chi\<close> per record, the last record padded with zeros.\<close>

definition pack_labels :: "nat \<Rightarrow> int list \<Rightarrow> int list list" where
  "pack_labels chi labels =
     map (\<lambda>i. take chi (drop (i * chi) labels) @ replicate (chi - length (take chi (drop (i * chi) labels))) 0)
       [0..<ceil_div (length labels) chi]"

lemma length_pack_labels [simp]: "length (pack_labels chi labels) = ceil_div (length labels) chi"
  by (simp add: pack_labels_def)

lemma ceil_div_less: "2 \<le> c \<Longrightarrow> 2 \<le> n \<Longrightarrow> ceil_div n c < n"
proof -
  assume c: "2 \<le> c" and n: "2 \<le> n"
  have "n + c \<le> n * c"
  proof -
    obtain a b where "n = a + 2" "c = b + 2" using c n by (metis add.commute le_iff_add)
    then show ?thesis by (simp add: algebra_simps)
  qed
  then have "n + c - 1 < n * c" using c by linarith
  then show ?thesis unfolding ceil_div_def using c by (simp add: div_less_iff_less_mult)
qed

lemma less_ceil_div: "0 < c \<Longrightarrow> x < n \<Longrightarrow> x div c < ceil_div n c"
proof -
  assume c: "0 < c" and x: "x < n"
  have "x div c < (x + c) div c" using c by simp
  also have "(x + c) div c \<le> (n + c - 1) div c" using x c by (intro div_le_mono) linarith
  finally show ?thesis by (simp add: ceil_div_def)
qed

lemma build_tree_size: "build_owner_oram_tree shape attempts vs g = Inr (t, h) \<Longrightarrow>
    2 \<le> length vs \<and> length (position_map t) = length vs"
  using build_tree_holds [of shape attempts vs g t h]
  by (auto simp: tree_holds_def build_owner_oram_tree_def split: if_splits)

text \<open>The two argument checks are repeated at every level, where they cannot fail any more.\<close>

function build_owner_oram_stack ::
  "(nat \<Rightarrow> (nat \<times> nat) res) \<Rightarrow> nat \<Rightarrow> nat \<Rightarrow> int list list \<Rightarrow> rng \<Rightarrow> (oram_stack \<times> rng) res" where
  "build_owner_oram_stack shape chi threshold values g =
     (if chi < 2 then Inl (ValueError ''chi must be at least 2'')
      else if threshold < 2 then Inl (ValueError ''base_threshold must be at least 2'')
      else
      bindr (build_owner_oram_tree shape 64 values g) (\<lambda>(t, g).
      let labels = position_map t in
      if length labels \<le> threshold \<or> length labels \<le> chi
      then Inr (\<lparr>stack_levels = [t], stack_base = labels, stack_chi = chi\<rparr>, g)
      else
        bindr (build_owner_oram_stack shape chi threshold (pack_labels chi labels) g) (\<lambda>(st, g).
        Inr (st\<lparr>stack_levels := t # stack_levels st\<rparr>, g))))"
  by pat_completeness auto

termination
proof (relation "measure (\<lambda>(shape, chi, threshold, rows, g). length rows)")
  fix shape :: "nat \<Rightarrow> (nat \<times> nat) res" and chi threshold :: nat and rows :: "int list list"
  fix g h :: rng and x t labels
  assume "\<not> chi < 2" "build_owner_oram_tree shape 64 rows g = Inr x" "(t, h) = x" "labels = position_map t"
  then have "2 \<le> length rows" "length labels = length rows" "2 \<le> chi"
    using build_tree_size [of shape 64 rows g t h] by auto
  then show "((shape, chi, threshold, pack_labels chi labels, h), shape, chi, threshold, rows, g)
      \<in> measure (\<lambda>(shape, chi, threshold, rows, g). length rows)"
    by (simp add: ceil_div_less)
qed simp

declare build_owner_oram_stack.simps [simp del]

section \<open>Reading through the levels\<close>

fun descend :: "oram_stack \<Rightarrow> int \<Rightarrow> nat \<Rightarrow> int \<Rightarrow> int option res" where
  "descend st index 0 leaf = Inr (Some leaf)"
| "descend st index (Suc level) leaf =
     bindr (list_get (stack_levels st) (int (Suc level))) (\<lambda>t.
     let here = level_index st index (Suc level) in
     bindr (list_get (position_map t) here) (\<lambda>label.
     if label \<noteq> leaf then Inl (AssertionError ''position map disagrees with the tree it indexes'')
     else
     bindr (lookup t here) (\<lambda>packed.
     case packed of
       None \<Rightarrow> Inr None
     | Some entry \<Rightarrow>
         bindr (list_get entry (level_index st index level mod int (stack_chi st))) (descend st index level))))"

definition stack_lookup :: "oram_stack \<Rightarrow> int \<Rightarrow> int list option res" where
  "stack_lookup st index =
     (if \<not> (0 \<le> index \<and> index < int (stack_size st)) then Inl (ValueError ''logical index out of range'')
      else
      let top = length (stack_levels st) - 1 in
      bindr (list_get (stack_base st) (level_index st index top)) (\<lambda>leaf.
      bindr (descend st index top leaf) (\<lambda>found.
      case found of
        None \<Rightarrow> Inr None
      | Some leaf \<Rightarrow>
          let t = hd (stack_levels st) in
          bindr (list_get (position_map t) index) (\<lambda>label.
          if label \<noteq> leaf then Inl (AssertionError ''position map disagrees with the data tree'')
          else lookup t index))))"

section \<open>Planning the cost of an access\<close>

record level_cost =
  level_entries :: nat
  level_depth :: nat
  level_bucket :: nat
  level_touched :: nat
  level_index_bits :: nat

definition level_cost_of :: "nat \<Rightarrow> nat \<times> nat \<Rightarrow> level_cost" where
  "level_cost_of n = (\<lambda>(bucket, levels).
     \<lparr>level_entries = n, level_depth = levels, level_bucket = bucket,
      level_touched = (levels + 1) * bucket, level_index_bits = max 1 (bit_len_nat (n - 1))\<rparr>)"

text \<open>\<open>None\<close> is a loop that never ends.\<close>

partial_function (option) cost_levels ::
  "(nat \<Rightarrow> (nat \<times> nat) res) \<Rightarrow> nat \<Rightarrow> nat \<Rightarrow> nat \<Rightarrow> (level_cost list \<times> nat) res option" where
  "cost_levels shape chi threshold n =
     (if \<not> n > threshold then Some (Inr ([], n))
      else case shape n of
        Inl e \<Rightarrow> Some (Inl e)
      | Inr s \<Rightarrow>
          if chi = 0 then Some (Inl ZeroDivisionError)
          else Option.bind (cost_levels shape chi threshold (ceil_div n chi)) (\<lambda>r.
            Some (bindr r (\<lambda>(levels, rest). Inr (level_cost_of n s # levels, rest)))))"

record stack_cost =
  tree_level_count :: nat
  base_entries :: nat
  cost_by_level :: "level_cost list"
  entries_touched_per_read :: nat

definition stack_cost_estimate ::
  "(nat \<Rightarrow> (nat \<times> nat) res) \<Rightarrow> nat \<Rightarrow> nat \<Rightarrow> nat \<Rightarrow> stack_cost res option" where
  "stack_cost_estimate shape chi threshold n =
     map_option (\<lambda>r. bindr r (\<lambda>(levels, rest).
       Inr \<lparr>tree_level_count = length levels, base_entries = rest, cost_by_level = levels,
            entries_touched_per_read = sum_list (map level_touched levels) + rest\<rparr>))
     (cost_levels shape chi threshold n)"

record access_cost =
  cost_per_access :: stack_cost
  path_entries_total :: nat
  stash_entries_total :: nat
  total_entries :: nat

definition access_cost_estimate ::
  "(nat \<Rightarrow> (nat \<times> nat) res) \<Rightarrow> nat \<Rightarrow> nat \<Rightarrow> nat \<Rightarrow> nat \<Rightarrow> access_cost res option" where
  "access_cost_estimate shape chi threshold max_accesses n =
     map_option (\<lambda>r. bindr r (\<lambda>cost.
       let path = entries_touched_per_read cost * max_accesses;
           stash = max_accesses * (max_accesses - 1) div 2
       in Inr \<lparr>cost_per_access = cost, path_entries_total = path, stash_entries_total = stash,
               total_entries = path + stash\<rparr>))
     (stack_cost_estimate shape chi threshold n)"

section \<open>What a built stack holds\<close>

text \<open>The records stored at a level: the data, or the packed labels of the level below.\<close>

definition level_records :: "int list list \<Rightarrow> oram_stack \<Rightarrow> nat \<Rightarrow> int list list" where
  "level_records vs st level =
     (if level = 0 then vs else pack_labels (stack_chi st) (position_map (stack_levels st ! (level - 1))))"

definition stack_holds :: "int list list \<Rightarrow> oram_stack \<Rightarrow> bool" where
  "stack_holds vs st \<longleftrightarrow>
     stack_levels st \<noteq> [] \<and> 2 \<le> stack_chi st \<and> stack_base st = position_map (last (stack_levels st)) \<and>
     (\<forall>level < length (stack_levels st). tree_holds (level_records vs st level) (stack_levels st ! level))"

lemma pack_labels_nth:
  assumes "0 < chi" and "x < length labels"
  shows "x div chi < length (pack_labels chi labels)"
    and "length (pack_labels chi labels ! (x div chi)) = chi"
    and "pack_labels chi labels ! (x div chi) ! (x mod chi) = labels ! x"
proof -
  show len: "x div chi < length (pack_labels chi labels)" using assms by (simp add: less_ceil_div)
  then show "length (pack_labels chi labels ! (x div chi)) = chi" by (simp add: pack_labels_def)
  have "x mod chi < chi" using assms(1) by simp
  moreover have "x = x div chi * chi + x mod chi" by simp
  then have "x mod chi < length labels - x div chi * chi" using assms(2) by linarith
  then have "x mod chi < length (take chi (drop (x div chi * chi) labels))" using assms(1) by simp
  ultimately show "pack_labels chi labels ! (x div chi) ! (x mod chi) = labels ! x"
    using len assms(2) by (simp add: pack_labels_def nth_append)
qed

lemma tree_holds_size: "tree_holds vs t \<Longrightarrow> tree_size t = length vs \<and> length (position_map t) = length vs"
  by (simp add: tree_holds_def)

lemma stack_labels:
  assumes "stack_holds vs st" and "level < length (stack_levels st)"
  shows "length (position_map (stack_levels st ! level)) = length (level_records vs st level)"
proof -
  have "tree_holds (level_records vs st level) (stack_levels st ! level)" using assms by (simp add: stack_holds_def)
  from tree_holds_size [OF this] show ?thesis by simp
qed

lemma level_index_in:
  assumes "stack_holds vs st" and "a < length vs" and "level < length (stack_levels st)"
  shows "a div stack_chi st ^ level < length (level_records vs st level)"
  using assms(3)
proof (induction level)
  case 0
  with assms(2) show ?case by (simp add: level_records_def)
next
  case (Suc level)
  let ?x = "a div stack_chi st ^ level"
  from Suc stack_labels [OF assms(1), of level] have "?x < length (position_map (stack_levels st ! level))" by simp
  moreover have "0 < stack_chi st" using assms(1) by (simp add: stack_holds_def)
  ultimately have "?x div stack_chi st < length (level_records vs st (Suc level))"
    using pack_labels_nth(1) [of "stack_chi st" ?x] by (simp add: level_records_def)
  then show ?case by (simp only: power_Suc2 div_mult2_eq)
qed

lemma level_index_int: "level_index st (int a) level = int (a div stack_chi st ^ level)"
  by (simp add: level_index_def zdiv_int)

text \<open>One step of the walk: the record found at a level carries the label of the level below.\<close>

lemma next_label:
  assumes "stack_holds vs st" and "a < length vs" and "Suc level < length (stack_levels st)"
  shows "list_get (level_records vs st (Suc level) ! (a div stack_chi st ^ Suc level))
           (level_index st (int a) level mod int (stack_chi st)) =
         Inr (position_map (stack_levels st ! level) ! (a div stack_chi st ^ level))"
proof -
  let ?x = "a div stack_chi st ^ level" and ?labels = "position_map (stack_levels st ! level)"
  have chi: "0 < stack_chi st" using assms(1) by (simp add: stack_holds_def)
  have x: "?x < length ?labels"
    using level_index_in [OF assms(1,2), of level] stack_labels [OF assms(1), of level] assms(3) by simp
  have "a div stack_chi st ^ Suc level = ?x div stack_chi st" by (simp only: power_Suc2 div_mult2_eq)
  with pack_labels_nth [OF chi x] chi show ?thesis
    by (simp add: level_index_int level_records_def list_get_in flip: zmod_int)
qed

lemma level_lookup:
  assumes "stack_holds vs st" and "a < length vs" and "level < length (stack_levels st)"
  shows "lookup (stack_levels st ! level) (level_index st (int a) level) =
    Inr (Some (level_records vs st level ! (a div stack_chi st ^ level)))"
  using assms level_index_in [OF assms] by (simp add: level_index_int stack_holds_def lookup_holds)

lemma descend_holds:
  assumes "stack_holds vs st" and "a < length vs" and "level < length (stack_levels st)"
  shows "descend st (int a) level (position_map (stack_levels st ! level) ! (a div stack_chi st ^ level)) =
    Inr (Some (position_map (stack_levels st ! 0) ! a))"
  using assms(3)
proof (induction level)
  case (Suc level)
  have "a div stack_chi st ^ Suc level < length (position_map (stack_levels st ! Suc level))"
    using level_index_in [OF assms(1,2) Suc.prems] stack_labels [OF assms(1) Suc.prems] by simp
  with Suc next_label [OF assms(1,2) Suc.prems] level_lookup [OF assms(1,2) Suc.prems] show ?case
    by (simp add: list_get_in level_index_int [of st a "Suc level"] Let_def del: power_Suc of_nat_Suc)
qed simp

lemma stack_lookup_holds:
  assumes h: "stack_holds vs st" and a: "a < length vs"
  shows "stack_lookup st (int a) = Inr (Some (vs ! a))"
proof -
  let ?top = "length (stack_levels st) - 1"
  have ne: "stack_levels st \<noteq> []" and last: "stack_base st = position_map (stack_levels st ! ?top)"
    using h by (simp_all add: stack_holds_def last_conv_nth)
  then have top: "?top < length (stack_levels st)" by simp
  have zero: "tree_holds vs (stack_levels st ! 0)" using h ne by (auto simp: stack_holds_def level_records_def)
  have "a div stack_chi st ^ ?top < length (stack_base st)"
    using level_index_in [OF h a top] stack_labels [OF h top] by (simp only: last)
  then have "list_get (stack_base st) (level_index st (int a) ?top) =
      Inr (position_map (stack_levels st ! ?top) ! (a div stack_chi st ^ ?top))"
    by (simp add: list_get_in level_index_int last)
  then show ?thesis
    using descend_holds [OF h a top] lookup_holds [OF zero a] tree_holds_size [OF zero] a ne
    by (simp add: stack_lookup_def stack_size_def Let_def hd_conv_nth list_get_in)
qed

lemma build_stack_holds:
  "build_owner_oram_stack shape chi threshold vs g = Inr (st, h) \<Longrightarrow> stack_holds vs st \<and> stack_chi st = chi"
proof (induction shape chi threshold vs g arbitrary: st h rule: build_owner_oram_stack.induct)
  case (1 shape chi threshold vs g)
  from "1.prems" obtain t g' where chi: "\<not> chi < 2" "\<not> threshold < 2"
    and t: "build_owner_oram_tree shape 64 vs g = Inr (t, g')"
    by (subst (asm) build_owner_oram_stack.simps) (auto simp: res_simps split: if_splits)
  note tree = build_tree_holds [OF t]
  show ?case
  proof (cases "length (position_map t) \<le> threshold \<or> length (position_map t) \<le> chi")
    case True
    with "1.prems" chi t have "st = \<lparr>stack_levels = [t], stack_base = position_map t, stack_chi = chi\<rparr>"
      by (subst (asm) build_owner_oram_stack.simps) (simp add: Let_def)
    with tree chi show ?thesis by (simp add: stack_holds_def level_records_def)
  next
    case False
    with "1.prems" chi t obtain st' where
      rec: "build_owner_oram_stack shape chi threshold (pack_labels chi (position_map t)) g' = Inr (st', h)"
      and st: "st = st'\<lparr>stack_levels := t # stack_levels st'\<rparr>"
      by (subst (asm) build_owner_oram_stack.simps) (auto simp: Let_def res_simps)
    have IH: "stack_holds (pack_labels chi (position_map t)) st'" "stack_chi st' = chi"
      using "1.IH" [OF chi t refl refl False rec] by blast+
    have "tree_holds (level_records vs st level) (stack_levels st ! level)" if "level < length (stack_levels st)" for level
    proof (cases level)
      case 0
      with tree show ?thesis by (simp add: st level_records_def)
    next
      case (Suc k)
      with that IH have "tree_holds (level_records (pack_labels chi (position_map t)) st' k) (stack_levels st' ! k)"
        by (simp add: st stack_holds_def)
      with Suc IH(2) show ?thesis by (cases k) (simp_all add: st level_records_def)
    qed
    with IH show ?thesis by (simp add: stack_holds_def st)
  qed
qed

interpretation stack: record_store stack_lookup stack_holds
proof unfold_locales
  show "stack_lookup st (int i) = Inr (Some (vs ! i))" if "stack_holds vs st" "i < length vs" for vs st i
    using stack_lookup_holds that by blast
  have "stack_size st = length vs" if "stack_holds vs st" for vs st
    using that tree_holds_size [of vs "stack_levels st ! 0"]
    by (auto simp: stack_holds_def stack_size_def level_records_def hd_conv_nth)
  then show "stack_lookup st k = Inl (ValueError ''logical index out of range'')"
    if "stack_holds vs st" "\<not> (0 \<le> k \<and> k < int (length vs))" for vs st k
    using that by (simp add: stack_lookup_def)
qed

section \<open>What a read costs and what the plan says\<close>

lemma build_tree_shape:
  "build_owner_oram_tree shape attempts vs g = Inr (t, h) \<Longrightarrow> shape (length vs) = Inr (bucket_size t, tree_depth t)"
  by (auto simp: build_owner_oram_tree_def res_simps Let_def split: if_splits)

definition tree_cost_of :: "oram_tree \<Rightarrow> level_cost" where
  "tree_cost_of t = level_cost_of (tree_size t) (bucket_size t, tree_depth t)"

text \<open>The entries one read of a built stack touches: a path of every tree and the whole base.\<close>

definition entries_read :: "oram_stack \<Rightarrow> nat" where
  "entries_read st =
     sum_list (map (\<lambda>t. (tree_depth t + 1) * bucket_size t) (stack_levels st)) + length (stack_base st)"

lemma level_touched_tree [simp]: "level_touched (tree_cost_of t) = (tree_depth t + 1) * bucket_size t"
  by (simp add: tree_cost_of_def level_cost_of_def)

lemma cost_levels_built:
  assumes "build_owner_oram_stack shape chi threshold vs g = Inr (st, h)"
  shows "cost_levels shape chi threshold (length vs) = Some (Inr
    (if length (stack_base st) \<le> threshold
     then (map tree_cost_of (butlast (stack_levels st)), length (stack_base st))
     else (map tree_cost_of (stack_levels st), 1)))"
  using assms
proof (induction shape chi threshold vs g arbitrary: st h rule: build_owner_oram_stack.induct)
  case (1 shape chi threshold vs g)
  from "1.prems" obtain t g' where chi: "\<not> chi < 2" "\<not> threshold < 2"
    and t: "build_owner_oram_tree shape 64 vs g = Inr (t, g')"
    by (subst (asm) build_owner_oram_stack.simps) (auto simp: res_simps split: if_splits)
  note size = tree_holds_size [OF build_tree_holds [OF t]]
  show ?case
  proof (cases "length (position_map t) \<le> threshold \<or> length (position_map t) \<le> chi")
    case True
    with "1.prems" chi t have st: "st = \<lparr>stack_levels = [t], stack_base = position_map t, stack_chi = chi\<rparr>"
      by (subst (asm) build_owner_oram_stack.simps) (simp add: Let_def)
    show ?thesis
    proof (cases "length (position_map t) \<le> threshold")
      case small: True
      with st size show ?thesis by (subst cost_levels.simps) simp
    next
      case False
      with True size build_tree_size [OF t] have "2 \<le> length vs" "length vs \<le> chi" by simp_all
      then obtain d where d: "length vs = Suc d" "d < chi" by (cases "length vs") simp_all
      then have "ceil_div (length vs) chi = 1" using chi by (simp add: ceil_div_def)
      moreover have "cost_levels shape chi threshold 1 = Some (Inr ([], 1))"
        using chi by (subst cost_levels.simps) simp
      ultimately show ?thesis
        using False st size chi build_tree_shape [OF t] by (subst cost_levels.simps) (simp add: tree_cost_of_def)
    qed
  next
    case False
    with "1.prems" chi t obtain st' where
      rec: "build_owner_oram_stack shape chi threshold (pack_labels chi (position_map t)) g' = Inr (st', h)"
      and st: "st = st'\<lparr>stack_levels := t # stack_levels st'\<rparr>"
      by (subst (asm) build_owner_oram_stack.simps) (auto simp: Let_def res_simps)
    have ne: "stack_levels st' \<noteq> []" using build_stack_holds [OF rec] by (simp add: stack_holds_def)
    show ?thesis
      using "1.IH" [OF chi t refl refl False rec] build_tree_shape [OF t] size False chi ne
      by (subst cost_levels.simps) (simp add: st tree_cost_of_def)
  qed
qed

lemma stack_cost_built:
  assumes "build_owner_oram_stack shape chi threshold vs g = Inr (st, h)"
  shows "\<exists>cost. stack_cost_estimate shape chi threshold (length vs) = Some (Inr cost) \<and>
    (if length (stack_base st) \<le> threshold
     then base_entries cost = length (stack_base st) \<and> Suc (tree_level_count cost) = length (stack_levels st) \<and>
       entries_read st = entries_touched_per_read cost + (let t = last (stack_levels st) in (tree_depth t + 1) * bucket_size t)
     else base_entries cost = 1 \<and> tree_level_count cost = length (stack_levels st) \<and>
       entries_read st + 1 = entries_touched_per_read cost + length (stack_base st))"
proof -
  have ne: "stack_levels st \<noteq> []" using build_stack_holds [OF assms(1)] by (simp add: stack_holds_def)
  have "stack_levels st = butlast (stack_levels st) @ [last (stack_levels st)]" using ne by simp
  then have "sum_list (map (\<lambda>t. (tree_depth t + 1) * bucket_size t) (stack_levels st)) =
      sum_list (map (\<lambda>t. (tree_depth t + 1) * bucket_size t) (butlast (stack_levels st))) +
      (tree_depth (last (stack_levels st)) + 1) * bucket_size (last (stack_levels st))"
    by (metis (no_types, lifting) map_append sum_list_append list.map sum_list.Cons sum_list.Nil add.right_neutral)
  with cost_levels_built [OF assms] ne show ?thesis
    by (simp add: stack_cost_estimate_def entries_read_def comp_def Let_def)
qed

section \<open>When the planning loop ends\<close>

lemma cost_levels_ends:
  "0 < threshold \<Longrightarrow> 2 \<le> chi \<Longrightarrow> \<exists>r. cost_levels shape chi threshold n = Some r"
proof (induction n rule: less_induct)
  case (less n)
  show ?case
  proof (cases "n > threshold")
    case True
    with less.prems have "ceil_div n chi < n" by (intro ceil_div_less) simp_all
    from less.IH [OF this] less.prems obtain r where "cost_levels shape chi threshold (ceil_div n chi) = Some r"
      by blast
    then show ?thesis by (subst cost_levels.simps) (simp split: sum.split)
  qed (subst cost_levels.simps, simp)
qed

lemma cost_levels_stuck:
  assumes "cost_levels shape chi threshold n = Some r" and "chi = 1" and "threshold < n"
  shows "\<exists>e. shape n = Inl e"
proof -
  have "chi = 1 \<longrightarrow> threshold < n \<longrightarrow> (\<exists>e. shape n = Inl e)"
  proof (rule cost_levels.raw_induct [OF _ assms(1)], intro impI)
    fix f :: "(nat \<Rightarrow> (nat \<times> nat) res) \<Rightarrow> nat \<Rightarrow> nat \<Rightarrow> nat \<Rightarrow> (level_cost list \<times> nat) res option"
    fix sh c th m q
    assume IH: "\<And>sh c th m q. f sh c th m = Some q \<Longrightarrow> c = 1 \<longrightarrow> th < m \<longrightarrow> (\<exists>e. sh m = Inl e)"
      and run: "(if \<not> m > th then Some (Inr ([], m))
        else case sh m of Inl e \<Rightarrow> Some (Inl e) | Inr s \<Rightarrow>
          if c = 0 then Some (Inl ZeroDivisionError)
          else Option.bind (f sh c th (ceil_div m c)) (\<lambda>r. Some (bindr r (\<lambda>(levels, rest). Inr (level_cost_of m s # levels, rest))))) = Some q"
      and here: "c = 1" "th < m"
    have "ceil_div m c = m" using here by (simp add: ceil_div_def)
    with run IH [of sh c th m] here show "\<exists>e. sh m = Inl e"
      by (cases "sh m") (auto simp: Option.bind_eq_Some_conv)
  qed
  with assms(2,3) show ?thesis by blast
qed

lemma cost_levels_defined:
  assumes "0 < threshold"
  shows "cost_levels shape chi threshold n = None \<longleftrightarrow> chi = 1 \<and> threshold < n \<and> (\<exists>s. shape n = Inr s)"
proof (cases "chi = 1 \<and> threshold < n \<and> (\<exists>s. shape n = Inr s)")
  case True
  then have "\<not> (\<exists>e. shape n = Inl e)" by auto
  with True cost_levels_stuck [of shape chi threshold n] show ?thesis
    by (cases "cost_levels shape chi threshold n") blast+
next
  case False
  have "\<exists>r. cost_levels shape chi threshold n = Some r"
  proof (cases "2 \<le> chi")
    case small: False
    then have "chi = 0 \<or> chi = 1" by linarith
    with False show ?thesis by (subst cost_levels.simps) (auto split: sum.split)
  qed (rule cost_levels_ends [OF assms])
  with False show ?thesis by (simp only: option.distinct) auto
qed

section \<open>When the construction returns\<close>

lemma place_labels_all:
  assumes "n \<le> bucket" and "0 < attempts"
  shows "place_labels attempts n leaves bucket g = Inr (draws n leaves g)"
proof -
  obtain k where k: "attempts = Suc k" using assms(2) by (cases attempts) simp_all
  obtain xs h where d: "draws n leaves g = (xs, h)" by (cases "draws n leaves g")
  have len: "length xs = n" using length_draws [of n leaves g] by (simp add: d)
  have "length indices \<le> bucket" if "(leaf, indices) \<in> set (occupancy xs)" for leaf indices
    using occupancy_entry [OF that] length_filter_le [of "\<lambda>a. xs ! a = leaf" "[0..<length xs]"] len assms(1) by simp
  then show ?thesis by (auto simp: k d list_all_iff)
qed

definition well_formed_records :: "int list list \<Rightarrow> bool" where
  "well_formed_records vs \<longleftrightarrow> 2 \<le> length vs \<and> 1 \<le> length (hd vs) \<and> (\<forall>v \<in> set vs. length v = length (hd vs))"

definition roomy_shape :: "(nat \<Rightarrow> (nat \<times> nat) res) \<Rightarrow> bool" where
  "roomy_shape shape \<longleftrightarrow> (\<forall>n \<ge> 2. \<exists>bucket levels. shape n = Inr (bucket, levels) \<and> n \<le> bucket)"

lemma build_tree_ok:
  assumes "well_formed_records vs" and "roomy_shape shape"
  shows "\<exists>t h. build_owner_oram_tree shape 64 vs g = Inr (t, h)"
proof -
  from assms obtain bucket levels where "shape (length vs) = Inr (bucket, levels)" "length vs \<le> bucket"
    by (auto simp: well_formed_records_def roomy_shape_def)
  with assms(1) show ?thesis
    by (auto simp: build_owner_oram_tree_def well_formed_records_def place_labels_all list_all_iff Let_def split: prod.splits)
qed

lemma pack_labels_well_formed:
  assumes "2 \<le> chi" and "chi < length labels"
  shows "well_formed_records (pack_labels chi labels)"
proof -
  have "1 < ceil_div (length labels) chi"
    using less_ceil_div [of chi chi "length labels"] assms by simp
  moreover have "length v = chi" if "v \<in> set (pack_labels chi labels)" for v
    using that by (auto simp: pack_labels_def)
  moreover have "pack_labels chi labels \<noteq> []" using calculation(1) by (simp add: pack_labels_def)
  then have "hd (pack_labels chi labels) \<in> set (pack_labels chi labels)" by simp
  ultimately show ?thesis using assms(1) by (simp add: well_formed_records_def)
qed

lemma build_stack_ok:
  assumes "well_formed_records vs" and "roomy_shape shape" and "2 \<le> chi" and "2 \<le> threshold"
  shows "\<exists>st h. build_owner_oram_stack shape chi threshold vs g = Inr (st, h)"
  using assms
proof (induction shape chi threshold vs g rule: build_owner_oram_stack.induct)
  case (1 shape chi threshold vs g)
  from build_tree_ok [OF "1.prems"(1,2)] obtain t h where t: "build_owner_oram_tree shape 64 vs g = Inr (t, h)" by blast
  have chi: "\<not> chi < 2" "\<not> threshold < 2" using "1.prems" by simp_all
  show ?case
  proof (cases "length (position_map t) \<le> threshold \<or> length (position_map t) \<le> chi")
    case True
    with chi t show ?thesis by (subst build_owner_oram_stack.simps) (simp add: Let_def)
  next
    case False
    then have "well_formed_records (pack_labels chi (position_map t))"
      using "1.prems"(3) by (intro pack_labels_well_formed) simp_all
    from "1.IH" [OF chi t refl refl False this "1.prems"(2-4)] False chi t show ?thesis
      by (subst build_owner_oram_stack.simps) (auto simp: Let_def)
  qed
qed

section \<open>Properties\<close>

text \<open>A stack of seven records: data tree, one packed level and a scanned base.\<close>

definition sample_records :: "int list list" where
  "sample_records = [[10, 0], [11, 1], [12, 2], [13, 3], [14, 4], [15, 5], [16, 6]]"

definition sample_shape :: "nat \<Rightarrow> (nat \<times> nat) res" where
  "sample_shape n = Inr (n, 1)"

definition sample_draws :: rng where
  "sample_draws i = (i * i + 3 * i) div 2"

lemma sample_stack_builds:
  obtains st h where "build_owner_oram_stack sample_shape 2 4 sample_records sample_draws = Inr (st, h)"
    and "length (stack_base st) = 4"
proof -
  have "case build_owner_oram_stack sample_shape 2 4 sample_records sample_draws of
      Inl _ \<Rightarrow> False | Inr (st, h) \<Rightarrow> length (stack_base st) = 4"
    by code_simp
  then show thesis using that by (auto split: sum.splits)
qed

text \<open>
  C21: for every generator, shape, packing factor and base threshold, whenever the owner's
  construction of a recursive ORAM returns, a recursive read returns exactly the record stored
  at the index: the walk from the scanned base reaches the leaf the data tree was built with,
  neither consistency assertion fires, no record is missing, and any index outside the range
  is refused.
\<close>

theorem owner_stack_reads_back:
  assumes "build_owner_oram_stack shape chi threshold vs g = Inr (st, h)"
  shows "stack_lookup st k =
    (if 0 \<le> k \<and> k < int (length vs) then Inr (Some (vs ! nat k))
     else Inl (ValueError ''logical index out of range''))"
  using build_stack_holds [OF assms] stack.read_at [of vs st k] stack.read_out [of vs st k] by simp

theorem owner_stack_reads_back_witness:
  "\<exists>st h. build_owner_oram_stack sample_shape 2 4 sample_records sample_draws = Inr (st, h) \<and>
    stack_lookup st 5 = Inr (Some [15, 5]) \<and> stack_lookup st 7 = Inl (ValueError ''logical index out of range'')"
proof -
  obtain st h where b: "build_owner_oram_stack sample_shape 2 4 sample_records sample_draws = Inr (st, h)"
    by (rule sample_stack_builds)
  from owner_stack_reads_back [OF b, of 5] owner_stack_reads_back [OF b, of 7] b show ?thesis
    by (simp add: sample_records_def)
qed

text \<open>
  C25: the loop that plans the cost of a read ends for every packing factor except one, at which
  the table never shrinks; a packing factor of one is exactly what the builder refuses and the
  planner does not.
\<close>

theorem stack_cost_diverges_iff:
  assumes "0 < threshold"
  shows "stack_cost_estimate shape chi threshold n = None \<longleftrightarrow> chi = 1 \<and> threshold < n \<and> is_ok (shape n)"
  by (simp add: stack_cost_estimate_def cost_levels_defined [OF assms] is_ok_iff)

theorem stack_cost_diverges_iff_witness:
  "stack_cost_estimate sample_shape 1 4 7 = None \<and> stack_cost_estimate sample_shape 2 4 7 \<noteq> None"
  using stack_cost_diverges_iff [of 4 sample_shape 1 7] stack_cost_diverges_iff [of 4 sample_shape 2 7]
  by (simp add: sample_shape_def)

text \<open>
  C26: the plan of a read against the stack that is built.  When the built base fits the base
  threshold, the plan has the same base and every tree but the last one, and a read touches one
  path of that tree more than the plan says; when the base exceeds the threshold, which the
  builder allows up to the packing factor, the plan has the same trees but a base of a single
  entry, and a read touches the rest of the base more than the plan says.
\<close>

theorem stack_cost_misses_last_tree:
  assumes "build_owner_oram_stack shape chi threshold vs g = Inr (st, h)"
  shows "\<exists>cost. stack_cost_estimate shape chi threshold (length vs) = Some (Inr cost) \<and>
    (if length (stack_base st) \<le> threshold
     then base_entries cost = length (stack_base st) \<and> Suc (tree_level_count cost) = length (stack_levels st) \<and>
       entries_read st = entries_touched_per_read cost + (let t = last (stack_levels st) in (tree_depth t + 1) * bucket_size t)
     else base_entries cost = 1 \<and> tree_level_count cost = length (stack_levels st) \<and>
       entries_read st + 1 = entries_touched_per_read cost + length (stack_base st))"
  by (rule stack_cost_built [OF assms])

lemma sample_wide_stack_builds:
  obtains st h where "build_owner_oram_stack sample_shape 8 2 sample_records sample_draws = Inr (st, h)"
    and "length (stack_base st) = 7"
proof -
  have "case build_owner_oram_stack sample_shape 8 2 sample_records sample_draws of
      Inl _ \<Rightarrow> False | Inr (st, h) \<Rightarrow> length (stack_base st) = 7"
    by code_simp
  then show thesis using that by (auto split: sum.splits)
qed

theorem stack_cost_misses_last_tree_witness:
  "(\<exists>cost. stack_cost_estimate sample_shape 2 4 7 = Some (Inr cost) \<and> base_entries cost = 4) \<and>
   (\<exists>cost. stack_cost_estimate sample_shape 8 2 7 = Some (Inr cost) \<and> base_entries cost = 1)"
proof -
  obtain st h where b: "build_owner_oram_stack sample_shape 2 4 sample_records sample_draws = Inr (st, h)"
    and base: "length (stack_base st) = 4"
    by (rule sample_stack_builds)
  obtain st' h' where b': "build_owner_oram_stack sample_shape 8 2 sample_records sample_draws = Inr (st', h')"
    and base': "length (stack_base st') = 7"
    by (rule sample_wide_stack_builds)
  have "length sample_records = 7" by (simp add: sample_records_def)
  with stack_cost_misses_last_tree [OF b] stack_cost_misses_last_tree [OF b'] base base' show ?thesis by auto
qed

end
