(* ===== verification/Oram_Sequence.thy ===== *)
theory Oram_Sequence
  imports Oram_Stack
begin

text \<open>
  A bounded run of reads over one stack (\<open>simulate_access_sequence\<close> of
  \<open>doram_t2_3pc/oram_layout.py\<close>): every level keeps a stash of what it has already fetched,
  a repeated index is answered from the stash behind a freshly drawn path, and the trace
  records what the servers see.
\<close>

section \<open>One access\<close>

type_synonym stash = "(int \<times> int list) list"

record walk =
  walk_stashes :: "stash list"
  walk_leaf :: int
  walk_value :: "int list option"
  walk_revealed :: "int list"
  walk_dummies :: "bool list"
  walk_rng :: rng

text \<open>
  One iteration of the inner loop.  The lists of revealed leaves and dummy flags grow at the
  front, so after the descent they are level-0-first as the source's reversal makes them.
\<close>

definition visit_level :: "oram_stack \<Rightarrow> int \<Rightarrow> nat \<Rightarrow> walk \<Rightarrow> walk res" where
  "visit_level st index level w =
     bindr (list_get (stack_levels st) (int level)) (\<lambda>t.
     let here = level_index st index level; stash = walk_stashes w ! level in
     bindr
       (case map_of stash here of
          Some v \<Rightarrow>
            (let (leaf, g) = randbelow (2 ^ tree_depth t) (walk_rng w) in
             Inr (w\<lparr>walk_revealed := int leaf # walk_revealed w, walk_dummies := True # walk_dummies w,
                    walk_value := Some v, walk_rng := g\<rparr>))
        | None \<Rightarrow>
            bindr (lookup t here) (\<lambda>found.
            Inr (w\<lparr>walk_revealed := walk_leaf w # walk_revealed w, walk_dummies := False # walk_dummies w,
                   walk_value := found,
                   walk_stashes := (case found of None \<Rightarrow> walk_stashes w
                     | Some v \<Rightarrow> (walk_stashes w)[level := AList.update here v stash])\<rparr>)))
       (\<lambda>w.
        if level = 0 then Inr w
        else case walk_value w of
          None \<Rightarrow> Inr w
        | Some v \<Rightarrow>
            bindr (list_get v (level_index st index (level - 1) mod int (stack_chi st))) (\<lambda>leaf.
            Inr (w\<lparr>walk_leaf := leaf\<rparr>))))"

definition access_one :: "oram_stack \<Rightarrow> int \<Rightarrow> stash list \<times> rng \<Rightarrow> walk res" where
  "access_one st index = (\<lambda>(stashes, g).
     if \<not> (0 \<le> index \<and> index < int (stack_size st)) then Inl (ValueError ''logical index out of range'')
     else
     bindr (list_get (stack_base st) (level_index st index (length (stack_levels st) - 1))) (\<lambda>leaf.
     foldM (visit_level st index) (rev [0..<length (stack_levels st)])
       \<lparr>walk_stashes = stashes, walk_leaf = leaf, walk_value = None, walk_revealed = [], walk_dummies = [],
        walk_rng = g\<rparr>))"

section \<open>The run\<close>

record access_trace =
  trace_results :: "int list option list"
  revealed_leaves :: "int list list"
  dummy_levels :: "bool list list"
  stash_high_water :: nat

definition fully_stashed :: "access_trace \<Rightarrow> bool list" where
  "fully_stashed trace = map (list_all id) (dummy_levels trace)"

definition access_step ::
  "oram_stack \<Rightarrow> int \<Rightarrow> access_trace \<times> stash list \<times> rng \<Rightarrow> (access_trace \<times> stash list \<times> rng) res" where
  "access_step st index = (\<lambda>(trace, stashes, g).
     bindr (access_one st index (stashes, g)) (\<lambda>w.
     Inr (trace\<lparr>trace_results := trace_results trace @ [walk_value w],
                revealed_leaves := revealed_leaves trace @ [walk_revealed w],
                dummy_levels := dummy_levels trace @ [walk_dummies w]\<rparr>,
          walk_stashes w, walk_rng w)))"

definition simulate_access_sequence :: "oram_stack \<Rightarrow> int list \<Rightarrow> int \<Rightarrow> rng \<Rightarrow> access_trace res" where
  "simulate_access_sequence st indices max_accesses g =
     (if max_accesses < 1 then Inl (ValueError ''max_accesses must be positive'')
      else if int (length indices) > max_accesses
      then Inl (ValueError ''accesses exceeds the declared max_accesses'')
      else
      bindr (foldM (access_step st) indices
          (\<lparr>trace_results = [], revealed_leaves = [], dummy_levels = [], stash_high_water = 0\<rparr>,
           map (\<lambda>_. []) (stack_levels st), g)) (\<lambda>(trace, stashes, g).
      Inr (trace\<lparr>stash_high_water := Max (set (map length stashes))\<rparr>)))"

section \<open>The stash invariant\<close>

text \<open>
  After the accesses \<open>ys\<close>, level \<open>l\<close> has stashed exactly the indices \<open>a div chi ^ l\<close> of the
  accesses so far, each with the record its tree holds.
\<close>

definition seen :: "oram_stack \<Rightarrow> nat list \<Rightarrow> nat \<Rightarrow> int set" where
  "seen st ys level = (\<lambda>a. level_index st (int a) level) ` set ys"

definition stash_ok :: "int list list \<Rightarrow> oram_stack \<Rightarrow> nat list \<Rightarrow> nat \<Rightarrow> stash \<Rightarrow> bool" where
  "stash_ok vs st ys level stash \<longleftrightarrow>
     distinct (map fst stash) \<and> fst ` set stash = seen st ys level \<and>
     (\<forall>(k, v) \<in> set stash. v = level_records vs st level ! nat k)"

definition label_at :: "oram_stack \<Rightarrow> nat \<Rightarrow> nat \<Rightarrow> int" where
  "label_at st level a = position_map (stack_levels st ! level) ! (a div stack_chi st ^ level)"

text \<open>What one access may reveal at a level: the label on the first visit, a draw otherwise.\<close>

definition leaf_ok :: "oram_stack \<Rightarrow> nat list \<Rightarrow> nat \<Rightarrow> nat \<Rightarrow> int \<Rightarrow> bool \<Rightarrow> bool" where
  "leaf_ok st ys a level leaf dummy \<longleftrightarrow>
     (dummy \<longleftrightarrow> level_index st (int a) level \<in> seen st ys level) \<and>
     0 \<le> leaf \<and> leaf < 2 ^ tree_depth (stack_levels st ! level) \<and>
     (\<not> dummy \<longrightarrow> leaf = label_at st level a)"

lemma label_at_range:
  assumes "stack_holds vs st" and "a < length vs" and "level < length (stack_levels st)"
  shows "0 \<le> label_at st level a \<and> label_at st level a < 2 ^ tree_depth (stack_levels st ! level)"
proof -
  have "tree_holds (level_records vs st level) (stack_levels st ! level)" using assms by (simp add: stack_holds_def)
  moreover have "label_at st level a \<in> set (position_map (stack_levels st ! level))"
    unfolding label_at_def using level_index_in [OF assms] stack_labels [OF assms(1,3)] by (intro nth_mem) simp
  ultimately show ?thesis unfolding tree_holds_def by blast
qed

lemma stash_ok_miss: "stash_ok vs st ys level stash \<Longrightarrow> map_of stash k = None \<longleftrightarrow> k \<notin> seen st ys level"
  by (simp add: stash_ok_def map_of_eq_None_iff)

lemma stash_ok_hit:
  assumes "stash_ok vs st ys level stash" and "map_of stash k = Some v"
  shows "k \<in> seen st ys level" and "v = level_records vs st level ! nat k"
proof -
  show "k \<in> seen st ys level" using stash_ok_miss [OF assms(1), of k] assms(2) by (cases "k \<in> seen st ys level") simp_all
  have "(k, v) \<in> set stash" using assms(2) by (rule map_of_SomeD)
  with assms(1) show "v = level_records vs st level ! nat k" unfolding stash_ok_def by blast
qed

lemma seen_snoc: "seen st (ys @ [a]) level = insert (level_index st (int a) level) (seen st ys level)"
  by (simp add: seen_def)

lemma stash_ok_again:
  "stash_ok vs st ys level stash \<Longrightarrow> level_index st (int a) level \<in> seen st ys level \<Longrightarrow>
    stash_ok vs st (ys @ [a]) level stash"
  by (simp add: stash_ok_def seen_snoc insert_absorb)

lemma in_update_cases: "(k', v) \<in> set (AList.update k x al) \<Longrightarrow> (k', v) = (k, x) \<or> (k', v) \<in> set al"
  by (induction al) (auto split: if_splits)

lemma stash_ok_insert:
  assumes "stash_ok vs st ys level stash" and "level_index st (int a) level = k"
  shows "stash_ok vs st (ys @ [a]) level (AList.update k (level_records vs st level ! nat k) stash)"
  using assms(1) unfolding stash_ok_def
  by (auto simp: seen_snoc assms(2) dom_update distinct_update dest!: in_update_cases)

section \<open>One access keeps the invariant\<close>

text \<open>The state of the descent of index \<open>a\<close> when \<open>m\<close> levels remain to be visited.\<close>

definition walk_ok :: "int list list \<Rightarrow> oram_stack \<Rightarrow> nat list \<Rightarrow> nat \<Rightarrow> nat \<Rightarrow> walk \<Rightarrow> bool" where
  "walk_ok vs st ys a m w \<longleftrightarrow>
     (let n = length (stack_levels st) in
      length (walk_stashes w) = n \<and>
      (\<forall>level < n. stash_ok vs st (if level < m then ys else ys @ [a]) level (walk_stashes w ! level)) \<and>
      (0 < m \<longrightarrow> walk_leaf w = label_at st (m - 1) a) \<and>
      (m < n \<longrightarrow> walk_value w = Some (level_records vs st m ! (a div stack_chi st ^ m))) \<and>
      length (walk_revealed w) = n - m \<and> length (walk_dummies w) = n - m \<and>
      (\<forall>i < n - m. leaf_ok st ys a (m + i) (walk_revealed w ! i) (walk_dummies w ! i)))"

lemma walk_ok_push:
  assumes ok: "walk_ok vs st ys a (Suc m) w" and m: "m < length (stack_levels st)"
    and leaf: "leaf_ok st ys a m leaf dummy"
    and stash: "stash_ok vs st (ys @ [a]) m stash"
    and w': "walk_stashes w' = (walk_stashes w)[m := stash]" "walk_revealed w' = leaf # walk_revealed w"
      "walk_dummies w' = dummy # walk_dummies w"
      "walk_value w' = Some (level_records vs st m ! (a div stack_chi st ^ m))"
      "0 < m \<longrightarrow> walk_leaf w' = label_at st (m - 1) a"
  shows "walk_ok vs st ys a m w'"
proof -
  let ?n = "length (stack_levels st)"
  from ok have len: "length (walk_stashes w) = ?n" "length (walk_revealed w) = ?n - Suc m" "length (walk_dummies w) = ?n - Suc m"
    and st: "\<And>level. level < ?n \<Longrightarrow> stash_ok vs st (if level < Suc m then ys else ys @ [a]) level (walk_stashes w ! level)"
    and lv: "\<And>i. i < ?n - Suc m \<Longrightarrow> leaf_ok st ys a (Suc m + i) (walk_revealed w ! i) (walk_dummies w ! i)"
    by (simp_all only: walk_ok_def Let_def)
  have "stash_ok vs st (if level < m then ys else ys @ [a]) level (walk_stashes w' ! level)" if "level < ?n" for level
  proof (cases "level = m")
    case True
    with stash that len(1) show ?thesis by (simp add: w'(1))
  next
    case False
    with st [OF that] show ?thesis by (cases "level < m") (simp_all add: w'(1))
  qed
  moreover have "leaf_ok st ys a (m + i) (walk_revealed w' ! i) (walk_dummies w' ! i)" if "i < ?n - m" for i
    using that leaf lv [of "i - 1"] by (cases i) (simp_all add: w'(2,3))
  moreover have "length (walk_stashes w') = ?n" "length (walk_revealed w') = ?n - m" "length (walk_dummies w') = ?n - m"
    using len m by (simp_all add: w'(1-3))
  ultimately show ?thesis unfolding walk_ok_def Let_def using w'(4,5) by (intro conjI allI impI) simp_all
qed

lemma visit_level_ok:
  assumes h: "stack_holds vs st" and a: "a < length vs" and m: "m < length (stack_levels st)"
    and ok: "walk_ok vs st ys a (Suc m) w"
  shows "\<exists>w'. visit_level st (int a) m w = Inr w' \<and> walk_ok vs st ys a m w'"
proof -
  let ?k = "level_index st (int a) m" and ?t = "stack_levels st ! m"
  let ?entry = "level_records vs st m ! (a div stack_chi st ^ m)"
  from ok m have "stash_ok vs st (if m < Suc m then ys else ys @ [a]) m (walk_stashes w ! m)"
    unfolding walk_ok_def Let_def by blast
  then have stash: "stash_ok vs st ys m (walk_stashes w ! m)" by simp
  from ok m have here: "walk_leaf w = label_at st m a"
    and len: "length (walk_stashes w) = length (stack_levels st)"
    by (simp_all add: walk_ok_def Let_def)
  have t: "list_get (stack_levels st) (int m) = Inr ?t" using m by (simp add: list_get_in)
  have stored: "level_records vs st m ! nat ?k = ?entry" by (simp add: level_index_int)
  define finish where "finish = (\<lambda>w :: walk. if m = 0 then Inr w else case walk_value w of None \<Rightarrow> Inr w | Some v \<Rightarrow>
      bindr (list_get v (level_index st (int a) (m - 1) mod int (stack_chi st))) (\<lambda>leaf. Inr (w\<lparr>walk_leaf := leaf\<rparr>)))"
  have finish: "finish x = Inr (if m = 0 then x else x\<lparr>walk_leaf := label_at st (m - 1) a\<rparr>)"
    if "walk_value x = Some ?entry" for x
    using next_label [OF h a, of "m - 1"] m that
    by (cases "m = 0") (simp_all add: finish_def label_at_def del: power_Suc)
  show ?thesis
  proof (cases "map_of (walk_stashes w ! m) ?k")
    case (Some v)
    let ?leaf = "fst (randbelow (2 ^ tree_depth ?t) (walk_rng w))"
    let ?w = "w\<lparr>walk_revealed := int ?leaf # walk_revealed w, walk_dummies := True # walk_dummies w,
      walk_value := Some v, walk_rng := snd (randbelow (2 ^ tree_depth ?t) (walk_rng w))\<rparr>"
    have v: "v = ?entry" using stash_ok_hit(2) [OF stash Some] stored by simp
    have run: "visit_level st (int a) m w = finish ?w"
      by (simp add: visit_level_def t Some Let_def case_prod_unfold finish_def)
    have "leaf_ok st ys a m (int ?leaf) True"
      using stash_ok_hit(1) [OF stash Some] randbelow_less [of "2 ^ tree_depth ?t" "walk_rng w"]
      by (simp add: leaf_ok_def flip: of_nat_less_iff)
    moreover have "stash_ok vs st (ys @ [a]) m (walk_stashes w ! m)"
      by (rule stash_ok_again [OF stash stash_ok_hit(1) [OF stash Some]])
    ultimately have "walk_ok vs st ys a m (if m = 0 then ?w else ?w\<lparr>walk_leaf := label_at st (m - 1) a\<rparr>)"
      by (rule walk_ok_push [OF ok m]) (simp_all add: v)
    with run finish [of ?w] v show ?thesis by simp
  next
    case None
    let ?stash = "AList.update ?k ?entry (walk_stashes w ! m)"
    let ?w = "w\<lparr>walk_revealed := walk_leaf w # walk_revealed w, walk_dummies := False # walk_dummies w,
      walk_value := Some ?entry, walk_stashes := (walk_stashes w)[m := ?stash]\<rparr>"
    have run: "visit_level st (int a) m w = finish ?w"
      using level_lookup [OF h a m] by (simp add: visit_level_def t None Let_def finish_def)
    have "leaf_ok st ys a m (walk_leaf w) False"
      using stash_ok_miss [OF stash, of ?k] None label_at_range [OF h a m] by (simp add: leaf_ok_def here)
    moreover have "stash_ok vs st (ys @ [a]) m ?stash"
      using stash_ok_insert [OF stash refl, of a] by (simp only: stored)
    ultimately have "walk_ok vs st ys a m (if m = 0 then ?w else ?w\<lparr>walk_leaf := label_at st (m - 1) a\<rparr>)"
      by (rule walk_ok_push [OF ok m]) simp_all
    with run finish [of ?w] show ?thesis by simp
  qed
qed

lemma visit_levels_ok:
  assumes "stack_holds vs st" and "a < length vs" and "m \<le> length (stack_levels st)" and "walk_ok vs st ys a m w"
  shows "\<exists>w'. foldM (visit_level st (int a)) (rev [0..<m]) w = Inr w' \<and> walk_ok vs st ys a 0 w'"
  using assms(3,4)
proof (induction m arbitrary: w)
  case (Suc m)
  from visit_level_ok [OF assms(1,2) _ Suc.prems(2)] Suc.prems(1) obtain w'
    where w': "visit_level st (int a) m w = Inr w'" "walk_ok vs st ys a m w'" by auto
  with Suc.IH [of w'] Suc.prems(1) show ?case by simp
qed simp

section \<open>The whole run\<close>

definition trace_ok :: "int list list \<Rightarrow> oram_stack \<Rightarrow> nat list \<Rightarrow> access_trace \<Rightarrow> bool" where
  "trace_ok vs st xs trace \<longleftrightarrow>
     trace_results trace = map (\<lambda>a. Some (vs ! a)) xs \<and>
     length (revealed_leaves trace) = length xs \<and> length (dummy_levels trace) = length xs \<and>
     (\<forall>k < length xs.
        length (revealed_leaves trace ! k) = length (stack_levels st) \<and>
        length (dummy_levels trace ! k) = length (stack_levels st) \<and>
        (\<forall>level < length (stack_levels st).
           leaf_ok st (take k xs) (xs ! k) level (revealed_leaves trace ! k ! level) (dummy_levels trace ! k ! level)))"

lemma access_one_ok:
  assumes h: "stack_holds vs st" and a: "a < length vs" and len: "length stashes = length (stack_levels st)"
    and ok: "\<And>level. level < length (stack_levels st) \<Longrightarrow> stash_ok vs st ys level (stashes ! level)"
  shows "\<exists>w. access_one st (int a) (stashes, g) = Inr w \<and> walk_ok vs st ys a 0 w"
proof -
  let ?n = "length (stack_levels st)"
  have ne: "stack_levels st \<noteq> []" and last: "stack_base st = position_map (stack_levels st ! (?n - 1))"
    using h by (simp_all add: stack_holds_def last_conv_nth)
  then have top: "?n - 1 < ?n" by simp
  have "a div stack_chi st ^ (?n - 1) < length (stack_base st)"
    using level_index_in [OF h a top] stack_labels [OF h top] by (simp only: last)
  then have leaf: "list_get (stack_base st) (level_index st (int a) (?n - 1)) = Inr (label_at st (?n - 1) a)"
    by (simp add: list_get_in level_index_int last label_at_def)
  let ?w = "\<lparr>walk_stashes = stashes, walk_leaf = label_at st (?n - 1) a, walk_value = None, walk_revealed = [],
    walk_dummies = [], walk_rng = g\<rparr>"
  have "walk_ok vs st ys a ?n ?w" using len ok by (simp add: walk_ok_def Let_def)
  from visit_levels_ok [OF h a order_refl this]
  obtain w where "foldM (visit_level st (int a)) (rev [0..<?n]) ?w = Inr w" "walk_ok vs st ys a 0 w" by blast
  moreover have "tree_holds vs (stack_levels st ! 0)" using h ne by (auto simp: stack_holds_def level_records_def)
  then have "stack_size st = length vs" using tree_holds_size ne by (simp add: stack_size_def hd_conv_nth)
  ultimately show ?thesis using a leaf by (simp add: access_one_def)
qed

lemma trace_ok_snoc:
  assumes ok: "trace_ok vs st xs trace" and w: "walk_ok vs st xs a 0 w" and ne: "stack_levels st \<noteq> []"
  shows "trace_ok vs st (xs @ [a])
    (trace\<lparr>trace_results := trace_results trace @ [walk_value w], revealed_leaves := revealed_leaves trace @ [walk_revealed w],
           dummy_levels := dummy_levels trace @ [walk_dummies w]\<rparr>)"
proof -
  have v: "walk_value w = Some (vs ! a)" and len: "length (walk_revealed w) = length (stack_levels st)"
      "length (walk_dummies w) = length (stack_levels st)"
    and leaf: "\<And>i. i < length (stack_levels st) \<Longrightarrow> leaf_ok st xs a i (walk_revealed w ! i) (walk_dummies w ! i)"
    using w ne by (simp_all add: walk_ok_def Let_def level_records_def)
  from ok have lens: "length (revealed_leaves trace) = length xs" "length (dummy_levels trace) = length xs"
    and res: "trace_results trace = map (\<lambda>a. Some (vs ! a)) xs"
    and old: "\<And>k. k < length xs \<Longrightarrow> length (revealed_leaves trace ! k) = length (stack_levels st) \<and>
        length (dummy_levels trace ! k) = length (stack_levels st) \<and>
        (\<forall>level < length (stack_levels st).
           leaf_ok st (take k xs) (xs ! k) level (revealed_leaves trace ! k ! level) (dummy_levels trace ! k ! level))"
    by (simp_all add: trace_ok_def)
  show ?thesis
    unfolding trace_ok_def
  proof (intro conjI allI impI)
    fix k level assume k: "k < length (xs @ [a])" and l: "level < length (stack_levels st)"
    show "leaf_ok st (take k (xs @ [a])) ((xs @ [a]) ! k) level
        (revealed_leaves (trace\<lparr>trace_results := trace_results trace @ [walk_value w], revealed_leaves := revealed_leaves trace @ [walk_revealed w],
           dummy_levels := dummy_levels trace @ [walk_dummies w]\<rparr>) ! k ! level)
        (dummy_levels (trace\<lparr>trace_results := trace_results trace @ [walk_value w], revealed_leaves := revealed_leaves trace @ [walk_revealed w],
           dummy_levels := dummy_levels trace @ [walk_dummies w]\<rparr>) ! k ! level)"
    proof (cases "k = length xs")
      case True
      with lens leaf [OF l] show ?thesis by (simp add: nth_append)
    next
      case False
      with k have "k < length xs" by simp
      with lens old [of k] l show ?thesis by (simp add: nth_append)
    qed
  next
    fix k assume "k < length (xs @ [a])"
    then have k: "k = length xs \<or> k < length xs" by auto
    show "length (revealed_leaves (trace\<lparr>trace_results := trace_results trace @ [walk_value w], revealed_leaves := revealed_leaves trace @ [walk_revealed w],
           dummy_levels := dummy_levels trace @ [walk_dummies w]\<rparr>) ! k) = length (stack_levels st)"
      using k len lens old [of k] by (auto simp: nth_append)
    show "length (dummy_levels (trace\<lparr>trace_results := trace_results trace @ [walk_value w], revealed_leaves := revealed_leaves trace @ [walk_revealed w],
           dummy_levels := dummy_levels trace @ [walk_dummies w]\<rparr>) ! k) = length (stack_levels st)"
      using k len lens old [of k] by (auto simp: nth_append)
  qed (simp_all add: lens res v)
qed

lemma access_steps_ok:
  assumes h: "stack_holds vs st" and xs: "\<And>a. a \<in> set xs \<Longrightarrow> a < length vs"
  shows "\<exists>trace stashes g'. foldM (access_step st) (map int xs)
      (\<lparr>trace_results = [], revealed_leaves = [], dummy_levels = [], stash_high_water = 0\<rparr>,
       map (\<lambda>_. []) (stack_levels st), g) = Inr (trace, stashes, g') \<and>
    trace_ok vs st xs trace \<and> length stashes = length (stack_levels st) \<and>
    (\<forall>level < length (stack_levels st). stash_ok vs st xs level (stashes ! level))"
  using xs
proof (induction xs rule: rev_induct)
  case Nil
  show ?case by (simp add: trace_ok_def stash_ok_def seen_def)
next
  case (snoc a xs)
  then obtain trace stashes g' where run: "foldM (access_step st) (map int xs)
      (\<lparr>trace_results = [], revealed_leaves = [], dummy_levels = [], stash_high_water = 0\<rparr>,
       map (\<lambda>_. []) (stack_levels st), g) = Inr (trace, stashes, g')"
    and ok: "trace_ok vs st xs trace" "length stashes = length (stack_levels st)"
      "\<And>level. level < length (stack_levels st) \<Longrightarrow> stash_ok vs st xs level (stashes ! level)"
    by auto
  from access_one_ok [OF h _ ok(2,3), of a] snoc.prems
  obtain w where w: "access_one st (int a) (stashes, g') = Inr w" "walk_ok vs st xs a 0 w" by auto
  have "stack_levels st \<noteq> []" using h by (simp add: stack_holds_def)
  note trace' = trace_ok_snoc [OF ok(1) w(2) this]
  have "access_step st (int a) (trace, stashes, g') = Inr (trace\<lparr>trace_results := trace_results trace @ [walk_value w],
      revealed_leaves := revealed_leaves trace @ [walk_revealed w], dummy_levels := dummy_levels trace @ [walk_dummies w]\<rparr>,
      walk_stashes w, walk_rng w)"
    by (simp only: access_step_def prod.case w(1) bindr_Inr)
  with run have "foldM (access_step st) (map int (xs @ [a]))
      (\<lparr>trace_results = [], revealed_leaves = [], dummy_levels = [], stash_high_water = 0\<rparr>,
       map (\<lambda>_. []) (stack_levels st), g) = Inr (trace\<lparr>trace_results := trace_results trace @ [walk_value w],
      revealed_leaves := revealed_leaves trace @ [walk_revealed w], dummy_levels := dummy_levels trace @ [walk_dummies w]\<rparr>,
      walk_stashes w, walk_rng w)"
    by (simp only: map_append list.map foldM_append bindr_Inr foldM.simps)
  moreover have "length (walk_stashes w) = length (stack_levels st)"
    "\<forall>level < length (stack_levels st). stash_ok vs st (xs @ [a]) level (walk_stashes w ! level)"
    using w(2) by (simp_all add: walk_ok_def Let_def)
  ultimately show ?case using trace' by blast
qed

lemma stash_length: "stash_ok vs st xs level stash \<Longrightarrow> length stash = card (seen st xs level)"
  unfolding stash_ok_def by (metis distinct_card length_map list.set_map)

lemma simulate_ok:
  assumes h: "stack_holds vs st" and xs: "\<And>a. a \<in> set xs \<Longrightarrow> a < length vs"
    and bound: "1 \<le> max_accesses" "int (length xs) \<le> max_accesses"
  shows "\<exists>trace. simulate_access_sequence st (map int xs) max_accesses g = Inr trace \<and>
    trace_ok vs st xs trace \<and> stash_high_water trace = card (set xs)"
proof -
  from access_steps_ok [OF h xs, of xs g] obtain trace stashes g' where run: "foldM (access_step st) (map int xs)
      (\<lparr>trace_results = [], revealed_leaves = [], dummy_levels = [], stash_high_water = 0\<rparr>,
       map (\<lambda>_. []) (stack_levels st), g) = Inr (trace, stashes, g')"
    and ok: "trace_ok vs st xs trace" "length stashes = length (stack_levels st)"
      "\<And>level. level < length (stack_levels st) \<Longrightarrow> stash_ok vs st xs level (stashes ! level)"
    by blast
  have ne: "stack_levels st \<noteq> []" using h by (simp add: stack_holds_def)
  have "Max (set (map length stashes)) = card (set xs)"
  proof (rule Max_eqI)
    have "seen st xs 0 = int ` set xs" by (simp add: seen_def level_index_def)
    then have "length (stashes ! 0) = card (set xs)"
      using stash_length [OF ok(3) [of 0]] ne by (simp add: card_image)
    then show "card (set xs) \<in> set (map length stashes)"
      using ne ok(2) by (force simp: in_set_conv_nth)
    fix y assume "y \<in> set (map length stashes)"
    then obtain level where "level < length (stack_levels st)" "y = length (stashes ! level)"
      using ok(2) by (auto simp: in_set_conv_nth)
    with stash_length [OF ok(3) [of level]] show "y \<le> card (set xs)"
      by (simp add: seen_def card_image_le)
  qed simp
  moreover have "trace_ok vs st xs (trace\<lparr>stash_high_water := n\<rparr>)" for n
    using ok(1) by (simp add: trace_ok_def)
  ultimately show ?thesis using run bound by (simp add: simulate_access_sequence_def)
qed

section \<open>Dummy leaves are fresh draws\<close>

text \<open>
  The draws of a run are consumed in the order of the accesses and, within one, from the top
  level down; \<open>draw_number\<close> counts the dummies before a given one.
\<close>

definition dummies_in :: "bool list \<Rightarrow> nat" where
  "dummies_in flags = length (filter id flags)"

definition draw_number :: "bool list list \<Rightarrow> nat \<Rightarrow> nat \<Rightarrow> nat" where
  "draw_number flags k level = dummies_in (concat (take k flags)) + dummies_in (drop (Suc level) (flags ! k))"

definition fresh_walk :: "oram_stack \<Rightarrow> rng \<Rightarrow> nat \<Rightarrow> walk \<Rightarrow> bool" where
  "fresh_walk st g m w \<longleftrightarrow>
     (let n = length (stack_levels st) in
      length (walk_revealed w) = n - m \<and> length (walk_dummies w) = n - m \<and>
      walk_rng w = (\<lambda>i. g (i + dummies_in (walk_dummies w))) \<and>
      (\<forall>i < n - m. walk_dummies w ! i \<longrightarrow>
        walk_revealed w ! i = int (g (dummies_in (drop (Suc i) (walk_dummies w))) mod 2 ^ tree_depth (stack_levels st ! (m + i)))))"

lemma visit_level_reveals:
  assumes "visit_level st index m w = Inr w'" and "m < length (stack_levels st)"
  obtains leaf where "walk_revealed w' = leaf # walk_revealed w" and "walk_dummies w' = False # walk_dummies w"
      and "walk_rng w' = walk_rng w"
    | "walk_revealed w' = int (walk_rng w 0 mod 2 ^ tree_depth (stack_levels st ! m)) # walk_revealed w"
      and "walk_dummies w' = True # walk_dummies w" and "walk_rng w' = (\<lambda>i. walk_rng w (Suc i))"
proof -
  let ?t = "stack_levels st ! m" and ?k = "level_index st index m"
  let ?hit = "\<lambda>v. w\<lparr>walk_revealed := int (walk_rng w 0 mod 2 ^ tree_depth ?t) # walk_revealed w,
      walk_dummies := True # walk_dummies w, walk_value := Some v, walk_rng := (\<lambda>i. walk_rng w (Suc i))\<rparr>"
  let ?miss = "\<lambda>found. w\<lparr>walk_revealed := walk_leaf w # walk_revealed w, walk_dummies := False # walk_dummies w,
      walk_value := found,
      walk_stashes := (case found of None \<Rightarrow> walk_stashes w
        | Some v \<Rightarrow> (walk_stashes w)[m := AList.update ?k v (walk_stashes w ! m)])\<rparr>"
  have "visit_level st index m w = bindr
      (case map_of (walk_stashes w ! m) ?k of Some v \<Rightarrow> Inr (?hit v)
       | None \<Rightarrow> bindr (lookup ?t ?k) (\<lambda>found. Inr (?miss found)))
      (\<lambda>w. if m = 0 then Inr w
        else case walk_value w of None \<Rightarrow> Inr w
        | Some v \<Rightarrow> bindr (list_get v (level_index st index (m - 1) mod int (stack_chi st))) (\<lambda>leaf. Inr (w\<lparr>walk_leaf := leaf\<rparr>)))"
    (is "_ = bindr ?read ?finish")
    using assms(2) by (simp add: visit_level_def Let_def randbelow_def cong: option.case_cong)
  with assms(1) obtain w1 where read: "?read = Inr w1" and finish: "?finish w1 = Inr w'"
    by (auto simp only: bindr_eq_Inr)
  from finish have same: "walk_revealed w' = walk_revealed w1 \<and> walk_dummies w' = walk_dummies w1 \<and> walk_rng w' = walk_rng w1"
    by (auto simp: res_simps split: option.splits if_splits)
  show ?thesis
  proof (cases "map_of (walk_stashes w ! m) ?k")
    case None
    with read obtain found where "w1 = ?miss found" by (auto simp: res_simps)
    with same show ?thesis by (intro that(1)) simp_all
  next
    case (Some v)
    with read have "w1 = ?hit v" by simp
    with same show ?thesis by (intro that(2)) simp_all
  qed
qed

lemma visit_level_fresh:
  assumes run: "visit_level st index m w = Inr w'" and m: "m < length (stack_levels st)"
    and fresh: "fresh_walk st g (Suc m) w"
  shows "fresh_walk st g m w'"
proof -
  let ?n = "length (stack_levels st)"
  from fresh have len: "length (walk_revealed w) = ?n - Suc m" "length (walk_dummies w) = ?n - Suc m"
    and rng: "walk_rng w = (\<lambda>i. g (i + dummies_in (walk_dummies w)))"
    and old: "\<And>i. i < ?n - Suc m \<Longrightarrow> walk_dummies w ! i \<Longrightarrow>
      walk_revealed w ! i = int (g (dummies_in (drop (Suc i) (walk_dummies w))) mod 2 ^ tree_depth (stack_levels st ! (Suc m + i)))"
    by (simp_all only: fresh_walk_def Let_def)
  have step: "fresh_walk st g m w'"
    if "walk_revealed w' = leaf # walk_revealed w" "walk_dummies w' = d # walk_dummies w"
      "walk_rng w' = (\<lambda>i. g (i + dummies_in (d # walk_dummies w)))"
      "d \<longrightarrow> leaf = int (g (dummies_in (walk_dummies w)) mod 2 ^ tree_depth (stack_levels st ! m))" for leaf d
  proof -
    have "walk_revealed w' ! i = int (g (dummies_in (drop (Suc i) (walk_dummies w'))) mod 2 ^ tree_depth (stack_levels st ! (m + i)))"
      if "i < ?n - m" "walk_dummies w' ! i" for i
      using that \<open>walk_revealed w' = _\<close> \<open>walk_dummies w' = _\<close> \<open>d \<longrightarrow> _\<close> old [of "i - 1"] by (cases i) simp_all
    then show ?thesis using that len m by (simp add: fresh_walk_def Let_def)
  qed
  from run m show ?thesis
  proof (cases rule: visit_level_reveals)
    case (1 leaf)
    with rng show ?thesis by (intro step [of leaf False]) (simp_all add: dummies_in_def)
  next
    case 2
    with rng show ?thesis by (intro step [of _ True]) (simp_all add: dummies_in_def)
  qed
qed

lemma visit_levels_fresh:
  "foldM (visit_level st index) (rev [0..<m]) w = Inr w' \<Longrightarrow> m \<le> length (stack_levels st) \<Longrightarrow>
    fresh_walk st g m w \<Longrightarrow> fresh_walk st g 0 w'"
proof (induction m arbitrary: w)
  case (Suc m)
  then obtain w1 where "visit_level st index m w = Inr w1" "foldM (visit_level st index) (rev [0..<m]) w1 = Inr w'"
    by (auto simp: res_simps)
  with visit_level_fresh [of st index m w w1 g] Suc show ?case by simp
qed simp

lemma access_one_fresh:
  assumes "access_one st index (stashes, g) = Inr w"
  shows "fresh_walk st g 0 w"
proof -
  from assms obtain leaf where run: "foldM (visit_level st index) (rev [0..<length (stack_levels st)])
       \<lparr>walk_stashes = stashes, walk_leaf = leaf, walk_value = None, walk_revealed = [], walk_dummies = [],
        walk_rng = g\<rparr> = Inr w"
    by (auto simp: access_one_def res_simps split: if_splits)
  show ?thesis by (rule visit_levels_fresh [OF run order_refl]) (simp add: fresh_walk_def dummies_in_def)
qed

definition fresh_trace :: "oram_stack \<Rightarrow> rng \<Rightarrow> access_trace \<Rightarrow> rng \<Rightarrow> bool" where
  "fresh_trace st g trace g' \<longleftrightarrow>
     g' = (\<lambda>i. g (i + dummies_in (concat (dummy_levels trace)))) \<and>
     length (revealed_leaves trace) = length (dummy_levels trace) \<and>
     (\<forall>k < length (dummy_levels trace). \<forall>level < length (stack_levels st). dummy_levels trace ! k ! level \<longrightarrow>
        revealed_leaves trace ! k ! level =
          int (g (draw_number (dummy_levels trace) k level) mod 2 ^ tree_depth (stack_levels st ! level)))"

lemma access_step_fresh:
  assumes "access_step st index (trace, stashes, g1) = Inr (trace', stashes', g2)" and "fresh_trace st g trace g1"
  shows "fresh_trace st g trace' g2"
proof -
  from assms(1) obtain w where w: "access_one st index (stashes, g1) = Inr w"
    and t: "revealed_leaves trace' = revealed_leaves trace @ [walk_revealed w]"
      "dummy_levels trace' = dummy_levels trace @ [walk_dummies w]" and g2: "g2 = walk_rng w"
    by (auto simp: access_step_def res_simps)
  note fresh = access_one_fresh [OF w, unfolded fresh_walk_def Let_def]
  from assms(2) have g1: "g1 = (\<lambda>i. g (i + dummies_in (concat (dummy_levels trace))))"
    and len: "length (revealed_leaves trace) = length (dummy_levels trace)"
    and old: "\<And>k level. k < length (dummy_levels trace) \<Longrightarrow> level < length (stack_levels st) \<Longrightarrow> dummy_levels trace ! k ! level \<Longrightarrow>
        revealed_leaves trace ! k ! level =
          int (g (draw_number (dummy_levels trace) k level) mod 2 ^ tree_depth (stack_levels st ! level))"
    by (simp_all add: fresh_trace_def)
  have "revealed_leaves trace' ! k ! level =
      int (g (draw_number (dummy_levels trace') k level) mod 2 ^ tree_depth (stack_levels st ! level))"
    if k: "k < length (dummy_levels trace')" and level: "level < length (stack_levels st)" and d: "dummy_levels trace' ! k ! level"
    for k level
  proof (cases "k < length (dummy_levels trace)")
    case True
    with old [OF True level] d len show ?thesis by (simp add: t nth_append draw_number_def)
  next
    case False
    with k have "k = length (dummy_levels trace)" by (simp add: t)
    with d level fresh len show ?thesis by (simp add: t nth_append draw_number_def g1 add.commute)
  qed
  then show ?thesis using fresh len by (auto simp: fresh_trace_def t g2 g1 dummies_in_def ac_simps)
qed

lemma access_steps_fresh:
  "foldM (access_step st) indices (trace, stashes, g1) = Inr (trace', stashes', g2) \<Longrightarrow>
    fresh_trace st g trace g1 \<Longrightarrow> fresh_trace st g trace' g2"
proof (induction indices arbitrary: trace stashes g1)
  case (Cons index indices)
  then obtain trace1 stashes1 h where "access_step st index (trace, stashes, g1) = Inr (trace1, stashes1, h)"
    "foldM (access_step st) indices (trace1, stashes1, h) = Inr (trace', stashes', g2)"
    by (auto simp: res_simps)
  with access_step_fresh [OF this(1) Cons.prems(2)] Cons.IH show ?case by blast
qed simp

lemma simulate_fresh:
  assumes "simulate_access_sequence st indices max_accesses g = Inr trace" and "k < length (dummy_levels trace)"
    and "level < length (stack_levels st)" and "dummy_levels trace ! k ! level"
  shows "revealed_leaves trace ! k ! level =
    int (g (draw_number (dummy_levels trace) k level) mod 2 ^ tree_depth (stack_levels st ! level))"
proof -
  from assms(1) obtain trace' stashes g' where run: "foldM (access_step st) indices
      (\<lparr>trace_results = [], revealed_leaves = [], dummy_levels = [], stash_high_water = 0\<rparr>,
       map (\<lambda>_. []) (stack_levels st), g) = Inr (trace', stashes, g')"
    and t: "dummy_levels trace = dummy_levels trace'" "revealed_leaves trace = revealed_leaves trace'"
    by (auto simp: simulate_access_sequence_def res_simps split: if_splits)
  have "fresh_trace st g trace' g'"
    by (rule access_steps_fresh [OF run]) (simp add: fresh_trace_def dummies_in_def)
  with assms(2-4) show ?thesis by (simp add: fresh_trace_def t)
qed

section \<open>Properties\<close>

text \<open>
  C23: a run of in-range reads within the declared bound over a built stack returns every record
  asked for; a level is served from its stash exactly when an earlier access addressed the
  same record there; a leaf that is not a dummy is the label the tree was built with, so each
  label is revealed at most once per level, and a dummy leaf is a draw of its own from the
  generator, the one numbered by the dummies before it, reduced to the leaves of its level; every
  revealed leaf is in range; and the fullest stash ends with one entry per distinct index.
\<close>

theorem access_run_reveals_labels_once:
  assumes "build_owner_oram_stack shape chi threshold vs g = Inr (st, h)"
    and "\<forall>a \<in> set xs. a < length vs" and "1 \<le> max_accesses" and "int (length xs) \<le> max_accesses"
  shows "\<exists>trace. simulate_access_sequence st (map int xs) max_accesses g' = Inr trace \<and>
    trace_results trace = map (\<lambda>a. Some (vs ! a)) xs \<and> stash_high_water trace = card (set xs) \<and>
    (\<forall>k < length xs. \<forall>level < length (stack_levels st).
       (dummy_levels trace ! k ! level \<longleftrightarrow> (\<exists>j < k. xs ! j div chi ^ level = xs ! k div chi ^ level)) \<and>
       0 \<le> revealed_leaves trace ! k ! level \<and>
       revealed_leaves trace ! k ! level < 2 ^ tree_depth (stack_levels st ! level) \<and>
       revealed_leaves trace ! k ! level =
         (if dummy_levels trace ! k ! level
          then int (g' (draw_number (dummy_levels trace) k level) mod 2 ^ tree_depth (stack_levels st ! level))
          else position_map (stack_levels st ! level) ! (xs ! k div chi ^ level)))"
proof -
  from build_stack_holds [OF assms(1)] have h: "stack_holds vs st" and chi: "stack_chi st = chi" by blast+
  from simulate_ok [OF h _ assms(3,4), of g'] assms(2) obtain trace
    where run: "simulate_access_sequence st (map int xs) max_accesses g' = Inr trace"
      and ok: "trace_ok vs st xs trace" and water: "stash_high_water trace = card (set xs)" by blast
  have before: "level_index st (int (xs ! k)) level \<in> seen st (take k xs) level \<longleftrightarrow>
      (\<exists>j < k. xs ! j div chi ^ level = xs ! k div chi ^ level)" if "k < length xs" for k level
  proof -
    have "set (take k xs) = (\<lambda>j. xs ! j) ` {0..<k}" using that by (simp only: nth_image less_imp_le)
    then have "level_index st (int (xs ! k)) level \<in> seen st (take k xs) level \<longleftrightarrow>
        (\<exists>j \<in> {0..<k}. xs ! k div chi ^ level = xs ! j div chi ^ level)"
      by (simp add: seen_def level_index_int chi image_iff)
    then show ?thesis by (simp add: Bex_def) (metis)
  qed
  have fresh: "revealed_leaves trace ! k ! level =
      int (g' (draw_number (dummy_levels trace) k level) mod 2 ^ tree_depth (stack_levels st ! level))"
    if "k < length xs" "level < length (stack_levels st)" "dummy_levels trace ! k ! level" for k level
    using simulate_fresh [OF run] that ok by (simp add: trace_ok_def)
  show ?thesis
  proof (intro exI [of _ trace] conjI allI impI)
    fix k level assume k: "k < length xs" and l: "level < length (stack_levels st)"
    from ok k l have leaf: "leaf_ok st (take k xs) (xs ! k) level (revealed_leaves trace ! k ! level) (dummy_levels trace ! k ! level)"
      by (simp add: trace_ok_def)
    then show "dummy_levels trace ! k ! level \<longleftrightarrow> (\<exists>j < k. xs ! j div chi ^ level = xs ! k div chi ^ level)"
      by (simp add: leaf_ok_def before [OF k])
    show "0 \<le> revealed_leaves trace ! k ! level"
      and "revealed_leaves trace ! k ! level < 2 ^ tree_depth (stack_levels st ! level)"
      using leaf by (simp_all add: leaf_ok_def)
    show "revealed_leaves trace ! k ! level =
         (if dummy_levels trace ! k ! level
          then int (g' (draw_number (dummy_levels trace) k level) mod 2 ^ tree_depth (stack_levels st ! level))
          else position_map (stack_levels st ! level) ! (xs ! k div chi ^ level))"
      using leaf fresh [OF k l] by (auto simp: leaf_ok_def label_at_def chi)
  qed (use run ok water in \<open>simp_all add: trace_ok_def\<close>)
qed

theorem access_run_reveals_labels_once_witness:
  "\<exists>st h trace. build_owner_oram_stack sample_shape 2 4 sample_records sample_draws = Inr (st, h) \<and>
    simulate_access_sequence st [5, 4, 5] 3 sample_draws = Inr trace \<and>
    trace_results trace = [Some [15, 5], Some [14, 4], Some [15, 5]] \<and> stash_high_water trace = 2"
proof -
  obtain st h where b: "build_owner_oram_stack sample_shape 2 4 sample_records sample_draws = Inr (st, h)"
    by (rule sample_stack_builds)
  have "card {5, 4, 5 :: nat} = 2" by (simp add: card_insert_if)
  with access_run_reveals_labels_once [OF b, of "[5, 4, 5]" 3 sample_draws] b show ?thesis
    by (auto simp: sample_records_def)
qed

end
