(* ===== verification/Oram_Access.thy ===== *)
theory Oram_Access
  imports Oram_Stack Field_Sharing
begin

unbundle bit_operations_syntax

text \<open>
  The role-separated inputs of the recursive ORAM (\<open>doram_t2_3pc/oram_access.py\<close>): the public
  shape of a stack, its flattening, the shares of owner and client, their assembly and the
  client's decoding of the three output logs; and the shape the circuit generators plan from
  public parameters (\<open>_planned_stack\<close> of \<open>relation_paged_oram_program.py\<close>, \<open>planned_shape\<close> of
  \<open>kg_oram_program.py\<close>).  A planned shape is the shape of every stack that gets built.
\<close>

section \<open>Public shapes\<close>

record level_shape =
  shape_size :: nat
  shape_bucket :: nat
  shape_depth :: nat
  shape_slots :: nat
  shape_fields :: nat

record access_shape =
  shape_levels :: "level_shape list"
  shape_base :: nat
  shape_chi :: nat
  shape_value_width :: nat
  shape_accesses :: int

definition level_shape_of :: "oram_tree \<Rightarrow> level_shape" where
  "level_shape_of t = \<lparr>shape_size = tree_size t, shape_bucket = bucket_size t, shape_depth = tree_depth t,
     shape_slots = tree_slots t, shape_fields = field_count t\<rparr>"

definition from_stack :: "oram_stack \<Rightarrow> int \<Rightarrow> access_shape res" where
  "from_stack st max_accesses =
     (if max_accesses < 1 then Inl (ValueError ''max_accesses must be positive'')
      else if stack_chi st < 2 \<or> stack_chi st AND (stack_chi st - 1) \<noteq> 0
      then Inl (ValueError ''the MPC access circuit requires power-of-two chi'')
      else if length (stack_base st) < 1
      then Inl (ValueError ''the recursive position-map base must not be empty'')
      else Inr \<lparr>shape_levels = map level_shape_of (stack_levels st), shape_base = length (stack_base st),
             shape_chi = stack_chi st, shape_value_width = field_count (hd (stack_levels st)) - 3,
             shape_accesses = max_accesses\<rparr>)"

definition shape_owner_values :: "access_shape \<Rightarrow> nat" where
  "shape_owner_values s = sum_list (map (\<lambda>l. shape_slots l * shape_fields l) (shape_levels s)) + shape_base s"

definition shape_client_values :: "access_shape \<Rightarrow> int" where
  "shape_client_values s = shape_accesses s"

definition shape_total_values :: "access_shape \<Rightarrow> int" where
  "shape_total_values s = int (shape_owner_values s) + shape_client_values s"

text \<open>The shape a circuit is generated for, from the number of records and their width alone.\<close>

function planned_levels ::
  "(nat \<Rightarrow> (nat \<times> nat) res) \<Rightarrow> nat \<Rightarrow> nat \<Rightarrow> nat \<Rightarrow> nat \<Rightarrow> (level_shape list \<times> nat) res" where
  "planned_levels shape chi threshold width current =
     (if chi < 2 then Inl (ValueError ''chi must be a power of two'')
      else
      bindr (shape current) (\<lambda>(bucket, levels).
      let here = \<lparr>shape_size = current, shape_bucket = bucket, shape_depth = levels,
                  shape_slots = 2 ^ (levels + 1) * bucket, shape_fields = 3 + width\<rparr> in
      if current \<le> threshold \<or> current \<le> chi then Inr ([here], current)
      else bindr (planned_levels shape chi threshold chi (ceil_div current chi)) (\<lambda>(rest, base_entries).
        Inr (here # rest, base_entries))))"
  by pat_completeness auto

termination
  by (relation "measure (\<lambda>(shape, chi, threshold, width, current). current)") (auto simp: ceil_div_less)

declare planned_levels.simps [simp del]

definition planned_stack ::
  "(nat \<Rightarrow> (nat \<times> nat) res) \<Rightarrow> nat \<Rightarrow> nat \<Rightarrow> nat \<Rightarrow> nat \<Rightarrow> int \<Rightarrow> access_shape res" where
  "planned_stack shape chi threshold width records max_accesses =
     (if chi < 2 \<or> chi AND (chi - 1) \<noteq> 0 then Inl (ValueError ''chi must be a power of two'')
      else bindr (planned_levels shape chi threshold width records) (\<lambda>(levels, base_entries).
        Inr \<lparr>shape_levels = levels, shape_base = base_entries, shape_chi = chi, shape_value_width = width,
             shape_accesses = max_accesses\<rparr>))"

section \<open>Flattening\<close>

definition flatten_owner_stack :: "oram_stack \<Rightarrow> int list" where
  "flatten_owner_stack st = concat (map flat_values (stack_levels st)) @ stack_base st"

text \<open>The order of the generated circuits: all fields of a slot together.\<close>

definition flatten_stack_physical :: "oram_stack \<Rightarrow> int list" where
  "flatten_stack_physical st =
     concat (map (\<lambda>t. concat (map (tree_entry t) [0..<tree_slots t])) (stack_levels st)) @ stack_base st"

section \<open>Shares of owner and client\<close>

record oram_input_shards =
  input_shape :: access_shape
  server_values :: shared_vector

definition share_owner_stack :: "oram_stack \<Rightarrow> int \<Rightarrow> int \<Rightarrow> rng \<Rightarrow> (oram_input_shards \<times> rng) res" where
  "share_owner_stack st max_accesses modulus g =
     bindr (from_stack st max_accesses) (\<lambda>shape.
     bindr (share_vector modulus (flatten_owner_stack st) g) (\<lambda>(pieces, g).
       Inr (\<lparr>input_shape = shape, server_values = pieces\<rparr>, g)))"

definition share_access_addresses :: "jval list \<Rightarrow> access_shape \<Rightarrow> int \<Rightarrow> rng \<Rightarrow> (shared_vector \<times> rng) res" where
  "share_access_addresses addresses shape modulus g =
     (if int (length addresses) \<noteq> shape_accesses shape then Inl (ValueError ''expected exactly'')
      else
      bindr (traverse (\<lambda>a. case strict_int a of None \<Rightarrow> Inl (TypeError ''ORAM addresses must be integers'') | Some i \<Rightarrow> Inr i)
          addresses) (\<lambda>addresses.
      case shape_levels shape of
        [] \<Rightarrow> (if addresses = [] then share_vector modulus [] g else Inl IndexError)
      | level # _ \<Rightarrow>
          if \<not> list_all (\<lambda>a. 0 \<le> a \<and> a < int (shape_size level)) addresses
          then Inl (ValueError ''ORAM address is outside the logical data domain'')
          else share_vector modulus addresses g))"

definition append_vectors :: "shared_vector \<Rightarrow> shared_vector \<Rightarrow> shared_vector" where
  "append_vectors = (\<lambda>(as, bs, cs) (xs, ys, zs). (as @ xs, bs @ ys, cs @ zs))"

definition assemble_oram_inputs :: "oram_input_shards \<Rightarrow> shared_vector \<Rightarrow> oram_input_shards res" where
  "assemble_oram_inputs owner client =
     (case client of (xs, ys, zs) \<Rightarrow>
      if list_ex (\<lambda>shard. int (length shard) \<noteq> shape_client_values (input_shape owner)) [xs, ys, zs]
      then Inl (ValueError ''client shard length does not match the ORAM access shape'')
      else Inr \<lparr>input_shape = input_shape owner, server_values = append_vectors (server_values owner) client\<rparr>)"

section \<open>Decoding the output logs\<close>

text \<open>
  A log is the list of the matches of \<open>ORAM_SHARE_LINE\<close>: access, field, claimed server, value.
  The result of an access is its found flag and its values.
\<close>

type_synonym share_line = "int \<times> int \<times> int \<times> int"

definition decode_line ::
  "access_shape \<Rightarrow> int \<Rightarrow> int \<Rightarrow> share_line \<Rightarrow> ((int \<times> int) \<times> (int \<times> int) list) list \<Rightarrow>
     ((int \<times> int) \<times> (int \<times> int) list) list res" where
  "decode_line shape modulus expected_server = (\<lambda>(access, field, claimed_server, v) shares.
     if claimed_server \<noteq> expected_server then Inl (ValueError ''ORAM output log contains another server's share'')
     else if \<not> (0 \<le> access \<and> access < shape_accesses shape)
     then Inl (ValueError ''ORAM output contains an invalid access number'')
     else if \<not> (0 \<le> field \<and> field < int (shape_value_width shape) + 1)
     then Inl (ValueError ''ORAM output contains an invalid field number'')
     else
       let bucket = get_or [] shares (access, field) in
       if expected_server \<in> fst ` set bucket then Inl (ValueError ''duplicate ORAM output share'')
       else Inr (AList.update (access, field) (AList.update expected_server (v mod modulus) bucket) shares))"

definition expected_outputs :: "access_shape \<Rightarrow> (int \<times> int) list" where
  "expected_outputs shape =
     concat (map (\<lambda>access. map (\<lambda>field. (int access, int field)) [0..<shape_value_width shape + 1])
       [0..<nat (shape_accesses shape)])"

definition decode_field ::
  "int \<Rightarrow> ((int \<times> int) \<times> (int \<times> int) list) list \<Rightarrow> int \<Rightarrow> int \<Rightarrow> int res" where
  "decode_field modulus shares access field =
     reconstruct modulus (map (\<lambda>server. get_or 0 (get_or [] shares (access, field)) (int server)) [0..<SERVER_COUNT])"

definition decode_access ::
  "access_shape \<Rightarrow> int \<Rightarrow> ((int \<times> int) \<times> (int \<times> int) list) list \<Rightarrow> int \<Rightarrow> (int \<times> int list) res" where
  "decode_access shape modulus shares access =
     bindr (decode_field modulus shares access 0) (\<lambda>found.
     if found \<notin> {0, 1} then Inl (ValueError ''ORAM returned a non-boolean found flag'')
     else
     bindr (traverse (\<lambda>field. decode_field modulus shares access (int field)) [1..<shape_value_width shape + 1]) (\<lambda>fields.
     if found = 0 \<and> list_ex (\<lambda>v. v \<noteq> 0) fields
     then Inl (ValueError ''missing ORAM record has a non-zero payload'')
     else Inr (found, fields)))"

definition decode_oram_access_logs ::
  "share_line list list \<Rightarrow> access_shape \<Rightarrow> int \<Rightarrow> (int \<times> int list) list res" where
  "decode_oram_access_logs logs shape modulus =
     (if length logs \<noteq> SERVER_COUNT then Inl (ValueError ''the client requires exactly three ORAM output logs'')
      else
      bindr (foldM (\<lambda>(server, log) shares. foldM (decode_line shape modulus (int server)) log shares)
          (enumerate 0 logs) []) (\<lambda>shares.
      if fst ` set shares \<noteq> set (expected_outputs shape) \<or>
         \<not> list_all (\<lambda>(_, pieces). fst ` set pieces = int ` {..<SERVER_COUNT}) shares
      then Inl (ValueError ''missing or unexpected ORAM output shares'')
      else traverse (\<lambda>access. decode_access shape modulus shares (int access)) [0..<nat (shape_accesses shape)]))"

section \<open>Planned shapes are built shapes\<close>

lemma planned_levels_built:
  assumes "build_owner_oram_stack shape chi threshold vs g = Inr (st, h)"
  shows "planned_levels shape chi threshold (length (hd vs)) (length vs) =
    Inr (map level_shape_of (stack_levels st), length (stack_base st))"
  using assms
proof (induction shape chi threshold vs g arbitrary: st h rule: build_owner_oram_stack.induct)
  case (1 shape chi threshold vs g)
  from "1.prems" obtain t g' where chi: "\<not> chi < 2" "\<not> threshold < 2"
    and t: "build_owner_oram_tree shape 64 vs g = Inr (t, g')"
    by (subst (asm) build_owner_oram_stack.simps) (auto simp: res_simps split: if_splits)
  note holds = build_tree_holds [OF t] and size = tree_holds_size [OF build_tree_holds [OF t]]
  have here: "level_shape_of t = \<lparr>shape_size = length vs, shape_bucket = bucket_size t, shape_depth = tree_depth t,
      shape_slots = 2 ^ (tree_depth t + 1) * bucket_size t, shape_fields = 3 + length (hd vs)\<rparr>"
    using holds by (simp add: level_shape_of_def tree_holds_def tree_slots_def n_buckets_def field_count_def)
  show ?case
  proof (cases "length (position_map t) \<le> threshold \<or> length (position_map t) \<le> chi")
    case True
    with "1.prems" chi t have "st = \<lparr>stack_levels = [t], stack_base = position_map t, stack_chi = chi\<rparr>"
      by (subst (asm) build_owner_oram_stack.simps) (simp add: Let_def)
    with True chi size build_tree_shape [OF t] here show ?thesis
      by (subst planned_levels.simps) (simp add: Let_def)
  next
    case False
    with "1.prems" chi t obtain st' where
      rec: "build_owner_oram_stack shape chi threshold (pack_labels chi (position_map t)) g' = Inr (st', h)"
      and st: "st = st'\<lparr>stack_levels := t # stack_levels st'\<rparr>"
      by (subst (asm) build_owner_oram_stack.simps) (auto simp: Let_def res_simps)
    have "length (hd (pack_labels chi (position_map t))) = chi"
    proof -
      have pos: "0 < chi" "0 < length (position_map t)" using chi False by auto
      have "pack_labels chi (position_map t) \<noteq> []"
        using pack_labels_nth(1) [OF pos] by (metis list.size(3) not_less_zero)
      moreover have "length (pack_labels chi (position_map t) ! 0) = chi" using pack_labels_nth(2) [OF pos] by simp
      ultimately show ?thesis by (simp add: hd_conv_nth)
    qed
    with "1.IH" [OF chi t refl refl False rec]
    have "planned_levels shape chi threshold chi (ceil_div (length vs) chi) =
        Inr (map level_shape_of (stack_levels st'), length (stack_base st'))"
      using size by simp
    with False chi size build_tree_shape [OF t] here show ?thesis
      by (subst planned_levels.simps) (simp add: Let_def st)
  qed
qed

lemma planned_stack_built:
  assumes "build_owner_oram_stack shape chi threshold vs g = Inr (st, h)"
    and "from_stack st max_accesses = Inr s"
  shows "planned_stack shape chi threshold (length (hd vs)) (length vs) max_accesses = Inr s"
proof -
  note planned = planned_levels_built [OF assms(1)]
  have st: "stack_holds vs st" "stack_chi st = chi" using build_stack_holds [OF assms(1)] by blast+
  then have ne: "stack_levels st \<noteq> []" "tree_holds vs (stack_levels st ! 0)"
    by (auto simp: stack_holds_def level_records_def)
  then have "field_count (hd (stack_levels st)) = 3 + length (hd vs)"
    by (simp add: field_count_def hd_conv_nth tree_holds_def)
  then show ?thesis
    using assms(2) planned st(2) by (auto simp: from_stack_def planned_stack_def split: if_splits)
qed

lemma length_flatten:
  assumes "stack_holds vs st"
  shows "length (flatten_owner_stack st) = stack_shared_values st"
    and "length (flatten_stack_physical st) = stack_shared_values st"
proof -
  have wide: "length column = tree_slots t" if "t \<in> set (stack_levels st)" "column \<in> set (tree_fields t)" for t column
  proof -
    from that(1) obtain level where "level < length (stack_levels st)" "t = stack_levels st ! level"
      by (auto simp: in_set_conv_nth)
    with assms have "tree_holds (level_records vs st level) t" by (simp add: stack_holds_def)
    with that(2) show ?thesis by (simp add: tree_holds_def)
  qed
  have "length (flat_values t) = tree_slots t * field_count t" if "t \<in> set (stack_levels st)" for t
    using length_concat_uniform [of "tree_fields t" "tree_slots t"] wide [OF that]
    by (simp add: flat_values_def field_count_def mult.commute)
  then show "length (flatten_owner_stack st) = stack_shared_values st"
    by (simp add: flatten_owner_stack_def stack_shared_values_def length_concat comp_def cong: map_cong)
  have "length (concat (map (tree_entry t) [0..<tree_slots t])) = tree_slots t * field_count t" for t
    by (subst length_concat_uniform [of _ "field_count t"]) (auto simp: tree_entry_def field_count_def)
  then show "length (flatten_stack_physical st) = stack_shared_values st"
    by (simp add: flatten_stack_physical_def stack_shared_values_def length_concat comp_def)
qed

section \<open>What the client accepts\<close>

text \<open>The lines of all logs, each with the server it was read from.\<close>

definition all_lines :: "share_line list list \<Rightarrow> (nat \<times> share_line) list" where
  "all_lines logs = concat (map (\<lambda>(server, log). map (Pair server) log) (enumerate 0 logs))"

definition line_key :: "nat \<times> share_line \<Rightarrow> int \<times> int" where
  "line_key = (\<lambda>(server, access, field, claimed, v). (access, field))"

definition line_piece :: "int \<Rightarrow> nat \<times> share_line \<Rightarrow> int \<times> int" where
  "line_piece m = (\<lambda>(server, access, field, claimed, v). (int server, v mod m))"

definition line_ok :: "nat \<times> share_line \<Rightarrow> bool" where
  "line_ok = (\<lambda>(server, access, field, claimed, v). claimed = int server)"

lemma foldM_concat: "foldM f (concat xss) = foldM (foldM f) xss"
proof (induction xss)
  case (Cons xs xss)
  show ?case by (rule ext) (simp add: foldM_append Cons.IH)
qed (simp add: fun_eq_iff)

lemma foldM_map: "foldM f (map h xs) = foldM (\<lambda>x. f (h x)) xs"
proof (induction xs)
  case (Cons x xs)
  show ?case by (rule ext) (simp add: Cons.IH)
qed (simp add: fun_eq_iff)

lemma decode_loop_flat:
  "foldM (\<lambda>(server, log) shares. foldM (decode_line shape m (int server)) log shares) (enumerate 0 logs) =
   foldM (\<lambda>(server, line). decode_line shape m (int server) line) (all_lines logs)"
proof -
  have "(\<lambda>(server, log) shares. foldM (decode_line shape m (int server)) log shares) =
      (\<lambda>(server, log). foldM (\<lambda>(server, line). decode_line shape m (int server) line) (map (Pair server) log))"
    by (simp add: fun_eq_iff foldM_map)
  then show ?thesis unfolding all_lines_def foldM_concat by (simp add: foldM_map case_prod_unfold)
qed

text \<open>The dictionary after the lines \<open>L\<close>.\<close>

definition collected :: "int \<Rightarrow> (nat \<times> share_line) list \<Rightarrow> ((int \<times> int) \<times> (int \<times> int) list) list \<Rightarrow> bool" where
  "collected m L shares \<longleftrightarrow>
     list_all line_ok L \<and> distinct (map (\<lambda>x. (line_key x, fst x)) L) \<and> fst ` set shares = line_key ` set L \<and>
     distinct (map fst shares) \<and>
     (\<forall>k. get_or [] shares k = map (line_piece m) (filter (\<lambda>x. line_key x = k) L))"

lemma update_new: "k \<notin> fst ` set al \<Longrightarrow> AList.update k v al = al @ [(k, v)]"
  by (induction al) auto

lemma decode_line_collects:
  assumes inv: "collected m L shares" and step: "decode_line shape m (int server) line shares = Inr shares'"
  shows "collected m (L @ [(server, line)]) shares'"
proof -
  obtain access field claimed v where line: "line = (access, field, claimed, v)" by (metis prod.exhaust)
  let ?k = "(access, field)"
  from step have claimed: "claimed = int server" and fresh: "int server \<notin> fst ` set (get_or [] shares ?k)"
    and shares': "shares' = AList.update ?k (AList.update (int server) (v mod m) (get_or [] shares ?k)) shares"
    by (auto simp: decode_line_def line Let_def split: if_splits)
  from inv have at: "get_or [] shares k = map (line_piece m) (filter (\<lambda>x. line_key x = k) L)" for k
    unfolding collected_def by blast
  have new: "(?k, server) \<notin> (\<lambda>x. (line_key x, fst x)) ` set L"
  proof
    assume "(?k, server) \<in> (\<lambda>x. (line_key x, fst x)) ` set L"
    then obtain x where x: "x \<in> set L" "line_key x = ?k" "fst x = server" by auto
    then have "line_piece m x \<in> set (get_or [] shares ?k)" by (simp add: at)
    moreover have "fst (line_piece m x) = int server" using x(3) by (cases x) (simp add: line_piece_def)
    ultimately show False using fresh by (metis imageI)
  qed
  have app: "AList.update (int server) (v mod m) (get_or [] shares ?k) = get_or [] shares ?k @ [(int server, v mod m)]"
    by (rule update_new [OF fresh])
  have piece: "line_piece m (server, line) = (int server, v mod m)" "line_key (server, line) = ?k" "line_ok (server, line)"
    by (simp_all add: line line_piece_def line_key_def line_ok_def claimed)
  show ?thesis
    using inv new unfolding collected_def shares' app
    by (auto simp: piece dom_update distinct_update at)
qed

lemma decode_loop_collects:
  assumes "foldM (\<lambda>(server, log) shares. foldM (decode_line shape m (int server)) log shares) (enumerate 0 logs) [] = Inr shares"
  shows "collected m (all_lines logs) shares"
proof -
  have "foldM (\<lambda>(server, line). decode_line shape m (int server) line) (all_lines logs) [] = Inr shares"
    using assms by (simp only: decode_loop_flat)
  then show ?thesis
  proof (rule foldM_invariant)
    show "collected m [] []" by (simp add: collected_def)
    fix ys x s s'
    assume "(case x of (server, line) \<Rightarrow> decode_line shape m (int server) line) s = Inr s'" "collected m ys s"
    then show "collected m (ys @ [x]) s'" using decode_line_collects by (cases x) simp
  qed
qed

text \<open>The one value of a key a complete collection holds for a server.\<close>

definition piece_of :: "share_line list list \<Rightarrow> nat \<Rightarrow> int \<times> int \<Rightarrow> int \<Rightarrow> bool" where
  "piece_of logs server key v \<longleftrightarrow>
     server < length logs \<and> (\<exists>!line. line \<in> set (logs ! server) \<and> (fst line, fst (snd line)) = key) \<and>
     (fst key, snd key, int server, v) \<in> set (logs ! server)"

lemma in_all_lines: "(server, line) \<in> set (all_lines logs) \<longleftrightarrow> server < length logs \<and> line \<in> set (logs ! server)"
proof -
  have "set (all_lines logs) = (\<Union>(s, log) \<in> set (enumerate 0 logs). Pair s ` set log)"
    by (auto simp: all_lines_def)
  also have "set (enumerate 0 logs) = (\<lambda>s. (s, logs ! s)) ` {..<length logs}"
    by (auto simp: in_set_enumerate_eq)
  finally show ?thesis by auto
qed

lemma collected_piece:
  assumes inv: "collected m (all_lines logs) shares"
    and mem: "(int server, w) \<in> set (get_or [] shares key)"
  shows "\<exists>v. piece_of logs server key v \<and> w = v mod m"
proof -
  have "get_or [] shares key = map (line_piece m) (filter (\<lambda>x. line_key x = key) (all_lines logs))"
    using inv unfolding collected_def by blast
  with mem obtain x where x: "x \<in> set (all_lines logs)" "line_key x = key" "line_piece m x = (int server, w)" by auto
  obtain s access field claimed v where xs: "x = (s, access, field, claimed, v)" by (metis prod.exhaust)
  from x xs have eq: "s = server" "key = (access, field)" "w = v mod m" by (auto simp: line_piece_def line_key_def)
  have "line_ok x" using inv x(1) by (auto simp: collected_def list_all_iff)
  then have claimed: "claimed = int server" by (simp add: line_ok_def xs eq)
  have here: "server < length logs" "(access, field, claimed, v) \<in> set (logs ! server)"
    using x(1) unfolding xs eq(1) in_all_lines by blast+
  have "line = (access, field, claimed, v)"
    if "line \<in> set (logs ! server)" "(fst line, fst (snd line)) = key" for line
  proof -
    have "(server, line) \<in> set (all_lines logs)" using that(1) here(1) by (simp add: in_all_lines)
    moreover have "line_key (server, line) = key" using that(2) by (cases line) (simp add: line_key_def)
    moreover have "inj_on (\<lambda>x. (line_key x, fst x)) (set (all_lines logs))"
      using inv by (simp add: collected_def distinct_map)
    ultimately have "(server, line) = x" using x(1,2) xs eq(1) by (auto dest: inj_onD)
    then show ?thesis by (simp add: xs)
  qed
  moreover have "(fst (access, field, claimed, v), fst (snd (access, field, claimed, v))) = key" by (simp add: eq)
  ultimately have "\<exists>!line. line \<in> set (logs ! server) \<and> (fst line, fst (snd line)) = key"
    using here(2) by (intro ex1I [of _ "(access, field, claimed, v)"]) blast+
  then have "piece_of logs server key v"
    unfolding piece_of_def using here by (simp only: eq(2) fst_conv snd_conv claimed simp_thms)
  with eq(3) show ?thesis by blast
qed

lemma decode_field_pieces:
  assumes inv: "collected m (all_lines logs) shares"
    and servers: "fst ` set (get_or [] shares (access, field)) = int ` {..<SERVER_COUNT}"
    and run: "decode_field m shares access field = Inr v"
  shows "\<exists>p0 p1 p2. piece_of logs 0 (access, field) p0 \<and> piece_of logs 1 (access, field) p1 \<and>
    piece_of logs 2 (access, field) p2 \<and> v = (p0 + p1 + p2) mod m"
proof -
  let ?pieces = "get_or [] shares (access, field)"
  have one: "\<exists>p. piece_of logs server (access, field) p \<and> get_or 0 ?pieces (int server) = p mod m" if "server < 3" for server
  proof -
    have "int server \<in> fst ` set ?pieces" using that unfolding servers SERVER_COUNT_def by blast
    then have "map_of ?pieces (int server) \<noteq> None" by (simp add: map_of_eq_None_iff)
    then obtain w where w: "map_of ?pieces (int server) = Some w" by blast
    from collected_piece [OF inv map_of_SomeD [OF w]] w show ?thesis by (auto simp: get_or_def)
  qed
  have "[0..<SERVER_COUNT] = [0, 1, 2]" by (simp add: SERVER_COUNT_def upt_rec)
  then have v: "v = (get_or 0 ?pieces 0 + get_or 0 ?pieces 1 + get_or 0 ?pieces 2) mod m"
    using run by (auto simp: decode_field_def reconstruct_def SERVER_COUNT_def add.assoc split: if_splits)
  from one [of 0] one [of 1] one [of 2] obtain p0 p1 p2 where
    "piece_of logs 0 (access, field) p0" "get_or 0 ?pieces 0 = p0 mod m"
    "piece_of logs 1 (access, field) p1" "get_or 0 ?pieces 1 = p1 mod m"
    "piece_of logs 2 (access, field) p2" "get_or 0 ?pieces 2 = p2 mod m" by auto
  moreover have "(p0 mod m + p1 mod m + p2 mod m) mod m = (p0 + p1 + p2) mod m"
    by (simp only: mod_add_right_eq) (metis mod_add_eq mod_add_left_eq)
  ultimately show ?thesis using v by auto
qed

lemma decode_access_fields:
  assumes "decode_access shape m shares access = Inr (found, vals)"
  shows "found \<in> {0, 1}" and "length vals = shape_value_width shape"
    and "found = 0 \<Longrightarrow> v \<in> set vals \<Longrightarrow> v = 0"
    and "f \<le> shape_value_width shape \<Longrightarrow> decode_field m shares access (int f) = Inr ((found # vals) ! f)"
proof -
  from assms have first: "decode_field m shares access 0 = Inr found" and flag: "found \<in> {0, 1}"
    and rest: "traverse (\<lambda>field. decode_field m shares access (int field)) [1..<shape_value_width shape + 1] = Inr vals"
    and zero: "\<not> (found = 0 \<and> list_ex (\<lambda>v. v \<noteq> 0) vals)"
    by (auto simp: decode_access_def res_simps split: if_splits)
  show "found \<in> {0, 1}" by (rule flag)
  show "length vals = shape_value_width shape" using length_traverse [OF rest] by simp
  show "found = 0 \<Longrightarrow> v \<in> set vals \<Longrightarrow> v = 0" using zero by (auto simp: list_ex_iff)
  assume f: "f \<le> shape_value_width shape"
  show "decode_field m shares access (int f) = Inr ((found # vals) ! f)"
  proof (cases f)
    case 0
    with first show ?thesis by simp
  next
    case (Suc n)
    with f have "n < length [1..<shape_value_width shape + 1]" by simp
    from traverse_nth [OF rest this] have "decode_field m shares access (int ([1..<shape_value_width shape + 1] ! n)) = Inr (vals ! n)" .
    moreover have "[1..<shape_value_width shape + 1] ! n = f" using Suc f nth_upt [of 1 n "shape_value_width shape + 1"] by simp
    ultimately show ?thesis using Suc by simp
  qed
qed

section \<open>Properties\<close>

text \<open>
  the public shape of a recursive ORAM is planned without the records.  However two owners'
  records and generators differ, if their tables agree in length and width then the stacks they
  build have one and the same public shape, level by level down to the scanned base, and it is
  the shape the circuit generator plans from those two numbers.
\<close>

theorem planned_shape_is_built_shape:
  assumes "build_owner_oram_stack shape chi threshold vs g = Inr (st, h)"
    and "build_owner_oram_stack shape chi threshold ws g' = Inr (st', h')"
    and "length ws = length vs" and "length (hd ws) = length (hd vs)"
    and "from_stack st max_accesses = Inr s"
  shows "planned_stack shape chi threshold (length (hd vs)) (length vs) max_accesses = Inr s \<and>
    from_stack st' max_accesses = Inr s"
proof -
  have planned: "planned_stack shape chi threshold (length (hd vs)) (length vs) max_accesses = Inr s"
    by (rule planned_stack_built [OF assms(1,5)])
  have st: "stack_chi st = chi" "stack_chi st' = chi" using build_stack_holds assms(1,2) by blast+
  have "length (stack_base st') = length (stack_base st)"
    using planned_levels_built [OF assms(1)] planned_levels_built [OF assms(2)] assms(3,4) by simp
  with assms(5) st obtain s' where "from_stack st' max_accesses = Inr s'"
    by (auto simp: from_stack_def split: if_splits)
  with planned_stack_built [OF assms(2) this] planned assms(3,4) show ?thesis by simp
qed

theorem planned_shape_is_built_shape_witness:
  "\<exists>s. planned_stack sample_shape 2 4 2 7 3 = Inr s \<and> shape_base s = 4"
proof -
  obtain st h where b: "build_owner_oram_stack sample_shape 2 4 sample_records sample_draws = Inr (st, h)"
    and four: "length (stack_base st) = 4"
    by (rule sample_stack_builds)
  have "stack_chi st = 2" using build_stack_holds [OF b] by blast
  with four obtain s where s: "from_stack st 3 = Inr s" "shape_base s = 4"
    by (simp add: from_stack_def)
  have "length (hd sample_records) = 2" "length sample_records = 7" by (simp_all add: sample_records_def)
  with planned_shape_is_built_shape [OF b b refl refl s(1)] s(2) show ?thesis by auto
qed

text \<open>
  what the external client accepts.  Whenever the three output logs decode, every server's
  log holds exactly one line for every access and field of the public shape, every decoded value
  is the sum of those three lines in the field, the found flag is a bit, and a record that was
  not found has a zero payload.
\<close>

theorem decoded_outputs_complete:
  assumes "decode_oram_access_logs logs shape m = Inr results"
  shows "length logs = SERVER_COUNT \<and> length results = nat (shape_accesses shape) \<and>
    (\<forall>a < length results. \<forall>f \<le> shape_value_width shape.
       fst (results ! a) \<in> {0, 1} \<and> length (snd (results ! a)) = shape_value_width shape \<and>
       (\<forall>v \<in> set (snd (results ! a)). fst (results ! a) = 0 \<longrightarrow> v = 0) \<and>
       (\<exists>p0 p1 p2. piece_of logs 0 (int a, int f) p0 \<and> piece_of logs 1 (int a, int f) p1 \<and>
         piece_of logs 2 (int a, int f) p2 \<and>
         (fst (results ! a) # snd (results ! a)) ! f = (p0 + p1 + p2) mod m))"
proof -
  from assms obtain shares where logs: "length logs = SERVER_COUNT"
    and loop: "foldM (\<lambda>(server, log) shares. foldM (decode_line shape m (int server)) log shares) (enumerate 0 logs) [] = Inr shares"
    and keys: "fst ` set shares = set (expected_outputs shape)"
    and full: "list_all (\<lambda>(_, pieces). fst ` set pieces = int ` {..<SERVER_COUNT}) shares"
    and run: "traverse (\<lambda>access. decode_access shape m shares (int access)) [0..<nat (shape_accesses shape)] = Inr results"
    by (auto simp: decode_oram_access_logs_def res_simps split: if_splits)
  note inv = decode_loop_collects [OF loop]
  have len: "length results = nat (shape_accesses shape)" using length_traverse [OF run] by simp
  have one: "decode_access shape m shares (int a) = Inr (fst (results ! a), snd (results ! a))" if "a < length results" for a
    using traverse_nth [OF run, of a] that len by simp
  have servers: "fst ` set (get_or [] shares (int a, int f)) = int ` {..<SERVER_COUNT}"
    if "a < length results" "f \<le> shape_value_width shape" for a f
  proof -
    have "(int a, int f) \<in> fst ` set shares" unfolding keys expected_outputs_def using that len by force
    then obtain pieces where p: "((int a, int f), pieces) \<in> set shares" by auto
    moreover have "distinct (map fst shares)" using inv by (simp add: collected_def)
    ultimately have "get_or [] shares (int a, int f) = pieces" by (rule get_or_in)
    moreover have "(\<lambda>(_, pieces). fst ` set pieces = int ` {..<SERVER_COUNT}) ((int a, int f), pieces)"
      using full p unfolding list_all_iff by blast
    ultimately show ?thesis by simp
  qed
  show ?thesis
    using logs len decode_access_fields [OF one] decode_field_pieces [OF inv servers]
    by (intro conjI allI impI ballI) (blast | simp)+
qed

definition sample_access_shape :: access_shape where
  "sample_access_shape = \<lparr>shape_levels = [], shape_base = 1, shape_chi = 2, shape_value_width = 1, shape_accesses = 1\<rparr>"

definition sample_logs :: "share_line list list" where
  "sample_logs = [[(0, 0, 0, 3), (0, 1, 0, 2)], [(0, 1, 1, 3), (0, 0, 1, 4)], [(0, 0, 2, 1), (0, 1, 2, 4)]]"

lemma sample_logs_decode: "decode_oram_access_logs sample_logs sample_access_shape 7 = Inr [(1, [2])]"
  by code_simp

lemma sample_shape_fields [simp]: "shape_value_width sample_access_shape = 1" "shape_accesses sample_access_shape = 1"
  by (simp_all add: sample_access_shape_def)

theorem decoded_outputs_complete_witness:
  "\<exists>p0 p1 p2. piece_of sample_logs 0 (0, 1) p0 \<and> piece_of sample_logs 1 (0, 1) p1 \<and> piece_of sample_logs 2 (0, 1) p2 \<and>
    2 = (p0 + p1 + p2) mod 7"
proof -
  note all = conjunct2 [OF conjunct2 [OF decoded_outputs_complete [OF sample_logs_decode]], THEN spec, of 0]
  have "0 < length [(1 :: int, [2 :: int])]" by simp
  with all have "\<forall>f \<le> shape_value_width sample_access_shape. \<exists>p0 p1 p2. piece_of sample_logs 0 (0, int f) p0 \<and>
      piece_of sample_logs 1 (0, int f) p1 \<and> piece_of sample_logs 2 (0, int f) p2 \<and> [1, 2] ! f = (p0 + p1 + p2) mod 7"
    by simp
  from this [THEN spec, of 1] show ?thesis by simp
qed

end
