(* ===== verification/Oram_Bounds.thy ===== *)
theory Oram_Bounds
  imports Oram_Access
begin

text \<open>
  The range of the values an owner stack consists of.  Markers, addresses, leaf labels and
  payloads are canonical field elements as soon as the records are and the field is no smaller
  than the number of records, for the shapes \<open>doram_t2_3pc/oram_layout.py\<close> chooses; so the
  sharing of a built stack is never refused.
\<close>

definition in_field :: "int \<Rightarrow> int \<Rightarrow> bool" where
  "in_field p v \<longleftrightarrow> 0 \<le> v \<and> v < p"

lemma write_slot_values:
  assumes "\<forall>column \<in> set columns. \<forall>v \<in> set column. P v" and "\<forall>v \<in> set entry. P v"
  shows "\<forall>column \<in> set (write_slot (slot, entry) columns). \<forall>v \<in> set column. P v"
proof (intro ballI)
  fix column v assume "column \<in> set (write_slot (slot, entry) columns)" and v: "v \<in> set column"
  then obtain old e where "old \<in> set columns" "e \<in> set entry" "column = old[slot := e]"
    by (auto simp: write_slot_def dest: set_zip_leftD set_zip_rightD)
  with v assms subsetD [OF set_update_subset_insert, of v old slot e] show "P v" by auto
qed

lemma fold_write_slot_values:
  assumes "\<forall>column \<in> set columns. \<forall>v \<in> set column. P v" and "\<And>u e. (u, e) \<in> set ws \<Longrightarrow> \<forall>v \<in> set e. P v"
  shows "\<forall>column \<in> set (fold write_slot ws columns). \<forall>v \<in> set column. P v"
  using assms
proof (induction ws arbitrary: columns)
  case (Cons w ws)
  obtain u e where w: "w = (u, e)" by (cases w)
  have "\<forall>column \<in> set (write_slot (u, e) columns). \<forall>v \<in> set column. P v"
    using Cons.prems(1) Cons.prems(2) [of u e] by (intro write_slot_values) (auto simp: w)
  moreover have "\<forall>v \<in> set e'. P v" if "(u', e') \<in> set ws" for u' e'
    using Cons.prems(2) [of u' e'] that by simp
  ultimately show ?case using Cons.IH by (simp add: w)
qed simp

lemma tree_write_values:
  assumes "place_labels attempts (length vs) (2 ^ levels) bucket g = Inr (assignment, h)"
    and "(u, e) \<in> set (tree_writes vs leaves bucket assignment)" and "v \<in> set e"
  shows "v = 0 \<or> (\<exists>a < length vs. v = int a \<or> v \<in> set (vs ! a)) \<or> (\<exists>leaf < 2 ^ levels. v = int leaf)"
proof -
  note placed = place_labels_ok [OF assms(1)]
  from assms(2) obtain leaf indices offset logical where
    g: "(leaf, indices) \<in> set (occupancy assignment)" "(offset, logical) \<in> set (enumerate 0 indices)"
    and e: "e = [0, int logical, int leaf] @ vs ! logical"
    by (auto simp: tree_writes_def)
  from g(2) have "logical \<in> set indices" by (auto simp: in_set_enumerate_eq)
  with occupancy_entry [OF g(1)] have "logical < length assignment" by auto
  moreover have "leaf \<in> set assignment" using imageI [OF g(1), of fst] occupancy_leaves by auto
  ultimately show ?thesis using placed assms(3) e by auto
qed

lemma build_tree_values:
  assumes t: "build_owner_oram_tree shape attempts vs g = Inr (t, h)"
    and P: "P 0" "P 1" "\<And>a. a < length vs \<Longrightarrow> P (int a)" "\<And>r v. r \<in> set vs \<Longrightarrow> v \<in> set r \<Longrightarrow> P v"
    and leaf: "\<And>bucket levels l. shape (length vs) = Inr (bucket, levels) \<Longrightarrow> l < 2 ^ levels \<Longrightarrow> P (int l)"
  shows "\<forall>column \<in> set (tree_fields t). \<forall>v \<in> set column. P v" and "\<forall>v \<in> set (position_map t). P v"
proof -
  from t obtain bucket levels assignment where s: "shape (length vs) = Inr (bucket, levels)"
    and pl: "place_labels attempts (length vs) (2 ^ levels) bucket g = Inr (assignment, h)"
    and f: "tree_fields t = fold write_slot (tree_writes vs (2 ^ levels) bucket assignment)
        (replicate (2 ^ (levels + 1) * bucket) 1 # replicate (2 + length (hd vs)) (replicate (2 ^ (levels + 1) * bucket) 0))"
    and p: "position_map t = map int assignment"
    by (auto simp: build_owner_oram_tree_def res_simps Let_def split: if_splits)
  show "\<forall>column \<in> set (tree_fields t). \<forall>v \<in> set column. P v"
    unfolding f
  proof (rule fold_write_slot_values)
    show "\<forall>v \<in> set e. P v" if "(u, e) \<in> set (tree_writes vs (2 ^ levels) bucket assignment)" for u e
      using tree_write_values [OF pl that] P leaf [OF s] by (metis nth_mem)
  qed (use P(1,2) in auto)
  show "\<forall>v \<in> set (position_map t). P v"
    using place_labels_ok [OF pl] leaf [OF s] by (auto simp: p)
qed

lemma pack_labels_values: "r \<in> set (pack_labels chi labels) \<Longrightarrow> v \<in> set r \<Longrightarrow> v = 0 \<or> v \<in> set labels"
  by (auto simp: pack_labels_def dest!: in_set_takeD in_set_dropD)

definition shape_fits :: "(nat \<Rightarrow> (nat \<times> nat) res) \<Rightarrow> int \<Rightarrow> nat \<Rightarrow> bool" where
  "shape_fits shape p n \<longleftrightarrow> (\<forall>m bucket levels. m \<le> n \<longrightarrow> shape m = Inr (bucket, levels) \<longrightarrow> 2 ^ levels \<le> p)"

lemma build_stack_values:
  assumes "build_owner_oram_stack shape chi threshold vs g = Inr (st, h)"
    and "1 < p" and "int (length vs) \<le> p" and "\<And>r v. r \<in> set vs \<Longrightarrow> v \<in> set r \<Longrightarrow> in_field p v"
    and "shape_fits shape p (length vs)"
  shows "(\<forall>t \<in> set (stack_levels st). \<forall>column \<in> set (tree_fields t). \<forall>v \<in> set column. in_field p v) \<and>
    (\<forall>v \<in> set (stack_base st). in_field p v)"
  using assms
proof (induction shape chi threshold vs g arbitrary: st h rule: build_owner_oram_stack.induct)
  case (1 shape chi threshold vs g)
  from "1.prems"(1) obtain t g' where chi: "\<not> chi < 2" "\<not> threshold < 2"
    and t: "build_owner_oram_tree shape 64 vs g = Inr (t, g')"
    by (subst (asm) build_owner_oram_stack.simps) (auto simp: res_simps split: if_splits)
  have "in_field p (int l)" if "shape (length vs) = Inr (bucket, levels)" "l < 2 ^ levels" for bucket levels l
  proof -
    have "(2 :: int) ^ levels \<le> p" using "1.prems"(5) that(1) unfolding shape_fits_def by blast
    moreover have "int l < int (2 ^ levels)" using that(2) by (simp only: of_nat_less_iff)
    moreover have "int (2 ^ levels) = (2 :: int) ^ levels" by simp
    ultimately show ?thesis unfolding in_field_def by linarith
  qed
  note here = build_tree_values [where P = "in_field p", OF t _ _ _ "1.prems"(4) this]
  have fields: "\<forall>column \<in> set (tree_fields t). \<forall>v \<in> set column. in_field p v"
    and labels: "\<forall>v \<in> set (position_map t). in_field p v"
    using here "1.prems"(2,3) by (auto simp: in_field_def)
  note size = build_tree_size [OF t]
  show ?case
  proof (cases "length (position_map t) \<le> threshold \<or> length (position_map t) \<le> chi")
    case True
    with "1.prems"(1) chi t have "st = \<lparr>stack_levels = [t], stack_base = position_map t, stack_chi = chi\<rparr>"
      by (subst (asm) build_owner_oram_stack.simps) (simp add: Let_def)
    with fields labels show ?thesis by simp
  next
    case False
    with "1.prems"(1) chi t obtain st' where
      rec: "build_owner_oram_stack shape chi threshold (pack_labels chi (position_map t)) g' = Inr (st', h)"
      and st: "st = st'\<lparr>stack_levels := t # stack_levels st'\<rparr>"
      by (subst (asm) build_owner_oram_stack.simps) (auto simp: Let_def res_simps)
    have less: "ceil_div (length vs) chi < length vs" using chi size by (simp add: ceil_div_less)
    then have small: "length (pack_labels chi (position_map t)) \<le> length vs" using size by simp
    then have fits: "shape_fits shape p (length (pack_labels chi (position_map t)))"
      using "1.prems"(5) unfolding shape_fits_def by (meson order.trans)
    have packed: "in_field p v" if "r \<in> set (pack_labels chi (position_map t))" "v \<in> set r" for r v
      using pack_labels_values [OF that] labels "1.prems"(2) by (auto simp: in_field_def)
    have "int (length (pack_labels chi (position_map t))) \<le> p" using small "1.prems"(3) by linarith
    from "1.IH" [OF chi t refl refl False rec "1.prems"(2) this packed fits]
    have "(\<forall>t \<in> set (stack_levels st'). \<forall>column \<in> set (tree_fields t). \<forall>v \<in> set column. in_field p v) \<and>
        (\<forall>v \<in> set (stack_base st'). in_field p v)" .
    with fields show ?thesis by (simp add: st)
  qed
qed

lemma flatten_values:
  assumes "\<forall>t \<in> set (stack_levels st). \<forall>column \<in> set (tree_fields t). \<forall>v \<in> set column. P v"
    and "\<forall>v \<in> set (stack_base st). P v"
    and "\<forall>t \<in> set (stack_levels st). \<forall>column \<in> set (tree_fields t). length column = tree_slots t"
  shows "\<forall>v \<in> set (flatten_owner_stack st). P v" and "\<forall>v \<in> set (flatten_stack_physical st). P v"
proof -
  show "\<forall>v \<in> set (flatten_owner_stack st). P v"
    using assms(1,2) by (auto simp: flatten_owner_stack_def flat_values_def)
  show "\<forall>v \<in> set (flatten_stack_physical st). P v"
    using assms by (fastforce simp: flatten_stack_physical_def tree_entry_def)
qed

lemma built_columns:
  assumes "stack_holds vs st" and "t \<in> set (stack_levels st)" and "column \<in> set (tree_fields t)"
  shows "length column = tree_slots t"
proof -
  from assms(2) obtain level where "level < length (stack_levels st)" "t = stack_levels st ! level"
    by (auto simp: in_set_conv_nth)
  with assms(1) have "tree_holds (level_records vs st level) t" by (simp add: stack_holds_def)
  with assms(3) show ?thesis by (simp add: tree_holds_def)
qed

lemma stack_canonical:
  assumes "build_owner_oram_stack shape chi threshold vs g = Inr (st, h)" and "1 < p" and "int (length vs) \<le> p"
    and "\<And>r v. r \<in> set vs \<Longrightarrow> v \<in> set r \<Longrightarrow> in_field p v" and "shape_fits shape p (length vs)"
  shows "\<forall>v \<in> set (flatten_owner_stack st). in_field p v" and "\<forall>v \<in> set (flatten_stack_physical st). in_field p v"
proof -
  have columns: "\<forall>t \<in> set (stack_levels st). \<forall>column \<in> set (tree_fields t). length column = tree_slots t"
    using built_columns [OF conjunct1 [OF build_stack_holds [OF assms(1)]]] by blast
  have "(\<forall>t \<in> set (stack_levels st). \<forall>column \<in> set (tree_fields t). \<forall>v \<in> set column. in_field p v) \<and>
      (\<forall>v \<in> set (stack_base st). in_field p v)"
    by (rule build_stack_values [OF assms(1-3) assms(4) assms(5)])
  then show "\<forall>v \<in> set (flatten_owner_stack st). in_field p v" and "\<forall>v \<in> set (flatten_stack_physical st). in_field p v"
    using flatten_values [OF _ _ columns, of "in_field p"] by blast+
qed

section \<open>The shapes of the source\<close>

lemma tree_shape_levels:
  assumes "tree_shape n = Inr (bucket, levels)"
  shows "2 ^ levels \<le> n"
proof -
  let ?k = "(log 2 (real n * real n * log 2 (real n) * 100) + 21) / 4"
  from assms have n: "2 \<le> n" and levels: "levels = nat \<lfloor>log 2 (max (real n / ?k) 2)\<rfloor>"
    by (auto simp: tree_shape_def Let_def split: if_splits)
  have "1 \<le> log 2 (real n)" using n by simp
  moreover have "1 \<le> real n * real n" using n mult_mono [of 1 "real n" 1 "real n"] by simp
  ultimately have "1 \<le> real n * real n * log 2 (real n)" using mult_mono [of 1 "real n * real n" 1 "log 2 (real n)"] by simp
  then have "0 \<le> log 2 (real n * real n * log 2 (real n) * 100)" by (subst zero_le_log_cancel_iff) auto
  then have "1 \<le> ?k" by simp
  then have "real n / ?k \<le> real n" using n by (simp add: divide_le_eq_1 mult_le_cancel_left1 pos_divide_le_eq)
  then have small: "max (real n / ?k) 2 \<le> real n" using n by simp
  have pos: "0 < max (real n / ?k) 2" by simp
  have "0 \<le> log 2 (max (real n / ?k) 2)" by (subst zero_le_log_cancel_iff) auto
  then have "real levels \<le> log 2 (max (real n / ?k) 2)" unfolding levels by linarith
  then have "2 powr real levels \<le> max (real n / ?k) 2" using pos by (subst (asm) le_log_iff) auto
  moreover have "2 powr real levels = (2 :: real) ^ levels" by (simp add: powr_realpow)
  ultimately have "real (2 ^ levels) \<le> real n" using small by (metis of_nat_numeral of_nat_power order.trans)
  then show ?thesis by (simp only: of_nat_le_iff)
qed

lemma owner_shape_levels: "owner_shape bits n = Inr (bucket, levels) \<Longrightarrow> 2 ^ levels \<le> n"
  using tree_shape_levels
  by (auto simp: owner_shape_def secure_tree_shape_def res_simps split: option.splits if_splits)

lemma owner_shape_fits: "int n \<le> p \<Longrightarrow> shape_fits (owner_shape bits) p n"
  unfolding shape_fits_def
proof (intro allI impI)
  fix m bucket levels assume "int n \<le> p" "m \<le> n" "owner_shape bits m = Inr (bucket, levels)"
  from owner_shape_levels [OF this(3)] this(1,2) show "2 ^ levels \<le> p"
    by (metis (mono_tags, lifting) of_nat_le_iff of_nat_numeral of_nat_power order.trans)
qed

lemma share_vector_in_field:
  assumes "\<forall>v \<in> set vs. in_field p v"
  shows "\<exists>sv g'. share_vector p vs g = Inr (sv, g')"
proof -
  have "list_all (\<lambda>v. 0 \<le> v \<and> v < p) vs" using assms by (simp add: list_all_iff in_field_def)
  from share_vector_total [OF this, of g] show ?thesis by metis
qed

text \<open>
  no value of a built stack leaves the field.  For the shapes the source computes, with or
  without the statistical security margin, a stack over canonical records whose number does not
  exceed the modulus flattens, in both orders, to canonical field elements of the number the
  cost model states; so sharing it is never refused.
\<close>

theorem stack_fits_field:
  assumes "build_owner_oram_stack (owner_shape bits) chi threshold vs g = Inr (st, h)" and "1 < p"
    and "int (length vs) \<le> p" and "\<And>r v. r \<in> set vs \<Longrightarrow> v \<in> set r \<Longrightarrow> 0 \<le> v \<and> v < p"
  shows "(\<forall>v \<in> set (flatten_owner_stack st) \<union> set (flatten_stack_physical st). 0 \<le> v \<and> v < p) \<and>
    length (flatten_owner_stack st) = stack_shared_values st \<and>
    length (flatten_stack_physical st) = stack_shared_values st \<and>
    is_ok (share_vector p (flatten_owner_stack st) g') \<and> is_ok (share_vector p (flatten_stack_physical st) g')"
proof -
  have "shape_fits (owner_shape bits) p (length vs)" using assms(3) by (rule owner_shape_fits)
  with stack_canonical [OF assms(1-3)] assms(4)
  have v: "\<forall>v \<in> set (flatten_owner_stack st). in_field p v" "\<forall>v \<in> set (flatten_stack_physical st). in_field p v"
    by (auto simp: in_field_def)
  then have "is_ok (share_vector p (flatten_owner_stack st) g')" "is_ok (share_vector p (flatten_stack_physical st) g')"
    using share_vector_in_field by (fastforce simp: is_ok_iff)+
  with v length_flatten [OF conjunct1 [OF build_stack_holds [OF assms(1)]]] show ?thesis
    by (simp add: in_field_def ball_Un)
qed

text \<open>Up to ten records the source's shape is one binary split with buckets that hold everything.\<close>

lemma tree_shape_small:
  assumes "2 \<le> n" and "n \<le> 10"
  shows "tree_shape n = Inr (n + 1, 1)"
proof -
  let ?k = "(log 2 (real n * real n * log 2 (real n) * 100) + 21) / (1 + 3)"
  have "1 \<le> log 2 (real n)" using assms(1) by simp
  moreover have "1 \<le> real n * real n" using assms(1) mult_mono [of 1 "real n" 1 "real n"] by simp
  ultimately have "1 \<le> real n * real n * log 2 (real n)" using mult_mono [of 1 "real n * real n" 1 "log 2 (real n)"] by simp
  then have "0 \<le> log 2 (real n * real n * log 2 (real n) * 100)" by (subst zero_le_log_cancel_iff) auto
  then have k: "5 < ?k" by simp
  then have "real n / ?k \<le> 2" using assms(2) by (subst pos_divide_le_eq) auto
  then have "max (real n / ?k) 2 = 2" by linarith
  then have levels: "nat \<lfloor>log 2 (max (real n / ?k) 2)\<rfloor> = 1" by (simp only:) simp
  have "20 < (1 + 3) * ?k" using k by simp
  then have "20 < \<lceil>(1 + 3) * ?k\<rceil>" by linarith
  then have bucket: "min (nat \<lceil>(1 + 3) * ?k\<rceil>) (n + 1) = n + 1" using assms(2) by linarith
  show ?thesis unfolding tree_shape_def Let_def levels bucket using assms(1) by simp
qed

lemma build_tree_roomy:
  assumes "well_formed_records vs" and "shape (length vs) = Inr (bucket, levels)" and "length vs \<le> bucket"
  shows "\<exists>t h. build_owner_oram_tree shape 64 vs g = Inr (t, h)"
  using assms by (auto simp: build_owner_oram_tree_def well_formed_records_def place_labels_all list_all_iff Let_def
      split: prod.splits)

theorem stack_fits_field_witness:
  "\<exists>st h. build_owner_oram_stack (owner_shape None) 2 4 [[7], [8]] (\<lambda>_. 1) = Inr (st, h) \<and>
     (\<forall>v \<in> set (flatten_owner_stack st). 0 \<le> v \<and> v < 11) \<and>
     is_ok (share_vector 11 (flatten_stack_physical st) (\<lambda>_. 3))"
proof -
  have "\<exists>t h. build_owner_oram_tree (owner_shape None) 64 [[7], [8]] (\<lambda>_. 1) = Inr (t, h)"
    by (rule build_tree_roomy [where bucket = 3 and levels = 1])
      (simp_all add: well_formed_records_def owner_shape_def tree_shape_small)
  then obtain t h where t: "build_owner_oram_tree (owner_shape None) 64 [[7], [8]] (\<lambda>_. 1) = Inr (t, h)" by blast
  have "length (position_map t) = 2" using build_tree_size [OF t] by simp
  then have st: "build_owner_oram_stack (owner_shape None) 2 4 [[7], [8]] (\<lambda>_. 1) =
      Inr (\<lparr>stack_levels = [t], stack_base = position_map t, stack_chi = 2\<rparr>, h)"
    by (subst build_owner_oram_stack.simps) (simp only: t bindr_Inr prod.case Let_def, simp)
  have "0 \<le> v \<and> v < (11 :: int)" if "r \<in> set [[7], [8]]" "v \<in> set r" for r v using that by auto
  from stack_fits_field [where p = 11 and g' = "\<lambda>_. 3", OF st _ _ this]
  have "(\<forall>v \<in> set (flatten_owner_stack \<lparr>stack_levels = [t], stack_base = position_map t, stack_chi = 2\<rparr>). 0 \<le> v \<and> v < 11) \<and>
     is_ok (share_vector 11 (flatten_stack_physical \<lparr>stack_levels = [t], stack_base = position_map t, stack_chi = 2\<rparr>) (\<lambda>_. 3))"
    by simp
  with st show ?thesis by blast
qed

end
