(* ===== verification/Oram_Placement.thy ===== *)
theory Oram_Placement
  imports Oram_Bounds
begin

text \<open>
  When the construction of a recursive ORAM returns (\<open>doram_t2_3pc/oram_layout.py\<close>): an attempt
  to place a table draws one label per record, and the first attempt that no leaf bucket
  overflows ends the loop.  The buckets of the shape formula have room for twice the table, so
  some draws place every table, and up to 41 records every draw does; 42 records are where the
  bucket growth for a security parameter leaves the domain of the logarithm.
\<close>

section \<open>Labels that fit\<close>

definition labels_fit :: "nat \<Rightarrow> nat list \<Rightarrow> bool" where
  "labels_fit bucket labels \<longleftrightarrow> (\<forall>leaf. length (filter (\<lambda>a. labels ! a = leaf) [0..<length labels]) \<le> bucket)"

lemma place_labels_first:
  assumes "labels_fit bucket (fst (draws n leaves g))" and "0 < attempts"
  shows "place_labels attempts n leaves bucket g = Inr (draws n leaves g)"
proof -
  obtain k where k: "attempts = Suc k" using assms(2) by (cases attempts) simp_all
  obtain xs h where d: "draws n leaves g = (xs, h)" by (cases "draws n leaves g")
  have "length indices \<le> bucket" if "(leaf, indices) \<in> set (occupancy xs)" for leaf indices
    using occupancy_entry [OF that] assms(1) by (simp add: d labels_fit_def)
  then show ?thesis by (auto simp: k d list_all_iff)
qed

lemma build_tree_first:
  assumes "well_formed_records vs" and "shape (length vs) = Inr (bucket, levels)"
    and "labels_fit bucket (fst (draws (length vs) (2 ^ levels) g))"
  shows "\<exists>t. build_owner_oram_tree shape 64 vs g = Inr (t, \<lambda>i. g (i + length vs)) \<and> tree_size t = length vs"
  using assms place_labels_first [OF assms(3), of 64]
  by (auto simp: build_owner_oram_tree_def well_formed_records_def list_all_iff Let_def draws_stream)

text \<open>Every level of a stack at its first attempt.\<close>

lemma build_stack_first:
  assumes "well_formed_records vs" and "2 \<le> chi" and "2 \<le> threshold"
    and "\<And>n c. 2 \<le> n \<Longrightarrow> n \<le> length vs \<Longrightarrow>
      \<exists>bucket levels. shape n = Inr (bucket, levels) \<and> labels_fit bucket (fst (draws n (2 ^ levels) (\<lambda>i. g (i + c))))"
  shows "\<exists>st. build_owner_oram_stack shape chi threshold vs (\<lambda>i. g (i + c)) =
    Inr (st, \<lambda>i. g (i + (sum_list (map tree_size (stack_levels st)) + c)))"
proof -
  have "h = (\<lambda>i. g (i + c)) \<longrightarrow> (\<exists>st. build_owner_oram_stack shape chi threshold vs h =
      Inr (st, \<lambda>i. g (i + (sum_list (map tree_size (stack_levels st)) + c))))" for h
    using assms
  proof (induction shape chi threshold vs h arbitrary: c rule: build_owner_oram_stack.induct)
    case (1 shape chi threshold vs h)
    show ?case
    proof
      assume h: "h = (\<lambda>i. g (i + c))"
      have "2 \<le> length vs" using "1.prems"(1) by (simp add: well_formed_records_def)
      from "1.prems"(4) [OF this order_refl, of c] obtain bucket levels where
        shape: "shape (length vs) = Inr (bucket, levels)"
        and fit: "labels_fit bucket (fst (draws (length vs) (2 ^ levels) (\<lambda>i. g (i + c))))" by blast
      from build_tree_first [where g = "\<lambda>i. g (i + c)" and shape = shape and vs = vs and bucket = bucket and levels = levels, OF "1.prems"(1) shape fit] obtain t where
        t: "build_owner_oram_tree shape 64 vs h = Inr (t, \<lambda>i. g (i + (length vs + c)))"
        and size: "tree_size t = length vs" by (auto simp: h add.assoc)
      have chi: "\<not> chi < 2" "\<not> threshold < 2" using "1.prems" by simp_all
      note len = build_tree_size [OF t]
      show "\<exists>st. build_owner_oram_stack shape chi threshold vs h =
          Inr (st, \<lambda>i. g (i + (sum_list (map tree_size (stack_levels st)) + c)))"
      proof (cases "length (position_map t) \<le> threshold \<or> length (position_map t) \<le> chi")
        case True
        with chi t size show ?thesis by (subst build_owner_oram_stack.simps) (simp add: Let_def)
      next
        case False
        let ?vs = "pack_labels chi (position_map t)"
        have wf: "well_formed_records ?vs"
          using False "1.prems"(2) by (intro pack_labels_well_formed) simp_all
        have "ceil_div (length vs) chi < length vs" using "1.prems"(2) len by (intro ceil_div_less) simp_all
        then have "length ?vs \<le> length vs" using len by simp
        then have fits: "\<exists>bucket levels. shape n = Inr (bucket, levels) \<and>
            labels_fit bucket (fst (draws n (2 ^ levels) (\<lambda>i. g (i + c))))" if "2 \<le> n" "n \<le> length ?vs" for n c
          using "1.prems"(4) [of n c] that by simp
        from "1.IH" [OF chi t refl refl False, of "length vs + c"] wf "1.prems"(2,3) fits
        obtain st where "build_owner_oram_stack shape chi threshold ?vs (\<lambda>i. g (i + (length vs + c))) =
            Inr (st, \<lambda>i. g (i + (sum_list (map tree_size (stack_levels st)) + (length vs + c))))" by blast
        with False chi t size show ?thesis
          by (subst build_owner_oram_stack.simps) (auto simp: Let_def ac_simps)
      qed
    qed
  qed
  then show ?thesis by blast
qed

text \<open>Labels counted up around the leaves fill the buckets evenly.\<close>

lemma residue_window:
  assumes "0 < (leaves :: nat)"
  shows "length (filter (\<lambda>a. (a + c) mod leaves = leaf) [b..<b + leaves]) \<le> 1"
proof -
  let ?xs = "filter (\<lambda>a. (a + c) mod leaves = leaf) [b..<b + leaves]"
  have eq: "x = y" if "x \<le> y" "y < x + leaves" "(x + c) mod leaves = (y + c) mod leaves" for x y
  proof -
    have "x + c \<le> y + c" using that(1) by simp
    with that(3) have "leaves dvd (y + c) - (x + c)" by (metis mod_eq_dvd_iff_nat)
    then have "leaves dvd y - x" by simp
    moreover have "y - x < leaves" using that(1,2) by linarith
    ultimately have "y - x = 0" by (metis dvd_imp_le linorder_not_less neq0_conv)
    with that(1) show ?thesis by simp
  qed
  have "x = y" if "x \<in> set ?xs" "y \<in> set ?xs" for x y
  proof (cases "x \<le> y")
    case True
    have "y < x + leaves" "(x + c) mod leaves = (y + c) mod leaves" using that by auto
    with True show ?thesis by (rule eq)
  next
    case False
    have "x < y + leaves" "(y + c) mod leaves = (x + c) mod leaves" using that by auto
    moreover have "y \<le> x" using False by simp
    ultimately have "y = x" by (rule eq [rotated])
    then show ?thesis by simp
  qed
  then have "card (set ?xs) \<le> Suc 0" using card_le_Suc0_iff_eq [of "set ?xs"] by blast
  moreover have "card (set ?xs) = length ?xs" by (rule distinct_card) simp
  ultimately show ?thesis by linarith
qed

lemma round_robin_fits:
  assumes "n \<le> bucket * leaves" and "0 < leaves"
  shows "labels_fit bucket (fst (draws n leaves (\<lambda>i. i + c)))"
proof -
  have count: "length (filter (\<lambda>a. (a + c) mod leaves = leaf) [0..<b * leaves]) \<le> b" for b leaf
  proof (induction b)
    case (Suc b)
    have "[0..<Suc b * leaves] = [0..<b * leaves] @ [b * leaves..<b * leaves + leaves]"
      using upt_add_eq_append [of 0 "b * leaves" leaves] by (simp add: add.commute)
    then show ?case using Suc residue_window [OF assms(2), of c leaf "b * leaves"]
      by (simp only: filter_append length_append)
  qed simp
  have "length (filter (\<lambda>a. (a + c) mod leaves = leaf) [0..<n]) \<le> bucket" for leaf
  proof -
    have "[0..<bucket * leaves] = [0..<n] @ [n..<bucket * leaves]"
      using upt_add_eq_append [of 0 n "bucket * leaves - n"] assms(1) by simp
    then have "length (filter (\<lambda>a. (a + c) mod leaves = leaf) [0..<n]) \<le>
        length (filter (\<lambda>a. (a + c) mod leaves = leaf) [0..<bucket * leaves])" by simp
    with count [of leaf bucket] show ?thesis by simp
  qed
  moreover have "filter (\<lambda>a. map (\<lambda>i. (i + c) mod leaves) [0..<n] ! a = leaf) [0..<n] =
      filter (\<lambda>a. (a + c) mod leaves = leaf) [0..<n]" for leaf
    by (rule filter_cong) simp_all
  ultimately show ?thesis by (simp add: labels_fit_def draws_stream)
qed

lemma all_labels_fit: "n \<le> bucket \<Longrightarrow> labels_fit bucket (fst (draws n leaves g))"
  unfolding labels_fit_def using length_filter_le [of _ "[0..<n]"]
  by (simp add: draws_stream) (meson le_trans length_filter_le length_upt diff_le_self)

section \<open>The shape formula\<close>

lemma shape_product:
  assumes "2 \<le> n"
  shows "100 \<le> real n * real n * log 2 (real n) * 100"
proof -
  have "1 \<le> log 2 (real n)" using assms by simp
  moreover have "1 \<le> real n * real n" using assms mult_mono [of 1 "real n" 1 "real n"] by simp
  ultimately show ?thesis using mult_mono [of 1 "real n * real n" 1 "log 2 (real n)"] by simp
qed

definition shape_k :: "nat \<Rightarrow> real" where
  "shape_k n = (log 2 (real n * real n * log 2 (real n) * 100) + 21) / (1 + 3)"

lemma tree_shape_eq:
  assumes "2 \<le> n"
  shows "tree_shape n = Inr (min (nat \<lceil>(1 + 3) * shape_k n\<rceil>) (n + 1), nat \<lfloor>log 2 (max (real n / shape_k n) 2)\<rfloor>)"
  using assms unfolding tree_shape_def Let_def shape_k_def by (simp only: not_less if_P if_not_P if_False)

lemma tree_shape_room:
  assumes "tree_shape n = Inr (bucket, levels)"
  shows "n \<le> bucket * 2 ^ levels"
proof -
  let ?k = "shape_k n"
  from assms have n: "2 \<le> n" by (auto simp: tree_shape_def split: if_splits)
  from assms have bucket: "bucket = min (nat \<lceil>4 * ?k\<rceil>) (n + 1)"
    and levels: "levels = nat \<lfloor>log 2 (max (real n / ?k) 2)\<rfloor>"
    by (simp_all add: tree_shape_eq [OF n])
  have "0 \<le> log 2 (real n * real n * log 2 (real n) * 100)"
    using shape_product [OF n] by (subst zero_le_log_cancel_iff) auto
  then have k: "5 < ?k" by (simp add: shape_k_def)
  show ?thesis
  proof (cases "bucket = n + 1")
    case True
    have "n * 1 \<le> (n + 1) * 2 ^ levels" by (rule mult_le_mono) simp_all
    with True show ?thesis by simp
  next
    case False
    with bucket have b: "bucket = nat \<lceil>4 * ?k\<rceil>" by (simp add: min_def split: if_splits)
    have "0 < max (real n / ?k) 2" by simp
    have "log 2 (max (real n / ?k) 2) < real levels + 1" unfolding levels by linarith
    then have "max (real n / ?k) 2 < 2 powr (real levels + 1)"
      using \<open>0 < max (real n / ?k) 2\<close> by (subst (asm) log_less_iff) auto
    then have "real n / ?k < 2 * 2 ^ levels" by (simp add: powr_add powr_realpow)
    then have "real n < 2 * 2 ^ levels * ?k" using k by (simp add: pos_divide_less_eq)
    also have "\<dots> \<le> 4 * ?k * 2 ^ levels" using k by simp
    also have "\<dots> \<le> real bucket * 2 ^ levels" unfolding b by (intro mult_right_mono real_nat_ceiling_ge) simp
    finally have "real n \<le> real (bucket * 2 ^ levels)" by simp
    then show ?thesis by (simp only: of_nat_le_iff)
  qed
qed

lemma tree_shape_roomy:
  assumes "tree_shape n = Inr (bucket, levels)" and "n \<le> 41"
  shows "n \<le> bucket"
proof -
  let ?x = "real n * real n * log 2 (real n) * 100"
  from assms have n: "2 \<le> n" by (auto simp: tree_shape_def split: if_splits)
  with assms have bucket: "bucket = min (nat \<lceil>4 * shape_k n\<rceil>) (n + 1)" by (simp add: tree_shape_eq)
  note x = shape_product [OF n]
  have "real n - 1 < log 2 ?x + 21"
  proof (cases "n \<le> 22")
    case True
    have "0 < log 2 ?x" using x by (subst zero_less_log_cancel_iff) auto
    with True show ?thesis by simp
  next
    case False
    have "16 \<le> real n" using False by simp
    then have "log 2 (2 ^ 4) \<le> log 2 (real n)" by (subst log_le_cancel_iff) auto
    moreover have "log 2 (2 ^ 4) = (4 :: real)" by (subst log_nat_power) simp_all
    ultimately have four: "4 \<le> log 2 (real n)" by linarith
    have "2 ^ (n - 22) < n * n * 4 * 100"
    proof (cases "n \<le> 38")
      case True
      have "(2::nat) ^ (n - 22) \<le> 2 ^ 16" using True by (intro power_increasing) simp_all
      moreover have "23 * 23 \<le> n * n" using False by (intro mult_le_mono) simp_all
      ultimately show ?thesis by simp
    next
      case large: False
      have "(2::nat) ^ (n - 22) \<le> 2 ^ 19" using assms(2) by (intro power_increasing) simp_all
      moreover have "39 * 39 \<le> n * n" using large by (intro mult_le_mono) simp_all
      ultimately show ?thesis by simp
    qed
    then have "real (2 ^ (n - 22)) < real (n * n * 4 * 100)" by (simp only: of_nat_less_iff)
    also have "\<dots> \<le> ?x" using four mult_left_mono [OF four, of "real n * real n"] by simp
    finally have "(2::real) ^ (n - 22) < ?x" by simp
    then have "2 powr real (n - 22) < ?x" by (simp add: powr_realpow)
    then have "real (n - 22) < log 2 ?x" using x by (subst less_log_iff) auto
    then show ?thesis using False by (simp add: of_nat_diff)
  qed
  also have "log 2 ?x + 21 = 4 * shape_k n" by (simp add: shape_k_def)
  finally have "int n \<le> \<lceil>4 * shape_k n\<rceil>" by linarith
  then show ?thesis unfolding bucket by linarith
qed

section \<open>When a construction fails\<close>

definition placement_error :: exn where
  "placement_error = ValueError ''could not place entries into leaf buckets''"

lemma place_labels_error: "place_labels attempts n leaves bucket g = Inl e \<Longrightarrow> e = placement_error"
  by (induction attempts arbitrary: g) (auto simp: placement_error_def Let_def split: if_splits prod.splits)

lemma build_tree_error:
  assumes "build_owner_oram_tree shape 64 vs g = Inl e" and "well_formed_records vs" and "is_ok (shape (length vs))"
  shows "e = placement_error"
proof -
  from assms(2) have guards: "\<not> length vs < 2" "\<not> length (hd vs) < 1" "hd vs \<noteq> []" "list_all (\<lambda>v. length v = length (hd vs)) vs"
    by (auto simp: well_formed_records_def list_all_iff)
  from assms(3) obtain bucket levels where "shape (length vs) = Inr (bucket, levels)" by (auto simp: is_ok_iff)
  with assms(1) guards have "place_labels 64 (length vs) (2 ^ levels) bucket g = Inl e"
    by (auto simp: build_owner_oram_tree_def Let_def bindr_eq_Inl simp del: place_labels.simps)
  then show ?thesis by (rule place_labels_error)
qed

lemma build_stack_error:
  assumes "build_owner_oram_stack shape chi threshold vs g = Inl e" and "well_formed_records vs"
    and "2 \<le> chi" and "2 \<le> threshold" and "\<And>n. 2 \<le> n \<Longrightarrow> is_ok (shape n)"
  shows "e = placement_error"
  using assms
proof (induction shape chi threshold vs g rule: build_owner_oram_stack.induct)
  case (1 shape chi threshold vs g)
  have chi: "\<not> chi < 2" "\<not> threshold < 2" using "1.prems" by simp_all
  have shape: "is_ok (shape (length vs))" using "1.prems"(2,5) by (simp add: well_formed_records_def)
  show ?case
  proof (cases "build_owner_oram_tree shape 64 vs g")
    case (Inl e')
    with "1.prems"(1) chi have "e = e'" by (subst (asm) build_owner_oram_stack.simps) simp
    with build_tree_error [OF Inl "1.prems"(2) shape] show ?thesis by simp
  next
    case (Inr r)
    obtain t h where t: "build_owner_oram_tree shape 64 vs g = Inr (t, h)" using Inr by (cases r) simp
    have big: "\<not> (length (position_map t) \<le> threshold \<or> length (position_map t) \<le> chi)"
      using "1.prems"(1) chi t by (subst (asm) build_owner_oram_stack.simps) (auto simp: Let_def)
    then have rec: "build_owner_oram_stack shape chi threshold (pack_labels chi (position_map t)) h = Inl e"
      using "1.prems"(1) chi t by (subst (asm) build_owner_oram_stack.simps) (auto simp: Let_def bindr_eq_Inl)
    have "well_formed_records (pack_labels chi (position_map t))"
      using big "1.prems"(3) by (intro pack_labels_well_formed) simp_all
    from "1.IH" [OF chi t refl refl big rec this "1.prems"(3-5)] show ?thesis .
  qed
qed

section \<open>Properties\<close>

text \<open>
  C22: the construction of a recursive ORAM with the shape formula of the source, for every
  well-formed table of at least two records and every legal packing factor and base threshold.
  The generator whose labels count around the leaves places every level at the first attempt,
  so that exactly one draw per stored record is used; tables of up to 41 records are placed so
  by every generator; and for any generator the only failure is that of exhausted attempts.
\<close>

theorem owner_stack_construction_returns:
  assumes "well_formed_records vs" and "2 \<le> chi" and "2 \<le> threshold"
  shows "(\<exists>st. build_owner_oram_stack (owner_shape None) chi threshold vs (\<lambda>i. i) =
        Inr (st, \<lambda>i. i + sum_list (map tree_size (stack_levels st)))) \<and>
    (length vs \<le> 41 \<longrightarrow> (\<exists>st. build_owner_oram_stack (owner_shape None) chi threshold vs g =
        Inr (st, \<lambda>i. g (i + sum_list (map tree_size (stack_levels st)))))) \<and>
    (\<forall>e. build_owner_oram_stack (owner_shape None) chi threshold vs g = Inl e \<longrightarrow>
        e = ValueError ''could not place entries into leaf buckets'')"
proof -
  have shape: "owner_shape None = tree_shape" by (simp add: owner_shape_def)
  have even: "\<exists>bucket levels. tree_shape n = Inr (bucket, levels) \<and>
      labels_fit bucket (fst (draws n (2 ^ levels) (\<lambda>i. i + c)))" if "2 \<le> n" for n c
    using tree_shape_eq [OF that] tree_shape_room by (blast intro: round_robin_fits zero_less_power zero_less_numeral)
  have small: "\<exists>bucket levels. tree_shape n = Inr (bucket, levels) \<and>
      labels_fit bucket (fst (draws n (2 ^ levels) (\<lambda>i. g (i + c))))" if "2 \<le> n" "n \<le> 41" for n c
    using tree_shape_eq [OF that(1)] tree_shape_roomy that(2) by (blast intro: all_labels_fit)
  have "\<exists>st. build_owner_oram_stack tree_shape chi threshold vs (\<lambda>i. i) =
        Inr (st, \<lambda>i. i + sum_list (map tree_size (stack_levels st)))"
    using build_stack_first [OF assms, where shape = tree_shape and g = "\<lambda>i. i" and c = 0] even by simp
  moreover have "\<exists>st. build_owner_oram_stack tree_shape chi threshold vs g =
        Inr (st, \<lambda>i. g (i + sum_list (map tree_size (stack_levels st))))" if "length vs \<le> 41"
    using build_stack_first [OF assms, where shape = tree_shape and g = g and c = 0] small that by auto
  moreover have "e = ValueError ''could not place entries into leaf buckets''"
    if "build_owner_oram_stack tree_shape chi threshold vs g = Inl e" for e
    using build_stack_error [OF that assms] by (simp add: tree_shape_eq placement_error_def)
  ultimately show ?thesis unfolding shape by blast
qed

theorem owner_stack_construction_returns_witness:
  "(\<exists>st. build_owner_oram_stack (owner_shape None) 2 2 sample_records (\<lambda>i. i) =
      Inr (st, \<lambda>i. i + sum_list (map tree_size (stack_levels st)))) \<and>
   is_ok (build_owner_oram_stack (owner_shape None) 2 2 sample_records (\<lambda>_. 0))"
proof -
  have "well_formed_records sample_records" by (simp add: well_formed_records_def sample_records_def)
  moreover have "length sample_records \<le> 41" by (simp add: sample_records_def)
  ultimately show ?thesis
    using owner_stack_construction_returns [of sample_records 2 2 "\<lambda>_. 0"] by (auto simp: is_ok_iff)
qed

text \<open>
  With a security parameter the bucket grows until the overflow bound is small enough.  At 42
  records the formula starts one slot below the table, where the bound takes the logarithm of
  zero: the shape, and with it every construction of that size, raises.
\<close>

lemma secure_shape_at_42:
  assumes "40 \<le> bits"
  shows "owner_shape (Some bits) 42 = Inl (ValueError ''math domain error'')"
proof -
  let ?x = "real 42 * real 42 * log 2 (real 42) * 100"
  have up: "log 2 (real 42) \<le> 59 / 10"
  proof -
    have "10 * log 2 (real 42) = log 2 (real 42 ^ 10)" by (subst log_nat_power) simp_all
    also have "\<dots> \<le> log 2 (2 ^ 59)" by (subst log_le_cancel_iff) simp_all
    also have "\<dots> = 59" by (subst log_nat_power) simp_all
    finally show ?thesis by simp
  qed
  have low: "5 \<le> log 2 (real 42)"
  proof -
    have "(5 :: real) = log 2 (2 ^ 5)" by (subst log_nat_power) simp_all
    also have "\<dots> \<le> log 2 (real 42)" by (subst log_le_cancel_iff) simp_all
    finally show ?thesis .
  qed
  have "(19 :: real) = log 2 (2 ^ 19)" by (subst log_nat_power) simp_all
  also have "\<dots> < log 2 ?x" using low by (subst log_less_cancel_iff) simp_all
  finally have above: "19 < log 2 ?x" .
  have "log 2 ?x \<le> log 2 (2 ^ 20)" using low up by (subst log_le_cancel_iff) simp_all
  also have "\<dots> = 20" by (subst log_nat_power) simp_all
  finally have below: "log 2 ?x \<le> 20" .
  let ?k = "shape_k 42"
  have k: "40 < 4 * ?k" "4 * ?k \<le> 41" using above below by (simp_all add: shape_k_def)
  then have "\<lceil>4 * ?k\<rceil> = 41" by (simp add: ceiling_eq_iff)
  then have bucket: "min (nat \<lceil>4 * ?k\<rceil>) (42 + 1) = 41" by simp
  have "0 < ?k" using k by simp
  then have "4 \<le> real 42 / ?k" "real 42 / ?k < 8" using k by (simp_all add: pos_le_divide_eq pos_divide_less_eq)
  then have m: "4 \<le> max (real 42 / ?k) 2" "max (real 42 / ?k) 2 < 8" by auto
  then have pos: "0 < max (real 42 / ?k) 2" by linarith
  have "(2 :: real) = log 2 (2 ^ 2)" by (subst log_nat_power) simp_all
  also have "\<dots> \<le> log 2 (max (real 42 / ?k) 2)" using log_le_cancel_iff [of 2 "2 ^ 2", OF _ _ pos] m(1) by simp
  finally have l2: "2 \<le> log 2 (max (real 42 / ?k) 2)" .
  have "log 2 (max (real 42 / ?k) 2) < log 2 (2 ^ 3)" using log_less_cancel_iff [of 2 _ "2 ^ 3", OF _ pos] m(2) by simp
  also have "\<dots> = 3" by (subst log_nat_power) simp_all
  finally have "\<lfloor>log 2 (max (real 42 / ?k) 2)\<rfloor> = 2" using l2 by (simp add: floor_eq_iff)
  then have shape: "tree_shape 42 = Inr (41, 2)" using tree_shape_eq [of 42] bucket by simp
  have "leaf_overflow_log2_bound 42 41 2 = Inl (ValueError ''math domain error'')"
    by (simp add: leaf_overflow_log2_bound_def Let_def)
  then have "grow_bucket target 42 2 41 = Inl (ValueError ''math domain error'')" for target
    by (subst grow_bucket.simps) simp
  with assms shape show ?thesis by (simp add: owner_shape_def secure_tree_shape_def)
qed

theorem secure_construction_fails_at_42:
  assumes "40 \<le> bits" and "well_formed_records vs" and "length vs = 42" and "2 \<le> chi" and "2 \<le> threshold"
  shows "build_owner_oram_stack (owner_shape (Some bits)) chi threshold vs g = Inl (ValueError ''math domain error'')"
proof -
  have "build_owner_oram_tree (owner_shape (Some bits)) 64 vs g = Inl (ValueError ''math domain error'')"
    using assms(2,3) secure_shape_at_42 [OF assms(1)]
    by (auto simp: build_owner_oram_tree_def well_formed_records_def list_all_iff)
  with assms(4,5) show ?thesis by (subst build_owner_oram_stack.simps) simp
qed

theorem secure_construction_fails_at_42_witness:
  "build_owner_oram_stack (owner_shape (Some 80)) 256 64 (replicate 42 [7]) g = Inl (ValueError ''math domain error'')"
  by (rule secure_construction_fails_at_42) (simp_all add: well_formed_records_def)

end
