(* ===== verification/Relation_Paged_Oram.thy ===== *)
theory Relation_Paged_Oram
  imports Paged_Join Oram_Stack
begin

text \<open>
  The relation-paged layout behind two recursive ORAMs (\<open>doram_t2_3pc/relation_paged_oram.py\<close>):
  one stack over the descriptors and one over the pages of every owner, the fixed schedule of
  one directory read and \<open>pages_per_key\<close> page reads, the end-to-end oracle over the stacks and
  the cost reports.  The oracle returns exactly what the oracle over the plain layout returns.
\<close>

section \<open>The two stacks of an owner\<close>

record owner_paged_oram =
  oram_owner :: string
  oram_layout :: owner_page_layout
  directory_stack :: oram_stack
  page_stack :: oram_stack

definition require_dense_layout :: "page_config \<Rightarrow> unit res" where
  "require_dense_layout c =
     (if uses_hybrid_directory c \<or> uses_compact_directory (pages c)
      then Inl (ValueError ''relation-paged ORAM currently requires the dense affine directory'')
      else bindr (directory_rows c) (\<lambda>rows.
        raise_if (rows < 2) (ValueError ''relation-paged ORAM directory must contain at least two rows'')))"

definition build_owner_relation_paged_oram ::
  "(nat \<Rightarrow> (nat \<times> nat) res) \<Rightarrow> nat \<Rightarrow> nat \<Rightarrow> page_config \<Rightarrow> string \<Rightarrow> jval list \<Rightarrow> rng \<Rightarrow>
     (owner_paged_oram \<times> rng) res" where
  "build_owner_relation_paged_oram shape chi threshold c owner edges g =
     bindr (require_dense_layout c) (\<lambda>_.
     bindr (build_owner_page_layout c owner edges) (\<lambda>layout.
     bindr (build_owner_oram_stack shape chi threshold (map (\<lambda>d. [d]) (directory layout)) g) (\<lambda>(directory_stack, g).
     bindr (build_owner_oram_stack shape chi threshold (page_pool layout) g) (\<lambda>(page_stack, g).
       Inr (\<lparr>oram_owner = owner, oram_layout = layout, directory_stack = directory_stack, page_stack = page_stack\<rparr>, g)))))"

section \<open>One fixed-schedule read\<close>

definition read_page :: "page_config \<Rightarrow> oram_stack \<Rightarrow> int \<Rightarrow> int \<Rightarrow> int \<Rightarrow> int list res" where
  "read_page c st page_base page_count offset =
     (let page_address = (if offset < page_count then page_base + offset else 0) in
      bindr (stack_lookup st page_address) (\<lambda>page.
      case page of
        None \<Rightarrow> Inl (AssertionError ''page ORAM returned an invalid page record'')
      | Some page \<Rightarrow>
          if int (length page) \<noteq> page_size (pages c)
          then Inl (AssertionError ''page ORAM returned an invalid page record'')
          else Inr page))"

definition read_descriptor :: "page_config \<Rightarrow> oram_stack \<Rightarrow> int \<Rightarrow> (int \<times> int) res" where
  "read_descriptor c st row =
     bindr (stack_lookup st row) (\<lambda>found.
     case found of
       Some [descriptor] \<Rightarrow>
         let (page_base, page_count) = unpack_descriptor c descriptor in
         if \<not> (0 \<le> page_count \<and> page_count \<le> pages_per_key (pages c))
         then Inl (AssertionError ''directory ORAM returned an invalid page count'')
         else if page_count \<noteq> 0 \<and> \<not> (1 \<le> page_base \<and> page_base < page_budget (pages c))
         then Inl (AssertionError ''directory ORAM returned an invalid non-empty page base'')
         else if page_base + page_count > page_budget (pages c)
         then Inl (AssertionError ''directory ORAM page window exceeds the public budget'')
         else Inr (page_base, page_count)
     | _ \<Rightarrow> Inl (AssertionError ''directory ORAM did not return one descriptor''))"

definition read_owner_relation_pages ::
  "page_config \<Rightarrow> owner_paged_oram \<Rightarrow> int \<times> int \<Rightarrow> int list res" where
  "read_owner_relation_pages c o1 = (\<lambda>(entity, relation).
     bindr (require_dense_layout c) (\<lambda>_.
     if oram_owner o1 \<notin> set (owners (base c)) then Inl (ValueError ''ORAM owner is not in the public federation'')
     else
     bindr (dense_directory_index c entity relation) (\<lambda>row.
     bindr (read_descriptor c (directory_stack o1) row) (\<lambda>(page_base, page_count).
     bindr (traverse (read_page c (page_stack o1) page_base page_count) (map int [0..<nat (pages_per_key (pages c))]))
       (\<lambda>parts.
     if int (length (concat parts)) \<noteq> slots_per_key (pages c)
     then Inl (AssertionError ''dual-ORAM lookup returned the wrong fixed width'')
     else Inr (concat parts))))))"

section \<open>The oracle over the stacks\<close>

definition oram_slot :: "public_config \<Rightarrow> int \<Rightarrow> page_record res" where
  "oram_slot c value =
     (if value = 0 then Inr zero_record
      else bindr (unpack_edge c value) (\<lambda>(target, relation, evidence, score, valid).
        Inr (if valid \<noteq> 0 \<and> target \<noteq> 0 then (target, relation, evidence, score) else zero_record)))"

definition oram_read_owner :: "page_config \<Rightarrow> bool \<Rightarrow> int \<times> int \<Rightarrow> owner_paged_oram \<Rightarrow> page_record list res" where
  "oram_read_owner c compacting key o1 =
     bindr (read_owner_relation_pages c o1 key) (\<lambda>packed.
     bindr (traverse (oram_slot (base c)) packed) (\<lambda>slots.
       if compacting
       then compact_records ''owner frontier exceeds its checked bound'' (effective_frontier_per_owner (pages c)) slots
       else Inr slots))"

definition oram_read_key :: "page_config \<Rightarrow> owner_paged_oram list \<Rightarrow> bool \<Rightarrow> int \<times> int \<Rightarrow> page_record list res" where
  "oram_read_key c os compacting key =
     bindr (traverse (oram_read_owner c compacting key) os) (\<lambda>parts. Inr (concat parts))"

definition oram_expand :: "page_config \<Rightarrow> owner_paged_oram list \<Rightarrow> int \<Rightarrow> nat \<times> page_record \<Rightarrow> candidate list res" where
  "oram_expand c os relation_2 = (\<lambda>(first_index, middle, _, left, first_score).
     if middle = 0 then Inr []
     else bindr (oram_read_key c os False (middle, relation_2)) (\<lambda>slots.
       Inr (map (\<lambda>(second_index, terminal, _, right, second_score).
              Candidate (- (first_score + second_score))
                (int first_index * (int (length (owners (base c))) * slots_per_key (pages c)) + int second_index)
                left right terminal)
            (filter (\<lambda>(_, terminal, _). terminal \<noteq> 0) (enumerate 0 slots)))))"

definition oram_candidates ::
  "page_config \<Rightarrow> owner_paged_oram list \<Rightarrow> int \<times> int \<times> int \<Rightarrow> candidate list res" where
  "oram_candidates c os = (\<lambda>(source, relation_1, relation_2).
     bindr (oram_read_key c os True (source, relation_1)) (\<lambda>frontier.
     bindr (case global_frontier (pages c) of
              None \<Rightarrow> Inr frontier
            | Some width \<Rightarrow> compact_records ''global frontier exceeds its checked bound'' width frontier)
       (\<lambda>frontier.
     bindr (traverse (oram_expand c os relation_2) (enumerate 0 frontier)) (\<lambda>parts.
       Inr (concat parts)))))"

definition build_oram_step ::
  "(nat \<Rightarrow> (nat \<times> nat) res) \<Rightarrow> nat \<Rightarrow> nat \<Rightarrow> page_config \<Rightarrow> (string \<times> jval list) list \<Rightarrow> string \<Rightarrow>
     owner_paged_oram list \<times> rng \<Rightarrow> (owner_paged_oram list \<times> rng) res" where
  "build_oram_step shape chi threshold c owner_edges owner = (\<lambda>(os, g).
     bindr (build_owner_relation_paged_oram shape chi threshold c owner (get_or [] owner_edges owner) g)
       (\<lambda>(o1, g). Inr (os @ [o1], g)))"

definition evaluate_relation_paged_oram_cleartext ::
  "(nat \<Rightarrow> (nat \<times> nat) res) \<Rightarrow> nat \<Rightarrow> nat \<Rightarrow> page_config \<Rightarrow> (string \<times> jval list) list \<Rightarrow> jval \<Rightarrow> rng \<Rightarrow>
     result_row list res" where
  "evaluate_relation_paged_oram_cleartext shape chi threshold c owner_edges query g =
     bindr (require_dense_layout c) (\<lambda>_.
     if fst ` set owner_edges \<noteq> set (owners (base c))
     then Inl (ValueError ''owner input must contain every configured owner exactly once'')
     else
     bindr (query_ids (base c) query) (\<lambda>ids.
     bindr (foldM (build_oram_step shape chi threshold c owner_edges) (owners (base c)) ([], g)) (\<lambda>(os, g).
     bindr (oram_candidates c os ids) (\<lambda>candidates.
       Inr (top_k_results (deduplicate_terminal_answers (base c)) (top_k (base c)) candidates)))))"

section \<open>Cost reports\<close>

definition stack_path_entries :: "oram_stack \<Rightarrow> nat" where
  "stack_path_entries st =
     length (stack_base st) + sum_list (map (\<lambda>t. (tree_depth t + 1) * bucket_size t) (stack_levels st))"

record oram_cost_report =
  directory_logical_records :: int
  page_logical_records :: int
  directory_reads_per_owner :: int
  page_reads_per_owner :: int
  directory_path_entries_per_read :: int
  page_path_entries_per_read :: int
  online_path_entries_all_owners :: int
  linear_backend_rows_for_same_schedule :: int
  shared_values_per_owner :: int
  shared_values_per_server_all_owners :: int

definition linear_schedule_rows :: "page_config \<Rightarrow> int \<Rightarrow> int res" where
  "linear_schedule_rows c query_count =
     bindr (directory_rows c) (\<lambda>rows.
     let owner_count = int (length (owners (base c))) in
     Inr (query_count * (1 + frontier_slots (pages c) owner_count) *
       (rows + owner_count * pages_per_key (pages c) * page_budget (pages c))))"

definition relation_paged_oram_cost_report ::
  "page_config \<Rightarrow> owner_paged_oram \<Rightarrow> int \<Rightarrow> oram_cost_report res" where
  "relation_paged_oram_cost_report c o1 query_count =
     (if query_count < 1 then Inl (ValueError ''query_count must be positive'')
      else
      let owner_count = int (length (owners (base c)));
          directory_reads = query_count * (1 + frontier_slots (pages c) owner_count);
          page_reads = directory_reads * pages_per_key (pages c);
          directory_path = int (stack_path_entries (directory_stack o1));
          page_path = int (stack_path_entries (page_stack o1));
          shared = int (stack_shared_values (directory_stack o1) + stack_shared_values (page_stack o1))
      in bindr (linear_schedule_rows c query_count) (\<lambda>linear.
         Inr \<lparr>directory_logical_records = int (stack_size (directory_stack o1)),
              page_logical_records = int (stack_size (page_stack o1)),
              directory_reads_per_owner = directory_reads, page_reads_per_owner = page_reads,
              directory_path_entries_per_read = directory_path, page_path_entries_per_read = page_path,
              online_path_entries_all_owners =
                owner_count * (directory_reads * directory_path + page_reads * page_path),
              linear_backend_rows_for_same_schedule = linear,
              shared_values_per_owner = shared, shared_values_per_server_all_owners = shared * owner_count\<rparr>))"

section \<open>The stacks hold the layout\<close>

definition oram_built :: "page_config \<Rightarrow> string \<Rightarrow> jval list \<Rightarrow> owner_paged_oram \<Rightarrow> bool" where
  "oram_built c owner edges o1 \<longleftrightarrow>
     require_dense_layout c = Inr () \<and> build_owner_page_layout c owner edges = Inr (oram_layout o1) \<and>
     oram_owner o1 = owner \<and> stack_holds (map (\<lambda>d. [d]) (directory (oram_layout o1))) (directory_stack o1) \<and>
     stack_holds (page_pool (oram_layout o1)) (page_stack o1)"

lemma build_paged_oram_built:
  "build_owner_relation_paged_oram shape chi threshold c owner edges g = Inr (o1, h) \<Longrightarrow> oram_built c owner edges o1"
  unfolding build_owner_relation_paged_oram_def oram_built_def
  using build_stack_holds by (fastforce simp: res_simps)

lemma require_dense:
  assumes "require_dense_layout c = Inr ()"
  shows "type_blocks c = None" and "uses_hybrid_directory c = False"
  using assms by (auto simp: require_dense_layout_def uses_hybrid_directory_def split: if_splits)

lemma traverse_concat:
  "list_all2 (\<lambda>xs ys. traverse f xs = Inr ys) xss yss \<Longrightarrow> traverse f (concat xss) = Inr (concat yss)"
  by (induction rule: list_all2_induct) (simp_all add: traverse_append)

lemma oram_slot_active: "oram_slot c = read_slot c True"
  by (rule ext) (auto simp: oram_slot_def read_slot_def intro!: bindr_cong split: prod.splits)

text \<open>Reading a window page by page through the stack decodes to the window of the layout.\<close>

lemma read_window_stack:
  assumes pool: "stack_holds pool st" "pool \<noteq> []" "hd pool = dummy_page c" "\<And>page. page \<in> set pool \<Longrightarrow> length page = page_width c"
    and size: "params_ok (pages c)"
    and win: "read_window c pool b n = Inr slots" and low: "0 < n \<Longrightarrow> 0 \<le> b"
  shows "\<exists>parts. traverse (read_page c st b n) (map int [0..<nat (pages_per_key (pages c))]) = Inr parts \<and>
    length (concat parts) = nat (slots_per_key (pages c)) \<and> traverse (oram_slot (base c)) (concat parts) = Inr slots"
proof -
  let ?ppk = "nat (pages_per_key (pages c))" and ?at = "\<lambda>i. if int i < n then b + int i else 0"
  obtain ys where ys: "list_all2 (\<lambda>i y. bindr (list_get pool (?at i)) (traverse (read_slot (base c) (int i < n))) = Inr y) [0..<?ppk] ys"
    and slots: "slots = concat ys"
    using win by (auto simp: read_window_def res_simps traverse_eq_Inr list_all2_map1 Let_def)
  let ?page = "\<lambda>i. pool ! nat (?at i)"
  have step: "read_page c st b n (int i) = Inr (?page i) \<and> length (?page i) = page_width c \<and>
      traverse (oram_slot (base c)) (?page i) = Inr (ys ! i)" if "i < ?ppk" for i
  proof -
    have run: "bindr (list_get pool (?at i)) (traverse (read_slot (base c) (int i < n))) = Inr (ys ! i)"
    proof -
      have idx: "[0..<?ppk] ! i = i" and "i < length [0..<?ppk]" using that by simp_all
      from list_all2_nthD [OF ys this(2)] show ?thesis unfolding idx .
    qed
    have at: "0 \<le> ?at i" using low by auto
    have in_pool: "?at i < int (length pool)"
    proof (rule ccontr)
      assume "\<not> ?thesis"
      with at run show False by (simp add: list_get_def py_index_def)
    qed
    have page: "list_get pool (?at i) = Inr (?page i)" using at in_pool by (simp add: list_get_in)
    have mem: "?page i \<in> set pool" using at in_pool by (intro nth_mem) linarith
    have len: "length (?page i) = page_width c" by (rule pool(4) [OF mem])
    have "stack_lookup st (?at i) = Inr (Some (?page i))" by (rule stack.read_at [OF pool(1) at in_pool])
    then have "read_page c st b n (int i) = Inr (?page i)"
      using len size by (simp add: read_page_def Let_def page_width_def params_ok_def)
    moreover have "traverse (oram_slot (base c)) (?page i) = Inr (ys ! i)"
    proof (cases "int i < n")
      case True
      with run page show ?thesis by (simp add: oram_slot_active)
    next
      case False
      then have zero: "?page i = dummy_page c" using pool(2,3) by (simp add: hd_conv_nth)
      have "traverse (read_slot (base c) False) (dummy_page c) = Inr (ys ! i)" using run page False zero by simp
      moreover have "traverse (read_slot (base c) False) (dummy_page c) = traverse (oram_slot (base c)) (dummy_page c)"
        by (rule traverse_cong) (auto simp: oram_slot_def)
      ultimately show ?thesis unfolding zero by simp
    qed
    ultimately show ?thesis using len by blast
  qed
  define page where "page = (\<lambda>i. pool ! nat (?at i))"
  have at: "read_page c st b n (int i) = Inr (page i)" "length (page i) = page_width c"
      "traverse (oram_slot (base c)) (page i) = Inr (ys ! i)" if "i < ?ppk" for i
    using step [OF that] by (simp_all only: page_def)
  have "length ys = ?ppk" using list_all2_lengthD [OF ys] by simp
  then have "list_all2 (\<lambda>p y. traverse (oram_slot (base c)) p = Inr y) (map page [0..<?ppk]) ys"
    by (simp add: list_all2_conv_all_nth at(3))
  from traverse_concat [OF this] slots
  have "traverse (oram_slot (base c)) (concat (map page [0..<?ppk])) = Inr slots" by simp
  moreover have "traverse (read_page c st b n) (map int [0..<?ppk]) = Inr (map page [0..<?ppk])"
    by (simp add: traverse_eq_Inr list_all2_conv_all_nth at(1))
  moreover have "length (concat (map page [0..<?ppk])) = nat (slots_per_key (pages c))"
    unfolding slots_per_key_nat [OF size] by (subst length_concat_uniform [of _ "page_width c"]) (auto simp: at(2))
  ultimately show ?thesis by blast
qed

section \<open>Reading through the stacks is reading the layout\<close>

lemma get_descriptor_dense:
  assumes "type_blocks c = None" and "entity \<noteq> 0"
  shows "get_descriptor c (dir, residual) (entity, relation) =
    bindr (dense_directory_index c entity relation) (list_get dir)"
  using assms by (simp add: get_descriptor_def blocked_directory_index_def uses_hybrid_directory_def)
    (cases "dense_directory_index c entity relation", simp_all)

text \<open>The facts about one owner that both oracles rest on.\<close>

definition owner_ready :: "page_config \<Rightarrow> edge_row list \<Rightarrow> owner_paged_oram \<Rightarrow> bool" where
  "owner_ready c rows o1 \<longleftrightarrow>
     require_dense_layout c = Inr () \<and> oram_owner o1 \<in> set (owners (base c)) \<and>
     layout_holds c rows (oram_layout o1) \<and> rows_fit_pages c rows \<and>
     (\<exists>edges. traverse (validated_edge (base c)) edges = Inr rows) \<and>
     stack_holds (map (\<lambda>d. [d]) (directory (oram_layout o1))) (directory_stack o1) \<and>
     stack_holds (page_pool (oram_layout o1)) (page_stack o1)"

lemma oram_built_ready:
  assumes ok: "page_config_ok c" and built: "oram_built c owner edges o1"
  shows "\<exists>rows. owner_ready c rows o1"
proof -
  from built have l: "build_owner_page_layout c owner edges = Inr (oram_layout o1)" by (simp add: oram_built_def)
  then obtain rows where "owner \<in> set (owners (base c))" "traverse (validated_edge (base c)) edges = Inr rows"
    using build_layout_iff [OF ok, of owner edges] by blast
  with build_layout_run [OF ok this] l built show ?thesis
    unfolding owner_ready_def oram_built_def by blast
qed

text \<open>The descriptor of a key passes the three checks of the ORAM read.\<close>

lemma descriptor_checks:
  assumes ok: "page_config_ok c" and l: "layout_holds c rows l" and key: "key_in_range c key"
    and rows: "traverse (validated_edge (base c)) edges = Inr rows"
  shows "\<exists>d b n. get_descriptor c (directory l, residual_descriptors l) key = Inr d \<and> unpack_descriptor c d = (b, n) \<and>
    0 \<le> n \<and> n \<le> pages_per_key (pages c) \<and> (n \<noteq> 0 \<longrightarrow> 1 \<le> b \<and> b < page_budget (pages c)) \<and> b + n \<le> page_budget (pages c)"
proof -
  let ?recs = "key_records rows key"
  from ok have p: "params_ok (pages c)" and v: "valid_config (base c)" by (simp_all add: page_config_ok_def)
  from l obtain pool where inv: "pool_invariant c (sorted_groups rows) (pool, directory l, residual_descriptors l)"
    by (auto simp: layout_holds_def)
  show ?thesis
  proof (cases "?recs = []")
    case True
    then have "key \<notin> fst ` set (sorted_groups rows)"
      by (auto simp: sorted_groups_keys key_records_def filter_empty_conv)
    then have "get_descriptor c (directory l, residual_descriptors l) key = Inr 0"
      using inv key unfolding pool_invariant_def prod.case by blast
    moreover have "unpack_descriptor c 0 = (0, 0)" by (simp add: unpack_descriptor_def)
    ultimately show ?thesis using p by (auto simp: params_ok_def)
  next
    case False
    let ?n = "required_pages c ?recs"
    from inv key_records_group [OF False] obtain b where
      get: "get_descriptor c (directory l, residual_descriptors l) key = Inr (descriptor_value c (int b, ?n))" and
      fit: "descriptor_fits c (int b, ?n)" and
      run: "b + nat ?n \<le> length pool" "take (nat ?n) (drop b pool) = group_pages c (sort ?recs)"
      by (auto simp: pool_invariant_def stored_at_def)
    have n: "0 \<le> ?n" "?n \<le> pages_per_key (pages c)" "int b < page_budget (pages c)"
      using fit by (auto simp: descriptor_fits_def)
    have "b \<noteq> 0" if "?n \<noteq> 0"
    proof
      assume b: "b = 0"
      have "pool \<noteq> []" "hd pool = dummy_page c" using inv by (auto simp: pool_invariant_def)
      then have "group_pages c (sort ?recs) \<noteq> []" "hd (group_pages c (sort ?recs)) = dummy_page c"
        using run n that by (auto simp: b hd_take simp flip: run(2))
      then have "hd (concat (group_pages c (sort ?recs))) = 0"
        using page_width_pos [OF p] by (cases "group_pages c (sort ?recs)") auto
      moreover have "hd (concat (group_pages c (sort ?recs))) = packed_record c (hd (sort ?recs))"
      proof -
        have "sort ?recs \<noteq> []" using False by (metis set_empty set_sort)
        then show ?thesis unfolding concat_group_pages [OF p] by (simp add: hd_append hd_map)
      qed
      moreover have "hd (sort ?recs) \<in> set ?recs" using False by (metis hd_in_set set_empty set_sort)
      ultimately show False
        using packed_record_pos key_records_ok [OF v rows, of _ key] by (metis less_irrefl)
    qed
    then have "?n \<noteq> 0 \<longrightarrow> 1 \<le> int b \<and> int b < page_budget (pages c)" using n(3) by auto
    moreover have "int b + ?n \<le> page_budget (pages c)"
      using run(1) inv n by (auto simp: pool_invariant_def)
    ultimately show ?thesis
      using get n(1,2) descriptor_codec.dec_enc [OF fit] by blast
  qed
qed

lemma oram_read_layout:
  assumes ok: "page_config_ok c" and r: "owner_ready c rows o1" and key: "key_in_range c key"
  shows "oram_read_owner c compacting key o1 = read_owner_key c compacting key (oram_layout o1)"
proof -
  let ?l = "oram_layout o1"
  obtain entity relation where k: "key = (entity, relation)" by (cases key)
  from ok have p: "params_ok (pages c)" by (simp add: page_config_ok_def)
  from r obtain edges where rows: "traverse (validated_edge (base c)) edges = Inr rows"
    and dense: "require_dense_layout c = Inr ()" and l: "layout_holds c rows ?l" and fit: "rows_fit_pages c rows"
    and owner: "oram_owner o1 \<in> set (owners (base c))"
    and dst: "stack_holds (map (\<lambda>d. [d]) (directory ?l)) (directory_stack o1)"
    and pst: "stack_holds (page_pool ?l) (page_stack o1)"
    by (auto simp: owner_ready_def)
  obtain d b n where d: "get_descriptor c (directory ?l, residual_descriptors ?l) key = Inr d" "unpack_descriptor c d = (b, n)"
    and n: "0 \<le> n" "n \<le> pages_per_key (pages c)" "n \<noteq> 0 \<longrightarrow> 1 \<le> b \<and> b < page_budget (pages c)" "b + n \<le> page_budget (pages c)"
    using descriptor_checks [OF ok l key rows] by blast
  have ne: "entity \<noteq> 0" using key by (simp add: k key_in_range_def)
  from d(1) obtain row where row: "dense_directory_index c entity relation = Inr row" "list_get (directory ?l) row = Inr d"
    unfolding k get_descriptor_dense [OF require_dense(1) [OF dense] ne] bindr_eq_Inr by blast
  have row0: "0 \<le> row" using row(1) key
    by (auto simp: dense_directory_index_def k key_in_range_def relation_count_def split: if_splits)
  have in_dir: "row < int (length (directory ?l))"
  proof (rule ccontr)
    assume "\<not> ?thesis"
    with row0 row(2) show False by (simp add: list_get_def py_index_def)
  qed
  with row(2) row0 have "directory ?l ! nat row = d" by (simp add: list_get_in)
  moreover have "stack_lookup (directory_stack o1) row = Inr (Some (map (\<lambda>d. [d]) (directory ?l) ! nat row))"
    by (rule stack.read_at [OF dst row0]) (simp add: in_dir)
  ultimately have desc: "read_descriptor c (directory_stack o1) row = Inr (b, n)"
    using n d(2) in_dir row0 by (cases "n = 0") (simp_all add: read_descriptor_def nat_less_iff)
  from read_owner_full(1) [OF ok rows l key] obtain slots where win: "read_window c (page_pool ?l) b n = Inr slots"
    unfolding read_owner_key_def d(1) by (auto simp: d(2) res_simps)
  have pool: "page_pool ?l \<noteq> []" "hd (page_pool ?l) = dummy_page c"
    using l by (auto simp: layout_holds_def pool_invariant_def)
  have "0 < n \<Longrightarrow> 0 \<le> b" using n by simp
  from read_window_stack [OF pst pool pool_shape(2) [OF ok l] p win this]
  obtain parts where parts: "traverse (read_page c (page_stack o1) b n) (map int [0..<nat (pages_per_key (pages c))]) = Inr parts"
    "length (concat parts) = nat (slots_per_key (pages c))" "traverse (oram_slot (base c)) (concat parts) = Inr slots" by blast
  have nonneg: "0 \<le> slots_per_key (pages c)" using params_frontier_bounds [OF p] by simp
  have read: "read_owner_relation_pages c o1 key = Inr (concat parts)"
    using dense owner row(1) desc parts(1,2) nonneg by (simp add: read_owner_relation_pages_def k)
  show ?thesis
  proof (cases compacting)
    case False
    with read parts(3) win d show ?thesis by (simp add: oram_read_owner_def read_owner_key_def)
  next
    case True
    with read_owner_compact(1) [OF ok rows fit l key] obtain out
      where "compact_records ''validated owner frontier exceeds its declared bound'' (effective_frontier_per_owner (pages c)) slots = Inr out"
      by (auto simp: read_owner_key_def d win)
    with True read parts(3) win d show ?thesis
      by (simp add: oram_read_owner_def read_owner_key_def compact_records_def Let_def split: if_splits)
  qed
qed

section \<open>The oracle over the stacks is the oracle over the layouts\<close>

lemma ready_layouts:
  "list_all2 (owner_ready c) rowss os \<Longrightarrow> layouts_hold c rowss (map oram_layout os)"
  unfolding layouts_hold_def list_all2_map2 by (erule list_all2_mono) (auto simp: owner_ready_def)

lemma oram_read_key_eq:
  assumes "page_config_ok c" and "list_all2 (owner_ready c) rowss os" and "key_in_range c key"
  shows "oram_read_key c os compacting key = read_key c (map oram_layout os) compacting key"
proof -
  have "traverse (oram_read_owner c compacting key) os = traverse (\<lambda>o1. read_owner_key c compacting key (oram_layout o1)) os"
  proof (rule traverse_cong [OF refl])
    fix o1 assume "o1 \<in> set os"
    with assms(2) obtain rows where "owner_ready c rows o1" by (auto simp: list_all2_conv_all_nth in_set_conv_nth)
    from oram_read_layout [OF assms(1) this assms(3)]
    show "oram_read_owner c compacting key o1 = read_owner_key c compacting key (oram_layout o1)" .
  qed
  also have "\<dots> = traverse (read_owner_key c compacting key) (map oram_layout os)"
    by (induction os) auto
  finally show ?thesis by (simp add: oram_read_key_def read_key_def)
qed

lemma compact_records_message:
  "compact_records m width slots = Inr x \<longleftrightarrow> compact_records m' width slots = Inr x"
  by (simp add: compact_records_def Let_def)

lemma compact_records_real:
  "compact_records m width slots = Inr x \<Longrightarrow> p \<in> set x \<Longrightarrow> fst p \<noteq> 0 \<Longrightarrow> p \<in> set (filter (\<lambda>slot. fst slot \<noteq> 0) slots)"
  by (auto simp: compact_records_def Let_def zero_record_def split: if_splits)

lemma oram_expand_eq:
  assumes "page_config_ok c" and "list_all2 (owner_ready c) rowss os" and "fst p \<noteq> 0 \<Longrightarrow> key_in_range c (fst p, r)"
  shows "oram_expand c os r (n, p) = expand_paged c (map oram_layout os) r (n, p)"
  using oram_read_key_eq [OF assms(1,2), of "(fst p, r)" False] assms(3)
  by (cases p) (simp add: oram_expand_def expand_paged_def)

lemma oram_candidates_eq:
  assumes ok: "page_config_ok c" and ready: "list_all2 (owner_ready c) rowss os"
    and key: "key_in_range c (s, r1)" and r2: "1 \<le> r2" "r2 \<le> relation_count c"
  shows "oram_candidates c os (s, r1, r2) = Inr x \<longleftrightarrow> paged_candidates c (map oram_layout os) (s, r1, r2) = Inr x"
proof -
  let ?ls = "map oram_layout os"
  note hold = ready_layouts [OF ready]
  from read_key_records [OF ok hold key, of True] obtain slots where
    slots: "read_key c ?ls True (s, r1) = Inr slots" "filter (\<lambda>slot. fst slot \<noteq> 0) slots = all_records rowss (s, r1)" by blast
  have expand: "traverse (oram_expand c os r2) (enumerate 0 frontier) = traverse (expand_paged c ?ls r2) (enumerate 0 frontier)"
    if "\<And>p. p \<in> set frontier \<Longrightarrow> fst p \<noteq> 0 \<Longrightarrow> p \<in> set (all_records rowss (s, r1))" for frontier
  proof (rule traverse_cong [OF refl])
    fix np assume np: "np \<in> set (enumerate 0 frontier)"
    have "snd np \<in> set frontier" using np by (metis in_set_zipE enumerate_eq_zip prod.collapse)
    then have "key_in_range c (fst (snd np), r2)" if "fst (snd np) \<noteq> 0"
      using \<open>\<And>p. p \<in> set frontier \<Longrightarrow> fst p \<noteq> 0 \<Longrightarrow> p \<in> set (all_records rowss (s, r1))\<close> that
      by (intro records_in_range [OF ok hold _ r2])
    from oram_expand_eq [OF ok ready this, of "fst np"]
    show "oram_expand c os r2 np = expand_paged c ?ls r2 np" by simp
  qed
  note reads = oram_read_key_eq [OF ok ready key, of True, unfolded slots(1)]
  show ?thesis
  proof (cases "global_frontier (pages c)")
    case None
    have "p \<in> set (all_records rowss (s, r1))" if "p \<in> set slots" "fst p \<noteq> 0" for p
      unfolding slots(2) [symmetric] using that by simp
    with None show ?thesis by (simp add: oram_candidates_def paged_candidates_def reads slots(1) expand)
  next
    case (Some width)
    let ?m = "''federation-wide frontier exceeds the declared global_frontier''"
    show ?thesis
    proof (cases "compact_records ?m width slots")
      case (Inr frontier)
      then have "p \<in> set (all_records rowss (s, r1))" if "p \<in> set frontier" "fst p \<noteq> 0" for p
        unfolding slots(2) [symmetric] using compact_records_real that by blast
      with Some Inr compact_records_message [of ?m width slots frontier] show ?thesis
        by (simp add: oram_candidates_def paged_candidates_def reads slots(1) expand)
    next
      case (Inl e)
      then have "\<not> (\<exists>y. compact_records ''global frontier exceeds its checked bound'' width slots = Inr y)"
        by (simp add: compact_records_def Let_def split: if_splits)
      with Some Inl show ?thesis
        by (auto simp: oram_candidates_def paged_candidates_def reads slots(1) res_simps)
    qed
  qed
qed

lemma build_orams_built:
  assumes "foldM (build_oram_step shape chi threshold c owner_edges) names ([], g) = Inr (os, h)"
  shows "list_all2 (\<lambda>owner. oram_built c owner (get_or [] owner_edges owner)) names os"
proof -
  have "(\<lambda>ys (os, g). list_all2 (\<lambda>owner. oram_built c owner (get_or [] owner_edges owner)) ys os) names (os, h)"
    using assms
  proof (rule foldM_invariant)
    fix ys owner s s'
    assume run: "build_oram_step shape chi threshold c owner_edges owner s = Inr s'"
      and inv: "case s of (os, g) \<Rightarrow> list_all2 (\<lambda>owner. oram_built c owner (get_or [] owner_edges owner)) ys os"
    obtain os g where s: "s = (os, g)" by (cases s)
    from run obtain o1 g' where "build_owner_relation_paged_oram shape chi threshold c owner (get_or [] owner_edges owner) g = Inr (o1, g')"
        "s' = (os @ [o1], g')"
      by (auto simp: build_oram_step_def s res_simps)
    with build_paged_oram_built [OF this(1)] inv
    show "case s' of (os, g) \<Rightarrow> list_all2 (\<lambda>owner. oram_built c owner (get_or [] owner_edges owner)) (ys @ [owner]) os"
      by (simp add: s list_all2_appendI)
  qed simp
  then show ?thesis by simp
qed

lemma evaluate_oram_eq:
  assumes ok: "page_config_ok c" and dense: "require_dense_layout c = Inr ()"
    and run: "foldM (build_oram_step shape chi threshold c owner_edges) (owners (base c)) ([], g) = Inr (os, h)"
  shows "evaluate_relation_paged_oram_cleartext shape chi threshold c owner_edges query g = Inr x \<longleftrightarrow>
    evaluate_paged_cleartext c owner_edges query None = Inr x"
proof -
  from ok have v: "valid_config (base c)" by (simp add: page_config_ok_def)
  note built = build_orams_built [OF run]
  have "\<forall>o1 \<in> set os. \<exists>rows. owner_ready c rows o1"
  proof
    fix o1 assume "o1 \<in> set os"
    with built obtain owner where "oram_built c owner (get_or [] owner_edges owner) o1"
      by (auto simp: list_all2_conv_all_nth in_set_conv_nth)
    from oram_built_ready [OF ok this] show "\<exists>rows. owner_ready c rows o1" .
  qed
  then obtain rows where "\<And>o1. o1 \<in> set os \<Longrightarrow> owner_ready c (rows o1) o1" by metis
  then have ready: "list_all2 (owner_ready c) (map rows os) os" by (simp add: list_all2_map1 list_all2_same)
  have layouts: "resolve_layouts c owner_edges None = Inr (map oram_layout os)"
    unfolding resolve_layouts_def option.case traverse_eq_Inr list_all2_map2
    using built by (rule list_all2_mono) (simp add: oram_built_def)
  show ?thesis
  proof (cases "query_ids (base c) query")
    case (Inr ids)
    obtain s r1 r2 where ids: "ids = (s, r1, r2)" by (metis prod.exhaust)
    note q = query_ids_source [OF v Inr [unfolded ids]] query_ids_relations [OF v Inr [unfolded ids]]
    have key: "key_in_range c (s, r1)" using q by (simp add: key_in_range_def relation_count_def)
    have r2: "1 \<le> r2" "r2 \<le> relation_count c" using q by (simp_all add: relation_count_def)
    have "oram_candidates c os ids = Inr cands \<longleftrightarrow> paged_candidates c (map oram_layout os) ids = Inr cands" for cands
      unfolding ids by (rule oram_candidates_eq [OF ok ready key r2])
    then show ?thesis
      by (simp add: evaluate_relation_paged_oram_cleartext_def evaluate_paged_cleartext_def dense run layouts Inr res_simps)
  qed (simp add: evaluate_relation_paged_oram_cleartext_def evaluate_paged_cleartext_def dense)
qed

section \<open>When the two stacks can be built\<close>

lemma build_paged_oram_ok:
  assumes ok: "page_config_ok c" and dense: "require_dense_layout c = Inr ()"
    and l: "build_owner_page_layout c owner edges = Inr l"
    and roomy: "roomy_shape shape" and chi: "2 \<le> chi" and threshold: "2 \<le> threshold"
  shows "\<exists>o1 h. build_owner_relation_paged_oram shape chi threshold c owner edges g = Inr (o1, h)"
proof -
  from ok have p: "params_ok (pages c)" by (simp add: page_config_ok_def)
  from build_layout_iff [OF ok, of owner edges] l obtain rows where
    "owner \<in> set (owners (base c))" "traverse (validated_edge (base c)) edges = Inr rows" by blast
  from build_layout_run(2) [OF ok this l] have hold: "layout_holds c rows l" by blast
  have "well_formed_records (map (\<lambda>d. [d]) (directory l))"
  proof -
    have "2 \<le> length (directory l)"
      using dense pool_shape(3) [OF ok hold] by (auto simp: require_dense_layout_def res_simps split: if_splits)
    then show ?thesis by (cases "directory l") (auto simp: well_formed_records_def)
  qed
  moreover have "well_formed_records (page_pool l)"
  proof -
    have "2 \<le> length (page_pool l)"
      using pool_shape(1) [OF ok hold] p unfolding pool_rows_def params_ok_def by linarith
    moreover from this have "hd (page_pool l) \<in> set (page_pool l)" by (intro hd_in_set) auto
    ultimately show ?thesis
      using pool_shape(2) [OF ok hold] page_width_pos [OF p] by (simp add: well_formed_records_def)
  qed
  ultimately obtain st h st' h' where "build_owner_oram_stack shape chi threshold (map (\<lambda>d. [d]) (directory l)) g = Inr (st, h)"
      "build_owner_oram_stack shape chi threshold (page_pool l) h = Inr (st', h')"
    using build_stack_ok [OF _ roomy chi threshold] by blast
  with dense l show ?thesis by (simp add: build_owner_relation_paged_oram_def)
qed

lemma foldM_ok:
  assumes "\<And>x s. x \<in> set xs \<Longrightarrow> \<exists>s'. f x s = Inr s'"
  shows "\<exists>t. foldM f xs s = Inr t"
  using assms
proof (induction xs arbitrary: s)
  case (Cons x xs)
  from Cons.prems [of x s] obtain s' where "f x s = Inr s'" by auto
  moreover from Cons.IH [of s'] Cons.prems obtain t where "foldM f xs s' = Inr t" by auto
  ultimately show ?case by simp
qed simp

section \<open>Properties\<close>

lemma sample_dense: "require_dense_layout sample_page_config = Inr ()"
  by (simp add: require_dense_layout_def uses_hybrid_directory_def directory_rows_def dense_directory_rows_def
      relation_count_def entity_count_def uses_compact_directory_def sample_pages_def)

text \<open>
  C24: replacing every directory and page read by recursive ORAM reads changes nothing: once
  every owner's two stacks are built, the oracle over the stacks returns a result exactly when
  the oracle over the plain layouts does, and the same one, for every generator and every shape
  and packing factor of the stacks.
\<close>

theorem oram_backend_refines_layout:
  assumes "page_config_ok c" and "require_dense_layout c = Inr ()"
    and "foldM (build_oram_step shape chi threshold c owner_edges) (owners (base c)) ([], g) = Inr (os, h)"
  shows "evaluate_relation_paged_oram_cleartext shape chi threshold c owner_edges query g = Inr rows \<longleftrightarrow>
    evaluate_paged_cleartext c owner_edges query None = Inr rows"
  by (rule evaluate_oram_eq [OF assms])

theorem oram_backend_refines_layout_witness:
  "\<exists>rows. evaluate_relation_paged_oram_cleartext sample_shape 2 4 sample_page_config sample_owner_edges sample_query sample_draws =
     Inr rows \<and> evaluate_paged_cleartext sample_page_config sample_owner_edges sample_query None = Inr rows"
proof -
  have step: "\<exists>s'. build_oram_step sample_shape 2 4 sample_page_config sample_owner_edges owner s = Inr s'"
    if "owner \<in> set (owners (base sample_page_config))" for owner s
  proof -
    obtain os g where s: "s = (os, g)" by (cases s)
    from sample_built [OF that] obtain l
      where l: "build_owner_page_layout sample_page_config owner (get_or [] sample_owner_edges owner) = Inr l"
      by (auto simp: is_ok_iff)
    have "roomy_shape sample_shape" by (simp add: roomy_shape_def sample_shape_def)
    from build_paged_oram_ok [OF sample_page_ok sample_dense l this, of 2 4 g]
    show ?thesis by (auto simp: build_oram_step_def s)
  qed
  have "\<exists>t. foldM (build_oram_step sample_shape 2 4 sample_page_config sample_owner_edges)
      (owners (base sample_page_config)) ([], sample_draws) = Inr t"
    by (rule foldM_ok) (rule step)
  then obtain os h where run: "foldM (build_oram_step sample_shape 2 4 sample_page_config sample_owner_edges)
      (owners (base sample_page_config)) ([], sample_draws) = Inr (os, h)" by (metis prod.exhaust)
  have rows: "traverse (validated_edge (base sample_page_config)) (get_or [] sample_owner_edges owner) =
      Inr (if owner = ''alice'' then sample_rows else [])" if "owner \<in> set (owners (base sample_page_config))" for owner
    using that sample_traverse by (auto simp: sample_owner_edges_def get_or_def)
  have "\<exists>rows. evaluate_paged_cleartext sample_page_config sample_owner_edges sample_query None = Inr rows"
    using evaluate_paged_run [OF sample_page_ok _ _ _ conjunct1 [OF sample_built] sample_checked, of sample_query "(1, 1, 2)"
        "\<lambda>owner. if owner = ''alice'' then sample_rows else []", OF _ _ _ _ rows] sample_query_ids
    by (auto simp: sample_owner_edges_def)
  with oram_backend_refines_layout [OF sample_page_ok sample_dense run, of sample_query] show ?thesis by blast
qed

end
