(* ===== verification/Kg_Oram.thy ===== *)
theory Kg_Oram
  imports Relation_Paged_Oram Oram_Access
begin

text \<open>
  The wide-record ORAM backend (\<open>doram_t2_3pc/kg_oram.py\<close> and the planning part of
  \<open>doram_t2_3pc/kg_oram_program.py\<close>): one fixed-width adjacency record per (entity, relation)
  in one recursive ORAM per owner.  A read decodes to the same slots as a read of the paged
  layout, and the records are accepted under the fan-out bound alone.
\<close>

section \<open>Adjacency records\<close>

record owner_kg_oram =
  kg_owner :: string
  kg_records :: "int list list"
  kg_stack :: oram_stack

definition dense_key_address :: "page_config \<Rightarrow> int \<Rightarrow> int \<Rightarrow> int res" where
  "dense_key_address c entity relation = dense_directory_index c entity relation"

definition place_adjacency ::
  "page_config \<Rightarrow> (int \<times> int) \<times> page_record list \<Rightarrow> int list list \<Rightarrow> int list list res" where
  "place_adjacency c = (\<lambda>((source, relation), slots) records.
     let width = slots_per_key (pages c) in
     if int (length slots) > width then Inl (ValueError ''owner has more edges than the ORAM record width'')
     else
     bindr (traverse (pack_record (base c)) (sort slots)) (\<lambda>packed.
     bindr (dense_key_address c source relation) (\<lambda>row.
       list_put records row (packed @ replicate (nat width - length packed) 0))))"

definition build_owner_adjacency_records :: "page_config \<Rightarrow> string \<Rightarrow> jval list \<Rightarrow> int list list res" where
  "build_owner_adjacency_records c owner edges =
     bindr (grouped_edges c owner edges) (\<lambda>grouped.
       foldM (place_adjacency c) grouped
         (replicate (nat (entity_count (base c) * relation_count c)) (replicate (nat (slots_per_key (pages c))) 0)))"

definition build_owner_kg_oram ::
  "(nat \<Rightarrow> (nat \<times> nat) res) \<Rightarrow> nat \<Rightarrow> nat \<Rightarrow> page_config \<Rightarrow> string \<Rightarrow> jval list \<Rightarrow> rng \<Rightarrow>
     (owner_kg_oram \<times> rng) res" where
  "build_owner_kg_oram shape chi threshold c owner edges g =
     bindr (build_owner_adjacency_records c owner edges) (\<lambda>records.
     if length records < 2
     then Inl (ValueError ''KG ORAM logical keyspace must contain at least two records'')
     else bindr (build_owner_oram_stack shape chi threshold records g) (\<lambda>(st, g).
       Inr (\<lparr>kg_owner = owner, kg_records = records, kg_stack = st\<rparr>, g)))"

section \<open>Planning\<close>

definition access_count_per_owner :: "page_config \<Rightarrow> int \<Rightarrow> int" where
  "access_count_per_owner c query_count =
     query_count * (1 + frontier_slots (pages c) (int (length (owners (base c)))))"

definition kg_planned_shape ::
  "(nat \<Rightarrow> (nat \<times> nat) res) \<Rightarrow> nat \<Rightarrow> nat \<Rightarrow> page_config \<Rightarrow> int \<Rightarrow> access_shape res" where
  "kg_planned_shape shape chi threshold c query_count =
     planned_stack shape chi threshold (nat (slots_per_key (pages c)))
       (nat (entity_count (base c) * relation_count c)) (access_count_per_owner c query_count)"

definition kg_common_shape :: "page_config \<Rightarrow> owner_kg_oram list \<Rightarrow> int \<Rightarrow> access_shape res" where
  "kg_common_shape c os query_count =
     (if map kg_owner os \<noteq> owners (base c)
      then Inl (ValueError ''KG ORAM owners must appear exactly in public config order'')
      else
      bindr (traverse (\<lambda>o1. from_stack (kg_stack o1) (access_count_per_owner c query_count)) os) (\<lambda>shapes.
      case shapes of
        [] \<Rightarrow> Inl (ValueError ''every owner KG ORAM must have the same public shape'')
      | s # rest \<Rightarrow>
          if list_ex (\<lambda>s'. s' \<noteq> s) rest then Inl (ValueError ''every owner KG ORAM must have the same public shape'')
          else if int (shape_value_width s) \<noteq> slots_per_key (pages c)
          then Inl (ValueError ''KG ORAM record width does not match slots_per_key'')
          else Inr s))"

record kg_cost =
  kg_logical_records :: int
  kg_accesses_per_owner :: int
  kg_recursive_levels :: nat
  kg_base_entries :: nat
  kg_shared_values_per_owner :: int
  kg_shared_values_all_owners :: int
  kg_path_entries :: int
  kg_path_entries_all :: int
  kg_linear_entries :: int

definition kg_cost_report ::
  "(nat \<Rightarrow> (nat \<times> nat) res) \<Rightarrow> nat \<Rightarrow> nat \<Rightarrow> page_config \<Rightarrow> int \<Rightarrow> kg_cost res" where
  "kg_cost_report shape chi threshold c query_count =
     bindr (kg_planned_shape shape chi threshold c query_count) (\<lambda>s.
     let path = int (sum_list (map (\<lambda>l. (shape_depth l + 1) * shape_bucket l) (shape_levels s)) + shape_base s);
         owner_count = int (length (owners (base c)));
         logical = entity_count (base c) * relation_count c
     in Inr \<lparr>kg_logical_records = logical, kg_accesses_per_owner = shape_accesses s,
          kg_recursive_levels = length (shape_levels s), kg_base_entries = shape_base s,
          kg_shared_values_per_owner = int (shape_owner_values s),
          kg_shared_values_all_owners = int (shape_owner_values s) * owner_count,
          kg_path_entries = path, kg_path_entries_all = path * shape_accesses s * owner_count,
          kg_linear_entries = logical * shape_accesses s * owner_count\<rparr>)"

section \<open>What the records hold\<close>

definition adjacency_row :: "page_config \<Rightarrow> page_record list \<Rightarrow> int list" where
  "adjacency_row c records =
     map (packed_record c) (sort records) @ replicate (nat (slots_per_key (pages c)) - length records) 0"

definition key_row :: "page_config \<Rightarrow> int \<times> int \<Rightarrow> nat" where
  "key_row c = (\<lambda>(s, r). nat (s * relation_count c + (r - 1)))"

definition adjacency_fits :: "page_config \<Rightarrow> edge_row list \<Rightarrow> bool" where
  "adjacency_fits c rows \<longleftrightarrow> (\<forall>key. int (length (key_records rows key)) \<le> slots_per_key (pages c))"

lemma key_row_less: "key_in_range c key \<Longrightarrow> key_row c key < nat (entity_count (base c) * relation_count c)"
  using dense_index_ok(2,3) [of c "fst key" "snd key"]
  by (cases key) (simp add: key_row_def dense_directory_rows_def nat_less_eq_zless)

lemma key_row_inj: "key_in_range c key \<Longrightarrow> key_in_range c key' \<Longrightarrow> key_row c key = key_row c key' \<Longrightarrow> key = key'"
  using dense_index_inj [of c "fst key" "snd key" "fst key'" "snd key'"]
    dense_index_ok(2) [of c "fst key" "snd key"] dense_index_ok(2) [of c "fst key'" "snd key'"]
  by (cases key, cases key') (simp add: key_row_def eq_nat_nat_iff)

text \<open>A group with usable records is placed exactly when it is short enough.\<close>

lemma place_adjacency_iff:
  assumes ok: "group_ok c (key, slots)" and len: "length records = nat (entity_count (base c) * relation_count c)"
  shows "place_adjacency c (key, slots) records =
    (if int (length slots) > slots_per_key (pages c) then Inl (ValueError ''owner has more edges than the ORAM record width'')
     else Inr (records[key_row c key := adjacency_row c slots]))"
proof -
  obtain s r where key: "key = (s, r)" by (cases key)
  from ok have range: "key_in_range c (s, r)" and recs: "\<And>x. x \<in> set slots \<Longrightarrow> record_ok c x"
    by (simp_all add: group_ok_def key)
  have "traverse (pack_record (base c)) (sort slots) = Inr (map (packed_record c) (sort slots))"
    using recs by (intro traverse_Inr pack_record_ok) simp
  moreover have "list_put records (s * relation_count c + (r - 1)) v = Inr (records[key_row c (s, r) := v])" for v
    using dense_index_ok(2,3) [OF range] len
    by (simp add: list_put_in key_row_def dense_directory_rows_def)
  ultimately show ?thesis
    using dense_index_ok(1) [OF range]
    by (simp add: place_adjacency_def key dense_key_address_def adjacency_row_def Let_def)
qed

lemma place_all:
  assumes "\<And>group. group \<in> set groups \<Longrightarrow> group_ok c group"
    and "length records = nat (entity_count (base c) * relation_count c)"
  shows "(\<exists>out. foldM (place_adjacency c) groups records = Inr out) \<longleftrightarrow>
      (\<forall>(key, slots) \<in> set groups. int (length slots) \<le> slots_per_key (pages c))"
    and "foldM (place_adjacency c) groups records = Inr out \<Longrightarrow>
      length out = length records \<and>
      (\<forall>key. key_in_range c key \<longrightarrow> out ! key_row c key =
        (case map_of (rev groups) key of None \<Rightarrow> records ! key_row c key | Some slots \<Rightarrow> adjacency_row c slots))"
proof -
  have step: "place_adjacency c (key, slots) rs =
      (if int (length slots) > slots_per_key (pages c) then Inl (ValueError ''owner has more edges than the ORAM record width'')
       else Inr (rs[key_row c key := adjacency_row c slots]))"
    if "(key, slots) \<in> set groups" "length rs = length records" for key slots rs
    using place_adjacency_iff [OF assms(1) [OF that(1)]] that(2) assms(2) by simp
  have "set gs \<subseteq> set groups \<Longrightarrow> length rs = length records \<Longrightarrow>
      ((\<exists>out. foldM (place_adjacency c) gs rs = Inr out) \<longleftrightarrow>
        (\<forall>(key, slots) \<in> set gs. int (length slots) \<le> slots_per_key (pages c)))" for gs rs
  proof (induction gs arbitrary: rs)
    case (Cons group gs)
    obtain key slots where group: "group = (key, slots)" by (cases group)
    have here: "place_adjacency c group rs =
      (if int (length slots) > slots_per_key (pages c) then Inl (ValueError ''owner has more edges than the ORAM record width'')
       else Inr (rs[key_row c key := adjacency_row c slots]))"
      unfolding group by (rule step) (use Cons.prems group in auto)
    from Cons.IH [of "rs[key_row c key := adjacency_row c slots]"] Cons.prems here show ?case
      by (simp add: group)
  qed simp
  from this [OF subset_refl refl] show "(\<exists>out. foldM (place_adjacency c) groups records = Inr out) \<longleftrightarrow>
      (\<forall>(key, slots) \<in> set groups. int (length slots) \<le> slots_per_key (pages c))" .
  assume "foldM (place_adjacency c) groups records = Inr out"
  then show "length out = length records \<and>
      (\<forall>key. key_in_range c key \<longrightarrow> out ! key_row c key =
        (case map_of (rev groups) key of None \<Rightarrow> records ! key_row c key | Some slots \<Rightarrow> adjacency_row c slots))"
  proof (rule foldM_invariant)
    fix ys group rs rs'
    assume run: "place_adjacency c group rs = Inr rs'" and mem: "group \<in> set groups"
      and inv: "length rs = length records \<and> (\<forall>key. key_in_range c key \<longrightarrow> rs ! key_row c key =
        (case map_of (rev ys) key of None \<Rightarrow> records ! key_row c key | Some slots \<Rightarrow> adjacency_row c slots))"
    obtain key slots where group: "group = (key, slots)" by (cases group)
    from step [of key slots rs] mem run inv group have rs': "rs' = rs[key_row c key := adjacency_row c slots]"
      by (simp split: if_splits)
    have range: "key_in_range c key" using assms(1) [OF mem] by (simp add: group group_ok_def)
    have "key_row c key < length rs" using key_row_less [OF range] inv assms(2) by simp
    then have "rs' ! key_row c k = (if k = key then adjacency_row c slots else rs ! key_row c k)" if "key_in_range c k" for k
      using key_row_inj [OF that range] by (auto simp: rs' nth_list_update)
    with inv show "length rs' = length records \<and> (\<forall>key. key_in_range c key \<longrightarrow> rs' ! key_row c key =
        (case map_of (rev (ys @ [group])) key of None \<Rightarrow> records ! key_row c key | Some slots \<Rightarrow> adjacency_row c slots))"
      by (simp add: group rs')
  qed simp
qed

lemma length_adjacency_row:
  "int (length records) \<le> slots_per_key (pages c) \<Longrightarrow> length (adjacency_row c records) = nat (slots_per_key (pages c))"
  by (simp add: adjacency_row_def)

lemma grouped_entries:
  assumes v: "valid_config (base c)" and rows: "traverse (validated_edge (base c)) edges = Inr rows"
    and g: "(key, slots) \<in> set (group_by row_key row_record rows)"
  shows "slots = key_records rows key" and "group_ok c (key, slots)"
proof -
  show slots: "slots = key_records rows key" using group_by_entry [OF g] by (simp add: key_records_def)
  have "(key, slots) \<in> set (sorted_groups rows)"
    using imageI [OF g, of fst] by (simp add: sorted_groups_entry slots)
  from sorted_groups_ok [OF v rows this] show "group_ok c (key, slots)" .
qed

lemma map_of_rev_groups: "map_of (rev (group_by key val xs)) = map_of (group_by key val xs)"
  by (subst map_of_inject_set) (simp_all flip: rev_map)

text \<open>The records are accepted under the fan-out bound alone, and hold every key's edges.\<close>

lemma build_adjacency_run:
  assumes ok: "page_config_ok c" and owner: "owner \<in> set (owners (base c))"
    and rows: "traverse (validated_edge (base c)) edges = Inr rows"
  shows "(\<exists>records. build_owner_adjacency_records c owner edges = Inr records) \<longleftrightarrow> adjacency_fits c rows"
    and "build_owner_adjacency_records c owner edges = Inr records \<Longrightarrow> adjacency_fits c rows \<and>
      length records = nat (entity_count (base c) * relation_count c) \<and>
      (\<forall>key. key_in_range c key \<longrightarrow> records ! key_row c key = adjacency_row c (key_records rows key))"
proof -
  from ok have v: "valid_config (base c)" and p: "params_ok (pages c)" by (simp_all add: page_config_ok_def)
  let ?groups = "group_by row_key row_record rows" and ?N = "nat (entity_count (base c) * relation_count c)"
  let ?empty = "replicate ?N (replicate (nat (slots_per_key (pages c))) (0 :: int))"
  have run: "build_owner_adjacency_records c owner edges = foldM (place_adjacency c) ?groups ?empty"
    using owner rows by (simp add: build_owner_adjacency_records_def grouped_edges_Inr [THEN iffD2])
  have groups: "group_ok c group" if "group \<in> set ?groups" for group
    using grouped_entries(2) [OF v rows] that by (cases group) simp
  have "(\<forall>(key, slots) \<in> set ?groups. int (length slots) \<le> slots_per_key (pages c)) \<longleftrightarrow> adjacency_fits c rows"
  proof
    assume short: "\<forall>(key, slots) \<in> set ?groups. int (length slots) \<le> slots_per_key (pages c)"
    show "adjacency_fits c rows"
      unfolding adjacency_fits_def
    proof
      fix key
      show "int (length (key_records rows key)) \<le> slots_per_key (pages c)"
      proof (cases "key \<in> fst ` set ?groups")
        case True
        then obtain slots where "(key, slots) \<in> set ?groups" by (auto simp del: keys_group_by)
        with short grouped_entries(1) [OF v rows this] show ?thesis by auto
      next
        case False
        then have "key_records rows key = []" by (auto simp: key_records_def filter_empty_conv)
        with params_frontier_bounds [OF p] show ?thesis by simp
      qed
    qed
  next
    assume "adjacency_fits c rows"
    then show "\<forall>(key, slots) \<in> set ?groups. int (length slots) \<le> slots_per_key (pages c)"
      unfolding adjacency_fits_def using grouped_entries(1) [OF v rows] by (metis (no_types, lifting) case_prodI2)
  qed
  with place_all(1) [where groups = ?groups and records = ?empty, OF groups]
  show iff: "(\<exists>records. build_owner_adjacency_records c owner edges = Inr records) \<longleftrightarrow> adjacency_fits c rows"
    by (simp add: run)
  assume built: "build_owner_adjacency_records c owner edges = Inr records"
  with place_all(2) [where groups = ?groups and records = ?empty and out = records, OF groups]
  have out: "length records = ?N" "\<And>key. key_in_range c key \<Longrightarrow> records ! key_row c key =
      (case map_of ?groups key of None \<Rightarrow> ?empty ! key_row c key | Some slots \<Rightarrow> adjacency_row c slots)"
    by (simp_all add: run map_of_rev_groups del: split_paired_All)
  have "records ! key_row c key = adjacency_row c (key_records rows key)" if "key_in_range c key" for key
  proof (cases "map_of ?groups key")
    case None
    then have "key \<notin> fst ` set ?groups" by (simp only: map_of_eq_None_iff not_False_eq_True)
    then have "key_records rows key = []" by (auto simp: key_records_def filter_empty_conv)
    with None out(2) [OF that] key_row_less [OF that] show ?thesis by (simp add: adjacency_row_def)
  next
    case (Some slots)
    with out(2) [OF that] grouped_entries(1) [OF v rows map_of_SomeD [OF Some]] show ?thesis by simp
  qed
  with out(1) iff built show "adjacency_fits c rows \<and> length records = ?N \<and>
      (\<forall>key. key_in_range c key \<longrightarrow> records ! key_row c key = adjacency_row c (key_records rows key))" by blast
qed

lemma adjacency_row_slots:
  assumes "\<And>x. x \<in> set records \<Longrightarrow> record_ok c x"
  shows "traverse (read_slot (base c) True) (adjacency_row c records) =
    Inr (sort records @ replicate (nat (slots_per_key (pages c)) - length records) zero_record)"
proof -
  have "v = 0 \<or> (\<exists>x. record_ok c x \<and> v = packed_record c x)" if "v \<in> set (adjacency_row c records)" for v
  proof -
    from that have "v = 0 \<or> v \<in> packed_record c ` set records" by (auto simp: adjacency_row_def)
    then show ?thesis using assms by blast
  qed
  then have "traverse (read_slot (base c) True) (adjacency_row c records) = Inr (map (slot_record c) (adjacency_row c records))"
    by (intro traverse_Inr read_slot_packed)
  moreover have "map (slot_record c) (map (packed_record c) (sort records)) = sort records"
    using assms slot_record_packed by (intro trans [OF map_map] map_idI) simp
  ultimately show ?thesis by (simp add: adjacency_row_def)
qed

section \<open>Reading a key\<close>

lemma kg_read:
  assumes ok: "page_config_ok c" and built: "build_owner_kg_oram shape chi threshold c owner edges g = Inr (o1, h)"
    and rows: "traverse (validated_edge (base c)) edges = Inr rows" and key: "key_in_range c (entity, relation)"
  shows "\<exists>row packed. dense_key_address c entity relation = Inr row \<and> stack_lookup (kg_stack o1) row = Inr (Some packed) \<and>
    traverse (read_slot (base c) True) packed = Inr (stored_records rows (entity, relation) @
      replicate (nat (slots_per_key (pages c)) - length (key_records rows (entity, relation))) zero_record)"
proof -
  from ok have v: "valid_config (base c)" by (simp add: page_config_ok_def)
  from built obtain records where recs: "build_owner_adjacency_records c owner edges = Inr records"
    and st: "build_owner_oram_stack shape chi threshold records g = Inr (kg_stack o1, h)"
    by (auto simp: build_owner_kg_oram_def res_simps split: if_splits)
  then have owner: "owner \<in> set (owners (base c))"
    by (auto simp: build_owner_adjacency_records_def res_simps grouped_edges_Inr)
  note out = build_adjacency_run(2) [OF ok owner rows recs]
  let ?row = "entity * relation_count c + (relation - 1)"
  have row: "nat ?row = key_row c (entity, relation)" by (simp add: key_row_def)
  have "?row < int (length records)" using dense_index_ok(2,3) [OF key] out by (simp add: dense_directory_rows_def)
  from stack.read_at [OF conjunct1 [OF build_stack_holds [OF st]] dense_index_ok(2) [OF key] this]
  have "stack_lookup (kg_stack o1) ?row = Inr (Some (adjacency_row c (key_records rows (entity, relation))))"
    using out key by (simp add: row)
  moreover have "dense_key_address c entity relation = Inr ?row"
    using dense_index_ok(1) [OF key] by (simp add: dense_key_address_def)
  moreover have "traverse (read_slot (base c) True) (adjacency_row c (key_records rows (entity, relation))) =
      Inr (stored_records rows (entity, relation) @
        replicate (nat (slots_per_key (pages c)) - length (key_records rows (entity, relation))) zero_record)"
    by (rule adjacency_row_slots) (rule key_records_ok [OF v rows])
  ultimately show ?thesis by blast
qed

section \<open>When the ORAM can be built\<close>

lemma adjacency_rows_width:
  assumes "build_owner_adjacency_records c owner edges = Inr records" and "r \<in> set records"
  shows "length r = nat (slots_per_key (pages c))"
proof -
  from assms(1) obtain grouped where "foldM (place_adjacency c) grouped
      (replicate (nat (entity_count (base c) * relation_count c)) (replicate (nat (slots_per_key (pages c))) 0)) = Inr records"
    by (auto simp: build_owner_adjacency_records_def res_simps)
  then have "\<forall>r \<in> set records. length r = nat (slots_per_key (pages c))"
  proof (rule foldM_preserves)
    fix group rs rs'
    assume run: "place_adjacency c group rs = Inr rs'" and inv: "\<forall>r \<in> set rs. length r = nat (slots_per_key (pages c))"
    obtain s rel slots where group: "group = ((s, rel), slots)" by (metis prod.exhaust)
    from run obtain packed row where packed: "traverse (pack_record (base c)) (sort slots) = Inr packed"
      and short: "int (length slots) \<le> slots_per_key (pages c)"
      and put: "list_put rs row (packed @ replicate (nat (slots_per_key (pages c)) - length packed) 0) = Inr rs'"
      by (auto simp: place_adjacency_def group res_simps Let_def split: if_splits)
    have "length packed = length slots" using length_traverse [OF packed] by simp
    with put short inv show "\<forall>r \<in> set rs'. length r = nat (slots_per_key (pages c))"
      by (auto simp: list_put_def split: option.splits dest!: subsetD [OF set_update_subset_insert])
  qed simp
  with assms(2) show ?thesis by blast
qed

lemma build_kg_ok:
  assumes ok: "page_config_ok c" and recs: "build_owner_adjacency_records c owner edges = Inr records"
    and two: "2 \<le> length records" and roomy: "roomy_shape shape" and chi: "2 \<le> chi" and threshold: "2 \<le> threshold"
  shows "\<exists>o1 h. build_owner_kg_oram shape chi threshold c owner edges g = Inr (o1, h)"
proof -
  from ok have p: "params_ok (pages c)" by (simp add: page_config_ok_def)
  have "hd records \<in> set records" using two by (intro hd_in_set) auto
  then have "well_formed_records records"
    using two adjacency_rows_width [OF recs] params_frontier_bounds [OF p] by (simp add: well_formed_records_def)
  from build_stack_ok [OF this roomy chi threshold, of g] recs two show ?thesis
    by (auto simp: build_owner_kg_oram_def)
qed

lemma sample_adjacency:
  "\<exists>records. build_owner_adjacency_records sample_page_config ''alice'' sample_edges = Inr records \<and> 2 \<le> length records"
proof -
  have p: "slots_per_key sample_pages = 2" by (simp add: slots_per_key_def)
  have "adjacency_fits sample_page_config sample_rows"
    by (simp add: adjacency_fits_def p key_records_def sample_rows_def row_key_def)
  with build_adjacency_run [OF sample_page_ok, of "''alice''" sample_edges sample_rows] sample_traverse
  obtain records where "build_owner_adjacency_records sample_page_config ''alice'' sample_edges = Inr records"
      "length records = nat (entity_count sample_config * relation_count sample_page_config)" by auto
  then show ?thesis by (simp add: relation_count_def entity_count_def)
qed

section \<open>Properties\<close>

text \<open>
  C30: the two ORAM data layouts answer every key alike.  When an owner's wide-record ORAM and
  its paged layout are both built from one file, the recursive read at the key's dense address
  returns a record whose decoded slots are exactly the slots the paged layout returns for the
  key, through the dense, the type-blocked or the hashed directory.
\<close>

theorem kg_oram_reads_paged_layout:
  assumes "page_config_ok c" and "build_owner_kg_oram shape chi threshold c owner edges g = Inr (o1, h)"
    and "build_owner_page_layout c owner edges = Inr l" and "key_in_range c (entity, relation)"
  shows "\<exists>row packed. dense_key_address c entity relation = Inr row \<and>
    stack_lookup (kg_stack o1) row = Inr (Some packed) \<and>
    traverse (read_slot (base c) True) packed = read_owner_key c False (entity, relation) l"
proof -
  from build_layout_iff [OF assms(1)] assms(3) obtain rows where
    rows: "owner \<in> set (owners (base c))" "traverse (validated_edge (base c)) edges = Inr rows" by blast
  with build_layout_run(2) [OF assms(1) rows assms(3)]
  have "read_owner_key c False (entity, relation) l = Inr (stored_records rows (entity, relation) @
      replicate (nat (slots_per_key (pages c)) - length (key_records rows (entity, relation))) zero_record)"
    using read_owner_full(1) [OF assms(1) rows(2) _ assms(4)] by blast
  with kg_read [OF assms(1,2) rows(2) assms(4)] show ?thesis by simp
qed

theorem kg_oram_reads_paged_layout_witness:
  "\<exists>o1 h l row packed. build_owner_kg_oram sample_shape 2 4 sample_page_config ''alice'' sample_edges sample_draws = Inr (o1, h) \<and>
     build_owner_page_layout sample_page_config ''alice'' sample_edges = Inr l \<and>
     stack_lookup (kg_stack o1) row = Inr (Some packed) \<and>
     traverse (read_slot sample_config True) packed = read_owner_key sample_page_config False (1, 1) l"
proof -
  from sample_adjacency obtain records where "build_owner_adjacency_records sample_page_config ''alice'' sample_edges = Inr records"
      "2 \<le> length records" by blast
  from build_kg_ok [OF sample_page_ok this, of sample_shape 2 4 sample_draws] obtain o1 h where
    o1: "build_owner_kg_oram sample_shape 2 4 sample_page_config ''alice'' sample_edges sample_draws = Inr (o1, h)"
    by (auto simp: roomy_shape_def sample_shape_def)
  from sample_built [of "''alice''"] obtain l where l: "build_owner_page_layout sample_page_config ''alice'' sample_edges = Inr l"
    by (auto simp: is_ok_iff sample_owner_edges_def get_or_def)
  have "key_in_range sample_page_config (1, 1)" by (simp add: key_in_range_def relation_count_def entity_count_def)
  from kg_oram_reads_paged_layout [OF sample_page_ok o1 l this] o1 l show ?thesis by auto
qed

text \<open>
  what the wide-record preparation accepts: a known owner, a file in which every edge
  validates, and no key with more edges than the record width; it never truncates, and neither
  the page budget nor the frontier bound of the paged layout applies to it.
\<close>

theorem adjacency_records_accept:
  assumes "page_config_ok c"
  shows "is_ok (build_owner_adjacency_records c owner edges) \<longleftrightarrow>
    owner \<in> set (owners (base c)) \<and>
    (\<exists>rows. traverse (validated_edge (base c)) edges = Inr rows \<and> adjacency_fits c rows)"
proof
  assume "is_ok (build_owner_adjacency_records c owner edges)"
  then obtain records where r: "build_owner_adjacency_records c owner edges = Inr records" by (auto simp: is_ok_iff)
  then obtain rows where "owner \<in> set (owners (base c))" "traverse (validated_edge (base c)) edges = Inr rows"
    by (auto simp: build_owner_adjacency_records_def res_simps grouped_edges_Inr)
  with build_adjacency_run(1) [OF assms this] r show "owner \<in> set (owners (base c)) \<and>
      (\<exists>rows. traverse (validated_edge (base c)) edges = Inr rows \<and> adjacency_fits c rows)" by blast
qed (use build_adjacency_run(1) [OF assms] in \<open>auto simp: is_ok_iff\<close>)

theorem adjacency_records_accept_witness:
  "\<not> is_ok (build_owner_adjacency_records sample_page_config ''carol'' sample_edges)"
  using adjacency_records_accept [OF sample_page_ok, of "''carol''" sample_edges] by simp

end
