(* ===== verification/Oram_Epoch.thy ===== *)
theory Oram_Epoch
  imports Kg_Oram
begin

text \<open>
  Epochs of the read-only ORAM backends (\<open>doram_t2_3pc/oram_epoch.py\<close> and
  \<open>doram_t2_3pc/relation_paged_oram_epoch.py\<close>): the authorization record, its validation, and
  the marker file that makes an epoch usable once per server.  The file system is the set of
  marker names in the epoch directory.  A call is also given as a step relation over processes
  that share the directory, since exclusive creation is what excludes a second use when two
  runs race; no interleaving with failing writes and killed processes authorizes twice.
\<close>

section \<open>Authorizations\<close>

definition epoch_id_ok :: "string \<Rightarrow> bool" where
  "epoch_id_ok e \<longleftrightarrow> length e = 64 \<and> list_all (\<lambda>ch. ch \<in> set ''0123456789abcdef'') e"

definition dual_access_counts :: "page_config \<Rightarrow> int \<Rightarrow> (int \<times> int) res" where
  "dual_access_counts c query_count =
     (if query_count < 1 then Inl (ValueError ''query_count must be positive'')
      else
        let logical_reads = query_count * (1 + frontier_slots (pages c) (int (length (owners (base c)))))
        in Inr (logical_reads, logical_reads * pages_per_key (pages c)))"

record kg_authorization =
  kg_epoch :: string
  kg_digest :: string
  kg_queries :: int
  kg_accesses :: int
  kg_frontier :: int
  kg_violations :: int

record dual_authorization =
  dual_epoch :: string
  dual_digest :: string
  dual_queries :: int
  dual_directory_accesses :: int
  dual_page_accesses :: int
  dual_frontier :: int
  dual_violations :: int

definition kg_accepted ::
  "(jval \<Rightarrow> string) \<Rightarrow> page_config \<Rightarrow> string \<Rightarrow> int \<Rightarrow> int \<Rightarrow> kg_authorization res" where
  "kg_accepted H c epoch query_count violations =
     (case global_frontier (pages c) of
        None \<Rightarrow> Inl (ValueError ''KG ORAM deployment requires a federation-wide frontier bound'')
      | Some frontier \<Rightarrow>
          if violations \<noteq> 0 then Inl (ValueError ''cannot authorize an epoch with frontier-bound violations'')
          else if query_count < 1 then Inl (ValueError ''query_count must be positive'')
          else Inr \<lparr>kg_epoch = epoch, kg_digest = page_config_digest H c, kg_queries = query_count,
                 kg_accesses = access_count_per_owner c query_count, kg_frontier = frontier, kg_violations = 0\<rparr>)"

definition kg_validate ::
  "(jval \<Rightarrow> string) \<Rightarrow> page_config \<Rightarrow> kg_authorization \<Rightarrow> string \<Rightarrow> int \<Rightarrow> unit res" where
  "kg_validate H c auth epoch query_count =
     bindr (kg_accepted H c epoch query_count 0) (\<lambda>expected.
       raise_if (auth \<noteq> expected)
         (ValueError ''epoch authorization does not match config, query batch, or access schedule''))"

definition dual_accepted ::
  "(jval \<Rightarrow> string) \<Rightarrow> page_config \<Rightarrow> string \<Rightarrow> int \<Rightarrow> int \<Rightarrow> dual_authorization res" where
  "dual_accepted H c epoch query_count violations =
     (if \<not> epoch_id_ok epoch then Inl (ValueError ''epoch_id must be exactly 64 lowercase hexadecimal characters'')
      else case global_frontier (pages c) of
        None \<Rightarrow> Inl (ValueError ''relation-paged ORAM requires a federation-wide frontier bound'')
      | Some frontier \<Rightarrow>
          if violations \<noteq> 0 then Inl (ValueError ''cannot authorize an epoch with frontier-bound violations'')
          else bindr (dual_access_counts c query_count) (\<lambda>(directory, page).
            Inr \<lparr>dual_epoch = epoch, dual_digest = page_config_digest H c, dual_queries = query_count,
                 dual_directory_accesses = directory, dual_page_accesses = page, dual_frontier = frontier,
                 dual_violations = 0\<rparr>))"

definition dual_validate ::
  "(jval \<Rightarrow> string) \<Rightarrow> page_config \<Rightarrow> dual_authorization \<Rightarrow> string \<Rightarrow> int \<Rightarrow> unit res" where
  "dual_validate H c auth epoch query_count =
     bindr (dual_accepted H c epoch query_count 0) (\<lambda>expected.
       raise_if (auth \<noteq> expected)
         (ValueError ''dual-ORAM epoch authorization does not match the config, query batch, or fixed access schedules''))"

section \<open>Consuming an epoch\<close>

definition server_digit :: "int \<Rightarrow> string" where
  "server_digit server = (if server = 0 then ''0'' else if server = 1 then ''1'' else ''2'')"

definition marker_name :: "string \<Rightarrow> int \<Rightarrow> string \<Rightarrow> string" where
  "marker_name suffix server epoch = ''server-'' @ server_digit server @ ''-'' @ epoch @ suffix"

text \<open>
  Exclusive creation, then the write; an exception of the write removes the marker and is
  raised again.  The file system before, the exception if any; the file system after, the result.
\<close>

definition consume_marker :: "string \<Rightarrow> exn \<Rightarrow> string set \<Rightarrow> exn option \<Rightarrow> string set \<times> string res" where
  "consume_marker marker exists names failure =
     (if marker \<in> names then (names, Inl exists)
      else
        let names = insert marker names in
        (case failure of None \<Rightarrow> (names, Inr marker) | Some e \<Rightarrow> (names - {marker}, Inl e)))"

definition kg_marker :: "int \<Rightarrow> kg_authorization \<Rightarrow> string" where
  "kg_marker server auth = marker_name ''.consumed.json'' server (kg_epoch auth)"

definition consume_epoch_once ::
  "string set \<Rightarrow> int \<Rightarrow> kg_authorization \<Rightarrow> exn option \<Rightarrow> string set \<times> string res" where
  "consume_epoch_once names server auth failure =
     (if server \<notin> {0, 1, 2} then (names, Inl (ValueError ''server must be 0, 1, or 2''))
      else consume_marker (kg_marker server auth)
        (ValueError ''ORAM epoch has already been consumed on this server'') names failure)"

definition consume_relation_paged_oram_epoch_once ::
  "string set \<Rightarrow> int \<Rightarrow> dual_authorization \<Rightarrow> exn option \<Rightarrow> string set \<times> string res" where
  "consume_relation_paged_oram_epoch_once names server auth failure =
     (if server \<notin> {0, 1, 2} then (names, Inl (ValueError ''server must be 0, 1, or 2''))
      else consume_marker (marker_name ''.dual-oram.json'' server (dual_epoch auth))
        (ValueError ''dual-ORAM epoch has already been consumed on this server'') names failure)"

section \<open>Processes that share the directory\<close>

text \<open>
  \<open>writing\<close> holds the markers whose creator has not finished, by process; \<open>authorized\<close> the
  markers that were returned, newest first.
\<close>

record epoch_dir =
  markers :: "string set"
  writing :: "(nat \<times> string) list"
  authorized :: "string list"

datatype epoch_event =
    Create nat string
  | Refuse nat string
  | Authorize nat string
  | Unlink nat string
  | Kill nat string

inductive epoch_step :: "epoch_dir \<Rightarrow> epoch_event \<Rightarrow> epoch_dir \<Rightarrow> bool" where
  create: "m \<notin> markers d \<Longrightarrow> p \<notin> fst ` set (writing d) \<Longrightarrow>
    epoch_step d (Create p m) (d\<lparr>markers := insert m (markers d), writing := (p, m) # writing d\<rparr>)"
| refuse: "m \<in> markers d \<Longrightarrow> p \<notin> fst ` set (writing d) \<Longrightarrow> epoch_step d (Refuse p m) d"
| authorize: "(p, m) \<in> set (writing d) \<Longrightarrow>
    epoch_step d (Authorize p m) (d\<lparr>writing := remove1 (p, m) (writing d), authorized := m # authorized d\<rparr>)"
| unlink: "(p, m) \<in> set (writing d) \<Longrightarrow>
    epoch_step d (Unlink p m) (d\<lparr>writing := remove1 (p, m) (writing d), markers := markers d - {m}\<rparr>)"
| kill: "(p, m) \<in> set (writing d) \<Longrightarrow>
    epoch_step d (Kill p m) (d\<lparr>writing := remove1 (p, m) (writing d)\<rparr>)"

inductive epoch_run :: "epoch_dir \<Rightarrow> epoch_event list \<Rightarrow> epoch_dir \<Rightarrow> bool" where
  stop: "epoch_run d [] d"
| more: "epoch_run d es d' \<Longrightarrow> epoch_step d' e d'' \<Longrightarrow> epoch_run d (es @ [e]) d''"

inductive_cases create_cases: "epoch_step d (Create p m) d'"
inductive_cases refuse_cases: "epoch_step d (Refuse p m) d'"
inductive_cases authorize_cases: "epoch_step d (Authorize p m) d'"

definition idle_dir :: "string set \<Rightarrow> epoch_dir" where
  "idle_dir names = \<lparr>markers = names, writing = [], authorized = []\<rparr>"

definition dir_ok :: "string set \<Rightarrow> epoch_dir \<Rightarrow> bool" where
  "dir_ok names d \<longleftrightarrow>
     distinct (map snd (writing d) @ authorized d) \<and>
     set (map snd (writing d) @ authorized d) \<subseteq> markers d - names \<and> names \<subseteq> markers d"

lemma snd_remove1:
  "(p, m) \<in> set ws \<Longrightarrow> distinct (map snd ws) \<Longrightarrow>
    set (map snd (remove1 (p, m) ws)) = set (map snd ws) - {m}"
proof (induction ws)
  case (Cons w ws)
  show ?case
  proof (cases "w = (p, m)")
    case True
    with Cons.prems show ?thesis by (simp add: image_iff)
  next
    case False
    with Cons.prems(1) have "(p, m) \<in> set ws" by auto
    moreover have "m \<in> set (map snd ws)" using imageI [OF calculation, of snd] by simp
    moreover have "snd w \<notin> set (map snd ws)" using Cons.prems(2) by simp
    ultimately show ?thesis using False Cons by auto
  qed
qed simp

lemma distinct_snd_remove1: "distinct (map snd ws) \<Longrightarrow> distinct (map snd (remove1 x ws))"
  using set_remove1_subset [of x ws] by (auto simp: distinct_map distinct_remove1 intro: inj_on_subset)

text \<open>A finished process releases its marker to nobody: what is written or authorized stays apart.\<close>

lemma dir_ok_finish:
  assumes ok: "dir_ok names d" and held: "(p, m) \<in> set (writing d)"
  shows "m \<in> markers d" and "m \<notin> names" and "m \<notin> set (authorized d)"
    and "distinct (map snd (remove1 (p, m) (writing d)))"
    and "set (map snd (remove1 (p, m) (writing d))) = set (map snd (writing d)) - {m}"
proof -
  have "m \<in> set (map snd (writing d))" using imageI [OF held, of snd] by simp
  with ok show "m \<in> markers d" and "m \<notin> names" and "m \<notin> set (authorized d)"
    unfolding dir_ok_def distinct_append set_append by blast+
  have "distinct (map snd (writing d))" using ok by (simp add: dir_ok_def)
  then show "distinct (map snd (remove1 (p, m) (writing d)))"
    and "set (map snd (remove1 (p, m) (writing d))) = set (map snd (writing d)) - {m}"
    by (rule distinct_snd_remove1, rule snd_remove1 [OF held])
qed

lemma epoch_step_ok: "epoch_step d e d' \<Longrightarrow> dir_ok names d \<Longrightarrow> dir_ok names d'"
proof (induction rule: epoch_step.induct)
  case (create m d p)
  then show ?case by (auto simp: dir_ok_def)
next
  case (authorize p m d)
  note f = dir_ok_finish [OF authorize(2,1)]
  from authorize(2) f show ?case unfolding dir_ok_def distinct_append set_append by (simp del: set_map) blast
next
  case (unlink p m d)
  note f = dir_ok_finish [OF unlink(2,1)]
  from unlink(2) f show ?case unfolding dir_ok_def distinct_append set_append by (simp del: set_map) blast
next
  case (kill p m d)
  note f = dir_ok_finish [OF kill(2,1)]
  from kill(2) f show ?case unfolding dir_ok_def distinct_append set_append by (simp del: set_map) blast
qed simp

lemma epoch_run_ok: "epoch_run d es d' \<Longrightarrow> dir_ok names d \<Longrightarrow> dir_ok names d'"
  by (induction rule: epoch_run.induct) (auto intro: epoch_step_ok)

lemma idle_dir_ok: "dir_ok names (idle_dir names)"
  by (simp add: dir_ok_def idle_dir_def)

section \<open>A call is a run of its process\<close>

text \<open>The events of one \<open>consume_marker\<close> call made by process \<open>p\<close>.\<close>

definition consume_events :: "nat \<Rightarrow> string \<Rightarrow> string set \<Rightarrow> exn option \<Rightarrow> epoch_event list" where
  "consume_events p m names failure =
     (if m \<in> names then [Refuse p m]
      else [Create p m, case failure of None \<Rightarrow> Authorize p m | Some e \<Rightarrow> Unlink p m])"

lemma epoch_run_one: "epoch_step d e d' \<Longrightarrow> epoch_run d [e] d'"
  using more [OF stop, of d e d'] by simp

lemma epoch_run_two: "epoch_step d e d' \<Longrightarrow> epoch_step d' f d'' \<Longrightarrow> epoch_run d [e, f] d''"
  using more [OF epoch_run_one, of d e d' f d''] by simp

lemma consume_marker_run:
  assumes "p \<notin> fst ` set (writing d)"
  shows "epoch_run d (consume_events p m (markers d) failure)
    (d\<lparr>markers := fst (consume_marker m e (markers d) failure),
       authorized := (case snd (consume_marker m e (markers d) failure) of Inl x \<Rightarrow> authorized d | Inr n \<Rightarrow> n # authorized d)\<rparr>)"
proof (cases "m \<in> markers d")
  case True
  then have "epoch_step d (Refuse p m) d" using assms by (rule refuse)
  then show ?thesis using True by (simp add: consume_events_def consume_marker_def epoch_run_one)
next
  case False
  let ?c = "d\<lparr>markers := insert m (markers d), writing := (p, m) # writing d\<rparr>"
  have c: "epoch_step d (Create p m) ?c" using False assms by (rule create)
  have held: "(p, m) \<in> set (writing ?c)" by simp
  show ?thesis
  proof (cases failure)
    case None
    then show ?thesis using epoch_run_two [OF c authorize [OF held]] False
      by (simp add: consume_events_def consume_marker_def)
  next
    case (Some x)
    then show ?thesis using epoch_run_two [OF c unlink [OF held]] False
      by (simp add: consume_events_def consume_marker_def)
  qed
qed

section \<open>Properties\<close>

lemma server_digit_inj: "s \<in> {0, 1, 2} \<Longrightarrow> t \<in> {0, 1, 2} \<Longrightarrow> server_digit s = server_digit t \<Longrightarrow> s = t"
  by (auto simp: server_digit_def split: if_splits)

lemma marker_name_inj:
  assumes "marker_name suffix s e = marker_name suffix t f" and "s \<in> {0, 1, 2}" and "t \<in> {0, 1, 2}"
  shows "s = t \<and> e = f"
  using assms by (auto simp: marker_name_def server_digit_def split: if_splits)

text \<open>
  C29: an epoch is authorized at most once per server.  In every interleaving of processes that
  open, write, fail, unlink or are killed, starting from a directory with the markers \<open>names\<close>,
  no marker is returned twice and none that was there at the start is returned; every returned
  marker is still in the directory.
\<close>

theorem epoch_never_reused:
  assumes "epoch_run (idle_dir names) es d"
  shows "distinct (authorized d) \<and> set (authorized d) \<inter> names = {} \<and> names \<union> set (authorized d) \<subseteq> markers d"
  using epoch_run_ok [OF assms idle_dir_ok] by (auto simp: dir_ok_def)

text \<open>
  a call of \<open>consume_epoch_once\<close> is a run of its process in the shared directory: the same
  markers, and the returned marker authorized exactly when the call returns one.  So whatever
  holds of every interleaving holds of the calls.
\<close>

theorem consume_call_is_a_run:
  assumes server: "server \<in> {0, 1, 2}" and idle: "p \<notin> fst ` set (writing d)"
  shows "epoch_run d (consume_events p (kg_marker server auth) (markers d) failure)
    (d\<lparr>markers := fst (consume_epoch_once (markers d) server auth failure),
       authorized := (case snd (consume_epoch_once (markers d) server auth failure) of
         Inl e \<Rightarrow> authorized d | Inr n \<Rightarrow> n # authorized d)\<rparr>)"
proof -
  have "consume_epoch_once (markers d) server auth failure =
    consume_marker (kg_marker server auth) (ValueError ''ORAM epoch has already been consumed on this server'')
      (markers d) failure"
    using server by (simp add: consume_epoch_once_def)
  then show ?thesis using consume_marker_run [OF idle] by simp
qed

text \<open>The same of the dual-stack backend's call.\<close>

theorem dual_consume_call_is_a_run:
  assumes server: "server \<in> {0, 1, 2}" and idle: "p \<notin> fst ` set (writing d)"
  shows "epoch_run d (consume_events p (marker_name ''.dual-oram.json'' server (dual_epoch auth)) (markers d) failure)
    (d\<lparr>markers := fst (consume_relation_paged_oram_epoch_once (markers d) server auth failure),
       authorized := (case snd (consume_relation_paged_oram_epoch_once (markers d) server auth failure) of
         Inl e \<Rightarrow> authorized d | Inr n \<Rightarrow> n # authorized d)\<rparr>)"
proof -
  have "consume_relation_paged_oram_epoch_once (markers d) server auth failure =
    consume_marker (marker_name ''.dual-oram.json'' server (dual_epoch auth))
      (ValueError ''dual-ORAM epoch has already been consumed on this server'') (markers d) failure"
    using server by (simp add: consume_relation_paged_oram_epoch_once_def)
  then show ?thesis using consume_marker_run [OF idle] by simp
qed

definition demo_authorization :: kg_authorization where
  "demo_authorization = \<lparr>kg_epoch = ''e1'', kg_digest = ''d'', kg_queries = 1, kg_accesses = 3, kg_frontier = 2, kg_violations = 0\<rparr>"

theorem consume_call_is_a_run_witness:
  "epoch_run (idle_dir {}) [Create 4 ''server-2-e1.consumed.json'', Authorize 4 ''server-2-e1.consumed.json'']
     \<lparr>markers = {''server-2-e1.consumed.json''}, writing = [], authorized = [''server-2-e1.consumed.json'']\<rparr>"
  using consume_call_is_a_run [of 2 4 "idle_dir {}" demo_authorization None]
  by (simp add: idle_dir_def consume_events_def consume_epoch_once_def consume_marker_def kg_marker_def
      marker_name_def server_digit_def demo_authorization_def)

text \<open>Two processes race for one marker: the second is refused, the first is authorized.\<close>

lemma epoch_race:
  "epoch_run (idle_dir {''a''}) [Create 0 ''b'', Refuse 1 ''b'', Authorize 0 ''b'']
     \<lparr>markers = {''b'', ''a''}, writing = [], authorized = [''b'']\<rparr>"
proof -
  let ?c = "\<lparr>markers = {''b'', ''a''}, writing = [(0::nat, ''b'')], authorized = []\<rparr>"
  have "epoch_step (idle_dir {''a''}) (Create 0 ''b'') ?c"
    using create [of "''b''" "idle_dir {''a''}" 0] by (simp add: idle_dir_def)
  moreover have "epoch_step ?c (Refuse 1 ''b'') ?c" by (rule refuse) auto
  ultimately have "epoch_run (idle_dir {''a''}) [Create 0 ''b'', Refuse 1 ''b''] ?c" by (rule epoch_run_two)
  moreover have "epoch_step ?c (Authorize 0 ''b'') \<lparr>markers = {''b'', ''a''}, writing = [], authorized = [''b'']\<rparr>"
    using authorize [of 0 "''b''" ?c] by simp
  ultimately show ?thesis using more by fastforce
qed

theorem epoch_never_reused_witness:
  "\<exists>d. epoch_run (idle_dir {''a''}) [Create 0 ''b'', Refuse 1 ''b'', Authorize 0 ''b''] d \<and>
    authorized d = [''b''] \<and> distinct (authorized d) \<and> set (authorized d) \<inter> {''a''} = {} \<and>
    {''a''} \<union> set (authorized d) \<subseteq> markers d"
proof -
  let ?d = "\<lparr>markers = {''b'', ''a''}, writing = [], authorized = [''b'']\<rparr>"
  have "distinct (authorized ?d) \<and> set (authorized ?d) \<inter> {''a''} = {} \<and> {''a''} \<union> set (authorized ?d) \<subseteq> markers ?d"
    by (rule epoch_never_reused [OF epoch_race])
  moreover have "authorized ?d = [''b'']" by simp
  ultimately show ?thesis using epoch_race by blast
qed

end
