(* ===== verification/Oram_Inputs.thy ===== *)
theory Oram_Inputs
  imports Oram_Epoch Oram_Bounds
begin

text \<open>
  Role-separated inputs of the two ORAM backends (\<open>doram_t2_3pc/kg_oram_shares.py\<close>,
  \<open>doram_t2_3pc/relation_paged_oram_shares.py\<close> and \<open>planned_shape\<close> of
  \<open>doram_t2_3pc/relation_paged_oram_program.py\<close>): what an owner and the client hand to each
  server, and what a server checks before it concatenates.  Both backends check the same
  things, over different shapes and authorizations; the check is one definition, its honest run
  is proved once in the locale \<open>input_epoch\<close>.
\<close>

section \<open>Shards\<close>

record 's owner_shard =
  shard_epoch :: string
  shard_digest :: string
  shard_owner :: string
  shard_index :: int
  shard_server :: int
  shard_shape :: 's
  shard_values :: "int list"

record oram_query_shard =
  query_epoch :: string
  query_digest :: string
  query_number :: int
  query_server :: int
  query_values :: "int list"

definition owner_shard_list ::
  "(jval \<Rightarrow> string) \<Rightarrow> page_config \<Rightarrow> string \<Rightarrow> string \<Rightarrow> int \<Rightarrow> 's \<Rightarrow> shared_vector \<Rightarrow> 's owner_shard list" where
  "owner_shard_list H c epoch owner owner_index shape pieces =
     map (\<lambda>server. \<lparr>shard_epoch = epoch, shard_digest = page_config_digest H c, shard_owner = owner,
         shard_index = owner_index, shard_server = int server, shard_shape = shape,
         shard_values = server_vector server pieces\<rparr>)
       [0..<SERVER_COUNT]"

definition check_owner_identity :: "page_config \<Rightarrow> string \<Rightarrow> string \<Rightarrow> int \<Rightarrow> unit res" where
  "check_owner_identity c epoch owner owner_index =
     (if \<not> epoch_id_ok epoch then Inl (ValueError ''epoch_id must be exactly 64 lowercase hexadecimal characters'')
      else if \<not> (0 \<le> owner_index \<and> owner_index < int (length (owners (base c))))
      then Inl (ValueError ''owner_index is outside the federation'')
      else raise_if (owner \<noteq> owners (base c) ! nat owner_index) (ValueError ''owner identity does not match owner_index''))"

definition flatten_kg_stack :: "owner_kg_oram \<Rightarrow> int list" where
  "flatten_kg_stack o1 = flatten_stack_physical (kg_stack o1)"

definition kg_create_owner_shards ::
  "(jval \<Rightarrow> string) \<Rightarrow> page_config \<Rightarrow> owner_kg_oram \<Rightarrow> int \<Rightarrow> int \<Rightarrow> string \<Rightarrow> rng \<Rightarrow> (access_shape owner_shard list \<times> rng) res" where
  "kg_create_owner_shards H c o1 owner_index query_count epoch g =
     bindr (check_owner_identity c epoch (kg_owner o1) owner_index) (\<lambda>_.
     bindr (from_stack (kg_stack o1) (access_count_per_owner c query_count)) (\<lambda>shape.
     bindr (share_vector (field_prime (base c)) (flatten_kg_stack o1) g) (\<lambda>(pieces, g).
       Inr (owner_shard_list H c epoch (kg_owner o1) owner_index shape pieces, g))))"

record dual_shape =
  dual_directory :: access_shape
  dual_pages :: access_shape

definition dual_owner_values :: "dual_shape \<Rightarrow> nat" where
  "dual_owner_values s = shape_owner_values (dual_directory s) + shape_owner_values (dual_pages s)"

definition shape_for_owner :: "page_config \<Rightarrow> owner_paged_oram \<Rightarrow> int \<Rightarrow> dual_shape res" where
  "shape_for_owner c o1 query_count =
     bindr (dual_access_counts c query_count) (\<lambda>(directory_accesses, page_accesses).
     bindr (from_stack (directory_stack o1) directory_accesses) (\<lambda>d.
     bindr (from_stack (page_stack o1) page_accesses) (\<lambda>p.
       Inr \<lparr>dual_directory = d, dual_pages = p\<rparr>)))"

definition dual_common_shape :: "page_config \<Rightarrow> owner_paged_oram list \<Rightarrow> int \<Rightarrow> dual_shape res" where
  "dual_common_shape c os query_count =
     (if map oram_owner os \<noteq> owners (base c)
      then Inl (ValueError ''owners must appear exactly in public federation order'')
      else
      bindr (traverse (\<lambda>o1. shape_for_owner c o1 query_count) os) (\<lambda>shapes.
      case shapes of
        [] \<Rightarrow> Inl (ValueError ''every owner must have the same public dual-ORAM shape'')
      | s # rest \<Rightarrow>
          if list_ex (\<lambda>s'. s' \<noteq> s) rest then Inl (ValueError ''every owner must have the same public dual-ORAM shape'')
          else Inr s))"

definition dual_planned_shape ::
  "(nat \<Rightarrow> (nat \<times> nat) res) \<Rightarrow> nat \<Rightarrow> nat \<Rightarrow> page_config \<Rightarrow> int \<Rightarrow> dual_shape res" where
  "dual_planned_shape shape chi threshold c query_count =
     (if uses_hybrid_directory c \<or> uses_compact_directory (pages c)
      then Inl (ValueError ''dual-ORAM circuit currently requires a dense directory'')
      else if chi < 2 \<or> Bit_Operations.and chi (chi - 1) \<noteq> 0 then Inl (ValueError ''chi must be a power of two'')
      else
      bindr (dual_access_counts c query_count) (\<lambda>(directory_accesses, page_accesses).
      bindr (directory_rows c) (\<lambda>rows.
      bindr (planned_stack shape chi threshold 1 (nat rows) directory_accesses) (\<lambda>d.
      bindr (planned_stack shape chi threshold (nat (page_size (pages c))) (nat (pool_rows (pages c))) page_accesses) (\<lambda>p.
        Inr \<lparr>dual_directory = d, dual_pages = p\<rparr>)))))"

definition flatten_relation_paged_oram :: "owner_paged_oram \<Rightarrow> int list" where
  "flatten_relation_paged_oram o1 = flatten_stack_physical (directory_stack o1) @ flatten_stack_physical (page_stack o1)"

definition dual_create_owner_shards ::
  "(jval \<Rightarrow> string) \<Rightarrow> page_config \<Rightarrow> owner_paged_oram \<Rightarrow> int \<Rightarrow> int \<Rightarrow> string \<Rightarrow> rng \<Rightarrow> (dual_shape owner_shard list \<times> rng) res" where
  "dual_create_owner_shards H c o1 owner_index query_count epoch g =
     bindr (check_owner_identity c epoch (oram_owner o1) owner_index) (\<lambda>_.
     bindr (shape_for_owner c o1 query_count) (\<lambda>shape.
     bindr (share_vector (field_prime (base c)) (flatten_relation_paged_oram o1) g) (\<lambda>(pieces, g).
       Inr (owner_shard_list H c epoch (oram_owner o1) owner_index shape pieces, g))))"

section \<open>The client's queries\<close>

text \<open>\<open>except KeyError\<close> alone: a query value that is a list raises \<open>TypeError\<close>.\<close>

definition except_key :: "exn \<Rightarrow> 'a res \<Rightarrow> 'a res" where
  "except_key e m = (case m of Inl KeyError \<Rightarrow> Inl e | _ \<Rightarrow> m)"

definition oram_query_ids :: "public_config \<Rightarrow> jval \<Rightarrow> (int \<times> int \<times> int) res" where
  "oram_query_ids c q =
     bindr (keys_are query_keys q) (\<lambda>exact.
     if \<not> exact then Inl (ValueError ''each query requires source, relation_1, and relation_2'')
     else except_key (ValueError ''query contains an unknown ontology item'')
       (bindr (bindr (jitem q ''source'') (vocab_get (entities c))) (\<lambda>source.
        bindr (bindr (jitem q ''relation_1'') (vocab_get (relations c))) (\<lambda>relation_1.
        bindr (bindr (jitem q ''relation_2'') (vocab_get (relations c))) (\<lambda>relation_2.
          Inr (source, relation_1, relation_2))))))"

definition create_oram_query_shards ::
  "(jval \<Rightarrow> string) \<Rightarrow> page_config \<Rightarrow> jval list \<Rightarrow> string \<Rightarrow> rng \<Rightarrow> (oram_query_shard list \<times> rng) res" where
  "create_oram_query_shards H c queries epoch g =
     (if \<not> epoch_id_ok epoch then Inl (ValueError ''epoch_id must be exactly 64 lowercase hexadecimal characters'')
      else if queries = [] then Inl (ValueError ''query batch must not be empty'')
      else
      bindr (traverse (oram_query_ids (base c)) queries) (\<lambda>ids.
      bindr (share_vector (field_prime (base c)) (concat (map query_triple ids)) g) (\<lambda>(pieces, g).
        Inr (map (\<lambda>server. \<lparr>query_epoch = epoch, query_digest = page_config_digest H c,
               query_number = int (length queries), query_server = int server,
               query_values = server_vector server pieces\<rparr>)
             [0..<SERVER_COUNT], g))))"

section \<open>Assembly by a server\<close>

definition shard_metadata :: "'s owner_shard \<Rightarrow> string \<times> string \<times> int \<times> 's" where
  "shard_metadata shard = (shard_epoch shard, shard_digest shard, shard_server shard, shard_shape shard)"

definition assemble_shards ::
  "string list \<Rightarrow> string \<Rightarrow> ('s \<Rightarrow> nat) \<Rightarrow> (string \<Rightarrow> int \<Rightarrow> unit res) \<Rightarrow> int \<Rightarrow> 's owner_shard list \<Rightarrow>
     oram_query_shard \<Rightarrow> ('s \<times> int list) res" where
  "assemble_shards names digest1 width validate1 server shards query =
     (if server \<notin> {0, 1, 2} \<or> query_server query \<noteq> server
      then Inl (ValueError ''query shard is assigned to another server'')
      else
      let ordered = sort_key shard_index shards in
      if map shard_owner ordered \<noteq> names
      then Inl (ValueError ''owner shards are missing, duplicated, or out of federation order'')
      else case remdups (map shard_metadata ordered) of
        [(epoch, digest2, shard_server1, shape)] \<Rightarrow>
          if shard_server1 \<noteq> server \<or> digest2 \<noteq> digest1
          then Inl (ValueError ''owner shard metadata does not match this server/config'')
          else if (query_epoch query, query_digest query) \<noteq> (epoch, digest2)
          then Inl (ValueError ''query and owner shards belong to different epochs/configs'')
          else
          bindr (validate1 epoch (query_number query)) (\<lambda>_.
          if list_ex (\<lambda>shard. length (shard_values shard) \<noteq> width shape) ordered
          then Inl (ValueError ''owner shard has an invalid private-input length'')
          else if int (length (query_values query)) \<noteq> query_number query * 3
          then Inl (ValueError ''query shard has an invalid private-input length'')
          else Inr (shape, concat (map shard_values ordered) @ query_values query))
      | _ \<Rightarrow> Inl (ValueError ''owner shards disagree on epoch, config, server, or ORAM shape''))"

definition kg_assemble_server_input ::
  "(jval \<Rightarrow> string) \<Rightarrow> page_config \<Rightarrow> int \<Rightarrow> access_shape owner_shard list \<Rightarrow> oram_query_shard \<Rightarrow> kg_authorization \<Rightarrow>
     (access_shape \<times> int list) res" where
  "kg_assemble_server_input H c server shards query auth =
     assemble_shards (owners (base c)) (page_config_digest H c) shape_owner_values (kg_validate H c auth) server shards query"

definition dual_assemble_server_input ::
  "(jval \<Rightarrow> string) \<Rightarrow> page_config \<Rightarrow> int \<Rightarrow> dual_shape owner_shard list \<Rightarrow> oram_query_shard \<Rightarrow> dual_authorization \<Rightarrow>
     (dual_shape \<times> int list) res" where
  "dual_assemble_server_input H c server shards query auth =
     assemble_shards (owners (base c)) (page_config_digest H c) dual_owner_values (dual_validate H c auth) server shards query"

section \<open>Reconstruction of concatenated inputs\<close>

lemma combine_append:
  assumes "combine_vector f (as, bs, cs) = Inr u" and "combine_vector f (xs, ys, zs) = Inr v"
    and "length as = length bs" and "length bs = length cs"
  shows "combine_vector f (as @ xs, bs @ ys, cs @ zs) = Inr (u @ v)"
  using assms by (simp add: combine_vector_def traverse_append)

lemma combine_shared:
  assumes "share_vector m vs g = Inr (sv, h)"
  shows "combine_vector (reconstruct m) (server_vector 0 sv, server_vector 1 sv, server_vector 2 sv) = Inr vs"
proof -
  obtain as bs cs where sv: "sv = (as, bs, cs)" by (metis prod.exhaust)
  with assms field.combine_deal_vector [of m vs g sv h] show ?thesis by (simp add: share_vector_def server_vector_def)
qed

lemma combine_concat:
  assumes "\<And>i. i \<in> set is \<Longrightarrow> share_vector m (vec i) (g i) = Inr (sv i, h i)"
  shows "combine_vector (reconstruct m) (concat (map (\<lambda>i. server_vector 0 (sv i)) is),
      concat (map (\<lambda>i. server_vector 1 (sv i)) is), concat (map (\<lambda>i. server_vector 2 (sv i)) is)) =
    Inr (concat (map vec is))"
  using assms
proof (induction "is")
  case (Cons i "is")
  then have here: "share_vector m (vec i) (g i) = Inr (sv i, h i)" by simp
  from combine_append [OF combine_shared [OF here] Cons.IH] Cons.prems length_server_vector [OF here]
  show ?case by simp
qed (simp add: combine_vector_def)

section \<open>The honest run\<close>

text \<open>What \<open>issue\<close> hands out, \<open>accept\<close> accepts for the same epoch and query count.\<close>

locale input_epoch =
  fixes issue :: "string \<Rightarrow> int \<Rightarrow> 'a res" and accept :: "'a \<Rightarrow> string \<Rightarrow> int \<Rightarrow> unit res"
  assumes issue_accept: "issue e n = Inr a \<Longrightarrow> accept a e n = Inr ()"
begin

lemma assemble_honest:
  assumes s: "s < SERVER_COUNT" and n: "0 < length names" and order: "distinct order" "set order = {..<length names}"
    and auth: "issue e k = Inr a" and width: "\<And>i. i < length names \<Longrightarrow> length (vals i) = width shape"
    and q: "int (length qvals) = k * 3"
  shows "assemble_shards names d width (accept a) (int s)
      (map (\<lambda>i. \<lparr>shard_epoch = e, shard_digest = d, shard_owner = names ! i, shard_index = int i,
           shard_server = int s, shard_shape = shape, shard_values = vals i\<rparr>) order)
      \<lparr>query_epoch = e, query_digest = d, query_number = k, query_server = int s, query_values = qvals\<rparr> =
    Inr (shape, concat (map vals [0..<length names]) @ qvals)"
proof -
  let ?shard = "\<lambda>i. \<lparr>shard_epoch = e, shard_digest = d, shard_owner = names ! i, shard_index = int i,
      shard_server = int s, shard_shape = shape, shard_values = vals i\<rparr>"
  let ?ordered = "map ?shard [0..<length names]"
  have mset: "mset order = mset [0..<length names]"
    using order by (subst set_eq_iff_mset_eq_distinct [symmetric]) (auto simp: atLeast0LessThan)
  have "sort_key shard_index (map ?shard order) = ?ordered"
  proof (rule sort_key_inj_key_eq)
    show "mset (map ?shard order) = mset ?ordered" using mset by (simp only: mset_map)
    show "inj_on shard_index (set (map ?shard order))" by (auto simp: inj_on_def)
    show "sorted (map shard_index ?ordered)" by (simp add: comp_def sorted_iff_nth_mono)
  qed
  moreover have "map shard_owner ?ordered = names" by (simp add: comp_def map_nth)
  moreover have "remdups (map shard_metadata ?ordered) = [(e, d, int s, shape)]"
  proof -
    have "map shard_metadata ?ordered = replicate (length names) (e, d, int s, shape)"
      by (rule nth_equalityI) (simp_all add: shard_metadata_def)
    moreover have "remdups (replicate m x) = [x]" if "0 < m" for m and x :: "string \<times> string \<times> int \<times> 's"
      using that by (induction m) auto
    ultimately show ?thesis using n by (simp only:)
  qed
  moreover have "\<not> list_ex (\<lambda>shard. length (shard_values shard) \<noteq> width shape) ?ordered"
    using width by (auto simp: list_ex_iff)
  moreover have "int s \<in> {0, 1, 2}" using s by (auto simp: SERVER_COUNT_def)
  ultimately show ?thesis
    using issue_accept [OF auth] q by (simp add: assemble_shards_def Let_def comp_def)
qed

lemma inputs_reconstruct:
  assumes n: "0 < length names" and auth: "issue e k = Inr a"
    and order: "\<And>s. s < SERVER_COUNT \<Longrightarrow> distinct (order s) \<and> set (order s) = {..<length names}"
    and t: "\<And>i. i < length names \<Longrightarrow> share_vector p (vec i) (g i) = Inr (sv i, h i) \<and> length (vec i) = width shape"
    and q: "share_vector p qs gq = Inr (qv, hq)" "int (length qs) = k * 3"
    and docs: "\<And>i s. i < length names \<Longrightarrow> s < SERVER_COUNT \<Longrightarrow> docs i ! s = \<lparr>shard_epoch = e, shard_digest = d,
      shard_owner = names ! i, shard_index = int i, shard_server = int s, shard_shape = shape,
      shard_values = server_vector s (sv i)\<rparr>"
    and qdocs: "\<And>s. s < SERVER_COUNT \<Longrightarrow> qdocs ! s = \<lparr>query_epoch = e, query_digest = d, query_number = k,
      query_server = int s, query_values = server_vector s qv\<rparr>"
  shows "\<exists>a0 a1 a2.
    assemble_shards names d width (accept a) 0 (map (\<lambda>i. docs i ! 0) (order 0)) (qdocs ! 0) = Inr (shape, a0) \<and>
    assemble_shards names d width (accept a) 1 (map (\<lambda>i. docs i ! 1) (order 1)) (qdocs ! 1) = Inr (shape, a1) \<and>
    assemble_shards names d width (accept a) 2 (map (\<lambda>i. docs i ! 2) (order 2)) (qdocs ! 2) = Inr (shape, a2) \<and>
    combine_vector (reconstruct p) (a0, a1, a2) = Inr (concat (map vec [0..<length names]) @ qs) \<and>
    length a0 = length names * width shape + length qs"
proof -
  let ?a = "\<lambda>s. concat (map (\<lambda>i. server_vector s (sv i)) [0..<length names]) @ server_vector s qv"
  have run: "assemble_shards names d width (accept a) (int s) (map (\<lambda>i. docs i ! s) (order s)) (qdocs ! s) =
      Inr (shape, ?a s)" if s: "s < SERVER_COUNT" for s
  proof -
    have ord: "distinct (order s)" "set (order s) = {..<length names}" using order [OF s] by blast+
    have len: "length (server_vector s (sv i)) = width shape" if "i < length names" for i
      using t [OF that] length_server_vector by metis
    have all: "map (\<lambda>i. docs i ! s) (order s) = map (\<lambda>i. \<lparr>shard_epoch = e, shard_digest = d, shard_owner = names ! i,
        shard_index = int i, shard_server = int s, shard_shape = shape, shard_values = server_vector s (sv i)\<rparr>) (order s)"
      using docs s ord(2) by (intro map_cong) auto
    have "int (length (server_vector s qv)) = k * 3" using length_server_vector [OF q(1)] q(2) by simp
    then show ?thesis
      unfolding all qdocs [OF s]
      by (intro assemble_honest [where vals = "\<lambda>i. server_vector s (sv i)"] s n ord auth len)
  qed
  have "combine_vector (reconstruct p) (?a 0, ?a 1, ?a 2) = Inr (concat (map vec [0..<length names]) @ qs)"
  proof (rule combine_append)
    show "combine_vector (reconstruct p) (concat (map (\<lambda>i. server_vector 0 (sv i)) [0..<length names]),
        concat (map (\<lambda>i. server_vector 1 (sv i)) [0..<length names]),
        concat (map (\<lambda>i. server_vector 2 (sv i)) [0..<length names])) = Inr (concat (map vec [0..<length names]))"
      by (rule combine_concat) (use t in auto)
    show "combine_vector (reconstruct p) (server_vector 0 qv, server_vector 1 qv, server_vector 2 qv) = Inr qs"
      by (rule combine_shared [OF q(1)])
    have "length (server_vector s (sv i)) = length (vec i)" if "i < length names" for s i
      using t [OF that] length_server_vector by metis
    then have same: "length (concat (map (\<lambda>i. server_vector s (sv i)) [0..<length names])) =
        sum_list (map (\<lambda>i. length (vec i)) [0..<length names])" for s
      by (simp add: length_concat comp_def) (intro arg_cong [where f = sum_list] map_cong, auto)
    show "length (concat (map (\<lambda>i. server_vector 0 (sv i)) [0..<length names])) =
        length (concat (map (\<lambda>i. server_vector 1 (sv i)) [0..<length names]))"
      "length (concat (map (\<lambda>i. server_vector 1 (sv i)) [0..<length names])) =
        length (concat (map (\<lambda>i. server_vector 2 (sv i)) [0..<length names]))"
      by (simp_all only: same)
  qed
  moreover have "length (?a 0) = length names * width shape + length qs"
  proof -
    have "length (server_vector 0 (sv i)) = width shape" if "i < length names" for i
      using t [OF that] length_server_vector by metis
    then have "length (concat (map (\<lambda>i. server_vector 0 (sv i)) [0..<length names])) = length names * width shape"
      by (subst length_concat_uniform [of _ "width shape"]) auto
    with length_server_vector [OF q(1)] show ?thesis by simp
  qed
  ultimately show ?thesis
    using run [of 0] run [of 1] run [of 2] unfolding SERVER_COUNT_def by auto
qed

end

interpretation kg_inputs: input_epoch "\<lambda>e n. kg_accepted H c e n 0" "kg_validate H c" for H c
  by unfold_locales (simp add: kg_validate_def)

interpretation dual_inputs: input_epoch "\<lambda>e n. dual_accepted H c e n 0" "dual_validate H c" for H c
  by unfold_locales (simp add: dual_validate_def)

lemma owner_shard_list_nth [simp]:
  "s < SERVER_COUNT \<Longrightarrow> owner_shard_list H c e name i shape pieces ! s =
    \<lparr>shard_epoch = e, shard_digest = page_config_digest H c, shard_owner = name, shard_index = i,
     shard_server = int s, shard_shape = shape, shard_values = server_vector s pieces\<rparr>"
  by (simp add: owner_shard_list_def)

lemma check_identity_Inr:
  assumes "check_owner_identity c e name (int i) = Inr u"
  shows "epoch_id_ok e" and "i < length (owners (base c))" and "name = owners (base c) ! i"
  using assms by (auto simp: check_owner_identity_def res_simps split: if_splits)

lemma query_shards_Inr:
  assumes "create_oram_query_shards H c queries e g = Inr (qdocs, h)"
  obtains ids pieces where "traverse (oram_query_ids (base c)) queries = Inr ids"
    and "share_vector (field_prime (base c)) (concat (map query_triple ids)) g = Inr (pieces, h)"
    and "\<And>s. s < SERVER_COUNT \<Longrightarrow> qdocs ! s = \<lparr>query_epoch = e, query_digest = page_config_digest H c,
      query_number = int (length queries), query_server = int s, query_values = server_vector s pieces\<rparr>"
    and "length (concat (map query_triple ids)) = length queries * 3"
proof -
  from assms obtain ids pieces where r: "traverse (oram_query_ids (base c)) queries = Inr ids"
      "share_vector (field_prime (base c)) (concat (map query_triple ids)) g = Inr (pieces, h)"
    and d: "qdocs = map (\<lambda>server. \<lparr>query_epoch = e, query_digest = page_config_digest H c,
      query_number = int (length queries), query_server = int server, query_values = server_vector server pieces\<rparr>)
      [0..<SERVER_COUNT]"
    by (auto simp: create_oram_query_shards_def res_simps split: if_splits)
  show thesis
    by (rule that [OF r]) (use length_traverse [OF r(1)] in \<open>simp_all add: d length_concat_query_triples\<close>)
qed

text \<open>
  The three servers' inputs, when all owners' shards carry one shape: every server accepts,
  whatever the order of the files, and the inputs are shares of the owners' vectors in
  federation order followed by the queries.
\<close>

section \<open>Every owner has the planned shape\<close>

lemma from_stack_values: "from_stack st n = Inr s \<Longrightarrow> shape_owner_values s = stack_shared_values st"
  by (auto simp: from_stack_def shape_owner_values_def stack_shared_values_def level_shape_of_def comp_def split: if_splits)

lemma kg_shape_planned:
  assumes ok: "page_config_ok c" and built: "build_owner_kg_oram shape chi threshold c name edges g = Inr (o1, h)"
    and s: "from_stack (kg_stack o1) (access_count_per_owner c n) = Inr s"
  shows "kg_planned_shape shape chi threshold c n = Inr s" and "kg_owner o1 = name"
    and "length (flatten_kg_stack o1) = shape_owner_values s"
proof -
  from built obtain records where recs: "build_owner_adjacency_records c name edges = Inr records" "2 \<le> length records"
    and st: "build_owner_oram_stack shape chi threshold records g = Inr (kg_stack o1, h)" and name: "kg_owner o1 = name"
    by (auto simp: build_owner_kg_oram_def res_simps split: if_splits)
  from recs(1) obtain rows where "name \<in> set (owners (base c))" "traverse (validated_edge (base c)) edges = Inr rows"
    by (auto simp: build_owner_adjacency_records_def res_simps grouped_edges_Inr)
  from build_adjacency_run(2) [OF ok this recs(1)] have "length records = nat (entity_count (base c) * relation_count c)" by blast
  moreover have "hd records \<in> set records" using recs(2) by (intro hd_in_set) auto
  then have "length (hd records) = nat (slots_per_key (pages c))" using adjacency_rows_width [OF recs(1)] by blast
  ultimately show "kg_planned_shape shape chi threshold c n = Inr s"
    using planned_stack_built [OF st s] by (simp add: kg_planned_shape_def)
  show "length (flatten_kg_stack o1) = shape_owner_values s"
    using length_flatten(2) [OF conjunct1 [OF build_stack_holds [OF st]]] from_stack_values [OF s]
    by (simp add: flatten_kg_stack_def)
  show "kg_owner o1 = name" by (rule name)
qed

lemma planned_chi:
  assumes "planned_stack shape chi threshold width n accesses = Inr s"
  shows "\<not> (chi < 2 \<or> Bit_Operations.and chi (chi - 1) \<noteq> 0)"
  using assms by (auto simp: planned_stack_def split: if_splits)

lemma dual_shape_planned:
  assumes ok: "page_config_ok c" and built: "build_owner_relation_paged_oram shape chi threshold c name edges g = Inr (o1, h)"
    and s: "shape_for_owner c o1 n = Inr s"
  shows "dual_planned_shape shape chi threshold c n = Inr s" and "oram_owner o1 = name"
    and "length (flatten_relation_paged_oram o1) = dual_owner_values s"
proof -
  from ok have p: "params_ok (pages c)" by (simp add: page_config_ok_def)
  from built obtain l g' where dense: "require_dense_layout c = Inr ()" and l: "build_owner_page_layout c name edges = Inr l"
    and d: "build_owner_oram_stack shape chi threshold (map (\<lambda>d. [d]) (directory l)) g = Inr (directory_stack o1, g')"
    and q: "build_owner_oram_stack shape chi threshold (page_pool l) g' = Inr (page_stack o1, h)"
    and name: "oram_owner o1 = name"
    by (auto simp: build_owner_relation_paged_oram_def res_simps)
  from build_layout_iff [OF ok, of name edges] l obtain rows where
    "name \<in> set (owners (base c))" "traverse (validated_edge (base c)) edges = Inr rows" by blast
  from build_layout_run(2) [OF ok this l] have hold: "layout_holds c rows l" by blast
  note pool = pool_shape [OF ok hold]
  from s obtain da pa ds ps where counts: "dual_access_counts c n = Inr (da, pa)"
    and ds: "from_stack (directory_stack o1) da = Inr ds" and ps: "from_stack (page_stack o1) pa = Inr ps"
    and sh: "s = \<lparr>dual_directory = ds, dual_pages = ps\<rparr>"
    by (auto simp: shape_for_owner_def res_simps)
  have "2 \<le> length (directory l)"
    using dense pool(3) by (auto simp: require_dense_layout_def res_simps split: if_splits)
  then have "length (hd (map (\<lambda>d. [d]) (directory l))) = 1" by (cases "directory l") auto
  with planned_stack_built [OF d ds]
  have pd: "planned_stack shape chi threshold 1 (length (directory l)) da = Inr ds" by simp
  have "2 \<le> length (page_pool l)"
    using pool(1) p unfolding pool_rows_def params_ok_def by linarith
  then have "hd (page_pool l) \<in> set (page_pool l)" by (intro hd_in_set) auto
  with pool(2) have "length (hd (page_pool l)) = nat (page_size (pages c))" by (simp add: page_width_def)
  with planned_stack_built [OF q ps] pool(1)
  have pp: "planned_stack shape chi threshold (nat (page_size (pages c))) (nat (pool_rows (pages c))) pa = Inr ps" by simp
  have "\<not> (uses_hybrid_directory c \<or> uses_compact_directory (pages c))"
    using dense by (auto simp: require_dense_layout_def split: if_splits)
  with pd pp counts pool(3) planned_chi [OF pd] show "dual_planned_shape shape chi threshold c n = Inr s"
    by (simp add: dual_planned_shape_def sh)
  show "length (flatten_relation_paged_oram o1) = dual_owner_values s"
    using length_flatten(2) [OF conjunct1 [OF build_stack_holds [OF d]]] from_stack_values [OF ds]
      length_flatten(2) [OF conjunct1 [OF build_stack_holds [OF q]]] from_stack_values [OF ps]
    by (simp add: flatten_relation_paged_oram_def dual_owner_values_def sh)
  show "oram_owner o1 = name" by (rule name)
qed

section \<open>When sharing succeeds\<close>

lemma packed_record_in_field:
  assumes "valid_config (base c)" and "record_ok c x"
  shows "in_field (field_prime (base c)) (packed_record c x)"
proof -
  obtain t r e s where x: "x = (t, r, e, s)" by (metis prod.exhaust)
  with assms(2) have fits: "edge_fits (base c) (t, r, e, s, 1)" "packable_config (base c)" by (simp_all add: record_ok_def)
  with packed_value_bounds [OF fits(1)] packed_below_prime [OF assms(1) fits(2)] show ?thesis
    by (simp add: in_field_def packed_record_def x)
qed

lemma adjacency_values_in_field:
  assumes ok: "page_config_ok c" and built: "build_owner_adjacency_records c name edges = Inr records"
    and "r \<in> set records" and "v \<in> set r"
  shows "in_field (field_prime (base c)) v"
proof -
  from ok have v: "valid_config (base c)" by (simp add: page_config_ok_def)
  from built obtain rows where rows: "name \<in> set (owners (base c))" "traverse (validated_edge (base c)) edges = Inr rows"
    by (auto simp: build_owner_adjacency_records_def res_simps grouped_edges_Inr)
  have inv: "\<forall>r \<in> set records. \<forall>v \<in> set r. in_field (field_prime (base c)) v"
  proof (rule foldM_preserves [where P = "\<lambda>rs. \<forall>r \<in> set rs. \<forall>v \<in> set r. in_field (field_prime (base c)) v"])
    from rows built show "foldM (place_adjacency c) (group_by row_key row_record rows)
        (replicate (nat (entity_count (base c) * relation_count c)) (replicate (nat (slots_per_key (pages c))) 0)) = Inr records"
      by (simp add: build_owner_adjacency_records_def grouped_edges_Inr [THEN iffD2])
    show "\<forall>r \<in> set (replicate (nat (entity_count (base c) * relation_count c)) (replicate (nat (slots_per_key (pages c))) 0)).
        \<forall>v \<in> set r. in_field (field_prime (base c)) v"
      using field_prime_pos [OF v] by (auto simp: in_field_def)
    fix group rs rs'
    assume run: "place_adjacency c group rs = Inr rs'" and keep: "\<forall>r \<in> set rs. \<forall>v \<in> set r. in_field (field_prime (base c)) v"
      and g: "group \<in> set (group_by row_key row_record rows)"
    obtain s rel slots where group: "group = ((s, rel), slots)" by (metis prod.exhaust)
    from grouped_entries(2) [OF v rows(2)] g have "group_ok c ((s, rel), slots)" by (simp add: group)
    then have recs: "\<And>x. x \<in> set slots \<Longrightarrow> record_ok c x" by (simp add: group_ok_def)
    then have packed: "traverse (pack_record (base c)) (sort slots) = Inr (map (packed_record c) (sort slots))"
      by (intro traverse_Inr pack_record_ok) simp
    with run obtain row where put: "list_put rs row (map (packed_record c) (sort slots) @
        replicate (nat (slots_per_key (pages c)) - length slots) 0) = Inr rs'"
      by (auto simp: place_adjacency_def group res_simps Let_def split: if_splits)
    moreover have "\<forall>v \<in> set (map (packed_record c) (sort slots) @ replicate (nat (slots_per_key (pages c)) - length slots) 0).
        in_field (field_prime (base c)) v"
      using recs packed_record_in_field [OF v] field_prime_pos [OF v] by (auto simp: in_field_def)
    ultimately show "\<forall>r \<in> set rs'. \<forall>v \<in> set r. in_field (field_prime (base c)) v"
      using keep by (auto simp: list_put_def split: option.splits dest!: subsetD [OF set_update_subset_insert])
  qed
  with assms(3,4) show ?thesis by blast
qed

lemma from_stack_ok:
  assumes "build_owner_oram_stack shape chi threshold vs g = Inr (st, h)" and "1 \<le> n" and "2 \<le> chi"
    and "Bit_Operations.and chi (chi - 1) = 0" and "0 < length vs"
  shows "\<exists>s. from_stack st n = Inr s"
proof -
  note holds = build_stack_holds [OF assms(1)]
  then have "stack_levels st \<noteq> []" "stack_base st = position_map (last (stack_levels st))" "stack_chi st = chi"
    by (auto simp: stack_holds_def)
  moreover from this obtain level where level: "level < length (stack_levels st)" "last (stack_levels st) = stack_levels st ! level"
    by (metis in_set_conv_nth last_in_set)
  with holds have "tree_holds (level_records vs st level) (last (stack_levels st))" by (simp add: stack_holds_def)
  moreover have "0 < length (level_records vs st level)"
    using level_index_in [OF conjunct1 [OF holds] assms(5) level(1)] by linarith
  ultimately show ?thesis using assms(2-4) by (auto simp: from_stack_def tree_holds_def)
qed

section \<open>Properties\<close>

lemma kg_shards_ok:
  assumes ok: "page_config_ok c" and i: "i < length (owners (base c))"
    and built: "build_owner_kg_oram shape chi threshold c (owners (base c) ! i) edges g = Inr (o1, h)"
    and e: "epoch_id_ok epoch" and accesses: "1 \<le> access_count_per_owner c n"
    and chi: "2 \<le> chi" "Bit_Operations.and chi (chi - 1) = 0"
    and small: "int (nat (entity_count (base c) * relation_count c)) \<le> field_prime (base c)"
    and fits: "shape_fits shape (field_prime (base c)) (nat (entity_count (base c) * relation_count c))"
  shows "\<exists>docs g'. kg_create_owner_shards H c o1 (int i) n epoch k = Inr (docs, g')"
proof -
  from built obtain records where recs: "build_owner_adjacency_records c (owners (base c) ! i) edges = Inr records"
      "2 \<le> length records"
    and st: "build_owner_oram_stack shape chi threshold records g = Inr (kg_stack o1, h)"
    and name: "kg_owner o1 = owners (base c) ! i"
    by (auto simp: build_owner_kg_oram_def res_simps split: if_splits)
  from recs(1) obtain rows where "owners (base c) ! i \<in> set (owners (base c))" "traverse (validated_edge (base c)) edges = Inr rows"
    by (auto simp: build_owner_adjacency_records_def res_simps grouped_edges_Inr)
  from build_adjacency_run(2) [OF ok this recs(1)]
  have len: "length records = nat (entity_count (base c) * relation_count c)" by blast
  have one: "1 < field_prime (base c)" using small recs(2) len by linarith
  have "\<forall>v \<in> set (flatten_kg_stack o1). in_field (field_prime (base c)) v"
    unfolding flatten_kg_stack_def
    by (rule stack_canonical(2) [OF st one]) (use small len fits adjacency_values_in_field [OF ok recs(1)] in simp_all)
  from share_vector_in_field [OF this, of k] obtain sv g' where
    sv: "share_vector (field_prime (base c)) (flatten_kg_stack o1) k = Inr (sv, g')" by blast
  have "0 < length records" using recs(2) by linarith
  from from_stack_ok [OF st accesses chi this] obtain s where
    "from_stack (kg_stack o1) (access_count_per_owner c n) = Inr s" by blast
  with sv e i name show ?thesis by (simp add: kg_create_owner_shards_def check_owner_identity_def)
qed

lemma oram_query_shards_ok:
  assumes "valid_config (base c)" "packable_config (base c)" "epoch_id_ok epoch" "queries \<noteq> []"
    and "\<And>q. q \<in> set queries \<Longrightarrow> \<exists>ids. oram_query_ids (base c) q = Inr ids \<and> query_ids (base c) q = Inr ids"
  shows "\<exists>docs g'. create_oram_query_shards H c queries epoch g = Inr (docs, g')"
proof -
  from assms(5) have "\<forall>q \<in> set queries. \<exists>ids. oram_query_ids (base c) q = Inr ids \<and> query_ids (base c) q = Inr ids" by blast
  from bchoice [OF this] obtain f where
    f: "\<And>q. q \<in> set queries \<Longrightarrow> oram_query_ids (base c) q = Inr (f q) \<and> query_ids (base c) q = Inr (f q)" by blast
  then have ids: "traverse (oram_query_ids (base c)) queries = Inr (map f queries)" by (intro traverse_Inr) blast
  have "canonical (field_prime (base c)) (query_triple (f q))" if "q \<in> set queries" for q
    using f [OF that] query_ids_canonical [OF assms(1,2)] by blast
  then have "\<forall>v \<in> set (concat (map query_triple (map f queries))). in_field (field_prime (base c)) v"
    by (fastforce simp: list_all_iff in_field_def)
  from share_vector_in_field [OF this, of g] obtain sv g' where
    "share_vector (field_prime (base c)) (concat (map query_triple (map f queries))) g = Inr (sv, g')" by blast
  with assms ids show ?thesis by (simp add: create_oram_query_shards_def)
qed

definition sample_epoch :: string where
  "sample_epoch = replicate 64 CHR ''a''"

lemma sample_epoch_ok [simp]: "epoch_id_ok sample_epoch"
  by (simp add: epoch_id_ok_def sample_epoch_def list_all_iff)

lemma sample_kg_builds:
  assumes "i < 2"
  shows "\<exists>o1 h. build_owner_kg_oram sample_shape 2 4 sample_page_config (owners sample_config ! i)
    (if i = 0 then sample_edges else []) sample_draws = Inr (o1, h)"
proof -
  have roomy: "roomy_shape sample_shape" by (simp add: roomy_shape_def sample_shape_def)
  have rows: "traverse (validated_edge sample_config) (if i = 0 then sample_edges else []) =
      Inr (if i = 0 then sample_rows else [])" using sample_traverse by simp
  have "adjacency_fits sample_page_config (if i = 0 then sample_rows else [])"
    by (simp add: adjacency_fits_def slots_per_key_def key_records_def sample_rows_def row_key_def)
  moreover have "owners sample_config ! i \<in> set (owners (base sample_page_config))" using assms by (cases i) auto
  ultimately obtain records where
    r: "build_owner_adjacency_records sample_page_config (owners sample_config ! i) (if i = 0 then sample_edges else []) = Inr records"
      "length records = nat (entity_count sample_config * relation_count sample_page_config)"
    using build_adjacency_run [OF sample_page_ok, of "owners sample_config ! i" _ "if i = 0 then sample_rows else []"] rows
    by fastforce
  have "2 \<le> length records" using r(2) by (simp add: relation_count_def entity_count_def)
  from build_kg_ok [OF sample_page_ok r(1) this roomy] show ?thesis by simp
qed

lemma sample_oram_query_ids: "oram_query_ids sample_config sample_query = Inr (1, 1, 2)"
  by (simp add: oram_query_ids_def sample_query_def query_keys_def vocab_get_def except_key_def)

text \<open>
  C27: the servers' inputs of the wide-record backend.  When every owner builds its ORAM and
  shares it under one epoch, the client shares its queries and the epoch is authorized, each
  server accepts its shards whatever the order of the files; the shape is the one planned from
  public parameters, and reconstructing the three inputs position by position gives the owners'
  stacks, record by record and in federation order, then the query identifiers.
\<close>

theorem kg_inputs_assemble:
  assumes ok: "page_config_ok c"
    and built: "\<And>i. i < length (owners (base c)) \<Longrightarrow>
      build_owner_kg_oram shape chi threshold c (owners (base c) ! i) (edges i) (g i) = Inr (os i, g' i)"
    and shards: "\<And>i. i < length (owners (base c)) \<Longrightarrow>
      kg_create_owner_shards H c (os i) (int i) (int (length queries)) epoch (h i) = Inr (docs i, h' i)"
    and queries: "create_oram_query_shards H c queries epoch gq = Inr (qdocs, gq')"
    and auth: "kg_accepted H c epoch (int (length queries)) 0 = Inr auth"
    and order: "\<And>s. s < SERVER_COUNT \<Longrightarrow> distinct (order s) \<and> set (order s) = {..<length (owners (base c))}"
  shows "\<exists>s a0 a1 a2 ids. kg_planned_shape shape chi threshold c (int (length queries)) = Inr s \<and>
    traverse (oram_query_ids (base c)) queries = Inr ids \<and>
    kg_assemble_server_input H c 0 (map (\<lambda>i. docs i ! 0) (order 0)) (qdocs ! 0) auth = Inr (s, a0) \<and>
    kg_assemble_server_input H c 1 (map (\<lambda>i. docs i ! 1) (order 1)) (qdocs ! 1) auth = Inr (s, a1) \<and>
    kg_assemble_server_input H c 2 (map (\<lambda>i. docs i ! 2) (order 2)) (qdocs ! 2) auth = Inr (s, a2) \<and>
    combine_vector (reconstruct (field_prime (base c))) (a0, a1, a2) =
      Inr (concat (map (\<lambda>i. flatten_kg_stack (os i)) [0..<length (owners (base c))]) @ concat (map query_triple ids)) \<and>
    length a0 = length (owners (base c)) * shape_owner_values s + 3 * length queries"
proof -
  let ?n = "length (owners (base c))" and ?p = "field_prime (base c)" and ?k = "int (length queries)"
  have "valid_config (base c)" using ok by (simp add: page_config_ok_def)
  then have n: "0 < ?n" using valid_owners(1) by fastforce
  have "\<exists>s sv. from_stack (kg_stack (os i)) (access_count_per_owner c ?k) = Inr s \<and>
      share_vector ?p (flatten_kg_stack (os i)) (h i) = Inr (sv, h' i) \<and>
      docs i = owner_shard_list H c epoch (kg_owner (os i)) (int i) s sv" if "i < ?n" for i
    using shards [OF that] by (auto simp: kg_create_owner_shards_def res_simps)
  then obtain sh sv where t: "\<And>i. i < ?n \<Longrightarrow> from_stack (kg_stack (os i)) (access_count_per_owner c ?k) = Inr (sh i) \<and>
      share_vector ?p (flatten_kg_stack (os i)) (h i) = Inr (sv i, h' i) \<and>
      docs i = owner_shard_list H c epoch (kg_owner (os i)) (int i) (sh i) (sv i)" by metis
  note planned = kg_shape_planned [OF ok built conjunct1 [OF t]]
  have plan: "kg_planned_shape shape chi threshold c ?k = Inr (sh i)" if "i < ?n" for i using planned(1) that by blast
  have same: "sh i = sh 0" if "i < ?n" for i using plan [OF that] plan [OF n] by simp
  from query_shards_Inr [OF queries] obtain ids pieces where ids: "traverse (oram_query_ids (base c)) queries = Inr ids"
    and q: "share_vector ?p (concat (map query_triple ids)) gq = Inr (pieces, gq')"
    and qd: "\<And>s. s < SERVER_COUNT \<Longrightarrow> qdocs ! s = \<lparr>query_epoch = epoch, query_digest = page_config_digest H c,
      query_number = ?k, query_server = int s, query_values = server_vector s pieces\<rparr>"
    and qlen: "length (concat (map query_triple ids)) = length queries * 3" by blast
  have vec: "share_vector ?p (flatten_kg_stack (os i)) (h i) = Inr (sv i, h' i) \<and>
      length (flatten_kg_stack (os i)) = shape_owner_values (sh 0)" if "i < ?n" for i
    using t [OF that] planned(3) [OF that that] same [OF that] by simp
  have docs: "docs i ! s = \<lparr>shard_epoch = epoch, shard_digest = page_config_digest H c, shard_owner = owners (base c) ! i,
      shard_index = int i, shard_server = int s, shard_shape = sh 0, shard_values = server_vector s (sv i)\<rparr>"
    if "i < ?n" "s < SERVER_COUNT" for i s
    using t [OF that(1)] planned(2) [OF that(1) that(1)] same [OF that(1)] that(2) by simp
  have qn: "int (length (concat (map query_triple ids))) = ?k * 3" using qlen by simp
  from kg_inputs.inputs_reconstruct [where width = shape_owner_values and vec = "\<lambda>i. flatten_kg_stack (os i)",
      OF n auth order vec q qn docs qd]
  show ?thesis
    unfolding kg_assemble_server_input_def using ids plan [OF n] qlen by (auto simp: mult.commute)
qed

theorem kg_inputs_assemble_witness:
  "\<exists>s a0 a1 a2 docs qdocs auth. shape_base s = 4 \<and>
     kg_assemble_server_input (\<lambda>_. ''h'') sample_page_config 0 (map (\<lambda>i. docs i ! 0) [1, 0 :: nat]) (qdocs ! 0) auth = Inr (s, a0) \<and>
     kg_assemble_server_input (\<lambda>_. ''h'') sample_page_config 1 (map (\<lambda>i. docs i ! 1) [0, 1 :: nat]) (qdocs ! 1) auth = Inr (s, a1) \<and>
     kg_assemble_server_input (\<lambda>_. ''h'') sample_page_config 2 (map (\<lambda>i. docs i ! 2) [0, 1 :: nat]) (qdocs ! 2) auth = Inr (s, a2) \<and>
     length a0 = 2 * shape_owner_values s + 3"
proof -
  let ?H = "\<lambda>_ :: jval. ''h''" and ?edges = "\<lambda>i :: nat. if i = 0 then sample_edges else []"
  let ?rows = "nat (entity_count sample_config * relation_count sample_page_config)"
  have rows: "?rows = 8" by (simp add: relation_count_def entity_count_def)
  have prime: "field_prime sample_config = SCALABLE_FIELD_PRIME" by simp
  have two: "length (owners (base sample_page_config)) = 2" by simp
  have "\<forall>i. \<exists>r. i < 2 \<longrightarrow> build_owner_kg_oram sample_shape 2 4 sample_page_config (owners sample_config ! i) (?edges i)
      sample_draws = Inr r"
    using sample_kg_builds by (metis (no_types, lifting))
  then obtain r where built: "\<And>i. i < 2 \<Longrightarrow> build_owner_kg_oram sample_shape 2 4 sample_page_config
      (owners sample_config ! i) (?edges i) sample_draws = Inr (fst (r i), snd (r i))"
    by (metis prod.collapse)
  have accesses: "access_count_per_owner sample_page_config 1 = 4"
    by (simp add: access_count_per_owner_def frontier_slots_def)
  have fits: "shape_fits sample_shape (field_prime sample_config) ?rows"
    by (simp add: shape_fits_def sample_shape_def prime SCALABLE_FIELD_PRIME_def)
  have small: "int ?rows \<le> field_prime sample_config" unfolding rows by (simp add: prime SCALABLE_FIELD_PRIME_def)
  have "\<exists>d. kg_create_owner_shards ?H sample_page_config (fst (r i)) (int i) 1 sample_epoch (\<lambda>_. 5) = Inr d" if "i < 2" for i
    using kg_shards_ok [OF sample_page_ok, of i sample_shape 2 4 "?edges i" sample_draws "fst (r i)" "snd (r i)" sample_epoch 1
        ?H "\<lambda>_. 5"] built [OF that] that accesses fits small
    by auto
  then obtain d where shards: "\<And>i. i < 2 \<Longrightarrow> kg_create_owner_shards ?H sample_page_config (fst (r i)) (int i) 1 sample_epoch
      (\<lambda>_. 5) = Inr (fst (d i), snd (d i))"
    by (metis prod.collapse)
  obtain qdocs gq where q: "create_oram_query_shards ?H sample_page_config [sample_query] sample_epoch (\<lambda>_. 6) = Inr (qdocs, gq)"
    using oram_query_shards_ok [of sample_page_config sample_epoch "[sample_query]" ?H "\<lambda>_. 6"]
      sample_valid sample_packable sample_oram_query_ids sample_query_ids by auto
  obtain auth where auth: "kg_accepted ?H sample_page_config sample_epoch 1 0 = Inr auth"
    by (simp add: kg_accepted_def)
  let ?order = "\<lambda>s :: nat. if s = 0 then [1, 0 :: nat] else [0, 1]"
  have order: "distinct (?order s) \<and> set (?order s) = {..<length (owners (base sample_page_config))}" for s by auto
  have n1: "int (length [sample_query]) = 1" by simp
  from kg_inputs_assemble [of sample_page_config sample_shape 2 4 ?edges "\<lambda>_. sample_draws" "\<lambda>i. fst (r i)" "\<lambda>i. snd (r i)"
      ?H "[sample_query]" sample_epoch "\<lambda>_ _. 5" "\<lambda>i. fst (d i)" "\<lambda>i. snd (d i)" "\<lambda>_. 6" qdocs gq auth ?order,
      OF sample_page_ok _ _ q _ order, unfolded n1 two, OF _ _ auth] built shards
  obtain s a0 a1 a2 where
    s: "kg_planned_shape sample_shape 2 4 sample_page_config 1 = Inr s" and
    a: "kg_assemble_server_input ?H sample_page_config 0 (map (\<lambda>i. fst (d i) ! 0) [1, 0]) (qdocs ! 0) auth = Inr (s, a0)"
      "kg_assemble_server_input ?H sample_page_config 1 (map (\<lambda>i. fst (d i) ! 1) [0, 1]) (qdocs ! 1) auth = Inr (s, a1)"
      "kg_assemble_server_input ?H sample_page_config 2 (map (\<lambda>i. fst (d i) ! 2) [0, 1]) (qdocs ! 2) auth = Inr (s, a2)"
      "length a0 = 2 * shape_owner_values s + 3"
    by auto
  have "shape_base s = 4"
    using s unfolding kg_planned_shape_def planned_stack_def sample_page_fields rows
    by (auto simp: planned_levels.simps sample_shape_def ceil_div_def slots_per_key_def)
  with a show ?thesis
    by - (rule exI [of _ s], rule exI [of _ a0], rule exI [of _ a1], rule exI [of _ a2],
        rule exI [of _ "\<lambda>i. fst (d i)"], rule exI [of _ qdocs], rule exI [of _ auth], intro conjI; assumption)
qed

lemma remdups_single: "remdups xs = [x] \<longleftrightarrow> xs \<noteq> [] \<and> list_all (\<lambda>y. y = x) xs"
proof
  assume r: "remdups xs = [x]"
  then have "set xs = {x}" by (metis list.set(1) list.set(2) set_remdups)
  then show "xs \<noteq> [] \<and> list_all (\<lambda>y. y = x) xs" by (auto simp: list_all_iff)
next
  assume "xs \<noteq> [] \<and> list_all (\<lambda>y. y = x) xs"
  then have "set xs = {x}" by (cases xs) (auto simp: list_all_iff)
  then have "set (remdups xs) = {x}" "length (remdups xs) = 1" by (simp_all add: length_remdups_card_conv)
  then show "remdups xs = [x]" by (cases "remdups xs") auto
qed

text \<open>Exactly the inputs a server assembles.\<close>

definition shards_agree ::
  "string list \<Rightarrow> string \<Rightarrow> ('s \<Rightarrow> nat) \<Rightarrow> int \<Rightarrow> 's owner_shard list \<Rightarrow> oram_query_shard \<Rightarrow> 's \<Rightarrow> bool" where
  "shards_agree names d width server shards query shape \<longleftrightarrow>
     server \<in> {0, 1, 2} \<and> query_server query = server \<and> query_digest query = d \<and>
     names \<noteq> [] \<and> map shard_owner (sort_key shard_index shards) = names \<and>
     list_all (\<lambda>shard. shard_epoch shard = query_epoch query \<and> shard_digest shard = d \<and>
       shard_server shard = server \<and> shard_shape shard = shape \<and> length (shard_values shard) = width shape) shards \<and>
     int (length (query_values query)) = query_number query * 3"

lemma assemble_shards_Inr:
  "assemble_shards names d width validate1 server shards query = Inr (shape, vs) \<longleftrightarrow>
     shards_agree names d width server shards query shape \<and> validate1 (query_epoch query) (query_number query) = Inr () \<and>
     vs = concat (map shard_values (sort_key shard_index shards)) @ query_values query"
proof -
  let ?ordered = "sort_key shard_index shards"
  have nil: "?ordered = [] \<longleftrightarrow> shards = []" using set_sort [of shard_index shards] by (metis set_empty)
  have single: "remdups (map shard_metadata ?ordered) = [(e, d', s', sh)] \<longleftrightarrow> shards \<noteq> [] \<and>
      list_all (\<lambda>shard. shard_epoch shard = e \<and> shard_digest shard = d' \<and> shard_server shard = s' \<and> shard_shape shard = sh) shards"
    for e d' s' sh
    unfolding remdups_single by (auto simp: list_all_iff shard_metadata_def nil)
  have cases1: "(case rd of [(epoch, digest2, server1, shape1)] \<Rightarrow> f epoch digest2 server1 shape1 | _ \<Rightarrow> Inl ex) = Inr r \<longleftrightarrow>
      (\<exists>epoch digest2 server1 shape1. rd = [(epoch, digest2, server1, shape1)] \<and> f epoch digest2 server1 shape1 = Inr r)"
    for rd :: "(string \<times> string \<times> int \<times> 's) list" and f :: "string \<Rightarrow> string \<Rightarrow> int \<Rightarrow> 's \<Rightarrow> ('s \<times> int list) res" and ex r
    by (auto split: list.splits)
  show ?thesis
    unfolding assemble_shards_def shards_agree_def Let_def if_Inl_eq_Inr cases1 single
    by (auto simp: res_simps list_all_iff list_ex_iff nil)
qed

text \<open>
  C28: a server of the dual-stack backend never mixes epochs, configurations, servers or shapes.
  It assembles an input exactly when its owner shards are one per owner in federation order, all
  of the epoch and configuration of the query shard, for this server and of one shape whose
  width they have, the query shard has three values per query, and the authorization is the one
  issued for that epoch, configuration and number of queries with no frontier violation; the
  input is then the concatenation of the shards.
\<close>

theorem dual_assembly_exact:
  "dual_assemble_server_input H c server shards query auth = Inr (shape, vs) \<longleftrightarrow>
     shards_agree (owners (base c)) (page_config_digest H c) dual_owner_values server shards query shape \<and>
     dual_accepted H c (query_epoch query) (query_number query) 0 = Inr auth \<and>
     vs = concat (map shard_values (sort_key shard_index shards)) @ query_values query"
  unfolding dual_assemble_server_input_def assemble_shards_Inr
  by (auto simp: dual_validate_def res_simps)

end
