(* ===== verification/Share_Stream.thy ===== *)
theory Share_Stream
  imports Field_Sharing
begin

unbundle bit_operations_syntax

text \<open>
  The streaming dealer of the ORAM backends (\<open>_random_field_values\<close> and the share writers of
  \<open>doram_t2_3pc/kg_oram_shares.py\<close> and \<open>doram_t2_3pc/relation_paged_oram_shares.py\<close>): masks by
  rejection sampling from the operating system's bytes, and three files written in chunks.  The
  sampling loop ends only if an accepted candidate comes, so it is a partial function; the bytes
  are the outputs of the generator, whose blocks are multiples of the candidate width.
\<close>

section \<open>Rejection sampling\<close>

definition byte_width :: "int \<Rightarrow> nat" where
  "byte_width modulus = (bit_length modulus + 7) div 8"

fun from_bytes_little :: "nat list \<Rightarrow> nat" where
  "from_bytes_little [] = 0"
| "from_bytes_little (b # bs) = b + 256 * from_bytes_little bs"

definition candidate_of :: "int \<Rightarrow> nat list \<Rightarrow> nat" where
  "candidate_of modulus bytes = from_bytes_little bytes AND (2 ^ bit_length modulus - 1)"

definition read_candidate :: "int \<Rightarrow> rng \<Rightarrow> nat \<times> rng" where
  "read_candidate modulus g = (let (bytes, g) = draws (byte_width modulus) 256 g in (candidate_of modulus bytes, g))"

partial_function (option) next_mask :: "int \<Rightarrow> rng \<Rightarrow> (int \<times> rng) option" where
  "next_mask modulus g =
     (case read_candidate modulus g of (candidate, g') \<Rightarrow>
        if int candidate < modulus then Some (int candidate, g') else next_mask modulus g')"

section \<open>Writing in chunks\<close>

text \<open>What is in the file, and the lines not written yet.\<close>

type_synonym sink = "int list \<times> int list"

definition append_line :: "int \<Rightarrow> sink \<Rightarrow> sink" where
  "append_line v = (\<lambda>(written, chunk).
     if length (chunk @ [v]) = 4096 then (written @ chunk @ [v], []) else (written, chunk @ [v]))"

definition close_sink :: "sink \<Rightarrow> int list" where
  "close_sink = (\<lambda>(written, chunk). written @ chunk)"

fun stream_values :: "int \<Rightarrow> int list \<Rightarrow> sink \<times> sink \<times> sink \<Rightarrow> rng \<Rightarrow> (sink \<times> sink \<times> sink) option" where
  "stream_values modulus [] sinks g = Some sinks"
| "stream_values modulus (v # vs) (s0, s1, s2) g =
     (case next_mask modulus g of None \<Rightarrow> None | Some (first, g) \<Rightarrow>
      case next_mask modulus g of None \<Rightarrow> None | Some (second, g) \<Rightarrow>
        stream_values modulus vs
          (append_line first s0, append_line second s1, append_line ((v - first - second) mod modulus) s2) g)"

text \<open>The three files, \<open>None\<close> when the sampling loop never ends.\<close>

definition write_owner_shards :: "int list \<Rightarrow> nat \<Rightarrow> int \<Rightarrow> rng \<Rightarrow> shared_vector option res" where
  "write_owner_shards values destinations modulus g =
     (if destinations \<noteq> SERVER_COUNT then Inl (ValueError ''exactly three owner-shard destinations are required'')
      else if values \<noteq> [] \<and> modulus < 2 then Inl (ValueError ''modulus must be at least two'')
      else Inr (map_option (\<lambda>(s0, s1, s2). (close_sink s0, close_sink s1, close_sink s2))
             (stream_values modulus values (([], []), ([], []), ([], [])) g)))"

section \<open>The loop and its candidates\<close>

text \<open>The generator after \<open>k\<close> refused candidates.\<close>

fun after_candidates :: "int \<Rightarrow> nat \<Rightarrow> rng \<Rightarrow> rng" where
  "after_candidates modulus 0 g = g"
| "after_candidates modulus (Suc k) g = after_candidates modulus k (snd (read_candidate modulus g))"

definition accepted_at :: "int \<Rightarrow> rng \<Rightarrow> nat \<Rightarrow> bool" where
  "accepted_at modulus g k \<longleftrightarrow> int (fst (read_candidate modulus (after_candidates modulus k g))) < modulus"

lemma next_mask_step:
  "next_mask m g = (if int (fst (read_candidate m g)) < m
     then Some (int (fst (read_candidate m g)), snd (read_candidate m g)) else next_mask m (snd (read_candidate m g)))"
  by (subst next_mask.simps) (simp add: case_prod_unfold)

lemma accepted_shift: "accepted_at m (snd (read_candidate m g)) k = accepted_at m g (Suc k)"
  by (simp add: accepted_at_def)

lemma next_mask_first:
  assumes "accepted_at m g k" and "\<And>j. j < k \<Longrightarrow> \<not> accepted_at m g j"
  shows "next_mask m g = Some (int (fst (read_candidate m (after_candidates m k g))), after_candidates m (Suc k) g)"
  using assms
proof (induction k arbitrary: g)
  case 0
  then show ?case by (subst next_mask_step) (simp add: accepted_at_def)
next
  case (Suc k)
  have "\<not> accepted_at m g 0" using Suc.prems(2) by blast
  then have "next_mask m g = next_mask m (snd (read_candidate m g))"
    by (subst next_mask_step) (simp add: accepted_at_def)
  also have "\<dots> = Some (int (fst (read_candidate m (after_candidates m k (snd (read_candidate m g))))),
      after_candidates m (Suc k) (snd (read_candidate m g)))"
  proof (rule Suc.IH)
    show "accepted_at m (snd (read_candidate m g)) k" using Suc.prems(1) by (simp only: accepted_shift)
    show "\<not> accepted_at m (snd (read_candidate m g)) j" if "j < k" for j
      using Suc.prems(2) [of "Suc j"] that by (simp only: accepted_shift) simp
  qed
  finally show ?case by simp
qed

lemma next_mask_some: "next_mask m g = Some r \<Longrightarrow> \<exists>k. accepted_at m g k"
proof (rule next_mask.raw_induct [of "\<lambda>m g r. \<exists>k. accepted_at m g k"])
  fix f :: "int \<Rightarrow> rng \<Rightarrow> (int \<times> rng) option" and m g r
  assume ih: "\<And>m g r. f m g = Some r \<Longrightarrow> \<exists>k. accepted_at m g k"
    and run: "(case read_candidate m g of (candidate, g') \<Rightarrow>
      if int candidate < m then Some (int candidate, g') else f m g') = Some r"
  show "\<exists>k. accepted_at m g k"
  proof (cases "accepted_at m g 0")
    case False
    with run have "f m (snd (read_candidate m g)) = Some r"
      by (simp add: accepted_at_def case_prod_unfold)
    from ih [OF this] show ?thesis by (auto simp only: accepted_shift)
  qed blast
qed

lemma next_mask_returns: "next_mask m g \<noteq> None \<longleftrightarrow> (\<exists>k. accepted_at m g k)"
proof
  assume "\<exists>k. accepted_at m g k"
  then have "accepted_at m g (LEAST k. accepted_at m g k)" by (rule LeastI_ex)
  from next_mask_first [OF this] not_less_Least show "next_mask m g \<noteq> None" by (metis option.distinct(1))
qed (use next_mask_some in fastforce)

lemma next_mask_range:
  assumes "next_mask m g = Some (v, g')"
  shows "0 \<le> v" and "v < m"
proof -
  have "\<exists>k. accepted_at m g k" using next_mask_some [OF assms] .
  then have least: "accepted_at m g (LEAST k. accepted_at m g k)" by (rule LeastI_ex)
  from next_mask_first [OF this] not_less_Least assms
  have "v = int (fst (read_candidate m (after_candidates m (LEAST k. accepted_at m g k) g)))"
    by (metis option.inject prod.inject)
  with least show "0 \<le> v" and "v < m" by (simp_all add: accepted_at_def)
qed

section \<open>Every mask is as likely as any other\<close>

definition byte_strings :: "nat \<Rightarrow> nat list set" where
  "byte_strings n = {bytes. set bytes \<subseteq> {..<256} \<and> length bytes = n}"

lemma from_bytes_bij: "bij_betw from_bytes_little (byte_strings n) {..<256 ^ n}"
proof (induction n)
  case 0
  have "byte_strings 0 = {[]}" by (auto simp: byte_strings_def)
  then show ?case by (auto simp: bij_betw_def)
next
  case (Suc n)
  have inj: "inj_on from_bytes_little (byte_strings (Suc n))"
  proof (rule inj_onI)
    fix x y assume x: "x \<in> byte_strings (Suc n)" and y: "y \<in> byte_strings (Suc n)"
      and eq: "from_bytes_little x = from_bytes_little y"
    from x y obtain a xs b ys where c: "x = a # xs" "y = b # ys" "a < 256" "b < 256"
      "xs \<in> byte_strings n" "ys \<in> byte_strings n" by (auto simp: byte_strings_def length_Suc_conv)
    from eq have sum: "a + from_bytes_little xs * 256 = b + from_bytes_little ys * 256" by (simp add: c(1,2))
    from arg_cong [OF this, of "\<lambda>n. n mod 256"] have "a = b" using c(3,4) by simp
    with sum have "from_bytes_little xs = from_bytes_little ys" by simp
    with \<open>a = b\<close> c Suc.IH show "x = y" by (simp add: bij_betw_def inj_on_def)
  qed
  have "from_bytes_little ` byte_strings (Suc n) = {..<256 ^ Suc n}"
  proof
    show "from_bytes_little ` byte_strings (Suc n) \<subseteq> {..<256 ^ Suc n}"
    proof
      fix v assume "v \<in> from_bytes_little ` byte_strings (Suc n)"
      then obtain a xs where c: "v = a + 256 * from_bytes_little xs" "a < 256" "xs \<in> byte_strings n"
        by (auto simp: byte_strings_def length_Suc_conv)
      with Suc.IH have "from_bytes_little xs < 256 ^ n" by (auto simp: bij_betw_def)
      then have "from_bytes_little xs + 1 \<le> 256 ^ n" by simp
      then have "256 * (from_bytes_little xs + 1) \<le> 256 * 256 ^ n" by (rule mult_le_mono2)
      with c show "v \<in> {..<256 ^ Suc n}" by simp
    qed
    show "{..<256 ^ Suc n} \<subseteq> from_bytes_little ` byte_strings (Suc n)"
    proof
      fix v :: nat assume "v \<in> {..<256 ^ Suc n}"
      then have "v div 256 \<in> {..<256 ^ n}" by (simp add: div_less_iff_less_mult mult.commute)
      with Suc.IH obtain xs where "xs \<in> byte_strings n" "from_bytes_little xs = v div 256"
        by (metis (no_types, lifting) bij_betw_imp_surj_on imageE)
      then have "v = from_bytes_little ((v mod 256) # xs)" "(v mod 256) # xs \<in> byte_strings (Suc n)"
        by (auto simp: byte_strings_def)
      then show "v \<in> from_bytes_little ` byte_strings (Suc n)" by blast
    qed
  qed
  with inj show ?case by (simp add: bij_betw_def)
qed

lemma card_residues:
  assumes "v < 2 ^ b" and "b \<le> n"
  shows "card {x :: nat. x < 2 ^ n \<and> x mod 2 ^ b = v} = 2 ^ (n - b)"
proof -
  have p: "(2 :: nat) ^ n = 2 ^ (n - b) * 2 ^ b" using assms(2) by (simp flip: power_add)
  have "{x. x < 2 ^ n \<and> x mod 2 ^ b = v} = (\<lambda>q. q * 2 ^ b + v) ` {..<2 ^ (n - b)}"
  proof (intro set_eqI iffI)
    fix x assume "x \<in> {x. x < 2 ^ n \<and> x mod 2 ^ b = v}"
    then have "x = x div 2 ^ b * 2 ^ b + v" "x div 2 ^ b < 2 ^ (n - b)"
      using div_mult_mod_eq [of x "2 ^ b"] by (auto simp: p div_less_iff_less_mult)
    then show "x \<in> (\<lambda>q. q * 2 ^ b + v) ` {..<2 ^ (n - b)}" by blast
  next
    fix x assume "x \<in> (\<lambda>q. q * 2 ^ b + v) ` {..<2 ^ (n - b)}"
    then obtain q where q: "q < 2 ^ (n - b)" "x = q * 2 ^ b + v" by blast
    then have "(q + 1) * 2 ^ b \<le> 2 ^ (n - b) * 2 ^ b" by (intro mult_le_mono1) simp
    with q assms(1) show "x \<in> {x. x < 2 ^ n \<and> x mod 2 ^ b = v}" by (simp add: p)
  qed
  moreover have "inj_on (\<lambda>q :: nat. q * 2 ^ b + v) {..<2 ^ (n - b)}" by (auto simp: inj_on_def)
  ultimately show ?thesis by (simp add: card_image)
qed

lemma candidate_mod: "candidate_of m bytes = from_bytes_little bytes mod 2 ^ bit_length m"
  unfolding candidate_of_def
  using take_bit_eq_mask [of "bit_length m" "from_bytes_little bytes", unfolded mask_eq_exp_minus_1 take_bit_eq_mod]
  by (rule sym)

lemma byte_width_bits: "bit_length m \<le> 8 * byte_width m"
  using div_mult_mod_eq [of "bit_length m + 7" 8] mod_less_divisor [of 8 "bit_length m + 7"]
  unfolding byte_width_def by linarith

lemma candidates_uniform:
  assumes "v < 2 ^ bit_length m"
  shows "card {bytes \<in> byte_strings (byte_width m). candidate_of m bytes = v} = 2 ^ (8 * byte_width m - bit_length m)"
proof -
  let ?n = "byte_width m" and ?b = "bit_length m"
  have "bij_betw from_bytes_little {bytes \<in> byte_strings ?n. candidate_of m bytes = v} {x. x < 2 ^ (8 * ?n) \<and> x mod 2 ^ ?b = v}"
  proof -
    have all: "inj_on from_bytes_little (byte_strings ?n)" "from_bytes_little ` byte_strings ?n = {..<256 ^ ?n}"
      using from_bytes_bij [of ?n] by (simp_all add: bij_betw_def)
    have "(2 :: nat) ^ (8 * ?n) = 256 ^ ?n" by (simp add: power_mult)
    moreover have "from_bytes_little ` {bytes \<in> byte_strings ?n. candidate_of m bytes = v} =
        {x \<in> from_bytes_little ` byte_strings ?n. x mod 2 ^ ?b = v}"
      by (auto simp: candidate_mod)
    moreover have "inj_on from_bytes_little {bytes \<in> byte_strings ?n. candidate_of m bytes = v}"
      using all(1) by (rule inj_on_subset) blast
    ultimately show ?thesis by (simp add: bij_betw_def all(2))
  qed
  from bij_betw_same_card [OF this] card_residues [OF assms byte_width_bits] show ?thesis by simp
qed

lemma accepted_half:
  assumes "0 < m"
  shows "card (byte_strings (byte_width m)) \<le> 2 * card {bytes \<in> byte_strings (byte_width m). int (candidate_of m bytes) < m}"
proof -
  let ?n = "byte_width m" and ?b = "bit_length m"
  let ?of = "\<lambda>v. {bytes \<in> byte_strings ?n. candidate_of m bytes = v}"
  have fin: "finite (byte_strings ?n)"
    using finite_lists_length_eq [of "{..<256 :: nat}" ?n] by (simp add: byte_strings_def)
  have below: "nat m < 2 ^ ?b" using less_two_power_bit_len [of "nat m"] assms by (simp add: bit_length_def)
  have half: "2 ^ (?b - 1) \<le> nat m" using two_power_bit_len_le [of "nat m"] assms by (simp add: bit_length_def)
  have b: "2 ^ ?b \<le> 2 * nat m"
    using half by (cases ?b) auto
  have "{bytes \<in> byte_strings ?n. int (candidate_of m bytes) < m} = (\<Union>v \<in> {..<nat m}. ?of v)"
    using assms by auto
  then have "card {bytes \<in> byte_strings ?n. int (candidate_of m bytes) < m} = (\<Sum>v \<in> {..<nat m}. card (?of v))"
    using fin by (simp only:) (rule card_UN_disjoint, auto)
  also have "\<dots> = nat m * 2 ^ (8 * ?n - ?b)"
  proof -
    have "card (?of v) = 2 ^ (8 * ?n - ?b)" if "v \<in> {..<nat m}" for v
      using that by (intro candidates_uniform less_trans [OF _ below]) simp
    then show ?thesis by simp
  qed
  finally have accepted: "card {bytes \<in> byte_strings ?n. int (candidate_of m bytes) < m} = nat m * 2 ^ (8 * ?n - ?b)" .
  have "card (byte_strings ?n) = 256 ^ ?n" using bij_betw_same_card [OF from_bytes_bij [of ?n]] by simp
  also have "\<dots> = 2 ^ ?b * 2 ^ (8 * ?n - ?b)"
  proof -
    have "(256 :: nat) ^ ?n = 2 ^ (8 * ?n)" by (simp add: power_mult)
    also have "8 * ?n = ?b + (8 * ?n - ?b)" using byte_width_bits [of m] by simp
    finally show ?thesis by (simp only: power_add)
  qed
  also have "\<dots> \<le> 2 * nat m * 2 ^ (8 * ?n - ?b)" using b by (rule mult_le_mono1)
  finally show ?thesis by (simp only: accepted mult.assoc)
qed

section \<open>The files are shares\<close>

lemma close_append [simp]: "close_sink (append_line v s) = close_sink s @ [v]"
  by (cases s) (simp add: append_line_def close_sink_def)

lemma share_vector_Cons_stream:
  assumes "0 \<le> a" "a < m" "0 \<le> b" "b < m" and "share_vector m vs (stream ds) = Inr ((as, bs, cs), h)"
  shows "share_vector m (v mod m # vs) (stream (nat a # nat b # ds)) =
    Inr ((a # as, b # bs, (v - a - b) mod m # cs), h)"
proof -
  have "0 \<le> v mod m" "v mod m < m" using assms(1,2) by simp_all
  moreover have "nat a mod nat m = nat a" "nat b mod nat m = nat b" using assms(1-4) by simp_all
  moreover have "(v mod m - a - b) mod m = (v - a - b) mod m"
    using mod_diff_left_eq [of v m "a + b"] by (simp add: diff_diff_eq)
  ultimately show ?thesis
    using assms by (simp add: share_vector_def share_Inr stream_shift2)
qed

lemma stream_values_share:
  "stream_values m vs (s0, s1, s2) g = Some (t0, t1, t2) \<Longrightarrow>
    \<exists>ds as bs cs. set ds \<subseteq> {..<nat m} \<and>
      share_vector m (map (\<lambda>v. v mod m) vs) (stream ds) = Inr ((as, bs, cs), stream []) \<and>
      close_sink t0 = close_sink s0 @ as \<and> close_sink t1 = close_sink s1 @ bs \<and> close_sink t2 = close_sink s2 @ cs"
proof (induction vs arbitrary: s0 s1 s2 g)
  case Nil
  then show ?case by (intro exI [of _ "[]"]) (simp add: share_vector_def)
next
  case (Cons v vs)
  from Cons.prems obtain a g1 b g2 where a: "next_mask m g = Some (a, g1)" and b: "next_mask m g1 = Some (b, g2)"
    and rest: "stream_values m vs (append_line a s0, append_line b s1, append_line ((v - a - b) mod m) s2) g2 =
      Some (t0, t1, t2)"
    by (auto split: option.splits prod.splits)
  from Cons.IH [OF rest] obtain ds as bs cs where ds: "set ds \<subseteq> {..<nat m}"
    and share: "share_vector m (map (\<lambda>v. v mod m) vs) (stream ds) = Inr ((as, bs, cs), stream [])"
    and closed: "close_sink t0 = close_sink s0 @ a # as" "close_sink t1 = close_sink s1 @ b # bs"
      "close_sink t2 = close_sink s2 @ (v - a - b) mod m # cs"
    by auto
  note ranges = next_mask_range [OF a] next_mask_range [OF b]
  from share_vector_Cons_stream [OF ranges share, of v] ds ranges closed show ?case
    by (intro exI [of _ "nat a # nat b # ds"]) auto
qed

section \<open>Properties\<close>

text \<open>
  C31: the streamed files are the shares the in-memory dealer produces.  When the writer returns,
  for some masks in the field \<open>share_vector\<close> deals the same three vectors for the values reduced
  modulo the prime: chunking loses, duplicates and reorders nothing, and the files reconstruct to
  the reduced values.
\<close>

theorem streamed_shards_are_shares:
  assumes "write_owner_shards vs destinations m g = Inr (Some files)"
  shows "\<exists>ds. set ds \<subseteq> {..<nat m} \<and>
    share_vector m (map (\<lambda>v. v mod m) vs) (stream ds) = Inr (files, stream []) \<and>
    combine_vector (reconstruct m) files = Inr (map (\<lambda>v. v mod m) vs)"
proof -
  from assms obtain t0 t1 t2 where run: "stream_values m vs (([], []), ([], []), ([], [])) g = Some (t0, t1, t2)"
    and files: "files = (close_sink t0, close_sink t1, close_sink t2)"
    by (auto simp: write_owner_shards_def split: if_splits)
  from stream_values_share [OF run] obtain ds where "set ds \<subseteq> {..<nat m}"
      "share_vector m (map (\<lambda>v. v mod m) vs) (stream ds) = Inr (files, stream [])"
    by (auto simp: files close_sink_def)
  moreover from field.combine_deal_vector [OF this(2) [unfolded share_vector_def]]
  have "combine_vector (reconstruct m) files = Inr (map (\<lambda>v. v mod m) vs)" .
  ultimately show ?thesis by blast
qed

theorem streamed_shards_are_shares_witness:
  "write_owner_shards [4, 9] 3 5 (\<lambda>_. 3) = Inr (Some ([3, 3], [3, 3], [3, 3])) \<and>
   combine_vector (reconstruct 5) ([3, 3], [3, 3], [3, 3]) = Inr [4, 4]"
proof -
  have mask: "next_mask 5 (\<lambda>_. 3) = Some (3, \<lambda>_. 3)"
    by (subst next_mask_step) (simp add: read_candidate_def byte_width_def candidate_mod bit_length_def bit_len_nat_pos
        randbelow_def)
  then have run: "write_owner_shards [4, 9] 3 5 (\<lambda>_. 3) = Inr (Some ([3, 3], [3, 3], [3, 3]))"
    by (simp add: write_owner_shards_def SERVER_COUNT_def append_line_def close_sink_def)
  from streamed_shards_are_shares [OF run] have "combine_vector (reconstruct 5) ([3, 3], [3, 3], [3, 3]) = Inr [4, 4]"
    by auto
  with run show ?thesis by blast
qed

text \<open>
  C32: rejection sampling is exact.  Every field element is the candidate of equally many byte
  strings, at least half of the byte strings are accepted, the loop returns exactly when the
  bytes ever hold an accepted candidate, and what it returns is in the field.
\<close>

theorem mask_sampling_exact:
  assumes "2 \<le> m" and "0 \<le> v" and "v < m"
  shows "card {bytes \<in> byte_strings (byte_width m). int (candidate_of m bytes) = v} = 2 ^ (8 * byte_width m - bit_length m) \<and>
    card (byte_strings (byte_width m)) \<le> 2 * card {bytes \<in> byte_strings (byte_width m). int (candidate_of m bytes) < m} \<and>
    (next_mask m g \<noteq> None \<longleftrightarrow> (\<exists>k. accepted_at m g k)) \<and>
    pred_option (\<lambda>(mask, _). 0 \<le> mask \<and> mask < m) (next_mask m g)"
proof -
  have "nat m < 2 ^ bit_length m" using less_two_power_bit_len [of "nat m"] assms by (simp add: bit_length_def)
  then have "nat v < 2 ^ bit_length m" using assms by linarith
  moreover have "{bytes \<in> byte_strings (byte_width m). int (candidate_of m bytes) = v} =
      {bytes \<in> byte_strings (byte_width m). candidate_of m bytes = nat v}" using assms(2) by auto
  moreover have "pred_option (\<lambda>(mask, _). 0 \<le> mask \<and> mask < m) (next_mask m g)"
    by (cases "next_mask m g") (auto dest: next_mask_range)
  ultimately show ?thesis
    using candidates_uniform [of "nat v" m] accepted_half [of m] next_mask_returns [of m g] assms(1) by simp
qed

theorem mask_sampling_exact_witness:
  "card {bytes \<in> byte_strings (byte_width 5). int (candidate_of 5 bytes) = 4} = 32 \<and> next_mask 5 (\<lambda>_. 7) = None"
proof -
  have "read_candidate 5 (\<lambda>_. 7) = (7, \<lambda>_. 7)"
    by (simp add: read_candidate_def byte_width_def candidate_mod bit_length_def bit_len_nat_pos randbelow_def)
  then have "after_candidates 5 k (\<lambda>_. 7) = (\<lambda>_. 7)" "\<not> accepted_at 5 (\<lambda>_. 7) k" for k
    by (induction k) (auto simp: accepted_at_def)
  moreover have "(2 :: int) \<le> 5" "(0 :: int) \<le> 4" "(4 :: int) < 5" by simp_all
  note mask_sampling_exact [OF this, of "\<lambda>_. 7"]
  ultimately have "\<not> next_mask 5 (\<lambda>_. 7) \<noteq> None" "card {bytes \<in> byte_strings (byte_width 5). int (candidate_of 5 bytes) = 4} =
      2 ^ (8 * byte_width 5 - bit_length 5)" by blast+
  then show ?thesis by (simp add: byte_width_def bit_length_def bit_len_nat_pos del: not_None_eq)
qed

end
