(* ===== verification/Fss_Params.thy ===== *)
theory Fss_Params
  imports Public_Config "HOL-Library.Word"
begin

unbundle bit_operations_syntax

text \<open>
  Parameters of the many-party point functions (\<open>multiparty_fss/params.py\<close>, \<open>parity.py\<close>,
  \<open>prg.py\<close>): the validated parameter set, the exact grid, the columns of a parity array, and the
  seed expansion.  SHAKE-256 is the function from a message to its endless output stream, of which
  \<open>digest(n)\<close> takes the first \<open>n\<close> bytes.
\<close>

type_synonym byte = "8 word"

type_synonym xof = "byte list \<Rightarrow> nat \<Rightarrow> byte"

definition xof_digest :: "xof \<Rightarrow> byte list \<Rightarrow> nat \<Rightarrow> byte list" where
  "xof_digest X m n = map (X m) [0..<n]"

lemma length_xof_digest [simp]: "length (xof_digest X m n) = n"
  by (simp add: xof_digest_def)

text \<open>\<open>b"..."\<close> of an ASCII text.\<close>

definition ascii_bytes :: "string \<Rightarrow> byte list" where
  "ascii_bytes = map (\<lambda>c. word_of_nat (of_char c))"

lemma length_ascii_bytes [simp]: "length (ascii_bytes s) = length s"
  by (simp add: ascii_bytes_def)

section \<open>Integer square roots\<close>

fun isqrt :: "nat \<Rightarrow> nat" where
  "isqrt n = (if n = 0 then 0 else let r = 2 * isqrt (n div 4) in if (r + 1) * (r + 1) \<le> n then r + 1 else r)"

declare isqrt.simps [simp del]

definition ceil_sqrt :: "nat \<Rightarrow> nat" where
  "ceil_sqrt v = (let root = isqrt v in if root * root = v then root else root + 1)"

lemma isqrt_spec: "isqrt n * isqrt n \<le> n \<and> n < (isqrt n + 1) * (isqrt n + 1)"
proof (induction n rule: isqrt.induct)
  case (1 n)
  show ?case
  proof (cases "n = 0")
    case True
    then show ?thesis by (simp add: isqrt.simps)
  next
    case False
    define r where "r = isqrt (n div 4)"
    from 1 [OF False] have lo: "r * r \<le> n div 4" and hi: "n div 4 < (r + 1) * (r + 1)"
      unfolding r_def by blast+
    have low: "(2 * r) * (2 * r) \<le> n" using lo by simp
    have "n < 4 * ((r + 1) * (r + 1))" using hi by simp
    then have high: "n < (2 * r + 2) * (2 * r + 2)" by simp
    have "isqrt n = (if (2 * r + 1) * (2 * r + 1) \<le> n then 2 * r + 1 else 2 * r)"
      using False by (subst isqrt.simps) (simp only: Let_def r_def if_False)
    with low high show ?thesis by (simp split: if_split)
  qed
qed

lemma ceil_sqrt_square: "v \<le> ceil_sqrt v * ceil_sqrt v"
  using isqrt_spec [of v] by (simp add: ceil_sqrt_def Let_def)

lemma ceil_sqrt_least: "v \<le> m * m \<Longrightarrow> ceil_sqrt v \<le> m"
proof (rule ccontr)
  assume v: "v \<le> m * m" and "\<not> ceil_sqrt v \<le> m"
  then have less: "m < ceil_sqrt v" by simp
  show False
  proof (cases "isqrt v * isqrt v = v")
    case True
    with less have "m < isqrt v" by (simp add: ceil_sqrt_def Let_def)
    then have "m * m < isqrt v * isqrt v" by (simp add: mult_strict_mono)
    with True v show False by simp
  next
    case False
    with less have "m \<le> isqrt v" by (simp add: ceil_sqrt_def Let_def)
    then have "m * m \<le> isqrt v * isqrt v" by (simp add: mult_le_mono)
    with False v isqrt_spec [of v] show False by simp
  qed
qed

lemma ceil_sqrt_pos: "0 < v \<Longrightarrow> 0 < ceil_sqrt v"
  using ceil_sqrt_square [of v] by (cases "ceil_sqrt v = 0") auto

section \<open>The parameter set\<close>

definition SEED_BYTES :: nat where "SEED_BYTES = 16"
definition OUTPUT_BITS :: nat where "OUTPUT_BITS = 64"
definition MIN_PARTIES :: int where "MIN_PARTIES = 3"
definition MAX_PARTIES :: int where "MAX_PARTIES = 10"
definition MIN_DOMAIN_BITS :: int where "MIN_DOMAIN_BITS = 1"
definition MAX_DOMAIN_BITS :: int where "MAX_DOMAIN_BITS = 30"
definition CONSTRUCTION_ID :: string where "CONSTRUCTION_ID = ''bgi15-mpdpf-p0''"
definition OUTPUT_GROUP_ID :: string where "OUTPUT_GROUP_ID = ''xor64''"
definition PRG_ID :: string where "PRG_ID = ''shake256-v1''"

definition honest_majority_threshold :: "int \<Rightarrow> int" where
  "honest_majority_threshold n = (n - 1) div 2"

record fss_params =
  domain_bits :: nat
  party_count :: nat
  threshold :: nat

definition make_params :: "int \<Rightarrow> int \<Rightarrow> int \<Rightarrow> fss_params res" where
  "make_params bits parties t =
     (if \<not> (MIN_DOMAIN_BITS \<le> bits \<and> bits \<le> MAX_DOMAIN_BITS) then Inl (ParameterError ''domain_bits must be in'')
      else if \<not> (MIN_PARTIES \<le> parties \<and> parties \<le> MAX_PARTIES) then Inl (ParameterError ''party_count must be in'')
      else if \<not> (1 \<le> t \<and> t \<le> parties - 1) then Inl (ParameterError ''threshold must satisfy'')
      else Inr \<lparr>domain_bits = nat bits, party_count = nat parties, threshold = nat t\<rparr>)"

definition create_params :: "int \<Rightarrow> int \<Rightarrow> int option \<Rightarrow> fss_params res" where
  "create_params bits parties t =
     make_params bits parties (case t of None \<Rightarrow> honest_majority_threshold parties | Some t \<Rightarrow> t)"

definition domain_size :: "fss_params \<Rightarrow> nat" where "domain_size P = 2 ^ domain_bits P"
definition seeds_per_row :: "fss_params \<Rightarrow> nat" where "seeds_per_row P = 2 ^ (party_count P - 1)"
definition mu :: "fss_params \<Rightarrow> nat" where "mu P = ceil_sqrt (2 ^ (domain_bits P + party_count P - 1))"
definition nu :: "fss_params \<Rightarrow> nat" where "nu P = ceil_div (domain_size P) (mu P)"
definition sigma_bytes :: "fss_params \<Rightarrow> nat" where "sigma_bytes P = nu P * seeds_per_row P * SEED_BYTES"
definition cw_bytes :: "fss_params \<Rightarrow> nat" where "cw_bytes P = seeds_per_row P * mu P * (OUTPUT_BITS div 8)"

text \<open>\<open>cell\<close>: row and column of a point.\<close>

definition grid_cell :: "fss_params \<Rightarrow> int \<Rightarrow> (nat \<times> nat) res" where
  "grid_cell P x =
     (if \<not> (0 \<le> x \<and> x < int (domain_size P)) then Inl (ParameterError ''domain point out of range'')
      else Inr (nat x div mu P, nat x mod mu P))"

definition params_document :: "fss_params \<Rightarrow> jval" where
  "params_document P = JDict
     [(''construction'', JStr CONSTRUCTION_ID), (''prg'', JStr PRG_ID), (''output_group'', JStr OUTPUT_GROUP_ID),
      (''seed_bytes'', JInt (int SEED_BYTES)), (''output_bits'', JInt (int OUTPUT_BITS)),
      (''domain_bits'', JInt (int (domain_bits P))), (''party_count'', JInt (int (party_count P))),
      (''threshold'', JInt (int (threshold P)))]"

definition params_id :: "(jval \<Rightarrow> string) \<Rightarrow> fss_params \<Rightarrow> string" where
  "params_id H P = H (canonical_json (params_document P))"

text \<open>\<open>value.to_bytes(n, "big")\<close> of a value that fits.\<close>

definition big_bytes :: "nat \<Rightarrow> nat \<Rightarrow> byte list" where
  "big_bytes n v = map (\<lambda>i. word_of_nat (v div 256 ^ (n - 1 - i))) [0..<n]"

definition prg_context :: "fss_params \<Rightarrow> byte list" where
  "prg_context P = ascii_bytes ''fedkg-mpdpf/bgi15-eurocrypt2015/prg/v1'' @ [0] @
     concat (map (big_bytes 4)
       [domain_bits P, party_count P, mu P, nu P, OUTPUT_BITS, SEED_BYTES * 8])"

definition domain_bits_for_universe :: "int \<Rightarrow> nat res" where
  "domain_bits_for_universe u =
     (if u < 1 then Inl (ParameterError ''universe must contain at least one point'')
      else let bits = bit_length (max (u - 1) 1) in
        if MAX_DOMAIN_BITS < int bits then Inl (ParameterError ''universe of size'') else Inr bits)"

text \<open>What the constructor accepts.\<close>

definition params_valid :: "fss_params \<Rightarrow> bool" where
  "params_valid P \<longleftrightarrow> 1 \<le> domain_bits P \<and> domain_bits P \<le> 30 \<and> 3 \<le> party_count P \<and> party_count P \<le> 10 \<and>
     1 \<le> threshold P \<and> threshold P < party_count P"

lemmas fss_bounds = MIN_PARTIES_def MAX_PARTIES_def MIN_DOMAIN_BITS_def MAX_DOMAIN_BITS_def

lemma make_params_valid: "make_params b n t = Inr P \<Longrightarrow> params_valid P \<and> int (domain_bits P) = b \<and>
  int (party_count P) = n \<and> int (threshold P) = t"
  by (auto simp: make_params_def params_valid_def fss_bounds split: if_splits)

lemma make_params_of: "params_valid P \<Longrightarrow>
  make_params (int (domain_bits P)) (int (party_count P)) (int (threshold P)) = Inr P"
  by (auto simp: make_params_def params_valid_def fss_bounds)

lemma seeds_per_row_pos [simp]: "0 < seeds_per_row P"
  by (simp add: seeds_per_row_def)

lemma mu_pos [simp]: "0 < mu P"
  by (simp add: mu_def ceil_sqrt_pos)

lemma ceil_div_bounds:
  assumes "0 < b"
  shows "a \<le> ceil_div a b * b" and "0 < a \<Longrightarrow> (ceil_div a b - 1) * b < a"
proof -
  have split: "a + b - 1 = ceil_div a b * b + (a + b - 1) mod b"
    unfolding ceil_div_def by simp
  have less: "(a + b - 1) mod b < b" using assms by simp
  show "a \<le> ceil_div a b * b" using split less assms by linarith
  show "(ceil_div a b - 1) * b < a" if "0 < a"
  proof -
    have "(ceil_div a b - 1) * b = ceil_div a b * b - b" by (simp add: diff_mult_distrib)
    with split assms that show ?thesis by linarith
  qed
qed

lemma domain_size_pos [simp]: "0 < domain_size P"
  by (simp add: domain_size_def)

lemma grid_covers: "domain_size P \<le> nu P * mu P"
  unfolding nu_def by (rule ceil_div_bounds(1) [OF mu_pos])

lemma grid_rows: "x < domain_size P \<Longrightarrow> x div mu P < nu P"
  using grid_covers [of P] by (simp add: less_mult_imp_div_less)

lemma nu_pos [simp]: "0 < nu P"
  using grid_rows [of 0 P] by simp

lemma grid_cell_in: "0 \<le> x \<Longrightarrow> x < int (domain_size P) \<Longrightarrow> grid_cell P x = Inr (nat x div mu P, nat x mod mu P)"
  by (simp add: grid_cell_def)

lemma universe_bits_sound:
  assumes "domain_bits_for_universe u = Inr n"
  shows "1 \<le> u" and "u \<le> 2 ^ n" and "1 \<le> n" and "n \<le> 30"
proof -
  from assms have u: "1 \<le> u" and n: "n = bit_length (max (u - 1) 1)" "n \<le> 30"
    by (auto simp: domain_bits_for_universe_def Let_def fss_bounds split: if_splits)
  show "1 \<le> u" and "n \<le> 30" by (fact u n(2))+
  have less: "max (u - 1) 1 < 2 ^ n" unfolding n(1) by (rule bit_length_less) simp
  then show "u \<le> 2 ^ n" by simp
  show "1 \<le> n" using less by (cases n) auto
qed

section \<open>Parity arrays\<close>

text \<open>\<open>bin(column).count("1")\<close>.\<close>

fun ones :: "nat \<Rightarrow> nat" where
  "ones n = (if n = 0 then 0 else n mod 2 + ones (n div 2))"

declare ones.simps [simp del]

definition parity_columns :: "nat \<Rightarrow> bool \<Rightarrow> nat list res" where
  "parity_columns parties odd_weight =
     (if parties < 1 then Inl (ParameterError ''party_count must be positive'')
      else Inr (filter (\<lambda>column. ones column mod 2 = (if odd_weight then 1 else 0)) [0..<2 ^ parties]))"

definition party_holds :: "nat \<Rightarrow> nat \<Rightarrow> bool" where
  "party_holds column i \<longleftrightarrow> drop_bit i column AND 1 = 1"

lemma party_holds_odd: "party_holds column i \<longleftrightarrow> odd (column div 2 ^ i)"
  by (auto simp: party_holds_def drop_bit_eq_div and_one_eq odd_iff_mod_2_eq_one)

lemma party_holds_0: "party_holds column 0 \<longleftrightarrow> odd column"
  by (simp add: party_holds_odd)

lemma party_holds_Suc: "party_holds column (Suc i) \<longleftrightarrow> party_holds (column div 2) i"
  by (simp add: party_holds_odd div_mult2_eq)

lemma ones_holders: "column < 2 ^ p \<Longrightarrow> ones column = length (filter (party_holds column) [0..<p])"
proof (induction p arbitrary: column)
  case 0
  then show ?case by (simp add: ones.simps)
next
  case (Suc p)
  then have "column div 2 < 2 ^ p" by (simp add: less_mult_imp_div_less mult.commute)
  from Suc.IH [OF this] have ih: "ones (column div 2) = length (filter (party_holds (column div 2)) [0..<p])" .
  have step: "ones column = column mod 2 + ones (column div 2)" by (subst ones.simps) (simp add: ones.simps)
  have "filter (party_holds column) [0..<Suc p] =
      filter (party_holds column) [0] @ filter (party_holds column) (map Suc [0..<p])"
    by (simp only: upt_conv_Cons map_Suc_upt zero_less_Suc filter_append [symmetric] append_Cons append_Nil)
  also have "length \<dots> = column mod 2 + length (filter (party_holds (column div 2)) [0..<p])"
    by (simp add: filter_map comp_def party_holds_Suc party_holds_0 odd_iff_mod_2_eq_one)
  finally show ?case by (simp only: step ih)
qed

section \<open>Shuffles\<close>

text \<open>\<open>SystemRandom.shuffle\<close>: \<open>for i in reversed(range(1, len(x)))\<close>, swap with a draw below \<open>i + 1\<close>.\<close>

definition swap_at :: "nat \<Rightarrow> nat \<Rightarrow> 'a list \<Rightarrow> 'a list" where
  "swap_at i j xs = xs[i := xs ! j, j := xs ! i]"

fun shuffle_from :: "nat \<Rightarrow> 'a list \<Rightarrow> rng \<Rightarrow> 'a list \<times> rng" where
  "shuffle_from 0 xs g = (xs, g)"
| "shuffle_from (Suc i) xs g =
     (let (j, g) = randbelow (Suc i + 1) g in shuffle_from i (swap_at (Suc i) j xs) g)"

definition shuffle_list :: "'a list \<Rightarrow> rng \<Rightarrow> 'a list \<times> rng" where
  "shuffle_list xs g = shuffle_from (length xs - 1) xs g"

definition sample_parity_array :: "nat \<Rightarrow> bool \<Rightarrow> rng \<Rightarrow> (nat list \<times> rng) res" where
  "sample_parity_array parties odd_weight g =
     bindr (parity_columns parties odd_weight) (\<lambda>columns. Inr (shuffle_list columns g))"

lemma mset_swap_at: "i < length xs \<Longrightarrow> j < length xs \<Longrightarrow> mset (swap_at i j xs) = mset xs"
  by (simp add: swap_at_def mset_swap)

lemma mset_shuffle_from: "i < length xs \<Longrightarrow> mset (fst (shuffle_from i xs g)) = mset xs"
proof (induction i arbitrary: xs g)
  case (Suc i)
  have "fst (randbelow (Suc i + 1) g) < Suc i + 1" by (rule randbelow_less) simp
  then have j: "fst (randbelow (Suc i + 1) g) < length xs" using Suc.prems by linarith
  have "length (swap_at (Suc i) (fst (randbelow (Suc i + 1) g)) xs) = length xs"
    by (simp add: swap_at_def)
  with Suc.IH [of "swap_at (Suc i) (fst (randbelow (Suc i + 1) g)) xs"] Suc.prems mset_swap_at [OF Suc.prems j]
  show ?case by (simp add: case_prod_unfold Let_def)
qed simp

lemma mset_shuffle: "mset (fst (shuffle_list xs g)) = mset xs"
  by (cases "xs = []") (simp_all add: shuffle_list_def mset_shuffle_from)

lemma sample_parity_array_spec:
  assumes "sample_parity_array p odd_weight g = Inr (columns, g')"
  shows "mset columns = mset (filter (\<lambda>c. ones c mod 2 = (if odd_weight then 1 else 0)) [0..<2 ^ p])"
    and "1 \<le> p"
proof -
  from assms have "1 \<le> p" and sh: "shuffle_list (filter (\<lambda>c. ones c mod 2 = (if odd_weight then 1 else 0)) [0..<2 ^ p]) g = (columns, g')"
    by (auto simp: sample_parity_array_def parity_columns_def res_simps split: if_splits)
  then show "1 \<le> p" by simp
  from mset_shuffle [of "filter (\<lambda>c. ones c mod 2 = (if odd_weight then 1 else 0)) [0..<2 ^ p]" g]
  show "mset columns = mset (filter (\<lambda>c. ones c mod 2 = (if odd_weight then 1 else 0)) [0..<2 ^ p])"
    unfolding sh by simp
qed

section \<open>Seed expansion\<close>

text \<open>Little-endian words; \<open>np.frombuffer(buffer, dtype="<u8")\<close> cuts the buffer into eights.\<close>

fun le_bytes :: "nat \<Rightarrow> 64 word \<Rightarrow> byte list" where
  "le_bytes 0 w = []"
| "le_bytes (Suc n) w = ucast w # le_bytes n (drop_bit 8 w)"

fun le_word :: "byte list \<Rightarrow> 64 word" where
  "le_word [] = 0"
| "le_word (b # bs) = ucast b OR push_bit 8 (le_word bs)"

definition words_of :: "byte list \<Rightarrow> 64 word list" where
  "words_of bs = map (\<lambda>i. le_word (take 8 (drop (i * 8) bs))) [0..<length bs div 8]"

definition bytes_of :: "64 word list \<Rightarrow> byte list" where
  "bytes_of ws = concat (map (le_bytes 8) ws)"

definition expand_seed :: "xof \<Rightarrow> fss_params \<Rightarrow> byte list \<Rightarrow> 64 word list res" where
  "expand_seed X P seed =
     (if length seed \<noteq> SEED_BYTES then Inl (ParameterError ''PRG seed must be exactly 16 bytes'')
      else Inr (words_of (xof_digest X (prg_context P @ seed) (8 * mu P))))"

lemma length_le_bytes [simp]: "length (le_bytes n w) = n"
  by (induction n arbitrary: w) auto

lemma bit_le_word_le_bytes: "bit (le_word (le_bytes n w)) i \<longleftrightarrow> i < 8 * n \<and> bit w i"
proof (induction n arbitrary: w i)
  case (Suc n)
  show ?case
  proof (cases "i < 8")
    case True
    then show ?thesis by (auto simp: bit_or_iff bit_unsigned_iff bit_push_bit_iff dest: bit_imp_le_length)
  next
    case False
    have "i < 64" if "bit w i" using bit_imp_le_length [OF that] by simp
    with False show ?thesis
      by (auto simp: bit_or_iff bit_unsigned_iff bit_push_bit_iff Suc.IH bit_drop_bit_eq dest: bit_imp_le_length)
  qed
qed simp

lemma le_word_le_bytes [simp]: "le_word (le_bytes 8 w) = w"
  by (rule bit_eqI) (auto simp: bit_le_word_le_bytes)

lemma length_words_of [simp]: "length (words_of bs) = length bs div 8"
  by (simp add: words_of_def)

lemma length_bytes_of [simp]: "length (bytes_of ws) = 8 * length ws"
  unfolding bytes_of_def by (subst length_concat_uniform [where w = 8]) auto

lemma words_of_append: "8 dvd length bs \<Longrightarrow> words_of (bs @ cs) = words_of bs @ words_of cs"
proof -
  assume "8 dvd length bs"
  then obtain k where k: "length bs = 8 * k" by blast
  have upt: "[0..<k + length cs div 8] = [0..<k] @ map (\<lambda>i. i + k) [0..<length cs div 8]"
    unfolding map_add_upt by (simp only: upt_add_eq_append [OF le0] add.commute)
  have one: "take 8 (drop (i * 8) (bs @ cs)) = take 8 (drop (i * 8) bs)" if "i < k" for i
    using that k by simp
  have two: "drop ((i + k) * 8) (bs @ cs) = drop (i * 8) cs" for i
    using k by (simp add: algebra_simps)
  have "words_of (bs @ cs) = map (\<lambda>i. le_word (take 8 (drop (i * 8) (bs @ cs)))) [0..<k + length cs div 8]"
    using k by (simp add: words_of_def)
  also have "\<dots> = words_of bs @ words_of cs"
    unfolding upt words_of_def map_append map_map using k one two by simp
  finally show ?thesis .
qed

lemma words_of_bytes_of [simp]: "words_of (bytes_of ws) = ws"
proof (induction ws)
  case Nil
  then show ?case by (simp add: words_of_def bytes_of_def)
next
  case (Cons w ws)
  have "words_of (le_bytes 8 w) = [w]" by (simp add: words_of_def)
  then have "words_of (le_bytes 8 w @ bytes_of ws) = w # ws"
    using Cons.IH by (simp add: words_of_append)
  then show ?case by (simp add: bytes_of_def)
qed

lemma expand_seed_ok:
  "length seed = SEED_BYTES \<Longrightarrow> \<exists>v. expand_seed X P seed = Inr v \<and> length v = mu P"
  by (simp add: expand_seed_def)

end
