(* ===== verification/Fss_Keys.thy ===== *)
theory Fss_Keys
  imports Fss_Params
begin

text \<open>
  The many-party point function (\<open>multiparty_fss/keyshare.py\<close>, \<open>keygen.py\<close>, \<open>evaluate.py\<close>,
  \<open>combine.py\<close>): key shares as the bytes they carry, generation, evaluation at a point, at a
  batch and over a universe, and the XOR of the parties' outputs.  Generation draws seeds until
  one is not zero, a loop that may not end; a run of it is \<open>None\<close> then.
\<close>

section \<open>Runs that may not end\<close>

definition bindo :: "'a res option \<Rightarrow> ('a \<Rightarrow> 'b res option) \<Rightarrow> 'b res option" where
  "bindo m f = (case m of None \<Rightarrow> None | Some (Inl e) \<Rightarrow> Some (Inl e) | Some (Inr x) \<Rightarrow> f x)"

lemma bindo_simps [simp]: "bindo None f = None" "bindo (Some (Inl e)) f = Some (Inl e)" "bindo (Some (Inr x)) f = f x"
  by (simp_all add: bindo_def)

lemma bindo_eq_Inr [res_simps]: "bindo m f = Some (Inr y) \<longleftrightarrow> (\<exists>x. m = Some (Inr x) \<and> f x = Some (Inr y))"
  by (auto simp: bindo_def split: option.split sum.split)

lemma bindo_res: "bindo (Some m) (\<lambda>x. Some (f x)) = Some (bindr m f)"
  by (cases m) auto

section \<open>Key shares\<close>

definition DOMAIN_BINDING_RAW :: string where "DOMAIN_BINDING_RAW = ''raw''"

definition is_lower_hex :: "nat \<Rightarrow> string \<Rightarrow> bool" where
  "is_lower_hex n s \<longleftrightarrow> length s = n \<and> set s \<subseteq> set ''0123456789abcdef''"

record key_share =
  key_params :: fss_params
  party_index :: nat
  keygen_id :: string
  domain_binding :: string
  sigma :: "byte list"
  correction_words :: "byte list"

text \<open>The constructor with its checks.\<close>

definition make_key_share :: "fss_params \<Rightarrow> int \<Rightarrow> string \<Rightarrow> string \<Rightarrow> byte list \<Rightarrow> byte list \<Rightarrow> key_share res" where
  "make_key_share P i kid binding sig cws =
     (if \<not> (0 \<le> i \<and> i < int (party_count P)) then Inl (KeyShareFormatError ''party_index must be in'')
      else if \<not> is_lower_hex 32 kid then Inl (KeyShareFormatError ''keygen_id must be 32 lowercase hex characters'')
      else if binding \<noteq> DOMAIN_BINDING_RAW \<and> \<not> is_lower_hex 64 binding
      then Inl (KeyShareFormatError ''domain_binding must be 'raw' or a 64-hex universe digest'')
      else if length sig \<noteq> sigma_bytes P then Inl (KeyShareFormatError ''sigma payload length does not match the parameter set'')
      else if length cws \<noteq> cw_bytes P then Inl (KeyShareFormatError ''correction-word payload length does not match the parameter set'')
      else Inr \<lparr>key_params = P, party_index = nat i, keygen_id = kid, domain_binding = binding,
        sigma = sig, correction_words = cws\<rparr>)"

text \<open>The views of the payload: a seed block of a row, a row of correction words.\<close>

definition seed_block :: "key_share \<Rightarrow> nat \<Rightarrow> nat \<Rightarrow> byte list" where
  "seed_block k row j = take SEED_BYTES (drop ((row * seeds_per_row (key_params k) + j) * SEED_BYTES) (sigma k))"

definition cw_row :: "key_share \<Rightarrow> nat \<Rightarrow> 64 word list" where
  "cw_row k j = take (mu (key_params k)) (drop (j * mu (key_params k)) (words_of (correction_words k)))"

section \<open>Generation\<close>

definition xor_vec :: "64 word list \<Rightarrow> 64 word list \<Rightarrow> 64 word list" where
  "xor_vec = map2 (XOR)"

definition zero_vec :: "nat \<Rightarrow> 64 word list" where
  "zero_vec n = replicate n 0"

definition token_bytes :: "nat \<Rightarrow> rng \<Rightarrow> byte list \<times> rng" where
  "token_bytes n g = (let (xs, g) = draws n 256 g in (map word_of_nat xs, g))"

definition hex_digit :: "nat \<Rightarrow> char" where
  "hex_digit d = ''0123456789abcdef'' ! d"

definition token_hex :: "nat \<Rightarrow> rng \<Rightarrow> string \<times> rng" where
  "token_hex n g = (let (bs, g) = token_bytes n g in
     (concat (map (\<lambda>b. [hex_digit (unat b div 16), hex_digit (unat b mod 16)]) bs), g))"

partial_function (option) random_seed :: "rng \<Rightarrow> (byte list \<times> rng) option" where
  "random_seed g =
     (case token_bytes SEED_BYTES g of (seed, g') \<Rightarrow>
        if list_ex (\<lambda>b. b \<noteq> 0) seed then Some (seed, g') else random_seed g')"

fun random_seeds :: "nat \<Rightarrow> rng \<Rightarrow> (byte list list \<times> rng) option" where
  "random_seeds 0 g = Some ([], g)"
| "random_seeds (Suc n) g =
     (case random_seed g of None \<Rightarrow> None | Some (seed, g) \<Rightarrow>
      case random_seeds n g of None \<Rightarrow> None | Some (seeds, g) \<Rightarrow> Some (seed # seeds, g))"

fun random_seed_rows :: "nat \<Rightarrow> nat \<Rightarrow> rng \<Rightarrow> (byte list list list \<times> rng) option" where
  "random_seed_rows 0 per_row g = Some ([], g)"
| "random_seed_rows (Suc n) per_row g =
     (case random_seeds per_row g of None \<Rightarrow> None | Some (row, g) \<Rightarrow>
      case random_seed_rows n per_row g of None \<Rightarrow> None | Some (rows, g) \<Rightarrow> Some (row # rows, g))"

text \<open>\<open>[sample_parity_array(p, odd=(row == gamma)) for row in range(nu)]\<close>, from row \<open>row\<close> on.\<close>

fun sample_arrays :: "nat \<Rightarrow> nat \<Rightarrow> nat list \<Rightarrow> rng \<Rightarrow> (nat list list \<times> rng) res" where
  "sample_arrays p gamma [] g = Inr ([], g)"
| "sample_arrays p gamma (row # rows) g =
     bindr (sample_parity_array p (row = gamma) g) (\<lambda>(a, g).
     bindr (sample_arrays p gamma rows g) (\<lambda>(as, g). Inr (a # as, g)))"

fun random_words :: "nat \<Rightarrow> nat \<Rightarrow> rng \<Rightarrow> 64 word list list \<times> rng" where
  "random_words 0 width g = ([], g)"
| "random_words (Suc n) width g =
     (let (bs, g) = token_bytes (width * (OUTPUT_BITS div 8)) g; (rows, g) = random_words n width g
      in (words_of bs # rows, g))"

text \<open>Line 6: all but the last correction word are drawn, the last one solves the constraint.\<close>

definition solve_words :: "fss_params \<Rightarrow> nat \<Rightarrow> int \<Rightarrow> 64 word list \<Rightarrow> rng \<Rightarrow> 64 word list list \<times> rng" where
  "solve_words P delta beta prg_special g =
     (let target = (zero_vec (mu P))[delta := word_of_int beta];
          (drawn, g) = random_words (seeds_per_row P - 1) (mu P) g;
          partial = fold (\<lambda>cw acc. xor_vec acc cw) drawn (zero_vec (mu P))
      in (drawn @ [xor_vec (xor_vec target prg_special) partial], g))"

definition sigma_of :: "nat list list \<Rightarrow> byte list list list \<Rightarrow> nat \<Rightarrow> byte list" where
  "sigma_of arrays seeds i =
     concat (map2 (\<lambda>columns row_seeds.
       concat (map2 (\<lambda>column seed. if party_holds column i then seed else replicate SEED_BYTES 0) columns row_seeds))
       arrays seeds)"

definition resolve_params :: "int \<Rightarrow> int option \<Rightarrow> fss_params option \<Rightarrow> int option \<Rightarrow> fss_params res" where
  "resolve_params parties t params bits =
     (case params of
        None \<Rightarrow> (case bits of None \<Rightarrow> Inl (ParameterError ''either params or domain_bits is required'')
                 | Some n \<Rightarrow> create_params n parties t)
      | Some P \<Rightarrow>
          if bits \<noteq> None \<and> bits \<noteq> Some (int (domain_bits P)) then Inl (ParameterError ''domain_bits conflicts with params'')
          else if parties \<noteq> int (party_count P) then Inl (ParameterError ''party_count conflicts with params'')
          else if t \<noteq> None \<and> t \<noteq> Some (int (threshold P)) then Inl (ParameterError ''threshold conflicts with params'')
          else Inr P)"

definition generate ::
  "xof \<Rightarrow> int \<Rightarrow> int \<Rightarrow> int \<Rightarrow> int option \<Rightarrow> fss_params option \<Rightarrow> int option \<Rightarrow> string \<Rightarrow> rng \<Rightarrow> (key_share list \<times> rng) res option" where
  "generate X alpha beta parties t params bits binding g =
     bindo (Some (resolve_params parties t params bits)) (\<lambda>P.
     if \<not> (0 \<le> alpha \<and> alpha < int (domain_size P)) then Some (Inl (ParameterError ''alpha out of the input domain [0, 2^n)''))
     else if \<not> (0 \<le> beta \<and> beta < 2 ^ OUTPUT_BITS) then Some (Inl (ParameterError ''beta must be a 64-bit unsigned value''))
     else
       bindo (Some (grid_cell P alpha)) (\<lambda>(gamma, delta).
       bindo (Some (sample_arrays (party_count P) gamma [0..<nu P] g)) (\<lambda>(arrays, g).
       case random_seed_rows (nu P) (seeds_per_row P) g of None \<Rightarrow> None | Some (seeds, g) \<Rightarrow>
       Some (
         bindr (foldM (\<lambda>seed acc. bindr (expand_seed X P seed) (\<lambda>v. Inr (xor_vec acc v)))
           (seeds ! gamma) (zero_vec (mu P))) (\<lambda>prg_special.
         let (cw, g) = solve_words P delta beta prg_special g;
             (kid, g) = token_hex 16 g
         in bindr (traverse (\<lambda>i. make_key_share P (int i) kid binding (sigma_of arrays seeds i) (bytes_of (concat cw)))
              [0..<party_count P]) (\<lambda>shares. Inr (shares, g)))))))"

section \<open>Evaluation\<close>

definition row_step :: "xof \<Rightarrow> key_share \<Rightarrow> nat \<Rightarrow> nat \<Rightarrow> 64 word list \<Rightarrow> 64 word list res" where
  "row_step X k row j acc =
     (let block = seed_block k row j in
      if \<not> list_ex (\<lambda>b. b \<noteq> 0) block then Inr acc
      else bindr (expand_seed X (key_params k) block) (\<lambda>v. Inr (xor_vec (xor_vec acc (cw_row k j)) v)))"

definition row_vector :: "xof \<Rightarrow> key_share \<Rightarrow> nat \<Rightarrow> 64 word list res" where
  "row_vector X k row = foldM (row_step X k row) [0..<seeds_per_row (key_params k)] (zero_vec (mu (key_params k)))"

definition eval_point :: "xof \<Rightarrow> key_share \<Rightarrow> int \<Rightarrow> int res" where
  "eval_point X k x =
     bindr (grid_cell (key_params k) x) (\<lambda>(gamma, delta).
     bindr (row_vector X k gamma) (\<lambda>v. Inr (uint (v ! delta))))"

definition evaluate_many :: "xof \<Rightarrow> key_share \<Rightarrow> int list \<Rightarrow> int list res" where
  "evaluate_many X k points =
     (let P = key_params k in
      if \<not> list_all (\<lambda>x. 0 \<le> x \<and> x < int (domain_size P)) points
      then Inl (ParameterError ''evaluation point out of the input domain'')
      else
        let rows_needed = sort (remdups (map (\<lambda>x. nat x div mu P) points)) in
        bindr (traverse (\<lambda>row. bindr (row_vector X k row) (\<lambda>v. Inr (row, v))) rows_needed) (\<lambda>row_cache.
        traverse (\<lambda>x. case map_of row_cache (nat x div mu P) of
            None \<Rightarrow> Inl KeyError | Some v \<Rightarrow> Inr (uint (v ! (nat x mod mu P)))) points))"

definition evaluate_universe :: "xof \<Rightarrow> key_share \<Rightarrow> nat \<Rightarrow> 64 word list res" where
  "evaluate_universe X k universe_size =
     (let P = key_params k in
      if \<not> (0 < universe_size \<and> universe_size \<le> domain_size P) then Inl (ParameterError ''universe size out of the input domain'')
      else
        let last_row = (universe_size - 1) div mu P in
        bindr (traverse (row_vector X k) [0..<last_row + 1]) (\<lambda>parts. Inr (take universe_size (concat parts))))"

section \<open>Combination\<close>

definition WORD_MASK :: int where "WORD_MASK = 2 ^ 64 - 1"

definition check_share_value :: "int \<Rightarrow> int res" where
  "check_share_value v =
     (if \<not> (0 \<le> v \<and> v \<le> WORD_MASK) then Inl (CombineError ''output share out of the 64-bit output group'') else Inr v)"

definition combine_shares :: "(int \<times> int) list \<Rightarrow> int \<Rightarrow> int res" where
  "combine_shares output_shares parties =
     (if set (map fst output_shares) \<noteq> {0..<parties}
      then Inl (CombineError ''combine requires exactly one share per party index'')
      else foldM (\<lambda>i acc. bindr (check_share_value (get_or 0 output_shares i)) (\<lambda>v. Inr (acc XOR v)))
             [0..parties - 1] 0)"

definition combine_vectors :: "(int \<times> int list) list \<Rightarrow> int \<Rightarrow> int list res" where
  "combine_vectors share_vectors parties =
     (if set (map fst share_vectors) \<noteq> {0..<parties}
      then Inl (CombineError ''combine requires exactly one share vector per party index'')
      else case remdups (map (length \<circ> snd) share_vectors) of
        [n] \<Rightarrow> foldM (\<lambda>i combined.
            bindr (traverse check_share_value (get_or [] share_vectors i)) (\<lambda>vs. Inr (map2 (XOR) combined vs)))
          [0..parties - 1] (replicate n 0)
      | _ \<Rightarrow> Inl (CombineError ''share vectors must all have the same length''))"

end
