(* ===== verification/Fss_Xor.thy ===== *)
theory Fss_Xor
  imports Fss_Keys
begin

unbundle bit_operations_syntax

text \<open>
  What the correctness of the point functions rests on: sums in the group of words under
  exclusive or, the parity arrays as their columns, the generator as a shifted stream, and the
  payload of a key share read back block by block.
\<close>

section \<open>Sums under exclusive or\<close>

fun xor_sum :: "('a \<Rightarrow> 64 word) \<Rightarrow> 'a list \<Rightarrow> 64 word" where
  "xor_sum f [] = 0"
| "xor_sum f (x # xs) = f x XOR xor_sum f xs"

lemma xor_sum_append: "xor_sum f (xs @ ys) = xor_sum f xs XOR xor_sum f ys"
  by (induction xs) (simp_all add: xor.assoc)

lemma xor_sum_map: "xor_sum f (map g xs) = xor_sum (\<lambda>x. f (g x)) xs"
  by (induction xs) simp_all

lemma xor_sum_zero [simp]: "xor_sum (\<lambda>_. 0) xs = 0"
  by (induction xs) simp_all

lemma xor_sum_xor: "xor_sum (\<lambda>x. f x XOR g x) xs = xor_sum f xs XOR xor_sum g xs"
  by (induction xs) (simp_all add: xor.assoc xor.left_commute)

lemma xor_sum_cong: "(\<And>x. x \<in> set xs \<Longrightarrow> f x = g x) \<Longrightarrow> xor_sum f xs = xor_sum g xs"
  by (induction xs) simp_all

lemma xor_sum_swap: "xor_sum (\<lambda>x. xor_sum (f x) ys) xs = xor_sum (\<lambda>y. xor_sum (\<lambda>x. f x y) xs) ys"
  by (induction xs) (simp_all add: xor_sum_xor)

lemma xor_sum_if: "xor_sum (\<lambda>x. if P x then v else 0) xs = (if odd (length (filter P xs)) then v else 0)"
  by (induction xs) auto

lemma fold_xor: "fold (\<lambda>x acc. acc XOR f x) xs a = a XOR xor_sum f xs"
  by (induction xs arbitrary: a) (simp_all add: xor.assoc)

lemma xor_sum_filter: "xor_sum f (filter P xs) = xor_sum (\<lambda>x. if P x then f x else 0) xs"
  by (induction xs) simp_all

section \<open>Vectors\<close>

lemma length_xor_vec [simp]: "length (xor_vec a b) = min (length a) (length b)"
  by (simp add: xor_vec_def)

lemma xor_vec_nth [simp]: "i < length a \<Longrightarrow> i < length b \<Longrightarrow> xor_vec a b ! i = a ! i XOR b ! i"
  by (simp add: xor_vec_def)

lemma length_zero_vec [simp]: "length (zero_vec n) = n"
  by (simp add: zero_vec_def)

lemma zero_vec_nth [simp]: "i < n \<Longrightarrow> zero_vec n ! i = 0"
  by (simp add: zero_vec_def)

lemma fold_xor_vec:
  assumes "\<And>x. x \<in> set xs \<Longrightarrow> length (f x) = n" and "length a = n"
  shows "length (fold (\<lambda>x acc. xor_vec acc (f x)) xs a) = n"
    and "i < n \<Longrightarrow> fold (\<lambda>x acc. xor_vec acc (f x)) xs a ! i = a ! i XOR xor_sum (\<lambda>x. f x ! i) xs"
  using assms by (induction xs arbitrary: a) (simp_all add: xor.assoc)

section \<open>Columns\<close>

lemma ones_0 [simp]: "ones 0 = 0"
  by (simp add: ones.simps)

lemma ones_add_power: "c < 2 ^ p \<Longrightarrow> ones (c + 2 ^ p) = Suc (ones c)"
proof (induction p arbitrary: c)
  case 0
  then show ?case by (simp add: ones.simps)
next
  case (Suc p)
  have half: "c div 2 < 2 ^ p" using Suc.prems by (simp add: less_mult_imp_div_less mult.commute)
  have "ones (c + 2 ^ Suc p) = (c + 2 ^ Suc p) mod 2 + ones ((c + 2 ^ Suc p) div 2)"
    by (subst ones.simps) simp
  also have "(c + 2 ^ Suc p) div 2 = c div 2 + 2 ^ p" by simp
  also have "(c + 2 ^ Suc p) mod 2 = c mod 2" by simp
  also have "ones (c div 2 + 2 ^ p) = Suc (ones (c div 2))" by (rule Suc.IH [OF half])
  also have "c mod 2 + Suc (ones (c div 2)) = Suc (ones c)"
    by (subst (2) ones.simps) simp
  finally show ?case .
qed

lemma half_the_columns:
  assumes "b < 2"
  shows "length (filter (\<lambda>c. ones c mod 2 = b) [0..<2 ^ Suc p]) = 2 ^ p"
proof -
  let ?odd = "\<lambda>c. ones c mod 2 = b"
  have upt: "[0..<2 ^ Suc p] = [0..<2 ^ p] @ map (\<lambda>i. i + 2 ^ p) [0..<2 ^ p]"
    unfolding map_add_upt using upt_add_eq_append [of 0 "2 ^ p" "2 ^ p"] by (simp add: mult_2)
  have flip: "?odd (c + 2 ^ p) \<longleftrightarrow> \<not> ?odd c" if "c \<in> set [0..<2 ^ p]" for c
  proof -
    from that have "c < 2 ^ p" by simp
    from ones_add_power [OF this] show ?thesis using assms by (simp add: mod_Suc) linarith
  qed
  have "length (filter ?odd [0..<2 ^ Suc p]) =
      length (filter ?odd [0..<2 ^ p]) + length (filter (\<lambda>c. ?odd (c + 2 ^ p)) [0..<2 ^ p])"
    by (simp only: upt filter_append length_append filter_map length_map comp_def)
  also have "filter (\<lambda>c. ?odd (c + 2 ^ p)) [0..<2 ^ p] = filter (\<lambda>c. \<not> ?odd c) [0..<2 ^ p]"
    by (rule filter_cong [OF refl flip])
  also have "length (filter ?odd [0..<2 ^ p]) + length (filter (\<lambda>c. \<not> ?odd c) [0..<2 ^ p]) = 2 ^ p"
    by (simp add: sum_length_filter_compl)
  finally show ?thesis .
qed

text \<open>An array of one parity: its columns, whatever their order.\<close>

definition parity_array :: "nat \<Rightarrow> bool \<Rightarrow> nat list \<Rightarrow> bool" where
  "parity_array p odd_weight columns \<longleftrightarrow>
     length columns = 2 ^ (p - 1) \<and> distinct columns \<and>
     set columns = {c. c < 2 ^ p \<and> ones c mod 2 = (if odd_weight then 1 else 0)}"

lemma sampled_parity_array:
  assumes "sample_parity_array p odd_weight g = Inr (columns, g')"
  shows "parity_array p odd_weight columns"
proof -
  let ?all = "filter (\<lambda>c. ones c mod 2 = (if odd_weight then 1 else 0)) [0..<2 ^ p]"
  from sample_parity_array_spec [OF assms] have m: "mset columns = mset ?all" and p: "1 \<le> p" by blast+
  obtain q where q: "p = Suc q" using p by (cases p) auto
  from m have "length columns = length ?all" by (rule mset_eq_length)
  also have "\<dots> = 2 ^ (p - 1)"
    using half_the_columns [of "if odd_weight then 1 else 0" q] by (simp add: q)
  finally have "length columns = 2 ^ (p - 1)" .
  moreover have "set columns = set ?all" using m by (rule mset_eq_setD)
  moreover have "distinct columns" using mset_eq_imp_distinct_iff [OF m] by simp
  ultimately show ?thesis by (auto simp: parity_array_def)
qed

text \<open>A word held through a column cancels exactly when the column has even weight.\<close>

lemma holders_cancel:
  assumes "parity_array p odd_weight columns" and "c \<in> set columns"
  shows "xor_sum (\<lambda>i. if party_holds c i then v else 0) [0..<p] = (if odd_weight then v else 0)"
proof -
  from assms have c: "c < 2 ^ p" "ones c mod 2 = (if odd_weight then 1 else 0)"
    by (auto simp: parity_array_def)
  have "odd (length (filter (party_holds c) [0..<p])) = odd_weight"
    using c by (simp add: ones_holders [symmetric] odd_iff_mod_2_eq_one)
  then show ?thesis by (simp add: xor_sum_if)
qed

section \<open>The generator\<close>

lemma token_bytes_stream: "token_bytes n g = (map (\<lambda>i. word_of_nat (g i mod 256)) [0..<n], \<lambda>i. g (i + n))"
  by (simp add: token_bytes_def draws_stream)

lemma length_token_bytes [simp]: "length (fst (token_bytes n g)) = n"
  by (simp add: token_bytes_stream)

definition good_seed :: "byte list \<Rightarrow> bool" where
  "good_seed s \<longleftrightarrow> length s = SEED_BYTES \<and> list_ex (\<lambda>b. b \<noteq> 0) s"

lemma random_seed_run_good: "random_seed g = Some r \<Longrightarrow> good_seed (fst r)"
proof (rule random_seed.raw_induct [of "\<lambda>g r. good_seed (fst r)"])
  fix f :: "rng \<Rightarrow> (byte list \<times> rng) option" and g r
  assume ih: "\<And>g r. f g = Some r \<Longrightarrow> good_seed (fst r)"
    and run: "(case token_bytes SEED_BYTES g of (seed, g') \<Rightarrow>
      if list_ex (\<lambda>b. b \<noteq> 0) seed then Some (seed, g') else f g') = Some r"
  show "good_seed (fst r)"
  proof (cases "list_ex (\<lambda>b. b \<noteq> 0) (fst (token_bytes SEED_BYTES g))")
    case True
    with run have "r = token_bytes SEED_BYTES g" by (auto simp: case_prod_unfold)
    with True show ?thesis by (simp add: good_seed_def)
  next
    case False
    with run have "f (snd (token_bytes SEED_BYTES g)) = Some r" by (simp add: case_prod_unfold)
    then show ?thesis by (rule ih)
  qed
qed

lemma random_seed_good: "random_seed g = Some (s, g') \<Longrightarrow> good_seed s"
  using random_seed_run_good by fastforce

text \<open>A stream whose bytes are not all zero from some point on.\<close>

definition lively :: "rng \<Rightarrow> bool" where
  "lively g \<longleftrightarrow> (\<forall>n. \<exists>m \<ge> n. g m mod 256 \<noteq> 0)"

lemma lively_shift: "lively g \<Longrightarrow> lively (\<lambda>i. g (i + n))"
  unfolding lively_def
proof
  fix k assume "\<forall>n. \<exists>m \<ge> n. g m mod 256 \<noteq> 0"
  then obtain m where "k + n \<le> m" "g m mod 256 \<noteq> 0" by blast
  then show "\<exists>m \<ge> k. g (m + n) mod 256 \<noteq> 0"
    by (intro exI [of _ "m - n"]) simp
qed

lemma random_seed_returns:
  assumes "g m mod 256 \<noteq> 0"
  shows "\<exists>s n. random_seed g = Some (s, \<lambda>i. g (i + n))"
  using assms
proof (induction m arbitrary: g rule: less_induct)
  case (less m)
  let ?seed = "fst (token_bytes SEED_BYTES g)"
  have step: "random_seed g = (if list_ex (\<lambda>b. b \<noteq> 0) ?seed then Some (?seed, \<lambda>i. g (i + SEED_BYTES))
      else random_seed (\<lambda>i. g (i + SEED_BYTES)))"
    by (subst random_seed.simps) (simp add: token_bytes_stream)
  show ?case
  proof (cases "list_ex (\<lambda>b. b \<noteq> 0) ?seed")
    case True
    with step show ?thesis by auto
  next
    case False
    have "SEED_BYTES \<le> m"
    proof (rule ccontr)
      assume "\<not> SEED_BYTES \<le> m"
      then have "(word_of_nat (g m mod 256) :: byte) \<in> set ?seed"
        by (simp add: token_bytes_stream)
      with False have "(word_of_nat (g m mod 256) :: byte) = 0" by (auto simp: list_ex_iff)
      then have "g m mod 256 mod 256 = 0"
        by (simp add: word_of_nat_eq_0_iff dvd_eq_mod_eq_0)
      with less.prems show False by simp
    qed
    then have "\<exists>s n. random_seed (\<lambda>i. g (i + SEED_BYTES)) = Some (s, \<lambda>i. g (i + SEED_BYTES + n))"
      using less.IH [of "m - SEED_BYTES" "\<lambda>i. g (i + SEED_BYTES)"] less.prems
      by (simp add: SEED_BYTES_def add.assoc add.commute)
    with False step show ?thesis by (auto simp: add.assoc)
  qed
qed

lemma random_seeds_good:
  "random_seeds n g = Some (ss, g') \<Longrightarrow> length ss = n \<and> list_all good_seed ss"
proof (induction n arbitrary: g ss)
  case (Suc n)
  then obtain s g1 ss' where s: "random_seed g = Some (s, g1)" and rest: "random_seeds n g1 = Some (ss', g')" "ss = s # ss'"
    by (auto split: option.splits)
  from random_seed_good [OF s] Suc.IH [OF rest(1)] rest(2) show ?case by simp
qed simp

lemma random_seed_rows_good:
  "random_seed_rows n w g = Some (rows, g') \<Longrightarrow>
    length rows = n \<and> list_all (\<lambda>ss. length ss = w \<and> list_all good_seed ss) rows"
proof (induction n arbitrary: g rows)
  case (Suc n)
  then show ?case by (auto split: option.splits dest!: random_seeds_good)
qed simp

lemma random_seeds_return: "lively g \<Longrightarrow> \<exists>ss n. random_seeds k g = Some (ss, \<lambda>i. g (i + n))"
proof (induction k arbitrary: g)
  case 0
  show ?case by (intro exI [of _ "[]"] exI [of _ 0]) simp
next
  case (Suc k)
  from Suc.prems obtain m where "g m mod 256 \<noteq> 0" unfolding lively_def by blast
  from random_seed_returns [of g m, OF this] obtain s n where s: "random_seed g = Some (s, \<lambda>i. g (i + n))" by blast
  from Suc.IH [OF lively_shift [OF Suc.prems]] obtain ss n'
    where ss: "random_seeds k (\<lambda>i. g (i + n)) = Some (ss, \<lambda>i. g (i + n' + n))" by blast
  show ?case by (intro exI [of _ "s # ss"] exI [of _ "n' + n"]) (simp add: s ss add.assoc)
qed

lemma random_seed_rows_return: "lively g \<Longrightarrow> \<exists>rows n. random_seed_rows k w g = Some (rows, \<lambda>i. g (i + n))"
proof (induction k arbitrary: g)
  case 0
  show ?case by (intro exI [of _ "[]"] exI [of _ 0]) simp
next
  case (Suc k)
  from random_seeds_return [OF Suc.prems] obtain ss n
    where ss: "random_seeds w g = Some (ss, \<lambda>i. g (i + n))" by blast
  from Suc.IH [OF lively_shift [OF Suc.prems]] obtain rows n'
    where rows: "random_seed_rows k w (\<lambda>i. g (i + n)) = Some (rows, \<lambda>i. g (i + n' + n))" by blast
  show ?case by (intro exI [of _ "ss # rows"] exI [of _ "n' + n"]) (simp add: ss rows add.assoc)
qed

lemma random_words_shape:
  "random_words n w g = (rows, g') \<Longrightarrow> length rows = n \<and> list_all (\<lambda>r. length r = w) rows"
proof (induction n arbitrary: g rows g')
  case (Suc n)
  let ?bs = "token_bytes (w * (OUTPUT_BITS div 8)) g"
  obtain rs g2 where rec: "random_words n w (snd ?bs) = (rs, g2)" by (cases "random_words n w (snd ?bs)") auto
  with Suc.prems have "rows = words_of (fst ?bs) # rs" by (simp add: case_prod_unfold Let_def)
  with Suc.IH [OF rec] show ?case by (simp add: OUTPUT_BITS_def)
qed simp

end
