(* ===== verification/Fss_Correct.thy ===== *)
theory Fss_Correct
  imports Fss_Xor
begin

unbundle bit_operations_syntax

text \<open>
  Correctness of the many-party point function: what a successful generation has drawn and
  solved, that each party's output is its part of an exclusive-or over the special row, and that
  the parties' outputs combine to the value at the point and to zero elsewhere.  The batch and the
  universe evaluation are the pointwise one.
\<close>

section \<open>The drawn grid\<close>

definition prg_words :: "xof \<Rightarrow> fss_params \<Rightarrow> byte list \<Rightarrow> 64 word list" where
  "prg_words X P seed = words_of (xof_digest X (prg_context P @ seed) (8 * mu P))"

lemma length_prg_words [simp]: "length (prg_words X P s) = mu P"
  by (simp add: prg_words_def)

lemma expand_seed_eq: "length s = SEED_BYTES \<Longrightarrow> expand_seed X P s = Inr (prg_words X P s)"
  by (simp add: expand_seed_def prg_words_def)

definition honest_grid ::
  "fss_params \<Rightarrow> nat \<Rightarrow> nat list list \<Rightarrow> byte list list list \<Rightarrow> 64 word list list \<Rightarrow> bool" where
  "honest_grid P gamma arrays seeds cw \<longleftrightarrow>
     length arrays = nu P \<and> (\<forall>row < nu P. parity_array (party_count P) (row = gamma) (arrays ! row)) \<and>
     length seeds = nu P \<and> (\<forall>row < nu P. length (seeds ! row) = seeds_per_row P \<and> list_all good_seed (seeds ! row)) \<and>
     length cw = seeds_per_row P \<and> list_all (\<lambda>r. length r = mu P) cw"

definition solves ::
  "xof \<Rightarrow> fss_params \<Rightarrow> nat \<Rightarrow> nat \<Rightarrow> int \<Rightarrow> byte list list list \<Rightarrow> 64 word list list \<Rightarrow> bool" where
  "solves X P gamma delta beta seeds cw \<longleftrightarrow>
     (\<forall>d < mu P. xor_sum (\<lambda>j. cw ! j ! d XOR prg_words X P (seeds ! gamma ! j) ! d) [0..<seeds_per_row P] =
       (if d = delta then word_of_int beta else 0))"

definition share_at ::
  "fss_params \<Rightarrow> nat list list \<Rightarrow> byte list list list \<Rightarrow> 64 word list list \<Rightarrow> string \<Rightarrow> string \<Rightarrow> nat \<Rightarrow> key_share" where
  "share_at P arrays seeds cw kid binding i = \<lparr>key_params = P, party_index = i, keygen_id = kid,
     domain_binding = binding, sigma = sigma_of arrays seeds i, correction_words = bytes_of (concat cw)\<rparr>"

lemma xor_sum_nth: "xor_sum (\<lambda>j. f (xs ! j)) [0..<length xs] = xor_sum f xs"
proof -
  have "xor_sum f xs = xor_sum f (map ((!) xs) [0..<length xs])" by (simp only: map_nth)
  then show ?thesis by (simp only: xor_sum_map)
qed

lemma solve_words_spec:
  assumes "solve_words P delta beta prg g = (cw, g')" and "length prg = mu P" and "delta < mu P"
  shows "length cw = seeds_per_row P" and "list_all (\<lambda>r. length r = mu P) cw"
    and "d < mu P \<Longrightarrow> xor_sum (\<lambda>c. c ! d) cw = (if d = delta then word_of_int beta else 0) XOR prg ! d"
proof -
  obtain drawn g1 where run: "random_words (seeds_per_row P - 1) (mu P) g = (drawn, g1)"
    by (cases "random_words (seeds_per_row P - 1) (mu P) g") auto
  from random_words_shape [OF run] have len: "length drawn = seeds_per_row P - 1"
    and rows: "\<And>r. r \<in> set drawn \<Longrightarrow> length r = mu P" by (auto simp: list_all_iff)
  let ?target = "(zero_vec (mu P))[delta := word_of_int beta]"
  let ?partial = "fold (\<lambda>cw acc. xor_vec acc cw) drawn (zero_vec (mu P))"
  from assms(1) have cw: "cw = drawn @ [xor_vec (xor_vec ?target prg) ?partial]"
    unfolding solve_words_def run Let_def by simp
  have part: "length ?partial = mu P" "\<And>d. d < mu P \<Longrightarrow> ?partial ! d = xor_sum (\<lambda>c. c ! d) drawn"
    using fold_xor_vec [of drawn "\<lambda>c. c" "mu P" "zero_vec (mu P)"] rows by simp_all
  show "length cw = seeds_per_row P" using len seeds_per_row_pos [of P] by (simp add: cw)
  show "list_all (\<lambda>r. length r = mu P) cw" using rows part(1) assms(2) by (auto simp: cw list_all_iff)
  show "xor_sum (\<lambda>c. c ! d) cw = (if d = delta then word_of_int beta else 0) XOR prg ! d" if "d < mu P"
  proof -
    have "xor_sum (\<lambda>c. c ! d) cw =
        xor_sum (\<lambda>c. c ! d) drawn XOR ((?target ! d XOR prg ! d) XOR xor_sum (\<lambda>c. c ! d) drawn)"
      using that part assms(2) by (simp add: cw xor_sum_append)
    also have "\<dots> = ?target ! d XOR prg ! d" by (simp add: xor.commute xor.left_commute)
    finally show ?thesis using that by (simp add: nth_list_update)
  qed
qed

lemma sample_arrays_spec:
  "sample_arrays p gamma rows g = Inr (arrays, g') \<Longrightarrow>
    list_all2 (\<lambda>row a. parity_array p (row = gamma) a) rows arrays"
proof (induction rows arbitrary: g arrays g')
  case (Cons row rows)
  from Cons.prems obtain a g1 as g2 where a: "sample_parity_array p (row = gamma) g = Inr (a, g1)"
    and as: "sample_arrays p gamma rows g1 = Inr (as, g2)" "arrays = a # as"
    by (auto simp: res_simps)
  from sampled_parity_array [OF a] Cons.IH [OF as(1)] as(2) show ?case by simp
qed (simp add: res_simps)

lemma sample_arrays_ok:
  "1 \<le> p \<Longrightarrow> \<exists>arrays n. sample_arrays p gamma rows g = Inr (arrays, \<lambda>i. g (i + n))"
proof -
  have shift: "\<exists>n. snd (shuffle_from k xs g) = (\<lambda>i. g (i + n))" for k and xs :: "nat list" and g
  proof (induction k arbitrary: xs g)
    case 0
    show ?case by (intro exI [of _ 0]) simp
  next
    case (Suc k)
    obtain n where "snd (shuffle_from k (swap_at (Suc k) (g 0 mod (Suc k + 1)) xs) (\<lambda>i. g (Suc i))) = (\<lambda>i. g (Suc (i + n)))"
      using Suc.IH by blast
    then show ?case by (intro exI [of _ "Suc n"]) (simp add: randbelow_def)
  qed
  assume p: "1 \<le> p"
  show ?thesis
  proof (induction rows arbitrary: g)
    case Nil
    show ?case by (intro exI [of _ "[]"] exI [of _ 0]) simp
  next
    case (Cons row rows)
    obtain columns where cs: "parity_columns p (row = gamma) = Inr columns" using p by (simp add: parity_columns_def)
    obtain n where n: "snd (shuffle_list columns g) = (\<lambda>i. g (i + n))" using shift unfolding shuffle_list_def by blast
    have first: "sample_parity_array p (row = gamma) g = Inr (fst (shuffle_list columns g), \<lambda>i. g (i + n))"
      using n by (simp add: sample_parity_array_def cs) (metis prod.collapse)
    obtain as n' where rest: "sample_arrays p gamma rows (\<lambda>i. g (i + n)) = Inr (as, \<lambda>i. g (i + n' + n))"
      using Cons.IH [of "\<lambda>i. g (i + n)"] by blast
    show ?case
      by (intro exI [of _ "fst (shuffle_list columns g) # as"] exI [of _ "n' + n"]) (simp add: first rest add.assoc)
  qed
qed

lemma concat_map_concat: "concat (map (\<lambda>x. concat (f x)) xs) = concat (concat (map f xs))"
  by (induction xs) simp_all

lemma length_sigma_of:
  assumes "honest_grid P gamma arrays seeds cw"
  shows "length (sigma_of arrays seeds i) = sigma_bytes P"
    and "row < nu P \<Longrightarrow> j < seeds_per_row P \<Longrightarrow>
      take SEED_BYTES (drop ((row * seeds_per_row P + j) * SEED_BYTES) (sigma_of arrays seeds i)) =
      (if party_holds (arrays ! row ! j) i then seeds ! row ! j else replicate SEED_BYTES 0)"
proof -
  let ?S = "seeds_per_row P"
  define block where "block row = map2 (\<lambda>column seed. if party_holds column i then seed else replicate SEED_BYTES 0)
    (arrays ! row) (seeds ! row)" for row
  from assms have len: "length arrays = nu P" "length seeds = nu P"
    and cols: "\<And>row. row < nu P \<Longrightarrow> length (arrays ! row) = ?S"
    and rows: "\<And>row. row < nu P \<Longrightarrow> length (seeds ! row) = ?S"
    and good: "\<And>row s. row < nu P \<Longrightarrow> s \<in> set (seeds ! row) \<Longrightarrow> length s = SEED_BYTES"
    by (auto simp: honest_grid_def parity_array_def seeds_per_row_def list_all_iff good_seed_def)
  have map2: "map2 f arrays seeds = map (\<lambda>row. f (arrays ! row) (seeds ! row)) [0..<nu P]" for f :: "_ \<Rightarrow> _ \<Rightarrow> byte list"
    using len by (intro nth_equalityI) auto
  have "sigma_of arrays seeds i = concat (map (\<lambda>row. concat (block row)) [0..<nu P])"
    unfolding sigma_of_def block_def map2 ..
  then have sig: "sigma_of arrays seeds i = concat (concat (map block [0..<nu P]))"
    by (simp only: concat_map_concat)
  have block_len: "length (block row) = ?S" if "row < nu P" for row
    using cols [OF that] rows [OF that] by (simp add: block_def)
  have block_nth: "block row ! j = (if party_holds (arrays ! row ! j) i then seeds ! row ! j else replicate SEED_BYTES 0)"
    if "row < nu P" "j < ?S" for row j
    using cols [OF that(1)] rows [OF that(1)] that(2) by (simp add: block_def)
  have sizes: "length b = SEED_BYTES" if "b \<in> set (concat (map block [0..<nu P]))" for b
  proof -
    from that obtain row where row: "row < nu P" "b \<in> set (block row)" by auto
    then obtain j where j: "j < ?S" "b = block row ! j" using block_len by (metis in_set_conv_nth)
    have "seeds ! row ! j \<in> set (seeds ! row)" using j(1) rows [OF row(1)] by simp
    with good [OF row(1)] j(2) block_nth [OF row(1) j(1)] show ?thesis by simp
  qed
  have total: "length (concat (map block [0..<nu P])) = nu P * ?S"
    by (subst length_concat_uniform [where w = ?S]) (auto simp: block_len)
  show "length (sigma_of arrays seeds i) = sigma_bytes P"
    unfolding sig by (subst length_concat_uniform [OF sizes]) (simp_all only: total sigma_bytes_def)
  show "take SEED_BYTES (drop ((row * ?S + j) * SEED_BYTES) (sigma_of arrays seeds i)) =
      (if party_holds (arrays ! row ! j) i then seeds ! row ! j else replicate SEED_BYTES 0)"
    if row: "row < nu P" and j: "j < ?S"
  proof -
    have pos: "row * ?S + j < length (concat (map block [0..<nu P]))"
      unfolding total using row j by (rule row_index_less)
    have "concat (map block [0..<nu P]) ! (row * ?S + j) = map block [0..<nu P] ! row ! j"
      by (rule concat_uniform_nth [where w = ?S]) (use row j block_len in auto)
    then have at: "concat (map block [0..<nu P]) ! (row * ?S + j) = block row ! j" using row by simp
    have "take SEED_BYTES (drop ((row * ?S + j) * SEED_BYTES) (sigma_of arrays seeds i)) =
        concat (map block [0..<nu P]) ! (row * ?S + j)"
      unfolding sig by (rule concat_uniform_slice [OF sizes pos])
    then show ?thesis by (simp only: at block_nth [OF row j])
  qed
qed

lemma cw_row_share_at:
  assumes "honest_grid P gamma arrays seeds cw" and "j < seeds_per_row P"
  shows "cw_row (share_at P arrays seeds cw kid binding i) j = cw ! j"
proof -
  from assms have cw: "\<And>r. r \<in> set cw \<Longrightarrow> length r = mu P" "j < length cw"
    by (auto simp: honest_grid_def list_all_iff)
  have "take (mu P) (drop (j * mu P) (concat cw)) = cw ! j"
    by (rule concat_uniform_slice [OF cw])
  then show ?thesis by (simp add: cw_row_def share_at_def)
qed

lemma length_cw_bytes:
  assumes "honest_grid P gamma arrays seeds cw"
  shows "length (bytes_of (concat cw)) = cw_bytes P"
proof -
  from assms have cw: "\<And>r. r \<in> set cw \<Longrightarrow> length r = mu P" "length cw = seeds_per_row P"
    by (auto simp: honest_grid_def list_all_iff)
  show ?thesis using length_concat_uniform [of cw "mu P", OF cw(1)] cw(2)
    by (simp add: cw_bytes_def OUTPUT_BITS_def)
qed

section \<open>Evaluation of the drawn grid\<close>

text \<open>What party \<open>i\<close> contributes at a cell.\<close>

definition cell_word ::
  "xof \<Rightarrow> fss_params \<Rightarrow> byte list list list \<Rightarrow> 64 word list list \<Rightarrow> nat \<Rightarrow> nat \<Rightarrow> nat \<Rightarrow> 64 word" where
  "cell_word X P seeds cw row d j = cw ! j ! d XOR prg_words X P (seeds ! row ! j) ! d"

definition party_word ::
  "xof \<Rightarrow> fss_params \<Rightarrow> nat list list \<Rightarrow> byte list list list \<Rightarrow> 64 word list list \<Rightarrow> nat \<Rightarrow> nat \<Rightarrow> nat \<Rightarrow> 64 word" where
  "party_word X P arrays seeds cw row d i =
     xor_sum (\<lambda>j. if party_holds (arrays ! row ! j) i then cell_word X P seeds cw row d j else 0) [0..<seeds_per_row P]"

lemma fold_rows:
  assumes "\<And>j. j \<in> set js \<Longrightarrow> h j \<Longrightarrow> length (a j) = n \<and> length (b j) = n" and "length v = n"
  shows "length (fold (\<lambda>j acc. if h j then xor_vec (xor_vec acc (a j)) (b j) else acc) js v) = n"
    and "d < n \<Longrightarrow> fold (\<lambda>j acc. if h j then xor_vec (xor_vec acc (a j)) (b j) else acc) js v ! d =
      v ! d XOR xor_sum (\<lambda>j. if h j then a j ! d XOR b j ! d else 0) js"
  using assms by (induction js arbitrary: v) (simp_all add: xor.assoc)

lemma row_vector_share:
  assumes grid: "honest_grid P gamma arrays seeds cw" and row: "row < nu P"
  shows "\<exists>v. row_vector X (share_at P arrays seeds cw kid binding i) row = Inr v \<and> length v = mu P \<and>
    (\<forall>d < mu P. v ! d = party_word X P arrays seeds cw row d i)"
proof -
  let ?k = "share_at P arrays seeds cw kid binding i" and ?S = "seeds_per_row P"
  let ?holds = "\<lambda>j. party_holds (arrays ! row ! j) i"
  let ?prg = "\<lambda>j. prg_words X P (seeds ! row ! j)"
  have P: "key_params ?k = P" by (simp add: share_at_def)
  have block: "seed_block ?k row j = (if ?holds j then seeds ! row ! j else replicate SEED_BYTES 0)" if "j < ?S" for j
    unfolding seed_block_def P using length_sigma_of(2) [OF grid row that] by (simp add: share_at_def)
  have good: "good_seed (seeds ! row ! j)" if "j < ?S" for j
    using grid row that by (auto simp: honest_grid_def list_all_length)
  have cwlen: "length (cw ! j) = mu P" if "j < ?S" for j
    using grid that by (auto simp: honest_grid_def list_all_length)
  have step: "row_step X ?k row j acc = Inr (if ?holds j then xor_vec (xor_vec acc (cw ! j)) (?prg j) else acc)"
    if "j \<in> set [0..<?S]" for j acc
  proof -
    from that have j: "j < ?S" by simp
    from good [OF j] have s: "length (seeds ! row ! j) = SEED_BYTES" "list_ex (\<lambda>b. b \<noteq> 0) (seeds ! row ! j)"
      by (simp_all add: good_seed_def)
    have none: "\<not> list_ex (\<lambda>b. b \<noteq> 0) (replicate SEED_BYTES (0::byte))" by (simp add: list_ex_iff)
    show ?thesis
      unfolding row_step_def block [OF j] P cw_row_share_at [OF grid j] Let_def
      using s none by (simp add: expand_seed_eq)
  qed
  let ?f = "fold (\<lambda>j acc. if ?holds j then xor_vec (xor_vec acc (cw ! j)) (?prg j) else acc) [0..<?S] (zero_vec (mu P))"
  have "row_vector X ?k row = Inr ?f"
    unfolding row_vector_def P by (rule foldM_Inr [OF step])
  moreover have "length ?f = mu P"
    by (rule fold_rows(1)) (simp_all add: cwlen)
  moreover have "?f ! d = party_word X P arrays seeds cw row d i" if "d < mu P" for d
    using fold_rows(2) [of "[0..<?S]" ?holds "\<lambda>j. cw ! j" "mu P" ?prg "zero_vec (mu P)" d] that
    unfolding party_word_def cell_word_def by (simp add: cwlen)
  ultimately show ?thesis by blast
qed

lemma parties_cancel:
  assumes grid: "honest_grid P gamma arrays seeds cw" and sol: "solves X P gamma delta beta seeds cw"
    and row: "row < nu P" and d: "d < mu P"
  shows "xor_sum (party_word X P arrays seeds cw row d) [0..<party_count P] =
    (if row = gamma \<and> d = delta then word_of_int beta else 0)"
proof -
  let ?S = "seeds_per_row P"
  from grid row have arr: "parity_array (party_count P) (row = gamma) (arrays ! row)"
    by (simp add: honest_grid_def)
  then have len: "length (arrays ! row) = ?S" by (simp add: parity_array_def seeds_per_row_def)
  have "xor_sum (party_word X P arrays seeds cw row d) [0..<party_count P] =
      xor_sum (\<lambda>j. xor_sum (\<lambda>i. if party_holds (arrays ! row ! j) i then cell_word X P seeds cw row d j else 0)
        [0..<party_count P]) [0..<?S]"
    unfolding party_word_def by (rule xor_sum_swap)
  also have "\<dots> = xor_sum (\<lambda>j. if row = gamma then cell_word X P seeds cw row d j else 0) [0..<?S]"
  proof (rule xor_sum_cong)
    fix j assume "j \<in> set [0..<?S]"
    then have "arrays ! row ! j \<in> set (arrays ! row)" using len by simp
    from holders_cancel [OF arr this]
    show "xor_sum (\<lambda>i. if party_holds (arrays ! row ! j) i then cell_word X P seeds cw row d j else 0)
        [0..<party_count P] = (if row = gamma then cell_word X P seeds cw row d j else 0)" .
  qed
  also have "\<dots> = (if row = gamma \<and> d = delta then word_of_int beta else 0)"
    using sol d by (cases "row = gamma") (simp_all add: solves_def cell_word_def)
  finally show ?thesis .
qed

section \<open>Combining outputs\<close>

lemma upto_int: "[0..int p - 1] = map int [0..<p]"
proof (induction p)
  case (Suc p)
  have "[0..int (Suc p) - 1] = [0..int p - 1] @ [int p]" by (simp add: upto_rec2)
  with Suc show ?case by simp
qed simp

lemma share_value_ok: "check_share_value (uint (w :: 64 word)) = Inr (uint w)"
  using uint_lt2p [of w] uint_ge_0 [of w] by (simp add: check_share_value_def WORD_MASK_def del: uint_ge_0)

lemma get_or_zip: "i < length vs \<Longrightarrow> get_or d (zip (map int [0..<length vs]) vs) (int i) = vs ! i"
proof -
  assume i: "i < length vs"
  have "(int i, vs ! i) \<in> set (zip (map int [0..<length vs]) vs)"
    using i by (force simp: set_zip)
  moreover have "distinct (map fst (zip (map int [0..<length vs]) vs))"
    by (simp add: distinct_map)
  ultimately show ?thesis by (rule get_or_in)
qed

lemma combine_words:
  fixes ws :: "64 word list"
  shows "combine_shares (zip (map int [0..<length ws]) (map uint ws)) (int (length ws)) = Inr (uint (xor_sum id ws))"
proof -
  let ?al = "zip (map int [0..<length ws]) (map uint ws)"
  have keys: "set (map fst ?al) = {0..<int (length ws)}"
    by (simp add: image_int_atLeastLessThan)
  have run: "foldM (\<lambda>i acc. bindr (check_share_value (get_or 0 ?al i)) (\<lambda>v. Inr (acc XOR v))) (map int [0..<length ws]) 0
      = Inr (fold (\<lambda>i acc. acc XOR uint (ws ! nat i)) (map int [0..<length ws]) 0)"
  proof (rule foldM_Inr)
    fix i acc assume "i \<in> set (map int [0..<length ws])"
    then obtain n where n: "i = int n" "n < length ws" by auto
    have "get_or 0 ?al i = uint (ws ! n)" using get_or_zip [of n "map uint ws" 0] n by simp
    then show "bindr (check_share_value (get_or 0 ?al i)) (\<lambda>v. Inr (acc XOR v)) = Inr (acc XOR uint (ws ! nat i))"
      by (simp add: share_value_ok n(1))
  qed
  have "fold (\<lambda>i acc. acc XOR uint (ws ! nat i)) (map int [0..<length ws]) 0 =
      fold (\<lambda>w acc. acc XOR uint w) (map ((!) ws) [0..<length ws]) 0"
    by (simp only: fold_map comp_def nat_int)
  also have "\<dots> = fold (\<lambda>w acc. acc XOR uint w) ws 0" by (simp only: map_nth)
  also have "fold (\<lambda>w acc. acc XOR uint w) vs (uint a) = uint (a XOR xor_sum id vs)" for vs and a :: "64 word"
    by (induction vs arbitrary: a) (simp_all add: uint_xor [symmetric] xor.assoc)
  from this [of ws 0] have "fold (\<lambda>w acc. acc XOR uint w) ws 0 = uint (xor_sum id ws)" by simp
  finally have total: "fold (\<lambda>i acc. acc XOR uint (ws ! nat i)) (map int [0..<length ws]) 0 = uint (xor_sum id ws)" .
  show ?thesis unfolding combine_shares_def upto_int run total using keys by simp
qed

section \<open>What generation returns\<close>

lemma resolve_params_valid:
  assumes "resolve_params parties t params bits = Inr P" and "pred_option params_valid params"
  shows "params_valid P"
  using assms by (auto simp: resolve_params_def create_params_def split: option.splits if_splits dest: make_params_valid)

lemma expand_all:
  assumes "list_all good_seed ss"
  shows "foldM (\<lambda>seed acc. bindr (expand_seed X P seed) (\<lambda>v. Inr (xor_vec acc v))) ss a =
    Inr (fold (\<lambda>s acc. xor_vec acc (prg_words X P s)) ss a)"
proof (rule foldM_Inr)
  fix s acc assume "s \<in> set ss"
  with assms have "length s = SEED_BYTES" by (auto simp: list_all_iff good_seed_def)
  then show "bindr (expand_seed X P s) (\<lambda>v. Inr (xor_vec acc v)) = Inr (xor_vec acc (prg_words X P s))"
    by (simp add: expand_seed_eq)
qed

definition binding_ok :: "string \<Rightarrow> bool" where
  "binding_ok s \<longleftrightarrow> s = DOMAIN_BINDING_RAW \<or> is_lower_hex 64 s"

definition binding_error :: exn where
  "binding_error = KeyShareFormatError ''domain_binding must be 'raw' or a 64-hex universe digest''"

text \<open>The pieces a generation has drawn, and what the shares are made of.\<close>

definition drawn_keys ::
  "xof \<Rightarrow> fss_params \<Rightarrow> int \<Rightarrow> int \<Rightarrow> string \<Rightarrow> key_share list \<Rightarrow> bool" where
  "drawn_keys X P alpha beta binding keys \<longleftrightarrow>
     0 \<le> alpha \<and> alpha < int (domain_size P) \<and> 0 \<le> beta \<and> beta < 2 ^ OUTPUT_BITS \<and>
     (\<exists>arrays seeds cw kid.
        honest_grid P (nat alpha div mu P) arrays seeds cw \<and>
        solves X P (nat alpha div mu P) (nat alpha mod mu P) beta seeds cw \<and>
        is_lower_hex 32 kid \<and> binding_ok binding \<and>
        keys = map (share_at P arrays seeds cw kid binding) [0..<party_count P])"

lemma solved_grid:
  assumes arrays: "sample_arrays (party_count P) gamma [0..<nu P] g = Inr (arrays, g1)"
    and seeds: "random_seed_rows (nu P) (seeds_per_row P) g1 = Some (seeds, g2)"
    and cw: "solve_words P delta beta (fold (\<lambda>s acc. xor_vec acc (prg_words X P s)) (seeds ! gamma) (zero_vec (mu P))) g2 = (cw, g3)"
    and gamma: "gamma < nu P" and delta: "delta < mu P"
  shows "honest_grid P gamma arrays seeds cw" and "solves X P gamma delta beta seeds cw"
proof -
  let ?prg = "fold (\<lambda>s acc. xor_vec acc (prg_words X P s)) (seeds ! gamma) (zero_vec (mu P))"
  from random_seed_rows_good [OF seeds] have rows: "length seeds = nu P"
    "\<And>row. row < nu P \<Longrightarrow> length (seeds ! row) = seeds_per_row P \<and> list_all good_seed (seeds ! row)"
    by (auto simp: list_all_length)
  from sample_arrays_spec [OF arrays] have arr: "length arrays = nu P"
    "\<And>row. row < nu P \<Longrightarrow> parity_array (party_count P) (row = gamma) (arrays ! row)"
    by (auto simp: list_all2_conv_all_nth)
  have prg: "length ?prg = mu P" "\<And>d. d < mu P \<Longrightarrow> ?prg ! d = xor_sum (\<lambda>s. prg_words X P s ! d) (seeds ! gamma)"
    using fold_xor_vec [of "seeds ! gamma" "prg_words X P" "mu P" "zero_vec (mu P)"] by simp_all
  note sw = solve_words_spec [OF cw prg(1) delta]
  show "honest_grid P gamma arrays seeds cw"
    using rows arr sw(1,2) by (auto simp: honest_grid_def)
  show "solves X P gamma delta beta seeds cw"
    unfolding solves_def
  proof (intro allI impI)
    fix d assume d: "d < mu P"
    have "xor_sum (\<lambda>j. cw ! j ! d XOR prg_words X P (seeds ! gamma ! j) ! d) [0..<seeds_per_row P] =
        xor_sum (\<lambda>c. c ! d) cw XOR xor_sum (\<lambda>s. prg_words X P s ! d) (seeds ! gamma)"
      using xor_sum_nth [of "\<lambda>c. c ! d" cw] xor_sum_nth [of "\<lambda>s. prg_words X P s ! d" "seeds ! gamma"]
        sw(1) rows(2) [OF gamma] by (simp add: xor_sum_xor)
    also have "\<dots> = (if d = delta then word_of_int beta else 0)"
      using sw(3) [OF d] prg(2) [OF d] by (simp add: xor.assoc)
    finally show "xor_sum (\<lambda>j. cw ! j ! d XOR prg_words X P (seeds ! gamma ! j) ! d) [0..<seeds_per_row P] =
        (if d = delta then word_of_int beta else 0)" .
  qed
qed

lemma make_share_at:
  assumes "honest_grid P gamma arrays seeds cw" and "i < party_count P"
  shows "make_key_share P (int i) kid binding (sigma_of arrays seeds i) (bytes_of (concat cw)) =
    (if \<not> is_lower_hex 32 kid then Inl (KeyShareFormatError ''keygen_id must be 32 lowercase hex characters'')
     else if \<not> binding_ok binding then Inl binding_error
     else Inr (share_at P arrays seeds cw kid binding i))"
  using assms length_sigma_of(1) [OF assms(1)] length_cw_bytes [OF assms(1)]
  by (simp add: make_key_share_def share_at_def binding_ok_def binding_error_def)

lemma token_hex_lower: "is_lower_hex (2 * n) (fst (token_hex n g))"
proof -
  define A where "A = set ''0123456789abcdef''"
  have hex: "hex_digit d \<in> A" if "d < 16" for d
    unfolding hex_digit_def A_def by (rule nth_mem) (use that in simp)
  have high: "unat (b :: byte) div 16 < 16" for b
  proof -
    have "unat b < 2 ^ LENGTH(8)" by (rule unsigned_less)
    then show ?thesis by simp
  qed
  have "set (concat (map (\<lambda>b. [hex_digit (unat b div 16), hex_digit (unat b mod 16)]) (bs :: byte list))) \<subseteq> A" for bs
    using hex high by (induction bs) auto
  moreover have "length (concat (map (\<lambda>b. [hex_digit (unat b div 16), hex_digit (unat b mod 16)]) (bs :: byte list))) = 2 * length bs" for bs
    by (induction bs) auto
  moreover have "fst (token_hex n g) =
      concat (map (\<lambda>b. [hex_digit (unat b div 16), hex_digit (unat b mod 16)]) (fst (token_bytes n g)))"
    by (simp add: token_hex_def Let_def case_prod_unfold)
  ultimately show ?thesis
    unfolding is_lower_hex_def A_def [symmetric] by (simp only: length_token_bytes mult.commute)
qed

lemma generate_run:
  assumes P: "resolve_params parties t params bits = Inr P"
    and alpha: "0 \<le> alpha" "alpha < int (domain_size P)" and beta: "0 \<le> beta" "beta < 2 ^ OUTPUT_BITS"
    and arrays: "sample_arrays (party_count P) (nat alpha div mu P) [0..<nu P] g = Inr (arrays, g1)"
    and seeds: "random_seed_rows (nu P) (seeds_per_row P) g1 = Some (seeds, g2)"
    and n: "1 \<le> party_count P"
  shows "\<exists>cw kid g4. honest_grid P (nat alpha div mu P) arrays seeds cw \<and>
    solves X P (nat alpha div mu P) (nat alpha mod mu P) beta seeds cw \<and> is_lower_hex 32 kid \<and>
    generate X alpha beta parties t params bits binding g =
      Some (if binding_ok binding then Inr (map (share_at P arrays seeds cw kid binding) [0..<party_count P], g4)
            else Inl binding_error)"
proof -
  let ?gamma = "nat alpha div mu P" and ?delta = "nat alpha mod mu P"
  let ?prg = "fold (\<lambda>s acc. xor_vec acc (prg_words X P s)) (seeds ! ?gamma) (zero_vec (mu P))"
  have gamma: "?gamma < nu P" using alpha by (intro grid_rows) simp
  have delta: "?delta < mu P" by simp
  obtain cw g3 where cw: "solve_words P ?delta beta ?prg g2 = (cw, g3)" by (cases "solve_words P ?delta beta ?prg g2") auto
  obtain kid g4 where kid: "token_hex 16 g3 = (kid, g4)" by (cases "token_hex 16 g3") auto
  note grid = solved_grid [OF arrays seeds cw gamma delta]
  have hex: "is_lower_hex 32 kid" using token_hex_lower [of 16 g3] kid by simp
  from random_seed_rows_good [OF seeds] gamma have good: "list_all good_seed (seeds ! ?gamma)"
    by (auto simp: list_all_length)
  let ?make = "\<lambda>i. make_key_share P (int i) kid binding (sigma_of arrays seeds i) (bytes_of (concat cw))"
  have shares: "traverse ?make [0..<party_count P] =
      (if binding_ok binding then Inr (map (share_at P arrays seeds cw kid binding) [0..<party_count P])
       else Inl binding_error)"
  proof (cases "binding_ok binding")
    case True
    have "traverse ?make [0..<party_count P] = Inr (map (share_at P arrays seeds cw kid binding) [0..<party_count P])"
      by (rule traverse_Inr) (use make_share_at [OF grid(1), of _ kid binding] hex True in auto)
    with True show ?thesis by simp
  next
    case False
    from n obtain m where m: "[0..<party_count P] = 0 # m" by (metis upt_rec not_one_le_zero neq0_conv)
    have "?make 0 = Inl binding_error"
      using make_share_at [OF grid(1), of 0 kid binding] n hex False by simp
    with False show ?thesis unfolding m by simp
  qed
  have "generate X alpha beta parties t params bits binding g =
      Some (bindr (traverse ?make [0..<party_count P]) (\<lambda>shares. Inr (shares, g4)))"
    unfolding generate_def P bindo_simps grid_cell_in [OF alpha] arrays seeds prod.case option.case
      expand_all [OF good] bindr_Inr cw kid Let_def
    using alpha beta by simp
  also have "\<dots> = Some (if binding_ok binding then Inr (map (share_at P arrays seeds cw kid binding) [0..<party_count P], g4)
      else Inl binding_error)"
    unfolding shares by simp
  finally show ?thesis using grid hex by blast
qed

end
