(* ===== verification/Fss_Point.thy ===== *)
theory Fss_Point
  imports Fss_Correct
begin

unbundle bit_operations_syntax

text \<open>
  The properties of the many-party point function: generation ends and says what it refuses, the
  parties' outputs combine to the point function, the batch and universe evaluations are the
  pointwise one, and a coalition that misses a party misses a seed of the special row.
\<close>

section \<open>Generation\<close>

lemma generate_drawn:
  assumes run: "generate X alpha beta parties t params bits binding g = Some (Inr (keys, g'))"
    and valid: "pred_option params_valid params"
  shows "\<exists>P. resolve_params parties t params bits = Inr P \<and> params_valid P \<and> drawn_keys X P alpha beta binding keys"
proof -
  from run obtain P where P: "resolve_params parties t params bits = Inr P"
    and alpha: "0 \<le> alpha" "alpha < int (domain_size P)" and beta: "0 \<le> beta" "beta < 2 ^ OUTPUT_BITS"
    by (auto simp: generate_def res_simps split: if_splits)
  from resolve_params_valid [OF P valid] have ok: "params_valid P" .
  then have n: "1 \<le> party_count P" by (simp add: params_valid_def)
  from sample_arrays_ok [OF n] obtain arrays k where
    arrays: "sample_arrays (party_count P) (nat alpha div mu P) [0..<nu P] g = Inr (arrays, \<lambda>i. g (i + k))" by blast
  obtain seeds g2 where seeds: "random_seed_rows (nu P) (seeds_per_row P) (\<lambda>i. g (i + k)) = Some (seeds, g2)"
  proof (cases "random_seed_rows (nu P) (seeds_per_row P) (\<lambda>i. g (i + k))")
    case None
    with run show ?thesis
      unfolding generate_def P bindo_simps grid_cell_in [OF alpha] arrays prod.case None option.case
      using alpha beta by simp
  next
    case (Some r)
    then show ?thesis using that by (cases r) blast
  qed
  from generate_run [OF P alpha beta arrays seeds n, of X binding] obtain cw kid g4 where
    grid: "honest_grid P (nat alpha div mu P) arrays seeds cw"
      "solves X P (nat alpha div mu P) (nat alpha mod mu P) beta seeds cw" "is_lower_hex 32 kid"
    and eq: "generate X alpha beta parties t params bits binding g =
      Some (if binding_ok binding then Inr (map (share_at P arrays seeds cw kid binding) [0..<party_count P], g4)
            else Inl binding_error)"
    by blast
  from eq run have "keys = map (share_at P arrays seeds cw kid binding) [0..<party_count P]" "binding_ok binding"
    by (simp_all split: if_splits)
  with grid alpha beta have "drawn_keys X P alpha beta binding keys"
    unfolding drawn_keys_def by blast
  with P ok show ?thesis by blast
qed

lemma generate_success:
  assumes "lively g" and "pred_option params_valid params"
    and P: "resolve_params parties t params bits = Inr P"
    and alpha: "0 \<le> alpha" "alpha < int (domain_size P)" and beta: "0 \<le> beta" "beta < 2 ^ OUTPUT_BITS"
  shows "\<exists>keys g'. generate X alpha beta parties t params bits binding g =
    Some (if binding_ok binding then Inr (keys, g') else Inl binding_error)"
proof -
  from resolve_params_valid [OF P assms(2)] have n: "1 \<le> party_count P" by (simp add: params_valid_def)
  from sample_arrays_ok [OF n] obtain arrays k where
    arrays: "sample_arrays (party_count P) (nat alpha div mu P) [0..<nu P] g = Inr (arrays, \<lambda>i. g (i + k))" by blast
  from random_seed_rows_return [OF lively_shift [OF assms(1), of k]] obtain seeds m where
    seeds: "random_seed_rows (nu P) (seeds_per_row P) (\<lambda>i. g (i + k)) = Some (seeds, \<lambda>i. g (i + m + k))" by blast
  from generate_run [OF P alpha beta arrays seeds n, of X binding] show ?thesis by blast
qed

text \<open>A small instance: three parties, eight points.\<close>

definition sample_xof :: xof where
  "sample_xof m i = of_nat (length m + i)"

definition sample_fss :: fss_params where
  "sample_fss = \<lparr>domain_bits = 3, party_count = 3, threshold = 1\<rparr>"

lemma sample_resolved: "resolve_params 3 None None (Some 3) = Inr sample_fss"
  by (simp add: resolve_params_def create_params_def make_params_def fss_bounds honest_majority_threshold_def sample_fss_def)

lemma sample_fss_size: "domain_size sample_fss = 8"
  by (simp add: domain_size_def sample_fss_def)

lemma lively_const: "lively (\<lambda>_. 1)"
  unfolding lively_def by auto

lemma binding_raw: "binding_ok ''raw''"
  by (simp add: binding_ok_def DOMAIN_BINDING_RAW_def)

lemma sample_keys:
  "\<exists>keys g'. generate sample_xof 5 7 3 None None (Some 3) ''raw'' (\<lambda>_. 1) = Some (Inr (keys, g'))"
proof -
  have bounds: "(0::int) \<le> 5" "5 < int (domain_size sample_fss)" "(0::int) \<le> 7" "(7::int) < 2 ^ OUTPUT_BITS"
    unfolding sample_fss_size by (simp_all add: OUTPUT_BITS_def)
  have "pred_option params_valid None" by simp
  from generate_success [OF lively_const this sample_resolved bounds, of sample_xof "''raw''"] show ?thesis
    unfolding if_P [OF binding_raw] .
qed

text \<open>
  C37: Key generation returns whenever the generator keeps producing bytes that are not all zero.
  It returns key shares when the parameters resolve, the point and the value are in range and the
  binding is well formed, and the error of the first of these checks that fails otherwise.
\<close>

theorem generate_returns:
  assumes "lively g" and "pred_option params_valid params"
  shows "\<exists>keys g'. generate X alpha beta parties t params bits binding g = Some
    (case resolve_params parties t params bits of
       Inl e \<Rightarrow> Inl e
     | Inr P \<Rightarrow>
         if \<not> (0 \<le> alpha \<and> alpha < int (domain_size P)) then Inl (ParameterError ''alpha out of the input domain [0, 2^n)'')
         else if \<not> (0 \<le> beta \<and> beta < 2 ^ OUTPUT_BITS) then Inl (ParameterError ''beta must be a 64-bit unsigned value'')
         else if \<not> binding_ok binding then Inl binding_error
         else Inr (keys, g'))"
proof (cases "resolve_params parties t params bits")
  case (Inl e)
  then show ?thesis by (simp add: generate_def)
next
  case (Inr P)
  show ?thesis
  proof (cases "0 \<le> alpha \<and> alpha < int (domain_size P) \<and> 0 \<le> beta \<and> beta < 2 ^ OUTPUT_BITS")
    case True
    with generate_success [OF assms Inr, of alpha beta X binding] Inr show ?thesis by auto
  next
    case False
    with Inr show ?thesis by (auto simp: generate_def)
  qed
qed

theorem generate_returns_witness:
  "(\<exists>keys g'. generate sample_xof 5 7 3 None None (Some 3) ''raw'' (\<lambda>_. 1) = Some (Inr (keys, g'))) \<and>
   generate sample_xof 5 (2 ^ 64) 3 None None (Some 3) ''raw'' (\<lambda>_. 1) =
     Some (Inl (ParameterError ''beta must be a 64-bit unsigned value''))"
proof -
  have "(0::int) \<le> 5 \<and> 5 < int (domain_size sample_fss) \<and> (0::int) \<le> 7 \<and> (7::int) < 2 ^ OUTPUT_BITS \<and> binding_ok ''raw''"
    unfolding sample_fss_size by (simp add: OUTPUT_BITS_def binding_raw)
  with sample_resolved show ?thesis
    using generate_returns [OF lively_const, of None sample_xof 5 7 3 None "Some 3" "''raw''"]
      generate_returns [OF lively_const, of None sample_xof 5 "2 ^ 64" 3 None "Some 3" "''raw''"]
    by (auto simp: OUTPUT_BITS_def)
qed

section \<open>The point function\<close>

lemma eval_point_share:
  assumes grid: "honest_grid P gamma arrays seeds cw" and x: "0 \<le> x" "x < int (domain_size P)"
  shows "eval_point X (share_at P arrays seeds cw kid binding i) x =
    Inr (uint (party_word X P arrays seeds cw (nat x div mu P) (nat x mod mu P) i))"
proof -
  have row: "nat x div mu P < nu P" using x by (intro grid_rows) simp
  from row_vector_share [OF grid row, of X kid binding i] obtain v where
    v: "row_vector X (share_at P arrays seeds cw kid binding i) (nat x div mu P) = Inr v"
      "\<forall>d < mu P. v ! d = party_word X P arrays seeds cw (nat x div mu P) d i" by blast
  have "key_params (share_at P arrays seeds cw kid binding i) = P" by (simp add: share_at_def)
  with v x show ?thesis by (simp add: eval_point_def grid_cell_in)
qed

lemma drawn_keys_combine:
  assumes keys: "drawn_keys X P alpha beta binding keys" and x: "0 \<le> x" "x < int (domain_size P)"
  shows "\<exists>ws :: 64 word list. length ws = party_count P \<and>
    traverse (\<lambda>k. eval_point X k x) keys = Inr (map uint ws) \<and>
    xor_sum id ws = (if x = alpha then word_of_int beta else 0)"
proof -
  from keys obtain arrays seeds cw kid where grid: "honest_grid P (nat alpha div mu P) arrays seeds cw"
    and sol: "solves X P (nat alpha div mu P) (nat alpha mod mu P) beta seeds cw"
    and ks: "keys = map (share_at P arrays seeds cw kid binding) [0..<party_count P]"
    and alpha: "0 \<le> alpha" "alpha < int (domain_size P)"
    unfolding drawn_keys_def by blast
  let ?row = "nat x div mu P" and ?d = "nat x mod mu P"
  let ?ws = "map (party_word X P arrays seeds cw ?row ?d) [0..<party_count P]"
  have row: "?row < nu P" using x by (intro grid_rows) simp
  have "traverse (\<lambda>k. eval_point X k x) keys = Inr (map uint ?ws)"
    unfolding ks traverse_eq_Inr using eval_point_share [OF grid x]
    by (simp add: list_all2_conv_all_nth)
  moreover have "xor_sum id ?ws = (if x = alpha then word_of_int beta else 0)"
  proof -
    have same: "(?row = nat alpha div mu P \<and> ?d = nat alpha mod mu P) = (x = alpha)"
      using x(1) alpha(1) by (metis div_mult_mod_eq nat_0_le)
    have "xor_sum id ?ws = (if ?row = nat alpha div mu P \<and> ?d = nat alpha mod mu P then word_of_int beta else 0)"
      unfolding xor_sum_map id_apply by (rule parties_cancel [OF grid sol row]) simp
    then show ?thesis unfolding same .
  qed
  ultimately show ?thesis by (intro exI [of _ ?ws]) simp
qed

text \<open>
  C35: Correctness of the many-party point function: whatever the seeds, columns and correction
  words drawn, the outputs of all the parties at a point of the domain combine to the value at
  the shared point and to zero at every other point.
\<close>

theorem fss_correct:
  assumes "generate X alpha beta parties t params bits binding g = Some (Inr (keys, g'))"
    and "pred_option params_valid params"
  shows "\<exists>P. resolve_params parties t params bits = Inr P \<and> length keys = party_count P \<and>
    (\<forall>x. 0 \<le> x \<and> x < int (domain_size P) \<longrightarrow>
      (\<exists>shares. traverse (\<lambda>k. eval_point X k x) keys = Inr shares \<and>
        combine_shares (zip (map int [0..<length keys]) shares) parties = Inr (if x = alpha then beta else 0)))"
proof -
  from generate_drawn [OF assms] obtain P where P: "resolve_params parties t params bits = Inr P"
    and ok: "params_valid P" and keys: "drawn_keys X P alpha beta binding keys" by (elim exE conjE) (rule that)
  have n: "parties = int (party_count P)"
    using P by (auto simp: resolve_params_def create_params_def split: option.splits if_splits dest: make_params_valid)
  have len: "length keys = party_count P" using keys by (auto simp: drawn_keys_def)
  have beta: "uint (word_of_int beta :: 64 word) = beta"
    using keys by (simp add: drawn_keys_def OUTPUT_BITS_def uint_word_of_int)
  have "\<exists>shares. traverse (\<lambda>k. eval_point X k x) keys = Inr shares \<and>
      combine_shares (zip (map int [0..<length keys]) shares) parties = Inr (if x = alpha then beta else 0)"
    if x: "0 \<le> x" "x < int (domain_size P)" for x
  proof -
    from drawn_keys_combine [OF keys x] obtain ws :: "64 word list" where ws: "length ws = party_count P"
      "traverse (\<lambda>k. eval_point X k x) keys = Inr (map uint ws)"
      "xor_sum id ws = (if x = alpha then word_of_int beta else 0)" by (elim exE conjE) (rule that)
    from combine_words [of ws] have "combine_shares (zip (map int [0..<length keys]) (map uint ws)) parties =
        Inr (uint (xor_sum id ws))" unfolding len ws(1) n .
    then show ?thesis using ws(2,3) beta by auto
  qed
  with P len show ?thesis by blast
qed

theorem fss_correct_witness:
  "\<exists>keys g'. generate sample_xof 5 7 3 None None (Some 3) ''raw'' (\<lambda>_. 1) = Some (Inr (keys, g')) \<and>
    (\<exists>shares. traverse (\<lambda>k. eval_point sample_xof k 5) keys = Inr shares \<and>
      combine_shares (zip (map int [0..<length keys]) shares) 3 = Inr 7) \<and>
    (\<exists>shares. traverse (\<lambda>k. eval_point sample_xof k 6) keys = Inr shares \<and>
      combine_shares (zip (map int [0..<length keys]) shares) 3 = Inr 0)"
proof -
  from sample_keys obtain keys g' where
    run: "generate sample_xof 5 7 3 None None (Some 3) ''raw'' (\<lambda>_. 1) = Some (Inr (keys, g'))" by blast
  have "\<exists>P. resolve_params 3 None None (Some 3) = Inr P \<and> length keys = party_count P \<and>
    (\<forall>x. 0 \<le> x \<and> x < int (domain_size P) \<longrightarrow>
      (\<exists>shares. traverse (\<lambda>k. eval_point sample_xof k x) keys = Inr shares \<and>
        combine_shares (zip (map int [0..<length keys]) shares) 3 = Inr (if x = 5 then 7 else 0)))"
    by (rule fss_correct [OF run]) simp
  then have "\<forall>x. 0 \<le> x \<and> x < 8 \<longrightarrow>
      (\<exists>shares. traverse (\<lambda>k. eval_point sample_xof k x) keys = Inr shares \<and>
        combine_shares (zip (map int [0..<length keys]) shares) 3 = Inr (if x = 5 then 7 else 0))"
    unfolding sample_resolved by (elim exE conjE) (simp add: sample_fss_size)
  then have "\<exists>shares. traverse (\<lambda>k. eval_point sample_xof k x) keys = Inr shares \<and>
      combine_shares (zip (map int [0..<length keys]) shares) 3 = Inr (if x = 5 then 7 else 0)"
    if "0 \<le> x" "x < 8" for x using that by blast
  from this [of 5] this [of 6] run show ?thesis by simp
qed

section \<open>Batches and universes\<close>

definition key_ok :: "key_share \<Rightarrow> bool" where
  "key_ok k \<longleftrightarrow> params_valid (key_params k) \<and> party_index k < party_count (key_params k) \<and>
     is_lower_hex 32 (keygen_id k) \<and> binding_ok (domain_binding k) \<and>
     length (sigma k) = sigma_bytes (key_params k) \<and> length (correction_words k) = cw_bytes (key_params k)"

lemma make_key_share_ok: "make_key_share P i kid b sig cws = Inr k \<Longrightarrow> params_valid P \<Longrightarrow> key_ok k"
  by (auto simp: make_key_share_def key_ok_def binding_ok_def split: if_splits)

lemma key_ok_make:
  "key_ok k \<Longrightarrow> make_key_share (key_params k) (int (party_index k)) (keygen_id k) (domain_binding k)
    (sigma k) (correction_words k) = Inr k"
  by (auto simp: make_key_share_def key_ok_def binding_ok_def)

lemma seed_block_length:
  assumes "key_ok k" and "row < nu (key_params k)" and "j < seeds_per_row (key_params k)"
  shows "length (seed_block k row j) = SEED_BYTES"
proof -
  let ?P = "key_params k"
  have "row * seeds_per_row ?P + j < nu ?P * seeds_per_row ?P" using assms(2,3) by (rule row_index_less)
  then have "Suc (row * seeds_per_row ?P + j) * SEED_BYTES \<le> nu ?P * seeds_per_row ?P * SEED_BYTES"
    by (intro mult_le_mono1) simp
  with assms(1) show ?thesis by (simp add: seed_block_def key_ok_def sigma_bytes_def)
qed

lemma cw_row_length:
  assumes "key_ok k" and "j < seeds_per_row (key_params k)"
  shows "length (cw_row k j) = mu (key_params k)"
proof -
  let ?P = "key_params k"
  have "Suc j * mu ?P \<le> seeds_per_row ?P * mu ?P" using assms(2) by (intro mult_le_mono1) simp
  with assms(1) show ?thesis by (simp add: cw_row_def key_ok_def cw_bytes_def OUTPUT_BITS_def)
qed

lemma row_vector_total:
  assumes "key_ok k" and "row < nu (key_params k)"
  shows "\<exists>v. row_vector X k row = Inr v \<and> length v = mu (key_params k)"
proof -
  let ?P = "key_params k"
  have "\<exists>v. foldM (row_step X k row) js a = Inr v \<and> length v = mu ?P"
    if "set js \<subseteq> {..<seeds_per_row ?P}" "length a = mu ?P" for js a
    using that
  proof (induction js arbitrary: a)
    case (Cons j js)
    then have j: "j < seeds_per_row ?P" by simp
    obtain a' where a': "row_step X k row j a = Inr a'" "length a' = mu ?P"
      using seed_block_length [OF assms j] cw_row_length [OF assms(1) j] Cons.prems(2)
      by (cases "list_ex (\<lambda>b. b \<noteq> 0) (seed_block k row j)") (auto simp: row_step_def expand_seed_eq)
    with Cons.IH [of a'] Cons.prems(1) show ?case by simp
  qed simp
  then show ?thesis unfolding row_vector_def by (simp add: atLeast0LessThan [symmetric])
qed

definition row_of :: "xof \<Rightarrow> key_share \<Rightarrow> nat \<Rightarrow> 64 word list" where
  "row_of X k row = (case row_vector X k row of Inr v \<Rightarrow> v | Inl _ \<Rightarrow> [])"

lemma row_of_vector:
  assumes "key_ok k" and "row < nu (key_params k)"
  shows "row_vector X k row = Inr (row_of X k row)" and "length (row_of X k row) = mu (key_params k)"
  using row_vector_total [OF assms, of X] by (auto simp: row_of_def)

lemma eval_point_row:
  assumes "key_ok k" and "0 \<le> x" and "x < int (domain_size (key_params k))"
  shows "eval_point X k x = Inr (uint (row_of X k (nat x div mu (key_params k)) ! (nat x mod mu (key_params k))))"
proof -
  have "nat x div mu (key_params k) < nu (key_params k)" using assms(2,3) by (intro grid_rows) simp
  from row_of_vector(1) [OF assms(1) this] assms(2,3) show ?thesis
    by (simp add: eval_point_def grid_cell_in)
qed

lemma evaluate_many_eq:
  assumes "key_ok k" and "list_all (\<lambda>x. 0 \<le> x \<and> x < int (domain_size (key_params k))) points"
  shows "evaluate_many X k points = traverse (eval_point X k) points"
proof -
  let ?P = "key_params k" and ?row = "\<lambda>x :: int. nat x div mu (key_params k)"
  let ?rows = "sort (remdups (map ?row points))"
  have inr: "0 \<le> x \<and> x < int (domain_size ?P)" if "x \<in> set points" for x
    using assms(2) that by (simp add: list_all_iff)
  have rows: "row < nu ?P" if "row \<in> set ?rows" for row
  proof -
    from that obtain x where x: "x \<in> set points" "row = ?row x" by auto
    from inr [OF x(1)] have "nat x < domain_size ?P" by (simp add: nat_less_iff)
    then show ?thesis unfolding x(2) by (rule grid_rows)
  qed
  have cache: "traverse (\<lambda>row. bindr (row_vector X k row) (\<lambda>v. Inr (row, v))) ?rows =
      Inr (map (\<lambda>row. (row, row_of X k row)) ?rows)"
    by (rule traverse_Inr) (use row_of_vector [OF assms(1) rows] in simp)
  have map_of_rows: "map_of (map (\<lambda>row. (row, row_of X k row)) ?rows) row = Some (row_of X k row)"
    if "row \<in> set ?rows" for row
    using that map_of_map_restrict [of "row_of X k" ?rows] by (simp add: restrict_map_def)
  have "traverse (\<lambda>x. case map_of (map (\<lambda>row. (row, row_of X k row)) ?rows) (?row x) of
        None \<Rightarrow> Inl KeyError | Some v \<Rightarrow> Inr (uint (v ! (nat x mod mu ?P)))) points =
      traverse (eval_point X k) points"
  proof (rule traverse_cong [OF refl])
    fix x assume x: "x \<in> set points"
    then have "?row x \<in> set ?rows" by simp
    from map_of_rows [OF this] eval_point_row [OF assms(1), of x X] inr [OF x]
    show "(case map_of (map (\<lambda>row. (row, row_of X k row)) ?rows) (?row x) of
        None \<Rightarrow> Inl KeyError | Some v \<Rightarrow> Inr (uint (v ! (nat x mod mu ?P)))) = eval_point X k x"
      by simp
  qed
  with assms(2) show ?thesis unfolding evaluate_many_def Let_def cache by simp
qed

lemma concat_rows_cell:
  assumes "\<And>r. r < n \<Longrightarrow> length (f r) = w" and "x < n * w" and "0 < w"
  shows "concat (map f [0..<n]) ! x = f (x div w) ! (x mod w)"
proof -
  have r: "x div w < n" using assms(2) by (simp add: less_mult_imp_div_less)
  have "concat (map f [0..<n]) ! (x div w * w + x mod w) = map f [0..<n] ! (x div w) ! (x mod w)"
    by (rule concat_uniform_nth [where w = w]) (use assms r in auto)
  with r show ?thesis by simp
qed

lemma evaluate_universe_eq:
  assumes "key_ok k" and u: "0 < u" "u \<le> domain_size (key_params k)"
  shows "\<exists>ws. evaluate_universe X k u = Inr ws \<and> length ws = u \<and>
    traverse (eval_point X k) (map int [0..<u]) = Inr (map uint ws)"
proof -
  let ?P = "key_params k"
  define n where "n = (u - 1) div mu (key_params k) + 1"
  let ?all = "concat (map (row_of X k) [0..<n])"
  have "(u - 1) div mu ?P < nu ?P" using u by (intro grid_rows) simp
  then have rows: "r < nu ?P" if "r < n" for r using that by (simp add: n_def)
  have parts: "traverse (row_vector X k) [0..<n] = Inr (map (row_of X k) [0..<n])"
    by (rule traverse_Inr) (rule row_of_vector(1) [OF assms(1) rows], simp only: atLeastLessThan_upt [symmetric] atLeastLessThan_iff)
  have lens: "length (row_of X k r) = mu ?P" if "r < n" for r using row_of_vector(2) [OF assms(1) rows [OF that]] .
  have total: "length ?all = n * mu ?P"
    by (subst length_concat_uniform [where w = "mu ?P"]) (use lens in auto)
  have enough: "u \<le> n * mu ?P"
  proof -
    have "u - 1 < mu ?P + (u - 1) div mu ?P * mu ?P" by (rule dividend_less_div_times) simp
    then have "u - 1 < n * mu ?P" by (simp add: n_def)
    with u show ?thesis by linarith
  qed
  have run: "evaluate_universe X k u = Inr (take u ?all)"
    unfolding evaluate_universe_def Let_def n_def [symmetric] parts using u by simp
  have "traverse (eval_point X k) (map int [0..<u]) = Inr (map uint (take u ?all))"
    unfolding traverse_eq_Inr
  proof (rule list_all2_all_nthI)
    show "length (map int [0..<u]) = length (map uint (take u ?all))" using total enough by simp
    fix i assume "i < length (map int [0..<u])"
    then have i: "i < u" by simp
    have "?all ! i = row_of X k (i div mu ?P) ! (i mod mu ?P)"
      by (rule concat_rows_cell) (use lens i enough in auto)
    moreover have "eval_point X k (int i) = Inr (uint (row_of X k (i div mu ?P) ! (i mod mu ?P)))"
      using eval_point_row [OF assms(1), of "int i" X] i u(2) by simp
    ultimately show "eval_point X k (map int [0..<u] ! i) = Inr (map uint (take u ?all) ! i)"
      using i total enough by simp
  qed
  then show ?thesis using run total enough by (intro exI [of _ "take u ?all"]) simp
qed

text \<open>
  Batch evaluation, which computes each row once, and the sweep over a universe return exactly
  the pointwise outputs of any well-formed key share, in order; out of range both refuse.
\<close>

theorem evaluation_agrees:
  assumes "key_ok k"
  shows "evaluate_many X k points =
      (if list_all (\<lambda>x. 0 \<le> x \<and> x < int (domain_size (key_params k))) points
       then traverse (eval_point X k) points
       else Inl (ParameterError ''evaluation point out of the input domain'')) \<and>
    bindr (evaluate_universe X k u) (\<lambda>ws. Inr (map uint ws)) =
      (if 0 < u \<and> u \<le> domain_size (key_params k) then traverse (eval_point X k) (map int [0..<u])
       else Inl (ParameterError ''universe size out of the input domain''))"
proof (rule conjI)
  show "evaluate_many X k points =
      (if list_all (\<lambda>x. 0 \<le> x \<and> x < int (domain_size (key_params k))) points
       then traverse (eval_point X k) points
       else Inl (ParameterError ''evaluation point out of the input domain''))"
    using evaluate_many_eq [OF assms, of points X] by (simp add: evaluate_many_def Let_def)
  show "bindr (evaluate_universe X k u) (\<lambda>ws. Inr (map uint ws)) =
      (if 0 < u \<and> u \<le> domain_size (key_params k) then traverse (eval_point X k) (map int [0..<u])
       else Inl (ParameterError ''universe size out of the input domain''))"
  proof (cases "0 < u \<and> u \<le> domain_size (key_params k)")
    case True
    then obtain ws where "evaluate_universe X k u = Inr ws"
      "traverse (eval_point X k) (map int [0..<u]) = Inr (map uint ws)"
      using evaluate_universe_eq [OF assms, of u X] by blast
    with True show ?thesis by simp
  next
    case False
    then show ?thesis unfolding evaluate_universe_def Let_def if_not_P [OF False] by simp
  qed
qed

lemma share_at_key_ok:
  assumes "honest_grid P gamma arrays seeds cw" and "params_valid P" and "is_lower_hex 32 kid" and "binding_ok b"
    and "i < party_count P"
  shows "key_ok (share_at P arrays seeds cw kid b i)"
  using assms length_sigma_of(1) [OF assms(1)] length_cw_bytes [OF assms(1)]
  by (simp add: key_ok_def share_at_def)

lemma drawn_keys_ok:
  assumes "drawn_keys X P alpha beta binding keys" and "params_valid P" and "k \<in> set keys"
  shows "key_ok k" and "key_params k = P" and "domain_binding k = binding"
proof -
  from assms(1) obtain arrays seeds cw kid where
    d: "honest_grid P (nat alpha div mu P) arrays seeds cw" "is_lower_hex 32 kid" "binding_ok binding"
      "keys = map (share_at P arrays seeds cw kid binding) [0..<party_count P]"
    unfolding drawn_keys_def by blast
  from d(4) assms(3) obtain i where i: "i < party_count P" "k = share_at P arrays seeds cw kid binding i" by auto
  from share_at_key_ok [OF d(1) assms(2) d(2,3) i(1)] i(2) show "key_ok k" by simp
  from i(2) show "key_params k = P" "domain_binding k = binding" by (simp_all add: share_at_def)
qed

theorem evaluation_agrees_witness:
  "\<exists>keys g'. generate sample_xof 5 7 3 None None (Some 3) ''raw'' (\<lambda>_. 1) = Some (Inr (keys, g')) \<and>
    evaluate_many sample_xof (keys ! 0) [5, 2, 5] = traverse (eval_point sample_xof (keys ! 0)) [5, 2, 5] \<and>
    bindr (evaluate_universe sample_xof (keys ! 0) 7) (\<lambda>ws. Inr (map uint ws)) =
      traverse (eval_point sample_xof (keys ! 0)) (map int [0..<7])"
proof -
  from sample_keys obtain keys g' where
    run: "generate sample_xof 5 7 3 None None (Some 3) ''raw'' (\<lambda>_. 1) = Some (Inr (keys, g'))" by blast
  have "pred_option params_valid None" by simp
  from generate_drawn [OF run this] obtain P where P: "resolve_params 3 None None (Some 3) = Inr P" "params_valid P"
    and drawn: "drawn_keys sample_xof P 5 7 ''raw'' keys" by (elim exE conjE) (rule that)
  from P(1) have sample: "P = sample_fss" unfolding sample_resolved by simp
  have "length keys = 3" using drawn by (auto simp: drawn_keys_def sample sample_fss_def)
  then have "keys ! 0 \<in> set keys" by simp
  from drawn_keys_ok [OF drawn P(2) this] have ok: "key_ok (keys ! 0)" and size: "domain_size (key_params (keys ! 0)) = 8"
    by (simp_all add: sample sample_fss_size)
  from evaluation_agrees [OF ok, of sample_xof "[5, 2, 5]" 7] run
  show ?thesis by (simp add: size)
qed

section \<open>Coalitions\<close>

lemma distinct_filter_eq: "distinct xs \<Longrightarrow> filter (\<lambda>x. x = a) xs = (if a \<in> set xs then [a] else [])"
  by (induction xs) auto

lemma ones_power: "i < p \<Longrightarrow> ones (2 ^ i) = 1"
proof -
  assume i: "i < p"
  have lt: "(2::nat) ^ i < 2 ^ p" using i by simp
  have "filter (party_holds (2 ^ i)) [0..<p] = filter (\<lambda>i'. i' = i) [0..<p]"
    by (rule filter_cong [OF refl]) (auto simp: party_holds_odd bit_iff_odd [symmetric] bit_exp_iff)
  also have "length (filter (\<lambda>i'. i' = i) [0..<p]) = 1"
    using i distinct_filter_eq [of "[0..<p]" i] by simp
  finally show ?thesis using ones_holders [OF lt] by simp
qed

lemma lone_holder:
  assumes "c < 2 ^ p" and "i < p" and "\<And>i'. i' < p \<Longrightarrow> party_holds c i' \<longleftrightarrow> i' = i"
  shows "c = 2 ^ i"
proof (rule bit_eqI)
  fix n
  show "bit c n \<longleftrightarrow> bit (2 ^ i :: nat) n"
  proof (cases "n < p")
    case True
    with assms(3) [OF True] show ?thesis by (simp add: party_holds_odd bit_iff_odd [symmetric] bit_exp_iff)
  next
    case False
    have "c < 2 ^ n" using assms(1) False by (meson less_le_trans not_less one_le_numeral power_increasing)
    then have "\<not> bit c n" by (simp add: bit_iff_odd)
    with False assms(2) show ?thesis by (auto simp: bit_exp_iff)
  qed
qed

lemma seed_block_share:
  assumes "honest_grid P gamma arrays seeds cw" and "row < nu P" and "j < seeds_per_row P"
  shows "seed_block (share_at P arrays seeds cw kid b i) row j =
    (if party_holds (arrays ! row ! j) i then seeds ! row ! j else replicate SEED_BYTES 0)"
  using length_sigma_of(2) [OF assms] by (simp add: seed_block_def share_at_def)

definition holds_seed :: "key_share \<Rightarrow> nat \<Rightarrow> nat \<Rightarrow> bool" where
  "holds_seed k row j \<longleftrightarrow> list_ex (\<lambda>b. b \<noteq> 0) (seed_block k row j)"

lemma holds_seed_share:
  assumes "honest_grid P gamma arrays seeds cw" and "row < nu P" and "j < seeds_per_row P"
  shows "holds_seed (share_at P arrays seeds cw kid b i) row j \<longleftrightarrow> party_holds (arrays ! row ! j) i"
proof -
  from assms have "good_seed (seeds ! row ! j)" by (auto simp: honest_grid_def list_all_length)
  moreover have "\<not> list_ex (\<lambda>b. b \<noteq> 0) (replicate SEED_BYTES (0::byte))" by (simp add: list_ex_iff)
  ultimately show ?thesis unfolding holds_seed_def seed_block_share [OF assms] by (simp add: good_seed_def)
qed

lemma lone_column:
  assumes arr: "parity_array p True columns" and i: "i < p" and p: "1 \<le> p"
  shows "\<exists>!j. j < length columns \<and> (\<forall>i' < p. party_holds (columns ! j) i' \<longleftrightarrow> i' = i)"
proof -
  have "(2::nat) ^ i < 2 ^ p" using i by simp
  then have "2 ^ i \<in> set columns" using arr ones_power [OF i] by (simp add: parity_array_def)
  then obtain j where j: "j < length columns" "columns ! j = 2 ^ i" by (metis in_set_conv_nth)
  have here: "\<forall>i' < p. party_holds (columns ! j) i' \<longleftrightarrow> i' = i"
    unfolding j(2) by (auto simp: party_holds_odd bit_iff_odd [symmetric] bit_exp_iff)
  show ?thesis
  proof (rule ex1I [of _ j])
    show "j < length columns \<and> (\<forall>i' < p. party_holds (columns ! j) i' \<longleftrightarrow> i' = i)" using j(1) here by blast
    fix j' assume j': "j' < length columns \<and> (\<forall>i' < p. party_holds (columns ! j') i' \<longleftrightarrow> i' = i)"
    then have "columns ! j' \<in> set columns" by simp
    then have lt: "columns ! j' < 2 ^ p" using arr by (auto simp: parity_array_def)
    have "columns ! j' = 2 ^ i" by (rule lone_holder [OF lt i]) (use j' in blast)
    then have "columns ! j' = columns ! j" using j(2) by simp
    moreover have "distinct columns" using arr by (simp add: parity_array_def)
    ultimately show "j' = j" using j(1) j' by (simp add: nth_eq_iff_index_eq)
  qed
qed

text \<open>
  C36: What keeps a coalition out: in the row of the shared point every party holds exactly one seed
  that no other party holds, so parties that miss one of them miss a seed; and in every other
  row each seed is held by an even number of parties.
\<close>

theorem coalition_misses_seed:
  assumes "generate X alpha beta parties t params bits binding g = Some (Inr (keys, g'))"
    and "pred_option params_valid params"
  shows "\<exists>P. resolve_params parties t params bits = Inr P \<and>
    (\<forall>i < length keys. \<exists>!j. j < seeds_per_row P \<and>
      (\<forall>i' < length keys. holds_seed (keys ! i') (nat alpha div mu P) j \<longleftrightarrow> i' = i)) \<and>
    (\<forall>row < nu P. row \<noteq> nat alpha div mu P \<longrightarrow>
      (\<forall>j < seeds_per_row P. even (length (filter (\<lambda>k. holds_seed k row j) keys))))"
proof -
  from generate_drawn [OF assms] obtain P where P: "resolve_params parties t params bits = Inr P" "params_valid P"
    and drawn: "drawn_keys X P alpha beta binding keys" by (elim exE conjE) (rule that)
  from drawn obtain arrays seeds cw kid where grid: "honest_grid P (nat alpha div mu P) arrays seeds cw"
    and ks: "keys = map (share_at P arrays seeds cw kid binding) [0..<party_count P]"
    and alpha: "0 \<le> alpha" "alpha < int (domain_size P)"
    unfolding drawn_keys_def by blast
  have n: "length keys = party_count P" "1 \<le> party_count P" using P(2) by (simp_all add: ks params_valid_def)
  have gamma: "nat alpha div mu P < nu P" using alpha by (intro grid_rows) simp
  have arr: "parity_array (party_count P) (row = nat alpha div mu P) (arrays ! row)" if "row < nu P" for row
    using grid that by (simp add: honest_grid_def)
  have len: "length (arrays ! row) = seeds_per_row P" if "row < nu P" for row
    using arr [OF that] by (simp add: parity_array_def seeds_per_row_def)
  have at: "holds_seed (keys ! i) row j \<longleftrightarrow> party_holds (arrays ! row ! j) i"
    if "i < party_count P" "row < nu P" "j < seeds_per_row P" for i row j
    using holds_seed_share [OF grid that(2,3)] that(1) by (simp add: ks)
  have "\<exists>!j. j < seeds_per_row P \<and> (\<forall>i' < length keys. holds_seed (keys ! i') (nat alpha div mu P) j \<longleftrightarrow> i' = i)"
    if i: "i < length keys" for i
  proof -
    have "parity_array (party_count P) True (arrays ! (nat alpha div mu P))" using arr [OF gamma] by simp
    from lone_column [OF this _ n(2), of i] i n(1) len [OF gamma]
    have "\<exists>!j. j < seeds_per_row P \<and>
        (\<forall>i' < party_count P. party_holds (arrays ! (nat alpha div mu P) ! j) i' \<longleftrightarrow> i' = i)" by simp
    moreover have "(j < seeds_per_row P \<and> (\<forall>i' < length keys. holds_seed (keys ! i') (nat alpha div mu P) j \<longleftrightarrow> i' = i)) \<longleftrightarrow>
        (j < seeds_per_row P \<and> (\<forall>i' < party_count P. party_holds (arrays ! (nat alpha div mu P) ! j) i' \<longleftrightarrow> i' = i))" for j
      unfolding n(1) using at gamma by blast
    ultimately show ?thesis by simp
  qed
  moreover have "even (length (filter (\<lambda>k. holds_seed k row j) keys))"
    if row: "row < nu P" "row \<noteq> nat alpha div mu P" and j: "j < seeds_per_row P" for row j
  proof -
    have "filter (\<lambda>k. holds_seed k row j) keys =
        map (share_at P arrays seeds cw kid binding) (filter (party_holds (arrays ! row ! j)) [0..<party_count P])"
      unfolding ks filter_map comp_def holds_seed_share [OF grid row(1) j] ..
    moreover have c: "arrays ! row ! j \<in> set (arrays ! row)" using j len [OF row(1)] by simp
    ultimately show ?thesis
      using arr [OF row(1)] row(2) by (auto simp: parity_array_def ones_holders [symmetric] even_iff_mod_2_eq_zero)
  qed
  ultimately show ?thesis using P(1) by blast
qed

theorem coalition_misses_seed_witness:
  "\<exists>keys g'. generate sample_xof 5 7 3 None None (Some 3) ''raw'' (\<lambda>_. 1) = Some (Inr (keys, g')) \<and>
    (\<forall>i < length keys. \<exists>!j. j < seeds_per_row sample_fss \<and>
      (\<forall>i' < length keys. holds_seed (keys ! i') (5 div mu sample_fss) j \<longleftrightarrow> i' = i))"
proof -
  from sample_keys obtain keys g' where
    run: "generate sample_xof 5 7 3 None None (Some 3) ''raw'' (\<lambda>_. 1) = Some (Inr (keys, g'))" by blast
  have "pred_option params_valid None" by simp
  from coalition_misses_seed [OF run this] have
    "\<forall>i < length keys. \<exists>!j. j < seeds_per_row sample_fss \<and>
      (\<forall>i' < length keys. holds_seed (keys ! i') (nat 5 div mu sample_fss) j \<longleftrightarrow> i' = i)"
    unfolding sample_resolved by blast
  then have "\<forall>i < length keys. \<exists>!j. j < seeds_per_row sample_fss \<and>
      (\<forall>i' < length keys. holds_seed (keys ! i') (5 div mu sample_fss) j \<longleftrightarrow> i' = i)" by simp
  with run show ?thesis by blast
qed

end
