(* ===== verification/Fss_Wire.thy ===== *)
theory Fss_Wire
  imports Fss_Point
begin

text \<open>
  Key shares on the wire (\<open>multiparty_fss/keyshare.py\<close>) and the rank domain of a shared universe
  (\<open>multiparty_fss/domain.py\<close>, \<open>universe_digest\<close> of \<open>src/runtime/fss_evaluator_service.py\<close>).
  Base64 decoding is \<open>binascii.a2b_base64\<close> in strict mode, character by character.
\<close>

section \<open>Base64\<close>

definition b64_alphabet :: string where
  "b64_alphabet = ''ABCDEFGHIJKLMNOPQRSTUVWXYZabcdefghijklmnopqrstuvwxyz0123456789+/''"

definition b64_char :: "nat \<Rightarrow> char" where
  "b64_char n = b64_alphabet ! n"

definition b64_value :: "char \<Rightarrow> nat option" where
  "b64_value c = index_from 0 b64_alphabet c"

fun b64encode :: "byte list \<Rightarrow> string" where
  "b64encode [] = []"
| "b64encode [a] = [b64_char (unat a div 4), b64_char (unat a mod 4 * 16), CHR ''='', CHR ''='']"
| "b64encode [a, b] = [b64_char (unat a div 4), b64_char (unat a mod 4 * 16 + unat b div 16),
     b64_char (unat b mod 16 * 4), CHR ''='']"
| "b64encode (a # b # c # bs) = [b64_char (unat a div 4), b64_char (unat a mod 4 * 16 + unat b div 16),
     b64_char (unat b mod 16 * 4 + unat c div 64), b64_char (unat c mod 64)] @ b64encode bs"

text \<open>Position in the quad, bits left over, pads seen, whether padding has started.\<close>

fun b64_scan :: "string \<Rightarrow> nat \<Rightarrow> nat \<Rightarrow> nat \<Rightarrow> bool \<Rightarrow> byte list option" where
  "b64_scan [] quad left pads started = (if quad \<noteq> 0 then None else Some [])"
| "b64_scan (c # cs) quad left pads started =
     (if c = CHR ''='' then
        (if 2 \<le> quad \<and> 4 \<le> quad + Suc pads then (if cs \<noteq> [] then None else Some [])
         else b64_scan cs quad left (if 2 \<le> quad then Suc pads else pads) True)
      else case b64_value c of
        None \<Rightarrow> None
      | Some v \<Rightarrow>
          if started then None
          else if quad = 0 then b64_scan cs 1 v 0 started
          else if quad = 1 then map_option ((#) (word_of_nat (left * 4 + v div 16))) (b64_scan cs 2 (v mod 16) 0 started)
          else if quad = 2 then map_option ((#) (word_of_nat (left * 16 + v div 4))) (b64_scan cs 3 (v mod 4) 0 started)
          else map_option ((#) (word_of_nat (left * 64 + v))) (b64_scan cs 0 0 0 started))"

definition b64decode :: "string \<Rightarrow> byte list option" where
  "b64decode s = (if s \<noteq> [] \<and> hd s = CHR ''='' then None else b64_scan s 0 0 0 False)"

lemma b64_alphabet_facts: "length b64_alphabet = 64" "distinct b64_alphabet" "CHR ''='' \<notin> set b64_alphabet"
  by (simp_all add: b64_alphabet_def)

lemma b64_char_in: "n < 64 \<Longrightarrow> b64_char n \<in> set b64_alphabet"
  unfolding b64_char_def by (rule nth_mem) (simp add: b64_alphabet_facts)

lemma b64_char_pad: "n < 64 \<Longrightarrow> b64_char n \<noteq> CHR ''=''"
  using b64_char_in [of n] b64_alphabet_facts(3) by metis

lemma b64_value_char: "n < 64 \<Longrightarrow> b64_value (b64_char n) = Some n"
proof -
  assume n: "n < 64"
  have "list_index b64_alphabet (b64_alphabet ! n) = Inr n"
    by (rule list_index_nth) (simp_all add: b64_alphabet_facts n)
  then show ?thesis
    by (simp add: b64_value_def b64_char_def list_index_def split: option.splits)
qed

lemma unat_byte: "unat (b :: byte) < 256"
proof -
  have "unat b < 2 ^ LENGTH(8)" by (rule unsigned_less)
  then show ?thesis by simp
qed

lemma b64_scan_data:
  assumes "n < 64"
  shows "b64_scan (b64_char n # cs) 0 left pads False = b64_scan cs 1 n 0 False"
    and "b64_scan (b64_char n # cs) 1 left pads False = map_option ((#) (word_of_nat (left * 4 + n div 16))) (b64_scan cs 2 (n mod 16) 0 False)"
    and "b64_scan (b64_char n # cs) 2 left pads False = map_option ((#) (word_of_nat (left * 16 + n div 4))) (b64_scan cs 3 (n mod 4) 0 False)"
    and "b64_scan (b64_char n # cs) 3 left pads False = map_option ((#) (word_of_nat (left * 64 + n))) (b64_scan cs 0 0 0 False)"
  using assms by (simp_all add: b64_char_pad b64_value_char)

lemma b64_scan_pad:
  "b64_scan ''=='' 2 left 0 False = Some []" "b64_scan ''='' 3 left 0 False = Some []"
  by simp_all

lemma six_bits:
  assumes "a < 256" "b < 256" "c < (256::nat)"
  shows "a div 4 < 64" "a mod 4 * 16 < 64" "a mod 4 * 16 + b div 16 < 64" "b mod 16 * 4 < 64"
    "b mod 16 * 4 + c div 64 < 64" "c mod 64 < 64"
    "a div 4 * 4 + a mod 4 * 16 div 16 = a" "a div 4 * 4 + (a mod 4 * 16 + b div 16) div 16 = a"
    "(a mod 4 * 16 + b div 16) mod 16 * 16 + b mod 16 * 4 div 4 = b"
    "(a mod 4 * 16 + b div 16) mod 16 * 16 + (b mod 16 * 4 + c div 64) div 4 = b"
    "(b mod 16 * 4 + c div 64) mod 4 * 64 + c mod 64 = c"
proof -
  have b: "b div 16 < 16" and c: "c div 64 < 4" using assms by (simp_all add: less_mult_imp_div_less)
  show "a div 4 < 64" using assms by (simp add: less_mult_imp_div_less)
  have a4: "a mod 4 < 4" and b16: "b mod 16 < 16" by simp_all
  show "a mod 4 * 16 < 64" "b mod 16 * 4 < 64" "c mod 64 < 64" using a4 b16 by simp_all
  show "a mod 4 * 16 + b div 16 < 64" "b mod 16 * 4 + c div 64 < 64" using a4 b16 b c by linarith+
  have q: "(a mod 4 * 16 + b div 16) div 16 = a mod 4" "(a mod 4 * 16 + b div 16) mod 16 = b div 16"
    "(b mod 16 * 4 + c div 64) div 4 = b mod 16" "(b mod 16 * 4 + c div 64) mod 4 = c div 64"
    using b c by simp_all
  show "a div 4 * 4 + a mod 4 * 16 div 16 = a" by simp
  show "a div 4 * 4 + (a mod 4 * 16 + b div 16) div 16 = a" unfolding q by simp
  show "(a mod 4 * 16 + b div 16) mod 16 * 16 + b mod 16 * 4 div 4 = b" unfolding q by simp
  show "(a mod 4 * 16 + b div 16) mod 16 * 16 + (b mod 16 * 4 + c div 64) div 4 = b" unfolding q by simp
  show "(b mod 16 * 4 + c div 64) mod 4 * 64 + c mod 64 = c" unfolding q by simp
qed

lemma b64_scan_encode: "b64_scan (b64encode bs) 0 0 0 False = Some bs"
proof (induction bs rule: b64encode.induct)
  case (2 a)
  note s = six_bits [of "unat a" "unat a" "unat a", OF unat_byte unat_byte unat_byte]
  show ?case
    unfolding b64encode.simps b64_scan_data(1) [OF s(1)] b64_scan_data(2) [OF s(2)] b64_scan_pad s(7) by simp
next
  case (3 a b)
  note s = six_bits [of "unat a" "unat b" "unat b", OF unat_byte unat_byte unat_byte]
  show ?case
    unfolding b64encode.simps b64_scan_data(1) [OF s(1)] b64_scan_data(2) [OF s(3)] b64_scan_data(3) [OF s(4)]
      b64_scan_pad s(8,9) by simp
next
  case (4 a b c bs)
  note s = six_bits [of "unat a" "unat b" "unat c", OF unat_byte unat_byte unat_byte]
  show ?case
    unfolding b64encode.simps append_Cons append_Nil b64_scan_data(1) [OF s(1)] b64_scan_data(2) [OF s(3)]
      b64_scan_data(3) [OF s(5)] b64_scan_data(4) [OF s(6)] s(8,10,11) "4.IH" by simp
qed simp

lemma b64encode_pad: "bs \<noteq> [] \<Longrightarrow> hd (b64encode bs) \<noteq> CHR ''=''"
  using six_bits(1) [OF unat_byte unat_byte unat_byte]
  by (cases bs rule: b64encode.cases) (auto dest: b64_char_pad)

lemma b64decode_encode [simp]: "b64decode (b64encode bs) = Some bs"
  using b64encode_pad [of bs] b64_scan_encode [of bs] by (cases "bs = []") (simp_all add: b64decode_def)

section \<open>Key shares as documents\<close>

definition WIRE_VERSION_KEY :: string where "WIRE_VERSION_KEY = ''fedkg-mpfss-key-v1''"

definition KEY_FIELDS :: "string list" where
  "KEY_FIELDS = [''version'', ''construction'', ''params_id'', ''party_count'', ''threshold'', ''party_index'',
     ''domain_bits'', ''output_group'', ''prg'', ''keygen_id'', ''domain_binding'', ''sigma'', ''correction_words'']"

definition key_to_dict :: "(jval \<Rightarrow> string) \<Rightarrow> key_share \<Rightarrow> jval" where
  "key_to_dict H k = JDict
     [(''version'', JStr WIRE_VERSION_KEY), (''construction'', JStr CONSTRUCTION_ID),
      (''params_id'', JStr (params_id H (key_params k))),
      (''party_count'', JInt (int (party_count (key_params k)))), (''threshold'', JInt (int (threshold (key_params k)))),
      (''party_index'', JInt (int (party_index k))), (''domain_bits'', JInt (int (domain_bits (key_params k)))),
      (''output_group'', JStr OUTPUT_GROUP_ID), (''prg'', JStr PRG_ID), (''keygen_id'', JStr (keygen_id k)),
      (''domain_binding'', JStr (domain_binding k)), (''sigma'', JStr (b64encode (sigma k))),
      (''correction_words'', JStr (b64encode (correction_words k)))]"

text \<open>\<open>except Exception as exc: raise KeyShareFormatError(...)\<close>, and the two type checks of a field.\<close>

definition as_key_error :: "string \<Rightarrow> 'a res \<Rightarrow> 'a res" where
  "as_key_error msg m = (case m of Inl _ \<Rightarrow> Inl (KeyShareFormatError msg) | Inr x \<Rightarrow> Inr x)"

definition key_int :: "(string \<times> jval) list \<Rightarrow> string \<Rightarrow> int res" where
  "key_int d name = (case strict_int (jget d name) of
     None \<Rightarrow> Inl (KeyShareFormatError ''must be an integer'') | Some i \<Rightarrow> Inr i)"

definition key_str :: "(string \<times> jval) list \<Rightarrow> string \<Rightarrow> string res" where
  "key_str d name = (case jget d name of
     JStr s \<Rightarrow> Inr s | _ \<Rightarrow> Inl (KeyShareFormatError ''must be a string''))"

definition key_payload :: "string \<Rightarrow> byte list res" where
  "key_payload s = (case b64decode s of
     None \<Rightarrow> Inl (KeyShareFormatError ''key payload is not valid base64'') | Some bs \<Rightarrow> Inr bs)"

definition key_from_dict :: "(jval \<Rightarrow> string) \<Rightarrow> jval \<Rightarrow> key_share res" where
  "key_from_dict H payload =
     (case payload of JDict d \<Rightarrow>
        if set (map fst d) \<noteq> set KEY_FIELDS then Inl (KeyShareFormatError ''key share fields invalid'')
        else if \<not> eq_str (jget d ''version'') WIRE_VERSION_KEY then Inl (KeyShareFormatError ''unsupported key wire version'')
        else if \<not> eq_str (jget d ''construction'') CONSTRUCTION_ID then Inl (KeyShareFormatError ''unsupported construction'')
        else if \<not> eq_str (jget d ''output_group'') OUTPUT_GROUP_ID then Inl (KeyShareFormatError ''unsupported output group'')
        else if \<not> eq_str (jget d ''prg'') PRG_ID then Inl (KeyShareFormatError ''unsupported PRG id'')
        else
          bindr (key_int d ''party_count'') (\<lambda>parties. bindr (key_int d ''threshold'') (\<lambda>t.
          bindr (key_int d ''party_index'') (\<lambda>i. bindr (key_int d ''domain_bits'') (\<lambda>bits.
          bindr (key_str d ''params_id'') (\<lambda>pid. bindr (key_str d ''keygen_id'') (\<lambda>kid.
          bindr (key_str d ''domain_binding'') (\<lambda>binding. bindr (key_str d ''sigma'') (\<lambda>sig.
          bindr (key_str d ''correction_words'') (\<lambda>cws.
          bindr (as_key_error ''invalid parameters in key share'' (make_params bits parties t)) (\<lambda>P.
          if pid \<noteq> params_id H P then Inl (KeyShareFormatError ''params_id does not match the declared parameters'')
          else bindr (key_payload sig) (\<lambda>sig. bindr (key_payload cws) (\<lambda>cws.
            make_key_share P i kid binding sig cws))))))))))))
      | _ \<Rightarrow> Inl (KeyShareFormatError ''key share must be a JSON object''))"

lemma as_key_error_eq_Inr [res_simps]: "as_key_error msg m = Inr x \<longleftrightarrow> m = Inr x"
  by (auto simp: as_key_error_def split: sum.splits)

lemma key_int_eq_Inr [res_simps]: "key_int d name = Inr i \<longleftrightarrow> jget d name = JInt i"
  by (cases "jget d name") (auto simp: key_int_def)

lemma key_str_eq_Inr [res_simps]: "key_str d name = Inr s \<longleftrightarrow> jget d name = JStr s"
  by (cases "jget d name") (auto simp: key_str_def)

lemma key_payload_eq_Inr [res_simps]: "key_payload s = Inr bs \<longleftrightarrow> b64decode s = Some bs"
  by (auto simp: key_payload_def split: option.splits)

lemma eq_str_iff: "eq_str v s \<longleftrightarrow> v = JStr s"
  by (cases v) auto

text \<open>What a document must say to be read as a key share.\<close>

definition key_document :: "(jval \<Rightarrow> string) \<Rightarrow> (string \<times> jval) list \<Rightarrow> key_share \<Rightarrow> bool" where
  "key_document H d k \<longleftrightarrow>
     set (map fst d) = set KEY_FIELDS \<and> jget d ''version'' = JStr WIRE_VERSION_KEY \<and>
     jget d ''construction'' = JStr CONSTRUCTION_ID \<and> jget d ''output_group'' = JStr OUTPUT_GROUP_ID \<and>
     jget d ''prg'' = JStr PRG_ID \<and> jget d ''params_id'' = JStr (params_id H (key_params k)) \<and>
     jget d ''party_count'' = JInt (int (party_count (key_params k))) \<and>
     jget d ''threshold'' = JInt (int (threshold (key_params k))) \<and>
     jget d ''domain_bits'' = JInt (int (domain_bits (key_params k))) \<and>
     jget d ''party_index'' = JInt (int (party_index k)) \<and> jget d ''keygen_id'' = JStr (keygen_id k) \<and>
     jget d ''domain_binding'' = JStr (domain_binding k) \<and>
     (\<exists>s. jget d ''sigma'' = JStr s \<and> b64decode s = Some (sigma k)) \<and>
     (\<exists>s. jget d ''correction_words'' = JStr s \<and> b64decode s = Some (correction_words k))"

lemma make_key_share_fields:
  assumes "make_key_share P i kid b sig cws = Inr k"
  shows "key_params k = P" "int (party_index k) = i" "keygen_id k = kid" "domain_binding k = b"
    "sigma k = sig" "correction_words k = cws"
  using assms by (auto simp: make_key_share_def split: if_splits)

lemma key_from_dict_sound:
  assumes "key_from_dict H v = Inr k"
  shows "\<exists>d. v = JDict d \<and> key_document H d k \<and> key_ok k"
proof -
  from assms obtain d where v: "v = JDict d" by (cases v) (auto simp: key_from_dict_def)
  from assms obtain parties t i bits pid kid binding s1 s2 P sig cws where
    f: "set (map fst d) = set KEY_FIELDS" "jget d ''version'' = JStr WIRE_VERSION_KEY"
      "jget d ''construction'' = JStr CONSTRUCTION_ID" "jget d ''output_group'' = JStr OUTPUT_GROUP_ID"
      "jget d ''prg'' = JStr PRG_ID" "jget d ''party_count'' = JInt parties" "jget d ''threshold'' = JInt t"
      "jget d ''party_index'' = JInt i" "jget d ''domain_bits'' = JInt bits" "jget d ''params_id'' = JStr pid"
      "jget d ''keygen_id'' = JStr kid" "jget d ''domain_binding'' = JStr binding" "jget d ''sigma'' = JStr s1"
      "jget d ''correction_words'' = JStr s2" "make_params bits parties t = Inr P" "pid = params_id H P"
      "b64decode s1 = Some sig" "b64decode s2 = Some cws" "make_key_share P i kid binding sig cws = Inr k"
    unfolding v key_from_dict_def jval.case eq_str_iff res_simps
    by (simp only: not_not) (elim exE conjE, rule that)
  note P = make_params_valid [OF f(15)] and k = make_key_share_fields [OF f(19)]
  have "key_ok k" using make_key_share_ok [OF f(19)] P by blast
  moreover have "key_document H d k"
    unfolding key_document_def k(1,3-6) using f P k(2) by simp
  ultimately show ?thesis using v by blast
qed

lemma key_from_dict_complete:
  assumes "key_document H d k" and "key_ok k"
  shows "key_from_dict H (JDict d) = Inr k"
proof -
  have P: "make_params (int (domain_bits (key_params k))) (int (party_count (key_params k)))
      (int (threshold (key_params k))) = Inr (key_params k)"
    by (rule make_params_of) (use assms(2) in \<open>simp add: key_ok_def\<close>)
  from assms(1) show ?thesis
    unfolding key_document_def key_from_dict_def
    by (auto simp: key_int_def key_str_def key_payload_def P as_key_error_def key_ok_make [OF assms(2)])
qed

text \<open>
  Base64 texts are read leniently: the unused bits of the last character are dropped, so a payload
  has more texts than the one that is written.
\<close>

lemma payload_text_not_unique: "b64decode ''QR=='' = Some [65] \<and> b64decode ''QQ=='' = Some [65]"
  by (simp add: b64decode_def b64_value_def b64_alphabet_def)

text \<open>
  C38: Parsing of key shares is exact: a document is read as the key k if and only if it has exactly
  the fields of the wire format, every header field is the one of k (the parameter digest recomputed),
  its two payload fields are base64 texts that decode to the payloads of k, not necessarily the
  texts a writer produces, and k is a key the constructor allows; and what a key writes is read
  back as the same key.
\<close>

theorem key_wire_exact:
  "(key_from_dict H v = Inr k \<longleftrightarrow> (\<exists>d. v = JDict d \<and> key_document H d k \<and> key_ok k)) \<and>
   (key_from_dict H (key_to_dict H k) = Inr k \<longleftrightarrow> key_ok k)"
proof -
  have exact: "key_from_dict H v = Inr k \<longleftrightarrow> (\<exists>d. v = JDict d \<and> key_document H d k \<and> key_ok k)" for v
    using key_from_dict_sound [of H v k] key_from_dict_complete [of H _ k] by blast
  have "\<exists>d. key_to_dict H k = JDict d \<and> key_document H d k"
    by (auto simp: key_to_dict_def key_document_def KEY_FIELDS_def jget_def get_or_def)
  then have "key_from_dict H (key_to_dict H k) = Inr k \<longleftrightarrow> key_ok k"
    unfolding exact by auto
  then show ?thesis using exact [of v] by (intro conjI)
qed

end
