(* ===== verification/Fss_Index.thy ===== *)
theory Fss_Index
  imports Fss_Wire
begin

text \<open>
  What the evaluators hold: the rank domain of a shared universe (\<open>multiparty_fss/domain.py\<close>),
  opaque snapshots with their validation and digest and their replicated index
  (\<open>src/party/opaque_index_snapshot.py\<close>), and the topology and contents of a store
  (\<open>multiparty_fss/service.py\<close>).
\<close>

section \<open>Universes\<close>

definition hex_string :: "string \<Rightarrow> bool" where
  "hex_string s \<longleftrightarrow> list_all (\<lambda>c. c \<in> set ''0123456789abcdef'') s"

definition check_point :: "string \<Rightarrow> unit res" where
  "check_point point =
     (if length point mod 2 \<noteq> 0 \<or> point = [] then Inl (DomainError ''universe points must be even-length hex strings'')
      else if \<not> hex_string point then Inl (DomainError ''universe points must be lowercase hex strings'')
      else Inr ())"

definition make_universe :: "string list \<Rightarrow> string list res" where
  "make_universe points =
     (if points = [] then Inl (DomainError ''universe must contain at least one point'')
      else if points \<noteq> sort (remdups points) then Inl (DomainError ''universe points must be sorted and unique'')
      else bindr (traverse check_point points) (\<lambda>_. Inr points))"

definition universe_from_points :: "string list \<Rightarrow> string list res" where
  "universe_from_points points = make_universe (sort (remdups points))"

definition universe_bits :: "string list \<Rightarrow> nat res" where
  "universe_bits u = domain_bits_for_universe (int (length u))"

definition universe_params :: "string list \<Rightarrow> int \<Rightarrow> int option \<Rightarrow> fss_params res" where
  "universe_params u parties t = bindr (universe_bits u) (\<lambda>bits. create_params (int bits) parties t)"

text \<open>\<open>bisect.bisect_left\<close>.\<close>

function bisect_left :: "'a :: linorder list \<Rightarrow> 'a \<Rightarrow> nat \<Rightarrow> nat \<Rightarrow> nat" where
  "bisect_left xs x lo hi =
     (if lo < hi then
        let mid = (lo + hi) div 2 in
        if xs ! mid < x then bisect_left xs x (mid + 1) hi else bisect_left xs x lo mid
      else lo)"
  by pat_completeness auto
termination by (relation "measure (\<lambda>(xs, x, lo, hi). hi - lo)") auto

declare bisect_left.simps [simp del]

definition rank_of :: "string list \<Rightarrow> string \<Rightarrow> nat option" where
  "rank_of u point =
     (let i = bisect_left u point 0 (length u) in
      if i < length u \<and> u ! i = point then Some i else None)"

text \<open>\<open>bytes.fromhex\<close> of a validated point.\<close>

definition hex_value :: "char \<Rightarrow> nat" where
  "hex_value c = (case index_from 0 ''0123456789abcdef'' c of None \<Rightarrow> 0 | Some n \<Rightarrow> n)"

fun bytes_fromhex :: "string \<Rightarrow> byte list" where
  "bytes_fromhex (a # b # s) = word_of_nat (hex_value a * 16 + hex_value b) # bytes_fromhex s"
| "bytes_fromhex _ = []"

definition universe_digest :: "(byte list \<Rightarrow> string) \<Rightarrow> string list \<Rightarrow> string" where
  "universe_digest sha256 points =
     sha256 (ascii_bytes ''fedkg-fss-universe-v1'' @ [0] @ concat (map bytes_fromhex points))"

lemma bisect_left_spec:
  assumes "sorted xs" and "lo \<le> hi" and "hi \<le> length xs"
    and "\<And>i. i < lo \<Longrightarrow> xs ! i < x" and "\<And>i. hi \<le> i \<Longrightarrow> i < length xs \<Longrightarrow> x \<le> xs ! i"
  shows "bisect_left xs x lo hi \<le> length xs \<and> (\<forall>i < bisect_left xs x lo hi. xs ! i < x) \<and>
    (\<forall>i. bisect_left xs x lo hi \<le> i \<and> i < length xs \<longrightarrow> x \<le> xs ! i)"
  using assms
proof (induction xs x lo hi rule: bisect_left.induct)
  case (1 xs x lo hi)
  show ?case
  proof (cases "lo < hi")
    case False
    then have "bisect_left xs x lo hi = lo" by (simp add: bisect_left.simps)
    with False "1.prems" show ?thesis by auto
  next
    case True
    let ?mid = "(lo + hi) div 2"
    have mid: "?mid < hi" "lo \<le> ?mid" using True by simp_all
    show ?thesis
    proof (cases "xs ! ?mid < x")
      case less: True
      have step: "bisect_left xs x lo hi = bisect_left xs x (?mid + 1) hi"
        using True less by (subst bisect_left.simps) (simp add: Let_def)
      have below: "xs ! i < x" if "i < ?mid + 1" for i
      proof -
        have "xs ! i \<le> xs ! ?mid" using "1.prems"(1,3) mid that by (intro sorted_nth_mono) auto
        with less show ?thesis by (rule le_less_trans [rotated])
      qed
      show ?thesis unfolding step
        by (rule "1.IH"(1) [OF True refl less "1.prems"(1)]) (use mid "1.prems" below in auto)
    next
      case geq: False
      have step: "bisect_left xs x lo hi = bisect_left xs x lo ?mid"
        using True geq by (subst bisect_left.simps) (simp add: Let_def)
      have above: "x \<le> xs ! i" if "?mid \<le> i" "i < length xs" for i
      proof -
        have "xs ! ?mid \<le> xs ! i" using "1.prems"(1) that by (intro sorted_nth_mono) auto
        with geq show ?thesis by simp
      qed
      show ?thesis unfolding step
        by (rule "1.IH"(2) [OF True refl geq "1.prems"(1)]) (use mid "1.prems" above in auto)
    qed
  qed
qed

lemma rank_of_iff:
  assumes "sorted u" and "distinct u"
  shows "rank_of u p = Some i \<longleftrightarrow> i < length u \<and> u ! i = p"
proof -
  let ?b = "bisect_left u p 0 (length u)"
  have b: "?b \<le> length u" "\<forall>i < ?b. u ! i < p" "\<forall>i. ?b \<le> i \<and> i < length u \<longrightarrow> p \<le> u ! i"
    using bisect_left_spec [OF assms(1), of 0 "length u" p] by simp_all
  show ?thesis
  proof
    assume i: "i < length u \<and> u ! i = p"
    then have "\<not> i < ?b" using b(2) by auto
    then have "?b \<le> i" by simp
    then have "p \<le> u ! ?b" "u ! ?b \<le> u ! i" using b(3) i assms(1) by (auto intro: sorted_nth_mono)
    with i \<open>?b \<le> i\<close> have "u ! ?b = u ! i" "?b < length u" by auto
    then have "?b = i" using nth_eq_iff_index_eq [OF assms(2), of ?b i] i by blast
    with i show "rank_of u p = Some i" by (simp add: rank_of_def Let_def)
  qed (auto simp: rank_of_def Let_def split: if_splits)
qed

lemma rank_of_None: "sorted u \<Longrightarrow> distinct u \<Longrightarrow> rank_of u p = None \<longleftrightarrow> p \<notin> set u"
proof -
  assume u: "sorted u" "distinct u"
  have "rank_of u p \<noteq> None \<longleftrightarrow> (\<exists>i. rank_of u p = Some i)" by auto
  also have "\<dots> \<longleftrightarrow> p \<in> set u" unfolding rank_of_iff [OF u] by (auto simp: in_set_conv_nth)
  finally show ?thesis by blast
qed

definition universe_ok :: "string list \<Rightarrow> bool" where
  "universe_ok u \<longleftrightarrow> u \<noteq> [] \<and> sorted u \<and> distinct u \<and> (\<forall>p \<in> set u. even (length p) \<and> p \<noteq> [] \<and> hex_string p)"

lemma check_point_iff: "check_point p = Inr () \<longleftrightarrow> even (length p) \<and> p \<noteq> [] \<and> hex_string p"
  by (auto simp: check_point_def even_iff_mod_2_eq_zero)

lemma traverse_units: "traverse f xs = Inr us \<Longrightarrow> x \<in> set xs \<Longrightarrow> f x = Inr ()"
  by (auto simp: traverse_eq_Inr list_all2_conv_all_nth in_set_conv_nth)

lemma traverse_units_ok: "(\<And>x. x \<in> set xs \<Longrightarrow> f x = Inr ()) \<Longrightarrow> \<exists>us. traverse f xs = Inr us"
  using traverse_Inr [of xs f "\<lambda>_. ()"] by blast

lemma traverse_units_iff: "(\<exists>us. traverse f xs = Inr us) \<longleftrightarrow> (\<forall>x \<in> set xs. f x = Inr ())"
proof
  assume "\<exists>us. traverse f xs = Inr us"
  then obtain us where "traverse f xs = Inr us" by blast
  from traverse_units [OF this] show "\<forall>x \<in> set xs. f x = Inr ()" by simp
qed (rule traverse_units_ok, simp)

lemma make_universe_iff: "make_universe points = Inr u \<longleftrightarrow> points = u \<and> universe_ok u"
proof
  assume run: "make_universe points = Inr u"
  then obtain us where p: "points \<noteq> []" "points = sort (remdups points)" "traverse check_point points = Inr us" "points = u"
    by (simp only: make_universe_def res_simps not_not sum.inject) (elim exE conjE, rule that)
  have sd: "sorted points" "distinct points" by (subst p(2), simp)+
  have each: "\<forall>x \<in> set points. even (length x) \<and> x \<noteq> [] \<and> hex_string x"
    using traverse_units [OF p(3)] check_point_iff by blast
  show "points = u \<and> universe_ok u"
    using p(1,4) sd each unfolding universe_ok_def by blast
next
  assume u: "points = u \<and> universe_ok u"
  then have "\<exists>us. traverse check_point u = Inr us"
    by (intro traverse_units_ok) (simp add: check_point_iff universe_ok_def)
  moreover have "sort (remdups u) = u" using u by (simp add: universe_ok_def distinct_remdups_id sorted_sort_id)
  ultimately show "make_universe points = Inr u"
    using u by (auto simp: make_universe_def universe_ok_def)
qed

section \<open>Opaque snapshots\<close>

definition SNAPSHOT_VERSION :: string where "SNAPSHOT_VERSION = ''fedkg-opaque-index-v1''"

definition FORBIDDEN_FIELDS :: "string list" where
  "FORBIDDEN_FIELDS = [''party_id'', ''display_entities'', ''display_relations'', ''alignment_index'',
     ''setup_key'', ''hmac_key'']"

type_synonym adjacency_map = "(string \<times> (string \<times> string list) list) list"
type_synonym member_map = "(string \<times> string list) list"

record opaque_snapshot =
  partition_id :: string
  adjacency :: adjacency_map
  reverse_adjacency :: adjacency_map
  type_index :: member_map
  frontier_index :: member_map
  entity_points :: "string list"
  relation_points :: "string list"
  relation_bucket_index :: "member_map option"
  entity_bucket_index :: "member_map option"
  semantic_bucket_mode :: "string option"
  snapshot_version :: string

definition is_hex_identifier :: "string \<Rightarrow> bool" where
  "is_hex_identifier s \<longleftrightarrow> 16 \<le> length s \<and> length s mod 2 = 0 \<and> hex_string s"

fun has_forbidden :: "jval \<Rightarrow> bool" where
  "has_forbidden (JDict d) =
     (list_ex (\<lambda>k. k \<in> set FORBIDDEN_FIELDS) (map fst d) \<or> list_ex (\<lambda>(k, v). has_forbidden v) d)"
| "has_forbidden (JList xs) = list_ex has_forbidden xs"
| "has_forbidden _ = False"

definition reject_forbidden_fields :: "jval \<Rightarrow> unit res" where
  "reject_forbidden_fields v =
     (if has_forbidden v then Inl (ValueError ''plaintext-sensitive snapshot fields are forbidden'') else Inr ())"

definition check_points :: "string list \<Rightarrow> unit res" where
  "check_points points =
     (if points \<noteq> sort (remdups points) \<or> \<not> list_all is_hex_identifier points
      then Inl (ValueError ''must contain sorted unique opaque identifiers'') else Inr ())"

definition check_adjacency :: "string list \<Rightarrow> string list \<Rightarrow> adjacency_map \<Rightarrow> unit res" where
  "check_adjacency ents rs adj =
     foldM (\<lambda>(entity, rels) _.
       if entity \<notin> set ents then Inl (ValueError ''adjacency references an unknown entity'')
       else foldM (\<lambda>(relation, targets) _.
         if relation \<notin> set rs then Inl (ValueError ''adjacency references an unknown relation'')
         else if \<not> list_all (\<lambda>t. t \<in> set ents) targets
         then Inl (ValueError ''adjacency references an unknown target entity'') else Inr ()) rels ()) adj ()"

definition check_members :: "string \<Rightarrow> string list \<Rightarrow> member_map \<Rightarrow> unit res" where
  "check_members msg ents index =
     foldM (\<lambda>(_, members) _. if \<not> list_all (\<lambda>m. m \<in> set ents) members then Inl (ValueError msg) else Inr ()) index ()"

definition validate_bucket_index :: "member_map \<Rightarrow> string list \<Rightarrow> unit res" where
  "validate_bucket_index index allowed =
     foldM (\<lambda>(token, candidates) _.
       if \<not> is_hex_identifier token then Inl (ValueError ''contains an invalid opaque bucket token'')
       else if candidates \<noteq> sort (remdups candidates) then Inl (ValueError ''candidate lists must be sorted and unique'')
       else if \<not> list_all (\<lambda>m. m \<in> set allowed) candidates then Inl (ValueError ''references an unknown candidate'')
       else Inr ()) index ()"

definition validate_snapshot :: "opaque_snapshot \<Rightarrow> unit res" where
  "validate_snapshot s =
     (if snapshot_version s \<noteq> SNAPSHOT_VERSION then Inl (ValueError ''unsupported snapshot version'')
      else if \<not> is_hex_identifier (partition_id s) then Inl (ValueError ''partition_id must be an opaque hexadecimal identifier'')
      else
        bindr (check_points (entity_points s)) (\<lambda>_. bindr (check_points (relation_points s)) (\<lambda>_.
        bindr (check_adjacency (entity_points s) (relation_points s) (adjacency s)) (\<lambda>_.
        bindr (check_adjacency (entity_points s) (relation_points s) (reverse_adjacency s)) (\<lambda>_.
        bindr (check_members ''type index references an unknown entity'' (entity_points s) (type_index s)) (\<lambda>_.
        bindr (check_members ''frontier index references an unknown entity'' (entity_points s) (frontier_index s)) (\<lambda>_.
        case semantic_bucket_mode s of
          None \<Rightarrow> if relation_bucket_index s \<noteq> None \<or> entity_bucket_index s \<noteq> None
            then Inl (ValueError ''semantic bucket indexes require semantic_bucket_mode'') else Inr ()
        | Some m \<Rightarrow>
            if m \<notin> {''alias'', ''lsh'', ''hybrid''} then Inl (ValueError ''unsupported semantic bucket mode'')
            else (case (relation_bucket_index s, entity_bucket_index s) of
              (Some rb, Some eb) \<Rightarrow>
                bindr (validate_bucket_index rb (relation_points s)) (\<lambda>_. validate_bucket_index eb (entity_points s))
            | _ \<Rightarrow> Inl (ValueError ''semantic bucket mode requires both semantic bucket indexes'')))))))))"

definition members_json :: "member_map \<Rightarrow> jval" where
  "members_json m = JDict (map (\<lambda>(k, xs). (k, JList (map JStr xs))) m)"

definition adjacency_json :: "adjacency_map \<Rightarrow> jval" where
  "adjacency_json m = JDict (map (\<lambda>(k, inner). (k, members_json inner)) m)"

definition optional_json :: "('a \<Rightarrow> jval) \<Rightarrow> 'a option \<Rightarrow> jval" where
  "optional_json f x = (case x of None \<Rightarrow> JNull | Some y \<Rightarrow> f y)"

definition snapshot_payload :: "opaque_snapshot \<Rightarrow> jval" where
  "snapshot_payload s = JDict
     ([(''version'', JStr (snapshot_version s)), (''partition_id'', JStr (partition_id s)),
       (''adjacency'', adjacency_json (adjacency s)), (''reverse_adjacency'', adjacency_json (reverse_adjacency s)),
       (''type_index'', members_json (type_index s)), (''frontier_index'', members_json (frontier_index s)),
       (''entity_points'', JList (map JStr (entity_points s))), (''relation_points'', JList (map JStr (relation_points s)))] @
      (if semantic_bucket_mode s = None then []
       else [(''relation_bucket_index'', optional_json members_json (relation_bucket_index s)),
             (''entity_bucket_index'', optional_json members_json (entity_bucket_index s)),
             (''semantic_bucket_mode'', optional_json JStr (semantic_bucket_mode s))]))"

definition snapshot_dict :: "opaque_snapshot \<Rightarrow> jval res" where
  "snapshot_dict s = bindr (reject_forbidden_fields (snapshot_payload s)) (\<lambda>_. Inr (snapshot_payload s))"

definition snapshot_digest :: "(jval \<Rightarrow> string) \<Rightarrow> opaque_snapshot \<Rightarrow> string res" where
  "snapshot_digest H s =
     bindr (validate_snapshot s) (\<lambda>_. bindr (snapshot_dict s) (\<lambda>d. Inr (H (canonical_json d))))"

section \<open>The replicated index\<close>

definition all_points :: "(opaque_snapshot \<Rightarrow> string list) \<Rightarrow> opaque_snapshot list \<Rightarrow> string list" where
  "all_points f snapshots = sort (remdups (concat (map f snapshots)))"

definition optional_keys :: "member_map option \<Rightarrow> string list" where
  "optional_keys m = (case m of None \<Rightarrow> [] | Some d \<Rightarrow> map fst d)"

definition index_entity_points :: "opaque_snapshot list \<Rightarrow> string list" where
  "index_entity_points = all_points entity_points"
definition index_relation_points :: "opaque_snapshot list \<Rightarrow> string list" where
  "index_relation_points = all_points relation_points"
definition index_frontier_points :: "opaque_snapshot list \<Rightarrow> string list" where
  "index_frontier_points = all_points (\<lambda>s. map fst (frontier_index s))"
definition index_relation_bucket_points :: "opaque_snapshot list \<Rightarrow> string list" where
  "index_relation_bucket_points = all_points (\<lambda>s. optional_keys (relation_bucket_index s))"
definition index_entity_bucket_points :: "opaque_snapshot list \<Rightarrow> string list" where
  "index_entity_bucket_points = all_points (\<lambda>s. optional_keys (entity_bucket_index s))"

definition index_type_points :: "opaque_snapshot list \<Rightarrow> string list" where
  "index_type_points = all_points (\<lambda>s. map fst (type_index s))"

definition points_for :: "opaque_snapshot list \<Rightarrow> string \<Rightarrow> string list res" where
  "points_for index domain =
     (if domain = ''entity'' then Inr (index_entity_points index)
      else if domain = ''relation'' then Inr (index_relation_points index)
      else if domain = ''type'' then Inr (index_type_points index)
      else if domain = ''frontier'' then Inr (index_frontier_points index)
      else if domain = ''relation_bucket'' then Inr (index_relation_bucket_points index)
      else if domain = ''entity_bucket'' then Inr (index_entity_bucket_points index)
      else Inl (RequestValidationError ''unsupported evaluation domain''))"

definition EVALUATION_DOMAINS :: "string list" where
  "EVALUATION_DOMAINS = [''entity'', ''relation'', ''type'', ''frontier'', ''relation_bucket'', ''entity_bucket'']"

section \<open>Stores\<close>

definition validate_topology :: "string list \<Rightarrow> int option \<Rightarrow> int res" where
  "validate_topology ids t =
     (if \<not> (MIN_PARTIES \<le> int (length ids) \<and> int (length ids) \<le> MAX_PARTIES)
      then Inl (StoreError ''multi-party replication requires between'')
      else if \<not> distinct ids \<or> \<not> list_all (\<lambda>x. x \<noteq> []) ids
      then Inl (StoreError ''evaluator IDs must be unique non-empty strings'')
      else
        let resolved = (case t of None \<Rightarrow> honest_majority_threshold (int (length ids)) | Some t \<Rightarrow> t) in
        if \<not> (1 \<le> resolved \<and> resolved \<le> int (length ids) - 1) then Inl (StoreError ''threshold must satisfy 1 <= t <= N-1'')
        else Inr resolved)"

record evaluator_store =
  evaluator_id :: string
  store_party_index :: nat
  store_party_count :: nat
  store_threshold :: nat
  evaluator_ids :: "string list"
  store_index :: "opaque_snapshot list"

fun nonempty_str :: "jval \<Rightarrow> string option" where
  "nonempty_str (JStr s) = (if s = [] then None else Some s)"
| "nonempty_str _ = None"

definition store_universe :: "evaluator_store \<Rightarrow> string \<Rightarrow> string list res" where
  "store_universe st domain =
     (if domain \<notin> set EVALUATION_DOMAINS then Inl (RequestValidationError ''unsupported evaluation domain'')
      else bindr (points_for (store_index st) domain) universe_from_points)"

lemma validate_topology_Inr:
  assumes "validate_topology ids t = Inr r"
  shows "3 \<le> length ids" and "length ids \<le> 10" and "distinct ids" and "\<And>x. x \<in> set ids \<Longrightarrow> x \<noteq> []"
    and "1 \<le> r" and "r < int (length ids)"
  using assms by (auto simp: validate_topology_def Let_def fss_bounds list_all_iff split: if_splits)

definition store_of :: "string list \<Rightarrow> int \<Rightarrow> opaque_snapshot list \<Rightarrow> nat \<Rightarrow> evaluator_store" where
  "store_of ids r index i = \<lparr>evaluator_id = ids ! i, store_party_index = i, store_party_count = length ids,
     store_threshold = nat r, evaluator_ids = ids, store_index = index\<rparr>"

definition sample_snapshot :: opaque_snapshot where
  "sample_snapshot = \<lparr>partition_id = ''00000000000000aa'', adjacency = [], reverse_adjacency = [],
     type_index = [(''0000000000000007'', [''0000000000000001'', ''0000000000000002''])], frontier_index = [],
     entity_points = [''0000000000000001'', ''0000000000000002''], relation_points = [],
     relation_bucket_index = None, entity_bucket_index = None, semantic_bucket_mode = None,
     snapshot_version = SNAPSHOT_VERSION\<rparr>"

lemma sample_snapshot_valid: "validate_snapshot sample_snapshot = Inr ()"
  by (simp add: validate_snapshot_def sample_snapshot_def check_points_def check_adjacency_def check_members_def
    is_hex_identifier_def hex_string_def)

lemma sample_snapshot_dict: "snapshot_dict sample_snapshot = Inr (snapshot_payload sample_snapshot)"
  by (simp add: snapshot_dict_def reject_forbidden_fields_def snapshot_payload_def sample_snapshot_def FORBIDDEN_FIELDS_def
    adjacency_json_def members_json_def)

definition sample_ids :: "string list" where
  "sample_ids = [''e0'', ''e1'', ''e2'']"

lemma sample_topology: "validate_topology sample_ids None = Inr 1"
  by (simp add: validate_topology_def sample_ids_def fss_bounds honest_majority_threshold_def)

section \<open>The digest of a universe\<close>

definition universe_message :: "string list \<Rightarrow> byte list" where
  "universe_message points = ascii_bytes ''fedkg-fss-universe-v1'' @ [0] @ concat (map bytes_fromhex points)"

lemma hex_value_less: "c \<in> set ''0123456789abcdef'' \<Longrightarrow> hex_value c < 16 \<and> ''0123456789abcdef'' ! hex_value c = c"
proof -
  assume c: "c \<in> set ''0123456789abcdef''"
  then obtain n where n: "index_from 0 ''0123456789abcdef'' c = Some n"
    using index_from_None [of 0 "''0123456789abcdef''" c] by (metis not_None_eq)
  from index_from_Some [OF n] have "n < 16" "''0123456789abcdef'' ! n = c" by auto
  with n show ?thesis by (simp add: hex_value_def)
qed

lemma length_bytes_fromhex: "length (bytes_fromhex s) = length s div 2"
  by (induction s rule: bytes_fromhex.induct) auto

lemma bytes_fromhex_empty: "[] = bytes_fromhex s \<longleftrightarrow> length s < 2"
  by (cases s rule: bytes_fromhex.cases) auto

lemma bytes_fromhex_inj:
  assumes "bytes_fromhex s = bytes_fromhex t" and "even (length s)" "even (length t)" and "hex_string s" "hex_string t"
  shows "s = t"
  using assms
proof (induction s arbitrary: t rule: bytes_fromhex.induct)
  case (1 a b s)
  obtain c d u where t: "t = c # d # u" using "1.prems"(1) by (cases t rule: bytes_fromhex.cases) auto
  let ?h = hex_value
  from "1.prems" t have hex: "a \<in> set ''0123456789abcdef''" "b \<in> set ''0123456789abcdef''"
    "c \<in> set ''0123456789abcdef''" "d \<in> set ''0123456789abcdef''"
    unfolding hex_string_def by simp_all
  have lt: "?h a < 16" "?h b < 16" "?h c < 16" "?h d < 16" using hex hex_value_less by blast+
  have "(word_of_nat (?h a * 16 + ?h b) :: byte) = word_of_nat (?h c * 16 + ?h d)" using "1.prems"(1) t by simp
  then have "(?h a * 16 + ?h b) mod 256 = (?h c * 16 + ?h d) mod 256"
    by (simp only: word_of_nat_eq_iff take_bit_eq_mod) simp
  moreover have "?h a * 16 + ?h b < 256" "?h c * 16 + ?h d < 256" using lt by linarith+
  ultimately have "?h a * 16 + ?h b = ?h c * 16 + ?h d" by simp
  from row_index_inj [OF this lt(2,4)] have "?h a = ?h c" "?h b = ?h d" by blast+
  then have "a = c" "b = d" using hex hex_value_less by metis+
  moreover have "s = u" by (rule "1.IH") (use "1.prems" t in \<open>auto simp: hex_string_def\<close>)
  ultimately show ?case using t by simp
qed (auto simp: bytes_fromhex_empty less_2_cases_iff)

text \<open>
  C40: What the universe digest binds: the hashed bytes determine a universe whose identifiers have
  one width, and not one of mixed widths, since the identifiers are joined without lengths: two
  different valid universes of snapshot identifiers have the same digest under every hash.
\<close>

theorem universe_digest_binding:
  assumes "universe_ok u" and "universe_ok v" and "\<And>p. p \<in> set u \<union> set v \<Longrightarrow> length p = width"
  shows "(universe_message u = universe_message v \<longleftrightarrow> u = v) \<and>
    (\<exists>u' v'. universe_ok u' \<and> universe_ok v' \<and> list_all is_hex_identifier (u' @ v') \<and> u' \<noteq> v' \<and>
      (\<forall>sha256. universe_digest sha256 u' = universe_digest sha256 v'))"
proof (rule conjI)
  show "universe_message u = universe_message v \<longleftrightarrow> u = v"
  proof
    assume "universe_message u = universe_message v"
    then have eq: "concat (map bytes_fromhex u) = concat (map bytes_fromhex v)" by (simp add: universe_message_def)
    have len: "length b = width div 2" if "b \<in> set (map bytes_fromhex u) \<union> set (map bytes_fromhex v)" for b
      using that assms(3) by (auto simp: length_bytes_fromhex)
    have "hd u \<in> set u" using assms(1) by (simp add: universe_ok_def)
    with assms(1) obtain p where p: "p \<in> set u" "even (length p)" "p \<noteq> []" unfolding universe_ok_def by blast
    then have pos: "0 < width div 2" using assms(3) [of p] by (cases p rule: bytes_fromhex.cases) auto
    have "length u * (width div 2) = length v * (width div 2)"
      using length_concat_uniform [of "map bytes_fromhex u" "width div 2"] length_concat_uniform [of "map bytes_fromhex v" "width div 2"]
        len eq by simp
    with pos have same: "length u = length v" by simp
    have "map bytes_fromhex u = map bytes_fromhex v"
    proof (rule concat_injective [OF eq])
      show "length (map bytes_fromhex u) = length (map bytes_fromhex v)" using same by simp
      show "\<forall>(a, b) \<in> set (zip (map bytes_fromhex u) (map bytes_fromhex v)). length a = length b"
      proof (intro ballI case_prodI2)
        fix x a b assume "x \<in> set (zip (map bytes_fromhex u) (map bytes_fromhex v))" "x = (a, b)"
        then have "a \<in> set (map bytes_fromhex u)" "b \<in> set (map bytes_fromhex v)"
          by (blast dest: set_zip_leftD set_zip_rightD)+
        then have "length a = width div 2" "length b = width div 2" using len by blast+
        then show "length a = length b" by simp
      qed
    qed
    then show "u = v"
    proof (rule map_inj_on)
      show "inj_on bytes_fromhex (set u \<union> set v)"
        by (rule inj_onI, rule bytes_fromhex_inj) (use assms(1,2) in \<open>auto simp: universe_ok_def\<close>)
    qed
  qed simp
  let ?u = "[''00000000000000001111111111111111'']" and ?v = "[''0000000000000000'', ''1111111111111111'']"
  have "universe_ok ?u" "universe_ok ?v" "list_all is_hex_identifier (?u @ ?v)" "?u \<noteq> ?v"
    by (simp_all add: universe_ok_def hex_string_def is_hex_identifier_def)
  moreover have "universe_digest sha256 ?u = universe_digest sha256 ?v" for sha256
    unfolding universe_digest_def by simp
  ultimately show "\<exists>u' v'. universe_ok u' \<and> universe_ok v' \<and> list_all is_hex_identifier (u' @ v') \<and> u' \<noteq> v' \<and>
      (\<forall>sha256. universe_digest sha256 u' = universe_digest sha256 v')" by blast
qed

theorem universe_digest_binding_witness:
  "universe_message [''00'', ''11''] \<noteq> universe_message [''00'', ''22''] \<and>
   (\<exists>u' v'. universe_ok u' \<and> universe_ok v' \<and> u' \<noteq> v' \<and> universe_digest (\<lambda>_. ''d'') u' = universe_digest (\<lambda>_. ''d'') v')"
proof -
  have ok: "universe_ok [''00'', ''11'']" "universe_ok [''00'', ''22'']"
    by (simp_all add: universe_ok_def hex_string_def)
  have width: "length p = 2" if "p \<in> set [''00'', ''11''] \<union> set [''00'', ''22'']" for p
    using that by auto
  note facts = universe_digest_binding [OF ok width, simplified]
  from facts show ?thesis by blast
qed

end
