(* ===== verification/Fss_Snapshot.thy ===== *)
theory Fss_Snapshot
  imports Fss_Index
begin

text \<open>
  Reading an opaque snapshot (\<open>OpaqueIndexSnapshot.from_json\<close> of
  \<open>src/party/opaque_index_snapshot.py\<close>).  The document is the value of the JSON text; the
  checks of \<open>validate\<close> are made on the parts of the document in the order of the code, with the
  error each ill-typed part gives there, and the typed snapshot is built from the parts that
  pass.  \<open>validate\<close> asks a target or member list only for its elements, so it also lets an empty
  string or an object of entity identifiers stand for a list; such a document, which
  \<open>write\<close> never makes, has no typed snapshot and is refused here.
\<close>

section \<open>The parts of a document\<close>

fun string_value :: "jval \<Rightarrow> string option" where
  "string_value (JStr s) = Some s"
| "string_value _ = None"

fun is_number :: "jval \<Rightarrow> bool" where
  "is_number (JInt _) = True"
| "is_number (JBool _) = True"
| "is_number (JFloat _) = True"
| "is_number _ = False"

fun number_value :: "jval \<Rightarrow> rat" where
  "number_value (JInt i) = of_int i"
| "number_value (JBool b) = (if b then 1 else 0)"
| "number_value (JFloat x) = x"
| "number_value _ = 0"

text \<open>
  \<open>values != sorted(set(values))\<close> for an array: sorting fails on values of different types, and an
  array of strings or of numbers passes when it increases.
\<close>

definition sorted_unique :: "jval list \<Rightarrow> bool res" where
  "sorted_unique xs =
     (if \<not> list_all hashable xs then Inl (TypeError ''unhashable'')
      else if list_all (\<lambda>x. string_value x \<noteq> None) xs
      then Inr (let ss = map (\<lambda>x. the (string_value x)) xs in ss = sort (remdups ss))
      else if list_all is_number xs then Inr (sorted_wrt (<) (map number_value xs))
      else if length (remdups xs) \<le> 1 then Inr (length xs \<le> 1)
      else Inl (TypeError ''not comparable''))"

definition read_points :: "jval \<Rightarrow> string list res" where
  "read_points v =
     (let bad = Inl (ValueError ''must contain sorted unique opaque identifiers'') in
      case v of
        JList xs \<Rightarrow> bindr (sorted_unique xs) (\<lambda>ok.
          if \<not> ok \<or> \<not> list_all (\<lambda>x. case string_value x of None \<Rightarrow> False | Some s \<Rightarrow> is_hex_identifier s) xs then bad
          else Inr (map (\<lambda>x. the (string_value x)) xs))
      | JStr _ \<Rightarrow> bad
      | JDict _ \<Rightarrow> bad
      | _ \<Rightarrow> Inl (TypeError ''not iterable''))"

definition read_member :: "string \<Rightarrow> string list \<Rightarrow> jval \<Rightarrow> string res" where
  "read_member msg ents x =
     (case x of
        JStr s \<Rightarrow> if s \<in> set ents then Inr s else Inl (ValueError msg)
      | _ \<Rightarrow> if hashable x then Inl (ValueError msg) else Inl (TypeError ''unhashable''))"

definition read_members :: "string \<Rightarrow> string list \<Rightarrow> jval \<Rightarrow> string list res" where
  "read_members msg ents v =
     (case v of
        JList xs \<Rightarrow> traverse (read_member msg ents) xs
      | JStr s \<Rightarrow> if s \<noteq> [] then Inl (ValueError msg) else Inl (TypeError ''not an array'')
      | JDict d \<Rightarrow> if \<not> list_all (\<lambda>k. k \<in> set ents) (map fst d) then Inl (ValueError msg) else Inl (TypeError ''not an array'')
      | _ \<Rightarrow> Inl (TypeError ''not iterable''))"

definition read_relations :: "string list \<Rightarrow> string list \<Rightarrow> (string \<times> jval) list \<Rightarrow> member_map res" where
  "read_relations ents rs rels =
     traverse (\<lambda>(relation, targets).
       if relation \<notin> set rs then Inl (ValueError ''adjacency references an unknown relation'')
       else bindr (read_members ''adjacency references an unknown target entity'' ents targets)
         (\<lambda>ts. Inr (relation, ts))) rels"

definition read_adjacency :: "string list \<Rightarrow> string list \<Rightarrow> jval \<Rightarrow> adjacency_map res" where
  "read_adjacency ents rs v =
     (case v of
        JDict d \<Rightarrow> traverse (\<lambda>(entity, relations).
          case (entity \<in> set ents, relations) of
            (True, JDict rels) \<Rightarrow> bindr (read_relations ents rs rels) (\<lambda>m. Inr (entity, m))
          | _ \<Rightarrow> Inl (ValueError ''adjacency references an unknown entity'')) d
      | _ \<Rightarrow> Inl AttributeError)"

definition read_index :: "string \<Rightarrow> string list \<Rightarrow> jval \<Rightarrow> member_map res" where
  "read_index msg ents v =
     (case v of
        JDict d \<Rightarrow> traverse (\<lambda>(key, members). bindr (read_members msg ents members) (\<lambda>ms. Inr (key, ms))) d
      | _ \<Rightarrow> Inl AttributeError)"

definition read_candidates :: "string list \<Rightarrow> jval \<Rightarrow> string list res" where
  "read_candidates allowed v =
     (let unsorted = Inl (ValueError ''candidate lists must be sorted and unique'') in
      case v of
        JList xs \<Rightarrow> bindr (sorted_unique xs) (\<lambda>ok.
          if \<not> ok then unsorted else traverse (read_member ''references an unknown candidate'' allowed) xs)
      | JStr _ \<Rightarrow> unsorted
      | JDict _ \<Rightarrow> unsorted
      | _ \<Rightarrow> Inl (TypeError ''not iterable''))"

definition read_buckets :: "string list \<Rightarrow> jval \<Rightarrow> member_map res" where
  "read_buckets allowed v =
     (case v of
        JDict d \<Rightarrow> traverse (\<lambda>(token, candidates).
          if \<not> is_hex_identifier token then Inl (ValueError ''contains an invalid opaque bucket token'')
          else bindr (read_candidates allowed candidates) (\<lambda>cs. Inr (token, cs))) d
      | _ \<Rightarrow> Inl AttributeError)"

definition read_semantic :: "string list \<Rightarrow> string list \<Rightarrow> (string \<times> jval) list \<Rightarrow>
    (member_map option \<times> member_map option \<times> string option) res" where
  "read_semantic ents rs d =
     (let rb = jget d ''relation_bucket_index''; eb = jget d ''entity_bucket_index'' in
      case jget d ''semantic_bucket_mode'' of
        JNull \<Rightarrow> if rb \<noteq> JNull \<or> eb \<noteq> JNull
          then Inl (ValueError ''semantic bucket indexes require semantic_bucket_mode'') else Inr (None, None, None)
      | JStr m \<Rightarrow>
          if m \<notin> {''alias'', ''lsh'', ''hybrid''} then Inl (ValueError ''unsupported semantic bucket mode'')
          else if rb = JNull \<or> eb = JNull
          then Inl (ValueError ''semantic bucket mode requires both semantic bucket indexes'')
          else bindr (read_buckets rs rb) (\<lambda>rb. bindr (read_buckets ents eb) (\<lambda>eb. Inr (Some rb, Some eb, Some m)))
      | _ \<Rightarrow> Inl (ValueError ''unsupported semantic bucket mode''))"

definition REQUIRED_FIELDS :: "string list" where
  "REQUIRED_FIELDS = [''version'', ''partition_id'', ''adjacency'', ''reverse_adjacency'', ''type_index'',
     ''frontier_index'', ''entity_points'', ''relation_points'']"

definition OPTIONAL_FIELDS :: "string list" where
  "OPTIONAL_FIELDS = [''relation_bucket_index'', ''entity_bucket_index'', ''semantic_bucket_mode'']"

definition snapshot_from_json :: "jval \<Rightarrow> opaque_snapshot res" where
  "snapshot_from_json doc =
     (case doc of
        JDict d \<Rightarrow>
          bindr (reject_forbidden_fields doc) (\<lambda>_.
          if \<not> set REQUIRED_FIELDS \<subseteq> set (map fst d) \<or> \<not> set (map fst d) \<subseteq> set (REQUIRED_FIELDS @ OPTIONAL_FIELDS)
          then Inl (ValueError ''unexpected snapshot fields'')
          else if \<not> eq_str (jget d ''version'') SNAPSHOT_VERSION then Inl (ValueError ''unsupported snapshot version'')
          else case string_value (jget d ''partition_id'') of
            None \<Rightarrow> Inl (ValueError ''partition_id must be an opaque hexadecimal identifier'')
          | Some part \<Rightarrow>
              if \<not> is_hex_identifier part then Inl (ValueError ''partition_id must be an opaque hexadecimal identifier'')
              else
                bindr (read_points (jget d ''entity_points'')) (\<lambda>ents.
                bindr (read_points (jget d ''relation_points'')) (\<lambda>rs.
                bindr (read_adjacency ents rs (jget d ''adjacency'')) (\<lambda>adj.
                bindr (read_adjacency ents rs (jget d ''reverse_adjacency'')) (\<lambda>rev.
                bindr (read_index ''type index references an unknown entity'' ents (jget d ''type_index'')) (\<lambda>types.
                bindr (read_index ''frontier index references an unknown entity'' ents (jget d ''frontier_index'')) (\<lambda>front.
                bindr (read_semantic ents rs d) (\<lambda>(rb, eb, mode).
                Inr \<lparr>partition_id = part, adjacency = adj, reverse_adjacency = rev, type_index = types,
                  frontier_index = front, entity_points = ents, relation_points = rs, relation_bucket_index = rb,
                  entity_bucket_index = eb, semantic_bucket_mode = mode, snapshot_version = SNAPSHOT_VERSION\<rparr>))))))))
      | _ \<Rightarrow> Inl (ValueError ''opaque index snapshot must be a JSON object''))"

section \<open>The checks do not depend on the order of the keys\<close>

lemma foldM_unit_iff: "foldM f xs () = Inr () \<longleftrightarrow> (\<forall>x \<in> set xs. f x () = Inr ())"
proof (induction xs)
  case (Cons x xs)
  have "foldM f (x # xs) () = Inr () \<longleftrightarrow> f x () = Inr () \<and> foldM f xs () = Inr ()"
    by (cases "f x ()") auto
  with Cons.IH show ?case by auto
qed simp

lemma check_members_iff:
  "check_members msg ents m = Inr () \<longleftrightarrow> (\<forall>(k, xs) \<in> set m. set xs \<subseteq> set ents)"
  unfolding check_members_def foldM_unit_iff
  by (rule ball_cong) (auto simp: list_all_iff subset_iff case_prod_unfold)

lemma check_adjacency_iff:
  "check_adjacency ents rs m = Inr () \<longleftrightarrow>
    (\<forall>(e, rels) \<in> set m. e \<in> set ents \<and> (\<forall>(r, xs) \<in> set rels. r \<in> set rs \<and> set xs \<subseteq> set ents))"
proof -
  have inner: "foldM (\<lambda>(relation, targets) _.
         if relation \<notin> set rs then Inl (ValueError ''adjacency references an unknown relation'')
         else if \<not> list_all (\<lambda>t. t \<in> set ents) targets
         then Inl (ValueError ''adjacency references an unknown target entity'') else Inr ()) rels () = Inr () \<longleftrightarrow>
       (\<forall>(r, xs) \<in> set rels. r \<in> set rs \<and> set xs \<subseteq> set ents)" for rels
    unfolding foldM_unit_iff
    by (rule ball_cong) (auto simp: list_all_iff subset_iff case_prod_unfold)
  show ?thesis
    unfolding check_adjacency_def foldM_unit_iff
    by (rule ball_cong) (simp_all add: case_prod_unfold inner [unfolded case_prod_unfold])
qed

lemma validate_bucket_index_iff:
  "validate_bucket_index m allowed = Inr () \<longleftrightarrow>
    (\<forall>(k, xs) \<in> set m. is_hex_identifier k \<and> xs = sort (remdups xs) \<and> set xs \<subseteq> set allowed)"
  unfolding validate_bucket_index_def foldM_unit_iff
  by (rule ball_cong) (auto simp: list_all_iff subset_iff case_prod_unfold)

lemma check_points_ok: "check_points ps = Inr () \<longleftrightarrow> ps = sort (remdups ps) \<and> list_all is_hex_identifier ps"
  by (simp add: check_points_def)

lemma traverse_elements:
  assumes "traverse f xs = Inr ys" and "\<And>x y. x \<in> set xs \<Longrightarrow> f x = Inr y \<Longrightarrow> P y" and "y \<in> set ys"
  shows "P y"
proof -
  from assms(3) obtain i where i: "i < length ys" "y = ys ! i" by (auto simp: in_set_conv_nth)
  with assms(1) have "i < length xs" "f (xs ! i) = Inr y"
    by (auto simp: traverse_eq_Inr list_all2_conv_all_nth)
  with assms(2) show ?thesis by (meson nth_mem)
qed

lemma traverse_same:
  assumes "\<And>x. x \<in> set xs \<Longrightarrow> f (g x) = Inr x"
  shows "traverse f (map g xs) = Inr xs"
  using assms by (auto simp: traverse_eq_Inr list_all2_conv_all_nth)

section \<open>What is read is valid\<close>

lemma sorted_unique_strings: "sorted_unique (map JStr ps) = Inr (ps = sort (remdups ps))"
  by (simp add: sorted_unique_def list_all_iff comp_def)

lemma read_points_strings: "read_points (JList (map JStr ps)) = bindr (check_points ps) (\<lambda>_. Inr ps)"
  by (simp add: read_points_def sorted_unique_strings check_points_def list_all_iff comp_def)

lemma read_points_valid:
  assumes "read_points v = Inr ps"
  shows "check_points ps = Inr ()"
proof -
  from assms obtain xs where v: "v = JList xs" "sorted_unique xs = Inr True"
    "list_all (\<lambda>x. case string_value x of None \<Rightarrow> False | Some s \<Rightarrow> is_hex_identifier s) xs"
    "ps = map (\<lambda>x. the (string_value x)) xs"
    by (cases v) (auto simp: read_points_def Let_def res_simps split: if_splits)
  have "xs = map JStr ps"
  proof -
    have "x = JStr (the (string_value x))" if "x \<in> set xs" for x
      using v(3) that by (cases x) (auto simp: list_all_iff)
    then show ?thesis by (simp add: v(4) map_idI comp_def)
  qed
  with assms v(1) show ?thesis by (cases "check_points ps") (simp_all add: read_points_strings)
qed

lemma read_member_iff: "read_member msg ents x = Inr s \<longleftrightarrow> x = JStr s \<and> s \<in> set ents"
  by (cases x) (auto simp: read_member_def)

lemma read_members_strings:
  "set xs \<subseteq> set ents \<Longrightarrow> read_members msg ents (JList (map JStr xs)) = Inr xs"
  by (auto simp: read_members_def read_member_iff intro!: traverse_same)

lemma read_members_sub:
  assumes "read_members msg ents v = Inr xs"
  shows "set xs \<subseteq> set ents"
proof
  fix y assume "y \<in> set xs"
  from assms obtain vs where "traverse (read_member msg ents) vs = Inr xs"
    by (cases v) (auto simp: read_members_def split: if_splits)
  from traverse_elements [OF this _ \<open>y \<in> set xs\<close>, of "\<lambda>y. y \<in> set ents"]
  show "y \<in> set ents" by (simp add: read_member_iff)
qed

lemma read_index_valid:
  assumes "read_index msg ents v = Inr m"
  shows "check_members msg' ents m = Inr ()"
proof -
  from assms obtain d where d: "traverse (\<lambda>(key, members). bindr (read_members msg ents members) (\<lambda>ms. Inr (key, ms))) d = Inr m"
    by (cases v) (auto simp: read_index_def)
  show ?thesis
    unfolding check_members_iff
    by (rule ballI, rule traverse_elements [OF d]) (auto simp: res_simps dest!: read_members_sub)
qed

lemma read_adjacency_valid:
  assumes "read_adjacency ents rs v = Inr m"
  shows "check_adjacency ents rs m = Inr ()"
proof -
  have rel: "case x of (r, xs) \<Rightarrow> r \<in> set rs \<and> set xs \<subseteq> set ents" if run: "read_relations ents rs d = Inr m" and "x \<in> set m" for d m x
    by (rule traverse_elements [OF run [unfolded read_relations_def] _ that(2)])
      (auto simp: res_simps dest!: read_members_sub split: if_splits)
  from assms obtain d where d: "traverse (\<lambda>(entity, relations).
          case (entity \<in> set ents, relations) of
            (True, JDict rels) \<Rightarrow> bindr (read_relations ents rs rels) (\<lambda>m. Inr (entity, m))
          | _ \<Rightarrow> Inl (ValueError ''adjacency references an unknown entity'')) d = Inr m"
    by (cases v) (auto simp: read_adjacency_def)
  show ?thesis
    unfolding check_adjacency_iff
    by (rule ballI, rule traverse_elements [OF d])
      (fastforce simp: res_simps dest: rel split: bool.splits jval.splits)+
qed

lemma read_candidates_valid:
  assumes "read_candidates allowed v = Inr cs"
  shows "cs = sort (remdups cs) \<and> set cs \<subseteq> set allowed"
proof -
  from assms obtain xs where xs: "sorted_unique xs = Inr True" "traverse (read_member ''references an unknown candidate'' allowed) xs = Inr cs"
    by (cases v) (auto simp: read_candidates_def Let_def res_simps split: if_splits)
  have "xs = map JStr cs"
    using xs(2) by (auto simp: traverse_eq_Inr list_all2_conv_all_nth read_member_iff intro!: nth_equalityI)
  with xs(1) have "cs = sort (remdups cs)" by (simp add: sorted_unique_strings)
  moreover have "set cs \<subseteq> set allowed"
    using traverse_elements [OF xs(2), of "\<lambda>c. c \<in> set allowed"] by (auto simp: read_member_iff)
  ultimately show ?thesis by blast
qed

lemma read_buckets_valid:
  assumes "read_buckets allowed v = Inr m"
  shows "validate_bucket_index m allowed = Inr ()"
proof -
  from assms obtain d where d: "traverse (\<lambda>(token, candidates).
          if \<not> is_hex_identifier token then Inl (ValueError ''contains an invalid opaque bucket token'')
          else bindr (read_candidates allowed candidates) (\<lambda>cs. Inr (token, cs))) d = Inr m"
    by (cases v) (auto simp: read_buckets_def)
  show ?thesis
    unfolding validate_bucket_index_iff
  proof
    fix y assume y: "y \<in> set m"
    show "case y of (k, xs) \<Rightarrow> is_hex_identifier k \<and> xs = sort (remdups xs) \<and> set xs \<subseteq> set allowed"
    proof (rule traverse_elements [OF d _ y])
      fix x y :: "string \<times> _"
      assume "(case x of (token, candidates) \<Rightarrow>
          if \<not> is_hex_identifier token then Inl (ValueError ''contains an invalid opaque bucket token'')
          else bindr (read_candidates allowed candidates) (\<lambda>cs. Inr (token, cs))) = Inr y"
      then obtain t v cs where "y = (t, cs)" "is_hex_identifier t" "read_candidates allowed v = Inr cs"
        by (auto simp: res_simps case_prod_unfold split: if_splits)
      with read_candidates_valid [OF this(3)] show "case y of (k, xs) \<Rightarrow> is_hex_identifier k \<and> xs = sort (remdups xs) \<and> set xs \<subseteq> set allowed"
        by simp
    qed
  qed
qed

lemma read_semantic_valid:
  assumes "read_semantic ents rs d = Inr (rb, eb, mode)"
  shows "(mode = None \<and> rb = None \<and> eb = None) \<or>
    (\<exists>m r e. mode = Some m \<and> m \<in> {''alias'', ''lsh'', ''hybrid''} \<and> rb = Some r \<and> eb = Some e \<and>
      validate_bucket_index r rs = Inr () \<and> validate_bucket_index e ents = Inr ())"
proof (cases "jget d ''semantic_bucket_mode''")
  case JNull
  with assms show ?thesis by (auto simp: read_semantic_def Let_def split: if_splits)
next
  case (JStr m)
  with assms show ?thesis
    by (auto simp: read_semantic_def Let_def res_simps dest: read_buckets_valid split: if_splits)
qed (use assms in \<open>simp_all add: read_semantic_def Let_def\<close>)

text \<open>Whatever document is read, the snapshot passes \<open>validate\<close>.\<close>

lemma snapshot_from_json_valid:
  assumes "snapshot_from_json doc = Inr s"
  shows "validate_snapshot s = Inr ()"
proof -
  from assms obtain d where doc: "doc = JDict d" by (cases doc) (simp_all add: snapshot_from_json_def)
  from assms obtain part ents rs adj rev types front rb eb mode where
    s: "s = \<lparr>partition_id = part, adjacency = adj, reverse_adjacency = rev, type_index = types,
          frontier_index = front, entity_points = ents, relation_points = rs, relation_bucket_index = rb,
          entity_bucket_index = eb, semantic_bucket_mode = mode, snapshot_version = SNAPSHOT_VERSION\<rparr>"
    and hex: "is_hex_identifier part"
    and run: "read_points (jget d ''entity_points'') = Inr ents" "read_points (jget d ''relation_points'') = Inr rs"
      "read_adjacency ents rs (jget d ''adjacency'') = Inr adj" "read_adjacency ents rs (jget d ''reverse_adjacency'') = Inr rev"
      "read_index ''type index references an unknown entity'' ents (jget d ''type_index'') = Inr types"
      "read_index ''frontier index references an unknown entity'' ents (jget d ''frontier_index'') = Inr front"
      "read_semantic ents rs d = Inr (rb, eb, mode)"
    unfolding doc by (auto simp: snapshot_from_json_def res_simps split: if_splits option.splits)
  note checks = read_points_valid [OF run(1)] read_points_valid [OF run(2)] read_adjacency_valid [OF run(3)]
    read_adjacency_valid [OF run(4)] read_index_valid [OF run(5)] read_index_valid [OF run(6)]
  from read_semantic_valid [OF run(7)] show ?thesis
    by (elim disjE exE conjE) (simp_all add: s validate_snapshot_def hex checks)
qed

section \<open>What is written is read back\<close>

definition canonical_adjacency :: "adjacency_map \<Rightarrow> adjacency_map" where
  "canonical_adjacency m = map (\<lambda>(k, rels). (k, sort_key fst rels)) (sort_key fst m)"

text \<open>The snapshot with the keys of its dictionaries in order, as \<open>json.dumps(sort_keys=True)\<close> leaves them.\<close>

definition canonical_snapshot :: "opaque_snapshot \<Rightarrow> opaque_snapshot" where
  "canonical_snapshot s = s\<lparr>adjacency := canonical_adjacency (adjacency s),
     reverse_adjacency := canonical_adjacency (reverse_adjacency s),
     type_index := sort_key fst (type_index s), frontier_index := sort_key fst (frontier_index s),
     relation_bucket_index := map_option (sort_key fst) (relation_bucket_index s),
     entity_bucket_index := map_option (sort_key fst) (entity_bucket_index s)\<rparr>"

lemma insort_key_map_values:
  "insort_key fst (k, g v) (map (\<lambda>(k, v). (k, g v)) xs) = map (\<lambda>(k, v). (k, g v)) (insort_key fst (k, v) xs)"
  by (induction xs) auto

lemma sort_key_map_values:
  "sort_key fst (map (\<lambda>(k, v). (k, g v)) xs) = map (\<lambda>(k, v). (k, g v)) (sort_key fst xs)"
proof (induction xs)
  case (Cons x xs)
  obtain k v where x: "x = (k, v)" by (cases x)
  show ?case by (simp add: x Cons.IH insort_key_map_values)
qed simp

lemma sort_key_idem [simp]: "sort_key f (sort_key f xs) = sort_key f xs"
  by (simp add: sort_key_id_if_sorted)

lemma canonical_members: "canonical_json (members_json m) = members_json (sort_key fst m)"
  using sort_key_map_values [of "\<lambda>xs. JList (map JStr xs)" m]
  by (simp add: members_json_def comp_def case_prod_unfold)

lemma canonical_adjacency_json: "canonical_json (adjacency_json m) = adjacency_json (canonical_adjacency m)"
proof -
  have "canonical_json (adjacency_json m) = JDict (sort_key fst (map (\<lambda>(k, v). (k, canonical_json (members_json v))) m))"
    by (simp add: adjacency_json_def comp_def case_prod_unfold)
  also have "\<dots> = JDict (map (\<lambda>(k, v). (k, canonical_json (members_json v))) (sort_key fst m))"
    by (simp only: sort_key_map_values)
  also have "\<dots> = adjacency_json (canonical_adjacency m)"
    by (simp add: adjacency_json_def canonical_adjacency_def canonical_members comp_def case_prod_unfold)
  finally show ?thesis .
qed

lemma jget_canonical:
  assumes "distinct (map fst d)"
  shows "jget (sort_key fst (map (\<lambda>(k, v). (k, canonical_json v)) d)) k = canonical_json (jget d k)"
proof -
  have "map fst (map (\<lambda>(k, v). (k, canonical_json v)) d) = map fst d" by (simp add: case_prod_unfold comp_def)
  with assms have "distinct (map fst (map (\<lambda>(k, v). (k, canonical_json v)) d))" by (simp only:)
  from map_of_sort_key [OF this] have "map_of (sort_key fst (map (\<lambda>(k, v). (k, canonical_json v)) d)) k =
      map_of (map (\<lambda>(k, v). (k, canonical_json v)) d) k" by (rule fun_cong)
  also have "\<dots> = map_option canonical_json (map_of d k)" by (induction d) auto
  finally show ?thesis by (simp add: jget_def get_or_def split: option.split)
qed

lemma has_forbidden_canonical: "has_forbidden (canonical_json v) = has_forbidden v"
proof (induction v)
  case (JDict d)
  have "list_ex (\<lambda>(k, v). has_forbidden v) (sort_key fst (map (\<lambda>(k, v). (k, canonical_json v)) d)) =
      list_ex (\<lambda>(k, v). has_forbidden v) d"
  proof -
    have "has_forbidden (canonical_json (snd x)) = has_forbidden (snd x)" if "x \<in> set d" for x
      using JDict [of x "snd x"] that by (cases x) auto
    then show ?thesis by (simp add: list_ex_iff case_prod_unfold)
  qed
  moreover have "set (map fst (sort_key fst (map (\<lambda>(k, v). (k, canonical_json v)) d))) = set (map fst d)"
    by (simp add: image_image case_prod_unfold)
  ultimately show ?case by (simp only: canonical_json.simps has_forbidden.simps list_ex_iff)
qed (auto simp: list_ex_iff)

lemma read_index_back:
  assumes "check_members msg' ents m = Inr ()"
  shows "read_index msg ents (members_json m) = Inr m"
  unfolding read_index_def members_json_def jval.case
  by (rule traverse_same) (use assms in \<open>auto simp: check_members_iff read_members_strings\<close>)

lemma read_adjacency_back:
  assumes "check_adjacency ents rs m = Inr ()"
  shows "read_adjacency ents rs (adjacency_json m) = Inr m"
proof -
  have rels: "read_relations ents rs (map (\<lambda>(k, xs). (k, JList (map JStr xs))) rels) = Inr rels"
    if "\<forall>(r, xs) \<in> set rels. r \<in> set rs \<and> set xs \<subseteq> set ents" for rels
    unfolding read_relations_def by (rule traverse_same) (use that in \<open>auto simp: read_members_strings\<close>)
  show ?thesis
    unfolding read_adjacency_def adjacency_json_def jval.case
    by (rule traverse_same) (use assms in \<open>auto simp: check_adjacency_iff members_json_def rels\<close>)
qed

lemma read_candidates_back:
  "cs = sort (remdups cs) \<Longrightarrow> set cs \<subseteq> set allowed \<Longrightarrow> read_candidates allowed (JList (map JStr cs)) = Inr cs"
  by (auto simp: read_candidates_def Let_def sorted_unique_strings read_member_iff intro!: traverse_same)

lemma read_buckets_back:
  assumes "validate_bucket_index m allowed = Inr ()"
  shows "read_buckets allowed (members_json m) = Inr m"
  unfolding read_buckets_def members_json_def jval.case
  by (rule traverse_same) (use assms in \<open>auto simp: validate_bucket_index_iff read_candidates_back\<close>)

lemma checks_sorted:
  "check_members msg ents (sort_key fst m) = Inr () \<longleftrightarrow> check_members msg ents m = Inr ()"
  "validate_bucket_index (sort_key fst m) allowed = Inr () \<longleftrightarrow> validate_bucket_index m allowed = Inr ()"
  "check_adjacency ents rs (canonical_adjacency a) = Inr () \<longleftrightarrow> check_adjacency ents rs a = Inr ()"
  by (simp_all add: check_members_iff validate_bucket_index_iff check_adjacency_iff canonical_adjacency_def
    case_prod_unfold)

text \<open>The fields of a written document.\<close>

definition snapshot_fields :: "opaque_snapshot \<Rightarrow> (string \<times> jval) list" where
  "snapshot_fields s = (case snapshot_payload s of JDict d \<Rightarrow> d | _ \<Rightarrow> [])"

lemma snapshot_payload_fields: "snapshot_payload s = JDict (snapshot_fields s)"
  by (simp add: snapshot_fields_def snapshot_payload_def)

lemma snapshot_field_names:
  "map fst (snapshot_fields s) = REQUIRED_FIELDS @ (if semantic_bucket_mode s = None then [] else OPTIONAL_FIELDS)"
  by (simp add: snapshot_fields_def snapshot_payload_def REQUIRED_FIELDS_def OPTIONAL_FIELDS_def)

lemma snapshot_fields_distinct: "distinct (map fst (snapshot_fields s))"
  unfolding snapshot_field_names by (simp add: REQUIRED_FIELDS_def OPTIONAL_FIELDS_def)

lemma snapshot_field:
  "jget (snapshot_fields s) ''version'' = JStr (snapshot_version s)"
  "jget (snapshot_fields s) ''partition_id'' = JStr (partition_id s)"
  "jget (snapshot_fields s) ''adjacency'' = adjacency_json (adjacency s)"
  "jget (snapshot_fields s) ''reverse_adjacency'' = adjacency_json (reverse_adjacency s)"
  "jget (snapshot_fields s) ''type_index'' = members_json (type_index s)"
  "jget (snapshot_fields s) ''frontier_index'' = members_json (frontier_index s)"
  "jget (snapshot_fields s) ''entity_points'' = JList (map JStr (entity_points s))"
  "jget (snapshot_fields s) ''relation_points'' = JList (map JStr (relation_points s))"
  "jget (snapshot_fields s) ''semantic_bucket_mode'' = optional_json JStr (semantic_bucket_mode s)"
  "jget (snapshot_fields s) ''relation_bucket_index'' =
     (if semantic_bucket_mode s = None then JNull else optional_json members_json (relation_bucket_index s))"
  "jget (snapshot_fields s) ''entity_bucket_index'' =
     (if semantic_bucket_mode s = None then JNull else optional_json members_json (entity_bucket_index s))"
  by (simp_all add: snapshot_fields_def snapshot_payload_def jget_def get_or_def optional_json_def)

lemma members_json_not_null [simp]: "members_json m \<noteq> JNull"
  by (simp add: members_json_def)

lemma read_semantic_back:
  assumes "validate_snapshot s = Inr ()"
    and mode: "jget d ''semantic_bucket_mode'' = optional_json JStr (semantic_bucket_mode s)"
    and rb: "jget d ''relation_bucket_index'' =
      (if semantic_bucket_mode s = None then JNull else optional_json members_json (relation_bucket_index (canonical_snapshot s)))"
    and eb: "jget d ''entity_bucket_index'' =
      (if semantic_bucket_mode s = None then JNull else optional_json members_json (entity_bucket_index (canonical_snapshot s)))"
  shows "read_semantic (entity_points s) (relation_points s) d =
    Inr (relation_bucket_index (canonical_snapshot s), entity_bucket_index (canonical_snapshot s), semantic_bucket_mode s)"
proof (cases "semantic_bucket_mode s")
  case None
  with assms(1) have "relation_bucket_index s = None" "entity_bucket_index s = None"
    by (auto simp: validate_snapshot_def res_simps split: if_splits)
  with None mode rb eb show ?thesis
    by (simp add: read_semantic_def canonical_snapshot_def optional_json_def Let_def)
next
  case (Some m)
  with assms(1) obtain r e where re: "relation_bucket_index s = Some r" "entity_bucket_index s = Some e"
      "m \<in> {''alias'', ''lsh'', ''hybrid''}" "validate_bucket_index r (relation_points s) = Inr ()"
      "validate_bucket_index e (entity_points s) = Inr ()"
    by (auto simp: validate_snapshot_def res_simps split: if_splits option.splits)
  have "read_buckets (relation_points s) (members_json (sort_key fst r)) = Inr (sort_key fst r)"
    "read_buckets (entity_points s) (members_json (sort_key fst e)) = Inr (sort_key fst e)"
    using re(4,5) by (simp_all add: read_buckets_back checks_sorted)
  with Some mode rb eb re(1-3) show ?thesis
    by (simp only: read_semantic_def canonical_snapshot_def optional_json_def Let_def) (simp del: insert_iff)
qed

lemma snapshot_reads_back:
  assumes valid: "validate_snapshot s = Inr ()" and dict: "snapshot_dict s = Inr doc"
  shows "snapshot_from_json (canonical_json doc) = Inr (canonical_snapshot s)"
proof -
  let ?d = "sort_key fst (map (\<lambda>(k, v). (k, canonical_json v)) (snapshot_fields s))"
  from dict have doc: "doc = JDict (snapshot_fields s)" and clean: "\<not> has_forbidden doc"
    by (auto simp: snapshot_dict_def reject_forbidden_fields_def snapshot_payload_fields res_simps split: if_splits)
  have written: "canonical_json doc = JDict ?d" by (simp add: doc)
  have clean': "reject_forbidden_fields (JDict ?d) = Inr ()"
    using clean unfolding written [symmetric] reject_forbidden_fields_def has_forbidden_canonical by simp
  have "set (map fst ?d) = set (map fst (snapshot_fields s))" by (simp add: image_image case_prod_unfold)
  then have names: "set (map fst ?d) = set (REQUIRED_FIELDS @ (if semantic_bucket_mode s = None then [] else OPTIONAL_FIELDS))"
    by (simp only: snapshot_field_names)
  note field = jget_canonical [OF snapshot_fields_distinct, unfolded snapshot_field, of s]
  from valid have v: "snapshot_version s = SNAPSHOT_VERSION" "is_hex_identifier (partition_id s)"
    "check_points (entity_points s) = Inr ()" "check_points (relation_points s) = Inr ()"
    "check_adjacency (entity_points s) (relation_points s) (adjacency s) = Inr ()"
    "check_adjacency (entity_points s) (relation_points s) (reverse_adjacency s) = Inr ()"
    "check_members ''type index references an unknown entity'' (entity_points s) (type_index s) = Inr ()"
    "check_members ''frontier index references an unknown entity'' (entity_points s) (frontier_index s) = Inr ()"
    by (auto simp: validate_snapshot_def res_simps split: if_splits)
  have sem: "read_semantic (entity_points s) (relation_points s) ?d =
      Inr (relation_bucket_index (canonical_snapshot s), entity_bucket_index (canonical_snapshot s), semantic_bucket_mode s)"
    by (rule read_semantic_back [OF valid]; simp only: jget_canonical [OF snapshot_fields_distinct] snapshot_field)
      (auto simp: canonical_snapshot_def optional_json_def canonical_members split: option.split)
  have parts: "string_value (jget ?d ''partition_id'') = Some (partition_id s)"
    "read_points (jget ?d ''entity_points'') = Inr (entity_points s)"
    "read_points (jget ?d ''relation_points'') = Inr (relation_points s)"
    "read_adjacency (entity_points s) (relation_points s) (jget ?d ''adjacency'') = Inr (canonical_adjacency (adjacency s))"
    "read_adjacency (entity_points s) (relation_points s) (jget ?d ''reverse_adjacency'') = Inr (canonical_adjacency (reverse_adjacency s))"
    "read_index ''type index references an unknown entity'' (entity_points s) (jget ?d ''type_index'') = Inr (sort_key fst (type_index s))"
    "read_index ''frontier index references an unknown entity'' (entity_points s) (jget ?d ''frontier_index'') = Inr (sort_key fst (frontier_index s))"
    "eq_str (jget ?d ''version'') SNAPSHOT_VERSION"
    by (simp_all only: jget_canonical [OF snapshot_fields_distinct] snapshot_field canonical_json.simps map_map
        canonical_adjacency_json canonical_members string_value.simps eq_str.simps v(1))
      (simp_all add: comp_def read_points_strings v(3-4) read_adjacency_back read_index_back [of "''type index references an unknown entity''"] read_index_back [of "''frontier index references an unknown entity''"] checks_sorted v)
  show ?thesis
    unfolding written snapshot_from_json_def jval.case clean' bindr_Inr names
    by (simp add: parts sem v(2) canonical_snapshot_def v(1))
qed

lemma canonical_payload: "canonical_json (snapshot_payload (canonical_snapshot s)) = canonical_json (snapshot_payload s)"
proof -
  have adj: "canonical_json (adjacency_json (canonical_adjacency m)) = canonical_json (adjacency_json m)" for m
    unfolding canonical_adjacency_json
    by (simp add: canonical_adjacency_def sort_key_map_values [unfolded case_prod_unfold] case_prod_unfold comp_def)
  have mem: "canonical_json (members_json (sort_key fst m)) = canonical_json (members_json m)" for m
    by (simp add: canonical_members)
  have opt: "canonical_json (optional_json members_json (map_option (sort_key fst) m)) =
      canonical_json (optional_json members_json m)" for m
    by (cases m) (simp_all add: optional_json_def mem)
  show ?thesis
    by (cases "semantic_bucket_mode s")
      (simp_all add: snapshot_payload_def canonical_snapshot_def adj mem opt del: sort_key_simps)
qed

lemma canonical_snapshot_digest:
  assumes valid: "validate_snapshot s = Inr ()" and dict: "snapshot_dict s = Inr doc"
  shows "snapshot_digest H (canonical_snapshot s) = snapshot_digest H s"
proof -
  have "validate_snapshot (canonical_snapshot s) = Inr ()"
    by (rule snapshot_from_json_valid [OF snapshot_reads_back [OF valid dict]])
  moreover have "has_forbidden (snapshot_payload (canonical_snapshot s)) = has_forbidden (snapshot_payload s)"
    by (metis canonical_payload has_forbidden_canonical)
  ultimately show ?thesis
    using valid by (simp add: snapshot_digest_def snapshot_dict_def reject_forbidden_fields_def canonical_payload)
qed

end
