(* ===== verification/Fss_Store.thy ===== *)
theory Fss_Store
  imports Fss_Snapshot
begin

text \<open>
  Replication of snapshots to N evaluator stores (\<open>multiparty_fss/replication.py\<close>) and the loading
  of a store (\<open>MultiPartyEvaluatorStore.load\<close> of \<open>multiparty_fss/service.py\<close>).  A store directory
  is the list of the files written in it, each a path relative to the directory and the value of
  its JSON text (\<open>json.dumps\<close> writes the keys of every object in order, \<open>canonical_json\<close>);
  the directory itself is the list of the components of its resolved path, without symbolic
  links.  \<open>OSError\<close> stands for a path that names no file.
\<close>

section \<open>Paths\<close>






section \<open>Manifests and stores\<close>


















section \<open>Paths of snapshots\<close>





section \<open>What is replicated is loaded back\<close>























end
