(* ===== verification/Fss_Projection.thy ===== *)
theory Fss_Projection
  imports Fss_Index
begin

unbundle bit_operations_syntax

text \<open>
  Routing of universe points to padded candidate slots: the exclusive-or projection
  (\<open>multiparty_fss/projection.py\<close>), the projection of the two-party path
  (\<open>src/runtime/fss_candidate_projection.py\<close>) and the builder both share
  (\<open>src/runtime/fss_projection_builder.py\<close>), with the per-query handles of
  \<open>src/aggregation/prio3_candidates.py\<close>.  HMAC-SHA256 in hexadecimal is a parameter of a key and
  a message.
\<close>

section \<open>Handles\<close>

record handle_provider =
  handle_key :: "byte list"
  query_nonce :: "byte list"

definition make_handle_provider :: "byte list \<Rightarrow> byte list \<Rightarrow> handle_provider res" where
  "make_handle_provider k nonce =
     (if length k < 16 then Inl (ValueError ''candidate handle key must contain at least 16 bytes'')
      else if length nonce < 16 then Inl (ValueError ''query_nonce must contain at least 16 bytes'')
      else Inr \<lparr>handle_key = k, query_nonce = nonce\<rparr>)"

type_synonym hmac = "byte list \<Rightarrow> byte list \<Rightarrow> string"

text \<open>\<open>encode("utf-8")\<close> of a text of characters below 256.\<close>

definition utf8_bytes :: "string \<Rightarrow> byte list" where
  "utf8_bytes s = concat (map (\<lambda>c. let n = of_char c :: nat in
     if n < 128 then [word_of_nat n] else [word_of_nat (192 + n div 64), word_of_nat (128 + n mod 64)]) s)"

definition derive_handle :: "hmac \<Rightarrow> handle_provider \<Rightarrow> byte list \<Rightarrow> string" where
  "derive_handle M hp message =
     M (handle_key hp) (ascii_bytes ''fedkg-rag/prio3/handle/v1'' @ [0] @ query_nonce hp @ [0] @ message)"

definition candidate_handle :: "hmac \<Rightarrow> handle_provider \<Rightarrow> string \<Rightarrow> string" where
  "candidate_handle M hp candidate_id = derive_handle M hp (ascii_bytes ''candidate'' @ [0] @ utf8_bytes candidate_id)"

definition padding_handle :: "hmac \<Rightarrow> handle_provider \<Rightarrow> nat \<Rightarrow> string" where
  "padding_handle M hp i = derive_handle M hp (ascii_bytes ''padding'' @ [0] @ big_bytes 8 i)"

section \<open>The projection of the two-party path\<close>

definition DPF_MODULUS :: int where "DPF_MODULUS = 2 ^ 64"

record candidate_projection =
  cp_slot_handles :: "string list"
  point_weights :: "(string \<times> (string \<times> int) list) list"

definition check_weight :: "string list \<Rightarrow> string \<times> int \<Rightarrow> unit res" where
  "check_weight slots = (\<lambda>(slot, weight).
     if slot \<notin> set slots then Inl (ValueError ''candidate projection references an unknown slot'')
     else if weight < 0 \<or> DPF_MODULUS \<le> weight then Inl (ValueError ''candidate projection weight is outside the DPF field'')
     else Inr ())"

definition candidate_projection_validate :: "candidate_projection \<Rightarrow> string list option \<Rightarrow> unit res" where
  "candidate_projection_validate pr universe =
     (if cp_slot_handles pr = [] then Inl (ValueError ''candidate projection requires at least one slot'')
      else if \<not> distinct (cp_slot_handles pr) then Inl (ValueError ''candidate projection slot handles must be unique'')
      else bindr (traverse (\<lambda>(point, weights).
          if (case universe of None \<Rightarrow> False | Some u \<Rightarrow> point \<notin> set u)
          then Inl (ValueError ''candidate projection references a point outside the evaluator universe'')
          else bindr (traverse (check_weight (cp_slot_handles pr)) weights) (\<lambda>_. Inr ()))
        (point_weights pr)) (\<lambda>_. Inr ()))"

section \<open>The builder\<close>

text \<open>\<open>result.setdefault(key, set()).update(members)\<close> over all snapshots, then sorted.\<close>

definition merge_members :: "(opaque_snapshot \<Rightarrow> member_map) \<Rightarrow> opaque_snapshot list \<Rightarrow> member_map" where
  "merge_members f snapshots =
     (let all = concat (map f snapshots) in
      map (\<lambda>key. (key, sort (remdups (concat (map snd (filter (\<lambda>e. fst e = key) all))))))
        (sort (remdups (map fst all))))"

definition optional_map :: "member_map option \<Rightarrow> member_map" where
  "optional_map m = (case m of None \<Rightarrow> [] | Some d \<Rightarrow> d)"

definition point_candidates :: "opaque_snapshot list \<Rightarrow> string \<Rightarrow> member_map res" where
  "point_candidates index domain =
     (if domain = ''entity'' then Inr (map (\<lambda>p. (p, [p])) (index_entity_points index))
      else if domain = ''relation'' then Inr (map (\<lambda>p. (p, [p])) (index_relation_points index))
      else if domain = ''type'' then Inr (merge_members type_index index)
      else if domain = ''frontier'' then Inr (merge_members frontier_index index)
      else if domain = ''relation_bucket'' then Inr (merge_members (\<lambda>s. optional_map (relation_bucket_index s)) index)
      else if domain = ''entity_bucket'' then Inr (merge_members (\<lambda>s. optional_map (entity_bucket_index s)) index)
      else Inl (ValueError ''unsupported projection domain''))"

definition builder_points_for :: "opaque_snapshot list \<Rightarrow> string \<Rightarrow> string list res" where
  "builder_points_for index domain =
     (case points_for index domain of
        Inl _ \<Rightarrow> Inl (ValueError ''unsupported projection domain'') | Inr ps \<Rightarrow> Inr ps)"

definition build_projection ::
  "hmac \<Rightarrow> handle_provider \<Rightarrow> opaque_snapshot list \<Rightarrow> string \<Rightarrow> int \<Rightarrow> (candidate_projection \<times> (string \<times> string) list) res" where
  "build_projection M hp index domain capacity =
     bindr (point_candidates index domain) (\<lambda>pcs.
     let candidates = sort (remdups (concat (map snd pcs))) in
     if capacity < int (length candidates) then Inl (ValueError ''projection capacity is smaller than candidate universe'')
     else
       let handle_of = (\<lambda>c. candidate_handle M hp (domain @ '':'' @ c));
           handle_to_candidate = fold (\<lambda>c d. AList.update (handle_of c) c d) candidates []
       in if length handle_to_candidate \<noteq> length candidates then Inl (ValueError ''candidate handle collision detected'')
       else
         let slots = map fst handle_to_candidate @
               map (padding_handle M hp) [0..<nat (capacity - int (length handle_to_candidate))]
         in if \<not> distinct slots then Inl (ValueError ''candidate or padding handle collision detected'')
         else
           let weights = map (\<lambda>(point, cs). (point, map (\<lambda>c. (handle_of c, 1)) cs)) pcs;
               projection = \<lparr>cp_slot_handles = sort slots, point_weights = weights\<rparr>
           in bindr (builder_points_for index domain) (\<lambda>points.
              bindr (candidate_projection_validate projection (Some points)) (\<lambda>_.
                Inr (projection, handle_to_candidate))))"

section \<open>The exclusive-or projection\<close>

definition PROJECTION_VERSION :: string where "PROJECTION_VERSION = ''fedkg-mpfss-xor-projection-v1''"

record xor_projection =
  slot_handles :: "string list"
  point_slots :: "(string \<times> string list) list"

definition check_targets :: "string list \<Rightarrow> string list option \<Rightarrow> string \<times> string list \<Rightarrow> unit res" where
  "check_targets slots universe = (\<lambda>(point, targets).
     if (case universe of None \<Rightarrow> False | Some u \<Rightarrow> point \<notin> set u)
     then Inl (ProjectionError ''projection references a point outside the evaluator universe'')
     else if \<not> distinct targets then Inl (ProjectionError ''projection routes a point to the same slot twice'')
     else if \<not> list_all (\<lambda>t. t \<in> set slots) targets then Inl (ProjectionError ''projection references an unknown slot'')
     else Inr ())"

definition projection_validate :: "xor_projection \<Rightarrow> string list option \<Rightarrow> unit res" where
  "projection_validate pr universe =
     (if slot_handles pr = [] then Inl (ProjectionError ''projection requires at least one slot'')
      else if \<not> distinct (slot_handles pr) then Inl (ProjectionError ''projection slot handles must be unique'')
      else bindr (traverse (check_targets (slot_handles pr) universe) (point_slots pr)) (\<lambda>_. Inr ()))"

fun str_list :: "jval \<Rightarrow> string list option" where
  "str_list (JList xs) = (if list_all (\<lambda>x. case x of JStr _ \<Rightarrow> True | _ \<Rightarrow> False) xs
     then Some (map (\<lambda>x. case x of JStr s \<Rightarrow> s | _ \<Rightarrow> []) xs) else None)"
| "str_list _ = None"

definition point_targets :: "string \<times> jval \<Rightarrow> (string \<times> string list) res" where
  "point_targets = (\<lambda>(point, targets). case targets of
     JList _ \<Rightarrow> (case str_list targets of
       None \<Rightarrow> Inl (ProjectionError ''point_slots targets must be strings'') | Some ts \<Rightarrow> Inr (point, ts))
   | _ \<Rightarrow> Inl (ProjectionError ''point_slots must map strings to arrays''))"

definition projection_from_mapping :: "jval \<Rightarrow> xor_projection res" where
  "projection_from_mapping payload =
     (case payload of JDict d \<Rightarrow>
        if set (map fst d) \<noteq> {''version'', ''slot_handles'', ''point_slots''}
        then Inl (ProjectionError ''projection requires exactly version, slot_handles, point_slots'')
        else if \<not> eq_str (jget d ''version'') PROJECTION_VERSION then Inl (ProjectionError ''unsupported projection version'')
        else (case str_list (jget d ''slot_handles'') of
          None \<Rightarrow> Inl (ProjectionError ''slot_handles must be an array of strings'')
        | Some slots \<Rightarrow> (case jget d ''point_slots'' of
            JDict ps \<Rightarrow> bindr (traverse point_targets ps) (\<lambda>normalized.
              let pr = \<lparr>slot_handles = slots, point_slots = normalized\<rparr> in
              bindr (projection_validate pr None) (\<lambda>_. Inr pr))
          | _ \<Rightarrow> Inl (ProjectionError ''point_slots must be an object'')))
      | _ \<Rightarrow> Inl (ProjectionError ''projection must be a JSON object''))"

definition projection_dict :: "xor_projection \<Rightarrow> jval" where
  "projection_dict pr = JDict
     [(''version'', JStr PROJECTION_VERSION), (''slot_handles'', JList (map JStr (slot_handles pr))),
      (''point_slots'', JDict (map (\<lambda>(point, targets). (point, JList (map JStr targets)))
        (sort_key fst (point_slots pr))))]"

definition projection_digest :: "(jval \<Rightarrow> string) \<Rightarrow> xor_projection \<Rightarrow> string res" where
  "projection_digest H pr =
     bindr (projection_validate pr None) (\<lambda>_. Inr (H (canonical_json (projection_dict pr))))"

definition xor_into :: "string list \<Rightarrow> int \<Rightarrow> string \<Rightarrow> int list \<Rightarrow> int list res" where
  "xor_into slots share slot projected =
     (case index_from 0 slots slot of
        None \<Rightarrow> Inl KeyError | Some i \<Rightarrow> Inr (projected[i := projected ! i XOR share]))"

definition project_point :: "xor_projection \<Rightarrow> string \<times> int \<Rightarrow> int list \<Rightarrow> int list res" where
  "project_point pr = (\<lambda>(point, share) projected.
     if \<not> (0 \<le> share \<and> share \<le> WORD_MASK) then Inl (ProjectionError ''evaluation share out of the 64-bit group'')
     else foldM (xor_into (slot_handles pr) share) (get_or [] (point_slots pr) point) projected)"

definition project_shares :: "xor_projection \<Rightarrow> string list \<Rightarrow> int list \<Rightarrow> int list res" where
  "project_shares pr points eval_shares =
     (if length points \<noteq> length eval_shares
      then Inl (ProjectionError ''point and evaluation-share vectors must have equal length'')
      else bindr (projection_validate pr (Some points)) (\<lambda>_.
        foldM (project_point pr) (zip points eval_shares) (replicate (length (slot_handles pr)) 0)))"

text \<open>\<open>build_xor_projection\<close>: the shared builder, refusing any weight but one.\<close>

definition unit_targets :: "string \<times> (string \<times> int) list \<Rightarrow> (string \<times> string list) res" where
  "unit_targets = (\<lambda>(point, weights).
     if \<not> list_all (\<lambda>w. snd w = 1) weights then Inl (ProjectionError ''XOR projection requires unit point-to-slot weights'')
     else Inr (point, sort (map fst weights)))"

definition build_xor_projection ::
  "hmac \<Rightarrow> handle_provider \<Rightarrow> opaque_snapshot list \<Rightarrow> string \<Rightarrow> int \<Rightarrow> (xor_projection \<times> (string \<times> string) list) res" where
  "build_xor_projection M hp index domain capacity =
     bindr (build_projection M hp index domain capacity) (\<lambda>(built, handles).
     bindr (traverse unit_targets (point_weights built)) (\<lambda>targets.
     let pr = \<lparr>slot_handles = cp_slot_handles built, point_slots = targets\<rparr> in
     bindr (projection_validate pr None) (\<lambda>_. Inr (pr, handles))))"

definition candidate_values :: "(string \<times> string) list \<Rightarrow> (string \<times> int) list \<Rightarrow> (string \<times> int) list" where
  "candidate_values handles slot_values =
     fold (\<lambda>(h, v) d. case map_of handles h of
         Some c \<Rightarrow> if v \<noteq> 0 then AList.update c v d else d
       | None \<Rightarrow> d) slot_values []"

section \<open>Projection is linear\<close>

lemma index_from_nth: "distinct xs \<Longrightarrow> i < length xs \<Longrightarrow> index_from 0 xs (xs ! i) = Some i"
  using list_index_nth [of xs i] by (auto simp: list_index_def split: option.splits)

lemma xor_into_nth:
  assumes "distinct slots" and "slot \<in> set slots" and "length st = length slots"
  shows "xor_into slots s slot st = Inr (map (\<lambda>k. if slots ! k = slot then st ! k XOR s else st ! k) [0..<length slots])"
proof -
  from assms(2) obtain i where i: "i < length slots" "slots ! i = slot" by (auto simp: in_set_conv_nth)
  have "st[i := st ! i XOR s] = map (\<lambda>k. if slots ! k = slot then st ! k XOR s else st ! k) [0..<length slots]"
  proof (rule nth_equalityI)
    show "length (st[i := st ! i XOR s]) = length (map (\<lambda>k. if slots ! k = slot then st ! k XOR s else st ! k) [0..<length slots])"
      using assms(3) by simp
    fix k assume "k < length (st[i := st ! i XOR s])"
    then have k: "k < length slots" using assms(3) by simp
    have "slots ! k = slot \<longleftrightarrow> k = i" using nth_eq_iff_index_eq [OF assms(1) k i(1)] i(2) by simp
    then show "st[i := st ! i XOR s] ! k = map (\<lambda>k. if slots ! k = slot then st ! k XOR s else st ! k) [0..<length slots] ! k"
      using k i(1) assms(3) by (auto simp: nth_list_update)
  qed
  then show ?thesis using index_from_nth [OF assms(1) i(1)] i(2) by (simp add: xor_into_def)
qed

lemma xor_into_all:
  assumes "distinct slots" and "distinct ts" and "set ts \<subseteq> set slots" and "length st = length slots"
  shows "foldM (xor_into slots s) ts st =
    Inr (map (\<lambda>k. if slots ! k \<in> set ts then st ! k XOR s else st ! k) [0..<length slots])"
  using assms(2-4)
proof (induction ts arbitrary: st)
  case Nil
  then have "map (\<lambda>k. st ! k) [0..<length slots] = st" using map_nth [of st] by simp
  then show ?case by simp
next
  case (Cons t ts)
  let ?st = "map (\<lambda>k. if slots ! k = t then st ! k XOR s else st ! k) [0..<length slots]"
  have "xor_into slots s t st = Inr ?st"
    by (rule xor_into_nth [OF assms(1)]) (use Cons.prems in auto)
  moreover have "foldM (xor_into slots s) ts ?st =
      Inr (map (\<lambda>k. if slots ! k \<in> set ts then ?st ! k XOR s else ?st ! k) [0..<length slots])"
    by (rule Cons.IH) (use Cons.prems in auto)
  moreover have "map (\<lambda>k. if slots ! k \<in> set ts then ?st ! k XOR s else ?st ! k) [0..<length slots] =
      map (\<lambda>k. if slots ! k \<in> set (t # ts) then st ! k XOR s else st ! k) [0..<length slots]"
  proof (rule map_cong [OF refl])
    fix k assume "k \<in> set [0..<length slots]"
    then have k: "?st ! k = (if slots ! k = t then st ! k XOR s else st ! k)" by simp
    have "t \<notin> set ts" using Cons.prems(1) by simp
    then show "(if slots ! k \<in> set ts then ?st ! k XOR s else ?st ! k) =
        (if slots ! k \<in> set (t # ts) then st ! k XOR s else st ! k)"
      unfolding k by (cases "slots ! k = t") simp_all
  qed
  ultimately show ?case by simp
qed

definition projection_ok :: "xor_projection \<Rightarrow> string list \<Rightarrow> bool" where
  "projection_ok pr u \<longleftrightarrow> slot_handles pr \<noteq> [] \<and> distinct (slot_handles pr) \<and>
     (\<forall>(point, targets) \<in> set (point_slots pr). point \<in> set u \<and> distinct targets \<and> set targets \<subseteq> set (slot_handles pr))"

definition targets_of :: "xor_projection \<Rightarrow> string \<Rightarrow> string list" where
  "targets_of pr point = get_or [] (point_slots pr) point"

lemma check_targets_iff:
  "check_targets slots u (point, targets) = Inr () \<longleftrightarrow>
    (case u of None \<Rightarrow> True | Some v \<Rightarrow> point \<in> set v) \<and> distinct targets \<and> set targets \<subseteq> set slots"
  by (auto simp: check_targets_def list_all_iff split: option.splits)

lemma projection_validate_iff:
  "projection_validate pr (Some u) = Inr () \<longleftrightarrow> projection_ok pr u"
proof -
  have "(\<exists>us. traverse (check_targets (slot_handles pr) (Some u)) (point_slots pr) = Inr us) \<longleftrightarrow>
      (\<forall>e \<in> set (point_slots pr). check_targets (slot_handles pr) (Some u) e = Inr ())"
    by (rule traverse_units_iff)
  also have "\<dots> \<longleftrightarrow> (\<forall>(point, targets) \<in> set (point_slots pr).
      point \<in> set u \<and> distinct targets \<and> set targets \<subseteq> set (slot_handles pr))"
  proof (rule ball_cong [OF refl])
    fix e :: "string \<times> string list"
    obtain p ts where e: "e = (p, ts)" by (cases e)
    show "check_targets (slot_handles pr) (Some u) e = Inr () \<longleftrightarrow>
        (case e of (point, targets) \<Rightarrow> point \<in> set u \<and> distinct targets \<and> set targets \<subseteq> set (slot_handles pr))"
      unfolding e check_targets_iff by simp
  qed
  finally have each: "(\<exists>us. traverse (check_targets (slot_handles pr) (Some u)) (point_slots pr) = Inr us) \<longleftrightarrow>
      (\<forall>(point, targets) \<in> set (point_slots pr). point \<in> set u \<and> distinct targets \<and> set targets \<subseteq> set (slot_handles pr))" .
  have "projection_validate pr (Some u) = Inr () \<longleftrightarrow> slot_handles pr \<noteq> [] \<and> distinct (slot_handles pr) \<and>
      (\<exists>us. traverse (check_targets (slot_handles pr) (Some u)) (point_slots pr) = Inr us)"
    unfolding projection_validate_def by (simp add: res_simps)
  then show ?thesis unfolding each projection_ok_def .
qed

lemma projection_validate_None: "projection_ok pr u \<Longrightarrow> projection_validate pr None = Inr ()"
proof -
  assume ok: "projection_ok pr u"
  have "\<exists>us. traverse (check_targets (slot_handles pr) None) (point_slots pr) = Inr us"
    by (rule traverse_units_ok) (use ok in \<open>auto simp: projection_ok_def check_targets_iff\<close>)
  with ok show ?thesis by (auto simp: projection_validate_def projection_ok_def)
qed

lemma targets_ok:
  assumes "projection_ok pr u"
  shows "distinct (targets_of pr p)" and "set (targets_of pr p) \<subseteq> set (slot_handles pr)"
proof -
  have "distinct (targets_of pr p) \<and> set (targets_of pr p) \<subseteq> set (slot_handles pr)"
  proof (cases "map_of (point_slots pr) p")
    case (Some ts)
    then have "(p, ts) \<in> set (point_slots pr)" by (rule map_of_SomeD)
    with assms Some show ?thesis by (auto simp: projection_ok_def targets_of_def get_or_def)
  qed (simp add: targets_of_def get_or_def)
  then show "distinct (targets_of pr p)" and "set (targets_of pr p) \<subseteq> set (slot_handles pr)" by blast+
qed

text \<open>The word of a slot: the sum of the outputs at the points routed to it.\<close>

definition slot_word :: "xor_projection \<Rightarrow> string list \<Rightarrow> 64 word list \<Rightarrow> nat \<Rightarrow> 64 word" where
  "slot_word pr u w k =
     xor_sum (\<lambda>j. if slot_handles pr ! k \<in> set (targets_of pr (u ! j)) then w ! j else 0) [0..<length u]"

lemma uint_bounds: "0 \<le> uint (x :: 64 word) \<and> uint x \<le> WORD_MASK"
  using uint_lt2p [of x] by (simp add: WORD_MASK_def)

lemma project_point_words:
  assumes ok: "projection_ok pr u" and len: "length v = length (slot_handles pr)"
  shows "project_point pr (p, uint (x :: 64 word)) (map uint v) =
    Inr (map uint (map (\<lambda>k. v ! k XOR (if slot_handles pr ! k \<in> set (targets_of pr p) then x else 0)) [0..<length (slot_handles pr)]))"
proof -
  have d: "distinct (slot_handles pr)" using ok by (simp add: projection_ok_def)
  note t = targets_ok [OF ok, of p]
  have "foldM (xor_into (slot_handles pr) (uint x)) (targets_of pr p) (map uint v) =
      Inr (map (\<lambda>k. if slot_handles pr ! k \<in> set (targets_of pr p) then map uint v ! k XOR uint x else map uint v ! k)
        [0..<length (slot_handles pr)])"
    by (rule xor_into_all [OF d t]) (simp add: len)
  also have "map (\<lambda>k. if slot_handles pr ! k \<in> set (targets_of pr p) then map uint v ! k XOR uint x else map uint v ! k)
        [0..<length (slot_handles pr)] =
      map uint (map (\<lambda>k. v ! k XOR (if slot_handles pr ! k \<in> set (targets_of pr p) then x else 0)) [0..<length (slot_handles pr)])"
    by (simp add: len uint_xor)
  finally show ?thesis using uint_bounds [of x] by (simp add: project_point_def targets_of_def)
qed

lemma project_zip_words:
  assumes ok: "projection_ok pr u" and "length w = length ps" and "length v = length (slot_handles pr)"
  shows "foldM (project_point pr) (zip ps (map uint (w :: 64 word list))) (map uint v) =
    Inr (map uint (map (\<lambda>k. v ! k XOR xor_sum (\<lambda>j. if slot_handles pr ! k \<in> set (targets_of pr (ps ! j)) then w ! j else 0)
      [0..<length ps]) [0..<length (slot_handles pr)]))"
  using assms(2,3)
proof (induction ps arbitrary: w v)
  case Nil
  then have "map (\<lambda>k. v ! k) [0..<length (slot_handles pr)] = v" using map_nth [of v] by simp
  then show ?case using Nil by (simp del: map_map)
next
  case (Cons p ps)
  then obtain x w' where w: "w = x # w'" "length w' = length ps" by (cases w) auto
  let ?n = "length (slot_handles pr)"
  let ?hit = "\<lambda>k q. slot_handles pr ! k \<in> set (targets_of pr q)"
  let ?v = "map (\<lambda>k. v ! k XOR (if ?hit k p then x else 0)) [0..<?n]"
  have "foldM (project_point pr) (zip (p # ps) (map uint w)) (map uint v) =
      foldM (project_point pr) (zip ps (map uint w')) (map uint ?v)"
    using project_point_words [OF ok Cons.prems(2), of p x] by (simp add: w(1))
  also have "\<dots> = Inr (map uint (map (\<lambda>k. ?v ! k XOR xor_sum (\<lambda>j. if ?hit k (ps ! j) then w' ! j else 0) [0..<length ps]) [0..<?n]))"
    by (rule Cons.IH) (simp_all add: w(2))
  also have "map (\<lambda>k. ?v ! k XOR xor_sum (\<lambda>j. if ?hit k (ps ! j) then w' ! j else 0) [0..<length ps]) [0..<?n] =
      map (\<lambda>k. v ! k XOR xor_sum (\<lambda>j. if ?hit k ((p # ps) ! j) then w ! j else 0) [0..<length (p # ps)]) [0..<?n]"
  proof (rule map_cong [OF refl])
    fix k assume k: "k \<in> set [0..<?n]"
    have upt: "[0..<length (p # ps)] = 0 # map Suc [0..<length ps]" by (simp add: map_Suc_upt upt_conv_Cons del: upt_Suc)
    have "xor_sum (\<lambda>j. if ?hit k ((p # ps) ! j) then w ! j else 0) [0..<length (p # ps)] =
        (if ?hit k p then x else 0) XOR xor_sum (\<lambda>j. if ?hit k (ps ! j) then w' ! j else 0) [0..<length ps]"
      unfolding upt xor_sum.simps xor_sum_map w(1) nth_Cons_0 nth_Cons_Suc ..
    then show "?v ! k XOR xor_sum (\<lambda>j. if ?hit k (ps ! j) then w' ! j else 0) [0..<length ps] =
        v ! k XOR xor_sum (\<lambda>j. if ?hit k ((p # ps) ! j) then w ! j else 0) [0..<length (p # ps)]"
      using k by (simp add: xor.assoc)
  qed
  finally show ?case .
qed

lemma project_shares_words:
  assumes ok: "projection_ok pr u" and "length w = length u"
  shows "project_shares pr u (map uint (w :: 64 word list)) =
    Inr (map uint (map (slot_word pr u w) [0..<length (slot_handles pr)]))"
proof -
  let ?z = "replicate (length (slot_handles pr)) (0 :: 64 word)"
  have "foldM (project_point pr) (zip u (map uint w)) (map uint ?z) =
      Inr (map uint (map (\<lambda>k. ?z ! k XOR slot_word pr u w k) [0..<length (slot_handles pr)]))"
    unfolding slot_word_def by (rule project_zip_words [OF ok]) (simp_all add: assms(2))
  also have "map (\<lambda>k. ?z ! k XOR slot_word pr u w k) [0..<length (slot_handles pr)] =
      map (slot_word pr u w) [0..<length (slot_handles pr)]"
    by (rule map_cong [OF refl]) simp
  finally show ?thesis
    using assms(2) projection_validate_iff [of pr u] ok by (simp add: project_shares_def)
qed

lemma xor_sum_single:
  "xor_sum (\<lambda>j. if P j then (if j = a then v else 0) else 0) [0..<n] = (if a < n \<and> P a then v else 0)"
  by (induction n) (auto simp: xor_sum_append)

text \<open>The slots of all parties combine to the value at the slots the shared point is routed to.\<close>

lemma slot_words_combine:
  assumes "\<And>j. j < length u \<Longrightarrow> xor_sum (\<lambda>i. W i ! j) is = (if j = a then v else 0)"
  shows "xor_sum (\<lambda>i. slot_word pr u (W i) k) is =
    (if a < length u \<and> slot_handles pr ! k \<in> set (targets_of pr (u ! a)) then v else 0)"
proof -
  let ?hit = "\<lambda>j. slot_handles pr ! k \<in> set (targets_of pr (u ! j))"
  have "xor_sum (\<lambda>i. slot_word pr u (W i) k) is = xor_sum (\<lambda>j. xor_sum (\<lambda>i. if ?hit j then W i ! j else 0) is) [0..<length u]"
    unfolding slot_word_def by (rule xor_sum_swap)
  also have "\<dots> = xor_sum (\<lambda>j. if ?hit j then (if j = a then v else 0) else 0) [0..<length u]"
    by (rule xor_sum_cong) (simp add: assms)
  also have "\<dots> = (if a < length u \<and> ?hit a then v else 0)" by (rule xor_sum_single)
  finally show ?thesis .
qed

section \<open>What the builder returns\<close>

lemma update_fresh: "k \<notin> fst ` set al \<Longrightarrow> AList.update k v al = al @ [(k, v)]"
  by (induction al) auto

lemma keys_fold_update: "fst ` set (fold (\<lambda>c. AList.update (h c) c) cs d) = fst ` set d \<union> h ` set cs"
  by (induction cs arbitrary: d) (auto simp: dom_update)

lemma distinct_fold_update:
  "distinct (map fst d) \<Longrightarrow> distinct (map fst (fold (\<lambda>c. AList.update (h c) c) cs d))"
  by (induction cs arbitrary: d) (auto simp: distinct_update)

lemma fold_update_fresh:
  "inj_on h (set cs) \<Longrightarrow> distinct cs \<Longrightarrow> fst ` set d \<inter> h ` set cs = {} \<Longrightarrow>
    fold (\<lambda>c. AList.update (h c) c) cs d = d @ map (\<lambda>c. (h c, c)) cs"
proof (induction cs arbitrary: d)
  case (Cons c cs)
  then have "h c \<notin> fst ` set d" by auto
  then have "fold (\<lambda>c. AList.update (h c) c) (c # cs) d = fold (\<lambda>c. AList.update (h c) c) cs (d @ [(h c, c)])"
    by (simp add: update_fresh)
  also have "\<dots> = (d @ [(h c, c)]) @ map (\<lambda>c. (h c, c)) cs"
    by (rule Cons.IH) (use Cons.prems in \<open>auto simp: inj_on_def\<close>)
  finally show ?case by simp
qed simp

lemma handles_without_collision:
  assumes "distinct cs" and "length (fold (\<lambda>c. AList.update (h c) c) cs []) = length cs"
  shows "inj_on h (set cs)" and "fold (\<lambda>c. AList.update (h c) c) cs [] = map (\<lambda>c. (h c, c)) cs"
proof -
  let ?d = "fold (\<lambda>c. AList.update (h c) c) cs []"
  have "distinct (map fst ?d)" by (rule distinct_fold_update) simp
  then have "length ?d = card (fst ` set ?d)" using distinct_card [of "map fst ?d"] by simp
  also have "fst ` set ?d = h ` set cs" by (simp add: keys_fold_update)
  finally have "card (h ` set cs) = card (set cs)" using assms distinct_card [OF assms(1)] by simp
  then show inj: "inj_on h (set cs)" by (intro eq_card_imp_inj_on) simp_all
  show "?d = map (\<lambda>c. (h c, c)) cs" using fold_update_fresh [OF inj assms(1), of "[]"] by simp
qed

definition handle_of :: "hmac \<Rightarrow> handle_provider \<Rightarrow> string \<Rightarrow> string \<Rightarrow> string" where
  "handle_of M hp domain c = candidate_handle M hp (domain @ '':'' @ c)"

definition all_candidates :: "member_map \<Rightarrow> string list" where
  "all_candidates pcs = sort (remdups (concat (map snd pcs)))"

lemma merge_keys: "map fst (merge_members f snaps) = all_points (\<lambda>s. map fst (f s)) snaps"
  by (simp add: merge_members_def all_points_def Let_def comp_def map_concat)

lemma point_candidates_keys:
  assumes "point_candidates index domain = Inr pcs"
  shows "points_for index domain = Inr (map fst pcs)" and "distinct (map fst pcs)"
proof -
  have opt: "optional_keys m = map fst (optional_map m)" for m
    by (simp add: optional_keys_def optional_map_def split: option.split)
  show points: "points_for index domain = Inr (map fst pcs)"
    using assms by (auto simp: point_candidates_def points_for_def comp_def merge_keys opt
        index_type_points_def index_frontier_points_def index_relation_bucket_points_def index_entity_bucket_points_def
        split: if_splits)
  have "distinct (all_points f index)" for f by (simp add: all_points_def)
  with points show "distinct (map fst pcs)"
    by (auto simp: points_for_def index_entity_points_def index_relation_points_def index_type_points_def
        index_frontier_points_def index_relation_bucket_points_def index_entity_bucket_points_def split: if_splits) (metis)+
qed

lemma get_or_map_values: "get_or (f []) (map (\<lambda>(k, v). (k, f v)) al) k = f (get_or [] al k)"
  by (induction al) (auto simp: get_or_def)

lemma build_projection_spec:
  assumes "build_projection M hp index domain capacity = Inr (pr, handles)"
  shows "\<exists>pcs. point_candidates index domain = Inr pcs \<and> inj_on (handle_of M hp domain) (set (all_candidates pcs)) \<and>
    handles = map (\<lambda>c. (handle_of M hp domain c, c)) (all_candidates pcs) \<and>
    distinct (cp_slot_handles pr) \<and> cp_slot_handles pr \<noteq> [] \<and> set (map fst handles) \<subseteq> set (cp_slot_handles pr) \<and>
    point_weights pr = map (\<lambda>(point, cs). (point, map (\<lambda>c. (handle_of M hp domain c, 1)) cs)) pcs"
proof -
  from assms obtain pcs where pcs: "point_candidates index domain = Inr pcs" by (auto simp: build_projection_def res_simps)
  let ?cs = "all_candidates pcs" and ?h = "handle_of M hp domain"
  let ?d = "fold (\<lambda>c. AList.update (?h c) c) ?cs []"
  let ?slots = "map fst ?d @ map (padding_handle M hp) [0..<nat (capacity - int (length ?d))]"
  let ?pr = "\<lparr>cp_slot_handles = sort ?slots, point_weights = map (\<lambda>(point, cs). (point, map (\<lambda>c. (?h c, 1)) cs)) pcs\<rparr>"
  from assms have "length ?d = length ?cs \<and> distinct ?slots \<and>
      (\<exists>points. builder_points_for index domain = Inr points \<and>
        (\<exists>u. candidate_projection_validate ?pr (Some points) = Inr u \<and> (Inr (?pr, ?d) :: (candidate_projection \<times> (string \<times> string) list) res) = Inr (pr, handles)))"
    unfolding build_projection_def pcs bindr_Inr Let_def handle_of_def [symmetric] all_candidates_def [symmetric] res_simps not_not not_less
    by blast
  then obtain points u where len: "length ?d = length ?cs" and dist: "distinct ?slots"
    and valid: "candidate_projection_validate ?pr (Some points) = Inr u"
    and eq: "(Inr (?pr, ?d) :: (candidate_projection \<times> (string \<times> string) list) res) = Inr (pr, handles)"
    by (elim exE conjE) (rule that)
  from eq have pair: "(?pr, ?d) = (pr, handles)" by (rule Inr_inject)
  from pair have pr: "pr = ?pr" by (elim Pair_inject) (rule sym)
  from pair have handles: "handles = ?d" by (elim Pair_inject) (rule sym)
  have "distinct ?cs" by (simp add: all_candidates_def)
  from handles_without_collision [OF this len] have "inj_on ?h (set ?cs)" "?d = map (\<lambda>c. (?h c, c)) ?cs" by blast+
  moreover have "cp_slot_handles pr \<noteq> []"
    using valid unfolding pr [symmetric] candidate_projection_validate_def by (simp split: if_splits)
  moreover have "distinct (cp_slot_handles pr)" "set (map fst handles) \<subseteq> set (cp_slot_handles pr)"
    using dist by (simp_all add: pr handles)
  ultimately show ?thesis using pcs handles pr by auto
qed

lemma candidates_distinct:
  assumes "point_candidates index domain = Inr pcs" and "(p, cs) \<in> set pcs"
  shows "distinct cs"
proof -
  have merged: "distinct cs" if "(p, cs) \<in> set (merge_members f index)" for f
    using that by (auto simp: merge_members_def Let_def)
  from assms show ?thesis
    unfolding point_candidates_def by (auto split: if_splits dest: merged)
qed

lemma traverse_unit_targets:
  assumes "traverse unit_targets ws = Inr ts"
  shows "ts = map (\<lambda>(point, weights). (point, sort (map fst weights))) ws"
  using assms unfolding traverse_eq_Inr
  by (induction rule: list_all2_induct) (auto simp: unit_targets_def split: if_splits)

lemma build_xor_projection_spec:
  assumes "build_xor_projection M hp index domain capacity = Inr (pr, handles)"
  shows "\<exists>pcs. point_candidates index domain = Inr pcs \<and> inj_on (handle_of M hp domain) (set (all_candidates pcs)) \<and>
    handles = map (\<lambda>c. (handle_of M hp domain c, c)) (all_candidates pcs) \<and>
    projection_ok pr (map fst pcs) \<and> set (map fst handles) \<subseteq> set (slot_handles pr) \<and>
    distinct (map fst (point_slots pr)) \<and>
    (\<forall>p. set (targets_of pr p) = handle_of M hp domain ` set (get_or [] pcs p))"
proof -
  let ?h = "handle_of M hp domain"
  from assms obtain built targets where b: "build_projection M hp index domain capacity = Inr (built, handles)"
    and t: "traverse unit_targets (point_weights built) = Inr targets"
    and pr: "pr = \<lparr>slot_handles = cp_slot_handles built, point_slots = targets\<rparr>"
    by (auto simp: build_xor_projection_def res_simps Let_def)
  from build_projection_spec [OF b] obtain pcs where pcs: "point_candidates index domain = Inr pcs"
    and inj: "inj_on ?h (set (all_candidates pcs))"
    and handles: "handles = map (\<lambda>c. (?h c, c)) (all_candidates pcs)"
    and slots: "distinct (cp_slot_handles built)" "cp_slot_handles built \<noteq> []" "set (map fst handles) \<subseteq> set (cp_slot_handles built)"
    and weights: "point_weights built = map (\<lambda>(point, cs). (point, map (\<lambda>c. (?h c, 1)) cs)) pcs"
    by (elim exE conjE) (rule that)
  have targets: "targets = map (\<lambda>(point, cs). (point, sort (map ?h cs))) pcs"
    unfolding traverse_unit_targets [OF t] weights by (simp add: comp_def case_prod_unfold)
  have cands: "set cs \<subseteq> set (all_candidates pcs)" if "(p, cs) \<in> set pcs" for p cs
    using that by (force simp: all_candidates_def)
  have "projection_ok pr (map fst pcs)"
    unfolding projection_ok_def
  proof (intro conjI ballI)
    show "slot_handles pr \<noteq> []" "distinct (slot_handles pr)" using slots by (simp_all add: pr)
    fix e assume "e \<in> set (point_slots pr)"
    then obtain p cs where e: "e = (p, sort (map ?h cs))" "(p, cs) \<in> set pcs" by (auto simp: pr targets)
    have "inj_on ?h (set cs)" using inj cands [OF e(2)] by (rule inj_on_subset)
    with candidates_distinct [OF pcs e(2)] have "distinct (map ?h cs)" by (simp add: distinct_map)
    moreover have "?h ` set cs \<subseteq> set (slot_handles pr)"
      using cands [OF e(2)] slots(3) by (auto simp: pr handles)
    moreover have "p \<in> set (map fst pcs)" using e(2) by force
    ultimately show "case e of (point, targets) \<Rightarrow> point \<in> set (map fst pcs) \<and> distinct targets \<and> set targets \<subseteq> set (slot_handles pr)"
      unfolding e(1) by simp
  qed
  moreover have "distinct (map fst (point_slots pr))"
    using point_candidates_keys(2) [OF pcs] by (simp add: pr targets comp_def case_prod_unfold)
  moreover have "set (targets_of pr p) = ?h ` set (get_or [] pcs p)" for p
  proof -
    have "targets_of pr p = sort (map ?h (get_or [] pcs p))"
      unfolding targets_of_def pr targets using get_or_map_values [of "\<lambda>cs. sort (map ?h cs)" pcs p] by simp
    then show ?thesis by simp
  qed
  moreover have "set (map fst handles) \<subseteq> set (slot_handles pr)" using slots(3) by (simp add: pr)
  ultimately show ?thesis using pcs inj handles by (intro exI [of _ pcs]) (simp only: simp_thms)
qed

section \<open>The projection on the wire\<close>

lemma str_list_back: "str_list (JList (map JStr xs)) = Some xs"
  by (simp add: list_all_iff comp_def)

definition sorted_projection :: "xor_projection \<Rightarrow> xor_projection" where
  "sorted_projection pr = \<lparr>slot_handles = slot_handles pr, point_slots = sort_key fst (point_slots pr)\<rparr>"

lemma sorted_projection_ok: "projection_ok (sorted_projection pr) u \<longleftrightarrow> projection_ok pr u"
  by (simp add: projection_ok_def sorted_projection_def)

lemma sorted_projection_slots [simp]: "slot_handles (sorted_projection pr) = slot_handles pr"
  by (simp add: sorted_projection_def)

lemma sorted_projection_targets:
  "distinct (map fst (point_slots pr)) \<Longrightarrow> targets_of (sorted_projection pr) p = targets_of pr p"
  by (simp add: targets_of_def sorted_projection_def get_or_def map_of_sort_key)

lemma projection_wire:
  assumes "projection_ok pr u"
  shows "projection_from_mapping (projection_dict pr) = Inr (sorted_projection pr)"
proof -
  let ?ps = "map (\<lambda>(point, targets). (point, JList (map JStr targets))) (sort_key fst (point_slots pr))"
  have "traverse point_targets ?ps = Inr (sort_key fst (point_slots pr))"
    unfolding traverse_eq_Inr list_all2_map1
    by (rule list_all2_refl) (auto simp: point_targets_def str_list_back simp del: str_list.simps)
  moreover have "projection_validate (sorted_projection pr) None = Inr ()"
    by (rule projection_validate_None) (use assms in \<open>simp add: sorted_projection_ok\<close>)
  ultimately show ?thesis
    by (simp add: projection_from_mapping_def projection_dict_def jget_def get_or_def str_list_back sorted_projection_def
      PROJECTION_VERSION_def Let_def del: str_list.simps)
qed

end
