(* ===== verification/Fss_Service.thy ===== *)
theory Fss_Service
  imports Fss_Projection
begin

unbundle bit_operations_syntax

text \<open>
  The evaluators and the client (\<open>multiparty_fss/requests.py\<close>, the service half of
  \<open>multiparty_fss/service.py\<close>, \<open>multiparty_fss/orchestrator.py\<close>): requests and responses with
  the bindings each side checks, evaluation at a store, the coordinator that combines exactly N
  responses, and a whole private lookup.
\<close>

section \<open>Requests\<close>

definition WIRE_VERSION_REQUEST :: string where "WIRE_VERSION_REQUEST = ''fedkg-mpfss-request-v1''"

definition REQUEST_FIELDS :: "string list" where
  "REQUEST_FIELDS = [''version'', ''construction'', ''request_id'', ''domain'', ''evaluator_id'', ''party_index'',
     ''party_count'', ''threshold'', ''key_share'', ''projection'']"

record evaluator_request =
  req_id :: string
  req_domain :: string
  req_evaluator :: string
  req_party_index :: int
  req_party_count :: int
  req_threshold :: int
  req_key :: key_share
  req_projection :: "jval option"

definition request_to_dict :: "(jval \<Rightarrow> string) \<Rightarrow> evaluator_request \<Rightarrow> jval" where
  "request_to_dict H r = JDict
     [(''version'', JStr WIRE_VERSION_REQUEST), (''construction'', JStr CONSTRUCTION_ID), (''request_id'', JStr (req_id r)),
      (''domain'', JStr (req_domain r)), (''evaluator_id'', JStr (req_evaluator r)),
      (''party_index'', JInt (req_party_index r)), (''party_count'', JInt (req_party_count r)),
      (''threshold'', JInt (req_threshold r)), (''key_share'', key_to_dict H (req_key r)),
      (''projection'', (case req_projection r of None \<Rightarrow> JNull | Some p \<Rightarrow> p))]"

definition require_str :: "exn \<Rightarrow> (string \<times> jval) list \<Rightarrow> string \<Rightarrow> string res" where
  "require_str e d name = (case nonempty_str (jget d name) of None \<Rightarrow> Inl e | Some s \<Rightarrow> Inr s)"

definition require_int :: "exn \<Rightarrow> (string \<times> jval) list \<Rightarrow> string \<Rightarrow> int res" where
  "require_int e d name = (case strict_int (jget d name) of None \<Rightarrow> Inl e | Some i \<Rightarrow> Inr i)"

definition request_from_dict :: "(jval \<Rightarrow> string) \<Rightarrow> jval \<Rightarrow> evaluator_request res" where
  "request_from_dict H payload =
     (case payload of JDict d \<Rightarrow>
        if set (map fst d) \<noteq> set REQUEST_FIELDS then Inl (RequestValidationError ''request fields invalid'')
        else if \<not> eq_str (jget d ''version'') WIRE_VERSION_REQUEST then Inl (RequestValidationError ''unsupported request version'')
        else if \<not> eq_str (jget d ''construction'') CONSTRUCTION_ID then Inl (RequestValidationError ''unsupported construction'')
        else
          let str = require_str (RequestValidationError ''must be a non-empty string'') d;
              num = require_int (RequestValidationError ''must be an integer'') d in
          bindr (str ''request_id'') (\<lambda>rid. bindr (str ''domain'') (\<lambda>domain.
          if domain \<notin> set EVALUATION_DOMAINS then Inl (RequestValidationError ''unsupported evaluation domain'')
          else
          bindr (str ''evaluator_id'') (\<lambda>eid. bindr (num ''party_index'') (\<lambda>i.
          bindr (num ''party_count'') (\<lambda>parties. bindr (num ''threshold'') (\<lambda>t.
          bindr (key_from_dict H (jget d ''key_share'')) (\<lambda>k.
          if int (party_count (key_params k)) \<noteq> parties
          then Inl (RequestValidationError ''request party_count does not match the key share'')
          else if int (threshold (key_params k)) \<noteq> t
          then Inl (RequestValidationError ''request threshold does not match the key share'')
          else if int (party_index k) \<noteq> i
          then Inl (RequestValidationError ''request party_index does not match the key share'')
          else (case jget d ''projection'' of
              JNull \<Rightarrow> Inr \<lparr>req_id = rid, req_domain = domain, req_evaluator = eid, req_party_index = i,
                req_party_count = parties, req_threshold = t, req_key = k, req_projection = None\<rparr>
            | JDict p \<Rightarrow> Inr \<lparr>req_id = rid, req_domain = domain, req_evaluator = eid, req_party_index = i,
                req_party_count = parties, req_threshold = t, req_key = k, req_projection = Some (JDict p)\<rparr>
            | _ \<Rightarrow> Inl (RequestValidationError ''projection must be an object or null'')))))))))
      | _ \<Rightarrow> Inl (RequestValidationError ''request must be a JSON object''))"

section \<open>Responses\<close>

record evaluator_response =
  resp_id :: string
  resp_evaluator :: string
  resp_party_index :: int
  resp_party_count :: int
  resp_threshold :: int
  resp_params_id :: string
  resp_keygen_id :: string
  resp_domain :: string
  resp_universe_digest :: string
  payload_kind :: string
  point_count :: "int option"
  value_shares :: "int list option"
  resp_projection_digest :: "string option"
  resp_slot_handles :: "string list option"
  candidate_slot_shares :: "int list option"

text \<open>The constructor's checks.\<close>

definition check_values :: "int list \<Rightarrow> unit res" where
  "check_values values =
     (if list_all (\<lambda>v. 0 \<le> v \<and> v \<le> WORD_MASK) values then Inr ()
      else Inl (ResponseValidationError ''output share out of the 64-bit output group''))"

definition response_values :: "evaluator_response \<Rightarrow> int list res" where
  "response_values r =
     (if payload_kind r = ''dense'' then
        (case (point_count r, value_shares r) of
          (Some n, Some vs) \<Rightarrow>
            if resp_projection_digest r \<noteq> None \<or> resp_slot_handles r \<noteq> None
            then Inl (ResponseValidationError ''dense response must not carry projection fields'')
            else if int (length vs) \<noteq> n then Inl (ResponseValidationError ''value_shares length does not match point_count'')
            else Inr vs
        | _ \<Rightarrow> Inl (ResponseValidationError ''dense response requires point_count and value_shares''))
      else if payload_kind r = ''projected'' then
        (case (resp_projection_digest r, resp_slot_handles r, candidate_slot_shares r) of
          (Some dg, Some hs, Some vs) \<Rightarrow>
            if point_count r \<noteq> None \<or> value_shares r \<noteq> None
            then Inl (ResponseValidationError ''projected response must not carry dense fields'')
            else if length vs \<noteq> length hs
            then Inl (ResponseValidationError ''candidate_slot_shares length does not match slot_handles'')
            else if \<not> distinct hs then Inl (ResponseValidationError ''slot handles must be unique'')
            else Inr vs
        | _ \<Rightarrow> Inl (ResponseValidationError ''projected response requires projection fields''))
      else Inl (ResponseValidationError ''unsupported payload_kind''))"

definition make_response :: "evaluator_response \<Rightarrow> evaluator_response res" where
  "make_response r =
     bindr (response_values r) (\<lambda>vs. bindr (check_values vs) (\<lambda>_.
     if \<not> is_lower_hex 64 (resp_universe_digest r) then Inl (ResponseValidationError ''universe_digest must be 64 hex characters'')
     else if (case resp_projection_digest r of None \<Rightarrow> False | Some dg \<Rightarrow> \<not> is_lower_hex 64 dg)
     then Inl (ResponseValidationError ''projection_digest must be 64 hex characters'')
     else if resp_domain r \<notin> set EVALUATION_DOMAINS then Inl (ResponseValidationError ''unsupported evaluation domain'')
     else Inr r))"

section \<open>Evaluation at a store\<close>

definition check_request :: "evaluator_store \<Rightarrow> evaluator_request \<Rightarrow> unit res" where
  "check_request st r =
     (if req_id r = [] then Inl (RequestValidationError ''request_id must not be empty'')
      else if req_evaluator r \<noteq> evaluator_id st then Inl (RequestValidationError ''request is addressed to a different evaluator'')
      else if req_party_index r \<noteq> int (store_party_index st)
      then Inl (RequestValidationError ''request party_index does not match this evaluator's manifest'')
      else if req_party_count r \<noteq> int (store_party_count st)
      then Inl (RequestValidationError ''request party_count does not match this evaluator's manifest'')
      else if req_threshold r \<noteq> int (store_threshold st)
      then Inl (RequestValidationError ''request threshold does not match this evaluator's manifest'')
      else if party_index (req_key r) \<noteq> store_party_index st
      then Inl (RequestValidationError ''key share party_index does not match this evaluator'')
      else if party_count (key_params (req_key r)) \<noteq> store_party_count st
      then Inl (RequestValidationError ''key share party_count does not match store'')
      else if threshold (key_params (req_key r)) \<noteq> store_threshold st
      then Inl (RequestValidationError ''key share threshold does not match store'')
      else Inr ())"

definition check_binding :: "key_share \<Rightarrow> string \<Rightarrow> string list \<Rightarrow> unit res" where
  "check_binding k dg u =
     (if domain_binding k = DOMAIN_BINDING_RAW then Inl (RequestValidationError ''key share is not bound to a universe'')
      else if domain_binding k \<noteq> dg
      then Inl (RequestValidationError ''key share universe binding does not match this evaluator's store'')
      else bindr (universe_bits u) (\<lambda>bits.
        if domain_bits (key_params k) \<noteq> bits
        then Inl (RequestValidationError ''key share domain_bits does not match the shared universe size'')
        else Inr ()))"

definition service_evaluate ::
  "xof \<Rightarrow> (jval \<Rightarrow> string) \<Rightarrow> (byte list \<Rightarrow> string) \<Rightarrow> evaluator_store \<Rightarrow> evaluator_request \<Rightarrow> evaluator_response res" where
  "service_evaluate X H sha256 st r =
     bindr (check_request st r) (\<lambda>_.
     bindr (store_universe st (req_domain r)) (\<lambda>u.
     bindr (check_binding (req_key r) (universe_digest sha256 u) u) (\<lambda>_.
     bindr (evaluate_universe X (req_key r) (length u)) (\<lambda>ws.
     let shares = map uint ws;
         base = \<lparr>resp_id = req_id r, resp_evaluator = evaluator_id st, resp_party_index = int (store_party_index st),
           resp_party_count = int (store_party_count st), resp_threshold = int (store_threshold st),
           resp_params_id = params_id H (key_params (req_key r)), resp_keygen_id = keygen_id (req_key r),
           resp_domain = req_domain r, resp_universe_digest = universe_digest sha256 u, payload_kind = ''dense'',
           point_count = Some (int (length u)), value_shares = Some shares,
           resp_projection_digest = None, resp_slot_handles = None, candidate_slot_shares = None\<rparr>
     in (case req_projection r of
          None \<Rightarrow> make_response base
        | Some payload \<Rightarrow>
            bindr (projection_from_mapping payload) (\<lambda>pr.
            bindr (project_shares pr u shares) (\<lambda>slots.
            bindr (projection_digest H pr) (\<lambda>dg.
              make_response (base\<lparr>payload_kind := ''projected'', point_count := None, value_shares := None,
                resp_projection_digest := Some dg, resp_slot_handles := Some (slot_handles pr),
                candidate_slot_shares := Some slots\<rparr>)))))))))"

section \<open>The coordinator\<close>

record combined_slots =
  comb_request_id :: string
  comb_domain :: string
  comb_keygen_id :: string
  comb_universe_digest :: string
  comb_projection_digest :: "string option"
  comb_slot_handles :: "string list"
  comb_values :: "int list"

definition nonzero_slots :: "combined_slots \<Rightarrow> (string \<times> int) list" where
  "nonzero_slots c = fold (\<lambda>(slot, v) d. if v \<noteq> 0 then AList.update slot v d else d) (zip (comb_slot_handles c) (comb_values c)) []"

definition response_agrees :: "evaluator_response \<Rightarrow> evaluator_response \<Rightarrow> bool" where
  "response_agrees reference r \<longleftrightarrow> resp_id r = resp_id reference \<and> resp_params_id r = resp_params_id reference \<and>
     resp_keygen_id r = resp_keygen_id reference \<and> resp_domain r = resp_domain reference \<and>
     resp_universe_digest r = resp_universe_digest reference \<and> payload_kind r = payload_kind reference \<and>
     resp_projection_digest r = resp_projection_digest reference \<and> resp_slot_handles r = resp_slot_handles reference \<and>
     point_count r = point_count reference"

definition check_response :: "int \<Rightarrow> int \<Rightarrow> evaluator_response \<Rightarrow> evaluator_response \<Rightarrow> unit res" where
  "check_response parties t reference r =
     (if resp_party_count r \<noteq> parties then Inl (ResponseValidationError ''response party_count does not match the coordinator'')
      else if resp_threshold r \<noteq> t then Inl (ResponseValidationError ''response threshold does not match the coordinator'')
      else if \<not> response_agrees reference r then Inl (ResponseValidationError ''evaluator response mismatch'')
      else Inr ())"

definition response_vector :: "evaluator_response list \<Rightarrow> bool \<Rightarrow> int \<Rightarrow> int list" where
  "response_vector responses projected i =
     (case find (\<lambda>r. resp_party_index r = i) responses of None \<Rightarrow> []
      | Some r \<Rightarrow> (case (if projected then candidate_slot_shares r else value_shares r) of None \<Rightarrow> [] | Some vs \<Rightarrow> vs))"

definition combine_step :: "evaluator_response list \<Rightarrow> bool \<Rightarrow> nat \<Rightarrow> int \<Rightarrow> int list \<Rightarrow> int list res" where
  "combine_step responses projected n i combined =
     (let vector = response_vector responses projected i in
      if length vector \<noteq> n then Inl (ResponseValidationError ''response share-vector length mismatch'')
      else Inr (map2 (XOR) combined vector))"

text \<open>What follows the checks on the number of responses, their indices and their evaluators.\<close>

definition combine_responses ::
  "int \<Rightarrow> int \<Rightarrow> evaluator_response list \<Rightarrow> evaluator_response \<Rightarrow> combined_slots res" where
  "combine_responses parties t responses reference =
     bindr (traverse (check_response parties t reference) responses) (\<lambda>_.
     let projected = (payload_kind reference = ''projected'');
         handles = (if projected then (case resp_slot_handles reference of None \<Rightarrow> [] | Some hs \<Rightarrow> hs) else []);
         n = (if projected then length handles else nat (case point_count reference of None \<Rightarrow> 0 | Some c \<Rightarrow> c))
     in bindr (foldM (combine_step responses projected n) [0..parties - 1] (replicate n 0))
          (\<lambda>combined. Inr \<lparr>comb_request_id = resp_id reference, comb_domain = resp_domain reference,
             comb_keygen_id = resp_keygen_id reference, comb_universe_digest = resp_universe_digest reference,
             comb_projection_digest = resp_projection_digest reference, comb_slot_handles = handles, comb_values = combined\<rparr>))"

definition coordinator_combine ::
  "int \<Rightarrow> int \<Rightarrow> evaluator_response list \<Rightarrow> string option \<Rightarrow> combined_slots res" where
  "coordinator_combine parties t responses expected =
     (if int (length responses) \<noteq> parties then Inl (ResponseValidationError ''evaluator responses are required'')
      else if sort (map resp_party_index responses) \<noteq> [0..parties - 1]
      then Inl (ResponseValidationError ''responses must carry exactly the party indices'')
      else if int (length (remdups (map resp_evaluator responses))) \<noteq> parties
      then Inl (ResponseValidationError ''evaluator IDs must be pairwise distinct'')
      else case responses of
        [] \<Rightarrow> Inl IndexError
      | reference # _ \<Rightarrow>
          if expected \<noteq> None \<and> expected \<noteq> Some (resp_id reference)
          then Inl (ResponseValidationError ''response request_id does not match the expected request'')
          else combine_responses parties t responses reference)"

section \<open>A private lookup\<close>

definition validated_topology :: "evaluator_store list \<Rightarrow> (nat \<times> nat) res" where
  "validated_topology stores =
     (case stores of
        [] \<Rightarrow> Inl (StoreError ''no evaluator services configured'')
      | s0 # _ \<Rightarrow>
          if length stores \<noteq> store_party_count s0 then Inl (StoreError ''evaluator services are required'')
          else if sort (map store_party_index stores) \<noteq> [0..<store_party_count s0]
          then Inl (StoreError ''evaluator services must cover party indices exactly once'')
          else if \<not> list_all (\<lambda>s. store_party_count s = store_party_count s0 \<and> store_threshold s = store_threshold s0 \<and>
              evaluator_ids s = evaluator_ids s0) stores
          then Inl (StoreError ''evaluator stores disagree on the topology manifest'')
          else Inr (store_party_count s0, store_threshold s0))"

text \<open>\<open>{store.party_index: ...}[i]\<close>: a later service replaces an earlier one of the same index.\<close>

definition by_index :: "('a \<Rightarrow> nat) \<Rightarrow> 'a list \<Rightarrow> nat \<Rightarrow> 'a res" where
  "by_index f xs i = (case find (\<lambda>x. f x = i) (rev xs) of None \<Rightarrow> Inl KeyError | Some x \<Rightarrow> Inr x)"

record query_result =
  result_request_id :: string
  result_domain :: string
  alpha_in_universe :: bool
  result_candidates :: "(string \<times> int) list"
  result_combined :: combined_slots

definition lower_char :: "char \<Rightarrow> char" where
  "lower_char c = (let n = of_char c :: nat in
     if (65 \<le> n \<and> n \<le> 90) \<or> (192 \<le> n \<and> n \<le> 222 \<and> n \<noteq> 215) then char_of (n + 32) else c)"

definition query ::
  "xof \<Rightarrow> (jval \<Rightarrow> string) \<Rightarrow> (byte list \<Rightarrow> string) \<Rightarrow> hmac \<Rightarrow> handle_provider \<Rightarrow> evaluator_store list \<Rightarrow>
   string \<Rightarrow> string \<Rightarrow> string \<Rightarrow> int \<Rightarrow> int \<Rightarrow> rng \<Rightarrow> query_result res option" where
  "query X H sha256 M hp stores request_id domain alpha_point capacity beta g =
     (let (rid, g) = (if request_id = [] then token_hex 16 g else (request_id, g)) in
      bindo (Some (validated_topology stores)) (\<lambda>(parties, t).
      bindo (Some (traverse (\<lambda>s. bindr (store_universe s domain) (\<lambda>u. Inr (s, u))) stores)) (\<lambda>universes.
      let digests = remdups (map (\<lambda>(s, u). universe_digest sha256 u) universes) in
      if length digests \<noteq> 1
      then Some (Inl (StoreError ''evaluator stores serve different universes for this domain''))
      else
      bindo (Some (by_index (\<lambda>(s, u). store_party_index s) universes 0)) (\<lambda>(s0, u).
      let dg = universe_digest sha256 u;
          rank = rank_of u (map lower_char alpha_point);
          alpha = (case rank of None \<Rightarrow> 0 | Some i \<Rightarrow> int i);
          value = (case rank of None \<Rightarrow> 0 | Some i \<Rightarrow> beta)
      in
      bindo (Some (universe_params u (int parties) (Some (int t)))) (\<lambda>P.
      bindo (generate X alpha value (int parties) (Some (int t)) (Some P) None dg g) (\<lambda>(keys, g).
      Some (
        bindr (build_xor_projection M hp (store_index s0) domain capacity) (\<lambda>(pr, handles).
        bindr (traverse (\<lambda>i.
            bindr (by_index store_party_index stores i) (\<lambda>s.
            service_evaluate X H sha256 s
              \<lparr>req_id = rid, req_domain = domain, req_evaluator = evaluator_id s, req_party_index = int i,
               req_party_count = int parties, req_threshold = int t, req_key = keys ! i,
               req_projection = Some (projection_dict pr)\<rparr>)) [0..<parties]) (\<lambda>responses.
        bindr (coordinator_combine (int parties) (int t) responses (Some rid)) (\<lambda>combined.
        if comb_universe_digest combined \<noteq> dg
        then Inl (RequestValidationError ''combined response universe digest does not match the client view'')
        else Inr \<lparr>result_request_id = rid, result_domain = domain, alpha_in_universe = (rank \<noteq> None),
               result_candidates = candidate_values handles (nonzero_slots combined), result_combined = combined\<rparr>))))))))))"

end
