(* ===== verification/Fss_Query.thy ===== *)
theory Fss_Query
  imports Fss_Service
begin

unbundle bit_operations_syntax

text \<open>
  A whole private lookup: the stores of one replication, the client that queries them, the N
  evaluations and the combination, against the plain lookup of the queried point's candidates.
\<close>

section \<open>The shares of a universe\<close>

lemma universe_shares:
  assumes keys: "drawn_keys X P alpha beta dg keys" and P: "params_valid P"
    and n: "0 < n" "n \<le> domain_size P"
  shows "\<exists>W. (\<forall>i < party_count P. evaluate_universe X (keys ! i) n = Inr (W i) \<and> length (W i) = n) \<and>
    (\<forall>j < n. xor_sum (\<lambda>i. W i ! j) [0..<party_count P] = (if int j = alpha then word_of_int beta else 0))"
proof -
  define W where "W i = (case evaluate_universe X (keys ! i) n of Inr ws \<Rightarrow> ws | Inl _ \<Rightarrow> [])" for i
  have len: "length keys = party_count P" using keys by (auto simp: drawn_keys_def)
  have W: "evaluate_universe X (keys ! i) n = Inr (W i)" "length (W i) = n"
    "traverse (eval_point X (keys ! i)) (map int [0..<n]) = Inr (map uint (W i))" if "i < party_count P" for i
  proof -
    have "keys ! i \<in> set keys" using that len by simp
    note k = drawn_keys_ok [OF keys P this]
    from evaluate_universe_eq [OF k(1), of n X] n k(2) obtain ws where
      "evaluate_universe X (keys ! i) n = Inr ws" "length ws = n"
      "traverse (eval_point X (keys ! i)) (map int [0..<n]) = Inr (map uint ws)" by auto
    then show "evaluate_universe X (keys ! i) n = Inr (W i)" "length (W i) = n"
      "traverse (eval_point X (keys ! i)) (map int [0..<n]) = Inr (map uint (W i))"
      by (simp_all add: W_def)
  qed
  have "xor_sum (\<lambda>i. W i ! j) [0..<party_count P] = (if int j = alpha then word_of_int beta else 0)" if j: "j < n" for j
  proof -
    have "int j < int (domain_size P)" using j n by simp
    from drawn_keys_combine [OF keys _ this] obtain ws :: "64 word list" where ws: "length ws = party_count P"
      "traverse (\<lambda>k. eval_point X k (int j)) keys = Inr (map uint ws)"
      "xor_sum id ws = (if int j = alpha then word_of_int beta else 0)" by auto
    have "W i ! j = ws ! i" if i: "i < party_count P" for i
    proof -
      have "eval_point X (keys ! i) (int j) = Inr (uint (W i ! j))"
        using traverse_nth [OF W(3) [OF i], of j] j W(2) [OF i] by simp
      moreover have "eval_point X (keys ! i) (int j) = Inr (uint (ws ! i))"
        using traverse_nth [OF ws(2), of i] i len ws(1) by simp
      ultimately have "uint (W i ! j) = uint (ws ! i)" by simp
      then show ?thesis by (simp only: word_uint_eq_iff)
    qed
    then have "xor_sum (\<lambda>i. W i ! j) [0..<party_count P] = xor_sum (\<lambda>i. id (ws ! i)) [0..<length ws]"
      unfolding ws(1) by (intro xor_sum_cong) simp
    then show ?thesis using ws(3) by (simp only: xor_sum_nth)
  qed
  with W(1,2) show ?thesis by blast
qed

section \<open>One evaluator\<close>

definition projected_response ::
  "(jval \<Rightarrow> string) \<Rightarrow> evaluator_store \<Rightarrow> evaluator_request \<Rightarrow> string \<Rightarrow> xor_projection \<Rightarrow> int list \<Rightarrow> evaluator_response" where
  "projected_response H st r dg pr slots = \<lparr>resp_id = req_id r, resp_evaluator = evaluator_id st,
     resp_party_index = int (store_party_index st), resp_party_count = int (store_party_count st),
     resp_threshold = int (store_threshold st), resp_params_id = params_id H (key_params (req_key r)),
     resp_keygen_id = keygen_id (req_key r), resp_domain = req_domain r, resp_universe_digest = dg,
     payload_kind = ''projected'', point_count = None, value_shares = None,
     resp_projection_digest = Some (H (canonical_json (projection_dict pr))),
     resp_slot_handles = Some (slot_handles pr), candidate_slot_shares = Some slots\<rparr>"

lemma service_evaluate_projected:
  assumes "check_request st r = Inr ()" and u: "store_universe st (req_domain r) = Inr u"
    and "check_binding (req_key r) (universe_digest sha256 u) u = Inr ()"
    and ws: "evaluate_universe X (req_key r) (length u) = Inr ws" "length ws = length u"
    and pr: "req_projection r = Some payload" "projection_from_mapping payload = Inr pr" "projection_ok pr u"
    and hex: "\<And>m. is_lower_hex 64 (sha256 m)" "\<And>v. is_lower_hex 64 (H v)"
  shows "service_evaluate X H sha256 st r = Inr (projected_response H st r (universe_digest sha256 u) pr
    (map uint (map (slot_word pr u ws) [0..<length (slot_handles pr)])))"
proof -
  have domain: "req_domain r \<in> set EVALUATION_DOMAINS" using u by (auto simp: store_universe_def split: if_splits)
  have vals: "check_values (map uint (vs :: 64 word list)) = Inr ()" for vs
    using uint_bounds by (auto simp: check_values_def list_all_iff)
  have slots: "project_shares pr u (map uint ws) = Inr (map uint (map (slot_word pr u ws) [0..<length (slot_handles pr)]))"
    by (rule project_shares_words [OF pr(3) ws(2)])
  have dg: "projection_digest H pr = Inr (H (canonical_json (projection_dict pr)))"
    using projection_validate_None [OF pr(3)] by (simp add: projection_digest_def)
  have dist: "distinct (slot_handles pr)" using pr(3) by (simp add: projection_ok_def)
  have make: "make_response (projected_response H st r (universe_digest sha256 u) pr
      (map uint (map (slot_word pr u ws) [0..<length (slot_handles pr)]))) =
    Inr (projected_response H st r (universe_digest sha256 u) pr
      (map uint (map (slot_word pr u ws) [0..<length (slot_handles pr)])))"
    unfolding make_response_def response_values_def
    using hex domain dist vals [of "map (slot_word pr u ws) [0..<length (slot_handles pr)]"]
    by (simp add: projected_response_def universe_digest_def)
  show ?thesis
    unfolding service_evaluate_def assms(1,3) u ws(1) pr(1,2) bindr_Inr Let_def option.case slots dg
    using make by (simp add: projected_response_def)
qed

section \<open>The coordinator\<close>

lemma fold_vectors:
  assumes "\<And>i. i \<in> set is \<Longrightarrow> response_vector rs pj (int i) = map uint (V i :: 64 word list) \<and> length (V i) = n"
    and "length a = n"
  shows "foldM (combine_step rs pj n) (map int is) (map uint a) =
    Inr (map uint (map (\<lambda>k. a ! k XOR xor_sum (\<lambda>i. V i ! k) is) [0..<n]))"
  using assms
proof (induction "is" arbitrary: a)
  case Nil
  then have "map (\<lambda>k. a ! k) [0..<n] = a" using map_nth [of a] by simp
  then show ?case by (simp del: map_map)
next
  case (Cons i "is")
  let ?a = "map (\<lambda>k. a ! k XOR V i ! k) [0..<n]"
  have i: "response_vector rs pj (int i) = map uint (V i)" "length (V i) = n" using Cons.prems(1) [of i] by simp_all
  have "map2 (XOR) (map uint a) (map uint (V i)) = map uint ?a"
    using i(2) Cons.prems(2) by (intro nth_equalityI) (simp_all add: uint_xor)
  then have "foldM (combine_step rs pj n) (map int (i # is)) (map uint a) = foldM (combine_step rs pj n) (map int is) (map uint ?a)"
    using i by (simp add: combine_step_def)
  also have "\<dots> = Inr (map uint (map (\<lambda>k. ?a ! k XOR xor_sum (\<lambda>i. V i ! k) is) [0..<n]))"
    by (rule Cons.IH) (use Cons.prems(1) in simp_all)
  also have "map (\<lambda>k. ?a ! k XOR xor_sum (\<lambda>i. V i ! k) is) [0..<n] =
      map (\<lambda>k. a ! k XOR xor_sum (\<lambda>i. V i ! k) (i # is)) [0..<n]"
    by (rule map_cong [OF refl]) (simp add: xor.assoc)
  finally show ?case .
qed

lemma find_at:
  assumes "i < n" and "\<And>j. j < n \<Longrightarrow> f (xs j) = int j"
  shows "find (\<lambda>r. f r = int i) (map xs [0..<n]) = Some (xs i)"
proof -
  have "xs i \<in> set (map xs [0..<n])" using assms(1) by simp
  with assms have "find (\<lambda>r. f r = int i) (map xs [0..<n]) \<noteq> None"
    unfolding find_None_iff by blast
  then obtain y where y: "find (\<lambda>r. f r = int i) (map xs [0..<n]) = Some y" by blast
  then have "y \<in> set (map xs [0..<n])" "f y = int i"
    unfolding find_Some_iff by (metis nth_mem)+
  then obtain j where j: "j < n" "y = xs j" by auto
  with assms(2) [OF j(1)] \<open>f y = int i\<close> have "j = i" by simp
  with y j show ?thesis by simp
qed

lemma coordinator_combine_projected:
  assumes n: "0 < n"
    and idx: "\<And>i. i < n \<Longrightarrow> resp_party_index (R i) = int i"
    and ids: "distinct (map (\<lambda>i. resp_evaluator (R i)) [0..<n])"
    and topo: "\<And>i. i < n \<Longrightarrow> resp_party_count (R i) = int n \<and> resp_threshold (R i) = t"
    and agree: "\<And>i. i < n \<Longrightarrow> response_agrees (R 0) (R i)"
    and kind: "payload_kind (R 0) = ''projected''" "resp_slot_handles (R 0) = Some hs"
    and vals: "\<And>i. i < n \<Longrightarrow> candidate_slot_shares (R i) = Some (map uint (V i :: 64 word list)) \<and> length (V i) = length hs"
  shows "coordinator_combine (int n) t (map R [0..<n]) (Some (resp_id (R 0))) =
    Inr \<lparr>comb_request_id = resp_id (R 0), comb_domain = resp_domain (R 0), comb_keygen_id = resp_keygen_id (R 0),
      comb_universe_digest = resp_universe_digest (R 0), comb_projection_digest = resp_projection_digest (R 0),
      comb_slot_handles = hs, comb_values = map uint (map (\<lambda>k. xor_sum (\<lambda>i. V i ! k) [0..<n]) [0..<length hs])\<rparr>"
proof -
  let ?Rs = "map R [0..<n]"
  have sorted: "sort (map resp_party_index ?Rs) = [0..int n - 1]"
  proof -
    have "map resp_party_index ?Rs = map int [0..<n]" using idx by simp
    moreover have "sort (map int [0..<n]) = map int [0..<n]"
      by (rule sorted_sort_id) (simp add: sorted_map sorted_wrt_upt mono_def)
    ultimately show ?thesis by (simp only: upto_int)
  qed
  have distinct: "int (length (remdups (map resp_evaluator ?Rs))) = int n"
    using ids by (simp add: comp_def distinct_remdups_id)
  have "[0..<n] = 0 # [Suc 0..<n]" using n by (rule upt_conv_Cons)
  then obtain rest where upt: "?Rs = R 0 # rest" by simp
  have check: "check_response (int n) t (R 0) r = Inr ()" if "r \<in> set ?Rs" for r
  proof -
    from that obtain i where i: "i < n" "r = R i" by auto
    from topo [OF i(1)] agree [OF i(1)] show ?thesis by (simp add: i(2) check_response_def)
  qed
  have "\<exists>us. traverse (check_response (int n) t (R 0)) ?Rs = Inr us" by (rule traverse_units_ok) (rule check)
  then obtain us where us: "traverse (check_response (int n) t (R 0)) ?Rs = Inr us" by blast
  have vec: "response_vector ?Rs True (int i) = map uint (V i) \<and> length (V i) = length hs" if "i \<in> set [0..<n]" for i
    using that find_at [of i n resp_party_index R] idx vals by (simp add: response_vector_def)
  have zeros: "map (\<lambda>k. replicate (length hs) 0 ! k XOR f k) [0..<length hs] = map f [0..<length hs]"
    for f :: "nat \<Rightarrow> 64 word" by (rule map_cong [OF refl]) simp
  have comb: "foldM (combine_step ?Rs True (length hs)) (map int [0..<n]) (replicate (length hs) 0) =
      Inr (map uint (map (\<lambda>k. xor_sum (\<lambda>i. V i ! k) [0..<n]) [0..<length hs]))"
    using fold_vectors [of "[0..<n]" ?Rs True V "length hs" "replicate (length hs) 0", OF vec]
    unfolding zeros by simp
  have "coordinator_combine (int n) t ?Rs (Some (resp_id (R 0))) = combine_responses (int n) t ?Rs (R 0)"
  proof -
    have "int (length ?Rs) = int n" by simp
    then show ?thesis unfolding coordinator_combine_def using sorted distinct unfolding upt by simp
  qed
  also have "\<dots> = Inr \<lparr>comb_request_id = resp_id (R 0), comb_domain = resp_domain (R 0), comb_keygen_id = resp_keygen_id (R 0),
      comb_universe_digest = resp_universe_digest (R 0), comb_projection_digest = resp_projection_digest (R 0),
      comb_slot_handles = hs, comb_values = map uint (map (\<lambda>k. xor_sum (\<lambda>i. V i ! k) [0..<n]) [0..<length hs])\<rparr>"
    unfolding combine_responses_def us kind upto_int Let_def
    using comb by simp
  finally show ?thesis .
qed

section \<open>Reading the slots\<close>

definition nonzero_of :: "'a \<Rightarrow> int option \<Rightarrow> int option" where
  "nonzero_of x v = (case v of None \<Rightarrow> None | Some v \<Rightarrow> if v = 0 then None else Some v)"

lemma fold_nonzero:
  assumes "distinct (map fst sv)" and "fst ` set sv \<inter> fst ` set d = {}"
  shows "map_of (fold (\<lambda>(slot, v) d. if v \<noteq> 0 then AList.update slot v d else d) sv d) h =
    (case map_of sv h of None \<Rightarrow> map_of d h | Some v \<Rightarrow> if (v :: int) = 0 then None else Some v)"
  using assms
proof (induction sv arbitrary: d)
  case (Cons e sv)
  obtain slot v where e: "e = (slot, v)" by (cases e)
  let ?d = "if v \<noteq> 0 then AList.update slot v d else d"
  have fresh: "map_of d slot = None" using Cons.prems(2) by (auto simp: e map_of_eq_None_iff)
  have gone: "map_of sv slot = None" using Cons.prems(1) by (auto simp: e map_of_eq_None_iff)
  have "map_of (fold (\<lambda>(slot, v) d. if v \<noteq> 0 then AList.update slot v d else d) sv ?d) h =
      (case map_of sv h of None \<Rightarrow> map_of ?d h | Some v \<Rightarrow> if v = 0 then None else Some v)"
    by (rule Cons.IH) (use Cons.prems in \<open>auto simp: e dom_update\<close>)
  then show ?case using fresh gone by (auto simp: e update_conv' split: option.splits)
qed simp

lemma distinct_fold_nonzero:
  "distinct (map fst d) \<Longrightarrow>
    distinct (map fst (fold (\<lambda>(slot, v) d. if v \<noteq> (0::int) then AList.update slot v d else d) sv d))"
  by (induction sv arbitrary: d) (auto simp: distinct_update)

lemma nonzero_slots_map:
  assumes "distinct (comb_slot_handles c)" and "length (comb_values c) = length (comb_slot_handles c)"
  shows "map_of (nonzero_slots c) h =
    (case map_of (zip (comb_slot_handles c) (comb_values c)) h of None \<Rightarrow> None | Some v \<Rightarrow> if v = 0 then None else Some v)"
    and "distinct (map fst (nonzero_slots c))"
proof -
  have d: "distinct (map fst (zip (comb_slot_handles c) (comb_values c)))" using assms by simp
  show "map_of (nonzero_slots c) h =
    (case map_of (zip (comb_slot_handles c) (comb_values c)) h of None \<Rightarrow> None | Some v \<Rightarrow> if v = 0 then None else Some v)"
    unfolding nonzero_slots_def using fold_nonzero [OF d, of "[]" h] by (simp cong: option.case_cong)
  show "distinct (map fst (nonzero_slots c))"
    unfolding nonzero_slots_def by (rule distinct_fold_nonzero) simp
qed

lemma map_of_candidates:
  assumes "inj_on h (set cs)" and "c \<in> set cs"
  shows "map_of (map (\<lambda>c. (h c, c)) cs) (h c) = Some c"
  using assms
proof (induction cs)
  case (Cons a cs)
  show ?case
  proof (cases "h a = h c")
    case True
    then have "a = c" using Cons.prems by (auto dest: inj_onD)
    then show ?thesis by simp
  next
    case False
    then have "c \<in> set cs" using Cons.prems(2) by auto
    moreover have "inj_on h (set cs)" using Cons.prems(1) by (simp add: inj_on_def)
    ultimately show ?thesis using False Cons.IH by simp
  qed
qed simp

lemma map_of_candidates_Some: "map_of (map (\<lambda>c. (h c, c)) cs) x = Some c \<Longrightarrow> c \<in> set cs \<and> x = h c"
  by (auto dest!: map_of_SomeD)

lemma candidate_values_map:
  assumes inj: "inj_on h (set cs)" and "distinct (map fst sv)"
  shows "map_of (candidate_values (map (\<lambda>c. (h c, c)) cs) sv) c =
    (if c \<in> set cs then (case map_of sv (h c) of None \<Rightarrow> None | Some v \<Rightarrow> if v = 0 then None else Some v) else None)"
proof -
  let ?al = "map (\<lambda>c. (h c, c)) cs"
  let ?step = "\<lambda>(x, v :: int) d. case map_of ?al x of Some c \<Rightarrow> if v \<noteq> 0 then AList.update c v d else d | None \<Rightarrow> d"
  have "map_of (fold ?step sv d) c =
      (if c \<in> set cs then (case map_of sv (h c) of None \<Rightarrow> map_of d c | Some v \<Rightarrow> if v = 0 then map_of d c else Some v)
       else map_of d c)" for d
    using assms(2)
  proof (induction sv arbitrary: d)
    case (Cons e sv)
    obtain x v where e: "e = (x, v)" by (cases e)
    have gone: "map_of sv x = None" using Cons.prems by (auto simp: e map_of_eq_None_iff)
    have dist: "distinct (map fst sv)" using Cons.prems by (simp add: e)
    note IH = Cons.IH [OF dist, of "?step (x, v) d"]
    show ?case
    proof (cases "map_of ?al x")
      case None
      then have "c \<in> set cs \<Longrightarrow> h c \<noteq> x" using map_of_candidates [OF inj] by fastforce
      then have "c \<in> set cs \<Longrightarrow> map_of ((x, v) # sv) (h c) = map_of sv (h c)" by auto
      moreover have "map_of ((x, v) # sv) (h c) = map_of sv (h c)" if "h c \<noteq> x" using that by simp
      moreover have "?step (x, v) d = d" using None by simp
      ultimately show ?thesis using IH unfolding e fold_simps comp_def
        by (simp only:) (simp split: if_split)
    next
      case (Some c')
      from map_of_candidates_Some [OF Some] have c': "c' \<in> set cs" "x = h c'" by blast+
      have same: "c \<in> set cs \<Longrightarrow> (h c = x) = (c = c')" using inj c' by (auto dest: inj_onD)
      show ?thesis
      proof (cases "c = c'")
        case True
        with IH Some gone c' show ?thesis by (simp add: e update_conv')
      next
        case False
        with IH Some same show ?thesis by (auto simp: e update_conv' split: option.split)
      qed
    qed
  qed simp
  from this [of "[]"] show ?thesis by (simp add: candidate_values_def split: option.split)
qed

section \<open>The stores of one replication\<close>

definition replica_stores :: "string list \<Rightarrow> int \<Rightarrow> opaque_snapshot list \<Rightarrow> evaluator_store list \<Rightarrow> bool" where
  "replica_stores ids r index stores \<longleftrightarrow> mset stores = mset (map (store_of ids r index) [0..<length ids])"

lemma replica_stores_facts:
  assumes "replica_stores ids r index stores"
  shows "length stores = length ids" and "set stores = store_of ids r index ` {0..<length ids}"
    and "mset (map store_party_index stores) = mset [0..<length ids]" and "distinct (map store_party_index stores)"
proof -
  from assms have m: "mset stores = mset (map (store_of ids r index) [0..<length ids])" by (simp add: replica_stores_def)
  show "length stores = length ids" using mset_eq_length [OF m] by simp
  show "set stores = store_of ids r index ` {0..<length ids}" using mset_eq_setD [OF m] by simp
  have "map store_party_index (map (store_of ids r index) [0..<length ids]) = [0..<length ids]"
    by (rule nth_equalityI) (simp_all add: store_of_def)
  then show idx: "mset (map store_party_index stores) = mset [0..<length ids]"
    using m by (metis mset_map)
  show "distinct (map store_party_index stores)" using mset_eq_imp_distinct_iff [OF idx] by simp
qed

lemma replica_topology:
  assumes "replica_stores ids r index stores" and "0 < length ids"
  shows "validated_topology stores = Inr (length ids, nat r)"
proof -
  note f = replica_stores_facts [OF assms(1)]
  have each: "store_party_count s = length ids \<and> store_threshold s = nat r \<and> evaluator_ids s = ids" if "s \<in> set stores" for s
    using that unfolding f(2) by (auto simp: store_of_def)
  obtain s0 rest where s: "stores = s0 # rest" using f(1) assms(2) by (cases stores) auto
  have s0: "store_party_count s0 = length ids" "store_threshold s0 = nat r" "evaluator_ids s0 = ids" using each [of s0] s by auto
  have "sort (map store_party_index stores) = [0..<length ids]"
    by (rule properties_for_sort) (use f(3) in auto)
  moreover have "list_all (\<lambda>s. store_party_count s = length ids \<and> store_threshold s = nat r \<and> evaluator_ids s = ids) stores"
    using each by (simp add: list_all_iff)
  ultimately show ?thesis using f(1) s0 unfolding validated_topology_def s by simp
qed

lemma by_index_unique:
  assumes "distinct (map f xs)" and "x \<in> set xs" and "f x = i"
  shows "by_index f xs i = Inr x"
proof -
  have "find (\<lambda>x. f x = i) (rev xs) \<noteq> None" using assms(2,3) by (auto simp: find_None_iff)
  then obtain y where y: "find (\<lambda>x. f x = i) (rev xs) = Some y" by blast
  then have "y \<in> set xs" "f y = i" unfolding find_Some_iff by (metis nth_mem set_rev)+
  with assms have "y = x" by (auto simp: distinct_map dest: inj_onD)
  with y show ?thesis by (simp add: by_index_def)
qed

lemma replica_by_index:
  assumes "replica_stores ids r index stores" and "i < length ids"
  shows "by_index store_party_index stores i = Inr (store_of ids r index i)"
proof (rule by_index_unique)
  note f = replica_stores_facts [OF assms(1)]
  show "distinct (map store_party_index stores)" by (fact f(4))
  show "store_of ids r index i \<in> set stores" unfolding f(2) using assms(2) by simp
  show "store_party_index (store_of ids r index i) = i" by (simp add: store_of_def)
qed

section \<open>One round of a lookup\<close>

lemma universe_from_ok: "universe_ok u \<Longrightarrow> universe_from_points u = Inr u"
proof -
  assume u: "universe_ok u"
  then have "sort (remdups u) = u" by (simp add: universe_ok_def distinct_remdups_id sorted_sort_id)
  with u show ?thesis unfolding universe_from_points_def make_universe_iff by simp
qed

lemma universe_params_facts:
  assumes "universe_params u parties t = Inr P"
  shows "params_valid P" and "universe_bits u = Inr (domain_bits P)" and "length u \<le> domain_size P" and "0 < length u"
    and "int (party_count P) = parties" and "t = Some r \<Longrightarrow> int (threshold P) = r"
proof -
  from assms obtain bits where bits: "domain_bits_for_universe (int (length u)) = Inr bits"
    and c: "create_params (int bits) parties t = Inr P"
    by (auto simp: universe_params_def universe_bits_def res_simps)
  from make_params_valid [OF c [unfolded create_params_def]] have P: "params_valid P" "domain_bits P = bits"
    "int (party_count P) = parties" "t = Some r \<Longrightarrow> int (threshold P) = r" by auto
  note sound = universe_bits_sound [OF bits]
  show "params_valid P" "int (party_count P) = parties" "t = Some r \<Longrightarrow> int (threshold P) = r" by (fact P)+
  show "universe_bits u = Inr (domain_bits P)" using bits P(2) by (simp add: universe_bits_def)
  have "int (length u) \<le> int (2 ^ bits)" using sound(2) by simp
  then show "length u \<le> domain_size P" unfolding domain_size_def P(2) by linarith
  show "0 < length u" using sound(1) by (cases u) simp_all
qed

definition party_request :: "string \<Rightarrow> string \<Rightarrow> string list \<Rightarrow> int \<Rightarrow> key_share list \<Rightarrow> xor_projection \<Rightarrow> nat \<Rightarrow> evaluator_request" where
  "party_request rid domain ids r keys pr i = \<lparr>req_id = rid, req_domain = domain, req_evaluator = ids ! i,
     req_party_index = int i, req_party_count = int (length ids), req_threshold = r, req_key = keys ! i,
     req_projection = Some (projection_dict pr)\<rparr>"

lemma party_keys:
  assumes "drawn_keys X P alpha beta binding keys" and "i < party_count P"
  shows "party_index (keys ! i) = i" and "keygen_id (keys ! i) = keygen_id (keys ! 0)"
  using assms by (auto simp: drawn_keys_def share_at_def)

lemma party_response:
  assumes top: "validate_topology ids t = Inr r" and domain: "domain \<in> set EVALUATION_DOMAINS"
    and points: "points_for index domain = Inr u" and u: "universe_ok u"
    and P: "universe_params u (int (length ids)) (Some r) = Inr P"
    and keys: "drawn_keys X P alpha beta (universe_digest sha256 u) keys"
    and pr: "projection_ok pr u" and rid: "rid \<noteq> []"
    and hex: "\<And>m. is_lower_hex 64 (sha256 m)" "\<And>v. is_lower_hex 64 (H v)"
    and i: "i < length ids" and ws: "evaluate_universe X (keys ! i) (length u) = Inr ws" "length ws = length u"
  shows "service_evaluate X H sha256 (store_of ids r index i) (party_request rid domain ids r keys pr i) =
    Inr (projected_response H (store_of ids r index i) (party_request rid domain ids r keys pr i) (universe_digest sha256 u)
      (sorted_projection pr) (map uint (map (slot_word (sorted_projection pr) u ws) [0..<length (slot_handles pr)])))"
proof -
  let ?st = "store_of ids r index i" and ?q = "party_request rid domain ids r keys pr i"
  note facts = universe_params_facts [OF P]
  note v = validate_topology_Inr [OF top]
  have n: "party_count P = length ids" using facts(5) by simp
  have t: "threshold P = nat r" using facts(6) [OF refl] by simp
  have mem: "keys ! i \<in> set keys" using keys i n by (auto simp: drawn_keys_def intro!: nth_mem)
  note k = drawn_keys_ok [OF keys facts(1) mem]
  have request: "check_request ?st ?q = Inr ()"
    using rid v(5) n t k(2) party_keys(1) [OF keys, of i] i
    by (simp add: check_request_def store_of_def party_request_def)
  have universe: "store_universe ?st (req_domain ?q) = Inr u"
    using domain points universe_from_ok [OF u] by (simp add: store_universe_def store_of_def party_request_def)
  have "universe_digest sha256 u \<noteq> DOMAIN_BINDING_RAW"
    using hex(1) by (auto simp: universe_digest_def DOMAIN_BINDING_RAW_def is_lower_hex_def dest: arg_cong [of _ _ length])
  then have binding: "check_binding (req_key ?q) (universe_digest sha256 u) u = Inr ()"
    using k(2,3) facts(2) by (simp add: check_binding_def party_request_def)
  have key: "req_key ?q = keys ! i" "req_projection ?q = Some (projection_dict pr)" by (simp_all add: party_request_def)
  have ok: "projection_ok (sorted_projection pr) u" using pr by (simp only: sorted_projection_ok)
  have "evaluate_universe X (req_key ?q) (length u) = Inr ws" using ws(1) by (simp only: key(1))
  from service_evaluate_projected [OF request universe binding this ws(2) key(2) projection_wire [OF pr] ok hex]
  show ?thesis by simp
qed

lemma lookup_round:
  assumes top: "validate_topology ids t = Inr r" and stores: "replica_stores ids r index stores"
    and domain: "domain \<in> set EVALUATION_DOMAINS"
    and points: "points_for index domain = Inr u" and u: "universe_ok u"
    and P: "universe_params u (int (length ids)) (Some r) = Inr P"
    and keys: "drawn_keys X P alpha beta (universe_digest sha256 u) keys"
    and pr: "projection_ok pr u" "distinct (map fst (point_slots pr))" and rid: "rid \<noteq> []"
    and hex: "\<And>m. is_lower_hex 64 (sha256 m)" "\<And>v. is_lower_hex 64 (H v)"
  shows "\<exists>c. bindr (traverse (\<lambda>i. bindr (by_index store_party_index stores i) (\<lambda>s.
        service_evaluate X H sha256 s
          \<lparr>req_id = rid, req_domain = domain, req_evaluator = evaluator_id s, req_party_index = int i,
           req_party_count = int (length ids), req_threshold = r, req_key = keys ! i,
           req_projection = Some (projection_dict pr)\<rparr>)) [0..<length ids])
      (\<lambda>responses. coordinator_combine (int (length ids)) r responses (Some rid)) = Inr c \<and>
    comb_universe_digest c = universe_digest sha256 u \<and> comb_slot_handles c = slot_handles pr \<and>
    comb_values c = map (\<lambda>k. if nat alpha < length u \<and> slot_handles pr ! k \<in> set (targets_of pr (u ! nat alpha))
      then beta else 0) [0..<length (slot_handles pr)]"
proof -
  let ?n = "length ids" and ?dg = "universe_digest sha256 u" and ?m = "length (slot_handles pr)" and ?sp = "sorted_projection pr"
  note facts = universe_params_facts [OF P]
  note v = validate_topology_Inr [OF top]
  have n: "party_count P = ?n" using facts(5) by simp
  from universe_shares [OF keys facts(1,4,3)] obtain W where
    W: "\<forall>i < ?n. evaluate_universe X (keys ! i) (length u) = Inr (W i) \<and> length (W i) = length u"
    and sum: "\<forall>j < length u. xor_sum (\<lambda>i. W i ! j) [0..<?n] = (if int j = alpha then word_of_int beta else 0)"
    unfolding n by blast
  have pos: "0 < ?n" using v(1) by (cases ids) simp_all
  have alpha: "0 \<le> alpha" "0 \<le> beta" "beta < 2 ^ 64" using keys by (simp_all add: drawn_keys_def OUTPUT_BITS_def)
  define V where "V i = map (slot_word ?sp u (W i)) [0..<?m]" for i
  define R where "R i = projected_response H (store_of ids r index i) (party_request rid domain ids r keys pr i) ?dg ?sp (map uint (V i))" for i
  have each: "bindr (by_index store_party_index stores i) (\<lambda>s. service_evaluate X H sha256 s
          \<lparr>req_id = rid, req_domain = domain, req_evaluator = evaluator_id s, req_party_index = int i,
           req_party_count = int ?n, req_threshold = r, req_key = keys ! i, req_projection = Some (projection_dict pr)\<rparr>) = Inr (R i)"
    if "i \<in> set [0..<?n]" for i
  proof -
    from that have i: "i < ?n" by simp
    have eid: "evaluator_id (store_of ids r index i) = ids ! i" by (simp add: store_of_def)
    from W i have "evaluate_universe X (keys ! i) (length u) = Inr (W i)" "length (W i) = length u" by blast+
    from party_response [OF top domain points u P keys pr(1) rid hex i this]
    show ?thesis unfolding replica_by_index [OF stores i] bindr_Inr eid R_def V_def party_request_def by simp
  qed
  have run: "traverse (\<lambda>i. bindr (by_index store_party_index stores i) (\<lambda>s. service_evaluate X H sha256 s
          \<lparr>req_id = rid, req_domain = domain, req_evaluator = evaluator_id s, req_party_index = int i,
           req_party_count = int ?n, req_threshold = r, req_key = keys ! i, req_projection = Some (projection_dict pr)\<rparr>))
        [0..<?n] = Inr (map R [0..<?n])"
    by (rule traverse_Inr) (rule each)
  have first: "resp_id (R 0) = rid" by (simp add: R_def projected_response_def party_request_def)
  have params: "key_params (keys ! i) = P" if "i < ?n" for i
    by (rule drawn_keys_ok(2) [OF keys facts(1)]) (use keys n that in \<open>auto simp: drawn_keys_def intro!: nth_mem\<close>)
  have r: "int (nat r) = r" using v(5) by simp
  have comb: "coordinator_combine (int ?n) r (map R [0..<?n]) (Some (resp_id (R 0))) =
    Inr \<lparr>comb_request_id = resp_id (R 0), comb_domain = resp_domain (R 0), comb_keygen_id = resp_keygen_id (R 0),
      comb_universe_digest = resp_universe_digest (R 0), comb_projection_digest = resp_projection_digest (R 0),
      comb_slot_handles = slot_handles pr, comb_values = map uint (map (\<lambda>k. xor_sum (\<lambda>i. V i ! k) [0..<?n]) [0..<?m])\<rparr>"
  proof (rule coordinator_combine_projected [OF pos])
    show "distinct (map (\<lambda>i. resp_evaluator (R i)) [0..<?n])"
      using v(3) by (simp add: R_def projected_response_def store_of_def map_nth)
    show "response_agrees (R 0) (R i)" if "i < ?n" for i
      using params [OF that] params [OF pos] party_keys(2) [OF keys, of i] that n
      by (simp add: R_def projected_response_def response_agrees_def party_request_def)
  qed (simp_all add: R_def V_def projected_response_def store_of_def r, use v(5) in simp)
  have vals: "uint (xor_sum (\<lambda>i. V i ! k) [0..<?n]) =
      (if nat alpha < length u \<and> slot_handles pr ! k \<in> set (targets_of pr (u ! nat alpha)) then beta else 0)"
    if "k \<in> set [0..<?m]" for k
  proof -
    have "xor_sum (\<lambda>i. V i ! k) [0..<?n] = xor_sum (\<lambda>i. slot_word ?sp u (W i) k) [0..<?n]"
      using that by (intro xor_sum_cong) (simp add: V_def)
    also have "\<dots> = (if nat alpha < length u \<and> slot_handles ?sp ! k \<in> set (targets_of ?sp (u ! nat alpha)) then word_of_int beta else 0)"
      by (rule slot_words_combine) (use sum alpha(1) in auto)
    finally show ?thesis
      using alpha(2,3) by (simp add: sorted_projection_targets [OF pr(2)] uint_word_of_int)
  qed
  show ?thesis
    unfolding run bindr_Inr using comb vals
    by (simp add: first) (simp add: R_def projected_response_def)
qed

section \<open>A private lookup\<close>

lemma store_universes:
  assumes "replica_stores ids r index stores" and "domain \<in> set EVALUATION_DOMAINS"
    and "points_for index domain = Inr u" and "universe_ok u"
  shows "traverse (\<lambda>s. bindr (store_universe s domain) (\<lambda>u. Inr (s, u))) stores = Inr (map (\<lambda>s. (s, u)) stores)"
proof (rule traverse_Inr)
  fix s assume "s \<in> set stores"
  then obtain i where "s = store_of ids r index i" unfolding replica_stores_facts(2) [OF assms(1)] by blast
  then show "bindr (store_universe s domain) (\<lambda>u. Inr (s, u)) = Inr (s, u)"
    using assms(2,3) universe_from_ok [OF assms(4)] by (simp add: store_universe_def store_of_def)
qed

lemma one_digest: "xs \<noteq> [] \<Longrightarrow> length (remdups (map (\<lambda>s. d) xs)) = 1"
proof (induction xs)
  case (Cons x xs)
  then show ?case by (cases xs) auto
qed simp

text \<open>The candidates read from the slots of a combined lookup.\<close>

lemma slot_candidates:
  assumes inj: "inj_on h (set cs)" and slots: "distinct hs" "h ` set cs \<subseteq> set hs"
    and c: "comb_slot_handles s = hs" "comb_values s = map (\<lambda>k. if hs ! k \<in> h ` D then beta else 0) [0..<length hs]"
    and D: "D \<subseteq> set cs"
  shows "map_of (candidate_values (map (\<lambda>c. (h c, c)) cs) (nonzero_slots s)) c =
    (if c \<in> D \<and> beta \<noteq> 0 then Some beta else None)"
proof -
  have len: "length (comb_values s) = length (comb_slot_handles s)" by (simp add: c)
  have d: "distinct (comb_slot_handles s)" using slots(1) by (simp only: c)
  note ns = nonzero_slots_map [OF d len]
  have look: "map_of (zip hs (comb_values s)) (h c) = Some (if c \<in> D then beta else 0)" if "c \<in> set cs"
  proof -
    from that slots(2) have "h c \<in> set hs" by blast
    then obtain k where k: "k < length hs" "hs ! k = h c" by (auto simp: in_set_conv_nth)
    have "h c \<in> h ` D \<longleftrightarrow> c \<in> D" using inj D that by (auto dest: inj_onD)
    with k map_of_zip_nth [of hs "comb_values s" k] slots(1) show ?thesis by (simp add: c)
  qed
  show ?thesis
  proof (cases "c \<in> set cs")
    case True
    have "map_of (nonzero_slots s) (h c) = (if (if c \<in> D then beta else 0) = 0 then None else Some (if c \<in> D then beta else 0))"
      using ns(1) [of "h c"] look [OF True] by (simp add: c)
    with True show ?thesis
      unfolding candidate_values_map [OF inj ns(2)] by (cases "c \<in> D"; cases "beta = 0"; simp)
  next
    case False
    then have "c \<notin> D" using D by blast
    with False show ?thesis unfolding candidate_values_map [OF inj ns(2)] by simp
  qed
qed

lemma universe_params_exist:
  assumes "u \<noteq> []" and "length u \<le> 2 ^ 30" and "3 \<le> parties" "parties \<le> 10" "1 \<le> r" "r < parties"
  shows "\<exists>P. universe_params u parties (Some r) = Inr P"
proof -
  have size: "1 \<le> int (length u)" using assms(1) by (cases u) simp_all
  let ?b = "bit_length (max (int (length u) - 1) 1)"
  have "bit_len_nat (2 ^ 30 - 1) = 30" by (simp add: bit_len_nat.simps)
  moreover have "bit_len_nat (nat \<bar>max (int (length u) - 1) 1\<bar>) \<le> bit_len_nat (2 ^ 30 - 1)"
    by (rule bit_len_nat_mono) (use assms(2) in auto)
  ultimately have upper: "?b \<le> 30" by (simp only: bit_length_def)
  have "max (int (length u) - 1) 1 < 2 ^ ?b" by (rule bit_length_less) simp
  then have "1 \<le> ?b" by (cases ?b) auto
  with upper show ?thesis
    using assms(1) assms(3-)
    by (simp add: universe_params_def universe_bits_def domain_bits_for_universe_def create_params_def make_params_def fss_bounds Let_def)
qed

lemma get_or_candidates: "set (get_or [] pcs p) \<subseteq> set (all_candidates pcs)"
proof (cases "map_of pcs p")
  case (Some cs)
  then have "(p, cs) \<in> set pcs" by (rule map_of_SomeD)
  with Some show ?thesis by (force simp: get_or_def all_candidates_def)
qed (simp add: get_or_def)

lemma token_hex_shift: "\<exists>s. token_hex n g = (s, \<lambda>i. g (i + n)) \<and> (0 < n \<longrightarrow> s \<noteq> [])"
proof -
  obtain s g' where s: "token_hex n g = (s, g')" by (cases "token_hex n g")
  have "g' = (\<lambda>i. g (i + n))" using s by (simp add: token_hex_def token_bytes_def draws_stream)
  moreover have "length s = 2 * n" using token_hex_lower [of n g] s by (simp add: is_lower_hex_def)
  ultimately show ?thesis using s by auto
qed

lemma request_identifier:
  assumes "lively g"
  shows "\<exists>rid g'. (if request_id = [] then token_hex 16 g else (request_id, g)) = (rid, g') \<and> rid \<noteq> [] \<and> lively g'"
proof (cases "request_id = []")
  case True
  from token_hex_shift [of 16 g] obtain s where "token_hex 16 g = (s, \<lambda>i. g (i + 16))" "s \<noteq> []" by auto
  with True lively_shift [OF assms, of 16] show ?thesis by auto
qed (use assms in auto)

lemma universe_of_points: "universe_ok u \<Longrightarrow> sorted u \<and> distinct u \<and> u \<noteq> []"
  by (simp add: universe_ok_def)

lemma projection_of_points:
  assumes "build_xor_projection M hp index domain capacity = Inr (pr, handles)" and "point_candidates index domain = Inr pcs"
  shows "inj_on (handle_of M hp domain) (set (all_candidates pcs))"
    and "handles = map (\<lambda>c. (handle_of M hp domain c, c)) (all_candidates pcs)"
    and "projection_ok pr (map fst pcs)" and "distinct (map fst (point_slots pr))"
    and "handle_of M hp domain ` set (all_candidates pcs) \<subseteq> set (slot_handles pr)"
    and "\<And>p. set (targets_of pr p) = handle_of M hp domain ` set (get_or [] pcs p)"
proof -
  let ?h = "handle_of M hp domain"
  from build_xor_projection_spec [OF assms(1)] obtain pcs' where pcs': "point_candidates index domain = Inr pcs'"
    and spec': "inj_on ?h (set (all_candidates pcs'))" "handles = map (\<lambda>c. (?h c, c)) (all_candidates pcs')"
      "projection_ok pr (map fst pcs')" "set (map fst handles) \<subseteq> set (slot_handles pr)"
      "distinct (map fst (point_slots pr))" "\<forall>p. set (targets_of pr p) = ?h ` set (get_or [] pcs' p)"
    by (elim exE conjE) (rule that)
  have "pcs' = pcs" using assms(2) pcs' by simp
  note spec = spec' [unfolded this]
  show "inj_on ?h (set (all_candidates pcs))" "handles = map (\<lambda>c. (?h c, c)) (all_candidates pcs)"
    "projection_ok pr (map fst pcs)" "distinct (map fst (point_slots pr))"
    by (fact spec(1,2,3,5))+
  show "?h ` set (all_candidates pcs) \<subseteq> set (slot_handles pr)"
    using spec(4) unfolding spec(2) by (simp add: image_image)
  show "set (targets_of pr p) = ?h ` set (get_or [] pcs p)" for p using spec(6) by blast
qed

text \<open>The client's keys: drawn for the rank of the point, or for a zero value when it has none.\<close>

lemma client_keys:
  assumes P: "universe_params u parties (Some r) = Inr P" and g: "lively g"
    and bounds: "0 \<le> alpha" "nat alpha < length u" "0 \<le> val" "val < 2 ^ 64"
    and hex: "\<And>m. is_lower_hex 64 (sha256 m)"
  shows "\<exists>keys g'. generate X alpha val parties (Some r) (Some P) None (universe_digest sha256 u) g = Some (Inr (keys, g')) \<and>
    drawn_keys X P alpha val (universe_digest sha256 u) keys"
proof -
  let ?dg = "universe_digest sha256 u"
  note facts = universe_params_facts [OF P]
  have resolve: "resolve_params parties (Some r) (Some P) None = Inr P"
    using facts(5) facts(6) [OF refl] by (simp add: resolve_params_def)
  have inside: "alpha < int (domain_size P)" using facts(3) bounds(2) by linarith
  have binding: "binding_ok ?dg" using hex by (simp add: binding_ok_def universe_digest_def)
  have valid: "pred_option params_valid (Some P)" using facts(1) by simp
  from bounds(4) have val: "val < 2 ^ OUTPUT_BITS" by (simp add: OUTPUT_BITS_def)
  from generate_success [OF g valid resolve bounds(1) inside bounds(3) val, of X ?dg] binding
  obtain keys g2 where gen: "generate X alpha val parties (Some r) (Some P) None ?dg g = Some (Inr (keys, g2))" by auto
  from generate_drawn [OF gen valid] resolve have "drawn_keys X P alpha val ?dg keys" by auto
  with gen show ?thesis by blast
qed

lemma query_runs:
  assumes top: "validate_topology ids t = Inr r" and stores: "replica_stores ids r index stores"
    and domain: "domain \<in> set EVALUATION_DOMAINS"
    and points: "points_for index domain = Inr u" and u: "universe_ok u" "length u \<le> 2 ^ 30"
    and build: "build_xor_projection M hp index domain capacity = Inr (pr, handles)"
    and pr: "projection_ok pr u" "distinct (map fst (point_slots pr))"
    and g: "lively g" and beta: "0 \<le> beta" "beta < 2 ^ 64"
    and hex: "\<And>m. is_lower_hex 64 (sha256 m)" "\<And>v. is_lower_hex 64 (H v)"
    and rank: "rank_of u (map lower_char p) = rank" "alpha = (case rank of None \<Rightarrow> 0 | Some i \<Rightarrow> int i)"
      "val = (case rank of None \<Rightarrow> 0 | Some i \<Rightarrow> beta)"
  shows "\<exists>res. query X H sha256 M hp stores request_id domain p capacity beta g = Some (Inr res) \<and>
    alpha_in_universe res = (rank \<noteq> None) \<and>
    result_candidates res = candidate_values handles (nonzero_slots (result_combined res)) \<and>
    comb_slot_handles (result_combined res) = slot_handles pr \<and>
    comb_values (result_combined res) =
      map (\<lambda>k. if slot_handles pr ! k \<in> set (targets_of pr (u ! nat alpha)) then val else 0) [0..<length (slot_handles pr)]"
proof -
  let ?n = "length ids" and ?dg = "universe_digest sha256 u"
  note v = validate_topology_Inr [OF top] and su = universe_of_points [OF u(1)]
  have pos: "0 < ?n" using v(1) by (cases ids) simp_all
  from request_identifier [OF g, of request_id] obtain rid g1 where
    rid: "(if request_id = [] then token_hex 16 g else (request_id, g)) = (rid, g1)" "rid \<noteq> []" "lively g1" by blast
  obtain P where P: "universe_params u (int ?n) (Some r) = Inr P"
    using universe_params_exist [of u "int ?n" r] su u(2) v(1,2,5,6) by auto
  have bounds: "0 \<le> alpha" "nat alpha < length u" "0 \<le> val" "val < 2 ^ 64"
    using su rank_of_iff [of u "map lower_char p"] rank beta by (auto split: option.split)
  from client_keys [where X = X and ?sha256.0 = sha256, OF P rid(3) bounds hex(1)] obtain keys g2 where
    gen: "generate X alpha val (int ?n) (Some r) (Some P) None ?dg g1 = Some (Inr (keys, g2))"
    and keys: "drawn_keys X P alpha val ?dg keys" by blast
  from lookup_round [where H = H, OF top stores domain points u(1) P keys pr rid(2) hex] obtain c where
    round: "bindr (traverse (\<lambda>i. bindr (by_index store_party_index stores i) (\<lambda>s. service_evaluate X H sha256 s
          \<lparr>req_id = rid, req_domain = domain, req_evaluator = evaluator_id s, req_party_index = int i,
           req_party_count = int ?n, req_threshold = r, req_key = keys ! i, req_projection = Some (projection_dict pr)\<rparr>)) [0..<?n])
      (\<lambda>responses. coordinator_combine (int ?n) r responses (Some rid)) = Inr c"
    and c: "comb_universe_digest c = ?dg" "comb_slot_handles c = slot_handles pr"
      "comb_values c = map (\<lambda>k. if nat alpha < length u \<and> slot_handles pr ! k \<in> set (targets_of pr (u ! nat alpha)) then val else 0)
        [0..<length (slot_handles pr)]"
    by (elim exE conjE) (rule that)
  have "stores \<noteq> []" using replica_stores_facts(1) [OF stores] pos by auto
  from one_digest [OF this, of ?dg]
  have digests: "length (remdups (map (\<lambda>(s, u). universe_digest sha256 u) (map (\<lambda>s. (s, u)) stores))) = 1"
    by (simp only: map_map comp_def prod.case)
  have first: "by_index (\<lambda>(s, u). store_party_index s) (map (\<lambda>s. (s, u)) stores) 0 = Inr (store_of ids r index 0, u)"
    by (rule by_index_unique) (use replica_stores_facts [OF stores] pos in \<open>auto simp: comp_def store_of_def\<close>)
  have idx: "store_index (store_of ids r index 0) = index" by (simp add: store_of_def)
  have r: "int (nat r) = r" using v(5) by simp
  let ?res = "\<lparr>result_request_id = rid, result_domain = domain, alpha_in_universe = (rank \<noteq> None),
    result_candidates = candidate_values handles (nonzero_slots c), result_combined = c\<rparr>"
  have "query X H sha256 M hp stores request_id domain p capacity beta g = Some (Inr ?res)"
    unfolding query_def rid(1) prod.case Let_def replica_topology [OF stores pos] bindo_simps
      store_universes [OF stores domain points u(1)] digests first rank(1) rank(2,3) [symmetric] r P gen idx build
    using round c(1) by (auto simp: bindr_def split: sum.splits)
  then show ?thesis using c(2,3) bounds(2) by (intro exI [of _ ?res]) simp
qed

text \<open>
  C34: A whole private lookup: on the stores of one replication, in any order, the client gets an
  answer for every point, and the answer holds exactly the candidates the replicated index lists
  under the lower-cased point, each with the value the client asked for; a point outside the
  universe, or the value zero, gives no candidate.
\<close>

theorem private_lookup:
  assumes "validate_topology ids t = Inr r" and "replica_stores ids r index stores"
    and "domain \<in> set EVALUATION_DOMAINS"
    and "points_for index domain = Inr u" and "universe_ok u" and "length u \<le> 2 ^ 30"
    and "build_xor_projection M hp index domain capacity = Inr (pr, handles)"
    and "point_candidates index domain = Inr pcs"
    and "lively g" and "0 \<le> beta" and "beta < 2 ^ 64"
    and "\<And>m. is_lower_hex 64 (sha256 m)" and "\<And>v. is_lower_hex 64 (H v)"
  shows "\<exists>res. query X H sha256 M hp stores request_id domain p capacity beta g = Some (Inr res) \<and>
    alpha_in_universe res = (map lower_char p \<in> set u) \<and>
    (\<forall>c. map_of (result_candidates res) c =
      (if c \<in> set (get_or [] pcs (map lower_char p)) \<and> beta \<noteq> 0 then Some beta else None))"
proof -
  let ?q = "map lower_char p"
  define rank where "rank = rank_of u ?q"
  define alpha where "alpha = (case rank of None \<Rightarrow> 0 | Some i \<Rightarrow> int i)"
  define val where "val = (case rank of None \<Rightarrow> 0 | Some i \<Rightarrow> beta)"
  note su = universe_of_points [OF assms(5)] and spec = projection_of_points [OF assms(7,8)]
  have keyset: "map fst pcs = u" using point_candidates_keys(1) [OF assms(8)] assms(4) by simp
  from query_runs [where X = X and H = H and ?sha256.0 = sha256 and request_id = request_id, OF assms(1-7) spec(3) [unfolded keyset] spec(4) assms(9-13) rank_def [symmetric] alpha_def val_def]
  obtain res where res: "query X H sha256 M hp stores request_id domain p capacity beta g = Some (Inr res)"
    "alpha_in_universe res = (rank \<noteq> None)"
    "result_candidates res = candidate_values handles (nonzero_slots (result_combined res))"
    "comb_slot_handles (result_combined res) = slot_handles pr"
    "comb_values (result_combined res) =
      map (\<lambda>k. if slot_handles pr ! k \<in> set (targets_of pr (u ! nat alpha)) then val else 0) [0..<length (slot_handles pr)]"
    by (elim exE conjE) (rule that)
  let ?D = "set (get_or [] pcs (u ! nat alpha))"
  have distinct: "distinct (slot_handles pr)" using spec(3) by (simp add: projection_ok_def)
  note cands = slot_candidates [OF spec(1) distinct spec(5) res(4) res(5) [unfolded spec(6)] get_or_candidates, folded spec(2) res(3)]
  have hit: "(c \<in> ?D \<and> val \<noteq> 0) = (c \<in> set (get_or [] pcs ?q) \<and> beta \<noteq> 0) \<and> (c \<in> ?D \<and> val \<noteq> 0 \<longrightarrow> val = beta)" for c
  proof (cases rank)
    case None
    then have "?q \<notin> set (map fst pcs)" using rank_of_None [of u ?q] su by (simp add: rank_def keyset)
    then have "map_of pcs ?q = None" by (simp add: map_of_eq_None_iff)
    with None show ?thesis by (simp add: val_def get_or_def)
  next
    case (Some i)
    then have "u ! i = ?q" using rank_of_iff [of u ?q i] su by (simp add: rank_def)
    with Some show ?thesis by (simp add: val_def alpha_def)
  qed
  have "map_of (result_candidates res) c = (if c \<in> set (get_or [] pcs ?q) \<and> beta \<noteq> 0 then Some beta else None)" for c
    using cands [of c] hit [of c] by (cases "c \<in> ?D \<and> val \<noteq> 0") auto
  moreover have "(rank \<noteq> None) = (?q \<in> set u)" using rank_of_None [of u ?q] su by (simp add: rank_def)
  ultimately show ?thesis using res(1,2) by blast
qed

definition sample_hmac :: hmac where
  "sample_hmac k m = [char_of (unat (last m))]"

definition sample_provider :: handle_provider where
  "sample_provider = \<lparr>handle_key = replicate 16 1, query_nonce = replicate 16 2\<rparr>"

definition sample_hex :: string where
  "sample_hex = replicate 64 CHR ''a''"

lemma sample_hex_ok: "is_lower_hex 64 sample_hex"
  by (simp add: is_lower_hex_def sample_hex_def)

lemma sample_points: "points_for [sample_snapshot] ''type'' = Inr [''0000000000000007'']"
  by (simp add: points_for_def index_type_points_def all_points_def sample_snapshot_def)

lemma sample_candidates:
  "point_candidates [sample_snapshot] ''type'' = Inr [(''0000000000000007'', [''0000000000000001'', ''0000000000000002''])]"
  by (simp add: point_candidates_def merge_members_def Let_def sample_snapshot_def)

lemma sample_projection:
  "\<exists>pr handles. build_xor_projection sample_hmac sample_provider [sample_snapshot] ''type'' 3 = Inr (pr, handles)"
  by (simp add: build_xor_projection_def build_projection_def sample_candidates builder_points_for_def sample_points Let_def
    candidate_handle_def padding_handle_def derive_handle_def sample_hmac_def utf8_bytes_def big_bytes_def last_map
    candidate_projection_validate_def check_weight_def DPF_MODULUS_def unit_targets_def projection_validate_def check_targets_def)

lemma sample_replicas: "replica_stores sample_ids 1 [sample_snapshot] (map (store_of sample_ids 1 [sample_snapshot]) [2, 0, 1])"
  by (simp add: replica_stores_def sample_ids_def upt_rec numeral_2_eq_2)

theorem private_lookup_witness:
  "\<exists>res. query sample_xof (\<lambda>_. sample_hex) (\<lambda>_. sample_hex) sample_hmac sample_provider
      (map (store_of sample_ids 1 [sample_snapshot]) [2, 0, 1]) [] ''type'' ''0000000000000007'' 3 5 (\<lambda>_. 1) = Some (Inr res) \<and>
    alpha_in_universe res \<and> map_of (result_candidates res) ''0000000000000002'' = Some 5 \<and>
    map_of (result_candidates res) ''0000000000000007'' = None"
proof -
  from sample_projection obtain pr handles where
    build: "build_xor_projection sample_hmac sample_provider [sample_snapshot] ''type'' 3 = Inr (pr, handles)" by blast
  have u: "universe_ok [''0000000000000007'']" "length [''0000000000000007''] \<le> 2 ^ 30" "''type'' \<in> set EVALUATION_DOMAINS"
    by (simp_all add: universe_ok_def hex_string_def EVALUATION_DOMAINS_def)
  have lower: "map lower_char ''0000000000000007'' = ''0000000000000007''" by (simp add: lower_char_def)
  have "\<exists>res. query sample_xof (\<lambda>_. sample_hex) (\<lambda>_. sample_hex) sample_hmac sample_provider
      (map (store_of sample_ids 1 [sample_snapshot]) [2, 0, 1]) [] ''type'' ''0000000000000007'' 3 5 (\<lambda>_. 1) = Some (Inr res) \<and>
    alpha_in_universe res = (map lower_char ''0000000000000007'' \<in> set [''0000000000000007'']) \<and>
    (\<forall>c. map_of (result_candidates res) c =
      (if c \<in> set (get_or [] [(''0000000000000007'', [''0000000000000001'', ''0000000000000002''])] (map lower_char ''0000000000000007'')) \<and>
        (5 :: int) \<noteq> 0 then Some 5 else None))"
    by (rule private_lookup [OF sample_topology sample_replicas u(3) sample_points u(1,2) build sample_candidates lively_const _ _
      sample_hex_ok sample_hex_ok]) simp_all
  then show ?thesis unfolding lower by (auto simp: get_or_def)
qed

end
