(* ===== verification/Spec2Isabelle.thy ===== *)
theory Spec2Isabelle
  imports Server_Input Clear_Reference Scan_Pipeline Bound_Check Compact_Directory Oram_Sequence Oram_Placement Oram_Inputs Share_Stream Fss_Store Fss_Query
begin

text \<open>
  A verification library for the secure retrieval of FedKG-RAG: a client asks, for a subject and
  two relations, which two-hop paths of a knowledge graph held by several owners score best, and
  neither the query nor the edges are seen by the three servers that compute the answer.

  \<^bold>\<open>The program.\<close>  The package \<open>doram_t2_3pc\<close> has a public configuration, which every party
  hashes; owners, who turn their edges into a table (dense, packed, hashed, type-blocked, paged or
  a tree ORAM) and share it additively over a prime field; a client, who shares the query; three
  servers, each of which assembles the pieces it received into the input of a generated MP-SPDZ
  program; and the client's decoder of the three logs.  Every backend has a cleartext oracle the
  circuit is meant to agree with.  The package \<open>multiparty_fss\<close> answers lookups in an index of
  opaque identifiers replicated at N evaluators: the client shares a point function among them, each
  evaluates its share on the whole universe and routes it to candidate slots, and the exclusive-or
  of the N answers is the candidates of the queried point.

  \<^bold>\<open>The theories\<close>, in the order of the calls:
  \<^item> \<open>Prelude\<close>, \<open>Py_Values\<close>, \<open>Bit_Packing\<close>: exceptions as a sum type (\<open>'a res\<close>), loops that may
    raise (\<open>traverse\<close>, \<open>foldM\<close>), insertion-ordered dictionaries, JSON values, subscripts, bit
    lengths, the system generator as a stream of draws, shift-and-or packing of a field list.
  \<^item> \<open>Public_Config\<close> (\<open>config.py\<close>): the record, validation, the hashed dictionary and its digest.
  \<^item> \<open>Field_Sharing\<close> (\<open>sharing.py\<close>): dealing, reconstruction, perfect privacy against two servers.
  \<^item> \<open>Edge_Packing\<close>, \<open>Owner_Layout\<close>, \<open>Server_Input\<close> (\<open>packed.py\<close>, \<open>prepare.py\<close>,
    \<open>scalable_prepare.py\<close>): one field element per edge, the padded owner table, shards and the
    assembly at a server.
  \<^item> \<open>Top_K\<close>, \<open>Clear_Reference\<close> (\<open>reference.py\<close>): ranking and the raw-edge oracle, against the
    specification that ranks the two-hop join of all owners' edges.
  \<^item> \<open>Mpc_Machine\<close>, \<open>Rank_Circuit\<close>, \<open>Scan_Circuit\<close>, \<open>Scan_Refinement\<close>, \<open>Decode_Batch\<close>,
    \<open>Scan_Pipeline\<close> (\<open>scan_program.py\<close>, \<open>decode.py\<close>, \<open>decode_batch.py\<close>): the generated circuit
    as a function over a record of secret operations, its refinement of the oracle, and the whole
    pipeline from the owners' files to the decoded answers.
  \<^item> \<open>Compact_Directory\<close>, \<open>Type_Blocked\<close> (\<open>compact_directory.py\<close>, \<open>type_blocked_directory.py\<close>):
    two private directories, each against the finite map it implements.
  \<^item> \<open>Page_Layout\<close>, \<open>Relation_Pages\<close>, \<open>Page_Pool\<close>, \<open>Paged_Join\<close> (\<open>relation_pages.py\<close>): the
    relation-paged layout, that reading it back loses nothing, and its oracle against the join.
  \<^item> \<open>Page_Circuit\<close>, \<open>Page_Scan\<close>, \<open>Page_Refinement\<close>, \<open>Page_Pipeline\<close> (\<open>page_program.py\<close>): the
    generated relation-paged circuit with its dense, hashed and hybrid directories and its
    ablations, what each scan of the dense one reads, that the circuit refines the paged oracle,
    and the decoding of its logs.
  \<^item> \<open>Paged_Shares\<close> (\<open>paged_shares.py\<close>): owners' shards of the paged layout, the assembly that
    sums shifted descriptors into packed columns, the input of the bound check, and the whole paged
    pipeline from the owners' files to the decoded answers.
  \<^item> \<open>Bound_Check\<close> (\<open>bound_check_program.py\<close>): the interpolated overflow predicate and the circuit
    that opens the number of keys over the federation-wide bound, for the three directories.
  \<^item> \<open>Oram_Tree\<close>, \<open>Oram_Stack\<close>, \<open>Oram_Bounds\<close>, \<open>Oram_Sequence\<close>, \<open>Oram_Placement\<close>
    (\<open>oram_layout.py\<close>): one tree, the recursive stack, its capacity and cost formulas, runs of
    accesses with stash and labels, and when a construction with the source's bucket formulas
    succeeds or fails.
  \<^item> \<open>Relation_Paged_Oram\<close>, \<open>Kg_Oram\<close>, \<open>Oram_Access\<close>, \<open>Oram_Epoch\<close>, \<open>Oram_Inputs\<close>,
    \<open>Share_Stream\<close> (\<open>relation_paged_oram.py\<close>, \<open>kg_oram.py\<close>, \<open>oram_access.py\<close>,
    \<open>oram_epoch.py\<close>, \<open>relation_paged_oram_epoch.py\<close>, \<open>kg_oram_shares.py\<close>,
    \<open>relation_paged_oram_shares.py\<close>, the planning halves of the two ORAM program generators): the
    two ORAM backends, the one-use authorization of an epoch, the inputs of the servers and the
    streaming writers.
  \<^item> \<open>Fss_Params\<close>, \<open>Fss_Keys\<close>, \<open>Fss_Xor\<close>, \<open>Fss_Correct\<close>, \<open>Fss_Point\<close> (\<open>params.py\<close>, \<open>parity.py\<close>,
    \<open>prg.py\<close>, \<open>keygen.py\<close>, \<open>evaluate.py\<close>, \<open>combine.py\<close> of \<open>multiparty_fss\<close>): the many-party point
    function, that its shares combine to the point, and that every coalition misses a seed.
  \<^item> \<open>Fss_Wire\<close> (\<open>keyshare.py\<close>): the document of a key, with base64, read and written exactly.
  \<^item> \<open>Fss_Index\<close>, \<open>Fss_Snapshot\<close>, \<open>Fss_Store\<close> (\<open>domain.py\<close>, \<open>replication.py\<close>, \<open>service.py\<close>,
    \<open>src/party/opaque_index_snapshot.py\<close>): universes and snapshots, the reading of a snapshot from
    its JSON value, the files of a replica and the loading of a store from them.
  \<^item> \<open>Fss_Projection\<close>, \<open>Fss_Service\<close>, \<open>Fss_Query\<close> (\<open>projection.py\<close>, \<open>requests.py\<close>,
    \<open>service.py\<close>, \<open>orchestrator.py\<close>, \<open>src/runtime/fss_projection_builder.py\<close>): routing of points
    to padded slots, the evaluators, the coordinator, and a whole private lookup against the plain
    lookup in the replicated index.
  \<^bold>\<open>How state and data correspond.\<close>  A data class is a record with the source's field names, a
  dictionary an association list in insertion order, a document a list of named JSON values, a
  Python integer an \<open>int\<close> (a \<open>nat\<close> for counters that are never negative), a NumPy \<open>uint64\<close> a
  \<open>64 word\<close>.  A raise is \<open>Inl\<close> of an exception whose payload is the fixed leading part of the
  message.  A routine that writes a file returns what it writes; one that reads it takes it as an
  argument.  A check on a type the signature already fixes holds by typing.

  \<^bold>\<open>Parameters of the model.\<close>
  \<^item> The hash of a canonical document is a function \<open>H\<close>; no property needs it to be injective
    unless it says so.
  \<^item> SHAKE-256 is a function \<open>xof\<close> from a message to its output stream, SHA-256 of bytes and HMAC
    are functions to texts; a property that needs their output to be hexadecimal says so.
  \<^item> A store directory is the list of its files, a relative path and the value of the JSON text each;
    paths are resolved as text, so there are no symbolic links.
  \<^item> The system generator is a stream of draws; a property about privacy counts draws.
  \<^item> The secret operations of MP-SPDZ are the record \<open>mpc_ops\<close>, with the laws of the locale
    \<open>mpc_machine\<close> (addition and multiplication mod the prime, comparison and bit decomposition
    below the declared widths, resharing); \<open>Mpc_Machine\<close> interprets it on the clear operations.
  \<^item> The field of the bound check: its property assumes that the numbers up to the largest count
    are invertible, which the primality of the audited fields gives.
  \<^item> The shape an ORAM build uses (levels and bucket size) is an argument of the build: the source
    derives it by floating point, which \<open>Oram_Tree\<close> gives over the reals, with the domain error the
    logarithm raises; \<open>Oram_Placement\<close> instantiates the argument with the source's formulas.

  \<^bold>\<open>Loops and bounds.\<close>  Bounded retries keep their bound (64 attempts of an ORAM build), the
  rejection sampling of masks and of nonzero seeds is \<open>partial_function (option)\<close>, and the planning loop of the cost
  estimate is one whose divergence is characterised.  Everything else is structural recursion.

  \<^bold>\<open>Interfaces.\<close>  \<open>codec\<close> (an injective encoding: edges, descriptors, directory slots),
  \<open>secret_sharing\<close>, \<open>mpc_machine\<close> (secret arithmetic), \<open>descriptor_store\<close> (a directory),
  \<open>record_store\<close> (a built ORAM) and \<open>input_epoch\<close> (an authorization the assembly accepts) are
  interpreted in the theories that provide them, and the properties rest on those facts.

  \<^bold>\<open>Not modelled.\<close>  File modes, atomic renames and directory creation (\<open>io.py\<close>); the text of the
  generated programs other than the scan, the relation-paged and the bound-check circuit; the refinement of the
  paged circuit over its hashed and hybrid directories (the circuit is modelled, the proof covers
  the dense directory);
  the command-line harnesses, traffic shaping and argument parsing, which are input and output
  only; the two-party service, the wire format of responses, socket framing and the baselines of
  the point functions; the planning of hybrid directories, volume hiding, capacity planning and the
  retrieval bridge; the fixture builders and evaluation drivers of
  \<open>scripts\<close>; the earlier client under \<open>mpspdz_client_excluded\<close>; and the service layer under \<open>src\<close>
  except where a modelled component calls it, most of which drives external programs.
\<close>

end
